(* ===== verification/Prelude.thy ===== *)
theory Prelude
  imports Main "HOL-Library.Word" "HOL-Library.Monad_Syntax"
begin

unbundle bit_operations_syntax

text \<open>
  Shared base of the PureOS development: the machine integers of the Rust sources, the
  little-endian codec behind \<open>to_le_bytes\<close>, \<open>from_le_bytes\<close> and raw pointer casts, the
  byte-addressed physical memory that the kernel reaches through its identity mapping, page
  alignment, fixed-size arrays and bounded searches. The kernel is built with
  \<open>cargo build --release\<close>, where arithmetic on \<open>u8 .. u64\<close> wraps around, so machine integers are
  words and \<open>+\<close>, \<open>-\<close>, \<open>*\<close> are those of \<open>'a word\<close>.
\<close>

section \<open>Types and collections\<close>

type_synonym u8 = "8 word"
type_synonym u16 = "16 word"
type_synonym u32 = "32 word"
type_synonym u64 = "64 word"

text \<open>\<open>mem_simps\<close>: reading back what was written, and what a write leaves alone.
  \<open>page_simps\<close>: alignment and page arithmetic.\<close>

named_theorems mem_simps
named_theorems page_simps

section \<open>Signed integers\<close>

text \<open>\<open>i32\<close> reads an integer modulo \<open>2\<^sup>3\<^sup>2\<close> as a signed value, as a cast or a wrapping operation does.\<close>

definition i32 :: "int \<Rightarrow> int" where
  "i32 z = (z + 2 ^ 31) mod 2 ^ 32 - 2 ^ 31"

definition as_i32 :: "u32 \<Rightarrow> int" where
  "as_i32 w = i32 (uint w)"

text \<open>Division of \<open>i32\<close> truncates towards zero.\<close>

definition quot_i32 :: "int \<Rightarrow> int \<Rightarrow> int" where
  "quot_i32 z d = (if z \<ge> 0 then z div d else - ((- z) div d))"

lemma i32_id [simp]: "- (2 ^ 31) \<le> z \<Longrightarrow> z < 2 ^ 31 \<Longrightarrow> i32 z = z"
  by (simp add: i32_def)

lemma i32_idI: "- 2147483648 \<le> z \<Longrightarrow> z < 2147483648 \<Longrightarrow> i32 z = z"
  by simp

lemma uint_small: "w < 0x40000000 \<Longrightarrow> uint w < 1073741824" for w :: u32
  by (simp add: word_less_def)

lemma as_i32_small: "w < 0x40000000 \<Longrightarrow> as_i32 w = uint w"
  unfolding as_i32_def using uint_small [of w] uint_ge_0 [of w] by (intro i32_idI) linarith+

section \<open>Bytes of words\<close>

lemma bit_ff [simp]: "bit (0xFF :: 'a::len word) i \<longleftrightarrow> i < 8 \<and> i < LENGTH('a)"
proof -
  have "bit (mask 8 :: 'a word) i \<longleftrightarrow> i < 8 \<and> i < LENGTH('a)" by (auto simp: bit_mask_iff)
  then show ?thesis by (simp add: mask_eq_exp_minus_1)
qed

lemma bit_ff_int [simp]: "bit (0xFF :: int) i \<longleftrightarrow> i < 8"
proof -
  have "bit (mask 8 :: int) i \<longleftrightarrow> i < 8" by (simp add: bit_mask_iff)
  then show ?thesis by (simp add: mask_eq_exp_minus_1)
qed

lemma unat_u8: "unat (a :: u8) < 256"
  using unsigned_less [of a, where ?'a = nat] by simp

section \<open>Little-endian codec\<close>

fun to_le :: "nat \<Rightarrow> 'a::len word \<Rightarrow> u8 list" where
  "to_le 0 w = []"
| "to_le (Suc n) w = ucast w # to_le n (drop_bit 8 w)"

fun from_le :: "u8 list \<Rightarrow> 'a::len word" where
  "from_le [] = 0"
| "from_le (b # bs) = ucast b OR push_bit 8 (from_le bs)"

lemma length_to_le [simp]: "length (to_le n w) = n"
  by (induction n arbitrary: w) auto

lemma from_le_to_le_take: "from_le (to_le n w) = take_bit (8 * n) w"
proof (induction n arbitrary: w)
  case 0
  then show ?case by simp
next
  case (Suc n)
  show ?case
  proof (rule bit_word_eqI)
    fix i assume "i < LENGTH('a)"
    then show "bit (from_le (to_le (Suc n) w) :: 'a word) i = bit (take_bit (8 * Suc n) w) i"
      by (auto simp: Suc bit_or_iff bit_push_bit_iff bit_take_bit_iff bit_drop_bit_eq
          bit_ucast_iff dest: bit_imp_le_length)
  qed
qed

lemma from_le_to_le [simp]: "LENGTH('a) \<le> 8 * n \<Longrightarrow> from_le (to_le n w) = (w :: 'a::len word)"
  by (simp add: from_le_to_le_take take_bit_word_eq_self)

lemma bit_from_le_less: "bit (from_le bs :: 'a::len word) i \<Longrightarrow> i < 8 * length bs"
proof (induction bs arbitrary: i)
  case Nil
  then show ?case by simp
next
  case (Cons b bs)
  from Cons.prems consider "bit (ucast b :: 'a word) i" | "8 \<le> i" "bit (from_le bs :: 'a word) (i - 8)"
    by (auto simp: bit_or_iff bit_push_bit_iff)
  then show ?case
  proof cases
    case 1
    then have "bit b i" by (simp add: bit_ucast_iff)
    then have "i < 8" using bit_imp_le_length by fastforce
    then show ?thesis by simp
  next
    case 2
    with Cons.IH [of "i - 8"] show ?thesis by auto
  qed
qed

lemma to_le_from_le:
  "8 * length bs \<le> LENGTH('a) \<Longrightarrow> to_le (length bs) (from_le bs :: 'a::len word) = bs"
proof (induction bs)
  case Nil
  then show ?case by simp
next
  case (Cons b bs)
  let ?r = "from_le bs :: 'a word"
  have "ucast (ucast b OR push_bit 8 ?r) = b"
    using Cons.prems
    by (intro bit_word_eqI) (auto simp: bit_ucast_iff bit_or_iff bit_push_bit_iff)
  moreover have "drop_bit 8 (ucast b OR push_bit 8 ?r) = ?r"
  proof (rule bit_word_eqI)
    fix i assume "i < LENGTH('a)"
    have "\<not> bit b (8 + i)" using bit_imp_le_length [of b "8 + i"] by auto
    moreover have "bit ?r i \<Longrightarrow> 8 + i < LENGTH('a)"
      using bit_from_le_less [of bs i] Cons.prems by fastforce
    ultimately show "bit (drop_bit 8 (ucast b OR push_bit 8 ?r)) i = bit ?r i"
      by (auto simp: bit_drop_bit_eq bit_or_iff bit_push_bit_iff bit_ucast_iff
          dest: bit_imp_le_length)
  qed
  ultimately show ?case using Cons by simp
qed

section \<open>Physical memory\<close>

type_synonym memory = "u64 \<Rightarrow> u8"

text \<open>
  \<open>mwrite m a bs\<close> is the effect of the byte loops (and of \<open>write_bytes\<close>, \<open>write_volatile\<close>) that
  store \<open>bs\<close> at the addresses \<open>a\<close>, \<open>a + 1\<close>, \<dots>; \<open>mread m a n\<close> reads \<open>n\<close> bytes back.
\<close>

definition mwrite :: "memory \<Rightarrow> u64 \<Rightarrow> u8 list \<Rightarrow> memory" where
  "mwrite m a bs = (\<lambda>x. if unat (x - a) < length bs then bs ! unat (x - a) else m x)"

definition mfill :: "memory \<Rightarrow> u64 \<Rightarrow> nat \<Rightarrow> u8 \<Rightarrow> memory" where
  "mfill m a n v = (\<lambda>x. if unat (x - a) < n then v else m x)"

definition mread :: "memory \<Rightarrow> u64 \<Rightarrow> nat \<Rightarrow> u8 list" where
  "mread m a n = map (\<lambda>i. m (a + word_of_nat i)) [0..<n]"

definition arange :: "u64 \<Rightarrow> nat \<Rightarrow> u64 set" where
  "arange a n = {x. unat (x - a) < n}"

definition read_u64 :: "memory \<Rightarrow> u64 \<Rightarrow> u64" where
  "read_u64 m a = from_le (mread m a 8)"

definition write_u64 :: "memory \<Rightarrow> u64 \<Rightarrow> u64 \<Rightarrow> memory" where
  "write_u64 m a v = mwrite m a (to_le 8 v)"

definition write_u32 :: "memory \<Rightarrow> u64 \<Rightarrow> u32 \<Rightarrow> memory" where
  "write_u32 m a v = mwrite m a (to_le 4 v)"

lemma length_mread [simp]: "length (mread m a n) = n"
  by (simp add: mread_def)

lemma unat_word_of_nat [simp]: "i < 2 ^ 64 \<Longrightarrow> unat (word_of_nat i :: u64) = i"
  by (simp add: unat_of_nat)

lemma mread_mwrite_same [mem_simps]:
  "length bs \<le> 2 ^ 64 \<Longrightarrow> mread (mwrite m a bs) a (length bs) = bs"
  by (intro nth_equalityI) (auto simp: mread_def mwrite_def)

lemma mwrite_outside: "x \<notin> arange a (length bs) \<Longrightarrow> mwrite m a bs x = m x"
  by (simp add: arange_def mwrite_def)

lemma mfill_outside: "x \<notin> arange a n \<Longrightarrow> mfill m a n v x = m x"
  by (simp add: arange_def mfill_def)

lemma mem_arange: "i < n \<Longrightarrow> n \<le> 2 ^ 64 \<Longrightarrow> a + word_of_nat i \<in> arange a n"
  by (simp add: arange_def)

lemma mread_cong:
  "n \<le> 2 ^ 64 \<Longrightarrow> (\<And>x. x \<in> arange a n \<Longrightarrow> m x = m' x) \<Longrightarrow> mread m a n = mread m' a n"
  by (auto simp: mread_def mem_arange)

lemma mread_mwrite_disjoint:
  "n \<le> 2 ^ 64 \<Longrightarrow> arange a n \<inter> arange b (length bs) = {} \<Longrightarrow> mread (mwrite m b bs) a n = mread m a n"
  by (rule mread_cong) (auto simp: disjoint_iff intro: mwrite_outside)

lemma read_write_u64 [mem_simps]: "read_u64 (write_u64 m a v) a = v"
  using mread_mwrite_same [of "to_le 8 v" m a] by (simp add: read_u64_def write_u64_def)

lemma read_u64_cong: "(\<And>x. x \<in> arange a 8 \<Longrightarrow> m x = m' x) \<Longrightarrow> read_u64 m a = read_u64 m' a"
  unfolding read_u64_def by (subst mread_cong [of 8 a m m']) auto

lemma from_le_zeros: "from_le (replicate n 0) = 0"
  by (induction n) auto

lemma read_u64_zero:
  assumes "\<And>x. x \<in> arange a 8 \<Longrightarrow> m x = 0"
  shows "read_u64 m a = 0"
proof -
  have "mread m a 8 = replicate 8 0"
    using assms by (intro nth_equalityI) (auto simp: mread_def mem_arange)
  then show ?thesis by (simp only: read_u64_def from_le_zeros)
qed

text \<open>Two eight-byte cells that are at least eight bytes apart do not meet.\<close>

lemma arange_8_apart: "8 \<le> unat (b - a) \<Longrightarrow> unat (b - a) + 8 \<le> 2 ^ 64 \<Longrightarrow> arange a 8 \<inter> arange b 8 = {}"
  for a b :: u64
proof -
  assume ab: "8 \<le> unat (b - a)" "unat (b - a) + 8 \<le> 2 ^ 64"
  have "\<not> (unat (x - a) < 8 \<and> unat (x - b) < 8)" for x
  proof
    assume x: "unat (x - a) < 8 \<and> unat (x - b) < 8"
    have "unat ((x - b) + (b - a)) = unat (x - b) + unat (b - a)"
      using x ab by (intro unat_add_lem [THEN iffD1]) auto
    then show False using x ab by simp
  qed
  then show ?thesis by (auto simp: arange_def)
qed

lemma read_write_u64_disjoint:
  "arange a 8 \<inter> arange b 8 = {} \<Longrightarrow> read_u64 (write_u64 m b v) a = read_u64 m a"
  by (intro read_u64_cong) (auto simp: write_u64_def intro!: mwrite_outside)

lemma read_write_u64_apart:
  "8 \<le> unat (b - a) \<Longrightarrow> unat (b - a) + 8 \<le> 2 ^ 64 \<Longrightarrow> read_u64 (write_u64 m b v) a = read_u64 m a"
  using arange_8_apart read_write_u64_disjoint by blast

section \<open>Page alignment\<close>

abbreviation page_mask :: u64 where
  "page_mask \<equiv> 0xFFF"

definition page_aligned :: "u64 \<Rightarrow> bool" where
  "page_aligned a \<longleftrightarrow> a AND page_mask = 0"

lemma and_page_mask: "unat (a AND page_mask) = unat (a :: u64) mod 4096"
proof -
  have "a AND page_mask = take_bit 12 a"
    by (simp add: take_bit_eq_mask mask_eq_decr_exp)
  then show ?thesis by (simp add: take_bit_eq_mod unat_mod)
qed

lemma page_aligned_iff: "page_aligned a \<longleftrightarrow> 4096 dvd unat a"
proof -
  have "page_aligned a \<longleftrightarrow> unat (a AND page_mask) = 0"
    by (simp add: page_aligned_def unat_eq_zero)
  then show ?thesis by (simp add: and_page_mask dvd_eq_mod_eq_0)
qed

lemma and_not_eq_diff: "a AND NOT b = a - (a AND b)" for a b :: "'a::len word"
proof -
  have "a - (a AND b) = a AND NOT (a AND b)"
    by (rule disjunctive_diff) (simp add: bit_and_iff)
  also have "\<dots> = a AND NOT b"
    by (rule bit_word_eqI) (auto simp: bit_and_iff bit_or_iff bit_not_iff)
  finally show ?thesis by simp
qed

text \<open>\<open>x & !0xFFF\<close> of the sources.\<close>

definition page_down :: "u64 \<Rightarrow> u64" where
  "page_down a = a AND NOT 0xFFF"

lemma unat_page_down [page_simps]: "unat (page_down a) = unat a div 4096 * 4096"
proof -
  have "page_down a = a - (a AND page_mask)"
    unfolding page_down_def by (rule and_not_eq_diff)
  moreover have "unat (a AND page_mask) \<le> unat a" by (simp add: and_page_mask)
  ultimately have "unat (page_down a) = unat a - unat a mod 4096"
    by (simp only: unat_sub word_le_nat_alt and_page_mask)
  then show ?thesis by (simp add: minus_mod_eq_div_mult)
qed

lemma page_aligned_down [simp]: "page_aligned (page_down a)"
  by (simp add: page_aligned_iff unat_page_down)

text \<open>An address lies in the page at an aligned base exactly when both have the same page number.\<close>

lemma in_page_iff:
  assumes "page_aligned p"
  shows "unat (x - p) < 4096 \<longleftrightarrow> unat x div 4096 = unat p div 4096"
proof -
  obtain k where k: "unat p = 4096 * k"
    using assms by (auto simp: page_aligned_iff elim: dvdE)
  have "unat p < 2 ^ 64" using unsigned_less [of p] by simp
  then have "k < 2 ^ 52" using k by simp
  then show ?thesis
    using k unsigned_less [of x] by (auto simp: unat_sub_if')
qed

lemma page_disjoint:
  assumes "page_aligned p" "page_aligned q" "p \<noteq> q" "n \<le> 4096" "n' \<le> 4096"
  shows "arange p n \<inter> arange q n' = {}"
proof -
  have "unat p div 4096 \<noteq> unat q div 4096"
    using assms(1-3) by (auto simp: page_aligned_iff word_unat_eq_iff elim!: dvdE)
  then have "\<not> (unat (x - p) < 4096 \<and> unat (x - q) < 4096)" for x
    by (simp add: in_page_iff assms)
  then show ?thesis
    using assms(4,5) by (simp add: arange_def disjoint_iff) (meson order_less_le_trans)
qed

section \<open>Bounded searches and arrays\<close>

text \<open>
  The kernel finds free slots, children and runnable processes by scanning an index range in
  order. \<open>find_first\<close> is that loop.
\<close>

fun find_first :: "('i \<Rightarrow> bool) \<Rightarrow> 'i list \<Rightarrow> 'i option" where
  "find_first P [] = None"
| "find_first P (i # is) = (if P i then Some i else find_first P is)"

lemma find_first_Some: "find_first P xs = Some i \<Longrightarrow> i \<in> set xs \<and> P i"
  by (induction xs) (auto split: if_splits)

lemma find_first_None [simp]: "find_first P xs = None \<longleftrightarrow> (\<forall>i \<in> set xs. \<not> P i)"
  by (induction xs) auto

lemma find_first_cong: "(\<And>i. i \<in> set xs \<Longrightarrow> P i = Q i) \<Longrightarrow> find_first P xs = find_first Q xs"
  by (induction xs) auto

lemma find_first_least:
  "find_first P xs = Some i \<Longrightarrow> sorted xs \<Longrightarrow> j \<in> set xs \<Longrightarrow> j < i \<Longrightarrow> \<not> P (j :: nat)"
  by (induction xs) (auto split: if_splits)

end
