(* ===== verification/Frame.thy ===== *)
theory Frame
  imports Prelude
begin

unbundle bit_operations_syntax

text \<open>
  The physical frame allocator of \<open>src/kernel/src/frame.rs\<close>: a bump pointer over the pool that
  the UEFI loader reserved, and a free list threaded through the freed frames themselves (the
  first eight bytes of a free frame hold the address of the next one). Physical memory is mapped
  identically, so the list lives in \<^term>\<open>kmem\<close>.

  The interface \<open>frame_pool\<close> states what the clients (page tables, process memory, the ELF
  loader) rely on: the allocator is a set of available frames, \<open>alloc\<close> takes one out and \<open>free\<close>
  puts one back. The interpretation at the end discharges it for the linked-list implementation.
\<close>

section \<open>State\<close>

abbreviation FRAME_SIZE :: u64 where
  "FRAME_SIZE \<equiv> 4096"

text \<open>The statics of \<open>frame.rs\<close>, and the memory they describe. Later components extend the record.\<close>

record frame_state =
  kmem :: memory
  POOL_NEXT :: u64
  POOL_END :: u64
  POOL_BASE :: u64
  FREE_LIST_HEAD :: u64
  TOTAL_PHYSICAL_MEMORY :: u64

record frame_stats =
  total_bytes :: u64
  used_bytes :: u64
  free_bytes :: u64
  total_frames :: u64
  used_frames :: u64
  free_frames :: u64

section \<open>Operations\<close>

definition saturating_sub :: "'a::len word \<Rightarrow> 'a word \<Rightarrow> 'a word" where
  "saturating_sub a b = (if b \<le> a then a - b else 0)"

definition stats :: "'a frame_state_scheme \<Rightarrow> frame_stats" where
  "stats s =
     (if POOL_BASE s = 0 \<or> POOL_END s \<le> POOL_BASE s then
        \<lparr>total_bytes = 0, used_bytes = 0, free_bytes = 0,
         total_frames = 0, used_frames = 0, free_frames = 0\<rparr>
      else
        let total = POOL_END s - POOL_BASE s;
            used = saturating_sub (POOL_NEXT s) (POOL_BASE s);
            free = total - used
        in \<lparr>total_bytes = total, used_bytes = used, free_bytes = free,
            total_frames = total div FRAME_SIZE,
            used_frames = used div FRAME_SIZE,
            free_frames = free div FRAME_SIZE\<rparr>)"

text \<open>The list walk of \<open>real_stats\<close>: it only ends if the list does.\<close>

partial_function (option) count_free :: "memory \<Rightarrow> u64 \<Rightarrow> u64 \<Rightarrow> u64 option" where
  "count_free m f free =
     (if f \<noteq> 0 then count_free m (read_u64 m f) (free + 1) else Some free)"

declare count_free.simps [code]

definition real_stats :: "'a frame_state_scheme \<Rightarrow> frame_stats option" where
  "real_stats s =
     do {
       let st = stats s;
       free \<leftarrow> count_free (kmem s) (FREE_LIST_HEAD s) (free_frames st);
       Some \<lparr>total_bytes = total_bytes st,
             used_bytes = (total_frames st - free) * FRAME_SIZE,
             free_bytes = free * FRAME_SIZE,
             total_frames = total_frames st,
             used_frames = total_frames st - free,
             free_frames = free\<rparr>
     }"

definition frame_init :: "u64 \<Rightarrow> u64 \<Rightarrow> 'a frame_state_scheme \<Rightarrow> 'a frame_state_scheme" where
  "frame_init base sz s =
     (if sz = 0 then
        s\<lparr>POOL_NEXT := 0, POOL_END := 0, POOL_BASE := 0, FREE_LIST_HEAD := 0\<rparr>
      else
        let aligned = page_down (base + FRAME_SIZE - 1)
        in s\<lparr>POOL_NEXT := aligned, POOL_BASE := aligned, POOL_END := base + sz,
             FREE_LIST_HEAD := 0\<rparr>)"

definition free_frame :: "u64 \<Rightarrow> 'a frame_state_scheme \<Rightarrow> 'a frame_state_scheme" where
  "free_frame phys s =
     (if phys = 0 \<or> phys AND 0xFFF \<noteq> 0 then s
      else s\<lparr>kmem := write_u64 (kmem s) phys (FREE_LIST_HEAD s), FREE_LIST_HEAD := phys\<rparr>)"

definition alloc_frame :: "'a frame_state_scheme \<Rightarrow> u64 option \<times> 'a frame_state_scheme" where
  "alloc_frame s =
     (if FREE_LIST_HEAD s \<noteq> 0 then
        let frame = FREE_LIST_HEAD s
        in (Some frame,
            s\<lparr>FREE_LIST_HEAD := read_u64 (kmem s) frame,
              kmem := mfill (kmem s) frame 4096 0\<rparr>)
      else
        let next = POOL_NEXT s
        in if next = 0 \<or> next + FRAME_SIZE > POOL_END s then (None, s)
           else (Some next,
                 s\<lparr>POOL_NEXT := next + FRAME_SIZE, kmem := mfill (kmem s) next 4096 0\<rparr>))"

definition set_total_physical_memory :: "u64 \<Rightarrow> 'a frame_state_scheme \<Rightarrow> 'a frame_state_scheme" where
  "set_total_physical_memory amount s = s\<lparr>TOTAL_PHYSICAL_MEMORY := amount\<rparr>"

definition total_physical_memory :: "'a frame_state_scheme \<Rightarrow> u64" where
  "total_physical_memory s = TOTAL_PHYSICAL_MEMORY s"

section \<open>The free list as a heap chain\<close>

fun frame_chain :: "memory \<Rightarrow> u64 \<Rightarrow> u64 list \<Rightarrow> bool" where
  "frame_chain m h [] \<longleftrightarrow> h = 0"
| "frame_chain m h (f # fs) \<longleftrightarrow> h = f \<and> f \<noteq> 0 \<and> frame_chain m (read_u64 m f) fs"

lemma frame_chain_0 [simp]: "frame_chain m 0 fs \<longleftrightarrow> fs = []"
  by (cases fs) auto

lemma frame_chain_nonzero: "h \<noteq> 0 \<Longrightarrow> frame_chain m h fs \<longleftrightarrow> (\<exists>gs. fs = h # gs \<and> frame_chain m (read_u64 m h) gs)"
  by (cases fs) auto

lemma frame_chain_unique: "frame_chain m h fs \<Longrightarrow> frame_chain m h gs \<Longrightarrow> fs = gs"
proof (induction fs arbitrary: h gs)
  case Nil
  then show ?case by simp
next
  case (Cons f fs)
  then show ?case by (cases gs) auto
qed

lemma frame_chain_cong:
  "frame_chain m h fs \<Longrightarrow> (\<And>f. f \<in> set fs \<Longrightarrow> read_u64 m' f = read_u64 m f) \<Longrightarrow> frame_chain m' h fs"
  by (induction fs arbitrary: h) auto

text \<open>Writing inside a page outside the list keeps the list.\<close>

lemma frame_chain_frame_upd:
  assumes "frame_chain m h fs" "\<forall>f \<in> set fs. page_aligned f" "page_aligned p" "p \<notin> set fs"
    and "\<And>x. x \<notin> arange p 4096 \<Longrightarrow> m' x = m x"
  shows "frame_chain m' h fs"
proof (rule frame_chain_cong [OF assms(1)])
  fix f assume f: "f \<in> set fs"
  then have "arange f 8 \<inter> arange p 4096 = {}"
    using assms(2-4) by (intro page_disjoint) auto
  then show "read_u64 m' f = read_u64 m f"
    by (intro read_u64_cong assms(5)) auto
qed

lemma count_free_chain: "frame_chain m h fs \<Longrightarrow> count_free m h n = Some (n + word_of_nat (length fs))"
proof (induction fs arbitrary: h n)
  case Nil
  then show ?case by (simp add: count_free.simps)
next
  case (Cons f fs)
  then show ?case by (subst count_free.simps) (simp add: add.assoc add.commute)
qed


section \<open>Invariant and available frames\<close>

definition bump_frames :: "'a frame_state_scheme \<Rightarrow> u64 set" where
  "bump_frames s =
     {f. POOL_NEXT s \<noteq> 0 \<and> page_aligned f \<and> POOL_NEXT s \<le> f \<and> unat f + 4096 \<le> unat (POOL_END s)}"

definition list_frames :: "'a frame_state_scheme \<Rightarrow> u64 set" where
  "list_frames s = {f. \<exists>fs. frame_chain (kmem s) (FREE_LIST_HEAD s) fs \<and> f \<in> set fs}"

definition avail_frames :: "'a frame_state_scheme \<Rightarrow> u64 set" where
  "avail_frames s = list_frames s \<union> bump_frames s"

text \<open>Frames the pool has handed out at least once: where a freed frame must come from.\<close>

definition pool_frames :: "'a frame_state_scheme \<Rightarrow> u64 set" where
  "pool_frames s = {f. f \<noteq> 0 \<and> page_aligned f \<and> POOL_BASE s \<le> f \<and> f < POOL_NEXT s}"

definition frame_inv :: "'a frame_state_scheme \<Rightarrow> bool" where
  "frame_inv s \<longleftrightarrow>
     page_aligned (POOL_NEXT s) \<and> page_aligned (POOL_BASE s) \<and> POOL_BASE s \<le> POOL_NEXT s \<and>
     unat (POOL_NEXT s) + 4096 < 2 ^ 64 \<and> unat (POOL_END s) + 4096 < 2 ^ 64 \<and>
     (\<exists>fs. frame_chain (kmem s) (FREE_LIST_HEAD s) fs \<and> distinct fs \<and> set fs \<subseteq> pool_frames s)"

lemma list_frames_chain: "frame_chain (kmem s) (FREE_LIST_HEAD s) fs \<Longrightarrow> list_frames s = set fs"
  by (auto simp: list_frames_def dest: frame_chain_unique)

lemma frame_invE:
  assumes "frame_inv s"
  obtains fs where "frame_chain (kmem s) (FREE_LIST_HEAD s) fs" "distinct fs"
    "set fs \<subseteq> pool_frames s" "list_frames s = set fs"
  using assms list_frames_chain by (auto simp: frame_inv_def)

lemma pool_frames_aligned: "f \<in> pool_frames s \<Longrightarrow> page_aligned f \<and> f \<noteq> 0"
  by (simp add: pool_frames_def)

lemma bump_not_pool: "f \<in> bump_frames s \<Longrightarrow> f \<notin> pool_frames s"
  by (auto simp: bump_frames_def pool_frames_def)

lemma avail_aligned: "frame_inv s \<Longrightarrow> f \<in> avail_frames s \<Longrightarrow> page_aligned f \<and> f \<noteq> 0"
  by (auto simp: avail_frames_def bump_frames_def elim!: frame_invE dest: pool_frames_aligned)

section \<open>Allocation and release\<close>

lemma alloc_list:
  assumes inv: "frame_inv s" and head: "FREE_LIST_HEAD s \<noteq> 0"
    and s': "alloc_frame s = (r, s')"
  shows "r = Some (FREE_LIST_HEAD s) \<and> FREE_LIST_HEAD s \<in> list_frames s \<and>
    list_frames s' = list_frames s - {FREE_LIST_HEAD s} \<and>
    bump_frames s' = bump_frames s \<and> pool_frames s' = pool_frames s \<and> frame_inv s'"
proof -
  let ?f = "FREE_LIST_HEAD s"
  from inv obtain fs where ch: "frame_chain (kmem s) ?f fs" and d: "distinct fs"
    and p: "set fs \<subseteq> pool_frames s" and l: "list_frames s = set fs"
    by (rule frame_invE)
  from ch head obtain gs where fs: "fs = ?f # gs" and gs: "frame_chain (kmem s) (read_u64 (kmem s) ?f) gs"
    by (auto simp: frame_chain_nonzero)
  from s' head have r: "r = Some ?f"
    and eq: "s' = s\<lparr>FREE_LIST_HEAD := read_u64 (kmem s) ?f, kmem := mfill (kmem s) ?f 4096 0\<rparr>"
    by (auto simp: alloc_frame_def Let_def)
  have "frame_chain (mfill (kmem s) ?f 4096 0) (read_u64 (kmem s) ?f) gs"
    using gs d p fs pool_frames_aligned [of _ s]
    by (intro frame_chain_frame_upd [OF gs, of ?f]) (auto simp: mfill_outside)
  then have ch': "frame_chain (kmem s') (FREE_LIST_HEAD s') gs" by (simp add: eq)
  have same: "bump_frames s' = bump_frames s" "pool_frames s' = pool_frames s"
    by (simp_all add: eq bump_frames_def pool_frames_def)
  have "frame_inv s'"
    using inv ch' d p fs same(2) by (auto simp: frame_inv_def eq)
  then show ?thesis
    using r same l fs d list_frames_chain [OF ch'] by auto
qed

lemma word_less_eq_nat: "(a :: u64) \<le> b \<longleftrightarrow> unat a \<le> unat b"
  by (rule word_le_nat_alt)

lemma unat_plus_4096: "unat a + 4096 < 2 ^ 64 \<Longrightarrow> unat (a + 4096 :: u64) = unat a + 4096"
  by (subst unat_add_lem [THEN iffD1]) auto

lemma aligned_plus_4096: "page_aligned a \<Longrightarrow> unat a + 4096 < 2 ^ 64 \<Longrightarrow> page_aligned (a + 4096)"
  by (simp add: page_aligned_iff unat_plus_4096)

lemma aligned_less_step:
  assumes "page_aligned a" "page_aligned b" "a < b"
  shows "unat a + 4096 \<le> unat b"
proof -
  from assms obtain j k where "unat a = 4096 * j" "unat b = 4096 * k" "unat a < unat b"
    by (auto simp: page_aligned_iff word_less_nat_alt elim!: dvdE)
  then show ?thesis by simp
qed

lemma alloc_bump:
  assumes inv: "frame_inv s" and head: "FREE_LIST_HEAD s = 0"
    and s': "alloc_frame s = (Some f, s')"
  shows "f = POOL_NEXT s \<and> f \<in> bump_frames s \<and> bump_frames s' = bump_frames s - {f} \<and>
    list_frames s' = list_frames s \<and> pool_frames s \<subseteq> pool_frames s' \<and> frame_inv s'"
proof -
  from s' head have nz: "POOL_NEXT s \<noteq> 0" and fit: "POOL_NEXT s + 4096 \<le> POOL_END s"
    and f: "f = POOL_NEXT s"
    and eq: "s' = s\<lparr>POOL_NEXT := POOL_NEXT s + 4096, kmem := mfill (kmem s) (POOL_NEXT s) 4096 0\<rparr>"
    by (auto simp: alloc_frame_def Let_def not_less split: if_splits)
  have al: "page_aligned (POOL_NEXT s)" and ov: "unat (POOL_NEXT s) + 4096 < 2 ^ 64"
    and le: "POOL_BASE s \<le> POOL_NEXT s"
    using inv by (auto simp: frame_inv_def)
  note n = unat_plus_4096 [OF ov]
  have chE: "list_frames s = {}" "list_frames s' = {}"
    using head by (simp_all add: list_frames_def eq)
  have in_bump: "f \<in> bump_frames s"
    using nz al fit n by (simp add: bump_frames_def f word_less_eq_nat)
  have bump: "bump_frames s' = bump_frames s - {f}"
  proof (rule set_eqI)
    fix g
    have "POOL_NEXT s + 4096 \<le> g \<longleftrightarrow> POOL_NEXT s \<le> g \<and> g \<noteq> POOL_NEXT s" if "page_aligned g"
      using aligned_less_step [OF al that] n
      by (auto simp: word_less_eq_nat word_less_nat_alt word_unat_eq_iff)
    moreover have "POOL_NEXT s + 4096 \<noteq> 0"
      using n by (metis unat_0 add_is_0 zero_neq_numeral)
    ultimately show "g \<in> bump_frames s' \<longleftrightarrow> g \<in> bump_frames s - {f}"
      using nz by (auto simp: bump_frames_def eq f)
  qed
  have "POOL_NEXT s \<le> POOL_NEXT s + 4096" using n by (simp add: word_less_eq_nat)
  then have pool: "pool_frames s \<subseteq> pool_frames s'" and le': "POOL_BASE s' \<le> POOL_NEXT s'"
    using le by (auto simp: pool_frames_def eq)
  have "frame_inv s'"
    using inv head le' aligned_plus_4096 [OF al ov] n fit
    by (auto simp: frame_inv_def eq word_less_eq_nat)
  with in_bump bump chE pool f show ?thesis by simp
qed

lemma alloc_None:
  assumes inv: "frame_inv s" and s': "alloc_frame s = (None, s')"
  shows "avail_frames s = {} \<and> s' = s"
proof -
  from s' have head: "FREE_LIST_HEAD s = 0" and eq: "s' = s"
    and full: "POOL_NEXT s = 0 \<or> POOL_NEXT s + 4096 > POOL_END s"
    by (auto simp: alloc_frame_def Let_def split: if_splits)
  have "unat (POOL_NEXT s + 4096) = unat (POOL_NEXT s) + 4096"
    using inv by (intro unat_plus_4096) (simp add: frame_inv_def)
  with full have "bump_frames s = {}"
    by (auto simp: bump_frames_def word_less_eq_nat word_less_nat_alt)
  with head eq show ?thesis by (simp add: avail_frames_def list_frames_def)
qed

lemma alloc_Some:
  assumes inv: "frame_inv s" and s': "alloc_frame s = (Some f, s')"
  shows "f \<in> avail_frames s \<and> avail_frames s' = avail_frames s - {f} \<and> frame_inv s'"
proof (cases "FREE_LIST_HEAD s = 0")
  case True
  from alloc_bump [OF inv True s'] show ?thesis
    using True by (auto simp: avail_frames_def list_frames_def)
next
  case False
  have "list_frames s \<inter> bump_frames s = {}"
    using inv by (auto elim!: frame_invE dest: bump_not_pool)
  with alloc_list [OF inv False s'] show ?thesis
    by (auto simp: avail_frames_def)
qed

text \<open>Memory may change freely inside a page that is not available.\<close>

lemma frame_inv_mem_upd:
  assumes inv: "frame_inv s" and p: "page_aligned p" "p \<notin> avail_frames s"
    and m: "\<And>x. x \<notin> arange p 4096 \<Longrightarrow> m' x = kmem s x"
  shows "frame_inv (s\<lparr>kmem := m'\<rparr>) \<and> avail_frames (s\<lparr>kmem := m'\<rparr>) = avail_frames s \<and>
    pool_frames (s\<lparr>kmem := m'\<rparr>) = pool_frames s"
proof -
  let ?s = "s\<lparr>kmem := m'\<rparr>"
  from inv obtain fs where ch: "frame_chain (kmem s) (FREE_LIST_HEAD s) fs" and d: "distinct fs"
    and pf: "set fs \<subseteq> pool_frames s" and l: "list_frames s = set fs"
    by (rule frame_invE)
  have "p \<notin> set fs" using p(2) l by (simp add: avail_frames_def)
  moreover have "\<forall>f \<in> set fs. page_aligned f" using pf pool_frames_aligned by blast
  ultimately have ch': "frame_chain m' (FREE_LIST_HEAD s) fs"
    using frame_chain_frame_upd [OF ch _ p(1) _ m] by blast
  have same: "bump_frames ?s = bump_frames s" "pool_frames ?s = pool_frames s"
    by (simp_all add: bump_frames_def pool_frames_def)
  have "frame_inv ?s"
    using inv ch' d pf unfolding frame_inv_def same(2) by (simp del: frame_chain.simps) blast
  moreover have "list_frames ?s = set fs"
    by (rule list_frames_chain) (simp add: ch')
  ultimately show ?thesis using same l by (simp add: avail_frames_def)
qed

text \<open>A handed-out frame is zeroed, and memory outside it is untouched.\<close>

lemma alloc_zeroed: "alloc_frame s = (Some f, s') \<Longrightarrow> x \<in> arange f 4096 \<Longrightarrow> kmem s' x = 0"
  by (auto simp: alloc_frame_def Let_def mfill_def arange_def split: if_splits)

lemma alloc_frame_rule: "alloc_frame s = (Some f, s') \<Longrightarrow> x \<notin> arange f 4096 \<Longrightarrow> kmem s' x = kmem s x"
  by (auto simp: alloc_frame_def Let_def mfill_outside split: if_splits)

lemma alloc_more: "alloc_frame s = (r, s') \<Longrightarrow> frame_state.more s' = frame_state.more s"
  by (auto simp: alloc_frame_def Let_def split: if_splits)

lemma free_frame_spec:
  assumes inv: "frame_inv s" and f: "f \<in> pool_frames s" "f \<notin> avail_frames s"
  shows "frame_inv (free_frame f s) \<and> avail_frames (free_frame f s) = insert f (avail_frames s)"
proof -
  let ?s = "free_frame f s"
  from inv obtain fs where ch: "frame_chain (kmem s) (FREE_LIST_HEAD s) fs" and d: "distinct fs"
    and p: "set fs \<subseteq> pool_frames s" and l: "list_frames s = set fs"
    by (rule frame_invE)
  have al: "page_aligned f" "f \<noteq> 0" using f pool_frames_aligned by auto
  then have eq: "?s = s\<lparr>kmem := write_u64 (kmem s) f (FREE_LIST_HEAD s), FREE_LIST_HEAD := f\<rparr>"
    by (simp add: free_frame_def page_aligned_def)
  have "f \<notin> set fs" using f(2) l by (simp add: avail_frames_def)
  moreover have "x \<notin> arange f 4096 \<Longrightarrow> write_u64 (kmem s) f v x = kmem s x" for x v
    by (auto simp: write_u64_def arange_def intro!: mwrite_outside)
  ultimately have "frame_chain (kmem ?s) (FREE_LIST_HEAD s) fs"
    using p al pool_frames_aligned [of _ s]
    by (intro frame_chain_frame_upd [OF ch, of f]) (auto simp: eq)
  then have ch': "frame_chain (kmem ?s) (FREE_LIST_HEAD ?s) (f # fs)"
    using al by (simp add: eq read_write_u64)
  have same: "bump_frames ?s = bump_frames s" "pool_frames ?s = pool_frames s"
    by (simp_all add: eq bump_frames_def pool_frames_def)
  have "frame_inv ?s"
    using inv ch' d p f(1) same(2) \<open>f \<notin> set fs\<close>
    by (auto simp: frame_inv_def eq intro!: exI [of _ "f # fs"])
  then show ?thesis
    using list_frames_chain [OF ch'] same l by (simp add: avail_frames_def)
qed


lemma alloc_pool:
  assumes "frame_inv s" "alloc_frame s = (Some f, s')"
  shows "f \<in> pool_frames s' \<and> pool_frames s \<subseteq> pool_frames s'"
proof (cases "FREE_LIST_HEAD s = 0")
  case True
  note a = alloc_bump [OF assms(1) True assms(2)]
  have "POOL_NEXT s \<noteq> 0" "page_aligned (POOL_NEXT s)" "POOL_BASE s \<le> POOL_NEXT s"
    "unat (POOL_NEXT s + 4096) = unat (POOL_NEXT s) + 4096"
    using assms(1) a by (auto simp: frame_inv_def bump_frames_def unat_plus_4096)
  moreover have "POOL_NEXT s' = POOL_NEXT s + 4096" "POOL_BASE s' = POOL_BASE s"
    using assms(2) True by (auto simp: alloc_frame_def Let_def split: if_splits)
  ultimately show ?thesis
    using a by (auto simp: pool_frames_def word_less_nat_alt)
next
  case False
  with alloc_list [OF assms(1) False assms(2)] assms(1) show ?thesis
    by (auto elim!: frame_invE)
qed

lemma free_frame_pool: "pool_frames (free_frame f s) = pool_frames s"
  by (simp add: free_frame_def pool_frames_def)

lemma finite_avail: "finite (avail_frames s)"
  by (rule finite_subset [OF subset_UNIV]) (simp add: finite)

section \<open>The allocator interface\<close>

text \<open>Repeated calls, as the mapping loops of the clients make them.\<close>

fun alloc_seq :: "('s \<Rightarrow> u64 option \<times> 's) \<Rightarrow> nat \<Rightarrow> 's \<Rightarrow> u64 list \<times> 's" where
  "alloc_seq alloc 0 s = ([], s)"
| "alloc_seq alloc (Suc n) s =
     (case alloc s of
        (None, s') \<Rightarrow> ([], s')
      | (Some f, s') \<Rightarrow> (case alloc_seq alloc n s' of (fs, s'') \<Rightarrow> (f # fs, s'')))"

locale frame_pool =
  fixes alloc :: "'s \<Rightarrow> u64 option \<times> 's"
    and free :: "u64 \<Rightarrow> 's \<Rightarrow> 's"
    and avail :: "'s \<Rightarrow> u64 set"
    and pool :: "'s \<Rightarrow> u64 set"
    and inv :: "'s \<Rightarrow> bool"
  assumes alloc_fail: "inv s \<Longrightarrow> alloc s = (None, s') \<Longrightarrow> avail s = {} \<and> s' = s"
    and alloc_succ: "inv s \<Longrightarrow> alloc s = (Some f, s') \<Longrightarrow>
      f \<in> avail s \<and> avail s' = avail s - {f} \<and> inv s'"
    and alloc_in_pool: "inv s \<Longrightarrow> alloc s = (Some f, s') \<Longrightarrow> f \<in> pool s' \<and> pool s \<subseteq> pool s'"
    and free_law: "inv s \<Longrightarrow> f \<in> pool s \<Longrightarrow> f \<notin> avail s \<Longrightarrow>
      inv (free f s) \<and> avail (free f s) = insert f (avail s)"
    and free_pool_law: "pool (free f s) = pool s"
    and finite_law: "finite (avail s)"
begin

lemma alloc_seq_sound:
  "inv s \<Longrightarrow> alloc_seq alloc n s = (fs, s') \<Longrightarrow>
    inv s' \<and> distinct fs \<and> set fs \<subseteq> avail s \<and> avail s' = avail s - set fs \<and>
    set fs \<subseteq> pool s' \<and> pool s \<subseteq> pool s'"
proof (induction n arbitrary: s fs)
  case 0
  then show ?case by simp
next
  case (Suc n)
  obtain r t where r: "alloc s = (r, t)" by (cases "alloc s")
  show ?case
  proof (cases r)
    case None
    with r Suc.prems alloc_fail [of s t] show ?thesis by simp
  next
    case (Some f)
    obtain gs where gs: "alloc_seq alloc n t = (gs, s')" and fs: "fs = f # gs"
      using Suc.prems(2) r Some by (auto split: prod.splits)
    have t: "f \<in> avail s" "avail t = avail s - {f}" "inv t" "f \<in> pool t" "pool s \<subseteq> pool t"
      using alloc_succ [of s f t] alloc_in_pool [of s f t] r Some Suc.prems(1) by auto
    from Suc.IH [OF t(3) gs] t fs show ?thesis by auto
  qed
qed

text \<open>The allocator never fails while a frame is available.\<close>

lemma alloc_seq_length:
  "inv s \<Longrightarrow> alloc_seq alloc n s = (fs, s') \<Longrightarrow> length fs = min n (card (avail s))"
proof (induction n arbitrary: s fs)
  case 0
  then show ?case by simp
next
  case (Suc n)
  obtain r t where r: "alloc s = (r, t)" by (cases "alloc s")
  show ?case
  proof (cases r)
    case None
    with r Suc.prems alloc_fail [of s t] show ?thesis by simp
  next
    case (Some f)
    obtain gs where gs: "alloc_seq alloc n t = (gs, s')" and fs: "fs = f # gs"
      using Suc.prems(2) r Some by (auto split: prod.splits)
    have t: "f \<in> avail s" "avail t = avail s - {f}" "inv t"
      using alloc_succ [of s f t] r Some Suc.prems(1) by auto
    have "card (avail s) = Suc (card (avail t))"
      using card_Suc_Diff1 [OF finite_law t(1)] t(2) by simp
    with Suc.IH [OF t(3) gs] fs show ?thesis by simp
  qed
qed

lemma free_seq:
  "inv s \<Longrightarrow> distinct fs \<Longrightarrow> set fs \<subseteq> pool s \<Longrightarrow> set fs \<inter> avail s = {} \<Longrightarrow>
    inv (fold free fs s) \<and> avail (fold free fs s) = avail s \<union> set fs"
proof (induction fs arbitrary: s)
  case Nil
  then show ?case by simp
next
  case (Cons f fs)
  from Cons.prems have f: "inv (free f s)" "avail (free f s) = insert f (avail s)"
    using free_law [of s f] by auto
  have "inv (fold free fs (free f s)) \<and> avail (fold free fs (free f s)) = avail (free f s) \<union> set fs"
    using Cons.prems f free_pool_law [of f s] by (intro Cons.IH) auto
  with f(2) show ?case by auto
qed

lemma alloc_then_free:
  assumes "inv s" "alloc_seq alloc n s = (fs, s')"
  shows "inv (fold free fs s') \<and> avail (fold free fs s') = avail s"
  using alloc_seq_sound [OF assms] free_seq [of s' fs] by auto

end

interpretation fa: frame_pool alloc_frame free_frame avail_frames pool_frames frame_inv
  by unfold_locales
    (use alloc_None in blast, use alloc_Some in blast, use alloc_pool in blast,
     use free_frame_spec in blast, simp_all add: free_frame_pool finite_avail)

section \<open>Statistics\<close>

definition bump_index :: "'a frame_state_scheme \<Rightarrow> nat \<Rightarrow> u64" where
  "bump_index s k = word_of_nat (unat (POOL_NEXT s) + 4096 * k)"

lemma card_bump:
  assumes inv: "frame_inv s" and nz: "POOL_NEXT s \<noteq> 0" and le: "POOL_NEXT s \<le> POOL_END s"
  shows "card (bump_frames s) = (unat (POOL_END s) - unat (POOL_NEXT s)) div 4096"
proof -
  let ?n = "unat (POOL_NEXT s)" and ?e = "unat (POOL_END s)"
  let ?K = "{..<(?e - ?n) div 4096}"
  have lim: "?n + 4096 * k < 2 ^ 64" if "k \<in> ?K" for k
    using that inv by (auto simp: frame_inv_def)
  have u: "unat (bump_index s k) = ?n + 4096 * k" if "k \<in> ?K" for k
    unfolding bump_index_def using lim [OF that] by (rule unat_word_of_nat)
  have al: "4096 dvd ?n" using inv by (simp add: frame_inv_def page_aligned_iff)
  have "bump_frames s = bump_index s ` ?K"
  proof (intro equalityI subsetI)
    fix f assume f: "f \<in> bump_frames s"
    then have "4096 dvd unat f" "?n \<le> unat f"
      by (auto simp: bump_frames_def page_aligned_iff word_le_nat_alt)
    with al have "4096 dvd unat f - ?n" by simp
    with \<open>?n \<le> unat f\<close> obtain k where k: "unat f = ?n + 4096 * k"
      by (metis dvdE le_add_diff_inverse)
    have "k \<in> ?K" using f k by (auto simp: bump_frames_def)
    moreover have "f = bump_index s k" using u [OF calculation] k by (simp add: word_unat_eq_iff)
    ultimately show "f \<in> bump_index s ` ?K" by blast
  next
    fix f assume "f \<in> bump_index s ` ?K"
    then obtain k where "k \<in> ?K" "f = bump_index s k" by blast
    then show "f \<in> bump_frames s"
      using u al nz le by (auto simp: bump_frames_def page_aligned_iff word_le_nat_alt)
  qed
  moreover have "inj_on (bump_index s) ?K"
    by (rule inj_onI) (metis u add_left_cancel mult_cancel1 zero_neq_numeral)
  ultimately show ?thesis by (simp add: card_image)
qed


lemma frames_card:
  assumes "set fs \<subseteq> pool_frames s" "distinct fs" "frame_inv s"
  shows "length fs \<le> (unat (POOL_NEXT s) - unat (POOL_BASE s)) div 4096"
proof -
  let ?b = "unat (POOL_BASE s)" and ?n = "unat (POOL_NEXT s)"
  have "(\<lambda>f. (unat f - ?b) div 4096) ` set fs \<subseteq> {..<(?n - ?b) div 4096}"
  proof (rule image_subsetI)
    fix f assume "f \<in> set fs"
    then have f: "page_aligned f" "?b \<le> unat f" "f < POOL_NEXT s" and "page_aligned (POOL_NEXT s)"
      using assms(1,3) by (auto simp: pool_frames_def frame_inv_def word_le_nat_alt)
    then have "unat f + 4096 \<le> ?n" by (intro aligned_less_step) auto
    then have "(unat f - ?b) + 4096 \<le> ?n - ?b" using f by simp
    then have "((unat f - ?b) + 4096) div 4096 \<le> (?n - ?b) div 4096" by (rule div_le_mono)
    then show "(unat f - ?b) div 4096 \<in> {..<(?n - ?b) div 4096}" by simp
  qed
  moreover have "inj_on (\<lambda>f. (unat f - ?b) div 4096) (set fs)"
  proof (rule inj_onI)
    fix f g assume "f \<in> set fs" "g \<in> set fs" and eq: "(unat f - ?b) div 4096 = (unat g - ?b) div 4096"
    then have "4096 dvd unat f" "4096 dvd unat g" "4096 dvd ?b" "?b \<le> unat f" "?b \<le> unat g"
      using assms(1,3) by (auto simp: pool_frames_def frame_inv_def word_le_nat_alt page_aligned_iff)
    then have "unat f - ?b = unat g - ?b" using eq
      by (metis dvd_div_eq_iff dvd_diff_nat)
    with \<open>?b \<le> unat f\<close> \<open>?b \<le> unat g\<close> show "f = g" by (simp add: word_unat_eq_iff)
  qed
  ultimately have "card (set fs) \<le> card {..<(?n - ?b) div 4096}"
    by (metis card_image card_mono finite_lessThan)
  then show ?thesis using assms(2) by (simp add: distinct_card)
qed

lemma card_avail:
  assumes "frame_inv s"
  shows "card (avail_frames s) = card (list_frames s) + card (bump_frames s)"
proof -
  have "list_frames s \<inter> bump_frames s = {}"
    using assms by (auto elim!: frame_invE dest: bump_not_pool)
  moreover have "finite (list_frames s)" "finite (bump_frames s)"
    using finite_avail [of s] by (auto simp: avail_frames_def)
  ultimately show ?thesis by (simp add: avail_frames_def card_Un_disjoint)
qed


lemma unat_page_up:
  assumes "unat base + 4096 < 2 ^ 64"
  shows "unat (page_down (base + 4096 - 1)) = (unat base + 4095) div 4096 * 4096"
proof -
  have "unat (base + 4095) = unat base + 4095"
    using assms by (subst unat_add_lem [THEN iffD1]) auto
  then show ?thesis by (simp add: unat_page_down add.commute)
qed

section \<open>Properties\<close>

definition zero_state :: frame_state where
  "zero_state = \<lparr>kmem = (\<lambda>_. 0), POOL_NEXT = 0, POOL_END = 0, POOL_BASE = 0,
     FREE_LIST_HEAD = 0, TOTAL_PHYSICAL_MEMORY = 0\<rparr>"

lemma numeral_4_eq_4: "(4 :: nat) = Suc (Suc (Suc (Suc 0)))"
  by simp

definition demo_state :: frame_state where
  "demo_state = frame_init 0x100800 0x4000 zero_state"

lemma frame_init_spec:
  assumes "base \<noteq> 0" "sz \<noteq> 0" "unat base + unat sz + 8192 < 2 ^ 64"
  shows "frame_inv (frame_init base sz s)"
    and "avail_frames (frame_init base sz s) =
      {f. page_aligned f \<and> base \<le> f \<and> unat f + 4096 \<le> unat base + unat sz}"
proof -
  let ?s = "frame_init base sz s" and ?a = "page_down (base + 4096 - 1)"
  have eq: "?s = s\<lparr>POOL_NEXT := ?a, POOL_BASE := ?a, POOL_END := base + sz, FREE_LIST_HEAD := 0\<rparr>"
    using assms(2) by (simp add: frame_init_def Let_def)
  have a: "unat ?a = (unat base + 4095) div 4096 * 4096"
    using assms(3) by (intro unat_page_up) simp
  have e: "unat (base + sz) = unat base + unat sz"
    using assms(3) by (subst unat_add_lem [THEN iffD1]) auto
  have le: "unat base \<le> unat ?a" "unat ?a < unat base + 4096"
    unfolding a
    using mod_less_divisor [of 4096 "unat base + 4095"] div_mult_mod_eq [of "unat base + 4095" 4096]
    by linarith+
  have nz: "?a \<noteq> 0" using le(1) assms(1) by (metis unat_0 le_zero_eq unat_eq_zero)
  show "frame_inv ?s"
    using le assms(3) e by (simp add: frame_inv_def eq)
  have "?a \<le> f \<longleftrightarrow> base \<le> f" if al: "page_aligned f" for f
  proof -
    obtain k where "unat f = 4096 * k" using al by (auto simp: page_aligned_iff dvd_def)
    then show ?thesis unfolding word_le_nat_alt a by auto
  qed
  then show "avail_frames ?s = {f. page_aligned f \<and> base \<le> f \<and> unat f + 4096 \<le> unat base + unat sz}"
    using nz e by (auto simp: avail_frames_def list_frames_def bump_frames_def eq)
qed


text \<open>
  \<open>frame::init\<close> on a non-empty region that does not touch address 0 or the top of the address
  space establishes the allocator invariant, and the frames it then offers are exactly the
  4 KiB-aligned frames that lie entirely inside the region the loader passed.
\<close>

theorem frame_init_pool:
  assumes "base \<noteq> 0" "sz \<noteq> 0" "unat base + unat sz + 8192 < 2 ^ 64"
  shows "frame_inv (frame_init base sz s) \<and>
    avail_frames (frame_init base sz s) =
      {f. page_aligned f \<and> base \<le> f \<and> unat f + 4096 \<le> unat base + unat sz}"
  using frame_init_spec [OF assms] by blast

theorem frame_init_pool_witness:
  "frame_inv demo_state \<and> 0x101000 \<in> avail_frames demo_state \<and> 0x100000 \<notin> avail_frames demo_state"
  unfolding demo_state_def
  using frame_init_pool [of "0x100800" "0x4000" zero_state]
  by (simp add: page_aligned_def)

text \<open>
  C3: however often \<open>alloc_frame\<close> is called, the frames it hands out are pairwise different, were
  available before and are not available afterwards, are non-null and page aligned, and the
  number of successful calls is exactly the number of available frames as long as it is asked for
  no more than that: no frame is ever handed out twice and none is lost.
\<close>

theorem frame_alloc_exclusive:
  assumes "frame_inv s" "alloc_seq alloc_frame n s = (fs, s')"
  shows "distinct fs \<and> length fs = min n (card (avail_frames s)) \<and>
    set fs \<subseteq> avail_frames s \<and> avail_frames s' = avail_frames s - set fs \<and>
    (\<forall>f \<in> set fs. page_aligned f \<and> f \<noteq> 0) \<and> frame_inv s'"
  using fa.alloc_seq_sound [OF assms] fa.alloc_seq_length [OF assms] avail_aligned [OF assms(1)]
  by blast

lemma demo_state_inv: "frame_inv demo_state"
  unfolding demo_state_def by (rule frame_init_spec(1)) simp_all

lemma demo_state_avail:
  "avail_frames demo_state = {f. page_aligned f \<and> 0x100800 \<le> f \<and> unat f \<le> 0x103800}"
proof -
  have "avail_frames demo_state = {f. page_aligned f \<and> 0x100800 \<le> f \<and>
      unat f + 4096 \<le> unat (0x100800 :: u64) + unat (0x4000 :: u64)}"
    unfolding demo_state_def by (rule frame_init_spec(2)) simp_all
  then show ?thesis by simp
qed

lemma demo_alloc: "fst (alloc_seq alloc_frame 4 demo_state) = [0x101000, 0x102000, 0x103000]"
  unfolding numeral_4_eq_4 by (simp add: demo_state_def zero_state_def frame_init_def alloc_frame_def
      page_down_def Let_def)

theorem frame_alloc_exclusive_witness:
  "\<exists>fs s'. alloc_seq alloc_frame 4 demo_state = (fs, s') \<and> fs = [0x101000, 0x102000, 0x103000] \<and>
    avail_frames s' = avail_frames demo_state - set fs \<and> frame_inv s'"
proof -
  obtain fs s' where "alloc_seq alloc_frame 4 demo_state = (fs, s')"
    by (cases "alloc_seq alloc_frame 4 demo_state")
  with frame_alloc_exclusive [OF demo_state_inv this] demo_alloc show ?thesis by auto
qed

text \<open>
  a frame comes out of \<open>alloc_frame\<close> with all 4096 bytes zero, whatever a previous owner left
  in it, and no byte of memory outside that frame changes.
\<close>

theorem frame_alloc_zeroed:
  assumes "alloc_frame s = (Some f, s')"
  shows "mread (kmem s') f 4096 = replicate 4096 0 \<and>
    (\<forall>x. x \<notin> arange f 4096 \<longrightarrow> kmem s' x = kmem s x)"
proof -
  have "mread (kmem s') f 4096 = replicate 4096 0"
    by (intro nth_equalityI) (auto simp: mread_def mem_arange alloc_zeroed [OF assms])
  then show ?thesis using alloc_frame_rule [OF assms] by blast
qed

theorem frame_alloc_zeroed_witness:
  "\<exists>s'. alloc_frame (demo_state\<lparr>kmem := (\<lambda>_. 7)\<rparr>) = (Some 0x101000, s') \<and>
    mread (kmem s') 0x101000 4096 = replicate 4096 0 \<and> kmem s' 0x102000 = 7"
proof -
  let ?s = "demo_state\<lparr>kmem := (\<lambda>_. 7)\<rparr>"
  obtain s' where a: "alloc_frame ?s = (Some 0x101000, s')"
    by (simp add: demo_state_def zero_state_def frame_init_def alloc_frame_def page_down_def Let_def)
  show ?thesis
    using frame_alloc_zeroed [OF a] a by (auto simp: arange_def)
qed

text \<open>
  freeing all frames that a run of allocations returned restores exactly the frames that were
  available before it, with the invariant intact; the frames are then threaded through memory as
  a well-formed list again.
\<close>

theorem frame_reclamation:
  assumes "frame_inv s" "alloc_seq alloc_frame n s = (fs, s')"
  shows "frame_inv (fold free_frame fs s') \<and>
    avail_frames (fold free_frame fs s') = avail_frames s"
  by (rule fa.alloc_then_free [OF assms])

theorem frame_reclamation_witness:
  "\<exists>fs s'. alloc_seq alloc_frame 4 demo_state = (fs, s') \<and> length fs = 3 \<and>
    avail_frames (fold free_frame fs s') = avail_frames demo_state"
proof -
  obtain fs s' where "alloc_seq alloc_frame 4 demo_state = (fs, s')"
    by (cases "alloc_seq alloc_frame 4 demo_state")
  with frame_reclamation [OF demo_state_inv this] demo_alloc show ?thesis by auto
qed

text \<open>
  on an initialised pool the list walk of \<open>real_stats\<close> terminates, the free count it reports
  is exactly the number of available frames (bump space and free list together), and used and
  free frames add up to the total, with no wrap-around.
\<close>

theorem real_stats_exact:
  assumes inv: "frame_inv s" and base: "POOL_BASE s \<noteq> 0" and le: "POOL_NEXT s \<le> POOL_END s"
    and ne: "POOL_BASE s < POOL_END s"
  shows "\<exists>r. real_stats s = Some r \<and> unat (free_frames r) = card (avail_frames s) \<and>
    unat (used_frames r) + unat (free_frames r) = unat (total_frames r)"
proof -
  let ?b = "unat (POOL_BASE s)" and ?n = "unat (POOL_NEXT s)" and ?e = "unat (POOL_END s)"
  from inv obtain fs where ch: "frame_chain (kmem s) (FREE_LIST_HEAD s) fs" and d: "distinct fs"
    and p: "set fs \<subseteq> pool_frames s" and l: "list_frames s = set fs"
    by (rule frame_invE)
  have bn: "?b \<le> ?n" "?n \<le> ?e" "?b < ?e" "POOL_BASE s \<le> POOL_NEXT s"
    using inv le ne by (auto simp: frame_inv_def word_le_nat_alt word_less_nat_alt)
  have tot: "unat (POOL_END s - POOL_BASE s) = ?e - ?b" and used: "unat (POOL_NEXT s - POOL_BASE s) = ?n - ?b"
    using bn ne by (auto simp: unat_sub_if')
  have free: "unat (POOL_END s - POOL_BASE s - (POOL_NEXT s - POOL_BASE s)) = ?e - ?n"
    using bn tot used by (simp add: unat_sub_if')
  let ?f = "(?e - ?n) div 4096"
  have len: "length fs \<le> (?n - ?b) div 4096" by (rule frames_card [OF p d inv])
  have sum: "?f + length fs \<le> (?e - ?b) div 4096"
  proof -
    have "length fs * 4096 \<le> (?n - ?b) div 4096 * 4096" using len by simp
    also have "\<dots> \<le> ?n - ?b" by (rule div_times_less_eq_dividend)
    finally have "(?f + length fs) * 4096 \<le> (?e - ?n) + (?n - ?b)"
      using div_times_less_eq_dividend [of "?e - ?n" 4096]
      unfolding add_mult_distrib by (rule add_mono [rotated])
    then show ?thesis using bn by (simp add: less_eq_div_iff_mult_less_eq)
  qed
  have lim: "(?e - ?b) div 4096 < 2 ^ 64"
    using inv by (auto simp: frame_inv_def intro: le_less_trans [OF div_le_dividend])
  let ?free = "(POOL_END s - POOL_BASE s - (POOL_NEXT s - POOL_BASE s)) div 4096 + word_of_nat (length fs)"
  have fr: "unat ?free = ?f + length fs"
    using sum lim free by (subst unat_add_lem [THEN iffD1]) (auto simp: unat_div)
  have np: "(POOL_END s \<le> POOL_BASE s) = False" using ne by (simp add: not_le)
  have st: "real_stats s = Some \<lparr>total_bytes = POOL_END s - POOL_BASE s,
      used_bytes = ((POOL_END s - POOL_BASE s) div 4096 - ?free) * 4096, free_bytes = ?free * 4096,
      total_frames = (POOL_END s - POOL_BASE s) div 4096,
      used_frames = (POOL_END s - POOL_BASE s) div 4096 - ?free, free_frames = ?free\<rparr>"
    using base bn(4)
    by (simp add: np real_stats_def stats_def saturating_sub_def Let_def count_free_chain [OF ch])
  have "POOL_NEXT s \<noteq> 0" using base bn(4) by (metis word_le_0_iff)
  then have "card (avail_frames s) = length fs + ?f"
    using card_avail [OF inv] card_bump [OF inv _ le] l d by (simp add: distinct_card)
  moreover have "unat ((POOL_END s - POOL_BASE s) div 4096 - ?free) = (?e - ?b) div 4096 - (?f + length fs)"
    using fr sum tot by (simp add: unat_sub_if' unat_div)
  ultimately show ?thesis using st fr sum tot by (simp add: unat_div)
qed

theorem real_stats_exact_witness:
  "\<exists>r. real_stats demo_state = Some r \<and> unat (free_frames r) = card (avail_frames demo_state)"
proof -
  have "POOL_BASE demo_state = 0x101000" "POOL_NEXT demo_state = 0x101000" "POOL_END demo_state = 0x104800"
    by (simp_all add: demo_state_def zero_state_def frame_init_def page_down_def Let_def)
  then show ?thesis using real_stats_exact [OF demo_state_inv] by auto
qed

end
