(* ===== verification/Paging.thy ===== *)
theory Paging
  imports Frame
begin

unbundle bit_operations_syntax

text \<open>
  Page tables and descriptor tables of \<open>src/kernel/src/cpu.rs\<close>: the GDT and TSS descriptors of
  \<open>init_gdt\<close>, the PCI configuration address, and the four-level page-table editor \<open>map_page\<close> with its
  helper \<open>next_table\<close>. The tables live in \<^term>\<open>kmem\<close> (the kernel reaches physical memory through the
  identity mapping). \<open>translate\<close> is the walk that the processor performs on the same tables: it is
  the specification \<open>map_page\<close> is proved against. The TLB (\<open>invlpg\<close>) is not modelled.
\<close>

section \<open>Descriptors\<close>

definition segment_descriptor :: "u8 \<Rightarrow> u8 \<Rightarrow> u64" where
  "segment_descriptor access flags =
     (let limit = (0xFFFFF :: u64);
          d0 = 0 OR (limit AND 0xFFFF);
          d1 = d0 OR push_bit 40 ((ucast access :: u64) AND 0xFF);
          d2 = d1 OR push_bit 48 (drop_bit 16 limit AND 0xF)
      in d2 OR push_bit 52 ((ucast flags :: u64) AND 0xF))"

definition tss_low :: "u64 \<Rightarrow> u64 \<Rightarrow> u64" where
  "tss_low tss_base tss_limit =
     (tss_limit AND 0xFFFF) OR
     push_bit 16 (tss_base AND 0xFFFF) OR
     push_bit 32 (drop_bit 16 tss_base AND 0xFF) OR
     push_bit 40 0x89 OR
     push_bit 48 (drop_bit 16 tss_limit AND 0xF) OR
     push_bit 56 (drop_bit 24 tss_base AND 0xFF)"

definition tss_high :: "u64 \<Rightarrow> u64" where
  "tss_high tss_base = drop_bit 32 tss_base AND 0xFFFFFFFF"

text \<open>The seven slots \<open>init_gdt\<close> fills, for a TSS of 104 bytes at \<open>tss_base\<close>.\<close>

definition init_gdt :: "u64 \<Rightarrow> u64 list" where
  "init_gdt tss_base =
     [0, segment_descriptor 0x9A 0xA, segment_descriptor 0x92 0xC, segment_descriptor 0xF2 0xC,
      segment_descriptor 0xFA 0xA, tss_low tss_base (104 - 1), tss_high tss_base]"

definition stack_top :: "u64 \<Rightarrow> u64" where
  "stack_top addr = (addr + 16 * 1024) AND NOT 0xF"

definition pci_config_addr :: "u8 \<Rightarrow> u8 \<Rightarrow> u8 \<Rightarrow> u8 \<Rightarrow> u32" where
  "pci_config_addr bus slot func off =
     0x80000000 OR push_bit 16 (ucast bus) OR push_bit 11 (ucast slot) OR
     push_bit 8 (ucast func) OR (ucast off AND 0xFC)"

section \<open>Page tables\<close>

abbreviation PHYS_MASK :: u64 where "PHYS_MASK \<equiv> 0x000FFFFFFFFFF000"
abbreviation PAGE_PRESENT :: u64 where "PAGE_PRESENT \<equiv> 1"
abbreviation PAGE_WRITABLE :: u64 where "PAGE_WRITABLE \<equiv> 2"
abbreviation PAGE_USER :: u64 where "PAGE_USER \<equiv> 4"
abbreviation PAGE_HUGE :: u64 where "PAGE_HUGE \<equiv> 0x80"

definition pt_index :: "nat \<Rightarrow> u64 \<Rightarrow> u64" where
  "pt_index shift virt = drop_bit shift virt AND 0x1FF"

text \<open>\<open>table.add(i)\<close> on a \<open>*mut u64\<close>.\<close>

definition entry_at :: "u64 \<Rightarrow> u64 \<Rightarrow> u64" where
  "entry_at table i = table + 8 * i"

definition next_table ::
  "u64 \<Rightarrow> bool \<Rightarrow> 'a frame_state_scheme \<Rightarrow> u64 option \<times> 'a frame_state_scheme" where
  "next_table entry user s =
     (let e = read_u64 (kmem s) entry
      in if e AND PAGE_PRESENT = 0 then
           (case alloc_frame s of
              (None, s') \<Rightarrow> (None, s')
            | (Some frame, s') \<Rightarrow>
                let flags = PAGE_PRESENT OR PAGE_WRITABLE;
                    flags = (if user then flags OR PAGE_USER else flags);
                    e' = (frame AND PHYS_MASK) OR flags
                in (Some (e' AND PHYS_MASK), s'\<lparr>kmem := write_u64 (kmem s') entry e'\<rparr>))
         else if e AND PAGE_HUGE \<noteq> 0 then (None, s)
         else let e' = (if user then e OR PAGE_USER else e)
              in (Some (e' AND PHYS_MASK), s\<lparr>kmem := write_u64 (kmem s) entry e'\<rparr>))"

definition leaf_entry :: "u64 \<Rightarrow> bool \<Rightarrow> bool \<Rightarrow> u64" where
  "leaf_entry phys writable user =
     (let leaf = (phys AND PHYS_MASK) OR PAGE_PRESENT;
          leaf = (if writable then leaf OR PAGE_WRITABLE else leaf)
      in if user then leaf OR PAGE_USER else leaf)"

definition map_page ::
  "u64 \<Rightarrow> u64 \<Rightarrow> u64 \<Rightarrow> bool \<Rightarrow> bool \<Rightarrow> 'a frame_state_scheme \<Rightarrow> bool \<times> 'a frame_state_scheme" where
  "map_page pml4_phys virt phys writable user s =
     (let i4 = pt_index 39 virt; i3 = pt_index 30 virt; i2 = pt_index 21 virt; i1 = pt_index 12 virt;
          pml4 = pml4_phys AND PHYS_MASK
      in case next_table (entry_at pml4 i4) user s of
           (None, s) \<Rightarrow> (False, s)
         | (Some pdpt, s) \<Rightarrow>
             (case next_table (entry_at pdpt i3) user s of
                (None, s) \<Rightarrow> (False, s)
              | (Some pd, s) \<Rightarrow>
                  (case next_table (entry_at pd i2) user s of
                     (None, s) \<Rightarrow> (False, s)
                   | (Some pt, s) \<Rightarrow>
                       (True, s\<lparr>kmem := write_u64 (kmem s) (entry_at pt i1)
                                  (leaf_entry phys writable user)\<rparr>))))"

section \<open>The processor's page walk\<close>

record translation =
  tr_phys :: u64
  tr_writable :: bool
  tr_user :: bool

definition flag :: "u64 \<Rightarrow> u64 \<Rightarrow> bool" where
  "flag e f \<longleftrightarrow> e AND f \<noteq> 0"

definition translate :: "memory \<Rightarrow> u64 \<Rightarrow> u64 \<Rightarrow> translation option" where
  "translate m cr3 va =
     (let e4 = read_u64 m (entry_at (cr3 AND PHYS_MASK) (pt_index 39 va))
      in if \<not> flag e4 PAGE_PRESENT \<or> flag e4 PAGE_HUGE then None else
      let e3 = read_u64 m (entry_at (e4 AND PHYS_MASK) (pt_index 30 va));
          w = flag e4 PAGE_WRITABLE \<and> flag e3 PAGE_WRITABLE; u = flag e4 PAGE_USER \<and> flag e3 PAGE_USER
      in if \<not> flag e3 PAGE_PRESENT then None
      else if flag e3 PAGE_HUGE then
        Some \<lparr>tr_phys = (e3 AND 0x000FFFFFC0000000) OR (va AND 0x3FFFFFFF), tr_writable = w, tr_user = u\<rparr>
      else
      let e2 = read_u64 m (entry_at (e3 AND PHYS_MASK) (pt_index 21 va));
          w = w \<and> flag e2 PAGE_WRITABLE; u = u \<and> flag e2 PAGE_USER
      in if \<not> flag e2 PAGE_PRESENT then None
      else if flag e2 PAGE_HUGE then
        Some \<lparr>tr_phys = (e2 AND 0x000FFFFFFFE00000) OR (va AND 0x1FFFFF), tr_writable = w, tr_user = u\<rparr>
      else
      let e1 = read_u64 m (entry_at (e2 AND PHYS_MASK) (pt_index 12 va))
      in if \<not> flag e1 PAGE_PRESENT then None
      else Some \<lparr>tr_phys = (e1 AND PHYS_MASK) OR (va AND 0xFFF),
                 tr_writable = w \<and> flag e1 PAGE_WRITABLE, tr_user = u \<and> flag e1 PAGE_USER\<rparr>)"

text \<open>The table pages a walk for \<open>va\<close> visits, down to the first absent (or huge) entry.\<close>

fun table_path :: "memory \<Rightarrow> u64 \<Rightarrow> u64 \<Rightarrow> nat list \<Rightarrow> u64 list" where
  "table_path m t va [] = [t]"
| "table_path m t va (sh # shs) =
     (let e = read_u64 m (entry_at t (pt_index sh va))
      in t # (if flag e PAGE_PRESENT \<and> \<not> flag e PAGE_HUGE
              then table_path m (e AND PHYS_MASK) va shs else []))"

definition walk_tables :: "memory \<Rightarrow> u64 \<Rightarrow> u64 \<Rightarrow> u64 list" where
  "walk_tables m cr3 va = table_path m (cr3 AND PHYS_MASK) va [39, 30, 21]"

section \<open>Bit-level facts\<close>

lemma PHYS_MASK_eq: "PHYS_MASK = push_bit 12 (mask 40)"
  by (simp add: mask_eq_exp_minus_1 push_bit_eq_mult)

lemma bit_PHYS_MASK: "bit PHYS_MASK n \<longleftrightarrow> 12 \<le> n \<and> n < 52"
  unfolding PHYS_MASK_eq by (auto simp: bit_push_bit_iff bit_mask_iff)

lemma page_aligned_mask [simp]: "page_aligned (e AND PHYS_MASK)"
proof -
  have "PHYS_MASK AND 0xFFF = (0 :: u64)" by simp
  then show ?thesis by (simp add: page_aligned_def and.assoc)
qed

lemma phys_mask_self:
  assumes "page_aligned f" "f < 0x10000000000000"
  shows "f AND PHYS_MASK = f"
proof -
  have low: "take_bit 12 f = 0"
    using assms(1) by (simp add: page_aligned_def take_bit_eq_mask mask_eq_exp_minus_1)
  have high: "take_bit 52 f = f"
    using assms(2)
    by (simp add: word_unat_eq_iff unsigned_take_bit_eq take_bit_nat_eq_self word_less_nat_alt)
  have "bit f n \<Longrightarrow> 12 \<le> n \<and> n < 52" for n
    using low high by (metis bit_take_bit_iff bit_0_eq bot_apply bot_bool_def not_le)
  then show ?thesis
    by (intro bit_word_eqI) (simp only: bit_and_iff bit_PHYS_MASK, blast)
qed

lemma pt_index_less: "pt_index sh va < 512"
proof -
  have "pt_index sh va = take_bit 9 (drop_bit sh va)"
    by (simp add: pt_index_def take_bit_eq_mask mask_eq_exp_minus_1)
  then have "unat (pt_index sh va) < 512"
    using take_bit_nat_less_exp [of 9 "unat (drop_bit sh va)"] by (simp add: unsigned_take_bit_eq)
  then show ?thesis by (simp add: word_less_nat_alt)
qed


lemma entry_in_page:
  assumes "i < 512"
  shows "arange (entry_at p i) 8 \<subseteq> arange p 4096"
proof
  fix x assume x: "x \<in> arange (entry_at p i) 8"
  have i: "unat i < 512" using assms by (simp add: word_less_nat_alt)
  then have i8: "unat (8 * i) = 8 * unat i"
    by (subst unat_mult_lem [THEN iffD1]) auto
  have eq: "x - p = (x - entry_at p i) + 8 * i" by (simp add: entry_at_def)
  have "unat (x - p) = unat (x - entry_at p i) + 8 * unat i"
    unfolding eq using x i i8 by (subst unat_add_lem [THEN iffD1]) (auto simp: arange_def)
  then show "x \<in> arange p 4096" using x i by (simp add: arange_def)
qed

lemma write_u64_outside: "x \<notin> arange a 8 \<Longrightarrow> write_u64 m a v x = m x"
  by (simp add: write_u64_def mwrite_outside)

lemma flag_zero [simp]: "\<not> flag 0 f"
  by (simp add: flag_def)

lemma flag_or: "flag (a OR b) f \<longleftrightarrow> flag a f \<or> flag b f"
  by (simp add: flag_def bit.conj_disj_distrib2 or_eq_0_iff)

lemma flag_mask [simp]:
  "\<not> flag (e AND PHYS_MASK) PAGE_PRESENT" "\<not> flag (e AND PHYS_MASK) PAGE_WRITABLE"
  "\<not> flag (e AND PHYS_MASK) PAGE_USER" "\<not> flag (e AND PHYS_MASK) PAGE_HUGE"
  by (simp_all add: flag_def and.assoc)

lemma mask_or: "(a OR b) AND PHYS_MASK = (a AND PHYS_MASK) OR (b AND PHYS_MASK)"
  by (rule bit.conj_disj_distrib2)

lemma mask_mask [simp]: "(a AND PHYS_MASK) AND PHYS_MASK = a AND PHYS_MASK"
  by (simp add: and.assoc)

section \<open>One level of the tables\<close>

text \<open>
  What one call of \<open>next_table\<close> does to entry \<open>i\<close> of the table page \<open>p\<close>: a present entry keeps its
  target and gains the user bit, an absent one receives a fresh zeroed table.
\<close>

lemma next_table_present:
  assumes inv: "frame_inv s" and p: "page_aligned p" "p \<notin> avail_frames s" "i < 512"
    and e: "e = read_u64 (kmem s) (entry_at p i)" "flag e PAGE_PRESENT"
    and nt: "next_table (entry_at p i) user s = (Some t, s')"
  shows "frame_inv s' \<and> avail_frames s' = avail_frames s \<and>
    \<not> flag e PAGE_HUGE \<and> t = e AND PHYS_MASK \<and>
    read_u64 (kmem s') (entry_at p i) = (if user then e OR PAGE_USER else e) \<and>
    (\<forall>x. x \<notin> arange (entry_at p i) 8 \<longrightarrow> kmem s' x = kmem s x)"
proof -
  define v where "v = (if user then e OR PAGE_USER else e)"
  from nt e have nh: "\<not> flag e PAGE_HUGE" and t: "t = v AND PHYS_MASK"
    and s': "s' = s\<lparr>kmem := write_u64 (kmem s) (entry_at p i) v\<rparr>"
    by (auto simp: next_table_def flag_def v_def Let_def split: if_splits)
  have "x \<notin> arange p 4096 \<Longrightarrow> write_u64 (kmem s) (entry_at p i) v x = kmem s x" for x
    using entry_in_page [OF p(3)] by (auto intro: write_u64_outside)
  then have "frame_inv s' \<and> avail_frames s' = avail_frames s"
    unfolding s' using frame_inv_mem_upd [OF inv p(1,2)] by blast
  moreover have "v AND PHYS_MASK = e AND PHYS_MASK" by (simp add: v_def mask_or)
  ultimately show ?thesis
    using nh t by (simp add: s' read_write_u64 write_u64_outside v_def)
qed

lemma next_table_absent:
  assumes inv: "frame_inv s" and p: "page_aligned p" "p \<notin> avail_frames s" "i < 512"
    and lim: "\<forall>f \<in> avail_frames s. f < 0x10000000000000"
    and e: "\<not> flag (read_u64 (kmem s) (entry_at p i)) PAGE_PRESENT"
    and nt: "next_table (entry_at p i) user s = (Some t, s')"
  shows "frame_inv s' \<and> t \<in> avail_frames s \<and> avail_frames s' = avail_frames s - {t} \<and>
    t AND PHYS_MASK = t \<and>
    read_u64 (kmem s') (entry_at p i) = t OR (if user then 7 else 3) \<and>
    (\<forall>x \<in> arange t 4096. kmem s' x = 0) \<and>
    (\<forall>x. x \<notin> arange (entry_at p i) 8 \<and> x \<notin> arange t 4096 \<longrightarrow> kmem s' x = kmem s x)"
proof -
  let ?a = "entry_at p i"
  from nt e obtain f s1 where al: "alloc_frame s = (Some f, s1)"
    by (auto simp: next_table_def flag_def Let_def split: if_splits prod.splits option.splits)
  define v where "v = (f AND PHYS_MASK) OR (if user then 7 else 3)"
  from nt e al have t: "t = v AND PHYS_MASK" and s': "s' = s1\<lparr>kmem := write_u64 (kmem s1) ?a v\<rparr>"
    by (auto simp: next_table_def flag_def Let_def v_def split: if_splits)
  have f: "f \<in> avail_frames s" "avail_frames s1 = avail_frames s - {f}" "frame_inv s1"
    using alloc_Some [OF inv al] by auto
  have af: "page_aligned f" using avail_aligned [OF inv f(1)] by simp
  have fm: "f AND PHYS_MASK = f" using lim f(1) af by (intro phys_mask_self) auto
  have tf: "t = f" unfolding t v_def mask_or using fm by (simp add: mask_or)
  have sub: "arange ?a 8 \<subseteq> arange p 4096" by (rule entry_in_page [OF p(3)])
  have dis: "arange p 4096 \<inter> arange f 4096 = {}"
    using p(1,2) af f(1) by (intro page_disjoint) auto
  have out: "x \<notin> arange p 4096 \<Longrightarrow> write_u64 (kmem s1) ?a v x = kmem s1 x" for x
    using sub by (auto intro: write_u64_outside)
  have "frame_inv s' \<and> avail_frames s' = avail_frames s1"
    unfolding s' using frame_inv_mem_upd [OF f(3) p(1) _ out] p(2) f(2) by blast
  moreover have "\<forall>x \<in> arange t 4096. kmem s' x = 0"
    using alloc_zeroed [OF al] out dis tf by (simp add: s' disjoint_iff) metis
  moreover have "\<forall>x. x \<notin> arange ?a 8 \<and> x \<notin> arange t 4096 \<longrightarrow> kmem s' x = kmem s x"
    using alloc_frame_rule [OF al] tf by (simp add: s' write_u64_outside)
  ultimately show ?thesis
    using f tf fm by (simp add: s' read_write_u64 v_def)
qed


section \<open>All levels\<close>

text \<open>The descent of \<open>map_page\<close>, level by level.\<close>

fun ensure_tables ::
  "bool \<Rightarrow> u64 \<Rightarrow> u64 \<Rightarrow> nat list \<Rightarrow> 'a frame_state_scheme \<Rightarrow> u64 option \<times> 'a frame_state_scheme" where
  "ensure_tables user t va [] s = (Some t, s)"
| "ensure_tables user t va (sh # shs) s =
     (case next_table (entry_at t (pt_index sh va)) user s of
        (None, s') \<Rightarrow> (None, s')
      | (Some t', s') \<Rightarrow> ensure_tables user t' va shs s')"

lemma map_page_ensure:
  "map_page pml4 va phys w u s =
     (case ensure_tables u (pml4 AND PHYS_MASK) va [39, 30, 21] s of
        (None, s') \<Rightarrow> (False, s')
      | (Some pt, s') \<Rightarrow>
          (True, s'\<lparr>kmem := write_u64 (kmem s') (entry_at pt (pt_index 12 va)) (leaf_entry phys w u)\<rparr>))"
  by (simp add: map_page_def Let_def split: prod.splits option.splits)

text \<open>A complete chain of present tables from \<open>t\<close> down to the leaf table \<open>l\<close>.\<close>

fun linked :: "memory \<Rightarrow> bool \<Rightarrow> u64 \<Rightarrow> u64 \<Rightarrow> nat list \<Rightarrow> u64 \<Rightarrow> bool" where
  "linked m u t va [] l \<longleftrightarrow> t = l"
| "linked m u t va (sh # shs) l \<longleftrightarrow>
     (let e = read_u64 m (entry_at t (pt_index sh va))
      in flag e PAGE_PRESENT \<and> \<not> flag e PAGE_HUGE \<and> (u \<longrightarrow> flag e PAGE_USER) \<and>
         linked m u (e AND PHYS_MASK) va shs l)"

text \<open>Every table that is already on the path allows writing.\<close>

fun path_writable :: "memory \<Rightarrow> u64 \<Rightarrow> u64 \<Rightarrow> nat list \<Rightarrow> bool" where
  "path_writable m t va [] \<longleftrightarrow> True"
| "path_writable m t va (sh # shs) \<longleftrightarrow>
     (let e = read_u64 m (entry_at t (pt_index sh va))
      in flag e PAGE_PRESENT \<and> \<not> flag e PAGE_HUGE \<longrightarrow>
         flag e PAGE_WRITABLE \<and> path_writable m (e AND PHYS_MASK) va shs)"

definition tables_writable :: "memory \<Rightarrow> u64 \<Rightarrow> u64 \<Rightarrow> bool" where
  "tables_writable m cr3 va = path_writable m (cr3 AND PHYS_MASK) va [39, 30, 21]"

lemma table_path_hd: "t \<in> set (table_path m t va shs)"
  by (cases shs) (auto simp: Let_def)

lemma table_path_ne [simp]: "table_path m t va shs \<noteq> []"
  by (cases shs) (auto simp: Let_def)

lemma entry_cong:
  assumes "\<And>x. x \<in> arange t 4096 \<Longrightarrow> m' x = m x"
  shows "read_u64 m' (entry_at t (pt_index sh va)) = read_u64 m (entry_at t (pt_index sh va))"
  by (rule read_u64_cong) (use entry_in_page [OF pt_index_less] assms in blast)

lemma table_path_cong:
  "(\<And>q x. q \<in> set (table_path m t va shs) \<Longrightarrow> x \<in> arange q 4096 \<Longrightarrow> m' x = m x) \<Longrightarrow>
    table_path m' t va shs = table_path m t va shs"
proof (induction shs arbitrary: t)
  case Nil
  then show ?case by simp
next
  case (Cons sh shs)
  have "read_u64 m' (entry_at t (pt_index sh va)) = read_u64 m (entry_at t (pt_index sh va))"
    by (rule entry_cong) (use Cons.prems table_path_hd in blast)
  with Cons show ?case by (auto simp: Let_def)
qed

lemma linked_cong:
  "linked m u t va shs l \<Longrightarrow>
   (\<And>q x. q \<in> set (butlast (table_path m t va shs)) \<Longrightarrow> x \<in> arange q 4096 \<Longrightarrow> m' x = m x) \<Longrightarrow>
    linked m' u t va shs l"
proof (induction shs arbitrary: t)
  case Nil
  then show ?case by simp
next
  case (Cons sh shs)
  let ?e = "read_u64 m (entry_at t (pt_index sh va))"
  from Cons.prems(1) have f: "flag ?e PAGE_PRESENT \<and> \<not> flag ?e PAGE_HUGE" by (simp add: Let_def)
  have same: "read_u64 m' (entry_at t (pt_index sh va)) = ?e"
    by (rule entry_cong) (use Cons.prems(2) f in \<open>auto simp: Let_def\<close>)
  have "linked m' u (?e AND PHYS_MASK) va shs l"
    using Cons.prems f by (intro Cons.IH) (auto simp: Let_def)
  with same f Cons.prems(1) show ?case by (simp add: Let_def)
qed

lemma linked_path_cong:
  "linked m u t va shs l \<Longrightarrow>
   (\<And>q x. q \<in> set (butlast (table_path m t va shs)) \<Longrightarrow> x \<in> arange q 4096 \<Longrightarrow> m' x = m x) \<Longrightarrow>
    table_path m' t va shs = table_path m t va shs"
proof (induction shs arbitrary: t)
  case Nil
  then show ?case by simp
next
  case (Cons sh shs)
  let ?e = "read_u64 m (entry_at t (pt_index sh va))"
  from Cons.prems(1) have f: "flag ?e PAGE_PRESENT \<and> \<not> flag ?e PAGE_HUGE" by (simp add: Let_def)
  have "read_u64 m' (entry_at t (pt_index sh va)) = ?e"
    by (rule entry_cong) (use Cons.prems(2) f in \<open>auto simp: Let_def\<close>)
  moreover have "table_path m' (?e AND PHYS_MASK) va shs = table_path m (?e AND PHYS_MASK) va shs"
    using Cons.prems f by (intro Cons.IH) (auto simp: Let_def)
  ultimately show ?case using f by (simp add: Let_def)
qed

lemma linked_path_last: "linked m u t va shs l \<Longrightarrow> last (table_path m t va shs) = l"
proof (induction shs arbitrary: t)
  case (Cons sh shs)
  then show ?case by (simp add: Let_def table_path_ne)
qed simp

lemma table_path_aligned: "page_aligned t \<Longrightarrow> q \<in> set (table_path m t va shs) \<Longrightarrow> page_aligned q"
proof (induction shs arbitrary: t)
  case (Cons sh shs)
  then show ?case
    using Cons.IH [OF page_aligned_mask] by (auto simp: Let_def split: if_splits)
qed simp

lemma zero_table_path:
  assumes "\<And>x. x \<in> arange t 4096 \<Longrightarrow> m x = 0"
  shows "table_path m t va shs = [t]"
proof (cases shs)
  case (Cons sh ys)
  have "read_u64 m (entry_at t (pt_index sh va)) = 0"
    by (rule read_u64_zero) (use entry_in_page [OF pt_index_less] assms in blast)
  with Cons show ?thesis by (simp add: Let_def)
qed simp


text \<open>One level of the descent, in terms of the paths below it.\<close>

lemma next_table_descend:
  assumes inv: "frame_inv s" and t: "page_aligned t"
    and path: "distinct (table_path (kmem s) t va (sh # shs))"
      "set (table_path (kmem s) t va (sh # shs)) \<inter> avail_frames s = {}"
    and lim: "\<forall>f \<in> avail_frames s. f < 0x10000000000000"
    and nt: "next_table (entry_at t (pt_index sh va)) user s = (Some t1, s1)"
  defines "e1 \<equiv> read_u64 (kmem s1) (entry_at t (pt_index sh va))"
    and "P \<equiv> table_path (kmem s1) t1 va shs"
  shows "frame_inv s1 \<and> avail_frames s1 \<subseteq> avail_frames s \<and> page_aligned t1 \<and>
    flag e1 PAGE_PRESENT \<and> \<not> flag e1 PAGE_HUGE \<and> (user \<longrightarrow> flag e1 PAGE_USER) \<and>
    e1 AND PHYS_MASK = t1 \<and> distinct P \<and> t \<notin> set P \<and> set P \<inter> avail_frames s1 = {} \<and>
    set P \<subseteq> set (table_path (kmem s) t va (sh # shs)) \<union> avail_frames s \<and>
    (\<forall>x. x \<notin> arange t 4096 \<longrightarrow> x \<notin> arange t1 4096 \<longrightarrow> kmem s1 x = kmem s x)"
proof -
  let ?a = "entry_at t (pt_index sh va)"
  have tn: "t \<notin> avail_frames s" using path(2) table_path_hd by blast
  have sub: "arange ?a 8 \<subseteq> arange t 4096" by (rule entry_in_page [OF pt_index_less])
  show ?thesis
  proof (cases "flag (read_u64 (kmem s) ?a) PAGE_PRESENT")
    case True
    note np = next_table_present [OF inv t tn pt_index_less refl True nt]
    have full: "table_path (kmem s) t va (sh # shs) = t # table_path (kmem s) t1 va shs"
      using True np by (simp add: Let_def)
    have al: "page_aligned t1" using np by simp
    have "P = table_path (kmem s) t1 va shs"
      unfolding P_def
    proof (rule table_path_cong)
      fix q x assume q: "q \<in> set (table_path (kmem s) t1 va shs)" "x \<in> arange q 4096"
      then have "arange q 4096 \<inter> arange t 4096 = {}"
        using path(1) full t table_path_aligned [OF al q(1)] by (intro page_disjoint) auto
      then show "kmem s1 x = kmem s x" using np q(2) sub by blast
    qed
    moreover have "flag e1 PAGE_PRESENT \<and> \<not> flag e1 PAGE_HUGE \<and> (user \<longrightarrow> flag e1 PAGE_USER)"
      using np True unfolding e1_def by (auto simp: flag_or) (simp_all add: flag_def)
    moreover have "e1 AND PHYS_MASK = t1" using np by (simp add: e1_def mask_or)
    ultimately show ?thesis using np al full path sub by auto
  next
    case False
    note na = next_table_absent [OF inv t tn pt_index_less lim False nt]
    have al: "page_aligned t1" using na avail_aligned [OF inv] by blast
    have "P = [t1]" unfolding P_def using na by (intro zero_table_path) blast
    moreover have "\<not> flag t1 PAGE_HUGE" using na flag_mask(4) [of t1] by simp
    then have "flag e1 PAGE_PRESENT \<and> \<not> flag e1 PAGE_HUGE \<and> (user \<longrightarrow> flag e1 PAGE_USER)"
      using na unfolding e1_def by (auto simp: flag_or) (simp_all add: flag_def)
    moreover have "e1 AND PHYS_MASK = t1" using na by (simp add: e1_def mask_or)
    ultimately show ?thesis using na al tn sub by auto
  qed
qed

text \<open>
  The descent leaves a complete chain of distinct, unavailable table pages: the old ones and
  freshly allocated ones. Nothing outside these pages changes.
\<close>

lemma ensure_tables_spec:
  "frame_inv s \<Longrightarrow> page_aligned t \<Longrightarrow> distinct (table_path (kmem s) t va shs) \<Longrightarrow>
   set (table_path (kmem s) t va shs) \<inter> avail_frames s = {} \<Longrightarrow>
   \<forall>f \<in> avail_frames s. f < 0x10000000000000 \<Longrightarrow>
   ensure_tables user t va shs s = (Some l, s') \<Longrightarrow>
   frame_inv s' \<and> avail_frames s' \<subseteq> avail_frames s \<and> linked (kmem s') user t va shs l \<and>
   distinct (table_path (kmem s') t va shs) \<and>
   set (table_path (kmem s') t va shs) \<inter> avail_frames s' = {} \<and>
   set (table_path (kmem s') t va shs) \<subseteq> set (table_path (kmem s) t va shs) \<union> avail_frames s \<and>
   (\<forall>x. (\<forall>q \<in> set (table_path (kmem s') t va shs). x \<notin> arange q 4096) \<longrightarrow> kmem s' x = kmem s x)"
proof (induction shs arbitrary: t s)
  case Nil
  then show ?case by simp
next
  case (Cons sh shs)
  let ?a = "entry_at t (pt_index sh va)"
  obtain t1 s1 where nt: "next_table ?a user s = (Some t1, s1)"
    and en: "ensure_tables user t1 va shs s1 = (Some l, s')"
    using Cons.prems(6) by (auto split: prod.splits option.splits)
  note step = next_table_descend [OF Cons.prems(1-5) nt]
  have tn: "t \<notin> avail_frames s" using Cons.prems(4) table_path_hd by blast
  let ?P = "table_path (kmem s') t1 va shs"
  have ih: "frame_inv s' \<and> avail_frames s' \<subseteq> avail_frames s1 \<and> linked (kmem s') user t1 va shs l \<and>
      distinct ?P \<and> set ?P \<inter> avail_frames s' = {} \<and>
      set ?P \<subseteq> set (table_path (kmem s1) t1 va shs) \<union> avail_frames s1 \<and>
      (\<forall>x. (\<forall>q \<in> set ?P. x \<notin> arange q 4096) \<longrightarrow> kmem s' x = kmem s1 x)"
    using step Cons.prems(5) en by (intro Cons.IH) auto
  have tP: "t \<notin> set ?P" using ih step tn by blast
  have keep: "read_u64 (kmem s') ?a = read_u64 (kmem s1) ?a"
  proof (rule entry_cong)
    fix x assume x: "x \<in> arange t 4096"
    have "x \<notin> arange q 4096" if "q \<in> set ?P" for q
      using page_disjoint [of t q 4096 4096] that tP x Cons.prems(2) step table_path_aligned [of t1 q]
      by (auto simp: disjoint_iff)
    then show "kmem s' x = kmem s1 x" using ih by blast
  qed
  have path': "table_path (kmem s') t va (sh # shs) = t # ?P"
    using keep step by (simp add: Let_def)
  have "linked (kmem s') user t va (sh # shs) l" using keep step ih by (simp add: Let_def)
  moreover have "kmem s' x = kmem s x" if "\<forall>q \<in> set (t # ?P). x \<notin> arange q 4096" for x
    using that ih step table_path_hd [of t1 "kmem s'" va shs] by auto
  moreover have "set (t # ?P) \<subseteq> set (table_path (kmem s) t va (sh # shs)) \<union> avail_frames s"
    using ih step table_path_hd [of t "kmem s" va "sh # shs"]
    unfolding list.set insert_subset by blast
  moreover have "avail_frames s' \<subseteq> avail_frames s" "set (t # ?P) \<inter> avail_frames s' = {}"
    using ih step tn by auto
  moreover have "distinct (t # ?P)" "frame_inv s'" using ih tP by simp_all
  ultimately show ?case unfolding path' by blast
qed

text \<open>
  The path grows at its end by the frames that leave the allocator, and the new entries allow writing.
\<close>

lemma path_writable_cong:
  "(\<And>q x. q \<in> set (table_path m t va shs) \<Longrightarrow> x \<in> arange q 4096 \<Longrightarrow> m' x = m x) \<Longrightarrow>
    path_writable m' t va shs = path_writable m t va shs"
proof (induction shs arbitrary: t)
  case (Cons sh shs)
  have "read_u64 m' (entry_at t (pt_index sh va)) = read_u64 m (entry_at t (pt_index sh va))"
    by (rule entry_cong) (use Cons.prems table_path_hd in blast)
  with Cons show ?case by (auto simp: Let_def)
qed simp

lemma next_table_grows:
  assumes inv: "frame_inv s" and t: "page_aligned t"
    and path: "distinct (table_path (kmem s) t va (sh # shs))"
      "set (table_path (kmem s) t va (sh # shs)) \<inter> avail_frames s = {}"
    and lim: "\<forall>f \<in> avail_frames s. f < 0x10000000000000"
    and nt: "next_table (entry_at t (pt_index sh va)) user s = (Some t1, s1)"
  shows "(\<exists>new. t # table_path (kmem s1) t1 va shs = table_path (kmem s) t va (sh # shs) @ new \<and>
      set new \<subseteq> avail_frames s \<and> avail_frames s1 = avail_frames s - set new) \<and>
    (flag (read_u64 (kmem s1) (entry_at t (pt_index sh va))) PAGE_WRITABLE \<and> path_writable (kmem s1) t1 va shs \<longleftrightarrow>
     path_writable (kmem s) t va (sh # shs))"
proof -
  let ?a = "entry_at t (pt_index sh va)"
  have tn: "t \<notin> avail_frames s" using path(2) table_path_hd by blast
  have sub: "arange ?a 8 \<subseteq> arange t 4096" by (rule entry_in_page [OF pt_index_less])
  show ?thesis
  proof (cases "flag (read_u64 (kmem s) ?a) PAGE_PRESENT")
    case True
    note np = next_table_present [OF inv t tn pt_index_less refl True nt]
    have full: "table_path (kmem s) t va (sh # shs) = t # table_path (kmem s) t1 va shs"
      using True np by (simp add: Let_def)
    have al: "page_aligned t1" using np by simp
    have same: "kmem s1 x = kmem s x" if q: "q \<in> set (table_path (kmem s) t1 va shs)" "x \<in> arange q 4096" for q x
    proof -
      have "arange q 4096 \<inter> arange t 4096 = {}"
        using path(1) full t table_path_aligned [OF al q(1)] q(1) by (intro page_disjoint) auto
      then show ?thesis using np q(2) sub by blast
    qed
    have "table_path (kmem s1) t1 va shs = table_path (kmem s) t1 va shs"
      "path_writable (kmem s1) t1 va shs = path_writable (kmem s) t1 va shs"
      by (rule table_path_cong, erule (1) same, rule path_writable_cong, erule (1) same)
    moreover have "flag (read_u64 (kmem s1) ?a) PAGE_WRITABLE = flag (read_u64 (kmem s) ?a) PAGE_WRITABLE"
      using np by (auto simp: flag_or) (simp_all add: flag_def)
    ultimately show ?thesis using np True full by (auto simp: Let_def)
  next
    case False
    note na = next_table_absent [OF inv t tn pt_index_less lim False nt]
    have z: "table_path (kmem s1) t1 va shs = [t1]" using na by (intro zero_table_path) blast
    have "path_writable (kmem s1) t1 va shs"
    proof (cases shs)
      case (Cons sh' shs')
      have "read_u64 (kmem s1) (entry_at t1 (pt_index sh' va)) = 0"
        by (rule read_u64_zero) (use entry_in_page [OF pt_index_less] na in blast)
      then show ?thesis by (simp add: Cons Let_def)
    qed simp
    moreover have "flag (read_u64 (kmem s1) ?a) PAGE_WRITABLE" using na by (auto simp: flag_or) (simp_all add: flag_def)
    ultimately show ?thesis using na z False by (auto simp: Let_def)
  qed
qed

lemma ensure_tables_grows:
  "frame_inv s \<Longrightarrow> page_aligned t \<Longrightarrow> distinct (table_path (kmem s) t va shs) \<Longrightarrow>
   set (table_path (kmem s) t va shs) \<inter> avail_frames s = {} \<Longrightarrow>
   \<forall>f \<in> avail_frames s. f < 0x10000000000000 \<Longrightarrow>
   ensure_tables user t va shs s = (Some l, s') \<Longrightarrow>
   (\<exists>new. table_path (kmem s') t va shs = table_path (kmem s) t va shs @ new \<and>
      set new \<subseteq> avail_frames s \<and> avail_frames s' = avail_frames s - set new) \<and>
   path_writable (kmem s') t va shs = path_writable (kmem s) t va shs"
proof (induction shs arbitrary: t s)
  case (Cons sh shs)
  let ?a = "entry_at t (pt_index sh va)" and ?P = "\<lambda>m t. table_path m t va shs"
  obtain t1 s1 where nt: "next_table ?a user s = (Some t1, s1)"
    and en: "ensure_tables user t1 va shs s1 = (Some l, s')"
    using Cons.prems(6) by (auto split: prod.splits option.splits)
  note step = next_table_descend [OF Cons.prems(1-5) nt]
  have s1: "frame_inv s1" "page_aligned t1" "distinct (?P (kmem s1) t1)" "set (?P (kmem s1) t1) \<inter> avail_frames s1 = {}"
    "\<forall>f \<in> avail_frames s1. f < 0x10000000000000" using step Cons.prems(5) by auto
  note below = ensure_tables_spec [OF s1 en]
  have tP: "t \<notin> set (?P (kmem s') t1)"
    using below step Cons.prems(4) table_path_hd [of t "kmem s" va "sh # shs"] by blast
  have keep: "read_u64 (kmem s') ?a = read_u64 (kmem s1) ?a"
  proof (rule entry_cong)
    fix x assume x: "x \<in> arange t 4096"
    have "x \<notin> arange q 4096" if "q \<in> set (?P (kmem s') t1)" for q
      using page_disjoint [of t q 4096 4096] that tP x Cons.prems(2) table_path_aligned [OF s1(2) that]
      by (auto simp: disjoint_iff)
    then show "kmem s' x = kmem s1 x" using below by blast
  qed
  obtain new where new: "t # ?P (kmem s1) t1 = table_path (kmem s) t va (sh # shs) @ new" "set new \<subseteq> avail_frames s"
    "avail_frames s1 = avail_frames s - set new"
    and w: "flag (read_u64 (kmem s1) ?a) PAGE_WRITABLE \<and> path_writable (kmem s1) t1 va shs \<longleftrightarrow> path_writable (kmem s) t va (sh # shs)"
    using next_table_grows [OF Cons.prems(1-5) nt] by auto
  obtain new' where new': "?P (kmem s') t1 = ?P (kmem s1) t1 @ new'" "set new' \<subseteq> avail_frames s1"
    "avail_frames s' = avail_frames s1 - set new'"
    and w': "path_writable (kmem s') t1 va shs = path_writable (kmem s1) t1 va shs"
    using Cons.IH [OF s1 en] by auto
  have "table_path (kmem s') t va (sh # shs) = t # ?P (kmem s') t1"
    "path_writable (kmem s') t va (sh # shs) \<longleftrightarrow> flag (read_u64 (kmem s1) ?a) PAGE_WRITABLE \<and> path_writable (kmem s') t1 va shs"
    using keep step by (simp_all add: Let_def)
  moreover have "t # ?P (kmem s') t1 = table_path (kmem s) t va (sh # shs) @ new @ new'"
    using new(1) new'(1) by (metis append_Cons append_assoc)
  ultimately show ?case using new(2,3) new'(2,3) w w' by (intro conjI exI [of _ "new @ new'"]) auto
qed simp

lemma next_table_pool:
  assumes "frame_inv s" "next_table a user s = (r, s')"
  shows "pool_frames s \<subseteq> pool_frames s'"
proof (cases "alloc_frame s")
  case (Pair f s1)
  have "pool_frames (s\<lparr>kmem := m\<rparr>) = pool_frames s" for m and s :: "'a frame_state_scheme"
    by (simp add: pool_frames_def)
  moreover have "f \<noteq> None \<Longrightarrow> pool_frames s \<subseteq> pool_frames s1"
    using alloc_pool [OF assms(1)] Pair by auto
  moreover have "f = None \<Longrightarrow> s1 = s"
    using Pair by (auto simp: alloc_frame_def Let_def split: if_splits)
  ultimately show ?thesis
    using assms(2) Pair by (auto simp: next_table_def Let_def split: if_splits option.splits)
qed

lemma ensure_tables_pool:
  "frame_inv s \<Longrightarrow> page_aligned t \<Longrightarrow> distinct (table_path (kmem s) t va shs) \<Longrightarrow>
   set (table_path (kmem s) t va shs) \<inter> avail_frames s = {} \<Longrightarrow>
   \<forall>f \<in> avail_frames s. f < 0x10000000000000 \<Longrightarrow>
   ensure_tables user t va shs s = (Some l, s') \<Longrightarrow> pool_frames s \<subseteq> pool_frames s'"
proof (induction shs arbitrary: t s)
  case (Cons sh shs)
  obtain t1 s1 where nt: "next_table (entry_at t (pt_index sh va)) user s = (Some t1, s1)"
    and en: "ensure_tables user t1 va shs s1 = (Some l, s')"
    using Cons.prems(6) by (auto split: prod.splits option.splits)
  note step = next_table_descend [OF Cons.prems(1-5) nt]
  have "pool_frames s1 \<subseteq> pool_frames s'"
    using step Cons.prems(5) en by (intro Cons.IH) auto
  then show ?case using next_table_pool [OF Cons.prems(1) nt] by blast
qed simp

lemma next_table_more: "next_table a user s = (r, s') \<Longrightarrow> frame_state.more s' = frame_state.more s"
  by (cases "alloc_frame s")
    (auto simp: next_table_def Let_def dest: alloc_more split: if_splits option.splits)

lemma ensure_tables_more: "ensure_tables user t va shs s = (r, s') \<Longrightarrow> frame_state.more s' = frame_state.more s"
proof (induction shs arbitrary: t s)
  case (Cons sh shs)
  then show ?case
    by (cases "next_table (entry_at t (pt_index sh va)) user s")
      (auto dest!: next_table_more split: option.splits)
qed simp

text \<open>A translation only depends on the table pages of its walk.\<close>

lemma translate_cong:
  assumes "\<And>q x. q \<in> set (walk_tables m cr3 va) \<Longrightarrow> x \<in> arange q 4096 \<Longrightarrow> m' x = m x"
  shows "translate m' cr3 va = translate m cr3 va"
proof -
  have rd: "read_u64 m' (entry_at q (pt_index sh va)) = read_u64 m (entry_at q (pt_index sh va))"
    if "q \<in> set (walk_tables m cr3 va)" for q sh
    using assms [OF that] by (intro entry_cong) blast
  let ?e4 = "read_u64 m (entry_at (cr3 AND PHYS_MASK) (pt_index 39 va))"
  let ?e3 = "read_u64 m (entry_at (?e4 AND PHYS_MASK) (pt_index 30 va))"
  let ?e2 = "read_u64 m (entry_at (?e3 AND PHYS_MASK) (pt_index 21 va))"
  have 4: "read_u64 m' (entry_at (cr3 AND PHYS_MASK) (pt_index 39 va)) = ?e4"
    by (rule rd) (simp add: walk_tables_def Let_def)
  show ?thesis
  proof (cases "flag ?e4 PAGE_PRESENT \<and> \<not> flag ?e4 PAGE_HUGE")
    case t4: True
    have 3: "read_u64 m' (entry_at (?e4 AND PHYS_MASK) (pt_index 30 va)) = ?e3"
      using t4 by (intro rd) (simp add: walk_tables_def Let_def)
    show ?thesis
    proof (cases "flag ?e3 PAGE_PRESENT \<and> \<not> flag ?e3 PAGE_HUGE")
      case t3: True
      have 2: "read_u64 m' (entry_at (?e3 AND PHYS_MASK) (pt_index 21 va)) = ?e2"
        using t4 t3 by (intro rd) (simp add: walk_tables_def Let_def)
      show ?thesis
      proof (cases "flag ?e2 PAGE_PRESENT \<and> \<not> flag ?e2 PAGE_HUGE")
        case t2: True
        have "read_u64 m' (entry_at (?e2 AND PHYS_MASK) (pt_index 12 va)) =
            read_u64 m (entry_at (?e2 AND PHYS_MASK) (pt_index 12 va))"
          using t4 t3 t2 by (intro rd) (simp add: walk_tables_def Let_def)
        then show ?thesis by (simp add: translate_def Let_def 4 3 2)
      qed (auto simp: translate_def Let_def 4 3 2)
    qed (auto simp: translate_def Let_def 4 3)
  qed (auto simp: translate_def Let_def 4)
qed

section \<open>Properties\<close>

lemma leaf_entry_facts:
  "flag (leaf_entry phys w u) PAGE_PRESENT"
  "flag (leaf_entry phys w u) PAGE_WRITABLE \<longleftrightarrow> w"
  "flag (leaf_entry phys w u) PAGE_USER \<longleftrightarrow> u"
  "leaf_entry phys w u AND PHYS_MASK = phys AND PHYS_MASK"
  by (auto simp: leaf_entry_def Let_def flag_or mask_or) (simp_all add: flag_def)

lemma translate_linked:
  assumes "linked m u (cr3 AND PHYS_MASK) va [39, 30, 21] l"
    and "e1 = read_u64 m (entry_at l (pt_index 12 va))" "flag e1 PAGE_PRESENT"
  shows "\<exists>tr. translate m cr3 va = Some tr \<and> tr_phys tr = (e1 AND PHYS_MASK) OR (va AND 0xFFF) \<and>
    (tr_writable tr \<longrightarrow> flag e1 PAGE_WRITABLE) \<and> (tr_user tr \<longrightarrow> flag e1 PAGE_USER) \<and>
    (u \<and> flag e1 PAGE_USER \<longrightarrow> tr_user tr)"
  using assms by (auto simp: translate_def Let_def)

lemma translate_writable:
  assumes "linked m u (cr3 AND PHYS_MASK) va [39, 30, 21] l" "translate m cr3 va = Some tr"
  shows "tr_writable tr \<longleftrightarrow> flag (read_u64 m (entry_at l (pt_index 12 va))) PAGE_WRITABLE \<and> tables_writable m cr3 va"
proof -
  let ?e4 = "read_u64 m (entry_at (cr3 AND PHYS_MASK) (pt_index 39 va))"
  let ?e3 = "read_u64 m (entry_at (?e4 AND PHYS_MASK) (pt_index 30 va))"
  let ?e2 = "read_u64 m (entry_at (?e3 AND PHYS_MASK) (pt_index 21 va))"
  have l: "flag ?e4 PAGE_PRESENT" "\<not> flag ?e4 PAGE_HUGE" "flag ?e3 PAGE_PRESENT" "\<not> flag ?e3 PAGE_HUGE"
    "flag ?e2 PAGE_PRESENT" "\<not> flag ?e2 PAGE_HUGE" "?e2 AND PHYS_MASK = l"
    using assms(1) by (simp_all add: Let_def)
  show ?thesis using assms(2) l by (auto simp: translate_def tables_writable_def Let_def split: if_splits)
qed

lemma linked_writable_cong:
  "linked m u t va shs l \<Longrightarrow>
   (\<And>q x. q \<in> set (butlast (table_path m t va shs)) \<Longrightarrow> x \<in> arange q 4096 \<Longrightarrow> m' x = m x) \<Longrightarrow>
    path_writable m' t va shs = path_writable m t va shs"
proof (induction shs arbitrary: t)
  case (Cons sh shs)
  let ?e = "read_u64 m (entry_at t (pt_index sh va))"
  from Cons.prems(1) have f: "flag ?e PAGE_PRESENT \<and> \<not> flag ?e PAGE_HUGE" by (simp add: Let_def)
  have "read_u64 m' (entry_at t (pt_index sh va)) = ?e"
    by (rule entry_cong) (use Cons.prems(2) f in \<open>auto simp: Let_def\<close>)
  moreover have "path_writable m' (?e AND PHYS_MASK) va shs = path_writable m (?e AND PHYS_MASK) va shs"
    using Cons.prems f by (intro Cons.IH) (auto simp: Let_def)
  ultimately show ?case using f by (simp add: Let_def)
qed simp

lemma map_page_spec:
  assumes inv: "frame_inv s"
    and path: "distinct (walk_tables (kmem s) pml4 va)"
      "set (walk_tables (kmem s) pml4 va) \<inter> avail_frames s = {}"
    and lim: "\<forall>f \<in> avail_frames s. f < 0x10000000000000"
    and mp: "map_page pml4 va phys writable user s = (True, s')"
  shows "\<exists>tr. translate (kmem s') pml4 va = Some tr \<and>
      tr_phys tr = (phys AND PHYS_MASK) OR (va AND 0xFFF) \<and>
      (tr_user tr \<longleftrightarrow> user) \<and> (tr_writable tr \<longrightarrow> writable)"
    and "frame_inv s' \<and> avail_frames s' \<subseteq> avail_frames s"
    and "\<forall>q \<in> set (walk_tables (kmem s') pml4 va). x \<notin> arange q 4096 \<Longrightarrow> kmem s' x = kmem s x"
    and "set (walk_tables (kmem s') pml4 va) \<subseteq> set (walk_tables (kmem s) pml4 va) \<union> avail_frames s"
    and "pool_frames s \<subseteq> pool_frames s' \<and> frame_state.more s' = frame_state.more s"
    and "\<exists>new. walk_tables (kmem s') pml4 va = walk_tables (kmem s) pml4 va @ new \<and>
      set new \<subseteq> avail_frames s \<and> avail_frames s' = avail_frames s - set new"
    and "translate (kmem s') pml4 va = Some tr' \<Longrightarrow> tr_writable tr' \<longleftrightarrow> writable \<and> tables_writable (kmem s) pml4 va"
proof -
  let ?p = "pml4 AND PHYS_MASK" and ?shs = "[39, 30, 21] :: nat list"
  obtain l s1 where en: "ensure_tables user ?p va ?shs s = (Some l, s1)"
    and s': "s' = s1\<lparr>kmem := write_u64 (kmem s1) (entry_at l (pt_index 12 va)) (leaf_entry phys writable user)\<rparr>"
    using mp by (auto simp: map_page_ensure split: prod.splits option.splits)
  let ?P = "table_path (kmem s1) ?p va ?shs"
  note e = ensure_tables_spec [OF inv page_aligned_mask path [unfolded walk_tables_def] lim en]
  have last: "last ?P = l" using e by (blast intro: linked_path_last)
  have lP: "l \<in> set ?P" by (subst last [symmetric]) (rule last_in_set [OF table_path_ne])
  have al: "page_aligned q" if "q \<in> set ?P" for q
    using that by (rule table_path_aligned [OF page_aligned_mask])
  have out: "kmem s' x = kmem s1 x" if "x \<notin> arange l 4096" for x
    using that entry_in_page [OF pt_index_less, of l 12 va] by (auto simp: s' intro!: write_u64_outside)
  have but: "kmem s' x = kmem s1 x" if q: "q \<in> set (butlast ?P)" "x \<in> arange q 4096" for q x
  proof -
    have "?P = butlast ?P @ [l]" using last by (metis append_butlast_last_id table_path_ne)
    then have "q \<noteq> l" using e q(1) by (metis distinct_butlast not_distinct_conv_prefix)
    then have "arange q 4096 \<inter> arange l 4096 = {}"
      using q(1) lP al in_set_butlastD [OF q(1)] by (intro page_disjoint) auto
    then show ?thesis using q(2) by (intro out) blast
  qed
  have lk1: "linked (kmem s1) user ?p va ?shs l" using e by blast
  have lk: "linked (kmem s') user ?p va ?shs l" using lk1 but by (rule linked_cong)
  have leaf: "read_u64 (kmem s') (entry_at l (pt_index 12 va)) = leaf_entry phys writable user"
    by (simp add: s' read_write_u64)
  show "\<exists>tr. translate (kmem s') pml4 va = Some tr \<and>
      tr_phys tr = (phys AND PHYS_MASK) OR (va AND 0xFFF) \<and>
      (tr_user tr \<longleftrightarrow> user) \<and> (tr_writable tr \<longrightarrow> writable)"
    using translate_linked [OF lk leaf [symmetric]] by (auto simp: leaf_entry_facts)
  have av: "frame_inv s' \<and> avail_frames s' = avail_frames s1"
  proof -
    have "frame_inv s1" "l \<notin> avail_frames s1" using e lP by blast+
    moreover have "s' = s1\<lparr>kmem := kmem s'\<rparr>" by (simp add: s')
    ultimately show ?thesis using frame_inv_mem_upd [OF _ al [OF lP] _ out] by metis
  qed
  then show "frame_inv s' \<and> avail_frames s' \<subseteq> avail_frames s" using e by blast
  note g = ensure_tables_grows [OF inv page_aligned_mask path [unfolded walk_tables_def] lim en]
  have wt: "walk_tables (kmem s') pml4 va = ?P"
    unfolding walk_tables_def using lk1 but by (rule linked_path_cong)
  then show "set (walk_tables (kmem s') pml4 va) \<subseteq> set (walk_tables (kmem s) pml4 va) \<union> avail_frames s"
    using e by (simp add: walk_tables_def)
  show "\<exists>new. walk_tables (kmem s') pml4 va = walk_tables (kmem s) pml4 va @ new \<and>
      set new \<subseteq> avail_frames s \<and> avail_frames s' = avail_frames s - set new"
    using g av unfolding wt by (simp add: walk_tables_def)
  have "tables_writable (kmem s') pml4 va = path_writable (kmem s1) ?p va ?shs"
    unfolding tables_writable_def using lk1 but by (rule linked_writable_cong)
  then have "tables_writable (kmem s') pml4 va = tables_writable (kmem s) pml4 va"
    using g by (simp only: tables_writable_def)
  then show "tr_writable tr' \<longleftrightarrow> writable \<and> tables_writable (kmem s) pml4 va" if "translate (kmem s') pml4 va = Some tr'"
    using translate_writable [OF lk that] by (simp add: leaf leaf_entry_facts)
  have "pool_frames s' = pool_frames s1" "frame_state.more s' = frame_state.more s1"
    by (simp_all add: s' pool_frames_def)
  then show "pool_frames s \<subseteq> pool_frames s' \<and> frame_state.more s' = frame_state.more s"
    using ensure_tables_pool [OF inv page_aligned_mask path [unfolded walk_tables_def] lim en]
      ensure_tables_more [OF en] by simp
  from wt show "kmem s' x = kmem s x" if "\<forall>q \<in> set (walk_tables (kmem s') pml4 va). x \<notin> arange q 4096"
    using that e lP out by metis
qed


text \<open>
  C1: when \<open>map_page\<close> reports success, the processor's page walk of the virtual address through the
  edited tables reaches exactly the requested physical frame, with the page accessible from
  ring 3 if and only if \<open>user\<close> was asked for, and writable if and only if \<open>writable\<close> was and the tables that were already
  there allow it. The walk goes through the old tables and then through new ones, which are exactly the frames that left the
  allocator, whose invariant holds again afterwards; no memory outside the table pages of this walk is touched. The tables already on the path must be
  distinct pages that the allocator does not consider free.
\<close>

theorem map_page_translates:
  assumes "frame_inv s"
    and "distinct (walk_tables (kmem s) pml4 va)"
    and "set (walk_tables (kmem s) pml4 va) \<inter> avail_frames s = {}"
    and "\<forall>f \<in> avail_frames s. f < 0x10000000000000"
    and "map_page pml4 va phys writable user s = (True, s')"
  shows "(\<exists>tr. translate (kmem s') pml4 va = Some tr \<and>
      tr_phys tr = (phys AND PHYS_MASK) OR (va AND 0xFFF) \<and>
      (tr_user tr \<longleftrightarrow> user) \<and> (tr_writable tr \<longleftrightarrow> writable \<and> tables_writable (kmem s) pml4 va)) \<and>
    (\<exists>new. walk_tables (kmem s') pml4 va = walk_tables (kmem s) pml4 va @ new \<and>
      set new \<subseteq> avail_frames s \<and> avail_frames s' = avail_frames s - set new) \<and>
    frame_inv s' \<and>
    (\<forall>x. (\<forall>q \<in> set (walk_tables (kmem s') pml4 va). x \<notin> arange q 4096) \<longrightarrow> kmem s' x = kmem s x)"
proof -
  obtain tr where tr: "translate (kmem s') pml4 va = Some tr" "tr_phys tr = (phys AND PHYS_MASK) OR (va AND 0xFFF)" "tr_user tr \<longleftrightarrow> user"
    using map_page_spec(1) [OF assms] by blast
  show ?thesis
    using tr map_page_spec(7) [OF assms tr(1)] map_page_spec(6) [OF assms] map_page_spec(2) [OF assms] map_page_spec(3) [OF assms]
    by (intro conjI exI [of _ tr]) simp_all
qed

text \<open>A state with three frames left, an empty PML4 page outside the pool, and EPHEMERAL_BASE to map.\<close>

lemma demo_map: "fst (map_page 0x200000 0x100000000000 0x300000 True True demo_state)"
  by (simp add: map_page_def next_table_def alloc_frame_def demo_state_def zero_state_def
      frame_init_def page_down_def Let_def pt_index_def entry_at_def read_u64_zero mfill_def
      read_u64_def write_u64_def mread_def mwrite_def upt_rec)

theorem map_page_translates_witness:
  "\<exists>s' tr. map_page 0x200000 0x100000000000 0x300000 True True demo_state = (True, s') \<and>
    translate (kmem s') 0x200000 0x100000000000 = Some tr \<and> tr_phys tr = 0x300000 \<and> tr_user tr \<and> tr_writable tr"
proof -
  obtain s' where mp: "map_page 0x200000 0x100000000000 0x300000 True True demo_state = (True, s')"
    using demo_map by (metis prod.collapse)
  have z: "kmem demo_state = (\<lambda>_. 0)"
    by (simp add: demo_state_def frame_init_def zero_state_def Let_def)
  have w: "walk_tables (kmem demo_state) 0x200000 0x100000000000 = [0x200000]"
    unfolding walk_tables_def z by (subst zero_table_path) simp_all
  have "tables_writable (kmem demo_state) 0x200000 0x100000000000"
    by (simp add: tables_writable_def z read_u64_zero)
  moreover have "set [0x200000] \<inter> avail_frames demo_state = {}"
    by (simp add: demo_state_avail)
  moreover have "\<forall>f \<in> avail_frames demo_state. f < 0x10000000000000"
    by (simp add: demo_state_avail word_less_nat_alt)
  ultimately show ?thesis
    using map_page_translates [OF demo_state_inv _ _ _ mp] mp by (auto simp: w)
qed

text \<open>The base address the processor reads out of a 16-byte TSS descriptor.\<close>

definition descriptor_base :: "u64 \<Rightarrow> u64 \<Rightarrow> u64" where
  "descriptor_base low high =
     take_bit 24 (drop_bit 16 low) OR push_bit 24 (take_bit 8 (drop_bit 56 low)) OR push_bit 32 high"

definition descriptor_limit :: "u64 \<Rightarrow> u64" where
  "descriptor_limit low = take_bit 16 low OR push_bit 16 (take_bit 4 (drop_bit 48 low))"

lemma tss_masks:
  "x AND 0xF = take_bit 4 x" "x AND 0xFF = take_bit 8 x" "x AND 0xFFFF = take_bit 16 x"
  "x AND 0xFFFFFFFF = take_bit 32 x" for x :: u64
  by (simp_all add: take_bit_eq_mask mask_eq_exp_minus_1)

lemma tss_low_fields:
  fixes b l ty :: u64
  assumes "\<And>n. bit ty n \<Longrightarrow> n < 8"
    and d: "d = take_bit 16 l OR push_bit 16 (take_bit 16 b) OR push_bit 32 (take_bit 8 (drop_bit 16 b)) OR
    push_bit 40 ty OR push_bit 48 (take_bit 4 (drop_bit 16 l)) OR push_bit 56 (take_bit 8 (drop_bit 24 b))"
  shows "n < 24 \<Longrightarrow> bit d (n + 16) = bit b n" "n < 8 \<Longrightarrow> bit d (n + 56) = bit b (n + 24)"
    "n < 16 \<Longrightarrow> bit d n = bit l n" "n < 4 \<Longrightarrow> bit d (n + 48) = bit l (n + 16)"
  using assms(1) [of "n + 16"] assms(1) [of "n + 8"] unfolding d
  by (auto simp: bit_or_iff bit_push_bit_iff bit_drop_bit_eq bit_take_bit_iff add.commute
      dest: bit_imp_le_length)

lemma bit_0x89: "bit (0x89 :: u64) n \<Longrightarrow> n < 8"
proof -
  have "(0x89 :: u64) = take_bit 8 0x89" by simp
  then show "bit (0x89 :: u64) n \<Longrightarrow> n < 8" by (metis bit_take_bit_iff)
qed

lemma tss_low_bits:
  "n < 24 \<Longrightarrow> bit (tss_low b l) (n + 16) = bit b n"
  "n < 8 \<Longrightarrow> bit (tss_low b l) (n + 56) = bit b (n + 24)"
  "n < 16 \<Longrightarrow> bit (tss_low b l) n = bit l n"
  "n < 4 \<Longrightarrow> bit (tss_low b l) (n + 48) = bit l (n + 16)"
  by (rule tss_low_fields [OF bit_0x89 tss_low_def [unfolded tss_masks]]; assumption)+

text \<open>
  the two GDT slots that \<open>init_gdt\<close> builds for the task-state segment encode its address and
  its limit without loss: reassembling the scattered fields the way the processor does gives back
  the address of the TSS for every 64-bit address, and every limit below 2^20.
\<close>

theorem tss_descriptor_roundtrip:
  "descriptor_base (tss_low b l) (tss_high b) = b \<and>
   descriptor_limit (tss_low b l) = take_bit 20 l"
proof
  show "descriptor_base (tss_low b l) (tss_high b) = b"
  proof (rule bit_word_eqI)
    fix n assume "n < LENGTH(64)"
    then have "n < 64" by simp
    then have "n < 24 \<or> (\<exists>k. n = k + 24 \<and> k < 8) \<or> (\<exists>k. n = k + 32 \<and> k < 32)" by presburger
    then consider "n < 24" | k where "n = k + 24" "k < 8" | k where "n = k + 32" "k < 32"
      by blast
    then show "bit (descriptor_base (tss_low b l) (tss_high b)) n = bit b n"
      unfolding descriptor_base_def tss_high_def tss_masks
      by cases (simp_all add: bit_or_iff bit_push_bit_iff bit_drop_bit_eq bit_take_bit_iff add.commute
          tss_low_bits [simplified add.commute])
  qed
  show "descriptor_limit (tss_low b l) = take_bit 20 l"
  proof (rule bit_word_eqI)
    fix n assume "n < LENGTH(64)"
    have "n < 16 \<or> (\<exists>k. n = k + 16)" by presburger
    then consider "n < 16" | k where "n = k + 16" by blast
    then show "bit (descriptor_limit (tss_low b l)) n = bit (take_bit 20 l) n"
      unfolding descriptor_limit_def
      by cases (auto simp: bit_or_iff bit_push_bit_iff bit_drop_bit_eq bit_take_bit_iff add.commute
          tss_low_bits [simplified add.commute])
  qed
qed

end
