(* ===== verification/Ramfs.thy ===== *)
theory Ramfs
  imports Prelude
begin

text \<open>
  The in-RAM file system of \<open>src/kernel/src/fs.rs\<close>: a table of 256 nodes whose \<open>parent\<close> fields form
  the tree, and one byte pool from which file contents are carved by a bump pointer.

  The fixed arrays are functions on indices with the bounds checks of the source written out:
  every operation returns \<open>None\<close> where the Rust code would panic on an index, and \<open>Some\<close> of its
  result otherwise. Node indices (\<open>u16\<close>) are never computed with and are modelled as \<open>nat\<close>; the
  32-bit lengths and offsets are \<open>nat\<close> with the truncation of \<open>as u32\<close> written out.
\<close>

section \<open>State\<close>

abbreviation MAX_NODES :: nat where "MAX_NODES \<equiv> 256"
abbreviation NAME_MAX :: nat where "NAME_MAX \<equiv> 28"
abbreviation DATA_POOL :: nat where "DATA_POOL \<equiv> 262144"
abbreviation (input) ROOT :: nat where "ROOT \<equiv> 0"

type_synonym bytes = "u8 list"

definition bytes_of :: "string \<Rightarrow> bytes" where
  "bytes_of s = map of_char s"

abbreviation slash :: u8 where "slash \<equiv> 0x2F"
abbreviation newline_byte :: u8 where "newline_byte \<equiv> 0x0A"

datatype kind = Free | Dir | File

record node =
  name_arr :: bytes
  name_len :: nat
  node_kind :: kind
  parent :: nat
  data_off :: nat
  data_len :: nat
  data_cap :: nat

definition node_empty :: node where
  "node_empty = \<lparr>name_arr = replicate NAME_MAX 0, name_len = 0, node_kind = Free, parent = 0,
     data_off = 0, data_len = 0, data_cap = 0\<rparr>"

definition node_label :: "node \<Rightarrow> bytes" where
  "node_label n = take (name_len n) (name_arr n)"

record fs_state =
  NODES :: "nat \<Rightarrow> node"
  DATA :: "nat \<Rightarrow> u8"
  DATA_NEXT :: nat
  CWD :: nat
  READY :: bool

text \<open>The result of a function that may panic.\<close>

type_synonym 'a res = "'a option"

section \<open>Names\<close>

definition name_buf :: "bytes \<Rightarrow> bytes" where
  "name_buf s = (let n = min (length s) NAME_MAX in take n s @ replicate (NAME_MAX - n) 0)"

definition names_eq :: "bytes \<Rightarrow> bytes \<Rightarrow> bool" where
  "names_eq x y =
     (if length x \<noteq> length y then False else list_all (\<lambda>i. x ! i = y ! i) [0..<length x])"

section \<open>Nodes\<close>

definition alloc_node :: "fs_state \<Rightarrow> nat option" where
  "alloc_node fs = find_first (\<lambda>i. node_kind (NODES fs i) = Free) [1..<MAX_NODES]"

definition is_child :: "fs_state \<Rightarrow> nat \<Rightarrow> nat \<Rightarrow> bool" where
  "is_child fs dir i \<longleftrightarrow>
     node_kind (NODES fs i) \<noteq> Free \<and> parent (NODES fs i) = dir \<and> i \<noteq> dir"

definition find_child :: "fs_state \<Rightarrow> nat \<Rightarrow> bytes \<Rightarrow> nat option" where
  "find_child fs dir nm =
     find_first (\<lambda>i. is_child fs dir i \<and> names_eq (node_label (NODES fs i)) nm) [0..<MAX_NODES]"

definition new_node :: "kind \<Rightarrow> nat \<Rightarrow> bytes \<Rightarrow> node" where
  "new_node k dir nm =
     \<lparr>name_arr = name_buf nm, name_len = length nm mod 256, node_kind = k, parent = dir,
      data_off = 0, data_len = 0, data_cap = 0\<rparr>"

definition mkdir :: "nat \<Rightarrow> bytes \<Rightarrow> fs_state \<Rightarrow> (nat option \<times> fs_state) res" where
  "mkdir dir nm fs =
     (if nm = [] \<or> length nm > NAME_MAX then Some (None, fs)
      else if dir \<ge> MAX_NODES then None
      else if node_kind (NODES fs dir) \<noteq> Dir then Some (None, fs)
      else if find_child fs dir nm \<noteq> None then Some (None, fs)
      else case alloc_node fs of
             None \<Rightarrow> Some (None, fs)
           | Some idx \<Rightarrow> Some (Some idx, fs\<lparr>NODES := (NODES fs)(idx := new_node Dir dir nm)\<rparr>))"

definition create_file :: "nat \<Rightarrow> bytes \<Rightarrow> fs_state \<Rightarrow> (nat option \<times> fs_state) res" where
  "create_file dir nm fs =
     (if nm = [] \<or> length nm > NAME_MAX then Some (None, fs)
      else if dir \<ge> MAX_NODES then None
      else if node_kind (NODES fs dir) \<noteq> Dir then Some (None, fs)
      else case find_child fs dir nm of
             Some existing \<Rightarrow>
               Some (if node_kind (NODES fs existing) = File then Some existing else None, fs)
           | None \<Rightarrow>
               (case alloc_node fs of
                  None \<Rightarrow> Some (None, fs)
                | Some idx \<Rightarrow> Some (Some idx, fs\<lparr>NODES := (NODES fs)(idx := new_node File dir nm)\<rparr>)))"

section \<open>File contents\<close>

text \<open>\<open>for i in 0..data.len() { DATA[off + i] = data[i]; }\<close>\<close>

definition store :: "(nat \<Rightarrow> u8) \<Rightarrow> nat \<Rightarrow> bytes \<Rightarrow> (nat \<Rightarrow> u8)" where
  "store d off bs = (\<lambda>x. if off \<le> x \<and> x < off + length bs then bs ! (x - off) else d x)"

definition store_checked :: "(nat \<Rightarrow> u8) \<Rightarrow> nat \<Rightarrow> bytes \<Rightarrow> (nat \<Rightarrow> u8) res" where
  "store_checked d off bs =
     (if bs = [] \<or> off + length bs \<le> DATA_POOL then Some (store d off bs) else None)"

definition fs_write :: "nat \<Rightarrow> bytes \<Rightarrow> fs_state \<Rightarrow> (bool \<times> fs_state) res" where
  "fs_write node data fs =
     (if node \<ge> MAX_NODES then None
      else let n = NODES fs node; len = length data mod 2 ^ 32
      in if node_kind n \<noteq> File then Some (False, fs)
      else if len \<le> data_cap n then
        do {
          d \<leftarrow> store_checked (DATA fs) (data_off n) data;
          Some (True, fs\<lparr>DATA := d, NODES := (NODES fs)(node := n\<lparr>data_len := len\<rparr>)\<rparr>)
        }
      else
        let off = DATA_NEXT fs
        in if off + length data > DATA_POOL then Some (False, fs)
        else do {
          d \<leftarrow> store_checked (DATA fs) off data;
          Some (True, fs\<lparr>DATA := d, DATA_NEXT := (off + len) mod 2 ^ 32,
                  NODES := (NODES fs)(node := n\<lparr>data_off := off, data_len := len, data_cap := len\<rparr>)\<rparr>)
        })"

definition fs_read :: "nat \<Rightarrow> fs_state \<Rightarrow> bytes res" where
  "fs_read node fs =
     (if node \<ge> MAX_NODES then None
      else let n = NODES fs node
      in if node_kind n \<noteq> File \<or> data_len n = 0 then Some []
      else if data_off n \<ge> DATA_POOL then None
      else Some (map (\<lambda>i. DATA fs (data_off n + i)) [0..<data_len n]))"

text \<open>\<open>for i in 0..n { DATA[dst + i] = DATA[src + i]; }\<close>: one byte at a time.\<close>

definition copy_within :: "(nat \<Rightarrow> u8) \<Rightarrow> nat \<Rightarrow> nat \<Rightarrow> nat \<Rightarrow> (nat \<Rightarrow> u8) res" where
  "copy_within d dst src n =
     (if n = 0 \<or> dst + n \<le> DATA_POOL \<and> src + n \<le> DATA_POOL
      then Some (fold (\<lambda>i d. d(dst + i := d (src + i))) [0..<n] d) else None)"

definition fs_append :: "nat \<Rightarrow> bytes \<Rightarrow> fs_state \<Rightarrow> (bool \<times> fs_state) res" where
  "fs_append node data fs =
     do {
       cur \<leftarrow> fs_read node fs;
       let cur_len = length cur; total = cur_len + length data; off = DATA_NEXT fs;
           n = NODES fs node
       in if off + total > DATA_POOL then Some (False, fs)
       else if node_kind n \<noteq> File then Some (False, fs)
       else do {
         d1 \<leftarrow> copy_within (DATA fs) off (data_off n) cur_len;
         d2 \<leftarrow> store_checked d1 (off + cur_len) data;
         Some (True, fs\<lparr>DATA := d2, DATA_NEXT := (off + total) mod 2 ^ 32,
                 NODES := (NODES fs)(node := n\<lparr>data_off := off, data_len := total mod 2 ^ 32,
                                               data_cap := total mod 2 ^ 32\<rparr>)\<rparr>)
       }
     }"

definition unlink :: "nat \<Rightarrow> fs_state \<Rightarrow> (bool \<times> fs_state) res" where
  "unlink node fs =
     (if node = ROOT then Some (False, fs)
      else if node \<ge> MAX_NODES then None
      else let k = node_kind (NODES fs node)
      in if k = Free then Some (False, fs)
      else if k = Dir \<and> list_ex (is_child fs node) [0..<MAX_NODES] then Some (False, fs)
      else Some (True, fs\<lparr>NODES := (NODES fs)(node := node_empty)\<rparr>))"

definition fs_kind :: "nat \<Rightarrow> fs_state \<Rightarrow> kind res" where
  "fs_kind node fs = (if node \<ge> MAX_NODES then None else Some (node_kind (NODES fs node)))"

definition node_name :: "nat \<Rightarrow> fs_state \<Rightarrow> bytes res" where
  "node_name node fs = (if node \<ge> MAX_NODES then None else Some (node_label (NODES fs node)))"

definition size_of :: "nat \<Rightarrow> fs_state \<Rightarrow> nat res" where
  "size_of node fs = (if node \<ge> MAX_NODES then None else Some (data_len (NODES fs node)))"

definition data_pool_stats :: "fs_state \<Rightarrow> nat \<times> nat" where
  "data_pool_stats fs = (DATA_POOL, DATA_NEXT fs)"

definition is_ready :: "fs_state \<Rightarrow> bool" where
  "is_ready fs = READY fs"

section \<open>Working directory and paths\<close>

definition cwd :: "fs_state \<Rightarrow> nat" where
  "cwd fs = CWD fs"

definition set_cwd :: "nat \<Rightarrow> fs_state \<Rightarrow> fs_state res" where
  "set_cwd node fs =
     (if node \<ge> MAX_NODES then None
      else Some (if node_kind (NODES fs node) = Dir then fs\<lparr>CWD := node\<rparr> else fs))"

lemma resolve_loop_decrease:
  assumes "takeWhile (\<lambda>c. c \<noteq> slash) (dropWhile (\<lambda>c. c = slash) path) \<noteq> []"
  shows "length (dropWhile (\<lambda>c. c \<noteq> slash) (dropWhile (\<lambda>c. c = slash) path)) < length path"
proof -
  let ?r = "dropWhile (\<lambda>c. c = slash) path"
  have "length (takeWhile (\<lambda>c. c \<noteq> slash) ?r) + length (dropWhile (\<lambda>c. c \<noteq> slash) ?r) = length ?r"
    by (metis length_append takeWhile_dropWhile_id)
  moreover have "length ?r \<le> length path" by (rule length_dropWhile_le)
  ultimately show ?thesis using assms by (cases "takeWhile (\<lambda>c. c \<noteq> slash) ?r") auto
qed

text \<open>The component loop of \<open>resolve_from\<close>, on the part of the path that is left.\<close>

function resolve_loop :: "fs_state \<Rightarrow> nat \<Rightarrow> bytes \<Rightarrow> nat option res" where
  "resolve_loop fs cur path =
     (let rest = dropWhile (\<lambda>c. c = slash) path;
          comp = takeWhile (\<lambda>c. c \<noteq> slash) rest;
          rest' = dropWhile (\<lambda>c. c \<noteq> slash) rest
      in if comp = [] then Some (Some cur)
      else if names_eq comp (bytes_of ''.'') then resolve_loop fs cur rest'
      else if names_eq comp (bytes_of ''..'') then
        (if cur \<ge> MAX_NODES then None else resolve_loop fs (parent (NODES fs cur)) rest')
      else case find_child fs cur comp of
             None \<Rightarrow> Some None
           | Some c \<Rightarrow> resolve_loop fs c rest')"
  by pat_completeness auto

termination
  by (relation "measure (\<lambda>(fs, cur, path). length path)")
    (auto simp: resolve_loop_decrease Let_def)

declare resolve_loop.simps [simp del]

definition resolve_from :: "nat \<Rightarrow> bytes \<Rightarrow> fs_state \<Rightarrow> nat option res" where
  "resolve_from start path fs =
     resolve_loop fs (if path \<noteq> [] \<and> hd path = slash then ROOT else start) path"

definition resolve :: "bytes \<Rightarrow> fs_state \<Rightarrow> nat option res" where
  "resolve path fs = resolve_from (CWD fs) path fs"

definition last_slash :: "bytes \<Rightarrow> int" where
  "last_slash path =
     fold (\<lambda>(idx, c) acc. if c = slash then int idx else acc) (enumerate 0 path) (-1)"

definition resolve_parent :: "bytes \<Rightarrow> fs_state \<Rightarrow> (nat \<times> bytes) option res" where
  "resolve_parent path fs =
     (let ls = last_slash path
      in if ls < 0 then Some (Some (CWD fs, path))
      else let leaf = drop (nat ls + 1) path
      in if leaf = [] then Some None
      else do {
        p \<leftarrow> (if ls = 0 then Some (Some ROOT) else resolve (take (nat ls) path) fs);
        case p of
          None \<Rightarrow> Some None
        | Some pr \<Rightarrow>
            if pr \<ge> MAX_NODES then None
            else Some (if node_kind (NODES fs pr) \<noteq> Dir then None else Some (pr, leaf))
      })"

text \<open>
  \<open>path_of\<close>: the chain of at most 32 ancestors, then the names written from the root downwards
  into a buffer of \<open>cap\<close> bytes; the result is the written prefix.
\<close>

fun ancestors :: "fs_state \<Rightarrow> nat \<Rightarrow> nat \<Rightarrow> nat list res" where
  "ancestors fs 0 cur = Some []"
| "ancestors fs (Suc k) cur =
     (if cur = ROOT then Some []
      else if cur \<ge> MAX_NODES then None
      else map_option (\<lambda>xs. cur # xs) (ancestors fs k (parent (NODES fs cur))))"

definition path_of :: "nat \<Rightarrow> nat \<Rightarrow> fs_state \<Rightarrow> bytes res" where
  "path_of node cap fs =
     (if node = ROOT then Some (if cap > 0 then [slash] else [])
      else do {
        ch \<leftarrow> ancestors fs 32 node;
        Some (fold (\<lambda>i out.
          let out = (if length out < cap then out @ [slash] else out)
          in fold (\<lambda>c out. if length out < cap then out @ [c] else out) (node_label (NODES fs i)) out)
          (rev ch) [])
      })"

text \<open>\<open>for_each_child(dir, f)\<close>: the table is re-read before every call, since \<open>f\<close> may change it.\<close>

definition for_each_child :: "nat \<Rightarrow> (nat \<Rightarrow> 'a \<times> fs_state \<Rightarrow> ('a \<times> fs_state) res) \<Rightarrow> 'a \<times> fs_state \<Rightarrow> ('a \<times> fs_state) res" where
  "for_each_child dir f st =
     (if dir \<ge> MAX_NODES then None
      else if node_kind (NODES (snd st) dir) \<noteq> Dir then Some st
      else fold (\<lambda>i acc. do {
             s \<leftarrow> acc;
             if is_child (snd s) dir i then f i s else Some s
           }) [0..<MAX_NODES] (Some st))"


section \<open>Initial tree\<close>

definition to_ascii_lowercase :: "u8 \<Rightarrow> u8" where
  "to_ascii_lowercase c = (if 0x41 \<le> c \<and> c \<le> 0x5A then c + 32 else c)"

definition to_ascii_uppercase :: "u8 \<Rightarrow> u8" where
  "to_ascii_uppercase c = (if 0x61 \<le> c \<and> c \<le> 0x7A then c - 32 else c)"

definition eq_ignore_ascii_case :: "bytes \<Rightarrow> bytes \<Rightarrow> bool" where
  "eq_ignore_ascii_case x y \<longleftrightarrow> map to_ascii_lowercase x = map to_ascii_lowercase y"

text \<open>The byte loops of the shortcut writer: each stops once 120 bytes have been written.\<close>

fun push_limited :: "bytes \<Rightarrow> bytes \<Rightarrow> bytes" where
  "push_limited content [] = content"
| "push_limited content (c # cs) =
     (let content' = content @ [c] in if length content' \<ge> 120 then content' else push_limited content' cs)"

definition shortcut_content :: "bytes \<Rightarrow> bytes \<Rightarrow> bytes" where
  "shortcut_content nm base =
     (let glyph = (if length base > 0 then to_ascii_uppercase (base ! 0) else 0x41);
          c = push_limited [] (bytes_of ''Name='');
          c = push_limited c nm @ [newline_byte];
          c = push_limited c (bytes_of ''Exec=/apps/'');
          c = push_limited c nm @ [newline_byte];
          c = push_limited c (bytes_of ''Icon=4488CC'' @ [newline_byte]);
          c = push_limited c (bytes_of ''Glyph='' @ [glyph, newline_byte])
      in c @ [newline_byte])"

definition desktop_name :: "bytes \<Rightarrow> bytes" where
  "desktop_name base =
     (let buf = take 20 base @ bytes_of ''.desktop''
      in takeWhile (\<lambda>c. c \<noteq> 0) (take 28 (buf @ replicate (28 - length buf) 0)))"

definition make_shortcut :: "nat \<Rightarrow> nat \<Rightarrow> nat \<times> fs_state \<Rightarrow> (nat \<times> fs_state) res" where
  "make_shortcut desktop_dir idx st =
     (let (count, fs) = st; nm = node_label (NODES fs idx); n = length nm
      in if count \<ge> 8 then Some st
      else if node_kind (NODES fs idx) \<noteq> File then Some st
      else if n < 5 then Some st
      else if \<not> eq_ignore_ascii_case (drop (n - 4) nm) (bytes_of ''.pos'') \<and>
              \<not> eq_ignore_ascii_case (drop (n - 4) nm) (bytes_of ''.elf'') then Some st
      else let base = take (n - 4) nm
      in if base = [] then Some st
      else do {
        (r, fs) \<leftarrow> create_file desktop_dir (desktop_name base) fs;
        case r of
          None \<Rightarrow> Some (count, fs)
        | Some shortcut \<Rightarrow> do {
            (_, fs) \<leftarrow> fs_write shortcut (shortcut_content nm base) fs;
            Some (count + 1, fs)
          }
      })"

definition scan_apps_for_shortcuts :: "nat \<Rightarrow> fs_state \<Rightarrow> (nat \<times> fs_state) res" where
  "scan_apps_for_shortcuts desktop_dir fs =
     (let apps_dir = (case find_child fs ROOT (bytes_of ''apps'') of Some d \<Rightarrow> d | None \<Rightarrow> ROOT)
      in for_each_child apps_dir (make_shortcut desktop_dir) (0, fs))"

text \<open>\<open>if let Some(n) = create_file(dir, name) { let _ = write(n, data); }\<close>\<close>

definition create_with :: "nat \<Rightarrow> bytes \<Rightarrow> bytes \<Rightarrow> fs_state \<Rightarrow> fs_state res" where
  "create_with dir nm data fs =
     do {
       (r, fs) \<leftarrow> create_file dir nm fs;
       case r of None \<Rightarrow> Some fs | Some n \<Rightarrow> map_option snd (fs_write n data fs)
     }"

definition mkdir_ignore :: "nat \<Rightarrow> bytes \<Rightarrow> fs_state \<Rightarrow> fs_state res" where
  "mkdir_ignore dir nm fs = map_option snd (mkdir dir nm fs)"

definition lines_of :: "string list \<Rightarrow> bytes" where
  "lines_of ls = concat (map (\<lambda>l. bytes_of l @ [newline_byte]) ls)"

definition motd_text :: bytes where
  "motd_text = lines_of
     [''Welcome to PureOS Crystal Kernel v0.4'',
      ''===================================='',
      ''Preemptive round-robin via APIC timer'',
      ''ATA PIO disk + block filesystem'',
      ''Per-process FD tables, private PML4'',
      ''Frame reclamation on exit'',
      ''Barrel scripting + native compiler'',
      ''Graphics primitives (40 syscalls)'',
      ''Type '' @ [CHR 0x27] @ ''help'' @ [CHR 0x27] @ '' for commands.'']"

definition release_text :: bytes where
  "release_text = lines_of
     [''PureOS release 0.4 (crystal)'', ''Kernel: pureos_kernel 0.4.0'', ''Arch: x86_64 AMD64'',
      ''Firmware: UEFI'', ''Built: 2026-07'']"

definition root_node :: node where
  "root_node = \<lparr>name_arr = name_buf (bytes_of ''/''), name_len = 1, node_kind = Dir, parent = ROOT,
     data_off = 0, data_len = 0, data_cap = 0\<rparr>"

text \<open>The part of \<open>init\<close> before the base tree is created: an empty table with the root in slot 0.\<close>

definition fs_blank :: "fs_state \<Rightarrow> fs_state" where
  "fs_blank fs = fs\<lparr>NODES := (\<lambda>_. node_empty)(0 := root_node), DATA_NEXT := 0, CWD := ROOT, READY := True\<rparr>"

definition fs_init :: "fs_state \<Rightarrow> fs_state res" where
  "fs_init fs =
     (if READY fs then Some fs
      else do {
        let fs = fs_blank fs;
        fs \<leftarrow> mkdir_ignore ROOT (bytes_of ''bin'') fs;
        fs \<leftarrow> mkdir_ignore ROOT (bytes_of ''dev'') fs;
        fs \<leftarrow> mkdir_ignore ROOT (bytes_of ''etc'') fs;
        fs \<leftarrow> mkdir_ignore ROOT (bytes_of ''home'') fs;
        fs \<leftarrow> mkdir_ignore ROOT (bytes_of ''tmp'') fs;
        fs \<leftarrow> (case find_child fs ROOT (bytes_of ''etc'') of
                 None \<Rightarrow> Some fs
               | Some etc \<Rightarrow> do {
                   fs \<leftarrow> create_with etc (bytes_of ''motd'') motd_text fs;
                   fs \<leftarrow> create_with etc (bytes_of ''release'') release_text fs;
                   create_with etc (bytes_of ''pureos-version'') (lines_of [''0.4.0'']) fs
                 });
        fs \<leftarrow> (case find_child fs ROOT (bytes_of ''home'') of
                 None \<Rightarrow> Some fs
               | Some home \<Rightarrow> mkdir_ignore home (bytes_of ''user'') fs);
        fs \<leftarrow> mkdir_ignore ROOT (bytes_of ''desktop'') fs;
        (case find_child fs ROOT (bytes_of ''desktop'') of
           None \<Rightarrow> Some fs
         | Some desktop \<Rightarrow> map_option snd (scan_apps_for_shortcuts desktop fs))
      })"


section \<open>Well-formed file systems\<close>

abbreviation live :: "fs_state \<Rightarrow> nat \<Rightarrow> bool" where
  "live fs i \<equiv> node_kind (NODES fs i) \<noteq> Free"

text \<open>
  The table is a tree: the root is its own parent, the parent of a live node is a directory, no two
  siblings share a name, and the parent links are well-founded (they decrease some rank).
\<close>

definition node_wf :: "fs_state \<Rightarrow> nat \<Rightarrow> bool" where
  "node_wf fs i \<longleftrightarrow>
     parent (NODES fs i) < MAX_NODES \<and> node_kind (NODES fs (parent (NODES fs i))) = Dir \<and>
     0 < name_len (NODES fs i) \<and> name_len (NODES fs i) \<le> NAME_MAX \<and>
     length (name_arr (NODES fs i)) = NAME_MAX"

definition siblings_distinct :: "fs_state \<Rightarrow> bool" where
  "siblings_distinct fs \<longleftrightarrow>
     (\<forall>d < MAX_NODES. inj_on (\<lambda>i. node_label (NODES fs i)) {i. i < MAX_NODES \<and> is_child fs d i})"

definition ranked :: "fs_state \<Rightarrow> (nat \<Rightarrow> nat) \<Rightarrow> bool" where
  "ranked fs rk \<longleftrightarrow>
     (\<forall>i < MAX_NODES. live fs i \<longrightarrow> i \<noteq> ROOT \<longrightarrow> rk (parent (NODES fs i)) < rk i)"

definition tree_inv :: "fs_state \<Rightarrow> bool" where
  "tree_inv fs \<longleftrightarrow>
     node_kind (NODES fs ROOT) = Dir \<and> parent (NODES fs ROOT) = ROOT \<and>
     (\<forall>i < MAX_NODES. live fs i \<longrightarrow> node_wf fs i) \<and> siblings_distinct fs \<and> (\<exists>rk. ranked fs rk)"

text \<open>
  Contents: the regions \<open>[data_off, data_off + data_cap)\<close> of different nodes are disjoint and lie
  below the bump pointer, and each file's length fits its region.
\<close>

definition region :: "node \<Rightarrow> nat set" where
  "region n = {data_off n ..< data_off n + data_cap n}"

definition pool_inv :: "fs_state \<Rightarrow> bool" where
  "pool_inv fs \<longleftrightarrow>
     DATA_NEXT fs \<le> DATA_POOL \<and>
     (\<forall>i < MAX_NODES. data_len (NODES fs i) \<le> data_cap (NODES fs i) \<and>
        data_off (NODES fs i) + data_cap (NODES fs i) \<le> DATA_NEXT fs) \<and>
     (\<forall>i < MAX_NODES. \<forall>j < MAX_NODES. i \<noteq> j \<longrightarrow> region (NODES fs i) \<inter> region (NODES fs j) = {})"

definition fs_inv :: "fs_state \<Rightarrow> bool" where
  "fs_inv fs \<longleftrightarrow> tree_inv fs \<and> pool_inv fs \<and> CWD fs < MAX_NODES"

text \<open>What a client sees: which nodes are files and what they contain.\<close>

definition contents :: "fs_state \<Rightarrow> nat \<Rightarrow> bytes option" where
  "contents fs i =
     (if i < MAX_NODES \<and> node_kind (NODES fs i) = File
      then Some (map (\<lambda>k. DATA fs (data_off (NODES fs i) + k)) [0..<data_len (NODES fs i)])
      else None)"

section \<open>Searching\<close>

lemma names_eq_iff [simp]: "names_eq x y \<longleftrightarrow> x = y"
  by (auto simp: names_eq_def list_all_iff intro: nth_equalityI)

lemma alloc_node_Some: "alloc_node fs = Some i \<Longrightarrow> 0 < i \<and> i < MAX_NODES \<and> node_kind (NODES fs i) = Free"
  by (auto simp: alloc_node_def dest!: find_first_Some)

lemma alloc_node_None: "alloc_node fs = None \<longleftrightarrow> (\<forall>i \<in> {1..<MAX_NODES}. live fs i)"
  by (simp add: alloc_node_def)

lemma find_child_Some:
  "find_child fs d nm = Some i \<Longrightarrow> i < MAX_NODES \<and> is_child fs d i \<and> node_label (NODES fs i) = nm"
  by (auto simp: find_child_def dest!: find_first_Some)

lemma find_child_None:
  "find_child fs d nm = None \<longleftrightarrow> (\<forall>i < MAX_NODES. is_child fs d i \<longrightarrow> node_label (NODES fs i) \<noteq> nm)"
  by (auto simp: find_child_def)

lemma find_child_eqI:
  assumes "siblings_distinct fs" "d < MAX_NODES" "i < MAX_NODES" "is_child fs d i"
  shows "find_child fs d (node_label (NODES fs i)) = Some i"
proof (cases "find_child fs d (node_label (NODES fs i))")
  case None
  then show ?thesis using assms by (auto simp only: find_child_None)
next
  case (Some j)
  then show ?thesis
    using find_child_Some [OF Some] assms by (auto simp: siblings_distinct_def inj_on_def)
qed

lemma name_buf_label: "length nm \<le> NAME_MAX \<Longrightarrow> node_label (new_node k d nm) = nm"
  by (simp add: node_label_def new_node_def name_buf_def min_def)

lemma new_node_simps [simp]:
  "node_kind (new_node k d nm) = k" "parent (new_node k d nm) = d" "data_len (new_node k d nm) = 0"
  "data_off (new_node k d nm) = 0" "data_cap (new_node k d nm) = 0" "region (new_node k d nm) = {}"
  "length (name_arr (new_node k d nm)) = NAME_MAX"
  by (auto simp: new_node_def region_def name_buf_def Let_def)

lemma node_empty_simps [simp]:
  "node_kind node_empty = Free" "data_len node_empty = 0" "data_off node_empty = 0"
  "data_cap node_empty = 0" "region node_empty = {}"
  by (auto simp: node_empty_def region_def)

section \<open>Preservation of the invariant\<close>

lemma free_no_child:
  "tree_inv fs \<Longrightarrow> i < MAX_NODES \<Longrightarrow> j < MAX_NODES \<Longrightarrow> node_kind (NODES fs j) \<noteq> Dir \<Longrightarrow> \<not> is_child fs j i"
  by (auto simp: tree_inv_def node_wf_def is_child_def)

text \<open>Adding a node with a fresh name under a directory.\<close>

definition add_node :: "nat \<Rightarrow> node \<Rightarrow> fs_state \<Rightarrow> fs_state" where
  "add_node i n fs = fs\<lparr>NODES := (NODES fs)(i := n)\<rparr>"

lemma add_node_tree_inv:
  assumes inv: "tree_inv fs" and i: "0 < i" "i < MAX_NODES" "node_kind (NODES fs i) = Free"
    and d: "d < MAX_NODES" "node_kind (NODES fs d) = Dir"
    and nm: "nm \<noteq> []" "length nm \<le> NAME_MAX" "find_child fs d nm = None" and k: "k \<noteq> Free"
  shows "tree_inv (add_node i (new_node k d nm) fs)"
proof -
  let ?fs = "add_node i (new_node k d nm) fs"
  have N: "NODES ?fs j = (if j = i then new_node k d nm else NODES fs j)" for j
    by (simp add: add_node_def)
  have di: "d \<noteq> i" using d i by auto
  have par: "parent (NODES fs j) \<noteq> i" if "j < MAX_NODES" "live fs j" for j
    using inv that i by (auto simp: tree_inv_def node_wf_def)
  have len: "name_len (new_node k d nm) = length nm" using nm by (simp add: new_node_def)
  have wf: "node_wf ?fs j" if "j < MAX_NODES" "live ?fs j" for j
  proof (cases "j = i")
    case True
    then show ?thesis using d di nm len by (simp add: node_wf_def N)
  next
    case False
    then have "node_wf fs j" "parent (NODES fs j) \<noteq> i"
      using inv that par by (auto simp: tree_inv_def N)
    then show ?thesis using False by (simp add: node_wf_def N)
  qed
  have child: "is_child ?fs e j \<longleftrightarrow> (if j = i then e = d else is_child fs e j)" for e j
    using di k by (auto simp: is_child_def N)
  have "inj_on (\<lambda>j. node_label (NODES ?fs j)) {j. j < MAX_NODES \<and> is_child ?fs e j}"
    if e: "e < MAX_NODES" for e
  proof (rule inj_onI)
    have inj: "inj_on (\<lambda>j. node_label (NODES fs j)) {j. j < MAX_NODES \<and> is_child fs e j}"
      using inv e by (simp add: tree_inv_def siblings_distinct_def)
    have fresh: "node_label (NODES fs j) \<noteq> nm" if "j < MAX_NODES" "is_child fs d j" for j
      using nm(3) that by (simp add: find_child_None)
    fix x y
    assume "x \<in> {j. j < MAX_NODES \<and> is_child ?fs e j}" "y \<in> {j. j < MAX_NODES \<and> is_child ?fs e j}"
      and eq: "node_label (NODES ?fs x) = node_label (NODES ?fs y)"
    then have xy: "x < MAX_NODES" "y < MAX_NODES" "if x = i then e = d else is_child fs e x"
      "if y = i then e = d else is_child fs e y"
      unfolding child by simp_all
    consider "x = i" "y = i" | "x = i" "y \<noteq> i" | "x \<noteq> i" "y = i" | "x \<noteq> i" "y \<noteq> i" by blast
    then show "x = y"
    proof cases
      case 2
      then show ?thesis using xy fresh [of y] eq nm(2) by (simp add: N name_buf_label)
    next
      case 3
      then show ?thesis using xy fresh [of x] eq nm(2) by (simp add: N name_buf_label)
    next
      case 4
      then have "node_label (NODES fs x) = node_label (NODES fs y)" using eq by (simp add: N)
      moreover have "x \<in> {j. j < MAX_NODES \<and> is_child fs e j}" "y \<in> {j. j < MAX_NODES \<and> is_child fs e j}"
        using 4 xy by simp_all
      ultimately show ?thesis using inj by (simp add: inj_on_def)
    qed simp
  qed
  then have sib: "siblings_distinct ?fs" by (simp add: siblings_distinct_def)
  obtain rk where "ranked fs rk" using inv by (auto simp: tree_inv_def)
  then have "ranked ?fs (rk(i := Suc (rk d)))"
    unfolding ranked_def N fun_upd_def using di par by simp
  moreover have "node_kind (NODES ?fs ROOT) = Dir" "parent (NODES ?fs ROOT) = ROOT"
    using inv i by (auto simp: tree_inv_def N)
  ultimately show ?thesis
    unfolding tree_inv_def using wf sib by blast
qed

lemma add_node_pool_inv:
  assumes "pool_inv fs" "region n = {}" "data_len n \<le> data_cap n" "data_off n + data_cap n \<le> DATA_NEXT fs"
  shows "pool_inv (add_node i n fs)"
  using assms by (auto simp: pool_inv_def add_node_def)

lemma add_node_other [simp]:
  "CWD (add_node i n fs) = CWD fs" "DATA (add_node i n fs) = DATA fs"
  "DATA_NEXT (add_node i n fs) = DATA_NEXT fs" "READY (add_node i n fs) = READY fs"
  "NODES (add_node i n fs) = (NODES fs)(i := n)"
  by (auto simp: add_node_def)

lemma add_node_fs_inv:
  assumes "fs_inv fs" "alloc_node fs = Some i" "d < MAX_NODES" "node_kind (NODES fs d) = Dir"
    "nm \<noteq> []" "length nm \<le> NAME_MAX" "find_child fs d nm = None" "k \<noteq> Free"
  shows "fs_inv (add_node i (new_node k d nm) fs)"
  using assms alloc_node_Some [OF assms(2)]
  by (auto simp: fs_inv_def intro!: add_node_tree_inv add_node_pool_inv)

text \<open>The two creating operations, by cases.\<close>

lemma mkdir_cases:
  assumes "mkdir d nm fs = Some (r, fs')"
  obtains "r = None" "fs' = fs"
  | i where "r = Some i" "fs' = add_node i (new_node Dir d nm) fs" "alloc_node fs = Some i"
      "d < MAX_NODES" "node_kind (NODES fs d) = Dir" "nm \<noteq> []" "length nm \<le> NAME_MAX"
      "find_child fs d nm = None"
  using assms
  by (cases "alloc_node fs")
    (simp_all add: mkdir_def add_node_def not_le not_less split: if_splits, metis+)

lemma create_file_cases:
  assumes "create_file d nm fs = Some (r, fs')"
  obtains "r = None" "fs' = fs"
  | i where "r = Some i" "fs' = fs" "find_child fs d nm = Some i" "node_kind (NODES fs i) = File"
  | i where "r = Some i" "fs' = add_node i (new_node File d nm) fs" "alloc_node fs = Some i"
      "d < MAX_NODES" "node_kind (NODES fs d) = Dir" "nm \<noteq> []" "length nm \<le> NAME_MAX"
      "find_child fs d nm = None"
  using assms
  by (cases "alloc_node fs"; cases "find_child fs d nm")
    (simp_all add: create_file_def add_node_def not_le not_less split: if_splits, metis+)

lemma mkdir_inv: "fs_inv fs \<Longrightarrow> mkdir d nm fs = Some (r, fs') \<Longrightarrow> fs_inv fs'"
  by (erule mkdir_cases) (auto intro: add_node_fs_inv)

lemma create_file_inv: "fs_inv fs \<Longrightarrow> create_file d nm fs = Some (r, fs') \<Longrightarrow> fs_inv fs'"
  by (erule create_file_cases) (auto intro: add_node_fs_inv)

text \<open>The tree does not depend on where and how long the contents are.\<close>

definition same_tree :: "fs_state \<Rightarrow> fs_state \<Rightarrow> bool" where
  "same_tree fs fs' \<longleftrightarrow>
     (\<forall>i. node_kind (NODES fs' i) = node_kind (NODES fs i) \<and> parent (NODES fs' i) = parent (NODES fs i) \<and>
          name_len (NODES fs' i) = name_len (NODES fs i) \<and> name_arr (NODES fs' i) = name_arr (NODES fs i))"

lemma same_tree_refl [simp]: "same_tree fs fs"
  by (simp add: same_tree_def)

lemma same_tree_tree_inv: "same_tree fs fs' \<Longrightarrow> tree_inv fs \<Longrightarrow> tree_inv fs'"
  by (simp add: same_tree_def tree_inv_def node_wf_def siblings_distinct_def is_child_def
      node_label_def ranked_def)

definition move_contents :: "nat \<Rightarrow> nat \<Rightarrow> nat \<Rightarrow> nat \<Rightarrow> nat \<Rightarrow> (nat \<Rightarrow> u8) \<Rightarrow> fs_state \<Rightarrow> fs_state" where
  "move_contents i off len cap next d fs =
     fs\<lparr>DATA := d, DATA_NEXT := next,
        NODES := (NODES fs)(i := (NODES fs i)\<lparr>data_off := off, data_len := len, data_cap := cap\<rparr>)\<rparr>"

lemma move_contents_same_tree [simp]: "same_tree fs (move_contents i off len cap next d fs)"
  by (simp add: same_tree_def move_contents_def)

lemma move_contents_tree_inv: "tree_inv fs \<Longrightarrow> tree_inv (move_contents i off len cap next d fs)"
  by (erule same_tree_tree_inv [rotated]) simp

lemma region_moved [simp]:
  "region (n\<lparr>data_off := off, data_len := len, data_cap := cap\<rparr>) = {off ..< off + cap}"
  by (simp add: region_def)

lemma move_contents_simps [simp]:
  "CWD (move_contents i off len cap next d fs) = CWD fs"
  "DATA (move_contents i off len cap next d fs) = d"
  "DATA_NEXT (move_contents i off len cap next d fs) = next"
  "READY (move_contents i off len cap next d fs) = READY fs"
  "NODES (move_contents i off len cap next d fs) j =
     (if j = i then (NODES fs i)\<lparr>data_off := off, data_len := len, data_cap := cap\<rparr> else NODES fs j)"
  by (auto simp: move_contents_def)

lemma region_below:
  "pool_inv fs \<Longrightarrow> j < MAX_NODES \<Longrightarrow> region (NODES fs j) \<subseteq> {..<DATA_NEXT fs}"
  by (auto simp: pool_inv_def region_def dest!: spec [of _ j])

text \<open>Rewriting in place, and moving to a fresh region above the bump pointer.\<close>

lemma move_contents_in_place_inv:
  assumes "fs_inv fs" "i < MAX_NODES" "len \<le> data_cap (NODES fs i)"
  shows "fs_inv (move_contents i (data_off (NODES fs i)) len (data_cap (NODES fs i)) (DATA_NEXT fs) d fs)"
    (is "fs_inv ?fs")
proof -
  have "region (NODES ?fs j) = region (NODES fs j)" for j by (simp add: region_def)
  then have "pool_inv ?fs" using assms by (simp add: fs_inv_def pool_inv_def)
  then show ?thesis using assms by (auto simp: fs_inv_def intro: move_contents_tree_inv)
qed

lemma move_contents_fresh_inv:
  assumes "fs_inv fs" "i < MAX_NODES" "DATA_NEXT fs + len \<le> DATA_POOL"
  shows "fs_inv (move_contents i (DATA_NEXT fs) len len (DATA_NEXT fs + len) d fs)"
    (is "fs_inv ?fs")
proof -
  have pool: "pool_inv fs" using assms by (simp add: fs_inv_def)
  have "region (NODES ?fs j) \<inter> region (NODES ?fs k) = {}"
    if "j < MAX_NODES" "k < MAX_NODES" "j \<noteq> k" for j k
    using region_below [OF pool that(1)] region_below [OF pool that(2)] pool that
    by (cases "j = i"; cases "k = i") (auto simp: pool_inv_def)
  moreover have "data_len (NODES ?fs j) \<le> data_cap (NODES ?fs j) \<and>
      data_off (NODES ?fs j) + data_cap (NODES ?fs j) \<le> DATA_NEXT ?fs" if "j < MAX_NODES" for j
    using pool that by (auto simp: pool_inv_def intro: le_trans)
  ultimately have "pool_inv ?fs" using assms by (simp add: pool_inv_def)
  then show ?thesis using assms by (auto simp: fs_inv_def intro: move_contents_tree_inv)
qed

text \<open>\<open>write\<close> by cases.\<close>

lemma store_outside: "x \<notin> {off ..< off + length bs} \<Longrightarrow> store d off bs x = d x"
  by (auto simp: store_def)

lemma store_read: "map (\<lambda>k. store d off bs (off + k)) [0..<length bs] = bs"
  by (rule nth_equalityI) (auto simp: store_def)

lemma fs_write_cases:
  assumes inv: "fs_inv fs" and i: "i < MAX_NODES" and len: "length data < 2 ^ 32"
  obtains (not_file) "node_kind (NODES fs i) \<noteq> File" "fs_write i data fs = Some (False, fs)"
  | (full) "node_kind (NODES fs i) = File" "length data > data_cap (NODES fs i)"
      "DATA_NEXT fs + length data > DATA_POOL" "fs_write i data fs = Some (False, fs)"
  | (in_place) "node_kind (NODES fs i) = File" "length data \<le> data_cap (NODES fs i)"
      "fs_write i data fs = Some (True, move_contents i (data_off (NODES fs i)) (length data)
         (data_cap (NODES fs i)) (DATA_NEXT fs) (store (DATA fs) (data_off (NODES fs i)) data) fs)"
  | (fresh) "node_kind (NODES fs i) = File" "length data > data_cap (NODES fs i)"
      "DATA_NEXT fs + length data \<le> DATA_POOL"
      "fs_write i data fs = Some (True, move_contents i (DATA_NEXT fs) (length data) (length data)
         (DATA_NEXT fs + length data) (store (DATA fs) (DATA_NEXT fs) data) fs)"
proof -
  have b: "data_off (NODES fs i) + data_cap (NODES fs i) \<le> DATA_POOL"
    using inv i by (auto simp: fs_inv_def pool_inv_def intro: le_trans)
  have m: "length data mod 4294967296 = length data" using len by simp
  consider "node_kind (NODES fs i) \<noteq> File"
    | "node_kind (NODES fs i) = File" "length data \<le> data_cap (NODES fs i)"
    | "node_kind (NODES fs i) = File" "length data > data_cap (NODES fs i)"
        "DATA_NEXT fs + length data > DATA_POOL"
    | "node_kind (NODES fs i) = File" "length data > data_cap (NODES fs i)"
        "DATA_NEXT fs + length data \<le> DATA_POOL"
    by linarith
  then show thesis
  proof cases
    case 1
    then show thesis using i by (intro not_file) (simp_all add: fs_write_def)
  next
    case 2
    then have "data_off (NODES fs i) + length data \<le> DATA_POOL" using b by linarith
    then show thesis
      using 2 i by (intro in_place) (simp_all add: fs_write_def m store_checked_def move_contents_def Let_def del: length_greater_0_conv)
  next
    case 3
    then show thesis using i by (intro full) (simp_all add: fs_write_def m Let_def)
  next
    case 4
    then have "(DATA_NEXT fs + length data) mod 4294967296 = DATA_NEXT fs + length data" by simp
    then show thesis
      using 4 i by (intro fresh) (simp_all add: fs_write_def m store_checked_def move_contents_def Let_def)
  qed
qed

lemma fs_write_inv:
  assumes "fs_inv fs" "i < MAX_NODES" "length data < 2 ^ 32" "fs_write i data fs = Some (ok, fs')"
  shows "fs_inv fs'"
  using assms(1-3)
proof (cases rule: fs_write_cases)
  case in_place
  then show ?thesis using assms move_contents_in_place_inv by auto
next
  case fresh
  then show ?thesis using assms move_contents_fresh_inv by auto
qed (use assms in auto)

text \<open>\<open>append\<close>: the old bytes move to a fresh region, the new ones follow.\<close>

lemma fold_copy_forward:
  "fold (\<lambda>i d. d(dst + i := d (src + i))) [0..<n] d =
     (\<lambda>x. if dst \<le> x \<and> x < dst + n then d (src + (x - dst)) else d x)"
  if "src + n \<le> dst" for d :: "nat \<Rightarrow> 'b"
  using that
proof (induction n)
  case 0
  then show ?case by (auto simp: fun_eq_iff)
next
  case (Suc n)
  let ?f = "\<lambda>x. if dst \<le> x \<and> x < dst + n then d (src + (x - dst)) else d x"
  have "fold (\<lambda>i d. d(dst + i := d (src + i))) [0..<Suc n] d = ?f(dst + n := ?f (src + n))"
    using Suc.prems by (simp add: Suc.IH)
  also have "\<dots> = (\<lambda>x. if dst \<le> x \<and> x < dst + Suc n then d (src + (x - dst)) else d x)"
    using Suc.prems by (intro ext) auto
  finally show ?case .
qed

lemma copy_within_forward:
  assumes "src + n \<le> dst" "dst + n \<le> DATA_POOL"
  shows "copy_within d dst src n = Some (store d dst (map (\<lambda>k. d (src + k)) [0..<n]))"
proof -
  have "src + n \<le> DATA_POOL" using assms by linarith
  then show ?thesis
    unfolding copy_within_def fold_copy_forward [OF assms(1)] store_def
    using assms(2) by (auto simp: fun_eq_iff)
qed

lemma store_store:
  "store (store d off xs) (off + length xs) ys = store d off (xs @ ys)"
  by (auto simp: store_def fun_eq_iff nth_append)

lemma fs_read_eq:
  assumes "fs_inv fs" "i < MAX_NODES"
  shows "fs_read i fs = Some (case contents fs i of None \<Rightarrow> [] | Some bs \<Rightarrow> bs)"
proof -
  have "data_len (NODES fs i) \<le> data_cap (NODES fs i)"
    "data_off (NODES fs i) + data_cap (NODES fs i) \<le> DATA_POOL"
    using assms by (auto simp: fs_inv_def pool_inv_def intro: le_trans)
  then have "data_len (NODES fs i) \<noteq> 0 \<Longrightarrow> data_off (NODES fs i) < DATA_POOL" by linarith
  then show ?thesis
    using assms(2) by (cases "data_len (NODES fs i) = 0") (auto simp: fs_read_def contents_def Let_def)
qed

lemma fs_append_cases:
  assumes inv: "fs_inv fs" and i: "i < MAX_NODES"
  obtains (refused) "fs_append i data fs = Some (False, fs)"
      "contents fs i = None \<or> (\<exists>old. contents fs i = Some old \<and>
         DATA_NEXT fs + length old + length data > DATA_POOL)"
  | (fresh) old where "contents fs i = Some old" "DATA_NEXT fs + length (old @ data) \<le> DATA_POOL"
      "fs_append i data fs = Some (True, move_contents i (DATA_NEXT fs) (length (old @ data))
         (length (old @ data)) (DATA_NEXT fs + length (old @ data))
         (store (DATA fs) (DATA_NEXT fs) (old @ data)) fs)"
proof (cases "contents fs i")
  case None
  then have "node_kind (NODES fs i) \<noteq> File" using i by (auto simp: contents_def)
  then show thesis
    using None by (intro refused) (auto simp: fs_append_def fs_read_eq [OF inv i] Let_def)
next
  case (Some old)
  then have is_file: "node_kind (NODES fs i) = File"
    and old: "old = map (\<lambda>k. DATA fs (data_off (NODES fs i) + k)) [0..<data_len (NODES fs i)]"
    using i by (auto simp: contents_def split: if_splits)
  have b: "data_off (NODES fs i) + length old \<le> DATA_NEXT fs"
    using inv i by (auto simp: old fs_inv_def pool_inv_def dest!: spec [of _ i])
  show thesis
  proof (cases "DATA_NEXT fs + length (old @ data) \<le> DATA_POOL")
    case False
    then show thesis
      using Some is_file by (intro refused) (auto simp: fs_append_def fs_read_eq [OF inv i] Let_def)
  next
    case True
    then have "copy_within (DATA fs) (DATA_NEXT fs) (data_off (NODES fs i)) (length old) =
        Some (store (DATA fs) (DATA_NEXT fs) old)"
      using copy_within_forward [OF b] old by auto
    moreover have "store_checked (store (DATA fs) (DATA_NEXT fs) old) (DATA_NEXT fs + length old) data =
        Some (store (DATA fs) (DATA_NEXT fs) (old @ data))"
      using True by (auto simp: store_checked_def store_store)
    ultimately show thesis
      using Some True is_file
      by (intro fresh) (auto simp: fs_append_def fs_read_eq [OF inv i] Let_def move_contents_def)
  qed
qed

lemma fs_append_inv:
  assumes "fs_inv fs" "i < MAX_NODES" "fs_append i data fs = Some (ok, fs')"
  shows "fs_inv fs'"
  using assms(1,2)
proof (cases rule: fs_append_cases [where data = data])
  case refused
  then show ?thesis using assms by simp
next
  case (fresh old)
  then show ?thesis using assms move_contents_fresh_inv [OF assms(1,2)] by auto
qed

text \<open>Removing a node without children.\<close>

lemma remove_node_tree_inv:
  assumes inv: "tree_inv fs" and i: "i \<noteq> ROOT" "\<And>j. j < MAX_NODES \<Longrightarrow> \<not> is_child fs i j"
  shows "tree_inv (add_node i node_empty fs)" (is "tree_inv ?fs")
proof -
  have N: "NODES ?fs j = (if j = i then node_empty else NODES fs j)" for j by simp
  have par: "parent (NODES fs j) \<noteq> i" if "j < MAX_NODES" "live fs j" "j \<noteq> i" for j
    using i that by (auto simp: is_child_def)
  have "node_wf ?fs j" if "j < MAX_NODES" "live ?fs j" for j
  proof -
    have "j \<noteq> i" "live fs j" using that by (auto simp: N split: if_splits)
    moreover from this have "node_wf fs j" using inv that by (simp add: tree_inv_def)
    ultimately show ?thesis using par that by (simp add: node_wf_def N)
  qed
  moreover have "{j. j < MAX_NODES \<and> is_child ?fs e j} = {j. j < MAX_NODES \<and> is_child fs e j} - {i}" for e
    by (auto simp: is_child_def)
  then have "siblings_distinct ?fs"
    using inv by (auto simp: siblings_distinct_def tree_inv_def inj_on_def)
  moreover obtain rk where "ranked fs rk" using inv by (auto simp: tree_inv_def)
  then have "ranked ?fs rk" by (auto simp: ranked_def)
  moreover have "node_kind (NODES ?fs ROOT) = Dir" "parent (NODES ?fs ROOT) = ROOT"
    using inv i by (auto simp: tree_inv_def)
  ultimately show ?thesis unfolding tree_inv_def by blast
qed

lemma unlink_cases:
  assumes "unlink i fs = Some (ok, fs')"
  obtains (refused) "\<not> ok" "fs' = fs" "i = ROOT \<or> \<not> live fs i \<or> (\<exists>j < MAX_NODES. is_child fs i j)"
  | (removed) "ok" "i \<noteq> ROOT" "i < MAX_NODES" "live fs i" "fs' = add_node i node_empty fs"
      "node_kind (NODES fs i) = Dir \<longrightarrow> (\<forall>j < MAX_NODES. \<not> is_child fs i j)"
proof (cases "i = ROOT \<or> \<not> live fs i \<or>
    (node_kind (NODES fs i) = Dir \<and> list_ex (is_child fs i) [0..<MAX_NODES])")
  case True
  then have "\<not> ok \<and> fs' = fs"
    using assms by (simp add: unlink_def Let_def split: if_splits)
  then show ?thesis using True by (intro refused) (auto simp: list_ex_iff)
next
  case False
  then show ?thesis
    using assms
    by (intro removed) (auto simp: unlink_def add_node_def Let_def list_ex_iff split: if_splits)
qed

lemma unlink_inv:
  assumes "fs_inv fs" "unlink i fs = Some (ok, fs')"
  shows "fs_inv fs'"
  using assms(2)
proof (cases rule: unlink_cases)
  case removed
  then have "\<not> is_child fs i j" if "j < MAX_NODES" for j
    using free_no_child [of fs j i] assms that by (auto simp: fs_inv_def)
  then show ?thesis
    using assms removed by (auto simp: fs_inv_def intro!: remove_node_tree_inv add_node_pool_inv)
qed (use assms in simp)

lemma set_cwd_inv:
  assumes "fs_inv fs" "set_cwd i fs = Some fs'"
  shows "fs_inv fs'"
proof -
  have "NODES fs' = NODES fs" "DATA_NEXT fs' = DATA_NEXT fs"
    using assms by (auto simp: set_cwd_def split: if_splits)
  then have "same_tree fs fs'" "pool_inv fs' = pool_inv fs"
    by (simp_all add: same_tree_def pool_inv_def)
  then show ?thesis
    using assms by (auto simp: fs_inv_def set_cwd_def intro: same_tree_tree_inv split: if_splits)
qed

lemma fs_blank_inv: "fs_inv (fs_blank fs)"
proof -
  have N: "NODES (fs_blank fs) i = (if i = 0 then root_node else node_empty)" for i
    by (simp add: fs_blank_def)
  have "node_wf (fs_blank fs) 0"
    by (simp add: node_wf_def N root_node_def name_buf_def bytes_of_def Let_def)
  moreover have "region root_node = {}" by (simp add: region_def root_node_def)
  moreover have "siblings_distinct (fs_blank fs)"
    by (auto simp: siblings_distinct_def is_child_def N intro!: inj_onI)
  moreover have "ranked (fs_blank fs) (\<lambda>_. 0)" by (simp add: ranked_def N)
  ultimately have "tree_inv (fs_blank fs)" by (auto simp: tree_inv_def N root_node_def)
  moreover have "pool_inv (fs_blank fs)"
    by (auto simp: pool_inv_def N \<open>region root_node = {}\<close>) (auto simp: fs_blank_def root_node_def)
  ultimately show ?thesis by (simp add: fs_inv_def fs_blank_def)
qed

section \<open>Contents seen by clients\<close>

lemma contents_cong:
  assumes "pool_inv fs" "j < MAX_NODES" "NODES fs' j = NODES fs j"
    and "\<And>x. x \<in> region (NODES fs j) \<Longrightarrow> DATA fs' x = DATA fs x"
  shows "contents fs' j = contents fs j"
proof -
  have "data_len (NODES fs j) \<le> data_cap (NODES fs j)" using assms by (simp add: pool_inv_def)
  then have "DATA fs' (data_off (NODES fs j) + k) = DATA fs (data_off (NODES fs j) + k)"
    if "k < data_len (NODES fs j)" for k
    using that by (intro assms(4)) (simp add: region_def)
  then show ?thesis by (simp add: contents_def assms(3))
qed

lemma contents_moved:
  assumes pool: "pool_inv fs" and i: "i < MAX_NODES" "node_kind (NODES fs i) = File"
    and sep: "\<And>j. j < MAX_NODES \<Longrightarrow> j \<noteq> i \<Longrightarrow> region (NODES fs j) \<inter> {off ..< off + length data} = {}"
  shows "contents (move_contents i off (length data) cap next (store (DATA fs) off data) fs) =
    (contents fs)(i \<mapsto> data)" (is "contents ?fs = _")
proof
  fix j
  show "contents ?fs j = ((contents fs)(i \<mapsto> data)) j"
  proof (cases "j = i")
    case True
    then show ?thesis using i by (simp add: contents_def store_read)
  next
    case False
    show ?thesis
    proof (cases "j < MAX_NODES")
      case True
      then have "DATA ?fs x = DATA fs x" if "x \<in> region (NODES fs j)" for x
        using sep [OF True False] that by (simp add: store_outside disjoint_iff)
      then have "contents ?fs j = contents fs j"
        using False True by (intro contents_cong [OF pool]) auto
      then show ?thesis using False by simp
    qed (use False in \<open>simp add: contents_def\<close>)
  qed
qed

lemma fs_write_spec:
  assumes inv: "fs_inv fs" and c: "contents fs i \<noteq> None" and len: "length data < 2 ^ 32"
  shows "\<exists>ok fs'. fs_write i data fs = Some (ok, fs') \<and> fs_inv fs' \<and> same_tree fs fs' \<and>
    (if ok then contents fs' = (contents fs)(i \<mapsto> data) else fs' = fs)"
proof -
  have i: "i < MAX_NODES" "node_kind (NODES fs i) = File" and pool: "pool_inv fs"
    using inv c by (auto simp: contents_def fs_inv_def split: if_splits)
  show ?thesis
    using inv i(1) len
  proof (cases rule: fs_write_cases)
    case in_place
    have "region (NODES fs j) \<inter> {data_off (NODES fs i) ..< data_off (NODES fs i) + length data} = {}"
      if "j < MAX_NODES" "j \<noteq> i" for j
    proof -
      have "region (NODES fs j) \<inter> region (NODES fs i) = {}"
        using pool i that by (simp add: pool_inv_def)
      then show ?thesis using in_place by (auto simp: region_def)
    qed
    from contents_moved [OF pool i this] in_place show ?thesis
      using move_contents_in_place_inv [OF inv i(1)] by auto
  next
    case fresh
    have "region (NODES fs j) \<inter> {DATA_NEXT fs ..< DATA_NEXT fs + length data} = {}"
      if "j < MAX_NODES" for j
      using region_below [OF pool that] by fastforce
    from contents_moved [OF pool i this] fresh show ?thesis
      using move_contents_fresh_inv [OF inv i(1)] by auto
  qed (use inv i in auto)
qed

lemma fs_append_spec:
  assumes inv: "fs_inv fs" and c: "contents fs i = Some old"
  shows "\<exists>ok fs'. fs_append i data fs = Some (ok, fs') \<and> fs_inv fs' \<and> same_tree fs fs' \<and>
    (if ok then contents fs' = (contents fs)(i \<mapsto> old @ data) else fs' = fs)"
proof -
  have i: "i < MAX_NODES" "node_kind (NODES fs i) = File" and pool: "pool_inv fs"
    using inv c by (auto simp: contents_def fs_inv_def split: if_splits)
  have sep: "region (NODES fs j) \<inter> {DATA_NEXT fs ..< DATA_NEXT fs + length (old @ data)} = {}"
    if "j < MAX_NODES" for j
    using region_below [OF pool that] by fastforce
  show ?thesis
    using inv i(1)
  proof (cases rule: fs_append_cases [where data = data])
    case refused
    then show ?thesis using inv by auto
  next
    case (fresh old')
    then show ?thesis
      using c contents_moved [OF pool i sep] move_contents_fresh_inv [OF inv i(1)] by auto
  qed
qed

lemma fs_read_spec: "fs_inv fs \<Longrightarrow> contents fs i = Some bs \<Longrightarrow> fs_read i fs = Some bs"
  using fs_read_eq [of fs i] by (cases "i < MAX_NODES") (auto simp: contents_def)

subsection \<open>The contract of a file store\<close>

text \<open>
  What the kernel's clients (configuration, system calls, commands) rely on: reading a file gives its
  contents, a write or an append that reports success changes exactly the named file, one that
  reports failure changes nothing, and none of them panics.
\<close>

datatype store_op = Store_write nat bytes | Store_append nat bytes

fun op_node :: "store_op \<Rightarrow> nat" where
  "op_node (Store_write n _) = n"
| "op_node (Store_append n _) = n"

fun op_data :: "store_op \<Rightarrow> bytes" where
  "op_data (Store_write _ d) = d"
| "op_data (Store_append _ d) = d"

fun apply_op :: "store_op \<Rightarrow> (nat \<Rightarrow> bytes option) \<Rightarrow> (nat \<Rightarrow> bytes option)" where
  "apply_op (Store_write n d) c = c(n \<mapsto> d)"
| "apply_op (Store_append n d) c = c(n \<mapsto> the (c n) @ d)"

fun apply_ops :: "(store_op \<times> bool) list \<Rightarrow> (nat \<Rightarrow> bytes option) \<Rightarrow> (nat \<Rightarrow> bytes option)" where
  "apply_ops [] c = c"
| "apply_ops ((op, ok) # ops) c = apply_ops ops (if ok then apply_op op c else c)"

locale file_store =
  fixes inv :: "'s \<Rightarrow> bool"
    and cont :: "'s \<Rightarrow> nat \<Rightarrow> bytes option"
    and rd :: "nat \<Rightarrow> 's \<Rightarrow> bytes option"
    and wr :: "nat \<Rightarrow> bytes \<Rightarrow> 's \<Rightarrow> (bool \<times> 's) option"
    and ap :: "nat \<Rightarrow> bytes \<Rightarrow> 's \<Rightarrow> (bool \<times> 's) option"
  assumes rd: "\<lbrakk>inv s; cont s n = Some bs\<rbrakk> \<Longrightarrow> rd n s = Some bs"
    and wr: "\<lbrakk>inv s; cont s n \<noteq> None; length d < 2 ^ 32\<rbrakk> \<Longrightarrow>
      \<exists>ok s'. wr n d s = Some (ok, s') \<and> inv s' \<and> cont s' = (if ok then (cont s)(n \<mapsto> d) else cont s)"
    and ap: "\<lbrakk>inv s; cont s n = Some old\<rbrakk> \<Longrightarrow>
      \<exists>ok s'. ap n d s = Some (ok, s') \<and> inv s' \<and> cont s' = (if ok then (cont s)(n \<mapsto> old @ d) else cont s)"
begin

fun run_op :: "store_op \<Rightarrow> 's \<Rightarrow> (bool \<times> 's) option" where
  "run_op (Store_write n d) s = wr n d s"
| "run_op (Store_append n d) s = ap n d s"

fun run_ops :: "store_op list \<Rightarrow> 's \<Rightarrow> (bool list \<times> 's) option" where
  "run_ops [] s = Some ([], s)"
| "run_ops (op # ops) s =
     do { (ok, s) \<leftarrow> run_op op s; (oks, s) \<leftarrow> run_ops ops s; Some (ok # oks, s) }"

lemma run_op_refines:
  assumes "inv s" "cont s (op_node op) \<noteq> None" "length (op_data op) < 2 ^ 32"
  shows "\<exists>ok s'. run_op op s = Some (ok, s') \<and> inv s' \<and>
    cont s' = (if ok then apply_op op (cont s) else cont s)"
proof (cases op)
  case (Store_write n d)
  then have "cont s n \<noteq> None" "length d < 2 ^ 32" using assms by simp_all
  with wr [OF assms(1)] Store_write show ?thesis by (simp only: run_op.simps apply_op.simps) blast
next
  case (Store_append n d)
  then obtain old where "cont s n = Some old" using assms by auto
  with ap [OF assms(1) this] Store_append show ?thesis
    by (simp only: run_op.simps apply_op.simps option.sel)
qed

lemma run_ops_refine:
  assumes "inv s" "\<And>op. op \<in> set ops \<Longrightarrow> cont s (op_node op) \<noteq> None \<and> length (op_data op) < 2 ^ 32"
  shows "\<exists>oks s'. run_ops ops s = Some (oks, s') \<and> length oks = length ops \<and> inv s' \<and>
    cont s' = apply_ops (zip ops oks) (cont s)"
  using assms
proof (induction ops arbitrary: s)
  case Nil
  then show ?case by simp
next
  case (Cons op ops)
  obtain ok s1 where s1: "run_op op s = Some (ok, s1)" "inv s1"
    "cont s1 = (if ok then apply_op op (cont s) else cont s)"
    using run_op_refines [of s op] Cons.prems by auto
  have "dom (cont s) \<subseteq> dom (cont s1)" using s1(3) by (cases op) auto
  then have "cont s1 (op_node o') \<noteq> None \<and> length (op_data o') < 2 ^ 32" if "o' \<in> set ops" for o'
    using Cons.prems(2) [of o'] that by (auto simp: dom_def)
  from Cons.IH [OF s1(2) this] obtain oks s' where
    "run_ops ops s1 = Some (oks, s')" "length oks = length ops" "inv s'"
    "cont s' = apply_ops (zip ops oks) (cont s1)" by blast
  then show ?case using s1 by auto
qed

lemma write_then_read:
  assumes "inv s" "cont s n \<noteq> None" "length d < 2 ^ 32" "wr n d s = Some (True, s')"
  shows "rd n s' = Some d"
  using wr [OF assms(1-3)] assms(4) by (auto intro: rd)

end

interpretation rf: file_store fs_inv contents fs_read fs_write fs_append
proof
  fix fs n and d :: bytes
  assume "fs_inv fs" "contents fs n \<noteq> None" "length d < 2 ^ 32"
  then show "\<exists>ok s'. fs_write n d fs = Some (ok, s') \<and> fs_inv s' \<and>
      contents s' = (if ok then (contents fs)(n \<mapsto> d) else contents fs)"
    using fs_write_spec [of fs n d] by (force split: if_splits)
next
  fix fs n and old d :: bytes
  assume "fs_inv fs" "contents fs n = Some old"
  then show "\<exists>ok s'. fs_append n d fs = Some (ok, s') \<and> fs_inv s' \<and>
      contents s' = (if ok then (contents fs)(n \<mapsto> old @ d) else contents fs)"
    using fs_append_spec [of fs n old d] by (force split: if_splits)
qed (rule fs_read_spec)

section \<open>Paths\<close>

text \<open>Walking down by names, and the absolute path that spells the walk.\<close>

fun descend :: "fs_state \<Rightarrow> nat \<Rightarrow> bytes list \<Rightarrow> nat option" where
  "descend fs d [] = Some d"
| "descend fs d (c # cs) = do { e \<leftarrow> find_child fs d c; descend fs e cs }"

definition path_string :: "bytes list \<Rightarrow> bytes" where
  "path_string cs = concat (map (\<lambda>c. slash # c) cs)"

definition plain_name :: "bytes \<Rightarrow> bool" where
  "plain_name c \<longleftrightarrow> c \<noteq> [] \<and> slash \<notin> set c \<and> c \<noteq> bytes_of ''.'' \<and> c \<noteq> bytes_of ''..''"

lemma descend_snoc: "descend fs d (cs @ [c]) = do { e \<leftarrow> descend fs d cs; find_child fs e c }"
  by (induction cs arbitrary: d) (auto split: bind_splits)

lemma takeWhile_plain:
  "slash \<notin> set c \<Longrightarrow> takeWhile (\<lambda>x. x \<noteq> slash) (c @ path_string cs) = c"
  by (cases cs) (auto simp: path_string_def takeWhile_append takeWhile_eq_all_conv)

lemma dropWhile_plain:
  "slash \<notin> set c \<Longrightarrow> dropWhile (\<lambda>x. x \<noteq> slash) (c @ path_string cs) = path_string cs"
  by (cases cs) (auto simp: path_string_def dropWhile_append dropWhile_eq_Nil_conv)

lemma resolve_loop_path:
  assumes "\<forall>c \<in> set cs. plain_name c"
  shows "resolve_loop fs d (path_string cs) = Some (descend fs d cs)"
  using assms
proof (induction cs arbitrary: d)
  case Nil
  then show ?case by (simp add: resolve_loop.simps [of fs d "[]"] path_string_def)
next
  case (Cons c cs)
  then have c: "plain_name c" by simp
  have "dropWhile (\<lambda>x. x = slash) (path_string (c # cs)) = c @ path_string cs"
    using c by (cases c) (auto simp: plain_name_def path_string_def)
  then show ?case
    using c Cons
    by (subst resolve_loop.simps)
      (auto simp: Let_def takeWhile_plain dropWhile_plain plain_name_def split: option.splits)
qed

lemma resolve_absolute:
  assumes "cs \<noteq> []" "\<forall>c \<in> set cs. plain_name c"
  shows "resolve (path_string cs) fs = Some (descend fs ROOT cs)"
  using assms resolve_loop_path [OF assms(2)]
  by (cases cs) (simp_all add: resolve_def resolve_from_def path_string_def)

text \<open>The chain that \<open>path_of\<close> collects is the walk, read backwards.\<close>

lemma descend_ancestors:
  assumes inv: "fs_inv fs" and "descend fs ROOT cs = Some n" "length cs \<le> k"
  shows "\<exists>ch. ancestors fs k n = Some ch \<and> map (\<lambda>i. node_label (NODES fs i)) (rev ch) = cs"
  using assms(2,3)
proof (induction cs arbitrary: n k rule: rev_induct)
  case Nil
  then show ?case by (cases k) auto
next
  case (snoc c cs)
  then obtain d where d: "descend fs ROOT cs = Some d" "find_child fs d c = Some n"
    by (auto simp: descend_snoc split: bind_splits)
  have n: "n < MAX_NODES" "is_child fs d n" "node_label (NODES fs n) = c"
    using find_child_Some [OF d(2)] by auto
  then have "n \<noteq> ROOT" "parent (NODES fs n) = d"
    using inv by (metis is_child_def fs_inv_def tree_inv_def)+
  moreover obtain k' where "k = Suc k'" "length cs \<le> k'"
    using snoc.prems(2) by (cases k) auto
  ultimately show ?case
    using snoc.IH [OF d(1)] n by fastforce
qed

lemma fold_push_fits:
  "length out + length cs \<le> cap \<Longrightarrow>
   fold (\<lambda>c out. if length out < cap then out @ [c] else out) cs out = out @ cs"
  by (induction cs arbitrary: out) auto

lemma fold_path_fits:
  assumes "length out + length (path_string (map f xs)) \<le> cap"
  shows "fold (\<lambda>i out.
          let out = (if length out < cap then out @ [slash] else out)
          in fold (\<lambda>c out. if length out < cap then out @ [c] else out) (f i) out) xs out =
    out @ path_string (map f xs)"
  using assms
  by (induction xs arbitrary: out) (auto simp: path_string_def fold_push_fits Let_def)

lemma path_of_descend:
  assumes "fs_inv fs" "descend fs ROOT cs = Some n" "cs \<noteq> []" "length cs \<le> 32"
    "length (path_string cs) \<le> cap"
  shows "path_of n cap fs = Some (path_string cs)"
proof -
  obtain ch where ch: "ancestors fs 32 n = Some ch" "map (\<lambda>i. node_label (NODES fs i)) (rev ch) = cs"
    using descend_ancestors [OF assms(1,2,4)] by blast
  then have "n \<noteq> ROOT" using assms(3) by (auto simp: eval_nat_numeral)
  moreover have "fold (\<lambda>i out.
          let out = (if length out < cap then out @ [slash] else out)
          in fold (\<lambda>c out. if length out < cap then out @ [c] else out) (node_label (NODES fs i)) out)
          (rev ch) [] = path_string cs"
    using fold_path_fits [of "[]" "\<lambda>i. node_label (NODES fs i)" "rev ch" cap] assms(5) ch(2) by simp
  ultimately show ?thesis by (simp add: path_of_def ch)
qed

section \<open>Every reachable file system is well formed\<close>

inductive fs_step :: "fs_state \<Rightarrow> fs_state \<Rightarrow> bool" where
  step_mkdir: "mkdir d nm fs = Some (r, fs') \<Longrightarrow> fs_step fs fs'"
| step_create: "create_file d nm fs = Some (r, fs') \<Longrightarrow> fs_step fs fs'"
| step_write: "fs_write i data fs = Some (ok, fs') \<Longrightarrow> length data < 2 ^ 32 \<Longrightarrow> fs_step fs fs'"
| step_append: "fs_append i data fs = Some (ok, fs') \<Longrightarrow> fs_step fs fs'"
| step_unlink: "unlink i fs = Some (ok, fs') \<Longrightarrow> fs_step fs fs'"
| step_set_cwd: "set_cwd i fs = Some fs' \<Longrightarrow> fs_step fs fs'"

inductive fs_reach :: "fs_state \<Rightarrow> bool" where
  reach_blank: "fs_reach (fs_blank fs)"
| reach_step: "fs_reach fs \<Longrightarrow> fs_step fs fs' \<Longrightarrow> fs_reach fs'"

lemma fs_step_inv:
  assumes "fs_step fs fs'" "fs_inv fs"
  shows "fs_inv fs'"
  using assms
proof cases
  case (step_write i data ok)
  then have "i < MAX_NODES" by (auto simp: fs_write_def split: if_splits)
  then show ?thesis using step_write assms(2) by (auto intro: fs_write_inv)
next
  case (step_append i data ok)
  then have "i < MAX_NODES" by (auto simp: fs_append_def fs_read_def split: if_splits)
  then show ?thesis using step_append assms(2) by (auto intro: fs_append_inv)
qed (auto intro: mkdir_inv create_file_inv unlink_inv set_cwd_inv)

lemma fs_reach_inv: "fs_reach fs \<Longrightarrow> fs_inv fs"
  by (induction rule: fs_reach.induct) (auto intro: fs_blank_inv fs_step_inv)

text \<open>The operations never panic on node indices below 256.\<close>

lemma mkdir_total: "d < MAX_NODES \<Longrightarrow> \<exists>r fs'. mkdir d nm fs = Some (r, fs')"
  by (auto simp: mkdir_def split: option.splits)

lemma create_file_total: "d < MAX_NODES \<Longrightarrow> \<exists>r fs'. create_file d nm fs = Some (r, fs')"
  by (auto simp: create_file_def split: option.splits)

lemma create_file_index: "create_file d nm fs = Some (Some i, fs') \<Longrightarrow> i < MAX_NODES"
  by (erule create_file_cases) (auto dest: find_child_Some alloc_node_Some)

lemma fs_write_total:
  "fs_inv fs \<Longrightarrow> i < MAX_NODES \<Longrightarrow> length data < 2 ^ 32 \<Longrightarrow> \<exists>ok fs'. fs_write i data fs = Some (ok, fs')"
  by (erule (2) fs_write_cases) auto

text \<open>Booting: \<open>init\<close> runs to its end and leaves a reachable state.\<close>

definition fs_ok :: "fs_state res \<Rightarrow> bool" where
  "fs_ok r \<longleftrightarrow> (\<exists>fs. r = Some fs \<and> fs_reach fs)"

lemma fs_ok_bind [intro]:
  "fs_ok r \<Longrightarrow> (\<And>fs. fs_reach fs \<Longrightarrow> fs_ok (f fs)) \<Longrightarrow> fs_ok (r \<bind> f)"
  by (auto simp: fs_ok_def)

lemma fs_ok_Some [simp]: "fs_ok (Some fs) \<longleftrightarrow> fs_reach fs"
  by (simp add: fs_ok_def)

lemma mkdir_ignore_ok: "fs_reach fs \<Longrightarrow> d < MAX_NODES \<Longrightarrow> fs_ok (mkdir_ignore d nm fs)"
  using mkdir_total [of d nm fs] by (auto simp: mkdir_ignore_def intro: reach_step [OF _ step_mkdir])

lemma create_with_ok:
  assumes "fs_reach fs" "d < MAX_NODES" "length data < 2 ^ 32"
  shows "fs_ok (create_with d nm data fs)"
proof -
  obtain r fs1 where c: "create_file d nm fs = Some (r, fs1)"
    using create_file_total [OF assms(2)] by blast
  then have r1: "fs_reach fs1" using assms(1) by (auto intro: reach_step [OF _ step_create])
  show ?thesis
  proof (cases r)
    case None
    then show ?thesis using c r1 by (simp add: create_with_def)
  next
    case (Some i)
    then obtain ok fs2 where "fs_write i data fs1 = Some (ok, fs2)"
      using fs_write_total [OF fs_reach_inv [OF r1] create_file_index assms(3)] c by blast
    then show ?thesis
      using c r1 Some assms(3) by (auto simp: create_with_def intro: reach_step [OF _ step_write])
  qed
qed

lemma length_push_limited: "length (push_limited c xs) \<le> length c + length xs"
  by (induction c xs rule: push_limited.induct) (auto simp: Let_def)

lemma length_shortcut_content: "length (shortcut_content nm base) \<le> 40 + 2 * length nm"
proof -
  let ?c1 = "push_limited [] (bytes_of ''Name='')"
  let ?c2 = "push_limited ?c1 nm @ [newline_byte]"
  let ?c3 = "push_limited ?c2 (bytes_of ''Exec=/apps/'')"
  let ?c4 = "push_limited ?c3 nm @ [newline_byte]"
  let ?c5 = "push_limited ?c4 (bytes_of ''Icon=4488CC'' @ [newline_byte])"
  let ?g = "bytes_of ''Glyph='' @ [if length base > 0 then to_ascii_uppercase (base ! 0) else 0x41, newline_byte]"
  have "shortcut_content nm base = push_limited ?c5 ?g @ [newline_byte]"
    by (simp only: shortcut_content_def Let_def)
  moreover have "length ?c1 \<le> 5"
    using length_push_limited [of "[]" "bytes_of ''Name=''"] by (simp add: bytes_of_def del: push_limited.simps)
  moreover have "length ?c2 \<le> length ?c1 + length nm + 1"
    using length_push_limited [of ?c1 nm] by (simp del: push_limited.simps)
  moreover have "length ?c3 \<le> length ?c2 + 11"
    using length_push_limited [of ?c2 "bytes_of ''Exec=/apps/''"] by (simp add: bytes_of_def del: push_limited.simps)
  moreover have "length ?c4 \<le> length ?c3 + length nm + 1"
    using length_push_limited [of ?c3 nm] by (simp del: push_limited.simps)
  moreover have "length ?c5 \<le> length ?c4 + 12"
    using length_push_limited [of ?c4 "bytes_of ''Icon=4488CC'' @ [newline_byte]"]
    by (simp add: bytes_of_def del: push_limited.simps)
  moreover have "length (push_limited ?c5 ?g) \<le> length ?c5 + 8"
    using length_push_limited [of ?c5 ?g] by (simp add: bytes_of_def del: push_limited.simps)
  ultimately show ?thesis by (simp only: length_append list.size)
qed

definition fs_ok2 :: "(nat \<times> fs_state) res \<Rightarrow> bool" where
  "fs_ok2 r \<longleftrightarrow> (\<exists>c fs. r = Some (c, fs) \<and> fs_reach fs)"

lemma make_shortcut_ok:
  assumes r: "fs_reach fs" and d: "d < MAX_NODES" and i: "i < MAX_NODES" "live fs i"
  shows "fs_ok2 (make_shortcut d i (c, fs))"
proof -
  let ?nm = "node_label (NODES fs i)"
  let ?base = "take (length ?nm - 4) ?nm"
  have "node_wf fs i" using fs_reach_inv [OF r] i by (simp add: fs_inv_def tree_inv_def)
  then have "length ?nm \<le> 28" by (simp add: node_wf_def node_label_def)
  then have len: "length (shortcut_content ?nm ?base) < 2 ^ 32"
    using length_shortcut_content [of ?nm ?base] by simp
  obtain x fs1 where c: "create_file d (desktop_name ?base) fs = Some (x, fs1)"
    using create_file_total [OF d] by blast
  then have r1: "fs_reach fs1" using r by (auto intro: reach_step [OF _ step_create])
  have "\<exists>ok fs2. fs_write j (shortcut_content ?nm ?base) fs1 = Some (ok, fs2) \<and> fs_reach fs2"
    if "x = Some j" for j
    using fs_write_total [OF fs_reach_inv [OF r1] create_file_index len] c len that r1
    by (blast intro: reach_step [OF _ step_write])
  then show ?thesis
    using r r1 by (cases x) (auto simp: make_shortcut_def Let_def fs_ok2_def c)
qed

lemma for_each_child_ok:
  assumes r: "fs_reach fs" and d: "dir < MAX_NODES"
    and f: "\<And>i c fs. \<lbrakk>fs_reach fs; i < MAX_NODES; live fs i\<rbrakk> \<Longrightarrow> fs_ok2 (f i (c, fs))"
  shows "fs_ok2 (for_each_child dir f (c, fs))"
proof -
  have "fs_ok2 (fold (\<lambda>i acc. do { s \<leftarrow> acc; if is_child (snd s) dir i then f i s else Some s }) xs r0)"
    if "set xs \<subseteq> {..<MAX_NODES}" "fs_ok2 r0" for xs r0
    using that
  proof (induction xs arbitrary: r0)
    case (Cons i xs)
    then obtain c1 fs1 where r0: "r0 = Some (c1, fs1)" "fs_reach fs1" by (auto simp: fs_ok2_def)
    then have "fs_ok2 (do { s \<leftarrow> r0; if is_child (snd s) dir i then f i s else Some s })"
      using f [of fs1 i c1] Cons.prems by (auto simp: is_child_def fs_ok2_def)
    then show ?case using Cons by simp
  qed simp
  moreover have "set [0..<MAX_NODES] \<subseteq> {..<MAX_NODES}" by auto
  moreover have "fs_ok2 (Some (c, fs))" using r by (simp add: fs_ok2_def)
  ultimately show ?thesis
    using d by (simp add: for_each_child_def)
qed

lemma scan_apps_ok:
  assumes "fs_reach fs" "d < MAX_NODES"
  shows "fs_ok (map_option snd (scan_apps_for_shortcuts d fs))"
proof -
  have "(case find_child fs ROOT (bytes_of ''apps'') of Some d \<Rightarrow> d | None \<Rightarrow> ROOT) < MAX_NODES"
    by (auto split: option.splits dest: find_child_Some)
  then have "fs_ok2 (scan_apps_for_shortcuts d fs)"
    using assms
    by (auto simp: scan_apps_for_shortcuts_def Let_def intro!: for_each_child_ok make_shortcut_ok)
  then show ?thesis by (auto simp: fs_ok2_def)
qed

lemma base_texts_short:
  "length motd_text < 2 ^ 32" "length release_text < 2 ^ 32" "length (lines_of [''0.4.0'']) < 2 ^ 32"
  by (simp_all add: motd_text_def release_text_def lines_of_def bytes_of_def)

lemma fs_init_ok: "\<not> READY fs \<Longrightarrow> fs_ok (fs_init fs)"
  unfolding fs_init_def Let_def
  by (auto intro!: fs_ok_bind mkdir_ignore_ok create_with_ok scan_apps_ok reach_blank base_texts_short
      split: option.split dest: find_child_Some)

section \<open>The name space after a creation or a removal\<close>

lemma add_node_find_child:
  assumes inv: "fs_inv fs" and i: "alloc_node fs = Some i" and d: "node_kind (NODES fs d) = Dir"
    and nm: "length nm \<le> NAME_MAX" "find_child fs d nm = None" and k: "k \<noteq> Free"
  shows "find_child (add_node i (new_node k d nm) fs) e m =
    (if e = d \<and> m = nm then Some i else find_child fs e m)"
proof -
  let ?fs = "add_node i (new_node k d nm) fs"
  have i': "i < MAX_NODES" "node_kind (NODES fs i) = Free" using alloc_node_Some [OF i] by auto
  then have "d \<noteq> i" using d by auto
  then have child: "is_child ?fs e' j \<longleftrightarrow> (if j = i then e' = d else is_child fs e' j)" for e' j
    using k by (auto simp: is_child_def)
  have lab: "node_label (NODES ?fs j) = (if j = i then nm else node_label (NODES fs j))" for j
    by (simp add: name_buf_label nm)
  have not_i: "\<not> is_child fs e' i" for e' using i' by (simp add: is_child_def)
  show ?thesis
  proof (cases "e = d \<and> m = nm")
    case True
    have "find_child ?fs d nm = find_first (\<lambda>j. j = i) [0..<MAX_NODES]"
      unfolding find_child_def child lab names_eq_iff
      by (rule find_first_cong) (use nm(2) not_i in \<open>auto simp: find_child_None\<close>)
    moreover obtain j where "find_first (\<lambda>j. j = i) [0..<MAX_NODES] = Some j"
      using i' by (cases "find_first (\<lambda>j. j = i) [0..<MAX_NODES]") (auto simp del: upt.simps)
    ultimately show ?thesis using True by (auto dest: find_first_Some)
  next
    case False
    then have "find_child ?fs e m = find_child fs e m"
      unfolding find_child_def child lab names_eq_iff
      by (intro find_first_cong) (auto simp: not_i)
    then show ?thesis using False by auto
  qed
qed

lemma remove_node_find_child:
  assumes inv: "fs_inv fs" and i: "i < MAX_NODES" "live fs i"
  shows "find_child (add_node i node_empty fs) e m =
    (if find_child fs e m = Some i then None else find_child fs e m)"
proof -
  let ?fs = "add_node i node_empty fs"
  have child: "is_child ?fs e j \<longleftrightarrow> j \<noteq> i \<and> is_child fs e j" for j by (auto simp: is_child_def)
  show ?thesis
  proof (cases "find_child fs e m = Some i")
    case True
    then have m: "is_child fs e i" "node_label (NODES fs i) = m"
      using find_child_Some by blast+
    have e: "e < MAX_NODES" using m i inv by (auto simp: is_child_def fs_inv_def tree_inv_def node_wf_def)
    have "node_label (NODES fs j) \<noteq> m" if "j < MAX_NODES" "is_child fs e j" "j \<noteq> i" for j
      using find_child_eqI [OF _ e that(1,2)] True that(3) inv by (auto simp: fs_inv_def tree_inv_def)
    then show ?thesis using True by (auto simp: find_child_None child)
  next
    case False
    have "\<not> (is_child fs e i \<and> node_label (NODES fs i) = m)"
    proof
      assume c: "is_child fs e i \<and> node_label (NODES fs i) = m"
      then have "e < MAX_NODES" using i inv by (auto simp: is_child_def fs_inv_def tree_inv_def node_wf_def)
      then show False using find_child_eqI [of fs e i] c i False inv by (auto simp: fs_inv_def tree_inv_def)
    qed
    then have "find_child ?fs e m = find_child fs e m"
      unfolding find_child_def child names_eq_iff by (intro find_first_cong) auto
    then show ?thesis using False by simp
  qed
qed

lemma contents_add_node:
  "i < MAX_NODES \<Longrightarrow> contents (add_node i (new_node k d nm) fs) = (contents fs)(i := if k = File then Some [] else None)"
  by (auto simp: contents_def fun_eq_iff)

lemma contents_remove_node: "contents (add_node i node_empty fs) = (contents fs)(i := None)"
  by (auto simp: contents_def fun_eq_iff)

definition can_create :: "nat \<Rightarrow> bytes \<Rightarrow> fs_state \<Rightarrow> bool" where
  "can_create d nm fs \<longleftrightarrow>
     nm \<noteq> [] \<and> length nm \<le> NAME_MAX \<and> node_kind (NODES fs d) = Dir \<and> alloc_node fs \<noteq> None"

lemma mkdir_spec:
  assumes inv: "fs_inv fs" and d: "d < MAX_NODES"
  shows "if can_create d nm fs \<and> find_child fs d nm = None
    then (\<exists>i fs'. mkdir d nm fs = Some (Some i, fs') \<and> \<not> live fs i \<and> node_kind (NODES fs' i) = Dir \<and>
      (\<forall>e m. find_child fs' e m = (if e = d \<and> m = nm then Some i else find_child fs e m)) \<and>
      contents fs' = contents fs)
    else mkdir d nm fs = Some (None, fs)"
proof (cases "can_create d nm fs \<and> find_child fs d nm = None")
  case True
  then obtain i where i: "alloc_node fs = Some i" by (auto simp: can_create_def)
  let ?fs = "add_node i (new_node Dir d nm) fs"
  have i': "i < MAX_NODES" "node_kind (NODES fs i) = Free" using alloc_node_Some [OF i] by auto
  have "mkdir d nm fs = Some (Some i, ?fs)"
    using True d i by (simp add: mkdir_def can_create_def add_node_def)
  moreover have "contents ?fs = contents fs"
    using i' contents_add_node [OF i'(1), of Dir d nm fs] by (auto simp: contents_def)
  moreover have "find_child ?fs e m = (if e = d \<and> m = nm then Some i else find_child fs e m)" for e m
    using True i inv by (intro add_node_find_child) (auto simp: can_create_def)
  ultimately show ?thesis using True i' by auto
next
  case False
  then have "mkdir d nm fs = Some (None, fs)"
    using d by (auto simp: mkdir_def can_create_def not_le split: option.splits)
  then show ?thesis using False by auto
qed

lemma create_file_spec:
  assumes inv: "fs_inv fs" and d: "d < MAX_NODES"
  shows "if can_create d nm fs \<and> find_child fs d nm = None
    then (\<exists>i fs'. create_file d nm fs = Some (Some i, fs') \<and> \<not> live fs i \<and>
      (\<forall>e m. find_child fs' e m = (if e = d \<and> m = nm then Some i else find_child fs e m)) \<and>
      contents fs' = (contents fs)(i \<mapsto> []))
    else (\<exists>r. create_file d nm fs = Some (r, fs) \<and>
      (\<forall>i. r = Some i \<longrightarrow> find_child fs d nm = Some i \<and> contents fs i \<noteq> None))"
proof (cases "can_create d nm fs \<and> find_child fs d nm = None")
  case True
  then obtain i where i: "alloc_node fs = Some i" by (auto simp: can_create_def)
  let ?fs = "add_node i (new_node File d nm) fs"
  have i': "i < MAX_NODES" "node_kind (NODES fs i) = Free" using alloc_node_Some [OF i] by auto
  have "create_file d nm fs = Some (Some i, ?fs)"
    using True d i by (simp add: create_file_def can_create_def add_node_def)
  moreover have "contents ?fs = (contents fs)(i \<mapsto> [])"
    using contents_add_node [OF i'(1), of File d nm fs] by simp
  moreover have "find_child ?fs e m = (if e = d \<and> m = nm then Some i else find_child fs e m)" for e m
    using True i inv by (intro add_node_find_child) (auto simp: can_create_def)
  ultimately show ?thesis using True i' by auto
next
  case False
  obtain r fs' where c: "create_file d nm fs = Some (r, fs')" using create_file_total [OF d] by blast
  then have "fs' = fs \<and> (\<forall>i. r = Some i \<longrightarrow> find_child fs d nm = Some i \<and> contents fs i \<noteq> None)"
    by (cases rule: create_file_cases)
      (use False in \<open>auto simp: can_create_def contents_def dest: find_child_Some\<close>)
  then show ?thesis using c False by auto
qed

lemma unlink_spec:
  assumes inv: "fs_inv fs" and i: "i < MAX_NODES"
  shows "if i \<noteq> ROOT \<and> live fs i \<and> (\<forall>j < MAX_NODES. \<not> is_child fs i j)
    then (\<exists>fs'. unlink i fs = Some (True, fs') \<and> \<not> live fs' i \<and>
      (\<forall>e m. find_child fs' e m = (if find_child fs e m = Some i then None else find_child fs e m)) \<and>
      contents fs' = (contents fs)(i := None))
    else unlink i fs = Some (False, fs)"
proof (cases "i \<noteq> ROOT \<and> live fs i \<and> (\<forall>j < MAX_NODES. \<not> is_child fs i j)")
  case True
  then have "unlink i fs = Some (True, add_node i node_empty fs)"
    using i by (auto simp: unlink_def add_node_def Let_def list_ex_iff)
  then show ?thesis
    using True i inv remove_node_find_child contents_remove_node by simp
next
  case False
  then have "node_kind (NODES fs i) = Dir" if "i \<noteq> ROOT" "live fs i"
    using free_no_child [of fs _ i] that i inv by (auto simp: fs_inv_def)
  then have "unlink i fs = Some (False, fs)"
    using False i by (auto simp: unlink_def Let_def list_ex_iff)
  then show ?thesis using False by auto
qed

section \<open>Properties\<close>

text \<open>
  C6: The file system never leaves its invariant. Booting it (\<open>init\<close> on a fresh kernel) runs to its end
  without a panic and gives a reachable state; in every state reachable by any sequence of
  \<open>mkdir\<close>, \<open>create_file\<close>, \<open>write\<close>, \<open>append\<close>, \<open>unlink\<close> and \<open>set_cwd\<close> calls the node table is a tree
  with distinct sibling names and the files own disjoint regions of the data pool.
\<close>

theorem fs_reachable_well_formed:
  "(\<not> READY fs \<longrightarrow> (\<exists>fs'. fs_init fs = Some fs' \<and> fs_reach fs')) \<and> (fs_reach fs \<longrightarrow> fs_inv fs)"
  using fs_init_ok [of fs] fs_reach_inv [of fs] by (auto simp: fs_ok_def)

text \<open>
  C7: Writes and appends refine a map from files to contents. Any sequence of \<open>write\<close> and \<open>append\<close>
  calls on existing files of a well-formed file system runs without a panic, and afterwards every
  file contains exactly what the successful calls, in order, say (a failed call has no effect),
  which is also what \<open>read\<close> returns.
\<close>

theorem fs_ops_refine_contents:
  assumes "fs_inv fs" "\<forall>op \<in> set ops. contents fs (op_node op) \<noteq> None \<and> length (op_data op) < 2 ^ 32"
  shows "\<exists>oks fs'. rf.run_ops ops fs = Some (oks, fs') \<and> length oks = length ops \<and> fs_inv fs' \<and>
    contents fs' = apply_ops (zip ops oks) (contents fs) \<and>
    (\<forall>i bs. contents fs' i = Some bs \<longrightarrow> fs_read i fs' = Some bs)"
  using rf.run_ops_refine [OF assms(1), of ops] assms(2) fs_read_spec by metis

text \<open>A small file system: an empty file \<open>a\<close> (node 1) and a directory \<open>d\<close> (node 2) under the root.\<close>

definition demo_fs :: fs_state where
  "demo_fs =
     add_node 2 (new_node Dir 0 [0x64])
       (add_node 1 (new_node File 0 [0x61])
         (fs_blank \<lparr>NODES = \<lambda>_. node_empty, DATA = \<lambda>_. 0, DATA_NEXT = 0, CWD = 0, READY = False\<rparr>))"

lemma demo_fs_nodes [simp]:
  "NODES demo_fs i = (if i = 2 then new_node Dir 0 [0x64] else if i = 1 then new_node File 0 [0x61]
     else if i = 0 then root_node else node_empty)"
  by (simp add: demo_fs_def fs_blank_def)

lemma root_node_simps [simp]:
  "node_kind root_node = Dir" "parent root_node = 0" "name_len root_node = 1"
  "length (name_arr root_node) = NAME_MAX" "data_off root_node = 0" "data_len root_node = 0"
  "data_cap root_node = 0" "region root_node = {}"
  by (simp_all add: root_node_def name_buf_def bytes_of_def region_def Let_def)

lemma demo_fs_child: "is_child demo_fs d i \<longleftrightarrow> d = 0 \<and> (i = 1 \<or> i = 2)"
  by (auto simp: is_child_def)

lemma demo_fs_label: "node_label (NODES demo_fs 1) = [0x61]" "node_label (NODES demo_fs 2) = [0x64]"
  by (simp_all add: name_buf_label)

lemma demo_fs_inv: "fs_inv demo_fs"
proof -
  have "siblings_distinct demo_fs"
    unfolding siblings_distinct_def
  proof (intro allI impI inj_onI)
    fix d x y
    assume "x \<in> {i. i < MAX_NODES \<and> is_child demo_fs d i}" "y \<in> {i. i < MAX_NODES \<and> is_child demo_fs d i}"
      and eq: "node_label (NODES demo_fs x) = node_label (NODES demo_fs y)"
    then have "x \<in> {1, 2}" "y \<in> {1, 2}" by (auto simp: demo_fs_child)
    then show "x = y" using eq by (auto simp: name_buf_label)
  qed
  moreover have "ranked demo_fs (\<lambda>i. i)" by (auto simp: ranked_def)
  moreover have "node_wf demo_fs i" if "live demo_fs i" for i
    using that by (auto simp: node_wf_def new_node_def [of _ _ "[_]"] name_buf_def split: if_splits)
  ultimately have "tree_inv demo_fs" by (auto simp: tree_inv_def simp del: demo_fs_nodes) (simp_all)
  moreover have "pool_inv demo_fs"
    by (auto simp: pool_inv_def) (simp_all add: demo_fs_def fs_blank_def)
  ultimately show ?thesis by (simp add: fs_inv_def demo_fs_def fs_blank_def)
qed

lemma demo_fs_contents: "contents demo_fs = [1 \<mapsto> []]"
  by (auto simp: contents_def fun_eq_iff)

theorem fs_reachable_well_formed_witness:
  "fs_inv (fs_blank demo_fs) \<and> (\<exists>fs'. fs_init (demo_fs\<lparr>READY := False\<rparr>) = Some fs' \<and> fs_inv fs')"
  using fs_reachable_well_formed [of "fs_blank demo_fs"] fs_reachable_well_formed [of "demo_fs\<lparr>READY := False\<rparr>"]
    fs_reachable_well_formed reach_blank by fastforce

theorem fs_ops_refine_contents_witness:
  "\<exists>oks fs'. rf.run_ops [Store_write 1 [7, 8], Store_append 1 [9]] demo_fs = Some (oks, fs') \<and>
     contents fs' = apply_ops (zip [Store_write 1 [7, 8], Store_append 1 [9]] oks) [1 \<mapsto> []]"
  using fs_ops_refine_contents [OF demo_fs_inv, of "[Store_write 1 [7, 8], Store_append 1 [9]]"]
  by (auto simp: demo_fs_contents)

text \<open>
  \<open>create_file\<close> and \<open>mkdir\<close> on a directory of a well-formed file system. A new node is made exactly when
  the name is usable, not taken, and a slot is free: then a lookup of that name in that directory finds the new node, every other
  lookup answers as before, and no existing file changes (a new file is empty). Otherwise nothing
  changes, and \<open>create_file\<close> returns a node only if that name already is a file of the directory.
\<close>

theorem fs_create_lookup:
  assumes "fs_inv fs" "d < MAX_NODES"
  shows "(if can_create d nm fs \<and> find_child fs d nm = None
    then (\<exists>i fs'. create_file d nm fs = Some (Some i, fs') \<and> \<not> live fs i \<and>
      (\<forall>e m. find_child fs' e m = (if e = d \<and> m = nm then Some i else find_child fs e m)) \<and>
      contents fs' = (contents fs)(i \<mapsto> [])) \<and>
     (\<exists>i fs'. mkdir d nm fs = Some (Some i, fs') \<and> \<not> live fs i \<and> node_kind (NODES fs' i) = Dir \<and>
      (\<forall>e m. find_child fs' e m = (if e = d \<and> m = nm then Some i else find_child fs e m)) \<and>
      contents fs' = contents fs)
    else (\<exists>r. create_file d nm fs = Some (r, fs) \<and>
      (\<forall>i. r = Some i \<longrightarrow> find_child fs d nm = Some i \<and> contents fs i \<noteq> None)) \<and>
      mkdir d nm fs = Some (None, fs))"
  using create_file_spec [OF assms, of nm] mkdir_spec [OF assms, of nm]
  by (cases "can_create d nm fs \<and> find_child fs d nm = None") (simp_all only: if_True if_False simp_thms)

theorem fs_create_lookup_witness:
  "\<exists>i fs'. create_file 2 [0x78] demo_fs = Some (Some i, fs') \<and> find_child fs' 2 [0x78] = Some i \<and>
     contents fs' i = Some []"
proof -
  have "alloc_node demo_fs \<noteq> None" by (simp add: alloc_node_def) (intro bexI [of _ 3], auto)
  moreover have "find_child demo_fs 2 [0x78] = None" by (simp add: find_child_None demo_fs_child)
  ultimately have "can_create 2 [0x78] demo_fs \<and> find_child demo_fs 2 [0x78] = None"
    by (simp add: can_create_def)
  then show ?thesis using fs_create_lookup [OF demo_fs_inv, of 2 "[0x78]"] by fastforce
qed

text \<open>
  \<open>unlink\<close> removes exactly the live nodes other than the root that have no children (files and
  empty directories): the removed node is no longer found under any name, every other lookup and
  every other file's contents are as before; in all other cases it reports failure and changes nothing.
\<close>

theorem fs_unlink_effect:
  assumes "fs_inv fs" "i < MAX_NODES"
  shows "if i \<noteq> ROOT \<and> live fs i \<and> (\<forall>j < MAX_NODES. \<not> is_child fs i j)
    then (\<exists>fs'. unlink i fs = Some (True, fs') \<and> \<not> live fs' i \<and>
      (\<forall>e m. find_child fs' e m = (if find_child fs e m = Some i then None else find_child fs e m)) \<and>
      contents fs' = (contents fs)(i := None))
    else unlink i fs = Some (False, fs)"
  by (rule unlink_spec [OF assms])

theorem fs_unlink_effect_witness:
  "unlink 0 demo_fs = Some (False, demo_fs) \<and>
   (\<exists>fs'. unlink 1 demo_fs = Some (True, fs') \<and> contents fs' = Map.empty)"
  using fs_unlink_effect [OF demo_fs_inv, of 0] fs_unlink_effect [OF demo_fs_inv, of 1]
  by (auto simp: demo_fs_child demo_fs_contents)

text \<open>
  \<open>path_of\<close> and \<open>resolve\<close> are inverse. For every walk of at most 32 ordinary names from the root
  to a node of a well-formed file system, \<open>path_of\<close> (given a large enough buffer) writes exactly
  the path that spells the walk, and \<open>resolve\<close> maps that path back to the node, whatever the
  working directory is.
\<close>

theorem fs_path_roundtrip:
  assumes "fs_inv fs" "descend fs ROOT cs = Some n" "cs \<noteq> []" "length cs \<le> 32"
    "\<forall>c \<in> set cs. plain_name c" "length (path_string cs) \<le> cap"
  shows "path_of n cap fs = Some (path_string cs) \<and> resolve (path_string cs) fs = Some (Some n)"
  using path_of_descend [OF assms(1-4,6)] resolve_absolute [OF assms(3,5), of fs] assms(2) by simp

theorem fs_path_roundtrip_witness:
  "path_of 2 64 demo_fs = Some [slash, 0x64] \<and> resolve [slash, 0x64] demo_fs = Some (Some 2)"
proof -
  have "find_child demo_fs 0 [0x64] = Some 2"
    using find_child_eqI [of demo_fs 0 2] demo_fs_inv demo_fs_label(2)
    by (simp add: demo_fs_child fs_inv_def tree_inv_def del: demo_fs_nodes)
  then show ?thesis
    using fs_path_roundtrip [OF demo_fs_inv, of "[[0x64]]" 2 64]
    by (simp add: plain_name_def bytes_of_def path_string_def)
qed

end
