(* ===== verification/Keyboard.thy ===== *)
theory Keyboard
  imports Prelude
begin

unbundle bit_operations_syntax

text \<open>
  The PS/2 keyboard driver of \<open>src/kernel/src/keyboard.rs\<close>: the scancode state machine and the ring
  buffer of 256 slots between the controller and \<open>read_key\<close>.

  The controller is the list \<open>ps2\<close> of the bytes it still holds, each with the bit that says whether
  it came from the second (mouse) port: reading the status port shows \<open>STATUS_OBF\<close> exactly when
  the list is not empty, and reading the data port removes its first byte. Head and tail never
  leave \<open>0..255\<close> and are natural numbers.

  The locale \<open>bounded_queue\<close> is the contract of the ring buffer (a first-in first-out queue that
  drops what does not fit); it is interpreted by \<open>push_buf\<close> and the reading half of \<open>read_key\<close>.
\<close>

section \<open>State\<close>

abbreviation KEYBUF_SIZE :: nat where "KEYBUF_SIZE \<equiv> 256"
abbreviation KEY_META :: u8 where "KEY_META \<equiv> 0xFB"

record kbd_state =
  KEYBUF :: "nat \<Rightarrow> u8"
  KEYBUF_HEAD :: nat
  KEYBUF_TAIL :: nat
  INIT_DONE :: bool
  SHIFT :: bool
  EXTENDED :: bool
  ps2 :: "(bool \<times> u8) list"

section \<open>Translation tables\<close>

definition char_map :: "(nat \<times> u8) list \<Rightarrow> u8 list" where
  "char_map kvs = fold (\<lambda>(i, c) m. m[i := c]) kvs (replicate 128 0)"

text \<open>A row of consecutive make codes.\<close>

definition row :: "nat \<Rightarrow> string \<Rightarrow> (nat \<times> u8) list" where
  "row i s = zip [i..<i + length s] (map of_char s)"

definition NORMAL_MAP :: "u8 list" where
  "NORMAL_MAP = char_map
     ([(0x01, 0x1B)] @ row 0x02 ''1234567890'' @ row 0x0C ''-='' @ [(0x0E, 0x08), (0x0F, 0x09)] @
      row 0x10 ''qwertyuiop'' @ row 0x1A ''[]'' @ [(0x1C, 0x0A)] @ row 0x1E ''asdfghjkl;'' @
      [(0x28, 0x27), (0x29, 0x60), (0x2B, 0x5C)] @ row 0x2C ''zxcvbnm,./'' @ row 0x37 ''*'' @ row 0x39 '' '')"

definition SHIFT_MAP :: "u8 list" where
  "SHIFT_MAP = char_map
     ([(0x01, 0x1B)] @ row 0x02 ''!@#$%^&*()'' @ row 0x0C ''_+'' @ [(0x0E, 0x08), (0x0F, 0x09)] @
      row 0x10 ''QWERTYUIOP'' @ row 0x1A ''{}'' @ [(0x1C, 0x0A)] @ row 0x1E ''ASDFGHJKL:'' @
      [(0x28, 0x22), (0x29, 0x7E), (0x2B, 0x7C)] @ row 0x2C ''ZXCVBNM<>?'' @ row 0x37 ''*'' @ row 0x39 '' '')"

section \<open>Operations\<close>

definition push_buf :: "u8 \<Rightarrow> kbd_state \<Rightarrow> kbd_state" where
  "push_buf ch s =
     (let head = KEYBUF_HEAD s; next = (head + 1) mod KEYBUF_SIZE
      in if next \<noteq> KEYBUF_TAIL s
         then s\<lparr>KEYBUF := (KEYBUF s)(head := ch), KEYBUF_HEAD := next\<rparr> else s)"

definition handle_scancode :: "u8 \<Rightarrow> kbd_state \<Rightarrow> kbd_state" where
  "handle_scancode code s =
     (if code = 0xE0 then s\<lparr>EXTENDED := True\<rparr>
      else if code = 0x5B \<or> code = 0x5C then push_buf KEY_META s
      else if code = 0x2A \<or> code = 0x36 then s\<lparr>SHIFT := True\<rparr>
      else if code = 0xAA \<or> code = 0xB6 then s\<lparr>SHIFT := False\<rparr>
      else if code AND 0x80 \<noteq> 0 then s\<lparr>EXTENDED := False\<rparr>
      else if EXTENDED s then s\<lparr>EXTENDED := False\<rparr>
      else let table = (if SHIFT s then SHIFT_MAP else NORMAL_MAP);
               ch = table ! unat (code AND 0x7F)
      in if ch \<noteq> 0 then push_buf ch s else s)"

definition kbd_init :: "kbd_state \<Rightarrow> kbd_state" where
  "kbd_init s = s\<lparr>KEYBUF_HEAD := 0, KEYBUF_TAIL := 0, SHIFT := False, EXTENDED := False,
     ps2 := drop 32 (ps2 s), INIT_DONE := True\<rparr>"

text \<open>The loop of \<open>poll\<close>, with the number of bytes it may still read.\<close>

fun poll_loop :: "nat \<Rightarrow> kbd_state \<Rightarrow> kbd_state" where
  "poll_loop 0 s = s"
| "poll_loop (Suc n) s =
     (case ps2 s of
        [] \<Rightarrow> s
      | (aux, code) # rest \<Rightarrow>
          let s = s\<lparr>ps2 := rest\<rparr>
          in poll_loop n (if aux then s else handle_scancode code s))"

definition poll :: "kbd_state \<Rightarrow> kbd_state" where
  "poll s = poll_loop 64 (if \<not> INIT_DONE s then kbd_init s else s)"

definition pop_buf :: "kbd_state \<Rightarrow> u8 option \<times> kbd_state" where
  "pop_buf s =
     (let tail = KEYBUF_TAIL s
      in if tail = KEYBUF_HEAD s then (None, s)
         else (Some (KEYBUF s tail), s\<lparr>KEYBUF_TAIL := (tail + 1) mod KEYBUF_SIZE\<rparr>))"

definition read_key :: "kbd_state \<Rightarrow> u8 option \<times> kbd_state" where
  "read_key s = pop_buf (poll s)"

section \<open>A bounded queue\<close>

locale bounded_queue =
  fixes inv :: "'s \<Rightarrow> bool"
    and q :: "'s \<Rightarrow> 'a list"
    and cap :: nat
    and push :: "'a \<Rightarrow> 's \<Rightarrow> 's"
    and pop :: "'s \<Rightarrow> 'a option \<times> 's"
  assumes push: "inv s \<Longrightarrow> inv (push x s) \<and> q (push x s) = (if length (q s) < cap then q s @ [x] else q s)"
    and pop: "inv s \<Longrightarrow> inv (snd (pop s)) \<and>
      (case q s of [] \<Rightarrow> pop s = (None, s) | x # xs \<Rightarrow> fst (pop s) = Some x \<and> q (snd (pop s)) = xs)"
begin

lemma push_all:
  "inv s \<Longrightarrow> inv (fold push xs s) \<and> q (fold push xs s) = q s @ take (cap - length (q s)) xs"
proof (induction xs arbitrary: s)
  case (Cons x xs)
  have "inv (push x s)" using push Cons.prems by blast
  from Cons.IH [OF this] show ?case
    using push [OF Cons.prems, of x] by (auto simp: Suc_diff_Suc [symmetric])
qed simp

fun drain :: "nat \<Rightarrow> 's \<Rightarrow> 'a list \<times> 's" where
  "drain 0 s = ([], s)"
| "drain (Suc n) s =
     (case pop s of (None, s) \<Rightarrow> ([], s) | (Some x, s) \<Rightarrow> (let (xs, s) = drain n s in (x # xs, s)))"

lemma drain_queue:
  "inv s \<Longrightarrow> fst (drain n s) = take n (q s) \<and> inv (snd (drain n s)) \<and> q (snd (drain n s)) = drop n (q s)"
proof (induction n arbitrary: s)
  case (Suc n)
  show ?case
  proof (cases "q s")
    case Nil
    then show ?thesis using pop [OF Suc.prems] Suc.prems by simp
  next
    case (Cons x xs)
    then obtain s' where s': "pop s = (Some x, s')" "inv s'" "q s' = xs"
      using pop [OF Suc.prems] by (cases "pop s") auto
    then show ?thesis using Suc.IH [OF s'(2)] Cons by (auto simp: split_beta Let_def)
  qed
qed simp

end

section \<open>Rings\<close>

text \<open>The entries of a ring of \<open>n\<close> places between the place that is read next and the one that is written next.\<close>

definition ring_len :: "nat \<Rightarrow> nat \<Rightarrow> nat \<Rightarrow> nat" where
  "ring_len n rd wr = (wr + n - rd) mod n"

definition ring_items :: "nat \<Rightarrow> (nat \<Rightarrow> 'a) \<Rightarrow> nat \<Rightarrow> nat \<Rightarrow> 'a list" where
  "ring_items n buf rd wr = map (\<lambda>i. buf ((rd + i) mod n)) [0..<ring_len n rd wr]"

lemma ring_mod: "a < n \<Longrightarrow> i < n \<Longrightarrow> (a + i) mod n = (if a + i < n then a + i else a + i - n)" for a i n :: nat
  by (auto simp: mod_if)

lemma ring_len_eq: "rd < n \<Longrightarrow> wr < n \<Longrightarrow> ring_len n rd wr = (if rd \<le> wr then wr - rd else wr + n - rd)"
  by (auto simp: ring_len_def mod_if)

lemma ring_next: "wr < n \<Longrightarrow> (wr + 1) mod n = (if wr + 1 = n then 0 else wr + 1)" for wr n :: nat
  by auto

lemma ring_full: "rd < n \<Longrightarrow> wr < n \<Longrightarrow> (wr + 1) mod n = rd \<longleftrightarrow> ring_len n rd wr = n - 1"
  unfolding ring_next ring_len_eq by auto

lemma ring_len_less: "rd < n \<Longrightarrow> wr < n \<Longrightarrow> ring_len n rd wr < n"
  by (simp add: ring_len_def)

lemma ring_push:
  assumes "rd < n" "wr < n" "(wr + 1) mod n \<noteq> rd"
  shows "ring_items n (buf(wr := x)) rd ((wr + 1) mod n) = ring_items n buf rd wr @ [x]"
proof -
  have len: "ring_len n rd ((wr + 1) mod n) = Suc (ring_len n rd wr)"
    using assms unfolding ring_next [OF assms(2)] by (auto simp: ring_len_eq split: if_splits)
  have idx: "(rd + i) mod n = wr \<longleftrightarrow> i = ring_len n rd wr" if "i \<le> ring_len n rd wr" for i
  proof -
    have "i < n" using that ring_len_less [OF assms(1,2)] by linarith
    then show ?thesis using that assms(1,2) by (auto simp: ring_mod ring_len_eq split: if_splits)
  qed
  show ?thesis unfolding ring_items_def len using idx by auto
qed

lemma ring_pop:
  assumes "rd < n" "wr < n" "rd \<noteq> wr"
  shows "ring_items n buf rd wr = buf rd # ring_items n buf ((rd + 1) mod n) wr"
proof -
  have len: "ring_len n rd wr = Suc (ring_len n ((rd + 1) mod n) wr)"
    using assms unfolding ring_next [OF assms(1)] by (auto simp: ring_len_eq split: if_splits)
  show ?thesis
    unfolding ring_items_def len upt_conv_Cons [OF zero_less_Suc] map_Suc_upt [symmetric]
    using assms(1) by (auto simp: mod_simps ac_simps)
qed

lemma ring_empty: "ring_items n buf rd rd = []"
  by (simp add: ring_items_def ring_len_def)

section \<open>The ring buffer is such a queue\<close>

definition kbd_inv :: "kbd_state \<Rightarrow> bool" where
  "kbd_inv s \<longleftrightarrow> KEYBUF_HEAD s < KEYBUF_SIZE \<and> KEYBUF_TAIL s < KEYBUF_SIZE"

definition kbd_queue :: "kbd_state \<Rightarrow> u8 list" where
  "kbd_queue s = ring_items KEYBUF_SIZE (KEYBUF s) (KEYBUF_TAIL s) (KEYBUF_HEAD s)"

lemma push_buf_queue:
  assumes inv: "kbd_inv s"
  shows "kbd_inv (push_buf c s) \<and>
    kbd_queue (push_buf c s) = (if length (kbd_queue s) < 255 then kbd_queue s @ [c] else kbd_queue s)"
proof -
  have r: "KEYBUF_TAIL s < 256" "KEYBUF_HEAD s < 256" using inv by (simp_all add: kbd_inv_def)
  have l: "length (kbd_queue s) = ring_len 256 (KEYBUF_TAIL s) (KEYBUF_HEAD s)" by (simp add: kbd_queue_def ring_items_def)
  show ?thesis
    using r ring_full [OF r] ring_push [OF r] ring_len_less [OF r] unfolding l
    by (auto simp: push_buf_def Let_def kbd_inv_def kbd_queue_def)
qed

lemma pop_buf_queue:
  assumes inv: "kbd_inv s"
  shows "kbd_inv (snd (pop_buf s)) \<and>
    (case kbd_queue s of [] \<Rightarrow> pop_buf s = (None, s)
     | x # xs \<Rightarrow> fst (pop_buf s) = Some x \<and> kbd_queue (snd (pop_buf s)) = xs)"
proof -
  have r: "KEYBUF_TAIL s < 256" "KEYBUF_HEAD s < 256" using inv by (simp_all add: kbd_inv_def)
  show ?thesis
  proof (cases "KEYBUF_TAIL s = KEYBUF_HEAD s")
    case True
    then show ?thesis using r by (simp add: pop_buf_def kbd_inv_def kbd_queue_def ring_empty)
  next
    case False
    then show ?thesis
      unfolding kbd_queue_def ring_pop [OF r False] using r by (simp add: pop_buf_def Let_def kbd_inv_def)
  qed
qed

interpretation kb: bounded_queue kbd_inv kbd_queue 255 push_buf pop_buf
  using push_buf_queue pop_buf_queue by unfold_locales blast+

section \<open>Typing\<close>

lemma push_buf_flags [simp]:
  "SHIFT (push_buf c s) = SHIFT s" "EXTENDED (push_buf c s) = EXTENDED s" "ps2 (push_buf c s) = ps2 s"
  "INIT_DONE (push_buf c s) = INIT_DONE s"
  "push_buf c (s\<lparr>SHIFT := b\<rparr>) = (push_buf c s)\<lparr>SHIFT := b\<rparr>"
  "push_buf c (s\<lparr>EXTENDED := b\<rparr>) = (push_buf c s)\<lparr>EXTENDED := b\<rparr>"
  "push_buf c (s\<lparr>ps2 := l\<rparr>) = (push_buf c s)\<lparr>ps2 := l\<rparr>"
  by (simp_all add: push_buf_def Let_def)

lemma kbd_queue_flags [simp]:
  "kbd_queue (s\<lparr>SHIFT := b\<rparr>) = kbd_queue s" "kbd_queue (s\<lparr>EXTENDED := b\<rparr>) = kbd_queue s"
  "kbd_queue (s\<lparr>ps2 := l\<rparr>) = kbd_queue s"
  "kbd_inv (s\<lparr>SHIFT := b\<rparr>) = kbd_inv s" "kbd_inv (s\<lparr>EXTENDED := b\<rparr>) = kbd_inv s"
  "kbd_inv (s\<lparr>ps2 := l\<rparr>) = kbd_inv s"
  by (simp_all add: kbd_queue_def ring_items_def ring_len_def kbd_inv_def)

lemma handle_scancode_ps2 [simp]:
  "ps2 (handle_scancode c s) = ps2 s"
  "INIT_DONE (handle_scancode c s) = INIT_DONE s"
  "handle_scancode c (s\<lparr>ps2 := l\<rparr>) = (handle_scancode c s)\<lparr>ps2 := l\<rparr>"
  by (simp_all add: handle_scancode_def Let_def)

lemma handle_scancode_inv: "kbd_inv s \<Longrightarrow> kbd_inv (handle_scancode c s)"
  using push_buf_queue by (simp add: handle_scancode_def Let_def)

text \<open>The keyboard bytes among those the controller holds.\<close>

definition kbd_bytes :: "(bool \<times> u8) list \<Rightarrow> u8 list" where
  "kbd_bytes l = map snd (filter (\<lambda>x. \<not> fst x) l)"

lemma poll_loop_all:
  "length (ps2 s) \<le> n \<Longrightarrow> poll_loop n s = (fold handle_scancode (kbd_bytes (ps2 s)) s)\<lparr>ps2 := []\<rparr>"
proof (induction n arbitrary: s)
  case (Suc n)
  have comm: "fold handle_scancode xs (s\<lparr>ps2 := l\<rparr>) = (fold handle_scancode xs s)\<lparr>ps2 := l\<rparr>" for xs s l
    by (induction xs arbitrary: s) auto
  show ?case
  proof (cases "ps2 s")
    case (Cons x rest)
    obtain aux code where x: "x = (aux, code)" by fastforce
    show ?thesis
      using Suc.IH [of "s\<lparr>ps2 := rest\<rparr>"] Suc.IH [of "(handle_scancode code s)\<lparr>ps2 := rest\<rparr>"] Suc.prems
      by (cases aux) (simp_all add: Cons x kbd_bytes_def Let_def comm)
  qed (simp add: kbd_bytes_def)
qed (simp add: kbd_bytes_def)

text \<open>One key press and release, possibly with the left shift key held around it.\<close>

record stroke =
  shifted :: bool
  make_code :: u8

definition stroke_ok :: "stroke \<Rightarrow> bool" where
  "stroke_ok k \<longleftrightarrow> make_code k < 0x80 \<and> make_code k \<notin> {0x2A, 0x36, 0x5B, 0x5C, 0x60}"

definition stroke_bytes :: "stroke \<Rightarrow> u8 list" where
  "stroke_bytes k =
     (if shifted k then [0x2A, make_code k, make_code k OR 0x80, 0xAA] else [make_code k, make_code k OR 0x80])"

definition stroke_char :: "stroke \<Rightarrow> u8" where
  "stroke_char k = (if shifted k then SHIFT_MAP else NORMAL_MAP) ! unat (make_code k)"

definition typed :: "stroke list \<Rightarrow> u8 list" where
  "typed ks = filter (\<lambda>c. c \<noteq> 0) (map stroke_char ks)"

lemma make_masks:
  assumes "m < (0x80 :: u8)"
  shows "m AND 0x80 = 0" "m AND 0x7F = m" "(m OR 0x80) AND 0x80 = 0x80" "(m OR 0x80) AND 0x7F = m"
proof -
  have m: "unat m < 128" using assms by (simp add: word_less_nat_alt)
  have t: "take_bit 7 m = m"
    using m by (simp add: word_unat_eq_iff unsigned_take_bit_eq take_bit_nat_eq_self)
  then show seven: "m AND 0x7F = m" by (simp add: take_bit_eq_mask mask_eq_exp_minus_1)
  have "m AND 0x80 = (m AND 0x7F) AND 0x80" by (simp add: seven)
  also have "\<dots> = 0" by (simp add: and.assoc)
  finally show zero: "m AND 0x80 = 0" .
  show "(m OR 0x80) AND 0x80 = 0x80" "(m OR 0x80) AND 0x7F = m"
    by (simp_all add: bit.conj_disj_distrib2 zero seven)
qed

lemma stroke_release:
  assumes "stroke_ok k"
  shows "make_code k OR 0x80 \<notin> {0xE0, 0x5B, 0x5C, 0x2A, 0x36, 0xAA, 0xB6}"
proof -
  have lt: "make_code k < 0x80" using assms by (simp add: stroke_ok_def)
  show ?thesis
  proof
    assume "make_code k OR 0x80 \<in> {0xE0, 0x5B, 0x5C, 0x2A, 0x36, 0xAA, 0xB6}"
    then obtain c where c: "make_code k OR 0x80 = c" "c \<in> {0xE0, 0x5B, 0x5C, 0x2A, 0x36, 0xAA, 0xB6}" by blast
    then have "c AND 0x80 = 0x80" "make_code k = c AND 0x7F" using make_masks [OF lt] by auto
    then show False using c(2) assms by (auto simp: stroke_ok_def)
  qed
qed

lemma handle_stroke:
  assumes k: "stroke_ok k" and s: "\<not> SHIFT s" "\<not> EXTENDED s"
  shows "fold handle_scancode (stroke_bytes k) s =
    (if stroke_char k \<noteq> 0 then push_buf (stroke_char k) s else s)"
proof -
  have m: "make_code k \<notin> {0xE0, 0xAA, 0xB6, 0x2A, 0x36, 0x5B, 0x5C}"
    using k by (auto simp: stroke_ok_def word_less_nat_alt)
  have lt: "make_code k < 0x80" using k by (simp add: stroke_ok_def)
  have press: "handle_scancode (make_code k) t =
      (let ch = (if SHIFT t then SHIFT_MAP else NORMAL_MAP) ! unat (make_code k)
       in if ch \<noteq> 0 then push_buf ch t else t)" if "\<not> EXTENDED t" for t
    using m that by (simp add: handle_scancode_def make_masks [OF lt])
  have release: "handle_scancode (make_code k OR 0x80) t = t" if "\<not> EXTENDED t" for t
    using stroke_release [OF k] that make_masks(3) [OF lt] by (simp add: handle_scancode_def)
  have down: "handle_scancode 0x2A t = t\<lparr>SHIFT := True\<rparr>" and up: "handle_scancode 0xAA t = t\<lparr>SHIFT := False\<rparr>"
    for t by (simp_all add: handle_scancode_def)
  have id: "t\<lparr>SHIFT := False\<rparr> = t" if "\<not> SHIFT t" for t :: kbd_state using that by simp
  show ?thesis
    using s by (simp add: stroke_bytes_def press release down up Let_def stroke_char_def id)
qed

lemma handle_strokes:
  assumes "list_all stroke_ok ks" "\<not> SHIFT s" "\<not> EXTENDED s"
  shows "fold handle_scancode (concat (map stroke_bytes ks)) s = fold push_buf (typed ks) s"
  using assms
proof (induction ks arbitrary: s)
  case (Cons k ks)
  then show ?case by (simp add: typed_def handle_stroke)
qed (simp add: typed_def)

fun read_keys :: "nat \<Rightarrow> kbd_state \<Rightarrow> u8 list" where
  "read_keys 0 s = []"
| "read_keys (Suc n) s = (case read_key s of (None, s) \<Rightarrow> [] | (Some c, s) \<Rightarrow> c # read_keys n s)"

lemma pop_buf_flags: "pop_buf s = (r, s') \<Longrightarrow> ps2 s' = ps2 s \<and> INIT_DONE s' = INIT_DONE s"
  by (auto simp: pop_buf_def Let_def split: if_splits)

lemma poll_idle: "INIT_DONE s \<Longrightarrow> ps2 s = [] \<Longrightarrow> poll s = s"
  by (simp add: poll_def poll_loop_all kbd_bytes_def)

lemma read_keys_idle:
  "kbd_inv s \<Longrightarrow> INIT_DONE s \<Longrightarrow> ps2 s = [] \<Longrightarrow> read_keys n s = take n (kbd_queue s)"
proof (induction n arbitrary: s)
  case (Suc n)
  obtain r s' where p: "pop_buf s = (r, s')" by fastforce
  have f: "kbd_inv s'" "INIT_DONE s'" "ps2 s' = []"
    using pop_buf_queue [OF Suc.prems(1)] pop_buf_flags [OF p] Suc.prems p by auto
  show ?case
    using pop_buf_queue [OF Suc.prems(1)] p Suc.IH [OF f] Suc.prems
    by (cases "kbd_queue s") (auto simp: read_key_def poll_idle)
qed simp

lemma read_keys_poll:
  assumes "kbd_inv (poll s)" "INIT_DONE (poll s)" "ps2 (poll s) = []"
  shows "read_keys n s = take n (kbd_queue (poll s))"
proof (cases n)
  case (Suc m)
  have "read_key s = read_key (poll s)" by (simp add: read_key_def poll_idle assms)
  then show ?thesis using read_keys_idle [OF assms, of n] Suc by simp
qed simp

section \<open>Properties\<close>

text \<open>
  C37: The ring buffer is a bounded first-in first-out queue: after any sequence of pushes onto a
  well-formed buffer the characters come out in order, the oldest first, and exactly those are
  lost that did not fit into the 255 usable slots.
\<close>

theorem keyboard_ring_fifo:
  assumes "kbd_inv s"
  shows "fst (kb.drain n (fold push_buf cs s)) =
    take n (kbd_queue s @ take (255 - length (kbd_queue s)) cs)"
  using kb.push_all [OF assms, of cs] kb.drain_queue [of "fold push_buf cs s" n] by simp

text \<open>
  What is typed is what is read. If the controller holds the scancodes of a sequence of key
  strokes (with or without shift, possibly interleaved with mouse bytes, at most 64 bytes in all), then
  \<open>read_key\<close> called repeatedly on an empty buffer returns exactly the characters of the strokes in order;
  keys without a character contribute nothing.
\<close>

theorem keyboard_typing:
  assumes "kbd_inv s" "INIT_DONE s" "kbd_queue s = []" "\<not> SHIFT s" "\<not> EXTENDED s"
    and "list_all stroke_ok ks" "kbd_bytes (ps2 s) = concat (map stroke_bytes ks)" "length (ps2 s) \<le> 64"
  shows "read_keys n s = take n (typed ks)"
proof -
  have p: "poll s = (fold push_buf (typed ks) s)\<lparr>ps2 := []\<rparr>"
    using assms by (simp add: poll_def poll_loop_all handle_strokes)
  have "length ks \<le> length (concat (map stroke_bytes ks))"
    by (induction ks) (auto simp: stroke_bytes_def)
  also have "\<dots> \<le> 64"
    unfolding assms(7) [symmetric] kbd_bytes_def length_map
    using length_filter_le [of "\<lambda>x. \<not> fst x" "ps2 s"] assms(8) by linarith
  finally have "length (typed ks) \<le> 64"
    unfolding typed_def by (metis le_trans length_filter_le length_map)
  then have q: "kbd_inv (poll s)" "kbd_queue (poll s) = typed ks"
    using kb.push_all [OF assms(1), of "typed ks"] assms(3) by (auto simp: p)
  have "INIT_DONE (fold push_buf xs s)" for xs
    using assms(2) by (induction xs arbitrary: s) auto
  then show ?thesis using read_keys_poll [of s n] q p by simp
qed


definition demo_kbd :: kbd_state where
  "demo_kbd = \<lparr>KEYBUF = \<lambda>_. 0, KEYBUF_HEAD = 250, KEYBUF_TAIL = 250, INIT_DONE = True, SHIFT = False,
     EXTENDED = False, ps2 = map (Pair False) [0x2A, 0x23, 0xA3, 0xAA, 0x17] @ [(True, 8)] @ [(False, 0x97)]\<rparr>"

theorem keyboard_ring_fifo_witness:
  "fst (kb.drain 3 (fold push_buf [1, 2, 3, 4] demo_kbd)) = [1, 2, 3]"
  using keyboard_ring_fifo [of demo_kbd 3 "[1, 2, 3, 4]"]
  by (simp add: demo_kbd_def kbd_inv_def kbd_queue_def ring_items_def ring_len_def)

text \<open>Shift+H, then i (with a mouse byte in between), across the end of the ring.\<close>

theorem keyboard_typing_witness: "read_keys 5 demo_kbd = map of_char ''Hi''"
  using keyboard_typing [of demo_kbd "[\<lparr>shifted = True, make_code = 0x23\<rparr>, \<lparr>shifted = False, make_code = 0x17\<rparr>]" 5]
  by (simp add: demo_kbd_def kbd_inv_def kbd_queue_def ring_items_def ring_len_def stroke_ok_def stroke_bytes_def
      kbd_bytes_def typed_def stroke_char_def NORMAL_MAP_def SHIFT_MAP_def char_map_def row_def upt_rec)

end
