(* ===== verification/Process.thy ===== *)
theory Process
  imports Paging Ramfs Keyboard
begin

unbundle bit_operations_syntax

text \<open>
  Processes of \<open>src/kernel/src/syscall.rs\<close>: the process table, descriptor tables, creation of
  processes and the tracking of their frames.

  The kernel state extends the frame allocator's record, so that the allocator, \<open>map_page\<close> and the
  code here work on one memory. Addresses that the linker chooses (the static page tables and
  stacks) are the argument \<open>L\<close> of the operations that use them.

  A context switch leaves one process inside the kernel and continues another one where it left
  off. What a suspended process will do when it gets the CPU back is the ghost field \<open>CONT\<close>
  (its kernel stack), and \<open>RAX\<close> is the value its last system call returned to it. An operation that may
  give up the CPU yields an \<open>outcome\<close>: it returns, it has switched to another process, or it
  executes \<open>hlt\<close> with interrupts disabled because nobody can run.
  \<open>None\<close> stands for a Rust panic, a page fault taken in kernel mode, or a loop that does not end.
\<close>

section \<open>State\<close>

abbreviation MAX_PROCESSES :: nat where "MAX_PROCESSES \<equiv> 64"
abbreviation MAX_FDS :: nat where "MAX_FDS \<equiv> 16"
abbreviation IPC_MESSAGE_SIZE :: nat where "IPC_MESSAGE_SIZE \<equiv> 64"
abbreviation EPHEMERAL_BASE :: u64 where "EPHEMERAL_BASE \<equiv> 0x0000100000000000"
abbreviation EPHEMERAL_BYTES_PER_PROCESS :: u64 where "EPHEMERAL_BYTES_PER_PROCESS \<equiv> 0x1000000"
abbreviation KERNEL_STACK_BYTES :: u64 where "KERNEL_STACK_BYTES \<equiv> 0x4000"
abbreviation USER_STACK_BYTES :: u64 where "USER_STACK_BYTES \<equiv> 0x10000"

type_synonym i64 = "64 word"

abbreviation ERR_INVALID_SYSCALL :: i64 where "ERR_INVALID_SYSCALL \<equiv> - 1"
abbreviation ERR_INVALID_PROCESS :: i64 where "ERR_INVALID_PROCESS \<equiv> - 2"
abbreviation ERR_NO_CAPACITY :: i64 where "ERR_NO_CAPACITY \<equiv> - 3"
abbreviation ERR_INVALID_POINTER :: i64 where "ERR_INVALID_POINTER \<equiv> - 4"
abbreviation ERR_OUT_OF_MEMORY :: i64 where "ERR_OUT_OF_MEMORY \<equiv> - 5"
abbreviation ERR_UNSUPPORTED :: i64 where "ERR_UNSUPPORTED \<equiv> - 38"

datatype process_state = Empty | Runnable | BlockedOnSend u64 | BlockedOnReceive | BlockedOnReply u64 | Exited

record pcb =
  pcb_id :: u64
  pcb_state :: process_state
  page_table_base :: u64
  entry :: u64
  user_stack :: u64
  layer_base :: u64
  layer_size :: u64
  next_free :: u64
  frames_head :: u64
  ipc_buffer :: u64
  ipc_peer :: u64
  saved_rsp :: u64
  kernel_stack_top :: u64
  exit_code :: u64
  switch_count :: u64
  start_tick :: u64

definition pcb_empty :: pcb where
  "pcb_empty = \<lparr>pcb_id = 0, pcb_state = Empty, page_table_base = 0, entry = 0, user_stack = 0,
     layer_base = 0, layer_size = 0, next_free = 0, frames_head = 0, ipc_buffer = 0, ipc_peer = 0,
     saved_rsp = 0, kernel_stack_top = 0, exit_code = 0, switch_count = 0, start_tick = 0\<rparr>"

definition is_live :: "pcb \<Rightarrow> bool" where
  "is_live p \<longleftrightarrow> \<not> (pcb_state p = Empty \<or> pcb_state p = Exited)"

definition checked_add :: "u64 \<Rightarrow> u64 \<Rightarrow> u64 option" where
  "checked_add a b = (if unat a + unat b < 2 ^ 64 then Some (a + b) else None)"

definition contains_range :: "pcb \<Rightarrow> u64 \<Rightarrow> u64 \<Rightarrow> bool" where
  "contains_range p ptr len =
     (case checked_add ptr len of
        None \<Rightarrow> False
      | Some e \<Rightarrow> layer_base p \<le> ptr \<and> e \<le> layer_base p + layer_size p)"

datatype fd_kind = FdFree | ConsoleOut | ConsoleIn | FdFile

record fd_entry =
  fd_kind_of :: fd_kind
  inode :: nat
  fd_offset :: u64
  fd_flags :: u32

definition fd_free :: fd_entry where
  "fd_free = \<lparr>fd_kind_of = FdFree, inode = 0, fd_offset = 0, fd_flags = 0\<rparr>"

text \<open>Where a process continues when it is switched to.\<close>

datatype kcont =
    K_user                \<comment> \<open>running outside the kernel\<close>
  | K_boot                \<comment> \<open>first switch: \<open>task_bootstrap\<close>\<close>
  | K_return              \<comment> \<open>\<open>switch_context\<close> was the last thing an interrupt or \<open>run_slot\<close> did\<close>
  | K_zero                \<comment> \<open>a system call that returns 0 after the switch\<close>
  | K_receive             \<comment> \<open>\<open>receive_ipc\<close>, returns the peer\<close>
  | K_input u64 u64 nat   \<comment> \<open>\<open>sys_input(buf, maxlen)\<close> with \<open>pos\<close> characters read\<close>

text \<open>Calls into the terminal and the graphics code.\<close>

datatype console_event =
    Put u8
  | Clear
  | Set_cursor u32 u32
  | Set_colors "u8 \<times> u8 \<times> u8" "u8 \<times> u8 \<times> u8"
  | Reset_system
  | Draw_pixel u32 u32 "u8 \<times> u8 \<times> u8"
  | Draw_line u32 u32 u32 u32 "u8 \<times> u8 \<times> u8"
  | Draw_rect u32 u32 u32 u32 "u8 \<times> u8 \<times> u8" bool
  | Draw_circle u32 u32 u32 "u8 \<times> u8 \<times> u8" bool
  | Clear_screen "u8 \<times> u8 \<times> u8"
  | Set_font_scale u32

record kernel = frame_state +
  PROCESS_TABLE :: "nat \<Rightarrow> pcb"
  FD_TABLES :: "nat \<Rightarrow> nat \<Rightarrow> fd_entry"
  CURRENT_PROCESS_ID :: nat
  PROCESS_TABLE_READY :: bool
  SCHEDULER_TICK :: u64
  TICK_COUNT :: u64
  PREEMPT_QUANTUM :: u64
  cr3 :: u64
  cpu_rsp :: u64
  percpu_kernel_rsp :: u64
  CONT :: "nat \<Rightarrow> kcont"
  RAX :: "nat \<Rightarrow> i64"
  fsys :: fs_state
  kbd :: kbd_state
  console :: "console_event list"
  screen :: "u32 \<times> u32 \<times> u32"

record layout =
  PROCESS_PML4_at :: "nat \<Rightarrow> u64"
  KERNEL_STACKS_at :: "nat \<Rightarrow> u64"
  USER_STACKS_at :: "nat \<Rightarrow> u64"
  task_bootstrap_at :: u64
  cr0_wp :: bool

datatype outcome = Ret i64 | Switched | Halted

definition upd_pcb :: "nat \<Rightarrow> (pcb \<Rightarrow> pcb) \<Rightarrow> kernel \<Rightarrow> kernel" where
  "upd_pcb i f s = s\<lparr>PROCESS_TABLE := (PROCESS_TABLE s)(i := f (PROCESS_TABLE s i))\<rparr>"

abbreviation cur :: "kernel \<Rightarrow> pcb" where
  "cur s \<equiv> PROCESS_TABLE s (CURRENT_PROCESS_ID s)"

section \<open>Descriptor tables\<close>

definition set_fd :: "nat \<Rightarrow> nat \<Rightarrow> fd_entry \<Rightarrow> kernel \<Rightarrow> kernel" where
  "set_fd pid fd e s = s\<lparr>FD_TABLES := (FD_TABLES s)(pid := (FD_TABLES s pid)(fd := e))\<rparr>"

definition init_fd_table :: "nat \<Rightarrow> kernel \<Rightarrow> kernel" where
  "init_fd_table pid s =
     (let console_in = \<lparr>fd_kind_of = ConsoleIn, inode = 0, fd_offset = 0, fd_flags = 0\<rparr>;
          console_out = \<lparr>fd_kind_of = ConsoleOut, inode = 0, fd_offset = 0, fd_flags = 0\<rparr>
      in fold (\<lambda>i. set_fd pid i fd_free) [3..<MAX_FDS]
           (set_fd pid 2 console_out (set_fd pid 1 console_out (set_fd pid 0 console_in s))))"

definition find_free_fd :: "nat \<Rightarrow> kernel \<Rightarrow> nat option" where
  "find_free_fd pid s = find_first (\<lambda>i. fd_kind_of (FD_TABLES s pid i) = FdFree) [0..<MAX_FDS]"

definition clear_fd_table :: "nat \<Rightarrow> kernel \<Rightarrow> kernel" where
  "clear_fd_table pid s = fold (\<lambda>i. set_fd pid i fd_free) [0..<MAX_FDS] s"

section \<open>Frames of a process\<close>

definition track_frame :: "nat \<Rightarrow> u64 \<Rightarrow> kernel \<Rightarrow> kernel" where
  "track_frame pid phys s =
     upd_pcb pid (\<lambda>p. p\<lparr>frames_head := phys\<rparr>)
       (s\<lparr>kmem := write_u64 (kmem s) phys (frames_head (PROCESS_TABLE s pid))\<rparr>)"

partial_function (option) free_frames_from :: "u64 \<Rightarrow> kernel \<Rightarrow> kernel option" where
  "free_frames_from frame s =
     (if frame \<noteq> 0 then
        let next = read_u64 (kmem s) frame in free_frames_from next (free_frame frame s)
      else Some s)"

declare free_frames_from.simps [code]

definition free_process_frames :: "nat \<Rightarrow> kernel \<Rightarrow> kernel res" where
  "free_process_frames pid s =
     do {
       s \<leftarrow> free_frames_from (frames_head (PROCESS_TABLE s pid)) s;
       Some (upd_pcb pid (\<lambda>p. p\<lparr>frames_head := 0\<rparr>) s)
     }"

section \<open>Process creation\<close>

definition align16_down :: "u64 \<Rightarrow> u64" where
  "align16_down a = a AND NOT 0xF"

definition kernel_stack_top_of :: "layout \<Rightarrow> nat \<Rightarrow> u64" where
  "kernel_stack_top_of L i = align16_down (KERNEL_STACKS_at L i + KERNEL_STACK_BYTES)"

definition user_stack_top :: "layout \<Rightarrow> nat \<Rightarrow> u64" where
  "user_stack_top L i = align16_down (USER_STACKS_at L i + USER_STACK_BYTES)"

text \<open>\<open>context::prepare_initial_stack\<close>: the frame that the first switch pops.\<close>

definition prepare_initial_stack :: "u64 \<Rightarrow> u64 \<Rightarrow> memory \<Rightarrow> u64 \<times> memory" where
  "prepare_initial_stack stack_top_raw bootstrap m =
     (let top = align16_down stack_top_raw;
          entry_rsp = top - 8;
          saved = entry_rsp - 64
      in (saved, fold (\<lambda>(i, v) m. write_u64 m (saved + 8 * i) v)
                   [(0, 2), (1, 0), (2, 0), (3, 0), (4, 0), (5, 0), (6, 0), (7, bootstrap)] m))"

definition init_process_manager :: "layout \<Rightarrow> kernel \<Rightarrow> kernel" where
  "init_process_manager L s =
     (if PROCESS_TABLE_READY s then s
      else
        let s = upd_pcb 0 (\<lambda>_. pcb_empty\<lparr>pcb_state := Runnable, page_table_base := cr3 s,
                  layer_base := EPHEMERAL_BASE, layer_size := EPHEMERAL_BYTES_PER_PROCESS,
                  next_free := EPHEMERAL_BASE, kernel_stack_top := kernel_stack_top_of L 0\<rparr>) s;
            s = init_fd_table 0 s
        in s\<lparr>CURRENT_PROCESS_ID := 0, PROCESS_TABLE_READY := True\<rparr>)"

definition find_free_slot :: "kernel \<Rightarrow> nat option" where
  "find_free_slot s =
     find_first (\<lambda>i. pcb_state (PROCESS_TABLE s i) = Empty \<or> pcb_state (PROCESS_TABLE s i) = Exited)
       [1..<MAX_PROCESSES]"

definition install_pcb :: "layout \<Rightarrow> nat \<Rightarrow> u64 \<Rightarrow> u64 \<Rightarrow> u64 \<Rightarrow> u64 \<Rightarrow> u64 \<Rightarrow> kernel \<Rightarrow> kernel" where
  "install_pcb L i ent pt ustack base sz s =
     (let kstack_top = kernel_stack_top_of L i;
          (rsp, m) = prepare_initial_stack kstack_top (task_bootstrap_at L) (kmem s);
          s = upd_pcb i (\<lambda>_. \<lparr>pcb_id = word_of_nat i, pcb_state = Runnable, page_table_base = pt,
                entry = ent, user_stack = ustack, layer_base = base, layer_size = sz, next_free = base,
                frames_head = 0, ipc_buffer = 0, ipc_peer = 0, saved_rsp = rsp,
                kernel_stack_top = kstack_top, exit_code = 0, switch_count = 0,
                start_tick = TICK_COUNT s\<rparr>) (s\<lparr>kmem := m, CONT := (CONT s)(i := K_boot)\<rparr>)
      in init_fd_table i s)"

definition provision_pcb :: "layout \<Rightarrow> nat \<Rightarrow> u64 \<Rightarrow> u64 \<Rightarrow> u64 \<Rightarrow> kernel \<Rightarrow> kernel" where
  "provision_pcb L i ent pt ustack s =
     install_pcb L i ent pt ustack (EPHEMERAL_BASE + word_of_nat i * EPHEMERAL_BYTES_PER_PROCESS)
       EPHEMERAL_BYTES_PER_PROCESS s"

definition provision_pcb_elf :: "layout \<Rightarrow> nat \<Rightarrow> u64 \<Rightarrow> u64 \<Rightarrow> u64 \<Rightarrow> u64 \<Rightarrow> u64 \<Rightarrow> kernel \<Rightarrow> kernel" where
  "provision_pcb_elf L i ent pt ustack code_base code_size s =
     install_pcb L i ent pt ustack code_base code_size s"

text \<open>\<open>copy_nonoverlapping(src, dst, 512)\<close> of table entries.\<close>

definition clone_current_pml4_for :: "layout \<Rightarrow> nat \<Rightarrow> kernel \<Rightarrow> kernel" where
  "clone_current_pml4_for L pid s =
     s\<lparr>kmem := mwrite (kmem s) (PROCESS_PML4_at L pid) (mread (kmem s) (page_down (cr3 s)) 4096)\<rparr>"

definition process_pml4_phys :: "layout \<Rightarrow> nat \<Rightarrow> u64" where
  "process_pml4_phys L pid = PROCESS_PML4_at L pid"

definition create_process :: "layout \<Rightarrow> u64 \<Rightarrow> kernel \<Rightarrow> i64 \<times> kernel" where
  "create_process L ent s =
     (case find_free_slot s of
        None \<Rightarrow> (ERR_NO_CAPACITY, s)
      | Some i \<Rightarrow>
          let s = clone_current_pml4_for L i s
          in (word_of_nat i, provision_pcb L i ent (process_pml4_phys L i) (user_stack_top L i) s))"

definition create_thread :: "layout \<Rightarrow> u64 \<Rightarrow> u64 \<Rightarrow> kernel \<Rightarrow> i64 \<times> kernel" where
  "create_thread L ent stack s =
     (let (pid, s) = create_process L ent s
      in if sint pid < 0 then (pid, s)
      else if stack \<noteq> 0 then
        if \<not> contains_range (PROCESS_TABLE s (unat pid)) stack 1 then
          (ERR_INVALID_POINTER, upd_pcb (unat pid) (\<lambda>p. p\<lparr>pcb_state := Exited\<rparr>) s)
        else (pid, upd_pcb (unat pid) (\<lambda>p. p\<lparr>user_stack := stack\<rparr>) s)
      else (pid, s))"

text \<open>
  \<open>spawn_initial_user\<close>: the two code pages are fresh frames that receive a copy of the kernel's
  own pages, the user stack is mapped page by page. The boot messages are left out.
\<close>

partial_function (option) spawn_map ::
  "bool \<Rightarrow> bool \<Rightarrow> nat \<Rightarrow> u64 \<Rightarrow> u64 \<Rightarrow> u64 \<Rightarrow> kernel \<Rightarrow> (bool \<times> kernel) option" where
  "spawn_map copy writable i pml4 va e s =
     (if va < e then
        (case alloc_frame s of (r, s) \<Rightarrow>
          (case r of
             None \<Rightarrow> Some (False, s)
           | Some phys \<Rightarrow>
               (case map_page pml4 va phys writable True s of (ok, s) \<Rightarrow>
                  if \<not> ok then Some (False, s)
                  else
                    let s = track_frame i phys s;
                        s = (if copy then s\<lparr>kmem := mwrite (kmem s) phys (mread (kmem s) va 4096)\<rparr> else s)
                    in spawn_map copy writable i pml4 (va + 0x1000) e s)))
      else Some (True, s))"

declare spawn_map.simps [code]

definition spawn_initial_user :: "layout \<Rightarrow> u64 \<Rightarrow> kernel \<Rightarrow> (i64 \<times> kernel) res" where
  "spawn_initial_user L ent s =
     (case find_free_slot s of
        None \<Rightarrow> Some (ERR_NO_CAPACITY, s)
      | Some i \<Rightarrow>
          let s = clone_current_pml4_for L i s;
              pml4 = process_pml4_phys L i;
              s = provision_pcb L i ent pml4 (user_stack_top L i) s;
              code_page = page_down ent;
              code_end = page_down (code_page + 0x2000)
          in do {
            (ok, s) \<leftarrow> spawn_map True False i pml4 code_page code_end s;
            if \<not> ok then Some (ERR_OUT_OF_MEMORY, s)
            else
              let stack_base = USER_STACKS_at L i;
                  stack_start = page_down stack_base;
                  stack_end = page_down (stack_base + USER_STACK_BYTES + 0xFFF)
              in do {
                (ok, s) \<leftarrow> spawn_map False True i pml4 stack_start stack_end s;
                Some (if ok then word_of_nat i else ERR_OUT_OF_MEMORY, s)
              }
          })"

end
