(* ===== verification/Layer.thy ===== *)
theory Layer
  imports Process
begin

unbundle bit_operations_syntax

text \<open>
  The memory of a process (\<open>src/kernel/src/syscall.rs\<close>): allocation in its layer, the list of its
  frames and their reclamation, and the bounds that user pointers are checked against.
\<close>

section \<open>Memory of the process layer\<close>

definition align_up :: "u64 \<Rightarrow> u64 \<Rightarrow> u64" where
  "align_up value alignment = (value + alignment - 1) AND NOT (alignment - 1)"

partial_function (option) map_layer :: "nat \<Rightarrow> u64 \<Rightarrow> u64 \<Rightarrow> u64 \<Rightarrow> kernel \<Rightarrow> (bool \<times> kernel) option" where
  "map_layer pid pml4 va e s =
     (if va < e then
        (case alloc_frame s of (r, s) \<Rightarrow>
          (case r of
             None \<Rightarrow> Some (False, s)
           | Some phys \<Rightarrow>
               (case map_page pml4 va phys True True (track_frame pid phys s) of (ok, s) \<Rightarrow>
                  if \<not> ok then Some (False, s) else map_layer pid pml4 (va + 4096) e s)))
      else Some (True, s))"

declare map_layer.simps [code]

definition memory_allocate :: "u64 \<Rightarrow> kernel \<Rightarrow> (i64 \<times> kernel) res" where
  "memory_allocate sz s =
     (if sz = 0 then Some (ERR_INVALID_POINTER, s)
      else let pid = CURRENT_PROCESS_ID s; p = PROCESS_TABLE s pid
      in if \<not> is_live p then Some (ERR_INVALID_PROCESS, s)
      else case checked_add (next_free p) (align_up sz 4096) of
             None \<Rightarrow> Some (ERR_OUT_OF_MEMORY, s)
           | Some e \<Rightarrow>
               if e > layer_base p + layer_size p then Some (ERR_OUT_OF_MEMORY, s)
               else do {
                 (ok, s) \<leftarrow> map_layer pid (page_table_base p) (next_free p) e s;
                 Some (if ok then (next_free p, upd_pcb pid (\<lambda>p. p\<lparr>next_free := e\<rparr>) s)
                       else (ERR_OUT_OF_MEMORY, s))
               })"

definition memory_free :: "u64 \<Rightarrow> kernel \<Rightarrow> i64 \<times> kernel" where
  "memory_free addr s = (if contains_range (cur s) addr 1 then 0 else ERR_INVALID_POINTER, s)"


section \<open>Pointer validation\<close>

text \<open>
  A pointer range that passes \<open>contains_range\<close> lies inside the layer, byte for byte, as long as the layer
  itself does not wrap around the address space.
\<close>

definition layer_wf :: "pcb \<Rightarrow> bool" where
  "layer_wf p \<longleftrightarrow> unat (layer_base p) + unat (layer_size p) < 2 ^ 64"

lemma contains_range_bytes:
  assumes "layer_wf p" "contains_range p ptr len" "k < unat len"
  shows "unat (layer_base p) \<le> unat (ptr + word_of_nat k) \<and>
    unat (ptr + word_of_nat k) < unat (layer_base p) + unat (layer_size p)"
proof -
  have nw: "unat ptr + unat len < 2 ^ 64" and lo: "layer_base p \<le> ptr"
    and hi: "ptr + len \<le> layer_base p + layer_size p"
    using assms(2) by (auto simp: contains_range_def checked_add_def split: if_splits)
  have "unat (ptr + len) = unat ptr + unat len"
    using nw by (subst unat_add_lem [THEN iffD1]) auto
  moreover have "unat (layer_base p + layer_size p) = unat (layer_base p) + unat (layer_size p)"
    using assms(1) by (subst unat_add_lem [THEN iffD1]) (auto simp: layer_wf_def)
  moreover have k: "unat (word_of_nat k :: u64) = k" using assms(3) nw by (intro unat_word_of_nat) simp
  then have "unat (ptr + word_of_nat k) = unat ptr + k"
    using nw assms(3) by (subst unat_add_lem [THEN iffD1]) auto
  ultimately show ?thesis
    using lo hi assms(3) by (simp add: word_le_nat_alt)
qed

definition ephemeral_layer :: "nat \<Rightarrow> pcb \<Rightarrow> bool" where
  "ephemeral_layer i p \<longleftrightarrow>
     layer_base p = EPHEMERAL_BASE + word_of_nat i * EPHEMERAL_BYTES_PER_PROCESS \<and>
     layer_size p = EPHEMERAL_BYTES_PER_PROCESS"

lemma ephemeral_layer_bounds:
  assumes "ephemeral_layer i p" "i < MAX_PROCESSES"
  shows "unat (layer_base p) = 0x100000000000 + i * 0x1000000 \<and> unat (layer_size p) = 0x1000000 \<and> layer_wf p"
proof -
  have "unat (word_of_nat i * EPHEMERAL_BYTES_PER_PROCESS) = i * 0x1000000"
    using assms(2) by (subst unat_mult_lem [THEN iffD1]) auto
  then have "unat (layer_base p) = 0x100000000000 + i * 0x1000000"
    using assms by (simp add: ephemeral_layer_def) (subst unat_add_lem [THEN iffD1]; simp)
  then show ?thesis using assms by (simp add: layer_wf_def ephemeral_layer_def)
qed

section \<open>The frame list of a process\<close>

definition owns :: "kernel \<Rightarrow> nat \<Rightarrow> u64 list \<Rightarrow> bool" where
  "owns s pid fs \<longleftrightarrow>
     frame_chain (kmem s) (frames_head (PROCESS_TABLE s pid)) fs \<and> distinct fs \<and>
     set fs \<subseteq> pool_frames s \<and> set fs \<inter> avail_frames s = {}"

lemma upd_pcb_frame [simp]:
  "kmem (upd_pcb i f s) = kmem s" "frame_inv (upd_pcb i f s) = frame_inv s"
  "avail_frames (upd_pcb i f s) = avail_frames s" "pool_frames (upd_pcb i f s) = pool_frames s"
  "PROCESS_TABLE (upd_pcb i f s) j = (if j = i then f (PROCESS_TABLE s i) else PROCESS_TABLE s j)"
  "CURRENT_PROCESS_ID (upd_pcb i f s) = CURRENT_PROCESS_ID s" "FD_TABLES (upd_pcb i f s) = FD_TABLES s"
  "fsys (upd_pcb i f s) = fsys s" "CONT (upd_pcb i f s) = CONT s" "RAX (upd_pcb i f s) = RAX s"
  "cr3 (upd_pcb i f s) = cr3 s" "TICK_COUNT (upd_pcb i f s) = TICK_COUNT s"
  "PREEMPT_QUANTUM (upd_pcb i f s) = PREEMPT_QUANTUM s" "kbd (upd_pcb i f s) = kbd s"
  "console (upd_pcb i f s) = console s"
  by (auto simp: upd_pcb_def frame_inv_def avail_frames_def list_frames_def bump_frames_def pool_frames_def)

lemma free_frame_more [simp]: "frame_state.more (free_frame f s) = frame_state.more s"
  by (simp add: free_frame_def)

lemma free_frame_mem:
  "x \<notin> arange f 4096 \<Longrightarrow> kmem (free_frame f s) x = kmem s x"
  by (auto simp: free_frame_def write_u64_def arange_def intro!: mwrite_outside)

lemma free_frames_from_chain:
  assumes "frame_inv s" "frame_chain (kmem s) h fs" "distinct fs" "set fs \<subseteq> pool_frames s"
    "set fs \<inter> avail_frames s = {}"
  shows "\<exists>s'. free_frames_from h s = Some s' \<and> frame_inv s' \<and> avail_frames s' = avail_frames s \<union> set fs \<and>
    frame_state.more s' = frame_state.more s \<and> pool_frames s' = pool_frames s \<and>
    (\<forall>x. (\<forall>f \<in> set fs. x \<notin> arange f 4096) \<longrightarrow> kmem s' x = kmem s x)"
  using assms
proof (induction fs arbitrary: h s)
  case Nil
  then show ?case by (simp add: free_frames_from.simps)
next
  case (Cons f fs)
  let ?s = "free_frame f s"
  have h: "h = f" "f \<noteq> 0" "frame_chain (kmem s) (read_u64 (kmem s) f) fs" using Cons.prems(2) by auto
  have spec: "frame_inv ?s" "avail_frames ?s = insert f (avail_frames s)"
    using free_frame_spec [of s f] Cons.prems by auto
  have "frame_chain (kmem ?s) (read_u64 (kmem s) f) fs"
    using Cons.prems pool_frames_aligned [of _ s] free_frame_mem [of _ f s]
    by (intro frame_chain_frame_upd [OF h(3), of f]) auto
  then have "\<exists>s'. free_frames_from (read_u64 (kmem s) f) ?s = Some s' \<and> frame_inv s' \<and>
      avail_frames s' = avail_frames ?s \<union> set fs \<and> frame_state.more s' = frame_state.more ?s \<and>
      pool_frames s' = pool_frames ?s \<and>
      (\<forall>x. (\<forall>f \<in> set fs. x \<notin> arange f 4096) \<longrightarrow> kmem s' x = kmem ?s x)"
    using Cons.prems spec by (intro Cons.IH) (auto simp: free_frame_pool)
  then show ?case
    using h spec free_frame_mem [of _ f s]
    by (subst free_frames_from.simps) (auto simp: free_frame_pool Let_def)
qed

lemma more_kernel:
  fixes s s' :: kernel
  assumes "frame_state.more s' = frame_state.more s"
  shows "PROCESS_TABLE s' = PROCESS_TABLE s \<and> FD_TABLES s' = FD_TABLES s \<and>
    CURRENT_PROCESS_ID s' = CURRENT_PROCESS_ID s \<and> CONT s' = CONT s \<and> RAX s' = RAX s \<and>
    cr3 s' = cr3 s \<and> fsys s' = fsys s \<and> kbd s' = kbd s \<and> console s' = console s"
  using assms by (cases s; cases s') simp

lemma free_process_frames_owned:
  assumes "frame_inv s" "owns s pid fs"
  shows "\<exists>s'. free_process_frames pid s = Some s' \<and> frame_inv s' \<and>
    avail_frames s' = avail_frames s \<union> set fs \<and>
    PROCESS_TABLE s' = (PROCESS_TABLE s)(pid := (PROCESS_TABLE s pid)\<lparr>frames_head := 0\<rparr>) \<and>
    FD_TABLES s' = FD_TABLES s \<and> CURRENT_PROCESS_ID s' = CURRENT_PROCESS_ID s \<and>
    CONT s' = CONT s \<and> RAX s' = RAX s \<and> fsys s' = fsys s"
proof -
  obtain s1 where s1: "free_frames_from (frames_head (PROCESS_TABLE s pid)) s = Some s1" "frame_inv s1"
    "avail_frames s1 = avail_frames s \<union> set fs" "frame_state.more s1 = frame_state.more s"
    using free_frames_from_chain [OF assms(1), of "frames_head (PROCESS_TABLE s pid)" fs] assms(2)
    unfolding owns_def by blast
  then show ?thesis
    using more_kernel [OF s1(4)] by (auto simp: free_process_frames_def fun_eq_iff)
qed

text \<open>A tracked frame joins the list; its first eight bytes hold the link.\<close>

lemma track_frame_owns:
  assumes inv: "frame_inv s" and own: "owns s pid fs"
    and f: "f \<in> pool_frames s" "f \<notin> avail_frames s" "f \<notin> set fs"
  shows "frame_inv (track_frame pid f s) \<and> avail_frames (track_frame pid f s) = avail_frames s \<and>
    pool_frames (track_frame pid f s) = pool_frames s \<and> owns (track_frame pid f s) pid (f # fs) \<and>
    read_u64 (kmem (track_frame pid f s)) f = frames_head (PROCESS_TABLE s pid) \<and>
    (\<forall>x. x \<notin> arange f 4096 \<longrightarrow> kmem (track_frame pid f s) x = kmem s x)"
proof -
  let ?h = "frames_head (PROCESS_TABLE s pid)"
  let ?m = "write_u64 (kmem s) f ?h"
  have al: "page_aligned f" "f \<noteq> 0" using pool_frames_aligned [OF f(1)] by auto
  have out: "x \<notin> arange f 4096 \<Longrightarrow> ?m x = kmem s x" for x
    by (auto simp: arange_def intro!: write_u64_outside)
  note up = frame_inv_mem_upd [OF inv al(1) f(2) out]
  have "frame_chain ?m ?h fs"
    using own f al pool_frames_aligned [of _ s]
    by (intro frame_chain_frame_upd [OF _ _ al(1) f(3) out]) (auto simp: owns_def)
  then have "frame_chain ?m f (f # fs)" using al by (simp add: read_write_u64)
  then show ?thesis
    using up own f out by (auto simp: track_frame_def owns_def read_write_u64)
qed

text \<open>Frame lists survive changes outside their frames.\<close>

lemma owns_cong:
  assumes own: "owns s pid fs" and "frames_head (PROCESS_TABLE s' pid) = frames_head (PROCESS_TABLE s pid)"
    and "pool_frames s \<subseteq> pool_frames s'" "avail_frames s' \<subseteq> avail_frames s"
    and m: "\<And>f x. f \<in> set fs \<Longrightarrow> x \<in> arange f 4096 \<Longrightarrow> kmem s' x = kmem s x"
  shows "owns s' pid fs"
proof -
  have "arange f 8 \<subseteq> arange f 4096" for f by (auto simp: arange_def)
  then have "read_u64 (kmem s') f = read_u64 (kmem s) f" if "f \<in> set fs" for f
    using m [OF that] by (intro read_u64_cong) blast
  then have "frame_chain (kmem s') (frames_head (PROCESS_TABLE s pid)) fs"
    using own unfolding owns_def by (blast intro: frame_chain_cong)
  then show ?thesis using assms(2-4) own unfolding owns_def by auto
qed

lemma map_page_owns:
  fixes s :: kernel
  assumes inv: "frame_inv s" and own: "owns s pid fs"
    and path: "distinct (walk_tables (kmem s) pml4 va)" "set (walk_tables (kmem s) pml4 va) \<inter> avail_frames s = {}"
      "set (walk_tables (kmem s) pml4 va) \<inter> set fs = {}"
    and lim: "\<forall>f \<in> avail_frames s. f < 0x10000000000000"
    and mp: "map_page pml4 va phys w u s = (True, s')"
  shows "frame_inv s' \<and> owns s' pid fs \<and> frame_state.more s' = frame_state.more s \<and>
    (\<forall>f \<in> set fs. \<forall>x \<in> arange f 4096. kmem s' x = kmem s x)"
proof -
  note sp = map_page_spec [OF inv path(1,2) lim mp]
  let ?W = "set (walk_tables (kmem s') pml4 va)"
  have W: "?W \<inter> set fs = {}" "\<forall>q \<in> ?W. page_aligned q"
    using sp(4) path(3) own table_path_aligned [OF page_aligned_mask, of _ "kmem s'" pml4 va "[39, 30, 21]"]
    by (auto simp: owns_def walk_tables_def)
  have same: "kmem s' x = kmem s x" if "f \<in> set fs" "x \<in> arange f 4096" for f x
  proof (rule sp(3), intro ballI)
    fix q assume q: "q \<in> ?W"
    then have "arange f 4096 \<inter> arange q 4096 = {}"
      using that W own pool_frames_aligned [of f s] by (intro page_disjoint) (auto simp: owns_def)
    then show "x \<notin> arange q 4096" using that by blast
  qed
  have "owns s' pid fs"
    using sp(2,5) same more_kernel [of s' s] by (intro owns_cong [OF own]) auto
  then show ?thesis using sp(2,5) same by blast
qed

section \<open>Allocating one page\<close>

lemma unat_align_up: "unat sz + 4096 < 2 ^ 64 \<Longrightarrow> unat (align_up sz 4096) = (unat sz + 4095) div 4096 * 4096"
  unfolding align_up_def using unat_page_up [of sz] by (simp add: page_down_def add.commute)

lemma align_up_page:
  assumes "0 < sz" "sz \<le> 4096"
  shows "align_up sz 4096 = 4096"
proof -
  have "0 < unat sz" "unat sz \<le> 4096" using assms by (simp_all add: word_less_nat_alt word_le_nat_alt)
  then have "(unat sz + 4095) div 4096 = 1" by simp
  then show ?thesis
    using unat_align_up [of sz] \<open>unat sz \<le> 4096\<close> by (simp add: word_unat_eq_iff)
qed

lemma map_layer_page:
  assumes "unat va + 4096 < 2 ^ 64"
  shows "map_layer pid pml4 va (va + 4096) s =
    (case alloc_frame s of
       (None, s) \<Rightarrow> Some (False, s)
     | (Some phys, s) \<Rightarrow> Some (map_page pml4 va phys True True (track_frame pid phys s)))"
proof -
  have "unat (va + 4096) = unat va + 4096" using assms by (rule unat_plus_4096)
  then have lt: "va < va + 4096" by (simp add: word_less_nat_alt)
  have stop: "map_layer pid pml4 (va + 4096) (va + 4096) s = Some (True, s)" for s
    by (simp add: map_layer.simps)
  show ?thesis
    by (subst map_layer.simps) (auto simp: lt stop split: prod.splits option.splits)
qed

lemma alloc_track_owns:
  fixes s :: kernel
  assumes inv: "frame_inv s" and own: "owns s pid fs" and al: "alloc_frame s = (Some f, s1)"
  shows "frame_inv (track_frame pid f s1) \<and> avail_frames (track_frame pid f s1) = avail_frames s - {f} \<and>
    owns (track_frame pid f s1) pid (f # fs) \<and>
    read_u64 (kmem (track_frame pid f s1)) f = frames_head (PROCESS_TABLE s pid) \<and>
    (\<forall>x. x \<notin> arange f 4096 \<longrightarrow> kmem (track_frame pid f s1) x = kmem s x)"
proof -
  have a: "f \<in> avail_frames s" "avail_frames s1 = avail_frames s - {f}" "frame_inv s1"
    using alloc_Some [OF inv al] by auto
  have f_fs: "f \<notin> set fs" using own a(1) by (auto simp: owns_def)
  have k1: "PROCESS_TABLE s1 = PROCESS_TABLE s" using more_kernel [OF alloc_more [OF al]] by auto
  have "arange g 4096 \<inter> arange f 4096 = {}" if "g \<in> set fs" for g
    using own that f_fs avail_aligned [OF inv a(1)] pool_frames_aligned [of g s]
    by (intro page_disjoint) (auto simp: owns_def)
  then have own1: "owns s1 pid fs"
    using alloc_pool [OF inv al] a(2) alloc_frame_rule [OF al] k1
    by (intro owns_cong [OF own]) (auto simp: disjoint_iff)
  show ?thesis
    using track_frame_owns [OF a(3) own1, of f] alloc_pool [OF inv al] a(2) f_fs k1 alloc_frame_rule [OF al]
    by auto
qed

lemma walk_tables_frame_upd:
  assumes "page_aligned f" "f \<notin> set (walk_tables m pml4 va)" "\<And>x. x \<notin> arange f 4096 \<Longrightarrow> m' x = m x"
  shows "walk_tables m' pml4 va = walk_tables m pml4 va"
  unfolding walk_tables_def
proof (rule table_path_cong)
  fix q x assume q: "q \<in> set (table_path m (pml4 AND PHYS_MASK) va [39, 30, 21])" "x \<in> arange q 4096"
  then have "q \<noteq> f" "page_aligned q"
    using assms(2) table_path_aligned [OF page_aligned_mask q(1)] by (auto simp: walk_tables_def)
  then have "arange q 4096 \<inter> arange f 4096 = {}" using assms(1) by (intro page_disjoint) auto
  then show "m' x = m x" using q assms(3) by blast
qed

text \<open>The successful run of a one-page \<open>memory_allocate\<close>, taken apart.\<close>

lemma memory_allocate_page_run:
  assumes live: "is_live (cur s)" and sz: "0 < sz" "sz \<le> 4096" and wf: "layer_wf (cur s)"
    and room: "unat (next_free (cur s)) + 4096 \<le> unat (layer_base (cur s)) + unat (layer_size (cur s))"
    and run: "memory_allocate sz s = Some (r, s')" "r \<noteq> ERR_OUT_OF_MEMORY"
  obtains f s1 t where "alloc_frame s = (Some f, s1)"
    "map_page (page_table_base (cur s)) (next_free (cur s)) f True True (track_frame (CURRENT_PROCESS_ID s) f s1) = (True, t)"
    "r = next_free (cur s)" "s' = upd_pcb (CURRENT_PROCESS_ID s) (\<lambda>p. p\<lparr>next_free := r + 4096\<rparr>) t"
proof -
  let ?pid = "CURRENT_PROCESS_ID s" and ?va = "next_free (cur s)" and ?pml4 = "page_table_base (cur s)"
  have nw: "unat ?va + 4096 < 2 ^ 64" using room wf by (simp add: layer_wf_def)
  have "unat (layer_base (cur s) + layer_size (cur s)) = unat (layer_base (cur s)) + unat (layer_size (cur s))"
    using wf by (subst unat_add_lem [THEN iffD1]) (auto simp: layer_wf_def)
  then have le: "\<not> layer_base (cur s) + layer_size (cur s) < ?va + 4096"
    using room unat_plus_4096 [OF nw] by (simp add: word_less_nat_alt)
  have "sz \<noteq> 0" using sz by auto
  then have "memory_allocate sz s = do {
      (ok, t) \<leftarrow> map_layer ?pid ?pml4 ?va (?va + 4096) s;
      Some (if ok then (?va, upd_pcb ?pid (\<lambda>p. p\<lparr>next_free := ?va + 4096\<rparr>) t) else (ERR_OUT_OF_MEMORY, t)) }"
    using sz live nw le by (simp add: memory_allocate_def align_up_page checked_add_def Let_def)
  then have eq: "memory_allocate sz s = (case alloc_frame s of
      (None, t) \<Rightarrow> Some (ERR_OUT_OF_MEMORY, t)
    | (Some f, t) \<Rightarrow> (case map_page ?pml4 ?va f True True (track_frame ?pid f t) of
         (ok, t) \<Rightarrow> Some (if ok then (?va, upd_pcb ?pid (\<lambda>p. p\<lparr>next_free := ?va + 4096\<rparr>) t)
                          else (ERR_OUT_OF_MEMORY, t))))"
    unfolding map_layer_page [OF nw] by (simp split: prod.splits option.splits)
  obtain x s1 where al: "alloc_frame s = (x, s1)" by fastforce
  show thesis
  proof (cases x)
    case None
    then show thesis using run by (simp add: eq al)
  next
    case (Some f)
    obtain ok t where mp: "map_page ?pml4 ?va f True True (track_frame ?pid f s1) = (ok, t)" by fastforce
    have ok using run mp Some by (cases ok) (simp_all add: eq al)
    then have "r = ?va \<and> s' = upd_pcb ?pid (\<lambda>p. p\<lparr>next_free := ?va + 4096\<rparr>) t"
      using run(1) mp Some by (auto simp: eq al)
    with al Some mp \<open>ok\<close> show thesis by (intro that [of f s1 t]) simp_all
  qed
qed

lemma memory_allocate_page_spec:
  assumes inv: "frame_inv s" and live: "is_live (cur s)" and own: "owns s (CURRENT_PROCESS_ID s) fs"
    and sz: "0 < sz" "sz \<le> 4096"
    and room: "page_aligned (next_free (cur s))" "layer_wf (cur s)"
      "unat (next_free (cur s)) + 4096 \<le> unat (layer_base (cur s)) + unat (layer_size (cur s))"
    and path: "distinct (walk_tables (kmem s) (page_table_base (cur s)) (next_free (cur s)))"
      "set (walk_tables (kmem s) (page_table_base (cur s)) (next_free (cur s))) \<inter> (avail_frames s \<union> set fs) = {}"
    and lim: "\<forall>f \<in> avail_frames s. f < 0x10000000000000"
    and run: "memory_allocate sz s = Some (r, s')" "r \<noteq> ERR_OUT_OF_MEMORY"
  shows "r = next_free (cur s) \<and> next_free (cur s') = r + 4096 \<and> frame_inv s' \<and>
    (\<exists>f tr. f \<in> avail_frames s \<and> owns s' (CURRENT_PROCESS_ID s) (f # fs) \<and>
       translate (kmem s') (page_table_base (cur s)) r = Some tr \<and> tr_phys tr = f \<and> tr_user tr \<and>
       read_u64 (kmem s') f = frames_head (cur s))"
proof -
  let ?pid = "CURRENT_PROCESS_ID s" and ?va = "next_free (cur s)" and ?pml4 = "page_table_base (cur s)"
  obtain f s1 t where al: "alloc_frame s = (Some f, s1)"
    and mp: "map_page ?pml4 ?va f True True (track_frame ?pid f s1) = (True, t)"
    and r: "r = ?va" and s': "s' = upd_pcb ?pid (\<lambda>p. p\<lparr>next_free := r + 4096\<rparr>) t"
    using memory_allocate_page_run [OF live sz room(2,3) run] .
  have f: "f \<in> avail_frames s" "page_aligned f" using alloc_Some [OF inv al] avail_aligned [OF inv] by auto
  let ?s2 = "track_frame ?pid f s1"
  have t2: "frame_inv ?s2" "avail_frames ?s2 = avail_frames s - {f}" "owns ?s2 ?pid (f # fs)"
    "read_u64 (kmem ?s2) f = frames_head (cur s)" "\<And>x. x \<notin> arange f 4096 \<Longrightarrow> kmem ?s2 x = kmem s x"
    using alloc_track_owns [OF inv own al] by auto
  have W: "walk_tables (kmem ?s2) ?pml4 ?va = walk_tables (kmem s) ?pml4 ?va"
    using path(2) f t2(5) by (intro walk_tables_frame_upd [of f]) auto
  have P2: "distinct (walk_tables (kmem ?s2) ?pml4 ?va)"
    "set (walk_tables (kmem ?s2) ?pml4 ?va) \<inter> avail_frames ?s2 = {}"
    "set (walk_tables (kmem ?s2) ?pml4 ?va) \<inter> set (f # fs) = {}" "\<forall>f \<in> avail_frames ?s2. f < 0x10000000000000"
    using path lim f t2(2) unfolding W by auto
  note m = map_page_owns [OF t2(1,3) P2 mp]
  obtain tr where tr: "translate (kmem t) ?pml4 ?va = Some tr" "tr_phys tr = (f AND PHYS_MASK) OR (?va AND 0xFFF)"
    "tr_user tr" using map_page_spec(1) [OF t2(1) P2(1,2,4) mp] by auto
  have "tr_phys tr = f"
    using tr(2) room(1) phys_mask_self [OF f(2)] lim f(1) by (simp add: page_aligned_def)
  moreover have "read_u64 (kmem t) f = frames_head (cur s)"
    unfolding t2(4) [symmetric] using m by (intro read_u64_cong) (auto simp: arange_def)
  moreover have "owns s' ?pid (f # fs)" using m unfolding s' owns_def by simp
  moreover have "CURRENT_PROCESS_ID t = ?pid"
    using m more_kernel [of t ?s2] more_kernel [OF alloc_more [OF al]] by (simp add: track_frame_def)
  ultimately show ?thesis using r s' f(1) tr m by (auto intro!: exI [of _ f] exI [of _ tr])
qed

section \<open>Properties\<close>

lemma init_fd_table_other [simp]:
  "PROCESS_TABLE (init_fd_table i s) = PROCESS_TABLE s" "kmem (init_fd_table i s) = kmem s"
  "CURRENT_PROCESS_ID (init_fd_table i s) = CURRENT_PROCESS_ID s" "CONT (init_fd_table i s) = CONT s"
proof -
  have "PROCESS_TABLE (fold (\<lambda>i. set_fd pid i e) xs s) = PROCESS_TABLE s \<and>
      kmem (fold (\<lambda>i. set_fd pid i e) xs s) = kmem s \<and>
      CURRENT_PROCESS_ID (fold (\<lambda>i. set_fd pid i e) xs s) = CURRENT_PROCESS_ID s \<and>
      CONT (fold (\<lambda>i. set_fd pid i e) xs s) = CONT s" for pid e xs s
    by (induction xs arbitrary: s) (auto simp: set_fd_def)
  then show "PROCESS_TABLE (init_fd_table i s) = PROCESS_TABLE s" "kmem (init_fd_table i s) = kmem s"
    "CURRENT_PROCESS_ID (init_fd_table i s) = CURRENT_PROCESS_ID s" "CONT (init_fd_table i s) = CONT s"
    by (simp_all add: init_fd_table_def Let_def) (simp_all add: set_fd_def)
qed

lemma provision_pcb_layer: "ephemeral_layer i (PROCESS_TABLE (provision_pcb L i ent pt ustack s) i)"
  by (simp add: provision_pcb_def install_pcb_def prepare_initial_stack_def Let_def ephemeral_layer_def)

text \<open>
  Validated user pointers of different processes never meet. If the kernel accepted a byte range of
  one process and a byte range of another one with \<open>contains_range\<close>, and both processes were set up by
  \<open>provision_pcb\<close>, then no byte address lies in both ranges (64-bit wrap-around included).
\<close>

theorem validated_ranges_disjoint:
  assumes "i < MAX_PROCESSES" "j < MAX_PROCESSES" "i \<noteq> j"
    and "contains_range (PROCESS_TABLE (provision_pcb L i e\<^sub>1 t\<^sub>1 u\<^sub>1 s\<^sub>1) i) ptr\<^sub>1 len\<^sub>1"
    and "contains_range (PROCESS_TABLE (provision_pcb L j e\<^sub>2 t\<^sub>2 u\<^sub>2 s\<^sub>2) j) ptr\<^sub>2 len\<^sub>2"
    and "k\<^sub>1 < unat len\<^sub>1" "k\<^sub>2 < unat len\<^sub>2"
  shows "ptr\<^sub>1 + word_of_nat k\<^sub>1 \<noteq> ptr\<^sub>2 + word_of_nat k\<^sub>2"
proof -
  note l1 = ephemeral_layer_bounds [OF provision_pcb_layer assms(1), of L e\<^sub>1 t\<^sub>1 u\<^sub>1 s\<^sub>1]
  note l2 = ephemeral_layer_bounds [OF provision_pcb_layer assms(2), of L e\<^sub>2 t\<^sub>2 u\<^sub>2 s\<^sub>2]
  from contains_range_bytes [OF _ assms(4,6)] contains_range_bytes [OF _ assms(5,7)] l1 l2 assms(3)
  show ?thesis by (cases i j rule: linorder_cases) auto
qed

text \<open>
  C35: A page obtained with \<open>memory_allocate\<close>. For a request of at most one page that fits the layer, if the call does not
  report \<open>ERR_OUT_OF_MEMORY\<close> it returns the old \<open>next_free\<close>, advances it by one page, and the processor now
  translates the returned address, accessible from ring 3, to a frame that was free before; the frame is
  added to the process's frame list and the allocator invariant holds. The first eight bytes of the page the user receives are
  the link of that list: the physical address of the previously tracked frame.
\<close>

theorem memory_allocate_page:
  assumes "frame_inv s" "is_live (cur s)" "owns s (CURRENT_PROCESS_ID s) fs" "0 < sz" "sz \<le> 4096"
    and "page_aligned (next_free (cur s))" "layer_wf (cur s)"
      "unat (next_free (cur s)) + 4096 \<le> unat (layer_base (cur s)) + unat (layer_size (cur s))"
    and "distinct (walk_tables (kmem s) (page_table_base (cur s)) (next_free (cur s)))"
      "set (walk_tables (kmem s) (page_table_base (cur s)) (next_free (cur s))) \<inter> (avail_frames s \<union> set fs) = {}"
    and "\<forall>f \<in> avail_frames s. f < 0x10000000000000"
    and "memory_allocate sz s = Some (r, s')" "r \<noteq> ERR_OUT_OF_MEMORY"
  shows "r = next_free (cur s) \<and> next_free (cur s') = r + 4096 \<and> frame_inv s' \<and>
    (\<exists>f tr. f \<in> avail_frames s \<and> owns s' (CURRENT_PROCESS_ID s) (f # fs) \<and>
       translate (kmem s') (page_table_base (cur s)) r = Some tr \<and> tr_phys tr = f \<and> tr_user tr \<and>
       read_u64 (kmem s') f = frames_head (cur s))"
  by (rule memory_allocate_page_spec [OF assms])

text \<open>
  A wrap-around in \<open>align_up\<close>. For a request of more than \<open>2 ^ 64 - 4096\<close> bytes (such as \<open>u64::MAX\<close>) the
  rounded size wraps to zero, so \<open>memory_allocate\<close> maps nothing, consumes nothing and still
  reports success with the address \<open>next_free\<close>.
\<close>

theorem memory_allocate_huge_request_succeeds:
  assumes "unat sz > 2 ^ 64 - 4096" "is_live (cur s)"
    and "next_free (cur s) \<le> layer_base (cur s) + layer_size (cur s)"
  shows "memory_allocate sz s = Some (next_free (cur s), upd_pcb (CURRENT_PROCESS_ID s) (\<lambda>p. p) s)"
proof -
  have lt: "unat sz < 2 ^ 64" using unsigned_less [of sz] by simp
  have "unat (sz + 4095) = (unat sz + 4095) mod 2 ^ 64" by (simp add: unat_word_ariths)
  also have "\<dots> = unat sz + 4095 - 2 ^ 64"
    using assms(1) lt by (subst le_mod_geq) auto
  finally have "unat (page_down (sz + 4095)) = 0"
    using lt by (simp add: unat_page_down)
  then have "align_up sz 4096 = 0" by (simp add: align_up_def page_down_def unat_eq_zero add.commute)
  moreover have "sz \<noteq> 0" using assms(1) by auto
  moreover have "map_layer pid pml4 va va s = Some (True, s)" for pid pml4 va
    by (simp add: map_layer.simps)
  moreover have "checked_add a 0 = Some a" for a using unsigned_less [of a] by (simp add: checked_add_def)
  moreover have "\<not> layer_base (cur s) + layer_size (cur s) < next_free (cur s)" using assms(3) by simp
  ultimately show ?thesis
    using assms(2) by (simp add: memory_allocate_def Let_def upd_pcb_def)
qed


text \<open>
  A kernel with one running process (slot 1) whose layer is empty, an empty page table at
  \<open>0x200000\<close>, and the frames \<open>0x101000 .. 0x105000\<close> free.
\<close>

definition demo_kernel :: kernel where
  "demo_kernel =
     \<lparr>kmem = (\<lambda>_. 0), POOL_NEXT = 0x101000, POOL_END = 0x106800, POOL_BASE = 0x101000,
      FREE_LIST_HEAD = 0, TOTAL_PHYSICAL_MEMORY = 0,
      PROCESS_TABLE = (\<lambda>_. pcb_empty)
        (0 := pcb_empty\<lparr>pcb_state := Runnable\<rparr>,
         1 := pcb_empty\<lparr>pcb_id := 1, pcb_state := Runnable, page_table_base := 0x200000,
           layer_base := 0x100001000000, layer_size := 0x1000000, next_free := 0x100001000000\<rparr>),
      FD_TABLES = (\<lambda>_ _. fd_free), CURRENT_PROCESS_ID = 1, PROCESS_TABLE_READY = True,
      SCHEDULER_TICK = 0, TICK_COUNT = 0, PREEMPT_QUANTUM = 0, cr3 = 0x200000, cpu_rsp = 0,
      percpu_kernel_rsp = 0, CONT = (\<lambda>_. K_user), RAX = (\<lambda>_. 0), fsys = demo_fs, kbd = demo_kbd,
      console = [], screen = (0, 0, 0)\<rparr>"

definition demo_layout :: layout where
  "demo_layout = \<lparr>PROCESS_PML4_at = (\<lambda>i. 0x200000 + word_of_nat i * 0x1000), KERNEL_STACKS_at = (\<lambda>i. 0x300000 + word_of_nat i * 0x4000),
     USER_STACKS_at = (\<lambda>i. 0x400000 + word_of_nat i * 0x10000), task_bootstrap_at = 0x100800, cr0_wp = True\<rparr>"

lemma demo_kernel_frames:
  "frame_inv demo_kernel" "avail_frames demo_kernel = {f. page_aligned f \<and> 0x101000 \<le> f \<and> unat f \<le> 0x105800}"
  by (auto simp: demo_kernel_def frame_inv_def page_aligned_def avail_frames_def list_frames_def bump_frames_def)

lemma demo_kernel_walk: "walk_tables (kmem demo_kernel) 0x200000 va = [0x200000]"
proof -
  have "kmem demo_kernel = (\<lambda>_. 0)" by (simp add: demo_kernel_def)
  then show ?thesis unfolding walk_tables_def by (simp only:) (subst zero_table_path; simp)
qed

theorem validated_ranges_disjoint_witness:
  "(0x100001000000 :: u64) + word_of_nat 3 \<noteq> 0x100002000000 + word_of_nat 5"
  using validated_ranges_disjoint [where i = 1 and j = 2 and ptr\<^sub>1 = "0x100001000000" and len\<^sub>1 = 16 and
      ptr\<^sub>2 = "0x100002000000" and len\<^sub>2 = 16 and k\<^sub>1 = 3 and k\<^sub>2 = 5]
  by (simp add: provision_pcb_def install_pcb_def prepare_initial_stack_def Let_def contains_range_def
      checked_add_def)

theorem memory_allocate_huge_request_succeeds_witness:
  "\<exists>s'. memory_allocate 0xFFFFFFFFFFFFFFFF demo_kernel = Some (0x100001000000, s')"
  using memory_allocate_huge_request_succeeds [of "0xFFFFFFFFFFFFFFFF" demo_kernel]
  by (simp add: demo_kernel_def is_live_def word_le_nat_alt)


lemma demo_kernel_process [simp]:
  "PROCESS_TABLE demo_kernel (Suc 0) = pcb_empty\<lparr>pcb_id := 1, pcb_state := Runnable, page_table_base := 0x200000,
     layer_base := 0x100001000000, layer_size := 0x1000000, next_free := 0x100001000000\<rparr>"
  "CURRENT_PROCESS_ID demo_kernel = Suc 0"
  by (simp_all add: demo_kernel_def)

lemma demo_kernel_allocates: "\<exists>s'. memory_allocate 100 demo_kernel = Some (0x100001000000, s')"
proof -
  obtain s1 where al: "alloc_frame demo_kernel = (Some 0x101000, s1)"
    and s1: "s1 = snd (alloc_frame demo_kernel)"
    by (simp add: alloc_frame_def demo_kernel_def)
  have "fst (map_page 0x200000 0x100001000000 0x101000 True True (track_frame 1 0x101000 s1))"
    by (simp add: s1 map_page_def next_table_def alloc_frame_def demo_kernel_def track_frame_def upd_pcb_def
        pcb_empty_def Let_def pt_index_def entry_at_def read_u64_zero mfill_def
        read_u64_def write_u64_def mread_def mwrite_def upt_rec)
  then obtain t where "map_page 0x200000 0x100001000000 0x101000 True True (track_frame 1 0x101000 s1) = (True, t)"
    by (metis prod.collapse)
  then have "map_layer 1 0x200000 0x100001000000 (0x100001000000 + 4096) demo_kernel = Some (True, t)"
    by (subst map_layer_page) (simp_all add: al)
  then show ?thesis
    by (simp add: memory_allocate_def Let_def align_up_page checked_add_def is_live_def pcb_empty_def)
qed

theorem memory_allocate_page_witness:
  "\<exists>s' f tr. memory_allocate 100 demo_kernel = Some (0x100001000000, s') \<and> f \<in> avail_frames demo_kernel \<and>
     translate (kmem s') 0x200000 0x100001000000 = Some tr \<and> tr_phys tr = f \<and> tr_user tr"
proof -
  obtain s' where run: "memory_allocate 100 demo_kernel = Some (0x100001000000, s')"
    using demo_kernel_allocates by blast
  have own: "owns demo_kernel 1 []" by (simp add: owns_def demo_kernel_def pcb_empty_def)
  have "set [0x200000] \<inter> avail_frames demo_kernel = {}" by (simp add: demo_kernel_frames)
  moreover have "\<forall>f \<in> avail_frames demo_kernel. f < 0x10000000000000"
    by (simp add: demo_kernel_frames word_less_nat_alt)
  ultimately show ?thesis
    using memory_allocate_page [OF demo_kernel_frames(1), of "[]" 100 "0x100001000000" s'] run own
    by (simp add: demo_kernel_walk pcb_empty_def is_live_def layer_wf_def page_aligned_def word_less_nat_alt word_le_nat_alt)
      blast
qed

end
