(* ===== verification/Scheduler.thy ===== *)
theory Scheduler
  imports Layer
begin

text \<open>
  The round-robin scheduler of \<open>src/kernel/src/syscall.rs\<close>: choosing the next process, switching to
  it, timer preemption, yielding, blocking, exit and kill.
\<close>

section \<open>Scheduling\<close>

definition runnable :: "kernel \<Rightarrow> nat \<Rightarrow> bool" where
  "runnable s i \<longleftrightarrow> pcb_state (PROCESS_TABLE s i) = Runnable"

definition valid_live_process :: "u64 \<Rightarrow> kernel \<Rightarrow> bool" where
  "valid_live_process pid s \<longleftrightarrow> unat pid < MAX_PROCESSES \<and> is_live (PROCESS_TABLE s (unat pid))"

definition next_runnable_after :: "nat \<Rightarrow> kernel \<Rightarrow> nat option" where
  "next_runnable_after current s =
     find_first (runnable s) (map (\<lambda>step. (current + step) mod MAX_PROCESSES) [1..<MAX_PROCESSES + 1])"

text \<open>The part of a switch that \<open>switch_context\<close> and \<open>context_switch\<close> do up to the new stack.\<close>

definition switch_context :: "nat \<Rightarrow> nat \<Rightarrow> kernel \<Rightarrow> kernel" where
  "switch_context prev next s =
     (if prev = next then s
      else
        let s = s\<lparr>CURRENT_PROCESS_ID := next,
                  percpu_kernel_rsp := kernel_stack_top (PROCESS_TABLE s next)\<rparr>;
            s = upd_pcb next (\<lambda>p. p\<lparr>switch_count := switch_count p + 1\<rparr>) s;
            s = (if start_tick (PROCESS_TABLE s next) = 0
                 then upd_pcb next (\<lambda>p. p\<lparr>start_tick := TICK_COUNT s\<rparr>) s else s);
            next_rsp = saved_rsp (PROCESS_TABLE s next);
            next_cr3 = page_table_base (PROCESS_TABLE s next);
            s = upd_pcb prev (\<lambda>p. p\<lparr>saved_rsp := cpu_rsp s\<rparr>) s
        in s\<lparr>cpu_rsp := next_rsp,
             cr3 := (if next_cr3 \<noteq> 0 \<and> next_cr3 \<noteq> cr3 s then next_cr3 else cr3 s)\<rparr>)"

text \<open>What the process that now has the CPU does with it.\<close>

definition resume :: "kernel \<Rightarrow> kernel" where
  "resume s =
     (let p = CURRENT_PROCESS_ID s
      in case CONT s p of
           K_user \<Rightarrow> s
         | K_boot \<Rightarrow> s\<lparr>CONT := (CONT s)(p := K_user)\<rparr>
         | K_return \<Rightarrow> s\<lparr>CONT := (CONT s)(p := K_user)\<rparr>
         | K_zero \<Rightarrow> s\<lparr>CONT := (CONT s)(p := K_user), RAX := (RAX s)(p := 0)\<rparr>
         | K_receive \<Rightarrow>
             s\<lparr>CONT := (CONT s)(p := K_user), RAX := (RAX s)(p := ipc_peer (PROCESS_TABLE s p))\<rparr>
         | K_input _ _ _ \<Rightarrow> s)"

text \<open>Suspend the current process with continuation \<open>k\<close> and let \<open>next\<close> run.\<close>

definition switch_to :: "kcont \<Rightarrow> nat \<Rightarrow> kernel \<Rightarrow> kernel" where
  "switch_to k next s =
     (let prev = CURRENT_PROCESS_ID s
      in if prev = next then s
      else resume (switch_context prev next (s\<lparr>CONT := (CONT s)(prev := k)\<rparr>)))"

definition run_slot :: "nat \<Rightarrow> kernel \<Rightarrow> kernel" where
  "run_slot slot s =
     (if slot = CURRENT_PROCESS_ID s \<or> slot \<ge> MAX_PROCESSES then s
      else if \<not> runnable s slot then s
      else switch_to K_return slot s)"

definition get_tick_count :: "kernel \<Rightarrow> u64" where
  "get_tick_count s = TICK_COUNT s"

definition timer_tick_handler :: "kernel \<Rightarrow> kernel" where
  "timer_tick_handler s =
     (let s = s\<lparr>TICK_COUNT := TICK_COUNT s + 1\<rparr>; current = CURRENT_PROCESS_ID s
      in if current = 0 then s
      else let s = s\<lparr>PREEMPT_QUANTUM := PREEMPT_QUANTUM s + 1\<rparr>
      in if PREEMPT_QUANTUM s \<ge> 5 then
           let s = s\<lparr>PREEMPT_QUANTUM := 0\<rparr>
           in case next_runnable_after current s of
                None \<Rightarrow> s
              | Some next \<Rightarrow> if next \<noteq> current then switch_to K_return next s else s
         else s)"

definition yield_cpu :: "kernel \<Rightarrow> outcome \<times> kernel" where
  "yield_cpu s =
     (case next_runnable_after (CURRENT_PROCESS_ID s) s of
        None \<Rightarrow> (Ret 0, s)
      | Some next \<Rightarrow> if next = CURRENT_PROCESS_ID s then (Ret 0, s) else (Switched, switch_to K_zero next s))"

definition block_current :: "kcont \<Rightarrow> kernel \<Rightarrow> outcome \<times> kernel" where
  "block_current k s =
     (case next_runnable_after (CURRENT_PROCESS_ID s) s of
        None \<Rightarrow> (Halted, s)
      | Some next \<Rightarrow> (Switched, switch_to k next s))"

definition exit_process :: "u64 \<Rightarrow> kernel \<Rightarrow> (outcome \<times> kernel) res" where
  "exit_process code s =
     (let current = CURRENT_PROCESS_ID s;
          s = upd_pcb current (\<lambda>p. p\<lparr>pcb_state := Exited, exit_code := code\<rparr>) s
      in do {
        s \<leftarrow> free_process_frames current s;
        Some (block_current K_zero (clear_fd_table current s))
      })"

definition kill_process :: "nat \<Rightarrow> kernel \<Rightarrow> (bool \<times> kernel) res" where
  "kill_process pid s =
     (if pid \<ge> MAX_PROCESSES \<or> pid = CURRENT_PROCESS_ID s then Some (False, s)
      else if pcb_state (PROCESS_TABLE s pid) = Empty \<or> pcb_state (PROCESS_TABLE s pid) = Exited
      then Some (False, s)
      else do {
        s \<leftarrow> free_process_frames pid (upd_pcb pid (\<lambda>p. p\<lparr>pcb_state := Exited, exit_code := 9\<rparr>) s);
        Some (True, clear_fd_table pid s)
      })"

section \<open>The order of the round robin\<close>

lemma find_first_map: "find_first P (map f xs) = map_option f (find_first (P \<circ> f) xs)"
  by (induction xs) auto

text \<open>
  \<open>dist c q\<close> is how many steps after \<open>c\<close> the scan meets \<open>q\<close>: \<open>1 .. 64\<close>, where \<open>c\<close> itself comes last.
\<close>

definition dist :: "nat \<Rightarrow> nat \<Rightarrow> nat" where
  "dist c q = (if c < q then q - c else q + MAX_PROCESSES - c)"

lemma dist_range: "c < MAX_PROCESSES \<Longrightarrow> q < MAX_PROCESSES \<Longrightarrow> 1 \<le> dist c q \<and> dist c q \<le> MAX_PROCESSES"
  by (auto simp: dist_def)

lemma dist_step: "c < MAX_PROCESSES \<Longrightarrow> q < MAX_PROCESSES \<Longrightarrow> (c + dist c q) mod MAX_PROCESSES = q"
  by (auto simp: dist_def)

lemma step_dist:
  "c < MAX_PROCESSES \<Longrightarrow> 1 \<le> k \<Longrightarrow> k \<le> MAX_PROCESSES \<Longrightarrow> dist c ((c + k) mod MAX_PROCESSES) = k"
  by (cases "c + k < MAX_PROCESSES") (auto simp: dist_def mod_if)

lemma next_runnable_Some:
  assumes c: "c < MAX_PROCESSES" and n: "next_runnable_after c s = Some n"
  shows "n < MAX_PROCESSES \<and> runnable s n \<and> (\<forall>q < MAX_PROCESSES. runnable s q \<longrightarrow> dist c n \<le> dist c q)"
proof -
  obtain k where k: "find_first (runnable s \<circ> (\<lambda>k. (c + k) mod MAX_PROCESSES)) [1..<MAX_PROCESSES + 1] = Some k"
    "n = (c + k) mod MAX_PROCESSES"
    using n by (auto simp: next_runnable_after_def find_first_map)
  then have kr: "1 \<le> k" "k \<le> MAX_PROCESSES" "runnable s n" using find_first_Some [OF k(1)] by auto
  have "k \<le> dist c q" if "q < MAX_PROCESSES" "runnable s q" for q
  proof (rule ccontr)
    assume "\<not> k \<le> dist c q"
    then have "\<not> (runnable s \<circ> (\<lambda>k. (c + k) mod MAX_PROCESSES)) (dist c q)"
      using dist_range [OF c that(1)] by (intro find_first_least [OF k(1)]) auto
    then show False using that dist_step [OF c that(1)] by simp
  qed
  then show ?thesis using kr step_dist [OF c kr(1,2)] k(2) by simp
qed

lemma next_runnable_None:
  assumes "c < MAX_PROCESSES"
  shows "next_runnable_after c s = None \<longleftrightarrow> (\<forall>q < MAX_PROCESSES. \<not> runnable s q)"
proof
  assume n: "next_runnable_after c s = None"
  show "\<forall>q < MAX_PROCESSES. \<not> runnable s q"
  proof (intro allI impI)
    fix q assume q: "q < MAX_PROCESSES"
    have "dist c q \<in> set [1..<MAX_PROCESSES + 1]" using dist_range [OF assms q] by auto
    then have "\<not> runnable s ((c + dist c q) mod MAX_PROCESSES)"
      using n by (simp add: next_runnable_after_def)
    then show "\<not> runnable s q" using dist_step [OF assms q] by simp
  qed
next
  assume "\<forall>q < MAX_PROCESSES. \<not> runnable s q"
  then show "next_runnable_after c s = None" by (simp add: next_runnable_after_def)
qed

section \<open>What a switch changes\<close>

lemma switch_context_simps:
  "CURRENT_PROCESS_ID (switch_context p n s) = (if p = n then CURRENT_PROCESS_ID s else n)"
  "pcb_state (PROCESS_TABLE (switch_context p n s) i) = pcb_state (PROCESS_TABLE s i)"
  "kmem (switch_context p n s) = kmem s" "FD_TABLES (switch_context p n s) = FD_TABLES s"
  "CONT (switch_context p n s) = CONT s" "RAX (switch_context p n s) = RAX s"
  "fsys (switch_context p n s) = fsys s"
  by (auto simp: switch_context_def Let_def upd_pcb_def)

lemma resume_simps:
  "CURRENT_PROCESS_ID (resume s) = CURRENT_PROCESS_ID s" "PROCESS_TABLE (resume s) = PROCESS_TABLE s"
  "kmem (resume s) = kmem s" "FD_TABLES (resume s) = FD_TABLES s" "fsys (resume s) = fsys s"
  by (auto simp: resume_def Let_def split: kcont.splits)

lemma switch_to_simps:
  "CURRENT_PROCESS_ID (switch_to k n s) = n"
  "pcb_state (PROCESS_TABLE (switch_to k n s) i) = pcb_state (PROCESS_TABLE s i)"
  "kmem (switch_to k n s) = kmem s" "FD_TABLES (switch_to k n s) = FD_TABLES s"
  "fsys (switch_to k n s) = fsys s"
  by (auto simp: switch_to_def Let_def switch_context_simps resume_simps)

lemma runnable_switch_to [simp]: "runnable (switch_to k n s) i = runnable s i"
  by (simp add: runnable_def switch_to_simps)

lemma yield_current:
  assumes "CURRENT_PROCESS_ID s < MAX_PROCESSES" "next_runnable_after (CURRENT_PROCESS_ID s) s = Some n"
  shows "CURRENT_PROCESS_ID (snd (yield_cpu s)) = n \<and> (\<forall>i. runnable (snd (yield_cpu s)) i = runnable s i)"
  using assms by (auto simp: yield_cpu_def switch_to_simps)

text \<open>
  Each yield moves the CPU forward in the cyclic order and never past a process that can run, so
  the distance to a waiting process shrinks until it is reached.
\<close>

lemma dist_between:
  assumes "c < MAX_PROCESSES" "n < MAX_PROCESSES" "q < MAX_PROCESSES" "dist c n \<le> dist c q" "n \<noteq> q"
  shows "dist n q < dist c q"
  using assms by (auto simp: dist_def split: if_splits)

lemma round_robin_reaches:
  assumes "CURRENT_PROCESS_ID s < MAX_PROCESSES" "q < MAX_PROCESSES" "runnable s q"
  shows "\<exists>n. 1 \<le> n \<and> n \<le> dist (CURRENT_PROCESS_ID s) q \<and>
    CURRENT_PROCESS_ID (((\<lambda>s. snd (yield_cpu s)) ^^ n) s) = q"
  using assms
proof (induction "dist (CURRENT_PROCESS_ID s) q" arbitrary: s rule: less_induct)
  case less
  let ?c = "CURRENT_PROCESS_ID s"
  obtain n where n: "next_runnable_after ?c s = Some n"
    using next_runnable_None [OF less.prems(1), of s] less.prems(2,3)
    by (cases "next_runnable_after ?c s") auto
  note nr = next_runnable_Some [OF less.prems(1) n]
  let ?s = "snd (yield_cpu s)"
  have y: "CURRENT_PROCESS_ID ?s = n" "runnable ?s q"
    using yield_current [OF less.prems(1) n] less.prems(3) by auto
  show ?case
  proof (cases "n = q")
    case True
    then show ?thesis
      using y dist_range [OF less.prems(1,2)] by (intro exI [of _ 1]) simp
  next
    case False
    then have d: "dist n q < dist ?c q" using nr less.prems by (intro dist_between) auto
    then obtain k where k: "1 \<le> k" "k \<le> dist n q" "CURRENT_PROCESS_ID (((\<lambda>s. snd (yield_cpu s)) ^^ k) ?s) = q"
      using less.hyps [of ?s] y nr less.prems(2) by auto
    then show ?thesis
      using d by (intro exI [of _ "Suc k"]) (simp add: funpow_Suc_right del: funpow.simps)
  qed
qed

section \<open>Preemption\<close>

lemma timer_tick_kernel: "CURRENT_PROCESS_ID s = 0 \<Longrightarrow> timer_tick_handler s = s\<lparr>TICK_COUNT := TICK_COUNT s + 1\<rparr>"
  by (simp add: timer_tick_handler_def)

lemma timer_tick_quantum:
  assumes "CURRENT_PROCESS_ID s \<noteq> 0" "unat (PREEMPT_QUANTUM s) < 4"
  shows "timer_tick_handler s =
    s\<lparr>TICK_COUNT := TICK_COUNT s + 1, PREEMPT_QUANTUM := PREEMPT_QUANTUM s + 1\<rparr>"
proof -
  have "unat (PREEMPT_QUANTUM s + 1) = unat (PREEMPT_QUANTUM s) + 1"
    using assms(2) by (subst unat_add_lem [THEN iffD1]) auto
  then have "\<not> 5 \<le> PREEMPT_QUANTUM s + 1" using assms(2) by (simp add: word_le_nat_alt)
  then show ?thesis using assms by (simp add: timer_tick_handler_def Let_def)
qed

lemma timer_tick_expired:
  assumes "CURRENT_PROCESS_ID s \<noteq> 0" "PREEMPT_QUANTUM s = 4"
  shows "timer_tick_handler s =
    (let s = s\<lparr>TICK_COUNT := TICK_COUNT s + 1, PREEMPT_QUANTUM := 0\<rparr>
     in case next_runnable_after (CURRENT_PROCESS_ID s) s of
          None \<Rightarrow> s
        | Some n \<Rightarrow> if n \<noteq> CURRENT_PROCESS_ID s then switch_to K_return n s else s)"
  using assms by (simp add: timer_tick_handler_def Let_def split: option.split)

lemma next_runnable_ticks [simp]:
  "next_runnable_after c (s\<lparr>TICK_COUNT := t, PREEMPT_QUANTUM := q\<rparr>) = next_runnable_after c s"
proof -
  have "runnable (s\<lparr>TICK_COUNT := t, PREEMPT_QUANTUM := q\<rparr>) = runnable s" by (simp add: runnable_def fun_eq_iff)
  then show ?thesis by (simp add: next_runnable_after_def)
qed

section \<open>Destroying a process\<close>

lemma clear_fd_table_simps:
  "PROCESS_TABLE (clear_fd_table pid s) = PROCESS_TABLE s"
  "CURRENT_PROCESS_ID (clear_fd_table pid s) = CURRENT_PROCESS_ID s"
  "FD_TABLES (clear_fd_table pid s) p i =
     (if p = pid \<and> i < MAX_FDS then fd_free else FD_TABLES s p i)"
  "frame_inv (clear_fd_table pid s) = frame_inv s" "avail_frames (clear_fd_table pid s) = avail_frames s"
proof -
  have "PROCESS_TABLE (fold (\<lambda>i. set_fd pid i fd_free) xs s) = PROCESS_TABLE s \<and>
      CURRENT_PROCESS_ID (fold (\<lambda>i. set_fd pid i fd_free) xs s) = CURRENT_PROCESS_ID s \<and>
      FD_TABLES (fold (\<lambda>i. set_fd pid i fd_free) xs s) p i =
        (if p = pid \<and> i \<in> set xs then fd_free else FD_TABLES s p i) \<and>
      frame_inv (fold (\<lambda>i. set_fd pid i fd_free) xs s) = frame_inv s \<and>
      avail_frames (fold (\<lambda>i. set_fd pid i fd_free) xs s) = avail_frames s" for xs
    by (induction xs arbitrary: s)
      (auto simp: set_fd_def frame_inv_def avail_frames_def list_frames_def bump_frames_def pool_frames_def)
  from this [of "[0..<MAX_FDS]"] show "PROCESS_TABLE (clear_fd_table pid s) = PROCESS_TABLE s"
    "CURRENT_PROCESS_ID (clear_fd_table pid s) = CURRENT_PROCESS_ID s"
    "FD_TABLES (clear_fd_table pid s) p i = (if p = pid \<and> i < MAX_FDS then fd_free else FD_TABLES s p i)"
    "frame_inv (clear_fd_table pid s) = frame_inv s" "avail_frames (clear_fd_table pid s) = avail_frames s"
    by (simp_all add: clear_fd_table_def del: upt.simps)
qed

lemma owns_exited [simp]:
  "owns (upd_pcb pid (\<lambda>p. p\<lparr>pcb_state := st, exit_code := c\<rparr>) s) pid fs = owns s pid fs"
  by (simp add: owns_def)

section \<open>Properties\<close>

text \<open>
  C24: The round robin is fair. Whoever is running, a runnable process receives the CPU after at
  most 64 calls of \<open>yield_cpu\<close> (at most as many as its distance in the cyclic order of the process table), whatever the
  other processes are.
\<close>

theorem round_robin_fair:
  assumes "CURRENT_PROCESS_ID s < MAX_PROCESSES" "q < MAX_PROCESSES" "runnable s q"
  shows "\<exists>n. 1 \<le> n \<and> n \<le> MAX_PROCESSES \<and>
    CURRENT_PROCESS_ID (((\<lambda>s. snd (yield_cpu s)) ^^ n) s) = q"
  using round_robin_reaches [OF assms] dist_range [OF assms(1,2)] le_trans by blast

theorem round_robin_fair_witness:
  "\<exists>n. 1 \<le> n \<and> n \<le> MAX_PROCESSES \<and> CURRENT_PROCESS_ID (((\<lambda>s. snd (yield_cpu s)) ^^ n) demo_kernel) = 0"
  using round_robin_fair [of demo_kernel 0] by (simp add: demo_kernel_def runnable_def)

text \<open>
  Timer preemption. The kernel's own process 0 is never preempted by a tick. Any other process that runs
  with a fresh quantum keeps the CPU for four ticks; on the fifth it is switched out in favour of
  the first runnable process after it in cyclic order, if there is another one.
\<close>

theorem timer_preempts_every_fifth_tick:
  assumes "CURRENT_PROCESS_ID s = c" "c < MAX_PROCESSES" "runnable s c" "c \<noteq> 0 \<longrightarrow> PREEMPT_QUANTUM s = 0"
  shows "(c = 0 \<longrightarrow> (\<forall>k. CURRENT_PROCESS_ID ((timer_tick_handler ^^ k) s) = 0)) \<and>
    (c \<noteq> 0 \<longrightarrow> (\<forall>k \<le> 4. CURRENT_PROCESS_ID ((timer_tick_handler ^^ k) s) = c) \<and>
      (\<forall>n. next_runnable_after c s = Some n \<longrightarrow>
        CURRENT_PROCESS_ID ((timer_tick_handler ^^ 5) s) = n))"
proof (intro conjI impI)
  assume "c = 0"
  then show "\<forall>k. CURRENT_PROCESS_ID ((timer_tick_handler ^^ k) s) = 0"
  proof (intro allI)
    fix k show "CURRENT_PROCESS_ID ((timer_tick_handler ^^ k) s) = 0"
      using assms(1) \<open>c = 0\<close> by (induction k) (auto simp: timer_tick_kernel)
  qed
next
  assume c: "c \<noteq> 0"
  have run: "(timer_tick_handler ^^ k) s =
      s\<lparr>TICK_COUNT := TICK_COUNT s + word_of_nat k, PREEMPT_QUANTUM := word_of_nat k\<rparr>" if "k \<le> 4" for k
    using that
  proof (induction k)
    case 0
    then show ?case using assms(4) c by simp
  next
    case (Suc k)
    then have "unat (word_of_nat k :: u64) < 4" by simp
    with Suc c assms(1) show ?case
      by (simp add: timer_tick_quantum add.commute add.left_commute)
  qed
  then show "\<forall>k \<le> 4. CURRENT_PROCESS_ID ((timer_tick_handler ^^ k) s) = c" using assms(1) by simp
  have "(timer_tick_handler ^^ 5) s = timer_tick_handler ((timer_tick_handler ^^ 4) s)"
    using funpow.simps(2) [of 4 timer_tick_handler] by simp
  then have five: "(timer_tick_handler ^^ 5) s =
      timer_tick_handler (s\<lparr>TICK_COUNT := TICK_COUNT s + 4, PREEMPT_QUANTUM := 4\<rparr>)"
    using run [of 4] by simp
  show "\<forall>n. next_runnable_after c s = Some n \<longrightarrow> CURRENT_PROCESS_ID ((timer_tick_handler ^^ 5) s) = n"
    using assms(1) c by (simp add: five timer_tick_expired Let_def switch_to_simps)
qed

theorem timer_preempts_every_fifth_tick_witness:
  "CURRENT_PROCESS_ID ((timer_tick_handler ^^ 4) demo_kernel) = 1 \<and>
   CURRENT_PROCESS_ID ((timer_tick_handler ^^ 5) demo_kernel) = 0"
proof -
  have "next_runnable_after 1 demo_kernel = Some 0"
    by (simp add: next_runnable_after_def runnable_def demo_kernel_def pcb_empty_def upt_rec)
  then show ?thesis
    using timer_preempts_every_fifth_tick [of demo_kernel 1]
    by (simp add: runnable_def) (simp add: demo_kernel_def)
qed

text \<open>
  Blocking never stalls the machine while the resident process 0 can run: \<open>block_current\<close> (behind exit, send and
  receive) then always finds somebody to switch to, and it is a runnable process other than the
  blocked one.
\<close>

theorem block_current_never_halts:
  assumes "CURRENT_PROCESS_ID s < MAX_PROCESSES" "runnable s 0" "\<not> runnable s (CURRENT_PROCESS_ID s)"
  shows "\<exists>s'. block_current k s = (Switched, s') \<and> runnable s' (CURRENT_PROCESS_ID s') \<and>
    CURRENT_PROCESS_ID s' \<noteq> CURRENT_PROCESS_ID s \<and> CURRENT_PROCESS_ID s' < MAX_PROCESSES"
proof -
  obtain n where n: "next_runnable_after (CURRENT_PROCESS_ID s) s = Some n"
    using next_runnable_None [OF assms(1), of s] assms(2)
    by (cases "next_runnable_after (CURRENT_PROCESS_ID s) s") auto
  then have "n < MAX_PROCESSES" "runnable s n" using next_runnable_Some [OF assms(1)] by auto
  then show ?thesis using n assms(3) by (auto simp: block_current_def switch_to_simps)
qed

theorem block_current_never_halts_witness:
  "\<exists>s'. block_current K_zero (upd_pcb 1 (\<lambda>p. p\<lparr>pcb_state := Exited\<rparr>) demo_kernel) = (Switched, s')"
  using block_current_never_halts [of "upd_pcb 1 (\<lambda>p. p\<lparr>pcb_state := Exited\<rparr>) demo_kernel" K_zero]
  by (auto simp: runnable_def) (auto simp: demo_kernel_def)

text \<open>
  C36: \<open>kill_process\<close> reclaims everything. Killing a live process other than the running one whose frame list is intact
  terminates, marks exactly that process as exited with code 9, closes all its descriptors, and returns
  every frame of its list to the allocator; no other process or descriptor table changes.
\<close>

theorem kill_process_reclaims:
  assumes "frame_inv s" "owns s pid fs" "pid < MAX_PROCESSES" "pid \<noteq> CURRENT_PROCESS_ID s"
    and "is_live (PROCESS_TABLE s pid)"
  shows "\<exists>s'. kill_process pid s = Some (True, s') \<and> frame_inv s' \<and> avail_frames s' = avail_frames s \<union> set fs \<and>
    pcb_state (PROCESS_TABLE s' pid) = Exited \<and> exit_code (PROCESS_TABLE s' pid) = 9 \<and> owns s' pid [] \<and>
    (\<forall>i < MAX_FDS. FD_TABLES s' pid i = fd_free) \<and>
    (\<forall>q. q \<noteq> pid \<longrightarrow> PROCESS_TABLE s' q = PROCESS_TABLE s q \<and> FD_TABLES s' q = FD_TABLES s q)"
proof -
  let ?s = "upd_pcb pid (\<lambda>p. p\<lparr>pcb_state := Exited, exit_code := 9\<rparr>) s"
  have "frame_inv ?s" "owns ?s pid fs" using assms by simp_all
  from free_process_frames_owned [OF this] obtain s1 where s1:
    "free_process_frames pid ?s = Some s1" "frame_inv s1" "avail_frames s1 = avail_frames s \<union> set fs"
    "PROCESS_TABLE s1 = (PROCESS_TABLE ?s)(pid := (PROCESS_TABLE ?s pid)\<lparr>frames_head := 0\<rparr>)"
    "FD_TABLES s1 = FD_TABLES s" by auto
  have "kill_process pid s = Some (True, clear_fd_table pid s1)"
    using assms(3-5) s1(1) by (simp add: kill_process_def is_live_def)
  then show ?thesis
    using s1 by (auto simp: clear_fd_table_simps owns_def fun_eq_iff)
qed


text \<open>A process that owns one frame, seen from process 0.\<close>

definition demo_owner :: kernel where
  "demo_owner = (track_frame 1 0x101000 (snd (alloc_frame demo_kernel)))\<lparr>CURRENT_PROCESS_ID := 0\<rparr>"

theorem kill_process_reclaims_witness:
  "\<exists>s'. kill_process 1 demo_owner = Some (True, s') \<and> avail_frames s' = avail_frames demo_kernel"
proof -
  obtain s1 where al: "alloc_frame demo_kernel = (Some 0x101000, s1)"
    by (simp add: alloc_frame_def demo_kernel_def)
  have f: "0x101000 \<in> avail_frames demo_kernel" by (simp add: demo_kernel_frames page_aligned_def)
  have "owns demo_kernel 1 []" by (simp add: owns_def pcb_empty_def)
  note t = alloc_track_owns [OF demo_kernel_frames(1) this al]
  have fr: "frame_inv (s\<lparr>CURRENT_PROCESS_ID := 0\<rparr>) = frame_inv s" "avail_frames (s\<lparr>CURRENT_PROCESS_ID := 0\<rparr>) = avail_frames s"
    "owns (s\<lparr>CURRENT_PROCESS_ID := 0\<rparr>) = owns s" for s :: kernel
    by (auto simp: frame_inv_def avail_frames_def list_frames_def bump_frames_def pool_frames_def owns_def fun_eq_iff)
  have "frame_inv demo_owner" "owns demo_owner 1 [0x101000]"
    "avail_frames demo_owner = avail_frames demo_kernel - {0x101000}"
    using t by (simp_all add: demo_owner_def al fr)
  moreover have "is_live (PROCESS_TABLE demo_owner 1)" "CURRENT_PROCESS_ID demo_owner = 0"
    using more_kernel [OF alloc_more [OF al]] by (simp_all add: demo_owner_def al track_frame_def upd_pcb_def is_live_def)
  ultimately show ?thesis
    using kill_process_reclaims [of demo_owner 1 "[0x101000]"] f by auto
qed

end
