(* ===== verification/Ipc.thy ===== *)
theory Ipc
  imports Scheduler
begin

unbundle bit_operations_syntax

text \<open>
  Rendezvous message passing of \<open>src/kernel/src/syscall.rs\<close>: \<open>send_ipc\<close>, \<open>receive_ipc\<close>, \<open>reply_ipc\<close>
  and the copy of a message from one address space into another one.

  The kernel reaches user memory through the page tables in \<open>CR3\<close>; the model goes through the page walk \<open>translate\<close>
  byte by byte, as \<open>copy_user_message\<close> reloads \<open>CR3\<close> for every byte. An access to an unmapped
  address, or a write to a read-only page while \<open>CR0.WP\<close> is set, faults (\<open>None\<close>).
\<close>

section \<open>User memory\<close>

definition user_load :: "u64 \<Rightarrow> u64 \<Rightarrow> kernel \<Rightarrow> u8 res" where
  "user_load c va s = map_option (\<lambda>t. kmem s (tr_phys t)) (translate (kmem s) c va)"

definition user_store :: "layout \<Rightarrow> u64 \<Rightarrow> u64 \<Rightarrow> u8 \<Rightarrow> kernel \<Rightarrow> kernel res" where
  "user_store L c va b s =
     do {
       t \<leftarrow> translate (kmem s) c va;
       if tr_writable t \<or> \<not> cr0_wp L then Some (s\<lparr>kmem := (kmem s)(tr_phys t := b)\<rparr>) else None
     }"

fun copy_bytes :: "layout \<Rightarrow> u64 \<Rightarrow> u64 \<Rightarrow> u64 \<Rightarrow> u64 \<Rightarrow> nat list \<Rightarrow> kernel \<Rightarrow> kernel res" where
  "copy_bytes L c\<^sub>1 src c\<^sub>2 dst [] s = Some s"
| "copy_bytes L c\<^sub>1 src c\<^sub>2 dst (k # ks) s =
     do {
       b \<leftarrow> user_load c\<^sub>1 (src + word_of_nat k) s;
       s \<leftarrow> user_store L c\<^sub>2 (dst + word_of_nat k) b s;
       copy_bytes L c\<^sub>1 src c\<^sub>2 dst ks s
     }"

definition copy_user_message :: "layout \<Rightarrow> nat \<Rightarrow> u64 \<Rightarrow> nat \<Rightarrow> u64 \<Rightarrow> nat \<Rightarrow> kernel \<Rightarrow> kernel res" where
  "copy_user_message L src_pid src_ptr dst_pid dst_ptr len s =
     (let restore_cr3 = page_table_base (cur s)
      in do {
        s \<leftarrow> copy_bytes L (page_table_base (PROCESS_TABLE s src_pid)) src_ptr
               (page_table_base (PROCESS_TABLE s dst_pid)) dst_ptr [0..<len] s;
        Some (s\<lparr>cr3 := restore_cr3\<rparr>)
      })"

section \<open>Operations\<close>

definition send_ipc :: "layout \<Rightarrow> u64 \<Rightarrow> u64 \<Rightarrow> kernel \<Rightarrow> (outcome \<times> kernel) res" where
  "send_ipc L target_proc msg_ptr s =
     (let current = CURRENT_PROCESS_ID s; target = unat target_proc
      in if current = target \<or> \<not> valid_live_process target_proc s then Some (Ret ERR_INVALID_PROCESS, s)
      else if \<not> contains_range (cur s) msg_ptr 64 then Some (Ret ERR_INVALID_POINTER, s)
      else if pcb_state (PROCESS_TABLE s target) = BlockedOnReceive then
        let dst = ipc_buffer (PROCESS_TABLE s target)
        in if \<not> contains_range (PROCESS_TABLE s target) dst 64 then Some (Ret ERR_INVALID_POINTER, s)
        else do {
          s \<leftarrow> copy_user_message L current msg_ptr target dst IPC_MESSAGE_SIZE s;
          let s = upd_pcb target (\<lambda>p. p\<lparr>ipc_peer := word_of_nat current, pcb_state := Runnable\<rparr>) s;
              s = upd_pcb current (\<lambda>p. p\<lparr>ipc_buffer := msg_ptr, pcb_state := BlockedOnReply target_proc\<rparr>) s
          in Some (block_current K_zero s)
        }
      else
        let s = upd_pcb current (\<lambda>p. p\<lparr>ipc_buffer := msg_ptr, pcb_state := BlockedOnSend target_proc\<rparr>) s
        in Some (block_current K_zero s))"

definition waiting_sender :: "kernel \<Rightarrow> nat \<Rightarrow> nat option" where
  "waiting_sender s current =
     find_first (\<lambda>i. pcb_state (PROCESS_TABLE s i) = BlockedOnSend (word_of_nat current)) [0..<MAX_PROCESSES]"

definition receive_ipc :: "layout \<Rightarrow> u64 \<Rightarrow> kernel \<Rightarrow> (outcome \<times> kernel) res" where
  "receive_ipc L msg_ptr s =
     (let current = CURRENT_PROCESS_ID s
      in if \<not> contains_range (cur s) msg_ptr 64 then Some (Ret ERR_INVALID_POINTER, s)
      else case waiting_sender s current of
             Some sender \<Rightarrow>
               let src = ipc_buffer (PROCESS_TABLE s sender)
               in if \<not> contains_range (PROCESS_TABLE s sender) src 64 then
                 Some (Ret ERR_INVALID_POINTER, upd_pcb sender (\<lambda>p. p\<lparr>pcb_state := Exited\<rparr>) s)
               else do {
                 s \<leftarrow> copy_user_message L sender src current msg_ptr IPC_MESSAGE_SIZE s;
                 let s = upd_pcb current (\<lambda>p. p\<lparr>ipc_buffer := msg_ptr\<rparr>) s;
                     s = upd_pcb sender (\<lambda>p. p\<lparr>pcb_state := BlockedOnReply (word_of_nat current)\<rparr>) s
                 in Some (Ret (word_of_nat sender), s)
               }
           | None \<Rightarrow>
               let s = upd_pcb current (\<lambda>p. p\<lparr>ipc_buffer := msg_ptr, ipc_peer := 0,
                         pcb_state := BlockedOnReceive\<rparr>) s
               in Some (block_current K_receive s))"

definition reply_ipc :: "layout \<Rightarrow> u64 \<Rightarrow> u64 \<Rightarrow> kernel \<Rightarrow> (outcome \<times> kernel) res" where
  "reply_ipc L target_proc msg_ptr s =
     (let current = CURRENT_PROCESS_ID s; target = unat target_proc
      in if \<not> valid_live_process target_proc s then Some (Ret ERR_INVALID_PROCESS, s)
      else if \<not> contains_range (cur s) msg_ptr 64 then Some (Ret ERR_INVALID_POINTER, s)
      else if pcb_state (PROCESS_TABLE s target) = BlockedOnReply (word_of_nat current) then
        let dst = ipc_buffer (PROCESS_TABLE s target)
        in if \<not> contains_range (PROCESS_TABLE s target) dst 64 then Some (Ret ERR_INVALID_POINTER, s)
        else do {
          s \<leftarrow> copy_user_message L current msg_ptr target dst IPC_MESSAGE_SIZE s;
          Some (Ret 0, upd_pcb target (\<lambda>p. p\<lparr>ipc_peer := word_of_nat current, ipc_buffer := 0,
                         pcb_state := Runnable\<rparr>) s)
        }
      else Some (Ret ERR_INVALID_PROCESS, s))"

section \<open>Copying a message\<close>

text \<open>\<open>put_all dps bs m\<close>: the bytes \<open>bs\<close> stored at the addresses \<open>dps\<close>.\<close>

fun put_all :: "u64 list \<Rightarrow> u8 list \<Rightarrow> memory \<Rightarrow> memory" where
  "put_all (a # as) (b # bs) m = put_all as bs (m(a := b))"
| "put_all _ _ m = m"

lemma put_all_outside: "x \<notin> set as \<Longrightarrow> put_all as bs m x = m x"
  by (induction as bs m rule: put_all.induct) auto

lemma put_all_nth:
  "distinct as \<Longrightarrow> length bs = length as \<Longrightarrow> i < length as \<Longrightarrow> put_all as bs m (as ! i) = bs ! i"
proof (induction as bs m arbitrary: i rule: put_all.induct)
  case (1 a as b bs m)
  show ?case
  proof (cases i)
    case 0
    then show ?thesis using 1 by (simp add: put_all_outside)
  next
    case (Suc j)
    then show ?thesis using 1 by (simp del: fun_upd_apply)
  qed
qed auto

text \<open>
  \<open>maps m c ptr n ps\<close>: under page table \<open>c\<close> the \<open>n\<close> bytes at \<open>ptr\<close> are the physical bytes \<open>ps\<close>.
  \<open>table_bytes\<close> are the bytes of the table pages these translations depend on.
\<close>

definition maps :: "memory \<Rightarrow> u64 \<Rightarrow> u64 \<Rightarrow> nat \<Rightarrow> u64 list \<Rightarrow> bool" where
  "maps m c ptr n ps \<longleftrightarrow>
     map (\<lambda>k. map_option tr_phys (translate m c (ptr + word_of_nat k))) [0..<n] = map Some ps"

definition maps_writable :: "layout \<Rightarrow> memory \<Rightarrow> u64 \<Rightarrow> u64 \<Rightarrow> nat \<Rightarrow> bool" where
  "maps_writable L m c ptr n \<longleftrightarrow>
     (\<forall>k < n. \<forall>t. translate m c (ptr + word_of_nat k) = Some t \<longrightarrow> tr_writable t \<or> \<not> cr0_wp L)"

definition table_bytes :: "memory \<Rightarrow> u64 \<Rightarrow> u64 \<Rightarrow> nat \<Rightarrow> u64 set" where
  "table_bytes m c ptr n = (\<Union>k < n. \<Union>q \<in> set (walk_tables m c (ptr + word_of_nat k)). arange q 4096)"

text \<open>
  A transfer is possible when both buffers are mapped, the destination is writable, and the destination
  bytes are distinct and neither source bytes nor part of the page tables in use.
\<close>

definition transfer_ok :: "layout \<Rightarrow> memory \<Rightarrow> u64 \<Rightarrow> u64 \<Rightarrow> u64 \<Rightarrow> u64 \<Rightarrow> nat \<Rightarrow> u64 list \<Rightarrow> u64 list \<Rightarrow> bool" where
  "transfer_ok L m c\<^sub>1 src c\<^sub>2 dst n sps dps \<longleftrightarrow>
     maps m c\<^sub>1 src n sps \<and> maps m c\<^sub>2 dst n dps \<and> maps_writable L m c\<^sub>2 dst n \<and> distinct dps \<and>
     set dps \<inter> set sps = {} \<and> set dps \<inter> (table_bytes m c\<^sub>1 src n \<union> table_bytes m c\<^sub>2 dst n) = {}"

text \<open>What a process reads through its own page table.\<close>

definition user_bytes :: "u64 \<Rightarrow> u64 \<Rightarrow> nat \<Rightarrow> kernel \<Rightarrow> u8 option list" where
  "user_bytes c ptr n s = map (\<lambda>k. user_load c (ptr + word_of_nat k) s) [0..<n]"

lemma maps_length: "maps m c ptr n ps \<Longrightarrow> length ps = n"
  unfolding maps_def by (drule arg_cong [of _ _ length]) simp

lemma maps_nth: "maps m c ptr n ps \<Longrightarrow> k < n \<Longrightarrow> map_option tr_phys (translate m c (ptr + word_of_nat k)) = Some (ps ! k)"
proof -
  assume a: "maps m c ptr n ps" and k: "k < n"
  have "map (\<lambda>k. map_option tr_phys (translate m c (ptr + word_of_nat k))) [0..<n] ! k = map Some ps ! k"
    using a by (simp add: maps_def)
  then show ?thesis using k maps_length [OF a] by simp
qed

lemma translate_outside_tables:
  assumes "k < n" "\<And>x. x \<in> table_bytes m c ptr n \<Longrightarrow> m' x = m x"
  shows "translate m' c (ptr + word_of_nat k) = translate m c (ptr + word_of_nat k)"
  by (rule translate_cong) (use assms in \<open>auto simp: table_bytes_def\<close>)

lemma user_bytes_maps:
  "maps (kmem s) c ptr n ps \<Longrightarrow> user_bytes c ptr n s = map (\<lambda>a. Some (kmem s a)) ps"
  by (intro nth_equalityI)
    (auto simp: user_bytes_def user_load_def maps_length dest!: maps_nth)

lemma user_bytes_cong:
  assumes "maps (kmem s) c ptr n ps" "\<And>x. x \<in> table_bytes (kmem s) c ptr n \<Longrightarrow> kmem s' x = kmem s x"
  shows "user_bytes c ptr n s' = map (\<lambda>a. Some (kmem s' a)) ps"
proof -
  have "map (\<lambda>k. map_option tr_phys (translate (kmem s') c (ptr + word_of_nat k))) [0..<n] =
      map (\<lambda>k. map_option tr_phys (translate (kmem s) c (ptr + word_of_nat k))) [0..<n]"
    using translate_outside_tables [OF _ assms(2)] by (intro map_cong) auto
  then have "maps (kmem s') c ptr n ps" using assms(1) unfolding maps_def by (rule trans)
  then show ?thesis by (rule user_bytes_maps)
qed

lemma copy_bytes_step:
  assumes ok: "transfer_ok L m c\<^sub>1 src c\<^sub>2 dst n sps dps" and k: "k < n"
    and out: "\<And>x. x \<notin> set dps \<Longrightarrow> kmem s x = m x"
  shows "copy_bytes L c\<^sub>1 src c\<^sub>2 dst (k # ks) s =
    copy_bytes L c\<^sub>1 src c\<^sub>2 dst ks (s\<lparr>kmem := (kmem s)(dps ! k := m (sps ! k))\<rparr>)"
proof -
  have ok': "maps m c\<^sub>1 src n sps" "maps m c\<^sub>2 dst n dps" "maps_writable L m c\<^sub>2 dst n"
    "set dps \<inter> set sps = {}" "set dps \<inter> (table_bytes m c\<^sub>1 src n \<union> table_bytes m c\<^sub>2 dst n) = {}"
    using ok by (auto simp: transfer_ok_def)
  have "translate (kmem s) c\<^sub>1 (src + word_of_nat k) = translate m c\<^sub>1 (src + word_of_nat k)"
    "translate (kmem s) c\<^sub>2 (dst + word_of_nat k) = translate m c\<^sub>2 (dst + word_of_nat k)"
    using ok'(5) by (auto intro!: translate_outside_tables [OF k] out)
  moreover obtain t\<^sub>1 where "translate m c\<^sub>1 (src + word_of_nat k) = Some t\<^sub>1" "tr_phys t\<^sub>1 = sps ! k"
    using maps_nth [OF ok'(1) k] by auto
  moreover obtain t\<^sub>2 where "translate m c\<^sub>2 (dst + word_of_nat k) = Some t\<^sub>2" "tr_phys t\<^sub>2 = dps ! k"
    using maps_nth [OF ok'(2) k] by auto
  moreover have "sps ! k \<in> set sps" using k maps_length [OF ok'(1)] by simp
  then have "kmem s (sps ! k) = m (sps ! k)" using ok'(4) by (intro out) blast
  ultimately show ?thesis
    using ok'(3) k by (simp add: user_load_def user_store_def maps_writable_def)
qed

lemma copy_bytes_all:
  assumes ok: "transfer_ok L m c\<^sub>1 src c\<^sub>2 dst n sps dps" and "i \<le> n"
    and "\<And>x. x \<notin> set dps \<Longrightarrow> kmem s x = m x"
  shows "copy_bytes L c\<^sub>1 src c\<^sub>2 dst [i..<n] s =
    Some (s\<lparr>kmem := put_all (drop i dps) (map m (drop i sps)) (kmem s)\<rparr>)"
  using assms(2,3)
proof (induction i arbitrary: s rule: inc_induct)
  case base
  have "length dps = n" "length sps = n" using ok maps_length by (auto simp: transfer_ok_def)
  then show ?case by simp
next
  case (step i)
  have len: "length dps = n" "length sps = n" using ok maps_length by (auto simp: transfer_ok_def)
  let ?s = "s\<lparr>kmem := (kmem s)(dps ! i := m (sps ! i))\<rparr>"
  have "copy_bytes L c\<^sub>1 src c\<^sub>2 dst [i..<n] s = copy_bytes L c\<^sub>1 src c\<^sub>2 dst [Suc i..<n] ?s"
    using copy_bytes_step [OF ok step.hyps(2) step.prems] step.hyps by (simp add: upt_conv_Cons)
  also have "\<dots> = Some (?s\<lparr>kmem := put_all (drop (Suc i) dps) (map m (drop (Suc i) sps)) (kmem ?s)\<rparr>)"
    using step.prems step.hyps len by (intro step.IH) auto
  also have "\<dots> = Some (s\<lparr>kmem := put_all (drop i dps) (map m (drop i sps)) (kmem s)\<rparr>)"
    using len step.hyps by (simp add: Cons_nth_drop_Suc [symmetric])
  finally show ?case .
qed

lemma copy_user_message_delivers:
  assumes "transfer_ok L (kmem s) (page_table_base (PROCESS_TABLE s a)) src
      (page_table_base (PROCESS_TABLE s b)) dst n sps dps"
  shows "\<exists>m. copy_user_message L a src b dst n s = Some (s\<lparr>kmem := m, cr3 := page_table_base (cur s)\<rparr>) \<and>
    (\<forall>x. x \<notin> set dps \<longrightarrow> m x = kmem s x) \<and>
    user_bytes (page_table_base (PROCESS_TABLE s b)) dst n (s\<lparr>kmem := m\<rparr>) =
      user_bytes (page_table_base (PROCESS_TABLE s a)) src n s"
proof -
  let ?c\<^sub>1 = "page_table_base (PROCESS_TABLE s a)" and ?c\<^sub>2 = "page_table_base (PROCESS_TABLE s b)"
  let ?m = "put_all dps (map (kmem s) sps) (kmem s)"
  have ok: "maps (kmem s) ?c\<^sub>1 src n sps" "maps (kmem s) ?c\<^sub>2 dst n dps" "distinct dps"
    "set dps \<inter> table_bytes (kmem s) ?c\<^sub>2 dst n = {}"
    using assms by (auto simp: transfer_ok_def)
  have "copy_bytes L ?c\<^sub>1 src ?c\<^sub>2 dst [0..<n] s = Some (s\<lparr>kmem := ?m\<rparr>)"
    using copy_bytes_all [OF assms, of 0 s] by simp
  moreover have "user_bytes ?c\<^sub>2 dst n (s\<lparr>kmem := ?m\<rparr>) = map (\<lambda>a. Some (?m a)) dps"
  proof -
    have "kmem (s\<lparr>kmem := ?m\<rparr>) x = kmem s x" if "x \<in> table_bytes (kmem s) ?c\<^sub>2 dst n" for x
      using ok(4) that by simp (intro put_all_outside, blast)
    from user_bytes_cong [OF ok(2) this] show ?thesis by simp
  qed
  moreover have "map (\<lambda>a. Some (?m a)) dps = map (\<lambda>a. Some (kmem s a)) sps"
    using ok(3) maps_length [OF ok(1)] maps_length [OF ok(2)]
    by (intro nth_equalityI) (auto simp: put_all_nth)
  ultimately show ?thesis
    using user_bytes_maps [OF ok(1)] by (auto simp: copy_user_message_def Let_def put_all_outside)
qed

lemma user_bytes_kmem: "kmem s' = kmem s \<Longrightarrow> user_bytes c ptr n s' = user_bytes c ptr n s"
  by (simp add: user_bytes_def user_load_def)

lemma block_current_switches:
  assumes "CURRENT_PROCESS_ID s < MAX_PROCESSES" "q < MAX_PROCESSES" "runnable s q"
  obtains n where "n < MAX_PROCESSES" "runnable s n" "block_current k s = (Switched, switch_to k n s)"
proof -
  obtain n where "next_runnable_after (CURRENT_PROCESS_ID s) s = Some n"
    using next_runnable_None [OF assms(1), of s] assms(2,3)
    by (cases "next_runnable_after (CURRENT_PROCESS_ID s) s") auto
  then show thesis using next_runnable_Some [OF assms(1)] that by (auto simp: block_current_def)
qed

lemma switch_to_ipc:
  "ipc_peer (PROCESS_TABLE (switch_to k n s) i) = ipc_peer (PROCESS_TABLE s i)"
  "ipc_buffer (PROCESS_TABLE (switch_to k n s) i) = ipc_buffer (PROCESS_TABLE s i)"
  "page_table_base (PROCESS_TABLE (switch_to k n s) i) = page_table_base (PROCESS_TABLE s i)"
  "layer_base (PROCESS_TABLE (switch_to k n s) i) = layer_base (PROCESS_TABLE s i)"
  "layer_size (PROCESS_TABLE (switch_to k n s) i) = layer_size (PROCESS_TABLE s i)"
  by (auto simp: switch_to_def Let_def resume_simps switch_context_def upd_pcb_def)

section \<open>Properties\<close>

lemma send_ipc_fast_path:
  assumes cur: "CURRENT_PROCESS_ID s = c" "c < MAX_PROCESSES" and t: "unat target = t" "t \<noteq> c" "t < MAX_PROCESSES"
    and st: "pcb_state (PROCESS_TABLE s t) = BlockedOnReceive"
    and rng: "contains_range (PROCESS_TABLE s c) msg 64"
      "contains_range (PROCESS_TABLE s t) (ipc_buffer (PROCESS_TABLE s t)) 64"
    and ok: "transfer_ok L (kmem s) (page_table_base (PROCESS_TABLE s c)) msg
      (page_table_base (PROCESS_TABLE s t)) (ipc_buffer (PROCESS_TABLE s t)) IPC_MESSAGE_SIZE sps dps"
  shows "\<exists>s'. send_ipc L target msg s = Some (Switched, s') \<and>
    pcb_state (PROCESS_TABLE s' t) = Runnable \<and> ipc_peer (PROCESS_TABLE s' t) = word_of_nat c \<and>
    pcb_state (PROCESS_TABLE s' c) = BlockedOnReply target \<and> ipc_buffer (PROCESS_TABLE s' c) = msg \<and>
    (\<forall>i. i \<noteq> c \<longrightarrow> i \<noteq> t \<longrightarrow> pcb_state (PROCESS_TABLE s' i) = pcb_state (PROCESS_TABLE s i)) \<and>
    (\<forall>x. x \<notin> set dps \<longrightarrow> kmem s' x = kmem s x) \<and>
    user_bytes (page_table_base (PROCESS_TABLE s t)) (ipc_buffer (PROCESS_TABLE s t)) IPC_MESSAGE_SIZE s' =
      user_bytes (page_table_base (PROCESS_TABLE s c)) msg IPC_MESSAGE_SIZE s"
proof -
  obtain m where m: "copy_user_message L c msg t (ipc_buffer (PROCESS_TABLE s t)) IPC_MESSAGE_SIZE s =
      Some (s\<lparr>kmem := m, cr3 := page_table_base (cur s)\<rparr>)" "\<forall>x. x \<notin> set dps \<longrightarrow> m x = kmem s x"
    "user_bytes (page_table_base (PROCESS_TABLE s t)) (ipc_buffer (PROCESS_TABLE s t)) IPC_MESSAGE_SIZE (s\<lparr>kmem := m\<rparr>) =
      user_bytes (page_table_base (PROCESS_TABLE s c)) msg IPC_MESSAGE_SIZE s"
    using copy_user_message_delivers [OF ok] by blast
  let ?s1 = "upd_pcb c (\<lambda>p. p\<lparr>ipc_buffer := msg, pcb_state := BlockedOnReply target\<rparr>)
      (upd_pcb t (\<lambda>p. p\<lparr>ipc_peer := word_of_nat c, pcb_state := Runnable\<rparr>)
        (s\<lparr>kmem := m, cr3 := page_table_base (cur s)\<rparr>))"
  have "runnable ?s1 t" using t by (simp add: runnable_def)
  then obtain n where n: "block_current K_zero ?s1 = (Switched, switch_to K_zero n ?s1)"
    using block_current_switches [of ?s1 t K_zero] cur t by auto
  have "send_ipc L target msg s = Some (block_current K_zero ?s1)"
    using cur t st rng m(1) by (simp add: send_ipc_def Let_def valid_live_process_def is_live_def)
  then show ?thesis
    using n m(2,3) t user_bytes_kmem [of "switch_to K_zero n ?s1" "s\<lparr>kmem := m\<rparr>"]
    by (simp add: switch_to_simps switch_to_ipc)
qed

lemma receive_ipc_delivers:
  assumes cur: "CURRENT_PROCESS_ID s = c" and w: "waiting_sender s c = Some a"
    and rng: "contains_range (PROCESS_TABLE s c) msg 64"
      "contains_range (PROCESS_TABLE s a) (ipc_buffer (PROCESS_TABLE s a)) 64"
    and ac: "a \<noteq> c"
    and ok: "transfer_ok L (kmem s) (page_table_base (PROCESS_TABLE s a)) (ipc_buffer (PROCESS_TABLE s a))
      (page_table_base (PROCESS_TABLE s c)) msg IPC_MESSAGE_SIZE sps dps"
  shows "\<exists>s'. receive_ipc L msg s = Some (Ret (word_of_nat a), s') \<and>
    pcb_state (PROCESS_TABLE s' a) = BlockedOnReply (word_of_nat c) \<and>
    (\<forall>i. i \<noteq> a \<longrightarrow> pcb_state (PROCESS_TABLE s' i) = pcb_state (PROCESS_TABLE s i)) \<and>
    ipc_buffer (PROCESS_TABLE s' a) = ipc_buffer (PROCESS_TABLE s a) \<and>
    CURRENT_PROCESS_ID s' = c \<and>
    (\<forall>i. page_table_base (PROCESS_TABLE s' i) = page_table_base (PROCESS_TABLE s i) \<and>
         layer_base (PROCESS_TABLE s' i) = layer_base (PROCESS_TABLE s i) \<and>
         layer_size (PROCESS_TABLE s' i) = layer_size (PROCESS_TABLE s i)) \<and>
    (\<forall>x. x \<notin> set dps \<longrightarrow> kmem s' x = kmem s x) \<and>
    user_bytes (page_table_base (PROCESS_TABLE s c)) msg IPC_MESSAGE_SIZE s' =
      user_bytes (page_table_base (PROCESS_TABLE s a)) (ipc_buffer (PROCESS_TABLE s a)) IPC_MESSAGE_SIZE s"
proof -
  obtain m where m: "copy_user_message L a (ipc_buffer (PROCESS_TABLE s a)) c msg IPC_MESSAGE_SIZE s =
      Some (s\<lparr>kmem := m, cr3 := page_table_base (cur s)\<rparr>)" "\<forall>x. x \<notin> set dps \<longrightarrow> m x = kmem s x"
    "user_bytes (page_table_base (PROCESS_TABLE s c)) msg IPC_MESSAGE_SIZE (s\<lparr>kmem := m\<rparr>) =
      user_bytes (page_table_base (PROCESS_TABLE s a)) (ipc_buffer (PROCESS_TABLE s a)) IPC_MESSAGE_SIZE s"
    using copy_user_message_delivers [OF ok] by blast
  let ?s1 = "upd_pcb a (\<lambda>p. p\<lparr>pcb_state := BlockedOnReply (word_of_nat c)\<rparr>)
      (upd_pcb c (\<lambda>p. p\<lparr>ipc_buffer := msg\<rparr>) (s\<lparr>kmem := m, cr3 := page_table_base (cur s)\<rparr>))"
  have "receive_ipc L msg s = Some (Ret (word_of_nat a), ?s1)"
    using cur w rng m(1) by (simp add: receive_ipc_def Let_def)
  then show ?thesis
    using m(2,3) ac cur user_bytes_kmem [of ?s1 "s\<lparr>kmem := m\<rparr>"] by simp
qed

lemma reply_ipc_delivers:
  assumes cur: "CURRENT_PROCESS_ID s = c" and t: "unat target = t" "t \<noteq> c" "t < MAX_PROCESSES"
    and st: "pcb_state (PROCESS_TABLE s t) = BlockedOnReply (word_of_nat c)"
    and rng: "contains_range (PROCESS_TABLE s c) msg 64"
      "contains_range (PROCESS_TABLE s t) (ipc_buffer (PROCESS_TABLE s t)) 64"
    and ok: "transfer_ok L (kmem s) (page_table_base (PROCESS_TABLE s c)) msg
      (page_table_base (PROCESS_TABLE s t)) (ipc_buffer (PROCESS_TABLE s t)) IPC_MESSAGE_SIZE sps dps"
  shows "\<exists>s'. reply_ipc L target msg s = Some (Ret 0, s') \<and>
    pcb_state (PROCESS_TABLE s' t) = Runnable \<and> ipc_peer (PROCESS_TABLE s' t) = word_of_nat c \<and>
    (\<forall>i. i \<noteq> t \<longrightarrow> PROCESS_TABLE s' i = PROCESS_TABLE s i) \<and>
    (\<forall>x. x \<notin> set dps \<longrightarrow> kmem s' x = kmem s x) \<and>
    user_bytes (page_table_base (PROCESS_TABLE s t)) (ipc_buffer (PROCESS_TABLE s t)) IPC_MESSAGE_SIZE s' =
      user_bytes (page_table_base (PROCESS_TABLE s c)) msg IPC_MESSAGE_SIZE s"
proof -
  obtain m where m: "copy_user_message L c msg t (ipc_buffer (PROCESS_TABLE s t)) IPC_MESSAGE_SIZE s =
      Some (s\<lparr>kmem := m, cr3 := page_table_base (cur s)\<rparr>)" "\<forall>x. x \<notin> set dps \<longrightarrow> m x = kmem s x"
    "user_bytes (page_table_base (PROCESS_TABLE s t)) (ipc_buffer (PROCESS_TABLE s t)) IPC_MESSAGE_SIZE (s\<lparr>kmem := m\<rparr>) =
      user_bytes (page_table_base (PROCESS_TABLE s c)) msg IPC_MESSAGE_SIZE s"
    using copy_user_message_delivers [OF ok] by blast
  let ?s1 = "upd_pcb t (\<lambda>p. p\<lparr>ipc_peer := word_of_nat c, ipc_buffer := 0, pcb_state := Runnable\<rparr>)
      (s\<lparr>kmem := m, cr3 := page_table_base (cur s)\<rparr>)"
  have "reply_ipc L target msg s = Some (Ret 0, ?s1)"
    using cur t st rng m(1) by (simp add: reply_ipc_def Let_def valid_live_process_def is_live_def)
  then show ?thesis
    using m(2,3) user_bytes_kmem [of ?s1 "s\<lparr>kmem := m\<rparr>"] by simp
qed

lemma contains_range_cong:
  "layer_base p = layer_base p' \<Longrightarrow> layer_size p = layer_size p' \<Longrightarrow> contains_range p ptr n = contains_range p' ptr n"
  by (simp add: contains_range_def split: option.split)

lemma transfer_ok_cong:
  assumes ok: "transfer_ok L m c\<^sub>1 src c\<^sub>2 dst n sps dps"
    and out: "\<And>x. x \<in> table_bytes m c\<^sub>1 src n \<union> table_bytes m c\<^sub>2 dst n \<Longrightarrow> m' x = m x"
  shows "transfer_ok L m' c\<^sub>1 src c\<^sub>2 dst n sps dps"
proof -
  have tr: "translate m' c\<^sub>1 (src + word_of_nat k) = translate m c\<^sub>1 (src + word_of_nat k)"
    "translate m' c\<^sub>2 (dst + word_of_nat k) = translate m c\<^sub>2 (dst + word_of_nat k)" if "k < n" for k
    using out by (auto intro!: translate_outside_tables [OF that])
  have wt: "walk_tables m' c (p + word_of_nat k) = walk_tables m c (p + word_of_nat k)"
    if "k < n" "\<And>x. x \<in> table_bytes m c p n \<Longrightarrow> m' x = m x" for k c p
    unfolding walk_tables_def
    by (rule table_path_cong) (use that in \<open>auto simp: table_bytes_def walk_tables_def\<close>)
  have "table_bytes m' c p n = table_bytes m c p n" if "\<And>x. x \<in> table_bytes m c p n \<Longrightarrow> m' x = m x" for c p
    unfolding table_bytes_def using wt [OF _ that] by simp
  then have tb: "table_bytes m' c\<^sub>1 src n = table_bytes m c\<^sub>1 src n" "table_bytes m' c\<^sub>2 dst n = table_bytes m c\<^sub>2 dst n"
    using out by auto
  have "map (\<lambda>k. map_option tr_phys (translate m' c\<^sub>1 (src + word_of_nat k))) [0..<n] =
      map (\<lambda>k. map_option tr_phys (translate m c\<^sub>1 (src + word_of_nat k))) [0..<n]"
    "map (\<lambda>k. map_option tr_phys (translate m' c\<^sub>2 (dst + word_of_nat k))) [0..<n] =
      map (\<lambda>k. map_option tr_phys (translate m c\<^sub>2 (dst + word_of_nat k))) [0..<n]"
    by (auto intro!: map_cong simp: tr)
  then show ?thesis
    using ok unfolding transfer_ok_def tb maps_def maps_writable_def by (simp add: tr)
qed

text \<open>The slow path of \<open>send_ipc\<close>: the receiver is not waiting.\<close>

lemma send_ipc_slow_path:
  assumes cur: "CURRENT_PROCESS_ID s = c" "c < MAX_PROCESSES" and t: "unat target = t" "t \<noteq> c" "t < MAX_PROCESSES"
    and st: "is_live (PROCESS_TABLE s t)" "pcb_state (PROCESS_TABLE s t) \<noteq> BlockedOnReceive"
    and rng: "contains_range (PROCESS_TABLE s c) msg 64"
    and nx: "next_runnable_after c (upd_pcb c (\<lambda>p. p\<lparr>ipc_buffer := msg, pcb_state := BlockedOnSend target\<rparr>) s) = Some n"
  shows "send_ipc L target msg s = Some (Switched,
    switch_to K_zero n (upd_pcb c (\<lambda>p. p\<lparr>ipc_buffer := msg, pcb_state := BlockedOnSend target\<rparr>) s))"
  using assms by (simp add: send_ipc_def Let_def valid_live_process_def block_current_def)

lemma ipc_call:
  assumes cur: "CURRENT_PROCESS_ID s = c" "c < MAX_PROCESSES" and v: "v \<noteq> c" "v < MAX_PROCESSES" "runnable s v"
    and nx: "next_runnable_after c (upd_pcb c (\<lambda>p. p\<lparr>ipc_buffer := cm, pcb_state := BlockedOnSend (word_of_nat v)\<rparr>) s) = Some v"
    and no_sender: "waiting_sender s v = None"
    and rng: "contains_range (PROCESS_TABLE s c) cm 64" "contains_range (PROCESS_TABLE s v) rm 64"
      "contains_range (PROCESS_TABLE s v) pm 64"
    and req: "transfer_ok L (kmem s) (page_table_base (PROCESS_TABLE s c)) cm (page_table_base (PROCESS_TABLE s v)) rm
      IPC_MESSAGE_SIZE sps dps"
    and rsp: "transfer_ok L (kmem s) (page_table_base (PROCESS_TABLE s v)) pm (page_table_base (PROCESS_TABLE s c)) cm
      IPC_MESSAGE_SIZE sps' dps'"
    and sep: "set dps \<inter> (table_bytes (kmem s) (page_table_base (PROCESS_TABLE s v)) pm IPC_MESSAGE_SIZE \<union>
      table_bytes (kmem s) (page_table_base (PROCESS_TABLE s c)) cm IPC_MESSAGE_SIZE) = {}"
  shows "\<exists>s1 s2 s3. send_ipc L (word_of_nat v) cm s = Some (Switched, s1) \<and> CURRENT_PROCESS_ID s1 = v \<and>
    receive_ipc L rm s1 = Some (Ret (word_of_nat c), s2) \<and>
    user_bytes (page_table_base (PROCESS_TABLE s v)) rm IPC_MESSAGE_SIZE s2 =
      user_bytes (page_table_base (PROCESS_TABLE s c)) cm IPC_MESSAGE_SIZE s \<and>
    reply_ipc L (word_of_nat c) pm s2 = Some (Ret 0, s3) \<and>
    user_bytes (page_table_base (PROCESS_TABLE s c)) cm IPC_MESSAGE_SIZE s3 =
      user_bytes (page_table_base (PROCESS_TABLE s v)) pm IPC_MESSAGE_SIZE s2 \<and>
    runnable s3 c \<and> runnable s3 v"
proof -
  have uv: "unat (word_of_nat v :: u64) = v" and uc: "unat (word_of_nat c :: u64) = c" using cur(2) v(2) by simp_all
  let ?b = "upd_pcb c (\<lambda>p. p\<lparr>ipc_buffer := cm, pcb_state := BlockedOnSend (word_of_nat v)\<rparr>) s"
  let ?s1 = "switch_to K_zero v ?b"
  have send: "send_ipc L (word_of_nat v) cm s = Some (Switched, ?s1)"
    using cur v rng(1) nx uv by (intro send_ipc_slow_path [of s c _ v]) (auto simp: runnable_def is_live_def)
  have s1: "CURRENT_PROCESS_ID ?s1 = v" "kmem ?s1 = kmem s" by (simp_all add: switch_to_simps)
  have pt: "page_table_base (PROCESS_TABLE ?s1 i) = page_table_base (PROCESS_TABLE s i)"
    "contains_range (PROCESS_TABLE ?s1 i) ptr k = contains_range (PROCESS_TABLE s i) ptr k" for i ptr k
    by (auto simp: switch_to_ipc intro!: contains_range_cong)
  have cbuf: "ipc_buffer (PROCESS_TABLE ?s1 c) = cm" by (simp add: switch_to_ipc)
  have state1: "pcb_state (PROCESS_TABLE ?s1 i) = (if i = c then BlockedOnSend (word_of_nat v) else pcb_state (PROCESS_TABLE s i))" for i
    by (simp add: switch_to_simps)
  have w: "waiting_sender ?s1 v = Some c"
  proof -
    have "waiting_sender ?s1 v = find_first (\<lambda>i. i = c) [0..<MAX_PROCESSES]"
      unfolding waiting_sender_def
      using no_sender by (intro find_first_cong) (auto simp: state1 waiting_sender_def)
    moreover obtain j where "find_first (\<lambda>i. i = c) [0..<MAX_PROCESSES] = Some j"
      using cur(2) by (cases "find_first (\<lambda>i. i = c) [0..<MAX_PROCESSES]") (auto simp del: upt.simps)
    ultimately show ?thesis by (auto dest: find_first_Some)
  qed
  have req1: "transfer_ok L (kmem ?s1) (page_table_base (PROCESS_TABLE ?s1 c)) (ipc_buffer (PROCESS_TABLE ?s1 c))
      (page_table_base (PROCESS_TABLE ?s1 v)) rm IPC_MESSAGE_SIZE sps dps"
    using req by (simp add: s1 pt cbuf)
  have rng1: "contains_range (PROCESS_TABLE ?s1 v) rm 64"
    "contains_range (PROCESS_TABLE ?s1 c) (ipc_buffer (PROCESS_TABLE ?s1 c)) 64"
    using rng unfolding cbuf pt by simp_all
  from receive_ipc_delivers [OF s1(1) w rng1 v(1) [symmetric] req1]
  obtain s2 where s2: "receive_ipc L rm ?s1 = Some (Ret (word_of_nat c), s2)"
    "pcb_state (PROCESS_TABLE s2 c) = BlockedOnReply (word_of_nat v)"
    "\<forall>i. i \<noteq> c \<longrightarrow> pcb_state (PROCESS_TABLE s2 i) = pcb_state (PROCESS_TABLE ?s1 i)"
    "\<forall>x. x \<notin> set dps \<longrightarrow> kmem s2 x = kmem s x"
    "user_bytes (page_table_base (PROCESS_TABLE s v)) rm IPC_MESSAGE_SIZE s2 =
      user_bytes (page_table_base (PROCESS_TABLE s c)) cm IPC_MESSAGE_SIZE ?s1"
    "CURRENT_PROCESS_ID s2 = v" "ipc_buffer (PROCESS_TABLE s2 c) = cm"
    and same: "\<forall>i. page_table_base (PROCESS_TABLE s2 i) = page_table_base (PROCESS_TABLE ?s1 i) \<and>
         layer_base (PROCESS_TABLE s2 i) = layer_base (PROCESS_TABLE ?s1 i) \<and>
         layer_size (PROCESS_TABLE s2 i) = layer_size (PROCESS_TABLE ?s1 i)"
    unfolding cbuf pt(1) s1(2) by blast
  have pt2: "page_table_base (PROCESS_TABLE s2 i) = page_table_base (PROCESS_TABLE s i)"
    "contains_range (PROCESS_TABLE s2 i) ptr k = contains_range (PROCESS_TABLE s i) ptr k" for i ptr k
    using same contains_range_cong [of "PROCESS_TABLE s2 i" "PROCESS_TABLE ?s1 i" ptr k] pt by auto
  have rsp2: "transfer_ok L (kmem s2) (page_table_base (PROCESS_TABLE s2 v)) pm (page_table_base (PROCESS_TABLE s2 c))
      (ipc_buffer (PROCESS_TABLE s2 c)) IPC_MESSAGE_SIZE sps' dps'"
    using rsp s2(4) sep unfolding pt2 s2(7) by (intro transfer_ok_cong [OF rsp]) auto
  have rng2: "contains_range (PROCESS_TABLE s2 v) pm 64"
    "contains_range (PROCESS_TABLE s2 c) (ipc_buffer (PROCESS_TABLE s2 c)) 64"
    using rng by (simp_all add: pt2 s2(7))
  obtain s3 where s3: "reply_ipc L (word_of_nat c) pm s2 = Some (Ret 0, s3)" "pcb_state (PROCESS_TABLE s3 c) = Runnable"
    "\<forall>i. i \<noteq> c \<longrightarrow> PROCESS_TABLE s3 i = PROCESS_TABLE s2 i"
    "user_bytes (page_table_base (PROCESS_TABLE s c)) cm IPC_MESSAGE_SIZE s3 =
      user_bytes (page_table_base (PROCESS_TABLE s v)) pm IPC_MESSAGE_SIZE s2"
    using reply_ipc_delivers [OF s2(6) uc v(1) [symmetric] cur(2) s2(2) rng2 rsp2] by (auto simp: pt2 s2(7))
  have "runnable s3 v" using s3(3) s2(3) v state1 [of v] by (simp add: runnable_def)
  then show ?thesis
    using send s1(1) s2(1,5) s3 user_bytes_kmem [OF s1(2)] unfolding runnable_def by metis
qed

text \<open>The server is first: it blocks in \<open>receive_ipc\<close>, and the client's \<open>send_ipc\<close> delivers directly and wakes it.\<close>

lemma next_runnable_cong: "(\<And>i. runnable s' i = runnable s i) \<Longrightarrow> next_runnable_after c s' = next_runnable_after c s"
proof -
  assume "\<And>i. runnable s' i = runnable s i"
  then have "runnable s' = runnable s" by (rule ext)
  then show ?thesis by (simp add: next_runnable_after_def)
qed

lemma receive_ipc_blocks:
  assumes "CURRENT_PROCESS_ID s = v" "waiting_sender s v = None" "contains_range (PROCESS_TABLE s v) rm 64"
    and "next_runnable_after v (upd_pcb v (\<lambda>p. p\<lparr>pcb_state := BlockedOnReceive\<rparr>) s) = Some n"
  shows "receive_ipc L rm s = Some (Switched,
    switch_to K_receive n (upd_pcb v (\<lambda>p. p\<lparr>ipc_buffer := rm, ipc_peer := 0, pcb_state := BlockedOnReceive\<rparr>) s))"
proof -
  have "next_runnable_after v (upd_pcb v (\<lambda>p. p\<lparr>ipc_buffer := rm, ipc_peer := 0, pcb_state := BlockedOnReceive\<rparr>) s) = Some n"
    unfolding assms(4) [symmetric] by (rule next_runnable_cong) (simp add: runnable_def)
  then show ?thesis using assms(1-3) by (simp add: receive_ipc_def Let_def block_current_def)
qed

lemma send_ipc_fast_state:
  assumes cur: "CURRENT_PROCESS_ID s = c" and t: "unat target = t" "t \<noteq> c" "t < MAX_PROCESSES"
    and st: "pcb_state (PROCESS_TABLE s t) = BlockedOnReceive"
    and rng: "contains_range (PROCESS_TABLE s c) msg 64"
      "contains_range (PROCESS_TABLE s t) (ipc_buffer (PROCESS_TABLE s t)) 64"
    and ok: "transfer_ok L (kmem s) (page_table_base (PROCESS_TABLE s c)) msg
      (page_table_base (PROCESS_TABLE s t)) (ipc_buffer (PROCESS_TABLE s t)) IPC_MESSAGE_SIZE sps dps"
    and nx: "next_runnable_after c (upd_pcb c (\<lambda>p. p\<lparr>pcb_state := BlockedOnReply target\<rparr>)
      (upd_pcb t (\<lambda>p. p\<lparr>pcb_state := Runnable\<rparr>) s)) = Some n"
  obtains m where "send_ipc L target msg s = Some (Switched, switch_to K_zero n
      (upd_pcb c (\<lambda>p. p\<lparr>ipc_buffer := msg, pcb_state := BlockedOnReply target\<rparr>)
        (upd_pcb t (\<lambda>p. p\<lparr>ipc_peer := word_of_nat c, pcb_state := Runnable\<rparr>)
          (s\<lparr>kmem := m, cr3 := page_table_base (cur s)\<rparr>))))"
    "\<forall>x. x \<notin> set dps \<longrightarrow> m x = kmem s x"
    "user_bytes (page_table_base (PROCESS_TABLE s t)) (ipc_buffer (PROCESS_TABLE s t)) IPC_MESSAGE_SIZE (s\<lparr>kmem := m\<rparr>) =
      user_bytes (page_table_base (PROCESS_TABLE s c)) msg IPC_MESSAGE_SIZE s"
proof -
  obtain m where m: "copy_user_message L c msg t (ipc_buffer (PROCESS_TABLE s t)) IPC_MESSAGE_SIZE s =
      Some (s\<lparr>kmem := m, cr3 := page_table_base (cur s)\<rparr>)" "\<forall>x. x \<notin> set dps \<longrightarrow> m x = kmem s x"
    "user_bytes (page_table_base (PROCESS_TABLE s t)) (ipc_buffer (PROCESS_TABLE s t)) IPC_MESSAGE_SIZE (s\<lparr>kmem := m\<rparr>) =
      user_bytes (page_table_base (PROCESS_TABLE s c)) msg IPC_MESSAGE_SIZE s"
    using copy_user_message_delivers [OF ok] by blast
  let ?s1 = "upd_pcb c (\<lambda>p. p\<lparr>ipc_buffer := msg, pcb_state := BlockedOnReply target\<rparr>)
      (upd_pcb t (\<lambda>p. p\<lparr>ipc_peer := word_of_nat c, pcb_state := Runnable\<rparr>)
        (s\<lparr>kmem := m, cr3 := page_table_base (cur s)\<rparr>))"
  have "next_runnable_after c ?s1 = Some n"
    unfolding nx [symmetric] by (rule next_runnable_cong) (simp add: runnable_def)
  moreover have "send_ipc L target msg s = Some (block_current K_zero ?s1)"
    using cur t st rng m(1) by (simp add: send_ipc_def Let_def valid_live_process_def is_live_def)
  ultimately have "send_ipc L target msg s = Some (Switched, switch_to K_zero n ?s1)"
    using cur by (simp add: block_current_def)
  then show thesis using m(2,3) by (rule that)
qed

lemma switch_to_receiver:
  assumes "CONT s v = K_receive" "v \<noteq> CURRENT_PROCESS_ID s"
  shows "RAX (switch_to k v s) v = ipc_peer (PROCESS_TABLE s v)"
  using assms by (simp add: switch_to_def Let_def resume_def switch_context_simps) (simp add: switch_context_def Let_def upd_pcb_def)

lemma switch_to_CONT:
  assumes "v = CURRENT_PROCESS_ID s" "n \<noteq> v"
  shows "CONT (switch_to k n s) v = k"
  using assms by (simp add: switch_to_def Let_def resume_def switch_context_simps split: kcont.splits)

lemma ipc_receiver_first:
  assumes cur: "CURRENT_PROCESS_ID s = v" "c < MAX_PROCESSES" "v < MAX_PROCESSES" "v \<noteq> c"
    and run: "runnable s c" "runnable s v" and no_sender: "waiting_sender s v = None"
    and nx: "next_runnable_after v (upd_pcb v (\<lambda>p. p\<lparr>pcb_state := BlockedOnReceive\<rparr>) s) = Some c"
      "next_runnable_after c (upd_pcb c (\<lambda>p. p\<lparr>pcb_state := BlockedOnReply (word_of_nat v)\<rparr>) s) = Some v"
    and rng: "contains_range (PROCESS_TABLE s c) cm 64" "contains_range (PROCESS_TABLE s v) rm 64"
      "contains_range (PROCESS_TABLE s v) pm 64"
    and req: "transfer_ok L (kmem s) (page_table_base (PROCESS_TABLE s c)) cm (page_table_base (PROCESS_TABLE s v)) rm
      IPC_MESSAGE_SIZE sps dps"
    and rsp: "transfer_ok L (kmem s) (page_table_base (PROCESS_TABLE s v)) pm (page_table_base (PROCESS_TABLE s c)) cm
      IPC_MESSAGE_SIZE sps' dps'"
    and sep: "set dps \<inter> (table_bytes (kmem s) (page_table_base (PROCESS_TABLE s v)) pm IPC_MESSAGE_SIZE \<union>
      table_bytes (kmem s) (page_table_base (PROCESS_TABLE s c)) cm IPC_MESSAGE_SIZE) = {}"
  shows "\<exists>s1 s2 s3. receive_ipc L rm s = Some (Switched, s1) \<and> CURRENT_PROCESS_ID s1 = c \<and>
    pcb_state (PROCESS_TABLE s1 v) = BlockedOnReceive \<and>
    send_ipc L (word_of_nat v) cm s1 = Some (Switched, s2) \<and> CURRENT_PROCESS_ID s2 = v \<and> RAX s2 v = word_of_nat c \<and>
    pcb_state (PROCESS_TABLE s2 v) = Runnable \<and> pcb_state (PROCESS_TABLE s2 c) = BlockedOnReply (word_of_nat v) \<and>
    user_bytes (page_table_base (PROCESS_TABLE s v)) rm IPC_MESSAGE_SIZE s2 =
      user_bytes (page_table_base (PROCESS_TABLE s c)) cm IPC_MESSAGE_SIZE s \<and>
    reply_ipc L (word_of_nat c) pm s2 = Some (Ret 0, s3) \<and>
    user_bytes (page_table_base (PROCESS_TABLE s c)) cm IPC_MESSAGE_SIZE s3 =
      user_bytes (page_table_base (PROCESS_TABLE s v)) pm IPC_MESSAGE_SIZE s2 \<and>
    runnable s3 c \<and> runnable s3 v"
proof -
  have uv: "unat (word_of_nat v :: u64) = v" and uc: "unat (word_of_nat c :: u64) = c" using cur(2,3) by simp_all
  let ?b = "upd_pcb v (\<lambda>p. p\<lparr>ipc_buffer := rm, ipc_peer := 0, pcb_state := BlockedOnReceive\<rparr>) s"
  let ?s1 = "switch_to K_receive c ?b"
  have rcv: "receive_ipc L rm s = Some (Switched, ?s1)" by (rule receive_ipc_blocks [OF cur(1) no_sender rng(2) nx(1)])
  have s1: "CURRENT_PROCESS_ID ?s1 = c" "kmem ?s1 = kmem s" by (simp_all add: switch_to_simps)
  have pt1: "page_table_base (PROCESS_TABLE ?s1 i) = page_table_base (PROCESS_TABLE s i)"
    "contains_range (PROCESS_TABLE ?s1 i) ptr k = contains_range (PROCESS_TABLE s i) ptr k" for i ptr k
    by (auto simp: switch_to_ipc intro!: contains_range_cong)
  have b1: "ipc_buffer (PROCESS_TABLE ?s1 v) = rm" by (simp add: switch_to_ipc)
  have st1: "pcb_state (PROCESS_TABLE ?s1 i) = (if i = v then BlockedOnReceive else pcb_state (PROCESS_TABLE s i))" for i
    by (simp add: switch_to_simps)
  have cont: "CONT ?s1 v = K_receive" using cur(1,4) by (intro switch_to_CONT) simp_all
  have nx1: "next_runnable_after c (upd_pcb c (\<lambda>p. p\<lparr>pcb_state := BlockedOnReply (word_of_nat v)\<rparr>)
      (upd_pcb v (\<lambda>p. p\<lparr>pcb_state := Runnable\<rparr>) ?s1)) = Some v"
    unfolding nx(2) [symmetric] using run(2) by (intro next_runnable_cong) (auto simp: runnable_def st1)
  have rng1: "contains_range (PROCESS_TABLE ?s1 c) cm 64" "contains_range (PROCESS_TABLE ?s1 v) (ipc_buffer (PROCESS_TABLE ?s1 v)) 64"
    using rng unfolding b1 pt1 by simp_all
  have req1: "transfer_ok L (kmem ?s1) (page_table_base (PROCESS_TABLE ?s1 c)) cm
      (page_table_base (PROCESS_TABLE ?s1 v)) (ipc_buffer (PROCESS_TABLE ?s1 v)) IPC_MESSAGE_SIZE sps dps"
    using req by (simp add: s1 pt1 b1)
  have st: "pcb_state (PROCESS_TABLE ?s1 v) = BlockedOnReceive" by (simp add: st1)
  obtain m where m: "send_ipc L (word_of_nat v) cm ?s1 = Some (Switched, switch_to K_zero v
      (upd_pcb c (\<lambda>p. p\<lparr>ipc_buffer := cm, pcb_state := BlockedOnReply (word_of_nat v)\<rparr>)
        (upd_pcb v (\<lambda>p. p\<lparr>ipc_peer := word_of_nat c, pcb_state := Runnable\<rparr>)
          (?s1\<lparr>kmem := m, cr3 := page_table_base (cur ?s1)\<rparr>))))"
    "\<forall>x. x \<notin> set dps \<longrightarrow> m x = kmem ?s1 x"
    "user_bytes (page_table_base (PROCESS_TABLE ?s1 v)) (ipc_buffer (PROCESS_TABLE ?s1 v)) IPC_MESSAGE_SIZE (?s1\<lparr>kmem := m\<rparr>) =
      user_bytes (page_table_base (PROCESS_TABLE ?s1 c)) cm IPC_MESSAGE_SIZE ?s1"
    by (rule send_ipc_fast_state [OF s1(1) uv cur(4,3) st rng1 req1 nx1])
  define b2 where "b2 = upd_pcb c (\<lambda>p. p\<lparr>ipc_buffer := cm, pcb_state := BlockedOnReply (word_of_nat v)\<rparr>)
        (upd_pcb v (\<lambda>p. p\<lparr>ipc_peer := word_of_nat c, pcb_state := Runnable\<rparr>)
          (?s1\<lparr>kmem := m, cr3 := page_table_base (cur ?s1)\<rparr>))"
  let ?s2 = "switch_to K_zero v b2"
  have cb: "CURRENT_PROCESS_ID b2 = c" "CONT b2 v = K_receive" "kmem b2 = m" "ipc_peer (PROCESS_TABLE b2 v) = word_of_nat c"
    using s1(1) cont cur(4) by (simp_all add: b2_def)
  have s2: "CURRENT_PROCESS_ID ?s2 = v" "kmem ?s2 = m" "RAX ?s2 v = word_of_nat c"
    using switch_to_receiver [of b2 v K_zero] cb cur(4) by (simp_all add: switch_to_simps)
  have st2: "pcb_state (PROCESS_TABLE ?s2 v) = Runnable" "pcb_state (PROCESS_TABLE ?s2 c) = BlockedOnReply (word_of_nat v)"
    using cur(4) by (simp_all add: switch_to_simps b2_def)
  have pt2: "page_table_base (PROCESS_TABLE ?s2 i) = page_table_base (PROCESS_TABLE s i)"
    "contains_range (PROCESS_TABLE ?s2 i) ptr k = contains_range (PROCESS_TABLE s i) ptr k" for i ptr k
    by (auto simp: switch_to_ipc b2_def intro!: contains_range_cong)
  have b2: "ipc_buffer (PROCESS_TABLE ?s2 c) = cm" by (simp add: switch_to_ipc b2_def)
  have got: "user_bytes (page_table_base (PROCESS_TABLE s v)) rm IPC_MESSAGE_SIZE ?s2 =
      user_bytes (page_table_base (PROCESS_TABLE s c)) cm IPC_MESSAGE_SIZE s"
    using m(3) user_bytes_kmem [of ?s2 "?s1\<lparr>kmem := m\<rparr>"] user_bytes_kmem [OF s1(2)] s2(2) by (simp add: pt1 b1)
  have rsp2: "transfer_ok L (kmem ?s2) (page_table_base (PROCESS_TABLE ?s2 v)) pm (page_table_base (PROCESS_TABLE ?s2 c))
      (ipc_buffer (PROCESS_TABLE ?s2 c)) IPC_MESSAGE_SIZE sps' dps'"
    using m(2) sep unfolding pt2 b2 s2(2) s1(2) by (intro transfer_ok_cong [OF rsp]) auto
  have rng2: "contains_range (PROCESS_TABLE ?s2 v) pm 64"
    "contains_range (PROCESS_TABLE ?s2 c) (ipc_buffer (PROCESS_TABLE ?s2 c)) 64"
    using rng by (simp_all add: pt2 b2)
  obtain s3 where s3: "reply_ipc L (word_of_nat c) pm ?s2 = Some (Ret 0, s3)" "pcb_state (PROCESS_TABLE s3 c) = Runnable"
    "\<forall>i. i \<noteq> c \<longrightarrow> PROCESS_TABLE s3 i = PROCESS_TABLE ?s2 i"
    "user_bytes (page_table_base (PROCESS_TABLE s c)) cm IPC_MESSAGE_SIZE s3 =
      user_bytes (page_table_base (PROCESS_TABLE s v)) pm IPC_MESSAGE_SIZE ?s2"
    using reply_ipc_delivers [OF s2(1) uc cur(4) [symmetric] cur(2) st2(2) rng2 rsp2] by (auto simp: pt2 b2)
  have "runnable s3 v" "runnable s3 c" using s3(2,3) st2(1) cur(4) by (simp_all add: runnable_def)
  then show ?thesis using rcv s1(1) st m(1) [folded b2_def] s2(1,3) st2 got s3(1,4) by blast
qed

text \<open>
  C4: A remote call over the rendezvous primitives, in both orders. If the server \<open>v\<close> is first, its \<open>receive_ipc\<close> finds no
  sender and blocks, and the client's \<open>send_ipc\<close> copies the message straight into its buffer, makes it runnable and
  blocks until the reply. If the client \<open>c\<close> is first, its \<open>send_ipc\<close> blocks and the server's \<open>receive_ipc\<close>
  collects the message. In both orders no call faults, the server gets the client's number as the result of its receive
  and finds in its buffer exactly the 64 bytes the client sent, the server's \<open>reply_ipc\<close> returns 0, the client's
  buffer then holds exactly the server's reply, and both processes can run again. The buffers must pass the pointer
  checks, be mapped (the destinations writable), and not overlap the page tables; the partner is next in the round
  robin at each switch.
\<close>

theorem ipc_call_roundtrip:
  assumes "c < MAX_PROCESSES" "v < MAX_PROCESSES" "v \<noteq> c" "runnable s c" "runnable s v" "waiting_sender s v = None"
    and "contains_range (PROCESS_TABLE s c) cm 64" "contains_range (PROCESS_TABLE s v) rm 64"
      "contains_range (PROCESS_TABLE s v) pm 64"
    and "transfer_ok L (kmem s) (page_table_base (PROCESS_TABLE s c)) cm (page_table_base (PROCESS_TABLE s v)) rm
      IPC_MESSAGE_SIZE sps dps"
    and "transfer_ok L (kmem s) (page_table_base (PROCESS_TABLE s v)) pm (page_table_base (PROCESS_TABLE s c)) cm
      IPC_MESSAGE_SIZE sps' dps'"
    and "set dps \<inter> (table_bytes (kmem s) (page_table_base (PROCESS_TABLE s v)) pm IPC_MESSAGE_SIZE \<union>
      table_bytes (kmem s) (page_table_base (PROCESS_TABLE s c)) cm IPC_MESSAGE_SIZE) = {}"
  shows "(CURRENT_PROCESS_ID s = v \<longrightarrow>
      next_runnable_after v (upd_pcb v (\<lambda>p. p\<lparr>pcb_state := BlockedOnReceive\<rparr>) s) = Some c \<longrightarrow>
      next_runnable_after c (upd_pcb c (\<lambda>p. p\<lparr>pcb_state := BlockedOnReply (word_of_nat v)\<rparr>) s) = Some v \<longrightarrow>
      (\<exists>s1 s2 s3. receive_ipc L rm s = Some (Switched, s1) \<and> CURRENT_PROCESS_ID s1 = c \<and>
        pcb_state (PROCESS_TABLE s1 v) = BlockedOnReceive \<and>
        send_ipc L (word_of_nat v) cm s1 = Some (Switched, s2) \<and> CURRENT_PROCESS_ID s2 = v \<and> RAX s2 v = word_of_nat c \<and>
        pcb_state (PROCESS_TABLE s2 v) = Runnable \<and> pcb_state (PROCESS_TABLE s2 c) = BlockedOnReply (word_of_nat v) \<and>
        user_bytes (page_table_base (PROCESS_TABLE s v)) rm IPC_MESSAGE_SIZE s2 =
          user_bytes (page_table_base (PROCESS_TABLE s c)) cm IPC_MESSAGE_SIZE s \<and>
        reply_ipc L (word_of_nat c) pm s2 = Some (Ret 0, s3) \<and>
        user_bytes (page_table_base (PROCESS_TABLE s c)) cm IPC_MESSAGE_SIZE s3 =
          user_bytes (page_table_base (PROCESS_TABLE s v)) pm IPC_MESSAGE_SIZE s2 \<and>
        runnable s3 c \<and> runnable s3 v)) \<and>
    (CURRENT_PROCESS_ID s = c \<longrightarrow>
      next_runnable_after c (upd_pcb c (\<lambda>p. p\<lparr>ipc_buffer := cm, pcb_state := BlockedOnSend (word_of_nat v)\<rparr>) s) = Some v \<longrightarrow>
      (\<exists>s1 s2 s3. send_ipc L (word_of_nat v) cm s = Some (Switched, s1) \<and> CURRENT_PROCESS_ID s1 = v \<and>
        receive_ipc L rm s1 = Some (Ret (word_of_nat c), s2) \<and>
        user_bytes (page_table_base (PROCESS_TABLE s v)) rm IPC_MESSAGE_SIZE s2 =
          user_bytes (page_table_base (PROCESS_TABLE s c)) cm IPC_MESSAGE_SIZE s \<and>
        reply_ipc L (word_of_nat c) pm s2 = Some (Ret 0, s3) \<and>
        user_bytes (page_table_base (PROCESS_TABLE s c)) cm IPC_MESSAGE_SIZE s3 =
          user_bytes (page_table_base (PROCESS_TABLE s v)) pm IPC_MESSAGE_SIZE s2 \<and>
        runnable s3 c \<and> runnable s3 v))"
  by (intro conjI impI)
    (erule (2) ipc_receiver_first [OF _ assms(1-6) _ _ assms(7-12)], erule ipc_call [OF _ assms(1,3,2,5) _ assms(6-12)])

text \<open>
  Immediate rendezvous. If the receiver already waits in \<open>receive_ipc\<close>, \<open>send_ipc\<close> copies the 64 bytes of the
  message into the receiver's buffer at once, makes the receiver runnable with the sender's number in \<open>ipc_peer\<close>, and
  blocks the sender until a reply; no other process changes state and no memory outside the receiver's buffer is written.
\<close>

theorem ipc_send_rendezvous:
  assumes "CURRENT_PROCESS_ID s = c" "c < MAX_PROCESSES" "unat target = t" "t \<noteq> c" "t < MAX_PROCESSES"
    and "pcb_state (PROCESS_TABLE s t) = BlockedOnReceive"
    and "contains_range (PROCESS_TABLE s c) msg 64"
      "contains_range (PROCESS_TABLE s t) (ipc_buffer (PROCESS_TABLE s t)) 64"
    and "transfer_ok L (kmem s) (page_table_base (PROCESS_TABLE s c)) msg
      (page_table_base (PROCESS_TABLE s t)) (ipc_buffer (PROCESS_TABLE s t)) IPC_MESSAGE_SIZE sps dps"
  shows "\<exists>s'. send_ipc L target msg s = Some (Switched, s') \<and>
    pcb_state (PROCESS_TABLE s' t) = Runnable \<and> ipc_peer (PROCESS_TABLE s' t) = word_of_nat c \<and>
    pcb_state (PROCESS_TABLE s' c) = BlockedOnReply target \<and> ipc_buffer (PROCESS_TABLE s' c) = msg \<and>
    (\<forall>i. i \<noteq> c \<longrightarrow> i \<noteq> t \<longrightarrow> pcb_state (PROCESS_TABLE s' i) = pcb_state (PROCESS_TABLE s i)) \<and>
    (\<forall>x. x \<notin> set dps \<longrightarrow> kmem s' x = kmem s x) \<and>
    user_bytes (page_table_base (PROCESS_TABLE s t)) (ipc_buffer (PROCESS_TABLE s t)) IPC_MESSAGE_SIZE s' =
      user_bytes (page_table_base (PROCESS_TABLE s c)) msg IPC_MESSAGE_SIZE s"
  by (rule send_ipc_fast_path [OF assms])

subsection \<open>Two processes with one gibibyte page each\<close>

lemma pt_index_window:
  assumes "unat va = 0x100000000000 + k" "k < 0x40000000"
  shows "pt_index 39 va = 32" "pt_index 30 va = 0" "va AND 0x3FFFFFFF = word_of_nat k"
proof -
  have idx: "unat (pt_index sh va) = unat va div 2 ^ sh mod 512" if "sh < 64" for sh
  proof -
    have "pt_index sh va = take_bit 9 (drop_bit sh va)"
      by (simp add: pt_index_def take_bit_eq_mask mask_eq_exp_minus_1)
    then have "unat (pt_index sh va) = take_bit 9 (drop_bit sh (unat va))"
      by (simp only: unsigned_take_bit_eq unat_drop_bit_eq)
    then show ?thesis by (simp add: take_bit_eq_mod drop_bit_eq_div)
  qed
  have "(0x100000000000 + k) div 2 ^ 39 = 32" "(0x100000000000 + k) div 2 ^ 30 = 16384" using assms(2) by simp_all
  then show "pt_index 39 va = 32" "pt_index 30 va = 0"
    using idx [of 39] idx [of 30] assms(1) by (simp_all add: word_unat_eq_iff)
  have "va AND 0x3FFFFFFF = take_bit 30 va" by (simp add: take_bit_eq_mask mask_eq_exp_minus_1)
  moreover have "unat (take_bit 30 va) = take_bit 30 (unat va)" by (simp only: unsigned_take_bit_eq)
  moreover have "unat va = k + 16384 * 2 ^ 30" using assms(1) by simp
  then have "take_bit 30 (unat va) = k"
    using assms(2) by (simp only: take_bit_eq_mod mod_mult_self1) simp
  moreover have "unat (word_of_nat k :: u64) = k" using assms(2) by simp
  ultimately show "va AND 0x3FFFFFFF = word_of_nat k" by (simp add: word_unat_eq_iff)
qed

lemma huge_window:
  assumes "unat va = 0x100000000000 + k" "k < 0x40000000" and c: "c AND PHYS_MASK = c"
    and e4: "read_u64 m (c + 0x100) = e4" "flag e4 PAGE_PRESENT" "\<not> flag e4 PAGE_HUGE" "flag e4 PAGE_WRITABLE"
      "e4 AND PHYS_MASK = d"
    and e3: "read_u64 m d = e3" "flag e3 PAGE_PRESENT" "flag e3 PAGE_HUGE" "flag e3 PAGE_WRITABLE"
      "e3 AND 0x000FFFFFC0000000 = g" "g AND 0x3FFFFFFF = 0"
  shows "\<exists>t. translate m c va = Some t \<and> tr_phys t = g + word_of_nat k \<and> tr_writable t" "walk_tables m c va = [c, d]"
proof -
  note ix = pt_index_window [OF assms(1,2)]
  have "g + word_of_nat k = g OR word_of_nat k"
  proof (rule disjunctive_add)
    fix n
    have "bit (word_of_nat k :: u64) n \<Longrightarrow> bit (0x3FFFFFFF :: u64) n"
      unfolding ix(3) [symmetric] by (simp only: bit_and_iff)
    moreover have "\<not> bit (g AND 0x3FFFFFFF) n" using e3(6) by simp
    ultimately show "\<not> bit g n \<or> \<not> bit (word_of_nat k :: u64) n" by (auto simp: bit_and_iff)
  qed
  then show "\<exists>t. translate m c va = Some t \<and> tr_phys t = g + word_of_nat k \<and> tr_writable t"
    using c e4 e3 by (simp add: translate_def Let_def ix entry_at_def)
  show "walk_tables m c va = [c, d]"
    using c e4 e3 by (simp add: walk_tables_def Let_def ix entry_at_def)
qed

text \<open>
  Client (slot 1): PML4 at \<open>0x1000\<close>, one page at \<open>0x40000000\<close>. Server (slot 2): PML4 at
  \<open>0x3000\<close>, one page at \<open>0x80000000\<close>. Both windows start at \<open>EPHEMERAL_BASE\<close>.
\<close>

definition ipc_mem :: memory where
  "ipc_mem = write_u64 (write_u64 (write_u64 (write_u64 (\<lambda>a. ucast a)
     0x1100 0x2007) 0x2000 0x40000087) 0x3100 0x4007) 0x4000 0x80000087"

lemma ipc_mem_entries:
  "read_u64 ipc_mem 0x1100 = 0x2007" "read_u64 ipc_mem 0x2000 = 0x40000087"
  "read_u64 ipc_mem 0x3100 = 0x4007" "read_u64 ipc_mem 0x4000 = 0x80000087"
  by (simp_all add: ipc_mem_def read_write_u64 read_write_u64_apart)

lemma ipc_window_client:
  assumes "unat va = 0x100000000000 + k" "k < 0x40000000"
  shows "\<exists>t. translate ipc_mem 0x1000 va = Some t \<and> tr_phys t = 0x40000000 + word_of_nat k \<and> tr_writable t"
    "walk_tables ipc_mem 0x1000 va = [0x1000, 0x2000]"
  using huge_window [OF assms, of "0x1000" ipc_mem "0x2007" "0x2000" "0x40000087" "0x40000000"]
  by (simp_all add: ipc_mem_entries flag_def)

lemma ipc_window_server:
  assumes "unat va = 0x100000000000 + k" "k < 0x40000000"
  shows "\<exists>t. translate ipc_mem 0x3000 va = Some t \<and> tr_phys t = 0x80000000 + word_of_nat k \<and> tr_writable t"
    "walk_tables ipc_mem 0x3000 va = [0x3000, 0x4000]"
  using huge_window [OF assms, of "0x3000" ipc_mem "0x4007" "0x4000" "0x80000087" "0x80000000"]
  by (simp_all add: ipc_mem_entries flag_def)
lemma window_unat: "off + n < 0x40000000 \<Longrightarrow> k < n \<Longrightarrow>
  unat ((0x100000000000 + word_of_nat off) + word_of_nat k :: u64) = 0x100000000000 + (off + k)"
proof -
  assume a: "off + n < 0x40000000" "k < n"
  have "(0x100000000000 + word_of_nat off) + word_of_nat k = (word_of_nat (0x100000000000 + (off + k)) :: u64)"
    by simp
  moreover have "unat (word_of_nat (0x100000000000 + (off + k)) :: u64) = 0x100000000000 + (off + k)"
    using a by (intro unat_word_of_nat) simp
  ultimately show ?thesis by (simp only:)
qed

lemma window_maps:
  assumes "off + 64 < 0x40000000"
  shows "maps ipc_mem 0x1000 (0x100000000000 + word_of_nat off) 64 (map (\<lambda>k. 0x40000000 + word_of_nat (off + k)) [0..<64])"
    "maps ipc_mem 0x3000 (0x100000000000 + word_of_nat off) 64 (map (\<lambda>k. 0x80000000 + word_of_nat (off + k)) [0..<64])"
    "maps_writable L ipc_mem 0x1000 (0x100000000000 + word_of_nat off) 64"
    "maps_writable L ipc_mem 0x3000 (0x100000000000 + word_of_nat off) 64"
    "table_bytes ipc_mem 0x1000 (0x100000000000 + word_of_nat off) 64 = arange 0x1000 4096 \<union> arange 0x2000 4096"
    "table_bytes ipc_mem 0x3000 (0x100000000000 + word_of_nat off) 64 = arange 0x3000 4096 \<union> arange 0x4000 4096"
proof -
  note u = window_unat [OF assms]
  have lt: "off + k < 0x40000000" if "k < 64" for k using assms that by simp
  note c = ipc_window_client [OF u lt] and v = ipc_window_server [OF u lt]
  show "maps ipc_mem 0x1000 (0x100000000000 + word_of_nat off) 64 (map (\<lambda>k. 0x40000000 + word_of_nat (off + k)) [0..<64])"
    unfolding maps_def map_map comp_def by (rule map_cong [OF refl]) (use c(1) in auto)
  show "maps ipc_mem 0x3000 (0x100000000000 + word_of_nat off) 64 (map (\<lambda>k. 0x80000000 + word_of_nat (off + k)) [0..<64])"
    unfolding maps_def map_map comp_def by (rule map_cong [OF refl]) (use v(1) in auto)
  show "maps_writable L ipc_mem 0x1000 (0x100000000000 + word_of_nat off) 64"
    "maps_writable L ipc_mem 0x3000 (0x100000000000 + word_of_nat off) 64"
    unfolding maps_writable_def using c(1) v(1) by fastforce+
  show "table_bytes ipc_mem 0x1000 (0x100000000000 + word_of_nat off) 64 = arange 0x1000 4096 \<union> arange 0x2000 4096"
    "table_bytes ipc_mem 0x3000 (0x100000000000 + word_of_nat off) 64 = arange 0x3000 4096 \<union> arange 0x4000 4096"
    unfolding table_bytes_def using c(2) v(2) by (auto simp: lessThan_empty_iff)
qed

lemma window_bytes:
  fixes g x :: u64
  assumes "off + 64 < 0x40000000" "x \<in> set (map (\<lambda>k. g + word_of_nat (off + k)) [0..<64])" "unat g + 0x40000000 < 2 ^ 64"
  shows "unat g \<le> unat x \<and> unat x < unat g + 0x40000000"
proof -
  obtain k where k: "k < 64" "x = g + word_of_nat (off + k)" using assms(2) by auto
  have "unat (word_of_nat (off + k) :: u64) = off + k" using assms k by (intro unat_word_of_nat) simp
  then have "unat x = unat g + (off + k)"
    unfolding k(2) using assms k by (subst unat_add_lem [THEN iffD1]) auto
  then show ?thesis using assms k by simp
qed

lemma window_distinct: "off + 64 < 0x40000000 \<Longrightarrow> distinct (map (\<lambda>k. g + word_of_nat (off + k) :: u64) [0..<64])"
proof -
  assume a: "off + 64 < 0x40000000"
  have "inj_on (\<lambda>k. g + word_of_nat (off + k) :: u64) (set [0..<64])"
  proof (rule inj_onI)
    fix i j assume ij: "i \<in> set [0..<64]" "j \<in> set [0..<64]" "g + word_of_nat (off + i) = (g + word_of_nat (off + j) :: u64)"
    then have "unat (word_of_nat (off + i) :: u64) = unat (word_of_nat (off + j) :: u64)" by (simp only: add_left_cancel)
    then show "i = j" using a ij(1,2) unat_word_of_nat [of "off + i"] unat_word_of_nat [of "off + j"] by simp
  qed
  then show ?thesis by (simp add: distinct_map)
qed

lemma arange_page_bounds: "x \<in> arange p 4096 \<Longrightarrow> unat p + 4096 < 2 ^ 64 \<Longrightarrow> unat x < unat p + 4096"
proof -
  assume x: "x \<in> arange p 4096" and p: "unat p + 4096 < 2 ^ 64"
  have "unat ((x - p) + p) = unat (x - p) + unat p"
    using x p by (intro unat_add_lem [THEN iffD1]) (simp add: arange_def)
  then show ?thesis using x by (simp add: arange_def)
qed

lemma window_transfer:
  assumes "off + 64 < 0x40000000" "off' + 64 < 0x40000000"
  shows "transfer_ok L ipc_mem 0x1000 (0x100000000000 + word_of_nat off) 0x3000 (0x100000000000 + word_of_nat off') 64
      (map (\<lambda>k. 0x40000000 + word_of_nat (off + k)) [0..<64]) (map (\<lambda>k. 0x80000000 + word_of_nat (off' + k)) [0..<64])"
    and "transfer_ok L ipc_mem 0x3000 (0x100000000000 + word_of_nat off') 0x1000 (0x100000000000 + word_of_nat off) 64
      (map (\<lambda>k. 0x80000000 + word_of_nat (off' + k)) [0..<64]) (map (\<lambda>k. 0x40000000 + word_of_nat (off + k)) [0..<64])"
    and "set (map (\<lambda>k. 0x80000000 + word_of_nat (off' + k)) [0..<64]) \<inter>
      (table_bytes ipc_mem 0x3000 (0x100000000000 + word_of_nat off') 64 \<union>
       table_bytes ipc_mem 0x1000 (0x100000000000 + word_of_nat off) 64) = {}"
proof -
  let ?C = "map (\<lambda>k. 0x40000000 + word_of_nat (off + k) :: u64) [0..<64]"
  let ?S = "map (\<lambda>k. 0x80000000 + word_of_nat (off' + k) :: u64) [0..<64]"
  let ?T = "arange 0x1000 4096 \<union> arange 0x2000 4096 \<union> arange 0x3000 4096 \<union> arange (0x4000 :: u64) 4096"
  have C: "0x40000000 \<le> unat x \<and> unat x < 0x80000000" if "x \<in> set ?C" for x
    using window_bytes [OF assms(1) that] by simp
  have S: "0x80000000 \<le> unat x \<and> unat x < 0xC0000000" if "x \<in> set ?S" for x
    using window_bytes [OF assms(2) that] by simp
  have T: "unat x < 0x40000000" if "x \<in> ?T" for x
    using that arange_page_bounds [of x] by fastforce
  have "set ?C \<inter> set ?S = {}" "set ?C \<inter> ?T = {}" "set ?S \<inter> ?T = {}"
    using C S T by (fastforce simp del: set_map)+
  moreover note w = window_maps [OF assms(1)] window_maps [OF assms(2)]
  ultimately show "transfer_ok L ipc_mem 0x1000 (0x100000000000 + word_of_nat off) 0x3000 (0x100000000000 + word_of_nat off') 64 ?C ?S"
    "transfer_ok L ipc_mem 0x3000 (0x100000000000 + word_of_nat off') 0x1000 (0x100000000000 + word_of_nat off) 64 ?S ?C"
    "set ?S \<inter> (table_bytes ipc_mem 0x3000 (0x100000000000 + word_of_nat off') 64 \<union>
       table_bytes ipc_mem 0x1000 (0x100000000000 + word_of_nat off) 64) = {}"
    unfolding transfer_ok_def w using window_distinct [OF assms(1)] window_distinct [OF assms(2)] by blast+
qed

definition ipc_kernel :: "process_state \<Rightarrow> kernel" where
  "ipc_kernel st = demo_kernel\<lparr>kmem := ipc_mem, CURRENT_PROCESS_ID := 1,
     PROCESS_TABLE := (\<lambda>_. pcb_empty)
       (1 := pcb_empty\<lparr>pcb_state := Runnable, page_table_base := 0x1000, layer_base := 0x100000000000,
           layer_size := 0x1000000\<rparr>,
        2 := pcb_empty\<lparr>pcb_state := st, page_table_base := 0x3000, layer_base := 0x100000000000,
           layer_size := 0x1000000, ipc_buffer := 0x100000000200\<rparr>)\<rparr>"


lemma ipc_kernel_process [simp]:
  "PROCESS_TABLE (ipc_kernel st) (Suc 0) = pcb_empty\<lparr>pcb_state := Runnable, page_table_base := 0x1000,
     layer_base := 0x100000000000, layer_size := 0x1000000\<rparr>"
  "PROCESS_TABLE (ipc_kernel st) 2 = pcb_empty\<lparr>pcb_state := st, page_table_base := 0x3000,
     layer_base := 0x100000000000, layer_size := 0x1000000, ipc_buffer := 0x100000000200\<rparr>"
  "CURRENT_PROCESS_ID (ipc_kernel st) = 1"
  by (simp_all add: ipc_kernel_def)

theorem ipc_call_roundtrip_witness:
  "(\<exists>s1 s2 s3. send_ipc demo_layout 2 0x100000000100 (ipc_kernel Runnable) = Some (Switched, s1) \<and>
     receive_ipc demo_layout 0x100000000200 s1 = Some (Ret 1, s2) \<and> reply_ipc demo_layout 1 0x100000000200 s2 = Some (Ret 0, s3) \<and>
     user_bytes 0x3000 0x100000000200 64 s2 = user_bytes 0x1000 0x100000000100 64 (ipc_kernel Runnable)) \<and>
   (\<exists>s1 s2 s3. receive_ipc demo_layout 0x100000000200 ((ipc_kernel Runnable)\<lparr>CURRENT_PROCESS_ID := 2\<rparr>) = Some (Switched, s1) \<and>
     send_ipc demo_layout 2 0x100000000100 s1 = Some (Switched, s2) \<and> RAX s2 2 = 1 \<and>
     reply_ipc demo_layout 1 0x100000000200 s2 = Some (Ret 0, s3) \<and>
     user_bytes 0x3000 0x100000000200 64 s2 = user_bytes 0x1000 0x100000000100 64 (ipc_kernel Runnable))"
proof -
  let ?k = "\<lambda>i. (ipc_kernel Runnable)\<lparr>CURRENT_PROCESS_ID := i\<rparr>"
  have k1: "?k 1 = ipc_kernel Runnable" by (simp add: ipc_kernel_def)
  have p: "runnable (?k i) 1" "runnable (?k i) 2" "contains_range (PROCESS_TABLE (?k i) 1) 0x100000000100 64"
    "contains_range (PROCESS_TABLE (?k i) 2) 0x100000000200 64" "page_table_base (PROCESS_TABLE (?k i) 1) = 0x1000"
    "page_table_base (PROCESS_TABLE (?k i) 2) = 0x3000" "kmem (?k i) = ipc_mem" for i
    by (simp_all add: runnable_def contains_range_def checked_add_def word_le_nat_alt) (simp add: ipc_kernel_def)
  let ?c = "map (\<lambda>k. 0x40000000 + word_of_nat (0x100 + k)) [0..<64]" and ?v = "map (\<lambda>k. 0x80000000 + word_of_nat (0x200 + k)) [0..<64]"
  have t: "transfer_ok demo_layout (kmem (?k i)) (page_table_base (PROCESS_TABLE (?k i) 1)) 0x100000000100
      (page_table_base (PROCESS_TABLE (?k i) 2)) 0x100000000200 64 ?c ?v"
    "transfer_ok demo_layout (kmem (?k i)) (page_table_base (PROCESS_TABLE (?k i) 2)) 0x100000000200
      (page_table_base (PROCESS_TABLE (?k i) 1)) 0x100000000100 64 ?v ?c"
    "set ?v \<inter> (table_bytes (kmem (?k i)) (page_table_base (PROCESS_TABLE (?k i) 2)) 0x100000000200 64 \<union>
      table_bytes (kmem (?k i)) (page_table_base (PROCESS_TABLE (?k i) 1)) 0x100000000100 64) = {}" for i
    using window_transfer(1,2) [of "0x100" "0x200" demo_layout] window_transfer(3) [of "0x100" "0x200"]
    unfolding p(5-7) by (simp_all del: set_map)
  have w: "waiting_sender (?k i) 2 = None" for i
    by (auto simp: waiting_sender_def ipc_kernel_def pcb_empty_def)
  have nx: "next_runnable_after 1 (upd_pcb 1 (\<lambda>p. p\<lparr>ipc_buffer := 0x100000000100, pcb_state := BlockedOnSend (word_of_nat 2)\<rparr>) (?k 1)) = Some 2"
    "next_runnable_after 2 (upd_pcb 2 (\<lambda>p. p\<lparr>pcb_state := BlockedOnReceive\<rparr>) (?k 2)) = Some 1"
    "next_runnable_after 1 (upd_pcb 1 (\<lambda>p. p\<lparr>pcb_state := BlockedOnReply (word_of_nat 2)\<rparr>) (?k 2)) = Some 2"
    by (simp_all add: next_runnable_after_def runnable_def upt_rec ipc_kernel_def pcb_empty_def flip: numeral_2_eq_2)
  have b: "(1 :: nat) < MAX_PROCESSES" "(2 :: nat) < MAX_PROCESSES" "(2 :: nat) \<noteq> 1" "CURRENT_PROCESS_ID (?k i) = i" for i by simp_all
  have u: "user_bytes c q n (?k i) = user_bytes c q n (ipc_kernel Runnable)" for c q n i
    by (rule user_bytes_kmem) simp
  note clients = conjunct2 [OF ipc_call_roundtrip [OF b(1-3) p(1,2) [of 1] w [of 1] p(3,4,4) [of 1] t [of 1]]]
  note servers = conjunct1 [OF ipc_call_roundtrip [OF b(1-3) p(1,2) [of 2] w [of 2] p(3,4,4) [of 2] t [of 2]]]
  show ?thesis
    using clients [rule_format, OF b(4) nx(1)] servers [rule_format, OF b(4) nx(2,3)]
    unfolding p(5,6) u k1 p(5,6) [of 1, unfolded k1] of_nat_numeral of_nat_1 by blast
qed

theorem ipc_send_rendezvous_witness:
  "\<exists>s'. send_ipc demo_layout 2 0x100000000100 (ipc_kernel BlockedOnReceive) = Some (Switched, s') \<and>
    pcb_state (PROCESS_TABLE s' 2) = Runnable \<and> ipc_peer (PROCESS_TABLE s' 2) = 1 \<and>
    user_bytes 0x3000 0x100000000200 64 s' = user_bytes 0x1000 0x100000000100 64 (ipc_kernel BlockedOnReceive)"
proof -
  let ?s = "ipc_kernel BlockedOnReceive"
  have t: "transfer_ok demo_layout (kmem ?s) 0x1000 0x100000000100 0x3000 0x100000000200 64
      (map (\<lambda>k. 0x40000000 + word_of_nat (0x100 + k)) [0..<64]) (map (\<lambda>k. 0x80000000 + word_of_nat (0x200 + k)) [0..<64])"
    using window_transfer(1) [of "0x100" "0x200" demo_layout] by (simp add: ipc_kernel_def)
  show ?thesis
    using ipc_send_rendezvous [where s = ?s and c = 1 and t = 2 and target = 2 and msg = "0x100000000100" and L = demo_layout, OF ipc_kernel_process(3)] t
    by (simp add: contains_range_def checked_add_def word_le_nat_alt del: set_map) blast
qed

end
