(* ===== verification/Elf.thy ===== *)
theory Elf
  imports Ipc
begin

unbundle bit_operations_syntax

text \<open>
  The program loaders: \<open>src/kernel/src/elf.rs\<close> (static ELF64 images) and \<open>src/kernel/src/pos.rs\<close>
  (the \<open>.pos\<close> container, which is wrapped into a minimal ELF image and handed to the ELF loader).

  The image is read through the current page table, byte by byte, as \<open>read_val\<close> and \<open>copy_from_user\<close> do.
\<close>

section \<open>Headers\<close>

definition field :: "u8 list \<Rightarrow> nat \<Rightarrow> nat \<Rightarrow> 'a::len word" where
  "field bs off n = from_le (take n (drop off bs))"

record elf64_header =
  ident :: "u8 list"
  file_type :: u16
  machine :: u16
  version :: u32
  h_entry :: u64
  phoff :: u64
  shoff :: u64
  h_flags :: u32
  ehsize :: u16
  phentsize :: u16
  phnum :: u16
  shentsize :: u16
  shnum :: u16
  shstrndx :: u16

record elf64_phdr =
  p_type :: u32
  p_flags :: u32
  p_offset :: u64
  p_vaddr :: u64
  p_paddr :: u64
  p_filesz :: u64
  p_memsz :: u64
  p_align :: u64

definition header_of_bytes :: "u8 list \<Rightarrow> elf64_header" where
  "header_of_bytes bs =
     \<lparr>ident = take 16 bs, file_type = field bs 16 2, machine = field bs 18 2, version = field bs 20 4,
      h_entry = field bs 24 8, phoff = field bs 32 8, shoff = field bs 40 8, h_flags = field bs 48 4,
      ehsize = field bs 52 2, phentsize = field bs 54 2, phnum = field bs 56 2, shentsize = field bs 58 2,
      shnum = field bs 60 2, shstrndx = field bs 62 2\<rparr>"

definition phdr_of_bytes :: "u8 list \<Rightarrow> elf64_phdr" where
  "phdr_of_bytes bs =
     \<lparr>p_type = field bs 0 4, p_flags = field bs 4 4, p_offset = field bs 8 8, p_vaddr = field bs 16 8,
      p_paddr = field bs 24 8, p_filesz = field bs 32 8, p_memsz = field bs 40 8, p_align = field bs 48 8\<rparr>"

section \<open>Reading the image\<close>

fun read_user :: "u64 \<Rightarrow> nat \<Rightarrow> kernel \<Rightarrow> u8 list res" where
  "read_user addr 0 s = Some []"
| "read_user addr (Suc n) s =
     do { b \<leftarrow> user_load (cr3 s) addr s; bs \<leftarrow> read_user (addr + 1) n s; Some (b # bs) }"

definition read_header :: "u64 \<Rightarrow> kernel \<Rightarrow> elf64_header res" where
  "read_header addr s = map_option header_of_bytes (read_user addr 64 s)"

definition read_phdr :: "u64 \<Rightarrow> elf64_header \<Rightarrow> nat \<Rightarrow> kernel \<Rightarrow> elf64_phdr res" where
  "read_phdr data_ptr hdr i s =
     map_option phdr_of_bytes
       (read_user (data_ptr + phoff hdr + word_of_nat (i * unat (phentsize hdr))) 56 s)"

text \<open>One byte is read and written before the next one is read.\<close>

fun copy_from_user :: "u64 \<Rightarrow> u64 \<Rightarrow> nat \<Rightarrow> kernel \<Rightarrow> kernel res" where
  "copy_from_user src dst 0 s = Some s"
| "copy_from_user src dst (Suc n) s =
     do {
       b \<leftarrow> user_load (cr3 s) src s;
       copy_from_user (src + 1) (dst + 1) n (s\<lparr>kmem := (kmem s)(dst := b)\<rparr>)
     }"

section \<open>Loading\<close>

record segment_range =
  range_base :: u64
  range_end :: u64

definition range_extend :: "segment_range \<Rightarrow> u64 \<Rightarrow> u64 \<Rightarrow> segment_range option" where
  "range_extend r vaddr memsz =
     (case checked_add vaddr memsz of
        None \<Rightarrow> None
      | Some e \<Rightarrow> Some \<lparr>range_base = min (range_base r) vaddr, range_end = max (range_end r) e\<rparr>)"

text \<open>First pass; the inner option is the early return with \<open>ERR_INVALID_POINTER\<close>.\<close>

fun scan_segments ::
  "u64 \<Rightarrow> elf64_header \<Rightarrow> nat list \<Rightarrow> segment_range \<Rightarrow> kernel \<Rightarrow> segment_range option res" where
  "scan_segments data_ptr hdr [] r s = Some (Some r)"
| "scan_segments data_ptr hdr (i # is) r s =
     do {
       ph \<leftarrow> read_phdr data_ptr hdr i s;
       if p_type ph \<noteq> 1 then scan_segments data_ptr hdr is r s
       else if p_filesz ph > p_memsz ph then Some None
       else case range_extend r (p_vaddr ph) (p_memsz ph) of
              None \<Rightarrow> Some None
            | Some r \<Rightarrow> scan_segments data_ptr hdr is r s
     }"

text \<open>One iteration of the page loop of the second pass: \<open>False\<close> is the return with \<open>ERR_OUT_OF_MEMORY\<close>.\<close>

definition load_page :: "nat \<Rightarrow> u64 \<Rightarrow> u64 \<Rightarrow> elf64_phdr \<Rightarrow> u64 \<Rightarrow> kernel \<Rightarrow> (bool \<times> kernel) res" where
  "load_page pid pml4 data_ptr ph va s =
     (case alloc_frame s of (r, s) \<Rightarrow>
        case r of
          None \<Rightarrow> Some (False, s)
        | Some phys \<Rightarrow>
            let s = track_frame pid phys s; writable = (p_flags ph AND 2 \<noteq> 0)
            in case map_page pml4 va phys True writable s of (ok, s) \<Rightarrow>
              if \<not> ok then Some (False, s)
              else
                let in_page = va - p_vaddr ph;
                    file_avail = saturating_sub (p_filesz ph) in_page;
                    copy_now = min 0x1000 (unat file_avail)
                in do {
                  s \<leftarrow> (if copy_now > 0 then copy_from_user (data_ptr + p_offset ph + in_page) phys copy_now s
                         else Some s);
                  Some (True, s)
                })"

partial_function (option) load_pages ::
  "nat \<Rightarrow> u64 \<Rightarrow> u64 \<Rightarrow> elf64_phdr \<Rightarrow> u64 \<Rightarrow> u64 \<Rightarrow> kernel \<Rightarrow> (bool \<times> kernel) option" where
  "load_pages pid pml4 data_ptr ph va page_end s =
     (if va < page_end then
        Option.bind (load_page pid pml4 data_ptr ph va s)
          (\<lambda>(ok, s). if \<not> ok then Some (False, s) else load_pages pid pml4 data_ptr ph (va + 0x1000) page_end s)
      else Some (True, s))"

declare load_pages.simps [code]

fun load_segments ::
  "nat \<Rightarrow> u64 \<Rightarrow> u64 \<Rightarrow> elf64_header \<Rightarrow> nat list \<Rightarrow> kernel \<Rightarrow> (bool \<times> kernel) res" where
  "load_segments pid pml4 data_ptr hdr [] s = Some (True, s)"
| "load_segments pid pml4 data_ptr hdr (i # is) s =
     do {
       ph \<leftarrow> read_phdr data_ptr hdr i s;
       if p_type ph \<noteq> 1 then load_segments pid pml4 data_ptr hdr is s
       else do {
         (ok, s) \<leftarrow> load_pages pid pml4 data_ptr ph (page_down (p_vaddr ph))
                     (page_down (p_vaddr ph + p_memsz ph + 0xFFF)) s;
         if \<not> ok then Some (False, s) else load_segments pid pml4 data_ptr hdr is s
       }
     }"

fun map_stack :: "nat \<Rightarrow> u64 \<Rightarrow> u64 \<Rightarrow> nat list \<Rightarrow> kernel \<Rightarrow> bool \<times> kernel" where
  "map_stack pid pml4 stack_base [] s = (True, s)"
| "map_stack pid pml4 stack_base (p # ps) s =
     (case alloc_frame s of (r, s) \<Rightarrow>
        case r of
          None \<Rightarrow> (False, s)
        | Some phys \<Rightarrow>
            (case map_page pml4 (stack_base + word_of_nat p * 0x1000) phys True True (track_frame pid phys s) of
               (ok, s) \<Rightarrow> if \<not> ok then (False, s) else map_stack pid pml4 stack_base ps s))"

definition header_ok :: "elf64_header \<Rightarrow> bool" where
  "header_ok hdr \<longleftrightarrow>
     take 4 (ident hdr) = [0x7F, 0x45, 0x4C, 0x46] \<and> ident hdr ! 4 = 2 \<and> machine hdr = 0x3E \<and>
     \<not> (phnum hdr = 0 \<or> unat (phentsize hdr) < 56)"

definition elf_exec :: "layout \<Rightarrow> u64 \<Rightarrow> u64 \<Rightarrow> kernel \<Rightarrow> (i64 \<times> kernel) res" where
  "elf_exec L data_ptr sz s =
     (if sz < 64 then Some (ERR_INVALID_POINTER, s)
      else do {
        hdr \<leftarrow> read_header data_ptr s;
        if \<not> header_ok hdr then Some (ERR_INVALID_POINTER, s)
        else do {
          range \<leftarrow> scan_segments data_ptr hdr [0..<unat (phnum hdr)] \<lparr>range_base = - 1, range_end = 0\<rparr> s;
          case range of
            None \<Rightarrow> Some (ERR_INVALID_POINTER, s)
          | Some r \<Rightarrow>
              if range_base r = - 1 then Some (ERR_INVALID_POINTER, s)
              else
                let load_base = page_down (range_base r); load_end = page_down (range_end r + 0xFFF)
                in case find_free_slot s of
                     None \<Rightarrow> Some (ERR_NO_CAPACITY, s)
                   | Some slot \<Rightarrow>
                       let s = clone_current_pml4_for L slot s;
                           pml4 = process_pml4_phys L slot;
                           s = upd_pcb slot (\<lambda>p. p\<lparr>frames_head := 0\<rparr>) s
                       in do {
                         (ok, s) \<leftarrow> load_segments slot pml4 data_ptr hdr [0..<unat (phnum hdr)] s;
                         if \<not> ok then Some (ERR_OUT_OF_MEMORY, s)
                         else case map_stack slot pml4 load_end [0..<16] s of (ok, s) \<Rightarrow>
                           if \<not> ok then Some (ERR_OUT_OF_MEMORY, s)
                           else Some (word_of_nat slot,
                                  provision_pcb_elf L slot (h_entry hdr) pml4 (load_end + 0x10000) load_base
                                    (load_end - load_base) s)
                       }
        }
      })"

section \<open>The .pos container\<close>

definition put_at :: "u8 list \<Rightarrow> nat \<Rightarrow> u8 list \<Rightarrow> u8 list" where
  "put_at buf off bs = take off buf @ bs @ drop (off + length bs) buf"

fun next_power_of_two :: "nat \<Rightarrow> nat" where
  "next_power_of_two n = (if n \<le> 1 then 1 else 2 * next_power_of_two ((n + 1) div 2))"

declare next_power_of_two.simps [simp del]

text \<open>A sequence of \<open>buf[off..off + n].copy_from_slice(bs)\<close> statements.\<close>

definition puts :: "(nat \<times> u8 list) list \<Rightarrow> u8 list \<Rightarrow> u8 list" where
  "puts ws buf = fold (\<lambda>(off, bs) buf. put_at buf off bs) ws buf"

definition minimal_header :: "u64 \<Rightarrow> (nat \<times> u8 list) list" where
  "minimal_header entry_point =
     [(0, [0x7F, 0x45, 0x4C, 0x46]), (4, [2]), (5, [1]), (6, [1]),
      (16, to_le 2 (2 :: u16)), (18, to_le 2 (0x3E :: u16)), (20, to_le 4 (1 :: u32)),
      (24, to_le 8 entry_point), (32, to_le 8 (64 :: u64)), (40, to_le 8 (0 :: u64)),
      (48, to_le 4 (0 :: u32)), (52, to_le 2 (64 :: u16)), (54, to_le 2 (56 :: u16)),
      (56, to_le 2 (2 :: u16)), (58, to_le 2 (0 :: u16)), (60, to_le 2 (0 :: u16)), (62, to_le 2 (0 :: u16))]"

definition minimal_phdrs :: "u64 \<Rightarrow> u64 \<Rightarrow> (nat \<times> u8 list) list" where
  "minimal_phdrs filesz memsz =
     [(64, to_le 4 (1 :: u32)), (68, to_le 4 (5 :: u32)), (72, to_le 8 (0 :: u64)),
      (80, to_le 8 (0x400000 :: u64)), (88, to_le 8 (0x400000 :: u64)), (96, to_le 8 filesz),
      (104, to_le 8 memsz), (112, to_le 8 (0x1000 :: u64)),
      (120, to_le 4 (0x6474E551 :: u32)), (124, to_le 4 (6 :: u32)), (128, replicate 48 0),
      (160, to_le 8 (0x10000 :: u64))]"

definition build_minimal_elf :: "u8 list \<Rightarrow> u64 \<Rightarrow> nat \<times> u8 list" where
  "build_minimal_elf code entry_offset =
     (let buf = replicate 4096 0;
          code_size = max (next_power_of_two (length code)) 4096;
          total = 176
      in if total + length code > 4096 then (0, buf)
      else
        (total + length code,
         puts (minimal_header (0x400000 + entry_offset) @
               minimal_phdrs (word_of_nat (length code)) (word_of_nat code_size) @ [(total, code)]) buf))"

definition pos_exec :: "layout \<Rightarrow> u64 \<Rightarrow> u8 list \<Rightarrow> kernel \<Rightarrow> (i64 \<times> kernel) res" where
  "pos_exec L elf_buf_at data s =
     (if length data < 16 then Some (ERR_INVALID_POINTER, s)
      else if take 4 data \<noteq> [0x50, 0x4F, 0x53, 0] then Some (ERR_INVALID_POINTER, s)
      else
        let ent = field data 8 8 :: u64
        in if ent < 16 \<or> unat ent > length data \<or> 16 \<ge> length data then Some (ERR_INVALID_POINTER, s)
        else
          let (total, buf) = build_minimal_elf (drop 16 data) (ent - 16);
              s = s\<lparr>kmem := mwrite (kmem s) elf_buf_at buf\<rparr>
          in if total = 0 then Some (ERR_OUT_OF_MEMORY, s)
             else elf_exec L elf_buf_at (word_of_nat total) s)"

section \<open>Byte buffers\<close>

lemma length_put_at [simp]: "off + length bs \<le> length buf \<Longrightarrow> length (put_at buf off bs) = length buf"
  by (simp add: put_at_def)

lemma slice_put_at_same: "off + length bs \<le> length buf \<Longrightarrow> take (length bs) (drop off (put_at buf off bs)) = bs"
  by (simp add: put_at_def)

lemma slice_put_at_other:
  assumes "off + length bs \<le> length buf" "off' + n \<le> off \<or> off + length bs \<le> off'"
  shows "take n (drop off' (put_at buf off bs)) = take n (drop off' buf)"
proof (rule nth_equalityI)
  show "length (take n (drop off' (put_at buf off bs))) = length (take n (drop off' buf))"
    using assms by simp
  fix i assume "i < length (take n (drop off' (put_at buf off bs)))"
  then have i: "i < n" "off' + i < length buf" using assms(1) by auto
  then have "put_at buf off bs ! (off' + i) = buf ! (off' + i)"
    using assms by (auto simp: put_at_def nth_append min_def)
  then show "take n (drop off' (put_at buf off bs)) ! i = take n (drop off' buf) ! i"
    using i assms(1) by simp
qed

text \<open>A written slice survives if no later write touches it.\<close>

definition apart :: "nat \<times> u8 list \<Rightarrow> nat \<times> u8 list \<Rightarrow> bool" where
  "apart w v \<longleftrightarrow> fst w + length (snd w) \<le> fst v \<or> fst v + length (snd v) \<le> fst w"

fun survives :: "nat \<times> u8 list \<Rightarrow> (nat \<times> u8 list) list \<Rightarrow> bool" where
  "survives w [] \<longleftrightarrow> False"
| "survives w (v # vs) \<longleftrightarrow> v = w \<and> list_all (apart w) vs \<or> survives w vs"

lemma puts_simps [simp]: "puts [] buf = buf" "puts ((off, bs) # ws) buf = puts ws (put_at buf off bs)"
  by (simp_all add: puts_def)

lemma length_puts: "list_all (\<lambda>w. fst w + length (snd w) \<le> length buf) ws \<Longrightarrow> length (puts ws buf) = length buf"
  by (induction ws arbitrary: buf) auto

lemma slice_puts_apart:
  "list_all (\<lambda>v. fst v + length (snd v) \<le> length buf) ws \<Longrightarrow> list_all (apart (off, bs)) ws \<Longrightarrow>
   take (length bs) (drop off (puts ws buf)) = take (length bs) (drop off buf)"
  by (induction ws arbitrary: buf) (auto simp: apart_def slice_put_at_other)

lemma slice_puts:
  "list_all (\<lambda>v. fst v + length (snd v) \<le> length buf) ws \<Longrightarrow> survives (off, bs) ws \<Longrightarrow>
   take (length bs) (drop off (puts ws buf)) = bs"
  by (induction ws arbitrary: buf) (auto simp: slice_puts_apart slice_put_at_same)

lemma field_puts:
  "list_all (\<lambda>v. fst v + length (snd v) \<le> length buf) ws \<Longrightarrow> survives (off, to_le n w) ws \<Longrightarrow>
   LENGTH('a) \<le> 8 * n \<Longrightarrow> field (puts ws buf) off n = (w :: 'a::len word)"
  using slice_puts [of buf ws off "to_le n w"] by (simp add: field_def)

text \<open>The image that \<open>build_minimal_elf\<close> produces, as the loader reads it.\<close>

lemma minimal_elf_fields:
  assumes "length code \<le> 3920" "build_minimal_elf code off = (n, buf)"
  shows "n = 176 + length code" "take 4 buf = [0x7F, 0x45, 0x4C, 0x46]" "take 1 (drop 4 buf) = [2]"
    "field buf 18 2 = (0x3E :: u16)" "field buf 24 8 = 0x400000 + off" "field buf 32 8 = (64 :: u64)"
    "field buf 54 2 = (56 :: u16)" "field buf 56 2 = (2 :: u16)"
    "field buf 64 4 = (1 :: u32)" "field buf 68 4 = (5 :: u32)" "field buf 72 8 = (0 :: u64)"
    "field buf 80 8 = (0x400000 :: u64)" "field buf 96 8 = (word_of_nat (length code) :: u64)"
    "field buf 120 4 = (0x6474E551 :: u32)"
    "take (length code) (drop 176 buf) = code" "length buf = 4096"
proof -
  let ?ws = "minimal_header (0x400000 + off) @ minimal_phdrs (word_of_nat (length code))
      (word_of_nat (max (next_power_of_two (length code)) 4096)) @ [(176, code)]"
  have eq: "n = 176 + length code" "buf = puts ?ws (replicate 4096 0)"
    using assms by (simp_all add: build_minimal_elf_def)
  have inr: "list_all (\<lambda>v. fst v + length (snd v) \<le> length (replicate 4096 (0 :: u8))) ?ws"
    using assms(1) by (simp add: minimal_header_def minimal_phdrs_def)
  note sv = minimal_header_def minimal_phdrs_def apart_def
  show "n = 176 + length code" by (rule eq)
  show "length buf = 4096" unfolding eq(2) length_puts [OF inr] by simp
  have sl: "take (length bs) (drop o\<^sub>1 buf) = bs" if "survives (o\<^sub>1, bs) ?ws" for o\<^sub>1 bs
    unfolding eq(2) using that by (rule slice_puts [OF inr])
  have four: "length [0x7F, 0x45, 0x4C, 0x46 :: u8] = 4" by simp
  from sl [of 0 "[0x7F, 0x45, 0x4C, 0x46]"] show "take 4 buf = [0x7F, 0x45, 0x4C, 0x46]"
    unfolding four drop_0 by (simp add: sv)
  from sl [of 4 "[2]"] show "take 1 (drop 4 buf) = [2]" by (simp add: sv)
  from sl [of 176 code] show "take (length code) (drop 176 buf) = code" by (simp add: sv)
  show "field buf 18 2 = (0x3E :: u16)" "field buf 24 8 = 0x400000 + off" "field buf 32 8 = (64 :: u64)"
    "field buf 54 2 = (56 :: u16)" "field buf 56 2 = (2 :: u16)"
    "field buf 64 4 = (1 :: u32)" "field buf 68 4 = (5 :: u32)" "field buf 72 8 = (0 :: u64)"
    "field buf 80 8 = (0x400000 :: u64)" "field buf 96 8 = (word_of_nat (length code) :: u64)"
    "field buf 120 4 = (0x6474E551 :: u32)"
    unfolding eq(2) by (rule field_puts [OF inr]; simp add: sv)+
qed

section \<open>Outcomes of the loader\<close>

lemma install_pcb_process:
  "PROCESS_TABLE (install_pcb L i ent pt ustack base sz s) i =
     \<lparr>pcb_id = word_of_nat i, pcb_state = Runnable, page_table_base = pt, entry = ent, user_stack = ustack,
      layer_base = base, layer_size = sz, next_free = base, frames_head = 0, ipc_buffer = 0, ipc_peer = 0,
      saved_rsp = fst (prepare_initial_stack (kernel_stack_top_of L i) (task_bootstrap_at L) (kmem s)),
      kernel_stack_top = kernel_stack_top_of L i, exit_code = 0, switch_count = 0, start_tick = TICK_COUNT s\<rparr>"
  by (simp add: install_pcb_def Let_def split: prod.split)

lemma elf_exec_cases:
  assumes run: "elf_exec L data_ptr sz s = Some (r, s')"
  shows "(r = ERR_INVALID_POINTER \<and> s' = s) \<or> (r = ERR_NO_CAPACITY \<and> s' = s) \<or> r = ERR_OUT_OF_MEMORY \<or>
    (\<exists>slot hdr. find_free_slot s = Some slot \<and> r = word_of_nat slot \<and> sz \<ge> 64 \<and>
       read_header data_ptr s = Some hdr \<and> header_ok hdr \<and>
       pcb_state (PROCESS_TABLE s' slot) = Runnable \<and> entry (PROCESS_TABLE s' slot) = h_entry hdr \<and>
       page_table_base (PROCESS_TABLE s' slot) = PROCESS_PML4_at L slot \<and>
       frames_head (PROCESS_TABLE s' slot) = 0)"
proof (cases "sz < 64")
  case True
  then show ?thesis using run by (simp add: elf_exec_def)
next
  case False
  then obtain hdr where h: "read_header data_ptr s = Some hdr"
    using run by (auto simp: elf_exec_def split: bind_splits)
  show ?thesis
  proof (cases "header_ok hdr")
    case False
    then show ?thesis using run h \<open>\<not> sz < 64\<close> by (simp add: elf_exec_def)
  next
    case True
    have fin: "PROCESS_TABLE (provision_pcb_elf L slot e pt us cb cs t) slot =
        PROCESS_TABLE (install_pcb L slot e pt us cb cs t) slot" for slot e pt us cb cs t
      by (simp add: provision_pcb_elf_def)
    from run h True \<open>\<not> sz < 64\<close> show ?thesis
      by (auto simp: elf_exec_def Let_def process_pml4_phys_def fin install_pcb_process not_less
          split: bind_splits option.splits if_splits prod.splits)
  qed
qed

section \<open>Access rights of loaded pages\<close>

lemma copy_from_user_outside:
  "copy_from_user src dst n s = Some s' \<Longrightarrow> unat dst + n \<le> 2 ^ 64 \<Longrightarrow> x \<notin> arange dst n \<Longrightarrow> kmem s' x = kmem s x"
proof (induction src dst n s rule: copy_from_user.induct)
  case (2 src dst n s)
  have x: "x \<noteq> dst" using 2(4) by (auto simp: arange_def)
  have "x \<notin> arange (dst + 1) n"
  proof
    assume a: "x \<in> arange (dst + 1) n"
    define y where "y = x - (dst + 1)"
    have y: "unat y < n" "x - dst = y + 1" using a by (simp_all add: y_def arange_def)
    have "unat y + unat (1 :: u64) < 2 ^ LENGTH(64)" using y(1) 2(3) by simp
    then have "unat (y + 1) = unat y + unat (1 :: u64)" by (rule unat_add_lem [THEN iffD1])
    then show False using y 2(4) by (simp add: arange_def)
  qed
  moreover have "unat (dst + 1) + n \<le> 2 ^ 64 \<or> n = 0"
    using 2(3) by (cases "n = 0") (auto simp: unat_plus_if')
  ultimately show ?case
    using 2 x by (cases n) (auto split: bind_splits)
qed simp
lemma copy_from_user_page:
  assumes "copy_from_user src dst n s = Some s'" "n \<le> 4096" "unat dst + 4096 \<le> 2 ^ 64" "x \<notin> arange dst 4096"
  shows "kmem s' x = kmem s x"
  using assms by (intro copy_from_user_outside [of src dst n]) (auto simp: arange_def)

lemma load_page_run:
  assumes "load_page pid pml4 data_ptr ph va s = Some (True, s')"
  shows "\<exists>f s1 t. alloc_frame s = (Some f, s1) \<and>
    map_page pml4 va f True (p_flags ph AND 2 \<noteq> 0) (track_frame pid f s1) = (True, t) \<and>
    (unat f + 4096 \<le> 2 ^ 64 \<longrightarrow> (\<forall>x. x \<notin> arange f 4096 \<longrightarrow> kmem s' x = kmem t x))"
proof -
  obtain f s1 where al: "alloc_frame s = (Some f, s1)"
    using assms by (auto simp: load_page_def split: prod.splits option.splits)
  obtain ok t where mp: "map_page pml4 va f True (p_flags ph AND 2 \<noteq> 0) (track_frame pid f s1) = (ok, t)"
    by fastforce
  have ok using assms by (cases ok) (simp_all add: load_page_def al mp Let_def)
  have "kmem s' x = kmem t x" if "unat f + 4096 \<le> 2 ^ 64" "x \<notin> arange f 4096" for x
    using assms copy_from_user_page [OF _ _ that] \<open>ok\<close>
    by (simp add: load_page_def al mp Let_def split: if_splits bind_splits)
  then show ?thesis using al mp \<open>ok\<close> by auto
qed

lemma translate_frame_upd:
  assumes "page_aligned f" "f \<notin> set (walk_tables m pml4 va)" "\<And>x. x \<notin> arange f 4096 \<Longrightarrow> m' x = m x"
  shows "translate m' pml4 va = translate m pml4 va"
proof (rule translate_cong)
  fix q x assume q: "q \<in> set (walk_tables m pml4 va)" "x \<in> arange q 4096"
  then have "q \<noteq> f" "page_aligned q"
    using assms(2) table_path_aligned [OF page_aligned_mask q(1) [unfolded walk_tables_def]] by auto
  then have "arange q 4096 \<inter> arange f 4096 = {}" using assms(1) by (intro page_disjoint) auto
  then show "m' x = m x" using q assms(3) by blast
qed

lemma load_page_rights:
  assumes inv: "frame_inv s" and own: "owns s pid fs" and va: "page_aligned va"
    and path: "distinct (walk_tables (kmem s) pml4 va)"
      "set (walk_tables (kmem s) pml4 va) \<inter> avail_frames s = {}"
    and lim: "\<forall>f \<in> avail_frames s. f < 0x10000000000000"
    and run: "load_page pid pml4 data_ptr ph va s = Some (True, s')"
  shows "\<exists>f tr. f \<in> avail_frames s \<and> translate (kmem s') pml4 va = Some tr \<and> tr_phys tr = f \<and>
    (tr_user tr \<longleftrightarrow> p_flags ph AND 2 \<noteq> 0)"
proof -
  obtain f s1 t where al: "alloc_frame s = (Some f, s1)"
    and mp: "map_page pml4 va f True (p_flags ph AND 2 \<noteq> 0) (track_frame pid f s1) = (True, t)"
    and cp: "unat f + 4096 \<le> 2 ^ 64 \<longrightarrow> (\<forall>x. x \<notin> arange f 4096 \<longrightarrow> kmem s' x = kmem t x)"
    using load_page_run [OF run] by blast
  have f: "f \<in> avail_frames s" "page_aligned f" using alloc_Some [OF inv al] avail_aligned [OF inv] by auto
  let ?s2 = "track_frame pid f s1"
  have t2: "frame_inv ?s2" "avail_frames ?s2 = avail_frames s - {f}"
    "\<And>x. x \<notin> arange f 4096 \<Longrightarrow> kmem ?s2 x = kmem s x"
    using alloc_track_owns [OF inv own al] by auto
  have W: "walk_tables (kmem ?s2) pml4 va = walk_tables (kmem s) pml4 va"
    using path(2) f t2(3) by (intro walk_tables_frame_upd [of f]) auto
  have P2: "distinct (walk_tables (kmem ?s2) pml4 va)"
    "set (walk_tables (kmem ?s2) pml4 va) \<inter> avail_frames ?s2 = {}" "\<forall>f \<in> avail_frames ?s2. f < 0x10000000000000"
    using path lim t2(2) unfolding W by auto
  note sp = map_page_spec [OF t2(1) P2 mp]
  obtain tr where tr: "translate (kmem t) pml4 va = Some tr" "tr_phys tr = (f AND PHYS_MASK) OR (va AND 0xFFF)"
    "tr_user tr \<longleftrightarrow> p_flags ph AND 2 \<noteq> 0" using sp(1) by auto
  have ph: "tr_phys tr = f"
    using tr(2) va phys_mask_self [OF f(2)] lim f(1) by (simp add: page_aligned_def)
  have "f \<notin> set (walk_tables (kmem t) pml4 va)" using sp(4) path(2) f(1) t2(2) unfolding W by blast
  moreover have "unat f + 4096 \<le> 2 ^ 64"
    using bspec [OF lim f(1)] by (simp add: word_less_nat_alt)
  ultimately have "translate (kmem s') pml4 va = translate (kmem t) pml4 va"
    using cp f(2) by (intro translate_frame_upd) auto
  then show ?thesis using f(1) tr ph by auto
qed
lemma field_take: "off + n \<le> k \<Longrightarrow> field (take k bs) off n = field bs off n"
  by (simp add: field_def drop_take min_def)

lemma field_drop: "field (drop k bs) off n = field bs (k + off) n"
  by (simp add: field_def add.commute)

lemma minimal_elf_parses:
  assumes "length code \<le> 3920"
  shows "header_ok (header_of_bytes (take 64 (snd (build_minimal_elf code off))))"
proof -
  obtain n buf where b: "build_minimal_elf code off = (n, buf)" by fastforce
  note f = minimal_elf_fields [OF assms b]
  have "buf ! 4 = 2" using f(3,16) by (simp add: take_Suc_conv_app_nth drop_Suc hd_drop_conv_nth take_Suc)
  then show ?thesis
    using f by (simp add: b header_ok_def header_of_bytes_def field_take)
qed

section \<open>Properties\<close>

text \<open>
  C31: Outcomes of \<open>elf_exec\<close>. A rejected image (\<open>ERR_INVALID_POINTER\<close>: too short, bad header, inverted or
  overflowing segment, nothing to load) and a full process table leave the whole kernel state unchanged;
  \<open>ERR_OUT_OF_MEMORY\<close> is the only other error. On success the result is a slot that was free, the process in it is
  runnable at the image's entry point in its own address space, and its frame list is empty: the frames tracked while
  loading are forgotten by the final \<open>provision_pcb_elf\<close>.
\<close>

theorem elf_exec_outcomes:
  "case elf_exec L data_ptr sz s of
     None \<Rightarrow> True
   | Some (r, s') \<Rightarrow>
       (r = ERR_INVALID_POINTER \<and> s' = s) \<or> (r = ERR_NO_CAPACITY \<and> s' = s) \<or> r = ERR_OUT_OF_MEMORY \<or>
       (\<exists>slot hdr. find_free_slot s = Some slot \<and> r = word_of_nat slot \<and> sz \<ge> 64 \<and>
          read_header data_ptr s = Some hdr \<and> header_ok hdr \<and>
          pcb_state (PROCESS_TABLE s' slot) = Runnable \<and> entry (PROCESS_TABLE s' slot) = h_entry hdr \<and>
          page_table_base (PROCESS_TABLE s' slot) = PROCESS_PML4_at L slot \<and>
          frames_head (PROCESS_TABLE s' slot) = 0)"
  using elf_exec_cases [of L data_ptr sz s] by (simp split: option.split)

text \<open>
  Access rights of a loaded page. When the loader has mapped and filled one page of a segment, the processor
  translates the page to a frame taken from the allocator, and ring 3 may access it if and only if the
  segment has the write flag: a read-only or executable segment is not reachable from user mode, because the
  rights are passed to \<open>map_page\<close> in the order (user, writable) while it takes (writable, user).
\<close>

theorem elf_page_rights:
  assumes "frame_inv s" "owns s pid fs" "page_aligned va"
    and "distinct (walk_tables (kmem s) pml4 va)" "set (walk_tables (kmem s) pml4 va) \<inter> avail_frames s = {}"
    and "\<forall>f \<in> avail_frames s. f < 0x10000000000000"
    and "load_page pid pml4 data_ptr ph va s = Some (True, s')"
  shows "\<exists>f tr. f \<in> avail_frames s \<and> translate (kmem s') pml4 va = Some tr \<and> tr_phys tr = f \<and>
    (tr_user tr \<longleftrightarrow> p_flags ph AND 2 \<noteq> 0)"
  by (rule load_page_rights [OF assms])

text \<open>
  The image \<open>build_minimal_elf\<close> wraps around a code blob, read back by the loader's own parser: the header is
  accepted, the entry point is \<open>0x400000 + entry_offset\<close>, the first program header is a loadable segment of
  \<open>length code\<close> file bytes at \<open>0x400000\<close>, and the code itself is in the image at offset 176. The segment's file offset is 0,
  so what is loaded at the entry address starts with the ELF header and not with the code.
\<close>

theorem minimal_elf_roundtrip:
  assumes "length code \<le> 3920"
  shows "let buf = snd (build_minimal_elf code off);
             hdr = header_of_bytes (take 64 buf); ph = phdr_of_bytes (take 56 (drop 64 buf))
         in fst (build_minimal_elf code off) = 176 + length code \<and>
            header_ok hdr \<and> h_entry hdr = 0x400000 + off \<and> phoff hdr = 64 \<and> phnum hdr = 2 \<and>
            p_type ph = 1 \<and> p_vaddr ph = 0x400000 \<and> p_filesz ph = word_of_nat (length code) \<and>
            take (length code) (drop 176 buf) = code \<and>
            p_offset ph = 0 \<and> take 4 (drop (unat (p_offset ph)) buf) = [0x7F, 0x45, 0x4C, 0x46]"
proof -
  obtain n buf where b: "build_minimal_elf code off = (n, buf)" by fastforce
  note f = minimal_elf_fields [OF assms b] and h = minimal_elf_parses [OF assms, of off]
  have hdr: "h_entry (header_of_bytes (take 64 buf)) = 0x400000 + off"
    "phoff (header_of_bytes (take 64 buf)) = 64" "phnum (header_of_bytes (take 64 buf)) = 2"
    using f by (simp_all add: header_of_bytes_def field_take)
  have ph: "p_type (phdr_of_bytes (take 56 (drop 64 buf))) = 1"
    "p_vaddr (phdr_of_bytes (take 56 (drop 64 buf))) = 0x400000"
    "p_filesz (phdr_of_bytes (take 56 (drop 64 buf))) = word_of_nat (length code)"
    "p_offset (phdr_of_bytes (take 56 (drop 64 buf))) = 0"
    using f by (simp_all add: phdr_of_bytes_def field_take field_drop)
  show ?thesis using f(1,2,15) h hdr ph by (simp add: b Let_def)
qed

section \<open>Witnesses\<close>

definition demo_phdr :: elf64_phdr where
  "demo_phdr = \<lparr>p_type = 1, p_flags = 5, p_offset = 0, p_vaddr = 0x100001000000, p_paddr = 0, p_filesz = 0,
     p_memsz = 4096, p_align = 4096\<rparr>"

lemma demo_load_page: "\<exists>s'. load_page 1 0x200000 0 demo_phdr 0x100001000000 demo_kernel = Some (True, s')"
proof -
  obtain s1 where al: "alloc_frame demo_kernel = (Some 0x101000, s1)"
    and s1: "s1 = snd (alloc_frame demo_kernel)"
    by (simp add: alloc_frame_def demo_kernel_def)
  have "fst (map_page 0x200000 0x100001000000 0x101000 True False (track_frame 1 0x101000 s1))"
    by (simp add: s1 map_page_def next_table_def alloc_frame_def demo_kernel_def track_frame_def upd_pcb_def
        pcb_empty_def Let_def pt_index_def entry_at_def read_u64_zero mfill_def
        read_u64_def write_u64_def mread_def mwrite_def upt_rec)
  then obtain t where "map_page 0x200000 0x100001000000 0x101000 True False (track_frame 1 0x101000 s1) = (True, t)"
    by (metis prod.collapse)
  then show ?thesis by (simp add: load_page_def al Let_def demo_phdr_def saturating_sub_def)
qed

theorem elf_page_rights_witness:
  "\<exists>s' tr. load_page 1 0x200000 0 demo_phdr 0x100001000000 demo_kernel = Some (True, s') \<and>
     translate (kmem s') 0x200000 0x100001000000 = Some tr \<and> \<not> tr_user tr"
proof -
  obtain s' where run: "load_page 1 0x200000 0 demo_phdr 0x100001000000 demo_kernel = Some (True, s')"
    using demo_load_page by blast
  have own: "owns demo_kernel 1 []" by (simp add: owns_def demo_kernel_def pcb_empty_def)
  have "set [0x200000] \<inter> avail_frames demo_kernel = {}" by (simp add: demo_kernel_frames)
  moreover have "\<forall>f \<in> avail_frames demo_kernel. f < 0x10000000000000"
    by (simp add: demo_kernel_frames word_less_nat_alt)
  ultimately show ?thesis
    using elf_page_rights [OF demo_kernel_frames(1) own _ _ _ _ run] run
    by (auto simp: demo_kernel_walk page_aligned_def demo_phdr_def)
qed

theorem minimal_elf_roundtrip_witness:
  "fst (build_minimal_elf [0x90, 0xC3] 1) = 178 \<and>
   h_entry (header_of_bytes (take 64 (snd (build_minimal_elf [0x90, 0xC3] 1)))) = 0x400001"
  using minimal_elf_roundtrip [of "[0x90, 0xC3]" 1] by (simp add: Let_def)


end
