(* ===== verification/Text.thy ===== *)
theory Text
  imports Ramfs
begin

unbundle bit_operations_syntax

text \<open>
  Numbers as text: \<open>write_num\<close> and \<open>write_hex\<close> of \<open>src/kernel/src/terminal.rs\<close> as the byte strings they pass
  to \<open>write\<close>. The system calls, the configuration listing and the boot banner print through them.
\<close>

text \<open>The digits are produced from the back of the buffer; \<open>acc\<close> is the part already filled.\<close>

function decimal :: "u64 \<Rightarrow> bytes \<Rightarrow> bytes" where
  "decimal v acc = (if v > 0 then decimal (v div 10) ((0x30 + ucast (v mod 10)) # acc) else acc)"
  by auto
termination
proof (relation "measure (\<lambda>(v, _). unat v)", goal_cases)
  case (2 v acc)
  then have "unat (v div 10) < unat v" by (simp add: unat_div word_less_nat_alt)
  then show ?case by simp
qed simp

declare decimal.simps [simp del]

definition num_text :: "u64 \<Rightarrow> bytes" where
  "num_text v = (if v = 0 then [0x30] else decimal v [])"

definition hex_digit :: "u64 \<Rightarrow> u8" where
  "hex_digit d = bytes_of ''0123456789abcdef'' ! unat (d AND 0xF)"

definition hex_text :: "u64 \<Rightarrow> bytes" where
  "hex_text v = bytes_of ''0x'' @ map (\<lambda>i. hex_digit (drop_bit (4 * i) v)) (rev [0..<16])"

section \<open>Reading the text back\<close>

definition digits_value :: "nat \<Rightarrow> (u8 \<Rightarrow> nat) \<Rightarrow> bytes \<Rightarrow> nat" where
  "digits_value b val ds = foldl (\<lambda>n d. n * b + val d) 0 ds"

definition dec_val :: "u8 \<Rightarrow> nat" where "dec_val d = unat (d - 0x30)"

lemma foldl_digits: "foldl (\<lambda>n d. n * b + f d) k ds = k * b ^ length ds + foldl (\<lambda>n d. n * b + f d) (0 :: nat) ds"
proof (induction ds arbitrary: k)
  case (Cons d ds)
  show ?case using Cons [of "k * b + f d"] Cons [of "f d"] by (simp add: algebra_simps)
qed simp

lemma dec_digit: "dec_val (0x30 + ucast (v mod 10 :: u64)) = unat v mod 10" "0x30 \<le> (0x30 + ucast (v mod 10) :: u8) \<and> (0x30 + ucast (v mod 10) :: u8) \<le> 0x39"
proof -
  have m: "unat (v mod 10) = unat v mod 10" by (simp add: unat_mod)
  then have l: "unat (v mod 10) < 10" by simp
  have u: "unat (ucast (v mod 10) :: u8) = unat (v mod 10)" using l by (simp add: unsigned_ucast_eq take_bit_nat_eq_self)
  show "dec_val (0x30 + ucast (v mod 10)) = unat v mod 10" using u m by (simp add: dec_val_def)
  have "unat (0x30 + ucast (v mod 10) :: u8) = 0x30 + unat (v mod 10)"
    using u l by (subst unat_add_lem [THEN iffD1]) simp_all
  then show "0x30 \<le> (0x30 + ucast (v mod 10) :: u8) \<and> (0x30 + ucast (v mod 10) :: u8) \<le> 0x39"
    using l by (simp add: word_le_nat_alt)
qed

lemma unat_div_10: "unat (v div 10 :: u64) = unat v div 10"
  by (simp add: unat_div)

lemma decimal_value:
  "digits_value 10 dec_val (decimal v acc) = unat v * 10 ^ length acc + digits_value 10 dec_val acc"
proof (induction v acc rule: decimal.induct)
  case (1 v acc)
  show ?case
  proof (cases "v = 0")
    case False
    let ?d = "0x30 + ucast (v mod 10) :: u8"
    have "digits_value 10 dec_val (decimal v acc) = digits_value 10 dec_val (decimal (v div 10) (?d # acc))"
      using False by (simp add: decimal.simps [of v] word_neq_0_conv)
    also have "\<dots> = unat (v div 10) * 10 ^ Suc (length acc) + digits_value 10 dec_val (?d # acc)"
      using 1 False by (simp add: word_neq_0_conv)
    also have "digits_value 10 dec_val (?d # acc) = unat v mod 10 * 10 ^ length acc + digits_value 10 dec_val acc"
      using foldl_digits [of 10 dec_val "dec_val ?d" acc] by (simp add: digits_value_def dec_digit)
    also have "unat (v div 10) * 10 ^ Suc (length acc) + (unat v mod 10 * 10 ^ length acc + digits_value 10 dec_val acc) =
        (unat v div 10 * 10 + unat v mod 10) * 10 ^ length acc + digits_value 10 dec_val acc"
      unfolding unat_div_10 by (simp only: power_Suc distrib_right mult.assoc add.assoc)
    finally show ?thesis by simp
  qed (simp add: decimal.simps)
qed

lemma decimal_length: "unat v < 10 ^ n \<Longrightarrow> length (decimal v acc) \<le> n + length acc"
proof (induction v acc arbitrary: n rule: decimal.induct)
  case (1 v acc)
  show ?case
  proof (cases "v = 0")
    case False
    then obtain m where n: "n = Suc m" using 1(2) by (cases n) (auto simp: unat_eq_zero)
    have "unat (v div 10) < 10 ^ m" using 1(2) n by (simp add: unat_div_10 less_mult_imp_div_less mult.commute)
    then show ?thesis using 1(1) [of m] False n by (simp add: decimal.simps [of v] word_neq_0_conv)
  qed (simp add: decimal.simps)
qed

lemma decimal_digits: "list_all (\<lambda>d. 0x30 \<le> d \<and> d \<le> 0x39) acc \<Longrightarrow> list_all (\<lambda>d. 0x30 \<le> d \<and> d \<le> 0x39) (decimal v acc)"
proof (induction v acc rule: decimal.induct)
  case (1 v acc)
  then show ?case using dec_digit(2) [of v] by (cases "v = 0") (simp_all add: decimal.simps [of v] decimal.simps [of 0] word_neq_0_conv)
qed

lemma decimal_head: "v \<noteq> 0 \<Longrightarrow> hd (decimal v acc) \<noteq> 0x30"
proof (induction v acc rule: decimal.induct)
  case (1 v acc)
  let ?d = "0x30 + ucast (v mod 10) :: u8"
  have eq: "decimal v acc = decimal (v div 10) (?d # acc)" using 1(2) by (simp add: decimal.simps [of v] word_neq_0_conv)
  show ?case
  proof (cases "v div 10 = 0")
    case True
    then have "unat v div 10 = 0" using unat_div_10 [of v] by simp
    then have "dec_val ?d \<noteq> 0" using 1(2) by (simp add: dec_digit unat_eq_zero div_eq_0_iff)
    then show ?thesis using True by (auto simp: eq decimal.simps [of 0] dec_val_def)
  qed (use 1 in \<open>simp add: eq word_neq_0_conv\<close>)
qed

section \<open>Properties\<close>

text \<open>
  Decimal output. The digits \<open>write_num\<close> prints for any 64-bit number are decimal digits whose value is that
  number, without a leading zero, and at most twenty of them, so the index into the 20-byte buffer never underflows.
\<close>

theorem write_num_roundtrip:
  "digits_value 10 dec_val (num_text v) = unat v \<and> list_all (\<lambda>d. 0x30 \<le> d \<and> d \<le> 0x39) (num_text v) \<and>
   0 < length (num_text v) \<and> length (num_text v) \<le> 20 \<and> (hd (num_text v) = 0x30 \<longleftrightarrow> v = 0)"
proof (cases "v = 0")
  case True
  then show ?thesis by (simp add: num_text_def digits_value_def dec_val_def)
next
  case False
  have "unat v < 2 ^ 64" using unsigned_less [of v] by simp
  then have "length (decimal v []) \<le> 20" using decimal_length [of v 20 "[]"] by simp
  moreover have "decimal v [] \<noteq> []"
    using decimal_value [of v "[]"] False by (auto simp: digits_value_def unat_eq_zero)
  ultimately show ?thesis
    using False decimal_value [of v "[]"] decimal_digits [of "[]" v] decimal_head [OF False, of "[]"]
    by (simp add: num_text_def digits_value_def)
qed

end
