(* ===== verification/Syscall.thy ===== *)
theory Syscall
  imports Elf Text
begin

unbundle bit_operations_syntax

text \<open>
  The system call interface of \<open>src/kernel/src/syscall.rs\<close>: the console calls 24--32, the descriptor
  calls 16--23, the graphics calls 33--40, the unsupported calls 10--14 and the dispatcher
  \<open>sys_call_handler\<close>. Calls into the terminal and the graphics code are appended to \<open>console\<close> in the order
  the code makes them.
\<close>

section \<open>User memory\<close>

text \<open>A loop of \<open>write_volatile(buf + i, byte)\<close> through the current page table.\<close>

fun write_user :: "layout \<Rightarrow> u64 \<Rightarrow> u8 list \<Rightarrow> kernel \<Rightarrow> kernel res" where
  "write_user L addr [] s = Some s"
| "write_user L addr (b # bs) s = do { s \<leftarrow> user_store L (cr3 s) addr b s; write_user L (addr + 1) bs s }"

definition emit :: "console_event list \<Rightarrow> kernel \<Rightarrow> kernel" where
  "emit es s = s\<lparr>console := console s @ es\<rparr>"

section \<open>Console calls\<close>

definition sys_print :: "u64 \<Rightarrow> u64 \<Rightarrow> kernel \<Rightarrow> (i64 \<times> kernel) res" where
  "sys_print buf len s =
     (if buf = 0 \<or> len = 0 then Some (0, s)
      else if \<not> contains_range (cur s) buf len then Some (ERR_INVALID_POINTER, s)
      else do { bs \<leftarrow> read_user buf (unat len) s; Some (len, emit (map Put bs) s) })"

definition sys_println :: "u64 \<Rightarrow> u64 \<Rightarrow> kernel \<Rightarrow> (i64 \<times> kernel) res" where
  "sys_println buf len s = do { (n, s) \<leftarrow> sys_print buf len s; Some (n, emit [Put 0x0A] s) }"

definition sys_print_num :: "u64 \<Rightarrow> u64 \<Rightarrow> kernel \<Rightarrow> i64 \<times> kernel" where
  "sys_print_num v nl s =
     (let s = emit (map Put (num_text v)) s in (0, if nl \<noteq> 0 then emit [Put 0x0A] s else s))"

text \<open>
  \<open>sys_input\<close>: one iteration of the loop after the switch. \<open>Inl n\<close> returns \<open>n\<close>, \<open>Inr pos\<close> goes round.
\<close>

definition input_poll :: "layout \<Rightarrow> u64 \<Rightarrow> u64 \<Rightarrow> nat \<Rightarrow> kernel \<Rightarrow> ((i64 + nat) \<times> kernel) res" where
  "input_poll L buf maxlen pos s =
     (case read_key (kbd s) of (key, k) \<Rightarrow>
       let s = s\<lparr>kbd := k\<rparr>
       in case key of
            None \<Rightarrow> Some (Inr pos, s)
          | Some ch \<Rightarrow>
              if ch = 0x0A \<or> ch = 0x0D then
                do { s \<leftarrow> write_user L (buf + word_of_nat pos) [0] s;
                     Some (Inl (word_of_nat pos), emit [Put 0x0A] s) }
              else if ch = 0x7F \<or> ch = 0x08 then
                Some (if pos > 0 then (Inr (pos - 1), emit [Put 0x7F] s) else (Inr pos, s))
              else if ch \<ge> 0x20 \<and> ch < 0x7F then
                (if pos < unat maxlen - 1 then
                   do { s \<leftarrow> write_user L (buf + word_of_nat pos) [ch] s;
                        Some (Inr (pos + 1), emit [Put ch] s) }
                 else Some (Inr pos, s))
              else Some (Inr pos, s))"

partial_function (option) input_loop :: "layout \<Rightarrow> u64 \<Rightarrow> u64 \<Rightarrow> nat \<Rightarrow> kernel \<Rightarrow> (outcome \<times> kernel) option" where
  "input_loop L buf maxlen pos s =
     (let current = CURRENT_PROCESS_ID s; next = next_runnable_after current s
      in if next \<noteq> None \<and> next \<noteq> Some current
         then Some (Switched, switch_to (K_input buf maxlen pos) (the next) s)
         else Option.bind (input_poll L buf maxlen pos s)
           (\<lambda>(r, s). case r of Inl n \<Rightarrow> Some (Ret n, s) | Inr pos \<Rightarrow> input_loop L buf maxlen pos s))"

declare input_loop.simps [code]

definition sys_input :: "layout \<Rightarrow> u64 \<Rightarrow> u64 \<Rightarrow> kernel \<Rightarrow> (outcome \<times> kernel) res" where
  "sys_input L buf maxlen s =
     (if buf = 0 \<or> maxlen = 0 then Some (Ret 0, s)
      else if \<not> contains_range (cur s) buf maxlen then Some (Ret ERR_INVALID_POINTER, s)
      else input_loop L buf maxlen 0 s)"


definition sys_ticks :: "kernel \<Rightarrow> i64" where
  "sys_ticks s = SCHEDULER_TICK s"

definition sys_cls :: "kernel \<Rightarrow> i64 \<times> kernel" where
  "sys_cls s = (0, emit [Clear] s)"

definition sys_set_cursor :: "u32 \<Rightarrow> u32 \<Rightarrow> kernel \<Rightarrow> i64 \<times> kernel" where
  "sys_set_cursor cur_row cur_col s = (0, emit [Set_cursor cur_row cur_col] s)"

definition rgb_of :: "'a::len word \<Rightarrow> u8 \<times> u8 \<times> u8" where
  "rgb_of c = (ucast (drop_bit 16 c), ucast (drop_bit 8 c), ucast c)"

definition sys_color :: "u32 \<Rightarrow> u32 \<Rightarrow> kernel \<Rightarrow> i64 \<times> kernel" where
  "sys_color fg bg s = (0, emit [Set_colors (rgb_of fg) (rgb_of bg)] s)"

definition sys_reboot :: "kernel \<Rightarrow> outcome \<times> kernel" where
  "sys_reboot s = (Halted, emit [Reset_system] s)"
section \<open>Descriptor calls\<close>

abbreviation fd_at :: "u32 \<Rightarrow> kernel \<Rightarrow> fd_entry" where
  "fd_at fd s \<equiv> FD_TABLES s (CURRENT_PROCESS_ID s) (unat fd)"

abbreviation set_cur_fd :: "nat \<Rightarrow> fd_entry \<Rightarrow> kernel \<Rightarrow> kernel" where
  "set_cur_fd fd e s \<equiv> set_fd (CURRENT_PROCESS_ID s) fd e s"

definition sys_write :: "u32 \<Rightarrow> u64 \<Rightarrow> u64 \<Rightarrow> kernel \<Rightarrow> (i64 \<times> kernel) res" where
  "sys_write fd buf len s =
     (if unat fd \<ge> MAX_FDS then Some (ERR_UNSUPPORTED, s)
      else if len = 0 then Some (0, s)
      else if \<not> contains_range (cur s) buf len then Some (ERR_INVALID_POINTER, s)
      else case fd_kind_of (fd_at fd s) of
             ConsoleOut \<Rightarrow> do { bs \<leftarrow> read_user buf (unat len) s; Some (len, emit (map Put bs) s) }
           | FdFile \<Rightarrow>
               do {
                 data \<leftarrow> read_user buf (unat len) s;
                 (ok, f) \<leftarrow> fs_write (inode (fd_at fd s)) data (fsys s);
                 Some (if ok then len else - 5, s\<lparr>fsys := f\<rparr>)
               }
           | _ \<Rightarrow> Some (ERR_UNSUPPORTED, s))"

text \<open>The loop over \<open>read_key\<close>; \<open>n\<close> is how many characters are still wanted.\<close>

fun console_read :: "layout \<Rightarrow> u64 \<Rightarrow> nat \<Rightarrow> nat \<Rightarrow> kernel \<Rightarrow> (nat \<times> kernel) res" where
  "console_read L buf count 0 s = Some (count, s)"
| "console_read L buf count (Suc n) s =
     (case read_key (kbd s) of (key, k) \<Rightarrow>
        case key of
          None \<Rightarrow> Some (count, s\<lparr>kbd := k\<rparr>)
        | Some ch \<Rightarrow>
            do { s \<leftarrow> write_user L (buf + word_of_nat count) [ch] (s\<lparr>kbd := k\<rparr>);
                 console_read L buf (count + 1) n s })"

definition sys_read :: "layout \<Rightarrow> u32 \<Rightarrow> u64 \<Rightarrow> u64 \<Rightarrow> kernel \<Rightarrow> (i64 \<times> kernel) res" where
  "sys_read L fd buf len s =
     (if unat fd \<ge> MAX_FDS then Some (ERR_UNSUPPORTED, s)
      else if len = 0 then Some (0, s)
      else if \<not> contains_range (cur s) buf len then Some (ERR_INVALID_POINTER, s)
      else case fd_kind_of (fd_at fd s) of
             ConsoleIn \<Rightarrow>
               do {
                 (count, s) \<leftarrow> console_read L buf 0 (nat (sint len)) s;
                 Some (if count = 0 then - 11 else word_of_nat count, s)
               }
           | FdFile \<Rightarrow>
               (let off = unat (fd_offset (fd_at fd s))
                in do {
                  data \<leftarrow> fs_read (inode (fd_at fd s)) (fsys s);
                  let to_copy = min (unat len) (length data - off);
                  s \<leftarrow> write_user L buf (take to_copy (drop off data)) s;
                  Some (word_of_nat to_copy,
                    set_cur_fd (unat fd) ((fd_at fd s)\<lparr>fd_offset := word_of_nat (off + to_copy)\<rparr>) s)
                })
           | _ \<Rightarrow> Some (ERR_UNSUPPORTED, s))"

text \<open>The path of \<open>sys_open\<close> and \<open>sys_stat\<close>: up to the terminating zero, at most 255 bytes.\<close>

fun read_path :: "u64 \<Rightarrow> nat \<Rightarrow> kernel \<Rightarrow> bytes res" where
  "read_path addr 0 s = do { ch \<leftarrow> user_load (cr3 s) addr s; Some [] }"
| "read_path addr (Suc n) s =
     do {
       ch \<leftarrow> user_load (cr3 s) addr s;
       if ch = 0 then Some [] else do { p \<leftarrow> read_path (addr + 1) n s; Some (ch # p) }
     }"

definition fd_new :: "fd_kind \<Rightarrow> nat \<Rightarrow> u64 \<Rightarrow> fd_entry" where
  "fd_new k node flags = \<lparr>fd_kind_of = k, inode = node, fd_offset = 0, fd_flags = ucast flags\<rparr>"

definition open_device :: "fd_kind \<Rightarrow> nat \<Rightarrow> u64 \<Rightarrow> kernel \<Rightarrow> i64 \<times> kernel" where
  "open_device k dflt flags s =
     (let fd = (case find_free_fd (CURRENT_PROCESS_ID s) s of None \<Rightarrow> dflt | Some fd \<Rightarrow> fd)
      in (word_of_nat fd, set_cur_fd fd (fd_new k 0 flags) s))"

definition sys_open :: "u64 \<Rightarrow> u64 \<Rightarrow> kernel \<Rightarrow> (i64 \<times> kernel) res" where
  "sys_open path_ptr flags s =
     do {
       path \<leftarrow> read_path path_ptr 255 s;
       if path = [] then Some (ERR_INVALID_POINTER, s)
       else if path = bytes_of ''/dev/console'' \<or> path = bytes_of ''/dev/stdout'' then
         Some (open_device ConsoleOut 1 flags s)
       else if path = bytes_of ''/dev/stdin'' \<or> path = bytes_of ''/dev/kbd'' then
         Some (open_device ConsoleIn 0 flags s)
       else do {
         r \<leftarrow> resolve path (fsys s);
         case r of
           None \<Rightarrow> Some (ERR_INVALID_POINTER, s)
         | Some node \<Rightarrow>
             do {
               k \<leftarrow> fs_kind node (fsys s);
               if k \<noteq> File then Some (ERR_INVALID_POINTER, s)
               else Some (case find_free_fd (CURRENT_PROCESS_ID s) s of
                            None \<Rightarrow> (ERR_NO_CAPACITY, s)
                          | Some fd \<Rightarrow> (word_of_nat fd, set_cur_fd fd (fd_new FdFile node flags) s))
             }
       }
     }"

definition sys_close :: "u32 \<Rightarrow> kernel \<Rightarrow> i64 \<times> kernel" where
  "sys_close fd s =
     (if unat fd \<ge> MAX_FDS then (ERR_UNSUPPORTED, s)
      else if fd_kind_of (fd_at fd s) = FdFree then (ERR_INVALID_POINTER, s)
      else (0, set_cur_fd (unat fd) fd_free s))"

text \<open>Signed comparison and wrapping addition of \<open>i64\<close> values.\<close>

definition clamp_offset :: "i64 \<Rightarrow> i64 \<Rightarrow> i64" where
  "clamp_offset sz new_off =
     (let new_off = (if sint new_off < 0 then 0 else new_off)
      in if sint sz < sint new_off then sz else new_off)"

definition sys_lseek :: "u32 \<Rightarrow> i64 \<Rightarrow> u32 \<Rightarrow> kernel \<Rightarrow> (i64 \<times> kernel) res" where
  "sys_lseek fd offset whence s =
     (if unat fd \<ge> MAX_FDS then Some (ERR_UNSUPPORTED, s)
      else let e = fd_at fd s
      in if fd_kind_of e \<noteq> FdFile then Some (ERR_UNSUPPORTED, s)
      else do {
        n \<leftarrow> size_of (inode e) (fsys s);
        let sz = (word_of_nat n :: i64);
        let target = (if whence = 0 then Some offset
                      else if whence = 1 then Some (fd_offset e + offset)
                      else if whence = 2 then Some (sz + offset) else None);
        case target of
          None \<Rightarrow> Some (ERR_INVALID_POINTER, s)
        | Some new_off \<Rightarrow>
            let new_off = clamp_offset sz new_off
            in Some (new_off, set_cur_fd (unat fd) (e\<lparr>fd_offset := new_off\<rparr>) s)
      })"

definition sys_stat :: "layout \<Rightarrow> u64 \<Rightarrow> u64 \<Rightarrow> kernel \<Rightarrow> (i64 \<times> kernel) res" where
  "sys_stat L path_ptr stat_buf s =
     do {
       path \<leftarrow> read_path path_ptr 255 s;
       if path = [] then Some (ERR_INVALID_POINTER, s)
       else do {
         r \<leftarrow> resolve path (fsys s);
         case r of
           None \<Rightarrow> Some (ERR_INVALID_POINTER, s)
         | Some node \<Rightarrow>
             if stat_buf = 0 then Some (0, s)
             else if \<not> contains_range (cur s) stat_buf 32 then Some (ERR_INVALID_POINTER, s)
             else do {
               k \<leftarrow> fs_kind node (fsys s);
               n \<leftarrow> size_of node (fsys s);
               s \<leftarrow> write_user L stat_buf (to_le 8 (0 :: u64)) s;
               s \<leftarrow> write_user L (stat_buf + 8) (to_le 8 (word_of_nat node :: u64)) s;
               s \<leftarrow> write_user L (stat_buf + 16) (to_le 4 (if k = Dir then 0x41ED else 0x81A4 :: u32)) s;
               s \<leftarrow> write_user L (stat_buf + 20) (to_le 8 (word_of_nat n :: u64)) s;
               Some (0, s)
             }
       }
     }"

definition sys_dup :: "u32 \<Rightarrow> kernel \<Rightarrow> i64 \<times> kernel" where
  "sys_dup fd s =
     (if unat fd \<ge> MAX_FDS then (ERR_UNSUPPORTED, s)
      else if fd_kind_of (fd_at fd s) = FdFree then (ERR_INVALID_POINTER, s)
      else case find_free_fd (CURRENT_PROCESS_ID s) s of
             None \<Rightarrow> (ERR_NO_CAPACITY, s)
           | Some new_fd \<Rightarrow> (word_of_nat new_fd, set_cur_fd new_fd (fd_at fd s) s))"

definition sys_fcntl :: "u32 \<Rightarrow> u32 \<Rightarrow> u64 \<Rightarrow> kernel \<Rightarrow> i64 \<times> kernel" where
  "sys_fcntl fd cmd arg s =
     (if unat fd \<ge> MAX_FDS then (ERR_UNSUPPORTED, s)
      else if fd_kind_of (fd_at fd s) = FdFree then (ERR_INVALID_POINTER, s)
      else if cmd = 1 then sys_dup fd s
      else if cmd = 2 then (ucast (fd_flags (fd_at fd s)), s)
      else if cmd = 3 then (0, set_cur_fd (unat fd) ((fd_at fd s)\<lparr>fd_flags := ucast arg\<rparr>) s)
      else (ERR_UNSUPPORTED, s))"
section \<open>Graphics calls\<close>

definition sys_get_screen_info :: "layout \<Rightarrow> u64 \<Rightarrow> kernel \<Rightarrow> (i64 \<times> kernel) res" where
  "sys_get_screen_info L buf s =
     (if \<not> contains_range (cur s) buf 16 then Some (ERR_INVALID_POINTER, s)
      else case screen s of (w, h, stride) \<Rightarrow>
        do {
          s \<leftarrow> write_user L buf (to_le 4 w) s;
          s \<leftarrow> write_user L (buf + 4) (to_le 4 h) s;
          s \<leftarrow> write_user L (buf + 8) (to_le 4 stride) s;
          s \<leftarrow> write_user L (buf + 12) (to_le 4 (0 :: u32)) s;
          Some (0, s)
        })"

definition hi16 :: "u64 \<Rightarrow> u32" where "hi16 a = ucast (drop_bit 16 a)"
definition lo16 :: "u64 \<Rightarrow> u32" where "lo16 a = ucast (a AND 0xFFFF)"

definition sys_draw_pixel :: "u64 \<Rightarrow> u64 \<Rightarrow> u64 \<Rightarrow> kernel \<Rightarrow> i64 \<times> kernel" where
  "sys_draw_pixel x y color s = (0, emit [Draw_pixel (ucast x) (ucast y) (rgb_of color)] s)"

definition sys_draw_line :: "u64 \<Rightarrow> u64 \<Rightarrow> u64 \<Rightarrow> kernel \<Rightarrow> i64 \<times> kernel" where
  "sys_draw_line a1 a2 color s = (0, emit [Draw_line (hi16 a1) (lo16 a1) (hi16 a2) (lo16 a2) (rgb_of color)] s)"

definition sys_draw_rect :: "u64 \<Rightarrow> u64 \<Rightarrow> u64 \<Rightarrow> kernel \<Rightarrow> i64 \<times> kernel" where
  "sys_draw_rect a1 a2 a3 s =
     (0, emit [Draw_rect (hi16 a1) (lo16 a1) (hi16 a2) (lo16 a2) (rgb_of (a3 AND 0xFFFFFFFF)) (drop_bit 32 a3 \<noteq> 0)] s)"

definition sys_draw_circle :: "u64 \<Rightarrow> u64 \<Rightarrow> u64 \<Rightarrow> kernel \<Rightarrow> i64 \<times> kernel" where
  "sys_draw_circle a1 a2 a3 s =
     (0, emit [Draw_circle (hi16 a1) (lo16 a1) (ucast (drop_bit 24 a2 AND 0xFFFF)) (rgb_of (a2 AND 0xFFFFFF))
                 (drop_bit 40 a2 \<noteq> 0)] s)"

text \<open>
  \<open>graphics::draw_image\<close>: the pixels row by row; a pixel on the screen reads its three
  bytes and is drawn with \<open>draw_pixel\<close>. The index is computed in 32 bits.
\<close>

definition image_pixels :: "u32 \<Rightarrow> u32 \<Rightarrow> (u32 \<times> u32) list" where
  "image_pixels width height =
     concat (map (\<lambda>py. map (\<lambda>px. (word_of_nat px, word_of_nat py)) [0..<unat width]) [0..<unat height])"

fun draw_image_loop ::
  "u32 \<Rightarrow> u32 \<Rightarrow> u64 \<Rightarrow> nat \<Rightarrow> u32 \<Rightarrow> (u32 \<times> u32) list \<Rightarrow> kernel \<Rightarrow> kernel res" where
  "draw_image_loop x y data len width [] s = Some s"
| "draw_image_loop x y data len width ((px, py) # ps) s =
     (let screen_x = x + px; screen_y = y + py; idx = unat ((py * width + px) * 3)
      in case screen s of (w, h, _) \<Rightarrow>
        if screen_x < w \<and> screen_y < h \<and> idx + 2 < len then
          do {
            r \<leftarrow> user_load (cr3 s) (data + word_of_nat idx) s;
            g \<leftarrow> user_load (cr3 s) (data + word_of_nat (idx + 1)) s;
            b \<leftarrow> user_load (cr3 s) (data + word_of_nat (idx + 2)) s;
            draw_image_loop x y data len width ps (emit [Draw_pixel screen_x screen_y (r, g, b)] s)
          }
        else draw_image_loop x y data len width ps s)"

definition sys_draw_image :: "u64 \<Rightarrow> u64 \<Rightarrow> u64 \<Rightarrow> kernel \<Rightarrow> (i64 \<times> kernel) res" where
  "sys_draw_image a1 data a3 s =
     (let width = hi16 a3; height = ucast a3 :: u32; sz = width * height * 3
      in if \<not> contains_range (cur s) data (ucast sz) then Some (ERR_INVALID_POINTER, s)
      else do {
        s \<leftarrow> draw_image_loop (hi16 a1) (lo16 a1) data (unat sz) width (image_pixels width height) s;
        Some (0, s)
      })"

definition sys_clear_screen :: "u64 \<Rightarrow> kernel \<Rightarrow> i64 \<times> kernel" where
  "sys_clear_screen color s = (0, emit [Clear_screen (rgb_of color)] s)"

definition sys_set_font_scale :: "u64 \<Rightarrow> kernel \<Rightarrow> i64 \<times> kernel" where
  "sys_set_font_scale scale s = (0, emit [Set_font_scale (ucast scale)] s)"

section \<open>Dispatcher\<close>

definition share_memory :: "u64 \<Rightarrow> u64 \<Rightarrow> u64 \<Rightarrow> i64" where "share_memory target addr sz = ERR_UNSUPPORTED"
definition pci_device_access :: "u64 \<Rightarrow> u64 \<Rightarrow> i64" where "pci_device_access bsf off = ERR_UNSUPPORTED"
definition map_physical_memory :: "u64 \<Rightarrow> u64 \<Rightarrow> i64" where "map_physical_memory addr sz = ERR_UNSUPPORTED"
definition create_shared_buffer :: "u64 \<Rightarrow> u64 \<Rightarrow> i64" where "create_shared_buffer sz flags = ERR_UNSUPPORTED"
definition wait_for_vblank :: "i64" where "wait_for_vblank = ERR_UNSUPPORTED"

text \<open>Calls that come back to the caller in the normal way.\<close>

definition ret :: "i64 \<times> kernel \<Rightarrow> (outcome \<times> kernel) res" where
  "ret r = Some (Ret (fst r), snd r)"

definition ret_opt :: "(i64 \<times> kernel) res \<Rightarrow> (outcome \<times> kernel) res" where
  "ret_opt r = map_option (\<lambda>(n, s). (Ret n, s)) r"

definition sys_call_handler ::
  "layout \<Rightarrow> u64 \<Rightarrow> u64 \<Rightarrow> u64 \<Rightarrow> u64 \<Rightarrow> kernel \<Rightarrow> (outcome \<times> kernel) res" where
  "sys_call_handler L sys_no a1 a2 a3 s0 =
     (let s = (if \<not> PROCESS_TABLE_READY s0 then init_process_manager L s0 else s0)
      in if sys_no = 1 then ret_opt (memory_allocate a1 s)
      else if sys_no = 2 then ret (memory_free a1 s)
      else if sys_no = 3 then ret (create_process L a1 s)
      else if sys_no = 4 then ret (create_thread L a1 a2 s)
      else if sys_no = 5 then Some (yield_cpu s)
      else if sys_no = 6 then exit_process a1 s
      else if sys_no = 7 then send_ipc L a1 a2 s
      else if sys_no = 8 then receive_ipc L a1 s
      else if sys_no = 9 then reply_ipc L a1 a2 s
      else if sys_no = 10 then ret (share_memory a1 a2 a3, s)
      else if sys_no = 11 then ret (pci_device_access a1 a2, s)
      else if sys_no = 12 then ret (map_physical_memory a1 a2, s)
      else if sys_no = 13 then ret (create_shared_buffer a1 a2, s)
      else if sys_no = 14 then ret (wait_for_vblank, s)
      else if sys_no = 15 then ret_opt (elf_exec L a1 a2 s)
      else if sys_no = 16 then ret_opt (sys_write (ucast a1) a2 a3 s)
      else if sys_no = 17 then ret_opt (sys_read L (ucast a1) a2 a3 s)
      else if sys_no = 18 then ret_opt (sys_open a2 a1 s)
      else if sys_no = 19 then ret (sys_close (ucast a1) s)
      else if sys_no = 20 then ret_opt (sys_lseek (ucast a1) a2 (ucast a3) s)
      else if sys_no = 21 then ret_opt (sys_stat L a1 a2 s)
      else if sys_no = 22 then ret (sys_dup (ucast a1) s)
      else if sys_no = 23 then ret (sys_fcntl (ucast a1) (ucast a2) a3 s)
      else if sys_no = 24 then ret_opt (sys_print a2 a3 s)
      else if sys_no = 25 then ret_opt (sys_println a2 a3 s)
      else if sys_no = 26 then sys_input L a1 a2 s
      else if sys_no = 27 then ret (sys_ticks s, s)
      else if sys_no = 28 then ret (sys_cls s)
      else if sys_no = 29 then ret (sys_set_cursor (ucast a1) (ucast a2) s)
      else if sys_no = 30 then ret (sys_color (ucast a1) (ucast a2) s)
      else if sys_no = 31 then Some (sys_reboot s)
      else if sys_no = 32 then ret (sys_print_num a1 a2 s)
      else if sys_no = 33 then ret_opt (sys_get_screen_info L a1 s)
      else if sys_no = 34 then ret (sys_draw_pixel a1 a2 a3 s)
      else if sys_no = 35 then ret (sys_draw_line a1 a2 a3 s)
      else if sys_no = 36 then ret (sys_draw_rect a1 a2 a3 s)
      else if sys_no = 37 then ret (sys_draw_circle a1 a2 a3 s)
      else if sys_no = 38 then ret_opt (sys_draw_image a1 a2 a3 s)
      else if sys_no = 39 then ret (sys_clear_screen a1 s)
      else if sys_no = 40 then ret (sys_set_font_scale a1 s)
      else ret (ERR_INVALID_SYSCALL, s))"
section \<open>Writing to user memory\<close>

text \<open>
  A buffer the kernel can fill: mapped, writable, its physical bytes \<open>ps\<close> pairwise distinct and not part of
  the page tables that map it.
\<close>

definition buffer_ok :: "layout \<Rightarrow> memory \<Rightarrow> u64 \<Rightarrow> u64 \<Rightarrow> nat \<Rightarrow> u64 list \<Rightarrow> bool" where
  "buffer_ok L m c ptr n ps \<longleftrightarrow>
     maps m c ptr n ps \<and> maps_writable L m c ptr n \<and> distinct ps \<and> set ps \<inter> table_bytes m c ptr n = {}"

lemma table_bytes_mono: "k \<le> n \<Longrightarrow> table_bytes m c ptr k \<subseteq> table_bytes m c ptr n"
  by (force simp: table_bytes_def)

lemma buffer_ok_translate:
  assumes "buffer_ok L m c ptr n ps" "k < n" "\<And>x. x \<notin> set ps \<Longrightarrow> m' x = m x"
  shows "translate m' c (ptr + word_of_nat k) = translate m c (ptr + word_of_nat k)"
  using assms by (intro translate_outside_tables [of k n]) (auto simp: buffer_ok_def disjoint_iff)

lemma buffer_ok_tables:
  assumes ok: "buffer_ok L m c ptr n ps" and same: "\<And>x. x \<in> table_bytes m c ptr n \<Longrightarrow> m' x = m x"
  shows "buffer_ok L m' c ptr n ps \<and> table_bytes m' c ptr n = table_bytes m c ptr n"
proof -
  have t: "translate m' c (ptr + word_of_nat k) = translate m c (ptr + word_of_nat k)" if "k < n" for k
    using that same by (intro translate_outside_tables [of k n]) auto
  have "table_path m' (c AND PHYS_MASK) (ptr + word_of_nat k) [39, 30, 21] =
      table_path m (c AND PHYS_MASK) (ptr + word_of_nat k) [39, 30, 21]" if "k < n" for k
  proof (rule table_path_cong)
    fix q x assume "q \<in> set (table_path m (c AND PHYS_MASK) (ptr + word_of_nat k) [39, 30, 21])" "x \<in> arange q 4096"
    then have "x \<in> table_bytes m c ptr n" using that by (auto simp: table_bytes_def walk_tables_def)
    then show "m' x = m x" by (rule same)
  qed
  then have tb: "table_bytes m' c ptr n = table_bytes m c ptr n" by (auto simp: table_bytes_def walk_tables_def)
  have "map (\<lambda>k. map_option tr_phys (translate m' c (ptr + word_of_nat k))) [0..<n] =
      map (\<lambda>k. map_option tr_phys (translate m c (ptr + word_of_nat k))) [0..<n]"
    using t by (intro map_cong) auto
  then have "maps m' c ptr n ps = maps m c ptr n ps" unfolding maps_def by (rule arg_cong)
  then show ?thesis using ok t tb by (auto simp: buffer_ok_def maps_writable_def)
qed

lemma buffer_ok_cong:
  assumes "buffer_ok L m c ptr n ps" "\<And>x. x \<notin> set ps \<Longrightarrow> m' x = m x"
  shows "buffer_ok L m' c ptr n ps" "table_bytes m' c ptr n = table_bytes m c ptr n"
  using buffer_ok_tables [OF assms(1), of m'] assms by (auto simp: buffer_ok_def)

lemma write_user_from:
  assumes ok: "buffer_ok L m c buf n ps"
  shows "i + length bs \<le> n \<Longrightarrow> cr3 s = c \<Longrightarrow> (\<And>x. x \<notin> set ps \<Longrightarrow> kmem s x = m x) \<Longrightarrow>
    write_user L (buf + word_of_nat i) bs s =
      Some (s\<lparr>kmem := put_all (take (length bs) (drop i ps)) bs (kmem s)\<rparr>)"
proof (induction bs arbitrary: i s)
  case (Cons b bs)
  have i: "i < n" using Cons.prems(1) by simp
  have len: "length ps = n" using ok maps_length by (auto simp: buffer_ok_def)
  obtain t where t: "translate m c (buf + word_of_nat i) = Some t" "tr_phys t = ps ! i"
    using maps_nth [of m c buf n ps i] ok i by (auto simp: buffer_ok_def)
  have "translate (kmem s) c (buf + word_of_nat i) = Some t"
    using buffer_ok_translate [OF ok i, of "kmem s"] Cons.prems(3) t(1) by simp
  moreover have "tr_writable t \<or> \<not> cr0_wp L" using ok i t(1) by (auto simp: buffer_ok_def maps_writable_def)
  ultimately have st: "user_store L (cr3 s) (buf + word_of_nat i) b s = Some (s\<lparr>kmem := (kmem s)(ps ! i := b)\<rparr>)"
    using t(2) Cons.prems(2) by (simp add: user_store_def)
  have "write_user L (buf + word_of_nat (Suc i)) bs (s\<lparr>kmem := (kmem s)(ps ! i := b)\<rparr>) =
      Some (s\<lparr>kmem := put_all (take (length bs) (drop (Suc i) ps)) bs ((kmem s)(ps ! i := b))\<rparr>)"
    using Cons.prems i len by (subst Cons.IH) auto
  moreover have "take (Suc (length bs)) (drop i ps) = ps ! i # take (length bs) (drop (Suc i) ps)"
    using i len by (simp add: Cons_nth_drop_Suc [symmetric])
  ultimately show ?case using st by (simp add: add.assoc add.commute [of 1])
qed simp

lemma write_user_all:
  assumes ok: "buffer_ok L (kmem s) (cr3 s) buf n ps" and len: "length bs \<le> n"
  shows "\<exists>m. write_user L buf bs s = Some (s\<lparr>kmem := m\<rparr>) \<and> (\<forall>x. x \<notin> set ps \<longrightarrow> m x = kmem s x) \<and>
    user_bytes (cr3 s) buf (length bs) (s\<lparr>kmem := m\<rparr>) = map Some bs"
proof -
  let ?ps = "take (length bs) ps" and ?m = "put_all (take (length bs) ps) bs (kmem s)"
  have pl: "length ps = n" using ok maps_length by (auto simp: buffer_ok_def)
  have w: "write_user L buf bs s = Some (s\<lparr>kmem := ?m\<rparr>)"
    using write_user_from [OF ok, of 0 bs s] len by simp
  have out: "?m x = kmem s x" if "x \<notin> set ps" for x
    using that in_set_takeD by (intro put_all_outside) fast
  have mp: "maps (kmem s) (cr3 s) buf (length bs) ?ps"
    using arg_cong [of _ _ "take (length bs)", OF ok [unfolded buffer_ok_def maps_def, THEN conjunct1]] len
    by (simp add: maps_def take_map take_upt)
  have "user_bytes (cr3 s) buf (length bs) (s\<lparr>kmem := ?m\<rparr>) = map (\<lambda>a. Some (?m a)) ?ps"
    using user_bytes_cong [OF mp, of "s\<lparr>kmem := ?m\<rparr>"] ok table_bytes_mono [OF len, of "kmem s" "cr3 s" buf] out
    by (auto simp: buffer_ok_def)
  also have "\<dots> = map Some bs"
    using ok len pl put_all_nth [of ?ps bs _ "kmem s"] by (intro nth_equalityI) (auto simp: buffer_ok_def)
  finally show ?thesis using w out by blast
qed
section \<open>Reading files through descriptors\<close>

lemma set_fd_simps [simp]:
  "FD_TABLES (set_fd p fd e s) q k = (if q = p \<and> k = fd then e else FD_TABLES s q k)"
  "kmem (set_fd p fd e s) = kmem s" "cr3 (set_fd p fd e s) = cr3 s" "fsys (set_fd p fd e s) = fsys s"
  "PROCESS_TABLE (set_fd p fd e s) = PROCESS_TABLE s" "CURRENT_PROCESS_ID (set_fd p fd e s) = CURRENT_PROCESS_ID s"
  "kbd (set_fd p fd e s) = kbd s" "console (set_fd p fd e s) = console s"
  by (auto simp: set_fd_def)

lemma contents_bounded: "fs_inv fs \<Longrightarrow> contents fs n = Some data \<Longrightarrow> length data \<le> DATA_POOL"
  by (force simp: contents_def fs_inv_def pool_inv_def split: if_splits)

text \<open>What a user program that calls \<open>read(fd, buf, len)\<close> \<open>k\<close> times gets into its buffer, concatenated.\<close>

fun cat_loop :: "layout \<Rightarrow> u32 \<Rightarrow> u64 \<Rightarrow> u64 \<Rightarrow> nat \<Rightarrow> kernel \<Rightarrow> u8 option list res" where
  "cat_loop L fd buf len 0 s = Some []"
| "cat_loop L fd buf len (Suc k) s =
     do {
       (n, s) \<leftarrow> sys_read L fd buf len s;
       rest \<leftarrow> cat_loop L fd buf len k s;
       Some (user_bytes (cr3 s) buf (unat n) s @ rest)
     }"

lemma sys_read_file:
  assumes fd: "unat fd < MAX_FDS" "fd_at fd s = e" "fd_kind_of e = FdFile" "inode e = node"
    and len: "len \<noteq> 0" "contains_range (cur s) buf len"
    and fs: "fs_inv (fsys s)" "contents (fsys s) node = Some data" "unat (fd_offset e) = off" "off \<le> length data"
    and ok: "buffer_ok L (kmem s) (cr3 s) buf (unat len) ps"
    and n: "n = min (unat len) (length data - off)"
  shows "\<exists>m. sys_read L fd buf len s =
      Some (word_of_nat n, set_cur_fd (unat fd) (e\<lparr>fd_offset := word_of_nat (off + n)\<rparr>) (s\<lparr>kmem := m\<rparr>)) \<and>
    (\<forall>x. x \<notin> set ps \<longrightarrow> m x = kmem s x) \<and> user_bytes (cr3 s) buf n (s\<lparr>kmem := m\<rparr>) = map Some (take n (drop off data))"
proof -
  have "length (take n (drop off data)) = n" using n fs(4) by simp
  then obtain m where m: "write_user L buf (take n (drop off data)) s = Some (s\<lparr>kmem := m\<rparr>)"
    "\<forall>x. x \<notin> set ps \<longrightarrow> m x = kmem s x" "user_bytes (cr3 s) buf n (s\<lparr>kmem := m\<rparr>) = map Some (take n (drop off data))"
    using write_user_all [OF ok, of "take n (drop off data)"] n by auto
  then show ?thesis
    using fd len fs_read_spec [OF fs(1,2)] fs(3) by (auto simp: sys_read_def Let_def n)
qed

lemma cat_loop_file:
  assumes fd: "unat fd < MAX_FDS" and len: "len \<noteq> 0"
  shows "fd_at fd s = e \<Longrightarrow> fd_kind_of e = FdFile \<Longrightarrow> inode e = node \<Longrightarrow> contains_range (cur s) buf len \<Longrightarrow>
    fs_inv (fsys s) \<Longrightarrow> contents (fsys s) node = Some data \<Longrightarrow> unat (fd_offset e) = off \<Longrightarrow> off \<le> length data \<Longrightarrow>
    buffer_ok L (kmem s) (cr3 s) buf (unat len) ps \<Longrightarrow>
    cat_loop L fd buf len k s = Some (map Some (take (k * unat len) (drop off data)))"
proof (induction k arbitrary: s e off)
  case (Suc k)
  define n where "n = min (unat len) (length data - off)"
  obtain m where m: "sys_read L fd buf len s =
      Some (word_of_nat n, set_cur_fd (unat fd) (e\<lparr>fd_offset := word_of_nat (off + n)\<rparr>) (s\<lparr>kmem := m\<rparr>))"
    "\<forall>x. x \<notin> set ps \<longrightarrow> m x = kmem s x" "user_bytes (cr3 s) buf n (s\<lparr>kmem := m\<rparr>) = map Some (take n (drop off data))"
    using sys_read_file [OF fd Suc.prems(1-3) len Suc.prems(4-9) n_def] by blast
  let ?s = "set_cur_fd (unat fd) (e\<lparr>fd_offset := word_of_nat (off + n)\<rparr>) (s\<lparr>kmem := m\<rparr>)"
  have b: "off + n \<le> length data" "length data \<le> DATA_POOL" "n \<le> DATA_POOL"
    using n_def Suc.prems(8) contents_bounded [OF Suc.prems(5,6)] by auto
  have "buffer_ok L m (cr3 s) buf (unat len) ps"
    using m(2) by (intro buffer_ok_cong(1) [OF Suc.prems(9)]) blast
  then have "cat_loop L fd buf len k ?s = Some (map Some (take (k * unat len) (drop (off + n) data)))"
    using Suc.prems b unat_word_of_nat [of "off + n"]
    by (intro Suc.IH [of _ "e\<lparr>fd_offset := word_of_nat (off + n)\<rparr>"]) (auto simp del: of_nat_add)
  moreover have "user_bytes (cr3 ?s) buf n ?s = map Some (take n (drop off data))"
    using m(3) user_bytes_kmem [of ?s "s\<lparr>kmem := m\<rparr>"] by simp
  moreover have "unat (word_of_nat n :: u64) = n" using b by simp
  moreover have "take n (drop off data) @ take (k * unat len) (drop (off + n) data) = take (Suc k * unat len) (drop off data)"
  proof (cases "unat len \<le> length data - off")
    case True
    then have "n = unat len" by (simp add: n_def)
    then show ?thesis by (simp add: take_add add.commute)
  next
    case False
    then have "n = length data - off" "drop (off + n) data = []" by (simp_all add: n_def)
    then show ?thesis using False Suc.prems(8) by simp
  qed
  ultimately show ?case using m(1) by (simp flip: map_append)
qed simp

lemma find_free_fd_Some: "find_free_fd p s = Some fd \<Longrightarrow> fd < MAX_FDS \<and> fd_kind_of (FD_TABLES s p fd) = FdFree"
  unfolding find_free_fd_def by (drule find_first_Some) auto

lemma sys_open_file:
  assumes "read_path path_ptr 255 s = Some path" "path \<noteq> []"
    and "path \<notin> {bytes_of ''/dev/console'', bytes_of ''/dev/stdout'', bytes_of ''/dev/stdin'', bytes_of ''/dev/kbd''}"
    and "resolve path (fsys s) = Some (Some node)" "contents (fsys s) node = Some data"
    and "find_free_fd (CURRENT_PROCESS_ID s) s = Some fd"
  shows "sys_open path_ptr flags s = Some (word_of_nat fd, set_cur_fd fd (fd_new FdFile node flags) s)"
  using assms by (auto simp: sys_open_def fs_kind_def contents_def split: if_splits)
section \<open>Confinement\<close>

text \<open>
  The physical bytes behind the memory layer of the running process, and the bytes of the page tables
  that map the layer.
\<close>

definition layer_phys :: "kernel \<Rightarrow> u64 set" where
  "layer_phys s = {tr_phys t | va t. contains_range (cur s) va 1 \<and> translate (kmem s) (cr3 s) va = Some t}"


text \<open>
  \<open>s\<close> differs from \<open>s0\<close> only in what the running process may influence without writing to a file: its memory
  layer, its descriptors, more output on the console and, when \<open>kb\<close> allows it, the keyboard queue.
\<close>

definition confined :: "bool \<Rightarrow> kernel \<Rightarrow> kernel \<Rightarrow> bool" where
  "confined kb s0 s \<longleftrightarrow>
     PROCESS_TABLE s = PROCESS_TABLE s0 \<and> CURRENT_PROCESS_ID s = CURRENT_PROCESS_ID s0 \<and> cr3 s = cr3 s0 \<and>
     CONT s = CONT s0 \<and> RAX s = RAX s0 \<and> FREE_LIST_HEAD s = FREE_LIST_HEAD s0 \<and> POOL_NEXT s = POOL_NEXT s0 \<and>
     POOL_END s = POOL_END s0 \<and> POOL_BASE s = POOL_BASE s0 \<and> TOTAL_PHYSICAL_MEMORY s = TOTAL_PHYSICAL_MEMORY s0 \<and>
     PROCESS_TABLE_READY s = PROCESS_TABLE_READY s0 \<and> SCHEDULER_TICK s = SCHEDULER_TICK s0 \<and>
     TICK_COUNT s = TICK_COUNT s0 \<and> PREEMPT_QUANTUM s = PREEMPT_QUANTUM s0 \<and> cpu_rsp s = cpu_rsp s0 \<and>
     percpu_kernel_rsp s = percpu_kernel_rsp s0 \<and> screen s = screen s0 \<and> fsys s = fsys s0 \<and> (kb \<or> kbd s = kbd s0) \<and>
     (\<exists>es. console s = console s0 @ es) \<and>
     (\<forall>q. q \<noteq> CURRENT_PROCESS_ID s0 \<longrightarrow> FD_TABLES s q = FD_TABLES s0 q) \<and>
     (\<forall>x. x \<notin> layer_phys s0 \<longrightarrow> kmem s x = kmem s0 x)"

named_theorems confined_intros



text \<open>Everything else in one equation.\<close>

lemma confined_rest:
  "confined kb s t \<Longrightarrow> t = s\<lparr>kmem := kmem t, FD_TABLES := FD_TABLES t, kbd := kbd t, console := console t\<rparr>"
  by (simp add: confined_def)


lemma confined_set_fd [confined_intros]: "confined kb s0 s \<Longrightarrow> confined kb s0 (set_cur_fd fd e s)"
  by (auto simp: confined_def set_fd_def)




lemma confined_cur: "confined kb s0 s \<Longrightarrow> cur s = cur s0"
  by (simp add: confined_def)



























section \<open>Line input\<close>

text \<open>The line editor \<open>sys_input\<close> implements, on a list of keys: \<open>None\<close> while no Enter has been pressed.\<close>

fun edit_line :: "nat \<Rightarrow> u8 list \<Rightarrow> u8 list \<Rightarrow> u8 list option" where
  "edit_line m [] line = None"
| "edit_line m (k # ks) line =
     (if k = 0x0A \<or> k = 0x0D then Some line
      else if k = 0x7F \<or> k = 0x08 then edit_line m ks (butlast line)
      else if k \<ge> 0x20 \<and> k < 0x7F then edit_line m ks (if length line < m then line @ [k] else line)
      else edit_line m ks line)"

definition kbd_idle :: "kbd_state \<Rightarrow> u8 list \<Rightarrow> bool" where
  "kbd_idle k q \<longleftrightarrow> kbd_inv k \<and> INIT_DONE k \<and> ps2 k = [] \<and> kbd_queue k = q"


lemma edit_line_append: "edit_line m ks line = Some res \<Longrightarrow> edit_line m (ks @ later) line = Some res"
  by (induction m ks line rule: edit_line.induct) (auto split: if_splits)

text \<open>
  In the middle of the line: the user buffer at \<open>buf\<close> is mapped through the tables \<open>T\<close> to the bytes \<open>ps\<close> and
  starts with the characters \<open>line\<close>; the keys \<open>ks\<close>, which complete it to \<open>res\<close>, are in the keyboard queue
  (with later ones behind them).
\<close>

definition editing :: "layout \<Rightarrow> u64 \<Rightarrow> u64 \<Rightarrow> u64 \<Rightarrow> u64 list \<Rightarrow> u64 set \<Rightarrow> u8 list \<Rightarrow> u8 list \<Rightarrow> u8 list \<Rightarrow> kernel \<Rightarrow> bool"
  where
  "editing L c buf maxlen ps T res ks line s \<longleftrightarrow>
     buffer_ok L (kmem s) c buf (unat maxlen) ps \<and> table_bytes (kmem s) c buf (unat maxlen) = T \<and>
     length line < length ps \<and> (\<forall>i < length line. kmem s (ps ! i) = line ! i) \<and>
     (\<exists>later. kbd_idle (kbd s) (ks @ later)) \<and> edit_line (unat maxlen - 1) ks line = Some res"



lemma editing_write:
  assumes e: "editing L c buf maxlen ps T res ks line s" and c: "cr3 s = c"
  shows "write_user L (buf + word_of_nat (length line)) [ch] s = Some (s\<lparr>kmem := (kmem s)(ps ! length line := ch)\<rparr>)"
proof -
  have ok: "buffer_ok L (kmem s) c buf (unat maxlen) ps" and l: "length line < length ps" using e by (simp_all add: editing_def)
  have n: "length ps = unat maxlen" using ok maps_length by (auto simp: buffer_ok_def)
  have "take 1 (drop (length line) ps) = [ps ! length line]" using l by (simp add: take_Suc hd_drop_conv_nth)
  then show ?thesis
    using write_user_from [OF ok, of "length line" "[ch]" s] l n c by (simp del: write_user.simps)
qed















section \<open>Properties\<close>

text \<open>
  C25: Opening a file by its path and reading it to the end. When the path in user memory resolves to a file and a
  descriptor is free, \<open>sys_open\<close> returns it, and a program that then calls \<open>sys_read\<close> with any buffer size
  often enough receives exactly the contents of the file, in order, through its page tables.
\<close>

theorem open_read_to_end:
  assumes "read_path path_ptr 255 s = Some path" "path \<noteq> []"
    and "path \<notin> {bytes_of ''/dev/console'', bytes_of ''/dev/stdout'', bytes_of ''/dev/stdin'', bytes_of ''/dev/kbd''}"
    and "fs_inv (fsys s)" "resolve path (fsys s) = Some (Some node)" "contents (fsys s) node = Some data"
    and "find_free_fd (CURRENT_PROCESS_ID s) s = Some fd"
    and "len \<noteq> 0" "contains_range (cur s) buf len" "buffer_ok L (kmem s) (cr3 s) buf (unat len) ps"
  shows "\<exists>s'. sys_open path_ptr flags s = Some (word_of_nat fd, s') \<and>
    (\<forall>k. length data \<le> k * unat len \<longrightarrow> cat_loop L (word_of_nat fd) buf len k s' = Some (map Some data))"
proof -
  let ?s = "set_cur_fd fd (fd_new FdFile node flags) s"
  have fd: "fd < MAX_FDS" using find_free_fd_Some [OF assms(7)] by blast
  then have u: "unat (word_of_nat fd :: u32) = fd" by (simp add: unat_of_nat)
  have "cat_loop L (word_of_nat fd) buf len k ?s = Some (map Some (take (k * unat len) (drop 0 data)))" for k
    using fd u assms by (intro cat_loop_file [where e = "fd_new FdFile node flags" and node = node]) (simp_all add: fd_new_def)
  then show ?thesis using sys_open_file [OF assms(1-3,5-7)] by simp
qed


text \<open>
  Call numbers outside 1--40 return \<open>ERR_INVALID_SYSCALL\<close> and the calls 10--14 return \<open>ERR_UNSUPPORTED\<close>; neither
  changes anything.
\<close>

theorem syscall_rejects:
  assumes "PROCESS_TABLE_READY s" "sys_no = 0 \<or> 40 < sys_no \<or> sys_no \<in> {10, 11, 12, 13, 14}"
  shows "sys_call_handler L sys_no a1 a2 a3 s =
    Some (Ret (if sys_no \<in> {10, 11, 12, 13, 14} then ERR_UNSUPPORTED else ERR_INVALID_SYSCALL), s)"
proof (cases "sys_no \<in> {10, 11, 12, 13, 14}")
  case True
  then show ?thesis
    using assms(1) by (auto simp: sys_call_handler_def ret_def share_memory_def pci_device_access_def
        map_physical_memory_def create_shared_buffer_def wait_for_vblank_def)
next
  case False
  have "sys_no \<noteq> k" if "0 < k" "k \<le> 40" for k using assms(2) False that by auto
  then show ?thesis
    using assms(1) False by (simp add: sys_call_handler_def ret_def word_less_nat_alt word_le_nat_alt)
qed

text \<open>
  \<open>sys_lseek\<close> clamps. For each of the three origins the new offset is the 64-bit sum of origin and displacement, read as a
  signed number and cut off at 0 and at the file size, so a descriptor never points outside its file.
\<close>

theorem lseek_clamps:
  assumes "unat fd < MAX_FDS" "fd_kind_of (fd_at fd s) = FdFile" "fs_inv (fsys s)"
    and "contents (fsys s) (inode (fd_at fd s)) = Some data"
    and "(whence, origin) \<in> {(0, 0), (1, fd_offset (fd_at fd s)), (2, word_of_nat (length data))}"
  shows "\<exists>n \<le> length data. int n = min (int (length data)) (max 0 (sint (origin + offset))) \<and>
    sys_lseek fd offset whence s =
      Some (word_of_nat n, set_cur_fd (unat fd) ((fd_at fd s)\<lparr>fd_offset := word_of_nat n\<rparr>) s)"
proof -
  let ?n = "nat (min (int (length data)) (max 0 (sint (origin + offset))))" and ?sz = "word_of_nat (length data) :: i64"
  have b: "length data \<le> DATA_POOL" using assms(3,4) by (rule contents_bounded)
  have sz: "size_of (inode (fd_at fd s)) (fsys s) = Some (length data)"
    using assms(4) by (auto simp: size_of_def contents_def split: if_splits)
  have s1: "sint ?sz = int (length data)"
    using b by (simp add: signed_of_nat signed_take_bit_int_eq_self)
  have w: "clamp_offset ?sz t = word_of_nat (nat (min (int (length data)) (max 0 (sint t))))" for t :: i64
    by (cases "sint t < 0"; cases "sint t \<le> int (length data)") (simp_all add: clamp_offset_def s1 min_def max_def)
  have nfd: "\<not> MAX_FDS \<le> unat fd" using assms(1) by simp
  have "sys_lseek fd offset whence s = Some (clamp_offset ?sz (origin + offset),
      set_cur_fd (unat fd) ((fd_at fd s)\<lparr>fd_offset := clamp_offset ?sz (origin + offset)\<rparr>) s)"
    using assms(5) nfd by (elim insertE emptyE) (simp_all add: sys_lseek_def Let_def sz assms(2))
  then show ?thesis unfolding w by (intro exI [of _ ?n]) simp
qed
text \<open>
  \<open>sys_dup\<close> copies an open descriptor to the lowest free number and touches nothing else; the two numbers are
  independent from then on (\<open>sys_lseek\<close> through one leaves the other's offset where it is), and closing the copy
  gives back the old table. With all sixteen descriptors in use the call fails without an effect.
\<close>

theorem dup_close_roundtrip:
  assumes "unat fd < MAX_FDS" "fd_kind_of (fd_at fd s) \<noteq> FdFree"
  shows "case find_free_fd (CURRENT_PROCESS_ID s) s of
      None \<Rightarrow> sys_dup fd s = (ERR_NO_CAPACITY, s)
    | Some n \<Rightarrow> \<exists>s'. sys_dup fd s = (word_of_nat n, s') \<and> n \<noteq> unat fd \<and>
        fd_at (word_of_nat n) s' = fd_at fd s \<and> fd_at fd s' = fd_at fd s \<and>
        (\<forall>off whence r t. sys_lseek (word_of_nat n) off whence s' = Some (r, t) \<longrightarrow> fd_at fd t = fd_at fd s) \<and>
        (FD_TABLES s (CURRENT_PROCESS_ID s) n = fd_free \<longrightarrow> sys_close (word_of_nat n) s' = (0, s))"
proof (cases "find_free_fd (CURRENT_PROCESS_ID s) s")
  case None
  then show ?thesis using assms by (simp add: sys_dup_def)
next
  case (Some n)
  let ?s = "set_cur_fd n (fd_at fd s) s"
  have n: "n < MAX_FDS" "fd_kind_of (FD_TABLES s (CURRENT_PROCESS_ID s) n) = FdFree" "n \<noteq> unat fd"
    using find_free_fd_Some [OF Some] assms(2) by auto
  have u: "unat (word_of_nat n :: u32) = n" using n(1) by (simp add: unat_of_nat)
  have dup: "sys_dup fd s = (word_of_nat n, ?s)" using assms Some by (simp add: sys_dup_def)
  have seek: "fd_at fd t = fd_at fd s" if "sys_lseek (word_of_nat n) off whence ?s = Some (r, t)" for off whence r t
    using that n(3) by (auto simp: sys_lseek_def u Let_def split: if_splits bind_splits option.splits)
  have close: "sys_close (word_of_nat n) ?s = (0, s)" if "FD_TABLES s (CURRENT_PROCESS_ID s) n = fd_free"
  proof -
    have "(FD_TABLES s (CURRENT_PROCESS_ID s))(n := fd_free) = FD_TABLES s (CURRENT_PROCESS_ID s)"
      by (rule fun_upd_idem) (rule that)
    then have "set_cur_fd n fd_free ?s = s" by (simp add: set_fd_def)
    then show ?thesis using u n(1) assms(2) by (simp add: sys_close_def)
  qed
  show ?thesis using Some n dup u seek close by auto
qed



definition demo_file_fs :: fs_state where
  "demo_file_fs = snd (the (fs_write 3 [7, 8, 9] (add_node 3 (new_node File 0 [0xFF]) demo_fs)))"

definition demo_keys :: kbd_state where
  "demo_keys = \<lparr>KEYBUF = (\<lambda>i. [0x48, 0x78, 0x08, 0x69, 0x0A] ! i), KEYBUF_HEAD = 5, KEYBUF_TAIL = 0, INIT_DONE = True,
     SHIFT = False, EXTENDED = False, ps2 = []\<rparr>"

definition file_kernel :: kernel where
  "file_kernel = (ipc_kernel Empty)\<lparr>cr3 := 0x1000, fsys := demo_file_fs, kbd := demo_keys,
     FD_TABLES := (\<lambda>_ _. fd_free)(1 := (\<lambda>_. fd_free)(5 := fd_new FdFile 3 0))\<rparr>"

lemma demo_file_fs:
  "fs_inv demo_file_fs" "contents demo_file_fs 3 = Some [7, 8, 9]" "find_child demo_file_fs 0 [0xFF] = Some 3"
  "CWD demo_file_fs = 0"
proof -
  let ?f = "add_node 3 (new_node File 0 [0xFF]) demo_fs"
  have al: "alloc_node demo_fs = Some 3" by (simp add: alloc_node_def upt_rec)
  have no: "find_child demo_fs 0 [0xFF] = None"
    using demo_fs_label by (auto simp: find_child_None demo_fs_child simp del: demo_fs_nodes)
  have inv: "fs_inv ?f" using demo_fs_inv al no by (intro add_node_fs_inv) simp_all
  have c: "contents ?f = (contents demo_fs)(3 := Some [])" by (simp add: contents_add_node)
  have fc: "find_child ?f 0 [0xFF] = Some 3" using demo_fs_inv al no by (subst add_node_find_child) simp_all
  have w: "fs_write 3 [7, 8, 9] ?f = Some (True, demo_file_fs)"
    by (simp add: demo_file_fs_def fs_write_def store_checked_def demo_fs_def fs_blank_def add_node_def new_node_def Let_def)
  obtain ok fs' where o: "fs_write 3 [7, 8, 9] ?f = Some (ok, fs')" "fs_inv fs'" "same_tree ?f fs'"
    "if ok then contents fs' = (contents ?f)(3 \<mapsto> [7, 8, 9]) else fs' = ?f"
    using fs_write_spec [OF inv, of 3 "[7, 8, 9]"] c by auto
  then have e: "ok" "fs' = demo_file_fs" using w by auto
  show "fs_inv demo_file_fs" "contents demo_file_fs 3 = Some [7, 8, 9]" using o(2,4) e by simp_all
  have "node_label (NODES demo_file_fs i) = node_label (NODES ?f i)" "is_child demo_file_fs d i = is_child ?f d i" for i d
    using o(3) e unfolding same_tree_def node_label_def is_child_def by (simp_all only:)
  then show "find_child demo_file_fs 0 [0xFF] = Some 3" using fc unfolding find_child_def by (simp only:)
  show "CWD demo_file_fs = 0"
    by (simp add: demo_file_fs_def fs_write_def store_checked_def demo_fs_def fs_blank_def add_node_def new_node_def Let_def)
qed

lemma file_kernel_simps [simp]:
  "kmem file_kernel = ipc_mem" "cr3 file_kernel = 0x1000" "fsys file_kernel = demo_file_fs" "kbd file_kernel = demo_keys"
  "CURRENT_PROCESS_ID file_kernel = Suc 0" "PROCESS_TABLE_READY file_kernel"
  "PROCESS_TABLE file_kernel = PROCESS_TABLE (ipc_kernel Empty)"
  "FD_TABLES file_kernel (Suc 0) = (\<lambda>_. fd_free)(5 := fd_new FdFile 3 0)"
  by (simp_all add: file_kernel_def ipc_kernel_def demo_kernel_def)

lemma file_kernel_buffer:
  assumes "off + 64 < 0x40000000"
  shows "buffer_ok demo_layout ipc_mem 0x1000 (0x100000000000 + word_of_nat off) 64
    (map (\<lambda>k. 0x40000000 + word_of_nat (off + k)) [0..<64])"
  using window_transfer(2) [OF assms, of off demo_layout] assms by (auto simp: transfer_ok_def buffer_ok_def)

lemma file_kernel_load:
  assumes "k < 0x1000000"
  shows "user_load 0x1000 (0x100000000000 + word_of_nat k) file_kernel = Some (ipc_mem (0x40000000 + word_of_nat k))"
  using ipc_window_client(1) [of "0x100000000000 + word_of_nat k" k] window_unat [of k 1 0] assms
  by (auto simp: user_load_def)

lemma file_kernel_path: "read_path 0x1000000000FF 255 file_kernel = Some [0xFF]"
proof -
  have "ipc_mem 0x400000FF = 0xFF" "ipc_mem 0x40000100 = 0"
    by (simp_all add: ipc_mem_def write_u64_def mwrite_def arange_def)
  then have "read_path 0x1000000000FF (Suc (Suc n)) file_kernel = Some [0xFF]" for n
    using file_kernel_load [of 255] file_kernel_load [of 256] by simp
  from this [of 253] show ?thesis by simp
qed
theorem open_read_to_end_witness:
  "\<exists>s'. sys_open 0x1000000000FF 0 file_kernel = Some (0, s') \<and>
     cat_loop demo_layout 0 0x100000000000 64 1 s' = Some (map Some [7, 8, 9])"
proof -
  have "resolve [0xFF] demo_file_fs = Some (Some 3)"
    using demo_file_fs(3,4) by (simp add: resolve_def resolve_from_def resolve_loop.simps names_eq_def bytes_of_def Let_def)
  moreover have "find_free_fd (Suc 0) file_kernel = Some 0"
    by (simp add: find_free_fd_def upt_rec fd_free_def)
  moreover have "contains_range (cur file_kernel) 0x100000000000 64"
    by (simp add: contains_range_def checked_add_def word_le_nat_alt)
  ultimately obtain s' where s': "sys_open 0x1000000000FF 0 file_kernel = Some (0, s')"
    "\<forall>k. length [7, 8, 9 :: u8] \<le> k * 64 \<longrightarrow> cat_loop demo_layout 0 0x100000000000 64 k s' = Some (map Some [7, 8, 9])"
    using open_read_to_end [OF file_kernel_path, of 3 "[7, 8, 9]" 0 64 "0x100000000000" demo_layout _ 0] demo_file_fs(1,2)
      file_kernel_buffer [of 0] by (auto simp: bytes_of_def simp del: cat_loop.simps)
  show ?thesis using s'(1) spec [OF s'(2), of 1] by (simp del: cat_loop.simps)
qed



theorem syscall_rejects_witness: "sys_call_handler demo_layout 41 1 2 3 file_kernel = Some (Ret (- 1), file_kernel)"
  using syscall_rejects [of file_kernel 41 demo_layout 1 2 3] by simp

theorem lseek_clamps_witness:
  "\<exists>s'. sys_lseek 5 (- 1) 2 file_kernel = Some (2, s') \<and> fd_offset (fd_at 5 s') = 2"
  using lseek_clamps [of 5 file_kernel "[7, 8, 9]" 2 3 "- 1"] demo_file_fs(1,2) by (auto simp: fd_new_def)

theorem dup_close_roundtrip_witness:
  "\<exists>s'. sys_dup 5 file_kernel = (0, s') \<and> sys_close 0 s' = (0, file_kernel)"
proof -
  have "find_free_fd (Suc 0) file_kernel = Some 0" by (simp add: find_free_fd_def upt_rec fd_free_def)
  then show ?thesis using dup_close_roundtrip [of 5 file_kernel] by (auto simp: fd_new_def)
qed




end
