(* ===== verification/Context.thy ===== *)
theory Context
  imports Process
begin

unbundle bit_operations_syntax

text \<open>
  The assembly of \<open>src/kernel/src/context.rs\<close>: \<open>context_switch\<close>, instruction by instruction, on the
  registers it touches, and the initial stack frame that \<open>prepare_initial_stack\<close> lays out for it.
\<close>

section \<open>Machine\<close>

record cpu =
  mem :: memory
  rsp :: u64
  rbx :: u64
  rbp :: u64
  r12 :: u64
  r13 :: u64
  r14 :: u64
  r15 :: u64
  rflags :: u64
  rip :: u64
  reg_cr3 :: u64

definition push :: "u64 \<Rightarrow> cpu \<Rightarrow> cpu" where
  "push v c = c\<lparr>rsp := rsp c - 8, mem := write_u64 (mem c) (rsp c - 8) v\<rparr>"

definition top :: "cpu \<Rightarrow> u64" where
  "top c = read_u64 (mem c) (rsp c)"

definition drop_top :: "cpu \<Rightarrow> cpu" where
  "drop_top c = c\<lparr>rsp := rsp c + 8\<rparr>"

text \<open>The three parts of the routine: save, change stack and address space, restore.\<close>

definition save_context :: "u64 \<Rightarrow> cpu \<Rightarrow> cpu" where
  "save_context prev_rsp_slot c =
     (let c = push (rflags c) (push (r15 c) (push (r14 c) (push (r13 c) (push (r12 c)
                (push (rbp c) (push (rbx c) c))))))
      in c\<lparr>mem := write_u64 (mem c) prev_rsp_slot (rsp c)\<rparr>)"

definition load_context :: "u64 \<Rightarrow> u64 \<Rightarrow> cpu \<Rightarrow> cpu" where
  "load_context next_rsp next_cr3 c =
     c\<lparr>rsp := next_rsp,
       reg_cr3 := (if next_cr3 = 0 then reg_cr3 c
                   else if reg_cr3 c = next_cr3 then reg_cr3 c else next_cr3)\<rparr>"

definition restore_context :: "cpu \<Rightarrow> cpu" where
  "restore_context c =
     (let c = drop_top (c\<lparr>rflags := top c\<rparr>);
          c = drop_top (c\<lparr>r15 := top c\<rparr>);
          c = drop_top (c\<lparr>r14 := top c\<rparr>);
          c = drop_top (c\<lparr>r13 := top c\<rparr>);
          c = drop_top (c\<lparr>r12 := top c\<rparr>);
          c = drop_top (c\<lparr>rbp := top c\<rparr>);
          c = drop_top (c\<lparr>rbx := top c\<rparr>)
      in drop_top (c\<lparr>rip := top c\<rparr>))"

definition context_switch :: "u64 \<Rightarrow> u64 \<Rightarrow> u64 \<Rightarrow> cpu \<Rightarrow> cpu" where
  "context_switch prev_rsp_slot next_rsp next_cr3 c =
     restore_context (load_context next_rsp next_cr3 (save_context prev_rsp_slot c))"

section \<open>Saved frames\<close>

text \<open>\<open>frame_at m a c\<close>: the 64 bytes at \<open>a\<close> are the frame from which \<open>c\<close>'s context is restored.\<close>

definition frame_at :: "memory \<Rightarrow> u64 \<Rightarrow> cpu \<Rightarrow> u64 \<Rightarrow> bool" where
  "frame_at m a c ret \<longleftrightarrow>
     read_u64 m a = rflags c \<and> read_u64 m (a + 8) = r15 c \<and> read_u64 m (a + 16) = r14 c \<and>
     read_u64 m (a + 24) = r13 c \<and> read_u64 m (a + 32) = r12 c \<and> read_u64 m (a + 40) = rbp c \<and>
     read_u64 m (a + 48) = rbx c \<and> read_u64 m (a + 56) = ret"

lemma frame_at_cong:
  assumes "frame_at m a c ret" "\<And>x. x \<in> arange a 64 \<Longrightarrow> m' x = m x"
  shows "frame_at m' a c ret"
proof -
  have "read_u64 m' (a + w) = read_u64 m (a + w)" if "unat w + 8 \<le> 64" for w
  proof (rule read_u64_cong)
    fix x assume x: "x \<in> arange (a + w) 8"
    have "x - a = (x - (a + w)) + w" by simp
    moreover have "unat ((x - (a + w)) + w) = unat (x - (a + w)) + unat w"
      using x that by (intro unat_add_lem [THEN iffD1]) (simp add: arange_def)
    ultimately have "unat (x - a) < 64" using x that by (simp add: arange_def)
    then show "m' x = m x" by (intro assms(2)) (simp add: arange_def)
  qed
  from this [of 0] this [of 8] this [of 16] this [of 24] this [of 32] this [of 40] this [of 48] this [of 56]
  show ?thesis using assms(1) by (simp add: frame_at_def)
qed

lemma save_context_frame:
  assumes "arange slot 8 \<inter> arange (rsp c - 56) 64 = {}"
  shows "frame_at (mem (save_context slot c)) (rsp c - 56) c (read_u64 (mem c) (rsp c))"
    and "read_u64 (mem (save_context slot c)) slot = rsp c - 56"
    and "rsp (save_context slot c) = rsp c - 56"
proof -
  let ?m = "mem (push (rflags c) (push (r15 c) (push (r14 c) (push (r13 c) (push (r12 c)
                (push (rbp c) (push (rbx c) c)))))))"
  have "frame_at ?m (rsp c - 56) c (read_u64 (mem c) (rsp c))"
    by (simp add: frame_at_def push_def read_write_u64 read_write_u64_apart)
  moreover have m: "mem (save_context slot c) = write_u64 ?m slot (rsp c - 56)"
    by (simp add: save_context_def push_def)
  ultimately show "frame_at (mem (save_context slot c)) (rsp c - 56) c (read_u64 (mem c) (rsp c))"
    using assms by (elim frame_at_cong) (auto intro!: write_u64_outside)
  show "read_u64 (mem (save_context slot c)) slot = rsp c - 56" by (simp add: m read_write_u64)
  show "rsp (save_context slot c) = rsp c - 56" by (simp add: save_context_def push_def)
qed

lemma save_context_outside:
  assumes "x \<notin> arange slot 8" "x \<notin> arange (rsp c - 56) 56"
  shows "mem (save_context slot c) x = mem c x"
proof -
  have out: "x \<notin> arange (rsp c - 56 + w) 8" if "unat w + 8 \<le> 56" for w
  proof
    assume x: "x \<in> arange (rsp c - 56 + w) 8"
    let ?a = "rsp c - 56"
    have "unat ((x - (?a + w)) + w) = unat (x - (?a + w)) + unat w"
      using x that by (intro unat_add_lem [THEN iffD1]) (simp add: arange_def)
    moreover have "(x - (?a + w)) + w = x - ?a" by simp
    ultimately have "unat (x - ?a) < 56" using x that by (simp add: arange_def)
    then show False using assms(2) by (simp add: arange_def)
  qed
  show ?thesis
    using out [of 0] out [of 8] out [of 16] out [of 24] out [of 32] out [of 40] out [of 48] assms(1)
    by (simp add: save_context_def push_def write_u64_outside)
qed

lemma restore_context_frame:
  assumes "frame_at (mem c) (rsp c) d ret"
  shows "restore_context c = c\<lparr>rflags := rflags d, r15 := r15 d, r14 := r14 d, r13 := r13 d, r12 := r12 d,
    rbp := rbp d, rbx := rbx d, rip := ret, rsp := rsp c + 64\<rparr>"
  using assms by (simp add: restore_context_def drop_top_def top_def frame_at_def add.assoc)


lemma restore_context_mem: "mem (restore_context c) = mem c"
  by (simp add: restore_context_def drop_top_def Let_def)

lemma unat_align16_down: "unat (align16_down a) = unat a div 16 * 16"
proof -
  have low: "unat (a AND 0xF) = unat a mod 16"
  proof -
    have "a AND 0xF = take_bit 4 a" by (simp add: take_bit_eq_mask mask_eq_exp_minus_1)
    then show ?thesis by (simp add: take_bit_eq_mod unat_mod)
  qed
  have "align16_down a = a - (a AND 0xF)" unfolding align16_down_def by (rule and_not_eq_diff)
  then have "unat (align16_down a) = unat a - unat a mod 16"
    by (simp only: unat_sub word_le_nat_alt low mod_less_eq_dividend)
  then show ?thesis by (simp add: minus_mod_eq_div_mult)
qed

section \<open>Properties\<close>

text \<open>
  C8: A switch away and back is invisible. When a task calls \<open>context_switch\<close> (which stores its stack pointer in its slot)
  and any other code later calls \<open>context_switch\<close> with the stored stack pointer, the task continues at the
  return address of its call, with the stack pointer it would have after an ordinary return and with all
  callee-saved registers and the flags as they were, provided the 64 bytes of its saved frame were left alone in between.
\<close>

theorem context_switch_roundtrip:
  assumes "arange slot 8 \<inter> arange (rsp c - 56) 64 = {}"
    and "\<forall>x \<in> arange (rsp c - 56) 64. mem d x = mem (context_switch slot next_rsp next_cr3 c) x"
    and "arange slot' 8 \<inter> arange (rsp c - 56) 64 = {}" "arange (rsp d - 56) 56 \<inter> arange (rsp c - 56) 64 = {}"
    and "back = context_switch slot' (read_u64 (mem (context_switch slot next_rsp next_cr3 c)) slot) back_cr3 d"
  shows "rip back = read_u64 (mem c) (rsp c) \<and> rsp back = rsp c + 8 \<and> rflags back = rflags c \<and>
    rbx back = rbx c \<and> rbp back = rbp c \<and> r12 back = r12 c \<and> r13 back = r13 c \<and> r14 back = r14 c \<and>
    r15 back = r15 c \<and> (back_cr3 \<noteq> 0 \<longrightarrow> reg_cr3 back = back_cr3)"
proof -
  have memc: "mem (context_switch slot next_rsp next_cr3 c) = mem (save_context slot c)"
    by (simp add: context_switch_def restore_context_mem load_context_def)
  note sc = save_context_frame [OF assms(1)]
  let ?e = "load_context (rsp c - 56) back_cr3 (save_context slot' d)"
  have "frame_at (mem ?e) (rsp c - 56) c (read_u64 (mem c) (rsp c))"
  proof (rule frame_at_cong [OF sc(1)])
    fix x assume x: "x \<in> arange (rsp c - 56) 64"
    then have "mem (save_context slot' d) x = mem d x"
      using assms(3,4) by (intro save_context_outside) auto
    then show "mem ?e x = mem (save_context slot c) x"
      using assms(2) x by (simp add: load_context_def memc)
  qed
  then have "restore_context ?e = ?e\<lparr>rflags := rflags c, r15 := r15 c, r14 := r14 c, r13 := r13 c, r12 := r12 c,
      rbp := rbp c, rbx := rbx c, rip := read_u64 (mem c) (rsp c), rsp := (rsp c - 56) + 64\<rparr>"
    using restore_context_frame [of ?e c] by (simp add: load_context_def)
  moreover have "back = restore_context ?e"
    unfolding assms(5) memc sc(2) by (simp only: context_switch_def)
  ultimately show ?thesis by (simp add: load_context_def)
qed

text \<open>
  The first switch into a new process. After \<open>prepare_initial_stack\<close>, a switch to the returned stack pointer
  enters \<open>bootstrap\<close> with interrupts disabled (flags 2), zeroed callee-saved registers, and a stack pointer that
  is 8 modulo 16, as the calling convention demands at a function's first instruction.
\<close>

theorem context_switch_first_entry:
  assumes "prepare_initial_stack stk bootstrap m = (saved, m')"
    and "\<forall>x \<in> arange saved 64. mem c x = m' x"
    and "arange slot 8 \<inter> arange saved 64 = {}" "arange (rsp c - 56) 56 \<inter> arange saved 64 = {}"
    and "c' = context_switch slot saved next_cr3 c"
  shows "rip c' = bootstrap \<and> rflags c' = 2 \<and> rbx c' = 0 \<and> rbp c' = 0 \<and> r12 c' = 0 \<and> r13 c' = 0 \<and>
    r14 c' = 0 \<and> r15 c' = 0 \<and> rsp c' = align16_down stk - 8 \<and> unat (rsp c') mod 16 = 8"
proof -
  let ?z = "c\<lparr>rflags := 2, rbx := 0, rbp := 0, r12 := 0, r13 := 0, r14 := 0, r15 := 0\<rparr>"
  have saved: "saved = align16_down stk - 72"
    and m': "m' = fold (\<lambda>(i, v) m. write_u64 m (saved + 8 * i) v)
      [(0, 2), (1, 0), (2, 0), (3, 0), (4, 0), (5, 0), (6, 0), (7, bootstrap)] m"
    using assms(1) by (auto simp: prepare_initial_stack_def Let_def)
  have f: "frame_at m' saved ?z bootstrap"
    by (simp add: m' frame_at_def read_write_u64 read_write_u64_apart)
  let ?e = "load_context saved next_cr3 (save_context slot c)"
  have "frame_at (mem ?e) saved ?z bootstrap"
  proof (rule frame_at_cong [OF f])
    fix x assume x: "x \<in> arange saved 64"
    then have "mem (save_context slot c) x = mem c x"
      using assms(3,4) by (intro save_context_outside) auto
    then show "mem ?e x = m' x" using assms(2) x by (simp add: load_context_def)
  qed
  then have r: "restore_context ?e = ?e\<lparr>rflags := 2, r15 := 0, r14 := 0, r13 := 0, r12 := 0,
      rbp := 0, rbx := 0, rip := bootstrap, rsp := saved + 64\<rparr>"
    using restore_context_frame [of ?e ?z] by (simp add: load_context_def)
  have "unat (align16_down stk - 8) mod 16 = 8"
  proof (cases "unat stk div 16")
    case 0
    then have "align16_down stk = 0" using unat_align16_down [of stk] by (simp add: unat_eq_zero)
    then show ?thesis by simp
  next
    case (Suc q)
    then have q: "unat (align16_down stk) = 16 * q + 16" using unat_align16_down [of stk] by simp
    then have "unat (align16_down stk - 8) = 16 * q + 8" by (subst unat_sub) (auto simp: word_le_nat_alt)
    then show ?thesis by simp
  qed
  then show ?thesis using assms(5) r saved by (simp add: context_switch_def)
qed


subsection \<open>Two tasks\<close>

definition task :: "u64 \<Rightarrow> cpu" where
  "task sp = \<lparr>mem = (\<lambda>_. 7), rsp = sp, rbx = 1, rbp = 2, r12 = 3, r13 = 4, r14 = 5, r15 = 6, rflags = 0x202,
     rip = 0, reg_cr3 = 0x1000\<rparr>"

lemma arange_disjointI:
  fixes a b :: u64
  assumes "n \<le> unat (b - a)" "unat (b - a) + k \<le> 2 ^ 64"
  shows "arange a n \<inter> arange b k = {}"
proof -
  have "\<not> (unat (x - a) < n \<and> unat (x - b) < k)" for x
  proof
    assume x: "unat (x - a) < n \<and> unat (x - b) < k"
    have "unat ((x - b) + (b - a)) = unat (x - b) + unat (b - a)"
      using x assms by (intro unat_add_lem [THEN iffD1]) auto
    then show False using x assms by simp
  qed
  then show ?thesis by (auto simp: arange_def)
qed

theorem context_switch_roundtrip_witness:
  "rbx (context_switch 0x900 (read_u64 (mem (context_switch 0x800 0x5000 0 (task 0x4000))) 0x800) 0x3000
     ((task 0x5000)\<lparr>rbx := 99, mem := mem (context_switch 0x800 0x5000 0 (task 0x4000))\<rparr>)) = 1"
  using context_switch_roundtrip [of "0x800" "task 0x4000" "(task 0x5000)\<lparr>rbx := 99, mem := mem (context_switch 0x800 0x5000 0 (task 0x4000))\<rparr>"
      "0x5000" 0 "0x900" _ "0x3000", OF _ _ _ _ refl]
  by (simp add: arange_disjointI task_def)

theorem context_switch_first_entry_witness:
  "rip (context_switch 0x900 (fst (prepare_initial_stack 0x8000 0xABC (\<lambda>_. 0))) 0x3000
     ((task 0x5000)\<lparr>mem := snd (prepare_initial_stack 0x8000 0xABC (\<lambda>_. 0))\<rparr>)) = 0xABC"
proof -
  define m' where "m' = snd (prepare_initial_stack 0x8000 0xABC (\<lambda>_. 0))"
  have p: "prepare_initial_stack 0x8000 0xABC (\<lambda>_. 0) = (0x7FB8, m')"
    by (simp add: m'_def prepare_initial_stack_def Let_def align16_down_def)
  from context_switch_first_entry [OF p, of "(task 0x5000)\<lparr>mem := m'\<rparr>" "0x900" _ "0x3000", OF _ _ _ refl]
  show ?thesis unfolding p by (simp add: arange_disjointI task_def)
qed

end
