(* ===== verification/Config.thy ===== *)
theory Config
  imports Text
begin

text \<open>
  The system configuration of \<open>src/kernel/src/config.rs\<close>: the global \<open>CONFIG\<close>, its setters with their
  range checks, the presets, and its storage in \<open>/etc/pureos.conf\<close> of the in-RAM file system.
  What a function prints on the terminal is returned as text.
\<close>

section \<open>State\<close>

record terminal_colors =
  foreground_r :: u8
  foreground_g :: u8
  foreground_b :: u8
  background_r :: u8
  background_g :: u8
  background_b :: u8

record system_config =
  font_scale :: u32
  selected_font :: u32
  colors :: terminal_colors
  shell_prompt :: bytes
  max_processes :: u64
  ephemeral_layer_size :: u64
  enable_graphics :: bool
  boot_delay_ms :: u64
  mouse_sensitivity :: u32

definition colors_default :: terminal_colors where
  "colors_default = \<lparr>foreground_r = 255, foreground_g = 255, foreground_b = 255,
     background_r = 0, background_g = 0, background_b = 0\<rparr>"

definition colors_light :: terminal_colors where
  "colors_light = \<lparr>foreground_r = 0, foreground_g = 0, foreground_b = 0,
     background_r = 255, background_g = 255, background_b = 255\<rparr>"

definition config_default :: system_config where
  "config_default = \<lparr>font_scale = 1, selected_font = 0, colors = colors_default,
     shell_prompt = bytes_of ''pureos$ '' @ replicate 56 0, max_processes = 64,
     ephemeral_layer_size = 16 * 1024 * 1024, enable_graphics = True, boot_delay_ms = 0, mouse_sensitivity = 5\<rparr>"

section \<open>Setters\<close>

definition set_config :: "system_config \<Rightarrow> system_config \<Rightarrow> system_config" where
  "set_config config c = config"

definition set_font_scale :: "u32 \<Rightarrow> system_config \<Rightarrow> system_config" where
  "set_font_scale scale c = c\<lparr>font_scale := scale\<rparr>"

definition set_selected_font :: "u32 \<Rightarrow> system_config \<Rightarrow> system_config" where
  "set_selected_font idx c = (if idx \<le> 7 then c\<lparr>selected_font := idx\<rparr> else c)"

definition set_terminal_colors :: "terminal_colors \<Rightarrow> system_config \<Rightarrow> system_config" where
  "set_terminal_colors cs c = c\<lparr>colors := cs\<rparr>"

definition set_shell_prompt :: "bytes \<Rightarrow> system_config \<Rightarrow> system_config" where
  "set_shell_prompt prompt c =
     (let i = min (length prompt) 63
      in c\<lparr>shell_prompt := (take i prompt @ drop i (shell_prompt c))[i := 0]\<rparr>)"

definition get_shell_prompt :: "system_config \<Rightarrow> bytes" where
  "get_shell_prompt c = takeWhile (\<lambda>b. b \<noteq> 0) (take 64 (shell_prompt c))"

definition set_max_processes :: "u64 \<Rightarrow> system_config \<Rightarrow> system_config" where
  "set_max_processes n c = (if n \<le> 64 \<and> n \<ge> 1 then c\<lparr>max_processes := n\<rparr> else c)"

definition set_ephemeral_layer_size :: "u64 \<Rightarrow> system_config \<Rightarrow> system_config" where
  "set_ephemeral_layer_size n c =
     (if n \<ge> 1024 * 1024 \<and> n \<le> 1024 * 1024 * 1024 then c\<lparr>ephemeral_layer_size := n\<rparr> else c)"

definition set_graphics_enabled :: "bool \<Rightarrow> system_config \<Rightarrow> system_config" where
  "set_graphics_enabled b c = c\<lparr>enable_graphics := b\<rparr>"

definition set_mouse_sensitivity :: "u32 \<Rightarrow> system_config \<Rightarrow> system_config" where
  "set_mouse_sensitivity v c = (if v \<ge> 1 \<and> v \<le> 9 then c\<lparr>mouse_sensitivity := v\<rparr> else c)"

definition set_boot_delay :: "u64 \<Rightarrow> system_config \<Rightarrow> system_config" where
  "set_boot_delay d c = c\<lparr>boot_delay_ms := d\<rparr>"

definition reset_config :: "system_config \<Rightarrow> system_config" where
  "reset_config c = config_default"

definition apply_preset :: "bytes \<Rightarrow> system_config \<Rightarrow> bytes \<times> system_config" where
  "apply_preset preset c =
     (if preset = bytes_of ''default'' then ([], reset_config c)
      else if preset = bytes_of ''minimal'' then
        ([], c\<lparr>font_scale := 1, max_processes := 16, ephemeral_layer_size := 8 * 1024 * 1024, enable_graphics := False\<rparr>)
      else if preset = bytes_of ''performance'' then
        ([], c\<lparr>font_scale := 2, max_processes := 64, ephemeral_layer_size := 32 * 1024 * 1024, enable_graphics := True\<rparr>)
      else if preset = bytes_of ''light'' then ([], c\<lparr>colors := colors_light\<rparr>)
      else if preset = bytes_of ''dark'' then ([], c\<lparr>colors := colors_default\<rparr>)
      else (bytes_of ''Unknown preset: '' @ preset @ [newline_byte], c))"

section \<open>Listing\<close>

definition font_names :: "bytes list" where
  "font_names = map bytes_of [''compact'', ''bold'', ''italic'', ''serif'', ''outline'', ''tall'', ''vga'', ''wide'']"

definition nl_text :: "string \<Rightarrow> bytes" where
  "nl_text s = bytes_of s @ [newline_byte]"

definition show_config :: "u32 \<Rightarrow> u32 \<Rightarrow> system_config \<Rightarrow> bytes" where
  "show_config w h c =
     (let num = (\<lambda>v. num_text v); num8 = (\<lambda>v :: u8. num_text (ucast v)); cs = colors c;
          idx = (if selected_font c < 8 then unat (selected_font c) else 0)
      in [newline_byte] @ nl_text ''=== PureOS Configuration ==='' @ [newline_byte] @
         bytes_of ''Screen Resolution: '' @ num (ucast w) @ bytes_of ''x'' @ num (ucast h) @ nl_text '' @32bpp'' @
         bytes_of ''Font Selection: '' @ (font_names ! idx) @ bytes_of '' (scale: '' @ num (ucast (font_scale c)) @ nl_text '')'' @
         bytes_of ''Terminal Colors: RGB('' @ num8 (foreground_r cs) @ bytes_of '', '' @ num8 (foreground_g cs) @
         bytes_of '', '' @ num8 (foreground_b cs) @ bytes_of '') / RGB('' @ num8 (background_r cs) @ bytes_of '', '' @
         num8 (background_g cs) @ bytes_of '', '' @ num8 (background_b cs) @ nl_text '')'' @
         bytes_of ''Shell Prompt: '' @ get_shell_prompt c @ [newline_byte] @
         bytes_of ''Max Processes: '' @ num (max_processes c) @ [newline_byte] @
         bytes_of ''Ephemeral Layer Size: '' @ num (ephemeral_layer_size c div (1024 * 1024)) @ nl_text '' MB'' @
         bytes_of ''Graphics: '' @ (if enable_graphics c then nl_text ''Enabled'' else nl_text ''Disabled'') @
         bytes_of ''Boot Delay: '' @ num (boot_delay_ms c) @ nl_text '' ms'' @ [newline_byte])"

section \<open>Storage\<close>

text \<open>The 111 bytes that \<open>save_config\<close> writes: magic, version and the fields in order.\<close>

definition config_bytes :: "system_config \<Rightarrow> bytes" where
  "config_bytes c =
     bytes_of ''PCF'' @ [1] @ to_le 4 (font_scale c) @ to_le 4 (selected_font c) @
     [foreground_r (colors c), foreground_g (colors c), foreground_b (colors c),
      background_r (colors c), background_g (colors c), background_b (colors c)] @
     take 64 (shell_prompt c) @ to_le 8 (max_processes c) @ to_le 8 (ephemeral_layer_size c) @
     [if enable_graphics c then 1 else 0] @ to_le 8 (boot_delay_ms c) @ to_le 4 (mouse_sensitivity c)"

text \<open>\<open>resolve(path)\<close> guarded by \<open>kind(n) == k\<close>, as both functions use it.\<close>

definition resolve_kind :: "string \<Rightarrow> kind \<Rightarrow> fs_state \<Rightarrow> nat option res" where
  "resolve_kind path k fs =
     do {
       r \<leftarrow> resolve (bytes_of path) fs;
       case r of
         None \<Rightarrow> Some None
       | Some n \<Rightarrow> do { k' \<leftarrow> fs_kind n fs; Some (if k' = k then Some n else None) }
     }"

text \<open>The \<open>let path = match ...\<close> of \<open>save_config\<close>: the file, created with its directory where missing.\<close>

definition config_file :: "fs_state \<Rightarrow> ((bytes + nat) \<times> fs_state) res" where
  "config_file fs =
     do {
       r \<leftarrow> resolve_kind ''/etc/pureos.conf'' File fs;
       case r of
         Some n \<Rightarrow> Some (Inr n, fs)
       | None \<Rightarrow>
           do {
             e \<leftarrow> resolve_kind ''/etc'' Dir fs;
             (etc, fs) \<leftarrow> (case e of Some n \<Rightarrow> Some (Some n, fs) | None \<Rightarrow> mkdir ROOT (bytes_of ''etc'') fs);
             case etc of
               None \<Rightarrow> Some (Inl (nl_text ''config: cannot create /etc''), fs)
             | Some d \<Rightarrow>
                 do {
                   (f, fs) \<leftarrow> create_file d (bytes_of ''pureos.conf'') fs;
                   Some (case f of None \<Rightarrow> Inl (nl_text ''config: cannot create /etc/pureos.conf'') | Some n \<Rightarrow> Inr n, fs)
                 }
           }
     }"

definition save_config :: "system_config \<Rightarrow> fs_state \<Rightarrow> (bool \<times> bytes \<times> fs_state) res" where
  "save_config c fs =
     do {
       (r, fs) \<leftarrow> config_file fs;
       case r of
         Inl msg \<Rightarrow> Some (False, msg, fs)
       | Inr n \<Rightarrow>
           do {
             (ok, fs) \<leftarrow> fs_write n (config_bytes c) fs;
             Some (True, nl_text ''Configuration saved to /etc/pureos.conf'', fs)
           }
     }"

text \<open>A slice or an index outside the file's data panics.\<close>

definition at :: "bytes \<Rightarrow> nat \<Rightarrow> nat \<Rightarrow> bytes res" where
  "at data off n = (if off + n \<le> length data then Some (take n (drop off data)) else None)"

definition parse_config :: "bytes \<Rightarrow> system_config res" where
  "parse_config data =
     do {
       fscale \<leftarrow> at data 4 4;
       sfont \<leftarrow> at data 8 4;
       cols \<leftarrow> at data 12 6;
       prompt \<leftarrow> at data 18 64;
       procs \<leftarrow> at data 82 8;
       lay \<leftarrow> at data 90 8;
       gfx \<leftarrow> at data 98 1;
       delay \<leftarrow> at data 99 8;
       mouse \<leftarrow> at data 107 4;
       Some \<lparr>font_scale = from_le fscale, selected_font = from_le sfont,
         colors = \<lparr>foreground_r = cols ! 0, foreground_g = cols ! 1, foreground_b = cols ! 2,
           background_r = cols ! 3, background_g = cols ! 4, background_b = cols ! 5\<rparr>,
         shell_prompt = prompt, max_processes = from_le procs, ephemeral_layer_size = from_le lay,
         enable_graphics = (hd gfx \<noteq> 0), boot_delay_ms = from_le delay, mouse_sensitivity = from_le mouse\<rparr>
     }"

definition load_config :: "system_config \<Rightarrow> fs_state \<Rightarrow> (bool \<times> bytes \<times> system_config) res" where
  "load_config c fs =
     do {
       r \<leftarrow> resolve_kind ''/etc/pureos.conf'' File fs;
       case r of
         None \<Rightarrow> Some (False, nl_text ''config: /etc/pureos.conf not found'', c)
       | Some n \<Rightarrow>
           do {
             data \<leftarrow> fs_read n fs;
             if length data < 4 \<or> take 4 data \<noteq> bytes_of ''PCF'' @ [1] then
               Some (False, nl_text ''config: bad format'', c)
             else if length data < 104 then Some (False, nl_text ''config: truncated'', c)
             else do {
               c' \<leftarrow> parse_config data;
               Some (True, nl_text ''Configuration loaded from /etc/pureos.conf'', c')
             }
           }
     }"
section \<open>Encoding and decoding\<close>

lemma at_append: "length xs \<le> off \<Longrightarrow> at (xs @ ys) off n = at ys (off - length xs) n"
  by (auto simp: at_def)

lemma at_Cons: "0 < off \<Longrightarrow> at (x # xs) off n = at xs (off - 1) n"
  by (auto simp: at_def drop_Cons')

lemma at_front: "at xs 0 n = (if n \<le> length xs then Some (take n xs) else None)"
  by (simp add: at_def)

lemma length_config_bytes: "length (shell_prompt c) = 64 \<Longrightarrow> length (config_bytes c) = 111"
  by (simp add: config_bytes_def bytes_of_def)

lemma parse_config_bytes:
  assumes "length (shell_prompt c) = 64"
  shows "parse_config (config_bytes c) = Some c"
proof -
  have p: "bytes_of ''PCF'' = [0x50, 0x43, 0x46]" by (simp add: bytes_of_def)
  note simps = config_bytes_def p at_append at_Cons at_front assms
  have at: "at (config_bytes c) 4 4 = Some (to_le 4 (font_scale c))"
    "at (config_bytes c) 8 4 = Some (to_le 4 (selected_font c))"
    "at (config_bytes c) 12 6 = Some [foreground_r (colors c), foreground_g (colors c), foreground_b (colors c),
       background_r (colors c), background_g (colors c), background_b (colors c)]"
    "at (config_bytes c) 18 64 = Some (shell_prompt c)"
    "at (config_bytes c) 82 8 = Some (to_le 8 (max_processes c))"
    "at (config_bytes c) 90 8 = Some (to_le 8 (ephemeral_layer_size c))"
    "at (config_bytes c) 98 1 = Some [if enable_graphics c then 1 else 0]"
    "at (config_bytes c) 99 8 = Some (to_le 8 (boot_delay_ms c))"
    "at (config_bytes c) 107 4 = Some (to_le 4 (mouse_sensitivity c))"
    by (simp_all add: simps)
  show ?thesis by (simp add: parse_config_def at at(7) [unfolded One_nat_def])
qed

section \<open>The file\<close>

abbreviation conf_path :: "bytes list" where "conf_path \<equiv> [bytes_of ''etc'', bytes_of ''pureos.conf'']"

lemma conf_plain: "plain_name (bytes_of ''etc'')" "plain_name (bytes_of ''pureos.conf'')"
  by (simp_all add: plain_name_def bytes_of_def)

lemma resolve_conf:
  "resolve (bytes_of ''/etc/pureos.conf'') fs = Some (descend fs ROOT conf_path)"
  "resolve (bytes_of ''/etc'') fs = Some (descend fs ROOT [bytes_of ''etc''])"
proof -
  have "bytes_of ''/etc/pureos.conf'' = path_string conf_path" "bytes_of ''/etc'' = path_string [bytes_of ''etc'']"
    by (simp_all add: path_string_def bytes_of_def)
  then show "resolve (bytes_of ''/etc/pureos.conf'') fs = Some (descend fs ROOT conf_path)"
    "resolve (bytes_of ''/etc'') fs = Some (descend fs ROOT [bytes_of ''etc''])"
    using conf_plain by (simp_all only: list.set ball_simps resolve_absolute list.distinct simp_thms insert_iff empty_iff)
qed

lemma find_child_same_tree:
  assumes "same_tree fs fs'"
  shows "find_child fs' = find_child fs"
proof -
  have "node_label (NODES fs' i) = node_label (NODES fs i)" "is_child fs' d i = is_child fs d i" for i d
    using assms unfolding same_tree_def node_label_def is_child_def by (simp_all only:)
  then show ?thesis unfolding find_child_def fun_eq_iff by (simp only: simp_thms)
qed

lemma descend_same_tree: "same_tree fs fs' \<Longrightarrow> descend fs' d cs = descend fs d cs"
  by (induction cs arbitrary: d) (simp_all add: find_child_same_tree)

lemma find_child_less: "find_child fs d nm = Some i \<Longrightarrow> i < MAX_NODES"
  unfolding find_child_def by (drule find_first_Some) simp

lemma create_file_data_next: "create_file d nm fs = Some (r, fs') \<Longrightarrow> DATA_NEXT fs' = DATA_NEXT fs"
  by (auto simp: create_file_def split: if_splits option.splits)

lemma mkdir_data_next: "mkdir d nm fs = Some (r, fs') \<Longrightarrow> DATA_NEXT fs' = DATA_NEXT fs"
  by (auto simp: mkdir_def split: if_splits option.splits)

lemma create_file_lookup:
  assumes inv: "fs_inv fs" and d: "d < MAX_NODES" and run: "create_file d nm fs = Some (Some n, fs')"
  shows "find_child fs' d nm = Some n \<and> contents fs' n \<noteq> None \<and>
    (\<forall>e m. (e, m) \<noteq> (d, nm) \<longrightarrow> find_child fs' e m = find_child fs e m)"
  using create_file_spec [OF inv d, of nm] run by (auto split: if_splits)

lemma mkdir_lookup:
  assumes inv: "fs_inv fs" and d: "d < MAX_NODES" and run: "mkdir d nm fs = Some (Some n, fs')"
  shows "find_child fs' d nm = Some n"
  using mkdir_spec [OF inv d, of nm] run by (auto split: if_splits)

lemma resolve_etc: "resolve_kind ''/etc'' Dir fs = Some (Some d) \<Longrightarrow> find_child fs ROOT (bytes_of ''etc'') = Some d"
  by (auto simp: resolve_kind_def resolve_conf split: bind_splits option.splits if_splits)

lemma config_file_found:
  assumes inv: "fs_inv fs" and run: "config_file fs = Some (Inr n, fs')"
  shows "fs_inv fs' \<and> descend fs' ROOT conf_path = Some n \<and> contents fs' n \<noteq> None \<and> DATA_NEXT fs' = DATA_NEXT fs"
proof (cases "resolve_kind ''/etc/pureos.conf'' File fs = Some (Some n) \<and> fs' = fs")
  case True
  then show ?thesis
    using inv by (auto simp: resolve_kind_def resolve_conf fs_kind_def contents_def split: bind_splits option.splits if_splits)
next
  case False
  then have "\<exists>d fs1. (resolve_kind ''/etc'' Dir fs = Some (Some d) \<and> fs1 = fs \<or>
      mkdir ROOT (bytes_of ''etc'') fs = Some (Some d, fs1)) \<and>
      create_file d (bytes_of ''pureos.conf'') fs1 = Some (Some n, fs')"
    using run by (auto simp: config_file_def split: bind_splits option.splits) blast
  then obtain d fs1 where d: "find_child fs1 ROOT (bytes_of ''etc'') = Some d" "fs_inv fs1" "DATA_NEXT fs1 = DATA_NEXT fs"
    and c: "create_file d (bytes_of ''pureos.conf'') fs1 = Some (Some n, fs')"
    using resolve_etc mkdir_lookup [OF inv, of ROOT] mkdir_inv [OF inv] mkdir_data_next inv by fastforce
  have "bytes_of ''etc'' \<noteq> bytes_of ''pureos.conf''" by (simp add: bytes_of_def)
  then have "descend fs' ROOT conf_path = Some n \<and> contents fs' n \<noteq> None"
    using create_file_lookup [OF d(2) find_child_less [OF d(1)] c] d(1) by simp
  then show ?thesis using create_file_inv [OF d(2) c] create_file_data_next [OF c] d(3) by simp
qed
lemma fs_write_room:
  assumes inv: "fs_inv fs" and c: "contents fs i \<noteq> None" and room: "DATA_NEXT fs + length data \<le> DATA_POOL"
  shows "\<exists>fs'. fs_write i data fs = Some (True, fs') \<and> fs_inv fs' \<and> same_tree fs fs' \<and> contents fs' i = Some data"
proof -
  have len: "length data < 2 ^ 32" using room by simp
  have i: "i < MAX_NODES" "node_kind (NODES fs i) = File" using c by (auto simp: contents_def split: if_splits)
  obtain ok fs' where w: "fs_write i data fs = Some (ok, fs')" "fs_inv fs'" "same_tree fs fs'"
    "if ok then contents fs' = (contents fs)(i \<mapsto> data) else fs' = fs"
    using fs_write_spec [OF inv c len] by blast
  have ok using inv i(1) len by (cases rule: fs_write_cases) (use w(1) i(2) room in auto)
  then show ?thesis using w by simp
qed

lemma load_config_file:
  assumes "fs_inv fs" "descend fs ROOT conf_path = Some n" "contents fs n = Some data"
  shows "load_config c fs =
    (if length data < 4 \<or> take 4 data \<noteq> bytes_of ''PCF'' @ [1] then Some (False, nl_text ''config: bad format'', c)
     else if length data < 104 then Some (False, nl_text ''config: truncated'', c)
     else map_option (\<lambda>c'. (True, nl_text ''Configuration loaded from /etc/pureos.conf'', c')) (parse_config data))"
proof -
  have "resolve_kind ''/etc/pureos.conf'' File fs = Some (Some n)"
    using assms(2,3) by (auto simp: resolve_kind_def resolve_conf fs_kind_def contents_def split: if_splits)
  then show ?thesis
    using fs_read_spec [OF assms(1,3)] by (auto simp: load_config_def split: option.split bind_split)
qed

section \<open>Properties\<close>

text \<open>
  C39: Saving and loading. When \<open>save_config\<close> reports success on a well-formed file system whose data pool has room for
  the 111 bytes, the file system is still well formed and \<open>load_config\<close> restores exactly the saved configuration,
  whether the file and its directory existed before or not.
\<close>

theorem config_save_load_roundtrip:
  assumes "fs_inv fs" "length (shell_prompt c) = 64" "DATA_NEXT fs + 111 \<le> DATA_POOL"
    and "save_config c fs = Some (True, out, fs')"
  shows "fs_inv fs' \<and> load_config c0 fs' = Some (True, nl_text ''Configuration loaded from /etc/pureos.conf'', c)"
proof -
  obtain n fs1 ok where cf: "config_file fs = Some (Inr n, fs1)" and w: "fs_write n (config_bytes c) fs1 = Some (ok, fs')"
    using assms(4) by (auto simp: save_config_def split: bind_splits sum.splits)
  note f = config_file_found [OF assms(1) cf]
  have inv: "fs_inv fs1" using f by blast
  have "contents fs1 n \<noteq> None" "DATA_NEXT fs1 + length (config_bytes c) \<le> DATA_POOL"
    using f assms(3) length_config_bytes [OF assms(2)] by auto
  from fs_write_room [OF inv this] w
  have fs': "fs_inv fs'" "same_tree fs1 fs'" "contents fs' n = Some (config_bytes c)" by auto
  then have d: "descend fs' ROOT conf_path = Some n" using f descend_same_tree [OF fs'(2)] by (simp only:)
  have "take 4 (config_bytes c) = bytes_of ''PCF'' @ [1]" by (simp add: config_bytes_def bytes_of_def)
  then show ?thesis
    using load_config_file [OF fs'(1) d fs'(3)] fs'(1) parse_config_bytes [OF assms(2)] length_config_bytes [OF assms(2)]
    by simp
qed

text \<open>
  A stored file of 104 to 110 bytes with a correct header passes the length check of \<open>load_config\<close>, which then reads past its
  end and panics.
\<close>

lemma config_load_short_file_panics:
  assumes "fs_inv fs" "resolve (bytes_of ''/etc/pureos.conf'') fs = Some (Some n)" "contents fs n = Some data"
    and "take 4 data = bytes_of ''PCF'' @ [1]" "104 \<le> length data" "length data < 111"
  shows "load_config c fs = None"
proof -
  have "parse_config data = None" using assms(6) by (auto simp: parse_config_def at_def split: bind_splits)
  then show ?thesis
    using load_config_file [OF assms(1) _ assms(3)] assms(2,4,5) by (simp add: resolve_conf)
qed
section \<open>Settings stay in range\<close>

text \<open>The configurations the setters and presets can produce, and the ranges they promise.\<close>

inductive config_reach :: "system_config \<Rightarrow> bool" where
  reach_default: "config_reach config_default"
| reach_set: "config_reach c \<Longrightarrow> f \<in> range set_font_scale \<union> range set_selected_font \<union> range set_terminal_colors \<union>
    range set_shell_prompt \<union> range set_max_processes \<union> range set_ephemeral_layer_size \<union> range set_graphics_enabled \<union>
    range set_mouse_sensitivity \<union> range set_boot_delay \<union> range (\<lambda>p c. snd (apply_preset p c)) \<Longrightarrow> config_reach (f c)"

definition config_ok :: "system_config \<Rightarrow> bool" where
  "config_ok c \<longleftrightarrow>
     selected_font c \<le> 7 \<and> 1 \<le> max_processes c \<and> max_processes c \<le> 64 \<and>
     1024 * 1024 \<le> ephemeral_layer_size c \<and> ephemeral_layer_size c \<le> 1024 * 1024 * 1024 \<and>
     1 \<le> mouse_sensitivity c \<and> mouse_sensitivity c \<le> 9 \<and> length (shell_prompt c) = 64"

lemma config_ok_setters:
  assumes "config_ok c"
  shows "config_ok (set_font_scale a c)" "config_ok (set_selected_font a c)" "config_ok (set_terminal_colors cs c)"
    "config_ok (set_shell_prompt p c)" "config_ok (set_max_processes n c)" "config_ok (set_ephemeral_layer_size n c)"
    "config_ok (set_graphics_enabled b c)" "config_ok (set_mouse_sensitivity a c)" "config_ok (set_boot_delay n c)"
    "config_ok (snd (apply_preset p c))"
  using assms
  by (auto simp: config_ok_def set_font_scale_def set_selected_font_def set_terminal_colors_def set_shell_prompt_def
      set_max_processes_def set_ephemeral_layer_size_def set_graphics_enabled_def set_mouse_sensitivity_def
      set_boot_delay_def apply_preset_def reset_config_def config_default_def bytes_of_def Let_def min_def
      word_le_nat_alt)

lemma config_reach_ok: "config_reach c \<Longrightarrow> config_ok c"
proof (induction rule: config_reach.induct)
  case reach_default
  show ?case by (simp add: config_ok_def config_default_def bytes_of_def word_le_nat_alt)
next
  case (reach_set c f)
  then show ?case by (auto intro: config_ok_setters)
qed

lemma set_shell_prompt_bytes:
  assumes "length (shell_prompt c) = 64"
  shows "\<exists>rest. shell_prompt (set_shell_prompt p c) = take 63 p @ 0 # rest"
proof -
  define i where "i = min (length p) 63"
  have "drop i (shell_prompt c) \<noteq> []" using assms by (simp add: i_def)
  then obtain x rest where d: "drop i (shell_prompt c) = x # rest" by (cases "drop i (shell_prompt c)") auto
  have "take i p = take 63 p" by (simp add: i_def min_def)
  moreover have "(take i p @ x # rest)[i := 0] = take i p @ 0 # rest"
    using list_update_length [of "take i p" x rest 0] by (simp add: i_def)
  ultimately show ?thesis
    using d by (simp add: set_shell_prompt_def Let_def flip: i_def)
qed

lemma takeWhile_sentinel: "\<not> P y \<Longrightarrow> takeWhile P (xs @ y # ys) = takeWhile P xs"
  by (induction xs) auto

text \<open>
  Every configuration that the setters and presets can produce from the default keeps the documented ranges (font
  index up to 7, 1 to 64 processes, a layer of 1 MiB to 1 GiB, mouse sensitivity 1 to 9), and the prompt read back after
  \<open>set_shell_prompt\<close> is the given one up to its first zero byte, cut to 63 bytes.
\<close>

theorem config_settings_valid:
  assumes "config_reach c"
  shows "selected_font c \<le> 7 \<and> 1 \<le> max_processes c \<and> max_processes c \<le> 64 \<and>
    0x100000 \<le> ephemeral_layer_size c \<and> ephemeral_layer_size c \<le> 0x40000000 \<and>
    1 \<le> mouse_sensitivity c \<and> mouse_sensitivity c \<le> 9 \<and>
    get_shell_prompt (set_shell_prompt p c) = takeWhile (\<lambda>b. b \<noteq> 0) (take 63 p)"
proof -
  have ok: "config_ok c" using assms by (rule config_reach_ok)
  then obtain rest where r: "shell_prompt (set_shell_prompt p c) = take 63 p @ 0 # rest"
    using set_shell_prompt_bytes [of c p] by (auto simp: config_ok_def)
  have "get_shell_prompt (set_shell_prompt p c) = takeWhile (\<lambda>b. b \<noteq> 0) (take 63 p @ 0 # take (63 - min (length p) 63) rest)"
    unfolding get_shell_prompt_def r by (simp add: take_Cons' min_def)
  also have "\<dots> = takeWhile (\<lambda>b. b \<noteq> 0) (take 63 p)" by (rule takeWhile_sentinel) simp
  finally show ?thesis using ok by (simp add: config_ok_def)
qed

section \<open>Witnesses\<close>

lemma demo_save:
  "\<exists>out fs'. save_config config_default demo_fs = Some (True, out, fs')"
proof -
  let ?etc = "bytes_of ''etc''" and ?conf = "bytes_of ''pureos.conf''"
  let ?fs = "add_node 3 (new_node Dir 0 ?etc) demo_fs"
  have no: "find_child demo_fs 0 ?etc = None" "find_child demo_fs 3 ?conf = None"
    using demo_fs_label by (auto simp: find_child_None demo_fs_child bytes_of_def simp del: demo_fs_nodes)
  have al: "alloc_node demo_fs = Some 3" "alloc_node ?fs = Some 4" by (simp_all add: alloc_node_def upt_rec)
  have mk: "mkdir 0 ?etc demo_fs = Some (Some 3, ?fs)"
    using no al by (simp add: mkdir_def add_node_def bytes_of_def)
  have "find_child ?fs 3 ?conf = None"
    using add_node_find_child [OF demo_fs_inv al(1), of 0 ?etc Dir 3 ?conf] no by (simp add: bytes_of_def)
  then have cr: "create_file 3 ?conf ?fs = Some (Some 4, add_node 4 (new_node File 3 ?conf) ?fs)"
    using al(2) by (simp add: create_file_def bytes_of_def add_node_def new_node_def)
  have cf: "config_file demo_fs = Some (Inr 4, add_node 4 (new_node File 3 ?conf) ?fs)"
    using no mk cr by (simp add: config_file_def resolve_kind_def resolve_conf)
  moreover have "length (config_bytes config_default) = 111"
    by (intro length_config_bytes) (simp add: config_default_def bytes_of_def)
  then have "\<exists>ok fs'. fs_write 4 (config_bytes config_default) (add_node 4 (new_node File 3 ?conf) ?fs) = Some (ok, fs')"
    using config_file_found [OF demo_fs_inv cf] by (intro fs_write_total) simp_all
  ultimately show ?thesis by (auto simp: save_config_def)
qed

theorem config_save_load_roundtrip_witness:
  "\<exists>out fs'. save_config config_default demo_fs = Some (True, out, fs') \<and>
     load_config (snd (apply_preset (bytes_of ''minimal'') config_default)) fs' =
       Some (True, nl_text ''Configuration loaded from /etc/pureos.conf'', config_default)"
proof -
  obtain out fs' where s: "save_config config_default demo_fs = Some (True, out, fs')" using demo_save by blast
  have "DATA_NEXT demo_fs = 0" by (simp add: demo_fs_def fs_blank_def add_node_def)
  then show ?thesis
    using config_save_load_roundtrip [OF demo_fs_inv _ _ s] s by (simp add: config_default_def bytes_of_def)
qed

theorem config_settings_valid_witness:
  "get_shell_prompt (set_shell_prompt (bytes_of ''root# '') (set_max_processes 8 config_default)) = bytes_of ''root# ''"
proof -
  have "config_reach (set_max_processes 8 config_default)" by (rule reach_set [OF reach_default]) simp
  from config_settings_valid [OF this, of "bytes_of ''root# ''"] show ?thesis by (simp add: bytes_of_def)
qed


end
