(* ===== verification/Font.thy ===== *)
theory Font
  imports Ramfs
begin

unbundle bit_operations_syntax

text \<open>
  The bitmap fonts of \<open>src/kernel/src/font.rs\<close>: the glyph tables, the algorithmic variants, the Cyrillic glyphs and
  the pixel test the drawing code uses. The static glyph buffers are scratch space: every byte of a returned slice is
  written by the call that returns it, so a glyph is a pure function of font and character.
\<close>

section \<open>Fonts\<close>

datatype font_id = Compact | Bold | Italic | Serif | Outline | Tall | Vga | Wide

definition font_name :: "font_id \<Rightarrow> bytes" where
  "font_name f = (case f of Compact \<Rightarrow> bytes_of ''compact'' | Bold \<Rightarrow> bytes_of ''bold'' | Italic \<Rightarrow> bytes_of ''italic''
     | Serif \<Rightarrow> bytes_of ''serif'' | Outline \<Rightarrow> bytes_of ''outline'' | Tall \<Rightarrow> bytes_of ''tall'' | Vga \<Rightarrow> bytes_of ''vga''
     | Wide \<Rightarrow> bytes_of ''wide'')"

definition font_width :: "font_id \<Rightarrow> u32" where
  "font_width f = (case f of Wide \<Rightarrow> 10 | _ \<Rightarrow> 8)"

definition font_height :: "font_id \<Rightarrow> u32" where
  "font_height f = (case f of Tall \<Rightarrow> 14 | Vga \<Rightarrow> 16 | Wide \<Rightarrow> 18 | _ \<Rightarrow> 8)"

section \<open>Tables\<close>

definition base_table :: "(u8 \<times> bytes) list" where
  "base_table =
     [(0x20, [0, 0, 0, 0, 0, 0, 0, 0]),
      (0x21, [0x10, 0x10, 0x10, 0x10, 0x10, 0, 0x10, 0]),
      (0x2E, [0, 0, 0, 0, 0, 0x30, 0x30, 0]),
      (0x3A, [0, 0x30, 0x30, 0, 0x30, 0x30, 0, 0]),
      (0x2D, [0, 0, 0, 0x7C, 0, 0, 0, 0]),
      (0x2B, [0, 0x10, 0x10, 0x7C, 0x10, 0x10, 0, 0]),
      (0x2F, [0x02, 0x04, 0x08, 0x10, 0x20, 0x40, 0x80, 0]),
      (0x25, [0xC2, 0xC4, 0x08, 0x10, 0x20, 0x46, 0x86, 0]),
      (0x24, [0x10, 0x7C, 0x90, 0x7C, 0x12, 0x7C, 0x10, 0]),
      (0x23, [0x24, 0xFE, 0x24, 0x24, 0xFE, 0x24, 0x24, 0]),
      (0x26, [0x30, 0x48, 0x48, 0x30, 0x4A, 0x44, 0x3A, 0]),
      (0x2A, [0, 0x28, 0x10, 0x7C, 0x10, 0x28, 0, 0]),
      (0x3D, [0, 0, 0x7C, 0, 0x7C, 0, 0, 0]),
      (0x5F, [0, 0, 0, 0, 0, 0, 0, 0xFE]),
      (0x3E, [0x40, 0x20, 0x10, 0x08, 0x10, 0x20, 0x40, 0]),
      (0x3C, [0x04, 0x08, 0x10, 0x20, 0x10, 0x08, 0x04, 0]),
      (0x3F, [0x7C, 0x82, 0x04, 0x08, 0x10, 0, 0x10, 0]),
      (0x40, [0x7C, 0x82, 0xBA, 0xAA, 0xBC, 0x80, 0x7C, 0]),
      (0x2C, [0, 0, 0, 0, 0, 0x30, 0x30, 0x60]),
      (0x3B, [0, 0x30, 0x30, 0, 0x30, 0x30, 0x60, 0]),
      (0x27, [0x10, 0x10, 0x10, 0, 0, 0, 0, 0]),
      (0x22, [0x28, 0x28, 0x28, 0, 0, 0, 0, 0]),
      (0x28, [0x08, 0x10, 0x20, 0x20, 0x20, 0x10, 0x08, 0]),
      (0x29, [0x20, 0x10, 0x08, 0x08, 0x08, 0x10, 0x20, 0]),
      (0x5B, [0x38, 0x20, 0x20, 0x20, 0x20, 0x20, 0x38, 0]),
      (0x5D, [0x38, 0x08, 0x08, 0x08, 0x08, 0x08, 0x38, 0]),
      (0x7B, [0x18, 0x20, 0x20, 0x40, 0x20, 0x20, 0x18, 0]),
      (0x7D, [0x30, 0x08, 0x08, 0x04, 0x08, 0x08, 0x30, 0]),
      (0x7C, [0x10, 0x10, 0x10, 0x10, 0x10, 0x10, 0x10, 0]),
      (0x5C, [0x80, 0x40, 0x20, 0x10, 0x08, 0x04, 0x02, 0]),
      (0x30, [0x7C, 0x86, 0x8A, 0x92, 0xA2, 0xC2, 0x7C, 0]),
      (0x31, [0x18, 0x38, 0x18, 0x18, 0x18, 0x18, 0x7E, 0]),
      (0x32, [0x7C, 0x82, 0x02, 0x1C, 0x60, 0x80, 0xFE, 0]),
      (0x33, [0x7C, 0x82, 0x02, 0x1C, 0x02, 0x82, 0x7C, 0]),
      (0x34, [0x0C, 0x14, 0x24, 0x44, 0xFE, 0x04, 0x04, 0]),
      (0x35, [0xFE, 0x80, 0xFC, 0x02, 0x02, 0x82, 0x7C, 0]),
      (0x36, [0x3C, 0x40, 0x80, 0xFC, 0x82, 0x82, 0x7C, 0]),
      (0x37, [0xFE, 0x02, 0x04, 0x08, 0x10, 0x20, 0x20, 0]),
      (0x38, [0x7C, 0x82, 0x82, 0x7C, 0x82, 0x82, 0x7C, 0]),
      (0x39, [0x7C, 0x82, 0x82, 0x7E, 0x02, 0x04, 0x78, 0]),
      (0x41, [0x38, 0x44, 0x82, 0x82, 0xFE, 0x82, 0x82, 0]),
      (0x42, [0xFC, 0x82, 0x82, 0xFC, 0x82, 0x82, 0xFC, 0]),
      (0x43, [0x7C, 0x82, 0x80, 0x80, 0x80, 0x82, 0x7C, 0]),
      (0x44, [0xF8, 0x84, 0x82, 0x82, 0x82, 0x84, 0xF8, 0]),
      (0x45, [0xFE, 0x80, 0x80, 0xFC, 0x80, 0x80, 0xFE, 0]),
      (0x46, [0xFE, 0x80, 0x80, 0xFC, 0x80, 0x80, 0x80, 0]),
      (0x47, [0x7C, 0x82, 0x80, 0x9E, 0x82, 0x82, 0x7C, 0]),
      (0x48, [0x82, 0x82, 0x82, 0xFE, 0x82, 0x82, 0x82, 0]),
      (0x49, [0x7C, 0x10, 0x10, 0x10, 0x10, 0x10, 0x7C, 0]),
      (0x4A, [0x1E, 0x04, 0x04, 0x04, 0x04, 0x84, 0x78, 0]),
      (0x4B, [0x82, 0x84, 0x88, 0xF0, 0x88, 0x84, 0x82, 0]),
      (0x4C, [0x80, 0x80, 0x80, 0x80, 0x80, 0x80, 0xFE, 0]),
      (0x4D, [0x82, 0xC6, 0xAA, 0x92, 0x82, 0x82, 0x82, 0]),
      (0x4E, [0x82, 0xC2, 0xA2, 0x92, 0x8A, 0x86, 0x82, 0]),
      (0x4F, [0x7C, 0x82, 0x82, 0x82, 0x82, 0x82, 0x7C, 0]),
      (0x50, [0xFC, 0x82, 0x82, 0xFC, 0x80, 0x80, 0x80, 0]),
      (0x51, [0x7C, 0x82, 0x82, 0x82, 0x8A, 0x84, 0x7A, 0]),
      (0x52, [0xFC, 0x82, 0x82, 0xFC, 0x88, 0x84, 0x82, 0]),
      (0x53, [0x7C, 0x82, 0x80, 0x7C, 0x02, 0x82, 0x7C, 0]),
      (0x54, [0xFE, 0x10, 0x10, 0x10, 0x10, 0x10, 0x10, 0]),
      (0x55, [0x82, 0x82, 0x82, 0x82, 0x82, 0x82, 0x7C, 0]),
      (0x56, [0x82, 0x82, 0x82, 0x82, 0x44, 0x28, 0x10, 0]),
      (0x57, [0x82, 0x82, 0x82, 0x92, 0xAA, 0xC6, 0x82, 0]),
      (0x58, [0x82, 0x44, 0x28, 0x10, 0x28, 0x44, 0x82, 0]),
      (0x59, [0x82, 0x44, 0x28, 0x10, 0x10, 0x10, 0x10, 0]),
      (0x5A, [0xFE, 0x04, 0x08, 0x10, 0x20, 0x40, 0xFE, 0])]"

definition tall_table :: "(u8 \<times> bytes) list" where
  "tall_table =
     [(0x41, [0, 0x3C, 0x66, 0x66, 0x66, 0x7E, 0x66, 0x66, 0x66, 0x66, 0, 0, 0, 0]),
      (0x42, [0, 0xFC, 0x66, 0x66, 0x66, 0x7C, 0x66, 0x66, 0x66, 0xFC, 0, 0, 0, 0]),
      (0x43, [0, 0x3C, 0x66, 0x60, 0x60, 0x60, 0x60, 0x60, 0x66, 0x3C, 0, 0, 0, 0]),
      (0x44, [0, 0xF8, 0x6C, 0x66, 0x66, 0x66, 0x66, 0x66, 0x6C, 0xF8, 0, 0, 0, 0]),
      (0x45, [0, 0xFE, 0x62, 0x60, 0x64, 0x7C, 0x64, 0x60, 0x62, 0xFE, 0, 0, 0, 0]),
      (0x46, [0, 0xFE, 0x62, 0x60, 0x64, 0x7C, 0x64, 0x60, 0x60, 0xF0, 0, 0, 0, 0]),
      (0x47, [0, 0x3C, 0x66, 0x60, 0x60, 0x6E, 0x66, 0x66, 0x66, 0x3C, 0, 0, 0, 0]),
      (0x48, [0, 0x66, 0x66, 0x66, 0x66, 0x7E, 0x66, 0x66, 0x66, 0x66, 0, 0, 0, 0]),
      (0x49, [0, 0x7E, 0x18, 0x18, 0x18, 0x18, 0x18, 0x18, 0x18, 0x7E, 0, 0, 0, 0]),
      (0x4A, [0, 0x1E, 0x0C, 0x0C, 0x0C, 0x0C, 0x0C, 0x6C, 0x6C, 0x38, 0, 0, 0, 0]),
      (0x4B, [0, 0xE6, 0x64, 0x68, 0x70, 0x78, 0x6C, 0x66, 0x62, 0xF0, 0, 0, 0, 0]),
      (0x4C, [0, 0xF0, 0x60, 0x60, 0x60, 0x60, 0x60, 0x60, 0x62, 0xFE, 0, 0, 0, 0]),
      (0x4D, [0, 0xC6, 0xEE, 0xFE, 0xD6, 0xC6, 0xC6, 0xC6, 0xC6, 0xC6, 0, 0, 0, 0]),
      (0x4E, [0, 0xC6, 0xE6, 0xF6, 0xDE, 0xCE, 0xC6, 0xC6, 0xC6, 0xC6, 0, 0, 0, 0]),
      (0x4F, [0, 0x3C, 0x66, 0x66, 0x66, 0x66, 0x66, 0x66, 0x66, 0x3C, 0, 0, 0, 0]),
      (0x50, [0, 0xFC, 0x66, 0x66, 0x66, 0x7C, 0x60, 0x60, 0x60, 0xF0, 0, 0, 0, 0]),
      (0x51, [0, 0x3C, 0x66, 0x66, 0x66, 0x66, 0x66, 0x76, 0x3C, 0x06, 0, 0, 0, 0]),
      (0x52, [0, 0xFC, 0x66, 0x66, 0x66, 0x7C, 0x6C, 0x66, 0x62, 0xF2, 0, 0, 0, 0]),
      (0x53, [0, 0x3C, 0x66, 0x60, 0x3C, 0x06, 0x06, 0x66, 0x66, 0x3C, 0, 0, 0, 0]),
      (0x54, [0, 0xFE, 0xDA, 0x18, 0x18, 0x18, 0x18, 0x18, 0x18, 0x3C, 0, 0, 0, 0]),
      (0x55, [0, 0x66, 0x66, 0x66, 0x66, 0x66, 0x66, 0x66, 0x66, 0x3C, 0, 0, 0, 0]),
      (0x56, [0, 0x66, 0x66, 0x66, 0x66, 0x66, 0x66, 0x66, 0x3C, 0x18, 0, 0, 0, 0]),
      (0x57, [0, 0xC6, 0xC6, 0xC6, 0xC6, 0xD6, 0xFE, 0xEE, 0xC6, 0x82, 0, 0, 0, 0]),
      (0x58, [0, 0xC6, 0x6C, 0x38, 0x10, 0x10, 0x38, 0x6C, 0xC6, 0x82, 0, 0, 0, 0]),
      (0x59, [0, 0xC6, 0x6C, 0x38, 0x10, 0x10, 0x10, 0x10, 0x10, 0x38, 0, 0, 0, 0]),
      (0x5A, [0, 0xFE, 0xC6, 0x0C, 0x18, 0x30, 0x60, 0x62, 0xC6, 0xFE, 0, 0, 0, 0]),
      (0x30, [0, 0x3C, 0x66, 0x6E, 0x7E, 0x76, 0x66, 0x66, 0x66, 0x3C, 0, 0, 0, 0]),
      (0x31, [0, 0x18, 0x38, 0x18, 0x18, 0x18, 0x18, 0x18, 0x18, 0x7E, 0, 0, 0, 0]),
      (0x32, [0, 0x3C, 0x66, 0x06, 0x0C, 0x18, 0x30, 0x60, 0x62, 0xFE, 0, 0, 0, 0]),
      (0x33, [0, 0x3C, 0x66, 0x06, 0x1C, 0x06, 0x06, 0x66, 0x66, 0x3C, 0, 0, 0, 0]),
      (0x34, [0, 0x0C, 0x1C, 0x2C, 0x4C, 0x7E, 0x0C, 0x0C, 0x0C, 0x1E, 0, 0, 0, 0]),
      (0x35, [0, 0xFE, 0x62, 0x60, 0x7C, 0x06, 0x06, 0x66, 0x66, 0x3C, 0, 0, 0, 0]),
      (0x36, [0, 0x3C, 0x66, 0x60, 0x7C, 0x66, 0x66, 0x66, 0x66, 0x3C, 0, 0, 0, 0]),
      (0x37, [0, 0xFE, 0x62, 0x06, 0x0C, 0x18, 0x18, 0x18, 0x18, 0x18, 0, 0, 0, 0]),
      (0x38, [0, 0x3C, 0x66, 0x66, 0x3C, 0x66, 0x66, 0x66, 0x66, 0x3C, 0, 0, 0, 0]),
      (0x39, [0, 0x3C, 0x66, 0x66, 0x3E, 0x06, 0x06, 0x66, 0x66, 0x3C, 0, 0, 0, 0])]"

definition vga_table :: "(u8 \<times> bytes) list" where
  "vga_table =
     [(0x41, [0, 0, 0x3C, 0x66, 0x66, 0x66, 0x66, 0x7E, 0x66, 0x66, 0x66, 0x66, 0, 0, 0, 0]),
      (0x42, [0, 0, 0xFC, 0x66, 0x66, 0x66, 0x7C, 0x66, 0x66, 0x66, 0x66, 0xFC, 0, 0, 0, 0]),
      (0x43, [0, 0, 0x3C, 0x66, 0x60, 0x60, 0x60, 0x60, 0x60, 0x66, 0x66, 0x3C, 0, 0, 0, 0]),
      (0x44, [0, 0, 0xF8, 0x6C, 0x66, 0x66, 0x66, 0x66, 0x66, 0x66, 0x6C, 0xF8, 0, 0, 0, 0]),
      (0x45, [0, 0, 0xFE, 0x62, 0x60, 0x64, 0x7C, 0x64, 0x60, 0x60, 0x62, 0xFE, 0, 0, 0, 0]),
      (0x46, [0, 0, 0xFE, 0x62, 0x60, 0x64, 0x7C, 0x64, 0x60, 0x60, 0x60, 0xF0, 0, 0, 0, 0]),
      (0x47, [0, 0, 0x3C, 0x66, 0x60, 0x60, 0x6E, 0x66, 0x66, 0x66, 0x66, 0x3C, 0, 0, 0, 0]),
      (0x48, [0, 0, 0x66, 0x66, 0x66, 0x66, 0x7E, 0x66, 0x66, 0x66, 0x66, 0x66, 0, 0, 0, 0]),
      (0x49, [0, 0, 0x7E, 0x18, 0x18, 0x18, 0x18, 0x18, 0x18, 0x18, 0x18, 0x7E, 0, 0, 0, 0]),
      (0x4A, [0, 0, 0x1E, 0x0C, 0x0C, 0x0C, 0x0C, 0x0C, 0x0C, 0x6C, 0x6C, 0x38, 0, 0, 0, 0]),
      (0x4B, [0, 0, 0xE6, 0x64, 0x68, 0x70, 0x78, 0x6C, 0x66, 0x62, 0x62, 0xF2, 0, 0, 0, 0]),
      (0x4C, [0, 0, 0xF0, 0x60, 0x60, 0x60, 0x60, 0x60, 0x60, 0x62, 0x66, 0xFE, 0, 0, 0, 0]),
      (0x4D, [0, 0, 0xC6, 0xEE, 0xFE, 0xD6, 0xC6, 0xC6, 0xC6, 0xC6, 0xC6, 0xC6, 0, 0, 0, 0]),
      (0x4E, [0, 0, 0x66, 0x66, 0x76, 0x7E, 0x6E, 0x66, 0x66, 0x66, 0x66, 0x66, 0, 0, 0, 0]),
      (0x4F, [0, 0, 0x3C, 0x66, 0x66, 0x66, 0x66, 0x66, 0x66, 0x66, 0x66, 0x3C, 0, 0, 0, 0]),
      (0x50, [0, 0, 0xFC, 0x66, 0x66, 0x66, 0x7C, 0x60, 0x60, 0x60, 0x60, 0xF0, 0, 0, 0, 0]),
      (0x51, [0, 0, 0x3C, 0x66, 0x66, 0x66, 0x66, 0x66, 0x66, 0x76, 0x3E, 0x06, 0, 0, 0, 0]),
      (0x52, [0, 0, 0xFC, 0x66, 0x66, 0x66, 0x7C, 0x6C, 0x66, 0x66, 0x66, 0xF2, 0, 0, 0, 0]),
      (0x53, [0, 0, 0x3C, 0x66, 0x60, 0x38, 0x0C, 0x06, 0x06, 0x66, 0x66, 0x3C, 0, 0, 0, 0]),
      (0x54, [0, 0, 0xFE, 0xDA, 0x18, 0x18, 0x18, 0x18, 0x18, 0x18, 0x18, 0x3C, 0, 0, 0, 0]),
      (0x55, [0, 0, 0x66, 0x66, 0x66, 0x66, 0x66, 0x66, 0x66, 0x66, 0x66, 0x3C, 0, 0, 0, 0]),
      (0x56, [0, 0, 0x66, 0x66, 0x66, 0x66, 0x66, 0x66, 0x66, 0x3C, 0x18, 0x18, 0, 0, 0, 0]),
      (0x57, [0, 0, 0xC6, 0xC6, 0xC6, 0xC6, 0xC6, 0xD6, 0xFE, 0xEE, 0xC6, 0x82, 0, 0, 0, 0]),
      (0x58, [0, 0, 0xC6, 0x6C, 0x38, 0x10, 0x10, 0x10, 0x38, 0x6C, 0xC6, 0x82, 0, 0, 0, 0]),
      (0x59, [0, 0, 0xC6, 0x6C, 0x38, 0x10, 0x10, 0x10, 0x10, 0x10, 0x10, 0x38, 0, 0, 0, 0]),
      (0x5A, [0, 0, 0xFE, 0xC6, 0x8C, 0x18, 0x30, 0x30, 0x60, 0x62, 0xC6, 0xFE, 0, 0, 0, 0]),
      (0x30, [0, 0, 0x3C, 0x66, 0x6E, 0x7E, 0x76, 0x66, 0x66, 0x66, 0x66, 0x3C, 0, 0, 0, 0]),
      (0x31, [0, 0, 0x18, 0x38, 0x18, 0x18, 0x18, 0x18, 0x18, 0x18, 0x18, 0x7E, 0, 0, 0, 0]),
      (0x32, [0, 0, 0x3C, 0x66, 0x06, 0x0C, 0x18, 0x30, 0x60, 0x62, 0x66, 0xFE, 0, 0, 0, 0]),
      (0x33, [0, 0, 0x3C, 0x66, 0x06, 0x06, 0x1C, 0x06, 0x06, 0x66, 0x66, 0x3C, 0, 0, 0, 0]),
      (0x34, [0, 0, 0x0C, 0x1C, 0x2C, 0x4C, 0x4C, 0x7E, 0x0C, 0x0C, 0x0C, 0x1E, 0, 0, 0, 0]),
      (0x35, [0, 0, 0xFE, 0x62, 0x60, 0x7C, 0x06, 0x06, 0x06, 0x66, 0x66, 0x3C, 0, 0, 0, 0]),
      (0x36, [0, 0, 0x3C, 0x66, 0x60, 0x60, 0x7C, 0x66, 0x66, 0x66, 0x66, 0x3C, 0, 0, 0, 0]),
      (0x37, [0, 0, 0xFE, 0x66, 0x06, 0x0C, 0x18, 0x18, 0x18, 0x18, 0x18, 0x18, 0, 0, 0, 0]),
      (0x38, [0, 0, 0x3C, 0x66, 0x66, 0x66, 0x3C, 0x66, 0x66, 0x66, 0x66, 0x3C, 0, 0, 0, 0]),
      (0x39, [0, 0, 0x3C, 0x66, 0x66, 0x66, 0x3E, 0x06, 0x06, 0x66, 0x66, 0x3C, 0, 0, 0, 0])]"

definition cyrillic_table :: "(16 word \<times> bytes) list" where
  "cyrillic_table =
     [(0x411, [0xFE, 0x80, 0x80, 0xFC, 0x80, 0x80, 0x80, 0xFE]),
      (0x431, [0xFE, 0x80, 0x80, 0xFC, 0x80, 0x80, 0x80, 0xFE]),
      (0x413, [0xFE, 0x80, 0x80, 0x80, 0x80, 0x80, 0x80, 0x80]),
      (0x433, [0xFE, 0x80, 0x80, 0x80, 0x80, 0x80, 0x80, 0x80]),
      (0x414, [0x38, 0x44, 0x44, 0x44, 0x44, 0x7C, 0x82, 0x82]),
      (0x434, [0x38, 0x44, 0x44, 0x44, 0x44, 0x7C, 0x82, 0x82]),
      (0x416, [0x82, 0x44, 0x28, 0xFE, 0x28, 0x44, 0x82, 0x82]),
      (0x436, [0x82, 0x44, 0x28, 0xFE, 0x28, 0x44, 0x82, 0x82]),
      (0x417, [0x7C, 0x82, 0x02, 0x1C, 0x02, 0x02, 0x82, 0x7C]),
      (0x437, [0x7C, 0x82, 0x02, 0x1C, 0x02, 0x02, 0x82, 0x7C]),
      (0x418, [0x82, 0x84, 0x88, 0x90, 0xA0, 0xC0, 0x80, 0x80]),
      (0x438, [0x82, 0x84, 0x88, 0x90, 0xA0, 0xC0, 0x80, 0x80]),
      (0x419, [0x24, 0x82, 0x84, 0x88, 0x90, 0xA0, 0xC0, 0x80]),
      (0x439, [0x24, 0x82, 0x84, 0x88, 0x90, 0xA0, 0xC0, 0x80]),
      (0x41B, [0x30, 0x48, 0x44, 0x44, 0x44, 0x44, 0x44, 0x44]),
      (0x43B, [0x30, 0x48, 0x44, 0x44, 0x44, 0x44, 0x44, 0x44]),
      (0x41F, [0xFE, 0x82, 0x82, 0x82, 0x82, 0x82, 0x82, 0xFE]),
      (0x43F, [0xFE, 0x82, 0x82, 0x82, 0x82, 0x82, 0x82, 0xFE]),
      (0x423, [0x82, 0x44, 0x28, 0x10, 0x10, 0x20, 0x40, 0x80]),
      (0x443, [0x82, 0x44, 0x28, 0x10, 0x10, 0x20, 0x40, 0x80]),
      (0x424, [0x10, 0x38, 0x54, 0x54, 0x7C, 0x54, 0x10, 0x10]),
      (0x444, [0x10, 0x38, 0x54, 0x54, 0x7C, 0x54, 0x10, 0x10]),
      (0x426, [0x92, 0x92, 0x92, 0x92, 0x92, 0x92, 0x92, 0x7E]),
      (0x446, [0x92, 0x92, 0x92, 0x92, 0x92, 0x92, 0x92, 0x7E]),
      (0x427, [0x82, 0x82, 0x82, 0x7E, 0x02, 0x02, 0x02, 0x02]),
      (0x447, [0x82, 0x82, 0x82, 0x7E, 0x02, 0x02, 0x02, 0x02]),
      (0x428, [0x92, 0x92, 0x92, 0x92, 0x92, 0x92, 0x92, 0xFE]),
      (0x448, [0x92, 0x92, 0x92, 0x92, 0x92, 0x92, 0x92, 0xFE]),
      (0x429, [0x92, 0x92, 0x92, 0x92, 0x92, 0x92, 0x92, 0xFF]),
      (0x449, [0x92, 0x92, 0x92, 0x92, 0x92, 0x92, 0x92, 0xFF]),
      (0x42A, [0xC0, 0xC0, 0xFC, 0x84, 0x84, 0x84, 0x84, 0xFC]),
      (0x44A, [0xC0, 0xC0, 0xFC, 0x84, 0x84, 0x84, 0x84, 0xFC]),
      (0x42B, [0x82, 0x82, 0xFC, 0x82, 0x82, 0x82, 0x82, 0xFE]),
      (0x44B, [0x82, 0x82, 0xFC, 0x82, 0x82, 0x82, 0x82, 0xFE]),
      (0x42C, [0x80, 0x80, 0xFC, 0x82, 0x82, 0x82, 0x82, 0xFC]),
      (0x44C, [0x80, 0x80, 0xFC, 0x82, 0x82, 0x82, 0x82, 0xFC]),
      (0x42D, [0x7C, 0x82, 0x02, 0x1E, 0x02, 0x02, 0x82, 0x7C]),
      (0x44D, [0x7C, 0x82, 0x02, 0x1E, 0x02, 0x02, 0x82, 0x7C]),
      (0x42E, [0x84, 0xBC, 0xA2, 0xA2, 0xA2, 0xA2, 0xBC, 0x84]),
      (0x44E, [0x84, 0xBC, 0xA2, 0xA2, 0xA2, 0xA2, 0xBC, 0x84]),
      (0x42F, [0x7E, 0x82, 0x82, 0x7E, 0x12, 0x22, 0x42, 0x82]),
      (0x44F, [0x7E, 0x82, 0x82, 0x7E, 0x12, 0x22, 0x42, 0x82]),
      (0x401, [0x24, 0, 0xFE, 0x80, 0xFC, 0x80, 0x80, 0xFE]),
      (0x451, [0x24, 0, 0xFE, 0x80, 0xFC, 0x80, 0x80, 0xFE])]"

definition cyrillic_ascii_table :: "(16 word \<times> u8) list" where
  "cyrillic_ascii_table =
     [(0x410, 0x41), (0x412, 0x42), (0x415, 0x45), (0x41A, 0x4B), (0x41C, 0x4D), (0x41D, 0x48), (0x41E, 0x4F), (0x420, 0x50),
      (0x421, 0x43), (0x422, 0x54), (0x425, 0x58), (0x430, 0x41), (0x432, 0x42), (0x435, 0x45), (0x43A, 0x4B), (0x43C, 0x4D),
      (0x43D, 0x48), (0x43E, 0x4F), (0x440, 0x50), (0x441, 0x43), (0x442, 0x54), (0x445, 0x58)]"

definition lookup :: "('k \<times> bytes) list \<Rightarrow> nat \<Rightarrow> 'k \<Rightarrow> bytes" where
  "lookup tab n k = (case map_of tab k of None \<Rightarrow> replicate n 0 | Some g \<Rightarrow> g)"

definition upper :: "u8 \<Rightarrow> u8" where
  "upper c = (if 0x61 \<le> c \<and> c \<le> 0x7A then c - 32 else c)"

definition base_glyph :: "u8 \<Rightarrow> bytes" where
  "base_glyph c = lookup base_table 8 (upper c)"

section \<open>Variants\<close>

definition glyph_bold :: "u8 \<Rightarrow> bytes" where
  "glyph_bold c = map (\<lambda>g. g OR drop_bit 1 g) (base_glyph c)"

definition glyph_italic :: "u8 \<Rightarrow> bytes" where
  "glyph_italic c = map (\<lambda>row. let shift = row div 2 in drop_bit shift (base_glyph c ! row) AND NOT (drop_bit shift 0xFF)) [0..<8]"

definition glyph_serif :: "u8 \<Rightarrow> bytes" where
  "glyph_serif c =
     (let g = base_glyph c
      in if c \<in> set (bytes_of ''IJHEFL'') \<or> 0x30 \<le> c \<and> c \<le> 0x39 then g[0 := g ! 0 OR 0x81, 7 := g ! 7 OR 0x81] else g)"

definition outline_pixel :: "bytes \<Rightarrow> nat \<Rightarrow> nat \<Rightarrow> bool" where
  "outline_pixel g row col =
     (let b = drop_bit col 0x80;
          left = col > 0 \<and> g ! row AND drop_bit (col - 1) 0x80 \<noteq> 0;
          right = col < 7 \<and> g ! row AND drop_bit (col + 1) 0x80 \<noteq> 0;
          up = row > 0 \<and> g ! (row - 1) AND b \<noteq> 0;
          down = row < 7 \<and> g ! (row + 1) AND b \<noteq> 0
      in g ! row AND b \<noteq> 0 \<and> \<not> (left \<and> right \<and> up \<and> down))"

definition glyph_outline :: "u8 \<Rightarrow> bytes" where
  "glyph_outline c =
     map (\<lambda>row. fold (\<lambda>col acc. if outline_pixel (base_glyph c) row col then acc OR drop_bit col 0x80 else acc) [0..<8] 0) [0..<8]"

definition glyph_tall :: "u8 \<Rightarrow> bytes" where
  "glyph_tall c = lookup tall_table 14 (upper c)"

definition glyph_vga :: "u8 \<Rightarrow> bytes" where
  "glyph_vga c = lookup vga_table 16 (upper c)"

definition wide_row :: "u8 \<Rightarrow> 16 word" where
  "wide_row src =
     fold (\<lambda>col w. w OR push_bit (9 - (if col \<ge> 4 then col + 1 else col)) (ucast (drop_bit (7 - col) src AND 1))) [0..<8] 0"

definition glyph_wide :: "u8 \<Rightarrow> bytes" where
  "glyph_wide c =
     concat (map (\<lambda>src. let w = wide_row src in [ucast (drop_bit 8 w), ucast w]) (base_glyph c)) @ [0, 0]"

definition cyrillic_glyph :: "16 word \<Rightarrow> bytes" where
  "cyrillic_glyph cp = lookup cyrillic_table 8 cp"

definition cyrillic_to_ascii :: "16 word \<Rightarrow> u8 option" where
  "cyrillic_to_ascii cp = map_of cyrillic_ascii_table cp"

section \<open>Glyphs\<close>

definition glyph_for_codepoint :: "font_id \<Rightarrow> 16 word \<Rightarrow> bytes" where
  "glyph_for_codepoint f cp =
     (if cp < 128 then
        (case f of
           Tall \<Rightarrow> glyph_tall (ucast cp)
         | Vga \<Rightarrow> glyph_vga (ucast cp)
         | Wide \<Rightarrow> glyph_wide (ucast cp)
         | _ \<Rightarrow> base_glyph (ucast cp))
      else if 0x0400 \<le> cp \<and> cp \<le> 0x04FF then
        (case cyrillic_to_ascii cp of
           Some a \<Rightarrow>
             (case f of
                Compact \<Rightarrow> base_glyph a
              | Bold \<Rightarrow> glyph_bold a
              | Italic \<Rightarrow> glyph_italic a
              | Serif \<Rightarrow> glyph_serif a
              | Outline \<Rightarrow> glyph_outline a
              | Tall \<Rightarrow> glyph_tall a
              | Vga \<Rightarrow> glyph_vga a
              | Wide \<Rightarrow> glyph_wide a)
         | None \<Rightarrow> cyrillic_glyph cp)
      else replicate (unat (font_height f)) 0)"

definition glyph :: "font_id \<Rightarrow> u8 \<Rightarrow> bytes" where
  "glyph f c = glyph_for_codepoint f (ucast c)"

text \<open>
  The pixel test on glyph data, shared by \<open>glyph_pixel\<close> and \<open>glyph_pixel_codepoint\<close>. A shift by the width of
  the operand or more is taken modulo the width, as the release build does.
\<close>

definition pixel_of :: "font_id \<Rightarrow> bytes \<Rightarrow> nat \<Rightarrow> u32 \<Rightarrow> bool" where
  "pixel_of f g row col =
     (if font_width f = 10 then
        (if row * 2 + 1 \<ge> length g then False
         else (push_bit 8 (ucast (g ! (row * 2))) OR ucast (g ! (row * 2 + 1)) :: 16 word) AND
           drop_bit (unat col mod 16) 0x200 \<noteq> 0)
      else if row \<ge> length g then False
      else g ! row AND drop_bit (unat col mod 8) 0x80 \<noteq> 0)"

definition glyph_pixel :: "font_id \<Rightarrow> u8 \<Rightarrow> nat \<Rightarrow> u32 \<Rightarrow> bool" where
  "glyph_pixel f c row col = pixel_of f (glyph f c) row col"

definition glyph_pixel_codepoint :: "font_id \<Rightarrow> 16 word \<Rightarrow> nat \<Rightarrow> u32 \<Rightarrow> bool" where
  "glyph_pixel_codepoint f cp row col = pixel_of f (glyph_for_codepoint f cp) row col"
section \<open>Sizes\<close>

lemma lookup_length: "list_all (\<lambda>(k, g). length g = n) tab \<Longrightarrow> length (lookup tab n k) = n"
  by (auto simp: lookup_def list_all_iff dest: map_of_SomeD split: option.split)

lemma length_glyphs [simp]:
  "length (base_glyph c) = 8" "length (glyph_tall c) = 14" "length (glyph_vga c) = 16" "length (cyrillic_glyph cp) = 8"
  unfolding base_glyph_def glyph_tall_def glyph_vga_def cyrillic_glyph_def
  by (intro lookup_length, simp add: base_table_def tall_table_def vga_table_def cyrillic_table_def)+

lemma length_glyph_wide [simp]: "length (glyph_wide c) = 18"
proof -
  have "length (concat (map (\<lambda>src. let w = wide_row src in [ucast (drop_bit 8 w), ucast w :: u8]) gs)) = 2 * length gs" for gs
    by (induction gs) (simp_all add: Let_def)
  then show ?thesis by (simp add: glyph_wide_def)
qed

lemma glyph_italic_blank: "glyph_italic c = replicate 8 0"
proof -
  have "drop_bit s g AND NOT (drop_bit s 0xFF) = 0" for s and g :: u8
  proof (rule bit_word_eqI)
    fix n assume "n < LENGTH(8)"
    have ff: "bit (0xFF :: u8) k \<longleftrightarrow> k < 8" for k
    proof -
      have eq: "(0xFF :: u8) = mask 8" by (simp add: mask_eq_exp_minus_1)
      show ?thesis unfolding eq bit_mask_iff by auto
    qed
    have "bit g (s + n) \<Longrightarrow> s + n < 8" using bit_imp_le_length [of g "s + n"] by simp
    then show "bit (drop_bit s g AND NOT (drop_bit s 0xFF)) n = bit (0 :: u8) n"
      using ff [of "s + n"] by (auto simp: bit_and_iff bit_not_iff bit_drop_bit_eq)
  qed
  then show ?thesis by (simp add: glyph_italic_def Let_def map_replicate_const)
qed

section \<open>Properties\<close>

text \<open>
  The styled fonts are not styled. For every ASCII character the fonts Bold, Italic, Serif and Outline draw exactly the pixels of
  Compact, although each has its own glyph routine; that routine is reached only for the Cyrillic letters that look
  like Latin ones, and there Italic draws nothing at all.
\<close>

theorem font_styles_collapse:
  "(c < 128 \<and> f \<in> {Bold, Italic, Serif, Outline} \<longrightarrow> glyph_pixel f c row col = glyph_pixel Compact c row col) \<and>
   (cyrillic_to_ascii cp \<noteq> None \<and> 0x0400 \<le> cp \<and> cp \<le> 0x04FF \<longrightarrow> \<not> glyph_pixel_codepoint Italic cp row col)"
proof (intro conjI impI)
  assume a: "c < 128 \<and> f \<in> {Bold, Italic, Serif, Outline}"
  have "unat c < 2 ^ 16" using a by (simp add: word_less_nat_alt)
  then have "unat (ucast c :: 16 word) = unat c" by (simp add: unsigned_ucast_eq take_bit_nat_eq_self)
  then have "(ucast c :: 16 word) < 128" using a by (simp add: word_less_nat_alt)
  then have "glyph f c = glyph Compact c" "font_width f = font_width Compact"
    using a by (auto simp: glyph_def glyph_for_codepoint_def font_width_def)
  then show "glyph_pixel f c row col = glyph_pixel Compact c row col"
    by (simp add: glyph_pixel_def pixel_of_def)
next
  assume a: "cyrillic_to_ascii cp \<noteq> None \<and> 0x0400 \<le> cp \<and> cp \<le> 0x04FF"
  then have "\<not> cp < 128" by (auto simp: word_less_nat_alt word_le_nat_alt)
  then have "glyph_for_codepoint Italic cp = replicate 8 0"
    using a by (auto simp: glyph_for_codepoint_def glyph_italic_blank)
  then show "\<not> glyph_pixel_codepoint Italic cp row col"
    by (simp add: glyph_pixel_codepoint_def pixel_of_def font_width_def)
qed

section \<open>Witnesses\<close>

theorem font_styles_collapse_witness:
  "glyph_pixel Bold 0x41 0 2 = glyph_pixel Compact 0x41 0 2 \<and> \<not> glyph_pixel_codepoint Italic 0x0410 0 2"
proof -
  have "cyrillic_to_ascii 0x0410 = Some 0x41" by (simp add: cyrillic_to_ascii_def cyrillic_ascii_table_def)
  then show ?thesis
    using font_styles_collapse [of "0x41" Bold 0 2 "0x0410"] by (simp add: word_less_nat_alt word_le_nat_alt)
qed


end
