(* ===== verification/Framebuffer.thy ===== *)
theory Framebuffer
  imports Font
begin

unbundle bit_operations_syntax

text \<open>
  The linear framebuffer of \<open>src/kernel/src/framebuffer.rs\<close>: pixel access, rectangles, text and the blur and blend effects.
  Video memory is a byte-addressed memory of its own; a pixel is a 32-bit little-endian word.
\<close>

section \<open>Pixels\<close>

type_synonym rgb = "u8 \<times> u8 \<times> u8"

record fbuf =
  FB_BASE :: u64
  FB_W :: u32
  FB_H :: u32
  FB_STRIDE :: u32
  FB_FMT :: u32
  vram :: memory

definition fb_init :: "u64 \<Rightarrow> u32 \<Rightarrow> u32 \<Rightarrow> u32 \<Rightarrow> u32 \<Rightarrow> 'a fbuf_scheme \<Rightarrow> 'a fbuf_scheme" where
  "fb_init b w h stride fmt s = s\<lparr>FB_BASE := b, FB_W := w, FB_H := h, FB_STRIDE := stride, FB_FMT := fmt\<rparr>"

definition enabled :: "'a fbuf_scheme \<Rightarrow> bool" where
  "enabled s \<longleftrightarrow> FB_BASE s \<noteq> 0 \<and> FB_W s \<noteq> 0 \<and> FB_H s \<noteq> 0"

definition pack :: "'a fbuf_scheme \<Rightarrow> rgb \<Rightarrow> u32" where
  "pack s c =
     (case c of (r, g, b) \<Rightarrow>
        if FB_FMT s = 1 then ucast r OR push_bit 8 (ucast g) OR push_bit 16 (ucast b)
        else ucast b OR push_bit 8 (ucast g) OR push_bit 16 (ucast r))"

definition unpack :: "'a fbuf_scheme \<Rightarrow> u32 \<Rightarrow> rgb" where
  "unpack s px =
     (if FB_FMT s = 1 then (ucast (px AND 0xFF), ucast (drop_bit 8 px AND 0xFF), ucast (drop_bit 16 px AND 0xFF))
      else (ucast (drop_bit 16 px AND 0xFF), ucast (drop_bit 8 px AND 0xFF), ucast (px AND 0xFF)))"

definition pixel_addr :: "'a fbuf_scheme \<Rightarrow> u32 \<Rightarrow> u32 \<Rightarrow> u64" where
  "pixel_addr s x y = FB_BASE s + (ucast y * ucast (FB_STRIDE s) + ucast x) * 4"

definition read_u32 :: "memory \<Rightarrow> u64 \<Rightarrow> u32" where
  "read_u32 m a = from_le (mread m a 4)"

definition fb_get :: "u32 \<Rightarrow> u32 \<Rightarrow> 'a fbuf_scheme \<Rightarrow> rgb option" where
  "fb_get x y s =
     (if \<not> enabled s then None
      else if x \<ge> FB_W s \<or> y \<ge> FB_H s then None
      else Some (unpack s (read_u32 (vram s) (pixel_addr s x y))))"

definition fb_put :: "u32 \<Rightarrow> u32 \<Rightarrow> rgb \<Rightarrow> 'a fbuf_scheme \<Rightarrow> 'a fbuf_scheme" where
  "fb_put x y c s =
     (if \<not> enabled s then s
      else if x \<ge> FB_W s \<or> y \<ge> FB_H s then s
      else s\<lparr>vram := write_u32 (vram s) (pixel_addr s x y) (pack s c)\<rparr>)"

definition fill_rect :: "u32 \<Rightarrow> u32 \<Rightarrow> u32 \<Rightarrow> u32 \<Rightarrow> rgb \<Rightarrow> 'a fbuf_scheme \<Rightarrow> 'a fbuf_scheme" where
  "fill_rect x y w h c s =
     fold (\<lambda>dy s. fold (\<lambda>dx s. fb_put (x + word_of_nat dx) (y + word_of_nat dy) c s) [0..<unat w] s) [0..<unat h] s"

definition fb_clear :: "rgb \<Rightarrow> 'a fbuf_scheme \<Rightarrow> 'a fbuf_scheme" where
  "fb_clear c s = fill_rect 0 0 (FB_W s) (FB_H s) c s"

section \<open>Text\<close>

definition utf8_decode :: "bytes \<Rightarrow> nat \<Rightarrow> 16 word \<times> nat" where
  "utf8_decode s pos =
     (if pos \<ge> length s then (0, 1)
      else let b0 = s ! pos
      in if b0 < 0x80 then (ucast b0, 1)
      else if b0 \<ge> 0xC0 \<and> b0 \<le> 0xDF \<and> pos + 1 < length s then
        (push_bit 6 (ucast b0 AND 0x1F) OR (ucast (s ! (pos + 1)) AND 0x3F), 2)
      else if b0 \<ge> 0xE0 \<and> b0 \<le> 0xEF \<and> pos + 2 < length s then
        (push_bit 12 (ucast b0 AND 0x0F) OR push_bit 6 (ucast (s ! (pos + 1)) AND 0x3F) OR
           (ucast (s ! (pos + 2)) AND 0x3F), 3)
      else (ucast b0, 1))"

text \<open>The two nested loops over a glyph's pixels, for the pixel test \<open>px\<close>.\<close>

definition draw_glyph ::
  "(nat \<Rightarrow> u32 \<Rightarrow> bool) \<Rightarrow> u32 \<Rightarrow> u32 \<Rightarrow> rgb \<Rightarrow> u32 \<Rightarrow> font_id \<Rightarrow> 'a fbuf_scheme \<Rightarrow> 'a fbuf_scheme" where
  "draw_glyph px x y c scale f s =
     fold (\<lambda>r s. fold (\<lambda>col s.
         if px r (word_of_nat col)
         then fill_rect (x + word_of_nat col * scale) (y + word_of_nat r * scale) scale scale c s else s)
       [0..<unat (font_width f)] s) [0..<unat (font_height f)] s"

definition draw_char :: "u32 \<Rightarrow> u32 \<Rightarrow> u8 \<Rightarrow> rgb \<Rightarrow> u32 \<Rightarrow> font_id \<Rightarrow> 'a fbuf_scheme \<Rightarrow> 'a fbuf_scheme" where
  "draw_char x y ch c scale f s = draw_glyph (glyph_pixel f ch) x y c scale f s"

definition draw_char_cp :: "u32 \<Rightarrow> u32 \<Rightarrow> 16 word \<Rightarrow> rgb \<Rightarrow> u32 \<Rightarrow> font_id \<Rightarrow> 'a fbuf_scheme \<Rightarrow> 'a fbuf_scheme" where
  "draw_char_cp x y cp c scale f s = draw_glyph (glyph_pixel_codepoint f cp) x y c scale f s"

definition draw_char_boot :: "u32 \<Rightarrow> u32 \<Rightarrow> u8 \<Rightarrow> rgb \<Rightarrow> u32 \<Rightarrow> 'a fbuf_scheme \<Rightarrow> 'a fbuf_scheme" where
  "draw_char_boot x y ch c scale s = draw_char x y ch c scale Compact s"

fun draw_str :: "u32 \<Rightarrow> u32 \<Rightarrow> bytes \<Rightarrow> rgb \<Rightarrow> u32 \<Rightarrow> 'a fbuf_scheme \<Rightarrow> u32 \<times> 'a fbuf_scheme" where
  "draw_str cx y [] c scale s = (cx, s)"
| "draw_str cx y (ch # cs) c scale s = draw_str (cx + 8 * scale) y cs c scale (draw_char_boot cx y ch c scale s)"

lemma utf8_decode_positive: "0 < snd (utf8_decode s pos)"
  by (simp add: utf8_decode_def Let_def)

function draw_str_utf8 ::
  "u32 \<Rightarrow> u32 \<Rightarrow> bytes \<Rightarrow> nat \<Rightarrow> rgb \<Rightarrow> u32 \<Rightarrow> 'a fbuf_scheme \<Rightarrow> u32 \<times> 'a fbuf_scheme" where
  "draw_str_utf8 cx y s pos c scale st =
     (if pos < length s then
        let cp = fst (utf8_decode s pos); pos' = pos + snd (utf8_decode s pos)
        in if cp \<noteq> 0 then
             draw_str_utf8 (cx + 8 * scale) y s pos' c scale
               (if cp < 128 then draw_char_boot cx y (ucast cp) c scale st
                else draw_char_cp cx y cp c scale Compact st)
           else draw_str_utf8 cx y s pos' c scale st
      else (cx, st))"
  by auto
termination
  by (relation "measure (\<lambda>(cx, y, s, pos, c, scale, st). length s - pos)")
    (use utf8_decode_positive in \<open>auto intro!: diff_less_mono2\<close>)

declare draw_str_utf8.simps [simp del]

section \<open>Effects\<close>

definition blend_channel :: "u8 \<Rightarrow> u8 \<Rightarrow> u8 \<Rightarrow> u8" where
  "blend_channel b o' alpha =
     (let a = ucast alpha :: u32; inv = 255 - a in ucast ((ucast b * inv + ucast o' * a) div 255))"

definition alpha_blend :: "rgb \<Rightarrow> rgb \<Rightarrow> u8 \<Rightarrow> rgb" where
  "alpha_blend base overlay alpha =
     (case base of (b0, b1, b2) \<Rightarrow> case overlay of (o0, o1, o2) \<Rightarrow>
        (blend_channel b0 o0 alpha, blend_channel b1 o1 alpha, blend_channel b2 o2 alpha))"

definition get_or_black :: "u32 \<Rightarrow> u32 \<Rightarrow> 'a fbuf_scheme \<Rightarrow> rgb" where
  "get_or_black x y s = (case fb_get x y s of None \<Rightarrow> (0, 0, 0) | Some c \<Rightarrow> c)"

definition load_row :: "u32 \<Rightarrow> u32 \<Rightarrow> nat \<Rightarrow> 'a fbuf_scheme \<Rightarrow> rgb list \<Rightarrow> rgb list" where
  "load_row x y cw s r = map (\<lambda>dx. get_or_black (x + word_of_nat dx) y s) [0..<cw] @ drop cw r"

definition box_average :: "rgb list \<Rightarrow> rgb list \<Rightarrow> rgb list \<Rightarrow> nat \<Rightarrow> rgb" where
  "box_average row0 row1 row2 dx =
     (let ps = concat (map (\<lambda>r. map (\<lambda>kx. r ! (dx + kx - 1)) [0..<3]) [row0, row1, row2]);
          avg = (\<lambda>sel. ucast ((sum_list (map (\<lambda>p. ucast (sel p) :: u32) ps)) div 9))
      in (avg fst, avg (fst \<circ> snd), avg (snd \<circ> snd)))"

fun blur_rows ::
  "u32 \<Rightarrow> u32 \<Rightarrow> nat \<Rightarrow> nat list \<Rightarrow> rgb list \<Rightarrow> rgb list \<Rightarrow> rgb list \<Rightarrow> 'a fbuf_scheme \<Rightarrow> 'a fbuf_scheme" where
  "blur_rows x y cw [] row0 row1 row2 s = s"
| "blur_rows x y cw (dy # dys) row0 row1 row2 s =
     (let row2 = load_row x (y + word_of_nat dy + 1) cw s row2;
          s = fold (\<lambda>dx s. fb_put (x + word_of_nat dx) (y + word_of_nat dy) (box_average row0 row1 row2 dx) s) [1..<cw - 1] s
      in blur_rows x y cw dys row1 row2 row0 s)"

definition box_blur :: "u32 \<Rightarrow> u32 \<Rightarrow> u32 \<Rightarrow> u32 \<Rightarrow> 'a fbuf_scheme \<Rightarrow> 'a fbuf_scheme" where
  "box_blur x y w h s =
     (if w < 3 \<or> h < 3 then s
      else
        let cw = unat (min w 256); black = replicate 256 (0, 0, 0)
        in blur_rows x y cw [1..<unat h - 1] (load_row x y cw s black) (load_row x (y + 1) cw s black) black s)"

definition frost :: "u32 \<Rightarrow> u32 \<Rightarrow> u32 \<Rightarrow> u32 \<Rightarrow> u8 \<Rightarrow> 'a fbuf_scheme \<Rightarrow> 'a fbuf_scheme" where
  "frost x y w h alpha s =
     fold (\<lambda>dy s. fold (\<lambda>dx s.
         case fb_get (x + word_of_nat dx) (y + word_of_nat dy) s of
           None \<Rightarrow> s
         | Some base \<Rightarrow> fb_put (x + word_of_nat dx) (y + word_of_nat dy) (alpha_blend base (255, 255, 255) alpha) s)
       [0..<unat w] s) [0..<unat h] s"

definition draw_border :: "u32 \<Rightarrow> u32 \<Rightarrow> u32 \<Rightarrow> u32 \<Rightarrow> rgb \<Rightarrow> 'a fbuf_scheme \<Rightarrow> 'a fbuf_scheme" where
  "draw_border x y w h c s =
     (let s = fold (\<lambda>dx s. fb_put (x + word_of_nat dx) (y + h - 1) c (fb_put (x + word_of_nat dx) y c s)) [0..<unat w] s
      in fold (\<lambda>dy s. fb_put (x + w - 1) (y + word_of_nat dy) c (fb_put x (y + word_of_nat dy) c s)) [0..<unat h] s)"

definition draw_glass_background :: "u32 \<Rightarrow> u32 \<Rightarrow> u32 \<Rightarrow> u32 \<Rightarrow> u8 \<Rightarrow> 'a fbuf_scheme \<Rightarrow> 'a fbuf_scheme" where
  "draw_glass_background x y w h frost_alpha s =
     (if w = 0 \<or> h = 0 then s
      else
        let s = (if w \<le> 64 \<and> h \<le> 64 then box_blur x y w h s else s);
            s = (if h \<le> 128 \<and> w \<le> 512 then frost x y w h frost_alpha s
                 else fill_rect x y w h (alpha_blend (30, 30, 40) (255, 255, 255) frost_alpha) s)
        in if w \<le> 128 \<and> h \<le> 128
           then draw_border x y w h (alpha_blend (0, 0, 0) (255, 255, 255) 80) s else s)"

section \<open>Pixels do not overlap\<close>

text \<open>
  \<open>fb_ok\<close> is what the loader hands over: a non-empty screen, rows at least as long as they are wide, and all rows
  within the address space.
\<close>

definition fb_ok :: "'a fbuf_scheme \<Rightarrow> bool" where
  "fb_ok s \<longleftrightarrow> enabled s \<and> FB_W s \<le> FB_STRIDE s \<and>
     unat (FB_BASE s) + 4 * (unat (FB_H s) * unat (FB_STRIDE s)) \<le> 2 ^ 64"

definition on_screen :: "'a fbuf_scheme \<Rightarrow> u32 \<Rightarrow> u32 \<Rightarrow> bool" where
  "on_screen s x y \<longleftrightarrow> x < FB_W s \<and> y < FB_H s"

lemma mem_arange_nat: "unat a + n \<le> 2 ^ 64 \<Longrightarrow> x \<in> arange a n \<longleftrightarrow> unat a \<le> unat x \<and> unat x < unat a + n"
  for a x :: u64
  using unsigned_less [of x] by (auto simp: arange_def unat_sub_if')

lemma read_u32_cong: "(\<And>x. x \<in> arange a 4 \<Longrightarrow> m x = m' x) \<Longrightarrow> read_u32 m a = read_u32 m' a"
  unfolding read_u32_def by (subst mread_cong [of 4 a m m']) auto

lemma read_write_u32 [mem_simps]: "read_u32 (write_u32 m a v) a = v"
  using mread_mwrite_same [of "to_le 4 v" m a] by (simp add: read_u32_def write_u32_def)

lemma read_write_u32_apart:
  "unat a + 4 \<le> unat b \<or> unat b + 4 \<le> unat a \<Longrightarrow> unat a + 4 \<le> 2 ^ 64 \<Longrightarrow> unat b + 4 \<le> 2 ^ 64 \<Longrightarrow>
    read_u32 (write_u32 m b v) a = read_u32 m a"
  by (intro read_u32_cong) (auto simp: write_u32_def mem_arange_nat intro!: mwrite_outside)

text \<open>Byte offsets of pixels, without wrap-around.\<close>

definition pixel_index :: "'a fbuf_scheme \<Rightarrow> u32 \<Rightarrow> u32 \<Rightarrow> nat" where
  "pixel_index s x y = unat y * unat (FB_STRIDE s) + unat x"

lemma pixel_index_less:
  assumes "fb_ok s" "on_screen s x y"
  shows "pixel_index s x y < unat (FB_H s) * unat (FB_STRIDE s)"
proof -
  have "Suc (unat y) * unat (FB_STRIDE s) \<le> unat (FB_H s) * unat (FB_STRIDE s)"
    using assms(2) by (intro mult_right_mono) (auto simp: on_screen_def word_less_nat_alt)
  moreover have "unat x < unat (FB_STRIDE s)"
    using assms by (auto simp: on_screen_def fb_ok_def word_less_nat_alt word_le_nat_alt)
  ultimately show ?thesis by (simp add: pixel_index_def)
qed

lemma pixel_index_inj:
  assumes "fb_ok s" "on_screen s x y" "on_screen s x' y'" "pixel_index s x y = pixel_index s x' y'"
  shows "x = x' \<and> y = y'"
proof -
  let ?S = "unat (FB_STRIDE s)"
  have lt: "unat x < ?S" "unat x' < ?S"
    using assms by (auto simp: on_screen_def fb_ok_def word_less_nat_alt word_le_nat_alt)
  have "(unat y * ?S + unat x) div ?S = (unat y' * ?S + unat x') div ?S"
    "(unat y * ?S + unat x) mod ?S = (unat y' * ?S + unat x') mod ?S"
    using assms(4) by (simp_all add: pixel_index_def)
  then show ?thesis using lt by (simp add: word_unat_eq_iff)
qed

lemma unat_pixel_addr:
  assumes "fb_ok s" "on_screen s x y"
  shows "unat (pixel_addr s x y) = unat (FB_BASE s) + 4 * pixel_index s x y"
    and "unat (pixel_addr s x y) + 4 \<le> 2 ^ 64"
proof -
  have lt: "unat (FB_BASE s) + 4 * pixel_index s x y + 4 \<le> 2 ^ 64"
    using pixel_index_less [OF assms] assms(1) by (simp add: fb_ok_def)
  have "pixel_addr s x y = word_of_nat (unat (FB_BASE s) + 4 * pixel_index s x y)"
    by (simp add: pixel_addr_def pixel_index_def algebra_simps)
  moreover have "unat (FB_BASE s) + 4 * pixel_index s x y < 2 ^ 64" using lt by simp
  ultimately show eq: "unat (pixel_addr s x y) = unat (FB_BASE s) + 4 * pixel_index s x y"
    by (simp only: unat_word_of_nat)
  show "unat (pixel_addr s x y) + 4 \<le> 2 ^ 64" using lt eq by simp
qed

lemma pixels_apart:
  assumes "fb_ok s" "on_screen s x y" "on_screen s x' y'" "(x', y') \<noteq> (x, y)"
  shows "read_u32 (write_u32 m (pixel_addr s x y) v) (pixel_addr s x' y') = read_u32 m (pixel_addr s x' y')"
proof -
  have "pixel_index s x y \<noteq> pixel_index s x' y'" using pixel_index_inj [OF assms(1-3)] assms(4) by auto
  then show ?thesis
    using unat_pixel_addr [OF assms(1,2)] unat_pixel_addr [OF assms(1,3)] by (intro read_write_u32_apart) auto
qed

lemma unpack_pack [simp]: "unpack s (pack s c) = c"
proof -
  obtain r g b where c: "c = (r, g, b)" by (metis prod_cases3)
  have m: "(0xFF :: u32) = mask 8" by (simp add: mask_eq_decr_exp)
  show ?thesis
    by (auto simp: c unpack_def pack_def m intro!: bit_word_eqI)
      (auto simp: bit_simps dest: bit_imp_le_length)
qed

lemma vram_update_observers [simp]:
  "enabled (s\<lparr>vram := m\<rparr>) = enabled s" "pixel_addr (s\<lparr>vram := m\<rparr>) = pixel_addr s"
  "unpack (s\<lparr>vram := m\<rparr>) = unpack s" "pack (s\<lparr>vram := m\<rparr>) = pack s" "on_screen (s\<lparr>vram := m\<rparr>) = on_screen s"
  "fb_ok (s\<lparr>vram := m\<rparr>) = fb_ok s"
  by (auto simp: enabled_def pixel_addr_def unpack_def pack_def on_screen_def fb_ok_def fun_eq_iff)

lemma fb_put_fields [simp]:
  "FB_BASE (fb_put x y c s) = FB_BASE s" "FB_W (fb_put x y c s) = FB_W s" "FB_H (fb_put x y c s) = FB_H s"
  "FB_STRIDE (fb_put x y c s) = FB_STRIDE s" "FB_FMT (fb_put x y c s) = FB_FMT s"
  by (simp_all add: fb_put_def)

lemma fb_ok_put [simp]: "fb_ok (fb_put x y c s) = fb_ok s"
  by (simp add: fb_put_def)

lemma on_screen_put [simp]: "on_screen (fb_put x y c s) = on_screen s"
  by (simp add: fb_put_def)

text \<open>Reading a pixel after writing one.\<close>

lemma get_put:
  assumes "fb_ok s"
  shows "fb_get x' y' (fb_put x y c s) = (if (x', y') = (x, y) \<and> on_screen s x y then Some c else fb_get x' y' s)"
proof (cases "on_screen s x y \<and> on_screen s x' y'")
  case True
  then have sc: "on_screen s x y" "on_screen s x' y'" by auto
  have en: "enabled s" using assms by (simp add: fb_ok_def)
  have put: "fb_put x y c s = s\<lparr>vram := write_u32 (vram s) (pixel_addr s x y) (pack s c)\<rparr>"
    using sc en by (auto simp: fb_put_def on_screen_def not_le)
  have "fb_get x' y' (fb_put x y c s) = Some (unpack s (read_u32 (write_u32 (vram s) (pixel_addr s x y) (pack s c)) (pixel_addr s x' y')))"
    using sc en by (auto simp: fb_get_def on_screen_def not_le put)
  then show ?thesis
    using sc en pixels_apart [OF assms sc] by (auto simp: read_write_u32 fb_get_def on_screen_def not_le)
next
  case False
  then show ?thesis
    by (auto simp: fb_get_def fb_put_def enabled_def on_screen_def not_le)
qed

text \<open>
  What the drawing code relies on: a surface on which a visible pixel that is set reads back and no other pixel
  changes. Loops of \<open>put\<close> with one colour are reasoned about once, over this contract.
\<close>

locale pixel_surface =
  fixes ok :: "'s \<Rightarrow> bool"
    and visible :: "'s \<Rightarrow> 'p \<Rightarrow> 'p \<Rightarrow> bool"
    and get :: "'p \<Rightarrow> 'p \<Rightarrow> 's \<Rightarrow> 'c option"
    and put :: "'p \<Rightarrow> 'p \<Rightarrow> 'c \<Rightarrow> 's \<Rightarrow> 's"
  assumes put_ok: "ok s \<Longrightarrow> ok (put x y c s)"
    and put_visible: "visible (put x y c s) = visible s"
    and get_put: "ok s \<Longrightarrow> get x' y' (put x y c s) = (if (x', y') = (x, y) \<and> visible s x y then Some c else get x' y' s)"
begin

lemma get_fold:
  "ok s \<Longrightarrow> get x y (fold (\<lambda>(x, y). put x y c) ps s) = (if (x, y) \<in> set ps \<and> visible s x y then Some c else get x y s)"
proof (induction ps arbitrary: s)
  case (Cons p ps)
  obtain a b where p: "p = (a, b)" by (cases p)
  show ?case
    using Cons.IH [OF put_ok [OF Cons.prems, of a b c]] get_put [OF Cons.prems, of x y a b c] by (auto simp: p put_visible)
qed simp

lemma fold_last_wins:
  assumes "ok s" "visible s x y"
  shows "get x y (put x y c' (fold (\<lambda>(x, y). put x y c) ps s)) = Some c'"
proof -
  have "ok (fold (\<lambda>(x, y). put x y c) ps s) \<and> visible (fold (\<lambda>(x, y). put x y c) ps s) = visible s"
    using assms(1) by (induction ps arbitrary: s) (auto simp: put_ok put_visible split: prod.splits)
  then show ?thesis using assms(2) by (simp add: get_put)
qed

end

interpretation fb: pixel_surface fb_ok on_screen fb_get fb_put
  by unfold_locales (simp_all add: get_put)

section \<open>Painting sets of pixels\<close>

text \<open>
  Rectangles and glyphs are painted by nested loops of \<open>put\<close> with one colour. \<open>paint\<close> is the flat loop over the
  pixels visited, and what it leaves on the screen depends only on the set of them.
\<close>

definition paint :: "(u32 \<times> u32) list \<Rightarrow> rgb \<Rightarrow> 'a fbuf_scheme \<Rightarrow> 'a fbuf_scheme" where
  "paint ps c = fold (\<lambda>(x, y). fb_put x y c) ps"

lemma fold_paint: "fold (\<lambda>i. paint (f i) c) is s = paint (concat (map f is)) c s"
  by (induction "is" arbitrary: s) (simp_all add: paint_def)

lemma fold_cong_fun: "(\<And>i s. i \<in> set xs \<Longrightarrow> f i s = g i s) \<Longrightarrow> fold f xs s = fold g xs s"
  by (induction xs arbitrary: s) simp_all

lemma paint_screen [simp]: "fb_ok (paint ps c s) = fb_ok s" "on_screen (paint ps c s) = on_screen s"
  "FB_W (paint ps c s) = FB_W s" "FB_H (paint ps c s) = FB_H s" "FB_BASE (paint ps c s) = FB_BASE s"
  "FB_STRIDE (paint ps c s) = FB_STRIDE s"
  by (induction ps arbitrary: s) (auto simp: paint_def)

lemma get_paint:
  "fb_ok s \<Longrightarrow> fb_get x y (paint ps c s) = (if (x, y) \<in> set ps \<and> on_screen s x y then Some c else fb_get x y s)"
  unfolding paint_def by (rule fb.get_fold)

definition rect_pixels :: "u32 \<Rightarrow> u32 \<Rightarrow> nat \<Rightarrow> nat \<Rightarrow> (u32 \<times> u32) list" where
  "rect_pixels x y w h = concat (map (\<lambda>dy. map (\<lambda>dx. (x + word_of_nat dx, y + word_of_nat dy)) [0..<w]) [0..<h])"

lemma fold_put_row:
  "fold (\<lambda>dx s. fb_put (x + word_of_nat dx) y c s) is = paint (map (\<lambda>dx. (x + word_of_nat dx, y)) is) c"
  by (simp add: paint_def fold_map comp_def)

lemma fill_rect_paint: "fill_rect x y w h c = paint (rect_pixels x y (unat w) (unat h)) c"
  by (intro ext) (simp add: fill_rect_def rect_pixels_def fold_put_row fold_paint)

lemma word_range_iff: "(\<exists>d < n. p = x + word_of_nat d) \<longleftrightarrow> unat (p - x) < n" if "n \<le> 2 ^ 32" for p x :: u32
proof
  assume "\<exists>d < n. p = x + word_of_nat d"
  then show "unat (p - x) < n" using that by (auto simp: unat_of_nat)
next
  assume "unat (p - x) < n"
  then show "\<exists>d < n. p = x + word_of_nat d" by (intro exI [of _ "unat (p - x)"]) simp
qed

lemma set_rect_pixels:
  "w \<le> 2 ^ 32 \<Longrightarrow> h \<le> 2 ^ 32 \<Longrightarrow> (px, py) \<in> set (rect_pixels x y w h) \<longleftrightarrow> unat (px - x) < w \<and> unat (py - y) < h"
  unfolding word_range_iff [symmetric] by (force simp: rect_pixels_def)

lemma no_wrap_range: "unat x + n \<le> 2 ^ 32 \<Longrightarrow> unat (p - x) < n \<longleftrightarrow> unat x \<le> unat p \<and> unat p < unat x + n" for p x :: u32
  using unsigned_less [of p] by (auto simp: unat_sub_if')

lemma unat_bound_32: "unat (w :: u32) < 4294967296"
  using unsigned_less [of w] by simp

lemma get_fill_rect:
  assumes "fb_ok s"
  shows "fb_get px py (fill_rect x y w h c s) =
    (if px - x < w \<and> py - y < h \<and> on_screen s px py then Some c else fb_get px py s)"
proof -
  have "unat w \<le> 2 ^ 32" "unat h \<le> 2 ^ 32" using unat_bound_32 [of w] unat_bound_32 [of h] by simp_all
  then show ?thesis
    by (simp add: fill_rect_paint get_paint [OF assms] set_rect_pixels word_less_nat_alt)
qed

section \<open>Glyphs\<close>

definition glyph_pixels :: "(nat \<Rightarrow> u32 \<Rightarrow> bool) \<Rightarrow> u32 \<Rightarrow> u32 \<Rightarrow> u32 \<Rightarrow> font_id \<Rightarrow> (u32 \<times> u32) list" where
  "glyph_pixels px x y scale f =
     concat (map (\<lambda>r. concat (map (\<lambda>col.
         if px r (word_of_nat col)
         then rect_pixels (x + word_of_nat col * scale) (y + word_of_nat r * scale) (unat scale) (unat scale) else [])
       [0..<unat (font_width f)])) [0..<unat (font_height f)])"

lemma draw_glyph_paint: "draw_glyph px x y c scale f s = paint (glyph_pixels px x y scale f) c s"
proof -
  have "(if P then fill_rect a b w h c t else t) = paint (if P then rect_pixels a b (unat w) (unat h) else []) c t"
    for P a b w h and t :: "'a fbuf_scheme"
    by (simp add: fill_rect_paint) (simp add: paint_def)
  then show ?thesis by (simp only: draw_glyph_def glyph_pixels_def fold_paint)
qed

lemma div_eq_iff_range: "0 < n \<Longrightarrow> d div n = q \<longleftrightarrow> q * n \<le> d \<and> d < q * n + n" for d n q :: nat
  using div_times_less_eq_dividend [of d n] dividend_less_div_times [of n d] div_nat_eqI [of n q d]
  by (auto simp: mult.commute)

lemma block_iff:
  fixes p x sc :: u32
  assumes "col < n" "unat x + n * unat sc \<le> 2 ^ 32"
  shows "unat (p - (x + word_of_nat col * sc)) < unat sc \<longleftrightarrow>
    unat x \<le> unat p \<and> unat p < unat x + n * unat sc \<and> (unat p - unat x) div unat sc = col"
proof (cases "unat sc = 0")
  case True
  then show ?thesis by simp
next
  case False
  let ?s = "unat sc"
  have le: "Suc col * ?s \<le> n * ?s" using assms(1) by (intro mult_right_mono) simp_all
  have "x + word_of_nat col * sc = word_of_nat (unat x + col * ?s)" by simp
  moreover have "unat x + col * ?s < 2 ^ 32" using le assms(2) False by simp
  ultimately have u: "unat (x + word_of_nat col * sc) = unat x + col * ?s"
    by (simp only: unat_of_nat) simp
  have "unat (x + word_of_nat col * sc) + ?s \<le> 2 ^ 32" unfolding u using le assms(2) by simp
  then have "unat (p - (x + word_of_nat col * sc)) < ?s \<longleftrightarrow> unat x + col * ?s \<le> unat p \<and> unat p < unat x + col * ?s + ?s"
    by (simp add: no_wrap_range u)
  moreover have "\<dots> \<longleftrightarrow> unat x \<le> unat p \<and> (unat p - unat x) div ?s = col"
  proof (cases "unat x \<le> unat p")
    case le: True
    show ?thesis using le False div_eq_iff_range [of ?s "unat p - unat x" col] by linarith
  qed auto
  ultimately show ?thesis using le by auto
qed

lemma set_glyph_pixels:
  assumes "unat x + unat (font_width f) * unat scale \<le> 2 ^ 32" "unat y + unat (font_height f) * unat scale \<le> 2 ^ 32"
  shows "(p, q) \<in> set (glyph_pixels px x y scale f) \<longleftrightarrow>
    unat x \<le> unat p \<and> unat p < unat x + unat (font_width f) * unat scale \<and>
    unat y \<le> unat q \<and> unat q < unat y + unat (font_height f) * unat scale \<and>
    px ((unat q - unat y) div unat scale) (word_of_nat ((unat p - unat x) div unat scale))"
proof -
  have sc: "unat scale \<le> 2 ^ 32" using unat_bound_32 [of scale] by simp
  have "(p, q) \<in> set (glyph_pixels px x y scale f) \<longleftrightarrow>
    (\<exists>r < unat (font_height f). \<exists>col < unat (font_width f). px r (word_of_nat col) \<and>
      unat (p - (x + word_of_nat col * scale)) < unat scale \<and> unat (q - (y + word_of_nat r * scale)) < unat scale)"
    by (simp add: glyph_pixels_def set_rect_pixels [OF sc sc] if_distrib [of set] Bex_def cong: if_cong) blast
  also have "\<dots> \<longleftrightarrow> (\<exists>r < unat (font_height f). \<exists>col < unat (font_width f). px r (word_of_nat col) \<and>
      (unat x \<le> unat p \<and> unat p < unat x + unat (font_width f) * unat scale \<and> (unat p - unat x) div unat scale = col) \<and>
      (unat y \<le> unat q \<and> unat q < unat y + unat (font_height f) * unat scale \<and> (unat q - unat y) div unat scale = r))"
    by (simp add: block_iff [OF _ assms(1)] block_iff [OF _ assms(2)] cong: conj_cong)
  finally show ?thesis
    by (auto simp: less_mult_imp_div_less less_diff_conv2)
qed

section \<open>Properties\<close>

text \<open>
  A filled rectangle is exact: on a screen the loader described soundly, \<open>fill_rect\<close> whose far edges stay below
  \<open>2\<^sup>3\<^sup>2\<close> leaves every visible pixel inside the rectangle in the given colour and every other pixel as it was,
  so that clipping at the right and bottom edges never spills into a neighbouring row.
\<close>

theorem fill_rect_exact:
  assumes "fb_ok s" "unat x + unat w \<le> 2 ^ 32" "unat y + unat h \<le> 2 ^ 32"
  shows "fb_get px py (fill_rect x y w h c s) =
    (if unat x \<le> unat px \<and> unat px < unat x + unat w \<and> unat y \<le> unat py \<and> unat py < unat y + unat h \<and>
        px < FB_W s \<and> py < FB_H s then Some c else fb_get px py s)"
  using no_wrap_range [OF assms(2)] no_wrap_range [OF assms(3)]
  by (simp add: get_fill_rect [OF assms(1)] word_less_nat_alt [of "_ - _"] on_screen_def)

definition demo_screen :: fbuf where
  "demo_screen = \<lparr>FB_BASE = 0x80000000, FB_W = 40, FB_H = 30, FB_STRIDE = 64, FB_FMT = 0, vram = (\<lambda>_. 0)\<rparr>"

lemma demo_screen_ok [simp]: "fb_ok demo_screen" "FB_W demo_screen = 40" "FB_H demo_screen = 30"
  by (simp_all add: fb_ok_def demo_screen_def enabled_def)

lemma from_le_zero_cells: "from_le (map (\<lambda>_. 0) is) = 0"
  by (induction "is") simp_all

lemma demo_screen_black: "x < 40 \<Longrightarrow> y < 30 \<Longrightarrow> fb_get x y demo_screen = Some (0, 0, 0)"
  by (simp add: demo_screen_def fb_get_def enabled_def unpack_def read_u32_def mread_def from_le_zero_cells not_le)

theorem fill_rect_exact_witness:
  "fb_get 39 7 (fill_rect 36 5 10 4 (1, 2, 3) demo_screen) = Some (1, 2, 3) \<and>
   fb_get 0 6 (fill_rect 36 5 10 4 (1, 2, 3) demo_screen) = Some (0, 0, 0)"
  using fill_rect_exact [of demo_screen 36 10 5 4 39 7 "(1, 2, 3)"] fill_rect_exact [of demo_screen 36 10 5 4 0 6 "(1, 2, 3)"]
  by (simp add: demo_screen_black)

text \<open>
  A drawn character is exact: \<open>draw_char\<close> at a position from which the scaled glyph does not run past \<open>2\<^sup>3\<^sup>2\<close>
  colours precisely the visible pixels whose position, divided by the scale, is a set pixel of the glyph, and leaves
  every other pixel of the screen alone.
\<close>

theorem draw_char_exact:
  assumes "fb_ok s" "unat x + unat (font_width f) * unat scale \<le> 2 ^ 32"
    "unat y + unat (font_height f) * unat scale \<le> 2 ^ 32"
  shows "fb_get px py (draw_char x y ch c scale f s) =
    (if unat x \<le> unat px \<and> unat px < unat x + unat (font_width f) * unat scale \<and>
        unat y \<le> unat py \<and> unat py < unat y + unat (font_height f) * unat scale \<and>
        glyph_pixel f ch ((unat py - unat y) div unat scale) (word_of_nat ((unat px - unat x) div unat scale)) \<and>
        px < FB_W s \<and> py < FB_H s then Some c else fb_get px py s)"
  by (simp add: draw_char_def draw_glyph_paint get_paint [OF assms(1)] set_glyph_pixels [OF assms(2,3)] on_screen_def)

theorem draw_char_exact_witness:
  "fb_get 14 20 (draw_char 10 20 65 (9, 9, 9) 2 Compact demo_screen) =
   (if glyph_pixel Compact 65 0 2 then Some (9, 9, 9) else Some (0, 0, 0))"
  using draw_char_exact [of demo_screen 10 Compact 2 20 14 20 65 "(9, 9, 9)"]
  by (simp add: demo_screen_black font_width_def font_height_def)

text \<open>Blending stays between its two colours, so the narrowing cast back to \<open>u8\<close> loses nothing.\<close>

lemma unat_bound_8: "unat (w :: u8) \<le> 255"
proof -
  have "unat w < 2 ^ 8" using unsigned_less [of w] by simp
  then show ?thesis by simp
qed

lemma unat_blend_channel:
  "unat (blend_channel b ov alpha) = (unat b * (255 - unat alpha) + unat ov * unat alpha) div 255"
proof -
  have lt: "unat b \<le> 255" "unat ov \<le> 255" "unat alpha \<le> 255"
    by (simp_all add: unat_bound_8)
  let ?n = "unat b * (255 - unat alpha) + unat ov * unat alpha"
  have "unat b * (255 - unat alpha) \<le> 255 * (255 - unat alpha)" "unat ov * unat alpha \<le> 255 * unat alpha"
    using lt by (intro mult_right_mono; simp)+
  then have "?n \<le> 255 * (255 - unat alpha) + 255 * unat alpha" by (rule add_mono)
  also have "\<dots> = 255 * (255 - unat alpha + unat alpha)" by (simp only: distrib_left)
  finally have le: "?n \<le> 255 * 255" using lt by simp
  have "(ucast b * (255 - ucast alpha) + ucast ov * ucast alpha :: u32) = word_of_nat ?n"
    using lt by (simp add: of_nat_diff)
  then have "unat (ucast b * (255 - ucast alpha) + ucast ov * ucast alpha :: u32) = ?n"
    using le by (simp only: unat_of_nat) simp
  then have "unat ((ucast b * (255 - ucast alpha) + ucast ov * ucast alpha :: u32) div 255) = ?n div 255"
    by (simp add: unat_div)
  moreover have "?n div 255 \<le> 255" using div_le_mono [OF le, of 255] by simp
  ultimately show ?thesis
    by (simp add: blend_channel_def Let_def unsigned_ucast_eq take_bit_nat_eq_self)
qed

lemma alpha_blend_ends: "alpha_blend base overlay 0 = base" "alpha_blend base overlay 255 = overlay"
  by (auto simp: alpha_blend_def word_unat_eq_iff unat_blend_channel split: prod.splits)

lemma blend_channel_between:
  "min (unat b) (unat ov) \<le> unat (blend_channel b ov alpha) \<and> unat (blend_channel b ov alpha) \<le> max (unat b) (unat ov)"
proof -
  have a: "unat alpha \<le> 255" by (rule unat_bound_8)
  let ?i = "255 - unat alpha"
  let ?lo = "min (unat b) (unat ov)" and ?hi = "max (unat b) (unat ov)"
  have s: "k * ?i + k * unat alpha = 255 * k" for k
    using a by (simp add: diff_mult_distrib2 le_add_diff_inverse2 mult_le_mono2 mult.commute)
  have "?lo * ?i + ?lo * unat alpha \<le> unat b * ?i + unat ov * unat alpha"
    "unat b * ?i + unat ov * unat alpha \<le> ?hi * ?i + ?hi * unat alpha"
    by (intro add_mono mult_right_mono; simp)+
  then have "255 * ?lo \<le> unat b * ?i + unat ov * unat alpha" "unat b * ?i + unat ov * unat alpha \<le> 255 * ?hi"
    unfolding s by simp_all
  then have "255 * ?lo div 255 \<le> (unat b * ?i + unat ov * unat alpha) div 255"
    "(unat b * ?i + unat ov * unat alpha) div 255 \<le> 255 * ?hi div 255"
    by (intro div_le_mono; simp)+
  then show ?thesis unfolding unat_blend_channel by simp
qed

end
