(* ===== verification/Terminal.thy ===== *)
theory Terminal
  imports Framebuffer Config
begin

text \<open>
  The text console of \<open>src/kernel/src/terminal.rs\<close>: a grid of cells drawn into the framebuffer, the cursor, control
  characters, scrolling and the glass effect. The state extends the framebuffer's with the statics of the file; the
  configuration is passed where the code reads it. The main result is a refinement: over any bytes written, the
  pixels on the screen are those of an abstract grid of characters.
\<close>

section \<open>State\<close>

record terminal = fbuf +
  SCALE :: u32
  CELL :: u32
  SELECTED_FONT :: font_id
  CUR_COL :: u32
  CUR_ROW :: u32
  FG_COLOR :: rgb
  BG_COLOR :: rgb
  READY :: bool
  GLASS_MODE :: u32

abbreviation BG :: rgb where "BG \<equiv> (0x06, 0x0b, 0x10)"
abbreviation FG :: rgb where "FG \<equiv> (0xb8, 0xf2, 0x92)"
abbreviation ACCENT :: rgb where "ACCENT \<equiv> (0x4f, 0xb7, 0xff)"

definition configured_font :: "u32 \<Rightarrow> font_id" where
  "configured_font idx =
     (if idx < 8 then
        if idx = 0 then Compact else if idx = 1 then Bold else if idx = 2 then Italic else if idx = 3 then Serif
        else if idx = 4 then Outline else if idx = 5 then Tall else if idx = 6 then Vga else Wide
      else Compact)"

definition clamp32 :: "u32 \<Rightarrow> u32 \<Rightarrow> u32 \<Rightarrow> u32" where
  "clamp32 v lo hi = (if v < lo then lo else if v > hi then hi else v)"

definition apply_font_config :: "system_config \<Rightarrow> terminal \<Rightarrow> terminal" where
  "apply_font_config cfg t =
     (let f = configured_font (selected_font cfg); sc = clamp32 (font_scale cfg) 1 4
      in t\<lparr>SELECTED_FONT := f, SCALE := sc, CELL := font_width f * sc\<rparr>)"

definition cols :: "terminal \<Rightarrow> u32" where
  "cols t = (if FB_W t = 0 then 0 else FB_W t div CELL t)"

definition rows :: "terminal \<Rightarrow> u32" where
  "rows t = (if FB_H t = 0 then 0 else FB_H t div CELL t)"

section \<open>Colours and clearing\<close>

definition set_colors :: "rgb \<Rightarrow> rgb \<Rightarrow> terminal \<Rightarrow> terminal" where
  "set_colors fg bg t = t\<lparr>FG_COLOR := fg, BG_COLOR := bg\<rparr>"

definition set_glass_mode :: "u32 \<Rightarrow> terminal \<Rightarrow> terminal" where
  "set_glass_mode level t = t\<lparr>GLASS_MODE := min level 3\<rparr>"

definition apply_colors_from_config :: "system_config \<Rightarrow> terminal \<Rightarrow> terminal" where
  "apply_colors_from_config cfg t =
     (let cs = colors cfg
      in t\<lparr>FG_COLOR := (foreground_r cs, foreground_g cs, foreground_b cs),
           BG_COLOR := (background_r cs, background_g cs, background_b cs)\<rparr>)"

definition set_terminal_alpha :: "system_config \<Rightarrow> u32 \<Rightarrow> terminal \<Rightarrow> terminal" where
  "set_terminal_alpha cfg level t =
     (let t = set_glass_mode level t in if level > 0 then apply_colors_from_config cfg t else t)"

definition clear_alpha :: "u32 \<Rightarrow> u8" where
  "clear_alpha glass = (if glass = 1 then 40 else if glass = 2 then 70 else 100)"

definition cell_alpha :: "u32 \<Rightarrow> u8" where
  "cell_alpha glass = (if glass = 1 then 60 else if glass = 2 then 100 else 140)"

definition term_clear :: "terminal \<Rightarrow> terminal" where
  "term_clear t =
     (let t = (if GLASS_MODE t > 0 then frost 0 0 (FB_W t) (FB_H t) (clear_alpha (GLASS_MODE t)) t
               else fb_clear (BG_COLOR t) t)
      in t\<lparr>CUR_COL := 0, CUR_ROW := 0\<rparr>)"

definition term_init :: "system_config \<Rightarrow> terminal \<Rightarrow> terminal" where
  "term_init cfg t =
     (let t = apply_colors_from_config cfg (apply_font_config cfg t)
      in term_clear (t\<lparr>CUR_COL := 0, CUR_ROW := 0, READY := (FB_W t \<noteq> 0 \<and> FB_H t \<noteq> 0)\<rparr>))"

section \<open>Cells, lines and scrolling\<close>

definition put_cell :: "u8 \<Rightarrow> terminal \<Rightarrow> terminal" where
  "put_cell ch t =
     (let x = CUR_COL t * CELL t; y = CUR_ROW t * CELL t;
          t = (if GLASS_MODE t > 0
               then draw_glass_background x y (CELL t) (CELL t) (cell_alpha (GLASS_MODE t)) t
               else fill_rect x y (CELL t) (CELL t) (BG_COLOR t) t)
      in draw_glyph (glyph_pixel (SELECTED_FONT t) ch) x y (FG_COLOR t) (SCALE t) (SELECTED_FONT t) t)"

text \<open>\<open>core::ptr::copy\<close>: the destination receives the bytes the source held before the copy, also where they overlap.\<close>

definition mcopy :: "memory \<Rightarrow> u64 \<Rightarrow> u64 \<Rightarrow> nat \<Rightarrow> memory" where
  "mcopy m src dst n = mwrite m dst (mread m src n)"

definition scroll :: "terminal \<Rightarrow> terminal" where
  "scroll t =
     (let h = FB_H t; w = FB_W t; stride = FB_STRIDE t; base = FB_BASE t
      in if base = 0 \<or> h \<le> CELL t then t
      else
        let shift = ucast (CELL t) * ucast stride :: u64;
            total = ucast h * ucast stride :: u64;
            count = unat (total - shift);
            t = t\<lparr>vram := mcopy (vram t) (base + shift * 4) base (4 * count)\<rparr>
        in if GLASS_MODE t > 0
           then draw_glass_background 0 (h - CELL t) w (CELL t) (cell_alpha (GLASS_MODE t)) t
           else fill_rect 0 (h - CELL t) w (CELL t) (BG_COLOR t) t)"

definition sat_sub32 :: "u32 \<Rightarrow> u32 \<Rightarrow> u32" where
  "sat_sub32 a b = (if a < b then 0 else a - b)"

definition newline :: "terminal \<Rightarrow> terminal" where
  "newline t =
     (let t = t\<lparr>CUR_COL := 0, CUR_ROW := CUR_ROW t + 1\<rparr>
      in if CUR_ROW t \<ge> rows t
         then let t = scroll t in t\<lparr>CUR_ROW := sat_sub32 (rows t) 1\<rparr>
         else t)"

definition backspace :: "terminal \<Rightarrow> terminal" where
  "backspace t =
     (let t = (if CUR_COL t > 0 then t\<lparr>CUR_COL := CUR_COL t - 1\<rparr>
               else if CUR_ROW t > 0 then t\<lparr>CUR_ROW := CUR_ROW t - 1, CUR_COL := sat_sub32 (cols t) 1\<rparr>
               else t)
      in fill_rect (CUR_COL t * CELL t) (CUR_ROW t * CELL t) (CELL t) (CELL t) (BG_COLOR t) t)"

section \<open>Nothing that paints moves the cursor\<close>

text \<open>\<open>same_view t t'\<close>: the states differ in video memory only.\<close>

definition same_view :: "'a fbuf_scheme \<Rightarrow> 'a fbuf_scheme \<Rightarrow> bool" where
  "same_view s s' \<longleftrightarrow> s' = s\<lparr>vram := vram s'\<rparr>"

lemma same_view_refl [simp]: "same_view s s"
  by (simp add: same_view_def)

lemma same_view_trans: "same_view a b \<Longrightarrow> same_view b c \<Longrightarrow> same_view a c"
  unfolding same_view_def by (metis fbuf.update_convs(6) fbuf.surjective)

lemma same_view_put: "same_view s t \<Longrightarrow> same_view s (fb_put x y c t)"
  by (rule same_view_trans) (auto simp: same_view_def fb_put_def)

lemma same_view_fold: "(\<And>i t. same_view s t \<Longrightarrow> same_view s (f i t)) \<Longrightarrow> same_view s t \<Longrightarrow> same_view s (fold f is t)"
  by (induction "is" arbitrary: t) simp_all

lemma same_view_paint: "same_view s (paint ps c s)"
  unfolding paint_def by (rule same_view_fold) (auto intro: same_view_put)

lemma same_view_blur_rows: "same_view s t \<Longrightarrow> same_view s (blur_rows x y cw dys r0 r1 r2 t)"
  by (induction x y cw dys r0 r1 r2 t rule: blur_rows.induct) (simp_all add: Let_def same_view_fold same_view_put)

lemma same_view_frost: "same_view s t \<Longrightarrow> same_view s (frost x y w h alpha t)"
  unfolding frost_def by (intro same_view_fold) (auto intro: same_view_put split: option.split)

lemma same_view_glass: "same_view s (draw_glass_background x y w h alpha s)"
proof -
  have blur: "same_view s (box_blur x y w h t)" if "same_view s t" for t
    using that by (simp add: box_blur_def Let_def same_view_blur_rows)
  have fill: "same_view s (fill_rect x y w h c t)" if "same_view s t" for t c
    using that same_view_paint same_view_trans by (simp add: fill_rect_paint) blast
  have border: "same_view s (draw_border x y w h c t)" if "same_view s t" for t c
    using that unfolding draw_border_def Let_def by (intro same_view_fold same_view_put)
  show ?thesis
    by (simp add: draw_glass_background_def Let_def border fill blur same_view_frost)
qed

lemma same_view_put_cell: "same_view t (put_cell ch t)"
  unfolding put_cell_def Let_def draw_glyph_paint
  by (rule same_view_trans [OF _ same_view_paint]) (simp add: same_view_glass fill_rect_paint same_view_paint)

lemma same_view_scroll: "same_view t (scroll t)"
proof -
  have "same_view t (t\<lparr>vram := m\<rparr>)" for m by (simp add: same_view_def)
  then show ?thesis
    by (auto simp: scroll_def Let_def fill_rect_paint intro: same_view_trans same_view_glass same_view_paint)
qed

lemma same_view_fields:
  assumes "same_view t t'"
  shows "SCALE t' = SCALE t" "CELL t' = CELL t" "SELECTED_FONT t' = SELECTED_FONT t" "CUR_COL t' = CUR_COL t"
    "CUR_ROW t' = CUR_ROW t" "FG_COLOR t' = FG_COLOR t" "BG_COLOR t' = BG_COLOR t" "READY t' = READY t"
    "GLASS_MODE t' = GLASS_MODE t" "FB_W t' = FB_W t" "FB_H t' = FB_H t" "FB_BASE t' = FB_BASE t"
    "FB_STRIDE t' = FB_STRIDE t" "fb_ok t' = fb_ok t" "cols t' = cols t" "rows t' = rows t"
proof -
  have eq: "t' = t\<lparr>vram := vram t'\<rparr>" using assms by (simp add: same_view_def)
  show "SCALE t' = SCALE t" "CELL t' = CELL t" "SELECTED_FONT t' = SELECTED_FONT t" "CUR_COL t' = CUR_COL t"
    "CUR_ROW t' = CUR_ROW t" "FG_COLOR t' = FG_COLOR t" "BG_COLOR t' = BG_COLOR t" "READY t' = READY t"
    "GLASS_MODE t' = GLASS_MODE t" "FB_W t' = FB_W t" "FB_H t' = FB_H t" "FB_BASE t' = FB_BASE t"
    "FB_STRIDE t' = FB_STRIDE t" "fb_ok t' = fb_ok t" "cols t' = cols t" "rows t' = rows t"
    by (subst eq, simp add: cols_def rows_def)+
qed

lemmas put_cell_fields [simp] = same_view_fields [OF same_view_put_cell]
lemmas scroll_fields [simp] = same_view_fields [OF same_view_scroll]

section \<open>Characters\<close>

lemma unat_inc: "a < b \<Longrightarrow> unat (a + 1) = unat a + 1" for a b :: u32
  using unat_bound_32 [of b] by (subst unat_add_lem [THEN iffD1]) (simp_all add: word_less_nat_alt)

text \<open>The tab loop ends because \<open>put_cell\<close> leaves the column alone and the next statement increments it.\<close>

function tab_loop :: "u32 \<Rightarrow> u32 \<Rightarrow> terminal \<Rightarrow> terminal" where
  "tab_loop nxt limit t =
     (if CUR_COL t < nxt \<and> CUR_COL t < limit
      then let t = put_cell 0x20 t in tab_loop nxt limit (t\<lparr>CUR_COL := CUR_COL t + 1\<rparr>)
      else t)"
  by auto
termination
proof (relation "measure (\<lambda>(nxt, limit, t). unat nxt - unat (CUR_COL t))", goal_cases)
  case (2 nxt limit t t')
  then show ?case using unat_inc [of "CUR_COL t" nxt] by (auto simp: word_less_nat_alt)
qed simp

declare tab_loop.simps [simp del]

definition putchar :: "u8 \<Rightarrow> terminal \<Rightarrow> terminal" where
  "putchar ch t =
     (if \<not> READY t then t
      else if ch = 10 then newline t
      else if ch = 13 then t\<lparr>CUR_COL := 0\<rparr>
      else if ch = 9 then
        let limit = cols t; t = tab_loop ((CUR_COL t div 4 + 1) * 4) limit t
        in if CUR_COL t \<ge> limit then newline t else t
      else if ch = 8 \<or> ch = 0x7F then backspace t
      else if 0x20 \<le> ch \<and> ch \<le> 0x7E then
        let t = (if CUR_COL t \<ge> cols t then newline t else t);
            t = put_cell ch t
        in t\<lparr>CUR_COL := CUR_COL t + 1\<rparr>
      else t)"

definition term_write :: "bytes \<Rightarrow> terminal \<Rightarrow> terminal" where
  "term_write bs t = fold putchar bs t"

definition write_num :: "u64 \<Rightarrow> terminal \<Rightarrow> terminal" where
  "write_num v t = term_write (num_text v) t"

definition write_hex :: "u64 \<Rightarrow> terminal \<Rightarrow> terminal" where
  "write_hex v t = term_write (hex_text v) t"

definition set_cursor :: "u32 \<Rightarrow> u32 \<Rightarrow> terminal \<Rightarrow> terminal" where
  "set_cursor r col t = t\<lparr>CUR_ROW := r, CUR_COL := col\<rparr>"

text \<open>
  The boot banner reads the total memory, the size of the frame pool (\<open>frame::stats\<close>) and the number of processors
  (\<open>smp::cpu_count\<close>); they are arguments here.
\<close>

definition draw_boot_banner :: "system_config \<Rightarrow> u64 \<Rightarrow> u64 \<Rightarrow> u64 \<Rightarrow> terminal \<Rightarrow> terminal" where
  "draw_boot_banner cfg total_ram pool_bytes cpu_count t =
     (let t = (if READY t then t else term_init cfg t);
          t = set_colors ACCENT BG (term_clear t);
          t = term_write (nl_text ''  +-------------------------------------+'') t;
          t = term_write (nl_text ''  |       PUREOS CRYSTAL KERNEL         |'') t;
          t = term_write (nl_text ''  |    Immutable Ephemeral Kernel       |'') t;
          t = term_write (nl_text ''  +-------------------------------------+'') t;
          t = term_write [10] (set_colors FG BG t);
          t = term_write (bytes_of ''  system'') (set_colors ACCENT BG t);
          t = term_write [10] (set_colors FG BG t);
          t = term_write (nl_text '' cores'') (write_num cpu_count (term_write (bytes_of ''  cpu        '') t));
          t = term_write (bytes_of '' MiB total, '')
                (write_num (total_ram div (1024 * 1024)) (term_write (bytes_of ''  memory     '') t));
          t = term_write (nl_text '' MiB pool'') (write_num (pool_bytes div (1024 * 1024)) t);
          t = write_num (ucast (FB_W t)) (term_write (bytes_of ''  display    '') t);
          t = write_num (ucast (FB_H t)) (term_write (bytes_of ''x'') t);
          t = term_write (nl_text '' @32bpp'') t;
          t = term_write (10 # bytes_of ''  commands'') (set_colors ACCENT BG t);
          t = term_write [10] (set_colors FG BG t);
          t = term_write (nl_text ''  help   - command reference'') t;
          t = term_write (nl_text ''  info   - system information'') t;
          t = term_write (nl_text ''  man    - documentation'') t;
          t = term_write (nl_text ''  glass  - glassmorphism effect'') t;
          t = term_write (nl_text ''  barrel - REPL interpreter'') t;
          t = term_write (nl_text ''  top    - system monitor'') t;
          t = term_write [10] t;
          t = term_write (nl_text ''  v0.4  -  ready'') (set_colors ACCENT BG t);
          t = term_write [10] (set_colors FG BG t)
      in term_write (bytes_of ''pure/main# '') t)"

section \<open>The cursor stays in the grid\<close>

definition term_ok :: "terminal \<Rightarrow> bool" where
  "term_ok t \<longleftrightarrow> READY t \<and> 0 < CELL t \<and> 0 < cols t \<and> 0 < rows t \<and> CUR_ROW t < rows t \<and> CUR_COL t \<le> cols t"

lemma cursor_update_grid [simp]:
  "cols (t\<lparr>CUR_COL := c\<rparr>) = cols t" "rows (t\<lparr>CUR_COL := c\<rparr>) = rows t"
  "cols (t\<lparr>CUR_ROW := c\<rparr>) = cols t" "rows (t\<lparr>CUR_ROW := c\<rparr>) = rows t"
  by (simp_all add: cols_def rows_def)

lemma pos_diff_one: "0 < a \<Longrightarrow> unat (a - 1) = unat a - 1" for a :: u32
  by (simp add: unat_sub word_le_nat_alt word_less_nat_alt Suc_leI)

lemma sat_sub_one: "0 < a \<Longrightarrow> unat (sat_sub32 a 1) = unat a - 1"
  by (auto simp: sat_sub32_def pos_diff_one word_less_nat_alt)

lemma term_ok_newline: "term_ok t \<Longrightarrow> term_ok (newline t)"
  by (auto simp: term_ok_def newline_def Let_def word_less_nat_alt sat_sub_one not_le)

lemma term_ok_tab_loop:
  "term_ok t \<Longrightarrow> limit = cols t \<Longrightarrow> term_ok (tab_loop nxt limit t) \<and> cols (tab_loop nxt limit t) = cols t"
proof (induction nxt limit t rule: tab_loop.induct)
  case (1 nxt limit t)
  show ?case
  proof (cases "CUR_COL t < nxt \<and> CUR_COL t < limit")
    case True
    have "CUR_COL t + 1 \<le> cols t" using True 1(3) unat_inc [of "CUR_COL t" limit] by (simp add: word_less_nat_alt word_le_nat_alt)
    then have "term_ok ((put_cell 0x20 t)\<lparr>CUR_COL := CUR_COL t + 1\<rparr>)" using 1(2) by (simp add: term_ok_def)
    then show ?thesis using 1(1) [OF True refl] 1(3) True by (simp add: tab_loop.simps [of nxt "cols t" t] Let_def)
  next
    case False
    then show ?thesis using 1(2,3) by (auto simp: tab_loop.simps [of nxt "cols t" t])
  qed
qed

lemma fill_rect_fields [simp]:
  "CUR_COL (fill_rect x y w h c t) = CUR_COL t" "CUR_ROW (fill_rect x y w h c t) = CUR_ROW t"
  "READY (fill_rect x y w h c t) = READY t" "CELL (fill_rect x y w h c t) = CELL t"
  "cols (fill_rect x y w h c t) = cols t" "rows (fill_rect x y w h c t) = rows t"
  by (simp_all add: fill_rect_paint same_view_fields [OF same_view_paint])

lemma term_ok_backspace: "term_ok t \<Longrightarrow> term_ok (backspace t)"
  by (auto simp: term_ok_def backspace_def Let_def word_less_nat_alt word_le_nat_alt sat_sub_one pos_diff_one)

lemma newline_grid [simp]: "cols (newline t) = cols t" "rows (newline t) = rows t"
  by (simp_all add: newline_def Let_def)

lemma newline_col [simp]: "CUR_COL (newline t) = 0"
  by (simp add: newline_def Let_def)

lemma term_ok_putchar: "term_ok t \<Longrightarrow> term_ok (putchar ch t)"
proof -
  assume ok: "term_ok t"
  have adv: "term_ok ((put_cell ch u)\<lparr>CUR_COL := CUR_COL u + 1\<rparr>)" if "term_ok u" "CUR_COL u < cols u" for u
    using that unat_inc [of "CUR_COL u" "cols u"] by (simp add: term_ok_def word_less_nat_alt word_le_nat_alt)
  have "term_ok (newline t)" "CUR_COL (newline t) < cols (newline t)"
    using ok term_ok_newline by (auto simp: term_ok_def)
  then show ?thesis
    using ok term_ok_tab_loop [OF ok refl] adv adv [of "newline t"]
    by (auto simp: putchar_def Let_def term_ok_newline term_ok_backspace not_le) (auto simp: term_ok_def)
qed

lemma term_ok_write: "term_ok t \<Longrightarrow> term_ok (term_write bs t)"
  unfolding term_write_def by (induction bs arbitrary: t) (simp_all add: term_ok_putchar)

section \<open>Pixels of cells\<close>

text \<open>
  \<open>term_geom\<close>: a sound framebuffer of at least two text lines, a whole number of cells high, a square font at the
  configured scale, and the glass effect off.
\<close>

definition term_geom :: "terminal \<Rightarrow> bool" where
  "term_geom t \<longleftrightarrow> fb_ok t \<and> GLASS_MODE t = 0 \<and> font_height (SELECTED_FONT t) = font_width (SELECTED_FONT t) \<and>
     0 < SCALE t \<and> SCALE t \<le> 4 \<and> CELL t = font_width (SELECTED_FONT t) * SCALE t \<and>
     unat (CELL t) dvd unat (FB_H t) \<and> 2 * unat (CELL t) \<le> unat (FB_H t) \<and> unat (CELL t) \<le> unat (FB_W t)"

definition pix :: "'a fbuf_scheme \<Rightarrow> nat \<Rightarrow> nat \<Rightarrow> rgb option" where
  "pix s i j = fb_get (word_of_nat i) (word_of_nat j) s"

type_synonym tcell = "u8 \<times> rgb \<times> rgb"

definition cell_colour :: "font_id \<Rightarrow> nat \<Rightarrow> tcell \<Rightarrow> nat \<Rightarrow> nat \<Rightarrow> rgb" where
  "cell_colour f sc cell i j =
     (case cell of (ch, fg, bg) \<Rightarrow> if glyph_pixel f ch (j div sc) (word_of_nat (i div sc)) then fg else bg)"

lemma term_geomD:
  assumes "term_geom t"
  shows "fb_ok t" "GLASS_MODE t = 0" "font_height (SELECTED_FONT t) = font_width (SELECTED_FONT t)"
    "unat (CELL t) dvd unat (FB_H t)" "2 * unat (CELL t) \<le> unat (FB_H t)" "unat (CELL t) \<le> unat (FB_W t)"
  using assms unfolding term_geom_def by blast+

lemma term_geom_cell:
  assumes "term_geom t"
  shows "0 < unat (CELL t)" "unat (CELL t) \<le> 40" "unat (CELL t) = unat (font_width (SELECTED_FONT t)) * unat (SCALE t)"
    "0 < unat (SCALE t)" "unat (cols t) = unat (FB_W t) div unat (CELL t)" "unat (rows t) = unat (FB_H t) div unat (CELL t)"
    "unat (rows t) * unat (CELL t) = unat (FB_H t)" "unat (cols t) * unat (CELL t) \<le> unat (FB_W t)"
    "2 \<le> unat (rows t)" "1 \<le> unat (cols t)"
proof -
  have f: "unat (font_width (SELECTED_FONT t)) \<le> 10" "0 < unat (font_width (SELECTED_FONT t))"
    by (cases "SELECTED_FONT t"; simp add: font_width_def)+
  have sc: "unat (SCALE t) \<le> 4" "0 < unat (SCALE t)" using assms by (simp_all add: term_geom_def word_less_nat_alt word_le_nat_alt)
  then show "0 < unat (SCALE t)" by simp
  have le: "unat (font_width (SELECTED_FONT t)) * unat (SCALE t) \<le> 10 * 4" by (rule mult_le_mono [OF f(1) sc(1)])
  then show k: "unat (CELL t) = unat (font_width (SELECTED_FONT t)) * unat (SCALE t)"
    using assms by (simp add: term_geom_def unat_mult_lem [THEN iffD1])
  show "unat (CELL t) \<le> 40" using k le by simp
  show pos: "0 < unat (CELL t)" using k f sc by simp
  show c: "unat (cols t) = unat (FB_W t) div unat (CELL t)" and r: "unat (rows t) = unat (FB_H t) div unat (CELL t)"
    by (simp_all add: cols_def rows_def unat_div)
  show "unat (rows t) * unat (CELL t) = unat (FB_H t)" "unat (cols t) * unat (CELL t) \<le> unat (FB_W t)"
    using term_geomD(4) [OF assms] by (simp_all add: c r)
  show "2 \<le> unat (rows t)" "1 \<le> unat (cols t)"
    using term_geomD [OF assms] pos div_le_mono [of "2 * unat (CELL t)" "unat (FB_H t)" "unat (CELL t)"]
      div_le_mono [of "unat (CELL t)" "unat (FB_W t)" "unat (CELL t)"]
    by (simp_all add: c r)
qed

lemma unat_nat32: "i < unat b \<Longrightarrow> unat (word_of_nat i :: u32) = i" for b :: u32
  using unat_bound_32 [of b] by (simp add: unat_of_nat)

text \<open>A cell-sized rectangle covers exactly the pixels of its cell.\<close>

lemma cell_range:
  fixes col k p :: u32
  assumes "0 < unat k" "unat col < n" "n * unat k \<le> unat b" "i < unat (b :: u32)"
  shows "word_of_nat i - col * k < k \<longleftrightarrow> i div unat k = unat col"
proof -
  have "unat (word_of_nat i - (0 + word_of_nat (unat col) * k)) < unat k \<longleftrightarrow>
    i < n * unat k \<and> i div unat k = unat col"
    using block_iff [of "unat col" n 0 k "word_of_nat i"] assms unat_bound_32 [of b] by (simp add: unat_nat32)
  moreover have "i div unat k = unat col \<Longrightarrow> i < n * unat k"
    using assms(1,2) by (metis div_less_iff_less_mult)
  ultimately show ?thesis by (auto simp: word_less_nat_alt)
qed

lemma pix_fill_cell:
  assumes "term_geom t" "unat col < unat (cols t)" "unat r < unat (rows t)" "i < unat (FB_W t)" "j < unat (FB_H t)"
  shows "pix (fill_rect (col * CELL t) (r * CELL t) (CELL t) (CELL t) c t) i j =
    (if i div unat (CELL t) = unat col \<and> j div unat (CELL t) = unat r then Some c else pix t i j)"
proof -
  note g = term_geom_cell [OF assms(1)]
  have "on_screen t (word_of_nat i) (word_of_nat j)"
    using assms(4,5) by (simp add: on_screen_def word_less_nat_alt unat_nat32)
  moreover have "fb_ok t" using assms(1) by (simp add: term_geom_def)
  ultimately show ?thesis
    using g(7) cell_range [OF g(1) assms(2) g(8) assms(4)] cell_range [OF g(1) assms(3) _ assms(5)]
    by (simp add: pix_def get_fill_rect)
qed

lemma same_view_geom: "same_view t t' \<Longrightarrow> term_geom t' = term_geom t"
  by (simp add: term_geom_def same_view_fields)

lemma unat_cell_origin:
  assumes "term_geom t" "unat col < n" "n * unat (CELL t) \<le> unat (b :: u32)"
  shows "unat (col * CELL t) = unat col * unat (CELL t)" "unat (col * CELL t) + unat (CELL t) \<le> 2 ^ 32"
proof -
  have "Suc (unat col) * unat (CELL t) \<le> n * unat (CELL t)" using assms(2) by (intro mult_right_mono) simp_all
  then have le: "unat col * unat (CELL t) + unat (CELL t) \<le> unat b" using assms(3) by simp
  then show eq: "unat (col * CELL t) = unat col * unat (CELL t)"
    using unat_bound_32 [of b] term_geom_cell(1) [OF assms(1)] by (subst unat_mult_lem [THEN iffD1]) simp_all
  show "unat (col * CELL t) + unat (CELL t) \<le> 2 ^ 32" using eq le unat_bound_32 [of b] by simp
qed

lemma pix_put_cell:
  assumes "term_geom t" "CUR_COL t < cols t" "CUR_ROW t < rows t" "i < unat (FB_W t)" "j < unat (FB_H t)"
  shows "pix (put_cell ch t) i j =
    (if i div unat (CELL t) = unat (CUR_COL t) \<and> j div unat (CELL t) = unat (CUR_ROW t)
     then Some (cell_colour (SELECTED_FONT t) (unat (SCALE t)) (ch, FG_COLOR t, BG_COLOR t) (i mod unat (CELL t)) (j mod unat (CELL t)))
     else pix t i j)"
proof -
  note g = term_geom_cell [OF assms(1)]
  let ?K = "unat (CELL t)" and ?f = "SELECTED_FONT t"
  let ?x = "CUR_COL t * CELL t" and ?y = "CUR_ROW t * CELL t"
  let ?u = "fill_rect ?x ?y (CELL t) (CELL t) (BG_COLOR t) t"
  have sv: "same_view t ?u" by (simp add: fill_rect_paint same_view_paint)
  have cl: "unat (CUR_COL t) < unat (cols t)" "unat (CUR_ROW t) < unat (rows t)"
    using assms(2,3) by (simp_all add: word_less_nat_alt)
  have h: "unat (rows t) * ?K \<le> unat (FB_H t)" using g(7) by simp
  note x = unat_cell_origin [OF assms(1) cl(1) g(8)] and y = unat_cell_origin [OF assms(1) cl(2) h]
  have fh: "font_height ?f = font_width ?f" and gl: "GLASS_MODE t = 0" and ok: "fb_ok t"
    using term_geomD [OF assms(1)] by simp_all
  have put: "put_cell ch t = paint (glyph_pixels (glyph_pixel ?f ch) ?x ?y (SCALE t) ?f) (FG_COLOR t) ?u"
    by (simp add: put_cell_def Let_def gl draw_glyph_paint same_view_fields [OF sv])
  have sc: "on_screen ?u (word_of_nat i) (word_of_nat j)"
    using assms(4,5) by (simp add: on_screen_def word_less_nat_alt unat_nat32 same_view_fields [OF sv])
  have range: "unat (CUR_COL t) * ?K \<le> i \<and> i < unat (CUR_COL t) * ?K + ?K \<longleftrightarrow> i div ?K = unat (CUR_COL t)"
    "unat (CUR_ROW t) * ?K \<le> j \<and> j < unat (CUR_ROW t) * ?K + ?K \<longleftrightarrow> j div ?K = unat (CUR_ROW t)"
    using g(1) by (simp_all add: div_eq_iff_range)
  have mem: "(word_of_nat i, word_of_nat j) \<in> set (glyph_pixels (glyph_pixel ?f ch) ?x ?y (SCALE t) ?f) \<longleftrightarrow>
    i div ?K = unat (CUR_COL t) \<and> j div ?K = unat (CUR_ROW t) \<and>
    glyph_pixel ?f ch ((j - unat (CUR_ROW t) * ?K) div unat (SCALE t)) (word_of_nat ((i - unat (CUR_COL t) * ?K) div unat (SCALE t)))"
    using x(2) y(2) range
    by (subst set_glyph_pixels) (auto simp: fh g(3) [symmetric] x(1) y(1) unat_nat32 [OF assms(4)] unat_nat32 [OF assms(5)])
  have "pix (put_cell ch t) i j = (if (word_of_nat i, word_of_nat j) \<in> set (glyph_pixels (glyph_pixel ?f ch) ?x ?y (SCALE t) ?f)
    then Some (FG_COLOR t) else pix ?u i j)"
    using sc ok by (simp add: pix_def put get_paint same_view_fields [OF sv])
  moreover have "pix ?u i j = (if i div ?K = unat (CUR_COL t) \<and> j div ?K = unat (CUR_ROW t) then Some (BG_COLOR t) else pix t i j)"
    by (rule pix_fill_cell [OF assms(1) cl assms(4,5)])
  moreover have "i div ?K = unat (CUR_COL t) \<Longrightarrow> i mod ?K = i - unat (CUR_COL t) * ?K"
    "j div ?K = unat (CUR_ROW t) \<Longrightarrow> j mod ?K = j - unat (CUR_ROW t) * ?K"
    by (metis minus_div_mult_eq_mod)+
  ultimately show ?thesis by (auto simp: mem cell_colour_def)
qed

text \<open>Scrolling moves every pixel row up by one cell and fills the rows this frees.\<close>

lemma read_u32_mcopy:
  assumes "4 * k + 4 \<le> n" "n \<le> 2 ^ 64"
  shows "read_u32 (mcopy m src dst n) (dst + word_of_nat (4 * k)) = read_u32 m (src + word_of_nat (4 * k))"
proof -
  have "mcopy m src dst n (dst + word_of_nat (4 * k) + word_of_nat i) = m (src + word_of_nat (4 * k) + word_of_nat i)" if "i < 4" for i
  proof -
    have u: "unat (word_of_nat (4 * k + i) :: u64) = 4 * k + i" using that assms by (intro unat_word_of_nat) simp
    have "dst + word_of_nat (4 * k) + word_of_nat i - dst = word_of_nat (4 * k + i)"
      "src + word_of_nat (4 * k) + word_of_nat i = src + word_of_nat (4 * k + i)" by (simp_all add: algebra_simps)
    then show ?thesis using that assms by (simp only: mcopy_def mwrite_def u length_mread) (simp add: mread_def)
  qed
  then show ?thesis unfolding read_u32_def mread_def by (intro arg_cong [of _ _ from_le] map_cong refl) simp
qed

lemma pixel_addr_nat: "pixel_addr s (word_of_nat i) (word_of_nat j) = FB_BASE s + word_of_nat (4 * (j * unat (FB_STRIDE s) + i))"
  if "i < unat (FB_W s)" "j < unat (FB_H s)"
proof -
  have "ucast (word_of_nat i :: u32) = (word_of_nat i :: u64)" "ucast (word_of_nat j :: u32) = (word_of_nat j :: u64)"
    using unat_nat32 [OF that(1)] unat_nat32 [OF that(2)] by (metis of_nat_unat)+
  then show ?thesis by (simp add: pixel_addr_def algebra_simps)
qed

lemma pix_scroll:
  assumes "term_geom t" "i < unat (FB_W t)" "j < unat (FB_H t)"
  shows "pix (scroll t) i j = (if j + unat (CELL t) < unat (FB_H t) then pix t i (j + unat (CELL t)) else Some (BG_COLOR t))"
proof -
  note g = term_geom_cell [OF assms(1)]
  let ?K = "unat (CELL t)" and ?S = "unat (FB_STRIDE t)" and ?H = "unat (FB_H t)"
  have ok: "fb_ok t" and gl: "GLASS_MODE t = 0" and KH: "2 * ?K \<le> ?H" using term_geomD [OF assms(1)] by simp_all
  have ok': "FB_BASE t \<noteq> 0" "unat (FB_W t) \<le> ?S" "4 * (?H * ?S) \<le> 2 ^ 64"
    using ok by (simp_all add: fb_ok_def enabled_def word_le_nat_alt)
  define n where "n = (?H - ?K) * ?S"
  have "n \<le> ?H * ?S" unfolding n_def by (intro mult_right_mono) simp_all
  then have nle: "4 * n \<le> 2 ^ 64" using ok'(3) by simp
  have cnt: "unat (ucast (FB_H t) * ucast (FB_STRIDE t) - ucast (CELL t) * ucast (FB_STRIDE t) :: u64) = n"
  proof -
    have "(ucast (FB_H t) * ucast (FB_STRIDE t) - ucast (CELL t) * ucast (FB_STRIDE t) :: u64) = word_of_nat n"
      using KH by (simp add: n_def of_nat_diff left_diff_distrib)
    moreover have "n < 2 ^ 64" using nle by simp
    ultimately show ?thesis by (simp only: unat_word_of_nat)
  qed
  define m where "m = mcopy (vram t) (FB_BASE t + ucast (CELL t) * ucast (FB_STRIDE t) * 4) (FB_BASE t) (4 * n)"
  have hK: "unat (FB_H t - CELL t) = ?H - ?K" using KH by (simp add: unat_sub word_le_nat_alt)
  have cl: "CELL t < FB_H t" using KH g(1) by (simp add: word_less_nat_alt)
  then have sc: "scroll t = fill_rect 0 (FB_H t - CELL t) (FB_W t) (CELL t) (BG_COLOR t) (t\<lparr>vram := m\<rparr>)"
    using ok'(1) by (simp add: scroll_def Let_def gl cnt m_def)
  have on: "on_screen t (word_of_nat i) (word_of_nat j)"
    using assms by (simp add: on_screen_def word_less_nat_alt unat_nat32)
  have "word_of_nat j - (FB_H t - CELL t) < CELL t \<longleftrightarrow> ?H \<le> j + ?K"
    using no_wrap_range [of "FB_H t - CELL t" ?K "word_of_nat j"] assms(3) KH unat_bound_32 [of "FB_H t"]
    by (auto simp: word_less_nat_alt hK unat_nat32)
  then have p: "pix (scroll t) i j = (if ?H \<le> j + ?K then Some (BG_COLOR t) else pix (t\<lparr>vram := m\<rparr>) i j)"
    using on ok by (simp add: sc pix_def get_fill_rect) (simp add: on_screen_def)
  have "pix (t\<lparr>vram := m\<rparr>) i j = pix t i (j + ?K)" if jk: "j + ?K < ?H"
  proof -
    let ?q = "j * ?S + i"
    have "Suc j * ?S \<le> (?H - ?K) * ?S" using jk by (intro mult_right_mono) simp_all
    then have q: "4 * ?q + 4 \<le> 4 * n" using assms(2) ok'(2) by (simp add: n_def)
    have a: "FB_BASE t + ucast (CELL t) * ucast (FB_STRIDE t) * 4 + word_of_nat (4 * ?q) = pixel_addr t (word_of_nat i) (word_of_nat (j + ?K))"
      by (simp only: pixel_addr_nat [OF assms(2) jk]) (simp add: algebra_simps)
    have "read_u32 m (pixel_addr t (word_of_nat i) (word_of_nat j)) = read_u32 (vram t) (pixel_addr t (word_of_nat i) (word_of_nat (j + ?K)))"
      unfolding pixel_addr_nat [OF assms(2,3)] m_def by (subst read_u32_mcopy [OF q nle]) (simp only: a)
    moreover have "on_screen t (word_of_nat i) (word_of_nat (j + ?K))"
      using assms jk by (simp only: on_screen_def word_less_nat_alt unat_nat32)
    ultimately show ?thesis using on ok by (auto simp: pix_def fb_get_def on_screen_def fb_ok_def not_le)
  qed
  then show ?thesis using p by auto
qed

section \<open>The abstract text screen\<close>

text \<open>
  What the console promises: a grid of characters with their colours and a cursor, independent of fonts and pixels.
\<close>

record tgrid =
  gcol :: nat
  grow :: nat
  gcells :: "nat \<Rightarrow> nat \<Rightarrow> tcell"

definition blank :: "rgb \<Rightarrow> tcell" where
  "blank bg = (0x20, bg, bg)"

definition g_newline :: "nat \<Rightarrow> rgb \<Rightarrow> tgrid \<Rightarrow> tgrid" where
  "g_newline R bg g =
     (if R \<le> grow g + 1
      then g\<lparr>gcol := 0, grow := R - 1, gcells := (\<lambda>r. if r + 1 < R then gcells g (r + 1) else (\<lambda>_. blank bg))\<rparr>
      else g\<lparr>gcol := 0, grow := grow g + 1\<rparr>)"

definition g_set :: "tcell \<Rightarrow> tgrid \<Rightarrow> tgrid" where
  "g_set cell g = g\<lparr>gcells := (\<lambda>r c. if r = grow g \<and> c = gcol g then cell else gcells g r c)\<rparr>"

definition g_advance :: "tcell \<Rightarrow> tgrid \<Rightarrow> tgrid" where
  "g_advance cell g = (g_set cell g)\<lparr>gcol := gcol g + 1\<rparr>"

definition g_backspace :: "nat \<Rightarrow> rgb \<Rightarrow> tgrid \<Rightarrow> tgrid" where
  "g_backspace C bg g =
     g_set (blank bg)
       (if 0 < gcol g then g\<lparr>gcol := gcol g - 1\<rparr>
        else if 0 < grow g then g\<lparr>grow := grow g - 1, gcol := C - 1\<rparr> else g)"

definition g_tab :: "nat \<Rightarrow> nat \<Rightarrow> tcell \<Rightarrow> tgrid \<Rightarrow> tgrid" where
  "g_tab C R cell g =
     (let g = (g_advance cell ^^ (min ((gcol g div 4 + 1) * 4) C - gcol g)) g
      in if C \<le> gcol g then g_newline R (snd (snd cell)) g else g)"

definition g_putchar :: "nat \<Rightarrow> nat \<Rightarrow> rgb \<Rightarrow> rgb \<Rightarrow> u8 \<Rightarrow> tgrid \<Rightarrow> tgrid" where
  "g_putchar C R fg bg ch g =
     (if ch = 10 then g_newline R bg g
      else if ch = 13 then g\<lparr>gcol := 0\<rparr>
      else if ch = 9 then g_tab C R (0x20, fg, bg) g
      else if ch = 8 \<or> ch = 0x7F then g_backspace C bg g
      else if 0x20 \<le> ch \<and> ch \<le> 0x7E
      then g_advance (ch, fg, bg) (if C \<le> gcol g then g_newline R bg g else g)
      else g)"

text \<open>The pixels of the screen are those of the grid.\<close>

definition shows_grid :: "terminal \<Rightarrow> tgrid \<Rightarrow> bool" where
  "shows_grid t g \<longleftrightarrow>
     term_geom t \<and> term_ok t \<and> unat (CUR_COL t) = gcol g \<and> unat (CUR_ROW t) = grow g \<and>
     (\<forall>i < unat (cols t) * unat (CELL t). \<forall>j < unat (rows t) * unat (CELL t).
        pix t i j = Some (cell_colour (SELECTED_FONT t) (unat (SCALE t))
          (gcells g (j div unat (CELL t)) (i div unat (CELL t))) (i mod unat (CELL t)) (j mod unat (CELL t))))"

lemma cell_colour_blank [simp]: "cell_colour f sc (blank bg) i j = bg"
  by (simp add: cell_colour_def blank_def)

lemma pix_cursor [simp]: "pix (t\<lparr>CUR_COL := c\<rparr>) = pix t" "pix (t\<lparr>CUR_ROW := r\<rparr>) = pix t"
  by (simp_all add: pix_def fb_get_def enabled_def pixel_addr_def unpack_def fun_eq_iff)

lemma fb_ok_cursor [simp]: "fb_ok (t\<lparr>CUR_COL := c\<rparr>) = fb_ok t" "fb_ok (t\<lparr>CUR_ROW := r\<rparr>) = fb_ok t"
  by (simp_all add: fb_ok_def enabled_def)

lemma term_geom_cursor [simp]: "term_geom (t\<lparr>CUR_COL := c\<rparr>) = term_geom t" "term_geom (t\<lparr>CUR_ROW := r\<rparr>) = term_geom t"
  by (simp_all add: term_geom_def)

lemma shows_grid_dims:
  assumes "shows_grid t g"
  shows "term_geom t" "term_ok t" "unat (CUR_COL t) = gcol g" "unat (CUR_ROW t) = grow g"
    "grow g < unat (rows t)" "gcol g \<le> unat (cols t)"
  using assms by (auto simp: shows_grid_def term_ok_def word_less_nat_alt word_le_nat_alt)

lemma cursor_swap: "t\<lparr>CUR_ROW := r, CUR_COL := c\<rparr> = t\<lparr>CUR_COL := c, CUR_ROW := r\<rparr>"
  by simp

lemma same_view_cursor: "same_view t t' \<Longrightarrow> same_view (t\<lparr>CUR_COL := CUR_COL t, CUR_ROW := CUR_ROW t\<rparr>) t'"
  by simp

lemma shows_gridI:
  assumes "shows_grid t g" "same_view (t\<lparr>CUR_COL := a, CUR_ROW := b\<rparr>) t'" "unat (CUR_COL t'') = gcol g'" "unat (CUR_ROW t'') = grow g'"
    "grow g' < unat (rows t)" "gcol g' \<le> unat (cols t)" "t'' = t'\<lparr>CUR_COL := c, CUR_ROW := r\<rparr>"
    "\<And>i j. i < unat (cols t) * unat (CELL t) \<Longrightarrow> j < unat (FB_H t) \<Longrightarrow> i < unat (FB_W t) \<Longrightarrow>
       pix t' i j = Some (cell_colour (SELECTED_FONT t) (unat (SCALE t))
          (gcells g' (j div unat (CELL t)) (i div unat (CELL t))) (i mod unat (CELL t)) (j mod unat (CELL t)))"
  shows "shows_grid t'' g'"
proof -
  note d = shows_grid_dims [OF assms(1)]
  note v = same_view_fields [OF assms(2)] and g = term_geom_cell [OF d(1)]
  have "term_geom t''" unfolding assms(7) using d(1) same_view_geom [OF assms(2)] by simp
  moreover have "term_ok t''"
    using d(2) assms(3-6) by (auto simp: term_ok_def v assms(7) word_less_nat_alt word_le_nat_alt)
  ultimately show ?thesis
    unfolding shows_grid_def using assms(3,4,8) g(7,8) by (auto simp: assms(7) v)
qed

lemma div_less_cells: "i < n * k \<Longrightarrow> i div k < n" for i n k :: nat
  by (simp add: less_mult_imp_div_less)

lemma shows_newline:
  assumes "shows_grid t g"
  shows "shows_grid (newline t) (g_newline (unat (rows t)) (BG_COLOR t) g)"
proof -
  note d = shows_grid_dims [OF assms]
  note g = term_geom_cell [OF d(1)]
  let ?K = "unat (CELL t)"
  have inc: "unat (CUR_ROW t + 1) = grow g + 1" using unat_inc [of "CUR_ROW t" "rows t"] d by (simp add: word_less_nat_alt)
  show ?thesis
  proof (cases "unat (rows t) \<le> grow g + 1")
    case True
    let ?u = "t\<lparr>CUR_COL := 0, CUR_ROW := CUR_ROW t + 1\<rparr>"
    have nl: "newline t = (scroll ?u)\<lparr>CUR_COL := 0, CUR_ROW := sat_sub32 (rows t) 1\<rparr>"
      using True inc by (auto simp: newline_def Let_def word_le_nat_alt)
    show ?thesis
    proof (rule shows_gridI [OF assms same_view_scroll _ _ _ _ nl])
      fix i j assume i: "i < unat (cols t) * ?K" "i < unat (FB_W t)" and j: "j < unat (FB_H t)"
      have "pix (scroll ?u) i j = (if j + ?K < unat (FB_H t) then pix t i (j + ?K) else Some (BG_COLOR t))"
        using pix_scroll [of ?u i j] d(1) i j by simp
      moreover have k: "(j + ?K) div ?K = j div ?K + 1" "(j + ?K) mod ?K = j mod ?K"
        using g(1) by (simp_all add: div_add_self2)
      moreover have "j + ?K < unat (FB_H t) \<longleftrightarrow> j div ?K + 1 < unat (rows t)"
        using g(1) div_less_iff_less_mult [of ?K "j + ?K" "unat (rows t)"] by (simp only: g(7) k)
      ultimately show "pix (scroll ?u) i j = Some (cell_colour (SELECTED_FONT t) (unat (SCALE t))
          (gcells (g_newline (unat (rows t)) (BG_COLOR t) g) (j div ?K) (i div ?K)) (i mod ?K) (j mod ?K))"
        using assms i True by (simp add: shows_grid_def g_newline_def g(7))
    qed (use True g d in \<open>auto simp: nl g_newline_def sat_sub_one word_less_nat_alt\<close>)
  next
    case False
    then have "newline t = t\<lparr>CUR_COL := 0, CUR_ROW := CUR_ROW t + 1\<rparr>"
      using inc by (simp add: newline_def Let_def word_le_nat_alt)
    then show ?thesis
      using False inc assms by (intro shows_gridI [OF assms same_view_cursor [OF same_view_refl]]) (auto simp: g_newline_def shows_grid_def g(7))
  qed
qed

lemma shows_advance:
  assumes "shows_grid t g" "gcol g < unat (cols t)"
  shows "shows_grid ((put_cell ch t)\<lparr>CUR_COL := CUR_COL t + 1\<rparr>) (g_advance (ch, FG_COLOR t, BG_COLOR t) g)"
proof -
  note d = shows_grid_dims [OF assms(1)]
  have cl: "CUR_COL t < cols t" "CUR_ROW t < rows t" using d assms(2) by (simp_all add: word_less_nat_alt)
  have eq: "(put_cell ch t)\<lparr>CUR_COL := CUR_COL t + 1\<rparr> = (put_cell ch t)\<lparr>CUR_COL := CUR_COL t + 1, CUR_ROW := CUR_ROW t\<rparr>" by simp
  show ?thesis
  proof (rule shows_gridI [OF assms(1) same_view_cursor [OF same_view_put_cell] _ _ _ _ eq])
    fix i j assume i: "i < unat (cols t) * unat (CELL t)" "i < unat (FB_W t)" and j: "j < unat (FB_H t)"
    show "pix (put_cell ch t) i j = Some (cell_colour (SELECTED_FONT t) (unat (SCALE t))
        (gcells (g_advance (ch, FG_COLOR t, BG_COLOR t) g) (j div unat (CELL t)) (i div unat (CELL t)))
        (i mod unat (CELL t)) (j mod unat (CELL t)))"
      unfolding pix_put_cell [OF d(1) cl i(2) j]
      using assms(1) i j d term_geom_cell(7) [OF d(1)] by (auto simp: g_advance_def g_set_def shows_grid_def)
  qed (use d assms(2) unat_inc [OF cl(1)] in \<open>simp_all add: g_advance_def g_set_def\<close>)
qed

lemma shows_fill:
  assumes "shows_grid t g" "t' = t\<lparr>CUR_COL := a, CUR_ROW := b\<rparr>" "unat a = gcol g'" "unat b = grow g'"
    "gcells g' = gcells g" "grow g' < unat (rows t)" "gcol g' < unat (cols t)"
  shows "shows_grid (fill_rect (a * CELL t) (b * CELL t) (CELL t) (CELL t) (BG_COLOR t) t') (g_set (blank (BG_COLOR t)) g')"
proof -
  note d = shows_grid_dims [OF assms(1)]
  let ?u = "fill_rect (a * CELL t) (b * CELL t) (CELL t) (CELL t) (BG_COLOR t) t'"
  have sv: "same_view (t\<lparr>CUR_COL := a, CUR_ROW := b\<rparr>) ?u" unfolding assms(2) fill_rect_paint by (rule same_view_paint)
  have eq: "?u = ?u\<lparr>CUR_COL := a, CUR_ROW := b\<rparr>" using same_view_fields(4,5) [OF sv] by simp
  show ?thesis
  proof (rule shows_gridI [OF assms(1) sv _ _ _ _ eq])
    fix i j assume i: "i < unat (cols t) * unat (CELL t)" "i < unat (FB_W t)" and j: "j < unat (FB_H t)"
    have "pix ?u i j = (if i div unat (CELL t) = unat a \<and> j div unat (CELL t) = unat b then Some (BG_COLOR t) else pix t i j)"
      using pix_fill_cell [of t' a b i j "BG_COLOR t"] assms(3-7) d(1) i j by (simp add: assms(2))
    then show "pix ?u i j = Some (cell_colour (SELECTED_FONT t) (unat (SCALE t))
        (gcells (g_set (blank (BG_COLOR t)) g') (j div unat (CELL t)) (i div unat (CELL t)))
        (i mod unat (CELL t)) (j mod unat (CELL t)))"
      using assms i j d term_geom_cell(7) [OF d(1)] by (auto simp: g_set_def shows_grid_def)
  qed (use assms(3-7) in \<open>simp_all add: g_set_def assms(2)\<close>)
qed

lemma shows_backspace:
  assumes "shows_grid t g"
  shows "shows_grid (backspace t) (g_backspace (unat (cols t)) (BG_COLOR t) g)"
proof -
  note d = shows_grid_dims [OF assms] and g = term_geom_cell [OF shows_grid_dims(1) [OF assms]]
  have c: "0 < CUR_COL t \<longleftrightarrow> 0 < gcol g" "0 < CUR_ROW t \<longleftrightarrow> 0 < grow g" "0 < cols t"
    using d g by (simp_all add: word_less_nat_alt)
  consider "0 < gcol g" | "gcol g = 0" "0 < grow g" | "gcol g = 0" "grow g = 0" by auto
  then show ?thesis
  proof cases
    case 1
    then have "backspace t = fill_rect ((CUR_COL t - 1) * CELL t) (CUR_ROW t * CELL t) (CELL t) (CELL t) (BG_COLOR t)
      (t\<lparr>CUR_COL := CUR_COL t - 1, CUR_ROW := CUR_ROW t\<rparr>)" using c by (simp add: backspace_def)
    then show ?thesis
      using shows_fill [OF assms refl, of "CUR_COL t - 1" "g\<lparr>gcol := gcol g - 1\<rparr>" "CUR_ROW t"] 1 c d pos_diff_one [of "CUR_COL t"]
      by (simp add: g_backspace_def)
  next
    case 2
    then have "backspace t = fill_rect (sat_sub32 (cols t) 1 * CELL t) ((CUR_ROW t - 1) * CELL t) (CELL t) (CELL t) (BG_COLOR t)
      (t\<lparr>CUR_COL := sat_sub32 (cols t) 1, CUR_ROW := CUR_ROW t - 1\<rparr>)" using c by (simp add: backspace_def cursor_swap)
    then show ?thesis
      using shows_fill [OF assms refl, of "sat_sub32 (cols t) 1" "g\<lparr>grow := grow g - 1, gcol := unat (cols t) - 1\<rparr>" "CUR_ROW t - 1"]
        2 c d g pos_diff_one [of "CUR_ROW t"] sat_sub_one [OF c(3)]
      by (simp add: g_backspace_def)
  next
    case 3
    then have "backspace t = fill_rect (CUR_COL t * CELL t) (CUR_ROW t * CELL t) (CELL t) (CELL t) (BG_COLOR t)
      (t\<lparr>CUR_COL := CUR_COL t, CUR_ROW := CUR_ROW t\<rparr>)" using c by (simp add: backspace_def)
    then show ?thesis
      using shows_fill [OF assms refl, of "CUR_COL t" g "CUR_ROW t"] 3 c d g by (simp add: g_backspace_def)
  qed
qed

lemma shows_tab_loop:
  "shows_grid t g \<Longrightarrow> limit = cols t \<Longrightarrow>
    shows_grid (tab_loop nxt limit t) ((g_advance (0x20, FG_COLOR t, BG_COLOR t) ^^ (min (unat nxt) (unat limit) - gcol g)) g) \<and>
    rows (tab_loop nxt limit t) = rows t \<and> BG_COLOR (tab_loop nxt limit t) = BG_COLOR t"
proof (induction nxt limit t arbitrary: g rule: tab_loop.induct)
  case (1 nxt limit t)
  let ?adv = "g_advance (0x20, FG_COLOR t, BG_COLOR t)"
  note d = shows_grid_dims [OF 1(2)]
  show ?case
  proof (cases "CUR_COL t < nxt \<and> CUR_COL t < limit")
    case True
    then have lt: "gcol g < unat nxt" "gcol g < unat limit" using d(3) by (simp_all add: word_less_nat_alt)
    then have n: "min (unat nxt) (unat limit) - gcol g = Suc (min (unat nxt) (unat limit) - gcol (?adv g))"
      by (simp add: g_advance_def)
    have "shows_grid ((put_cell 0x20 t)\<lparr>CUR_COL := CUR_COL (put_cell 0x20 t) + 1\<rparr>) (?adv g)"
      using shows_advance [OF 1(2)] lt(2) 1(3) by simp
    from 1(1) [OF True refl this] show ?thesis
      using 1(3) True by (simp add: n [unfolded 1(3)] funpow_Suc_right tab_loop.simps [of nxt "cols t" t] Let_def del: funpow.simps)
  next
    case False
    then have "min (unat nxt) (unat limit) - gcol g = 0" using d(3) by (auto simp: word_less_nat_alt)
    moreover have "tab_loop nxt limit t = t" using False by (auto simp: tab_loop.simps [of nxt limit t])
    ultimately show ?thesis using 1(2) by simp
  qed
qed

lemma unat_next_tab:
  assumes "shows_grid t g"
  shows "unat ((CUR_COL t div 4 + 1) * 4) = (gcol g div 4 + 1) * 4"
proof -
  note d = shows_grid_dims [OF assms] and g = term_geom_cell [OF shows_grid_dims(1) [OF assms]]
  have "8 \<le> unat (font_width (SELECTED_FONT t))" by (cases "SELECTED_FONT t"; simp add: font_width_def)
  then have "8 * 1 \<le> unat (CELL t)" unfolding g(3) using g(4) by (intro mult_le_mono) simp_all
  then have "unat (cols t) * 8 \<le> unat (cols t) * unat (CELL t)" by (intro mult_left_mono) simp_all
  from order_trans [OF this g(8)] have "unat (cols t) * 8 < 2 ^ 32" using unat_bound_32 [of "FB_W t"] by simp
  then have lt: "(gcol g div 4 + 1) * 4 < 2 ^ 32" using d(6) by (simp add: div_le_mono)
  have "(CUR_COL t div 4 + 1) * 4 = word_of_nat ((gcol g div 4 + 1) * 4)"
    using d(3) by (simp add: word_arith_nat_div [of "CUR_COL t"])
  then show ?thesis using lt by (simp only: unat_of_nat) simp
qed

lemma newline_colours [simp]: "FG_COLOR (newline t) = FG_COLOR t" "BG_COLOR (newline t) = BG_COLOR t"
  by (simp_all add: newline_def Let_def)

lemma shows_putchar:
  assumes "shows_grid t g"
  shows "shows_grid (putchar ch t) (g_putchar (unat (cols t)) (unat (rows t)) (FG_COLOR t) (BG_COLOR t) ch g)"
proof -
  note d = shows_grid_dims [OF assms] and g = term_geom_cell [OF shows_grid_dims(1) [OF assms]]
  have rd: "READY t" using d(2) by (simp add: term_ok_def)
  have full: "cols t \<le> CUR_COL t \<longleftrightarrow> unat (cols t) \<le> gcol g" using d(3) by (simp add: word_le_nat_alt)
  note nl = shows_newline [OF assms]
  consider "ch = 10" | "ch = 13" | "ch = 9" | "ch = 8 \<or> ch = 0x7F" | "0x20 \<le> ch \<and> ch \<le> 0x7E"
    | "ch \<notin> {10, 13, 9, 8, 0x7F}" "\<not> (0x20 \<le> ch \<and> ch \<le> 0x7E)" by auto
  then show ?thesis
  proof cases
    case 1
    then show ?thesis using nl rd by (simp add: putchar_def g_putchar_def)
  next
    case 2
    then show ?thesis
      using assms rd by (auto simp: putchar_def g_putchar_def shows_grid_def term_ok_def)
  next
    case 3
    let ?n = "(CUR_COL t div 4 + 1) * 4"
    let ?g = "(g_advance (0x20, FG_COLOR t, BG_COLOR t) ^^ (min ((gcol g div 4 + 1) * 4) (unat (cols t)) - gcol g)) g"
    have tl: "shows_grid (tab_loop ?n (cols t) t) ?g" "rows (tab_loop ?n (cols t) t) = rows t"
      "BG_COLOR (tab_loop ?n (cols t) t) = BG_COLOR t"
      using shows_tab_loop [OF assms refl, of ?n] unfolding unat_next_tab [OF assms] by simp_all
    show ?thesis
      using 3 rd tl shows_newline [OF tl(1)] shows_grid_dims(3) [OF tl(1)]
      by (auto simp: putchar_def g_putchar_def g_tab_def Let_def word_le_nat_alt)
  next
    case 4
    then show ?thesis using shows_backspace [OF assms] rd by (auto simp: putchar_def g_putchar_def)
  next
    case 5
    then have ne: "ch \<noteq> 10" "ch \<noteq> 13" "ch \<noteq> 9" "ch \<noteq> 8" "ch \<noteq> 0x7F" by auto
    have gn: "gcol (g_newline (unat (rows t)) (BG_COLOR t) g) = 0" by (simp add: g_newline_def)
    show ?thesis
    proof (cases "unat (cols t) \<le> gcol g")
      case True
      then show ?thesis
        using 5 ne rd full shows_advance [OF nl] gn g(10) by (simp add: putchar_def g_putchar_def Let_def)
    next
      case False
      then show ?thesis
        using 5 ne rd full shows_advance [OF assms] by (simp add: putchar_def g_putchar_def Let_def)
    qed
  next
    case 6
    then show ?thesis using assms by (auto simp: putchar_def g_putchar_def)
  qed
qed

section \<open>Properties\<close>

text \<open>The public operations that draw or change colours, and what they do to the abstract screen.\<close>

datatype console_op = Op_write bytes | Op_colors rgb rgb | Op_clear

fun run_op :: "console_op \<Rightarrow> terminal \<Rightarrow> terminal" where
  "run_op (Op_write bs) t = term_write bs t"
| "run_op (Op_colors fg bg) t = set_colors fg bg t"
| "run_op Op_clear t = term_clear t"

fun grid_op :: "nat \<Rightarrow> nat \<Rightarrow> console_op \<Rightarrow> rgb \<times> rgb \<times> tgrid \<Rightarrow> rgb \<times> rgb \<times> tgrid" where
  "grid_op C R (Op_write bs) (fg, bg, g) = (fg, bg, fold (g_putchar C R fg bg) bs g)"
| "grid_op C R (Op_colors fg' bg') (fg, bg, g) = (fg', bg', g)"
| "grid_op C R Op_clear (fg, bg, g) = (fg, bg, \<lparr>gcol = 0, grow = 0, gcells = \<lambda>_ _. blank bg\<rparr>)"

definition shows_state :: "terminal \<Rightarrow> rgb \<times> rgb \<times> tgrid \<Rightarrow> bool" where
  "shows_state t s \<longleftrightarrow> FG_COLOR t = fst s \<and> BG_COLOR t = fst (snd s) \<and> shows_grid t (snd (snd s))"

lemma tab_loop_colours [simp]:
  "FG_COLOR (tab_loop n l t) = FG_COLOR t \<and> BG_COLOR (tab_loop n l t) = BG_COLOR t \<and>
   cols (tab_loop n l t) = cols t \<and> rows (tab_loop n l t) = rows t"
proof (induction n l t rule: tab_loop.induct)
  case (1 n l t)
  then show ?case by (auto simp: tab_loop.simps [of n l t] Let_def)
qed

lemma putchar_view [simp]: "FG_COLOR (putchar ch t) = FG_COLOR t" "BG_COLOR (putchar ch t) = BG_COLOR t"
  "cols (putchar ch t) = cols t" "rows (putchar ch t) = rows t"
  by (simp_all add: putchar_def backspace_def Let_def same_view_fields [OF same_view_paint] fill_rect_paint)

lemma shows_write:
  "shows_state t (fg, bg, g) \<Longrightarrow>
    shows_state (term_write bs t) (fg, bg, fold (g_putchar (unat (cols t)) (unat (rows t)) fg bg) bs g) \<and>
    cols (term_write bs t) = cols t \<and> rows (term_write bs t) = rows t"
  unfolding term_write_def
proof (induction bs arbitrary: t g)
  case (Cons b bs)
  let ?g = "g_putchar (unat (cols t)) (unat (rows t)) fg bg b g"
  have "shows_state (putchar b t) (fg, bg, ?g)"
    using Cons.prems shows_putchar [of t g b] by (simp add: shows_state_def)
  from Cons.IH [OF this] show ?case by simp
qed simp

lemma term_geom_colours [simp]:
  "term_geom (t\<lparr>FG_COLOR := f, BG_COLOR := b\<rparr>) = term_geom t" "term_geom (t\<lparr>READY := rd\<rparr>) = term_geom t"
  "pix (t\<lparr>FG_COLOR := f, BG_COLOR := b\<rparr>) = pix t"
  "cols (t\<lparr>FG_COLOR := f, BG_COLOR := b\<rparr>) = cols t" "rows (t\<lparr>FG_COLOR := f, BG_COLOR := b\<rparr>) = rows t"
  by (simp_all add: term_geom_def fb_ok_def enabled_def pix_def fb_get_def pixel_addr_def unpack_def cols_def rows_def fun_eq_iff)

lemma shows_clear:
  assumes "term_geom t" "READY t"
  shows "shows_state (term_clear t) (FG_COLOR t, BG_COLOR t, \<lparr>gcol = 0, grow = 0, gcells = \<lambda>_ _. blank (BG_COLOR t)\<rparr>) \<and>
    cols (term_clear t) = cols t \<and> rows (term_clear t) = rows t"
proof -
  note g = term_geom_cell [OF assms(1)] and gd = term_geomD [OF assms(1)]
  let ?u = "fill_rect 0 0 (FB_W t) (FB_H t) (BG_COLOR t) t"
  have sv: "same_view t ?u" by (simp add: fill_rect_paint same_view_paint)
  have tc: "term_clear t = ?u\<lparr>CUR_COL := 0, CUR_ROW := 0\<rparr>" by (simp add: term_clear_def gd(2) fb_clear_def)
  have "pix ?u i j = Some (BG_COLOR t)" if "i < unat (cols t) * unat (CELL t)" "j < unat (rows t) * unat (CELL t)" for i j
  proof -
    have "i < unat (FB_W t)" "j < unat (FB_H t)" using that g(7,8) by simp_all
    then have "(word_of_nat i :: u32) < FB_W t" "(word_of_nat j :: u32) < FB_H t" by (simp_all add: word_less_nat_alt unat_nat32)
    then show ?thesis by (simp add: pix_def get_fill_rect [OF gd(1)] on_screen_def)
  qed
  then show ?thesis
    using assms g same_view_geom [OF sv]
    by (simp add: shows_state_def shows_grid_def tc term_ok_def same_view_fields [OF sv] word_less_nat_alt)
qed

lemma shows_op:
  assumes "shows_state t s"
  shows "shows_state (run_op op t) (grid_op (unat (cols t)) (unat (rows t)) op s) \<and>
    cols (run_op op t) = cols t \<and> rows (run_op op t) = rows t"
proof (cases op)
  case (Op_write bs)
  then show ?thesis using shows_write [of t] assms by (cases s) auto
next
  case (Op_colors fg bg)
  then show ?thesis using assms by (cases s) (auto simp: shows_state_def shows_grid_def set_colors_def term_ok_def)
next
  case Op_clear
  then show ?thesis
    using assms shows_clear [of t] by (cases s) (auto simp: shows_state_def shows_grid_def term_ok_def)
qed

text \<open>A step-wise simulation carries over to sequences of steps; the console is one, for each size of the grid.\<close>

locale simulation =
  fixes related :: "'s \<Rightarrow> 'a \<Rightarrow> bool"
    and step :: "'op \<Rightarrow> 's \<Rightarrow> 's"
    and spec :: "'op \<Rightarrow> 'a \<Rightarrow> 'a"
  assumes sim: "related s a \<Longrightarrow> related (step op s) (spec op a)"
begin

lemma sim_fold: "related s a \<Longrightarrow> related (fold step ops s) (fold spec ops a)"
  by (induction ops arbitrary: s a) (simp_all add: sim)

end

definition shows_sized :: "nat \<Rightarrow> nat \<Rightarrow> terminal \<Rightarrow> rgb \<times> rgb \<times> tgrid \<Rightarrow> bool" where
  "shows_sized C R t s \<longleftrightarrow> shows_state t s \<and> unat (cols t) = C \<and> unat (rows t) = R"

interpretation con: simulation "shows_sized C R" run_op "grid_op C R" for C R
  using shows_op by unfold_locales (auto simp: shows_sized_def)

lemma shows_ops:
  "shows_state t s \<Longrightarrow> shows_state (fold run_op ops t) (fold (grid_op (unat (cols t)) (unat (rows t))) ops s)"
  using con.sim_fold [of "unat (cols t)" "unat (rows t)" t s ops] by (simp add: shows_sized_def)

lemma geom_init:
  assumes "term_geom (apply_font_config cfg t)"
  shows "shows_state (term_init cfg t)
    (FG_COLOR (apply_colors_from_config cfg t), BG_COLOR (apply_colors_from_config cfg t),
     \<lparr>gcol = 0, grow = 0, gcells = \<lambda>_ _. blank (BG_COLOR (apply_colors_from_config cfg t))\<rparr>) \<and>
    cols (term_init cfg t) = cols (apply_font_config cfg t) \<and> rows (term_init cfg t) = rows (apply_font_config cfg t)"
proof -
  let ?u = "apply_colors_from_config cfg (apply_font_config cfg t)"
  let ?v = "?u\<lparr>CUR_COL := 0, CUR_ROW := 0, READY := (FB_W ?u \<noteq> 0 \<and> FB_H ?u \<noteq> 0)\<rparr>"
  have gm: "term_geom ?u" using assms by (simp add: apply_colors_from_config_def Let_def)
  then have "term_geom ?v" by simp
  moreover have "READY ?v" using term_geomD(1) [OF gm] by (simp add: fb_ok_def enabled_def)
  moreover have "cols ?v = cols (apply_font_config cfg t)" "rows ?v = rows (apply_font_config cfg t)"
    by (simp_all add: apply_colors_from_config_def Let_def cols_def rows_def)
  ultimately show ?thesis
    using shows_clear [of ?v] by (simp add: term_init_def Let_def apply_colors_from_config_def)
qed

text \<open>
  C5: The console refines its abstract text screen. From \<open>init\<close> on, whatever sequence of writes (printable characters,
  newlines with scrolling, carriage returns, tabs, backspaces, ignored control bytes), colour changes and clears is
  performed, every pixel of the cell area is the one that font and colours prescribe for the character the abstract
  screen holds at that cell, and the cursor is where the abstract screen has it.
\<close>

theorem console_refines_text_screen:
  assumes "term_geom (apply_font_config cfg t)"
  shows "shows_state (fold run_op ops (term_init cfg t))
    (fold (grid_op (unat (cols (apply_font_config cfg t))) (unat (rows (apply_font_config cfg t)))) ops
      (FG_COLOR (apply_colors_from_config cfg t), BG_COLOR (apply_colors_from_config cfg t),
       \<lparr>gcol = 0, grow = 0, gcells = \<lambda>_ _. blank (BG_COLOR (apply_colors_from_config cfg t))\<rparr>))"
  using shows_ops geom_init [OF assms] by metis

definition demo_terminal :: terminal where
  "demo_terminal = \<lparr>FB_BASE = 0x80000000, FB_W = 68, FB_H = 48, FB_STRIDE = 128, FB_FMT = 1, vram = (\<lambda>_. 0),
     SCALE = 2, CELL = 16, SELECTED_FONT = Compact, CUR_COL = 0, CUR_ROW = 0, FG_COLOR = FG, BG_COLOR = BG,
     READY = False, GLASS_MODE = 0\<rparr>"

lemma demo_terminal_geom: "term_geom (apply_font_config config_default demo_terminal)"
  "unat (cols (apply_font_config config_default demo_terminal)) = 8"
  "unat (rows (apply_font_config config_default demo_terminal)) = 6"
  by (simp_all add: term_geom_def apply_font_config_def config_default_def configured_font_def clamp32_def font_width_def
      font_height_def demo_terminal_def fb_ok_def enabled_def cols_def rows_def Let_def)

lemma demo_terminal_colours: "FG_COLOR (apply_colors_from_config config_default demo_terminal) = (255, 255, 255)"
  "BG_COLOR (apply_colors_from_config config_default demo_terminal) = (0, 0, 0)"
  by (simp_all add: apply_colors_from_config_def config_default_def colors_default_def)

lemma funpow_advance: "gcol ((g_advance c ^^ n) g) = gcol g + n" "grow ((g_advance c ^^ n) g) = grow g"
  by (induction n) (simp_all add: g_advance_def g_set_def)

theorem console_refines_text_screen_witness:
  "shows_state (fold run_op [Op_colors FG BG, Op_write [65, 10, 9, 66]] (term_init config_default demo_terminal))
    (FG, BG, g_advance (66, FG, BG) ((g_advance (0x20, FG, BG) ^^ 4)
      (g_advance (65, FG, BG) \<lparr>gcol = 0, grow = 0, gcells = \<lambda>_ _. blank (0, 0, 0)\<rparr>\<lparr>gcol := 0, grow := 1\<rparr>)))"
  using console_refines_text_screen [OF demo_terminal_geom(1), of "[Op_colors FG BG, Op_write [65, 10, 9, 66]]"]
  by (simp add: demo_terminal_geom demo_terminal_colours g_putchar_def g_tab_def g_newline_def funpow_advance Let_def)
    (simp add: g_advance_def g_set_def)

text \<open>
  The states a booted console can be in: any configuration, font, scale and glass level, any output, and
  re-initialisation at any time. (\<open>set_cursor\<close> stores its arguments unchecked and is left out.)
\<close>

inductive term_reach :: "terminal \<Rightarrow> terminal \<Rightarrow> bool" for t0 where
  reach_boot: "term_reach t0 (term_init cfg t0)"
| reach_reinit: "term_reach t0 t \<Longrightarrow> term_reach t0 (term_init cfg t)"
| reach_write: "term_reach t0 t \<Longrightarrow> term_reach t0 (term_write bs t)"
| reach_clear: "term_reach t0 t \<Longrightarrow> term_reach t0 (term_clear t)"
| reach_colors: "term_reach t0 t \<Longrightarrow> term_reach t0 (set_colors fg bg t)"
| reach_alpha: "term_reach t0 t \<Longrightarrow> term_reach t0 (set_terminal_alpha cfg level t)"

lemma clear_fields:
  "FB_W (term_clear t) = FB_W t" "FB_H (term_clear t) = FB_H t" "CELL (term_clear t) = CELL t" "READY (term_clear t) = READY t"
  "cols (term_clear t) = cols t" "rows (term_clear t) = rows t" "CUR_COL (term_clear t) = 0" "CUR_ROW (term_clear t) = 0"
proof -
  let ?u = "if GLASS_MODE t > 0 then frost 0 0 (FB_W t) (FB_H t) (clear_alpha (GLASS_MODE t)) t else fb_clear (BG_COLOR t) t"
  have "same_view t ?u" by (simp add: same_view_frost fb_clear_def fill_rect_paint same_view_paint)
  note v = same_view_fields [OF this]
  show "FB_W (term_clear t) = FB_W t" "FB_H (term_clear t) = FB_H t" "CELL (term_clear t) = CELL t" "READY (term_clear t) = READY t"
    "cols (term_clear t) = cols t" "rows (term_clear t) = rows t" "CUR_COL (term_clear t) = 0" "CUR_ROW (term_clear t) = 0"
    unfolding term_clear_def Let_def using v by simp_all
qed

lemma term_ok_clear: "term_ok t \<Longrightarrow> term_ok (term_clear t)"
  by (simp add: term_ok_def clear_fields)

lemma term_ok_init:
  assumes "40 \<le> FB_W t" "40 \<le> FB_H t"
  shows "term_ok (term_init cfg t)" "FB_W (term_init cfg t) = FB_W t" "FB_H (term_init cfg t) = FB_H t"
proof -
  let ?f = "configured_font (selected_font cfg)" and ?s = "clamp32 (font_scale cfg) 1 4"
  have s: "1 \<le> unat ?s" "unat ?s \<le> 4" by (auto simp: clamp32_def word_less_nat_alt)
  have f: "8 \<le> unat (font_width ?f)" "unat (font_width ?f) \<le> 10" by (cases ?f; simp add: font_width_def)+
  have m: "8 * 1 \<le> unat (font_width ?f) * unat ?s" "unat (font_width ?f) * unat ?s \<le> 10 * 4"
    by (rule mult_le_mono [OF f(1) s(1)], rule mult_le_mono [OF f(2) s(2)])
  then have u: "unat (font_width ?f * ?s) = unat (font_width ?f) * unat ?s" by (subst unat_mult_lem [THEN iffD1]) simp_all
  have wh: "unat (font_width ?f * ?s) \<le> unat (FB_W t)" "unat (font_width ?f * ?s) \<le> unat (FB_H t)"
    unfolding u using m assms by (simp_all add: word_le_nat_alt)
  have k: "0 < unat (font_width ?f * ?s)" unfolding u using m(1) by linarith
  have nz: "FB_W t \<noteq> 0" "FB_H t \<noteq> 0" using assms by auto
  have "0 < unat (FB_W t div (font_width ?f * ?s))" "0 < unat (FB_H t div (font_width ?f * ?s))"
    using wh k by (simp_all add: unat_div div_greater_zero_iff)
  then have "0 < FB_W t div (font_width ?f * ?s)" "0 < FB_H t div (font_width ?f * ?s)" by (simp_all add: word_less_nat_alt)
  then show "term_ok (term_init cfg t)" "FB_W (term_init cfg t) = FB_W t" "FB_H (term_init cfg t) = FB_H t"
    using k nz
    by (simp_all add: term_init_def Let_def term_ok_def clear_fields apply_font_config_def apply_colors_from_config_def
        cols_def rows_def word_less_nat_alt [of 0 "_ * _"])
qed

lemma putchar_screen: "FB_W (putchar ch t) = FB_W t \<and> FB_H (putchar ch t) = FB_H t"
proof -
  have tl: "FB_W (tab_loop n l t) = FB_W t \<and> FB_H (tab_loop n l t) = FB_H t" for n l t
  proof (induction n l t rule: tab_loop.induct)
    case (1 n l t)
    then show ?case by (auto simp: tab_loop.simps [of n l t] Let_def)
  qed
  have nl: "FB_W (newline t) = FB_W t \<and> FB_H (newline t) = FB_H t" for t by (simp add: newline_def Let_def)
  show ?thesis
    by (simp add: putchar_def Let_def nl tl backspace_def same_view_fields [OF same_view_paint] fill_rect_paint)
qed

lemma write_screen: "FB_W (term_write bs t) = FB_W t" "FB_H (term_write bs t) = FB_H t"
  unfolding term_write_def by (induction bs arbitrary: t) (simp_all add: putchar_screen)

lemma term_reach_ok:
  assumes "40 \<le> FB_W t0" "40 \<le> FB_H t0"
  shows "term_reach t0 t \<Longrightarrow> term_ok t \<and> FB_W t = FB_W t0 \<and> FB_H t = FB_H t0"
proof (induction rule: term_reach.induct)
  case (reach_boot cfg)
  then show ?case using term_ok_init [OF assms] by simp
next
  case (reach_reinit t cfg)
  then show ?case using term_ok_init [of t cfg] assms by simp
next
  case (reach_write t bs)
  then show ?case using term_ok_write [of t bs] by (simp add: write_screen)
next
  case (reach_clear t)
  then show ?case by (simp add: term_ok_clear clear_fields)
next
  case (reach_colors t fg bg)
  then show ?case by (simp add: set_colors_def term_ok_def)
next
  case (reach_alpha t cfg level)
  then show ?case
    by (auto simp: set_terminal_alpha_def set_glass_mode_def apply_colors_from_config_def Let_def term_ok_def cols_def rows_def
        split: if_splits)
qed

text \<open>
  The cursor never leaves the grid. On a screen of at least 40 by 40 pixels, in every state a booted console can
  reach, with any font, scale, glass level and output, the cursor row is a row of the grid, the column is at most one
  past the last, and the cell rectangle at the cursor row lies on the screen.
\<close>

theorem console_cursor_in_grid:
  assumes "40 \<le> FB_W t0" "40 \<le> FB_H t0" "term_reach t0 t"
  shows "CUR_ROW t < rows t \<and> CUR_COL t \<le> cols t \<and> 0 < cols t \<and>
    unat (CUR_ROW t) * unat (CELL t) + unat (CELL t) \<le> unat (FB_H t)"
proof -
  have ok: "term_ok t" using term_reach_ok [OF assms(1,2)] assms(3) by blast
  have "unat (rows t) * unat (CELL t) \<le> unat (FB_H t)" by (simp add: rows_def unat_div)
  moreover have "Suc (unat (CUR_ROW t)) * unat (CELL t) \<le> unat (rows t) * unat (CELL t)"
    using ok by (intro mult_right_mono) (simp_all add: term_ok_def word_less_nat_alt)
  ultimately show ?thesis using ok by (simp add: term_ok_def)
qed

theorem console_cursor_in_grid_witness:
  "CUR_ROW (term_write (replicate 500 10) (set_terminal_alpha config_default 9 (term_init config_default demo_terminal))) <
   rows (term_write (replicate 500 10) (set_terminal_alpha config_default 9 (term_init config_default demo_terminal)))"
proof -
  have "term_reach demo_terminal (term_write (replicate 500 10) (set_terminal_alpha config_default 9 (term_init config_default demo_terminal)))"
    by (intro reach_write reach_alpha reach_boot)
  moreover have "40 \<le> FB_W demo_terminal" "40 \<le> FB_H demo_terminal" by (simp_all add: demo_terminal_def)
  ultimately show ?thesis using console_cursor_in_grid by blast
qed

end
