(* ===== verification/Graphics.thy ===== *)
theory Graphics
  imports Syscall Terminal
begin

text \<open>
  The drawing primitives of \<open>src/kernel/src/graphics.rs\<close>, and the display as the kernel drives it: the events that
  system calls append to the console are performed on the terminal and the framebuffer. Signed 32-bit variables are
  integers kept in range by \<open>i32\<close>; the loops of \<open>draw_line\<close> and \<open>draw_circle\<close> may not end, so they return an option
  whose \<open>None\<close> is running forever.
\<close>

section \<open>Screen and primitives\<close>

record screen_info =
  si_width :: u32
  si_height :: u32
  si_stride :: u32
  si_format :: u32

definition get_screen_info :: "'a fbuf_scheme \<Rightarrow> screen_info" where
  "get_screen_info s = \<lparr>si_width = FB_W s, si_height = FB_H s, si_stride = FB_STRIDE s, si_format = 0\<rparr>"

definition is_resolution_supported :: "u32 \<Rightarrow> u32 \<Rightarrow> 'a fbuf_scheme \<Rightarrow> bool" where
  "is_resolution_supported w h s \<longleftrightarrow> si_width (get_screen_info s) \<ge> w \<and> si_height (get_screen_info s) \<ge> h"

definition calculate_font_scale :: "'a fbuf_scheme \<Rightarrow> u32" where
  "calculate_font_scale s =
     (let info = get_screen_info s
      in if si_width info \<ge> 1920 \<and> si_height info \<ge> 1080 then 2
      else if si_width info \<ge> 1366 \<and> si_height info \<ge> 768 then 1
      else if si_width info \<ge> 1024 \<and> si_height info \<ge> 768 then 1
      else 1)"

definition draw_pixel :: "u32 \<Rightarrow> u32 \<Rightarrow> rgb \<Rightarrow> 'a fbuf_scheme \<Rightarrow> 'a fbuf_scheme" where
  "draw_pixel x y c s = fb_put x y c s"

definition abs_diff :: "u32 \<Rightarrow> u32 \<Rightarrow> u32" where
  "abs_diff a b = (if b > a then b - a else a - b)"

definition step_sign :: "u32 \<Rightarrow> u32 \<Rightarrow> int" where
  "step_sign a b = (if a < b then 1 else - 1)"

text \<open>Division of \<open>i32\<close> by two truncates towards zero.\<close>

definition half_i32 :: "int \<Rightarrow> int" where
  "half_i32 z = (if z \<ge> 0 then z div 2 else - ((- z) div 2))"

partial_function (option) draw_line_loop ::
  "int \<Rightarrow> int \<Rightarrow> int \<Rightarrow> int \<Rightarrow> int \<Rightarrow> int \<Rightarrow> rgb \<Rightarrow> int \<Rightarrow> int \<Rightarrow> int \<Rightarrow> 'a fbuf_scheme \<Rightarrow> 'a fbuf_scheme option" where
  "draw_line_loop x2 y2 dx dy sx sy c x y err s =
     (let s = fb_put (word_of_int x) (word_of_int y) c s
      in if x = x2 \<and> y = y2 then Some s
      else
        let e2 = err;
            xe = (if e2 > i32 (- dx) then (i32 (x + sx), i32 (err - dy)) else (x, err));
            ye = (if e2 < dy then (i32 (y + sy), i32 (snd xe + dx)) else (y, snd xe))
        in draw_line_loop x2 y2 dx dy sx sy c (fst xe) (fst ye) (snd ye) s)"

definition draw_line :: "u32 \<Rightarrow> u32 \<Rightarrow> u32 \<Rightarrow> u32 \<Rightarrow> rgb \<Rightarrow> 'a fbuf_scheme \<Rightarrow> 'a fbuf_scheme option" where
  "draw_line x1 y1 x2 y2 c s =
     (let dx = abs_diff x1 x2; dy = abs_diff y1 y2;
          err = half_i32 (if dx > dy then as_i32 dx else i32 (- as_i32 dy))
      in draw_line_loop (as_i32 x2) (as_i32 y2) (as_i32 dx) (as_i32 dy) (step_sign x1 x2) (step_sign y1 y2) c
           (as_i32 x1) (as_i32 y1) err s)"

definition draw_rect :: "u32 \<Rightarrow> u32 \<Rightarrow> u32 \<Rightarrow> u32 \<Rightarrow> rgb \<Rightarrow> bool \<Rightarrow> 'a fbuf_scheme \<Rightarrow> 'a fbuf_scheme" where
  "draw_rect x y w h c fill s =
     (if fill then fill_rect x y w h c s
      else
        let s = fold (\<lambda>i s. fb_put (x + word_of_nat i) (y + h - 1) c (fb_put (x + word_of_nat i) y c s)) [0..<unat w] s
        in fold (\<lambda>i s. fb_put (x + w - 1) (y + word_of_nat i) c (fb_put x (y + word_of_nat i) c s)) [0..<unat h] s)"

text \<open>One turn of \<open>draw_circle\<close>'s loop: the pixels it sets around the centre, in order.\<close>

definition pt :: "int \<Rightarrow> int \<Rightarrow> u32 \<times> u32" where
  "pt a b = (word_of_int a, word_of_int b)"

definition circle_pixels :: "int \<Rightarrow> int \<Rightarrow> int \<Rightarrow> int \<Rightarrow> bool \<Rightarrow> (u32 \<times> u32) list" where
  "circle_pixels x y x0 y0 fill =
     (if fill then
        concat (map (\<lambda>fx. [pt fx (i32 (y - y0)), pt fx (i32 (y + y0))]) [i32 (x - x0)..i32 (x + x0)]) @
        concat (map (\<lambda>fx. [pt fx (i32 (y - x0)), pt fx (i32 (y + x0))]) [i32 (x - y0)..i32 (x + y0)])
      else
        [pt (i32 (x + x0)) (i32 (y - y0)), pt (i32 (x - x0)) (i32 (y - y0)),
         pt (i32 (x + x0)) (i32 (y + y0)), pt (i32 (x - x0)) (i32 (y + y0)),
         pt (i32 (x + y0)) (i32 (y - x0)), pt (i32 (x - y0)) (i32 (y - x0)),
         pt (i32 (x + y0)) (i32 (y + x0)), pt (i32 (x - y0)) (i32 (y + x0))])"

partial_function (option) draw_circle_loop ::
  "int \<Rightarrow> int \<Rightarrow> rgb \<Rightarrow> bool \<Rightarrow> int \<Rightarrow> int \<Rightarrow> int \<Rightarrow> 'a fbuf_scheme \<Rightarrow> 'a fbuf_scheme option" where
  "draw_circle_loop x y c fill x0 y0 d s =
     (if y0 \<ge> x0 then
        let s = fold (\<lambda>(px, py). fb_put px py c) (circle_pixels x y x0 y0 fill) s;
            x0 = i32 (x0 + 1);
            yd = (if d > 0 then (i32 (y0 - 1), i32 (d - i32 (4 * i32 (y0 - 1)))) else (y0, d));
            d = i32 (snd yd + i32 (i32 (4 * x0) + 2))
        in draw_circle_loop x y c fill x0 (fst yd) d s
      else Some s)"

definition draw_circle :: "u32 \<Rightarrow> u32 \<Rightarrow> u32 \<Rightarrow> rgb \<Rightarrow> bool \<Rightarrow> 'a fbuf_scheme \<Rightarrow> 'a fbuf_scheme option" where
  "draw_circle x y radius c fill s =
     draw_circle_loop (as_i32 x) (as_i32 y) c fill 0 (as_i32 radius) (i32 (3 - i32 (2 * as_i32 radius))) s"

definition clear_screen :: "rgb \<Rightarrow> 'a fbuf_scheme \<Rightarrow> 'a fbuf_scheme" where
  "clear_screen c s = fb_clear c s"

definition lower_ascii :: "u8 \<Rightarrow> u8" where
  "lower_ascii b = (if 0x41 \<le> b \<and> b \<le> 0x5A then b + 0x20 else b)"

definition eq_ignore_case :: "bytes \<Rightarrow> bytes \<Rightarrow> bool" where
  "eq_ignore_case a b \<longleftrightarrow> length a = length b \<and> list_all (\<lambda>(x, y). lower_ascii x = lower_ascii y) (zip a b)"

definition color_from_name :: "bytes \<Rightarrow> rgb option" where
  "color_from_name name =
     (if eq_ignore_case name (bytes_of ''black'') then Some (0, 0, 0)
      else if eq_ignore_case name (bytes_of ''white'') then Some (255, 255, 255)
      else if eq_ignore_case name (bytes_of ''red'') then Some (255, 0, 0)
      else if eq_ignore_case name (bytes_of ''green'') then Some (0, 255, 0)
      else if eq_ignore_case name (bytes_of ''blue'') then Some (0, 0, 255)
      else if eq_ignore_case name (bytes_of ''yellow'') then Some (255, 255, 0)
      else if eq_ignore_case name (bytes_of ''cyan'') then Some (0, 255, 255)
      else if eq_ignore_case name (bytes_of ''magenta'') then Some (255, 0, 255)
      else if eq_ignore_case name (bytes_of ''gray'') \<or> eq_ignore_case name (bytes_of ''grey'') then Some (128, 128, 128)
      else if eq_ignore_case name (bytes_of ''orange'') then Some (255, 165, 0)
      else if eq_ignore_case name (bytes_of ''purple'') then Some (128, 0, 128)
      else if eq_ignore_case name (bytes_of ''pink'') then Some (255, 192, 203)
      else if eq_ignore_case name (bytes_of ''brown'') then Some (165, 42, 42)
      else None)"

section \<open>Lines\<close>

text \<open>
  The reference line: one pixel per step \<open>k\<close> along the longer axis \<open>n\<close>, at the offset along the shorter axis \<open>m\<close>
  that is nearest to \<open>k m / n\<close>.
\<close>

definition line_step :: "int \<Rightarrow> int \<Rightarrow> int \<Rightarrow> int" where
  "line_step n m k = (k * m + (n - 1 - n div 2)) div n"

definition line_points :: "u32 \<Rightarrow> u32 \<Rightarrow> u32 \<Rightarrow> u32 \<Rightarrow> (u32 \<times> u32) list" where
  "line_points x1 y1 x2 y2 =
     (let dx = uint (abs_diff x1 x2); dy = uint (abs_diff y1 y2); sx = step_sign x1 x2; sy = step_sign y1 y2
      in if dx > dy then map (\<lambda>k. pt (uint x1 + sx * k) (uint y1 + sy * line_step dx dy k)) [0..dx]
         else map (\<lambda>k. pt (uint x1 + sx * line_step dy dx k) (uint y1 + sy * k)) [0..dy])"

definition line_err :: "int \<Rightarrow> int \<Rightarrow> int \<Rightarrow> int" where
  "line_err n m k = n div 2 - k * m + line_step n m k * n"

lemma line_err_range: "0 < n \<Longrightarrow> 0 \<le> line_err n m k \<and> line_err n m k < n"
proof -
  assume n: "0 < n"
  let ?N = "k * m + (n - 1 - n div 2)"
  have "?N div n * n \<le> ?N" "?N < ?N div n * n + n"
    using n by (simp_all add: int_div_pos_eq minus_mod_eq_div_mult [symmetric] div_mult_mod_eq)
  then show ?thesis by (simp add: line_err_def line_step_def)
qed

lemma line_step_nearest: "0 < n \<Longrightarrow> 2 * \<bar>line_step n m k * n - k * m\<bar> \<le> n"
proof -
  assume "0 < n"
  define a where "a = line_step n m k * n - k * m"
  have "0 \<le> n div 2 + a" "n div 2 + a < n"
    using line_err_range [OF \<open>0 < n\<close>, of m k] by (simp_all add: line_err_def a_def)
  then show ?thesis unfolding a_def [symmetric] by arith
qed

lemma line_step_unique: "0 < n \<Longrightarrow> 0 \<le> n div 2 - k * m + q * n \<Longrightarrow> n div 2 - k * m + q * n < n \<Longrightarrow> line_step n m k = q"
  unfolding line_step_def by (intro int_div_pos_eq [of _ _ _ "k * m + (n - 1 - n div 2) - n * q"]) (simp_all add: algebra_simps)

lemma line_step_next:
  assumes "0 < n" "0 \<le> m" "m \<le> n"
  shows "line_step n m (k + 1) = (if line_err n m k < m then line_step n m k + 1 else line_step n m k)"
    "line_err n m (k + 1) = (if line_err n m k < m then line_err n m k - m + n else line_err n m k - m)"
proof -
  show "line_step n m (k + 1) = (if line_err n m k < m then line_step n m k + 1 else line_step n m k)"
    using line_err_range [OF assms(1), of m k] assms
    by (intro line_step_unique) (auto simp: line_err_def algebra_simps split: if_splits)
  then show "line_err n m (k + 1) = (if line_err n m k < m then line_err n m k - m + n else line_err n m k - m)"
    by (simp add: line_err_def algebra_simps)
qed

lemma line_step_ends: "0 < n \<Longrightarrow> line_step n m 0 = 0" "0 < n \<Longrightarrow> line_step n m n = m"
  by (intro line_step_unique; simp add: algebra_simps)+

lemma line_step_mono: "0 < n \<Longrightarrow> 0 \<le> m \<Longrightarrow> k \<le> k' \<Longrightarrow> line_step n m k \<le> line_step n m k'"
  unfolding line_step_def by (intro zdiv_mono1 add_right_mono mult_right_mono)

lemma line_step_range:
  "0 < n \<Longrightarrow> 0 \<le> m \<Longrightarrow> 0 \<le> k \<Longrightarrow> k \<le> n \<Longrightarrow> 0 \<le> line_step n m k \<and> line_step n m k \<le> m"
  using line_step_mono [of n m 0 k] line_step_mono [of n m k n] by (simp add: line_step_ends)

lemma paint_Cons: "paint ((x, y) # ps) c s = paint ps c (fb_put x y c s)"
  by (simp add: paint_def)

lemma upto_step: "i < j \<Longrightarrow> [i..j] = i # [i + 1..j]" for i j :: int
  by (simp add: upto_rec1)

text \<open>Along the horizontal axis the error term is \<open>line_err\<close>, along the vertical axis its negation.\<close>

lemma line_loop_x:
  assumes "0 \<le> dy" "dy < dx" "dx < 2 ^ 30" "sx \<in> {1, - 1}" "sy \<in> {1, - 1}" "0 \<le> x1" "x1 < 2 ^ 30" "0 \<le> y1" "y1 < 2 ^ 30"
    "0 \<le> k" "k \<le> dx"
  shows "draw_line_loop (x1 + sx * dx) (y1 + sy * dy) dx dy sx sy c (x1 + sx * k) (y1 + sy * line_step dx dy k) (line_err dx dy k) s =
    Some (paint (map (\<lambda>k. pt (x1 + sx * k) (y1 + sy * line_step dx dy k)) [k..dx]) c s)"
  using assms(10,11)
proof (induction "nat (dx - k)" arbitrary: k s)
  case 0
  then have "k = dx" by simp
  then show ?case using assms(1,2) by (subst draw_line_loop.simps) (simp add: line_step_ends pt_def paint_def)
next
  case (Suc n)
  let ?q = "line_step dx dy k" and ?e = "line_err dx dy k"
  let ?s = "fb_put (word_of_int (x1 + sx * k)) (word_of_int (y1 + sy * ?q)) c s"
  from Suc have k: "k < dx" "0 \<le> k" "n = nat (dx - (k + 1))" by auto
  have e: "0 \<le> ?e" "?e < dx" using line_err_range [of dx dy k] assms(1,2) by auto
  have q: "0 \<le> ?q" "?q \<le> dy" using line_step_range [of dx dy k] assms(1,2) k by auto
  have nx: "x1 + sx * k \<noteq> x1 + sx * dx" using k assms(4) by auto
  note nxt = line_step_next [of dx dy k]
  have sx: "i32 (x1 + sx * k + sx) = x1 + sx * (k + 1)" using assms(3,4,6,7) k by (auto simp: algebra_simps)
  have sy: "i32 (y1 + sy * ?q + sy) = y1 + sy * (?q + 1)" using assms(2,3,5,8,9) q by (auto simp: algebra_simps)
  have er: "i32 (- dx) = - dx" "i32 (?e - dy) = ?e - dy" "i32 (?e - dy + dx) = ?e - dy + dx" using e assms(1-3) by auto
  have "draw_line_loop (x1 + sx * dx) (y1 + sy * dy) dx dy sx sy c (x1 + sx * k) (y1 + sy * ?q) ?e s =
    draw_line_loop (x1 + sx * dx) (y1 + sy * dy) dx dy sx sy c (x1 + sx * (k + 1)) (y1 + sy * line_step dx dy (k + 1)) (line_err dx dy (k + 1)) ?s"
    using nx e assms(1,2) by (subst draw_line_loop.simps) (simp add: Let_def sx sy er nxt)
  also have "\<dots> = Some (paint (map (\<lambda>k. pt (x1 + sx * k) (y1 + sy * line_step dx dy k)) [k + 1..dx]) c ?s)"
    by (rule Suc.hyps(1)) (use k in auto)
  finally show ?case using k(1) by (simp only: upto_step list.map pt_def paint_Cons)
qed

lemma line_loop_y:
  assumes "0 \<le> dx" "dx \<le> dy" "0 < dy" "dy < 2 ^ 30" "sx \<in> {1, - 1}" "sy \<in> {1, - 1}" "0 \<le> x1" "x1 < 2 ^ 30" "0 \<le> y1" "y1 < 2 ^ 30"
    "0 \<le> k" "k \<le> dy"
  shows "draw_line_loop (x1 + sx * dx) (y1 + sy * dy) dx dy sx sy c (x1 + sx * line_step dy dx k) (y1 + sy * k) (- line_err dy dx k) s =
    Some (paint (map (\<lambda>k. pt (x1 + sx * line_step dy dx k) (y1 + sy * k)) [k..dy]) c s)"
  using assms(11,12)
proof (induction "nat (dy - k)" arbitrary: k s)
  case 0
  then have "k = dy" by simp
  then show ?case using assms(3) by (subst draw_line_loop.simps) (simp add: line_step_ends pt_def paint_def)
next
  case (Suc n)
  let ?q = "line_step dy dx k" and ?e = "line_err dy dx k"
  let ?s = "fb_put (word_of_int (x1 + sx * ?q)) (word_of_int (y1 + sy * k)) c s"
  from Suc have k: "k < dy" "0 \<le> k" "n = nat (dy - (k + 1))" by auto
  have e: "0 \<le> ?e" "?e < dy" using line_err_range [of dy dx k] assms(3) by auto
  have q: "0 \<le> ?q" "?q \<le> dx" using line_step_range [of dy dx k] assms(1,3) k by auto
  have nx: "y1 + sy * k \<noteq> y1 + sy * dy" using k assms(6) by auto
  note nxt = line_step_next [of dy dx k]
  have sy: "i32 (y1 + sy * k + sy) = y1 + sy * (k + 1)" using assms(4,6,9,10) k by (auto simp: algebra_simps)
  have sx: "i32 (x1 + sx * ?q + sx) = x1 + sx * (?q + 1)" using assms(2,4,5,7,8) q by (auto simp: algebra_simps)
  have er: "i32 (- dx) = - dx" "i32 (- ?e - dy) = - ?e - dy" "i32 (- ?e - dy + dx) = dx - ?e - dy" "i32 (dx - ?e) = dx - ?e"
    using e assms(1-4) by auto
  have "draw_line_loop (x1 + sx * dx) (y1 + sy * dy) dx dy sx sy c (x1 + sx * ?q) (y1 + sy * k) (- ?e) s =
    draw_line_loop (x1 + sx * dx) (y1 + sy * dy) dx dy sx sy c (x1 + sx * line_step dy dx (k + 1)) (y1 + sy * (k + 1)) (- line_err dy dx (k + 1)) ?s"
    using nx e assms(1-3) by (subst draw_line_loop.simps) (simp add: Let_def sx sy er nxt)
  also have "\<dots> = Some (paint (map (\<lambda>k. pt (x1 + sx * line_step dy dx k) (y1 + sy * k)) [k + 1..dy]) c ?s)"
    by (rule Suc.hyps(1)) (use k in auto)
  finally show ?case using k(1) by (simp only: upto_step list.map pt_def paint_Cons)
qed

lemma abs_diff_props:
  assumes "a < 0x40000000" "b < 0x40000000"
  shows "abs_diff a b < 0x40000000" "uint b = uint a + step_sign a b * uint (abs_diff a b)" "step_sign a b \<in> {1, - 1}"
proof -
  have "uint (b - a) = uint b - uint a" if "a < b" using that by (simp add: uint_sub_if' word_less_def)
  moreover have "uint (a - b) = uint a - uint b" if "\<not> a < b" using that by (simp add: uint_sub_if' word_less_def)
  ultimately show d: "uint b = uint a + step_sign a b * uint (abs_diff a b)"
    by (auto simp: abs_diff_def step_sign_def)
  have "uint (abs_diff a b) = (if a < b then uint b - uint a else uint a - uint b)"
    using d by (auto simp: step_sign_def)
  moreover have "uint b - uint a < 1073741824" "uint a - uint b < 1073741824"
    using uint_small [OF assms(1)] uint_small [OF assms(2)] uint_ge_0 [of a] uint_ge_0 [of b] by linarith+
  ultimately have "uint (abs_diff a b) < 1073741824" by simp
  then show "abs_diff a b < 0x40000000" by (simp add: word_less_def)
  show "step_sign a b \<in> {1, - 1}" by (simp add: step_sign_def)
qed

lemma draw_line_points:
  assumes "x1 < 0x40000000" "y1 < 0x40000000" "x2 < 0x40000000" "y2 < 0x40000000"
  shows "draw_line x1 y1 x2 y2 c s = Some (paint (line_points x1 y1 x2 y2) c s)"
proof -
  note x = abs_diff_props [OF assms(1,3)] and y = abs_diff_props [OF assms(2,4)]
  let ?dx = "uint (abs_diff x1 x2)" and ?dy = "uint (abs_diff y1 y2)"
  note b = uint_small [OF assms(1)] uint_small [OF assms(2)] uint_small [OF x(1)] uint_small [OF y(1)]
  note i = as_i32_small [OF assms(1)] as_i32_small [OF assms(2)] as_i32_small [OF assms(3)] as_i32_small [OF assms(4)]
    as_i32_small [OF x(1)] as_i32_small [OF y(1)]
  consider "?dy < ?dx" | "?dx \<le> ?dy" "0 < ?dy" | "?dx = 0" "?dy = 0"
    using uint_ge_0 [of "abs_diff x1 x2"] uint_ge_0 [of "abs_diff y1 y2"] by linarith
  then show ?thesis
  proof cases
    case 1
    then have n: "0 < ?dx" using uint_ge_0 [of "abs_diff y1 y2"] by linarith
    show ?thesis
      using 1 n line_loop_x [of ?dy ?dx "step_sign x1 x2" "step_sign y1 y2" "uint x1" "uint y1" 0 c s] b x(3) y(3)
      by (simp add: draw_line_def line_points_def Let_def i x(2) y(2) word_less_def half_i32_def line_step_ends line_err_def)
  next
    case 2
    have "i32 (- ?dy) = - ?dy" using b(4) uint_ge_0 [of "abs_diff y1 y2"] by (intro i32_idI) linarith+
    then show ?thesis
      using 2 line_loop_y [of ?dx ?dy "step_sign x1 x2" "step_sign y1 y2" "uint x1" "uint y1" 0 c s] b x(3) y(3)
      by (simp add: draw_line_def line_points_def Let_def i x(2) y(2) word_less_def half_i32_def line_step_ends line_err_def)
  next
    case 3
    then show ?thesis
      by (simp add: draw_line_def line_points_def Let_def i x(2) y(2) draw_line_loop.simps line_step_def pt_def paint_def)
  qed
qed

text \<open>
  Coordinates are not limited to the screen. At a horizontal distance of \<open>2\<^sup>3\<^sup>1\<close> the error term settles at \<open>2\<^sup>3\<^sup>0\<close> after
  the first step has left the row, and the loop steps along that row forever.
\<close>


lemma draw_line_loop_stuck:
  assumes "draw_line_loop x2 y2 dx dy sx sy c x y err s = Some s'"
  shows "\<not> (dx = - (2 ^ 31) \<and> dy = 0 \<and> err = 2 ^ 30 \<and> y \<noteq> y2)"
proof (rule draw_line_loop.raw_induct [where xa = "((((((((((x2, y2), dx), dy), sx), sy), c), x), y), err), s)" and
      P = "\<lambda>x2 y2 dx dy sx sy c x y err s s'.
    \<not> (dx = - (2 ^ 31) \<and> dy = 0 \<and> err = 2 ^ 30 \<and> y \<noteq> y2)", unfolded prod.case, OF _ assms], goal_cases)
  case (1 f x2 y2 dx dy sx sy c x y err s s')
  have e: "i32 (2 ^ 31) = - (2 ^ 31)" "i32 (2 ^ 30) = 2 ^ 30" by (simp_all add: i32_def)
  show ?case
  proof
    assume a: "dx = - (2 ^ 31) \<and> dy = 0 \<and> err = 2 ^ 30 \<and> y \<noteq> y2"
    then have "f x2 y2 dx dy sx sy c (i32 (x + sx)) y err (fb_put (word_of_int x) (word_of_int y) c s) = Some s'"
      using 1(2) e by (simp add: Let_def split: if_splits)
    from 1(1) [OF this] show False using a by blast
  qed
qed


lemma draw_line_forever: "draw_line 0 y 0x80000000 y c s = None"
proof (rule ccontr)
  let ?y = "as_i32 y"
  assume "draw_line 0 y 0x80000000 y c s \<noteq> None"
  then obtain s' where "draw_line 0 y 0x80000000 y c s = Some s'" by blast
  then have "draw_line_loop (- (2 ^ 31)) ?y (- (2 ^ 31)) 0 1 (- 1) c 0 ?y (- (2 ^ 30)) s = Some s'"
    by (simp add: draw_line_def abs_diff_def step_sign_def as_i32_def half_i32_def Let_def i32_def)
  then have "draw_line_loop (- (2 ^ 31)) ?y (- (2 ^ 31)) 0 1 (- 1) c 1 (i32 (?y - 1)) (2 ^ 30)
      (fb_put 0 (word_of_int ?y) c s) = Some s'"
    by (subst (asm) draw_line_loop.simps) (simp add: Let_def i32_def)
  from draw_line_loop_stuck [OF this] have "i32 (?y - 1) = ?y" by simp
  moreover have "- 2147483648 \<le> ?y" "?y < 2147483648" by (simp_all add: as_i32_def i32_def)
  moreover have "i32 (- 2147483648 - 1) = 2147483647" by (simp add: i32_def)
  ultimately show False using i32_idI [of "?y - 1"] by (cases "?y = - 2147483648") simp_all
qed

section \<open>Circles\<close>

definition box_pixels :: "int \<Rightarrow> int \<Rightarrow> int \<Rightarrow> (u32 \<times> u32) set" where
  "box_pixels x y r = {pt a b | a b. \<bar>a - x\<bar> \<le> r \<and> \<bar>b - y\<bar> \<le> r}"

lemma box_pixelsI: "\<bar>a - x\<bar> \<le> r \<Longrightarrow> \<bar>b - y\<bar> \<le> r \<Longrightarrow> pt a b \<in> box_pixels x y r"
  by (auto simp: box_pixels_def)

lemma circle_pixels_box:
  assumes "0 \<le> x" "x < 1073741824" "0 \<le> y" "y < 1073741824" "0 \<le> x0" "x0 \<le> y0" "y0 \<le> r" "r < 1073741824"
  shows "set (circle_pixels x y x0 y0 fill) \<subseteq> box_pixels x y r"
proof -
  have i: "i32 (x + x0) = x + x0" "i32 (x - x0) = x - x0" "i32 (y + x0) = y + x0" "i32 (y - x0) = y - x0"
    "i32 (x + y0) = x + y0" "i32 (x - y0) = x - y0" "i32 (y + y0) = y + y0" "i32 (y - y0) = y - y0"
    using assms by simp_all
  show ?thesis
    unfolding circle_pixels_def i using assms(5-7) by (auto intro!: box_pixelsI)
qed

lemma draw_circle_loop_box:
  assumes "0 \<le> x" "x < 1073741824" "0 \<le> y" "y < 1073741824" "r < 1073741824" "0 \<le> r"
  shows "0 \<le> x0 \<Longrightarrow> x0 \<le> r + 1 \<Longrightarrow> - 1 \<le> y0 \<Longrightarrow> y0 \<le> r \<Longrightarrow>
    \<exists>ps. draw_circle_loop x y c fill x0 y0 d s = Some (paint ps c s) \<and> set ps \<subseteq> box_pixels x y r \<and>
      (x0 \<le> y0 \<longrightarrow> set (circle_pixels x y x0 y0 fill) \<subseteq> set ps)"
proof (induction "nat (y0 + 1 - x0)" arbitrary: x0 y0 d s rule: less_induct)
  case less
  show ?case
  proof (cases "x0 \<le> y0")
    case True
    let ?qs = "circle_pixels x y x0 y0 fill"
    define y1 where "y1 = (if d > 0 then y0 - 1 else y0)"
    have y1: "y1 \<le> y0" "- 1 \<le> y1" using less.prems True by (simp_all add: y1_def)
    define d1 where "d1 = i32 ((if d > 0 then i32 (d - i32 (4 * y1)) else d) + i32 (i32 (4 * (x0 + 1)) + 2))"
    have i: "i32 (x0 + 1) = x0 + 1" "i32 (y0 - 1) = y0 - 1" using less.prems assms by simp_all
    have "draw_circle_loop x y c fill x0 y0 d s = draw_circle_loop x y c fill (x0 + 1) y1 d1 (paint ?qs c s)"
      using True by (subst draw_circle_loop.simps) (simp add: Let_def i y1_def d1_def paint_def)
    moreover obtain ps where "draw_circle_loop x y c fill (x0 + 1) y1 d1 (paint ?qs c s) = Some (paint ps c (paint ?qs c s))"
      "set ps \<subseteq> box_pixels x y r"
      using less.hyps [of y1 "x0 + 1" d1 "paint ?qs c s"] less.prems True y1 by auto
    moreover have "paint ps c (paint ?qs c s) = paint (?qs @ ps) c s" by (simp add: paint_def)
    moreover have "set ?qs \<subseteq> box_pixels x y r"
      by (rule circle_pixels_box) (use less.prems assms True in auto)
    ultimately show ?thesis by (intro exI [of _ "?qs @ ps"]) auto
  next
    case False
    then show ?thesis
      by (intro exI [of _ "[]"]) (simp add: draw_circle_loop.simps paint_def)
  qed
qed

lemma draw_circle_box:
  assumes "x < 0x40000000" "y < 0x40000000" "radius < 0x40000000"
  shows "\<exists>ps. draw_circle x y radius c fill s = Some (paint ps c s) \<and> set ps \<subseteq> box_pixels (uint x) (uint y) (uint radius) \<and>
    set (circle_pixels (uint x) (uint y) 0 (uint radius) fill) \<subseteq> set ps"
proof -
  note b = uint_small [OF assms(1)] uint_small [OF assms(2)] uint_small [OF assms(3)]
  show ?thesis
    using draw_circle_loop_box [OF _ b(1) _ b(2) b(3), of 0 "uint radius" c fill] uint_ge_0 [of radius]
    by (simp add: draw_circle_def as_i32_small assms)
qed

lemma box_pixels_uint:
  fixes px py x y r :: u32
  assumes "(px, py) \<in> box_pixels (uint x) (uint y) (uint r)" "px < 0x40000000" "py < 0x40000000"
    "x < 0x40000000" "y < 0x40000000" "r < 0x40000000"
  shows "\<bar>uint px - uint x\<bar> \<le> uint r \<and> \<bar>uint py - uint y\<bar> \<le> uint r"
proof -
  have one: "uint p = a" if "p = word_of_int a" "p < 0x40000000" "\<bar>a - uint z\<bar> \<le> uint r" "z < 0x40000000" for p z :: u32 and a
  proof -
    have z: "uint z < 1073741824" "0 \<le> uint z" "uint r < 1073741824"
      using uint_small [OF that(4)] uint_small [OF assms(6)] by auto
    have u: "uint p = a mod 4294967296" using that(1) by (simp add: uint_word_of_int)
    note up = uint_small [OF that(2)]
    show ?thesis
    proof (cases "0 \<le> a")
      case True
      then show ?thesis using u that(3) z by (simp add: abs_le_iff)
    next
      case False
      have "a mod 4294967296 = (a + 4294967296) mod 4294967296" by simp
      also have "\<dots> = a + 4294967296" using that(3) z False by (intro mod_pos_pos_trivial) linarith+
      finally show ?thesis using u up that(3) z by linarith
    qed
  qed
  obtain a b where "px = word_of_int a" "py = word_of_int b" "\<bar>a - uint x\<bar> \<le> uint r" "\<bar>b - uint y\<bar> \<le> uint r"
    using assms(1) by (auto simp: box_pixels_def pt_def)
  then show ?thesis using one assms by metis
qed

section \<open>The display\<close>

text \<open>
  Performing one console event: terminal events on the terminal, drawing events on its framebuffer, the font scale in
  the configuration. \<open>None\<close>: the call does not return to its caller, because the machine is reset or a drawing loop
  never ends.
\<close>

type_synonym display = "system_config \<times> terminal"

fun perform :: "console_event \<Rightarrow> display \<Rightarrow> display option" where
  "perform (Put ch) (cfg, t) = Some (cfg, putchar ch t)"
| "perform Clear (cfg, t) = Some (cfg, term_clear t)"
| "perform (Set_cursor r col) (cfg, t) = Some (cfg, set_cursor r col t)"
| "perform (Set_colors fg bg) (cfg, t) = Some (cfg, set_colors fg bg t)"
| "perform Reset_system d = None"
| "perform (Draw_pixel x y c) (cfg, t) = Some (cfg, draw_pixel x y c t)"
| "perform (Draw_line x1 y1 x2 y2 c) (cfg, t) = map_option (Pair cfg) (draw_line x1 y1 x2 y2 c t)"
| "perform (Draw_rect x y w h c fill) (cfg, t) = Some (cfg, draw_rect x y w h c fill t)"
| "perform (Draw_circle x y r c fill) (cfg, t) = map_option (Pair cfg) (draw_circle x y r c fill t)"
| "perform (Clear_screen c) (cfg, t) = Some (cfg, clear_screen c t)"
| "perform (Set_font_scale scale) (cfg, t) = Some (set_font_scale scale cfg, t)"

fun perform_all :: "console_event list \<Rightarrow> display \<Rightarrow> display option" where
  "perform_all [] d = Some d"
| "perform_all (e # es) d = do { d \<leftarrow> perform e d; perform_all es d }"

lemma perform_all_put: "perform_all (map Put bs) (cfg, t) = Some (cfg, term_write bs t)"
  by (induction bs arbitrary: t) (simp_all add: term_write_def)

lemma arg_words:
  fixes y :: u16
  shows "hi16 (ucast y) = 0" "lo16 (ucast y) = ucast y" "lo16 (0x800000000000 OR ucast y) = ucast y"
    "hi16 (0x800000000000 OR ucast y) = 0x80000000"
proof -
  have m: "(0xFFFF :: u64) = mask 16" by (simp add: mask_eq_decr_exp)
  have "ucast y AND mask 16 = (ucast y :: u64)" by (rule bit_word_eqI) (auto simp: bit_simps dest: bit_imp_le_length)
  then have a: "ucast y AND (0xFFFF :: u64) = ucast y" unfolding m .
  have d: "drop_bit 16 (ucast y :: u64) = 0" by (rule bit_word_eqI) (auto simp: bit_simps dest: bit_imp_le_length)
  have u: "ucast (ucast y :: u64) = (ucast y :: u32)" by (rule bit_word_eqI) (auto simp: bit_simps)
  show "hi16 (ucast y) = 0" "lo16 (ucast y) = ucast y" by (simp_all only: hi16_def lo16_def a d u) simp
  show "lo16 (0x800000000000 OR ucast y) = ucast y"
    unfolding lo16_def bit.conj_disj_distrib2 a by (simp add: u)
  show "hi16 (0x800000000000 OR ucast y) = 0x80000000" unfolding hi16_def drop_bit_or d by simp
qed

lemma circle_extremes:
  assumes "x < 0x40000000" "y < 0x40000000" "r < 0x40000000"
  shows "{(x + r, y), (x, y + r)} \<subseteq> set (circle_pixels (uint x) (uint y) 0 (uint r) fill)"
proof -
  note b = uint_small [OF assms(1)] uint_small [OF assms(2)] uint_small [OF assms(3)] uint_ge_0 [of x] uint_ge_0 [of y] uint_ge_0 [of r]
  have i: "i32 (uint x) = uint x" "i32 (uint y) = uint y" "i32 (uint x + uint r) = uint x + uint r" "i32 (uint y + uint r) = uint y + uint r"
    "i32 (uint x - uint r) = uint x - uint r"
    using b by (intro i32_idI; linarith)+
  have "uint x - uint r \<le> uint x + uint r" using b by linarith
  then have "pt (uint x + uint r) (uint y) \<in> set (circle_pixels (uint x) (uint y) 0 (uint r) fill)"
    "pt (uint x) (uint y + uint r) \<in> set (circle_pixels (uint x) (uint y) 0 (uint r) fill)"
    by (auto simp: circle_pixels_def i intro!: bexI [of _ "uint x + uint r"])
  then show ?thesis by (simp add: pt_def)
qed

section \<open>Properties\<close>

text \<open>
  C40: \<open>draw_line\<close> ends and draws exactly the reference line: for end points below \<open>2\<^sup>3\<^sup>0\<close> the error-term loop visits, in
  order, one pixel per step of the longer axis, each at the nearest offset of the shorter axis, from the first end
  point to the second, and changes nothing else.
\<close>

theorem draw_line_is_reference_line:
  assumes "x1 < 0x40000000" "y1 < 0x40000000" "x2 < 0x40000000" "y2 < 0x40000000"
  shows "draw_line x1 y1 x2 y2 c s = Some (fold (\<lambda>(x, y). fb_put x y c) (line_points x1 y1 x2 y2) s)"
  using draw_line_points [OF assms, of c s] by (simp only: paint_def)

theorem draw_line_is_reference_line_witness:
  "draw_line 2 1 5 0 (9, 9, 9) demo_screen =
   Some (fb_put 5 0 (9, 9, 9) (fb_put 4 0 (9, 9, 9) (fb_put 3 1 (9, 9, 9) (fb_put 2 1 (9, 9, 9) demo_screen))))"
  using draw_line_is_reference_line [of 2 1 5 0 "(9, 9, 9)" demo_screen]
  by (simp add: line_points_def abs_diff_def step_sign_def line_step_def pt_def upto_rec1)

text \<open>
  A system call can hang the kernel: \<open>sys_draw_line\<close> takes its horizontal coordinates unmasked, and for
  a line from column 0 to column \<open>2\<^sup>3\<^sup>1\<close> in one row, whatever the row and the colour, the loop of
  \<open>draw_line\<close> never ends.
\<close>

theorem draw_line_syscall_hangs:
  "perform_all (drop (length (console s))
     (console (snd (sys_draw_line (ucast (y :: u16)) (0x800000000000 OR ucast y) color s)))) (cfg, t) = None"
proof -
  have "hi16 (ucast y) = 0" "lo16 (ucast y) = ucast y" "lo16 (0x800000000000 OR ucast y) = ucast y"
    "hi16 (0x800000000000 OR ucast y) = 0x80000000"
    using arg_words [of y] by simp_all
  then show ?thesis
    by (simp add: sys_draw_line_def emit_def draw_line_forever)
qed

text \<open>
  \<open>draw_circle\<close> ends and stays in its square: for a centre and radius below \<open>2\<^sup>3\<^sup>0\<close>, filled or not, it returns,
  every pixel farther from the centre than the radius in either direction is untouched, also when part of the circle
  lies off the screen to the left or above, and the rightmost and lowest points are coloured when visible.
\<close>

theorem draw_circle_contained:
  assumes "fb_ok s" "FB_W s \<le> 0x40000000" "FB_H s \<le> 0x40000000"
    "x < 0x40000000" "y < 0x40000000" "radius < 0x40000000"
  shows "\<exists>s'. draw_circle x y radius c fill s = Some s' \<and>
    (\<forall>px py. \<bar>uint px - uint x\<bar> > uint radius \<or> \<bar>uint py - uint y\<bar> > uint radius \<longrightarrow> fb_get px py s' = fb_get px py s) \<and>
    (x + radius < FB_W s \<and> y < FB_H s \<longrightarrow> fb_get (x + radius) y s' = Some c) \<and>
    (x < FB_W s \<and> y + radius < FB_H s \<longrightarrow> fb_get x (y + radius) s' = Some c)"
proof -
  obtain ps where ps: "draw_circle x y radius c fill s = Some (paint ps c s)"
    "set ps \<subseteq> box_pixels (uint x) (uint y) (uint radius)"
    "set (circle_pixels (uint x) (uint y) 0 (uint radius) fill) \<subseteq> set ps"
    using draw_circle_box [OF assms(4-6), of c fill s] by blast
  have "fb_get px py (paint ps c s) = fb_get px py s"
    if "\<bar>uint px - uint x\<bar> > uint radius \<or> \<bar>uint py - uint y\<bar> > uint radius" for px py
  proof -
    have "(px, py) \<notin> set ps \<or> \<not> on_screen s px py"
      using that ps(2) box_pixels_uint [of px py x y radius, OF _ _ _ assms(4-6)]
        order.strict_trans2 [OF _ assms(2), of px] order.strict_trans2 [OF _ assms(3), of py]
      by (auto simp: on_screen_def)
    then show ?thesis by (auto simp: get_paint [OF assms(1)])
  qed
  moreover have "(x + radius, y) \<in> set ps" "(x, y + radius) \<in> set ps"
    using ps(3) circle_extremes [OF assms(4-6), of fill] by auto
  ultimately show ?thesis using ps(1) assms(1) by (auto simp: get_paint on_screen_def)
qed

theorem draw_circle_contained_witness:
  "\<exists>s'. draw_circle 3 4 6 (1, 1, 1) True demo_screen = Some s' \<and> fb_get 39 4 s' = Some (0, 0, 0) \<and> fb_get 9 4 s' = Some (1, 1, 1)"
proof -
  obtain s' where s': "draw_circle 3 4 6 (1, 1, 1) True demo_screen = Some s'"
    "\<forall>px py. \<bar>uint px - uint (3 :: u32)\<bar> > uint (6 :: u32) \<or> \<bar>uint py - uint (4 :: u32)\<bar> > uint (6 :: u32) \<longrightarrow>
      fb_get px py s' = fb_get px py demo_screen"
    "3 + 6 < FB_W demo_screen \<and> 4 < FB_H demo_screen \<longrightarrow> fb_get (3 + 6) 4 s' = Some (1, 1, 1)"
    using draw_circle_contained [of demo_screen 3 4 6 "(1, 1, 1)" True] by auto
  have "fb_get 39 4 s' = Some (0, 0, 0)" using s'(2) [rule_format, of 39 4] by (simp add: demo_screen_black)
  then show ?thesis using s'(1,3) by simp
qed

text \<open>
  C34: What a program prints is what the screen shows: when \<open>sys_print\<close> accepts a buffer, the bytes it passes to the
  terminal are the program's bytes read through its page table, and performing them turns a screen showing a text grid
  into one showing that grid with exactly these bytes written.
\<close>

theorem printed_text_on_screen:
  assumes "sys_print buf len s = Some (n, s')" "buf \<noteq> 0" "len \<noteq> 0" "contains_range (cur s) buf len"
    "shows_state t (fg, bg, g)"
  shows "\<exists>bs t'. read_user buf (unat len) s = Some bs \<and>
    perform_all (drop (length (console s)) (console s')) (cfg, t) = Some (cfg, t') \<and>
    shows_state t' (fg, bg, fold (g_putchar (unat (cols t)) (unat (rows t)) fg bg) bs g)"
proof -
  obtain bs where "read_user buf (unat len) s = Some bs" "s' = emit (map Put bs) s"
    using assms(1-4) by (auto simp: sys_print_def split: bind_splits)
  then show ?thesis using shows_write [OF assms(5), of bs] by (auto simp: emit_def perform_all_put)
qed

theorem printed_text_on_screen_witness:
  "\<exists>t'. perform_all (drop (length (console file_kernel)) (console (snd (the (sys_print 0x1000000000FF 1 file_kernel)))))
      (config_default, term_init config_default demo_terminal) = Some (config_default, t') \<and>
    shows_state t' ((255, 255, 255), (0, 0, 0), \<lparr>gcol = 0, grow = 0, gcells = \<lambda>_ _. blank (0, 0, 0)\<rparr>)"
proof -
  let ?t = "term_init config_default demo_terminal"
  have r: "read_user 0x1000000000FF 1 file_kernel = Some [0xFF]"
    using file_kernel_load [of 255] by (simp add: ipc_mem_def write_u64_def mwrite_def arange_def)
  have c: "contains_range (cur file_kernel) 0x1000000000FF 1"
    by (simp add: contains_range_def checked_add_def word_le_nat_alt)
  have p: "sys_print 0x1000000000FF 1 file_kernel = Some (1, emit [Put 0xFF] file_kernel)"
    using r c by (simp add: sys_print_def)
  have "shows_state ?t ((255, 255, 255), (0, 0, 0), \<lparr>gcol = 0, grow = 0, gcells = \<lambda>_ _. blank (0, 0, 0)\<rparr>)"
    using geom_init [OF demo_terminal_geom(1)] by (simp add: demo_terminal_colours)
  from printed_text_on_screen [OF p _ _ c this] show ?thesis
    using r p by (simp add: g_putchar_def)
qed

end
