(* ===== verification/Barrel.thy ===== *)
theory Barrel
  imports Syscall
begin

text \<open>
  The scripting language of \<open>src/kernel/src/barrel.rs\<close>: lexer, expression evaluator and statement interpreter, which
  work on a fixed array of 64 tokens without building a syntax tree. A panic of the lexer is \<open>None\<close>. The evaluator and
  the interpreter recurse on fuel; \<open>eval_fuel\<close> is enough for every expression, and a script that runs forever has no
  result for any fuel. The keys that \<open>read_key\<close> delivers are a list; a script that waits for a key that never comes has
  no result either.
\<close>

section \<open>Lexer\<close>

datatype token =
    TEof | TIdent | TNumber | TString | TPrint | TPrintln | TLet | TInput | TIf | TElse | TLoop | TWhile | TBreak
  | TEq | TEqEq | TNe | TLt | TGt | TLe | TGe | TAndAnd | TOrOr | TNot | TMod | TPlus | TMinus | TStar | TSlash
  | TLParen | TRParen | TLBrace | TRBrace | TSemicolon | TComma
  | TDrawPixel | TDrawLine | TDrawRect | TDrawCircle | TClearScreen

abbreviation MAX_TOKENS :: nat where "MAX_TOKENS \<equiv> 64"

type_synonym toks = "(token \<times> u64) list"

definition peek :: "bytes \<Rightarrow> nat \<Rightarrow> u8" where
  "peek src pos = (if pos \<ge> length src then 0 else src ! pos)"

definition lex_advance :: "bytes \<Rightarrow> nat \<Rightarrow> nat" where
  "lex_advance src pos = (if pos < length src then pos + 1 else pos)"

function skip_while :: "(u8 \<Rightarrow> bool) \<Rightarrow> bytes \<Rightarrow> nat \<Rightarrow> nat" where
  "skip_while P src pos = (if pos < length src \<and> P (src ! pos) then skip_while P src (pos + 1) else pos)"
  by auto
termination by (relation "measure (\<lambda>(P, src, pos). length src - pos)") auto

declare skip_while.simps [simp del]

lemma skip_while_le: "pos \<le> skip_while P src pos"
proof (induction P src pos rule: skip_while.induct)
  case (1 P src pos)
  then show ?case by (subst skip_while.simps) (auto dest: Suc_leD)
qed

text \<open>A comment runs to the end of its line or to a zero byte.\<close>

definition skip_comment :: "bytes \<Rightarrow> nat \<Rightarrow> nat" where
  "skip_comment src pos = skip_while (\<lambda>c. c \<noteq> 10 \<and> c \<noteq> 0) src pos"

function skip_whitespace :: "bytes \<Rightarrow> nat \<Rightarrow> nat" where
  "skip_whitespace src pos =
     (let ch = peek src pos
      in if ch = 0x2F \<and> pos + 1 < length src \<and> src ! (pos + 1) = 0x2F then skip_whitespace src (skip_comment src pos)
      else if ch = 0x20 \<or> ch = 9 \<or> ch = 10 \<or> ch = 13 then skip_whitespace src (lex_advance src pos)
      else pos)"
  by auto
termination
proof (relation "measure (\<lambda>(src, pos). length src - pos)", goal_cases)
  case (2 src pos ch)
  then have "pos < length src" "src ! pos = 0x2F" by (auto simp: peek_def)
  then have "pos < skip_comment src pos"
    unfolding skip_comment_def using skip_while_le [of "pos + 1" "\<lambda>c. c \<noteq> 10 \<and> c \<noteq> 0" src]
    by (subst skip_while.simps) simp
  then show ?case using \<open>pos < length src\<close> by simp
next
  case (3 src pos ch)
  then have "pos < length src" by (auto simp: peek_def split: if_splits)
  then show ?case by (simp add: lex_advance_def)
qed simp

declare skip_whitespace.simps [simp del]

definition is_digit :: "u8 \<Rightarrow> bool" where
  "is_digit c \<longleftrightarrow> 0x30 \<le> c \<and> c \<le> 0x39"

definition is_name_start :: "u8 \<Rightarrow> bool" where
  "is_name_start c \<longleftrightarrow> 0x61 \<le> c \<and> c \<le> 0x7A \<or> 0x41 \<le> c \<and> c \<le> 0x5A \<or> c = 0x5F"

definition is_name_char :: "u8 \<Rightarrow> bool" where
  "is_name_char c \<longleftrightarrow> is_name_start c \<or> is_digit c"

definition number_value :: "bytes \<Rightarrow> u64" where
  "number_value ds = fold (\<lambda>d n. n * 10 + ucast (d - 0x30)) ds 0"

definition keyword :: "bytes \<Rightarrow> token" where
  "keyword name =
     (if name = bytes_of ''print'' then TPrint else if name = bytes_of ''println'' then TPrintln
      else if name = bytes_of ''let'' then TLet else if name = bytes_of ''input'' then TInput
      else if name = bytes_of ''if'' then TIf else if name = bytes_of ''else'' then TElse
      else if name = bytes_of ''loop'' then TLoop else if name = bytes_of ''while'' then TWhile
      else if name = bytes_of ''break'' then TBreak else if name = bytes_of ''draw_pixel'' then TDrawPixel
      else if name = bytes_of ''draw_line'' then TDrawLine else if name = bytes_of ''draw_rect'' then TDrawRect
      else if name = bytes_of ''draw_circle'' then TDrawCircle else if name = bytes_of ''clear_screen'' then TClearScreen
      else TIdent)"

text \<open>
  Copying a lexeme into the string buffer: characters past index 254 are dropped, then the terminating zero is stored at
  the current index, which panics once the buffer is full. The result has the buffer, the new index and the part stored.
\<close>

definition store_text :: "bytes \<Rightarrow> bytes \<Rightarrow> nat \<Rightarrow> (bytes \<times> nat \<times> bytes) option" where
  "store_text text strbuf strpos =
     (let kept = take (255 - strpos) text; p = strpos + length kept
      in if p < length strbuf then Some (take strpos strbuf @ kept @ 0 # drop (p + 1) strbuf, p + 1, kept) else None)"

definition slice :: "bytes \<Rightarrow> nat \<Rightarrow> nat \<Rightarrow> bytes" where
  "slice src a b = take (b - a) (drop a src)"

text \<open>The one- and two-character tokens and the position after them.\<close>

definition two_char :: "bytes \<Rightarrow> nat \<Rightarrow> u8 \<Rightarrow> token \<Rightarrow> token \<Rightarrow> token \<times> nat" where
  "two_char src pos second long short =
     (let p = lex_advance src pos in if peek src p = second then (long, lex_advance src p) else (short, p))"

definition lex_symbol :: "bytes \<Rightarrow> nat \<Rightarrow> token \<times> nat" where
  "lex_symbol src pos =
     (let ch = peek src pos; one = (\<lambda>t. (t, lex_advance src pos))
      in if ch = 0x3D then two_char src pos 0x3D TEqEq TEq
      else if ch = 0x21 then two_char src pos 0x3D TNe TNot
      else if ch = 0x3C then two_char src pos 0x3D TLe TLt
      else if ch = 0x3E then two_char src pos 0x3D TGe TGt
      else if ch = 0x26 then two_char src pos 0x26 TAndAnd TEof
      else if ch = 0x7C then two_char src pos 0x7C TOrOr TEof
      else if ch = 0x25 then one TMod else if ch = 0x2B then one TPlus else if ch = 0x2D then one TMinus
      else if ch = 0x2A then one TStar else if ch = 0x2F then one TSlash else if ch = 0x28 then one TLParen
      else if ch = 0x29 then one TRParen else if ch = 0x7B then one TLBrace else if ch = 0x7D then one TRBrace
      else if ch = 0x3B then one TSemicolon else if ch = 0x2C then one TComma
      else one TEof)"

record lex_state =
  lx_pos :: nat
  lx_toks :: toks
  lx_buf :: bytes
  lx_strpos :: nat

text \<open>\<open>tokens[count] = t; values[count] = v; count += 1\<close>, with the array's bounds check.\<close>

definition put_tok :: "token \<Rightarrow> u64 \<Rightarrow> lex_state \<Rightarrow> lex_state option" where
  "put_tok t v s = (if length (lx_toks s) < MAX_TOKENS then Some (s\<lparr>lx_toks := lx_toks s @ [(t, v)]\<rparr>) else None)"

text \<open>One turn of \<open>tokenize\<close>'s loop at a character other than zero; the flag tells whether the token limit is checked.\<close>

definition lex_token :: "bytes \<Rightarrow> lex_state \<Rightarrow> (bool \<times> lex_state) option" where
  "lex_token src s =
     (let pos = lx_pos s; ch = peek src pos
      in if ch = 0x22 then
        let e = skip_while (\<lambda>c. c \<noteq> 0x22 \<and> c \<noteq> 0) src (pos + 1);
            pos' = (if peek src e = 0x22 then lex_advance src e else e)
        in do {
          (buf, sp, _) \<leftarrow> store_text (slice src (pos + 1) e) (lx_buf s) (lx_strpos s);
          s' \<leftarrow> put_tok TString (word_of_nat (lx_strpos s)) (s\<lparr>lx_pos := pos', lx_buf := buf, lx_strpos := sp\<rparr>);
          Some (False, s')
        }
      else if is_digit ch then
        let e = skip_while is_digit src pos
        in do { s' \<leftarrow> put_tok TNumber (number_value (slice src pos e)) (s\<lparr>lx_pos := e\<rparr>); Some (False, s') }
      else if is_name_start ch then
        let e = skip_while is_name_char src pos
        in do {
          (buf, sp, name) \<leftarrow> store_text (slice src pos e) (lx_buf s) (lx_strpos s);
          s' \<leftarrow> put_tok (keyword name) (word_of_nat (lx_strpos s)) (s\<lparr>lx_pos := e, lx_buf := buf, lx_strpos := sp\<rparr>);
          Some (False, s')
        }
      else
        let tp = lex_symbol src pos
        in do { s' \<leftarrow> put_tok (fst tp) 0 (s\<lparr>lx_pos := snd tp\<rparr>); Some (True, s') })"

lemma skip_whitespace_le: "pos \<le> skip_whitespace src pos"
proof (induction src pos rule: skip_whitespace.induct)
  case (1 src pos)
  have "pos \<le> skip_comment src pos" "pos \<le> lex_advance src pos"
    by (simp_all add: skip_comment_def skip_while_le lex_advance_def)
  then show ?case using 1 by (subst skip_whitespace.simps) (auto simp: Let_def intro: le_trans)
qed

text \<open>Every turn consumes at least one character.\<close>

lemma skip_while_gt: "pos < length src \<Longrightarrow> P (src ! pos) \<Longrightarrow> pos < skip_while P src pos"
  using skip_while_le [of "pos + 1" P src] by (subst skip_while.simps) simp

lemma lex_symbol_advances: "pos < length src \<Longrightarrow> pos < snd (lex_symbol src pos)"
  by (simp add: lex_symbol_def two_char_def lex_advance_def Let_def)

lemma put_tok_pos: "put_tok t v s = Some s' \<Longrightarrow> lx_pos s' = lx_pos s"
  by (auto simp: put_tok_def split: if_splits)

lemma lex_token_advances:
  assumes "lex_token src s = Some (chk, s')" "peek src (lx_pos s) \<noteq> 0"
  shows "lx_pos s < length src" "lx_pos s < lx_pos s'"
proof -
  show lt: "lx_pos s < length src" using assms(2) by (auto simp: peek_def split: if_splits)
  then have pk: "peek src (lx_pos s) = src ! lx_pos s" by (simp add: peek_def)
  have "lx_pos s < lex_advance src p" if "lx_pos s < p" for p using that by (simp add: lex_advance_def)
  moreover have "lx_pos s < skip_while P src (lx_pos s + 1)" for P using skip_while_le [of "lx_pos s + 1" P src] by simp
  moreover have "is_digit (src ! lx_pos s) \<Longrightarrow> lx_pos s < skip_while is_digit src (lx_pos s)"
    "is_name_start (src ! lx_pos s) \<Longrightarrow> lx_pos s < skip_while is_name_char src (lx_pos s)"
    using lt by (simp_all add: skip_while_gt is_name_char_def)
  ultimately show "lx_pos s < lx_pos s'"
    using assms(1) lt lex_symbol_advances [OF lt] unfolding lex_token_def Let_def pk
    by (auto split: if_splits bind_splits dest!: put_tok_pos)
qed

function tokenize_loop :: "bytes \<Rightarrow> lex_state \<Rightarrow> lex_state option" where
  "tokenize_loop src s =
     (let s = s\<lparr>lx_pos := skip_whitespace src (lx_pos s)\<rparr>
      in if peek src (lx_pos s) = 0 then put_tok TEof 0 s
      else case lex_token src s of
        None \<Rightarrow> None
      | Some (chk, s') \<Rightarrow>
          if chk \<and> length (lx_toks s') \<ge> MAX_TOKENS - 1 then put_tok TEof 0 s' else tokenize_loop src s')"
  by auto
termination
proof (relation "measure (\<lambda>(src, s). length src - lx_pos s)", goal_cases)
  case (2 src s t p chk s')
  then have "lx_pos t < length src" "lx_pos t < lx_pos s'" using lex_token_advances [of src t chk s'] by auto
  moreover have "lx_pos s \<le> lx_pos t" using 2(1) skip_whitespace_le by simp
  ultimately show ?case by auto
qed simp

declare tokenize_loop.simps [simp del]

definition tokenize :: "bytes \<Rightarrow> (toks \<times> bytes) option" where
  "tokenize src =
     do {
       s \<leftarrow> tokenize_loop src \<lparr>lx_pos = 0, lx_toks = [], lx_buf = replicate 256 0, lx_strpos = 0\<rparr>;
       Some (lx_toks s, lx_buf s)
     }"

section \<open>Variables and state\<close>

datatype bvalue = VNum u64 | VStr nat | VNil

abbreviation MAX_VARS :: nat where "MAX_VARS \<equiv> 16"

type_synonym env = "(nat \<times> bvalue) list"

fun env_get :: "nat \<Rightarrow> env \<Rightarrow> bvalue" where
  "env_get n [] = VNil"
| "env_get n ((m, v) # e) = (if m = n then v else env_get n e)"

fun env_update :: "nat \<Rightarrow> bvalue \<Rightarrow> env \<Rightarrow> env option" where
  "env_update n v [] = None"
| "env_update n v ((m, w) # e) = (if m = n then Some ((m, v) # e) else map_option ((#) (m, w)) (env_update n v e))"

definition env_set :: "nat \<Rightarrow> bvalue \<Rightarrow> env \<Rightarrow> env" where
  "env_set n v e = (case env_update n v e of Some e' \<Rightarrow> e' | None \<Rightarrow> if length e < MAX_VARS then e @ [(n, v)] else e)"

record bstate =
  bip :: nat
  bkeys :: bytes
  bout :: "console_event list"
  benv :: env
  bstr :: bytes

definition bprint :: "console_event list \<Rightarrow> bstate \<Rightarrow> bstate" where
  "bprint es st = st\<lparr>bout := bout st @ es\<rparr>"

definition bstep :: "bstate \<Rightarrow> bstate" where
  "bstep st = st\<lparr>bip := bip st + 1\<rparr>"

text \<open>The line editor of \<open>input\<close>: the line, the keys left and what is echoed.\<close>

fun key_loop :: "bytes \<Rightarrow> bytes \<Rightarrow> console_event list \<Rightarrow> (bytes \<times> bytes \<times> console_event list) option" where
  "key_loop [] buf es = None"
| "key_loop (ch # ks) buf es =
     (if ch = 10 \<or> ch = 13 then Some (buf, ks, es @ [Put 10])
      else if ch = 0x7F \<or> ch = 8 then
        if buf \<noteq> [] then key_loop ks (butlast buf) (es @ [Put 0x7F]) else key_loop ks buf es
      else if 0x20 \<le> ch \<and> ch < 0x7F then
        if length buf < 63 then key_loop ks (buf @ [ch]) (es @ [Put ch]) else key_loop ks buf es
      else key_loop ks buf es)"

definition read_line :: "bstate \<Rightarrow> (bytes \<times> bstate) option" where
  "read_line st =
     do {
       (line, ks, es) \<leftarrow> key_loop (bkeys st) [] (map Put (bytes_of ''> ''));
       Some (line, bprint es (st\<lparr>bkeys := ks\<rparr>))
     }"

section \<open>Expressions\<close>

definition op_at :: "toks \<Rightarrow> nat \<Rightarrow> token" where
  "op_at T i = (if i < MAX_TOKENS then fst (T ! i) else TEof)"

fun num_of :: "bvalue \<Rightarrow> u64" where
  "num_of (VNum n) = n"
| "num_of _ = 0"

definition bool_num :: "bool \<Rightarrow> u64" where
  "bool_num b = (if b then 1 else 0)"

definition digits_in_line :: "bytes \<Rightarrow> u64" where
  "digits_in_line line = fold (\<lambda>d n. if 0x30 \<le> d \<and> d \<le> 0x39 then n * 10 + ucast (d - 0x30) else n) line 0"

text \<open>
  The functions of one level call those of the next; only a parenthesis goes back to the top, through the argument
  \<open>ev\<close>. Each call and each turn of a loop takes one unit of fuel.
\<close>

type_synonym evaluator = "toks \<Rightarrow> bstate \<Rightarrow> (bvalue \<times> bstate) option"

primrec eval_atom :: "nat \<Rightarrow> evaluator \<Rightarrow> evaluator" where
  "eval_atom 0 ev T st = None"
| "eval_atom (Suc n) ev T st =
     (if bip st \<ge> MAX_TOKENS then Some (VNil, st)
      else
        let tok = fst (T ! bip st); v = snd (T ! bip st); st = bstep st
        in if tok = TNumber then Some (VNum v, st)
        else if tok = TString then Some (VStr (unat v), st)
        else if tok = TIdent then Some (env_get (unat v) (benv st), st)
        else if tok = TLParen then
          do { (val, st) \<leftarrow> ev T st; Some (val, if op_at T (bip st) = TRParen then bstep st else st) }
        else if tok = TMinus then
          do { (val, st) \<leftarrow> eval_atom n ev T st; Some (case val of VNum k \<Rightarrow> VNum (- k) | _ \<Rightarrow> VNil, st) }
        else if tok = TNot then
          do { (val, st) \<leftarrow> eval_atom n ev T st; Some (case val of VNum k \<Rightarrow> VNum (bool_num (k = 0)) | _ \<Rightarrow> VNil, st) }
        else if tok = TInput then do { (line, st) \<leftarrow> read_line st; Some (VNum (digits_in_line line), st) }
        else Some (VNil, st))"

text \<open>
  The three loops over binary operators have one shape: while the next token is an operator of the level, evaluate
  another operand and combine. They differ in the operand and in the table of operators.
\<close>

type_synonym optable = "token \<Rightarrow> (u64 \<Rightarrow> u64 \<Rightarrow> u64) option"

primrec bin_loop :: "nat \<Rightarrow> (nat \<Rightarrow> evaluator) \<Rightarrow> optable \<Rightarrow> toks \<Rightarrow> bvalue \<Rightarrow> bstate \<Rightarrow> (bvalue \<times> bstate) option" where
  "bin_loop 0 operand ops T left st = None"
| "bin_loop (Suc n) operand ops T left st =
     (case ops (op_at T (bip st)) of
        None \<Rightarrow> Some (left, st)
      | Some f \<Rightarrow>
          do {
            (right, st) \<leftarrow> operand n T (bstep st);
            bin_loop n operand ops T (VNum (f (num_of left) (num_of right))) st
          })"

definition eval_level :: "(nat \<Rightarrow> evaluator) \<Rightarrow> optable \<Rightarrow> nat \<Rightarrow> evaluator" where
  "eval_level operand ops n T st = do { (left, st) \<leftarrow> operand n T st; bin_loop n operand ops T left st }"

definition mul_ops :: optable where
  "mul_ops op =
     (if op = TStar then Some (\<lambda>a b. a * b)
      else if op = TSlash then Some (\<lambda>a b. if b \<noteq> 0 then a div b else 0)
      else if op = TMod then Some (\<lambda>a b. if b \<noteq> 0 then a mod b else 0) else None)"

definition add_ops :: optable where
  "add_ops op = (if op = TPlus then Some (\<lambda>a b. a + b) else if op = TMinus then Some (\<lambda>a b. a - b) else None)"

definition cmp_ops :: optable where
  "cmp_ops op =
     (if op = TEqEq then Some (\<lambda>a b. bool_num (a = b))
      else if op = TNe then Some (\<lambda>a b. bool_num (a \<noteq> b))
      else if op = TLt then Some (\<lambda>a b. bool_num (a < b))
      else if op = TGt then Some (\<lambda>a b. bool_num (a > b))
      else if op = TLe then Some (\<lambda>a b. bool_num (a \<le> b))
      else if op = TGe then Some (\<lambda>a b. bool_num (a \<ge> b))
      else if op = TAndAnd then Some (\<lambda>a b. if a = 0 then 0 else bool_num (b \<noteq> 0))
      else if op = TOrOr then Some (\<lambda>a b. if a \<noteq> 0 then 1 else bool_num (b \<noteq> 0))
      else None)"

definition eval_mul :: "evaluator \<Rightarrow> nat \<Rightarrow> evaluator" where
  "eval_mul ev = eval_level (\<lambda>n. eval_atom n ev) mul_ops"

definition eval_add :: "evaluator \<Rightarrow> nat \<Rightarrow> evaluator" where
  "eval_add ev = eval_level (eval_mul ev) add_ops"

definition eval_cmp :: "evaluator \<Rightarrow> nat \<Rightarrow> evaluator" where
  "eval_cmp ev = eval_level (eval_add ev) cmp_ops"

primrec eval_expr :: "nat \<Rightarrow> evaluator" where
  "eval_expr 0 T st = None"
| "eval_expr (Suc n) T st = eval_cmp (eval_expr n) n T st"

definition eval_fuel :: nat where "eval_fuel = 66"

definition eval :: "toks \<Rightarrow> bstate \<Rightarrow> (bvalue \<times> bstate) option" where
  "eval T st = eval_expr eval_fuel T st"

fun eval_args :: "nat \<Rightarrow> toks \<Rightarrow> bstate \<Rightarrow> (bvalue list \<times> bstate) option" where
  "eval_args 0 T st = Some ([], st)"
| "eval_args (Suc k) T st = do { (v, st) \<leftarrow> eval T st; (vs, st) \<leftarrow> eval_args k T st; Some (v # vs, st) }"

section \<open>Statements\<close>

definition tok_is :: "toks \<Rightarrow> nat \<Rightarrow> token \<Rightarrow> bstate \<Rightarrow> bool" where
  "tok_is T tc t st \<longleftrightarrow> bip st < tc \<and> fst (T ! bip st) = t"

definition skip_tok :: "toks \<Rightarrow> nat \<Rightarrow> token \<Rightarrow> bstate \<Rightarrow> bstate" where
  "skip_tok T tc t st = (if tok_is T tc t st then bstep st else st)"

definition expect_semicolon :: "toks \<Rightarrow> bstate \<Rightarrow> bstate" where
  "expect_semicolon T st = skip_tok T MAX_TOKENS TSemicolon st"

function skip_braces :: "toks \<Rightarrow> nat \<Rightarrow> nat \<Rightarrow> nat \<Rightarrow> nat" where
  "skip_braces T lim depth i =
     (if i < lim \<and> depth > 0
      then skip_braces T lim
             (if fst (T ! i) = TLBrace then depth + 1 else if fst (T ! i) = TRBrace then depth - 1 else depth) (i + 1)
      else i)"
  by auto
termination by (relation "measure (\<lambda>(T, lim, depth, i). lim - i)") auto

declare skip_braces.simps [simp del]

definition skip_block :: "toks \<Rightarrow> bstate \<Rightarrow> bstate" where
  "skip_block T st = st\<lparr>bip := skip_braces T MAX_TOKENS 1 (bip st)\<rparr>"

definition break_block :: "toks \<Rightarrow> nat \<Rightarrow> bstate \<Rightarrow> bstate" where
  "break_block T tc st = st\<lparr>bip := skip_braces T tc 1 (bip st + 1)\<rparr>"

definition truthy :: "bvalue \<Rightarrow> bool" where
  "truthy v = (case v of VNum n \<Rightarrow> n \<noteq> 0 | VStr _ \<Rightarrow> True | VNil \<Rightarrow> False)"

definition str_text :: "bytes \<Rightarrow> nat \<Rightarrow> bytes" where
  "str_text strbuf start = takeWhile (\<lambda>c. c \<noteq> 0) (drop start strbuf)"

definition value_text :: "bytes \<Rightarrow> bvalue \<Rightarrow> bytes" where
  "value_text strbuf v = (case v of VNum n \<Rightarrow> num_text n | VStr s \<Rightarrow> str_text strbuf s | VNil \<Rightarrow> bytes_of ''nil'')"

definition exec_print :: "toks \<Rightarrow> bstate \<Rightarrow> bstate option" where
  "exec_print T st =
     (let ln = (fst (T ! bip st) = TPrintln)
      in do {
        (v, st) \<leftarrow> eval T (bstep st);
        let st = bprint (map Put (value_text (bstr st) v)) st;
        let st = (if ln then bprint [Put 10] st else st);
        Some (expect_semicolon T st)
      })"

definition exec_let :: "toks \<Rightarrow> nat \<Rightarrow> bstate \<Rightarrow> bstate option" where
  "exec_let T tc st =
     (let st = bstep st
      in if tok_is T tc TIdent st then
        let name_start = unat (snd (T ! bip st)); st = bstep st
        in if tok_is T tc TEq st then
          do { (v, st) \<leftarrow> eval T (bstep st); Some (expect_semicolon T (st\<lparr>benv := env_set name_start v (benv st)\<rparr>)) }
        else Some (expect_semicolon T st)
      else Some (expect_semicolon T st))"

definition exec_input :: "toks \<Rightarrow> nat \<Rightarrow> bstate \<Rightarrow> bstate option" where
  "exec_input T tc st =
     (let st = bstep st
      in if tok_is T tc TIdent st then
        let name_start = unat (snd (T ! bip st))
        in do {
          (line, st) \<leftarrow> read_line (bstep st);
          let s_start = 256 - 128;
          let kept = take (255 - s_start) line;
          Some (expect_semicolon T
            (st\<lparr>bstr := take s_start (bstr st) @ kept @ drop (s_start + length kept) (bstr st),
                benv := env_set name_start (VStr s_start) (benv st)\<rparr>))
        }
      else Some (expect_semicolon T st))"

text \<open>The drawing statements: so many arguments, and an event when all of them are numbers.\<close>

fun nums_of :: "bvalue list \<Rightarrow> u64 list" where
  "nums_of (VNum n # vs) = n # nums_of vs"
| "nums_of _ = []"

definition draw_event :: "token \<Rightarrow> bvalue list \<Rightarrow> console_event list" where
  "draw_event t vs =
     (let ns = nums_of vs; a = (\<lambda>i. ucast (ns ! i) :: u32)
      in if length ns \<noteq> length vs then []
      else if t = TDrawPixel then [Draw_pixel (a 0) (a 1) (rgb_of (ns ! 2))]
      else if t = TDrawLine then [Draw_line (a 0) (a 1) (a 2) (a 3) (rgb_of (ns ! 4))]
      else if t = TDrawRect then [Draw_rect (a 0) (a 1) (a 2) (a 3) (rgb_of (ns ! 4)) (ns ! 5 \<noteq> 0)]
      else if t = TDrawCircle then [Draw_circle (a 0) (a 1) (a 2) (rgb_of (ns ! 3)) (ns ! 4 \<noteq> 0)]
      else [Clear_screen (rgb_of (ns ! 0))])"

definition draw_arity :: "token \<Rightarrow> nat option" where
  "draw_arity t =
     (if t = TDrawPixel then Some 3 else if t = TDrawLine then Some 5 else if t = TDrawRect then Some 6
      else if t = TDrawCircle then Some 5 else if t = TClearScreen then Some 1 else None)"

definition exec_draw :: "toks \<Rightarrow> nat \<Rightarrow> bstate \<Rightarrow> bstate option" where
  "exec_draw T k st =
     (let t = fst (T ! bip st)
      in do { (vs, st) \<leftarrow> eval_args k T (bstep st); Some (expect_semicolon T (bprint (draw_event t vs) st)) })"

text \<open>
  \<open>exec_block\<close> with its inner loops. \<open>loop_iter\<close> and \<open>while_iter\<close> are the loops of the statements \<open>loop\<close> and \<open>while\<close>.
\<close>

primrec loop_iter :: "nat \<Rightarrow> (bstate \<Rightarrow> bstate option) \<Rightarrow> toks \<Rightarrow> nat \<Rightarrow> nat \<Rightarrow> bstate \<Rightarrow> bstate option" where
  "loop_iter 0 block T tc start st = None"
| "loop_iter (Suc n) block T tc start st =
     do {
       st \<leftarrow> block (st\<lparr>bip := start\<rparr>);
       if bip st \<ge> tc then Some st
       else if fst (T ! bip st) = TRBrace then Some (bstep st)
       else loop_iter n block T tc start st
     }"

primrec while_iter :: "nat \<Rightarrow> (bstate \<Rightarrow> bstate option) \<Rightarrow> toks \<Rightarrow> nat \<Rightarrow> nat \<Rightarrow> bstate \<Rightarrow> bstate option" where
  "while_iter 0 block T cond_start body_start st = None"
| "while_iter (Suc n) block T cond_start body_start st =
     do {
       (cond, st') \<leftarrow> eval T (st\<lparr>bip := cond_start\<rparr>);
       if \<not> truthy cond then Some (st'\<lparr>bip := bip st\<rparr>)
       else do { st \<leftarrow> block (st'\<lparr>bip := body_start + 1\<rparr>); while_iter n block T cond_start body_start st }
     }"

text \<open>A braced block after a condition: run or skipped, then its closing brace.\<close>

definition braced :: "(bstate \<Rightarrow> bstate option) \<Rightarrow> toks \<Rightarrow> nat \<Rightarrow> bool \<Rightarrow> bstate \<Rightarrow> bstate option" where
  "braced block T tc run st =
     (if tok_is T tc TLBrace st then
        do {
          st \<leftarrow> (if run then block (bstep st) else Some (skip_block T (bstep st)));
          Some (skip_tok T tc TRBrace st)
        }
      else Some st)"

definition exec_if :: "(bstate \<Rightarrow> bstate option) \<Rightarrow> toks \<Rightarrow> nat \<Rightarrow> bstate \<Rightarrow> bstate option" where
  "exec_if block T tc st =
     do {
       (cond, st) \<leftarrow> eval T (bstep st);
       st \<leftarrow> braced block T tc (truthy cond) st;
       if tok_is T tc TElse st then braced block T tc (\<not> truthy cond) (bstep st) else Some st
     }"

definition exec_loop :: "nat \<Rightarrow> (bstate \<Rightarrow> bstate option) \<Rightarrow> toks \<Rightarrow> nat \<Rightarrow> bstate \<Rightarrow> bstate option" where
  "exec_loop n block T tc st =
     (let st = bstep st
      in do {
        st \<leftarrow> (if tok_is T tc TLBrace st then loop_iter n block T tc (bip st + 1) (bstep st) else Some st);
        Some (skip_tok T tc TRBrace st)
      })"

definition exec_while :: "nat \<Rightarrow> (bstate \<Rightarrow> bstate option) \<Rightarrow> toks \<Rightarrow> nat \<Rightarrow> bstate \<Rightarrow> bstate option" where
  "exec_while n block T tc st =
     (let st = bstep st; cond_start = bip st
      in do {
        (cond, st) \<leftarrow> eval T st;
        let body_start = bip st;
        if tok_is T tc TLBrace st then
          do {
            st \<leftarrow> while_iter n block T cond_start body_start (bstep st);
            Some (skip_tok T tc TRBrace (skip_block T st))
          }
        else Some st
      })"

primrec exec_block :: "nat \<Rightarrow> toks \<Rightarrow> nat \<Rightarrow> bstate \<Rightarrow> bstate option" where
  "exec_block 0 T tc st = None"
| "exec_block (Suc n) T tc st =
     (let tok = fst (T ! bip st); block = exec_block n T tc
      in if bip st \<ge> tc then Some st
      else if tok = TEof \<or> tok = TRBrace then Some st
      else if tok = TSemicolon then block (bstep st)
      else if tok = TPrint \<or> tok = TPrintln then exec_print T st \<bind> block
      else if tok = TLet then exec_let T tc st \<bind> block
      else if tok = TInput then exec_input T tc st \<bind> block
      else if draw_arity tok \<noteq> None then exec_draw T (the (draw_arity tok)) st \<bind> block
      else if tok = TIf then exec_if block T tc st \<bind> block
      else if tok = TLoop then exec_loop n block T tc st \<bind> block
      else if tok = TWhile then exec_while n block T tc st \<bind> block
      else if tok = TBreak then Some (break_block T tc st)
      else block (bstep st))"

text \<open>
  \<open>exec\<close>: the result is \<open>None\<close> when the lexer panics. Otherwise it is the run of the interpreter with some fuel, in
  which \<open>None\<close> means that it has not finished.
\<close>

definition barrel_exec :: "nat \<Rightarrow> bytes \<Rightarrow> bytes \<Rightarrow> bstate option option" where
  "barrel_exec fuel src keys =
     (case tokenize src of
        None \<Rightarrow> None
      | Some (toks, strbuf) \<Rightarrow>
          Some (exec_block fuel (toks @ replicate (MAX_TOKENS - length toks) (TEof, 0)) (length toks)
            \<lparr>bip = 0, bkeys = keys, bout = [], benv = [], bstr = strbuf\<rparr>))"

section \<open>Expressions are evaluated by precedence\<close>

text \<open>
  Expression trees, the value they mean, and their rendering as tokens with parentheses only where precedence
  (comparisons and logic 0, sums 1, products 2, atoms 3) and left association need them. The precedence \<open>prec\<close> and
  the meaning \<open>binop\<close> of the operators are written out here and do not look at the interpreter's tables: 64-bit
  arithmetic that wraps, division and remainder by zero give 0, comparisons and logic give 1 or 0.
\<close>

datatype bexpr = BNum u64 | BVar nat | BNeg bexpr | BNot bexpr | BBin token bexpr bexpr

definition prec :: "token \<Rightarrow> nat" where
  "prec op =
     (if op \<in> {TStar, TSlash, TMod} then 2 else if op \<in> {TPlus, TMinus} then 1
      else if op \<in> {TEqEq, TNe, TLt, TGt, TLe, TGe, TAndAnd, TOrOr} then 0 else 3)"

fun binop :: "token \<Rightarrow> u64 \<Rightarrow> u64 \<Rightarrow> u64" where
  "binop TStar a b = a * b"
| "binop TSlash a b = (if b = 0 then 0 else a div b)"
| "binop TMod a b = (if b = 0 then 0 else a mod b)"
| "binop TPlus a b = a + b"
| "binop TMinus a b = a - b"
| "binop TEqEq a b = of_bool (a = b)"
| "binop TNe a b = of_bool (a \<noteq> b)"
| "binop TLt a b = of_bool (a < b)"
| "binop TGt a b = of_bool (b < a)"
| "binop TLe a b = of_bool (a \<le> b)"
| "binop TGe a b = of_bool (b \<le> a)"
| "binop TAndAnd a b = of_bool (a \<noteq> 0 \<and> b \<noteq> 0)"
| "binop TOrOr a b = of_bool (a \<noteq> 0 \<or> b \<noteq> 0)"
| "binop _ a b = 0"

fun bexpr_ok :: "bexpr \<Rightarrow> bool" where
  "bexpr_ok (BNum v) = True"
| "bexpr_ok (BVar s) \<longleftrightarrow> s < 256"
| "bexpr_ok (BNeg a) = bexpr_ok a"
| "bexpr_ok (BNot a) = bexpr_ok a"
| "bexpr_ok (BBin op a b) \<longleftrightarrow> prec op < 3 \<and> bexpr_ok a \<and> bexpr_ok b"

fun denote :: "env \<Rightarrow> bexpr \<Rightarrow> bvalue" where
  "denote e (BNum v) = VNum v"
| "denote e (BVar s) = env_get s e"
| "denote e (BNeg a) = (case denote e a of VNum k \<Rightarrow> VNum (- k) | _ \<Rightarrow> VNil)"
| "denote e (BNot a) = (case denote e a of VNum k \<Rightarrow> VNum (of_bool (k = 0)) | _ \<Rightarrow> VNil)"
| "denote e (BBin op a b) = VNum (binop op (num_of (denote e a)) (num_of (denote e b)))"

fun render :: "nat \<Rightarrow> bexpr \<Rightarrow> toks" where
  "render p (BNum v) = [(TNumber, v)]"
| "render p (BVar s) = [(TIdent, word_of_nat s)]"
| "render p (BNeg a) = (TMinus, 0) # render 3 a"
| "render p (BNot a) = (TNot, 0) # render 3 a"
| "render p (BBin op a b) =
     (let ts = render (prec op) a @ (op, 0) # render (Suc (prec op)) b
      in if prec op < p then (TLParen, 0) # ts @ [(TRParen, 0)] else ts)"

text \<open>The interpreter's own tables by level, used in the proofs only.\<close>

definition level_ops :: "nat \<Rightarrow> optable" where
  "level_ops p = (if p = 0 then cmp_ops else if p = 1 then add_ops else if p = 2 then mul_ops else (\<lambda>_. None))"

definition eval_at :: "nat \<Rightarrow> evaluator \<Rightarrow> nat \<Rightarrow> evaluator" where
  "eval_at p ev = (if p = 0 then eval_cmp ev else if p = 1 then eval_add ev else if p = 2 then eval_mul ev else (\<lambda>n. eval_atom n ev))"

lemma eval_at_Suc: "p < 3 \<Longrightarrow> eval_at p ev = eval_level (eval_at (Suc p) ev) (level_ops p)"
  by (auto simp: eval_at_def level_ops_def eval_cmp_def eval_add_def eval_mul_def less_Suc_eq numeral_3_eq_3 numeral_2_eq_2)

text \<open>\<open>ends p t\<close>: the token \<open>t\<close> does not continue an expression of level \<open>p\<close>.\<close>

definition ends :: "nat \<Rightarrow> token \<Rightarrow> bool" where
  "ends p t \<longleftrightarrow> (\<forall>q. p \<le> q \<longrightarrow> level_ops q t = None)"

primrec spelled :: "toks \<Rightarrow> nat \<Rightarrow> toks \<Rightarrow> bool" where
  "spelled T i [] \<longleftrightarrow> i \<le> MAX_TOKENS"
| "spelled T i (t # ts) \<longleftrightarrow> i < MAX_TOKENS \<and> T ! i = t \<and> spelled T (Suc i) ts"

lemma spelled_le: "spelled T i ts \<Longrightarrow> i + length ts \<le> MAX_TOKENS"
  by (induction ts arbitrary: i) force+

lemma spelled_append: "spelled T i (xs @ ys) \<longleftrightarrow> spelled T i xs \<and> spelled T (i + length xs) ys"
  by (induction xs arbitrary: i) (force dest: spelled_le)+

definition at_ip :: "bstate \<Rightarrow> nat \<Rightarrow> bstate" where
  "at_ip st i = st\<lparr>bip := i\<rparr>"

lemma at_ip_simps [simp]: "bip (at_ip st i) = i" "bstep (at_ip st i) = at_ip st (Suc i)" "benv (at_ip st i) = benv st"
  by (simp_all add: at_ip_def bstep_def)

lemma render_nonempty: "0 < length (render p e)"
  by (cases e) (simp_all add: Let_def)

lemma eval_level_at:
  assumes "eval_at (Suc p) ev n T st = Some (v, st')" "p < 3"
  shows "eval_at p ev n T st = bin_loop n (eval_at (Suc p) ev) (level_ops p) T v st'"
  using assms by (simp add: eval_at_Suc eval_level_def)

lemma bin_loop_end: "0 < n \<Longrightarrow> ops (op_at T (bip st)) = None \<Longrightarrow> bin_loop n g ops T v st = Some (v, st)"
  by (cases n) simp_all

text \<open>
  \<open>evaluates p e\<close>: at every place where the rendering of \<open>e\<close> for level \<open>p\<close> stands and ends, the evaluator of that level
  computes its value. \<open>reduces p e\<close>: the loop of the level gets past it.
\<close>

definition evaluates :: "nat \<Rightarrow> bexpr \<Rightarrow> bool" where
  "evaluates p e \<longleftrightarrow> (\<forall>T st i m n. spelled T i (render p e) \<longrightarrow> ends p (op_at T (i + length (render p e))) \<longrightarrow>
     MAX_TOKENS - i < n \<longrightarrow> MAX_TOKENS + 1 - i \<le> m \<longrightarrow>
     eval_at p (eval_expr m) n T (at_ip st i) = Some (denote (benv st) e, at_ip st (i + length (render p e))))"

definition reduces :: "nat \<Rightarrow> bexpr \<Rightarrow> bool" where
  "reduces p e \<longleftrightarrow> (\<forall>T st i m n. spelled T i (render p e) \<longrightarrow> ends (Suc p) (op_at T (i + length (render p e))) \<longrightarrow>
     MAX_TOKENS - i < n \<longrightarrow> MAX_TOKENS + 1 - i \<le> m \<longrightarrow>
     (\<exists>k. MAX_TOKENS - (i + length (render p e)) < k \<and>
       eval_at p (eval_expr m) n T (at_ip st i) =
       bin_loop k (eval_at (Suc p) (eval_expr m)) (level_ops p) T (denote (benv st) e) (at_ip st (i + length (render p e)))))"

lemma ends_Suc: "ends p t \<Longrightarrow> ends (Suc p) t"
  by (simp add: ends_def)

lemma reduces_evaluates: "p < 3 \<Longrightarrow> reduces p e \<Longrightarrow> evaluates p e"
  unfolding evaluates_def
proof (intro allI impI)
  fix T st i m n
  assume p: "p < 3" and r: "reduces p e" and s: "spelled T i (render p e)" and e: "ends p (op_at T (i + length (render p e)))"
    and n: "MAX_TOKENS - i < n" and m: "MAX_TOKENS + 1 - i \<le> m"
  from r s ends_Suc [OF e] n m obtain k where "MAX_TOKENS - (i + length (render p e)) < k"
    "eval_at p (eval_expr m) n T (at_ip st i) = bin_loop k (eval_at (Suc p) (eval_expr m)) (level_ops p) T (denote (benv st) e)
      (at_ip st (i + length (render p e)))"
    unfolding reduces_def by blast
  then show "eval_at p (eval_expr m) n T (at_ip st i) = Some (denote (benv st) e, at_ip st (i + length (render p e)))"
    using e by (simp add: bin_loop_end ends_def)
qed

lemma evaluates_reduces:
  assumes "p < 3" "evaluates (Suc p) e" "render p e = render (Suc p) e"
  shows "reduces p e"
  unfolding reduces_def
proof (intro allI impI)
  fix T st i m n
  assume s: "spelled T i (render p e)" and e: "ends (Suc p) (op_at T (i + length (render p e)))"
    and n: "MAX_TOKENS - i < n" and m: "MAX_TOKENS + 1 - i \<le> m"
  have "eval_at (Suc p) (eval_expr m) n T (at_ip st i) = Some (denote (benv st) e, at_ip st (i + length (render p e)))"
    using assms(2) s e n m unfolding evaluates_def assms(3) by blast
  from eval_level_at [OF this assms(1)]
  show "\<exists>k. MAX_TOKENS - (i + length (render p e)) < k \<and>
       eval_at p (eval_expr m) n T (at_ip st i) =
       bin_loop k (eval_at (Suc p) (eval_expr m)) (level_ops p) T (denote (benv st) e) (at_ip st (i + length (render p e)))"
    using n by (intro exI [of _ n]) auto
qed

lemma evaluatesD:
  "evaluates p e \<Longrightarrow> spelled T i (render p e) \<Longrightarrow> ends p (op_at T (i + length (render p e))) \<Longrightarrow> MAX_TOKENS - i < n \<Longrightarrow>
    MAX_TOKENS + 1 - i \<le> m \<Longrightarrow>
    eval_at p (eval_expr m) n T (at_ip st i) = Some (denote (benv st) e, at_ip st (i + length (render p e)))"
  unfolding evaluates_def by blast

lemma evaluates_down: "p < 3 \<Longrightarrow> evaluates (Suc p) e \<Longrightarrow> render p e = render (Suc p) e \<Longrightarrow> evaluates p e"
  using evaluates_reduces reduces_evaluates by blast

lemma bool_num_of_bool: "bool_num b = of_bool b"
  by (simp add: bool_num_def)

lemma prec_ops: "prec op < 3 \<Longrightarrow> level_ops (prec op) op = Some (binop op)" "prec op < 3 \<Longrightarrow> ends (Suc (prec op)) op"
  by (cases op; auto simp: prec_def level_ops_def mul_ops_def add_ops_def cmp_ops_def bool_num_of_bool fun_eq_iff)
    (cases op; simp add: ends_def prec_def level_ops_def mul_ops_def add_ops_def cmp_ops_def)

lemma op_at_spelled: "spelled T i ((t, v) # ts) \<Longrightarrow> op_at T i = t"
  by (simp add: op_at_def)

lemma reduces_bin:
  assumes "prec op < 3" "reduces (prec op) a" "evaluates (Suc (prec op)) b"
  shows "reduces (prec op) (BBin op a b)"
  unfolding reduces_def
proof (intro allI impI)
  let ?q = "prec op" and ?e = "BBin op a b"
  fix T st i m n
  assume s: "spelled T i (render ?q ?e)" and e: "ends (Suc ?q) (op_at T (i + length (render ?q ?e)))"
    and n: "MAX_TOKENS - i < n" and m: "MAX_TOKENS + 1 - i \<le> m"
  let ?ra = "render ?q a" and ?rb = "render (Suc ?q) b" and ?ev = "eval_expr m"
  let ?j = "i + length ?ra"
  have r: "render ?q ?e = ?ra @ (op, 0) # ?rb" by simp
  have sa: "spelled T i ?ra" and sop: "spelled T ?j ((op, 0) # ?rb)" using s unfolding r spelled_append by simp_all
  have sb: "spelled T (Suc ?j) ?rb" and j: "?j < MAX_TOKENS" using sop by simp_all
  have f: "level_ops ?q op = Some (binop op)" by (rule prec_ops(1) [OF assms(1)])
  have "ends (Suc ?q) (op_at T ?j)" using prec_ops(2) [OF assms(1)] op_at_spelled [OF sop] by simp
  then obtain k where k: "MAX_TOKENS - ?j < k"
    "eval_at ?q ?ev n T (at_ip st i) = bin_loop k (eval_at (Suc ?q) ?ev) (level_ops ?q) T (denote (benv st) a) (at_ip st ?j)"
    using assms(2) sa n m unfolding reduces_def by blast
  then obtain k' where k': "k = Suc k'" by (cases k) auto
  have "eval_at (Suc ?q) ?ev k' T (at_ip st (Suc ?j)) = Some (denote (benv st) b, at_ip st (Suc ?j + length ?rb))"
  proof (rule evaluatesD [OF assms(3) sb])
    show "ends (Suc ?q) (op_at T (Suc ?j + length ?rb))" using e by (simp add: r add.assoc)
  qed (use k(1) k' j m in auto)
  then have "eval_at ?q ?ev n T (at_ip st i) = bin_loop k' (eval_at (Suc ?q) ?ev) (level_ops ?q) T (denote (benv st) ?e)
    (at_ip st (i + length (render ?q ?e)))"
    using k(2) k' f op_at_spelled [OF sop] by (simp add: r add.assoc)
  moreover have "MAX_TOKENS - (i + length (render ?q ?e)) < k'" using k(1) k' j by (simp add: r)
  ultimately show "\<exists>k. MAX_TOKENS - (i + length (render ?q ?e)) < k \<and> eval_at ?q ?ev n T (at_ip st i) =
    bin_loop k (eval_at (Suc ?q) ?ev) (level_ops ?q) T (denote (benv st) ?e) (at_ip st (i + length (render ?q ?e)))" by blast
qed

lemma ends_rparen: "ends p TRParen"
  by (simp add: ends_def level_ops_def mul_ops_def add_ops_def cmp_ops_def)

lemma evaluates_paren:
  assumes "prec op < 3" "evaluates 0 (BBin op a b)"
  shows "evaluates 3 (BBin op a b)"
  unfolding evaluates_def
proof (intro allI impI)
  let ?e = "BBin op a b"
  let ?ts = "render 0 ?e"
  fix T st i m n
  assume s: "spelled T i (render 3 ?e)" and n: "MAX_TOKENS - i < n" and m: "MAX_TOKENS + 1 - i \<le> m"
  have r: "render 3 ?e = (TLParen, 0) # ?ts @ [(TRParen, 0)]" using assms(1) by simp
  have i: "i < MAX_TOKENS" "T ! i = (TLParen, 0)" and st: "spelled T (Suc i) ?ts"
    and sr: "spelled T (Suc i + length ?ts) [(TRParen, 0)]"
    using s unfolding r spelled.simps spelled_append by simp_all
  obtain n' m' where nm: "n = Suc n'" "m = Suc m'" using n m i by (cases n; cases m) auto
  have rp: "op_at T (Suc i + length ?ts) = TRParen" using sr by (rule op_at_spelled)
  have "eval_at 0 (eval_expr m') m' T (at_ip st (Suc i)) = Some (denote (benv st) ?e, at_ip st (Suc i + length ?ts))"
    by (rule evaluatesD [OF assms(2) st]) (use rp ends_rparen m nm i in auto)
  then have "eval_expr m T (at_ip st (Suc i)) = Some (denote (benv st) ?e, at_ip st (Suc i + length ?ts))"
    by (simp add: nm eval_at_def del: denote.simps render.simps)
  then show "eval_at 3 (eval_expr m) n T (at_ip st i) = Some (denote (benv st) ?e, at_ip st (i + length (render 3 ?e)))"
    using i rp by (simp add: eval_at_def nm(1) r del: denote.simps render.simps)
qed

lemma evaluates_atom:
  "bexpr_ok (BVar v) \<Longrightarrow> evaluates 3 (BVar v)" "evaluates 3 (BNum k)"
  "evaluates 3 a \<Longrightarrow> evaluates 3 (BNeg a)" "evaluates 3 a \<Longrightarrow> evaluates 3 (BNot a)"
proof -
  have n: "\<exists>n'. n = Suc n'" if "MAX_TOKENS - i < n" for n i :: nat using that by (cases n) auto
  show "bexpr_ok (BVar v) \<Longrightarrow> evaluates 3 (BVar v)" "evaluates 3 (BNum k)"
    by (auto simp: evaluates_def eval_at_def dest!: n)
  have unary: "eval_at 3 (eval_expr m) n T (at_ip st i) = Some (f (denote (benv st) a), at_ip st (i + length ((t, 0) # render 3 a)))"
    if "evaluates 3 a" "spelled T i ((t, 0) # render 3 a)" "MAX_TOKENS - i < n" "MAX_TOKENS + 1 - i \<le> m"
      "ends 3 (op_at T (i + length ((t, 0 :: u64) # render 3 a)))"
      "t = TMinus \<and> f = (\<lambda>v. case v of VNum k \<Rightarrow> VNum (- k) | _ \<Rightarrow> VNil) \<or>
       t = TNot \<and> f = (\<lambda>v. case v of VNum k \<Rightarrow> VNum (of_bool (k = 0)) | _ \<Rightarrow> VNil)" for T st i m n t f
  proof -
    note h = that
    obtain n' where n': "n = Suc n'" using n [OF h(3)] by blast
    have i: "i < MAX_TOKENS" "T ! i = (t, 0)" and s: "spelled T (Suc i) (render 3 a)" using that(2) by simp_all
    have "eval_at 3 (eval_expr m) n' T (at_ip st (Suc i)) = Some (denote (benv st) a, at_ip st (Suc i + length (render 3 a)))"
      by (rule evaluatesD [OF that(1) s]) (use that n' i in auto)
    then show ?thesis using that(6) i by (auto simp: eval_at_def n' bool_num_of_bool split: bvalue.splits)
  qed
  show "evaluates 3 (BNeg a)" if "evaluates 3 a"
    unfolding evaluates_def [of 3 "BNeg a"] denote.simps render.simps
    using unary [OF that, where t = TMinus and f = "\<lambda>v. case v of VNum k \<Rightarrow> VNum (- k) | _ \<Rightarrow> VNil"] by blast
  show "evaluates 3 (BNot a)" if "evaluates 3 a"
    unfolding evaluates_def [of 3 "BNot a"] denote.simps render.simps
    using unary [OF that, where t = TNot and f = "\<lambda>v. case v of VNum k \<Rightarrow> VNum (of_bool (k = 0)) | _ \<Rightarrow> VNil"] by blast
qed

lemma evaluates_range:
  assumes "evaluates hi e" "hi \<le> 3" "lo \<le> hi" "\<And>p. lo \<le> p \<Longrightarrow> p < hi \<Longrightarrow> render p e = render (Suc p) e"
  shows "evaluates lo e"
  using assms(3)
proof (induction rule: inc_induct)
  case base
  then show ?case by (rule assms(1))
next
  case (step p)
  then show ?case using evaluates_down [of p e] assms(2) assms(4) [of p] by simp
qed

lemma all_levels:
  assumes "bexpr_ok e"
  shows "(\<forall>p \<le> 3. evaluates p e) \<and> (\<forall>p < 3. reduces p e)"
  using assms
proof (induction e)
  case (BBin op a b)
  let ?e = "BBin op a b" and ?q = "prec op"
  have q: "?q < 3" and a: "reduces ?q a" and b: "evaluates (Suc ?q) b" using BBin by simp_all
  have r: "reduces ?q ?e" by (rule reduces_bin [OF q a b])
  then have eq: "evaluates ?q ?e" using reduces_evaluates q by blast
  have low: "evaluates p ?e" if "p \<le> ?q" for p
    by (rule evaluates_range [OF eq _ that]) (use q in \<open>auto simp: Let_def\<close>)
  have e3: "evaluates 3 ?e" using evaluates_paren [OF q low [of 0]] by simp
  have "evaluates p ?e" if "?q < p" "p \<le> 3" for p
    by (rule evaluates_range [OF e3 _ that(2)]) (use that in \<open>auto simp: Let_def\<close>)
  then have all: "evaluates p ?e" if "p \<le> 3" for p using low that by (cases "p \<le> ?q") auto
  have "reduces p ?e" if "p < 3" for p
  proof (cases "p = ?q")
    case False
    then have "render p ?e = render (Suc p) ?e" by (auto simp: Let_def)
    then show ?thesis using evaluates_reduces [OF that, of ?e] all [of "Suc p"] that by simp
  qed (use r in simp)
  then show ?case using all by blast
next
  case (BNum v)
  have "evaluates p (BNum v)" if "p \<le> 3" for p by (rule evaluates_range [OF evaluates_atom(2) _ that]) simp_all
  then show ?case using evaluates_reduces [of _ "BNum v"] by simp
next
  case (BVar v)
  have "evaluates p (BVar v)" if "p \<le> 3" for p by (rule evaluates_range [OF evaluates_atom(1) [OF BVar] _ that]) simp_all
  then show ?case using evaluates_reduces [of _ "BVar v"] by simp
next
  case (BNeg a)
  have "evaluates p (BNeg a)" if "p \<le> 3" for p by (rule evaluates_range [OF evaluates_atom(3) _ that]) (use BNeg in simp_all)
  then show ?case using evaluates_reduces [of _ "BNeg a"] by simp
next
  case (BNot a)
  have "evaluates p (BNot a)" if "p \<le> 3" for p by (rule evaluates_range [OF evaluates_atom(4) _ that]) (use BNot in simp_all)
  then show ?case using evaluates_reduces [of _ "BNot a"] by simp
qed

lemma eval_render:
  assumes "bexpr_ok e" "spelled T (bip st) (render 0 e)" "ends 0 (op_at T (bip st + length (render 0 e)))"
  shows "eval T st = Some (denote (benv st) e, st\<lparr>bip := bip st + length (render 0 e)\<rparr>)"
proof -
  have st: "at_ip st (bip st) = st" by (simp add: at_ip_def)
  have "eval_at 0 (eval_expr 65) 65 T (at_ip st (bip st)) = Some (denote (benv st) e, at_ip st (bip st + length (render 0 e)))"
    by (rule evaluatesD) (use assms all_levels [OF assms(1)] in auto)
  then show ?thesis by (simp add: eval_def eval_fuel_def eval_at_def st at_ip_def numeral_eq_Suc)
qed

section \<open>Evaluation always returns\<close>

text \<open>
  On any token array without \<open>input\<close>, well-formed or not, \<open>eval_fuel\<close> suffices: every operand consumes a token or
  stands at the end.
\<close>

definition no_input :: "toks \<Rightarrow> bool" where
  "no_input T \<longleftrightarrow> (\<forall>i < MAX_TOKENS. fst (T ! i) \<noteq> TInput)"

definition returns :: "bstate \<Rightarrow> (bvalue \<times> bstate) option \<Rightarrow> bool" where
  "returns st r \<longleftrightarrow> (\<exists>v st'. r = Some (v, st') \<and> bip st \<le> bip st' \<and> (bip st < MAX_TOKENS \<longrightarrow> bip st < bip st') \<and>
     benv st' = benv st \<and> bout st' = bout st)"

definition total_at :: "toks \<Rightarrow> (nat \<Rightarrow> evaluator) \<Rightarrow> nat \<Rightarrow> bool" where
  "total_at T g i \<longleftrightarrow> (\<forall>n st. i \<le> bip st \<longrightarrow> MAX_TOKENS - bip st < n \<longrightarrow> returns st (g n T st))"

lemma op_at_TEof: "ops TEof = None \<Longrightarrow> ops (op_at T i) = Some f \<Longrightarrow> i < MAX_TOKENS"
  by (auto simp: op_at_def split: if_splits)

lemma bin_loop_total:
  assumes "total_at T g i" "ops TEof = None"
  shows "i \<le> bip st \<Longrightarrow> MAX_TOKENS - bip st < n \<Longrightarrow> \<exists>v' st'. bin_loop n g ops T v st = Some (v', st') \<and> bip st \<le> bip st' \<and>
    benv st' = benv st \<and> bout st' = bout st"
proof (induction n arbitrary: v st)
  case (Suc n)
  show ?case
  proof (cases "ops (op_at T (bip st))")
    case (Some f)
    have lt: "bip st < MAX_TOKENS" by (rule op_at_TEof [OF assms(2) Some])
    have "returns (bstep st) (g n T (bstep st))"
      using assms(1) Suc.prems lt unfolding total_at_def by (simp add: bstep_def)
    then obtain r st1 where r: "g n T (bstep st) = Some (r, st1)" "Suc (bip st) \<le> bip st1" "benv st1 = benv st" "bout st1 = bout st"
      by (auto simp: returns_def bstep_def)
    then show ?thesis using Suc.IH [of st1 "VNum (f (num_of v) (num_of r))"] Suc.prems lt Some by force
  qed simp
qed simp

lemma total_atD:
  "total_at T g i \<Longrightarrow> i \<le> bip st \<Longrightarrow> MAX_TOKENS - bip st < n \<Longrightarrow> returns st (g n T st)"
  by (simp add: total_at_def)

lemma eval_level_total:
  assumes "total_at T g i" "ops TEof = None"
  shows "total_at T (eval_level g ops) i"
  unfolding total_at_def
proof (intro allI impI)
  fix n and st :: bstate assume b: "i \<le> bip st" "MAX_TOKENS - bip st < n"
  obtain v st1 where r: "g n T st = Some (v, st1)" "bip st \<le> bip st1" "bip st < MAX_TOKENS \<longrightarrow> bip st < bip st1"
    "benv st1 = benv st" "bout st1 = bout st"
    using total_atD [OF assms(1) b] unfolding returns_def by blast
  obtain v' st' where "bin_loop n g ops T v st1 = Some (v', st')" "bip st1 \<le> bip st'" "benv st' = benv st1" "bout st' = bout st1"
    using bin_loop_total [where T = T and g = g and i = i and ops = ops, OF assms, of st1 n v] b diff_le_mono2 [OF r(2), of MAX_TOKENS] r(2)
    by (meson le_less_trans order_trans)
  then show "returns st (eval_level g ops n T st)" using r by (auto simp: eval_level_def returns_def)
qed

lemma eval_atom_total:
  assumes "no_input T" "\<And>st :: bstate. i < bip st \<Longrightarrow> bip st \<le> MAX_TOKENS \<Longrightarrow> returns st (ev T st)"
  shows "total_at T (\<lambda>n. eval_atom n ev) i"
proof -
  have "i \<le> bip st \<Longrightarrow> MAX_TOKENS - bip st < n \<Longrightarrow> returns st (eval_atom n ev T st)" for n st
  proof (induction n arbitrary: st)
    case (Suc n)
    show ?case
    proof (cases "bip st < MAX_TOKENS")
      case True
      have ni: "fst (T ! bip st) \<noteq> TInput" using assms(1) True by (simp add: no_input_def)
      have ih: "returns (bstep st) (eval_atom n ev T (bstep st))" using Suc True by (simp add: bstep_def)
      have "returns (bstep st) (ev T (bstep st))" using assms(2) [of "bstep st"] Suc.prems True by (simp add: bstep_def)
      then show ?thesis using True ni ih by (auto simp: returns_def bstep_def Let_def)
    qed (simp add: returns_def)
  qed simp
  then show ?thesis by (simp add: total_at_def)
qed

lemma eval_expr_total:
  assumes "no_input T"
  shows "MAX_TOKENS + 2 - bip st \<le> n \<Longrightarrow> bip st \<le> MAX_TOKENS \<Longrightarrow> returns st (eval_expr n T st)"
proof (induction n arbitrary: st)
  case (Suc n)
  have "total_at T (\<lambda>n'. eval_atom n' (eval_expr n)) (bip st)"
    by (rule eval_atom_total [OF assms]) (use Suc in auto)
  then have "total_at T (eval_cmp (eval_expr n)) (bip st)"
    unfolding eval_cmp_def eval_add_def eval_mul_def
    by (intro eval_level_total) (simp_all add: cmp_ops_def add_ops_def mul_ops_def)
  then show ?case using Suc.prems by (simp add: total_at_def)
qed simp

section \<open>Names\<close>

text \<open>
  A name is identified by where its text was copied to in the string buffer, and every token copies its own text. The
  positions therefore increase from token to token.
\<close>

definition name_positions :: "toks \<Rightarrow> nat list" where
  "name_positions ts = map (unat \<circ> snd) (filter (\<lambda>t. fst t = TIdent) ts)"

definition lex_inv :: "lex_state \<Rightarrow> bool" where
  "lex_inv s \<longleftrightarrow> sorted_wrt (<) (name_positions (lx_toks s)) \<and> (\<forall>p \<in> set (name_positions (lx_toks s)). p < lx_strpos s) \<and>
     lx_strpos s \<le> 256 \<and> length (lx_buf s) = 256"

lemma name_positions_snoc: "name_positions (ts @ [(t, v)]) = name_positions ts @ (if t = TIdent then [unat v] else [])"
  by (simp add: name_positions_def)

lemma put_tok_other: "put_tok t v s = Some s' \<Longrightarrow> t \<noteq> TIdent \<Longrightarrow> lex_inv s \<Longrightarrow> lex_inv s'"
  by (auto simp: put_tok_def lex_inv_def name_positions_snoc split: if_splits)

lemma store_text_len:
  "store_text text buf p = Some (buf', q, kept) \<Longrightarrow> p \<le> 256 \<Longrightarrow> length buf = 256 \<Longrightarrow> p < q \<and> q \<le> 256 \<and> length buf' = 256"
  by (auto simp: store_text_def Let_def split: if_splits)

lemma put_tok_stored:
  assumes "store_text text (lx_buf s) (lx_strpos s) = Some (buf, q, kept)" "lex_inv s"
    "put_tok t (word_of_nat (lx_strpos s)) (s\<lparr>lx_pos := e, lx_buf := buf, lx_strpos := q\<rparr>) = Some s'"
  shows "lex_inv s'"
proof -
  have q: "lx_strpos s < q" "q \<le> 256" "length buf = 256"
    using store_text_len [OF assms(1)] assms(2) by (auto simp: lex_inv_def)
  have "unat (word_of_nat (lx_strpos s) :: u64) = lx_strpos s" using q by (intro unat_word_of_nat) simp
  then show ?thesis
    using assms(2,3) q by (fastforce simp: put_tok_def lex_inv_def name_positions_snoc sorted_wrt_append split: if_splits)
qed

lemma lex_symbol_no_ident: "fst (lex_symbol src pos) \<noteq> TIdent"
  by (simp add: lex_symbol_def two_char_def Let_def)

lemma lex_token_inv: "lex_token src s = Some (chk, s') \<Longrightarrow> lex_inv s \<Longrightarrow> lex_inv s'"
proof -
  assume t: "lex_token src s = Some (chk, s')" and i: "lex_inv s"
  have "lex_inv (s\<lparr>lx_pos := p\<rparr>)" for p using i by (simp add: lex_inv_def)
  then show ?thesis
    using t put_tok_stored [OF _ i] put_tok_other lex_symbol_no_ident
    unfolding lex_token_def Let_def by (auto split: if_splits bind_splits)
qed

lemma tokenize_loop_inv: "tokenize_loop src s = Some s' \<Longrightarrow> lex_inv s \<Longrightarrow> lex_inv s'"
proof (induction src s rule: tokenize_loop.induct)
  case (1 src s)
  let ?s = "s\<lparr>lx_pos := skip_whitespace src (lx_pos s)\<rparr>"
  have i: "lex_inv ?s" using 1(3) by (simp add: lex_inv_def)
  show ?case
  proof (cases "peek src (lx_pos ?s) = 0")
    case True
    then show ?thesis using 1(2) i put_tok_other by (subst (asm) tokenize_loop.simps) (auto simp: Let_def)
  next
    case False
    then obtain chk t where t: "lex_token src ?s = Some (chk, t)"
      using 1(2) by (subst (asm) tokenize_loop.simps) (auto simp: Let_def split: option.splits)
    have "lex_inv t" by (rule lex_token_inv [OF t i])
    then show ?thesis
      using 1(1) [OF refl False t refl] 1(2) False t put_tok_other
      by (subst (asm) (2) tokenize_loop.simps) (auto simp: Let_def split: if_splits)
  qed
qed

lemma tokenize_names: "tokenize src = Some (ts, buf) \<Longrightarrow> sorted_wrt (<) (name_positions ts)"
  by (auto simp: tokenize_def split: bind_splits dest!: tokenize_loop_inv) (auto simp: lex_inv_def name_positions_def)

section \<open>Properties\<close>

text \<open>
  C33: A script that prints an expression prints its value: for every expression tree over numbers, variables, negation,
  logical not and the binary operators, whose rendering with minimal parentheses fits the token array, the statement
  \<open>print\<close> followed by that rendering writes exactly the text of the tree's value, computed with 64-bit wrap-around,
  precedence and left association, and the script ends.
\<close>

theorem barrel_prints_value:
  assumes "bexpr_ok e" "length (render 0 e) \<le> 62" "bip st = 0" "tc = length (render 0 e) + 2"
  shows "\<exists>st'. exec_block (Suc (Suc n)) ((TPrint, 0) # render 0 e @ replicate (63 - length (render 0 e)) (TEof, 0))
      tc st = Some st' \<and>
    bout st' = bout st @ map Put (value_text (bstr st) (denote (benv st) e))"
proof -
  let ?r = "render 0 e" and ?T = "(TPrint, 0) # render 0 e @ replicate (63 - length (render 0 e)) (TEof, 0)"
  have sp: "spelled ?T (Suc 0) ?r"
  proof -
    have "spelled (xs @ ts @ ys) (length xs) ts" if "length xs + length ts \<le> MAX_TOKENS" for xs ts ys :: toks
      using that
    proof (induction ts arbitrary: xs)
      case (Cons t ts)
      from Cons.IH [of "xs @ [t]"] Cons.prems show ?case by simp
    qed simp
    from this [of "[(TPrint, 0)]" ?r "replicate (63 - length ?r) (TEof, 0)"] assms(2) show ?thesis by simp
  qed
  have nx: "?T ! Suc (length ?r) = (TEof, 0)" using assms(2) by (simp add: nth_append)
  have ev: "eval ?T (bstep st) = Some (denote (benv st) e, st\<lparr>bip := Suc (length ?r)\<rparr>)"
    using eval_render [OF assms(1), of ?T "bstep st"] sp nx assms(2,3)
    by (simp add: bstep_def op_at_def ends_def level_ops_def mul_ops_def add_ops_def cmp_ops_def)
  show ?thesis
    using assms(2-4) nx
    by (simp add: exec_print_def ev expect_semicolon_def skip_tok_def tok_is_def bprint_def Let_def)
qed

theorem barrel_prints_value_witness:
  "\<exists>st'. exec_block 2 ((TPrint, 0) # render 0 (BBin TStar (BBin TPlus (BNum 1) (BNum 2)) (BNum 4)) @ replicate 56 (TEof, 0)) 9
      \<lparr>bip = 0, bkeys = [], bout = [], benv = [], bstr = []\<rparr> = Some st' \<and> bout st' = map Put (num_text 12)"
  using barrel_prints_value [of "BBin TStar (BBin TPlus (BNum 1) (BNum 2)) (BNum 4)" "\<lparr>bip = 0, bkeys = [], bout = [], benv = [], bstr = []\<rparr>" 9 0]
  by (simp add: prec_def value_text_def numeral_2_eq_2 del: exec_block.simps)

text \<open>
  Evaluation ends on every token array: without \<open>input\<close>, however malformed the tokens, \<open>eval_expr\<close> returns a value,
  prints nothing, changes no variable and has moved on by at least one token unless it stood at the end, so that the
  interpreter never evaluates the same place for ever.
\<close>

theorem barrel_eval_total:
  assumes "no_input T" "bip st \<le> MAX_TOKENS"
  shows "\<exists>v st'. eval T st = Some (v, st') \<and> bip st \<le> bip st' \<and> (bip st < MAX_TOKENS \<longrightarrow> bip st < bip st') \<and>
    benv st' = benv st \<and> bout st' = bout st"
  using eval_expr_total [OF assms(1), of st eval_fuel] assms(2) by (simp add: eval_def eval_fuel_def returns_def)

theorem barrel_eval_total_witness:
  "\<exists>v st'. eval (replicate 64 (TLParen, 0)) \<lparr>bip = 3, bkeys = [], bout = [], benv = [], bstr = []\<rparr> = Some (v, st') \<and> 3 < bip st'"
  using barrel_eval_total [of "replicate 64 (TLParen, 0)" "\<lparr>bip = 3, bkeys = [], bout = [], benv = [], bstr = []\<rparr>"]
  by (auto simp: no_input_def)

text \<open>
  No variable is ever visible: whatever the script, two mentions of a name are two different variables. The
  interpreter identifies a variable by the position of its name in the string buffer, and the lexer stores every mention
  at a position of its own.
\<close>

theorem barrel_mentions_are_distinct:
  assumes "tokenize src = Some (ts, buf)" "i < j" "j < length ts" "fst (ts ! i) = TIdent" "fst (ts ! j) = TIdent"
  shows "unat (snd (ts ! i)) \<noteq> unat (snd (ts ! j))"
proof -
  have split: "ts = take i ts @ ts ! i # drop (Suc i) ts" using assms(2,3) by (simp add: id_take_nth_drop)
  have "ts ! j \<in> set (drop (Suc i) ts)"
    using assms(2,3) by (auto simp: in_set_conv_nth intro!: exI [of _ "j - Suc i"])
  then have "unat (snd (ts ! j)) \<in> set (name_positions (drop (Suc i) ts))"
    using assms(5) by (auto simp: name_positions_def)
  moreover have "name_positions ts = name_positions (take i ts) @ unat (snd (ts ! i)) # name_positions (drop (Suc i) ts)"
    using assms(4) by (subst split) (simp add: name_positions_def)
  ultimately show ?thesis using tokenize_names [OF assms(1)] by (auto simp: sorted_wrt_append)
qed

theorem barrel_mentions_are_distinct_witness:
  "\<exists>ts buf. tokenize (bytes_of ''let x = 5; print x'') = Some (ts, buf) \<and> fst (ts ! 1) = TIdent \<and> fst (ts ! 6) = TIdent \<and>
    unat (snd (ts ! 1)) \<noteq> unat (snd (ts ! 6))"
proof -
  have "map_option fst (tokenize (bytes_of ''let x = 5; print x'')) =
    Some [(TLet, 0), (TIdent, 4), (TEq, 0), (TNumber, 5), (TSemicolon, 0), (TPrint, 6), (TIdent, 12), (TEof, 0)]"
    by code_simp
  then obtain buf where t: "tokenize (bytes_of ''let x = 5; print x'') =
    Some ([(TLet, 0), (TIdent, 4), (TEq, 0), (TNumber, 5), (TSemicolon, 0), (TPrint, 6), (TIdent, 12), (TEof, 0)], buf)"
    by auto
  from barrel_mentions_are_distinct [OF t, of 1 6] show ?thesis using t by simp
qed

lemma let_then_print_is_nil:
  "case barrel_exec 20 (bytes_of ''let x = 5; print x'') [] of
     Some (Some st) \<Rightarrow> bout st = map Put (bytes_of ''nil'') | _ \<Rightarrow> False"
  by code_simp

lemma break_block_at: "\<lbrakk>Suc i < tc; fst (T ! Suc i) = TRBrace; bip st = i\<rbrakk> \<Longrightarrow> break_block T tc st = st\<lparr>bip := i + 2\<rparr>"
  by (simp add: break_block_def skip_braces.simps)

text \<open>
  \<open>break\<close> does not leave a loop: the statement \<open>loop { break }\<close>, unless a closing brace follows it, runs forever.
  \<open>break\<close> moves past the loop's closing brace, but only finding that brace ends the loop.
\<close>

theorem barrel_break_never_leaves_loop:
  assumes "map fst (take 4 (drop i T)) = [TLoop, TLBrace, TBreak, TRBrace]" "i + 4 < tc" "tc \<le> length T"
    "fst (T ! (i + 4)) \<noteq> TRBrace" "bip st = i"
  shows "exec_block fuel T tc st = None"
proof -
  have t: "fst (T ! (i + k)) = [TLoop, TLBrace, TBreak, TRBrace] ! k" if "k < 4" for k
    using arg_cong [OF assms(1), of "\<lambda>l. l ! k"] assms(2,3) that by simp
  have body: "exec_block m T tc (s\<lparr>bip := i + 2\<rparr>) = (if m = 0 then None else Some (s\<lparr>bip := i + 4\<rparr>))" for m s
  proof (cases m)
    case (Suc n)
    have "break_block T tc (s\<lparr>bip := i + 2\<rparr>) = s\<lparr>bip := i + 4\<rparr>"
      using break_block_at [of "i + 2" tc T "s\<lparr>bip := i + 2\<rparr>"] t [of 3] assms(2) by (simp add: eval_nat_numeral)
    then show ?thesis using t [of 2] assms(2) by (simp add: Suc Let_def draw_arity_def)
  qed simp
  have iter: "loop_iter n (exec_block m T tc) T tc (i + 2) s = None" for n m s
    using assms(2,4) by (induction n arbitrary: s) (auto simp: body [simplified])
  show ?thesis
  proof (cases fuel)
    case (Suc n)
    have "exec_loop n (exec_block n T tc) T tc st = None"
      using t [of 1] assms(2,5) iter by (simp add: exec_loop_def tok_is_def bstep_def)
    then show ?thesis using t [of 0] assms(2,5) by (simp add: Suc Let_def draw_arity_def)
  qed simp
qed

theorem barrel_break_never_leaves_loop_witness:
  "barrel_exec 100 (bytes_of ''loop { break }'') [] = Some None"
proof -
  have "map_option fst (tokenize (bytes_of ''loop { break }'')) =
    Some [(TLoop, 0), (TLBrace, 0), (TBreak, 5), (TRBrace, 0), (TEof, 0)]"
    by code_simp
  then obtain buf where t: "tokenize (bytes_of ''loop { break }'') =
    Some ([(TLoop, 0), (TLBrace, 0), (TBreak, 5), (TRBrace, 0), (TEof, 0)], buf)" by auto
  show ?thesis
    unfolding barrel_exec_def t option.case prod.case option.inject
    by (rule barrel_break_never_leaves_loop [where i = 0]) simp_all
qed

lemma sixty_five_numbers_panic: "tokenize (concat (replicate 65 (bytes_of ''1 ''))) = None"
  by code_simp

end
