(* ===== verification/Inet.thy ===== *)
theory Inet
  imports Text
begin

unbundle bit_operations_syntax

text \<open>
  The shared base of the network stack, \<open>src/kernel/src/net/mod.rs\<close>: addresses, the Internet checksum,
  the text of an address and the table of resolved addresses, with the big-endian fields that
  \<open>net/eth.rs\<close>, \<open>net/dhcp.rs\<close> and \<open>net/dns.rs\<close> put into packets.

  Addresses are arrays of four and six bytes and are modelled as tuples, so that their length is
  part of the type. The lemmas show that the checksum field makes a header verify as RFC 1071
  asks, and that big-endian fields are read back as they were written.
\<close>

section \<open>Big-endian fields\<close>

definition be16 :: "u16 \<Rightarrow> bytes" where
  "be16 v = [ucast (drop_bit 8 v), ucast (v AND 0xFF)]"

definition from_be16 :: "u8 \<Rightarrow> u8 \<Rightarrow> u16" where
  "from_be16 a b = push_bit 8 (ucast a) OR ucast b"

definition be32 :: "u32 \<Rightarrow> bytes" where
  "be32 v = [ucast (drop_bit 24 v), ucast (drop_bit 16 v), ucast (drop_bit 8 v), ucast (v AND 0xFF)]"

definition from_be32 :: "u8 \<Rightarrow> u8 \<Rightarrow> u8 \<Rightarrow> u8 \<Rightarrow> u32" where
  "from_be32 a b c d = push_bit 24 (ucast a) OR push_bit 16 (ucast b) OR push_bit 8 (ucast c) OR ucast d"

lemma length_be [simp]: "length (be16 v) = 2" "length (be32 w) = 4"
  by (simp_all add: be16_def be32_def)

lemma from_be16_be16 [simp]: "from_be16 (ucast (drop_bit 8 v)) (ucast (v AND 0xFF)) = v"
proof (rule bit_word_eqI)
  fix i assume "i < LENGTH(16)"
  then show "bit (from_be16 (ucast (drop_bit 8 v)) (ucast (v AND 0xFF))) i = bit v i"
    by (auto simp: from_be16_def bit_simps dest: bit_imp_le_length)
qed

lemma from_be32_be32 [simp]:
  "from_be32 (ucast (drop_bit 24 v)) (ucast (drop_bit 16 v)) (ucast (drop_bit 8 v)) (ucast (v AND 0xFF)) = v"
proof (rule bit_word_eqI)
  fix i assume "i < LENGTH(32)"
  then consider "i < 8" | "8 \<le> i \<and> i < 16" | "16 \<le> i \<and> i < 24" | "24 \<le> i \<and> i < 32" by fastforce
  then show "bit (from_be32 (ucast (drop_bit 24 v)) (ucast (drop_bit 16 v)) (ucast (drop_bit 8 v)) (ucast (v AND 0xFF))) i = bit v i"
    by cases (auto simp: from_be32_def bit_simps)
qed

section \<open>Addresses\<close>

type_synonym ip4 = "u8 \<times> u8 \<times> u8 \<times> u8"
type_synonym mac6 = "u8 \<times> u8 \<times> u8 \<times> u8 \<times> u8 \<times> u8"

fun ip_bytes :: "ip4 \<Rightarrow> bytes" where
  "ip_bytes (a, b, c, d) = [a, b, c, d]"

fun mac_bytes :: "mac6 \<Rightarrow> bytes" where
  "mac_bytes (a, b, c, d, e, f) = [a, b, c, d, e, f]"

text \<open>\<open>[p[i], p[i+1], \<dots>]\<close>: the array literals that read an address out of a packet.\<close>

definition ip_at :: "nat \<Rightarrow> bytes \<Rightarrow> ip4" where
  "ip_at i p = (p ! i, p ! (i + 1), p ! (i + 2), p ! (i + 3))"

definition mac_at :: "nat \<Rightarrow> bytes \<Rightarrow> mac6" where
  "mac_at i p = (p ! i, p ! (i + 1), p ! (i + 2), p ! (i + 3), p ! (i + 4), p ! (i + 5))"

fun ip_eq :: "ip4 \<Rightarrow> ip4 \<Rightarrow> bool" where
  "ip_eq (a0, a1, a2, a3) (b0, b1, b2, b3) \<longleftrightarrow> a0 = b0 \<and> a1 = b1 \<and> a2 = b2 \<and> a3 = b3"

lemma ip_eq_iff [simp]: "ip_eq a b \<longleftrightarrow> a = b"
  by (cases a; cases b) auto

lemma length_addr [simp]: "length (ip_bytes ip) = 4" "length (mac_bytes mac) = 6"
  by (cases ip; simp) (cases mac; simp)

lemma addr_at [simp]: "ip_at (length p) (p @ ip_bytes ip @ q) = ip" "mac_at (length p) (p @ mac_bytes mac @ q) = mac"
  by (cases ip; simp add: ip_at_def nth_append) (cases mac; simp add: mac_at_def nth_append)

section \<open>The checksum\<close>

fun sum16 :: "u32 \<Rightarrow> bytes \<Rightarrow> u32" where
  "sum16 s [] = s"
| "sum16 s [a] = s + push_bit 8 (ucast a)"
| "sum16 s (a # b # bs) = sum16 (s + ucast (from_be16 a b)) bs"

function fold16 :: "u32 \<Rightarrow> u32" where
  "fold16 s = (if drop_bit 16 s \<noteq> 0 then fold16 ((s AND 0xFFFF) + drop_bit 16 s) else s)"
  by auto

lemma and_ffff: "unat (s AND 0xFFFF) = unat (s :: u32) mod 65536"
proof -
  have "s AND 0xFFFF = take_bit 16 s" by (simp add: take_bit_eq_mask mask_eq_decr_exp)
  then show ?thesis by (simp add: take_bit_eq_mod unat_mod)
qed

lemma unat_drop16: "unat (drop_bit 16 s) = unat (s :: u32) div 65536"
  by (simp add: drop_bit_eq_div unat_div)

lemma fold16_step: "unat ((s AND 0xFFFF) + drop_bit 16 s :: u32) = unat s mod 65536 + unat s div 65536"
proof -
  have "unat s < 2 ^ 32" using unsigned_less [of s] by simp
  then have "unat s div 65536 < 65536" by simp
  then have "unat (s AND 0xFFFF) + unat (drop_bit 16 s) < 2 ^ LENGTH(32)" 
    unfolding and_ffff unat_drop16 by (simp add: trans_less_add2)
  then have "unat ((s AND 0xFFFF) + drop_bit 16 s :: u32) = unat (s AND 0xFFFF) + unat (drop_bit 16 s)"
    by (rule unat_add_lem [THEN iffD1])
  then show ?thesis by (simp only: and_ffff unat_drop16)
qed

lemma drop16_nonzero: "drop_bit 16 s \<noteq> 0 \<longleftrightarrow> 65536 \<le> unat (s :: u32)"
proof -
  have "drop_bit 16 s \<noteq> 0 \<longleftrightarrow> unat (drop_bit 16 s) \<noteq> 0" by (simp add: unat_eq_zero)
  also have "\<dots> \<longleftrightarrow> unat s div 65536 \<noteq> 0" by (simp only: unat_drop16)
  also have "\<dots> \<longleftrightarrow> 65536 \<le> unat s" by (simp add: div_eq_0_iff not_less)
  finally show ?thesis .
qed

termination fold16
proof (relation "measure unat", goal_cases)
  case (2 s)
  then have "65536 \<le> unat s" by (simp add: drop16_nonzero)
  then have "unat s mod 65536 + unat s div 65536 < unat s"
    using div_mult_mod_eq [of "unat s" 65536] div_greater_zero_iff [of "unat s" 65536] by linarith
  then show ?case by (simp only: in_measure fold16_step)
qed simp

declare fold16.simps [simp del]

definition ip_checksum :: "bytes \<Rightarrow> u16" where
  "ip_checksum buf = NOT (ucast (fold16 (sum16 0 buf)))"

lemma fold16_props:
  "unat (fold16 s) < 65536 \<and> unat (fold16 s) mod 65535 = unat s mod 65535 \<and> (unat (fold16 s) = 0 \<longleftrightarrow> unat s = 0)"
proof (induction s rule: fold16.induct)
  case (1 s)
  show ?case
  proof (cases "drop_bit 16 s = 0")
    case True
    then have "\<not> 65536 \<le> unat s" using drop16_nonzero by blast
    then show ?thesis using True by (simp add: fold16.simps)
  next
    case False
    let ?t = "(s AND 0xFFFF) + drop_bit 16 s"
    have t: "unat ?t = unat s mod 65536 + unat s div 65536" by (rule fold16_step)
    have "unat s mod 65535 = (unat s mod 65536 + unat s div 65536) mod 65535"
    proof -
      have "unat s = unat s div 65536 * 65535 + (unat s mod 65536 + unat s div 65536)"
        using div_mult_mod_eq [of "unat s" 65536] by linarith
      then show ?thesis by (metis mod_mult_self3)
    qed
    moreover have "unat s mod 65536 + unat s div 65536 = 0 \<longleftrightarrow> unat s = 0"
      using div_mult_mod_eq [of "unat s" 65536] by auto
    ultimately show ?thesis using 1 [OF False] False t by (subst (1 2 3) fold16.simps) simp
  qed
qed

text \<open>The sum of the sixteen-bit words, as a number.\<close>

fun words_sum :: "bytes \<Rightarrow> nat" where
  "words_sum [] = 0"
| "words_sum [a] = unat a * 256"
| "words_sum (a # b # bs) = unat a * 256 + unat b + words_sum bs"

lemma unat_ucast_up: "LENGTH('a) \<le> LENGTH('b) \<Longrightarrow> unat (ucast (w :: 'a::len word) :: 'b::len word) = unat w"
  by (simp add: unsigned_ucast_eq) (meson order_less_le_trans power_increasing_iff
      one_less_numeral_iff semiring_norm(76) take_bit_nat_eq_self unsigned_less)

lemma unat_push8: "LENGTH('a) \<ge> 16 \<Longrightarrow> unat (push_bit 8 (ucast (a :: u8)) :: 'a::len word) = unat a * 256"
proof -
  assume l: "LENGTH('a) \<ge> 16"
  have "unat a < 256" by (rule unat_u8)
  then have "unat a * 256 < 2 ^ 16" by simp
  also have "(2 :: nat) ^ 16 \<le> 2 ^ LENGTH('a)" using l by (intro power_increasing) auto
  finally have b: "unat a * 256 < 2 ^ LENGTH('a)" .
  have u: "unat (ucast a :: 'a word) = unat a" using l by (intro unat_ucast_up) simp
  have "push_bit 8 (ucast a :: 'a word) = word_of_nat (unat a * 256)"
    using u by (simp add: push_bit_eq_mult)
  then show ?thesis using b by (simp only: unat_of_nat mod_less)
qed

lemma unat_from_be16: "unat (from_be16 a b) = unat a * 256 + unat b"
proof -
  have "push_bit 8 (ucast a) AND ucast b = (0 :: u16)"
    by (rule bit_word_eqI) (auto simp: bit_simps dest: bit_imp_le_length)
  then have "from_be16 a b = push_bit 8 (ucast a) + ucast b"
    unfolding from_be16_def by (subst disjunctive_add) (auto simp: bit_eq_iff bit_simps dest: bit_imp_le_length)
  moreover have "unat a * 256 + unat b < 2 ^ 16"
    using unat_u8 [of a] unat_u8 [of b] by simp
  ultimately show ?thesis
    by (simp add: unat_push8 unat_ucast_up) (subst unat_add_lem [THEN iffD1]; simp add: unat_push8 unat_ucast_up)
qed

lemma words_sum_le: "words_sum bs \<le> 65535 * length bs"
proof (induction bs rule: words_sum.induct)
  case (2 a) then show ?case using unat_u8 [of a] by simp
next
  case (3 a b bs) then show ?case using unat_u8 [of a] unat_u8 [of b] by simp
qed simp

lemma unat_sum16:
  "unat s + words_sum bs < 2 ^ 32 \<Longrightarrow> unat (sum16 s bs) = unat s + words_sum bs"
proof (induction s bs rule: sum16.induct)
  case (2 s a)
  then show ?case by (subst sum16.simps, subst unat_add_lem [THEN iffD1]) (simp_all add: unat_push8)
next
  case (3 s a b bs)
  have u: "unat (ucast (from_be16 a b) :: u32) = unat a * 256 + unat b"
    by (simp add: unat_ucast_up unat_from_be16)
  have "unat (s + ucast (from_be16 a b)) = unat s + (unat a * 256 + unat b)"
    using 3(2) u by (subst unat_add_lem [THEN iffD1]) simp_all
  then show ?case using 3 by simp
qed simp

lemma words_sum_append: "even (length xs) \<Longrightarrow> words_sum (xs @ ys) = words_sum xs + words_sum ys"
  by (induction xs rule: words_sum.induct) auto

lemma words_sum_be16: "words_sum (be16 v @ ys) = unat v + words_sum ys"
  using unat_from_be16 [of "ucast (drop_bit 8 v)" "ucast (v AND 0xFF)"] by (simp add: be16_def)

lemma unat_not16: "unat (NOT w) = 65535 - unat (w :: u16)"
proof -
  have "unat w \<le> unat (- 1 :: u16)" using word_order.extremum [of w] by (simp only: word_le_nat_alt)
  then have "w \<le> - 1" by (simp only: word_le_nat_alt)
  moreover have "NOT w = - 1 - w" by (simp add: not_eq_complement)
  ultimately have "unat (NOT w) = unat (- 1 :: u16) - unat w" by (simp only: unat_sub)
  moreover have "unat (- 1 :: u16) = 65535" by (simp add: unsigned_minus_1_eq_mask mask_eq_exp_minus_1)
  ultimately show ?thesis by simp
qed

lemma unat_checksum:
  assumes "length bs \<le> 65536"
  obtains r where "unat (ip_checksum bs) = 65535 - r" "r < 65536"
    "r mod 65535 = words_sum bs mod 65535" "r = 0 \<longleftrightarrow> words_sum bs = 0"
proof
  let ?f = "fold16 (sum16 0 bs)"
  have s: "unat (sum16 0 bs) = words_sum bs"
    using words_sum_le [of bs] assms by (subst unat_sum16) simp_all
  note f = fold16_props [of "sum16 0 bs", unfolded s]
  show "unat ?f < 65536" "unat ?f mod 65535 = words_sum bs mod 65535" "unat ?f = 0 \<longleftrightarrow> words_sum bs = 0"
    using f by blast+
  then have u: "unat (ucast ?f :: u16) = unat ?f"
    by (simp add: unsigned_ucast_eq take_bit_nat_eq_self)
  show "unat (ip_checksum bs) = 65535 - unat ?f"
    unfolding ip_checksum_def unat_not16 u by (rule refl)
qed

text \<open>
  A message whose checksum field, at an even offset, was zero while the checksum was computed
  verifies: the checksum over the message with the field filled in is zero.
\<close>

lemma checksum_verifies:
  assumes "even (length pre)" "length pre + length post < 65000"
  shows "ip_checksum (pre @ be16 (ip_checksum (pre @ be16 0 @ post)) @ post) = 0"
proof -
  let ?c = "ip_checksum (pre @ be16 0 @ post)" and ?S = "words_sum pre + words_sum post"
  let ?m = "pre @ be16 ?c @ post"
  have z: "words_sum (pre @ be16 0 @ post) = ?S"
    using assms(1) by (simp add: words_sum_append words_sum_be16)
  obtain r where r: "unat ?c = 65535 - r" "r < 65536" "r mod 65535 = ?S mod 65535" "r = 0 \<longleftrightarrow> ?S = 0"
    by (rule unat_checksum [of "pre @ be16 0 @ post", unfolded z]) (use assms in simp_all)
  obtain q where q: "unat (ip_checksum ?m) = 65535 - q" "q < 65536" "q mod 65535 = words_sum ?m mod 65535" "q = 0 \<longleftrightarrow> words_sum ?m = 0"
    by (rule unat_checksum [of ?m]) (use assms in simp_all)
  have m: "words_sum ?m = ?S + (65535 - r)"
    using assms(1) r(1) by (simp add: words_sum_append words_sum_be16)
  have "(?S + (65535 - r)) mod 65535 = (r + (65535 - r)) mod 65535"
    using r(3) by (metis mod_add_left_eq)
  then have z: "q mod 65535 = 0" using q(3) m r(2) by simp
  have "words_sum ?m \<noteq> 0" using m r by auto
  then have "q \<noteq> 0" using q(4) by simp
  then have "q = 65535" using z q(2) by (auto elim!: dvdE simp: mod_eq_0_iff_dvd)
  then have "unat (ip_checksum ?m) = 0" using q(1) by simp
  then show ?thesis by (simp add: unat_eq_zero)
qed

section \<open>The text of an address\<close>

definition fmt_push :: "nat \<Rightarrow> u8 \<Rightarrow> bytes \<Rightarrow> bytes" where
  "fmt_push cap c out = (if length out < cap then out @ [c] else out)"

fun fmt_digits :: "nat \<Rightarrow> nat \<Rightarrow> nat \<Rightarrow> bool \<Rightarrow> bytes \<Rightarrow> bytes" where
  "fmt_digits cap v d printed out =
     (if d > 0
      then let digit = v div d mod 10
           in if printed \<or> digit > 0 \<or> d = 1
              then fmt_digits cap v (d div 10) True (fmt_push cap (0x30 + word_of_nat digit) out)
              else fmt_digits cap v (d div 10) printed out
      else out)"

declare fmt_digits.simps [simp del]

definition fmt_ip :: "nat \<Rightarrow> ip4 \<Rightarrow> bytes" where
  "fmt_ip cap ip = fold (\<lambda>(i, v) out. fmt_digits cap (unat v) 100 False (if i > 0 then fmt_push cap 0x2E out else out))
     (zip [0 :: nat, 1, 2, 3] (ip_bytes ip)) []"

text \<open>Given room for three characters, a byte is written as the decimal text \<open>write_num\<close> gives.\<close>

lemma fmt_digits_rev:
  "length out + 3 \<le> cap \<Longrightarrow> fmt_digits cap v 100 False out = out @ fmt_digits 3 v 100 False []"
  by (simp add: fmt_digits.simps [of _ _ 100] fmt_digits.simps [of _ _ 10] fmt_digits.simps [of _ _ "Suc 0"]
      fmt_digits.simps [of _ _ 0] fmt_push_def Let_def)

lemma ucast_of_unat: "ucast (w :: 'a::len word) = (word_of_nat (unat w) :: 'b::len word)"
  by simp

lemma decimal_nat:
  "v < 2 ^ 64 \<Longrightarrow> decimal (word_of_nat v) acc =
     (if v = 0 then acc else decimal (word_of_nat (v div 10)) ((0x30 + word_of_nat (v mod 10)) # acc))"
proof -
  assume v: "v < 2 ^ 64"
  then have u: "unat (word_of_nat v :: u64) = v" by simp
  have d: "(word_of_nat v :: u64) div 10 = word_of_nat (v div 10)"
    using v by (simp add: word_unat_eq_iff unat_div u)
  have "unat (word_of_nat v mod 10 :: u64) = v mod 10" by (simp add: unat_mod u)
  then have m: "ucast (word_of_nat v mod 10 :: u64) = (word_of_nat (v mod 10) :: u8)"
    by (metis ucast_of_unat)
  have "(word_of_nat v :: u64) > 0 \<longleftrightarrow> v \<noteq> 0" by (simp only: word_less_nat_alt u unsigned_0 neq0_conv)
  then show ?thesis by (subst decimal.simps) (simp add: d m)
qed

lemma fmt_digits_num_text_nat:
  assumes "v < 256"
  shows "fmt_digits 3 v 100 False [] = num_text (word_of_nat v)"
proof -
  have n: "num_text (word_of_nat v) = (if v = 0 then [0x30] else decimal (word_of_nat v) [])"
    using assms unat_word_of_nat [of v] by (cases "v = 0") (auto simp: num_text_def simp flip: unat_eq_zero)
  have z: "decimal 0 acc = acc" for acc by (subst decimal.simps) simp
  have b: "v < 2 ^ 64" "v div 10 < 2 ^ 64" "v div 100 < 2 ^ 64" using assms by auto
  have q: "v div 10 div 10 = v div 100" by (simp add: div_mult2_eq [symmetric])
  note steps = fmt_digits.simps [of _ _ 100] fmt_digits.simps [of _ _ 10] fmt_digits.simps [of _ _ "Suc 0"]
    fmt_digits.simps [of _ _ 0]
  consider "v < 10" | "10 \<le> v \<and> v < 100" | "100 \<le> v" by linarith
  then show ?thesis
  proof cases
    case 1
    then show ?thesis by (simp add: n z decimal_nat steps fmt_push_def)
  next
    case 2
    then have "v div 10 mod 10 = v div 10" "v div 10 > 0" "v div 10 div 10 = 0" by auto
    then show ?thesis using 2 b by (simp add: n z decimal_nat steps fmt_push_def)
  next
    case 3
    then have "v div 100 mod 10 = v div 100" "v div 100 > 0" "v div 100 div 10 = 0" "v div 10 > 0" using assms by auto
    then show ?thesis using 3 b q by (simp add: n z decimal_nat steps fmt_push_def)
  qed
qed

lemma fmt_digits_num_text:
  assumes "length out + 3 \<le> cap"
  shows "fmt_digits cap (unat (a :: u8)) 100 False out = out @ num_text (ucast a)"
proof -
  have "ucast a = (word_of_nat (unat a) :: u64)" by (rule ucast_of_unat)
  then show ?thesis
    by (simp only: fmt_digits_rev [OF assms] fmt_digits_num_text_nat [OF unat_u8])
qed

end
