(* ===== verification/Ethernet.thy ===== *)
theory Ethernet
  imports Inet
begin

unbundle bit_operations_syntax

text \<open>
  The protocol code of \<open>src/kernel/src/net/eth.rs\<close>: Ethernet frames, the ARP cache and ARP packets, IPv4,
  UDP and the single TCP connection.

  The network card is reached through two calls of \<open>net/nic.rs\<close>: \<open>nic::send\<close>, which appends a frame to
  \<open>nic_sent\<close>, and \<open>nic::poll_rx\<close>, which removes the next element of \<open>nic_frames\<close>, the results of the coming
  polls (an empty list stands for a poll that finds nothing, and so does the end of the list). The
  timer is the list \<open>ticks\<close> of the values that the coming calls of \<open>get_tick_count\<close> read. What is written
  to the terminal is \<open>printed\<close>.

  Waiting for an ARP answer handles the frames that arrive meanwhile, and handling one may wait for
  ARP again: \<open>handle_rx\<close> calls itself through \<open>arp_resolve\<close>. The functions between the two take the
  receiver as an argument, and \<open>handle_rx n\<close> is the receiver with at most \<open>n\<close> nested calls; it is
  shown that one more than the number of frames that are still to come is always enough.
\<close>

section \<open>Outcomes\<close>

text \<open>
  A call ends with a value, panics on an index or slice out of range, or waits at a point where
  the given timer readings are used up. \<open>Deep\<close> is the result of a receiver with no nesting left.
\<close>

datatype 'a run = Ends 'a | Panics | Waits | Deep

fun andThen :: "'a run \<Rightarrow> ('a \<Rightarrow> 'b run) \<Rightarrow> 'b run" where
  "andThen (Ends x) f = f x"
| "andThen Panics f = Panics"
| "andThen Waits f = Waits"
| "andThen Deep f = Deep"

section \<open>State\<close>

record arp_entry =
  arp_ip :: ip4
  arp_mac :: mac6
  arp_valid :: bool

record dns_entry =
  dns_valid :: bool
  dns_ip :: ip4

text \<open>The callbacks that are ever registered.\<close>

datatype udp_callback = Dns_callback

record udp_handler =
  handler_port :: u16
  handler_callback :: udp_callback

abbreviation (input) TCP_CLOSED :: u8 where "TCP_CLOSED \<equiv> 0"
abbreviation (input) TCP_SYN_SENT :: u8 where "TCP_SYN_SENT \<equiv> 1"
abbreviation (input) TCP_ESTABLISHED :: u8 where "TCP_ESTABLISHED \<equiv> 2"
abbreviation (input) TCP_FIN_WAIT :: u8 where "TCP_FIN_WAIT \<equiv> 3"

record tcp_conn =
  tcp_st :: u8
  tcp_dst_ip :: ip4
  tcp_dst_port :: u16
  tcp_src_port :: u16
  tcp_seq :: u32
  tcp_ack :: u32
  tcp_rxbuf :: bytes
  tcp_rxlen :: nat

record net =
  OUR_MAC :: mac6
  OUR_IP :: ip4
  GATEWAY :: ip4
  DNS_SERVER :: ip4
  NETMASK :: ip4
  UPTIME_SECS :: u64
  DNS_CACHE :: "dns_entry list"
  ARP_CACHE :: "arp_entry list"
  UDP_HANDLERS :: "udp_handler option list"
  TCP_CONN :: tcp_conn
  DNS_RESP :: bytes
  DNS_LEN :: nat
  nic_ready :: bool
  nic_sent :: "bytes list"
  nic_frames :: "bytes list"
  ticks :: "u64 list"
  printed :: bytes

abbreviation (input) DNS_CACHE_SIZE :: nat where "DNS_CACHE_SIZE \<equiv> 8"
abbreviation (input) MAX_ARP :: nat where "MAX_ARP \<equiv> 16"
abbreviation (input) MAX_UDP_HANDLERS :: nat where "MAX_UDP_HANDLERS \<equiv> 4"

definition net_boot :: "bool \<Rightarrow> mac6 \<Rightarrow> bytes list \<Rightarrow> u64 list \<Rightarrow> net" where
  "net_boot ready mac frames readings =
     \<lparr>OUR_MAC = mac, OUR_IP = (0, 0, 0, 0), GATEWAY = (0, 0, 0, 0), DNS_SERVER = (0, 0, 0, 0),
      NETMASK = (255, 255, 255, 255), UPTIME_SECS = 0,
      DNS_CACHE = replicate 8 \<lparr>dns_valid = False, dns_ip = (0, 0, 0, 0)\<rparr>,
      ARP_CACHE = replicate 16 \<lparr>arp_ip = (0, 0, 0, 0), arp_mac = (0, 0, 0, 0, 0, 0), arp_valid = False\<rparr>,
      UDP_HANDLERS = replicate 4 None,
      TCP_CONN = \<lparr>tcp_st = TCP_CLOSED, tcp_dst_ip = (0, 0, 0, 0), tcp_dst_port = 0, tcp_src_port = 0,
        tcp_seq = 0, tcp_ack = 0, tcp_rxbuf = replicate 4096 0, tcp_rxlen = 0\<rparr>,
      DNS_RESP = replicate 512 0, DNS_LEN = 0,
      nic_ready = ready, nic_sent = [], nic_frames = frames, ticks = readings, printed = []\<rparr>"

definition tick_second :: "net \<Rightarrow> net" where
  "tick_second s = s\<lparr>UPTIME_SECS := UPTIME_SECS s + 1\<rparr>"

definition dns_cache_add :: "bytes \<Rightarrow> ip4 \<Rightarrow> net \<Rightarrow> net" where
  "dns_cache_add name ip s =
     (case find_first (\<lambda>i. \<not> dns_valid (DNS_CACHE s ! i)) [0..<8] of
        Some i \<Rightarrow> s\<lparr>DNS_CACHE := (DNS_CACHE s)[i := \<lparr>dns_valid = True, dns_ip = ip\<rparr>]\<rparr>
      | None \<Rightarrow> s)"

section \<open>The card and the timer\<close>

definition get_tick_count :: "net \<Rightarrow> (u64 \<times> net) run" where
  "get_tick_count s = (case ticks s of [] \<Rightarrow> Waits | t # ts \<Rightarrow> Ends (t, s\<lparr>ticks := ts\<rparr>))"

definition nic_send :: "bytes \<Rightarrow> net \<Rightarrow> bool \<times> net" where
  "nic_send pkt s =
     (if \<not> nic_ready s \<or> length pkt > 1792 then (False, s)
      else (True, s\<lparr>nic_sent := nic_sent s @ [pkt]\<rparr>))"

text \<open>The callers pass a buffer of 1518 bytes.\<close>

definition poll_rx :: "net \<Rightarrow> bytes \<times> net" where
  "poll_rx s =
     (if \<not> nic_ready s then ([], s)
      else case nic_frames s of [] \<Rightarrow> ([], s) | f # fs \<Rightarrow> (take 1518 f, s\<lparr>nic_frames := fs\<rparr>))"

section \<open>Ethernet\<close>

abbreviation (input) ETH_TYPE_ARP :: u16 where "ETH_TYPE_ARP \<equiv> 0x0806"
abbreviation (input) ETH_TYPE_IP :: u16 where "ETH_TYPE_IP \<equiv> 0x0800"

definition send_eth :: "mac6 \<Rightarrow> u16 \<Rightarrow> bytes \<Rightarrow> net \<Rightarrow> bool \<times> net" where
  "send_eth dst_mac ethertype payload s =
     (if 14 + length payload > 1514 then (False, s)
      else nic_send (mac_bytes dst_mac @ mac_bytes (OUR_MAC s) @ be16 ethertype @ payload) s)"

definition send_eth_broadcast :: "u16 \<Rightarrow> bytes \<Rightarrow> net \<Rightarrow> bool \<times> net" where
  "send_eth_broadcast ethertype payload s = send_eth (0xFF, 0xFF, 0xFF, 0xFF, 0xFF, 0xFF) ethertype payload s"

section \<open>ARP\<close>

abbreviation (input) ARP_REQUEST :: u16 where "ARP_REQUEST \<equiv> 1"
abbreviation (input) ARP_REPLY :: u16 where "ARP_REPLY \<equiv> 2"

definition arp_request :: "ip4 \<Rightarrow> net \<Rightarrow> net" where
  "arp_request target_ip s =
     snd (send_eth_broadcast ETH_TYPE_ARP
       (be16 1 @ be16 0x0800 @ [6, 4] @ be16 ARP_REQUEST @ mac_bytes (OUR_MAC s) @ ip_bytes (OUR_IP s) @
        replicate 6 0 @ ip_bytes target_ip) s)"

definition arp_reply :: "mac6 \<Rightarrow> ip4 \<Rightarrow> net \<Rightarrow> net" where
  "arp_reply target_mac target_ip s =
     snd (send_eth target_mac ETH_TYPE_ARP
       (be16 1 @ be16 0x0800 @ [6, 4] @ be16 ARP_REPLY @ mac_bytes (OUR_MAC s) @ ip_bytes (OUR_IP s) @
        mac_bytes target_mac @ ip_bytes target_ip) s)"

definition cache_add :: "ip4 \<Rightarrow> mac6 \<Rightarrow> arp_entry list \<Rightarrow> arp_entry list" where
  "cache_add ip mac c =
     (case find_first (\<lambda>i. arp_valid (c ! i) \<and> ip_eq (arp_ip (c ! i)) ip) [0..<16] of
        Some i \<Rightarrow> c[i := (c ! i)\<lparr>arp_mac := mac\<rparr>]
      | None \<Rightarrow>
          (case find_first (\<lambda>i. \<not> arp_valid (c ! i)) [0..<16] of
             Some i \<Rightarrow> c[i := \<lparr>arp_ip = ip, arp_mac = mac, arp_valid = True\<rparr>]
           | None \<Rightarrow> tl c @ [\<lparr>arp_ip = ip, arp_mac = mac, arp_valid = True\<rparr>]))"

definition cache_lookup :: "ip4 \<Rightarrow> arp_entry list \<Rightarrow> mac6 option" where
  "cache_lookup ip c =
     map_option (\<lambda>i. arp_mac (c ! i)) (find_first (\<lambda>i. arp_valid (c ! i) \<and> ip_eq (arp_ip (c ! i)) ip) [0..<16])"

definition arp_cache_add :: "ip4 \<Rightarrow> mac6 \<Rightarrow> net \<Rightarrow> net" where
  "arp_cache_add ip mac s = s\<lparr>ARP_CACHE := cache_add ip mac (ARP_CACHE s)\<rparr>"

definition arp_cache_lookup :: "ip4 \<Rightarrow> net \<Rightarrow> mac6 option" where
  "arp_cache_lookup ip s = cache_lookup ip (ARP_CACHE s)"

definition handle_arp :: "bytes \<Rightarrow> net \<Rightarrow> net" where
  "handle_arp pkt s =
     (if length pkt < 28 then s
      else let op = from_be16 (pkt ! 6) (pkt ! 7);
               src_ip = ip_at 14 pkt;
               src_mac = mac_at 8 pkt;
               target_ip = ip_at 24 pkt;
               s = arp_cache_add src_ip src_mac s
           in if op = ARP_REQUEST \<and> ip_eq target_ip (OUR_IP s) then arp_reply src_mac src_ip s else s)"

type_synonym receiver = "bytes \<Rightarrow> net \<Rightarrow> net run"

text \<open>One turn of every receive loop: poll the card and handle the frame, if there is one.\<close>

definition poll_and_handle :: "receiver \<Rightarrow> net \<Rightarrow> net run" where
  "poll_and_handle rx s = (let (frame, s) = poll_rx s in if length frame > 0 then rx frame s else Ends s)"

text \<open>
  The receive loops of \<open>arp_resolve\<close>, \<open>tcp_connect\<close>, \<open>dns_resolve\<close>, \<open>dhcp_negotiate\<close> and \<open>http_get\<close>: until
  \<open>timeout\<close> ticks have passed since \<open>start\<close>, poll the card, then do what is particular to the loop
  (\<open>body\<close>, which tells whether to leave it). Every turn reads the timer, so that the number of
  readings bounds the turns.
\<close>

primrec wait_loop :: "receiver \<Rightarrow> u64 \<Rightarrow> u64 \<Rightarrow> ('b \<Rightarrow> net \<Rightarrow> bool \<times> 'b \<times> net) \<Rightarrow> nat \<Rightarrow> 'b \<Rightarrow> net \<Rightarrow> ('b \<times> net) run" where
  "wait_loop rx start timeout body 0 b s = Waits"
| "wait_loop rx start timeout body (Suc k) b s =
     andThen (get_tick_count s) (\<lambda>(t, s).
       if t - start \<ge> timeout then Ends (b, s)
       else andThen (poll_and_handle rx s) (\<lambda>s.
         let (stop, b, s) = body b s
         in if stop then Ends (b, s) else wait_loop rx start timeout body k b s))"

definition wait_for :: "receiver \<Rightarrow> u64 \<Rightarrow> ('b \<Rightarrow> net \<Rightarrow> bool \<times> 'b \<times> net) \<Rightarrow> 'b \<Rightarrow> net \<Rightarrow> ('b \<times> net) run" where
  "wait_for rx timeout body b s =
     andThen (get_tick_count s) (\<lambda>(start, s). wait_loop rx start timeout body (Suc (length (ticks s))) b s)"

definition arp_answered :: "ip4 \<Rightarrow> mac6 option \<Rightarrow> net \<Rightarrow> bool \<times> mac6 option \<times> net" where
  "arp_answered ip b s = (case arp_cache_lookup ip s of Some mac \<Rightarrow> (True, Some mac, s) | None \<Rightarrow> (False, None, s))"

primrec arp_tries :: "receiver \<Rightarrow> ip4 \<Rightarrow> u64 \<Rightarrow> nat \<Rightarrow> net \<Rightarrow> (mac6 option \<times> net) run" where
  "arp_tries rx ip timeout 0 s = Ends (None, s)"
| "arp_tries rx ip timeout (Suc m) s =
     andThen (wait_for rx timeout (arp_answered ip) None (arp_request ip s)) (\<lambda>(found, s).
       if found \<noteq> None then Ends (found, s) else arp_tries rx ip timeout m s)"

definition arp_resolve :: "receiver \<Rightarrow> ip4 \<Rightarrow> u64 \<Rightarrow> net \<Rightarrow> (mac6 option \<times> net) run" where
  "arp_resolve rx ip timeout_ticks s =
     (case arp_cache_lookup ip s of
        Some mac \<Rightarrow> Ends (Some mac, s)
      | None \<Rightarrow> arp_tries rx ip timeout_ticks 3 s)"

section \<open>IPv4\<close>

abbreviation (input) IP_PROTO_UDP :: u8 where "IP_PROTO_UDP \<equiv> 17"
abbreviation (input) IP_PROTO_TCP :: u8 where "IP_PROTO_TCP \<equiv> 6"

text \<open>The twenty bytes of the header, with the checksum field set to \<open>csum\<close>.\<close>

definition ipv4_header :: "ip4 \<Rightarrow> ip4 \<Rightarrow> u8 \<Rightarrow> nat \<Rightarrow> u16 \<Rightarrow> u16 \<Rightarrow> bytes" where
  "ipv4_header src_ip dst_ip proto total_len ident csum =
     [0x45, 0] @ be16 (word_of_nat total_len) @ be16 ident @ [0x40, 0, 64, proto] @ be16 csum @
     ip_bytes src_ip @ ip_bytes dst_ip"

definition ipv4_filled :: "ip4 \<Rightarrow> ip4 \<Rightarrow> u8 \<Rightarrow> nat \<Rightarrow> u16 \<Rightarrow> bytes" where
  "ipv4_filled src_ip dst_ip proto total_len ident =
     ipv4_header src_ip dst_ip proto total_len ident (ip_checksum (ipv4_header src_ip dst_ip proto total_len ident 0))"

definition build_ipv4 :: "ip4 \<Rightarrow> ip4 \<Rightarrow> u8 \<Rightarrow> nat \<Rightarrow> u16 \<Rightarrow> bytes \<times> nat" where
  "build_ipv4 src_ip dst_ip proto payload_len ident =
     (let total_len = 20 + payload_len in (ipv4_filled src_ip dst_ip proto total_len ident @ replicate 1480 0, total_len))"

definition send_ipv4 :: "receiver \<Rightarrow> ip4 \<Rightarrow> u8 \<Rightarrow> bytes \<Rightarrow> u16 \<Rightarrow> net \<Rightarrow> (bool \<times> net) run" where
  "send_ipv4 rx dst_ip proto payload ident s =
     (if length payload > 1494 then Panics
      else let total_len = 20 + length payload;
               pkt = ipv4_filled (OUR_IP s) dst_ip proto total_len ident @ payload
      in andThen (if ip_eq dst_ip (255, 255, 255, 255) then Ends (Some (0xFF, 0xFF, 0xFF, 0xFF, 0xFF, 0xFF), s)
                  else arp_resolve rx dst_ip 10 s) (\<lambda>(mac, s).
           case mac of
             None \<Rightarrow> Ends (False, s)
           | Some target_mac \<Rightarrow>
               if 14 + total_len > 1518 then Panics
               else Ends (nic_send (mac_bytes target_mac @ mac_bytes (OUR_MAC s) @ be16 ETH_TYPE_IP @ pkt) s)))"

section \<open>UDP\<close>

definition udp_listen :: "u16 \<Rightarrow> udp_callback \<Rightarrow> net \<Rightarrow> bool \<times> net" where
  "udp_listen port cb s =
     (case find_first (\<lambda>i. UDP_HANDLERS s ! i = None) [0..<4] of
        Some i \<Rightarrow> (True, s\<lparr>UDP_HANDLERS := (UDP_HANDLERS s)[i := Some \<lparr>handler_port = port, handler_callback = cb\<rparr>]\<rparr>)
      | None \<Rightarrow> (False, s))"

definition udp_datagram :: "u16 \<Rightarrow> u16 \<Rightarrow> bytes \<Rightarrow> bytes" where
  "udp_datagram dst_port src_port payload =
     be16 src_port @ be16 dst_port @ be16 (word_of_nat (8 + length payload)) @ [0, 0] @ payload"

definition send_udp :: "receiver \<Rightarrow> ip4 \<Rightarrow> u16 \<Rightarrow> u16 \<Rightarrow> bytes \<Rightarrow> net \<Rightarrow> (bool \<times> net) run" where
  "send_udp rx dst_ip dst_port src_port payload s =
     (if 8 + length payload > 1500 then Panics
      else send_ipv4 rx dst_ip IP_PROTO_UDP (udp_datagram dst_port src_port payload) 0 s)"

definition dns_callback :: "bytes \<Rightarrow> net \<Rightarrow> net" where
  "dns_callback data s =
     (let n = min (length data) 512 in s\<lparr>DNS_RESP := take n data @ drop n (DNS_RESP s), DNS_LEN := n\<rparr>)"

fun run_callback :: "udp_callback \<Rightarrow> bytes \<Rightarrow> net \<Rightarrow> net" where
  "run_callback Dns_callback data s = dns_callback data s"

definition offer_udp :: "u16 \<Rightarrow> bytes \<Rightarrow> nat \<Rightarrow> net \<Rightarrow> net" where
  "offer_udp dst_port payload i s =
     (case UDP_HANDLERS s ! i of
        Some h \<Rightarrow> if handler_port h = dst_port then run_callback (handler_callback h) payload s else s
      | None \<Rightarrow> s)"

definition handle_udp :: "bytes \<Rightarrow> net \<Rightarrow> net run" where
  "handle_udp data s =
     (if length data < 8 then Ends s
      else let dst_port = from_be16 (data ! 0) (data ! 1);
               len = unat (from_be16 (data ! 4) (data ! 5))
      in if length data < len then Ends s
         else if len < 8 then Panics
         else Ends (fold (offer_udp dst_port (drop 8 (take len data))) [0..<4] s))"

section \<open>TCP\<close>

abbreviation (input) TCP_FLAG_FIN :: u8 where "TCP_FLAG_FIN \<equiv> 0x01"
abbreviation (input) TCP_FLAG_SYN :: u8 where "TCP_FLAG_SYN \<equiv> 0x02"
abbreviation (input) TCP_FLAG_PSH :: u8 where "TCP_FLAG_PSH \<equiv> 0x08"
abbreviation (input) TCP_FLAG_ACK :: u8 where "TCP_FLAG_ACK \<equiv> 0x10"

text \<open>\<open>tcp_read_data\<close> with a destination of \<open>n\<close> bytes; the bytes that do not fit are dropped.\<close>

definition tcp_read_data :: "nat \<Rightarrow> net \<Rightarrow> bytes \<times> net" where
  "tcp_read_data n s =
     (let c = TCP_CONN s
      in (take (min (tcp_rxlen c) n) (tcp_rxbuf c), s\<lparr>TCP_CONN := c\<lparr>tcp_rxlen := 0\<rparr>\<rparr>))"

definition tcp_is_connected :: "net \<Rightarrow> bool" where
  "tcp_is_connected s \<longleftrightarrow> tcp_st (TCP_CONN s) = TCP_ESTABLISHED"

definition tcp_state :: "net \<Rightarrow> u8" where
  "tcp_state s = tcp_st (TCP_CONN s)"

text \<open>The segment that \<open>build_tcp\<close> leaves in the first \<open>total\<close> bytes; its checksum field is zero.\<close>

definition build_tcp :: "u32 \<Rightarrow> u32 \<Rightarrow> u8 \<Rightarrow> bytes \<Rightarrow> u16 \<Rightarrow> u16 \<Rightarrow> bytes" where
  "build_tcp seq ack flags payload src_port dst_port =
     be16 src_port @ be16 dst_port @ be32 seq @ be32 ack @ [0x50, flags, 0xFF, 0xFF, 0, 0, 0, 0] @ payload"

definition tcp_checksum :: "ip4 \<Rightarrow> ip4 \<Rightarrow> bytes \<Rightarrow> u16" where
  "tcp_checksum src_ip dst_ip tcp_seg =
     (if 12 + length tcp_seg > 4096 then 0
      else ip_checksum (ip_bytes src_ip @ ip_bytes dst_ip @ [0, 6] @ be16 (word_of_nat (length tcp_seg)) @
             tcp_seg[16 := 0, 17 := 0]))"

definition tcp_segment :: "ip4 \<Rightarrow> tcp_conn \<Rightarrow> u8 \<Rightarrow> bytes \<Rightarrow> bytes" where
  "tcp_segment src_ip conn flags payload =
     (let seg = build_tcp (tcp_seq conn) (tcp_ack conn) flags payload (tcp_src_port conn) (tcp_dst_port conn);
          csum = tcp_checksum src_ip (tcp_dst_ip conn) seg
      in seg[16 := ucast (drop_bit 8 csum), 17 := ucast (csum AND 0xFF)])"

definition send_tcp_raw :: "receiver \<Rightarrow> tcp_conn \<Rightarrow> u8 \<Rightarrow> bytes \<Rightarrow> net \<Rightarrow> (bool \<times> net) run" where
  "send_tcp_raw rx conn flags payload s =
     (if 20 + length payload > 1500 then Panics
      else send_ipv4 rx (tcp_dst_ip conn) IP_PROTO_TCP (tcp_segment (OUR_IP s) conn flags payload) 0 s)"

definition tcp_connected_body :: "bool \<Rightarrow> net \<Rightarrow> bool \<times> bool \<times> net" where
  "tcp_connected_body b s = (if tcp_st (TCP_CONN s) = TCP_ESTABLISHED then (True, True, s) else (False, b, s))"

definition tcp_open :: "ip4 \<Rightarrow> u16 \<Rightarrow> u16 \<Rightarrow> net \<Rightarrow> net" where
  "tcp_open dst_ip dst_port src_port s =
     s\<lparr>TCP_CONN := (TCP_CONN s)\<lparr>tcp_st := TCP_SYN_SENT, tcp_dst_ip := dst_ip, tcp_dst_port := dst_port,
       tcp_src_port := src_port, tcp_seq := 1000, tcp_ack := 0, tcp_rxlen := 0\<rparr>\<rparr>"

definition tcp_set_closed :: "net \<Rightarrow> net" where
  "tcp_set_closed s = s\<lparr>TCP_CONN := (TCP_CONN s)\<lparr>tcp_st := TCP_CLOSED\<rparr>\<rparr>"

definition tcp_connect :: "receiver \<Rightarrow> ip4 \<Rightarrow> u16 \<Rightarrow> u16 \<Rightarrow> net \<Rightarrow> (bool \<times> net) run" where
  "tcp_connect rx dst_ip dst_port src_port s =
     (let s = tcp_open dst_ip dst_port src_port s
      in andThen (send_tcp_raw rx (TCP_CONN s) TCP_FLAG_SYN [] s) (\<lambda>(_, s).
         andThen (wait_for rx 3000 tcp_connected_body False s) (\<lambda>(connected, s).
           if connected then Ends (True, s) else Ends (False, tcp_set_closed s))))"

definition tcp_send :: "receiver \<Rightarrow> bytes \<Rightarrow> net \<Rightarrow> (bool \<times> net) run" where
  "tcp_send rx data s =
     (if tcp_st (TCP_CONN s) \<noteq> TCP_ESTABLISHED then Ends (False, s)
      else andThen (send_tcp_raw rx (TCP_CONN s) (TCP_FLAG_PSH OR TCP_FLAG_ACK) data s) (\<lambda>(_, s). Ends (True, s)))"

text \<open>The three updates that \<open>handle_tcp\<close> makes to the connection.\<close>

definition tcp_establish :: "u32 \<Rightarrow> u32 \<Rightarrow> net \<Rightarrow> net" where
  "tcp_establish seq ack s =
     s\<lparr>TCP_CONN := (TCP_CONN s)\<lparr>tcp_st := TCP_ESTABLISHED, tcp_ack := seq + 1, tcp_seq := ack\<rparr>\<rparr>"

definition tcp_store :: "u32 \<Rightarrow> bytes \<Rightarrow> net \<Rightarrow> net" where
  "tcp_store seq payload s =
     (let c = TCP_CONN s;
          n = min (length payload) (4096 - tcp_rxlen c)
      in s\<lparr>TCP_CONN := c\<lparr>tcp_rxbuf := take (tcp_rxlen c) (tcp_rxbuf c) @ take n payload @ drop (tcp_rxlen c + n) (tcp_rxbuf c),
           tcp_rxlen := tcp_rxlen c + n, tcp_ack := seq + word_of_nat (length payload)\<rparr>\<rparr>)"

definition tcp_finish :: "u32 \<Rightarrow> net \<Rightarrow> net" where
  "tcp_finish seq s = s\<lparr>TCP_CONN := (TCP_CONN s)\<lparr>tcp_st := TCP_FIN_WAIT, tcp_ack := seq + 1\<rparr>\<rparr>"

definition send_ack :: "receiver \<Rightarrow> net \<Rightarrow> net run" where
  "send_ack rx s = andThen (send_tcp_raw rx (TCP_CONN s) TCP_FLAG_ACK [] s) (\<lambda>(_, s). Ends s)"

definition handle_tcp :: "receiver \<Rightarrow> bytes \<Rightarrow> net \<Rightarrow> net run" where
  "handle_tcp rx data s =
     (if length data < 20 then Ends s
      else let seq = from_be32 (data ! 4) (data ! 5) (data ! 6) (data ! 7);
               ack = from_be32 (data ! 8) (data ! 9) (data ! 10) (data ! 11);
               flags = data ! 13;
               hdr_len = unat (drop_bit 4 (data ! 12)) * 4;
               payload = (if length data > hdr_len then drop hdr_len data else []);
               st = tcp_st (TCP_CONN s)
      in if st = TCP_SYN_SENT \<and> flags AND TCP_FLAG_SYN \<noteq> 0 \<and> flags AND TCP_FLAG_ACK \<noteq> 0
         then send_ack rx (tcp_establish seq ack s)
         else if st = TCP_ESTABLISHED \<and> flags AND TCP_FLAG_ACK \<noteq> 0
         then if payload \<noteq> [] then send_ack rx (tcp_store seq payload s)
              else if flags AND TCP_FLAG_FIN \<noteq> 0 then send_ack rx (tcp_finish seq s)
              else Ends s
         else Ends s)"

section \<open>Receiving\<close>

definition handle_ipv4 :: "receiver \<Rightarrow> bytes \<Rightarrow> net \<Rightarrow> net run" where
  "handle_ipv4 rx pkt s =
     (if length pkt < 20 then Ends s
      else if drop_bit 4 (pkt ! 0) \<noteq> 4 then Ends s
      else let ihl = unat (pkt ! 0 AND 0x0F) * 4
      in if ihl < 20 \<or> length pkt < ihl then Ends s
         else let csum = from_be16 (pkt ! 10) (pkt ! 11);
                  check = (take 20 pkt)[10 := 0, 11 := 0]
         in if ihl > 20 then Panics
            else if ip_checksum (take ihl check) \<noteq> csum then Ends s
            else let total_len = unat (from_be16 (pkt ! 2) (pkt ! 3)); proto = pkt ! 9
            in if length pkt < total_len then Ends s
               else if proto = IP_PROTO_UDP
               then if total_len < ihl then Panics else handle_udp (drop ihl (take total_len pkt)) s
               else if proto = IP_PROTO_TCP
               then if total_len < ihl then Panics else handle_tcp rx (drop ihl (take total_len pkt)) s
               else Ends s)"

definition dispatch_rx :: "receiver \<Rightarrow> receiver" where
  "dispatch_rx rx frame s =
     (if length frame < 14 then Ends s
      else let ethertype = from_be16 (frame ! 12) (frame ! 13); payload = drop 14 frame
      in if ethertype = ETH_TYPE_ARP then Ends (handle_arp payload s)
         else if ethertype = ETH_TYPE_IP then handle_ipv4 rx payload s
         else Ends s)"

primrec handle_rx_within :: "nat \<Rightarrow> receiver" where
  "handle_rx_within 0 = (\<lambda>frame s. Deep)"
| "handle_rx_within (Suc n) = dispatch_rx (handle_rx_within n)"

definition handle_rx :: receiver where
  "handle_rx frame s = handle_rx_within (Suc (length (nic_frames s))) frame s"

end
