(* ===== verification/Arpcache.thy ===== *)
theory Arpcache
  imports Ethernet
begin

unbundle bit_operations_syntax

text \<open>
  The ARP cache of \<open>src/kernel/src/net/eth.rs\<close> as a bounded table. The locale \<open>bounded_table\<close> is the
  contract: the entries are an association list, oldest first, with distinct keys; adding a known
  key replaces its value in place, adding a new one appends it and drops the oldest entry when
  there is no room. Its lemmas say what a lookup returns after an addition. It is interpreted by
  \<open>cache_add\<close> and \<open>cache_lookup\<close> on the sixteen slots.
\<close>

section \<open>Bounded tables\<close>

definition table_add :: "nat \<Rightarrow> 'k \<Rightarrow> 'v \<Rightarrow> ('k \<times> 'v) list \<Rightarrow> ('k \<times> 'v) list" where
  "table_add cap k v xs =
     (if k \<in> fst ` set xs then map (\<lambda>(a, b). (a, if a = k then v else b)) xs
      else (if length xs < cap then xs else tl xs) @ [(k, v)])"

lemma in_tl: "x \<in> set (tl xs) \<Longrightarrow> x \<in> set xs"
  by (cases xs) auto

lemma map_of_replace: "map_of (map (\<lambda>(a, b). (a, if a = k then v else b)) xs) j =
    (if j = k \<and> k \<in> fst ` set xs then Some v else map_of xs j)"
proof (induction xs)
  case (Cons p xs)
  obtain a b where "p = (a, b)" by (cases p)
  then show ?case using Cons by (cases "a = j"; cases "j = k") simp_all
qed simp

locale bounded_table =
  fixes inv :: "'s \<Rightarrow> bool"
    and entries :: "'s \<Rightarrow> ('k \<times> 'v) list"
    and cap :: nat
    and add :: "'k \<Rightarrow> 'v \<Rightarrow> 's \<Rightarrow> 's"
    and find :: "'k \<Rightarrow> 's \<Rightarrow> 'v option"
  assumes cap: "0 < cap"
    and size: "inv s \<Longrightarrow> length (entries s) \<le> cap"
    and keys: "inv s \<Longrightarrow> distinct (map fst (entries s))"
    and find: "inv s \<Longrightarrow> find k s = map_of (entries s) k"
    and add: "inv s \<Longrightarrow> inv (add k v s) \<and> entries (add k v s) = table_add cap k v (entries s)"
begin

lemma add_inv: "inv s \<Longrightarrow> inv (add k v s)"
  using add by blast

lemma find_add_same: "inv s \<Longrightarrow> find k (add k v s) = Some v"
proof -
  assume s: "inv s"
  have "k \<notin> fst ` set (tl (entries s))" if "k \<notin> fst ` set (entries s)"
    using that by (auto dest: in_tl)
  then show ?thesis
    using add [OF s] by (auto simp: find add_inv [OF s] table_add_def map_of_replace map_add_Some_iff map_of_eq_None_iff)
qed

text \<open>Another key keeps its value, unless it is the oldest entry of a full table and made room.\<close>

lemma find_add_other:
  assumes "inv s" "j \<noteq> k"
    and "k \<in> fst ` set (entries s) \<or> length (entries s) < cap \<or> fst (hd (entries s)) \<noteq> j"
  shows "find j (add k v s) = find j s"
proof -
  have "map_of (tl xs) j = map_of xs j" if "fst (hd xs) \<noteq> j" for xs :: "('k \<times> 'v) list"
    using that by (cases xs) auto
  then show ?thesis
    using add [OF assms(1), of k v] assms by (auto simp: find table_add_def map_of_replace map_add_def split: option.splits)
qed

lemma evicted:
  assumes "inv s" "k \<notin> fst ` set (entries s)" "length (entries s) = cap"
  shows "find (fst (hd (entries s))) (add k v s) = None"
proof -
  obtain e es where e: "entries s = e # es" using assms cap by (cases "entries s") auto
  have "fst e \<notin> fst ` set es" "k \<noteq> fst e" using keys [OF assms(1)] e assms(2) by auto
  moreover have "entries (add k v s) = es @ [(k, v)]"
    using add [OF assms(1), of k v] assms e by (simp add: table_add_def)
  ultimately have "map_of (entries (add k v s)) (fst e) = None" by (auto simp: map_of_eq_None_iff)
  then show ?thesis using e by (simp add: find [OF add_inv [OF assms(1)]])
qed

end

section \<open>The sixteen slots\<close>

definition cache_entries :: "arp_entry list \<Rightarrow> (ip4 \<times> mac6) list" where
  "cache_entries c = map (\<lambda>e. (arp_ip e, arp_mac e)) (takeWhile arp_valid c)"

definition cache_inv :: "arp_entry list \<Rightarrow> bool" where
  "cache_inv c \<longleftrightarrow> length c = 16 \<and> (\<forall>e \<in> set (dropWhile arp_valid c). \<not> arp_valid e) \<and>
     distinct (map fst (cache_entries c))"

text \<open>A cache is a prefix of valid entries and a rest of empty slots.\<close>

lemma cache_split:
  assumes "cache_inv c"
  obtains xs ys where "c = xs @ ys" "length xs + length ys = 16" "\<forall>e \<in> set xs. arp_valid e"
    "\<forall>e \<in> set ys. \<not> arp_valid e" "cache_entries c = map (\<lambda>e. (arp_ip e, arp_mac e)) xs"
proof
  show "c = takeWhile arp_valid c @ dropWhile arp_valid c" by simp
  have "length (takeWhile arp_valid c @ dropWhile arp_valid c) = 16"
    using assms unfolding takeWhile_dropWhile_id cache_inv_def by blast
  then show "length (takeWhile arp_valid c) + length (dropWhile arp_valid c) = 16"
    by (simp only: length_append)
  show "\<forall>e \<in> set (takeWhile arp_valid c). arp_valid e" by (auto dest: set_takeWhileD)
  show "\<forall>e \<in> set (dropWhile arp_valid c). \<not> arp_valid e" using assms unfolding cache_inv_def by blast
qed (simp only: cache_entries_def)

lemma cache_join:
  assumes "\<forall>e \<in> set xs. arp_valid e" "\<forall>e \<in> set ys. \<not> arp_valid e"
  shows "cache_entries (xs @ ys) = map (\<lambda>e. (arp_ip e, arp_mac e)) xs"
    and "cache_inv (xs @ ys) \<longleftrightarrow> length xs + length ys = 16 \<and> distinct (map arp_ip xs)"
proof -
  have "takeWhile arp_valid (xs @ ys) = xs" "dropWhile arp_valid (xs @ ys) = ys"
    using assms by (auto simp: takeWhile_append2 takeWhile_eq_Nil_iff dropWhile_append2 dropWhile_eq_self_iff dest: hd_in_set)
  then show "cache_entries (xs @ ys) = map (\<lambda>e. (arp_ip e, arp_mac e)) xs"
    and "cache_inv (xs @ ys) \<longleftrightarrow> length xs + length ys = 16 \<and> distinct (map arp_ip xs)"
    using assms by (auto simp: cache_entries_def cache_inv_def comp_def)
qed

lemma find_first_nth:
  "find_first P [0..<n] = Some i \<longleftrightarrow> i < n \<and> P i \<and> (\<forall>j < i. \<not> P j)"
proof
  assume f: "find_first P [0..<n] = Some i"
  then show "i < n \<and> P i \<and> (\<forall>j < i. \<not> P j)"
    using find_first_Some [OF f] find_first_least [OF f] by auto
next
  assume i: "i < n \<and> P i \<and> (\<forall>j < i. \<not> P j)"
  then obtain k where k: "find_first P [0..<n] = Some k"
    by (cases "find_first P [0..<n]") auto
  then have "k < n" "P k" "\<forall>j < k. \<not> P j"
    using find_first_Some [OF k] find_first_least [OF k] by auto
  then show "find_first P [0..<n] = Some i" using k i by (metis linorder_neqE_nat)
qed

lemma cache_find_Some:
  assumes c: "c = xs @ e # zs @ ys" and v: "\<forall>d \<in> set (xs @ e # zs). arp_valid d" "length c = 16"
    and d: "distinct (map arp_ip (xs @ e # zs))"
  shows "find_first (\<lambda>i. arp_valid (c ! i) \<and> ip_eq (arp_ip (c ! i)) (arp_ip e)) [0..<16] = Some (length xs)"
proof -
  have "arp_ip (xs ! j) \<noteq> arp_ip e" if "j < length xs" for j
    using that d nth_mem [OF that] by (auto dest: sym)
  then show ?thesis unfolding find_first_nth using c v by (auto simp: nth_append)
qed

lemma cache_find_None:
  assumes "c = xs @ ys" "length c = 16" "\<forall>d \<in> set ys. \<not> arp_valid d" "ip \<notin> arp_ip ` set xs"
  shows "find_first (\<lambda>i. arp_valid (c ! i) \<and> ip_eq (arp_ip (c ! i)) ip) [0..<16] = None"
  using assms by (auto simp: nth_append split: if_splits)

lemma cache_find_empty:
  assumes "c = xs @ ys" "length c = 16" "\<forall>d \<in> set xs. arp_valid d" "\<forall>d \<in> set ys. \<not> arp_valid d"
  shows "find_first (\<lambda>i. \<not> arp_valid (c ! i)) [0..<16] = (if ys = [] then None else Some (length xs))"
proof (cases ys)
  case (Cons y zs)
  have "find_first (\<lambda>i. \<not> arp_valid (c ! i)) [0..<16] = Some (length xs)"
    unfolding find_first_nth using assms Cons by (auto simp: nth_append)
  then show ?thesis using Cons by simp
qed (use assms in auto)

lemma cache_add_abs:
  assumes "cache_inv c"
  shows "cache_inv (cache_add ip mac c) \<and> cache_entries (cache_add ip mac c) = table_add 16 ip mac (cache_entries c)"
proof -
  obtain xs ys where c: "c = xs @ ys" "length xs + length ys = 16" "\<forall>e \<in> set xs. arp_valid e" "\<forall>e \<in> set ys. \<not> arp_valid e"
    "cache_entries c = map (\<lambda>e. (arp_ip e, arp_mac e)) xs"
    by (rule cache_split [OF assms])
  then have d: "distinct (map arp_ip xs)" using assms cache_join(2) by blast
  let ?new = "\<lparr>arp_ip = ip, arp_mac = mac, arp_valid = True\<rparr>"
  have keys: "fst ` set (cache_entries c) = arp_ip ` set xs" using c(5) by (auto simp: image_image)
  consider (known) e as bs where "xs = as @ e # bs" "arp_ip e = ip"
    | (room) z zs where "ip \<notin> arp_ip ` set xs" "ys = z # zs"
    | (full) "ip \<notin> arp_ip ` set xs" "ys = []"
    by (metis imageE neq_Nil_conv split_list)
  then show ?thesis
  proof cases
    case known
    let ?xs = "as @ e\<lparr>arp_mac := mac\<rparr> # bs"
    have new: "cache_add ip mac c = ?xs @ ys"
      using cache_find_Some [of c as e bs ys] c d known by (simp add: cache_add_def nth_append list_update_append)
    have j: "cache_entries (?xs @ ys) = map (\<lambda>e. (arp_ip e, arp_mac e)) ?xs"
      "cache_inv (?xs @ ys) \<longleftrightarrow> length ?xs + length ys = 16 \<and> distinct (map arp_ip ?xs)"
      using c known by (intro cache_join; auto)+
    have "map (\<lambda>e. (arp_ip e, arp_mac e)) ?xs = table_add 16 ip mac (cache_entries c)"
      using known d keys c(5) by (auto simp: table_add_def image_iff intro!: map_cong)
    then show ?thesis using j new c(2) d known by simp
  next
    case room
    have n: "length c = 16" using c by simp
    have new: "cache_add ip mac c = (xs @ [?new]) @ zs"
      unfolding cache_add_def cache_find_None [OF c(1) n c(4) room(1)] cache_find_empty [OF c(1) n c(3,4)]
      using c(1) room by (simp add: list_update_append)
    have j: "cache_entries ((xs @ [?new]) @ zs) = map (\<lambda>e. (arp_ip e, arp_mac e)) (xs @ [?new])"
      "cache_inv ((xs @ [?new]) @ zs) \<longleftrightarrow> length (xs @ [?new]) + length zs = 16 \<and> distinct (map arp_ip (xs @ [?new]))"
      using c room by (intro cache_join; auto)+
    show ?thesis unfolding new j using c room d keys by (auto simp: table_add_def)
  next
    case full
    have n: "length c = 16" using c by simp
    have new: "cache_add ip mac c = (tl xs @ [?new]) @ []"
      unfolding cache_add_def cache_find_None [OF c(1) n c(4) full(1)] cache_find_empty [OF c(1) n c(3,4)]
      using c(1) full by simp
    have t: "set (tl xs) \<subseteq> set xs" "distinct (map arp_ip (tl xs))"
      using distinct_tl [OF d] by (auto simp: map_tl dest: in_tl)
    have j: "cache_entries ((tl xs @ [?new]) @ []) = map (\<lambda>e. (arp_ip e, arp_mac e)) (tl xs @ [?new])"
      "cache_inv ((tl xs @ [?new]) @ []) \<longleftrightarrow> length (tl xs @ [?new]) + length ([] :: arp_entry list) = 16 \<and> distinct (map arp_ip (tl xs @ [?new]))"
      using c full t by (intro cache_join; auto)+
    have "xs \<noteq> []" using c full by auto
    moreover have "ip \<notin> set (map arp_ip (tl xs))" using full(1) t(1) by auto
    ultimately show ?thesis unfolding new j using c full t(2) keys by (auto simp: table_add_def map_tl)
  qed
qed

lemma cache_lookup_abs:
  assumes "cache_inv c"
  shows "cache_lookup ip c = map_of (cache_entries c) ip"
proof -
  obtain xs ys where c: "c = xs @ ys" "length xs + length ys = 16" "\<forall>e \<in> set xs. arp_valid e" "\<forall>e \<in> set ys. \<not> arp_valid e"
    "cache_entries c = map (\<lambda>e. (arp_ip e, arp_mac e)) xs"
    by (rule cache_split [OF assms])
  then have d: "distinct (map arp_ip xs)" using assms cache_join(2) by blast
  show ?thesis
  proof (cases "ip \<in> arp_ip ` set xs")
    case True
    then obtain e as bs where e: "xs = as @ e # bs" "arp_ip e = ip" by (metis imageE split_list)
    have "map_of (cache_entries c) ip = Some (arp_mac e)"
      using c(5) d e by (intro map_of_is_SomeI) (simp_all add: comp_def)
    then show ?thesis using cache_find_Some [of c as e bs ys] c d e by (simp add: cache_lookup_def nth_append)
  next
    case False
    then have "map_of (cache_entries c) ip = None" using c(5) by (auto simp: map_of_eq_None_iff)
    then show ?thesis using cache_find_None [of c xs ys ip] c False by (simp add: cache_lookup_def)
  qed
qed

lemma cache_size: "cache_inv c \<Longrightarrow> length (cache_entries c) \<le> 16"
  using length_takeWhile_le [of arp_valid c] by (simp add: cache_inv_def cache_entries_def)

interpretation arp: bounded_table cache_inv cache_entries 16 cache_add cache_lookup
proof
  fix c :: "arp_entry list" and ip mac
  assume c: "cache_inv c"
  show "length (cache_entries c) \<le> 16" by (rule cache_size [OF c])
  show "distinct (map fst (cache_entries c))" using c by (simp only: cache_inv_def)
  show "cache_lookup ip c = map_of (cache_entries c) ip" by (rule cache_lookup_abs [OF c])
  show "cache_inv (cache_add ip mac c) \<and> cache_entries (cache_add ip mac c) = table_add 16 ip mac (cache_entries c)"
    by (rule cache_add_abs [OF c])
qed simp

lemma cache_boot: "cache_inv (ARP_CACHE (net_boot ready mac frames readings))"
  by (simp add: net_boot_def cache_inv_def cache_entries_def)

end
