(* ===== verification/Receiver.thy ===== *)
theory Receiver
  imports Ethernet
begin

unbundle bit_operations_syntax

text \<open>
  What the receive path of \<open>src/kernel/src/net/eth.rs\<close> does to the state of the network stack, however deep
  its calls nest. The locale \<open>net_relation\<close> collects what a relation between states has to satisfy
  for each elementary update (a timer reading, a poll, a sent frame, an ARP entry, a delivered
  datagram, the three updates of the TCP connection); inside it every operation up to \<open>handle_rx\<close> is
  shown to stay within the relation, never to run out of nesting, and never to add frames to those
  still to come. Each interpretation is an invariant of the stack.
\<close>

section \<open>Results within a relation\<close>

definition within :: "(net \<Rightarrow> net \<Rightarrow> bool) \<Rightarrow> net \<Rightarrow> ('a \<Rightarrow> net) \<Rightarrow> 'a run \<Rightarrow> bool" where
  "within R s st m \<longleftrightarrow>
     (case m of
        Ends x \<Rightarrow> R s (st x) \<and> length (nic_frames (st x)) \<le> length (nic_frames s)
      | Deep \<Rightarrow> False
      | _ \<Rightarrow> True)"

lemma within_simps [simp]:
  "within R s st (Ends x) \<longleftrightarrow> R s (st x) \<and> length (nic_frames (st x)) \<le> length (nic_frames s)"
  "within R s st Panics" "within R s st Waits" "\<not> within R s st Deep"
  by (simp_all add: within_def)

definition good_rx :: "(net \<Rightarrow> net \<Rightarrow> bool) \<Rightarrow> nat \<Rightarrow> receiver \<Rightarrow> bool" where
  "good_rx R N rx \<longleftrightarrow> (\<forall>frame s. length (nic_frames s) < N \<longrightarrow> within R s (\<lambda>s. s) (rx frame s))"

lemma poll_rx_frames:
  "length (nic_frames (snd (poll_rx s))) \<le> length (nic_frames s)"
  "fst (poll_rx s) \<noteq> [] \<Longrightarrow> length (nic_frames (snd (poll_rx s))) < length (nic_frames s)"
  by (auto simp: poll_rx_def split: list.splits if_splits)

lemma send_frames [simp]:
  "nic_frames (snd (nic_send pkt s)) = nic_frames s"
  "nic_frames (snd (send_eth dst ty pkt s)) = nic_frames s"
  "nic_frames (arp_request ip s) = nic_frames s"
  "nic_frames (arp_reply mac ip s) = nic_frames s"
  "nic_frames (arp_cache_add ip mac s) = nic_frames s"
  by (simp_all add: nic_send_def send_eth_def arp_request_def arp_reply_def send_eth_broadcast_def arp_cache_add_def)

lemma update_frames [simp]:
  "nic_frames (dns_callback data s) = nic_frames s"
  "nic_frames (tcp_establish seq ack s) = nic_frames s"
  "nic_frames (tcp_store seq payload s) = nic_frames s"
  "nic_frames (tcp_finish seq s) = nic_frames s"
  by (simp_all add: dns_callback_def tcp_establish_def tcp_store_def tcp_finish_def Let_def)

section \<open>Relations kept by the receive path\<close>

locale net_relation =
  fixes R :: "net \<Rightarrow> net \<Rightarrow> bool"
  assumes refl: "R s s"
    and trans: "R s s' \<Longrightarrow> R s' s'' \<Longrightarrow> R s s''"
    and tick: "ticks s = t # ts \<Longrightarrow> R s (s\<lparr>ticks := ts\<rparr>)"
    and frame: "nic_frames s = f # fs \<Longrightarrow> R s (s\<lparr>nic_frames := fs\<rparr>)"
    and sent: "R s (s\<lparr>nic_sent := nic_sent s @ [pkt]\<rparr>)"
    and arp: "R s (arp_cache_add ip mac s)"
    and dns: "R s (dns_callback data s)"
    and established: "tcp_st (TCP_CONN s) = TCP_SYN_SENT \<Longrightarrow> R s (tcp_establish seq ack s)"
    and stored: "tcp_st (TCP_CONN s) = TCP_ESTABLISHED \<Longrightarrow> R s (tcp_store seq payload s)"
    and finished: "tcp_st (TCP_CONN s) = TCP_ESTABLISHED \<Longrightarrow> R s (tcp_finish seq s)"
begin

lemma andThen_within:
  assumes "within R s st m"
    and "\<And>x. m = Ends x \<Longrightarrow> length (nic_frames (st x)) \<le> length (nic_frames s) \<Longrightarrow> within R (st x) st' (f x)"
  shows "within R s st' (andThen m f)"
proof (cases m)
  case (Ends x)
  then have s: "R s (st x)" "length (nic_frames (st x)) \<le> length (nic_frames s)" using assms(1) by auto
  have "within R (st x) st' (f x)" using assms(2) [OF Ends s(2)] .
  then have "within R s st' (f x)"
    using s by (cases "f x") (auto intro: trans)
  then show ?thesis using Ends by simp
qed (use assms in simp_all)

lemma within_from: "R s t \<Longrightarrow> nic_frames t = nic_frames s \<Longrightarrow> within R t st m \<Longrightarrow> within R s st m"
  by (cases m) (auto intro: trans)

lemma get_tick_count: "within R s snd (get_tick_count s)"
  by (auto simp: get_tick_count_def intro: tick split: list.splits)

lemma poll_rx: "R s (snd (poll_rx s))"
  by (auto simp: poll_rx_def intro: refl frame split: list.splits)

lemma nic_send: "R s (snd (nic_send pkt s))"
  by (simp add: nic_send_def refl sent)

lemma send_eth: "R s (snd (send_eth dst ty pkt s))"
  by (simp add: send_eth_def refl nic_send)

lemma arp_request: "R s (arp_request ip s)"
  by (simp add: arp_request_def send_eth_broadcast_def send_eth)

lemma handle_arp: "R s (handle_arp pkt s)"
  by (auto simp: handle_arp_def arp_reply_def Let_def refl intro: arp trans [OF arp send_eth])

lemma poll_and_handle:
  assumes "good_rx R N rx" "length (nic_frames s) \<le> N"
  shows "within R s (\<lambda>s. s) (poll_and_handle rx s)"
proof -
  obtain f s' where p: "poll_rx s = (f, s')" by fastforce
  note q = poll_rx [of s, unfolded p, simplified] poll_rx_frames [of s, unfolded p, simplified]
  show ?thesis
  proof (cases "f = []")
    case True
    then show ?thesis using p q by (simp add: poll_and_handle_def)
  next
    case False
    then have "within R s' (\<lambda>s. s) (rx f s')" using assms q(3) by (auto simp: good_rx_def)
    then have "within R s (\<lambda>s. s) (rx f s')"
      using q(1,2) by (cases "rx f s'") (auto intro: trans)
    then show ?thesis using False p by (simp add: poll_and_handle_def)
  qed
qed

definition quiet :: "('b \<Rightarrow> net \<Rightarrow> bool \<times> 'b \<times> net) \<Rightarrow> bool" where
  "quiet body \<longleftrightarrow> (\<forall>b s. R s (snd (snd (body b s))) \<and> nic_frames (snd (snd (body b s))) = nic_frames s)"

lemma wait_loop:
  assumes "good_rx R N rx" "quiet body" "length (nic_frames s) \<le> N"
  shows "within R s snd (wait_loop rx start timeout body k b s)"
  using assms(3)
proof (induction k arbitrary: b s)
  case (Suc k)
  show ?case
    unfolding wait_loop.simps
  proof (rule andThen_within [OF get_tick_count], clarsimp split del: if_split, goal_cases)
    case (1 t s1)
    have s1: "length (nic_frames s1) \<le> N" using 1 Suc.prems by simp
    have "within R s1 snd (andThen (poll_and_handle rx s1) (\<lambda>s.
        let (stop, b, s) = body b s in if stop then Ends (b, s) else wait_loop rx start timeout body k b s))"
    proof (rule andThen_within [OF poll_and_handle [OF assms(1) s1]], goal_cases)
      case (1 s2)
      obtain stop b' s3 where b: "body b s2 = (stop, b', s3)" by (metis prod_cases3)
      then have s3: "R s2 s3" "nic_frames s3 = nic_frames s2" using assms(2) by (auto simp: quiet_def) (metis snd_conv)+
      then have "within R s3 snd (wait_loop rx start timeout body k b' s3)" using 1 s1 by (intro Suc.IH) simp
      then show ?case using b s3 by (auto intro: within_from)
    qed
    then show ?case by (simp add: refl)
  qed
qed simp

lemma wait_for:
  assumes "good_rx R N rx" "quiet body" "length (nic_frames s) \<le> N"
  shows "within R s snd (wait_for rx timeout body b s)"
  unfolding wait_for_def
  by (rule andThen_within [OF get_tick_count]) (use assms in \<open>auto simp del: wait_loop.simps intro!: wait_loop\<close>)

lemma arp_answered: "quiet (arp_answered ip)"
  by (auto simp: quiet_def arp_answered_def refl split: option.splits)

lemma arp_tries:
  assumes "good_rx R N rx" "length (nic_frames s) \<le> N"
  shows "within R s snd (arp_tries rx ip timeout m s)"
  using assms(2)
proof (induction m arbitrary: s)
  case (Suc m)
  have w: "within R s snd (wait_for rx timeout (arp_answered ip) None (arp_request ip s))"
    by (rule within_from [OF arp_request]) (use Suc.prems in \<open>auto intro!: wait_for [OF assms(1) arp_answered]\<close>)
  show ?case
    unfolding arp_tries.simps
    by (rule andThen_within [OF w]) (use Suc in \<open>auto simp: refl intro!: Suc.IH\<close>)
qed (simp add: refl)

lemma arp_resolve:
  assumes "good_rx R N rx" "length (nic_frames s) \<le> N"
  shows "within R s snd (arp_resolve rx ip timeout s)"
  using arp_tries [OF assms] by (auto simp: arp_resolve_def refl split: option.splits)

lemma send_ipv4:
  assumes "good_rx R N rx" "length (nic_frames s) \<le> N"
  shows "within R s snd (send_ipv4 rx ip proto payload ident s)"
proof (cases "length payload > 1494")
  case False
  have w: "within R s snd (if ip_eq ip (255, 255, 255, 255) then Ends (Some (0xFF, 0xFF, 0xFF, 0xFF, 0xFF, 0xFF), s)
      else arp_resolve rx ip 10 s)"
    using arp_resolve [OF assms] by (simp add: refl)
  have "within R s snd (andThen (if ip_eq ip (255, 255, 255, 255) then Ends (Some (0xFF, 0xFF, 0xFF, 0xFF, 0xFF, 0xFF), s)
      else arp_resolve rx ip 10 s) f)"
    if "\<And>m t. within R t snd (f (m, t))" for f :: "_ \<Rightarrow> (bool \<times> net) run"
    by (rule andThen_within [OF w]) (use that in auto)
  then show ?thesis
    using False by (simp only: send_ipv4_def Let_def if_False)
      (auto simp: refl nic_send split: option.splits)
qed (simp add: send_ipv4_def)

lemma send_udp:
  "good_rx R N rx \<Longrightarrow> length (nic_frames s) \<le> N \<Longrightarrow> within R s snd (send_udp rx ip dport sport payload s)"
  by (simp add: send_udp_def send_ipv4)

lemma send_tcp_raw:
  "good_rx R N rx \<Longrightarrow> length (nic_frames s) \<le> N \<Longrightarrow> within R s snd (send_tcp_raw rx conn flags payload s)"
  by (simp add: send_tcp_raw_def send_ipv4)

lemma send_ack:
  "good_rx R N rx \<Longrightarrow> length (nic_frames s) \<le> N \<Longrightarrow> within R s (\<lambda>s. s) (send_ack rx s)"
  unfolding send_ack_def by (rule andThen_within [OF send_tcp_raw]) (auto simp: refl)

lemma offer_udp: "R s (offer_udp port payload i s) \<and> nic_frames (offer_udp port payload i s) = nic_frames s"
proof (cases "UDP_HANDLERS s ! i")
  case (Some h)
  then show ?thesis by (cases "handler_callback h") (simp add: offer_udp_def refl dns)
qed (simp add: offer_udp_def refl)

lemma offer_all: "R s (fold (offer_udp port payload) is s) \<and> nic_frames (fold (offer_udp port payload) is s) = nic_frames s"
proof (induction "is" arbitrary: s)
  case (Cons i "is")
  show ?case
    using offer_udp [of s port payload i] Cons [of "offer_udp port payload i s"]
    by (auto intro: trans [of s "offer_udp port payload i s"])
qed (simp add: refl)

lemma handle_udp: "within R s (\<lambda>s. s) (handle_udp data s)"
  by (simp add: handle_udp_def Let_def refl offer_all)

lemma handle_tcp:
  assumes "good_rx R N rx" "length (nic_frames s) \<le> N"
  shows "within R s (\<lambda>s. s) (handle_tcp rx data s)"
proof -
  have ack: "within R s (\<lambda>s. s) (send_ack rx t)" if "R s t" "nic_frames t = nic_frames s" for t
    using that assms by (intro within_from [OF that send_ack]) simp_all
  show ?thesis
    by (auto simp: handle_tcp_def Let_def refl intro!: ack established stored finished)
qed

lemma handle_ipv4:
  "good_rx R N rx \<Longrightarrow> length (nic_frames s) \<le> N \<Longrightarrow> within R s (\<lambda>s. s) (handle_ipv4 rx pkt s)"
  by (simp add: handle_ipv4_def Let_def refl handle_udp handle_tcp)

lemma handle_arp_frames: "nic_frames (handle_arp pkt s) = nic_frames s"
  by (simp add: handle_arp_def Let_def)

lemma dispatch_rx:
  "good_rx R N rx \<Longrightarrow> length (nic_frames s) \<le> N \<Longrightarrow> within R s (\<lambda>s. s) (dispatch_rx rx frame s)"
  by (simp add: dispatch_rx_def Let_def refl handle_ipv4 handle_arp handle_arp_frames)

lemma handle_rx_within: "good_rx R n (handle_rx_within n)"
proof (induction n)
  case (Suc n)
  then show ?case by (auto simp: good_rx_def [of R "Suc n"] intro!: dispatch_rx)
qed (simp add: good_rx_def)

lemma handle_rx: "within R s (\<lambda>s. s) (handle_rx frame s)"
  using handle_rx_within [of "Suc (length (nic_frames s))"] by (auto simp: handle_rx_def good_rx_def simp del: handle_rx_within.simps)

lemma handle_rx_good: "good_rx R N handle_rx"
  by (simp add: good_rx_def handle_rx)

lemma tcp_connected_body: "quiet tcp_connected_body"
  by (simp add: quiet_def tcp_connected_body_def refl)

lemma tcp_send: "within R s snd (tcp_send handle_rx data s)"
  unfolding tcp_send_def using andThen_within [OF send_tcp_raw [OF handle_rx_good order_refl]]
  by (auto simp: refl intro!: andThen_within [OF send_tcp_raw [OF handle_rx_good order_refl]])

end

section \<open>Termination of the receive path\<close>

interpretation len: net_relation "\<lambda>_ _. True"
  by unfold_locales auto

abbreviation len_rx :: "nat \<Rightarrow> receiver \<Rightarrow> bool" where
  "len_rx \<equiv> good_rx (\<lambda>_ _. True)"

text \<open>Receivers that agree on the states with fewer than \<open>N\<close> frames to come.\<close>

definition agree :: "nat \<Rightarrow> receiver \<Rightarrow> receiver \<Rightarrow> bool" where
  "agree N rx rx' \<longleftrightarrow> (\<forall>frame s. length (nic_frames s) < N \<longrightarrow> rx frame s = rx' frame s)"

lemma andThen_cong:
  assumes "within (\<lambda>_ _. True) s st m" "\<And>x. length (nic_frames (st x)) \<le> length (nic_frames s) \<Longrightarrow> f x = g x"
  shows "andThen m f = andThen m g"
  using assms by (cases m) auto

lemma poll_and_handle_agree:
  assumes "agree N rx rx'" "length (nic_frames s) \<le> N"
  shows "poll_and_handle rx s = poll_and_handle rx' s"
  using assms poll_rx_frames(2) [of s] by (auto simp: poll_and_handle_def agree_def split: prod.splits)

lemma wait_loop_agree:
  assumes "agree N rx rx'" "len_rx N rx" "len.quiet body" "length (nic_frames s) \<le> N"
  shows "wait_loop rx start timeout body k b s = wait_loop rx' start timeout body k b s"
  using assms(4)
proof (induction k arbitrary: b s)
  case (Suc k)
  show ?case
    unfolding wait_loop.simps
  proof (rule andThen_cong [OF len.get_tick_count], clarsimp split del: if_split, goal_cases)
    case (1 t s1)
    then have s1: "length (nic_frames s1) \<le> N" using Suc.prems by simp
    have "(let (stop, b, s) = body b s2 in if stop then Ends (b, s) else wait_loop rx start timeout body k b s) =
        (let (stop, b, s) = body b s2 in if stop then Ends (b, s) else wait_loop rx' start timeout body k b s)"
      if "length (nic_frames s2) \<le> length (nic_frames s1)" for s2
    proof -
      obtain stop b' s3 where b: "body b s2 = (stop, b', s3)" by (metis prod_cases3)
      then have "nic_frames s3 = nic_frames s2" using assms(3) by (metis len.quiet_def snd_conv)
      then show ?thesis using b Suc.IH [of s3 b'] that s1 by simp
    qed
    then have "andThen (poll_and_handle rx s1) (\<lambda>s. let (stop, b, s) = body b s in
          if stop then Ends (b, s) else wait_loop rx start timeout body k b s) =
        andThen (poll_and_handle rx s1) (\<lambda>s. let (stop, b, s) = body b s in
          if stop then Ends (b, s) else wait_loop rx' start timeout body k b s)"
      by (intro andThen_cong [OF len.poll_and_handle [OF assms(2) s1]]) simp
    then show ?case by (simp add: poll_and_handle_agree [OF assms(1) s1])
  qed
qed simp

lemma wait_for_agree:
  assumes "agree N rx rx'" "len_rx N rx" "len.quiet body" "length (nic_frames s) \<le> N"
  shows "wait_for rx timeout body b s = wait_for rx' timeout body b s"
  unfolding wait_for_def
  by (rule andThen_cong [OF len.get_tick_count])
    (use assms in \<open>auto simp del: wait_loop.simps intro!: wait_loop_agree\<close>)

lemma arp_tries_agree:
  assumes "agree N rx rx'" "len_rx N rx" "length (nic_frames s) \<le> N"
  shows "arp_tries rx ip timeout m s = arp_tries rx' ip timeout m s"
  using assms(3)
proof (induction m arbitrary: s)
  case (Suc m)
  let ?w = "\<lambda>rx. wait_for rx timeout (arp_answered ip) None (arp_request ip s)"
  have f: "length (nic_frames (arp_request ip s)) \<le> N" using Suc.prems by simp
  have "?w rx = ?w rx'" by (rule wait_for_agree [OF assms(1,2) len.arp_answered f])
  moreover have "andThen (?w rx) (\<lambda>(found, s). if found \<noteq> None then Ends (found, s) else arp_tries rx ip timeout m s) =
      andThen (?w rx) (\<lambda>(found, s). if found \<noteq> None then Ends (found, s) else arp_tries rx' ip timeout m s)"
    by (rule andThen_cong [OF len.wait_for [OF assms(2) len.arp_answered f]]) (use Suc f in \<open>auto split: prod.splits\<close>)
  ultimately show ?case by simp
qed simp

lemma send_ipv4_agree:
  assumes "agree N rx rx'" "len_rx N rx" "length (nic_frames s) \<le> N"
  shows "send_ipv4 rx ip proto payload ident s = send_ipv4 rx' ip proto payload ident s"
proof -
  have "arp_resolve rx ip 10 s = arp_resolve rx' ip 10 s"
    by (simp add: arp_resolve_def arp_tries_agree [OF assms] split: option.splits)
  then show ?thesis by (simp add: send_ipv4_def)
qed

lemma send_ack_agree:
  "agree N rx rx' \<Longrightarrow> len_rx N rx \<Longrightarrow> length (nic_frames s) \<le> N \<Longrightarrow> send_ack rx s = send_ack rx' s"
  by (simp add: send_ack_def send_tcp_raw_def send_ipv4_agree)

lemma dispatch_rx_agree:
  assumes "agree N rx rx'" "len_rx N rx" "length (nic_frames s) \<le> N"
  shows "dispatch_rx rx frame s = dispatch_rx rx' frame s"
proof -
  have "handle_tcp rx data s = handle_tcp rx' data s" for data
    using assms by (simp add: handle_tcp_def Let_def send_ack_agree [OF assms(1,2)])
  then show ?thesis by (simp add: dispatch_rx_def handle_ipv4_def Let_def)
qed

lemma handle_rx_within_agree: "n \<le> m \<Longrightarrow> agree n (handle_rx_within n) (handle_rx_within m)"
proof (induction n arbitrary: m)
  case (Suc n)
  then obtain k where k: "m = Suc k" "n \<le> k" by (cases m) auto
  show ?case
    unfolding agree_def
  proof (intro allI impI)
    fix frame and s :: net
    assume s: "length (nic_frames s) < Suc n"
    then have "dispatch_rx (handle_rx_within n) frame s = dispatch_rx (handle_rx_within k) frame s"
      by (intro dispatch_rx_agree [OF Suc.IH [OF k(2)] len.handle_rx_within]) simp
    then show "handle_rx_within (Suc n) frame s = handle_rx_within m frame s" using k by simp
  qed
qed (simp add: agree_def)

text \<open>More nesting than there are frames to come makes no difference.\<close>

lemma handle_rx_enough: "length (nic_frames s) < n \<Longrightarrow> handle_rx_within n frame s = handle_rx frame s"
  using handle_rx_within_agree [of "Suc (length (nic_frames s))" n]
  by (auto simp: agree_def handle_rx_def simp del: handle_rx_within.simps)

text \<open>
  C13: nested receiving. Handling a frame always comes to a result without running out of nesting,
  whatever the card delivers while the handler waits for ARP; and \<open>handle_rx\<close> satisfies the recursion of
  the source, in which every nested call is \<open>handle_rx\<close> itself.
\<close>

theorem handle_rx_recursion:
  "handle_rx frame s \<noteq> Deep \<and> handle_rx frame s = dispatch_rx handle_rx frame s"
proof
  show "handle_rx frame s \<noteq> Deep" using len.handle_rx [of s frame] by auto
  let ?n = "length (nic_frames s)"
  have a: "agree ?n (handle_rx_within ?n) handle_rx"
    by (simp add: agree_def handle_rx_enough)
  have "handle_rx frame s = dispatch_rx (handle_rx_within ?n) frame s"
    by (simp add: handle_rx_def)
  also have "\<dots> = dispatch_rx handle_rx frame s"
    by (rule dispatch_rx_agree [OF a len.handle_rx_within]) simp
  finally show "handle_rx frame s = dispatch_rx handle_rx frame s" .
qed

end
