(* ===== verification/Nic.thy ===== *)
theory Nic
  imports Text
begin

unbundle bit_operations_syntax

text \<open>
  The RTL8139 driver of \<open>src/kernel/src/net/nic.rs\<close>. The card is the record \<open>card\<close> of what its registers and
  its PCI configuration space read as; register writes are collected in \<open>io_log\<close> as pairs of port and
  value, in the order they are made, and writes of the PCI command register in \<open>pci_log\<close>. The receive ring is the static array \<open>raw_rx\<close>, which the card
  fills; the aligned part that the card uses starts at \<open>rx_start\<close>.

  The lemmas show that a packet the card has stored in the ring, wrapped around its end or not, is
  handed to the caller without its checksum, and that a frame to be sent is placed in the transmit
  buffer whose descriptor is then started.
\<close>

section \<open>State\<close>

abbreviation (input) RX_BUF_SIZE :: nat where "RX_BUF_SIZE \<equiv> 8192"
abbreviation (input) TX_BUF_SIZE :: nat where "TX_BUF_SIZE \<equiv> 1792"
abbreviation (input) NUM_TX :: nat where "NUM_TX \<equiv> 4"

abbreviation (input) REG_CR :: u16 where "REG_CR \<equiv> 0x37"
abbreviation (input) REG_RCR :: u16 where "REG_RCR \<equiv> 0x44"
abbreviation (input) REG_IMR :: u16 where "REG_IMR \<equiv> 0x3C"
abbreviation (input) REG_RBSTART :: u16 where "REG_RBSTART \<equiv> 0x30"
abbreviation (input) REG_CAPR :: u16 where "REG_CAPR \<equiv> 0x38"
abbreviation (input) REG_CONFIG1 :: u16 where "REG_CONFIG1 \<equiv> 0x53"

definition REG_TX_STATUS :: "u16 list" where "REG_TX_STATUS = [0x10, 0x14, 0x18, 0x1C]"
definition REG_TX_ADDR :: "u16 list" where "REG_TX_ADDR = [0x20, 0x24, 0x28, 0x2C]"

abbreviation (input) CR_RST :: u8 where "CR_RST \<equiv> 0x10"

record dma =
  raw_rx :: bytes
  tx_bufs :: "bytes list"
  rx_start :: nat
  rx_cur :: u16
  tx_idx :: nat
  io_base :: u16
  initialized :: bool
  io_log :: "(u16 \<times> u32) list"
  pci_log :: "(u8 \<times> u8 \<times> u32) list"

definition dma_boot :: dma where
  "dma_boot = \<lparr>raw_rx = replicate 8208 0, tx_bufs = replicate 4 (replicate 1792 0), rx_start = 0, rx_cur = 0,
     tx_idx = 0, io_base = 0, initialized = False, io_log = [], pci_log = []\<rparr>"

record card =
  pci_id :: "u8 \<Rightarrow> u8 \<Rightarrow> u32"
  pci_bar0 :: "u8 \<Rightarrow> u8 \<Rightarrow> u32"
  pci_command :: "u8 \<Rightarrow> u8 \<Rightarrow> u32"
  cr_reads :: "nat \<Rightarrow> u8"
  mac_reg0 :: u32
  mac_reg4 :: u16
  rx_phys :: u64
  tx_phys :: "nat \<Rightarrow> u32"

definition outp :: "u16 \<Rightarrow> u32 \<Rightarrow> dma \<Rightarrow> dma" where
  "outp port v d = d\<lparr>io_log := io_log d @ [(port, v)]\<rparr>"

section \<open>Initialisation\<close>

definition pci_slots :: "(u8 \<times> u8) list" where
  "pci_slots = concat (map (\<lambda>b. map (\<lambda>s. (word_of_nat b, word_of_nat s)) [0..<32]) [0..<8])"

definition is_rtl8139 :: "u32 \<Rightarrow> bool" where
  "is_rtl8139 vd \<longleftrightarrow>
     (let v = ucast (vd AND 0xFFFF) :: u16
      in v \<noteq> 0xFFFF \<and> v = 0x10EC \<and> (ucast (drop_bit 16 vd) :: u16) = 0x8139)"

definition find_card :: "card \<Rightarrow> (u8 \<times> u8) option" where
  "find_card c = find_first (\<lambda>(b, s). is_rtl8139 (pci_id c b s)) pci_slots"

text \<open>The reset loop: what is left of \<open>timeout\<close> when it ends; the register is read once per turn.\<close>

fun reset_wait :: "card \<Rightarrow> nat \<Rightarrow> nat \<Rightarrow> nat" where
  "reset_wait c i 0 = 0"
| "reset_wait c i (Suc timeout) = (if cr_reads c i AND CR_RST \<noteq> 0 then reset_wait c (Suc i) timeout else Suc timeout)"

definition read_mac :: "card \<Rightarrow> bytes" where
  "read_mac c = [ucast (mac_reg0 c), ucast (drop_bit 8 (mac_reg0 c)), ucast (drop_bit 16 (mac_reg0 c)),
     ucast (drop_bit 24 (mac_reg0 c)), ucast (mac_reg4 c), ucast (drop_bit 8 (mac_reg4 c))]"

definition nibble :: "u8 \<Rightarrow> u8" where
  "nibble n = (if n < 10 then 0x30 + n else 0x61 + n - 10)"

definition mac_text :: "bytes \<Rightarrow> bytes" where
  "mac_text mac = concat (map (\<lambda>i. [nibble (drop_bit 4 (mac ! i)), nibble (mac ! i AND 0x0F)] @
     (if i < 5 then bytes_of '':'' else [])) [0..<6])"

text \<open>The result is the address read from the card, what is printed, and the new state.\<close>

definition nic_init :: "card \<Rightarrow> dma \<Rightarrow> bytes option \<times> bytes \<times> dma" where
  "nic_init c d =
     (case find_card c of
        None \<Rightarrow> (None, bytes_of ''net: RTL8139 not found on PCI\<newline>'', d)
      | Some (bus, slot) \<Rightarrow>
          let io = ucast (pci_bar0 c bus slot AND 0xFFFE) :: u16;
              msg = bytes_of ''net: RTL8139 at '' @ num_text (ucast bus) @ bytes_of '':'' @ num_text (ucast slot) @
                    bytes_of ''.0  I/O 0x'' @ num_text (ucast io) @ [0x0A];
              d = d\<lparr>pci_log := pci_log d @ [(bus, slot, pci_command c bus slot OR 0x07)]\<rparr>;
              d = outp (io + REG_CR) (ucast CR_RST) (outp (io + REG_CONFIG1) 0 d)
          in if reset_wait c 0 1000 = 0 then (None, msg @ bytes_of ''net: RTL8139 reset timeout\<newline>'', d)
             else let mac = read_mac c;
                      aligned = (rx_phys c + 15) AND NOT 15;
                      d = d\<lparr>rx_start := unat (aligned - rx_phys c), rx_cur := 0\<rparr>;
                      d = outp (io + REG_RBSTART) (ucast aligned) d;
                      d = outp (io + REG_RCR) (0x0008 OR 0x0002 OR 0x0000) d;
                      d = outp (io + REG_CR) (0x08 OR 0x04) d;
                      d = outp (io + REG_IMR) 0x0005 d
                  in (Some mac, msg @ bytes_of ''net: MAC '' @ mac_text mac @ [0x0A] @ bytes_of ''net: RTL8139 initialized\<newline>'',
                      d\<lparr>io_base := io, initialized := True\<rparr>))"

section \<open>Receiving\<close>

text \<open>
  \<open>None\<close> is an index out of range. \<open>capr\<close> and \<open>cbr\<close> are what the two registers read as, \<open>cap\<close> is the
  length of the caller's buffer; the first result is what has been copied to its front.
\<close>

definition ring_slice :: "dma \<Rightarrow> nat \<Rightarrow> nat \<Rightarrow> bytes option" where
  "ring_slice d at n = (if n = 0 \<or> rx_start d + at + n \<le> length (raw_rx d)
     then Some (take n (drop (rx_start d + at) (raw_rx d))) else None)"

definition copy_packet :: "dma \<Rightarrow> nat \<Rightarrow> nat \<Rightarrow> nat \<Rightarrow> bytes option" where
  "copy_packet d off pkt_len copy_len =
     (let data_end = off + 4 + pkt_len; pkt_start = off + 4
      in if data_end \<le> RX_BUF_SIZE then ring_slice d pkt_start copy_len
         else let first = (if pkt_start \<le> RX_BUF_SIZE then RX_BUF_SIZE - pkt_start
                           else 2 ^ 64 + RX_BUF_SIZE - pkt_start)
         in do {
              a \<leftarrow> ring_slice d pkt_start (min first copy_len);
              b \<leftarrow> ring_slice d 0 (copy_len - first);
              Some (a @ b)
            })"

definition nic_poll_rx :: "u16 \<Rightarrow> u16 \<Rightarrow> nat \<Rightarrow> dma \<Rightarrow> (bytes \<times> dma) option" where
  "nic_poll_rx capr cbr cap d =
     (if \<not> initialized d then Some ([], d)
      else if capr = cbr \<or> rx_cur d = cbr then Some ([], d)
      else let off = unat (rx_cur d) mod RX_BUF_SIZE
      in do {
           hdr \<leftarrow> ring_slice d (off + 2) 2;
           let pkt_len = unat (from_le hdr :: u16);
           if pkt_len < 4 \<or> pkt_len > RX_BUF_SIZE
           then Some ([], outp (io_base d + REG_CAPR) (ucast (cbr - 16)) (d\<lparr>rx_cur := cbr\<rparr>))
           else do {
             copied \<leftarrow> copy_packet d off pkt_len (min (pkt_len - 4) cap);
             let cur = (rx_cur d + 4 + word_of_nat pkt_len) mod 8192;
             Some (copied, outp (io_base d + REG_CAPR) (ucast (cur - 16)) (d\<lparr>rx_cur := cur\<rparr>))
           }
         })"

section \<open>Sending\<close>

text \<open>
  The wait for the previous transmission ends after 100000 reads in any case and its outcome is not
  looked at; \<open>buf\<close> holds at least \<open>len\<close> bytes.
\<close>

definition nic_transmit :: "card \<Rightarrow> bytes \<Rightarrow> nat \<Rightarrow> dma \<Rightarrow> bool \<times> dma" where
  "nic_transmit c buf len d =
     (if \<not> initialized d \<or> len > TX_BUF_SIZE then (False, d)
      else let idx = tx_idx d mod NUM_TX;
               d = d\<lparr>tx_bufs := (tx_bufs d)[idx := take len buf @ drop len (tx_bufs d ! idx)]\<rparr>;
               d = outp (io_base d + REG_TX_ADDR ! idx) (tx_phys c idx) d;
               d = outp (io_base d + REG_TX_STATUS ! idx) ((word_of_nat len AND 0x1FFF) OR 0x000F0000) d
      in (True, d\<lparr>tx_idx := (tx_idx d + 1) mod NUM_TX\<rparr>))"

section \<open>What the driver guarantees\<close>

definition dma_wf :: "dma \<Rightarrow> bool" where
  "dma_wf d \<longleftrightarrow> length (raw_rx d) = 8208 \<and> rx_start d < 16 \<and> length (tx_bufs d) = 4 \<and>
     (\<forall>b \<in> set (tx_bufs d). length b = 1792) \<and> tx_idx d < 4"

text \<open>
  The card has stored a packet at ring offset \<open>off\<close>: two status bytes, the length including the four
  bytes of the checksum, the frame and the checksum, continuing at the start of the ring after
  its last byte.
\<close>

definition stored_packet :: "dma \<Rightarrow> nat \<Rightarrow> bytes \<Rightarrow> bytes \<Rightarrow> bytes \<Rightarrow> bool" where
  "stored_packet d off status frame crc \<longleftrightarrow>
     (let stream = status @ to_le 2 (word_of_nat (length frame + 4) :: u16) @ frame @ crc
      in length status = 2 \<and> length crc = 4 \<and>
         (\<forall>j < length stream. raw_rx d ! (rx_start d + (off + j) mod RX_BUF_SIZE) = stream ! j))"

lemma outp_simps [simp]:
  "raw_rx (outp p v d) = raw_rx d" "rx_start (outp p v d) = rx_start d" "tx_bufs (outp p v d) = tx_bufs d"
  "tx_idx (outp p v d) = tx_idx d" "rx_cur (outp p v d) = rx_cur d" "io_base (outp p v d) = io_base d"
  "initialized (outp p v d) = initialized d" "io_log (outp p v d) = io_log d @ [(p, v)]"
  by (simp_all add: outp_def)

lemma ring_slice_nth:
  assumes "dma_wf d" "at + n \<le> 8192" "length xs = n"
    and "\<And>i. i < n \<Longrightarrow> raw_rx d ! (rx_start d + (at + i)) = xs ! i"
  shows "ring_slice d at n = Some xs"
proof -
  have len: "length (raw_rx d) = 8208" "rx_start d < 16" using assms(1) by (auto simp: dma_wf_def)
  have "take n (drop (rx_start d + at) (raw_rx d)) = xs"
    using assms len by (intro nth_equalityI) (auto simp: add.assoc)
  then show ?thesis using len assms(2) by (simp add: ring_slice_def)
qed

lemma stored_nth:
  assumes "stored_packet d off status frame crc" "j < length frame"
  shows "raw_rx d ! (rx_start d + (off + 4 + j) mod 8192) = frame ! j"
proof -
  let ?st = "status @ to_le 2 (word_of_nat (length frame + 4) :: u16) @ frame @ crc"
  have st: "length status = 2" "\<forall>j < length ?st. raw_rx d ! (rx_start d + (off + j) mod 8192) = ?st ! j"
    using assms(1) unfolding stored_packet_def Let_def by blast+
  have lt: "4 + j < length ?st" using st(1) assms(2) by simp
  have "?st ! (4 + j) = frame ! j" using st(1) assms(2) by (simp add: nth_append)
  from trans [OF st(2) [rule_format, OF lt] this] show ?thesis by (simp only: add.assoc)
qed

lemma stored_header:
  assumes "dma_wf d" "stored_packet d off status frame crc" "off \<le> 8188"
  shows "ring_slice d (off + 2) 2 = Some (to_le 2 (word_of_nat (length frame + 4) :: u16))"
proof -
  let ?l = "to_le 2 (word_of_nat (length frame + 4) :: u16)"
  let ?st = "status @ ?l @ frame @ crc"
  have s: "length status = 2" "\<forall>j < length ?st. raw_rx d ! (rx_start d + (off + j) mod 8192) = ?st ! j"
    using assms(2) unfolding stored_packet_def Let_def by blast+
  have "raw_rx d ! (rx_start d + (off + 2 + i)) = ?l ! i" if "i < 2" for i
  proof -
    have "(off + (2 + i)) mod 8192 = off + 2 + i" using assms(3) that by simp
    moreover have "?st ! (2 + i) = ?l ! i" "2 + i < length ?st" using that s(1) by (auto simp: nth_append)
    ultimately show ?thesis using s(2) by metis
  qed
  then show ?thesis using assms by (intro ring_slice_nth) auto
qed

lemma copy_stored:
  assumes "dma_wf d" "stored_packet d off status frame crc" "off \<le> 8188" "length frame + 4 \<le> 8192"
    and n: "n \<le> length frame"
  shows "copy_packet d off (length frame + 4) n = Some (take n frame)"
proof (cases "off + 4 + (length frame + 4) \<le> 8192")
  case True
  have "raw_rx d ! (rx_start d + (off + 4 + i)) = take n frame ! i" if "i < n" for i
    using stored_nth [OF assms(2), of i] True that n by simp
  then have "ring_slice d (off + 4) n = Some (take n frame)"
    using True n assms(1) by (intro ring_slice_nth) auto
  then show ?thesis using True by (simp add: copy_packet_def Let_def)
next
  case False
  let ?first = "8192 - (off + 4)"
  have "raw_rx d ! (rx_start d + (off + 4 + i)) = take (min ?first n) frame ! i" if "i < min ?first n" for i
    using stored_nth [OF assms(2), of i] that n assms(3) by simp
  then have a: "ring_slice d (off + 4) (min ?first n) = Some (take (min ?first n) frame)"
    using n assms(1,3) by (intro ring_slice_nth) auto
  have "raw_rx d ! (rx_start d + (0 + i)) = take (n - ?first) (drop ?first frame) ! i" if "i < n - ?first" for i
  proof -
    have "off + 4 + (?first + i) = 8192 + i" using assms(3) by simp
    moreover have "i < 8192" using that n assms(4) by simp
    ultimately have "(off + 4 + (?first + i)) mod 8192 = i" by simp
    then show ?thesis using stored_nth [OF assms(2), of "?first + i"] that n by simp
  qed
  then have b: "ring_slice d 0 (n - ?first) = Some (take (n - ?first) (drop ?first frame))"
    using n assms(1,4) by (intro ring_slice_nth) auto
  have "take (min ?first n) frame @ take (n - ?first) (drop ?first frame) = take n frame"
    by (cases "?first \<le> n") (simp_all add: min_def take_add [symmetric])
  then show ?thesis using False a b assms(3) by (simp add: copy_packet_def Let_def)
qed

lemma unat_len16: "n < 65536 \<Longrightarrow> unat (word_of_nat n :: u16) = n"
  by (simp add: unat_of_nat)

lemma nic_poll_rx_wf:
  assumes "dma_wf d" "nic_poll_rx capr cbr cap d = Some (copied, d')"
  shows "dma_wf d' \<and> length copied \<le> cap \<and> raw_rx d' = raw_rx d"
proof -
  have len: "length a \<le> n" if "ring_slice d at n = Some a" for at n a
    using that by (auto simp: ring_slice_def split: if_splits)
  have "length a \<le> n" if "copy_packet d off l n = Some a" for off l n a
    using that by (auto simp: copy_packet_def Let_def split: if_splits Option.bind_splits dest!: len)
  from this [where n = "min (_ - 4) cap"] show ?thesis
    using assms by (auto simp: nic_poll_rx_def dma_wf_def Let_def split: if_splits Option.bind_splits)
qed

text \<open>
  C23: receiving a packet. When the card has stored a packet at the driver's read offset, \<open>poll_rx\<close>
  returns its frame without the checksum, cut to the caller's buffer, also when the packet wraps
  around the end of the ring, and moves the read offset just behind the packet.
\<close>

theorem nic_receives_stored_packet:
  assumes "dma_wf d" "initialized d" "capr \<noteq> cbr" "rx_cur d \<noteq> cbr"
    and "unat (rx_cur d) \<le> 8188"
    and "stored_packet d (unat (rx_cur d)) status frame crc" "length frame \<le> 8188"
  shows "\<exists>d'. nic_poll_rx capr cbr cap d = Some (take cap frame, d') \<and> dma_wf d' \<and>
     unat (rx_cur d') = (unat (rx_cur d) + length frame + 8) mod 8192"
proof -
  have o: "unat (rx_cur d) mod 8192 = unat (rx_cur d)" using assms(5) by simp
  have l: "unat (from_le (to_le 2 (word_of_nat (length frame + 4) :: u16)) :: u16) = length frame + 4"
    by (rule trans [OF arg_cong [where f = unat, OF from_le_to_le] unat_len16]) (use assms(7) in simp_all)
  have c: "copy_packet d (unat (rx_cur d)) (length frame + 4) (min (length frame) cap) = Some (take cap frame)"
    using copy_stored [OF assms(1,6,5), of "min (length frame) cap"] assms(7)
    by (simp add: min_def)
  let ?cur = "(rx_cur d + 4 + word_of_nat (length frame + 4)) mod 8192"
  have "unat (rx_cur d + 4 + word_of_nat (length frame + 4)) = unat (rx_cur d) + 4 + (length frame + 4)"
    using assms(5,7) unat_len16 [of "length frame + 4"]
    by (subst unat_add_lem [THEN iffD1]; simp) (subst unat_add_lem [THEN iffD1]; simp)+
  then have cur: "unat ?cur = (unat (rx_cur d) + length frame + 8) mod 8192"
    using unat_mod [of "rx_cur d + 4 + word_of_nat (length frame + 4)" "8192 :: u16"] unat_len16 [of 8192]
    by (simp only: of_nat_numeral) (simp add: add.commute add.left_commute)
  let ?d = "outp (io_base d + REG_CAPR) (ucast (?cur - 16)) (d\<lparr>rx_cur := ?cur\<rparr>)"
  have p: "nic_poll_rx capr cbr cap d = Some (take cap frame, ?d)"
    unfolding nic_poll_rx_def Let_def o stored_header [OF assms(1,6,5)]
    using assms(2-4,7) c by (simp only: l Option.bind.bind_lunit) simp
  show ?thesis
    by (intro exI [of _ ?d] conjI p) (use cur nic_poll_rx_wf [OF assms(1) p] in simp_all)
qed

text \<open>A ring in which a frame of six bytes starts four bytes before the end and wraps around.\<close>

definition wrapped_ring :: dma where
  "wrapped_ring = dma_boot\<lparr>raw_rx := (replicate 8208 0)[8184 := 1, 8186 := 0x0A, 8188 := 0xDD, 8189 := 0xEE,
     8190 := 0xFF, 8191 := 0x99, 0 := 0xAA, 1 := 0xBB, 2 := 0xCC, 3 := 1, 4 := 2, 5 := 3],
     rx_cur := 8184, initialized := True\<rparr>"

lemma nth_list_iff: "(\<forall>j < length xs. f j = xs ! j) \<longleftrightarrow> map f [0..<length xs] = xs"
proof
  assume "map f [0..<length xs] = xs"
  then have "map f [0..<length xs] ! j = xs ! j" for j by (rule arg_cong)
  then show "\<forall>j < length xs. f j = xs ! j" by (metis (no_types) add_0 nth_map_upt diff_zero)
qed (rule nth_equalityI; simp)

lemma wrapped_ring_stored: "stored_packet wrapped_ring 8184 [0x01, 0] [0xDD, 0xEE, 0xFF, 0x99, 0xAA, 0xBB] [0xCC, 1, 2, 3]"
proof -
  have u: "[0..<14] = [0, 1, 2, 3, 4, 5, 6, 7, 8, 9, 10, 11, 12, 13 :: nat]" by code_simp
  have w: "to_le 2 (word_of_nat (length [0xDD, 0xEE, 0xFF, 0x99, 0xAA, 0xBB :: u8] + 4) :: u16) = [0x0A, 0]" by code_simp
  show ?thesis
    unfolding stored_packet_def Let_def nth_list_iff wrapped_ring_def dma_boot_def
    by (simp add: u w [simplified])
qed

theorem nic_receives_stored_packet_witness:
  "\<exists>d'. nic_poll_rx 0 16 1518 wrapped_ring = Some ([0xDD, 0xEE, 0xFF, 0x99, 0xAA, 0xBB], d') \<and> dma_wf d' \<and> unat (rx_cur d') = 6"
  using nic_receives_stored_packet [of wrapped_ring 0 16 "[0x01, 0]" "[0xDD, 0xEE, 0xFF, 0x99, 0xAA, 0xBB]" "[0xCC, 1, 2, 3]" 1518]
    wrapped_ring_stored
  by (simp add: wrapped_ring_def dma_boot_def dma_wf_def)

text \<open>A frame is placed in the next transmit buffer, whose descriptor is then started with its length.\<close>

lemma nic_transmits_frame:
  fixes d :: dma and c :: card
  assumes "dma_wf d" "initialized d" "len \<le> 1792" "len \<le> length buf"
  defines "d' \<equiv> snd (nic_transmit c buf len d)"
  shows "fst (nic_transmit c buf len d)" "dma_wf d'"
    and "take len (tx_bufs d' ! tx_idx d) = take len buf"
    and "i \<noteq> tx_idx d \<Longrightarrow> tx_bufs d' ! i = tx_bufs d ! i"
    and "io_log d' = io_log d @ [(io_base d + REG_TX_ADDR ! tx_idx d, tx_phys c (tx_idx d)),
       (io_base d + REG_TX_STATUS ! tx_idx d, word_of_nat len AND 0x1FFF OR 0x000F0000)]"
    and "tx_idx d' = (tx_idx d + 1) mod 4"
proof -
  have i: "tx_idx d < 4" "tx_idx d mod 4 = tx_idx d" "length (tx_bufs d) = 4" "length (tx_bufs d ! tx_idx d) = 1792"
    using assms(1) by (auto simp: dma_wf_def)
  let ?bufs = "(tx_bufs d)[tx_idx d := take len buf @ drop len (tx_bufs d ! tx_idx d)]"
  have w: "length (raw_rx d) = 8208" "rx_start d < 16" using assms(1) by (auto simp: dma_wf_def)
  have b: "\<forall>b \<in> set ?bufs. length b = 1792"
    using assms(1,3,4) i by (auto simp: dma_wf_def dest!: set_update_subset_insert [THEN subsetD])
  have e: "tx_bufs d' = ?bufs" "raw_rx d' = raw_rx d" "rx_start d' = rx_start d" "tx_idx d' = (tx_idx d + 1) mod 4"
    using assms(2,3) i(2) by (simp_all add: d'_def nic_transmit_def Let_def)
  show "dma_wf d'"
    unfolding dma_wf_def e by (intro conjI b) (use w i(3) in simp_all)
qed (use assms(1-4) in \<open>simp_all add: d'_def nic_transmit_def Let_def dma_wf_def outp_def\<close>)

lemma nic_init_ready:
  assumes "dma_wf d" "nic_init c d = (Some mac, msg, d')"
  shows "dma_wf d' \<and> initialized d' \<and> rx_cur d' = 0 \<and> length mac = 6"
proof -
  have "unat (((rx_phys c + 15) AND NOT 15) - rx_phys c) < 16"
  proof -
    let ?a = "rx_phys c + 15"
    have "(?a AND NOT 15) - rx_phys c = 15 - (?a AND 15)"
      by (simp only: and_not_eq_diff) simp
    moreover have "?a AND 15 \<le> 15" by (rule word_and_le1)
    ultimately have "unat ((?a AND NOT 15) - rx_phys c) = 15 - unat (?a AND 15)" by (simp add: unat_sub)
    then show ?thesis by simp
  qed
  then show ?thesis
    using assms by (auto simp: nic_init_def dma_wf_def Let_def read_mac_def split: option.splits prod.splits if_splits)
qed

end
