(* ===== verification/Netclient.thy ===== *)
theory Netclient
  imports Receiver Arpcache Nic
begin

unbundle bit_operations_syntax

text \<open>
  The clients of the network stack: the resolver of \<open>src/kernel/src/net/dns.rs\<close>, the DHCP client of
  \<open>net/dhcp.rs\<close>, the HTTP client of \<open>net/http.rs\<close> and the command \<open>net\<close> of \<open>commands.rs\<close> that
  starts them. Parsers return the offset they reach, as the
  sources do; buffers that the sources fill from the front are the lists of the bytes written so
  far, with the checks against their capacity written out.
\<close>

definition say :: "string \<Rightarrow> net \<Rightarrow> net" where
  "say msg s = s\<lparr>printed := printed s @ bytes_of msg\<rparr>"

definition say_bytes :: "bytes \<Rightarrow> net \<Rightarrow> net" where
  "say_bytes msg s = s\<lparr>printed := printed s @ msg\<rparr>"

section \<open>DNS\<close>

abbreviation (input) DNS_PORT :: u16 where "DNS_PORT \<equiv> 53"
abbreviation (input) dot :: u8 where "dot \<equiv> 0x2E"
abbreviation (input) no_ip :: ip4 where "no_ip \<equiv> (0, 0, 0, 0)"

text \<open>The loop over \<open>0..=name.len()\<close>; \<open>None\<close> is the early return of zero.\<close>

fun encode_labels :: "nat \<Rightarrow> bytes \<Rightarrow> nat list \<Rightarrow> nat \<Rightarrow> bytes \<Rightarrow> bytes option" where
  "encode_labels cap name [] start out = Some out"
| "encode_labels cap name (i # is) start out =
     (if i = length name \<or> name ! i = dot
      then let len = i - start
           in if len > 63 then None
              else if length out + len + 1 > cap then None
              else encode_labels cap name is (i + 1) (out @ [word_of_nat len] @ take len (drop start name))
      else encode_labels cap name is start out)"

definition dns_encode_name :: "nat \<Rightarrow> bytes \<Rightarrow> bytes option run" where
  "dns_encode_name cap name =
     (case encode_labels cap name [0..<Suc (length name)] 0 [] of
        None \<Rightarrow> Ends None
      | Some out \<Rightarrow> if length out \<ge> cap then Panics else Ends (Some (out @ [0])))"

definition dns_query_head :: bytes where
  "dns_query_head = be16 0x0001 @ [0x01, 0x00, 0x00, 0x01] @ replicate 6 0"

text \<open>Skipping the question's name; \<open>None\<close> is the early return.\<close>

function skip_question :: "bytes \<Rightarrow> nat \<Rightarrow> nat option" where
  "skip_question resp off =
     (if off \<ge> length resp then None
      else let b = resp ! off
      in if b = 0 then Some (off + 1)
         else if b AND 0xC0 = 0xC0 then Some (off + 2)
         else let off = off + unat b + 1
         in if off \<ge> length resp then None else skip_question resp off)"
  by auto
termination by (relation "measure (\<lambda>(resp, off). length resp - off)") auto

declare skip_question.simps [simp del]

function skip_labels :: "bytes \<Rightarrow> nat \<Rightarrow> nat" where
  "skip_labels resp off =
     (if off \<ge> length resp then off
      else if resp ! off = 0 then off + 1
      else skip_labels resp (off + unat (resp ! off) + 1))"
  by auto
termination by (relation "measure (\<lambda>(resp, off). length resp - off)") auto

declare skip_labels.simps [simp del]

definition skip_answer_name :: "bytes \<Rightarrow> nat \<Rightarrow> nat" where
  "skip_answer_name resp off = (if resp ! off AND 0xC0 = 0xC0 then off + 2 else skip_labels resp off)"

primrec first_address :: "bytes \<Rightarrow> nat \<Rightarrow> nat \<Rightarrow> ip4 option" where
  "first_address resp 0 off = None"
| "first_address resp (Suc n) off =
     (if off \<ge> length resp then None
      else let off = skip_answer_name resp off
      in if off + 10 > length resp then None
         else let atype = from_be16 (resp ! off) (resp ! (off + 1));
                  rdlen = unat (from_be16 (resp ! (off + 8)) (resp ! (off + 9)));
                  off = off + 10
         in if atype = 1 \<and> rdlen = 4 \<and> off + 4 \<le> length resp then Some (ip_at off resp)
            else first_address resp n (off + rdlen))"

text \<open>The address that a response yields, if any.\<close>

definition dns_parse :: "bytes \<Rightarrow> ip4 option" where
  "dns_parse resp =
     (if length resp < 12 then None
      else let ancount = from_be16 (resp ! 6) (resp ! 7)
      in if ancount = 0 then None
         else case skip_question resp 12 of
           None \<Rightarrow> None
         | Some off \<Rightarrow> first_address resp (unat ancount) (off + 4))"

definition dns_arrived :: "unit \<Rightarrow> net \<Rightarrow> bool \<times> unit \<times> net" where
  "dns_arrived b s = (DNS_LEN s > 0, b, s)"

definition dns_resolve :: "bytes \<Rightarrow> net \<Rightarrow> (ip4 \<times> net) run" where
  "dns_resolve hostname s =
     (if hostname = [] then Ends (no_ip, s)
      else let s = snd (udp_listen DNS_PORT Dns_callback s)
      in case find_first (\<lambda>i. dns_valid (DNS_CACHE s ! i)) [0..<8] of
           Some i \<Rightarrow> Ends (dns_ip (DNS_CACHE s ! i), s)
         | None \<Rightarrow>
             if ip_eq (DNS_SERVER s) no_ip then Ends (no_ip, say ''dns: no DNS server configured\<newline>'' s)
             else andThen (dns_encode_name 500 hostname) (\<lambda>encoded.
               case encoded of
                 None \<Rightarrow> Ends (no_ip, s)
               | Some qname \<Rightarrow>
                   if 12 + length qname + 4 > 512 then Panics
                   else let s = s\<lparr>DNS_LEN := 0\<rparr>
                   in andThen (send_udp handle_rx (DNS_SERVER s) DNS_PORT 53 (dns_query_head @ qname @ [0, 1, 0, 1]) s) (\<lambda>(ok, s).
                        if \<not> ok then Ends (no_ip, s)
                        else andThen (wait_for handle_rx 3000 dns_arrived () s) (\<lambda>(_, s).
                          if DNS_LEN s = 0 then Ends (no_ip, s)
                          else case dns_parse (take (DNS_LEN s) (DNS_RESP s)) of
                                 Some ip \<Rightarrow> Ends (ip, dns_cache_add hostname ip s)
                               | None \<Rightarrow> Ends (no_ip, s)))))"

section \<open>DHCP\<close>

abbreviation (input) DHCP_DISCOVER :: u8 where "DHCP_DISCOVER \<equiv> 1"
abbreviation (input) DHCP_REQUEST :: u8 where "DHCP_REQUEST \<equiv> 3"
abbreviation (input) DHCP_OPT_SUBNET :: u8 where "DHCP_OPT_SUBNET \<equiv> 1"
abbreviation (input) DHCP_OPT_ROUTER :: u8 where "DHCP_OPT_ROUTER \<equiv> 3"
abbreviation (input) DHCP_OPT_DNS :: u8 where "DHCP_OPT_DNS \<equiv> 6"
abbreviation (input) DHCP_OPT_END :: u8 where "DHCP_OPT_END \<equiv> 255"

definition dhcp_options :: "u8 \<Rightarrow> ip4 \<Rightarrow> ip4 \<Rightarrow> bytes" where
  "dhcp_options msg_type req_ip server_id =
     [53, 1, msg_type] @
     (if msg_type = DHCP_REQUEST then [50, 4] @ ip_bytes req_ip @ [54, 4] @ ip_bytes server_id else []) @
     (if msg_type = DHCP_DISCOVER \<or> msg_type = DHCP_REQUEST
      then [55, 3, DHCP_OPT_SUBNET, DHCP_OPT_ROUTER, DHCP_OPT_DNS] else []) @
     [DHCP_OPT_END]"

definition magic_cookie :: bytes where
  "magic_cookie = [99, 130, 83, 99]"

text \<open>The first \<open>off\<close> bytes of the packet that \<open>build_dhcp\<close> returns.\<close>

definition build_dhcp :: "mac6 \<Rightarrow> u8 \<Rightarrow> ip4 \<Rightarrow> ip4 \<Rightarrow> u32 \<Rightarrow> bytes" where
  "build_dhcp mac msg_type req_ip server_id xid =
     (let pkt = [1, 1, 6, 0] @ be32 xid @ replicate 20 0 @ mac_bytes mac @ replicate 202 0 @ magic_cookie @
            dhcp_options msg_type req_ip server_id
      in pkt @ replicate (300 - length pkt) 0)"

text \<open>\<open>for i in 0..4.min(len) { a[i] = data[off + i]; }\<close>\<close>

definition copy_four :: "nat \<Rightarrow> nat \<Rightarrow> bytes \<Rightarrow> bytes \<Rightarrow> bytes" where
  "copy_four len off data a = (let n = min 4 len in take n (drop off data) @ drop n a)"

function options_loop :: "bytes \<Rightarrow> nat \<Rightarrow> bytes \<times> bytes \<times> bytes \<Rightarrow> bytes \<times> bytes \<times> bytes" where
  "options_loop data off (subnet, router, dns) =
     (if off \<ge> length data then (subnet, router, dns)
      else let tag = data ! off; off = off + 1
      in if tag = DHCP_OPT_END then (subnet, router, dns)
         else if tag = 0 then options_loop data off (subnet, router, dns)
         else if off \<ge> length data then (subnet, router, dns)
         else let len = unat (data ! off); off = off + 1
         in if off + len > length data then (subnet, router, dns)
            else options_loop data (off + len)
              (if tag = DHCP_OPT_SUBNET then (copy_four len off data subnet, router, dns)
               else if tag = DHCP_OPT_ROUTER then (subnet, copy_four len off data router, dns)
               else if tag = DHCP_OPT_DNS then (subnet, router, copy_four len off data dns)
               else (subnet, router, dns)))"
  by pat_completeness auto
termination by (relation "measure (\<lambda>(data, off, _). length data - off)") auto

declare options_loop.simps [simp del]

definition parse_dhcp_options :: "bytes \<Rightarrow> (bool \<times> bytes \<times> bytes \<times> bytes) run" where
  "parse_dhcp_options data =
     (if length data < 20 then Panics
      else let yiaddr = take 4 (drop 16 data); router = replicate 4 0; dns = replicate 4 0
      in if length data < 240 then Ends (False, yiaddr, router, dns)
         else if take 4 (drop 236 data) \<noteq> magic_cookie then Ends (False, yiaddr, router, dns)
         else let (subnet, router, dns) = options_loop data 240 (replicate 4 255, router, dns)
              in Ends (True, yiaddr, router, dns))"

text \<open>The loop bodies test \<open>got_offer\<close> and \<open>got_ack\<close>, which nothing sets.\<close>

definition dhcp_got :: "bool \<Rightarrow> net \<Rightarrow> bool \<times> bool \<times> net" where
  "dhcp_got got s = (got, got, s)"

definition dhcp_request :: "ip4 \<Rightarrow> ip4 \<Rightarrow> net \<Rightarrow> (bool \<times> net) run" where
  "dhcp_request req_ip server_id s =
     (let s = say ''net: DHCP OFFER received, sending REQUEST\<newline>'' s
      in andThen (send_udp handle_rx (255, 255, 255, 255) 67 68 (build_dhcp (OUR_MAC s) DHCP_REQUEST req_ip server_id 0x12345678) s) (\<lambda>(_, s).
         andThen (wait_for handle_rx 5000 dhcp_got False s) (\<lambda>(got_ack, s).
           if \<not> got_ack then Ends (False, say ''net: DHCP no ACK\<newline>'' s)
           else Ends (True, say [CHR 0x0A] (say_bytes (fmt_ip 16 (OUR_IP s)) (say ''net: DHCP ACK - IP '' s))))))"

definition dhcp_negotiate :: "net \<Rightarrow> (bool \<times> net) run" where
  "dhcp_negotiate s =
     (let s = say ''net: DHCP starting...\<newline>'' s
      in andThen (send_udp handle_rx (255, 255, 255, 255) 67 68 (build_dhcp (OUR_MAC s) DHCP_DISCOVER no_ip no_ip 0x12345678) s) (\<lambda>(ok, s).
           if \<not> ok then Ends (False, say ''net: DHCP DISCOVER send failed\<newline>'' s)
           else andThen (wait_for handle_rx 5000 dhcp_got False s) (\<lambda>(got_offer, s).
             if \<not> got_offer then Ends (False, say ''net: DHCP no OFFER\<newline>'' s)
             else dhcp_request no_ip no_ip s)))"

section \<open>HTTP\<close>

text \<open>The request, with the fourteen and twenty-two bytes that the code copies of its two literals.\<close>

definition http_request :: "bytes \<Rightarrow> bytes \<Rightarrow> bytes" where
  "http_request host path =
     bytes_of ''GET '' @ path @ take 14 (bytes_of ('' HTTP/1.1'' @ [CHR 0x0D, CHR 0x0A] @ ''Host: '')) @ host @
     take 22 (bytes_of ([CHR 0x0D, CHR 0x0A] @ ''Connection: close'' @ [CHR 0x0D, CHR 0x0A, CHR 0x0D, CHR 0x0A]))"

text \<open>\<open>out\<close> has room for \<open>cap\<close> bytes; \<open>got\<close> is what has been copied to it.\<close>

definition http_collect :: "nat \<Rightarrow> bytes \<Rightarrow> net \<Rightarrow> bool \<times> bytes \<times> net" where
  "http_collect cap got s =
     (let (new, s) = tcp_read_data (cap - length got) s
      in (tcp_state s = TCP_FIN_WAIT, got @ new, s))"

definition http_get :: "bytes \<Rightarrow> bytes \<Rightarrow> nat \<Rightarrow> net \<Rightarrow> (bytes \<times> net) run" where
  "http_get host path cap s =
     andThen (dns_resolve host s) (\<lambda>(ip, s).
       if ip = no_ip then Ends ([], say ''http: DNS resolution failed\<newline>'' s)
       else let s = say [CHR 0x0A] (say_bytes (fmt_ip 16 ip) (say '' -> '' (say_bytes host (say ''http: resolved '' s))))
       in andThen (tcp_connect handle_rx ip 80 40000 s) (\<lambda>(connected, s).
            if \<not> connected then Ends ([], say ''http: TCP connect failed\<newline>'' s)
            else let s = say ''http: connected, sending GET\<newline>'' s
            in if length (http_request host path) > 1024 then Panics
               else andThen (tcp_send handle_rx (http_request host path) s) (\<lambda>(ok, s).
                 if \<not> ok then Ends ([], say ''http: TCP send failed\<newline>'' s)
                 else andThen (wait_for handle_rx 10000 (http_collect cap) [] (say ''http: request sent, waiting for response\<newline>'' s)) (\<lambda>(got, s).
                   Ends (got, say '' bytes\<newline>'' (say_bytes (num_text (word_of_nat (length got))) (say ''http: done, '' s)))))))"

section \<open>The command \<open>net\<close>\<close>

text \<open>What \<open>nic::init\<close> does to the stack, given the card that the machine has.\<close>

definition net_init :: "card \<Rightarrow> net \<Rightarrow> bool \<times> net" where
  "net_init c s =
     (case nic_init c dma_boot of
        (None, msg, _) \<Rightarrow> (False, say_bytes msg s)
      | (Some mac, msg, _) \<Rightarrow> (True, (say_bytes msg s)\<lparr>OUR_MAC := mac_at 0 mac, nic_ready := True\<rparr>))"

text \<open>\<open>args.split(|&c| c == b' ')\<close>.\<close>

fun split_at :: "u8 \<Rightarrow> bytes \<Rightarrow> bytes list" where
  "split_at c [] = [[]]"
| "split_at c (x # xs) =
     (if x = c then [] # split_at c xs
      else case split_at c xs of [] \<Rightarrow> [[x]] | p # ps \<Rightarrow> (x # p) # ps)"

definition nth_part :: "nat \<Rightarrow> bytes list \<Rightarrow> bytes" where
  "nth_part i ps = (if i < length ps then ps ! i else [])"

text \<open>The host is what precedes the first slash, the path is the rest.\<close>

definition split_url :: "bytes \<Rightarrow> bytes \<times> bytes" where
  "split_url url =
     (case find_first (\<lambda>i. url ! i = slash) [0..<length url] of
        Some i \<Rightarrow> (take i url, drop i url)
      | None \<Rightarrow> (url, [slash]))"

definition net_help :: bytes where
  "net_help = bytes_of (''net commands:\<newline>'' @
     ''  net init      - init RTL8139 NIC\<newline>'' @
     ''  net dhcp      - DHCP negotiation\<newline>'' @
     ''  net dns <host>  - resolve hostname\<newline>'' @
     ''  net http <url>  - HTTP GET (host/path)\<newline>'' @
     ''  net status    - show network status\<newline>'')"

definition net_status :: "net \<Rightarrow> bytes" where
  "net_status s = bytes_of ''Network status:\<newline>'' @ bytes_of ''  MAC: '' @ mac_text (mac_bytes (OUR_MAC s)) @
     bytes_of ''\<newline>  IP: '' @ fmt_ip 16 (OUR_IP s) @ bytes_of ''\<newline>  GW: '' @ fmt_ip 16 (GATEWAY s) @
     bytes_of ''\<newline>  DNS: '' @ fmt_ip 16 (DNS_SERVER s) @ [0x0A]"

definition net_dhcp :: "card \<Rightarrow> net \<Rightarrow> net run" where
  "net_dhcp c s =
     (let (go, s) = (if fmt_ip 16 (OUR_IP s) = bytes_of ''0.0'' then net_init c s else (True, s))
      in if go then andThen (dhcp_negotiate s) (\<lambda>(_, s). Ends s) else Ends s)"

definition net_dns :: "bytes \<Rightarrow> net \<Rightarrow> net run" where
  "net_dns host s =
     (if host = [] then Ends (say ''usage: net dns <hostname>\<newline>'' s)
      else andThen (dns_resolve host s) (\<lambda>(ip, s).
        if ip = no_ip then Ends (say ''dns: resolution failed\<newline>'' s)
        else Ends (say_bytes (host @ bytes_of '' -> '' @ fmt_ip 16 ip @ [0x0A]) s)))"

definition net_http :: "bytes \<Rightarrow> net \<Rightarrow> net run" where
  "net_http url s =
     (if url = [] then Ends (say ''usage: net http <host>/<path>\<newline>'' s)
      else let (host, path) = split_url url
      in andThen (http_get host path 4096 s) (\<lambda>(got, s).
           if length got > 0 then Ends (say_bytes (take (min (length got) 1024) got @ [0x0A]) s) else Ends s))"

definition cmd_net :: "card \<Rightarrow> bytes \<Rightarrow> net \<Rightarrow> net run" where
  "cmd_net c args s =
     (if args = [] \<or> args = bytes_of ''help'' then Ends (say_bytes net_help s)
      else let parts = split_at 0x20 args; cmd = nth_part 0 parts
      in if cmd = bytes_of ''init'' then
           (let (ok, s) = net_init c s in Ends (if ok then say ''net: NIC ready\<newline>'' s else s))
         else if cmd = bytes_of ''dhcp'' then net_dhcp c s
         else if cmd = bytes_of ''dns'' then net_dns (nth_part 1 parts) s
         else if cmd = bytes_of ''http'' \<or> cmd = bytes_of ''get'' then net_http (nth_part 1 parts) s
         else if cmd = bytes_of ''status'' then Ends (say_bytes (net_status s) s)
         else Ends (say_bytes (bytes_of ''Unknown net command: '' @ cmd @ [0x0A]) s))"

end
