(* ===== verification/Netprops.thy ===== *)
theory Netprops
  imports Netclient
begin

unbundle bit_operations_syntax

text \<open>
  What holds of the network stack of \<open>src/kernel/src/net\<close> as a whole: its arrays keep their sizes and
  the ARP cache stays a table with distinct addresses, received packets change neither our
  addresses nor bytes that have already been received, and the TCP connection only moves forward.
  The relation \<open>net_run\<close> gives the states that the stack's operations produce from power-on in any
  configuration, with any frames arriving and any timer readings; \<open>net_reach\<close> those of a kernel in which only
  the command \<open>net\<close> uses the stack, as in this repository.
\<close>

section \<open>Well-formed states\<close>

definition tcp_wf :: "tcp_conn \<Rightarrow> bool" where
  "tcp_wf c \<longleftrightarrow> length (tcp_rxbuf c) = 4096 \<and> tcp_rxlen c \<le> 4096 \<and> tcp_st c \<in> {0, 1, 2, 3}"

definition net_wf :: "net \<Rightarrow> bool" where
  "net_wf s \<longleftrightarrow> cache_inv (ARP_CACHE s) \<and> length (DNS_CACHE s) = 8 \<and> length (UDP_HANDLERS s) = 4 \<and>
     length (DNS_RESP s) = 512 \<and> DNS_LEN s \<le> 512 \<and> tcp_wf (TCP_CONN s)"

definition tcp_forward :: "u8 \<Rightarrow> u8 \<Rightarrow> bool" where
  "tcp_forward st st' \<longleftrightarrow> st = st' \<or> st = TCP_SYN_SENT \<and> st' \<in> {TCP_ESTABLISHED, TCP_FIN_WAIT} \<or>
     st = TCP_ESTABLISHED \<and> st' = TCP_FIN_WAIT"

text \<open>What no received packet changes: our addresses, the resolver's state, the ends of the
  connection, and the bytes of the stream that are waiting to be read.\<close>

definition net_kept :: "net \<Rightarrow> net \<Rightarrow> bool" where
  "net_kept s s' \<longleftrightarrow> OUR_MAC s' = OUR_MAC s \<and> OUR_IP s' = OUR_IP s \<and> GATEWAY s' = GATEWAY s \<and>
     DNS_SERVER s' = DNS_SERVER s \<and>
     DNS_CACHE s' = DNS_CACHE s \<and> UDP_HANDLERS s' = UDP_HANDLERS s \<and> nic_ready s' = nic_ready s \<and>
     (\<exists>more. nic_sent s' = nic_sent s @ more) \<and>
     tcp_dst_ip (TCP_CONN s') = tcp_dst_ip (TCP_CONN s) \<and> tcp_dst_port (TCP_CONN s') = tcp_dst_port (TCP_CONN s) \<and>
     tcp_src_port (TCP_CONN s') = tcp_src_port (TCP_CONN s) \<and>
     tcp_forward (tcp_st (TCP_CONN s)) (tcp_st (TCP_CONN s')) \<and>
     tcp_rxlen (TCP_CONN s) \<le> tcp_rxlen (TCP_CONN s') \<and>
     take (tcp_rxlen (TCP_CONN s)) (tcp_rxbuf (TCP_CONN s')) = take (tcp_rxlen (TCP_CONN s)) (tcp_rxbuf (TCP_CONN s))"

lemma net_kept_refl [simp]: "net_kept s s"
  by (simp add: net_kept_def tcp_forward_def)

lemma tcp_forward_trans: "tcp_forward a b \<Longrightarrow> tcp_forward b c \<Longrightarrow> tcp_forward a c"
  by (auto simp: tcp_forward_def)

lemma take_mono_eq: "take n ys = take n xs" if "take m ys = take m xs" "n \<le> m" for xs ys :: "'a list"
proof -
  have t: "take n (take m zs) = take n zs" for zs :: "'a list" using that(2) by (simp add: min_absorb1)
  show ?thesis using arg_cong [OF that(1), of "take n"] by (simp only: t)
qed

lemma net_kept_trans:
  assumes "net_kept s t" "net_kept t u"
  shows "net_kept s u"
proof -
  note k = assms [unfolded net_kept_def]
  have stream: "take (tcp_rxlen (TCP_CONN s)) (tcp_rxbuf (TCP_CONN u)) = take (tcp_rxlen (TCP_CONN s)) (tcp_rxbuf (TCP_CONN t))"
    by (rule take_mono_eq [of "tcp_rxlen (TCP_CONN t)"]) (use k in blast)+
  obtain xs ys where "nic_sent t = nic_sent s @ xs" "nic_sent u = nic_sent t @ ys" using k by blast
  then have sent: "nic_sent u = nic_sent s @ (xs @ ys)" by (simp only: append_assoc)
  have forward: "tcp_forward (tcp_st (TCP_CONN s)) (tcp_st (TCP_CONN u))"
    by (rule tcp_forward_trans [of _ "tcp_st (TCP_CONN t)"]) (use k in blast)+
  have len: "tcp_rxlen (TCP_CONN s) \<le> tcp_rxlen (TCP_CONN u)"
    by (rule le_trans [of _ "tcp_rxlen (TCP_CONN t)"]) (use k in blast)+
  show ?thesis
    unfolding net_kept_def by (intro conjI exI [of _ "xs @ ys"] sent forward len) (use k stream in simp_all)
qed

definition keeps :: "net \<Rightarrow> net \<Rightarrow> bool" where
  "keeps s s' \<longleftrightarrow> (net_wf s \<longrightarrow> net_wf s' \<and> net_kept s s')"

interpretation kept: net_relation keeps
proof
  fix s s' s'' :: net and t ts f fs pkt ip mac data seq ack payload
  show "keeps s s" by (simp add: keeps_def)
  show "keeps s s''" if "keeps s s'" "keeps s' s''"
    using that by (auto simp: keeps_def intro: net_kept_trans)
  show "keeps s (s\<lparr>ticks := ts\<rparr>)" if "ticks s = t # ts"
    by (simp add: keeps_def net_wf_def net_kept_def tcp_forward_def)
  show "keeps s (s\<lparr>nic_frames := fs\<rparr>)" if "nic_frames s = f # fs"
    by (simp add: keeps_def net_wf_def net_kept_def tcp_forward_def)
  show "keeps s (s\<lparr>nic_sent := nic_sent s @ [pkt]\<rparr>)"
    by (simp add: keeps_def net_wf_def net_kept_def tcp_forward_def)
  show "keeps s (arp_cache_add ip mac s)"
    by (simp add: keeps_def net_wf_def net_kept_def tcp_forward_def arp_cache_add_def arp.add_inv)
  show "keeps s (dns_callback data s)"
    by (simp add: keeps_def net_wf_def net_kept_def tcp_forward_def dns_callback_def Let_def)
  show "keeps s (tcp_establish seq ack s)" if "tcp_st (TCP_CONN s) = TCP_SYN_SENT"
    using that by (simp add: keeps_def net_wf_def tcp_wf_def net_kept_def tcp_forward_def tcp_establish_def)
  show "keeps s (tcp_store seq payload s)" if "tcp_st (TCP_CONN s) = TCP_ESTABLISHED"
    using that by (auto simp: keeps_def net_wf_def tcp_wf_def net_kept_def tcp_forward_def tcp_store_def Let_def)
  show "keeps s (tcp_finish seq s)" if "tcp_st (TCP_CONN s) = TCP_ESTABLISHED"
    using that by (simp add: keeps_def net_wf_def tcp_wf_def net_kept_def tcp_forward_def tcp_finish_def)
qed

text \<open>
  C10: what a received frame can do. Whatever its bytes, and whatever else arrives while it is
  handled, a frame leaves the state well formed and our addresses and the resolver's state as they
  were, moves the TCP connection only from SYN_SENT to ESTABLISHED to FIN_WAIT, and leaves the
  bytes already received in the stream buffer untouched.
\<close>

theorem received_frame_is_safe:
  assumes "net_wf s" "handle_rx frame s = Ends s'"
  shows "net_wf s' \<and> net_kept s s' \<and> length (nic_frames s') \<le> length (nic_frames s)"
  using kept.handle_rx [of s frame] assms by (simp add: keeps_def)

definition demo_net :: "bytes list \<Rightarrow> u64 list \<Rightarrow> net" where
  "demo_net frames readings = (net_boot True (2, 0, 0, 0, 0, 1) frames readings)\<lparr>OUR_IP := (10, 0, 2, 15)\<rparr>"

text \<open>An ARP request for our address from 10.0.2.2.\<close>

definition demo_arp :: bytes where
  "demo_arp = replicate 6 0xFF @ [2, 0, 0, 0, 0, 9] @ be16 0x0806 @ be16 1 @ be16 0x0800 @ [6, 4] @ be16 1 @
     [2, 0, 0, 0, 0, 9] @ [10, 0, 2, 2] @ replicate 6 0 @ [10, 0, 2, 15]"

lemma demo_net_wf: "net_wf (demo_net frames readings)"
  using cache_boot by (simp add: demo_net_def net_boot_def net_wf_def tcp_wf_def)

lemma demo_arp_handled: "handle_rx demo_arp (demo_net [] []) = Ends (handle_arp (drop 14 demo_arp) (demo_net [] []))"
proof -
  have "\<not> length demo_arp < 14" "from_be16 (demo_arp ! 12) (demo_arp ! 13) = 0x0806" by code_simp+
  then show ?thesis by (simp add: handle_rx_def dispatch_rx_def)
qed

theorem received_frame_is_safe_witness:
  "\<exists>s'. handle_rx demo_arp (demo_net [] []) = Ends s' \<and> net_wf s' \<and> net_kept (demo_net [] []) s'"
  using received_frame_is_safe [OF demo_net_wf demo_arp_handled] demo_arp_handled by blast

section \<open>Reachable states\<close>

inductive net_reach :: "card \<Rightarrow> net \<Rightarrow> bool" for c :: card where
  boot: "net_reach c (net_boot False (0, 0, 0, 0, 0, 0) [] [])"
| world: "net_reach c s \<Longrightarrow> net_reach c (s\<lparr>nic_frames := frames, ticks := readings\<rparr>)"
| second: "net_reach c s \<Longrightarrow> net_reach c (tick_second s)"
| command: "net_reach c s \<Longrightarrow> cmd_net c args s = Ends s' \<Longrightarrow> net_reach c s'"

lemma keeps_updates [simp]:
  "keeps s (say msg t) \<longleftrightarrow> keeps s t" "keeps s (say_bytes bs t) \<longleftrightarrow> keeps s t" "keeps s s"
  by (simp_all add: keeps_def net_wf_def net_kept_def tcp_forward_def say_def say_bytes_def)

lemma say_frames [simp]: "nic_frames (say msg s) = nic_frames s" "nic_frames (say_bytes bs s) = nic_frames s"
  by (simp_all add: say_def say_bytes_def)

lemma dhcp_got_quiet: "kept.quiet dhcp_got"
  by (simp add: kept.quiet_def dhcp_got_def keeps_def)

text \<open>Nothing ever sets \<open>got_offer\<close>: the loop that waits for it ends only by its timeout.\<close>

lemma dhcp_got_never: "wait_loop rx start timeout dhcp_got k False s = Ends (got, s') \<Longrightarrow> \<not> got"
proof (induction k arbitrary: s)
  case (Suc k)
  obtain t s1 where t: "get_tick_count s = Ends (t, s1)"
    using Suc.prems by (cases "get_tick_count s") auto
  show ?case
  proof (cases "timeout \<le> t - start")
    case False
    obtain s2 where "poll_and_handle rx s1 = Ends s2"
      using Suc.prems t False by (cases "poll_and_handle rx s1") auto
    then show ?thesis using Suc t False by (simp add: dhcp_got_def)
  qed (use Suc.prems t in simp)
qed simp

lemma dhcp_wait_never: "wait_for rx timeout dhcp_got False s = Ends (got, s') \<Longrightarrow> \<not> got"
  unfolding wait_for_def
  by (cases "get_tick_count s") (auto simp del: wait_loop.simps dest: dhcp_got_never)

text \<open>
  the DHCP client cannot succeed. Whatever the network answers, \<open>dhcp_negotiate\<close> never returns true:
  the flags that its two receive loops test are never set, so that no offer is ever seen.
\<close>

theorem dhcp_never_succeeds: "dhcp_negotiate s \<noteq> Ends (True, s')"
proof
  assume d: "dhcp_negotiate s = Ends (True, s')"
  let ?s = "say ''net: DHCP starting...\<newline>'' s"
  obtain ok s1 where u: "send_udp handle_rx (255, 255, 255, 255) 67 68 (build_dhcp (OUR_MAC ?s) DHCP_DISCOVER no_ip no_ip 0x12345678) ?s = Ends (ok, s1)" "ok"
    using d unfolding dhcp_negotiate_def Let_def
    by (cases "send_udp handle_rx (255, 255, 255, 255) 67 68 (build_dhcp (OUR_MAC ?s) DHCP_DISCOVER no_ip no_ip 0x12345678) ?s")
      (auto split: if_splits)
  obtain got s2 where w: "wait_for handle_rx 5000 dhcp_got False s1 = Ends (got, s2)"
    using d u unfolding dhcp_negotiate_def Let_def by (cases "wait_for handle_rx 5000 dhcp_got False s1") auto
  have "\<not> got" by (rule dhcp_wait_never [OF w])
  then show False using d u w unfolding dhcp_negotiate_def Let_def by simp
qed

section \<open>The stack is never configured\<close>

definition net_fresh :: "net \<Rightarrow> bool" where
  "net_fresh s \<longleftrightarrow> net_wf s \<and> OUR_IP s = no_ip \<and> GATEWAY s = no_ip \<and> DNS_SERVER s = no_ip \<and>
     (\<forall>e \<in> set (DNS_CACHE s). \<not> dns_valid e) \<and> tcp_st (TCP_CONN s) = TCP_CLOSED"

lemma fresh_keeps: "keeps s s' \<Longrightarrow> net_fresh s \<Longrightarrow> net_fresh s'"
  by (auto simp: keeps_def net_fresh_def net_kept_def tcp_forward_def)

lemma dhcp_request_keeps: "within keeps s snd (dhcp_request req srv s)"
  unfolding dhcp_request_def Let_def
  by (rule kept.within_from [of _ "say ''net: DHCP OFFER received, sending REQUEST\<newline>'' s"];
      (intro kept.andThen_within [OF kept.send_udp [OF kept.handle_rx_good order_refl]]
        kept.andThen_within [OF kept.wait_for [OF kept.handle_rx_good dhcp_got_quiet order_refl]])?)
    (auto intro!: kept.andThen_within [OF kept.wait_for [OF kept.handle_rx_good dhcp_got_quiet order_refl]]
)

lemma dhcp_keeps: "within keeps s snd (dhcp_negotiate s)"
  unfolding dhcp_negotiate_def Let_def
  by (rule kept.within_from [of _ "say ''net: DHCP starting...\<newline>'' s"];
      (intro kept.andThen_within [OF kept.send_udp [OF kept.handle_rx_good order_refl]])?)
    (auto intro!: kept.andThen_within [OF kept.wait_for [OF kept.handle_rx_good dhcp_got_quiet order_refl]]
      dhcp_request_keeps)

lemma fresh_init: "net_fresh s \<Longrightarrow> net_fresh (snd (net_init c s))"
  by (auto simp: net_init_def net_fresh_def net_wf_def say_bytes_def split: option.splits prod.splits)

lemma fresh_listen: "net_fresh s \<Longrightarrow> net_fresh (snd (udp_listen port cb s))"
  by (auto simp: udp_listen_def net_fresh_def net_wf_def split: option.splits)

lemma fresh_say [simp]: "net_fresh (say msg s) \<longleftrightarrow> net_fresh s" "net_fresh (say_bytes bs s) \<longleftrightarrow> net_fresh s"
  by (simp_all add: net_fresh_def net_wf_def say_def say_bytes_def)

lemma listen_keeps_cache: "DNS_CACHE (snd (udp_listen port cb s)) = DNS_CACHE s" "DNS_SERVER (snd (udp_listen port cb s)) = DNS_SERVER s"
  by (simp_all add: udp_listen_def split: option.splits)

lemma fresh_resolve:
  assumes "net_fresh s"
  shows "\<exists>s'. dns_resolve host s = Ends (no_ip, s') \<and> net_fresh s'"
proof (cases "host = []")
  case False
  let ?s = "snd (udp_listen DNS_PORT Dns_callback s)"
  have f: "net_fresh ?s" by (rule fresh_listen [OF assms])
  then have "length (DNS_CACHE ?s) = 8" "\<forall>e \<in> set (DNS_CACHE ?s). \<not> dns_valid e" "DNS_SERVER ?s = no_ip"
    by (auto simp: net_fresh_def net_wf_def)
  then have n: "find_first (\<lambda>i. dns_valid (DNS_CACHE ?s ! i)) [0..<8] = None" by simp
  have "dns_resolve host s = Ends (no_ip, say ''dns: no DNS server configured\<newline>'' ?s)"
    unfolding dns_resolve_def Let_def n using False \<open>DNS_SERVER ?s = no_ip\<close> by simp
  then show ?thesis using f by simp
qed (use assms in \<open>simp add: dns_resolve_def\<close>)

lemma fresh_http:
  assumes "net_fresh s"
  shows "\<exists>s'. http_get host path cap s = Ends ([], s') \<and> net_fresh s'"
  using fresh_resolve [OF assms, of host] by (auto simp: http_get_def)

lemma fresh_dhcp:
  assumes "net_fresh s" "net_dhcp c s = Ends s'"
  shows "net_fresh s'"
proof -
  have n: "net_fresh s'" if a: "andThen (dhcp_negotiate t) (\<lambda>(_, s). Ends s) = Ends s'" and t: "net_fresh t" for t
  proof -
    obtain ok where "dhcp_negotiate t = Ends (ok, s')" using a by (cases "dhcp_negotiate t") auto
    then have "keeps t s'" using dhcp_keeps [of t] by simp
    then show ?thesis using t by (rule fresh_keeps)
  qed
  obtain go t where t: "(if fmt_ip 16 (OUR_IP s) = bytes_of ''0.0'' then net_init c s else (True, s)) = (go, t)"
    by fastforce
  have f: "net_fresh t" using t fresh_init [OF assms(1), of c] assms(1) by (metis snd_conv)
  have "net_dhcp c s = (if go then andThen (dhcp_negotiate t) (\<lambda>(_, s). Ends s) else Ends t)"
    unfolding net_dhcp_def t by simp
  then show ?thesis using assms(2) f n by (cases go) auto
qed

lemma fresh_command:
  assumes "net_fresh s" "cmd_net c args s = Ends s'"
  shows "net_fresh s'"
proof -
  have "net_fresh t" if "net_dns host s = Ends t" for host t
    using that fresh_resolve [OF assms(1), of host] assms(1) by (auto simp: net_dns_def split: if_splits)
  moreover have "net_fresh t" if "net_http url s = Ends t" for url t
    using that fresh_http [OF assms(1), of "fst (split_url url)" "snd (split_url url)" 4096] assms(1)
    by (auto simp: net_http_def split_beta split: if_splits)
  ultimately show ?thesis
    using assms fresh_init [OF assms(1), of c] fresh_dhcp [OF assms(1), of c s']
    by (auto simp: cmd_net_def Let_def split: if_splits prod.splits)
qed

lemma reach_fresh: "net_reach c s \<Longrightarrow> net_fresh s"
proof (induction rule: net_reach.induct)
  case boot
  then show ?case using cache_boot by (simp add: net_fresh_def net_wf_def tcp_wf_def net_boot_def)
next
  case (command s args s')
  then show ?case using fresh_command by blast
qed (simp_all add: net_fresh_def net_wf_def tick_second_def)

lemma reach_wf: "net_reach c s \<Longrightarrow> net_wf s"
  using reach_fresh by (simp add: net_fresh_def)

section \<open>Runs of the stack in any configuration\<close>

text \<open>
  The commands leave the addresses at 0.0.0.0, so that most of the stack is never used from them. Here the whole stack
  runs: from power-on, with or without a working card, any interleaving of arriving frames, timer readings,
  configurations with any addresses and calls of the stack's operations with any arguments.
\<close>

inductive net_run :: "net \<Rightarrow> bool" where
  run_boot: "net_run (net_boot ready mac frames readings)"
| run_world: "net_run s \<Longrightarrow> net_run (s\<lparr>nic_frames := frames, ticks := readings\<rparr>)"
| run_second: "net_run s \<Longrightarrow> net_run (tick_second s)"
| run_configure: "net_run s \<Longrightarrow> net_run (s\<lparr>OUR_IP := ip, GATEWAY := gateway, DNS_SERVER := server, NETMASK := netmask\<rparr>)"
| run_init: "net_run s \<Longrightarrow> net_run (snd (net_init c s))"
| run_receive: "net_run s \<Longrightarrow> handle_rx frame s = Ends s' \<Longrightarrow> net_run s'"
| run_resolve_mac: "net_run s \<Longrightarrow> arp_resolve handle_rx ip timeout s = Ends (found, s') \<Longrightarrow> net_run s'"
| run_listen: "net_run s \<Longrightarrow> net_run (snd (udp_listen port cb s))"
| run_datagram: "net_run s \<Longrightarrow> send_udp handle_rx ip dport sport payload s = Ends (ok, s') \<Longrightarrow> net_run s'"
| run_connect: "net_run s \<Longrightarrow> tcp_connect handle_rx ip dport sport s = Ends (ok, s') \<Longrightarrow> net_run s'"
| run_send: "net_run s \<Longrightarrow> tcp_send handle_rx payload s = Ends (ok, s') \<Longrightarrow> net_run s'"
| run_read: "net_run s \<Longrightarrow> net_run (snd (tcp_read_data n s))"
| run_remember: "net_run s \<Longrightarrow> net_run (dns_cache_add host ip s)"
| run_resolve: "net_run s \<Longrightarrow> dns_resolve host s = Ends (ip, s') \<Longrightarrow> net_run s'"
| run_dhcp: "net_run s \<Longrightarrow> dhcp_negotiate s = Ends (ok, s') \<Longrightarrow> net_run s'"
| run_http: "net_run s \<Longrightarrow> http_get host path cap s = Ends (got, s') \<Longrightarrow> net_run s'"
| run_command: "net_run s \<Longrightarrow> cmd_net c args s = Ends s' \<Longrightarrow> net_run s'"

definition keeps_wf :: "net \<Rightarrow> net \<Rightarrow> bool" where
  "keeps_wf s s' \<longleftrightarrow> (net_wf s \<longrightarrow> net_wf s')"

lemma keeps_keeps_wf: "keeps s s' \<Longrightarrow> keeps_wf s s'"
  by (simp add: keeps_def keeps_wf_def)

interpretation wf: net_relation keeps_wf
proof
  show "keeps_wf s s" for s by (simp add: keeps_wf_def)
  show "keeps_wf s s''" if "keeps_wf s s'" "keeps_wf s' s''" for s s' s'' using that by (simp add: keeps_wf_def)
qed (blast intro: keeps_keeps_wf kept.tick kept.frame kept.sent kept.arp kept.dns kept.established kept.stored kept.finished)+

text \<open>The steps that are not part of the receive path.\<close>

lemma wf_steps [simp]:
  "keeps_wf s (say msg t) \<longleftrightarrow> keeps_wf s t" "keeps_wf s (say_bytes bs t) \<longleftrightarrow> keeps_wf s t"
  "keeps_wf s (tcp_open ip dport sport s)" "keeps_wf s (tcp_set_closed s)" "keeps_wf s (snd (tcp_read_data n s))"
  "keeps_wf s (snd (udp_listen port cb s))" "keeps_wf s (dns_cache_add host ip s)" "keeps_wf s (s\<lparr>DNS_LEN := 0\<rparr>)"
  "keeps_wf s (snd (net_init c s))"
  by (auto simp: keeps_wf_def net_wf_def tcp_wf_def say_def say_bytes_def tcp_open_def tcp_set_closed_def tcp_read_data_def
      udp_listen_def dns_cache_add_def net_init_def Let_def split: option.splits prod.splits)

lemma step_frames [simp]:
  "nic_frames (tcp_open ip dport sport s) = nic_frames s" "nic_frames (tcp_set_closed s) = nic_frames s"
  "nic_frames (snd (tcp_read_data n s)) = nic_frames s" "nic_frames (snd (udp_listen port cb s)) = nic_frames s"
  "nic_frames (dns_cache_add host ip s) = nic_frames s"
  by (simp_all add: tcp_open_def tcp_set_closed_def tcp_read_data_def udp_listen_def dns_cache_add_def Let_def
      split: option.splits)

lemma http_collect_quiet: "wf.quiet (http_collect cap)"
  by (auto simp: wf.quiet_def http_collect_def split_beta)

lemma dns_arrived_quiet: "wf.quiet dns_arrived"
  by (simp add: wf.quiet_def dns_arrived_def wf.refl)

lemma wf_connect: "within keeps_wf s snd (tcp_connect handle_rx ip dport sport s)"
proof -
  let ?o = "tcp_open ip dport sport s"
  note w = wf.wait_for [OF wf.handle_rx_good wf.tcp_connected_body order_refl]
  have "within keeps_wf ?o snd (andThen (send_tcp_raw handle_rx (TCP_CONN ?o) TCP_FLAG_SYN [] ?o) (\<lambda>(_, s).
         andThen (wait_for handle_rx 3000 tcp_connected_body False s) (\<lambda>(connected, s).
           if connected then Ends (True, s) else Ends (False, tcp_set_closed s))))"
    by (rule wf.andThen_within [OF wf.send_tcp_raw [OF wf.handle_rx_good order_refl]])
      (auto intro!: wf.andThen_within [OF w] simp: wf.refl)
  then show ?thesis unfolding tcp_connect_def Let_def by (rule wf.within_from [rotated 2]) simp_all
qed

lemma wf_resolve: "within keeps_wf s snd (dns_resolve host s)"
proof (cases "host = []")
  case False
  let ?l = "snd (udp_listen DNS_PORT Dns_callback s)"
  note w = wf.wait_for [OF wf.handle_rx_good dns_arrived_quiet order_refl]
  have ask: "within keeps_wf t snd (andThen (send_udp handle_rx ip DNS_PORT 53 query t) (\<lambda>(ok, s).
      if \<not> ok then Ends (no_ip, s)
      else andThen (wait_for handle_rx 3000 dns_arrived () s) (\<lambda>(_, s).
        if DNS_LEN s = 0 then Ends (no_ip, s)
        else case dns_parse (take (DNS_LEN s) (DNS_RESP s)) of
               Some ip \<Rightarrow> Ends (ip, dns_cache_add host ip s)
             | None \<Rightarrow> Ends (no_ip, s))))" for t ip query
    by (rule wf.andThen_within [OF wf.send_udp [OF wf.handle_rx_good order_refl]])
      (auto intro!: wf.andThen_within [OF w] simp: wf.refl split: option.splits)
  have "within keeps_wf ?l snd (dns_resolve host s)"
  proof (cases "find_first (\<lambda>i. dns_valid (DNS_CACHE ?l ! i)) [0..<8]")
    case None
    show ?thesis
    proof (cases "ip_eq (DNS_SERVER ?l) no_ip")
      case no_server: False
      have "dns_encode_name 500 host \<noteq> Deep" by (simp add: dns_encode_name_def split: option.split)
      then show ?thesis
        unfolding dns_resolve_def Let_def None if_not_P [OF False] if_not_P [OF no_server] option.case
        using wf.within_from [OF wf_steps(8) _ ask, of ?l]
        by (cases "dns_encode_name 500 host") (auto simp: wf.refl Let_def split: option.split)
    next
      case True
      then show ?thesis unfolding dns_resolve_def Let_def None if_not_P [OF False] by (simp add: wf.refl)
    qed
  qed (use False in \<open>simp add: dns_resolve_def Let_def wf.refl\<close>)
  then show ?thesis by (rule wf.within_from [rotated 2]) simp_all
qed (simp add: dns_resolve_def wf.refl)

lemma wf_http: "within keeps_wf s snd (http_get host path cap s)"
proof -
  note w = wf.wait_for [OF wf.handle_rx_good http_collect_quiet order_refl]
  show ?thesis
    unfolding http_get_def Let_def
    by (rule wf.andThen_within [OF wf_resolve])
      (auto intro!: wf.andThen_within [OF wf.within_from [OF _ _ wf_connect]] wf.andThen_within [OF wf.within_from [OF _ _ wf.tcp_send]]
        wf.andThen_within [OF wf.within_from [OF _ _ w]] simp: wf.refl)
qed

lemma wf_dhcp: "within keeps_wf s snd (dhcp_negotiate s)"
  using dhcp_keeps [of s] by (cases "dhcp_negotiate s") (auto intro: keeps_keeps_wf)

lemma wf_command: "within keeps_wf s (\<lambda>s. s) (cmd_net c args s)"
proof -
  have http: "within keeps_wf s (\<lambda>s. s) (net_http url s)" for url
    unfolding net_http_def
    by (auto simp: wf.refl split_beta intro!: wf.andThen_within [OF wf_http])
  have dns: "within keeps_wf s (\<lambda>s. s) (net_dns host s)" for host
    unfolding net_dns_def by (auto simp: wf.refl intro!: wf.andThen_within [OF wf_resolve])
  have i: "nic_frames (snd (net_init c s)) = nic_frames s" "nic_frames t = nic_frames s \<and> keeps_wf s t"
    if "net_init c s = (ok, t)" for ok t
    using that wf_steps(9) [of s c] by (auto simp: net_init_def say_bytes_def split: option.splits prod.splits)
  have dhcp: "within keeps_wf s (\<lambda>s. s) (net_dhcp c s)"
  proof -
    obtain go t where t: "(if fmt_ip 16 (OUR_IP s) = bytes_of ''0.0'' then net_init c s else (True, s)) = (go, t)" by fastforce
    have "nic_frames t = nic_frames s \<and> keeps_wf s t" using t i(2) by (auto simp: wf.refl split: if_splits)
    moreover have "within keeps_wf t (\<lambda>s. s) (andThen (dhcp_negotiate t) (\<lambda>(_, s). Ends s))"
      by (rule wf.andThen_within [OF wf_dhcp]) (auto simp: wf.refl)
    ultimately show ?thesis unfolding net_dhcp_def t by (auto intro: wf.within_from)
  qed
  show ?thesis
    using http dns dhcp i by (auto simp: cmd_net_def Let_def wf.refl split: prod.splits)
qed

text \<open>
  C15: The whole network stack in any configuration. From power-on, with or without a card, whatever addresses are
  configured and whatever frames arrive, every sequence of the stack's operations (receiving, resolving, datagrams, opening,
  using and reading a TCP connection, DNS, DHCP, HTTP, the command \<open>net\<close>), in any order and with any arguments, leaves it
  well formed: the valid ARP entries are a prefix of the table with distinct addresses, at most 4096 received bytes wait
  in the stream buffer and at most 512 in the resolver's buffer, the connection is in one of its four states,
  and every table keeps its length.
\<close>

theorem net_reachable_well_formed:
  assumes "net_run s"
  shows "net_wf s"
  using assms
proof (induction rule: net_run.induct)
  case (run_boot ready mac frames readings)
  show ?case using cache_boot by (simp add: net_wf_def tcp_wf_def net_boot_def)
next
  case (run_receive s frame s')
  then show ?case using wf.handle_rx [of s frame] by (simp add: keeps_wf_def)
next
  case (run_resolve_mac s ip timeout found s')
  then show ?case using wf.arp_resolve [OF wf.handle_rx_good order_refl, of s ip timeout] by (simp add: keeps_wf_def)
next
  case (run_datagram s ip dport sport payload ok s')
  then show ?case using wf.send_udp [OF wf.handle_rx_good order_refl, of s ip dport sport payload] by (simp add: keeps_wf_def)
next
  case (run_connect s ip dport sport ok s')
  then show ?case using wf_connect [of s ip dport sport] by (simp add: keeps_wf_def)
next
  case (run_send s payload ok s')
  then show ?case using wf.tcp_send [of s payload] by (simp add: keeps_wf_def)
next
  case (run_resolve s host ip s')
  then show ?case using wf_resolve [of s host] by (simp add: keeps_wf_def)
next
  case (run_dhcp s ok s')
  then show ?case using wf_dhcp [of s] by (simp add: keeps_wf_def)
next
  case (run_http s host path cap got s')
  then show ?case using wf_http [of s host path cap] by (simp add: keeps_wf_def)
next
  case (run_command s c args s')
  then show ?case using wf_command [of s c args] by (simp add: keeps_wf_def)
qed (use wf_steps in \<open>auto simp: keeps_wf_def\<close>, simp_all add: net_wf_def tick_second_def)

definition no_card :: card where
  "no_card = \<lparr>pci_id = (\<lambda>_ _. 0xFFFFFFFF), pci_bar0 = (\<lambda>_ _. 0), pci_command = (\<lambda>_ _. 0), cr_reads = (\<lambda>_. 0),
     mac_reg0 = 0, mac_reg4 = 0, rx_phys = 0, tx_phys = (\<lambda>_. 0)\<rparr>"

theorem net_reachable_well_formed_witness:
  "\<exists>s'. handle_rx demo_arp (demo_net [] []) = Ends s' \<and> net_run s' \<and> net_wf s' \<and>
     net_wf (snd (tcp_read_data 10 (dns_cache_add (bytes_of ''host'') (10, 0, 2, 2) s')))"
proof -
  have "demo_net [] [] = (net_boot True (2, 0, 0, 0, 0, 1) [] [])
      \<lparr>OUR_IP := (10, 0, 2, 15), GATEWAY := (0, 0, 0, 0), DNS_SERVER := (0, 0, 0, 0), NETMASK := (255, 255, 255, 255)\<rparr>"
    by (simp add: demo_net_def net_boot_def)
  then have "net_run (demo_net [] [])" by (simp only: run_configure run_boot)
  from run_receive [OF this demo_arp_handled]
  have r: "net_run (handle_arp (drop 14 demo_arp) (demo_net [] []))" .
  show ?thesis
    using net_reachable_well_formed [OF r] net_reachable_well_formed [OF run_read [OF run_remember [OF r]]] demo_arp_handled r by blast
qed

text \<open>
  the network commands never reach the network. In every reachable state, whatever has been
  received and whatever commands were given, our address and the name server are 0.0.0.0, every
  name lookup ends at once with the failure value and every HTTP request returns no bytes.
\<close>

theorem net_never_configured:
  assumes "net_reach c s"
  shows "OUR_IP s = no_ip \<and> DNS_SERVER s = no_ip \<and>
     (\<exists>s'. dns_resolve host s = Ends (no_ip, s')) \<and> (\<exists>s'. http_get host path cap s = Ends ([], s'))"
  using reach_fresh [OF assms] fresh_resolve [OF reach_fresh [OF assms], of host]
    fresh_http [OF reach_fresh [OF assms], of host path cap]
  by (auto simp: net_fresh_def)

theorem net_never_configured_witness:
  "\<exists>s'. dns_resolve (bytes_of ''example.org'') (net_boot False (0, 0, 0, 0, 0, 0) [] []) = Ends (no_ip, s')"
  using net_never_configured [OF net_reach.boot, of "bytes_of ''example.org''" "[]" 0] by blast

end
