(* ===== verification/Netflow.thy ===== *)
theory Netflow
  imports Netprops
begin

unbundle bit_operations_syntax

text \<open>
  Packets from one stack to another: what \<open>send_udp\<close>, \<open>send_tcp_raw\<close> and the ARP functions of
  \<open>src/kernel/src/net/eth.rs\<close> put on the wire, and what \<open>handle_rx\<close> of the receiving machine makes of it.
  The headers are accepted, UDP payloads are delivered, the TCP handshake completes and the bytes
  of a TCP stream arrive in order; malformed headers stop the kernel.
\<close>

section \<open>IPv4\<close>

lemma ipv4_header_nth:
  "length (ipv4_header src dst proto total_len ident csum) = 20"
  "ipv4_header src dst proto total_len ident csum ! 0 = 0x45"
  "ipv4_header src dst proto total_len ident csum ! 2 = ucast (drop_bit 8 (word_of_nat total_len :: u16))"
  "ipv4_header src dst proto total_len ident csum ! 3 = ucast ((word_of_nat total_len :: u16) AND 0xFF)"
  "ipv4_header src dst proto total_len ident csum ! 9 = proto"
  "ipv4_header src dst proto total_len ident csum ! 10 = ucast (drop_bit 8 csum)"
  "ipv4_header src dst proto total_len ident csum ! 11 = ucast (csum AND 0xFF)"
  "(ipv4_header src dst proto total_len ident csum)[10 := 0, 11 := 0] = ipv4_header src dst proto total_len ident 0"
  by (cases src; cases dst; simp add: ipv4_header_def be16_def)+

lemma nth_filled:
  "i < 20 \<Longrightarrow> (ipv4_filled src dst proto total_len ident @ p) ! i = ipv4_filled src dst proto total_len ident ! i"
  by (simp add: nth_append ipv4_filled_def ipv4_header_nth)

lemma length_filled [simp]: "length (ipv4_filled src dst proto total_len ident) = 20"
  by (simp add: ipv4_filled_def ipv4_header_nth)

text \<open>A datagram built by \<open>send_ipv4\<close> passes all checks of \<open>handle_ipv4\<close> and reaches its protocol.\<close>

lemma ipv4_accepted:
  assumes "length p \<le> 65515"
  shows "handle_ipv4 rx (ipv4_filled src dst proto (20 + length p) ident @ p) s =
     (if proto = IP_PROTO_UDP then handle_udp p s
      else if proto = IP_PROTO_TCP then handle_tcp rx p s else Ends s)"
proof -
  let ?h = "ipv4_filled src dst proto (20 + length p) ident" and ?c = "ip_checksum (ipv4_header src dst proto (20 + length p) ident 0)"
  have l: "\<not> length (?h @ p) < 20" "\<not> length (?h @ p) < 20 + length p" by simp_all
  have d: "drop 20 (take (20 + length p) (?h @ p)) = p" by simp
  have v: "drop_bit 4 (0x45 :: u8) = 4" "unat ((0x45 :: u8) AND 0x0F) * 4 = 20" by code_simp+
  have n: "(?h @ p) ! 0 = 0x45" "(?h @ p) ! 2 = ucast (drop_bit 8 (word_of_nat (20 + length p) :: u16))"
    "(?h @ p) ! 3 = ucast ((word_of_nat (20 + length p) :: u16) AND 0xFF)" "(?h @ p) ! 9 = proto"
    "(?h @ p) ! 10 = ucast (drop_bit 8 ?c)" "(?h @ p) ! 11 = ucast (?c AND 0xFF)"
    by (subst nth_filled; simp add: ipv4_filled_def ipv4_header_nth)+
  have t: "unat (word_of_nat (20 + length p) :: u16) = 20 + length p"
    using assms by (intro unat_len16) simp
  have c: "take 20 ((take 20 (?h @ p))[10 := 0, 11 := 0]) = ipv4_header src dst proto (20 + length p) ident 0"
    by (simp add: ipv4_filled_def ipv4_header_nth)
  show ?thesis
    unfolding handle_ipv4_def Let_def n v c from_be16_be16 t d using l by (simp add: ipv4_filled_def)
qed

lemma send_ipv4_known:
  assumes "dst \<noteq> (255, 255, 255, 255)" "arp_cache_lookup dst s = Some mac" "nic_ready s" "length p \<le> 1484"
  shows "send_ipv4 rx dst proto p ident s = Ends (True, s\<lparr>nic_sent := nic_sent s @
     [mac_bytes mac @ mac_bytes (OUR_MAC s) @ be16 ETH_TYPE_IP @ ipv4_filled (OUR_IP s) dst proto (20 + length p) ident @ p]\<rparr>)"
  using assms by (simp add: send_ipv4_def Let_def arp_resolve_def nic_send_def ipv4_filled_def ipv4_header_nth)

text \<open>A frame with an IPv4 datagram is handed to \<open>handle_ipv4\<close>.\<close>

lemma handle_rx_ipv4:
  "handle_rx (mac_bytes dst @ mac_bytes src @ be16 ETH_TYPE_IP @ pkt) s = handle_ipv4 handle_rx pkt s"
proof -
  let ?f = "mac_bytes dst @ mac_bytes src @ be16 ETH_TYPE_IP @ pkt"
  have l: "\<not> length ?f < 14" by simp
  have n: "?f ! 12 = ucast (drop_bit 8 ETH_TYPE_IP)" "?f ! 13 = ucast (ETH_TYPE_IP AND 0xFF)"
    by (simp_all add: nth_append be16_def)
  have d: "drop 14 ?f = pkt" by simp
  have e: "ETH_TYPE_IP \<noteq> ETH_TYPE_ARP" by simp
  have "handle_rx ?f s = dispatch_rx handle_rx ?f s" using handle_rx_recursion [of ?f s] by blast
  then show ?thesis
    unfolding dispatch_rx_def Let_def n d from_be16_be16 using l by simp
qed

section \<open>UDP\<close>

lemma udp_accepted:
  assumes "length payload \<le> 65507"
  shows "handle_udp (udp_datagram dst_port src_port payload) s =
     Ends (fold (offer_udp src_port payload) [0..<4] s)"
proof -
  let ?d = "udp_datagram dst_port src_port payload"
  have n: "?d ! 0 = ucast (drop_bit 8 src_port)" "?d ! 1 = ucast (src_port AND 0xFF)"
    "?d ! 4 = ucast (drop_bit 8 (word_of_nat (8 + length payload) :: u16))"
    "?d ! 5 = ucast ((word_of_nat (8 + length payload) :: u16) AND 0xFF)"
    by (simp_all add: udp_datagram_def be16_def)
  have l: "\<not> length ?d < 8" "length ?d = 8 + length payload" by (simp_all add: udp_datagram_def)
  have t: "unat (word_of_nat (8 + length payload) :: u16) = 8 + length payload"
    using assms by (intro unat_len16) simp
  have d: "drop 8 (take (8 + length payload) ?d) = payload" by (simp add: udp_datagram_def be16_def)
  show ?thesis
    unfolding handle_udp_def Let_def n from_be16_be16 t d using l by simp
qed

text \<open>The callbacks a machine has registered for a port, in the order of the table, and their run.\<close>

definition listeners :: "u16 \<Rightarrow> net \<Rightarrow> udp_callback list" where
  "listeners port s =
     concat (map (\<lambda>h. case h of Some h \<Rightarrow> if handler_port h = port then [handler_callback h] else [] | None \<Rightarrow> [])
       (map (nth (UDP_HANDLERS s)) [0..<4]))"

definition deliver_to :: "udp_callback list \<Rightarrow> bytes \<Rightarrow> net \<Rightarrow> net" where
  "deliver_to cbs payload s = fold (\<lambda>cb. run_callback cb payload) cbs s"

lemma callback_keeps_handlers: "UDP_HANDLERS (run_callback cb payload s) = UDP_HANDLERS s"
  by (cases cb) (simp add: dns_callback_def Let_def)

lemma offer_udp_listeners: "fold (offer_udp port payload) [0..<4] s = deliver_to (listeners port s) payload s"
proof -
  have "fold (offer_udp port payload) is t = deliver_to
      (concat (map (\<lambda>h. case h of Some h \<Rightarrow> if handler_port h = port then [handler_callback h] else [] | None \<Rightarrow> [])
        (map (nth H) is))) payload t" if "UDP_HANDLERS t = H" for "is" H t
    using that
  proof (induction "is" arbitrary: t)
    case (Cons i "is")
    have "UDP_HANDLERS (offer_udp port payload i t) = H"
      using Cons.prems by (simp add: offer_udp_def callback_keeps_handlers split: option.split)
    from Cons.IH [OF this] show ?case
      using Cons.prems by (cases "H ! i") (auto simp: deliver_to_def offer_udp_def)
  qed (simp add: deliver_to_def)
  then show ?thesis by (simp add: listeners_def)
qed

text \<open>A registered resolver callback leaves the payload, cut off at its 512 bytes, in the response buffer.\<close>

lemma deliver_dns:
  assumes "cbs \<noteq> []"
  shows "DNS_LEN (deliver_to cbs payload s) = min (length payload) 512 \<and>
    take (DNS_LEN (deliver_to cbs payload s)) (DNS_RESP (deliver_to cbs payload s)) = take 512 payload"
proof -
  obtain cs c where "cbs = cs @ [c]" using assms by (metis rev_exhaust)
  then have "deliver_to cbs payload s = dns_callback payload (deliver_to cs payload s)"
    by (cases c) (simp add: deliver_to_def)
  then show ?thesis by (simp add: dns_callback_def Let_def min_def)
qed

text \<open>
  C12: A UDP datagram from one machine to another, as the code has it. If the sender knows the receiver's hardware
  address and the payload has at most 1476 bytes, \<open>send_udp\<close> puts exactly one frame on the wire, and the receiver's
  \<open>handle_rx\<close> accepts it and runs with the unchanged payload exactly the callbacks that it has registered for the
  datagram's \<^emph>\<open>source\<close> port: \<open>handle_udp\<close> reads the two port fields the wrong way round. So the datagram reaches the
  handlers of its destination port if both ports are equal, as they are for the resolver (where the payload, cut off
  at 512 bytes, is then what the resolver parses); and if only the destination port has a handler, it is dropped and
  the receiver's state stays as it is.
\<close>

theorem udp_end_to_end:
  assumes "dst \<noteq> (255, 255, 255, 255)" "arp_cache_lookup dst a = Some mac" "nic_ready a"
    and "length payload \<le> 1476"
  shows "\<exists>frame b'. send_udp rx dst dst_port src_port payload a = Ends (True, a\<lparr>nic_sent := nic_sent a @ [frame]\<rparr>) \<and>
     handle_rx frame b = Ends b' \<and> b' = deliver_to (listeners src_port b) payload b \<and>
     (src_port = dst_port \<longrightarrow> b' = deliver_to (listeners dst_port b) payload b) \<and>
     (listeners src_port b = [] \<longrightarrow> b' = b) \<and>
     (listeners src_port b \<noteq> [] \<longrightarrow> take (DNS_LEN b') (DNS_RESP b') = take 512 payload)"
proof -
  let ?d = "udp_datagram dst_port src_port payload" and ?b = "deliver_to (listeners src_port b) payload b"
  let ?frame = "mac_bytes mac @ mac_bytes (OUR_MAC a) @ be16 ETH_TYPE_IP @
    ipv4_filled (OUR_IP a) dst IP_PROTO_UDP (20 + length ?d) 0 @ ?d"
  have l: "length ?d = 8 + length payload" by (simp add: udp_datagram_def)
  have sent: "send_udp rx dst dst_port src_port payload a = Ends (True, a\<lparr>nic_sent := nic_sent a @ [?frame]\<rparr>)"
    using assms(4) send_ipv4_known [OF assms(1-3), of ?d rx IP_PROTO_UDP 0] l by (simp add: send_udp_def)
  have received: "handle_rx ?frame b = Ends ?b"
  proof -
    have "length ?d \<le> 65515" "length payload \<le> 65507" using assms(4) l by simp_all
    from ipv4_accepted [OF this(1), of handle_rx "OUR_IP a" dst IP_PROTO_UDP 0 b] udp_accepted [OF this(2)]
    show ?thesis unfolding handle_rx_ipv4 offer_udp_listeners by (simp only: if_True simp_thms)
  qed
  have "listeners src_port b = [] \<longrightarrow> ?b = b" by (simp add: deliver_to_def)
  with sent received deliver_dns show ?thesis by blast
qed

text \<open>The resolver's question, answered from port 53: it arrives because both ports are 53.\<close>

definition demo_peer :: net where
  "demo_peer = arp_cache_add (10, 0, 2, 2) (2, 0, 0, 0, 0, 9) (demo_net [] [])"

lemma demo_peer_known: "arp_cache_lookup (10, 0, 2, 2) demo_peer = Some (2, 0, 0, 0, 0, 9)"
  using arp.find_add_same [OF cache_boot]
  by (simp add: demo_peer_def demo_net_def arp_cache_lookup_def arp_cache_add_def net_boot_def)

lemma demo_peer_ready: "nic_ready demo_peer"
  by (simp add: demo_peer_def demo_net_def arp_cache_add_def net_boot_def)

theorem udp_end_to_end_witness:
  "(\<exists>frame b'. send_udp handle_rx (10, 0, 2, 2) 53 53 [1, 2, 3] demo_peer =
       Ends (True, demo_peer\<lparr>nic_sent := nic_sent demo_peer @ [frame]\<rparr>) \<and>
     handle_rx frame (snd (udp_listen 53 Dns_callback (demo_net [] []))) = Ends b' \<and> take (DNS_LEN b') (DNS_RESP b') = [1, 2, 3]) \<and>
   (\<exists>frame. send_udp handle_rx (10, 0, 2, 2) 53 7 [1, 2, 3] demo_peer =
       Ends (True, demo_peer\<lparr>nic_sent := nic_sent demo_peer @ [frame]\<rparr>) \<and>
     handle_rx frame (snd (udp_listen 53 Dns_callback (demo_net [] []))) = Ends (snd (udp_listen 53 Dns_callback (demo_net [] []))))"
proof -
  let ?b = "snd (udp_listen 53 Dns_callback (demo_net [] []))"
  have h: "UDP_HANDLERS ?b = [Some \<lparr>handler_port = 53, handler_callback = Dns_callback\<rparr>, None, None, None]"
    by (simp add: udp_listen_def demo_net_def net_boot_def upt_rec numeral_2_eq_2 numeral_3_eq_3 eval_nat_numeral)
  have l: "listeners 53 ?b = [Dns_callback]" "listeners 7 ?b = []"
    by (simp_all add: listeners_def h upt_rec)
  have d: "(10, 0, 2, 2) \<noteq> ((255, 255, 255, 255) :: ip4)" "length [1, 2, 3 :: u8] \<le> 1476" by simp_all
  note sent = udp_end_to_end [OF d(1) demo_peer_known demo_peer_ready d(2)]
  show ?thesis
    using sent [of handle_rx 53 53 ?b] sent [of handle_rx 53 7 ?b] l by auto
qed

section \<open>Malformed headers\<close>

text \<open>
  headers that stop the kernel. An IPv4 packet whose header length field exceeds five words
  makes \<open>handle_ipv4\<close> slice a twenty-byte array beyond its end, and a UDP datagram whose length field
  is below eight makes \<open>handle_udp\<close> slice backwards; both panic, whatever the rest of the packet is.
\<close>

theorem malformed_headers_panic:
  "(20 \<le> length pkt \<and> drop_bit 4 (pkt ! 0) = 4 \<and> 20 < unat (pkt ! 0 AND 0x0F) * 4 \<and> unat (pkt ! 0 AND 0x0F) * 4 \<le> length pkt
      \<longrightarrow> handle_rx (mac_bytes dst @ mac_bytes src @ be16 ETH_TYPE_IP @ pkt) s = Panics) \<and>
   (8 \<le> length data \<and> unat (from_be16 (data ! 4) (data ! 5)) < 8 \<longrightarrow> handle_udp data s = Panics)"
proof (intro conjI impI, goal_cases)
  case 1
  then show ?case unfolding handle_rx_ipv4 by (simp add: handle_ipv4_def Let_def)
next
  case 2
  then show ?case by (simp add: handle_udp_def Let_def)
qed

theorem malformed_headers_panic_witness:
  "handle_rx (mac_bytes (0, 0, 0, 0, 0, 0) @ mac_bytes (0, 0, 0, 0, 0, 0) @ be16 ETH_TYPE_IP @ (0x46 # replicate 23 0))
     (demo_net [] []) = Panics \<and> handle_udp (replicate 8 0) (demo_net [] []) = Panics"
proof -
  have "drop_bit 4 (0x46 :: u8) = 4" "unat ((0x46 :: u8) AND 0x0F) * 4 = 24" "from_be16 0 0 = 0" by code_simp+
  then show ?thesis
    using malformed_headers_panic [of "0x46 # replicate 23 0" "(0, 0, 0, 0, 0, 0)" "(0, 0, 0, 0, 0, 0)" "demo_net [] []" "replicate 8 0"]
    by simp
qed

section \<open>TCP\<close>

text \<open>The frame that \<open>send_tcp_raw\<close> puts on the wire.\<close>

definition tcp_frame :: "mac6 \<Rightarrow> mac6 \<Rightarrow> ip4 \<Rightarrow> tcp_conn \<Rightarrow> u8 \<Rightarrow> bytes \<Rightarrow> bytes" where
  "tcp_frame dst_mac src_mac src_ip conn flags payload =
     mac_bytes dst_mac @ mac_bytes src_mac @ be16 ETH_TYPE_IP @
     ipv4_filled src_ip (tcp_dst_ip conn) IP_PROTO_TCP (20 + length (tcp_segment src_ip conn flags payload)) 0 @
     tcp_segment src_ip conn flags payload"

lemma tcp_segment_form:
  obtains c1 c2 where "tcp_segment src_ip conn flags payload =
    be16 (tcp_src_port conn) @ be16 (tcp_dst_port conn) @ be32 (tcp_seq conn) @ be32 (tcp_ack conn) @
    [0x50, flags, 0xFF, 0xFF, c1, c2, 0, 0] @ payload"
  unfolding tcp_segment_def build_tcp_def Let_def be16_def be32_def by simp

lemma length_segment [simp]: "length (tcp_segment src_ip conn flags payload) = 20 + length payload"
  by (rule tcp_segment_form [of src_ip conn flags payload]) simp

text \<open>The fields that \<open>handle_tcp\<close> reads out of a segment.\<close>

lemma segment_fields:
  fixes src_ip conn flags payload
  defines "data \<equiv> tcp_segment src_ip conn flags payload"
  shows "from_be32 (data ! 4) (data ! 5) (data ! 6) (data ! 7) = tcp_seq conn"
    and "from_be32 (data ! 8) (data ! 9) (data ! 10) (data ! 11) = tcp_ack conn"
    and "data ! 12 = 0x50" and "data ! 13 = flags" and "drop 20 data = payload"
proof -
  obtain c1 c2 where d: "data = be16 (tcp_src_port conn) @ be16 (tcp_dst_port conn) @ be32 (tcp_seq conn) @ be32 (tcp_ack conn) @
    [0x50, flags, 0xFF, 0xFF, c1, c2, 0, 0] @ payload"
    using tcp_segment_form [of src_ip conn flags payload] unfolding data_def by blast
  have n: "data ! 4 = ucast (drop_bit 24 (tcp_seq conn))" "data ! 5 = ucast (drop_bit 16 (tcp_seq conn))"
    "data ! 6 = ucast (drop_bit 8 (tcp_seq conn))" "data ! 7 = ucast (tcp_seq conn AND 0xFF)"
    "data ! 8 = ucast (drop_bit 24 (tcp_ack conn))" "data ! 9 = ucast (drop_bit 16 (tcp_ack conn))"
    "data ! 10 = ucast (drop_bit 8 (tcp_ack conn))" "data ! 11 = ucast (tcp_ack conn AND 0xFF)"
    by (simp_all add: d be16_def be32_def)
  show "from_be32 (data ! 4) (data ! 5) (data ! 6) (data ! 7) = tcp_seq conn"
    "from_be32 (data ! 8) (data ! 9) (data ! 10) (data ! 11) = tcp_ack conn"
    unfolding n by (rule from_be32_be32)+
  show "data ! 12 = 0x50" "data ! 13 = flags" "drop 20 data = payload"
    by (simp_all add: d be16_def be32_def)
qed

lemma handle_segment:
  "handle_tcp rx (tcp_segment src_ip conn flags payload) s =
     (let st = tcp_st (TCP_CONN s)
      in if st = TCP_SYN_SENT \<and> flags AND TCP_FLAG_SYN \<noteq> 0 \<and> flags AND TCP_FLAG_ACK \<noteq> 0
         then send_ack rx (tcp_establish (tcp_seq conn) (tcp_ack conn) s)
         else if st = TCP_ESTABLISHED \<and> flags AND TCP_FLAG_ACK \<noteq> 0
         then if payload \<noteq> [] then send_ack rx (tcp_store (tcp_seq conn) payload s)
              else if flags AND TCP_FLAG_FIN \<noteq> 0 then send_ack rx (tcp_finish (tcp_seq conn) s)
              else Ends s
         else Ends s)"
proof -
  have h: "unat (drop_bit 4 (0x50 :: u8)) * 4 = 20" by code_simp
  show ?thesis
    unfolding handle_tcp_def Let_def segment_fields h by simp
qed

text \<open>The peer of the connection is another machine whose hardware address is known.\<close>

definition peer_known :: "net \<Rightarrow> bool" where
  "peer_known s \<longleftrightarrow> tcp_dst_ip (TCP_CONN s) \<noteq> (255, 255, 255, 255) \<and>
     arp_cache_lookup (tcp_dst_ip (TCP_CONN s)) s \<noteq> None \<and> nic_ready s"

lemma send_tcp_known:
  assumes "peer_known s" "length payload \<le> 1464" "tcp_dst_ip conn = tcp_dst_ip (TCP_CONN s)"
  shows "send_tcp_raw rx conn flags payload s = Ends (True, s\<lparr>nic_sent := nic_sent s @
     [tcp_frame (the (arp_cache_lookup (tcp_dst_ip conn) s)) (OUR_MAC s) (OUR_IP s) conn flags payload]\<rparr>)"
proof -
  obtain mac where m: "arp_cache_lookup (tcp_dst_ip conn) s = Some mac" using assms by (auto simp: peer_known_def)
  have "length (tcp_segment (OUR_IP s) conn flags payload) \<le> 1484" using assms(2) by simp
  from send_ipv4_known [OF _ m _ this, of rx IP_PROTO_TCP 0] show ?thesis
    using assms m by (simp add: send_tcp_raw_def tcp_frame_def peer_known_def)
qed

lemma send_ack_known:
  assumes "peer_known s"
  shows "\<exists>frame. send_ack rx s = Ends (s\<lparr>nic_sent := nic_sent s @ [frame]\<rparr>)"
  unfolding send_ack_def using send_tcp_known [OF assms, of "[]" "TCP_CONN s" rx TCP_FLAG_ACK]
  by (intro exI [of _ "tcp_frame (the (arp_cache_lookup (tcp_dst_ip (TCP_CONN s)) s)) (OUR_MAC s) (OUR_IP s) (TCP_CONN s) TCP_FLAG_ACK []"])
    simp

lemma peer_known_simps [simp]:
  "peer_known (tcp_establish seq ack s) \<longleftrightarrow> peer_known s"
  "peer_known (tcp_store seq payload s) \<longleftrightarrow> peer_known s"
  "peer_known (s\<lparr>nic_sent := fs\<rparr>) \<longleftrightarrow> peer_known s"
  by (simp_all add: peer_known_def tcp_establish_def tcp_store_def arp_cache_lookup_def Let_def)

lemma handle_tcp_frame:
  assumes "length payload \<le> 1464"
  shows "handle_rx (tcp_frame dst_mac src_mac src_ip conn flags payload) s =
     handle_tcp handle_rx (tcp_segment src_ip conn flags payload) s"
proof -
  have l: "length (tcp_segment src_ip conn flags payload) \<le> 65515" using assms by simp
  from ipv4_accepted [OF this, of handle_rx src_ip "tcp_dst_ip conn" IP_PROTO_TCP 0 s]
  show ?thesis unfolding tcp_frame_def handle_rx_ipv4 by simp
qed







definition demo_client :: net where
  "demo_client = tcp_open (10, 0, 2, 2) 80 40000 demo_peer"

lemma demo_client_facts: "peer_known demo_client" "tcp_st (TCP_CONN demo_client) = TCP_SYN_SENT"
  using demo_peer_known demo_peer_ready
  by (simp_all add: demo_client_def tcp_open_def peer_known_def arp_cache_lookup_def)


section \<open>The byte stream\<close>

primrec feed :: "bytes list \<Rightarrow> net \<Rightarrow> net run" where
  "feed [] s = Ends s"
| "feed (f # fs) s = andThen (handle_rx f s) (feed fs)"

definition unread :: "net \<Rightarrow> bytes" where
  "unread s = take (tcp_rxlen (TCP_CONN s)) (tcp_rxbuf (TCP_CONN s))"

lemma store_unread:
  assumes "tcp_wf (TCP_CONN s)" "tcp_rxlen (TCP_CONN s) + length payload \<le> 4096"
  shows "unread (tcp_store seq payload s) = unread s @ payload"
    and "tcp_rxlen (TCP_CONN (tcp_store seq payload s)) = tcp_rxlen (TCP_CONN s) + length payload"
    and "tcp_wf (TCP_CONN (tcp_store seq payload s))"
    and "tcp_st (TCP_CONN (tcp_store seq payload s)) = tcp_st (TCP_CONN s)"
proof -
  have n: "min (length payload) (4096 - tcp_rxlen (TCP_CONN s)) = length payload" using assms(2) by simp
  show "unread (tcp_store seq payload s) = unread s @ payload"
    "tcp_rxlen (TCP_CONN (tcp_store seq payload s)) = tcp_rxlen (TCP_CONN s) + length payload"
    "tcp_wf (TCP_CONN (tcp_store seq payload s))"
    "tcp_st (TCP_CONN (tcp_store seq payload s)) = tcp_st (TCP_CONN s)"
    using assms unfolding unread_def tcp_store_def Let_def n tcp_wf_def by auto
qed

lemma read_unread: "tcp_wf (TCP_CONN s) \<Longrightarrow> fst (tcp_read_data 4096 s) = unread s"
  by (simp add: tcp_read_data_def unread_def tcp_wf_def Let_def min_def)

text \<open>
  C11: a TCP stream arrives in order. While a connection is established, any sequence of data segments
  that fits the receive buffer leaves there what was unread, followed by the payloads in the order of
  their arrival, and reading returns exactly these bytes. The sequence numbers play no part: the
  segments may carry any.
\<close>

theorem tcp_stream_in_order:
  assumes "tcp_wf (TCP_CONN s)" "tcp_st (TCP_CONN s) = TCP_ESTABLISHED" "peer_known s"
    and "\<forall>(conn, p) \<in> set segs. p \<noteq> [] \<and> length p \<le> 1464"
    and "tcp_rxlen (TCP_CONN s) + length (concat (map snd segs)) \<le> 4096"
  shows "\<exists>s'. feed (map (\<lambda>(conn, p). tcp_frame dst_mac src_mac src_ip conn (TCP_FLAG_PSH OR TCP_FLAG_ACK) p) segs) s = Ends s' \<and>
     fst (tcp_read_data 4096 s') = unread s @ concat (map snd segs)"
  using assms
proof (induction segs arbitrary: s)
  case Nil
  then show ?case by (simp add: read_unread)
next
  case (Cons seg segs)
  obtain conn p where seg: "seg = (conn, p)" by (cases seg)
  let ?fl = "TCP_FLAG_PSH OR TCP_FLAG_ACK :: u8" and ?t = "tcp_store (tcp_seq conn) p s"
  have p: "p \<noteq> []" "length p \<le> 1464" "tcp_rxlen (TCP_CONN s) + length p \<le> 4096" using Cons.prems(4,5) seg by auto
  have fl: "?fl AND TCP_FLAG_ACK \<noteq> 0" by code_simp
  obtain ack where a: "send_ack handle_rx ?t = Ends (?t\<lparr>nic_sent := nic_sent ?t @ [ack]\<rparr>)"
    using send_ack_known [of ?t handle_rx] Cons.prems(3) by auto
  let ?u = "?t\<lparr>nic_sent := nic_sent ?t @ [ack]\<rparr>"
  have "handle_rx (tcp_frame dst_mac src_mac src_ip conn ?fl p) s = Ends ?u"
    using Cons.prems(2) p fl a by (simp add: handle_tcp_frame handle_segment)
  moreover have u: "unread ?u = unread s @ p" "tcp_rxlen (TCP_CONN ?u) = tcp_rxlen (TCP_CONN s) + length p"
    "tcp_wf (TCP_CONN ?u)" "tcp_st (TCP_CONN ?u) = TCP_ESTABLISHED" "peer_known ?u"
    using store_unread [OF Cons.prems(1) p(3), of "tcp_seq conn"] Cons.prems(2,3) by (simp_all add: unread_def)
  moreover have "\<exists>s'. feed (map (\<lambda>(conn, p). tcp_frame dst_mac src_mac src_ip conn ?fl p) segs) ?u = Ends s' \<and>
      fst (tcp_read_data 4096 s') = unread ?u @ concat (map snd segs)"
    by (rule Cons.IH [OF u(3,4,5)]) (use Cons.prems(4,5) seg u(2) in auto)
  ultimately show ?case using seg by auto
qed

text \<open>The client of the handshake, established, receives two segments with the same sequence number.\<close>

definition demo_established :: net where
  "demo_established = tcp_establish 5000 1001 demo_client"

theorem tcp_stream_in_order_witness:
  "\<exists>s'. feed [tcp_frame (0, 0, 0, 0, 0, 0) (0, 0, 0, 0, 0, 0) (10, 0, 2, 2) (TCP_CONN demo_client) (TCP_FLAG_PSH OR TCP_FLAG_ACK) [1, 2],
       tcp_frame (0, 0, 0, 0, 0, 0) (0, 0, 0, 0, 0, 0) (10, 0, 2, 2) (TCP_CONN demo_client) (TCP_FLAG_PSH OR TCP_FLAG_ACK) [3]]
       demo_established = Ends s' \<and> fst (tcp_read_data 4096 s') = [1, 2, 3]"
proof -
  have c: "tcp_rxlen (TCP_CONN demo_established) = 0" "length (tcp_rxbuf (TCP_CONN demo_established)) = 4096"
    "tcp_st (TCP_CONN demo_established) = TCP_ESTABLISHED"
    by (simp_all add: demo_established_def demo_client_def tcp_establish_def tcp_open_def demo_peer_def demo_net_def
        arp_cache_add_def net_boot_def)
  then have "tcp_wf (TCP_CONN demo_established)" "unread demo_established = []"
    by (simp_all add: tcp_wf_def unread_def)
  moreover have "peer_known demo_established" using demo_client_facts by (simp add: demo_established_def)
  ultimately show ?thesis
    using tcp_stream_in_order [of demo_established "[(TCP_CONN demo_client, [1, 2]), (TCP_CONN demo_client, [3])]"
      "(0, 0, 0, 0, 0, 0)" "(0, 0, 0, 0, 0, 0)" "(10, 0, 2, 2)"] c
    by simp
qed

section \<open>ARP\<close>

lemma length_arp_payload [simp]:
  "length (be16 h @ be16 p @ [x, y] @ be16 oper @ mac_bytes sm @ ip_bytes si @ t @ ip_bytes ti) = 22 + length t"
  by simp

text \<open>The frame that carries an ARP packet.\<close>

definition arp_frame :: "mac6 \<Rightarrow> u16 \<Rightarrow> mac6 \<Rightarrow> ip4 \<Rightarrow> mac6 \<Rightarrow> ip4 \<Rightarrow> bytes" where
  "arp_frame dst_mac oper src_mac src_ip target_mac target_ip =
     mac_bytes dst_mac @ mac_bytes src_mac @ be16 ETH_TYPE_ARP @ be16 1 @ be16 0x0800 @ [6, 4] @ be16 oper @
     mac_bytes src_mac @ ip_bytes src_ip @ mac_bytes target_mac @ ip_bytes target_ip"

lemma handle_arp_frame:
  "handle_rx (arp_frame dst_mac oper src_mac src_ip target_mac target_ip) s =
     Ends (let s = arp_cache_add src_ip src_mac s
           in if oper = ARP_REQUEST \<and> target_ip = OUR_IP s then arp_reply src_mac src_ip s else s)"
proof -
  let ?f = "arp_frame dst_mac oper src_mac src_ip target_mac target_ip"
  let ?p = "be16 1 @ be16 0x0800 @ [6, 4] @ be16 oper @ mac_bytes src_mac @ ip_bytes src_ip @ mac_bytes target_mac @ ip_bytes target_ip"
  have n: "?f ! 12 = ucast (drop_bit 8 ETH_TYPE_ARP)" "?f ! 13 = ucast (ETH_TYPE_ARP AND 0xFF)"
    by (simp_all add: arp_frame_def nth_append be16_def)
  have d: "drop 14 ?f = ?p" by (simp add: arp_frame_def)
  have l: "\<not> length ?f < 14" "\<not> length ?p < 28" by (simp_all add: arp_frame_def)
  have o: "?p ! 6 = ucast (drop_bit 8 oper)" "?p ! 7 = ucast (oper AND 0xFF)" by (simp_all add: be16_def)
  have "?p = (be16 1 @ be16 0x0800 @ [6, 4] @ be16 oper) @ mac_bytes src_mac @ (ip_bytes src_ip @ mac_bytes target_mac @ ip_bytes target_ip)"
    by simp
  from addr_at(2) [of "be16 1 @ be16 0x0800 @ [6, 4] @ be16 oper" src_mac, folded this]
  have m: "mac_at 8 ?p = src_mac" by simp
  have i: "ip_at 14 ?p = src_ip" "ip_at 24 ?p = target_ip"
    using addr_at(1) [of "be16 1 @ be16 0x0800 @ [6, 4] @ be16 oper @ mac_bytes src_mac" src_ip "mac_bytes target_mac @ ip_bytes target_ip"]
      addr_at(1) [of "be16 1 @ be16 0x0800 @ [6, 4] @ be16 oper @ mac_bytes src_mac @ ip_bytes src_ip @ mac_bytes target_mac" target_ip "[]"]
    by simp_all
  have "handle_rx ?f s = dispatch_rx handle_rx ?f s" using handle_rx_recursion [of ?f s] by blast
  then show ?thesis
    unfolding dispatch_rx_def handle_arp_def Let_def n d from_be16_be16 o m i using l by simp
qed

lemma arp_sent:
  assumes "nic_ready s"
  shows "arp_request ip s = s\<lparr>nic_sent := nic_sent s @ [arp_frame (0xFF, 0xFF, 0xFF, 0xFF, 0xFF, 0xFF) ARP_REQUEST (OUR_MAC s) (OUR_IP s) (0, 0, 0, 0, 0, 0) ip]\<rparr>"
    and "arp_reply mac ip s = s\<lparr>nic_sent := nic_sent s @ [arp_frame mac ARP_REPLY (OUR_MAC s) (OUR_IP s) mac ip]\<rparr>"
  using assms
  by (simp_all add: arp_request_def arp_reply_def send_eth_broadcast_def send_eth_def nic_send_def arp_frame_def eval_nat_numeral)

text \<open>
  resolving an address. The broadcast that \<open>arp_request\<close> sends is answered by the machine that has
  the address, and by no other; after the answer each of the two knows the other's hardware
  address, and nothing else has been sent.
\<close>

theorem arp_exchange:
  assumes "net_wf a" "net_wf b" "nic_ready a" "nic_ready b" "OUR_IP b = ip" "OUR_IP c \<noteq> ip"
  shows "\<exists>req answer b' a'.
     arp_request ip a = a\<lparr>nic_sent := nic_sent a @ [req]\<rparr> \<and>
     handle_rx req b = Ends b' \<and> nic_sent b' = nic_sent b @ [answer] \<and>
     arp_cache_lookup (OUR_IP a) b' = Some (OUR_MAC a) \<and>
     handle_rx answer a = Ends a' \<and> arp_cache_lookup ip a' = Some (OUR_MAC b) \<and> nic_sent a' = nic_sent a \<and>
     (\<exists>c'. handle_rx req c = Ends c' \<and> nic_sent c' = nic_sent c)"
proof -
  let ?req = "arp_frame (0xFF, 0xFF, 0xFF, 0xFF, 0xFF, 0xFF) ARP_REQUEST (OUR_MAC a) (OUR_IP a) (0, 0, 0, 0, 0, 0) ip"
  let ?ans = "arp_frame (OUR_MAC a) ARP_REPLY (OUR_MAC b) ip (OUR_MAC a) (OUR_IP a)"
  let ?b = "arp_cache_add (OUR_IP a) (OUR_MAC a) b"
  have b: "nic_ready ?b" "OUR_IP ?b = ip" "OUR_MAC ?b = OUR_MAC b" "nic_sent ?b = nic_sent b" "ARP_CACHE ?b = cache_add (OUR_IP a) (OUR_MAC a) (ARP_CACHE b)"
    using assms by (simp_all add: arp_cache_add_def)
  have "handle_rx ?req b = Ends (arp_reply (OUR_MAC a) (OUR_IP a) ?b)" using b by (simp add: handle_arp_frame)
  then have 1: "handle_rx ?req b = Ends (?b\<lparr>nic_sent := nic_sent b @ [?ans]\<rparr>)" using arp_sent(2) [OF b(1)] b by simp
  have 2: "arp_cache_lookup (OUR_IP a) (?b\<lparr>nic_sent := nic_sent b @ [?ans]\<rparr>) = Some (OUR_MAC a)"
    using assms(2) arp.find_add_same by (simp add: arp_cache_lookup_def b net_wf_def)
  have 3: "handle_rx ?ans a = Ends (arp_cache_add ip (OUR_MAC b) a)" by (simp add: handle_arp_frame)
  have 4: "arp_cache_lookup ip (arp_cache_add ip (OUR_MAC b) a) = Some (OUR_MAC b)" "nic_sent (arp_cache_add ip (OUR_MAC b) a) = nic_sent a"
    using assms(1) arp.find_add_same by (simp_all add: arp_cache_lookup_def arp_cache_add_def net_wf_def)
  have 5: "handle_rx ?req c = Ends (arp_cache_add (OUR_IP a) (OUR_MAC a) c)" "nic_sent (arp_cache_add (OUR_IP a) (OUR_MAC a) c) = nic_sent c"
    using assms(6) by (simp_all add: handle_arp_frame arp_cache_add_def)
  have 6: "nic_sent (?b\<lparr>nic_sent := nic_sent b @ [?ans]\<rparr>) = nic_sent b @ [?ans]" by simp
  show ?thesis using arp_sent(1) [OF assms(3), of ip] 1 2 3 4 5 6 by blast
qed

theorem arp_exchange_witness:
  "\<exists>req answer b' a'.
     arp_request (10, 0, 2, 15) demo_peer = demo_peer\<lparr>nic_sent := nic_sent demo_peer @ [req]\<rparr> \<and>
     handle_rx req (demo_net [] []) = Ends b' \<and> nic_sent b' = nic_sent (demo_net [] []) @ [answer] \<and>
     handle_rx answer demo_peer = Ends a' \<and> arp_cache_lookup (10, 0, 2, 15) a' = Some (2, 0, 0, 0, 0, 1)"
proof -
  have "net_wf demo_peer" using demo_net_wf by (simp add: demo_peer_def net_wf_def arp_cache_add_def arp.add_inv)
  moreover have "nic_ready (demo_net [] [])" "OUR_IP (demo_net [] []) = (10, 0, 2, 15)" "OUR_MAC (demo_net [] []) = (2, 0, 0, 0, 0, 1)"
    by (simp_all add: demo_net_def net_boot_def)
  moreover have "OUR_IP (net_boot True (0, 0, 0, 0, 0, 0) [] []) \<noteq> (10, 0, 2, 15)" by (simp add: net_boot_def)
  ultimately show ?thesis
    using arp_exchange [OF _ demo_net_wf demo_peer_ready, of "[]" "[]" "(10, 0, 2, 15)" "net_boot True (0, 0, 0, 0, 0, 0) [] []"]
    by auto
qed

section \<open>Checksums\<close>

lemma ones_words: "length (ip_bytes a @ ip_bytes b @ [0, 6] @ be16 n) = 12"
  by simp

text \<open>
  the checksums that are sent verify. The one's complement sum over an IPv4 header built by
  \<open>send_ipv4\<close>, and over the pseudo header and the segment built by \<open>send_tcp_raw\<close>, comes out as the value
  that RFC 1071 asks a receiver to find.
\<close>

theorem checksums_verify:
  "ip_checksum (ipv4_filled src dst proto total_len ident) = 0 \<and>
   (length payload \<le> 1480 \<longrightarrow>
     ip_checksum (ip_bytes src @ ip_bytes (tcp_dst_ip conn) @ [0, 6] @ be16 (word_of_nat (20 + length payload)) @
       tcp_segment src conn flags payload) = 0)"
proof (intro conjI impI)
  let ?pre = "[0x45, 0] @ be16 (word_of_nat total_len) @ be16 ident @ [0x40, 0, 64, proto]"
  show "ip_checksum (ipv4_filled src dst proto total_len ident) = 0"
    using checksum_verifies [of ?pre "ip_bytes src @ ip_bytes dst"]
    by (simp add: ipv4_filled_def ipv4_header_def)
next
  assume l: "length payload \<le> 1480"
  let ?seg = "build_tcp (tcp_seq conn) (tcp_ack conn) flags payload (tcp_src_port conn) (tcp_dst_port conn)"
  let ?head = "be16 (tcp_src_port conn) @ be16 (tcp_dst_port conn) @ be32 (tcp_seq conn) @ be32 (tcp_ack conn) @ [0x50, flags, 0xFF, 0xFF]"
  let ?ps = "ip_bytes src @ ip_bytes (tcp_dst_ip conn) @ [0, 6] @ be16 (word_of_nat (20 + length payload))"
  let ?c = "tcp_checksum src (tcp_dst_ip conn) ?seg"
  have len: "length ?seg = 20 + length payload" by (simp add: build_tcp_def)
  have zero: "?seg[16 := 0, 17 := 0] = ?head @ be16 0 @ [0, 0] @ payload"
    by (simp add: build_tcp_def be16_def be32_def)
  have form: "tcp_segment src conn flags payload = ?head @ be16 ?c @ [0, 0] @ payload"
    by (simp add: tcp_segment_def Let_def) (simp add: build_tcp_def be16_def be32_def)
  have "12 + length ?seg \<le> 4096" using l len by simp
  then have "?c = ip_checksum ((?ps @ ?head) @ be16 0 @ [0, 0] @ payload)"
    unfolding tcp_checksum_def zero len by simp
  moreover have "ip_checksum ((?ps @ ?head) @ be16 (ip_checksum ((?ps @ ?head) @ be16 0 @ [0, 0] @ payload)) @ [0, 0] @ payload) = 0"
    by (rule checksum_verifies) (use l in simp_all)
  ultimately show "ip_checksum (ip_bytes src @ ip_bytes (tcp_dst_ip conn) @ [0, 6] @ be16 (word_of_nat (20 + length payload)) @
       tcp_segment src conn flags payload) = 0"
    unfolding form by simp
qed

theorem checksums_verify_witness:
  "ip_checksum (ip_bytes (10, 0, 2, 15) @ ip_bytes (tcp_dst_ip (TCP_CONN demo_client)) @ [0, 6] @ be16 21 @
     tcp_segment (10, 0, 2, 15) (TCP_CONN demo_client) TCP_FLAG_ACK [7]) = 0"
  using checksums_verify [of "(10, 0, 2, 15)" "(0, 0, 0, 0)" 6 20 0 "[7]" "TCP_CONN demo_client" TCP_FLAG_ACK] by simp

end
