(* ===== verification/Dnsnames.thy ===== *)
theory Dnsnames
  imports Netclient
begin

unbundle bit_operations_syntax

text \<open>
  The names of \<open>src/kernel/src/net/dns.rs\<close>: \<open>dns_encode_name\<close> writes exactly the labels of a host name, and the
  response parser steps over what it wrote and finds the address that follows.
\<close>

section \<open>Encoding\<close>

text \<open>The reference: every label preceded by its length, as long as it fits.\<close>

fun put_labels :: "nat \<Rightarrow> bytes list \<Rightarrow> bytes \<Rightarrow> bytes option" where
  "put_labels cap [] out = Some out"
| "put_labels cap (l # ls) out =
     (if length l > 63 \<or> length out + length l + 1 > cap then None
      else put_labels cap ls (out @ [word_of_nat (length l)] @ l))"

lemma split_at_none: "(\<forall>j < length xs. xs ! j \<noteq> c) \<Longrightarrow> split_at c xs = [xs]"
proof -
  have "c \<notin> set xs \<Longrightarrow> split_at c xs = [xs]" by (induction xs) auto
  then show "(\<forall>j < length xs. xs ! j \<noteq> c) \<Longrightarrow> split_at c xs = [xs]" by (metis in_set_conv_nth)
qed

lemma split_at_first:
  "i < length xs \<Longrightarrow> xs ! i = c \<Longrightarrow> (\<forall>j < i. xs ! j \<noteq> c) \<Longrightarrow>
   split_at c xs = take i xs # split_at c (drop (Suc i) xs)"
proof (induction xs arbitrary: i)
  case (Cons x xs)
  show ?case
  proof (cases i)
    case (Suc k)
    have "x \<noteq> c" "\<forall>j < k. xs ! j \<noteq> c" using Cons.prems(3) Suc by (auto dest: spec [of _ 0] spec [of _ "Suc _"])
    then show ?thesis using Cons.IH [of k] Cons.prems(1,2) Suc by simp
  qed (use Cons.prems in simp)
qed simp

lemma encode_labels_put:
  "i \<le> length name \<Longrightarrow> start \<le> i \<Longrightarrow> (\<forall>j. start \<le> j \<longrightarrow> j < i \<longrightarrow> name ! j \<noteq> dot) \<Longrightarrow>
   encode_labels cap name [i..<Suc (length name)] start out = put_labels cap (split_at dot (drop start name)) out"
proof (induction "length name - i" arbitrary: i start out)
  case 0
  then have i: "i = length name" by simp
  have "split_at dot (drop start name) = [drop start name]"
    using 0 i by (intro split_at_none) simp
  then show ?case using i 0(3) by (simp add: Let_def)
next
  case (Suc n)
  then have i: "i < length name" by simp
  then have u: "[i..<Suc (length name)] = i # [Suc i..<Suc (length name)]" by (simp add: upt_conv_Cons)
  have nd: "\<forall>j < i - start. drop start name ! j \<noteq> dot" using Suc.prems i by simp
  show ?case
  proof (cases "name ! i = dot")
    case True
    have s: "split_at dot (drop start name) = take (i - start) (drop start name) # split_at dot (drop (Suc i) name)"
      using split_at_first [of "i - start" "drop start name" dot] nd True i Suc.prems(2) by (simp add: Suc_diff_le)
    have "length (take (i - start) (drop start name)) = i - start" using i by simp
    moreover have "encode_labels cap name [Suc i..<Suc (length name)] (Suc i) out' = put_labels cap (split_at dot (drop (Suc i) name)) out'" for out'
      using Suc.hyps(1) [of "Suc i" "Suc i" out'] Suc.hyps(2) i by simp
    ultimately show ?thesis using True i unfolding u s by (simp add: Let_def)
  next
    case False
    have "encode_labels cap name [Suc i..<Suc (length name)] start out = put_labels cap (split_at dot (drop start name)) out"
      using Suc.hyps(1) [of "Suc i" start out] Suc.hyps(2) Suc.prems i False by (auto simp: less_Suc_eq)
    then show ?thesis using False i unfolding u by simp
  qed
qed

definition labels_bytes :: "bytes list \<Rightarrow> bytes" where
  "labels_bytes ls = concat (map (\<lambda>l. word_of_nat (length l) # l) ls)"

lemma put_labels_eq:
  "put_labels cap ls out = Some out' \<longleftrightarrow>
     (\<forall>l \<in> set ls. length l \<le> 63) \<and> out' = out @ labels_bytes ls \<and> (ls = [] \<or> length out' \<le> cap)"
proof (induction ls arbitrary: out)
  case (Cons l ls)
  have "length (out @ labels_bytes (l # ls)) \<le> cap \<Longrightarrow> length out + length l + 1 \<le> cap" by (simp add: labels_bytes_def)
  then show ?case using Cons [of "out @ [word_of_nat (length l)] @ l"]
    by (auto simp: labels_bytes_def)
qed (auto simp: labels_bytes_def)

text \<open>
  encoding a host name. For a name whose labels are at most 63 bytes long and fit the buffer
  with one byte to spare, \<open>dns_encode_name\<close> yields each label preceded by its length, and a final zero.
  A label that is too long, or too little room, is refused; and if the labels fill the buffer
  exactly, the final zero is written beyond its end and the kernel panics.
\<close>

theorem dns_encode_name_labels:
  "dns_encode_name cap name =
     (let labels = split_at dot name; size = length (labels_bytes labels)
      in if (\<exists>l \<in> set labels. length l > 63) \<or> size > cap then Ends None
         else if size = cap then Panics
         else Ends (Some (labels_bytes labels @ [0])))"
proof -
  have e: "encode_labels cap name [0..<Suc (length name)] 0 [] = put_labels cap (split_at dot name) []"
    using encode_labels_put [of 0 name 0 cap "[]"] by simp
  have ne: "split_at dot name \<noteq> []"
    by (induction name) (auto split: list.splits)
  let ?ok = "(\<forall>l \<in> set (split_at dot name). length l \<le> 63) \<and> length (labels_bytes (split_at dot name)) \<le> cap"
  have eq: "put_labels cap (split_at dot name) [] = Some out' \<longleftrightarrow> ?ok \<and> out' = labels_bytes (split_at dot name)" for out'
    unfolding put_labels_eq using ne by auto
  have p: "put_labels cap (split_at dot name) [] = (if ?ok then Some (labels_bytes (split_at dot name)) else None)"
  proof (cases "put_labels cap (split_at dot name) []")
    case None
    then have "\<not> ?ok" using eq [of "labels_bytes (split_at dot name)"] by simp
    then show ?thesis using None by (simp only: if_False)
  next
    case (Some out')
    then show ?thesis using eq [of out'] by simp
  qed
  show ?thesis unfolding dns_encode_name_def e p Let_def by (auto simp: not_le)
qed

section \<open>Parsing\<close>

lemma label_length: "l \<noteq> [] \<Longrightarrow> length l \<le> 63 \<Longrightarrow>
  (word_of_nat (length l) :: u8) \<noteq> 0 \<and> (word_of_nat (length l) :: u8) AND 0xC0 = 0 \<and> unat (word_of_nat (length l) :: u8) = length l"
proof -
  assume l: "l \<noteq> []" "length l \<le> 63"
  have u: "unat (word_of_nat (length l) :: u8) = length l" using l(2) by (simp add: unat_of_nat)
  have nz: "(word_of_nat (length l) :: u8) \<noteq> 0" using u l(1) by (metis length_0_conv unat_0)
  have "(word_of_nat (length l) :: u8) = take_bit 6 (word_of_nat (length l))"
    using l(2) by (simp add: take_bit_of_nat take_bit_nat_eq_self)
  then have "(word_of_nat (length l) :: u8) AND 0xC0 = take_bit 6 (word_of_nat (length l)) AND 0xC0" by simp
  also have "\<dots> = word_of_nat (length l) AND (mask 6 AND 0xC0)"
    by (simp only: take_bit_eq_mask and.assoc)
  also have "mask 6 AND 0xC0 = (0 :: u8)" by code_simp
  finally show ?thesis using u nz by simp
qed

lemma skip_question_labels:
  assumes "\<forall>l \<in> set ls. l \<noteq> [] \<and> length l \<le> 63"
  shows "skip_question (pre @ labels_bytes ls @ 0 # rest) (length pre) = Some (length pre + length (labels_bytes ls) + 1)"
  using assms
proof (induction ls arbitrary: pre)
  case Nil
  then show ?case by (subst skip_question.simps) (simp add: labels_bytes_def nth_append)
next
  case (Cons l ls)
  let ?b = "word_of_nat (length l) :: u8"
  have b: "?b \<noteq> 0" "?b AND 0xC0 \<noteq> 0xC0" "unat ?b = length l" using label_length [of l] Cons.prems by auto
  let ?pre = "pre @ ?b # l"
  have e: "pre @ labels_bytes (l # ls) @ 0 # rest = ?pre @ labels_bytes ls @ 0 # rest" by (simp add: labels_bytes_def)
  have n: "(?pre @ labels_bytes ls @ 0 # rest) ! length pre = ?b" by (simp add: nth_append)
  have "skip_question (?pre @ labels_bytes ls @ 0 # rest) (length pre) = skip_question (?pre @ labels_bytes ls @ 0 # rest) (length ?pre)"
    using b by (subst skip_question.simps) (simp add: n del: append_assoc)
  also have "\<dots> = Some (length ?pre + length (labels_bytes ls) + 1)"
    using Cons.prems by (intro Cons.IH) simp
  finally show ?case unfolding e by (simp add: labels_bytes_def)
qed

text \<open>A response to a question for \<open>name\<close>, with one address record that points back to the name.\<close>

definition dns_answer :: "bytes \<Rightarrow> u32 \<Rightarrow> ip4 \<Rightarrow> bytes" where
  "dns_answer qname ttl ip =
     be16 0x0001 @ [0x81, 0x80] @ be16 1 @ be16 1 @ replicate 4 0 @ qname @ [0, 1, 0, 1] @
     [0xC0, 0x0C] @ be16 1 @ be16 1 @ be32 ttl @ be16 4 @ ip_bytes ip"

text \<open>
  a name that was asked for is answered. The parser accepts a response that repeats the encoded
  question and carries one address record, and returns the address, for every host name whose
  labels are not empty.
\<close>

theorem dns_answer_parsed:
  assumes "dns_encode_name cap name = Ends (Some qname)" "[] \<notin> set (split_at dot name)"
  shows "dns_parse (dns_answer qname ttl ip) = Some ip"
proof -
  have q: "qname = labels_bytes (split_at dot name) @ [0]" "\<forall>l \<in> set (split_at dot name). l \<noteq> [] \<and> length l \<le> 63"
    using assms by (auto simp: dns_encode_name_labels Let_def split: if_splits)
  let ?pre = "be16 0x0001 @ [0x81, 0x80] @ be16 1 @ be16 1 @ replicate 4 0"
  let ?rest = "[0, 1, 0, 1] @ [0xC0, 0x0C] @ be16 1 @ be16 1 @ be32 ttl @ be16 4 @ ip_bytes ip"
  let ?r = "dns_answer qname ttl ip" and ?n = "length (labels_bytes (split_at dot name))"
  have r: "?r = ?pre @ labels_bytes (split_at dot name) @ 0 # ?rest" by (simp add: dns_answer_def q(1))
  have k: "skip_question ?r 12 = Some (12 + ?n + 1)"
    using skip_question_labels [OF q(2), of ?pre ?rest] unfolding r by simp
  have c: "from_be16 (?r ! 6) (?r ! 7) = 1"
  proof -
    have "?r ! 6 = 0" "?r ! 7 = 1" by (simp_all add: dns_answer_def be16_def)
    then show ?thesis by (simp only:) code_simp
  qed
  let ?off = "12 + ?n + 1 + 4"
  have nth: "?r ! (?off + i) = ([0xC0, 0x0C] @ be16 1 @ be16 1 @ be32 ttl @ be16 4 @ ip_bytes ip) ! i" for i
  proof -
    have "?r = (?pre @ labels_bytes (split_at dot name) @ [0, 0, 1, 0, 1]) @ ([0xC0, 0x0C] @ be16 1 @ be16 1 @ be32 ttl @ be16 4 @ ip_bytes ip)"
      by (simp add: r)
    moreover have "length (?pre @ labels_bytes (split_at dot name) @ [0, 0, 1, 0, 1]) = ?off" by simp
    ultimately show ?thesis by (metis nth_append_length_plus)
  qed
  have len: "length ?r = ?off + 16" by (simp add: r)
  obtain i0 i1 i2 i3 where ip: "ip = (i0, i1, i2, i3)" by (cases ip)
  have one: "from_be16 0 1 = 1" "unat (from_be16 0 4) = 4" "unat (1 :: u16) = Suc 0" by code_simp+
  have b: "?r ! ?off = 0xC0" "?r ! (?off + 2) = 0" "?r ! (?off + 3) = 1" "?r ! (?off + 10) = 0" "?r ! (?off + 11) = 4"
    "?r ! (?off + 12) = i0" "?r ! (?off + 13) = i1" "?r ! (?off + 14) = i2" "?r ! (?off + 15) = i3"
    using nth [of 0] by (simp, (subst nth; simp add: be16_def be32_def ip)+)
  have idx: "?off + 2 + 1 = ?off + 3" "?off + 2 + 8 = ?off + 10" "?off + 2 + 9 = ?off + 11" "?off + 2 + 10 = ?off + 12"
    "?off + 12 + 1 = ?off + 13" "?off + 12 + 2 = ?off + 14" "?off + 12 + 3 = ?off + 15" by simp_all
  have s: "skip_answer_name ?r ?off = ?off + 2" unfolding skip_answer_name_def b by simp
  have "first_address ?r (Suc 0) ?off = Some ip"
    unfolding first_address.simps s Let_def idx b ip_at_def one using len by (simp add: ip)
  then show ?thesis
    unfolding dns_parse_def Let_def c k one using len by simp
qed

theorem dns_answer_parsed_witness:
  "dns_parse (dns_answer (3 # bytes_of ''www'' @ 2 # bytes_of ''de'' @ [0]) 60 (93, 184, 216, 34)) = Some (93, 184, 216, 34)"
proof (rule dns_answer_parsed)
  show "dns_encode_name 500 (bytes_of ''www.de'') = Ends (Some (3 # bytes_of ''www'' @ 2 # bytes_of ''de'' @ [0]))" by code_simp
  show "[] \<notin> set (split_at dot (bytes_of ''www.de''))" by code_simp
qed

end
