(* ===== verification/Mouse.thy ===== *)
theory Mouse
  imports Prelude
begin

unbundle bit_operations_syntax

text \<open>
  The PS/2 mouse driver of \<open>src/kernel/src/ps2mouse.rs\<close>: initialisation through the controller, retries
  when no mouse answers, and the decoder that turns three-byte packets into cursor movements.

  What the ports return is the list \<open>inputs\<close> of the values of the coming port reads, whatever the
  devices are; after its end a read yields zero, a controller with nothing to say. Port writes are
  collected in \<open>outputs\<close>. The size of the screen and the sensitivity setting are arguments. The
  shared cursor of \<open>usb/hid.rs\<close> is the part of the state whose names begin with \<open>hid\<close>.
\<close>

section \<open>State\<close>

abbreviation (input) PS2_DATA :: u16 where "PS2_DATA \<equiv> 0x60"
abbreviation (input) PS2_CMD :: u16 where "PS2_CMD \<equiv> 0x64"
abbreviation (input) STATUS_OBF :: u8 where "STATUS_OBF \<equiv> 0x01"
abbreviation (input) STATUS_IBF :: u8 where "STATUS_IBF \<equiv> 0x02"
abbreviation (input) STATUS_AUX :: u8 where "STATUS_AUX \<equiv> 0x20"
abbreviation (input) ACK :: u8 where "ACK \<equiv> 0xFA"
abbreviation (input) RETRY_INTERVAL :: u32 where "RETRY_INTERVAL \<equiv> 300"

record mouse =
  M_INIT_DONE :: bool
  M_INIT_FAILED :: bool
  RETRY_TICKS :: u32
  MOUSE_ENABLED :: bool
  PACKET_BUF :: "u8 list"
  PACKET_POS :: nat
  MOUSE_X :: int
  MOUSE_Y :: int
  MOUSE_BUTTONS :: u8
  hid_x :: int
  hid_y :: int
  hid_buttons :: u8
  hid_dirty :: bool
  inputs :: "u8 list"
  outputs :: "(u16 \<times> u8) list"

definition mouse_boot :: "u8 list \<Rightarrow> mouse" where
  "mouse_boot ins = \<lparr>M_INIT_DONE = False, M_INIT_FAILED = False, RETRY_TICKS = 0, MOUSE_ENABLED = True,
     PACKET_BUF = [0, 0, 0], PACKET_POS = 0, MOUSE_X = 0, MOUSE_Y = 0, MOUSE_BUTTONS = 0,
     hid_x = 0, hid_y = 0, hid_buttons = 0, hid_dirty = False, inputs = ins, outputs = []\<rparr>"

definition inb :: "mouse \<Rightarrow> u8 \<times> mouse" where
  "inb s = (case inputs s of [] \<Rightarrow> (0, s) | b # bs \<Rightarrow> (b, s\<lparr>inputs := bs\<rparr>))"

definition outb :: "u16 \<Rightarrow> u8 \<Rightarrow> mouse \<Rightarrow> mouse" where
  "outb port v s = s\<lparr>outputs := outputs s @ [(port, v)]\<rparr>"

section \<open>Talking to the controller\<close>

fun wait_write_loop :: "nat \<Rightarrow> mouse \<Rightarrow> mouse" where
  "wait_write_loop 0 s = s"
| "wait_write_loop (Suc n) s = (let (b, s) = inb s in if b AND STATUS_IBF = 0 then s else wait_write_loop n s)"

definition wait_write :: "mouse \<Rightarrow> mouse" where
  "wait_write s = wait_write_loop 1000 s"

fun wait_read_loop :: "nat \<Rightarrow> mouse \<Rightarrow> bool \<times> mouse" where
  "wait_read_loop 0 s = (False, s)"
| "wait_read_loop (Suc n) s = (let (b, s) = inb s in if b AND STATUS_OBF \<noteq> 0 then (True, s) else wait_read_loop n s)"

definition wait_read :: "mouse \<Rightarrow> bool \<times> mouse" where
  "wait_read s = wait_read_loop 1000 s"

fun wait_ack :: "nat \<Rightarrow> mouse \<Rightarrow> bool \<times> mouse" where
  "wait_ack 0 s = (False, s)"
| "wait_ack (Suc n) s =
     (let (ready, s) = wait_read s
      in if ready then (let (byte, s) = inb s in if byte = ACK then (True, s) else wait_ack n s)
         else wait_ack n s)"

definition send_to_mouse :: "u8 \<Rightarrow> mouse \<Rightarrow> bool \<times> mouse" where
  "send_to_mouse cmd s = wait_ack 500 (outb PS2_DATA cmd (wait_write (outb PS2_CMD 0xD4 (wait_write s))))"

fun drain_loop :: "nat \<Rightarrow> mouse \<Rightarrow> mouse" where
  "drain_loop 0 s = s"
| "drain_loop (Suc n) s = (let (status, s) = inb s in if status AND STATUS_OBF = 0 then s else drain_loop n (snd (inb s)))"

definition drain :: "mouse \<Rightarrow> mouse" where
  "drain s = drain_loop 64 s"

definition mouse_init :: "u32 \<Rightarrow> u32 \<Rightarrow> mouse \<Rightarrow> mouse" where
  "mouse_init fb_w fb_h s =
     (if M_INIT_DONE s \<or> M_INIT_FAILED s then s
      else let s = outb PS2_CMD 0x20 (wait_write (drain s));
               (ready, s) = wait_read s
      in if \<not> ready then s\<lparr>M_INIT_FAILED := True\<rparr>
         else let (config, s) = inb s;
                  s = outb PS2_CMD 0x60 (wait_write s);
                  s = outb PS2_DATA (config OR 0x04) (wait_write s);
                  s = outb PS2_CMD 0xA8 (wait_write s);
                  (defaults_ok, s) = send_to_mouse 0xF6 s;
                  (enable_ok, s) = send_to_mouse 0xF4 s
         in if \<not> defaults_ok \<and> \<not> enable_ok then s\<lparr>M_INIT_FAILED := True, RETRY_TICKS := 0\<rparr>
            else (drain s)\<lparr>M_INIT_DONE := True, PACKET_POS := 0,
                   MOUSE_X := quot_i32 (as_i32 fb_w) 2, MOUSE_Y := quot_i32 (as_i32 fb_h) 2\<rparr>)"

section \<open>Decoding\<close>

text \<open>The movement of a data byte: nine bits with the sign in the first byte, scaled by the sensitivity.\<close>

definition mouse_delta :: "u32 \<Rightarrow> bool \<Rightarrow> u8 \<Rightarrow> int" where
  "mouse_delta sens neg raw =
     quot_i32 (i32 ((if neg then uint raw - 256 else uint raw) * as_i32 sens)) 5"

definition clamp_axis :: "int \<Rightarrow> int \<Rightarrow> int" where
  "clamp_axis v extent = min (max v 0) (i32 (extent - 1))"

text \<open>What a complete, synchronised packet does.\<close>

definition apply_packet :: "u32 \<Rightarrow> u32 \<Rightarrow> u32 \<Rightarrow> mouse \<Rightarrow> mouse" where
  "apply_packet fb_w fb_h sens s =
     (let b0 = PACKET_BUF s ! 0;
          dx = mouse_delta sens (b0 AND 0x10 \<noteq> 0) (PACKET_BUF s ! 1);
          dy = mouse_delta sens (b0 AND 0x20 \<noteq> 0) (PACKET_BUF s ! 2);
          buttons = b0 AND 0x07;
          new_x = clamp_axis (i32 (MOUSE_X s + dx)) (as_i32 fb_w);
          new_y = clamp_axis (i32 (MOUSE_Y s - dy)) (as_i32 fb_h);
          s = (if new_x \<noteq> MOUSE_X s \<or> new_y \<noteq> MOUSE_Y s \<or> buttons \<noteq> MOUSE_BUTTONS s
               then s\<lparr>MOUSE_X := new_x, MOUSE_Y := new_y, MOUSE_BUTTONS := buttons,
                      hid_x := new_x, hid_y := new_y, hid_dirty := True, hid_buttons := buttons\<rparr>
               else s)
      in s\<lparr>PACKET_POS := 0\<rparr>)"

text \<open>One auxiliary byte; the result counts the lost synchronisations of this poll.\<close>

definition take_byte :: "u32 \<Rightarrow> u32 \<Rightarrow> u32 \<Rightarrow> u8 \<Rightarrow> nat \<Rightarrow> mouse \<Rightarrow> nat \<times> mouse" where
  "take_byte fb_w fb_h sens byte desyncs s =
     (let s = s\<lparr>PACKET_BUF := (PACKET_BUF s)[PACKET_POS s := byte], PACKET_POS := PACKET_POS s + 1\<rparr>
      in if PACKET_POS s \<noteq> 3 then (desyncs, s)
         else if PACKET_BUF s ! 0 AND 0x08 = 0
         then if desyncs + 1 \<ge> 3 then (desyncs + 1, s\<lparr>PACKET_POS := 0\<rparr>)
              else (desyncs + 1, s\<lparr>PACKET_BUF := [PACKET_BUF s ! 1, PACKET_BUF s ! 2, PACKET_BUF s ! 2], PACKET_POS := 2\<rparr>)
         else (desyncs, apply_packet fb_w fb_h sens s))"

fun poll_bytes :: "u32 \<Rightarrow> u32 \<Rightarrow> u32 \<Rightarrow> nat \<Rightarrow> nat \<Rightarrow> mouse \<Rightarrow> mouse" where
  "poll_bytes fb_w fb_h sens 0 desyncs s = s"
| "poll_bytes fb_w fb_h sens (Suc n) desyncs s =
     (let (status, s) = inb s
      in if status AND STATUS_OBF = 0 then s
         else let (byte, s) = inb s
         in if status AND STATUS_AUX = 0 then poll_bytes fb_w fb_h sens n desyncs s
            else let (desyncs, s) = take_byte fb_w fb_h sens byte desyncs s
                 in poll_bytes fb_w fb_h sens n desyncs s)"

definition mouse_poll :: "u32 \<Rightarrow> u32 \<Rightarrow> u32 \<Rightarrow> mouse \<Rightarrow> mouse" where
  "mouse_poll fb_w fb_h sens s =
     (if \<not> MOUSE_ENABLED s then s
      else if \<not> M_INIT_DONE s \<and> M_INIT_FAILED s then
        (let s = s\<lparr>RETRY_TICKS := RETRY_TICKS s + 1\<rparr>
         in if RETRY_TICKS s \<ge> RETRY_INTERVAL
            then mouse_init fb_w fb_h (s\<lparr>RETRY_TICKS := 0, M_INIT_FAILED := False\<rparr>) else s)
      else if \<not> M_INIT_DONE s then
        (let s = mouse_init fb_w fb_h s in if M_INIT_FAILED s then s else poll_bytes fb_w fb_h sens 16 0 s)
      else poll_bytes fb_w fb_h sens 16 0 s)"

definition mouse_reset :: "u32 \<Rightarrow> u32 \<Rightarrow> mouse \<Rightarrow> mouse" where
  "mouse_reset fb_w fb_h s =
     mouse_init fb_w fb_h (drain (s\<lparr>M_INIT_DONE := False, M_INIT_FAILED := False, PACKET_POS := 0\<rparr>))"

definition set_enabled :: "bool \<Rightarrow> mouse \<Rightarrow> mouse" where
  "set_enabled on s = (if on then s\<lparr>MOUSE_ENABLED := True\<rparr> else s\<lparr>MOUSE_ENABLED := False, PACKET_POS := 0\<rparr>)"

definition is_initialized :: "mouse \<Rightarrow> bool" where "is_initialized s \<longleftrightarrow> M_INIT_DONE s"
definition is_enabled :: "mouse \<Rightarrow> bool" where "is_enabled s \<longleftrightarrow> MOUSE_ENABLED s"

section \<open>The cursor stays on the screen\<close>

definition mouse_ok :: "u32 \<Rightarrow> u32 \<Rightarrow> mouse \<Rightarrow> bool" where
  "mouse_ok fb_w fb_h s \<longleftrightarrow> length (PACKET_BUF s) = 3 \<and> PACKET_POS s < 3 \<and>
     0 \<le> MOUSE_X s \<and> MOUSE_X s < uint fb_w \<and> 0 \<le> MOUSE_Y s \<and> MOUSE_Y s < uint fb_h \<and>
     0 \<le> hid_x s \<and> hid_x s < uint fb_w \<and> 0 \<le> hid_y s \<and> hid_y s < uint fb_h \<and>
     \<not> (M_INIT_DONE s \<and> M_INIT_FAILED s)"

text \<open>The helpers that talk to the ports change nothing but the two lists of port accesses.\<close>

definition ports_only :: "mouse \<Rightarrow> mouse \<Rightarrow> bool" where
  "ports_only s s' \<longleftrightarrow> s' = s\<lparr>inputs := inputs s', outputs := outputs s'\<rparr>"

lemma ports_only_refl [simp]: "ports_only s s"
  by (simp add: ports_only_def)

lemma ports_only_trans: "ports_only s t \<Longrightarrow> ports_only t u \<Longrightarrow> ports_only s u"
proof -
  assume st: "ports_only s t" and tu: "ports_only t u"
  have "u = t\<lparr>inputs := inputs u, outputs := outputs u\<rparr>" using tu by (simp only: ports_only_def)
  also have "\<dots> = s\<lparr>inputs := inputs u, outputs := outputs u\<rparr>"
    using arg_cong [OF st [unfolded ports_only_def], of "\<lambda>x. x\<lparr>inputs := inputs u, outputs := outputs u\<rparr>"] by simp
  finally show "ports_only s u" by (simp only: ports_only_def)
qed

lemma ports_inb: "ports_only s t \<Longrightarrow> ports_only s (snd (inb t))"
  by (erule ports_only_trans) (simp add: inb_def ports_only_def split: list.splits)

lemma ports_outb: "ports_only s t \<Longrightarrow> ports_only s (outb port v t)"
  by (erule ports_only_trans) (simp add: outb_def ports_only_def)

lemma ports_wait_write: "ports_only s t \<Longrightarrow> ports_only s (wait_write t)"
proof -
  have "ports_only s t \<Longrightarrow> ports_only s (wait_write_loop n t)" for n
    by (induction n arbitrary: t) (auto simp: Let_def split_beta intro: ports_inb)
  then show "ports_only s t \<Longrightarrow> ports_only s (wait_write t)" by (simp only: wait_write_def)
qed

lemma ports_wait_read: "ports_only s t \<Longrightarrow> ports_only s (snd (wait_read t))"
proof -
  have "ports_only s t \<Longrightarrow> ports_only s (snd (wait_read_loop n t))" for n
    by (induction n arbitrary: t) (auto simp: Let_def split_beta intro: ports_inb)
  then show "ports_only s t \<Longrightarrow> ports_only s (snd (wait_read t))" by (simp only: wait_read_def)
qed

lemma ports_send: "ports_only s t \<Longrightarrow> ports_only s (snd (send_to_mouse cmd t))"
proof -
  have "ports_only s t \<Longrightarrow> ports_only s (snd (wait_ack n t))" for n t
    by (induction n arbitrary: t) (auto simp: Let_def split_beta intro: ports_inb ports_wait_read)
  then show "ports_only s t \<Longrightarrow> ports_only s (snd (send_to_mouse cmd t))"
    by (simp add: send_to_mouse_def ports_outb ports_wait_write)
qed

lemma ports_drain: "ports_only s t \<Longrightarrow> ports_only s (drain t)"
proof -
  have "ports_only s t \<Longrightarrow> ports_only s (drain_loop n t)" for n
    by (induction n arbitrary: t) (auto simp: Let_def split_beta intro: ports_inb)
  then show "ports_only s t \<Longrightarrow> ports_only s (drain t)" by (simp only: drain_def)
qed

lemma ports_ok: "ports_only s t \<Longrightarrow> mouse_ok w h s \<Longrightarrow> mouse_ok w h t"
  unfolding ports_only_def by (erule ssubst) (simp add: mouse_ok_def)

lemma ports_fields:
  "M_INIT_DONE (s\<lparr>inputs := i, outputs := k\<rparr>) = M_INIT_DONE s"
  "M_INIT_FAILED (s\<lparr>inputs := i, outputs := k\<rparr>) = M_INIT_FAILED s"
  by simp_all

lemma screen_i32:
  assumes "0 < w" "w < 0x40000000"
  shows "as_i32 w = uint w" "i32 (uint w - 1) = uint w - 1" "0 < uint w" "quot_i32 (as_i32 w) 2 < uint w" "0 \<le> quot_i32 (as_i32 w) 2"
proof -
  show w: "as_i32 w = uint w" by (rule as_i32_small [OF assms(2)])
  show p: "0 < uint w" using assms(1) by (simp add: word_less_def)
  show "i32 (uint w - 1) = uint w - 1" using p uint_small [OF assms(2)] by (intro i32_idI) linarith+
  show "quot_i32 (as_i32 w) 2 < uint w" "0 \<le> quot_i32 (as_i32 w) 2" using p by (simp_all add: quot_i32_def w)
qed

lemma clamp_range: "0 < w \<Longrightarrow> w < 0x40000000 \<Longrightarrow> 0 \<le> clamp_axis v (as_i32 w) \<and> clamp_axis v (as_i32 w) < uint w"
  using screen_i32 [of w] by (auto simp: clamp_axis_def)

lemma mouse_init_ok:
  assumes "mouse_ok w h s" "0 < w" "w < 0x40000000" "0 < h" "h < 0x40000000"
  shows "mouse_ok w h (mouse_init w h s)"
proof (cases "M_INIT_DONE s \<or> M_INIT_FAILED s")
  case False
  obtain r s1 where 1: "wait_read (outb PS2_CMD 0x20 (wait_write (drain s))) = (r, s1)" by fastforce
  obtain c s2 where 2: "inb s1 = (c, s2)" by fastforce
  let ?s3 = "outb PS2_CMD 0xA8 (wait_write (outb PS2_DATA (c OR 0x04) (wait_write (outb PS2_CMD 0x60 (wait_write s2)))))"
  obtain d s4 where 4: "send_to_mouse 0xF6 ?s3 = (d, s4)" by fastforce
  obtain e s5 where 5: "send_to_mouse 0xF4 s4 = (e, s5)" by fastforce
  have p1: "ports_only s s1"
    using ports_wait_read [of s "outb PS2_CMD 0x20 (wait_write (drain s))"] 1
    by (simp add: ports_outb ports_wait_write ports_drain)
  have p3: "ports_only s ?s3" using ports_inb [OF p1] 2 by (simp add: ports_outb ports_wait_write)
  have p5: "ports_only s s5" using ports_send [OF ports_send [OF p3]] 4 5 by (metis snd_conv)
  have flags: "\<not> M_INIT_DONE s1" "\<not> M_INIT_DONE s5" "\<not> M_INIT_FAILED (drain s5)"
    using False p1 p5 ports_drain [OF p5] unfolding ports_only_def by (metis ports_fields)+
  have ok: "mouse_ok w h s1" "mouse_ok w h s5" "mouse_ok w h (drain s5)"
    using ports_ok assms(1) p1 p5 ports_drain [OF p5] by blast+
  have "mouse_init w h s = (if \<not> r then s1\<lparr>M_INIT_FAILED := True\<rparr>
      else if \<not> d \<and> \<not> e then s5\<lparr>M_INIT_FAILED := True, RETRY_TICKS := 0\<rparr>
      else (drain s5)\<lparr>M_INIT_DONE := True, PACKET_POS := 0, MOUSE_X := quot_i32 (as_i32 w) 2, MOUSE_Y := quot_i32 (as_i32 h) 2\<rparr>)"
    using False by (simp add: mouse_init_def 1 2 4 5)
  then show ?thesis
    using ok flags screen_i32(4,5) [OF assms(2,3)] screen_i32(4,5) [OF assms(4,5)] by (auto simp: mouse_ok_def)
qed (use assms(1) in \<open>auto simp: mouse_init_def\<close>)

lemma apply_packet_ok:
  assumes "length (PACKET_BUF s) = 3" "mouse_ok w h (s\<lparr>PACKET_POS := 0\<rparr>)" "0 < w" "w < 0x40000000" "0 < h" "h < 0x40000000"
  shows "mouse_ok w h (apply_packet w h sens s)"
  using assms(1,2) clamp_range [OF assms(3,4)] clamp_range [OF assms(5,6)]
  by (auto simp: apply_packet_def mouse_ok_def Let_def)

lemma take_byte_ok:
  assumes "mouse_ok w h s" "0 < w" "w < 0x40000000" "0 < h" "h < 0x40000000"
  shows "mouse_ok w h (snd (take_byte w h sens byte d s))"
proof -
  let ?t = "s\<lparr>PACKET_BUF := (PACKET_BUF s)[PACKET_POS s := byte], PACKET_POS := PACKET_POS s + 1\<rparr>"
  have "mouse_ok w h (?t\<lparr>PACKET_POS := 0\<rparr>)" "length (PACKET_BUF ?t) = 3" using assms(1) by (auto simp: mouse_ok_def)
  then have "mouse_ok w h (apply_packet w h sens ?t)" using apply_packet_ok assms(2-) by blast
  then show ?thesis
    using assms(1) by (auto simp: take_byte_def Let_def) (auto simp: mouse_ok_def)
qed

lemma poll_bytes_ok:
  assumes "0 < w" "w < 0x40000000" "0 < h" "h < 0x40000000"
  shows "mouse_ok w h s \<Longrightarrow> mouse_ok w h (poll_bytes w h sens n d s)"
proof (induction n arbitrary: d s)
  case (Suc n)
  obtain st s1 where 1: "inb s = (st, s1)" by fastforce
  obtain b s2 where 2: "inb s1 = (b, s2)" by fastforce
  obtain d' s3 where 3: "take_byte w h sens b d s2 = (d', s3)" by fastforce
  have "ports_only s s1" "ports_only s s2"
    using ports_inb [of s s] ports_inb [of s s1] 1 2 by auto
  then have ok: "mouse_ok w h s1" "mouse_ok w h s2" using ports_ok Suc.prems by blast+
  have "mouse_ok w h s3" using take_byte_ok [OF ok(2) assms, of sens b d] 3 by simp
  then show ?case using Suc.IH ok 1 2 3 by simp
qed simp

lemma mouse_poll_ok:
  assumes "mouse_ok w h s" "0 < w" "w < 0x40000000" "0 < h" "h < 0x40000000"
  shows "mouse_ok w h (mouse_poll w h sens s)"
proof -
  have r: "mouse_ok w h (s\<lparr>RETRY_TICKS := n\<rparr>)" "mouse_ok w h (s\<lparr>RETRY_TICKS := n, M_INIT_FAILED := False\<rparr>)" for n
    using assms(1) by (auto simp: mouse_ok_def)
  show ?thesis
    using assms r by (simp add: mouse_poll_def Let_def mouse_init_ok poll_bytes_ok)
qed

inductive mouse_reach :: "u32 \<Rightarrow> u32 \<Rightarrow> mouse \<Rightarrow> bool" for w h where
  boot: "mouse_reach w h (mouse_boot ins)"
| devices: "mouse_reach w h s \<Longrightarrow> mouse_reach w h (s\<lparr>inputs := ins\<rparr>)"
| init: "mouse_reach w h s \<Longrightarrow> mouse_reach w h (mouse_init w h s)"
| poll: "mouse_reach w h s \<Longrightarrow> mouse_reach w h (mouse_poll w h sens s)"
| reset: "mouse_reach w h s \<Longrightarrow> mouse_reach w h (mouse_reset w h s)"
| enable: "mouse_reach w h s \<Longrightarrow> mouse_reach w h (set_enabled on s)"

text \<open>
  C22: the mouse cursor stays on the screen. Whatever bytes the controller delivers, in whatever
  order the driver's functions are called and whatever the sensitivity is, the cursor of the driver
  and the shared cursor are inside the screen, and the next packet byte has a place in the packet
  buffer, so that no index is out of range.
\<close>

theorem mouse_stays_on_screen:
  assumes "mouse_reach w h s" "0 < w" "w < 0x40000000" "0 < h" "h < 0x40000000"
  shows "mouse_ok w h s"
  using assms(1)
proof (induction rule: mouse_reach.induct)
  case (boot ins)
  show ?case using screen_i32(3) [OF assms(2,3)] screen_i32(3) [OF assms(4,5)]
    by (simp add: mouse_boot_def mouse_ok_def)
next
  case (reset s)
  have "mouse_ok w h (drain (s\<lparr>M_INIT_DONE := False, M_INIT_FAILED := False, PACKET_POS := 0\<rparr>))"
    using reset.IH by (intro ports_ok [OF ports_drain [OF ports_only_refl]]) (auto simp: mouse_ok_def)
  then show ?case using mouse_init_ok assms(2-) by (simp add: mouse_reset_def)
next
  case (enable s on)
  then show ?case by (auto simp: set_enabled_def mouse_ok_def)
next
  case (devices s ins)
  then show ?case by (simp add: mouse_ok_def)
qed (use assms(2-) in \<open>simp_all add: mouse_init_ok mouse_poll_ok\<close>)

theorem mouse_stays_on_screen_witness:
  "mouse_ok 800 600 (mouse_poll 800 600 9 (mouse_boot (replicate 20 0x21)))"
  using mouse_stays_on_screen [OF mouse_reach.poll [OF mouse_reach.boot], of 800 600] by simp

section \<open>Packets\<close>

lemma poll_bytes_numeral:
  "poll_bytes fb_w fb_h sens (numeral k) desyncs s =
     (let (status, s) = inb s
      in if status AND STATUS_OBF = 0 then s
         else let (byte, s) = inb s
         in if status AND STATUS_AUX = 0 then poll_bytes fb_w fb_h sens (pred_numeral k) desyncs s
            else let (desyncs, s) = take_byte fb_w fb_h sens byte desyncs s
                 in poll_bytes fb_w fb_h sens (pred_numeral k) desyncs s)"
  by (simp only: numeral_eq_Suc poll_bytes.simps)

definition signed9 :: "bool \<Rightarrow> u8 \<Rightarrow> int" where
  "signed9 neg raw = (if neg then uint raw - 256 else uint raw)"

lemma signed9_range: "- 256 \<le> signed9 neg raw \<and> signed9 neg raw < 256"
proof -
  have "uint raw < 256" using uint_lt2p [of raw] by simp
  moreover have "0 \<le> uint raw" by (rule uint_ge_0)
  ultimately have "- 256 \<le> uint raw" "uint raw - 256 < 256" "- 256 \<le> uint raw - 256" by linarith+
  then show ?thesis using \<open>uint raw < 256\<close> by (cases neg) (simp_all only: signed9_def if_True if_False simp_thms)
qed

lemma mouse_delta_default: "mouse_delta 5 neg raw = signed9 neg raw"
proof -
  have five: "as_i32 5 = 5" by (simp add: as_i32_small)
  have "i32 (signed9 neg raw * 5) = signed9 neg raw * 5" using signed9_range [of neg raw] by (intro i32_idI) linarith+
  moreover have "quot_i32 (signed9 neg raw * 5) 5 = signed9 neg raw"
    by (auto simp: quot_i32_def simp flip: mult_minus_left)
  ultimately show ?thesis unfolding mouse_delta_def five signed9_def [symmetric] by simp
qed

text \<open>
  a mouse packet moves the cursor. When the controller holds the three bytes of a packet and the
  sensitivity is the default, one poll consumes them and moves the cursor by the two nine-bit
  movements, to the right and upwards, cut at the edges of the screen, and takes over the buttons.
\<close>

theorem mouse_packet_moves_cursor:
  assumes ok: "mouse_ok w h s" "MOUSE_ENABLED s" "M_INIT_DONE s" "PACKET_POS s = 0"
    and screen: "0 < w" "w < 0x40000000" "0 < h" "h < 0x40000000"
    and packet: "inputs s = [st, b0, st, b1, st, b2]" "st AND STATUS_OBF \<noteq> 0" "st AND STATUS_AUX \<noteq> 0" "b0 AND 0x08 \<noteq> 0"
  defines "s' \<equiv> mouse_poll w h 5 s"
  shows "MOUSE_X s' = max 0 (min (uint w - 1) (MOUSE_X s + signed9 (b0 AND 0x10 \<noteq> 0) b1)) \<and>
     MOUSE_Y s' = max 0 (min (uint h - 1) (MOUSE_Y s - signed9 (b0 AND 0x20 \<noteq> 0) b2)) \<and>
     MOUSE_BUTTONS s' = b0 AND 0x07 \<and> PACKET_POS s' = 0 \<and> inputs s' = []"
proof -
  obtain x y z where buf: "PACKET_BUF s = [x, y, z]"
    using ok(1) by (auto simp: mouse_ok_def length_Suc_conv numeral_3_eq_3)
  let ?t = "s\<lparr>inputs := [], PACKET_BUF := [b0, b1, b2], PACKET_POS := 3\<rparr>"
  have "s' = poll_bytes w h 5 16 0 s" using ok by (simp add: s'_def mouse_poll_def)
  also have "\<dots> = apply_packet w h 5 ?t"
    using packet ok(4) buf
    by (simp add: poll_bytes_numeral inb_def take_byte_def apply_packet_def Let_def numeral_2_eq_2 numeral_3_eq_3)
  finally have s': "s' = apply_packet w h 5 ?t" .
  have c: "clamp_axis (i32 v) (as_i32 w) = max 0 (min (uint w - 1) v)" if "- 512 \<le> v" "v < 0x40000000 + 512" for v
    using that screen_i32 [OF screen(1,2)] by (auto simp: clamp_axis_def i32_idI)
  have d: "clamp_axis (i32 v) (as_i32 h) = max 0 (min (uint h - 1) v)" if "- 512 \<le> v" "v < 0x40000000 + 512" for v
    using that screen_i32 [OF screen(3,4)] by (auto simp: clamp_axis_def i32_idI)
  note r = signed9_range
  have u: "0 \<le> MOUSE_X s" "MOUSE_X s < 0x40000000" "0 \<le> MOUSE_Y s" "MOUSE_Y s < 0x40000000"
    using ok(1) uint_small [OF screen(2)] uint_small [OF screen(4)] by (auto simp: mouse_ok_def)
  have "clamp_axis (i32 (MOUSE_X s + signed9 (b0 AND 0x10 \<noteq> 0) b1)) (as_i32 w) =
      max 0 (min (uint w - 1) (MOUSE_X s + signed9 (b0 AND 0x10 \<noteq> 0) b1))"
    using r [of "b0 AND 0x10 \<noteq> 0" b1] u by (intro c) linarith+
  moreover have "clamp_axis (i32 (MOUSE_Y s - signed9 (b0 AND 0x20 \<noteq> 0) b2)) (as_i32 h) =
      max 0 (min (uint h - 1) (MOUSE_Y s - signed9 (b0 AND 0x20 \<noteq> 0) b2))"
    using r [of "b0 AND 0x20 \<noteq> 0" b2] u by (intro d) linarith+
  ultimately show ?thesis
    unfolding s' apply_packet_def Let_def by (simp add: mouse_delta_default)
qed

theorem mouse_packet_moves_cursor_witness:
  "MOUSE_X (mouse_poll 800 600 5 ((mouse_boot [])\<lparr>M_INIT_DONE := True, MOUSE_X := 400, MOUSE_Y := 300,
     inputs := [0x21, 0x29, 0x21, 10, 0x21, 0xFB]\<rparr>)) = 410"
proof -
  have a: "(0x21 :: u8) AND 0x01 \<noteq> 0" "(0x21 :: u8) AND 0x20 \<noteq> 0" "(0x29 :: u8) AND 0x08 \<noteq> 0" "(0x29 :: u8) AND 0x10 = 0"
    by code_simp+
  let ?s = "(mouse_boot [])\<lparr>M_INIT_DONE := True, MOUSE_X := 400, MOUSE_Y := 300, inputs := [0x21, 0x29, 0x21, 10, 0x21, 0xFB]\<rparr>"
  have "mouse_ok 800 600 ?s" by (simp add: mouse_ok_def mouse_boot_def)
  from mouse_packet_moves_cursor [OF this, of "0x21" "0x29" 10 "0xFB"] a
  show ?thesis by (simp add: mouse_boot_def signed9_def)
qed

text \<open>A byte from the keyboard is read and thrown away, although a comment says that it is left for the keyboard driver.\<close>

lemma mouse_poll_discards_keyboard_byte:
  assumes "MOUSE_ENABLED s" "M_INIT_DONE s" "inputs s = [STATUS_OBF, scancode]"
  shows "mouse_poll w h sens s = s\<lparr>inputs := []\<rparr>"
proof -
  have a: "STATUS_OBF AND STATUS_OBF \<noteq> (0 :: u8)" "STATUS_OBF AND STATUS_AUX = (0 :: u8)" by code_simp+
  have "mouse_poll w h sens s = poll_bytes w h sens 16 0 s" using assms by (simp add: mouse_poll_def)
  then show ?thesis using assms(3) a by (simp add: poll_bytes_numeral inb_def)
qed

end
