(* ===== verification/Blockfs.thy ===== *)
theory Blockfs
  imports Ramfs
begin

unbundle bit_operations_syntax

text \<open>
  The ATA disk driver of \<open>src/kernel/src/ata.rs\<close> and the on-disk file system of
  \<open>src/kernel/src/blockfs.rs\<close>: superblock, bitmaps, inode table and data blocks on sectors of 512 bytes.

  A drive is whether one answers and the words of its sectors, by the 28-bit address that it puts
  together from the registers it is given. The locale \<open>sector_store\<close> is what the file system relies
  on: a sector that was written is read back, and the others are left alone. It is interpreted by
  \<open>read_sector\<close> and \<open>write_sector\<close>. Reads and writes through a pointer beyond the sector buffer, which
  Rust leaves undefined, are \<open>None\<close>.
\<close>

section \<open>Sectors\<close>

lemma slice_patch:
  assumes "off + length x \<le> length b"
  shows "take (length x) (drop off (take off b @ x @ drop (off + length x) b)) = x"
    and "o' + n \<le> off \<Longrightarrow> take n (drop o' (take off b @ x @ drop (off + length x) b)) = take n (drop o' b)"
    and "off + length x \<le> o' \<Longrightarrow> take n (drop o' (take off b @ x @ drop (off + length x) b)) = take n (drop o' b)"
proof -
  show "take (length x) (drop off (take off b @ x @ drop (off + length x) b)) = x" using assms by simp
next
  assume o: "o' + n \<le> off"
  then have "o' \<le> length (take off b)" "n \<le> length (drop o' (take off b))" using assms by simp_all
  then have "take n (drop o' (take off b @ x @ drop (off + length x) b)) = take n (drop o' (take off b))" by simp
  also have "\<dots> = take n (drop o' b)" using o by (simp add: drop_take min_absorb1)
  finally show "take n (drop o' (take off b @ x @ drop (off + length x) b)) = take n (drop o' b)" .
next
  assume "off + length x \<le> o'"
  then obtain k where k: "o' = off + length x + k" using le_Suc_ex by blast
  have "drop o' (take off b @ x @ drop (off + length x) b) = drop (off + length x + k) b"
    unfolding k using assms by (simp add: add.commute)
  then show "take n (drop o' (take off b @ x @ drop (off + length x) b)) = take n (drop o' b)" by (simp only: k)
qed

locale sector_store =
  fixes ready :: "'d \<Rightarrow> bool"
    and place :: "u32 \<Rightarrow> 'p"
    and rd :: "u32 \<Rightarrow> 'd \<Rightarrow> bytes option"
    and wr :: "u32 \<Rightarrow> bytes \<Rightarrow> 'd \<Rightarrow> bool \<times> 'd"
  assumes read_length: "ready d \<Longrightarrow> rd l d = Some b \<Longrightarrow> length b = 512"
    and read_ready: "ready d \<Longrightarrow> rd l d \<noteq> None"
    and write_ready: "ready d \<Longrightarrow> length b = 512 \<Longrightarrow> fst (wr l b d) \<and> ready (snd (wr l b d))"
    and read_write: "ready d \<Longrightarrow> length b = 512 \<Longrightarrow> rd k (snd (wr l b d)) = (if place k = place l then Some b else rd k d)"
begin

lemma read_back: "ready d \<Longrightarrow> length b = 512 \<Longrightarrow> rd l (snd (wr l b d)) = Some b"
  by (simp add: read_write)

lemma update_length: "ready d \<Longrightarrow> off + length x \<le> 512 \<Longrightarrow>
   length (take off (the (rd l d)) @ x @ drop (off + length x) (the (rd l d))) = 512"
  using read_ready [of d l] read_length [of d l] by auto

text \<open>Replacing the bytes from \<open>off\<close> on in a sector.\<close>

lemma read_updated:
  assumes "ready d" "off + length x \<le> 512" "rd l d = Some b"
  defines "d' \<equiv> snd (wr l (take off b @ x @ drop (off + length x) b) d)"
  shows "\<exists>b'. rd l d' = Some b' \<and> take (length x) (drop off b') = x \<and>
    (\<forall>o' n. o' + n \<le> off \<or> off + length x \<le> o' \<longrightarrow> take n (drop o' b') = take n (drop o' b))"
proof -
  have b: "length b = 512" by (rule read_length [OF assms(1,3)])
  let ?b' = "take off b @ x @ drop (off + length x) b"
  have l: "length ?b' = 512" using b assms(2) by simp
  have x: "off + length x \<le> length b" using b assms(2) by simp
  show ?thesis
    using read_back [OF assms(1) l, of l] slice_patch [OF x] unfolding d'_def by blast
qed

end

section \<open>The ATA driver\<close>

record drive =
  DISK_PRESENT :: bool
  platter :: "u32 \<Rightarrow> u16 list"

text \<open>The registers that select a sector, as \<open>read_sector\<close> and \<open>write_sector\<close> set them.\<close>

definition lba_head :: "u32 \<Rightarrow> u8" where "lba_head lba = 0xE0 OR ucast (drop_bit 24 lba AND 0x0F)"
definition lba_low :: "u32 \<Rightarrow> u8" where "lba_low lba = ucast (lba AND 0xFF)"
definition lba_mid :: "u32 \<Rightarrow> u8" where "lba_mid lba = ucast (drop_bit 8 lba AND 0xFF)"
definition lba_high :: "u32 \<Rightarrow> u8" where "lba_high lba = ucast (drop_bit 16 lba AND 0xFF)"

text \<open>The address that an ATA drive in 28-bit mode puts together from them.\<close>

definition drive_address :: "u8 \<Rightarrow> u8 \<Rightarrow> u8 \<Rightarrow> u8 \<Rightarrow> u32" where
  "drive_address head high mid low =
     push_bit 24 (ucast (head AND 0x0F)) OR push_bit 16 (ucast high) OR push_bit 8 (ucast mid) OR ucast low"

definition selected :: "u32 \<Rightarrow> u32" where
  "selected lba = drive_address (lba_head lba) (lba_high lba) (lba_mid lba) (lba_low lba)"

fun words_bytes :: "u16 list \<Rightarrow> bytes" where
  "words_bytes [] = []"
| "words_bytes (w # ws) = ucast (w AND 0xFF) # ucast (drop_bit 8 w AND 0xFF) # words_bytes ws"

fun bytes_words :: "bytes \<Rightarrow> u16 list" where
  "bytes_words (a # b # bs) = (ucast a OR push_bit 8 (ucast b)) # bytes_words bs"
| "bytes_words _ = []"

definition read_sector :: "u32 \<Rightarrow> drive \<Rightarrow> bytes option" where
  "read_sector lba d = (if \<not> DISK_PRESENT d then None else Some (words_bytes (platter d (selected lba))))"

definition write_sector :: "u32 \<Rightarrow> bytes \<Rightarrow> drive \<Rightarrow> bool \<times> drive" where
  "write_sector lba buf d =
     (if \<not> DISK_PRESENT d then (False, d)
      else (True, d\<lparr>platter := (platter d)(selected lba := bytes_words buf)\<rparr>))"

text \<open>\<open>read_sectors\<close> and \<open>write_sectors\<close> on a buffer of the callers; \<open>None\<close> where the result is \<open>false\<close>.\<close>

fun read_run :: "u32 \<Rightarrow> nat \<Rightarrow> drive \<Rightarrow> bytes option" where
  "read_run lba 0 d = Some []"
| "read_run lba (Suc n) d = do { b \<leftarrow> read_sector lba d; bs \<leftarrow> read_run (lba + 1) n d; Some (b @ bs) }"

definition read_sectors :: "u32 \<Rightarrow> u32 \<Rightarrow> nat \<Rightarrow> drive \<Rightarrow> bytes option" where
  "read_sectors lba count buf_len d =
     (if buf_len < unat (count * 512) then None else read_run lba (unat count) d)"

fun write_run :: "u32 \<Rightarrow> nat \<Rightarrow> bytes \<Rightarrow> drive \<Rightarrow> bool \<times> drive" where
  "write_run lba 0 buf d = (True, d)"
| "write_run lba (Suc n) buf d =
     (let (ok, d) = write_sector lba (take 512 buf) d
      in if \<not> ok then (False, d) else write_run (lba + 1) n (drop 512 buf) d)"

definition write_sectors :: "u32 \<Rightarrow> u32 \<Rightarrow> bytes \<Rightarrow> drive \<Rightarrow> bool \<times> drive" where
  "write_sectors lba count buf d =
     (if length buf < unat (count * 512) then (False, d) else write_run lba (unat count) buf d)"

definition drive_ok :: "drive \<Rightarrow> bool" where
  "drive_ok d \<longleftrightarrow> DISK_PRESENT d \<and> (\<forall>a. length (platter d a) = 256)"

lemma length_words_bytes [simp]: "length (words_bytes ws) = 2 * length ws"
  by (induction ws) auto

lemma length_bytes_words: "length (bytes_words bs) = length bs div 2"
  by (induction bs rule: bytes_words.induct) auto

lemma words_bytes_words: "even (length bs) \<Longrightarrow> words_bytes (bytes_words bs) = bs"
proof (induction bs rule: bytes_words.induct)
  case (1 a b bs)
  have n: "\<not> bit a (8 + n)" for n using bit_imp_le_length [of a "8 + n"] by auto
  have "ucast ((ucast a OR push_bit 8 (ucast b) :: u16) AND 0xFF) = a"
    "ucast (drop_bit 8 (ucast a OR push_bit 8 (ucast b) :: u16) AND 0xFF) = b"
    by (auto intro!: bit_word_eqI simp: bit_simps n)
  then show ?case using 1 by simp
qed auto

text \<open>The drive is given the low 28 bits of the sector number; higher ones are lost.\<close>

lemma head_low: "lba_head lba AND 0x0F = ucast (take_bit 4 (drop_bit 24 lba))"
proof -
  have m: "0x0F = (mask 4 :: u8)" "0x0F = (mask 4 :: u32)" by (simp_all add: mask_eq_exp_minus_1)
  have "(0xE0 OR x) AND 0x0F = take_bit 4 x" for x :: u8
  proof -
    have "(0xE0 OR x) AND 0x0F = (0xE0 AND 0x0F) OR (x AND 0x0F)" by (rule bit.conj_disj_distrib2)
    also have "0xE0 AND 0x0F = (0 :: u8)" by code_simp
    finally show ?thesis by (simp add: take_bit_eq_mask m(1))
  qed
  then have "lba_head lba AND 0x0F = take_bit 4 (ucast (drop_bit 24 lba AND 0x0F))" by (simp only: lba_head_def)
  also have "\<dots> = ucast (take_bit 4 (drop_bit 24 lba))"
    by (rule bit_word_eqI) (auto simp: m(2) bit_simps)
  finally show ?thesis .
qed

lemma selected_low28: "selected lba = take_bit 28 lba"
proof (rule bit_word_eqI)
  fix i assume "i < LENGTH(32)"
  then consider "i < 8" | "8 \<le> i \<and> i < 16" | "16 \<le> i \<and> i < 24" | "24 \<le> i \<and> i < 28" | "28 \<le> i \<and> i < 32" by fastforce
  then show "bit (selected lba) i = bit (take_bit 28 lba) i"
    unfolding selected_def drive_address_def head_low
    by cases (auto simp: lba_low_def lba_mid_def lba_high_def bit_simps)
qed

interpretation ata: sector_store drive_ok selected read_sector write_sector
proof
  fix l k :: u32 and d :: drive and b :: bytes
  show "length b = 512" if "drive_ok d" "read_sector l d = Some b"
    using that by (auto simp: read_sector_def drive_ok_def)
  show "read_sector l d \<noteq> None" if "drive_ok d"
    using that by (simp add: read_sector_def drive_ok_def)
  show "fst (write_sector l b d) \<and> drive_ok (snd (write_sector l b d))" if "drive_ok d" "length b = 512"
    using that by (simp add: write_sector_def drive_ok_def length_bytes_words)
  show "read_sector k (snd (write_sector l b d)) = (if selected k = selected l then Some b else read_sector k d)"
    if "drive_ok d" "length b = 512"
    using that by (simp add: read_sector_def write_sector_def drive_ok_def words_bytes_words)
qed

text \<open>What \<open>info\<close> makes of the 256 words of the answer to IDENTIFY.\<close>

definition identify_model :: "u16 list \<Rightarrow> bytes" where
  "identify_model ident = concat (map (\<lambda>i. [ucast (drop_bit 8 (ident ! (27 + i))), ucast (ident ! (27 + i) AND 0xFF)]) [0..<20])"

definition identify_sectors :: "u16 list \<Rightarrow> u64" where
  "identify_sectors ident =
     (if ident ! 83 AND push_bit 10 1 \<noteq> 0
      then ucast (ident ! 100) OR push_bit 16 (ucast (ident ! 101)) OR push_bit 32 (ucast (ident ! 102)) OR push_bit 48 (ucast (ident ! 103))
      else ucast (ident ! 60) OR push_bit 16 (ucast (ident ! 61)))"

definition info :: "u16 list \<Rightarrow> drive \<Rightarrow> bool \<times> u64 \<times> bytes" where
  "info ident d =
     (if \<not> DISK_PRESENT d then (False, 0, replicate 40 0) else (True, identify_sectors ident, identify_model ident))"

section \<open>Looking for a drive\<close>

text \<open>
  The bytes that the status register answers, one after the other, are a function \<open>st\<close>; the reset
  pulses and pauses before have no result.
\<close>

abbreviation (input) STATUS_BSY :: u8 where "STATUS_BSY \<equiv> 0x80"
abbreviation (input) STATUS_DRQ :: u8 where "STATUS_DRQ \<equiv> 0x08"
abbreviation (input) STATUS_ERR :: u8 where "STATUS_ERR \<equiv> 0x01"

function busy_wait :: "(nat \<Rightarrow> u8) \<Rightarrow> nat \<Rightarrow> bytes \<Rightarrow> nat \<times> bytes" where
  "busy_wait st timeout out =
     (if timeout < 5000000 then
        if st timeout AND STATUS_BSY = 0 then (timeout, out)
        else busy_wait st (timeout + 1)
               (if (timeout + 1) mod 0x100000 = 0 then out @ bytes_of ''[ATA] waiting...\<newline>'' else out)
      else (timeout, out))"
  by pat_completeness auto
termination by (relation "measure (\<lambda>(st, timeout, out). 5000000 - timeout)") auto

declare busy_wait.simps [simp del]

definition detect :: "(nat \<Rightarrow> u8) \<Rightarrow> u8 \<Rightarrow> u8 \<Rightarrow> bool \<times> bytes" where
  "detect st mid high =
     (let (timeout, out) = busy_wait st 0 []
      in if timeout \<ge> 5000000 then (False, out @ bytes_of ''[ATA] timeout - no device\<newline>'')
         else if st (timeout + 1) = 0 then (False, out @ bytes_of ''[ATA] status=0 - no device\<newline>'')
         else if mid \<noteq> 0 \<or> high \<noteq> 0 then (False, out @ bytes_of ''[ATA] non-ATA device (ATAPI?)\<newline>'')
         else (True, out @ bytes_of ''[ATA] device detected\<newline>''))"

text \<open>The wait before and after each command: how many answers it reads.\<close>

function poll_drq :: "(nat \<Rightarrow> u8) \<Rightarrow> nat \<Rightarrow> nat" where
  "poll_drq st timeout =
     (if st timeout AND STATUS_BSY = 0 \<and> st timeout AND (STATUS_DRQ OR STATUS_ERR) \<noteq> 0 then timeout + 1
      else if st timeout AND STATUS_BSY = 0 \<and> st timeout AND STATUS_DRQ \<noteq> 0 then timeout + 1
      else if timeout + 1 > 1000000 then timeout + 1
      else poll_drq st (timeout + 1))"
  by pat_completeness auto
termination by (relation "measure (\<lambda>(st, timeout). 1000001 - timeout)") auto

declare poll_drq.simps [simp del]

lemma poll_drq_bounded: "timeout \<le> 1000000 \<Longrightarrow> poll_drq st timeout \<le> 1000001"
proof (induction st timeout rule: poll_drq.induct)
  case (1 st timeout)
  then show ?case by (subst poll_drq.simps) simp
qed

lemma detect_ready: "st 0 AND STATUS_BSY = 0 \<Longrightarrow> st 1 \<noteq> 0 \<Longrightarrow> fst (detect st 0 0)"
  by (simp add: detect_def busy_wait.simps [of st 0])

section \<open>The file system on disk\<close>

abbreviation (input) SUPER_MAGIC :: u32 where "SUPER_MAGIC \<equiv> 0x50555245"
abbreviation (input) SUPER_SECTOR :: u32 where "SUPER_SECTOR \<equiv> 0"
abbreviation (input) INODE_BITMAP_SECTOR :: u32 where "INODE_BITMAP_SECTOR \<equiv> 1"
abbreviation (input) BLOCK_BITMAP_SECTOR :: u32 where "BLOCK_BITMAP_SECTOR \<equiv> 2"
abbreviation (input) INODE_TABLE_START :: u32 where "INODE_TABLE_START \<equiv> 3"
abbreviation (input) INODE_TABLE_SECTORS :: u32 where "INODE_TABLE_SECTORS \<equiv> 4"
abbreviation (input) DATA_START_SECTOR :: u32 where "DATA_START_SECTOR \<equiv> 7"
abbreviation (input) MAX_INODES :: u32 where "MAX_INODES \<equiv> 64"
abbreviation (input) INODE_FREE :: u8 where "INODE_FREE \<equiv> 0"
abbreviation (input) INODE_DIR :: u8 where "INODE_DIR \<equiv> 2"

record inode =
  ino_kind :: u8
  ino_name_len :: u8
  ino_name :: bytes
  ino_data_block :: u32
  ino_data_size :: u32

text \<open>
  The layout that \<open>repr(C)\<close> gives the structure: two bytes of padding align \<open>data_block\<close>, and two at
  the end make the size a multiple of four, so that an inode takes 44 bytes. Padding is written
  as zeros.
\<close>

abbreviation (input) INODE_SIZE :: u32 where "INODE_SIZE \<equiv> 44"

definition inode_bytes :: "inode \<Rightarrow> bytes" where
  "inode_bytes n = [ino_kind n, ino_name_len n] @ ino_name n @ [0, 0] @ to_le 4 (ino_data_block n) @
     to_le 4 (ino_data_size n) @ replicate 4 0"

definition inode_of :: "bytes \<Rightarrow> inode" where
  "inode_of b = \<lparr>ino_kind = b ! 0, ino_name_len = b ! 1, ino_name = take 28 (drop 2 b),
     ino_data_block = from_le (take 4 (drop 32 b)), ino_data_size = from_le (take 4 (drop 36 b))\<rparr>"

definition inode_sector :: "u32 \<Rightarrow> u32" where
  "inode_sector num = INODE_TABLE_START + num * INODE_SIZE div 512"

definition inode_off :: "u32 \<Rightarrow> nat" where
  "inode_off num = unat (num * INODE_SIZE mod 512)"

text \<open>The outer option is the access beyond the buffer, the inner one the result of the function.\<close>

definition read_inode :: "u32 \<Rightarrow> drive \<Rightarrow> inode option res" where
  "read_inode num d =
     (if num \<ge> MAX_INODES then Some None
      else case read_sector (inode_sector num) d of
        None \<Rightarrow> Some None
      | Some buf \<Rightarrow>
          if inode_off num + 44 > 512 then None
          else let n = inode_of (drop (inode_off num) buf)
               in Some (if ino_kind n = INODE_FREE then None else Some n))"

definition write_sector_raw :: "u32 \<Rightarrow> bytes \<Rightarrow> drive \<Rightarrow> drive" where
  "write_sector_raw sector data d =
     snd (write_sector sector (take 512 data @ replicate (512 - length data) 0) d)"

definition write_inode :: "u32 \<Rightarrow> inode \<Rightarrow> drive \<Rightarrow> (bool \<times> drive) res" where
  "write_inode num n d =
     (if num \<ge> MAX_INODES then Some (False, d)
      else let buf = (case read_sector (inode_sector num) d of None \<Rightarrow> replicate 512 0 | Some b \<Rightarrow> b); off = inode_off num
      in if off + 44 > 512 then None
         else Some (True, write_sector_raw (inode_sector num) (take off buf @ inode_bytes n @ drop (off + 44) buf) d))"

definition read_block :: "u32 \<Rightarrow> drive \<Rightarrow> bytes option" where
  "read_block b d = read_sector (DATA_START_SECTOR + b) d"

definition write_block :: "u32 \<Rightarrow> bytes \<Rightarrow> drive \<Rightarrow> bool \<times> drive" where
  "write_block b buf d = write_sector (DATA_START_SECTOR + b) buf d"

section \<open>Formatting and mounting\<close>

definition superblock :: bytes where
  "superblock = to_le 4 SUPER_MAGIC @ to_le 4 (1 :: u32) @ to_le 4 MAX_INODES @ to_le 4 (65536 :: u32) @
     to_le 4 INODE_TABLE_SECTORS @ to_le 4 DATA_START_SECTOR @ replicate 488 0"

definition root_inode :: inode where
  "root_inode = \<lparr>ino_kind = INODE_DIR, ino_name_len = 1, ino_name = slash # replicate 27 0, ino_data_block = 0, ino_data_size = 0\<rparr>"

definition dev_inode :: inode where
  "dev_inode = \<lparr>ino_kind = INODE_DIR, ino_name_len = 3, ino_name = bytes_of ''dev'' @ replicate 25 0, ino_data_block = 0, ino_data_size = 0\<rparr>"

definition inode_bitmap :: bytes where
  "inode_bitmap = (replicate 512 0)[0 := 0x01, 1 := 0x01]"

definition block_bitmap :: bytes where
  "block_bitmap = fold (\<lambda>b m. m[b div 8 := m ! (b div 8) OR push_bit (b mod 8) 1]) [0..<7] (replicate 512 0)"

definition format :: "drive \<Rightarrow> drive res" where
  "format d = do {
     let d = write_sector_raw SUPER_SECTOR superblock d;
     let d = write_sector_raw INODE_BITMAP_SECTOR inode_bitmap d;
     let d = write_sector_raw BLOCK_BITMAP_SECTOR block_bitmap d;
     (_, d) \<leftarrow> write_inode 0 root_inode d;
     (_, d) \<leftarrow> write_inode 1 dev_inode d;
     Some d
   }"

text \<open>
  The result is whether the file system is mounted, what goes to the serial port, and the drive.
  \<open>st\<close>, \<open>mid\<close> and \<open>high\<close> are what the controller answers while \<open>ata::init\<close> looks for it.
\<close>

definition blk_init :: "bool \<Rightarrow> (nat \<Rightarrow> u8) \<Rightarrow> u8 \<Rightarrow> u8 \<Rightarrow> drive \<Rightarrow> (bool \<times> bytes \<times> drive) res" where
  "blk_init mounted st mid high d =
     (if mounted then Some (True, [], d)
      else let (present, out) = detect st mid high; d = d\<lparr>DISK_PRESENT := present\<rparr>
      in if \<not> DISK_PRESENT d then Some (False, out @ bytes_of ''[BLKFS] no disk present, skipping\<newline>'', d)
      else case read_sector SUPER_SECTOR d of
        None \<Rightarrow> Some (False, out @ bytes_of ''[BLKFS] cannot read superblock\<newline>'', d)
      | Some sb \<Rightarrow>
          if (from_le (take 4 sb) :: u32) \<noteq> SUPER_MAGIC
          then do {
            d \<leftarrow> format d;
            Some (True, out @ bytes_of ''[BLKFS] no filesystem, formatting...\<newline>'' @ bytes_of ''[BLKFS] format done\<newline>'', d)
          }
          else Some (True, out @ bytes_of ''[BLKFS] valid superblock, mounting\<newline>'', d))"

section \<open>Inodes\<close>

lemma inode_bytes_length: "length (ino_name n) = 28 \<Longrightarrow> length (inode_bytes n) = 44"
  by (simp add: inode_bytes_def)

lemma inode_of_bytes: "length (ino_name n) = 28 \<Longrightarrow> inode_of (inode_bytes n @ rest) = n"
proof -
  assume l: "length (ino_name n) = 28"
  have "take 4 (drop 32 (inode_bytes n @ rest)) = to_le 4 (ino_data_block n)"
    "take 4 (drop 36 (inode_bytes n @ rest)) = to_le 4 (ino_data_size n)"
    using l by (simp_all add: inode_bytes_def)
  then have "(from_le (take 4 (drop 32 (inode_bytes n @ rest))) :: u32) = ino_data_block n"
    "(from_le (take 4 (drop 36 (inode_bytes n @ rest))) :: u32) = ino_data_size n"
    by simp_all
  moreover have "take 28 (drop 2 (inode_bytes n @ rest)) = ino_name n" "(inode_bytes n @ rest) ! 0 = ino_kind n"
    "(inode_bytes n @ rest) ! 1 = ino_name_len n"
    using l by (simp_all add: inode_bytes_def)
  ultimately show ?thesis unfolding inode_of_def by simp
qed

text \<open>An inode is decoded from its 44 bytes.\<close>

lemma inode_of_take: "44 \<le> length b \<Longrightarrow> inode_of b = inode_of (take 44 b)"
proof -
  assume l: "44 \<le> length b"
  have f: "take 28 (drop 2 (take 44 b)) = take 28 (drop 2 b)" "take 4 (drop 32 (take 44 b)) = take 4 (drop 32 b)"
    "take 4 (drop 36 (take 44 b)) = take 4 (drop 36 b)"
    by (simp_all add: drop_take)
  have h: "take 44 b ! 0 = b ! 0" "take 44 b ! 1 = b ! 1" by simp_all
  show ?thesis unfolding inode_of_def f h by (rule refl)
qed

lemma inode_of_slice:
  "44 \<le> length (drop i a) \<Longrightarrow> 44 \<le> length (drop i b) \<Longrightarrow> take 44 (drop i a) = take 44 (drop i b) \<Longrightarrow>
     inode_of (drop i a) = inode_of (drop i b)"
  using inode_of_take by metis

definition inode_fits :: "u32 \<Rightarrow> bool" where
  "inode_fits num \<longleftrightarrow> num < MAX_INODES \<and> inode_off num + 44 \<le> 512"

lemma inode_place:
  assumes "num < 64"
  shows "unat (inode_sector num) = 3 + unat num * 44 div 512" "inode_off num = unat num * 44 mod 512"
    "selected (inode_sector num) = inode_sector num"
proof -
  have n: "unat num < 64" using assms by (simp add: word_less_nat_alt)
  have m: "unat (num * 44) = unat num * 44" using n by (subst unat_mult_lem [THEN iffD1]) simp_all
  have d: "unat (num * 44 div 512) = unat num * 44 div 512" by (simp add: unat_div m)
  have u: "unat num * 44 div 512 < 6" using n by simp
  then show s: "unat (inode_sector num) = 3 + unat num * 44 div 512"
    unfolding inode_sector_def d [symmetric] by (subst unat_add_lem [THEN iffD1]) simp_all
  show "inode_off num = unat num * 44 mod 512" by (simp add: inode_off_def unat_mod m)
  have "unat (inode_sector num) < 2 ^ 28" using s u by simp
  then show "selected (inode_sector num) = inode_sector num"
    by (simp add: selected_low28 word_unat_eq_iff unsigned_take_bit_eq take_bit_nat_eq_self)
qed

text \<open>Two inodes of one sector lie apart.\<close>

lemma inodes_apart:
  assumes "n < 64" "m < 64" "n \<noteq> m" "inode_sector n = inode_sector m"
  shows "inode_off m + 44 \<le> inode_off n \<or> inode_off n + 44 \<le> inode_off m"
proof -
  note p = inode_place [OF assms(1)] inode_place [OF assms(2)]
  have "unat n * 44 div 512 = unat m * 44 div 512" using p assms(4) by simp
  then obtain q where q: "unat n * 44 = q * 512 + inode_off n" "unat m * 44 = q * 512 + inode_off m"
    using p div_mult_mod_eq [of "unat n * 44" 512] div_mult_mod_eq [of "unat m * 44" 512] by metis
  have "unat n \<noteq> unat m" using assms(3) by (simp add: word_unat_eq_iff)
  then consider "unat n + 1 \<le> unat m" | "unat m + 1 \<le> unat n" by linarith
  then show ?thesis
    using q by cases linarith+
qed

lemma inode_stored:
  assumes "drive_ok d" "inode_fits num" "length (ino_name n) = 28" "ino_kind n \<noteq> INODE_FREE"
  shows "\<exists>d'. write_inode num n d = Some (True, d') \<and> drive_ok d' \<and> read_inode num d' = Some (Some n) \<and>
     (\<forall>m. inode_fits m \<longrightarrow> m \<noteq> num \<longrightarrow> read_inode m d' = read_inode m d)"
proof -
  have f: "num < 64" "inode_off num + 44 \<le> 512" using assms(2) by (auto simp: inode_fits_def)
  have xl: "length (inode_bytes n) = 44" by (rule inode_bytes_length [OF assms(3)])
  obtain b where b: "read_sector (inode_sector num) d = Some b" using ata.read_ready [OF assms(1)] by blast
  have bl: "length b = 512" by (rule ata.read_length [OF assms(1) b])
  let ?new = "take (inode_off num) b @ inode_bytes n @ drop (inode_off num + 44) b"
  let ?d = "snd (write_sector (inode_sector num) ?new d)"
  have nl: "length ?new = 512" using bl xl f by simp
  have w: "write_inode num n d = Some (True, ?d)"
    using f b nl by (simp add: write_inode_def write_sector_raw_def Let_def not_le)
  have ok: "drive_ok ?d" using ata.write_ready [OF assms(1) nl] by blast
  have rb: "read_sector (inode_sector num) ?d = Some ?new" by (rule ata.read_back [OF assms(1) nl])
  have x: "inode_off num + length (inode_bytes n) \<le> length b" using f bl xl by simp
  have "drop (inode_off num) ?new = inode_bytes n @ drop (inode_off num + 44) b" using bl f by simp
  then have "read_inode num ?d = Some (Some n)"
    using f rb assms(4) inode_of_bytes [OF assms(3)] by (simp add: read_inode_def Let_def not_le)
  moreover have "read_inode m ?d = read_inode m d" if m: "inode_fits m" "m \<noteq> num" for m
  proof (cases "inode_sector m = inode_sector num")
    case True
    have mf: "m < 64" "inode_off m + 44 \<le> 512" using m(1) by (auto simp: inode_fits_def)
    have "take 44 (drop (inode_off m) ?new) = take 44 (drop (inode_off m) b)"
      using inodes_apart [OF mf(1) f(1) m(2) True] slice_patch(2,3) [OF x, of "inode_off m" 44] xl by auto
    then have "inode_of (drop (inode_off m) ?new) = inode_of (drop (inode_off m) b)"
      by (intro inode_of_slice) (use mf nl bl in \<open>simp_all only: length_drop\<close>)
    then show ?thesis using True rb b by (simp add: read_inode_def Let_def)
  next
    case False
    have "m < 64" using m(1) by (simp add: inode_fits_def)
    then have "selected (inode_sector m) \<noteq> selected (inode_sector num)" using False inode_place(3) f(1) by simp
    then have "read_sector (inode_sector m) ?d = read_sector (inode_sector m) d"
      using ata.read_write [OF assms(1) nl] by simp
    then show ?thesis by (simp add: read_inode_def)
  qed
  ultimately show ?thesis using w ok by blast
qed

text \<open>
  C14: storing an inode. On a working drive, an inode that does not straddle two sectors is read
  back as it was written, and every other such inode reads as before.
\<close>

theorem blockfs_inode_roundtrip:
  assumes "drive_ok d" "inode_fits num" "length (ino_name n) = 28" "ino_kind n \<noteq> INODE_FREE"
  shows "\<exists>d'. write_inode num n d = Some (True, d') \<and> drive_ok d' \<and> read_inode num d' = Some (Some n) \<and>
     (\<forall>m. inode_fits m \<longrightarrow> m \<noteq> num \<longrightarrow> read_inode m d' = read_inode m d)"
  by (rule inode_stored [OF assms])

definition blank_disk :: drive where
  "blank_disk = \<lparr>DISK_PRESENT = True, platter = (\<lambda>_. replicate 256 0)\<rparr>"

theorem blockfs_inode_roundtrip_witness:
  "\<exists>d'. write_inode 1 dev_inode blank_disk = Some (True, d') \<and> read_inode 1 d' = Some (Some dev_inode)"
proof -
  have "drive_ok blank_disk" by (simp add: drive_ok_def blank_disk_def)
  moreover have "inode_fits 1" by (simp add: inode_fits_def inode_off_def)
  moreover have "length (ino_name dev_inode) = 28" "ino_kind dev_inode \<noteq> INODE_FREE"
    by (simp_all add: dev_inode_def bytes_of_def)
  ultimately show ?thesis using blockfs_inode_roundtrip [of blank_disk 1 dev_inode] by blast
qed

text \<open>
  C38: where the inode table breaks. The code counts 32 bytes for an inode, but the structure takes
  44. Five of the inodes straddle two sectors: reading or writing one goes beyond the sector buffer.
  From inode 47 on the table reaches into the data blocks: whatever is stored in the block becomes
  the inode.
\<close>

theorem blockfs_layout_errors:
  assumes "drive_ok d"
  shows "(\<forall>num \<in> {11, 23, 34, 46, 58}. read_inode num d = None \<and> (\<forall>n. write_inode num n d = None)) \<and>
    (\<forall>num buf. inode_fits num \<longrightarrow> 47 \<le> num \<longrightarrow> length buf = 512 \<longrightarrow>
      read_inode num (snd (write_block (inode_sector num - DATA_START_SECTOR) buf d)) =
        Some (let i = inode_of (drop (inode_off num) buf) in if ino_kind i = INODE_FREE then None else Some i))"
proof (intro conjI ballI allI impI)
  fix num :: u32 and n assume "num \<in> {11, 23, 34, 46, 58}"
  then have n: "num < 64" "inode_off num + 44 > 512" by (auto simp: inode_off_def)
  obtain b where b: "read_sector (inode_sector num) d = Some b" using ata.read_ready [OF assms] by blast
  show "read_inode num d = None" "write_inode num n d = None"
    using n b by (simp_all add: read_inode_def write_inode_def not_le Let_def)
next
  fix num :: u32 and buf :: bytes
  assume a: "inode_fits num" "47 \<le> num" "length buf = 512"
  have "read_sector (inode_sector num) (snd (write_sector (inode_sector num) buf d)) = Some buf"
    by (rule ata.read_back [OF assms a(3)])
  then show "read_inode num (snd (write_block (inode_sector num - DATA_START_SECTOR) buf d)) =
      Some (let i = inode_of (drop (inode_off num) buf) in if ino_kind i = INODE_FREE then None else Some i)"
    using a(1) by (simp add: read_inode_def write_block_def inode_fits_def Let_def not_le not_less)
qed

theorem blockfs_layout_errors_witness:
  "read_inode 11 blank_disk = None \<and>
   read_inode 47 (snd (write_block 0 (replicate 512 1) blank_disk)) = Some (Some (inode_of (replicate 492 1)))"
proof -
  have d: "drive_ok blank_disk" by (simp add: drive_ok_def blank_disk_def)
  have f: "inode_fits 47" "inode_sector 47 = 7" "inode_off 47 = 20" by (simp_all add: inode_fits_def inode_off_def inode_sector_def)
  have k: "ino_kind (inode_of (replicate 492 1)) = 1" by (simp add: inode_of_def)
  note t = blockfs_layout_errors [OF d]
  have "read_inode 47 (snd (write_block (inode_sector 47 - 7) (replicate 512 1) blank_disk)) =
      Some (let i = inode_of (drop (inode_off 47) (replicate 512 1)) in if ino_kind i = INODE_FREE then None else Some i)"
    by (rule t [THEN conjunct2, rule_format]) (use f in simp_all)
  moreover have "read_inode 11 blank_disk = None" using t [THEN conjunct1] by simp
  ultimately show ?thesis by (simp add: f k Let_def)
qed

lemma superblock_length: "length superblock = 512"
  by (simp add: superblock_def)

lemma superblock_magic: "(from_le (take 4 superblock) :: u32) = SUPER_MAGIC"
  by (simp add: superblock_def)

lemma write_raw:
  assumes "drive_ok d" "length b = 512"
  shows "drive_ok (write_sector_raw l b d)"
    and "read_sector k (write_sector_raw l b d) = (if selected k = selected l then Some b else read_sector k d)"
  using ata.write_ready [OF assms] ata.read_write [OF assms] assms(2) by (simp_all add: write_sector_raw_def)

text \<open>Writing an inode leaves the sectors before the table alone.\<close>

lemma write_inode_keeps:
  assumes "drive_ok d" "inode_fits num" "length (ino_name n) = 28" "write_inode num n d = Some (ok, d')" "k < 3"
  shows "read_sector k d' = read_sector k d"
proof -
  have f: "num < 64" "inode_off num + 44 \<le> 512" using assms(2) by (auto simp: inode_fits_def)
  have p: "unat (inode_sector num) \<ge> 3" using inode_place(1) [OF f(1)] by simp
  obtain b where b: "read_sector (inode_sector num) d = Some b" using ata.read_ready [OF assms(1)] by blast
  have bl: "length b = 512" by (rule ata.read_length [OF assms(1) b])
  let ?new = "take (inode_off num) b @ inode_bytes n @ drop (inode_off num + 44) b"
  have nl: "length ?new = 512" using bl inode_bytes_length [OF assms(3)] f by simp
  have d': "d' = write_sector_raw (inode_sector num) ?new d"
    using assms(4) b f(2) linorder_not_le [THEN iffD2, OF f(1)] leD [OF f(2)] by (simp add: write_inode_def Let_def)
  have k: "unat k < 3" using assms(5) by (simp add: word_less_nat_alt)
  then have "selected k = k" by (simp add: selected_low28 word_unat_eq_iff unsigned_take_bit_eq take_bit_nat_eq_self)
  then have "selected k \<noteq> selected (inode_sector num)" using p k inode_place(3) [OF f(1)] by auto
  then show ?thesis unfolding d' using write_raw(2) [OF assms(1) nl] by simp
qed

text \<open>
  formatting. On a working drive without a PureOS superblock, mounting formats it: the root
  directory and \<open>/dev\<close> are inodes 0 and 1, and the next start finds the superblock and mounts the
  drive as it is.
\<close>

theorem blockfs_format_mounts:
  assumes "drive_ok d" "read_sector 0 d = Some sb" "(from_le (take 4 sb) :: u32) \<noteq> SUPER_MAGIC" "fst (detect st mid high)"
  shows "\<exists>d' msg msg'. blk_init False st mid high d = Some (True, msg, d') \<and> drive_ok d' \<and>
    read_inode 0 d' = Some (Some root_inode) \<and> read_inode 1 d' = Some (Some dev_inode) \<and>
    blk_init False st mid high d' = Some (True, msg', d')"
proof -
  have lens: "length superblock = 512" "length inode_bitmap = 512" "length block_bitmap = 512"
    by (simp_all add: superblock_length inode_bitmap_def block_bitmap_def upt_rec)
  define d3 where "d3 = write_sector_raw BLOCK_BITMAP_SECTOR block_bitmap
    (write_sector_raw INODE_BITMAP_SECTOR inode_bitmap (write_sector_raw SUPER_SECTOR superblock d))"
  have ok: "drive_ok d3" unfolding d3_def by (intro write_raw(1) assms(1) lens)
  have sel: "selected 0 = 0" "selected 1 = 1" "selected 2 = 2" by (simp_all add: selected_low28)
  have s3: "read_sector 0 d3 = Some superblock"
    unfolding d3_def by (simp add: write_raw assms(1) lens sel)
  have fits: "inode_fits 0" "inode_fits 1" by (simp_all add: inode_fits_def inode_off_def)
  have ns: "length (ino_name root_inode) = 28" "length (ino_name dev_inode) = 28"
    "ino_kind root_inode \<noteq> INODE_FREE" "ino_kind dev_inode \<noteq> INODE_FREE"
    by (simp_all add: root_inode_def dev_inode_def bytes_of_def)
  obtain d4 where d4: "write_inode 0 root_inode d3 = Some (True, d4)" "drive_ok d4" "read_inode 0 d4 = Some (Some root_inode)"
    using inode_stored [OF ok fits(1) ns(1,3)] by blast
  obtain d5 where d5: "write_inode 1 dev_inode d4 = Some (True, d5)" "drive_ok d5" "read_inode 1 d5 = Some (Some dev_inode)"
    "read_inode 0 d5 = read_inode 0 d4"
    using inode_stored [OF d4(2) fits(2) ns(2,4)] fits(1) by (metis zero_neq_one)
  have s5: "read_sector 0 d5 = Some superblock"
    using write_inode_keeps [OF ok fits(1) ns(1) d4(1), of 0] write_inode_keeps [OF d4(2) fits(2) ns(2) d5(1), of 0] s3 by simp
  have f: "format d = Some d5" unfolding format_def by (simp add: d3_def [symmetric] d4(1) d5(1) Let_def)
  have "DISK_PRESENT d" "DISK_PRESENT d5" using assms(1) d5(2) by (simp_all add: drive_ok_def)
  then have p: "d\<lparr>DISK_PRESENT := True\<rparr> = d" "d5\<lparr>DISK_PRESENT := True\<rparr> = d5" by simp_all
  obtain out where "detect st mid high = (True, out)" using assms(4) by (metis prod.collapse)
  then show ?thesis using assms(2,3) p f d4 d5 s5 superblock_magic by (simp add: blk_init_def)
qed

theorem blockfs_format_mounts_witness:
  "\<exists>d' msg. blk_init False (\<lambda>_. 0x50) 0 0 blank_disk = Some (True, msg, d') \<and> read_inode 1 d' = Some (Some dev_inode)"
proof -
  have d: "drive_ok blank_disk" by (simp add: drive_ok_def blank_disk_def)
  obtain sb where sb: "read_sector 0 blank_disk = Some sb" using ata.read_ready [OF d] by blast
  have z: "words_bytes (replicate (Suc n) 0) = 0 # 0 # words_bytes (replicate n 0)" for n by simp
  have "sb = words_bytes (replicate (Suc (Suc 254)) 0)" using sb by (simp add: read_sector_def blank_disk_def)
  then have "take 4 sb = [0, 0, 0, 0]" unfolding z by simp
  moreover have "(from_le [0, 0, 0, 0] :: u32) \<noteq> SUPER_MAGIC" by code_simp
  ultimately have "(from_le (take 4 sb) :: u32) \<noteq> SUPER_MAGIC" by simp
  moreover have "fst (detect (\<lambda>_. 0x50) 0 0)" by (rule detect_ready) simp_all
  ultimately show ?thesis using blockfs_format_mounts [OF d sb] by blast
qed

end
