(* ===== verification/Window.thy ===== *)
theory Window
  imports Graphics
begin

unbundle bit_operations_syntax

text \<open>
  The window manager of \<open>src/kernel/src/window.rs\<close>: the table of windows, their stacking order, the mouse and the
  drawing of frames and contents over the framebuffer. The state extends the framebuffer's record. A window that is
  minimised has the state \<open>Closed\<close> and the mark \<open>minimized\<close>; slots are found by the state alone.

  Signed coordinates are integers that wrap at 32 bits; unsigned ones are words.
\<close>

section \<open>State\<close>

datatype win_state = Closed | Opened

record window =
  win_id :: u32
  win_state :: win_state
  win_title :: bytes
  win_x :: u32
  win_y :: u32
  win_w :: u32
  win_h :: u32
  content_x :: u32
  content_y :: u32
  content_w :: u32
  content_h :: u32
  dragging :: bool
  drag_off_x :: int
  drag_off_y :: int
  close_hover :: bool
  min_hover :: bool
  minimized :: bool
  saved_x :: u32
  saved_y :: u32
  resizing :: bool
  resize_dir :: u8
  win_z :: u32

datatype app_kind = App_none | App_terminal | App_snake | App_paint | App_files | App_settings | App_desktop

record wm = fbuf +
  WINDOWS :: "window list"
  WINDOW_COUNT :: nat
  NEXT_ID :: u32
  TOP_Z :: u32
  WIN_BG_BUF :: "u32 list"
  WINDOW_APPS :: "app_kind list"
  WINDOW_DIRTY :: "bool list"
  TERM_BUF :: "bytes list"
  TERM_BUF_ROW :: nat
  TERM_BUF_COL :: nat
  TERM_BUF_WIN_ID :: u32

abbreviation (input) MAX_WINDOWS :: nat where "MAX_WINDOWS \<equiv> 8"
abbreviation (input) WIN_RADIUS :: u32 where "WIN_RADIUS \<equiv> 14"
abbreviation (input) TITLE_H :: u32 where "TITLE_H \<equiv> 28"
abbreviation (input) CONTENT_PAD :: u32 where "CONTENT_PAD \<equiv> 2"
abbreviation (input) TITLE_BG :: rgb where "TITLE_BG \<equiv> (55, 65, 58)"
abbreviation (input) TITLE_FG :: rgb where "TITLE_FG \<equiv> (230, 240, 230)"
abbreviation (input) WIN_BORDER :: rgb where "WIN_BORDER \<equiv> (180, 195, 185)"
abbreviation (input) WIN_BG :: rgb where "WIN_BG \<equiv> (30, 35, 32)"
abbreviation (input) SHADOW_COLOR :: rgb where "SHADOW_COLOR \<equiv> (20, 25, 22)"
abbreviation (input) RESIZE_HANDLE_COLOR :: rgb where "RESIZE_HANDLE_COLOR \<equiv> (150, 165, 155)"
abbreviation (input) TERM_BUF_ROWS :: nat where "TERM_BUF_ROWS \<equiv> 16"
abbreviation (input) TERM_BUF_COLS :: nat where "TERM_BUF_COLS \<equiv> 32"
abbreviation (input) blank :: u8 where "blank \<equiv> 0x20"

definition no_window :: window where
  "no_window = \<lparr>win_id = 0, win_state = Closed, win_title = [], win_x = 0, win_y = 0, win_w = 0, win_h = 0,
     content_x = 0, content_y = 0, content_w = 0, content_h = 0, dragging = False, drag_off_x = 0, drag_off_y = 0,
     close_hover = False, min_hover = False, minimized = False, saved_x = 0, saved_y = 0, resizing = False,
     resize_dir = 0, win_z = 0\<rparr>"

definition wm_boot :: "fbuf \<Rightarrow> wm" where
  "wm_boot f = fbuf.extend f (wm.fields (replicate 8 no_window) 0 1 0 (replicate (256 * 256) 0) (replicate 8 App_none)
     (replicate 8 False) (replicate 16 (replicate 32 blank)) 0 0 0)"

definition wm_init :: "wm \<Rightarrow> wm" where
  "wm_init s = s\<lparr>WINDOW_COUNT := 0, NEXT_ID := 1, TOP_Z := 0,
     WINDOWS := map (\<lambda>w. w\<lparr>win_state := Closed, dragging := False\<rparr>) (WINDOWS s)\<rparr>"

section \<open>The table\<close>

definition win_at :: "wm \<Rightarrow> nat \<Rightarrow> window" where "win_at s i = WINDOWS s ! i"

definition win_upd :: "nat \<Rightarrow> (window \<Rightarrow> window) \<Rightarrow> wm \<Rightarrow> wm" where
  "win_upd i f s = s\<lparr>WINDOWS := (WINDOWS s)[i := f (WINDOWS s ! i)]\<rparr>"

definition is_open :: "window \<Rightarrow> bool" where "is_open w \<longleftrightarrow> win_state w = Opened"

text \<open>Open or minimised: the windows that can be found by their number.\<close>

definition known :: "window \<Rightarrow> bool" where "known w \<longleftrightarrow> is_open w \<or> minimized w"

definition find_slot :: "wm \<Rightarrow> nat option" where
  "find_slot s = find_first (\<lambda>i. win_state (win_at s i) = Closed) [0..<8]"

definition find_by_id :: "u32 \<Rightarrow> wm \<Rightarrow> nat option" where
  "find_by_id n s = find_first (\<lambda>i. win_id (win_at s i) = n \<and> known (win_at s i)) [0..<8]"

definition find_open_by_id :: "u32 \<Rightarrow> wm \<Rightarrow> nat option" where
  "find_open_by_id n s = find_first (\<lambda>i. win_id (win_at s i) = n \<and> is_open (win_at s i)) [0..<8]"

definition inner_w :: "u32 \<Rightarrow> u32" where
  "inner_w w = (if w > CONTENT_PAD * 2 then w - CONTENT_PAD * 2 else 1)"

definition inner_h :: "u32 \<Rightarrow> u32" where
  "inner_h h = (if h > TITLE_H + CONTENT_PAD * 2 then h - TITLE_H - CONTENT_PAD * 2 else 1)"

definition new_window :: "u32 \<Rightarrow> u32 \<Rightarrow> bytes \<Rightarrow> u32 \<Rightarrow> u32 \<Rightarrow> u32 \<Rightarrow> u32 \<Rightarrow> window" where
  "new_window n z title x y w h = \<lparr>win_id = n, win_state = Opened, win_title = title, win_x = x, win_y = y, win_w = w, win_h = h,
     content_x = x + CONTENT_PAD, content_y = y + TITLE_H + CONTENT_PAD, content_w = inner_w w, content_h = inner_h h,
     dragging = False, drag_off_x = 0, drag_off_y = 0, close_hover = False, min_hover = False, minimized = False,
     saved_x = x, saved_y = y, resizing = False, resize_dir = 0, win_z = z\<rparr>"

definition win_create :: "bytes \<Rightarrow> u32 \<Rightarrow> u32 \<Rightarrow> u32 \<Rightarrow> u32 \<Rightarrow> wm \<Rightarrow> int \<times> wm" where
  "win_create title x y w h s =
     (case find_slot s of
        None \<Rightarrow> (- 1, s)
      | Some slot \<Rightarrow>
          let n = NEXT_ID s; s = s\<lparr>NEXT_ID := n + 1, TOP_Z := TOP_Z s + 1\<rparr>
          in (as_i32 n, win_upd slot (\<lambda>_. new_window n (TOP_Z s) title x y w h) s))"

definition win_close :: "u32 \<Rightarrow> wm \<Rightarrow> wm" where
  "win_close n s = (case find_by_id n s of None \<Rightarrow> s | Some slot \<Rightarrow> win_upd slot (\<lambda>w. w\<lparr>win_state := Closed\<rparr>) s)"

definition bring_to_front :: "u32 \<Rightarrow> wm \<Rightarrow> wm" where
  "bring_to_front n s =
     (case find_by_id n s of
        None \<Rightarrow> s
      | Some slot \<Rightarrow> let s = s\<lparr>TOP_Z := TOP_Z s + 1\<rparr> in win_upd slot (\<lambda>w. w\<lparr>win_z := TOP_Z s\<rparr>) s)"

definition win_get :: "u32 \<Rightarrow> wm \<Rightarrow> window option" where
  "win_get n s = map_option (win_at s) (find_by_id n s)"

definition content_rect :: "u32 \<Rightarrow> wm \<Rightarrow> (u32 \<times> u32 \<times> u32 \<times> u32) option" where
  "content_rect n s =
     map_option (\<lambda>i. let w = win_at s i in (content_x w, content_y w, content_w w, content_h w)) (find_open_by_id n s)"

definition open_count :: "wm \<Rightarrow> nat" where
  "open_count s = length (filter (\<lambda>i. known (win_at s i)) [0..<8])"

definition visible_count :: "wm \<Rightarrow> nat" where
  "visible_count s = length (filter (\<lambda>i. is_open (win_at s i)) [0..<8])"

definition is_minimized :: "u32 \<Rightarrow> wm \<Rightarrow> bool" where
  "is_minimized n s =
     (case find_first (\<lambda>i. win_id (win_at s i) = n) [0..<8] of None \<Rightarrow> False | Some i \<Rightarrow> minimized (win_at s i))"

definition window_id_at :: "nat \<Rightarrow> wm \<Rightarrow> u32 option" where
  "window_id_at idx s =
     (let known_slots = filter (\<lambda>i. known (win_at s i)) [0..<8]
      in if idx < length known_slots then Some (win_id (win_at s (known_slots ! idx))) else None)"

section \<open>What lies under a window\<close>

text \<open>The loops visit at most 256 columns and rows, so that the index stays in the buffer.\<close>

definition bg_cells :: "window \<Rightarrow> (nat \<times> nat) list" where
  "bg_cells w = concat (map (\<lambda>row. map (\<lambda>col. (row, col)) [0..<unat (min 256 (win_w w))]) [0..<unat (min 256 (win_h w))])"

definition save_window_bg :: "nat \<Rightarrow> wm \<Rightarrow> wm" where
  "save_window_bg slot s =
     (let w = win_at s slot
      in fold (\<lambda>(row, col) s.
           case fb_get (win_x w + word_of_nat col) (win_y w + word_of_nat row) s of
             None \<Rightarrow> s
           | Some (r, g, b) \<Rightarrow> s\<lparr>WIN_BG_BUF := (WIN_BG_BUF s)[row * 256 + col :=
               ucast r OR push_bit 8 (ucast g) OR push_bit 16 (ucast b)]\<rparr>) (bg_cells w) s)"

definition restore_window_bg :: "nat \<Rightarrow> wm \<Rightarrow> wm" where
  "restore_window_bg slot s =
     (let w = win_at s slot
      in if win_w w > 256 \<or> win_h w > 256 then fill_rect (win_x w) (win_y w) (win_w w) (win_h w) (238, 245, 239) s
         else fold (\<lambda>(row, col) s.
           let packed = WIN_BG_BUF s ! (row * 256 + col)
           in fb_put (win_x w + word_of_nat col) (win_y w + word_of_nat row)
                (ucast (packed AND 0xFF), ucast (drop_bit 8 packed AND 0xFF), ucast (drop_bit 16 packed AND 0xFF)) s) (bg_cells w) s)"

section \<open>Drawing frames\<close>

definition shadow_pixel :: "int \<Rightarrow> int \<Rightarrow> u8 \<Rightarrow> 'a fbuf_scheme \<Rightarrow> 'a fbuf_scheme" where
  "shadow_pixel px py alpha s =
     (if px \<ge> 0 \<and> py \<ge> 0 \<and> px < as_i32 (FB_W s) \<and> py < as_i32 (FB_H s)
      then fb_put (word_of_int px) (word_of_int py)
             (alpha_blend (get_or_black (word_of_int px) (word_of_int py) s) SHADOW_COLOR alpha) s
      else s)"

definition draw_window_shadow :: "u32 \<Rightarrow> u32 \<Rightarrow> u32 \<Rightarrow> u32 \<Rightarrow> 'a fbuf_scheme \<Rightarrow> 'a fbuf_scheme" where
  "draw_window_shadow x y w h s =
     (let s = fold (\<lambda>dy s. fold (\<lambda>dx. shadow_pixel (i32 (as_i32 x + dx)) (as_i32 (y + h - 1 + dy)) (ucast ((6 - dy) * 12)))
                [- 14 .. i32 (as_i32 w + 14)] s) [1, 2, 3, 4, 5, 6] s
      in fold (\<lambda>dx s. fold (\<lambda>dy. shadow_pixel (as_i32 (x + w - 1 + dx)) (i32 (as_i32 y + dy)) (ucast ((4 - dx) * 15)))
                [0 .. as_i32 h - 1] s) [1, 2, 3, 4] s)"

definition draw_text :: "u32 \<Rightarrow> u32 \<Rightarrow> bytes \<Rightarrow> rgb \<Rightarrow> 'a fbuf_scheme \<Rightarrow> 'a fbuf_scheme" where
  "draw_text x y bs c s = fold (\<lambda>(i, ch). draw_char_boot (x + word_of_nat i * 8) y ch c 1) (enumerate 0 bs) s"

definition draw_corners :: "u32 \<Rightarrow> u32 \<Rightarrow> u32 \<Rightarrow> rgb \<Rightarrow> 'a fbuf_scheme \<Rightarrow> 'a fbuf_scheme" where
  "draw_corners x y w c s =
     fold (\<lambda>dy s.
       case find_first (\<lambda>dx. let rx = WIN_RADIUS - dx; ry = TITLE_H - dy in rx * rx + ry * ry \<le> WIN_RADIUS * WIN_RADIUS)
              (map word_of_nat [0..<14]) of
         None \<Rightarrow> s
       | Some dx \<Rightarrow> fb_put (x + w - 1 - dx) (y + dy) c (fb_put (x + dx) (y + dy) c s)) (map word_of_nat [0..<28]) s"

definition draw_cross :: "u32 \<Rightarrow> u32 \<Rightarrow> 'a fbuf_scheme \<Rightarrow> 'a fbuf_scheme" where
  "draw_cross cx cy s =
     fold (\<lambda>(dx, dy). fb_put (cx + dx) (cy + dy) TITLE_FG)
       [(0, 0), (6, 0), (1, 1), (5, 1), (2, 2), (4, 2), (3, 3), (2, 4), (4, 4), (1, 5), (5, 5), (0, 6), (6, 6)] s"

definition draw_handle :: "window \<Rightarrow> 'a fbuf_scheme \<Rightarrow> 'a fbuf_scheme" where
  "draw_handle w s =
     (if win_w w \<ge> 20 \<and> win_h w \<ge> 20 then
        let rx = win_x w + win_w w - 10; ry = win_y w + win_h w - 10
        in fold (\<lambda>i s. fold (\<lambda>j. fb_put (rx + word_of_nat j * 2) (ry + word_of_nat i * 2) RESIZE_HANDLE_COLOR) [0..<i + 1] s) [0..<5] s
      else s)"

definition draw_title :: "window \<Rightarrow> rgb \<Rightarrow> 'a fbuf_scheme \<Rightarrow> 'a fbuf_scheme" where
  "draw_title w bg s =
     (let s = fill_rect (win_x w + WIN_RADIUS) (win_y w) (win_w w - WIN_RADIUS * 2) TITLE_H bg s;
          s = draw_corners (win_x w) (win_y w) (win_w w) bg s
      in draw_text (win_x w + 12) (win_y w + (TITLE_H - 8) div 2) (win_title w) TITLE_FG s)"

definition draw_buttons :: "window \<Rightarrow> 'a fbuf_scheme \<Rightarrow> 'a fbuf_scheme" where
  "draw_buttons w s =
     (let min_x = win_x w + win_w w - TITLE_H * 2 - 4; min_y = win_y w + 4;
          s = fill_rect min_x min_y (TITLE_H - 8) (TITLE_H - 8) (if min_hover w then (210, 200, 80) else (180, 170, 60)) s;
          s = fill_rect (min_x + 4) (min_y + TITLE_H - 14) (TITLE_H - 16) 2 TITLE_FG s;
          btn_x = win_x w + win_w w - TITLE_H - 4; btn_y = win_y w + 4;
          s = fill_rect btn_x btn_y (TITLE_H - 8) (TITLE_H - 8) (if close_hover w then (240, 60, 60) else (220, 80, 80)) s
      in draw_cross (btn_x + 4) (btn_y + 4) s)"

definition draw_window :: "u32 \<Rightarrow> wm \<Rightarrow> wm" where
  "draw_window n s =
     (case find_by_id n s of
        None \<Rightarrow> s
      | Some slot \<Rightarrow>
          let w = win_at s slot;
              s = draw_glass_background (win_x w) (win_y w) (win_w w) (win_h w) 30 s;
              s = draw_window_shadow (win_x w) (win_y w) (win_w w) (win_h w) s;
              s = draw_title w (if TOP_Z s > 0 \<and> win_z w = TOP_Z s then (45, 55, 48) else TITLE_BG) s;
              s = draw_buttons w s;
              s = draw_rect (win_x w + WIN_RADIUS) (win_y w + TITLE_H) (win_w w - WIN_RADIUS * 2) (win_h w - TITLE_H) WIN_BORDER False s;
              s = fill_rect (content_x w) (content_y w) (content_w w) (content_h w) WIN_BG s
          in draw_handle w s)"

section \<open>Stacking order\<close>

text \<open>The exchange of \<open>order[i]\<close> and \<open>order[j]\<close> where the first lies above the second.\<close>

definition order_swap :: "wm \<Rightarrow> nat \<Rightarrow> nat \<Rightarrow> nat list \<Rightarrow> nat list" where
  "order_swap s i j order =
     (if win_z (win_at s (order ! i)) > win_z (win_at s (order ! j))
      then order[i := order ! j, j := order ! i] else order)"

definition sort_order :: "wm \<Rightarrow> nat list \<Rightarrow> nat list" where
  "sort_order s order =
     (let count = length order in fold (\<lambda>i. fold (order_swap s i) [i + 1..<count]) [0..<count] order)"

definition open_slots :: "wm \<Rightarrow> nat list" where
  "open_slots s = filter (\<lambda>i. is_open (win_at s i)) [0..<8]"

definition redraw_all :: "wm \<Rightarrow> wm" where
  "redraw_all s = fold (\<lambda>i s. draw_window (win_id (win_at s i)) s) (sort_order s (open_slots s)) s"

section \<open>The mouse\<close>

definition inside :: "int \<Rightarrow> int \<Rightarrow> u32 \<Rightarrow> u32 \<Rightarrow> u32 \<Rightarrow> u32 \<Rightarrow> bool" where
  "inside mx my x y w h \<longleftrightarrow> mx \<ge> as_i32 x \<and> mx < as_i32 (x + w) \<and> my \<ge> as_i32 y \<and> my < as_i32 (y + h)"

definition over_window :: "int \<Rightarrow> int \<Rightarrow> window \<Rightarrow> bool" where
  "over_window mx my w \<longleftrightarrow> is_open w \<and> inside mx my (win_x w) (win_y w) (win_w w) (win_h w)"

definition top_slot :: "int \<Rightarrow> int \<Rightarrow> wm \<Rightarrow> nat option" where
  "top_slot mx my s =
     fst (fold (\<lambda>i (top, z). if over_window mx my (win_at s i) \<and> win_z (win_at s i) \<ge> z
                             then (Some i, win_z (win_at s i)) else (top, z)) [0..<8] (None, 0))"

definition over_button :: "int \<Rightarrow> int \<Rightarrow> u32 \<Rightarrow> u32 \<Rightarrow> bool" where
  "over_button mx my x y \<longleftrightarrow>
     mx \<ge> as_i32 x \<and> mx < as_i32 (x + TITLE_H - 8) \<and> my \<ge> as_i32 y \<and> my < as_i32 (y + TITLE_H - 8)"

definition over_handle :: "int \<Rightarrow> int \<Rightarrow> window \<Rightarrow> bool" where
  "over_handle mx my w \<longleftrightarrow>
     mx \<ge> as_i32 (win_x w + win_w w - 12) \<and> mx < as_i32 (win_x w + win_w w) \<and>
     my \<ge> as_i32 (win_y w + win_h w - 12) \<and> my < as_i32 (win_y w + win_h w)"

text \<open>The result is the window and the action: 0 nothing, 1 title, 2 close, 3 content, 4 minimise, 5 resize.\<close>

definition handle_mouse :: "int \<Rightarrow> int \<Rightarrow> bool \<Rightarrow> wm \<Rightarrow> (u32 \<times> u32) \<times> wm" where
  "handle_mouse mx my left_click s =
     (case top_slot mx my s of
        None \<Rightarrow> ((0, 0), s)
      | Some slot \<Rightarrow>
          let w = win_at s slot; n = win_id w
          in if over_button mx my (win_x w + win_w w - TITLE_H * 2 - 4) (win_y w + 4) then
               if left_click then ((n, 4), s) else ((n, 0), win_upd slot (\<lambda>w. w\<lparr>min_hover := True\<rparr>) s)
             else if over_button mx my (win_x w + win_w w - TITLE_H - 4) (win_y w + 4) then
               if left_click then ((n, 2), s) else ((n, 0), win_upd slot (\<lambda>w. w\<lparr>close_hover := True\<rparr>) s)
             else if over_handle mx my w then
               if left_click
               then ((n, 5), win_upd slot (\<lambda>w. w\<lparr>resizing := True, resize_dir := 3\<rparr>) (bring_to_front n s))
               else ((n, 0), s)
             else if my \<ge> as_i32 (win_y w) \<and> my < as_i32 (win_y w + TITLE_H) then
               if left_click
               then ((n, 1), win_upd slot (\<lambda>w. w\<lparr>dragging := True, drag_off_x := i32 (mx - as_i32 (win_x w)),
                       drag_off_y := i32 (my - as_i32 (win_y w))\<rparr>) (bring_to_front n s))
               else ((n, 0), s)
             else ((n, 3), if left_click then bring_to_front n s else s))"

definition clamp_to :: "int \<Rightarrow> int \<Rightarrow> int \<Rightarrow> u32" where
  "clamp_to v lo hi = word_of_int (min (max v lo) hi)"

definition move_window :: "u32 \<Rightarrow> u32 \<Rightarrow> window \<Rightarrow> window" where
  "move_window x y w = w\<lparr>win_x := x, win_y := y, content_x := x + CONTENT_PAD, content_y := y + TITLE_H + CONTENT_PAD\<rparr>"

definition drag_update :: "u32 \<Rightarrow> int \<Rightarrow> int \<Rightarrow> wm \<Rightarrow> wm" where
  "drag_update n mx my s =
     (case find_by_id n s of
        None \<Rightarrow> s
      | Some slot \<Rightarrow>
          let w = win_at s slot
          in if \<not> dragging w then s
             else
               let x = clamp_to (i32 (mx - drag_off_x w)) 0 (i32 (as_i32 (FB_W s) - as_i32 (win_w w)));
                   y = clamp_to (i32 (my - drag_off_y w)) 0 (i32 (as_i32 (FB_H s) - as_i32 (win_h w)))
               in if x \<noteq> win_x w \<or> y \<noteq> win_y w
                  then draw_window n (save_window_bg slot (win_upd slot (move_window x y) (restore_window_bg slot s)))
                  else s)"

definition size_window :: "u32 \<Rightarrow> u32 \<Rightarrow> window \<Rightarrow> window" where
  "size_window w h v = v\<lparr>win_w := w, win_h := h, content_w := inner_w w, content_h := inner_h h,
     content_x := win_x v + CONTENT_PAD, content_y := win_y v + TITLE_H + CONTENT_PAD\<rparr>"

definition mark_dirty :: "nat \<Rightarrow> bool \<Rightarrow> wm \<Rightarrow> wm" where
  "mark_dirty slot b s = s\<lparr>WINDOW_DIRTY := (WINDOW_DIRTY s)[slot := b]\<rparr>"

definition resize_update :: "u32 \<Rightarrow> int \<Rightarrow> int \<Rightarrow> wm \<Rightarrow> wm" where
  "resize_update n mx my s =
     (case find_by_id n s of
        None \<Rightarrow> s
      | Some slot \<Rightarrow>
          if \<not> resizing (win_at s slot) then s
          else
            let s = restore_window_bg slot s; v = win_at s slot;
                w = clamp_to (i32 (mx - as_i32 (win_x v))) 160 (i32 (as_i32 (FB_W s) - as_i32 (win_x v)));
                h = clamp_to (i32 (my - as_i32 (win_y v))) 100 (i32 (as_i32 (FB_H s) - as_i32 (win_y v)))
            in mark_dirty slot True (draw_window n (save_window_bg slot (win_upd slot (size_window w h) s))))"

definition drag_end :: "wm \<Rightarrow> wm" where
  "drag_end s = s\<lparr>WINDOWS := map (\<lambda>w. w\<lparr>dragging := False, close_hover := False, min_hover := False,
     resizing := False, resize_dir := 0\<rparr>) (WINDOWS s)\<rparr>"

definition win_minimize :: "u32 \<Rightarrow> wm \<Rightarrow> wm" where
  "win_minimize n s =
     (case find_by_id n s of
        None \<Rightarrow> s
      | Some slot \<Rightarrow>
          if \<not> is_open (win_at s slot) then s
          else restore_window_bg slot (win_upd slot (\<lambda>w. w\<lparr>saved_x := win_x w, saved_y := win_y w, minimized := True,
                 win_state := Closed\<rparr>) s))"

definition win_restore :: "u32 \<Rightarrow> wm \<Rightarrow> wm" where
  "win_restore n s =
     (case find_by_id n s of
        None \<Rightarrow> s
      | Some slot \<Rightarrow>
          if \<not> minimized (win_at s slot) then s
          else
            let s = s\<lparr>TOP_Z := TOP_Z s + 1\<rparr>;
                s = win_upd slot (\<lambda>w. w\<lparr>win_x := saved_x w, win_y := saved_y w, minimized := False, win_state := Opened,
                      win_z := TOP_Z s\<rparr>) s
            in mark_dirty slot True (draw_window n (save_window_bg slot s)))"

section \<open>Applications and the terminal window\<close>

definition set_app_kind :: "u32 \<Rightarrow> app_kind \<Rightarrow> wm \<Rightarrow> wm" where
  "set_app_kind n kind s =
     (case find_open_by_id n s of
        None \<Rightarrow> s
      | Some i \<Rightarrow>
          let s = mark_dirty i True (s\<lparr>WINDOW_APPS := (WINDOW_APPS s)[i := kind]\<rparr>)
          in if kind = App_terminal
             then s\<lparr>TERM_BUF_WIN_ID := n, TERM_BUF_ROW := 0, TERM_BUF_COL := 0, TERM_BUF := replicate 16 (replicate 32 blank)\<rparr>
             else s)"

definition win_app_kind :: "u32 \<Rightarrow> wm \<Rightarrow> app_kind" where
  "win_app_kind n s = (case find_open_by_id n s of None \<Rightarrow> App_none | Some i \<Rightarrow> WINDOW_APPS s ! i)"

definition set_dirty :: "u32 \<Rightarrow> wm \<Rightarrow> wm" where
  "set_dirty n s = (case find_open_by_id n s of None \<Rightarrow> s | Some i \<Rightarrow> mark_dirty i True s)"

definition term_cell :: "nat \<Rightarrow> nat \<Rightarrow> u8 \<Rightarrow> wm \<Rightarrow> wm" where
  "term_cell r c ch s = s\<lparr>TERM_BUF := (TERM_BUF s)[r := (TERM_BUF s ! r)[c := ch]]\<rparr>"

definition terminal_write :: "u8 \<Rightarrow> wm \<Rightarrow> wm" where
  "terminal_write ch s =
     set_dirty (TERM_BUF_WIN_ID s)
      (if ch = 0x0A \<or> ch = 0x0D then
         let s = s\<lparr>TERM_BUF_ROW := TERM_BUF_ROW s + 1, TERM_BUF_COL := 0\<rparr>
         in if TERM_BUF_ROW s \<ge> TERM_BUF_ROWS
            then s\<lparr>TERM_BUF := tl (TERM_BUF s) @ [replicate 32 blank], TERM_BUF_ROW := TERM_BUF_ROWS - 1\<rparr> else s
       else if ch = 0x08 \<or> ch = 0x7F then
         if TERM_BUF_COL s > 0
         then let s = s\<lparr>TERM_BUF_COL := TERM_BUF_COL s - 1\<rparr> in term_cell (TERM_BUF_ROW s) (TERM_BUF_COL s) blank s
         else s
       else if 0x20 \<le> ch \<and> ch < 0x7F then
         if TERM_BUF_COL s < TERM_BUF_COLS
         then (term_cell (TERM_BUF_ROW s) (TERM_BUF_COL s) ch s)\<lparr>TERM_BUF_COL := TERM_BUF_COL s + 1\<rparr>
         else s
       else s)"

definition terminal_write_str :: "bytes \<Rightarrow> wm \<Rightarrow> wm" where
  "terminal_write_str bs s = fold terminal_write bs s"

definition send_key_to_active :: "u8 \<Rightarrow> wm \<Rightarrow> bool \<times> wm" where
  "send_key_to_active ch s =
     (case find_first (\<lambda>i. is_open (win_at s i) \<and> WINDOW_APPS s ! i = App_terminal \<and> win_z (win_at s i) = TOP_Z s) [0..<8] of
        None \<Rightarrow> (False, s)
      | Some _ \<Rightarrow> (True, terminal_write ch s))"

section \<open>Drawing contents\<close>

definition centred :: "u32 \<Rightarrow> u32 \<Rightarrow> bytes \<Rightarrow> u32" where
  "centred cx cw msg = cx + (cw - word_of_nat (length msg) * 8) div 2"

definition render_placeholder :: "u32 \<Rightarrow> u32 \<Rightarrow> u32 \<Rightarrow> u32 \<Rightarrow> wm \<Rightarrow> wm" where
  "render_placeholder cx cy cw ch s =
     (let msg = bytes_of ''Window''
      in draw_text (centred cx cw msg) (cy + ch div 2 - 4) msg (150, 160, 150) (fill_rect cx cy cw ch WIN_BG s))"

definition render_terminal :: "u32 \<Rightarrow> u32 \<Rightarrow> u32 \<Rightarrow> u32 \<Rightarrow> wm \<Rightarrow> wm" where
  "render_terminal cx cy cw ch s =
     (let s = fill_rect cx cy cw ch (20, 25, 22) s;
          s = fold (\<lambda>row s. fold (\<lambda>col s.
                 let b = TERM_BUF s ! row ! col
                 in if b \<noteq> blank then draw_char_boot (cx + word_of_nat col * 8) (cy + word_of_nat row * 10) b (127, 200, 150) 1 s else s)
               [0..<min TERM_BUF_COLS (unat (cw div 8))] s) [0..<min TERM_BUF_ROWS (unat (ch div 10))] s;
          curs_x = cx + word_of_nat (TERM_BUF_COL s) * 8; curs_y = cy + word_of_nat (TERM_BUF_ROW s) * 10
      in if curs_x < cx + cw \<and> curs_y < cy + ch then fill_rect curs_x curs_y 6 9 (127, 200, 150) s else s)"

definition snake_grid :: "u32 \<Rightarrow> u32 \<Rightarrow> u32 \<Rightarrow> u32 \<Rightarrow> wm \<Rightarrow> wm" where
  "snake_grid ox oy nc nr s =
     (let dot = (\<lambda>c r. fb_put (ox + word_of_nat c * 8) (oy + word_of_nat r * 8) (30, 70, 40));
          s = fold (\<lambda>r s. fold (\<lambda>c. dot c r) [0..<unat nc] s) [0..<unat nr + 1] s
      in fold (\<lambda>c s. fold (\<lambda>r. dot c r) [0..<unat nr] s) [0..<unat nc + 1] s)"

definition render_snake :: "u32 \<Rightarrow> u32 \<Rightarrow> u32 \<Rightarrow> u32 \<Rightarrow> wm \<Rightarrow> wm" where
  "render_snake cx cy cw ch s =
     (let s = fill_rect cx cy cw ch (15, 45, 25) s;
          nc = cw div 8; nr = ch div 8;
          ox = cx + (cw - nc * 8) div 2; oy = cy + (ch - nr * 8) div 2;
          s = snake_grid ox oy nc nr s;
          s = fold (\<lambda>(i, sx, sy) s.
                if sx < nc \<and> sy < nr
                then fill_rect (ox + sx * 8 + 1) (oy + sy * 8 + 1) 6 6 (if i = 0 then (80, 220, 120) else (60, 180, 100)) s else s)
               (enumerate 0 [(4, 3), (3, 3), (2, 3), (1, 3)]) s;
          s = fill_rect (ox + 7 * 8 + 1) (oy + 5 * 8 + 1) 6 6 (220, 60, 60) s;
          msg = bytes_of ''Snake''
      in snd (draw_str (centred cx cw msg) (cy + 2) msg (127, 200, 150) 1 s))"

definition palette :: "rgb list" where
  "palette = [(0, 0, 0), (255, 0, 0), (0, 200, 0), (0, 0, 255), (255, 255, 0), (255, 128, 0), (255, 0, 255), (0, 200, 200)]"

definition render_paint :: "u32 \<Rightarrow> u32 \<Rightarrow> u32 \<Rightarrow> u32 \<Rightarrow> wm \<Rightarrow> wm" where
  "render_paint cx cy cw ch s =
     (let s = fill_rect cx cy cw ch (240, 245, 240) s;
          canvas_h = (if ch < 30 then 0 else ch - 30);
          s = fill_rect (cx + 4) (cy + 4) (cw - 8) (canvas_h - 4) (255, 255, 255) s;
          s = draw_rect (cx + 4) (cy + 4) (cw - 8) (canvas_h - 4) (200, 200, 200) False s;
          palette_y = cy + canvas_h + 4;
          s = fold (\<lambda>(i, c) s.
                let px = cx + 4 + word_of_nat i * 18
                in draw_rect px palette_y 16 16 (180, 180, 180) False (fill_rect px palette_y 16 16 c s)) (enumerate 0 palette) s;
          msg = bytes_of ''Paint''
      in snd (draw_str (centred cx cw msg) (cy + canvas_h + 22) msg (80, 80, 80) 1 s))"

definition listed_files :: "(bytes \<times> rgb) list" where
  "listed_files = [(bytes_of ''Documents'', (127, 168, 140)), (bytes_of ''Pictures'', (127, 168, 140)), (bytes_of ''Music'', (127, 168, 140)),
     (bytes_of ''snake.elf'', (180, 180, 200)), (bytes_of ''README.txt'', (180, 180, 200)), (bytes_of ''..'', (150, 150, 150))]"

definition render_files :: "u32 \<Rightarrow> u32 \<Rightarrow> u32 \<Rightarrow> u32 \<Rightarrow> wm \<Rightarrow> wm" where
  "render_files cx cy cw ch s =
     (let s = fill_rect cx cy cw ch (30, 35, 40) s;
          s = fill_rect (cx + 4) (cy + 4) (cw - 8) 14 (20, 25, 30) s;
          s = draw_text (cx + 6) (cy + 5) (bytes_of ''/home/user'') (100, 180, 220) s
      in fold (\<lambda>(i, name, c) s.
           let fy = cy + 22 + word_of_nat i * 14;
               s = fill_rect (cx + 4) fy (cw - 8) 13 (35, 40, 45) s;
               icon = (if c = (127, 168, 140) then bytes_of '' [D]'' else bytes_of '' [F]'');
               s = draw_text (cx + 6) (fy + 2) icon c s
           in draw_text (cx + 6 + (word_of_nat (length icon) * 8 + 4)) (fy + 2) name (200, 210, 200) s)
         (takeWhile (\<lambda>(i, _). \<not> word_of_nat i * 14 + 24 > ch) (enumerate 0 listed_files)) s)"

definition render_settings :: "u32 \<Rightarrow> u32 \<Rightarrow> u32 \<Rightarrow> u32 \<Rightarrow> wm \<Rightarrow> wm" where
  "render_settings cx cy cw ch s =
     fold (\<lambda>(i, name) s.
        let iy = cy + 6 + word_of_nat i * 22;
            s = fill_rect (cx + 4) iy (cw - 8) 20 (45, 50, 55) s;
            s = draw_text (cx + 10) (iy + 5) name (200, 210, 200) s
        in draw_char_boot (cx + cw - 16) (iy + 5) 0x3E (127, 168, 140) 1 s)
      (takeWhile (\<lambda>(i, _). \<not> cy + 6 + word_of_nat i * 22 + 20 > cy + ch)
        (enumerate 0 [bytes_of ''Wallpaper'', bytes_of ''Terminal'', bytes_of ''Mouse'', bytes_of ''Display'', bytes_of ''About'']))
      (fill_rect cx cy cw ch (35, 40, 45) s)"

definition render_desktop_info :: "u32 \<Rightarrow> u32 \<Rightarrow> u32 \<Rightarrow> u32 \<Rightarrow> wm \<Rightarrow> wm" where
  "render_desktop_info cx cy cw ch s =
     fold (\<lambda>(i, line). draw_text (centred cx cw line) (cy + 20 + word_of_nat i * 16) line
         (if i = 0 then (127, 200, 150) else (160, 170, 160)))
      (enumerate (0 :: nat) [bytes_of ''PureOS Desktop'', bytes_of ''v0.4'', bytes_of ''64 processes max'', bytes_of ''Press Esc to exit''])
      (fill_rect cx cy cw ch (25, 30, 35) s)"

fun render_app :: "app_kind \<Rightarrow> u32 \<Rightarrow> u32 \<Rightarrow> u32 \<Rightarrow> u32 \<Rightarrow> wm \<Rightarrow> wm" where
  "render_app App_terminal = render_terminal"
| "render_app App_snake = render_snake"
| "render_app App_paint = render_paint"
| "render_app App_files = render_files"
| "render_app App_settings = render_settings"
| "render_app App_desktop = render_desktop_info"
| "render_app App_none = render_placeholder"

definition render_content :: "u32 \<Rightarrow> wm \<Rightarrow> wm" where
  "render_content n s =
     (case find_by_id n s of
        None \<Rightarrow> s
      | Some slot \<Rightarrow>
          let w = win_at s slot
          in if \<not> is_open w then s
             else mark_dirty slot False
               (render_app (WINDOW_APPS s ! slot) (content_x w) (content_y w) (content_w w) (content_h w) s))"

definition render_all_content :: "wm \<Rightarrow> wm" where
  "render_all_content s = fold (\<lambda>i s. render_content (win_id (win_at s i)) s) (open_slots s) s"

end
