(* ===== verification/Winprops.thy ===== *)
theory Winprops
  imports Window "HOL-Library.Multiset"
begin

unbundle bit_operations_syntax

text \<open>
  What the window manager guarantees. Drawing changes video memory only (\<open>same_view\<close>), so that the table of windows
  can be followed by itself: \<open>table_ok\<close> says that the numbers of the windows are unique, that no two open windows lie at
  the same height, and that the terminal's cursor is in its buffer. \<open>wm_step\<close> performs one of the operations that the
  desktop calls.
\<close>

section \<open>Drawing leaves the table alone\<close>

named_theorems draws

lemmas [draws] = same_view_refl same_view_put

lemma draws_glass [draws]: "same_view s t \<Longrightarrow> same_view s (draw_glass_background x y w h a t)"
  by (rule same_view_trans [OF _ same_view_glass])

lemma draws_rect [draws]: "same_view s t \<Longrightarrow> same_view s (fill_rect x y w h c t)"
  unfolding fill_rect_paint by (rule same_view_trans [OF _ same_view_paint])

lemma draws_frame [draws]: "same_view s t \<Longrightarrow> same_view s (draw_rect x y w h c b t)"
  by (auto simp: draw_rect_def Let_def intro!: draws same_view_fold)

lemma draws_char [draws]: "same_view s t \<Longrightarrow> same_view s (draw_char_boot x y ch c k t)"
  by (auto simp: draw_char_boot_def draw_char_def draw_glyph_def intro!: draws same_view_fold)

lemma draws_str [draws]: "same_view s t \<Longrightarrow> same_view s (snd (draw_str x y bs c k t))"
  by (induction x y bs c k t rule: draw_str.induct) (simp_all add: draws)

lemma draws_text [draws]: "same_view s t \<Longrightarrow> same_view s (draw_text x y bs c t)"
  by (auto simp: draw_text_def intro!: draws same_view_fold)

lemma draws_shadow_pixel [draws]: "same_view s t \<Longrightarrow> same_view s (shadow_pixel px py a t)"
  by (simp add: shadow_pixel_def draws)

lemma draws_shadow [draws]: "same_view s t \<Longrightarrow> same_view s (draw_window_shadow x y w h t)"
  unfolding draw_window_shadow_def Let_def by (intro same_view_fold draws)

lemma draws_corners [draws]: "same_view s t \<Longrightarrow> same_view s (draw_corners x y w c t)"
  unfolding draw_corners_def by (rule same_view_fold) (auto intro!: draws split: option.split)

lemma draws_cross [draws]: "same_view s t \<Longrightarrow> same_view s (draw_cross x y t)"
  unfolding draw_cross_def by (rule same_view_fold) (auto intro!: draws)

lemma draws_handle [draws]: "same_view s t \<Longrightarrow> same_view s (draw_handle w t)"
  unfolding draw_handle_def Let_def by (auto intro!: same_view_fold draws)

lemma draws_title [draws]: "same_view s t \<Longrightarrow> same_view s (draw_title w bg t)"
  unfolding draw_title_def Let_def by (intro draws)

lemma draws_buttons [draws]: "same_view s t \<Longrightarrow> same_view s (draw_buttons w t)"
  unfolding draw_buttons_def Let_def by (intro draws)

lemma draws_window [draws]: "same_view s t \<Longrightarrow> same_view s (draw_window n t)"
  unfolding draw_window_def Let_def by (auto intro!: draws split: option.split)

lemma draws_restore_bg [draws]: "same_view s t \<Longrightarrow> same_view s (restore_window_bg i t)"
  unfolding restore_window_bg_def Let_def by (auto intro!: same_view_fold draws)

lemma draws_redraw [draws]: "same_view s t \<Longrightarrow> same_view s (redraw_all t)"
  unfolding redraw_all_def by (intro same_view_fold draws)

lemma draws_app [draws]: "same_view s t \<Longrightarrow> same_view s (render_app k x y w h t)"
  by (cases k)
    (auto simp: render_placeholder_def render_terminal_def render_snake_def snake_grid_def render_paint_def render_files_def
      render_settings_def render_desktop_info_def Let_def intro!: draws same_view_fold)

text \<open>Everything but the video memory and the buffer of saved pixels.\<close>

definition same_table :: "wm \<Rightarrow> wm \<Rightarrow> bool" where
  "same_table s t \<longleftrightarrow> WINDOWS t = WINDOWS s \<and> NEXT_ID t = NEXT_ID s \<and> TOP_Z t = TOP_Z s \<and>
     WINDOW_APPS t = WINDOW_APPS s \<and> WINDOW_DIRTY t = WINDOW_DIRTY s \<and> TERM_BUF t = TERM_BUF s \<and>
     TERM_BUF_ROW t = TERM_BUF_ROW s \<and> TERM_BUF_COL t = TERM_BUF_COL s \<and> TERM_BUF_WIN_ID t = TERM_BUF_WIN_ID s \<and>
     FB_W t = FB_W s \<and> FB_H t = FB_H s \<and> length (WIN_BG_BUF t) = length (WIN_BG_BUF s)"

lemma same_table_refl [simp]: "same_table s s"
  by (simp add: same_table_def)

lemma same_table_trans: "same_table a b \<Longrightarrow> same_table b c \<Longrightarrow> same_table a c"
  by (simp add: same_table_def)

lemma view_table: "same_view s t \<Longrightarrow> same_table s t" for s t :: wm
proof -
  assume "same_view s t"
  then have t: "t = s\<lparr>vram := vram t\<rparr>" by (simp add: same_view_def)
  show ?thesis unfolding same_table_def by (subst t, simp)+
qed

lemma same_table_fold: "(\<And>i t. same_table s t \<Longrightarrow> same_table s (f i t)) \<Longrightarrow> same_table s t \<Longrightarrow> same_table s (fold f xs t)"
  by (induction xs arbitrary: t) simp_all

lemma save_bg_table: "same_table s (save_window_bg i s)"
  unfolding save_window_bg_def Let_def
  by (rule same_table_fold) (auto simp: same_table_def split: option.split prod.split)

lemmas table_intros = view_table [OF draws_window [OF same_view_refl]] view_table [OF draws_restore_bg [OF same_view_refl]]
  save_bg_table view_table [OF draws_redraw [OF same_view_refl]] view_table [OF draws_app [OF same_view_refl]]

lemma same_table_fields:
  assumes "same_table s t"
  shows "WINDOWS t = WINDOWS s" "NEXT_ID t = NEXT_ID s" "TOP_Z t = TOP_Z s" "WINDOW_APPS t = WINDOW_APPS s"
    "WINDOW_DIRTY t = WINDOW_DIRTY s" "TERM_BUF t = TERM_BUF s" "TERM_BUF_ROW t = TERM_BUF_ROW s"
    "TERM_BUF_COL t = TERM_BUF_COL s" "TERM_BUF_WIN_ID t = TERM_BUF_WIN_ID s" "FB_W t = FB_W s" "FB_H t = FB_H s"
    "length (WIN_BG_BUF t) = length (WIN_BG_BUF s)" "win_at t i = win_at s i"
  using assms by (simp_all add: same_table_def win_at_def)

lemmas bg_fields [simp] = same_table_fields [OF table_intros(1)] same_table_fields [OF table_intros(2)]
  same_table_fields [OF table_intros(3)] same_table_fields [OF table_intros(4)] same_table_fields [OF table_intros(5)]

section \<open>The table\<close>

definition table_ok :: "wm \<Rightarrow> bool" where
  "table_ok s \<longleftrightarrow> length (WINDOWS s) = 8 \<and>
     (\<forall>i<8. win_z (win_at s i) \<le> TOP_Z s \<and> (known (win_at s i) \<longrightarrow> 0 < win_id (win_at s i) \<and> win_id (win_at s i) < NEXT_ID s)) \<and>
     (\<forall>i<8. \<forall>j<8. i \<noteq> j \<longrightarrow> known (win_at s i) \<longrightarrow> known (win_at s j) \<longrightarrow> win_id (win_at s i) \<noteq> win_id (win_at s j)) \<and>
     (\<forall>i<8. \<forall>j<8. i \<noteq> j \<longrightarrow> is_open (win_at s i) \<longrightarrow> is_open (win_at s j) \<longrightarrow> win_z (win_at s i) \<noteq> win_z (win_at s j))"

definition buffers_ok :: "wm \<Rightarrow> bool" where
  "buffers_ok s \<longleftrightarrow> length (WINDOW_APPS s) = 8 \<and> length (WINDOW_DIRTY s) = 8 \<and> length (WIN_BG_BUF s) = 65536 \<and>
     length (TERM_BUF s) = 16 \<and> (\<forall>row \<in> set (TERM_BUF s). length row = 32) \<and> TERM_BUF_ROW s < 16 \<and> TERM_BUF_COL s \<le> 32"

text \<open>
  \<open>wm_init\<close> closes the windows and sets \<open>TOP_Z\<close> back but leaves them their heights, so that after it only the windows
  that can be found are bounded by \<open>TOP_Z\<close>: \<open>table_inv True\<close> is \<open>table_ok\<close>, \<open>table_inv False\<close> says nothing of the heights
  of windows that cannot be found.
\<close>

definition table_inv :: "bool \<Rightarrow> wm \<Rightarrow> bool" where
  "table_inv b s \<longleftrightarrow> length (WINDOWS s) = 8 \<and>
     (\<forall>i<8. (b \<or> known (win_at s i) \<longrightarrow> win_z (win_at s i) \<le> TOP_Z s) \<and>
        (known (win_at s i) \<longrightarrow> 0 < win_id (win_at s i) \<and> win_id (win_at s i) < NEXT_ID s)) \<and>
     (\<forall>i<8. \<forall>j<8. i \<noteq> j \<longrightarrow> known (win_at s i) \<longrightarrow> known (win_at s j) \<longrightarrow> win_id (win_at s i) \<noteq> win_id (win_at s j)) \<and>
     (\<forall>i<8. \<forall>j<8. i \<noteq> j \<longrightarrow> is_open (win_at s i) \<longrightarrow> is_open (win_at s j) \<longrightarrow> win_z (win_at s i) \<noteq> win_z (win_at s j))"

lemma table_ok_inv: "table_ok s \<longleftrightarrow> table_inv True s"
  by (simp add: table_ok_def table_inv_def)

lemma same_table_ok: "same_table s t \<Longrightarrow> table_inv b t = table_inv b s"
  by (simp add: table_inv_def same_table_def win_at_def)

lemma same_buffers_ok: "same_table s t \<Longrightarrow> buffers_ok t = buffers_ok s"
  by (simp add: buffers_ok_def same_table_def)

lemma open_known: "is_open w \<Longrightarrow> known w"
  by (simp add: known_def)

lemma win_upd_fields [simp]:
  "NEXT_ID (win_upd i f s) = NEXT_ID s" "TOP_Z (win_upd i f s) = TOP_Z s" "WINDOW_APPS (win_upd i f s) = WINDOW_APPS s"
  "WINDOW_DIRTY (win_upd i f s) = WINDOW_DIRTY s" "TERM_BUF (win_upd i f s) = TERM_BUF s"
  "TERM_BUF_ROW (win_upd i f s) = TERM_BUF_ROW s" "TERM_BUF_COL (win_upd i f s) = TERM_BUF_COL s"
  "TERM_BUF_WIN_ID (win_upd i f s) = TERM_BUF_WIN_ID s" "FB_W (win_upd i f s) = FB_W s" "FB_H (win_upd i f s) = FB_H s"
  "WIN_BG_BUF (win_upd i f s) = WIN_BG_BUF s" "length (WINDOWS (win_upd i f s)) = length (WINDOWS s)"
  by (simp_all add: win_upd_def)

lemma win_at_upd: "i < length (WINDOWS s) \<Longrightarrow> win_at (win_upd i f s) j = (if j = i then f (win_at s i) else win_at s j)"
  by (simp add: win_at_def win_upd_def)

lemma win_at_fields [simp]:
  "win_at (s\<lparr>TOP_Z := z\<rparr>) = win_at s" "win_at (s\<lparr>NEXT_ID := n\<rparr>) = win_at s" "win_at (mark_dirty k b s) = win_at s"
  by (simp_all add: win_at_def mark_dirty_def fun_eq_iff)

lemma mark_dirty_fields [simp]:
  "WINDOWS (mark_dirty k b s) = WINDOWS s" "NEXT_ID (mark_dirty k b s) = NEXT_ID s" "TOP_Z (mark_dirty k b s) = TOP_Z s"
  "FB_W (mark_dirty k b s) = FB_W s" "FB_H (mark_dirty k b s) = FB_H s"
  by (simp_all add: mark_dirty_def)

lemma table_inv_dirty [simp]: "table_inv c (mark_dirty k b s) = table_inv c s"
  by (simp add: table_inv_def)

lemma find_by_idD: "find_by_id n s = Some i \<Longrightarrow> i < 8 \<and> win_id (win_at s i) = n \<and> known (win_at s i)"
  unfolding find_by_id_def by (drule find_first_Some) auto

lemma find_open_by_idD: "find_open_by_id n s = Some i \<Longrightarrow> i < 8 \<and> win_id (win_at s i) = n \<and> is_open (win_at s i)"
  unfolding find_open_by_id_def by (drule find_first_Some) auto

text \<open>An update that keeps number and height and neither opens nor uncovers a window.\<close>

lemma table_inv_upd:
  assumes "table_inv b s" "i < 8" "win_id (f (win_at s i)) = win_id (win_at s i)" "win_z (f (win_at s i)) = win_z (win_at s i)"
    "is_open (f (win_at s i)) \<Longrightarrow> is_open (win_at s i)" "known (f (win_at s i)) \<Longrightarrow> known (win_at s i)"
  shows "table_inv b (win_upd i f s)"
  using assms by (simp add: table_inv_def win_at_upd)

text \<open>Raising a known window above all others.\<close>

lemma table_inv_raise:
  assumes "table_inv b s" "i < 8" "known (win_at s i)" "win_id (f (win_at s i)) = win_id (win_at s i)"
    "win_z (f (win_at s i)) = TOP_Z s + 1" "TOP_Z s < 2 ^ 32 - 1"
  shows "table_inv b (win_upd i f (s\<lparr>TOP_Z := TOP_Z s + 1\<rparr>))"
proof -
  have z: "TOP_Z s < TOP_Z s + 1" using assms(6) by (simp add: word_less_nat_alt unat_word_ariths(1))
  have "\<forall>j<8. b \<or> known (win_at s j) \<longrightarrow> win_z (win_at s j) < TOP_Z s + 1"
    using assms(1) z by (auto simp: table_inv_def intro: le_less_trans)
  then show ?thesis using assms z by (auto simp: table_inv_def win_at_upd dest: open_known)
qed

text \<open>The number that \<open>create\<close> gives out is new, and the window lies above the others.\<close>

lemma table_inv_create:
  assumes "table_inv b s" "NEXT_ID s < 2 ^ 32 - 1" "TOP_Z s < 2 ^ 32 - 1" "0 < NEXT_ID s"
  shows "table_inv b (snd (win_create title x y w h s))"
proof (cases "find_slot s")
  case None
  then show ?thesis using assms by (simp add: win_create_def)
next
  case (Some slot)
  then have k: "slot < 8" "win_state (win_at s slot) = Closed" unfolding find_slot_def by (auto dest: find_first_Some)
  have z: "TOP_Z s < TOP_Z s + 1" "NEXT_ID s < NEXT_ID s + 1"
    using assms(2,3) by (simp_all add: word_less_nat_alt unat_word_ariths(1))
  have "\<forall>j<8. b \<or> known (win_at s j) \<longrightarrow> win_z (win_at s j) < TOP_Z s + 1"
    using assms(1) z by (auto simp: table_inv_def intro: le_less_trans)
  moreover have "\<forall>j<8. known (win_at s j) \<longrightarrow> win_id (win_at s j) < NEXT_ID s + 1 \<and> win_id (win_at s j) \<noteq> NEXT_ID s"
    using assms(1) z by (auto simp: table_inv_def intro: less_trans)
  ultimately show ?thesis
    using assms(1,4) z k Some by (auto simp: win_create_def Let_def table_inv_def win_at_upd new_window_def dest: open_known)
qed

lemma find_by_id_known: "table_ok s \<Longrightarrow> i < 8 \<Longrightarrow> known (win_at s i) \<Longrightarrow> find_by_id (win_id (win_at s i)) s = Some i"
proof -
  assume a: "table_ok s" "i < 8" "known (win_at s i)"
  show ?thesis
  proof (cases "find_by_id (win_id (win_at s i)) s")
    case None
    then have "\<forall>j \<in> set [0..<8]. \<not> (win_id (win_at s j) = win_id (win_at s i) \<and> known (win_at s j))"
      unfolding find_by_id_def by (simp add: find_first_None)
    then show ?thesis using a by auto
  next
    case (Some j)
    then show ?thesis using a find_by_idD [OF Some] by (auto simp: table_ok_def)
  qed
qed

section \<open>Operations\<close>

datatype wm_event =
  Create bytes u32 u32 u32 u32 | Close u32 | Front u32 | Mouse int int bool | Drag u32 int int | Resize u32 int int |
  Drag_end | Minimize u32 | Restore u32 | Set_app u32 app_kind | Set_dirty u32 | Term_write u8 | Send_key u8 |
  Redraw | Render u32 | Init

fun wm_step :: "wm_event \<Rightarrow> wm \<Rightarrow> wm" where
  "wm_step (Create t x y w h) s = snd (win_create t x y w h s)"
| "wm_step (Close n) s = win_close n s"
| "wm_step (Front n) s = bring_to_front n s"
| "wm_step (Mouse mx my b) s = snd (handle_mouse mx my b s)"
| "wm_step (Drag n mx my) s = drag_update n mx my s"
| "wm_step (Resize n mx my) s = resize_update n mx my s"
| "wm_step Drag_end s = drag_end s"
| "wm_step (Minimize n) s = win_minimize n s"
| "wm_step (Restore n) s = win_restore n s"
| "wm_step (Set_app n k) s = set_app_kind n k s"
| "wm_step (Set_dirty n) s = set_dirty n s"
| "wm_step (Term_write ch) s = terminal_write ch s"
| "wm_step (Send_key ch) s = snd (send_key_to_active ch s)"
| "wm_step Redraw s = redraw_all s"
| "wm_step (Render n) s = render_content n s"
| "wm_step Init s = wm_init s"

text \<open>The counters grow by at most one.\<close>

definition wm_within :: "bool \<Rightarrow> nat \<Rightarrow> wm \<Rightarrow> bool" where
  "wm_within b n s \<longleftrightarrow> table_inv b s \<and> 0 < NEXT_ID s \<and> unat (NEXT_ID s) \<le> n + 1 \<and> unat (TOP_Z s) \<le> n"

lemma wm_withinI: "table_inv b t \<Longrightarrow> NEXT_ID t = NEXT_ID s \<Longrightarrow> TOP_Z t = TOP_Z s \<Longrightarrow> wm_within b n s \<Longrightarrow> wm_within b (Suc n) t"
  by (simp add: wm_within_def)

lemma wm_within_bounds:
  assumes "wm_within b n s" "n < 2 ^ 32 - 2"
  shows "NEXT_ID s < 2 ^ 32 - 1" "TOP_Z s < 2 ^ 32 - 1" "unat (NEXT_ID s + 1) = unat (NEXT_ID s) + 1"
    "unat (TOP_Z s + 1) = unat (TOP_Z s) + 1" "0 < NEXT_ID s + 1"
  using assms by (auto simp: wm_within_def word_less_nat_alt unat_word_ariths(1))

lemma within_raise:
  assumes "wm_within b n s" "n < 2 ^ 32 - 2" "i < 8" "known (win_at s i)" "win_id (f (win_at s i)) = win_id (win_at s i)"
    "win_z (f (win_at s i)) = TOP_Z s + 1"
  shows "wm_within b (Suc n) (win_upd i f (s\<lparr>TOP_Z := TOP_Z s + 1\<rparr>))"
  using assms table_inv_raise [of b s i f] wm_within_bounds [OF assms(1,2)] by (simp add: wm_within_def)

lemma within_upd:
  assumes "wm_within b n s" "i < 8" "win_id (f (win_at s i)) = win_id (win_at s i)" "win_z (f (win_at s i)) = win_z (win_at s i)"
    "is_open (f (win_at s i)) \<Longrightarrow> is_open (win_at s i)" "known (f (win_at s i)) \<Longrightarrow> known (win_at s i)"
  shows "wm_within b n (win_upd i f s)"
  using assms table_inv_upd [of b s i f] by (simp add: wm_within_def)

lemma within_same: "wm_within b n s \<Longrightarrow> same_table s t \<Longrightarrow> wm_within b n t"
  by (simp add: wm_within_def same_table_ok same_table_fields)

lemma within_Suc: "wm_within b n s \<Longrightarrow> wm_within b (Suc n) s"
  by (simp add: wm_within_def)

lemma within_dirty [simp]: "wm_within b n (mark_dirty k d s) = wm_within b n s"
  by (simp add: wm_within_def)


lemma within_create: "wm_within b n s \<Longrightarrow> n < 2 ^ 32 - 2 \<Longrightarrow> wm_within b (Suc n) (snd (win_create t x y w h s))"
proof -
  assume a: "wm_within b n s" "n < 2 ^ 32 - 2"
  note b = wm_within_bounds [OF a]
  have "table_inv b (snd (win_create t x y w h s))" using a b by (intro table_inv_create) (auto simp: wm_within_def)
  then show ?thesis using a b by (auto simp: wm_within_def win_create_def Let_def split: option.splits)
qed

lemma within_close: "wm_within b n s \<Longrightarrow> wm_within b n (win_close k s)"
  by (auto simp: win_close_def is_open_def known_def split: option.split dest: find_by_idD intro!: within_upd)

lemma within_front: "wm_within b n s \<Longrightarrow> n < 2 ^ 32 - 2 \<Longrightarrow> wm_within b (Suc n) (bring_to_front k s)"
  by (auto simp: bring_to_front_def Let_def within_Suc split: option.split dest: find_by_idD intro!: within_raise)

lemma front_win_at: "find_by_id k s = Some i \<Longrightarrow> length (WINDOWS s) = 8 \<Longrightarrow>
  win_at (bring_to_front k s) j = (if j = i then (win_at s i)\<lparr>win_z := TOP_Z s + 1\<rparr> else win_at s j)"
  using find_by_idD [of k s i] by (simp add: bring_to_front_def Let_def win_at_upd)

text \<open>The search for the highest window under a point.\<close>

definition top_found :: "int \<Rightarrow> int \<Rightarrow> wm \<Rightarrow> nat \<Rightarrow> nat option \<times> u32 \<Rightarrow> bool" where
  "top_found mx my s n r =
     (case r of
        (None, z) \<Rightarrow> z = 0 \<and> (\<forall>j<n. \<not> over_window mx my (win_at s j))
      | (Some i, z) \<Rightarrow> i < n \<and> over_window mx my (win_at s i) \<and> z = win_z (win_at s i) \<and>
          (\<forall>j<n. over_window mx my (win_at s j) \<longrightarrow> win_z (win_at s j) \<le> z))"

lemma top_found_fold:
  "top_found mx my s n (fold (\<lambda>i (top, z). if over_window mx my (win_at s i) \<and> win_z (win_at s i) \<ge> z
      then (Some i, win_z (win_at s i)) else (top, z)) [0..<n] (None, 0))"
proof (induction n)
  case (Suc n)
  obtain t z where r: "fold (\<lambda>i (top, z). if over_window mx my (win_at s i) \<and> win_z (win_at s i) \<ge> z
      then (Some i, win_z (win_at s i)) else (top, z)) [0..<n] (None, 0) = (t, z)" by fastforce
  have "top_found mx my s n (t, z)" using Suc r by simp
  then show ?case using r
    by (cases t) (auto simp: top_found_def less_Suc_eq dest: order.trans split: if_splits)
qed (simp add: top_found_def)

lemma top_slotD:
  "top_slot mx my s = Some i \<Longrightarrow> i < 8 \<and> over_window mx my (win_at s i) \<and>
     (\<forall>j<8. over_window mx my (win_at s j) \<longrightarrow> win_z (win_at s j) \<le> win_z (win_at s i))"
  "top_slot mx my s = None \<Longrightarrow> j < 8 \<Longrightarrow> \<not> over_window mx my (win_at s j)"
  using top_found_fold [of mx my s 8] unfolding top_slot_def top_found_def
  by (auto split: prod.splits option.splits simp: prod_eq_iff)

lemma within_length: "wm_within b n s \<Longrightarrow> length (WINDOWS s) = 8"
  by (simp add: wm_within_def table_inv_def)

text \<open>Updates that touch neither number, height nor state.\<close>

definition harmless :: "(window \<Rightarrow> window) \<Rightarrow> bool" where
  "harmless f \<longleftrightarrow> (\<forall>w. win_id (f w) = win_id w \<and> win_z (f w) = win_z w \<and> win_state (f w) = win_state w \<and> minimized (f w) = minimized w)"

lemma harmless_upd: "harmless f \<Longrightarrow> wm_within b n s \<Longrightarrow> i < 8 \<Longrightarrow> wm_within b n (win_upd i f s)"
  by (rule within_upd) (auto simp: harmless_def is_open_def known_def)

lemma within_mouse: "wm_within b n s \<Longrightarrow> n < 2 ^ 32 - 2 \<Longrightarrow> wm_within b (Suc n) (snd (handle_mouse mx my d s))"
proof (cases "top_slot mx my s")
  case (Some slot)
  assume a: "wm_within b n s" "n < 2 ^ 32 - 2"
  have i: "slot < 8" using top_slotD(1) [OF Some] by simp
  have f: "wm_within b (Suc n) (win_upd slot f (bring_to_front k s))" if "harmless f" for f k
    by (rule harmless_upd [OF that within_front [OF a] i])
  have u: "wm_within b (Suc n) (win_upd slot f s)" if "harmless f" for f
    by (rule within_Suc [OF harmless_upd [OF that a(1) i]])
  show ?thesis
    unfolding handle_mouse_def Some option.case Let_def
    by (simp add: f u harmless_def within_front [OF a] within_Suc [OF a(1)])
qed (simp add: handle_mouse_def within_Suc)

lemma within_map:
  assumes "harmless f" "wm_within b n s"
  shows "wm_within b n (s\<lparr>WINDOWS := map f (WINDOWS s)\<rparr>)"
proof -
  have "win_at (s\<lparr>WINDOWS := map f (WINDOWS s)\<rparr>) i = f (win_at s i)" if "i < 8" for i
    using that within_length [OF assms(2)] by (simp add: win_at_def)
  then show ?thesis using assms by (auto simp: wm_within_def table_inv_def harmless_def is_open_def known_def)
qed

lemma within_drag: "wm_within b n s \<Longrightarrow> wm_within b n (drag_update k mx my s)"
  by (auto simp: drag_update_def Let_def split: option.split dest: find_by_idD
      intro!: harmless_upd within_same [OF _ table_intros(1)] within_same [OF _ table_intros(2)] within_same [OF _ table_intros(3)])
    (auto simp: harmless_def move_window_def)

lemma within_resize: "wm_within b n s \<Longrightarrow> wm_within b n (resize_update k mx my s)"
  by (auto simp: resize_update_def Let_def split: option.split dest: find_by_idD
      intro!: harmless_upd within_same [OF _ table_intros(1)] within_same [OF _ table_intros(2)] within_same [OF _ table_intros(3)])
    (auto simp: harmless_def size_window_def)

lemma within_minimize: "wm_within b n s \<Longrightarrow> wm_within b n (win_minimize k s)"
  by (auto simp: win_minimize_def is_open_def known_def split: option.split dest: find_by_idD
      intro!: within_upd within_same [OF _ table_intros(2)])

lemma within_restore: "wm_within b n s \<Longrightarrow> n < 2 ^ 32 - 2 \<Longrightarrow> wm_within b (Suc n) (win_restore k s)"
proof (cases "find_by_id k s")
  case (Some i)
  assume a: "wm_within b n s" "n < 2 ^ 32 - 2"
  have "wm_within b (Suc n) (mark_dirty i True (draw_window k (save_window_bg i (win_upd i f (s\<lparr>TOP_Z := TOP_Z s + 1\<rparr>)))))"
    if "win_id (f (win_at s i)) = win_id (win_at s i)" "win_z (f (win_at s i)) = TOP_Z s + 1" for f
    unfolding within_dirty
    by (intro within_same [OF _ table_intros(1)] within_same [OF _ table_intros(3)] within_raise a)
      (use find_by_idD [OF Some] that in simp_all)
  then show ?thesis using Some within_Suc [OF a(1)] by (simp add: win_restore_def Let_def)
qed (simp add: win_restore_def within_Suc)

lemma within_tables: "wm_within b n s \<Longrightarrow> WINDOWS t = WINDOWS s \<Longrightarrow> NEXT_ID t = NEXT_ID s \<Longrightarrow> TOP_Z t = TOP_Z s \<Longrightarrow> wm_within b n t"
  by (simp add: wm_within_def table_inv_def win_at_def)

lemma terminal_write_tables:
  "WINDOWS (terminal_write ch s) = WINDOWS s" "NEXT_ID (terminal_write ch s) = NEXT_ID s" "TOP_Z (terminal_write ch s) = TOP_Z s"
  by (simp_all add: terminal_write_def set_dirty_def term_cell_def Let_def split: option.split)

lemma within_terminal: "wm_within b n s \<Longrightarrow> wm_within b n (terminal_write ch s)"
  by (rule within_tables) (simp_all add: terminal_write_tables)

lemma within_set_app: "wm_within b n s \<Longrightarrow> wm_within b n (set_app_kind k kind s)"
  by (erule within_tables) (simp_all add: set_app_kind_def Let_def split: option.split)

lemma within_set_dirty: "wm_within b n s \<Longrightarrow> wm_within b n (set_dirty k s)"
  by (simp add: set_dirty_def split: option.split)

lemma within_render: "wm_within b n s \<Longrightarrow> wm_within b n (render_content k s)"
  by (erule within_tables) (simp_all add: render_content_def Let_def split: option.split)

lemma within_drag_end: "wm_within b n s \<Longrightarrow> wm_within b n (drag_end s)"
  unfolding drag_end_def by (rule within_map) (simp_all add: harmless_def)

lemma within_step: "e \<noteq> Init \<Longrightarrow> wm_within b n s \<Longrightarrow> n < 2 ^ 32 - 2 \<Longrightarrow> wm_within b (Suc n) (wm_step e s)"
  by (cases e)
    (simp_all add: within_create within_front within_mouse within_restore within_Suc within_close within_drag within_resize
      within_minimize within_terminal within_set_app within_set_dirty within_render within_drag_end send_key_to_active_def
      within_same [OF _ table_intros(4)] split: option.split)


text \<open>\<open>wm_init\<close> forgets all windows, unless one is minimised: it clears only the states.\<close>

definition none_minimized :: "wm \<Rightarrow> bool" where
  "none_minimized s \<longleftrightarrow> (\<forall>w \<in> set (WINDOWS s). \<not> minimized w)"

lemma within_init:
  assumes "none_minimized s" "wm_within False n s"
  shows "wm_within False (Suc n) (wm_init s)"
proof -
  have len: "length (WINDOWS s) = 8" by (rule within_length [OF assms(2)])
  then have "win_at (wm_init s) i = (win_at s i)\<lparr>win_state := Closed, dragging := False\<rparr>" if "i < 8" for i
    using that by (simp add: win_at_def wm_init_def)
  then have "\<not> known (win_at (wm_init s) i)" if "i < 8" for i
    using assms(1) that len nth_mem [of i "WINDOWS s"] by (auto simp: none_minimized_def known_def is_open_def win_at_def)
  moreover have "\<not> is_open (win_at (wm_init s) i)" if "i < 8" for i using calculation [OF that] open_known by blast
  moreover have "length (WINDOWS (wm_init s)) = 8" "NEXT_ID (wm_init s) = 1" "TOP_Z (wm_init s) = 0"
    using within_length [OF assms(2)] by (simp_all add: wm_init_def)
  ultimately show ?thesis by (simp add: wm_within_def table_inv_def)
qed

section \<open>The terminal window\<close>

definition buf_fields :: "wm \<Rightarrow> nat \<times> nat \<times> nat \<times> bytes list \<times> nat \<times> nat" where
  "buf_fields s = (length (WINDOW_APPS s), length (WINDOW_DIRTY s), length (WIN_BG_BUF s), TERM_BUF s, TERM_BUF_ROW s, TERM_BUF_COL s)"

lemma buffers_same: "buf_fields t = buf_fields s \<Longrightarrow> buffers_ok t = buffers_ok s"
  by (simp add: buf_fields_def buffers_ok_def)

lemma buf_fields_step:
  "case e of Set_app _ _ \<Rightarrow> False | Term_write _ \<Rightarrow> False | Send_key _ \<Rightarrow> False | _ \<Rightarrow> True \<Longrightarrow> buf_fields (wm_step e s) = buf_fields s"
  by (cases e)
    (simp_all add: buf_fields_def win_create_def win_close_def bring_to_front_def handle_mouse_def drag_update_def resize_update_def
      drag_end_def win_minimize_def win_restore_def set_dirty_def render_content_def mark_dirty_def wm_init_def Let_def
      split: option.split)

lemma buffers_terminal:
  assumes "buffers_ok s"
  shows "buffers_ok (terminal_write ch s)"
proof -
  have d: "buffers_ok (set_dirty k t) = buffers_ok t" for k t
    by (rule buffers_same) (simp add: buf_fields_def set_dirty_def mark_dirty_def split: option.split)
  have c: "buffers_ok (term_cell (TERM_BUF_ROW t) k b t)" if "buffers_ok t" for t k b
    using that by (auto simp: buffers_ok_def term_cell_def dest!: set_update_subset_insert [THEN subsetD] nth_mem)
  show ?thesis
    unfolding terminal_write_def Let_def d
    using assms c [of "s\<lparr>TERM_BUF_COL := TERM_BUF_COL s - 1\<rparr>" "TERM_BUF_COL s - 1" blank] c [OF assms, of "TERM_BUF_COL s" ch]
    by (auto simp: buffers_ok_def term_cell_def dest: list.set_sel(2) [rotated])
qed

lemma buffers_step:
  assumes "buffers_ok s"
  shows "buffers_ok (wm_step e s)"
proof (cases e)
  case (Set_app n k)
  then show ?thesis using assms by (auto simp: set_app_kind_def mark_dirty_def Let_def buffers_ok_def split: option.split)
next
  case (Term_write ch)
  then show ?thesis using assms by (simp add: buffers_terminal)
next
  case (Send_key ch)
  then show ?thesis using assms by (simp add: buffers_terminal send_key_to_active_def split: option.split)
qed (use assms in \<open>simp_all add: buf_fields_step [THEN buffers_same] del: wm_step.simps\<close>)

definition wm_run :: "wm_event list \<Rightarrow> fbuf \<Rightarrow> wm" where
  "wm_run es f = fold wm_step es (wm_boot f)"

lemma boot_fields:
  "WINDOWS (wm_boot f) = replicate 8 no_window" "NEXT_ID (wm_boot f) = 1" "TOP_Z (wm_boot f) = 0" "buffers_ok (wm_boot f)"
  "FB_W (wm_boot f) = FB_W f" "FB_H (wm_boot f) = FB_H f"
  by (simp_all add: wm_boot_def fbuf.defs wm.defs buffers_ok_def)

lemma boot_within: "wm_within b 0 (wm_boot f)"
  by (auto simp: wm_within_def table_inv_def boot_fields win_at_def no_window_def is_open_def known_def)

text \<open>No window is minimised when \<open>wm_init\<close> runs, anywhere in the sequence.\<close>

fun inits_clean :: "wm_event list \<Rightarrow> wm \<Rightarrow> bool" where
  "inits_clean [] s \<longleftrightarrow> True"
| "inits_clean (e # es) s \<longleftrightarrow> (e = Init \<longrightarrow> none_minimized s) \<and> inits_clean es (wm_step e s)"

lemma fold_within:
  "wm_within False n s \<Longrightarrow> buffers_ok s \<Longrightarrow> inits_clean es s \<Longrightarrow> n + length es \<le> 2 ^ 32 - 2 \<Longrightarrow>
    wm_within False (n + length es) (fold wm_step es s) \<and> buffers_ok (fold wm_step es s)"
proof (induction es arbitrary: n s)
  case (Cons e es)
  have "wm_within False (Suc n) (wm_step e s)"
    using Cons.prems within_step [of e False n s] within_init [of s n] by (cases "e = Init") simp_all
  then show ?case using Cons.IH [of "Suc n" "wm_step e s"] Cons.prems buffers_step [OF Cons.prems(2)] by simp
qed simp

lemma run_within: "Init \<notin> set es \<Longrightarrow> length es \<le> 2 ^ 32 - 2 \<Longrightarrow> wm_within b (length es) (wm_run es f)"
proof (induction es rule: rev_induct)
  case (snoc e es)
  then have "e \<noteq> Init" by auto
  with snoc show ?case using within_step [of e b "length es" "wm_run es f"] by (simp add: wm_run_def)
qed (simp add: wm_run_def boot_within)

text \<open>
  A minimised window survives \<open>wm_init\<close>, and its number is given out again.
\<close>

lemma init_duplicates:
  "let s = wm_run [Create t x y w h, Create t x y w h, Minimize 2, Init, Create t x y w h, Close 1, Create t x y w h] f
   in known (win_at s 0) \<and> known (win_at s 1) \<and> win_id (win_at s 0) = 2 \<and> win_id (win_at s 1) = 2 \<and>
     find_by_id 2 s = Some 0 \<and> \<not> table_inv False s"
proof -
  note ev = win_create_def find_slot_def find_by_id_def win_at_def win_upd_def known_def is_open_def no_window_def new_window_def
    Let_def upt_rec numeral_eq_Suc
  define s2 where "s2 = wm_run [Create t x y w h, Create t x y w h] f"
  have s2: "WINDOWS s2 = [new_window 1 1 t x y w h, new_window 2 2 t x y w h] @ replicate 6 no_window"
    by (simp add: s2_def wm_run_def boot_fields ev)
  define s3 where "s3 = win_minimize 2 s2"
  have s3: "WINDOWS s3 = [new_window 1 1 t x y w h,
      (new_window 2 2 t x y w h)\<lparr>saved_x := x, saved_y := y, minimized := True, win_state := Closed\<rparr>] @ replicate 6 no_window"
    by (simp add: s3_def win_minimize_def s2 ev)
  define s5 where "s5 = snd (win_create t x y w h (wm_init s3))"
  have s5: "WINDOWS s5 = [new_window 1 1 t x y w h,
      (new_window 2 2 t x y w h)\<lparr>saved_x := x, saved_y := y, minimized := True, win_state := Closed\<rparr>] @ replicate 6 no_window"
    "NEXT_ID s5 = 2" "TOP_Z s5 = 1"
    by (simp_all add: s5_def wm_init_def s3 ev)
  define s7 where "s7 = snd (win_create t x y w h (win_close 1 s5))"
  have s7: "WINDOWS s7 = [new_window 2 2 t x y w h,
      (new_window 2 2 t x y w h)\<lparr>saved_x := x, saved_y := y, minimized := True, win_state := Closed\<rparr>] @ replicate 6 no_window"
    by (simp add: s7_def win_close_def s5 ev)
  have w: "win_at s7 0 = new_window 2 2 t x y w h" "known (win_at s7 1)" "win_id (win_at s7 1) = 2" "known (win_at s7 0)"
    by (simp_all add: win_at_def s7 known_def is_open_def new_window_def)
  then have id0: "win_id (win_at s7 0) = 2" by (simp add: new_window_def)
  have "find_by_id 2 s7 = Some 0" using w id0 by (simp add: find_by_id_def upt_rec)
  moreover have "\<not> table_inv False s7"
  proof
    assume "table_inv False s7"
    then have "win_id (win_at s7 0) \<noteq> win_id (win_at s7 1)"
      unfolding table_inv_def using w(2,4) by (metis one_less_numeral_iff semiring_norm(76) zero_less_numeral zero_neq_one)
    then show False using id0 w(3) by simp
  qed
  moreover have "wm_run [Create t x y w h, Create t x y w h, Minimize 2, Init, Create t x y w h, Close 1, Create t x y w h] f = s7"
    by (simp add: s7_def s5_def s3_def s2_def wm_run_def)
  ultimately show ?thesis using w id0 by (simp add: Let_def)
qed

text \<open>
  C17: The state of the window manager. After any sequence of at most \<open>2\<^sup>3\<^sup>2 - 2\<close> operations, \<open>wm_init\<close> (which every start of the
  desktop runs) included, whatever their arguments, in which no window is minimised whenever \<open>wm_init\<close> runs: the numbers
  of the windows that can be found are unique and below the next one, no two open windows have the same height and none
  is above \<open>TOP_Z\<close>; the tables have their sizes and the cursor of the terminal window is in its buffer. Without
  \<open>wm_init\<close> in the sequence no slot at all, closed ones included, is above \<open>TOP_Z\<close>. The condition is needed, for \<open>wm_init\<close> does
  not clear the mark of minimised windows: after two windows, minimising the second, a new start of the desktop,
  a window that is closed and another one, two windows have the number 2, and the number leads to only one of them.
\<close>

theorem windows_reachable_ok:
  assumes "length es \<le> 2 ^ 32 - 2" "inits_clean es (wm_boot f)"
  shows "table_inv False (wm_run es f) \<and> buffers_ok (wm_run es f) \<and> (Init \<notin> set es \<longrightarrow> table_ok (wm_run es f)) \<and>
    (let s = wm_run [Create t x y w h, Create t x y w h, Minimize 2, Init, Create t x y w h, Close 1, Create t x y w h] f
     in known (win_at s 0) \<and> known (win_at s 1) \<and> win_id (win_at s 0) = 2 \<and> win_id (win_at s 1) = 2 \<and>
       find_by_id 2 s = Some 0 \<and> \<not> table_inv False s)"
proof -
  have "wm_within False (0 + length es) (fold wm_step es (wm_boot f)) \<and> buffers_ok (fold wm_step es (wm_boot f))"
    using assms by (intro fold_within boot_within boot_fields) simp_all
  then have "table_inv False (wm_run es f)" "buffers_ok (wm_run es f)" by (simp_all add: wm_within_def wm_run_def)
  moreover have "Init \<notin> set es \<longrightarrow> table_ok (wm_run es f)"
    using run_within [OF _ assms(1), of True f] by (auto simp: wm_within_def table_ok_inv)
  ultimately show ?thesis using init_duplicates [of t x y w h f] by blast
qed

theorem windows_reachable_ok_witness:
  "table_inv False (wm_run [Create (bytes_of ''a'') 1 2 200 100, Term_write 0x41, Close 1, Init, Create (bytes_of ''b'') 1 2 200 100] demo_screen) \<and>
   table_ok (wm_run [Create (bytes_of ''a'') 1 2 200 100, Term_write 0x41, Minimize 1] demo_screen)"
proof -
  let ?es = "[Create (bytes_of ''a'') 1 2 200 100, Term_write 0x41, Close 1, Init, Create (bytes_of ''b'') 1 2 200 100]"
  let ?c = "snd (win_create (bytes_of ''a'') 1 2 200 100 (wm_boot demo_screen))"
  have w: "WINDOWS ?c = new_window 1 1 (bytes_of ''a'') 1 2 200 100 # replicate 7 no_window"
    by (simp add: boot_fields win_create_def find_slot_def win_at_def win_upd_def no_window_def Let_def upt_rec numeral_eq_Suc)
  have "none_minimized (win_close 1 (terminal_write 0x41 ?c))"
    by (simp add: none_minimized_def win_close_def find_by_id_def win_at_def win_upd_def terminal_write_tables w new_window_def
        no_window_def known_def is_open_def upt_rec numeral_eq_Suc)
  then have c: "inits_clean ?es (wm_boot demo_screen)" by simp
  show ?thesis
    using windows_reachable_ok [OF _ c] windows_reachable_ok [of "[Create (bytes_of ''a'') 1 2 200 100, Term_write 0x41, Minimize 1]" demo_screen]
    by simp
qed

section \<open>Redrawing\<close>

text \<open>The nested exchange loops sort, whatever they sort by.\<close>

definition swap_if :: "('a \<Rightarrow> 'k::linorder) \<Rightarrow> nat \<Rightarrow> nat \<Rightarrow> 'a list \<Rightarrow> 'a list" where
  "swap_if k i j xs = (if k (xs ! i) > k (xs ! j) then xs[i := xs ! j, j := xs ! i] else xs)"

lemma swap_if_mset: "i < length xs \<Longrightarrow> j < length xs \<Longrightarrow> mset (swap_if k i j xs) = mset xs"
  by (simp add: swap_if_def mset_swap)

lemma swap_if_length [simp]: "length (swap_if k i j xs) = length xs"
  by (simp add: swap_if_def)

text \<open>The first \<open>i\<close> are in order and not above any later one.\<close>

definition front_sorted :: "('a \<Rightarrow> 'k::linorder) \<Rightarrow> nat \<Rightarrow> 'a list \<Rightarrow> bool" where
  "front_sorted k i xs \<longleftrightarrow> (\<forall>a<i. \<forall>b<length xs. a < b \<longrightarrow> k (xs ! a) \<le> k (xs ! b))"

lemma swap_if_step:
  assumes "front_sorted k i xs" "i < j" "j < length xs" "\<forall>b<j. i < b \<longrightarrow> k (xs ! i) \<le> k (xs ! b)"
  shows "front_sorted k i (swap_if k i j xs)" "\<forall>b<Suc j. i < b \<longrightarrow> k (swap_if k i j xs ! i) \<le> k (swap_if k i j xs ! b)"
proof -
  show "front_sorted k i (swap_if k i j xs)"
    using assms(1-3) by (auto simp: front_sorted_def swap_if_def nth_list_update)
  show "\<forall>b<Suc j. i < b \<longrightarrow> k (swap_if k i j xs ! i) \<le> k (swap_if k i j xs ! b)"
    using assms(2-4) by (auto simp: swap_if_def nth_list_update less_Suc_eq intro: order.trans less_imp_le)
qed

lemma inner_loop:
  assumes "front_sorted k i xs" "i < n" "n \<le> length xs"
  defines "ys \<equiv> fold (swap_if k i) [i + 1..<n] xs"
  shows "front_sorted k i ys \<and> (\<forall>b<n. i < b \<longrightarrow> k (ys ! i) \<le> k (ys ! b)) \<and> length ys = length xs \<and> mset ys = mset xs"
  using assms(2,3) unfolding ys_def
proof (induction n)
  case (Suc n)
  show ?case
  proof (cases "i < n")
    case True
    let ?zs = "fold (swap_if k i) [i + 1..<n] xs"
    have IH: "front_sorted k i ?zs" "\<forall>b<n. i < b \<longrightarrow> k (?zs ! i) \<le> k (?zs ! b)" "length ?zs = length xs" "mset ?zs = mset xs"
      using Suc.IH True Suc.prems by simp_all
    have "fold (swap_if k i) [i + 1..<Suc n] xs = swap_if k i n ?zs" using True by simp
    then show ?thesis
      using swap_if_step [OF IH(1) True _ IH(2)] swap_if_mset [of i ?zs n k] IH(3,4) Suc.prems by simp
  next
    case False
    then have "i = n" using Suc.prems by simp
    then show ?thesis using assms(1) by simp
  qed
qed simp

lemma outer_loop:
  fixes k :: "'a \<Rightarrow> 'k::linorder"
  assumes "n \<le> length xs"
  defines "ys \<equiv> fold (\<lambda>i xs'. fold (swap_if k i) [i + 1..<length xs] xs') [0..<n] xs"
  shows "front_sorted k n ys \<and> length ys = length xs \<and> mset ys = mset xs"
  using assms(1) unfolding ys_def
proof (induction n)
  case (Suc n)
  let ?zs = "fold (\<lambda>i xs'. fold (swap_if k i) [i + 1..<length xs] xs') [0..<n] xs"
  have IH: "front_sorted k n ?zs" "length ?zs = length xs" "mset ?zs = mset xs" using Suc by simp_all
  let ?us = "fold (swap_if k n) [n + 1..<length xs] ?zs"
  have "front_sorted k n ?us" "\<forall>b<length xs. n < b \<longrightarrow> k (?us ! n) \<le> k (?us ! b)" "length ?us = length xs" "mset ?us = mset xs"
    using inner_loop [OF IH(1), of "length xs"] IH(2,3) Suc.prems by simp_all
  then show ?case by (simp add: front_sorted_def less_Suc_eq)
qed (simp add: front_sorted_def)

lemma exchange_sorts:
  assumes "inj_on k (set xs)"
  shows "fold (\<lambda>i xs'. fold (swap_if k i) [i + 1..<length xs] xs') [0..<length xs] xs = sort_key k xs"
proof -
  let ?ys = "fold (\<lambda>i xs'. fold (swap_if k i) [i + 1..<length xs] xs') [0..<length xs] xs"
  have y: "front_sorted k (length xs) ?ys" "length ?ys = length xs" "mset ?ys = mset xs"
    using outer_loop [of "length xs" xs k] by simp_all
  have "sorted (map k ?ys)" using y(1,2) by (simp add: front_sorted_def sorted_iff_nth_mono_less)
  moreover have "mset xs = mset ?ys" using y(3) by simp
  ultimately show ?thesis using sort_key_inj_key_eq [OF _ assms] by simp
qed

lemma sort_order_sorts:
  assumes "table_ok s"
  shows "sort_order s (open_slots s) = sort_key (\<lambda>i. win_z (win_at s i)) (open_slots s)"
proof -
  have "order_swap s = swap_if (\<lambda>i. win_z (win_at s i))" by (simp add: fun_eq_iff order_swap_def swap_if_def)
  moreover have "inj_on (\<lambda>i. win_z (win_at s i)) (set (open_slots s))"
    using assms by (auto simp: inj_on_def open_slots_def table_ok_def)
  ultimately show ?thesis using exchange_sorts unfolding sort_order_def Let_def by simp
qed

lemma draw_all_cong: "fold (\<lambda>i s. draw_window (win_id (win_at s i)) s) xs s = fold draw_window (map (\<lambda>i. win_id (win_at s i)) xs) s"
  by (induction xs arbitrary: s) simp_all

text \<open>
  C20: redrawing. The windows that are open are drawn one after the other from the lowest to the highest, so that each is
  painted over the ones below it: the exchange loops order the slots as a stable sort by height does.
\<close>

theorem windows_redraw_bottom_up:
  assumes "table_ok s"
  shows "redraw_all s =
    fold draw_window (map (\<lambda>i. win_id (win_at s i)) (sort_key (\<lambda>i. win_z (win_at s i)) (filter (\<lambda>i. is_open (win_at s i)) [0..<8]))) s"
  unfolding redraw_all_def draw_all_cong sort_order_sorts [OF assms]
  unfolding open_slots_def by (rule refl)

definition two_windows :: wm where
  "two_windows = wm_run [Create (bytes_of ''a'') 0 0 30 30, Create (bytes_of ''b'') 5 5 30 30, Front 1] demo_screen"

lemma two_windows_ok: "table_ok two_windows"
  unfolding two_windows_def using run_within [of "[Create (bytes_of ''a'') 0 0 30 30, Create (bytes_of ''b'') 5 5 30 30, Front 1]" True]
  by (simp add: wm_within_def table_ok_inv)

text \<open>The first window was raised: it is drawn last.\<close>

lemma two_windows_table:
  "WINDOWS two_windows = [new_window 1 3 (bytes_of ''a'') 0 0 30 30, new_window 2 2 (bytes_of ''b'') 5 5 30 30] @ replicate 6 no_window"
  "TOP_Z two_windows = 3" "FB_W two_windows = 40" "FB_H two_windows = 30"
  by (simp_all add: two_windows_def wm_run_def win_create_def bring_to_front_def find_slot_def find_by_id_def win_at_def win_upd_def
      boot_fields new_window_def no_window_def known_def is_open_def Let_def upt_rec numeral_eq_Suc)

lemma two_windows_at:
  "win_at two_windows 0 = new_window 1 3 (bytes_of ''a'') 0 0 30 30" "win_at two_windows 1 = new_window 2 2 (bytes_of ''b'') 5 5 30 30"
  "filter (\<lambda>i. is_open (win_at two_windows i)) [0..<8] = [0, 1]"
  by (simp_all add: two_windows_table win_at_def new_window_def no_window_def is_open_def upt_rec numeral_eq_Suc)

lemma two_windows_first: "find_open_by_id 1 two_windows = Some 0"
  by (simp add: find_open_by_id_def two_windows_at new_window_def is_open_def upt_rec)

theorem windows_redraw_bottom_up_witness: "redraw_all two_windows = draw_window 1 (draw_window 2 two_windows)"
proof -
  note w = two_windows_at(1) two_windows_at(2) [unfolded One_nat_def]
  show ?thesis unfolding windows_redraw_bottom_up [OF two_windows_ok] two_windows_at(3) by (simp add: w new_window_def)
qed

section \<open>The mouse\<close>

lemma open_distinct_z:
  "table_ok s \<Longrightarrow> i < 8 \<Longrightarrow> j < 8 \<Longrightarrow> i \<noteq> j \<Longrightarrow> is_open (win_at s i) \<Longrightarrow> is_open (win_at s j) \<Longrightarrow>
     win_z (win_at s j) \<le> win_z (win_at s i) \<Longrightarrow> win_z (win_at s j) < win_z (win_at s i)"
  unfolding table_ok_def by (metis order_le_less)

lemma raised_above:
  assumes "table_ok s" "find_by_id n s = Some i" "TOP_Z s < 2 ^ 32 - 1" "j < 8" "j \<noteq> i"
  shows "win_z (win_at (bring_to_front n s) j) < win_z (win_at (bring_to_front n s) i)"
proof -
  have z: "TOP_Z s < TOP_Z s + 1" using assms(3) by (simp add: word_less_nat_alt unat_word_ariths(1))
  have l: "length (WINDOWS s) = 8" "win_z (win_at s j) \<le> TOP_Z s" using assms(1,4) by (auto simp: table_ok_def)
  show ?thesis using assms(5) l(2) z by (simp add: front_win_at [OF assms(2) l(1)] le_less_trans)
qed

text \<open>
  C21: clicks go to the window that is seen. A click on a point that open windows cover is handed to the highest of them;
  unless it is on one of the two buttons, that window is raised above all others. A click beside all windows changes nothing.
\<close>

theorem window_click_topmost:
  assumes "table_ok s" "TOP_Z s < 2 ^ 32 - 1" "handle_mouse mx my True s = ((n, action), s')"
  shows "(if \<exists>i<8. over_window mx my (win_at s i)
    then \<exists>i<8. over_window mx my (win_at s i) \<and> n = win_id (win_at s i) \<and>
      (\<forall>j<8. j \<noteq> i \<longrightarrow> over_window mx my (win_at s j) \<longrightarrow> win_z (win_at s j) < win_z (win_at s i)) \<and>
      (action \<notin> {2, 4} \<longrightarrow> (\<forall>j<8. j \<noteq> i \<longrightarrow> win_z (win_at s' j) < win_z (win_at s' i)))
    else (n, action) = (0, 0) \<and> s' = s)"
proof (cases "top_slot mx my s")
  case None
  then show ?thesis using assms(3) top_slotD(2) [OF None] by (auto simp: handle_mouse_def)
next
  case (Some i)
  note t = top_slotD(1) [OF Some]
  have o: "is_open (win_at s i)" using t by (simp add: over_window_def)
  have f: "find_by_id (win_id (win_at s i)) s = Some i" using find_by_id_known [OF assms(1)] t o open_known by blast
  have n: "n = win_id (win_at s i)" using assms(3) Some by (auto simp: handle_mouse_def Let_def split: if_splits)
  have up: "win_z (win_at (win_upd i g (bring_to_front n s)) j) < win_z (win_at (win_upd i g (bring_to_front n s)) i)"
    if "j < 8" "j \<noteq> i" "harmless g" for g j
  proof -
    have "length (WINDOWS (bring_to_front n s)) = 8" using assms(1) by (simp add: bring_to_front_def Let_def table_ok_def split: option.split)
    then show ?thesis using raised_above [OF assms(1) f assms(2) that(1,2)] t that(2,3) n by (simp add: win_at_upd harmless_def)
  qed
  have bare: "win_z (win_at (bring_to_front n s) j) < win_z (win_at (bring_to_front n s) i)" if "j < 8" "j \<noteq> i" for j
    using raised_above [OF assms(1) f assms(2) that] n by simp
  have "action \<notin> {2, 4} \<longrightarrow> (\<forall>j<8. j \<noteq> i \<longrightarrow> win_z (win_at s' j) < win_z (win_at s' i))"
    using assms(3) Some up bare n
    by (auto simp: handle_mouse_def Let_def harmless_def split: if_splits)
  moreover have "\<forall>j<8. j \<noteq> i \<longrightarrow> over_window mx my (win_at s j) \<longrightarrow> win_z (win_at s j) < win_z (win_at s i)"
    using t o open_distinct_z [OF assms(1)] by (auto simp: over_window_def)
  ultimately show ?thesis using t n by auto
qed

theorem window_click_topmost_witness:
  "(\<exists>i<8. over_window 6 20 (win_at two_windows i) \<and> fst (fst (handle_mouse 6 20 True two_windows)) = win_id (win_at two_windows i) \<and>
     (\<forall>j<8. j \<noteq> i \<longrightarrow> over_window 6 20 (win_at two_windows j) \<longrightarrow> win_z (win_at two_windows j) < win_z (win_at two_windows i)))"
proof -
  have "over_window 6 20 (win_at two_windows 0)"
    by (simp add: two_windows_at new_window_def is_open_def over_window_def inside_def as_i32_def)
  then have ex: "\<exists>i<8. over_window 6 20 (win_at two_windows i)" by (intro exI [of _ 0]) simp
  have z: "TOP_Z two_windows < 2 ^ 32 - 1" by (simp add: two_windows_table)
  obtain n a s' where r: "handle_mouse 6 20 True two_windows = ((n, a), s')" by (metis prod.collapse)
  note t = window_click_topmost [OF two_windows_ok z r]
  then show ?thesis using ex unfolding r by (simp only: if_True fst_conv) blast
qed

section \<open>Dragging and minimising\<close>

lemma clamp_to_range:
  assumes "0 \<le> hi" "hi < 2 ^ 31"
  shows "uint (clamp_to v 0 hi) = max 0 (min v hi)"
proof -
  have "min (max v 0) hi = max 0 (min v hi)" "0 \<le> max 0 (min v hi)" "max 0 (min v hi) < 2 ^ 32" using assms by auto
  then show ?thesis by (simp add: clamp_to_def uint_word_of_int_eq take_bit_int_eq_self_iff)
qed

lemma axis_room:
  fixes W w :: u32
  assumes "w \<le> W" "W < 2 ^ 31"
  shows "i32 (as_i32 W - as_i32 w) = uint W - uint w" "0 \<le> uint W - uint w" "uint W - uint w < 2 ^ 31"
proof -
  have u: "uint w \<le> uint W" "uint W < 2147483648" "0 \<le> uint w" using assms by (simp_all add: word_le_def word_less_def)
  have "i32 (uint W) = uint W" "i32 (uint w) = uint w" "i32 (uint W - uint w) = uint W - uint w"
    using u by (intro i32_idI; linarith)+
  then show "i32 (as_i32 W - as_i32 w) = uint W - uint w" by (simp add: as_i32_def)
  have "uint W - uint w < 2147483648" using u by linarith
  then show "0 \<le> uint W - uint w" "uint W - uint w < 2 ^ 31" using u(1) by simp_all
qed

lemma axis_fits:
  fixes W w x :: u32
  assumes "uint x = max 0 (min v (uint W - uint w))" "0 \<le> uint W - uint w"
  shows "unat x + unat w \<le> unat W"
proof -
  have "uint x + uint w \<le> uint W" using assms by linarith
  then show ?thesis using uint_nat [of x] uint_nat [of w] uint_nat [of W] by linarith
qed

text \<open>
  C28: dragging. A window that fits on the screen follows the mouse with the distance at which it was taken hold of, stops
  at the edges of the screen, so that it is visible in full, and keeps its size; no other window moves.
\<close>

theorem window_drag_on_screen:
  fixes mx my :: int
  assumes "table_ok s" "find_by_id n s = Some i" "dragging (win_at s i)"
    "win_w (win_at s i) \<le> FB_W s" "win_h (win_at s i) \<le> FB_H s" "FB_W s < 2 ^ 31" "FB_H s < 2 ^ 31"
  defines "s' \<equiv> drag_update n mx my s" and "w \<equiv> win_at s i"
  shows "uint (win_x (win_at s' i)) = max 0 (min (i32 (mx - drag_off_x w)) (uint (FB_W s) - uint (win_w w))) \<and>
    uint (win_y (win_at s' i)) = max 0 (min (i32 (my - drag_off_y w)) (uint (FB_H s) - uint (win_h w))) \<and>
    win_w (win_at s' i) = win_w w \<and> win_h (win_at s' i) = win_h w \<and>
    unat (win_x (win_at s' i)) + unat (win_w w) \<le> unat (FB_W s) \<and> unat (win_y (win_at s' i)) + unat (win_h w) \<le> unat (FB_H s) \<and>
    (\<forall>j<8. j \<noteq> i \<longrightarrow> win_at s' j = win_at s j)"
proof -
  let ?x = "clamp_to (i32 (mx - drag_off_x w)) 0 (i32 (as_i32 (FB_W s) - as_i32 (win_w w)))"
  let ?y = "clamp_to (i32 (my - drag_off_y w)) 0 (i32 (as_i32 (FB_H s) - as_i32 (win_h w)))"
  note rx = axis_room [OF assms(4,6)] and ry = axis_room [OF assms(5,7)]
  have x: "uint ?x = max 0 (min (i32 (mx - drag_off_x w)) (uint (FB_W s) - uint (win_w w)))"
    using rx clamp_to_range by (simp add: w_def)
  have y: "uint ?y = max 0 (min (i32 (my - drag_off_y w)) (uint (FB_H s) - uint (win_h w)))"
    using ry clamp_to_range by (simp add: w_def)
  have fits: "unat ?x + unat (win_w w) \<le> unat (FB_W s)" "unat ?y + unat (win_h w) \<le> unat (FB_H s)"
    using axis_fits [OF x] axis_fits [OF y] rx(2) ry(2) by (simp_all add: w_def)
  have l: "length (WINDOWS s) = 8" "i < 8" using assms(1) find_by_idD [OF assms(2)] by (simp_all add: table_ok_def)
  have d: "s' = (if ?x \<noteq> win_x w \<or> ?y \<noteq> win_y w
      then draw_window n (save_window_bg i (win_upd i (move_window ?x ?y) (restore_window_bg i s))) else s)"
    unfolding s'_def drag_update_def assms(2) option.case Let_def using assms(3) by (simp only: w_def not_True_eq_False if_False)
  have v: "win_x (win_at s' i) = ?x \<and> win_y (win_at s' i) = ?y \<and> win_w (win_at s' i) = win_w w \<and>
     win_h (win_at s' i) = win_h w \<and> (\<forall>j<8. j \<noteq> i \<longrightarrow> win_at s' j = win_at s j)"
  proof (cases "?x \<noteq> win_x w \<or> ?y \<noteq> win_y w")
    case True
    have "win_at s' j = (if j = i then move_window ?x ?y w else win_at s j)" for j
      unfolding d if_P [OF True] using l by (simp add: win_at_upd w_def)
    then show ?thesis by (simp add: move_window_def)
  next
    case False
    then show ?thesis unfolding d if_not_P [OF False] by (simp add: w_def)
  qed
  then show ?thesis using x y fits by simp
qed

text \<open>The first window, taken hold of at its title, and the mouse moved far to the right.\<close>

definition held_window :: wm where
  "held_window = win_upd 0 (\<lambda>w. w\<lparr>dragging := True, drag_off_x := 5, drag_off_y := 3\<rparr>) two_windows"

lemma held_window_facts: "table_ok held_window" "find_by_id 1 held_window = Some 0"
  "win_at held_window 0 = (win_at two_windows 0)\<lparr>dragging := True, drag_off_x := 5, drag_off_y := 3\<rparr>"
proof -
  have l: "length (WINDOWS two_windows) = 8" using two_windows_ok by (simp add: table_ok_def)
  show h: "win_at held_window 0 = (win_at two_windows 0)\<lparr>dragging := True, drag_off_x := 5, drag_off_y := 3\<rparr>"
    using l by (simp add: held_window_def win_at_upd)
  show t: "table_ok held_window"
    unfolding held_window_def by (rule table_inv_upd [OF two_windows_ok [unfolded table_ok_inv], folded table_ok_inv]) (simp_all add: is_open_def known_def)
  have "known (win_at held_window 0)" "win_id (win_at held_window 0) = 1"
    using h by (simp_all add: known_def is_open_def two_windows_at new_window_def)
  then show "find_by_id 1 held_window = Some 0" using find_by_id_known [OF t, of 0] by simp
qed

theorem window_drag_on_screen_witness:
  "uint (win_x (win_at (drag_update 1 1000 4 held_window) 0)) = 10 \<and> uint (win_y (win_at (drag_update 1 1000 4 held_window) 0)) = 0"
proof -
  have s: "FB_W held_window = 40" "FB_H held_window = 30" by (simp_all add: held_window_def two_windows_table)
  note t = window_drag_on_screen [OF held_window_facts(1,2), of 1000 4]
  show ?thesis using t s by (simp add: held_window_facts(3) two_windows_at new_window_def i32_idI)
qed

lemma minimize_win_at:
  assumes "find_by_id n s = Some i" "is_open (win_at s i)" "length (WINDOWS s) = 8"
  shows "win_at (win_minimize n s) j =
    (if j = i then (win_at s i)\<lparr>saved_x := win_x (win_at s i), saved_y := win_y (win_at s i), minimized := True, win_state := Closed\<rparr>
     else win_at s j)"
  using assms find_by_idD [OF assms(1)] by (simp add: win_minimize_def win_at_upd)

text \<open>
  minimising and restoring. A window that is minimised and restored is where it was, of the same size and above
  all others; the other windows are not changed.
\<close>

theorem window_minimize_restore:
  assumes "table_ok s" "find_open_by_id n s = Some i"
  defines "s' \<equiv> win_restore n (win_minimize n s)"
  shows "win_at s' i = (win_at s i)\<lparr>saved_x := win_x (win_at s i), saved_y := win_y (win_at s i), minimized := False, win_z := TOP_Z s'\<rparr> \<and>
    TOP_Z s' = TOP_Z s + 1 \<and> (\<forall>j<8. j \<noteq> i \<longrightarrow> win_at s' j = win_at s j)"
proof -
  note o = find_open_by_idD [OF assms(2)]
  have l: "length (WINDOWS s) = 8" using assms(1) by (simp add: table_ok_def)
  have f: "find_by_id n s = Some i" using find_by_id_known [OF assms(1), of i] o open_known by auto
  let ?m = "win_minimize n s"
  have m: "win_at ?m j = (if j = i then (win_at s i)\<lparr>saved_x := win_x (win_at s i), saved_y := win_y (win_at s i), minimized := True,
      win_state := Closed\<rparr> else win_at s j)" for j
    using minimize_win_at [OF f _ l] o by blast
  have "find_by_id n ?m = find_by_id n s"
    unfolding find_by_id_def by (rule find_first_cong) (use m o in \<open>auto simp: known_def\<close>)
  then have fm: "find_by_id n ?m = Some i" using f by simp
  have lm: "length (WINDOWS ?m) = 8" "TOP_Z ?m = TOP_Z s" using l f o by (simp_all add: win_minimize_def)
  have r: "win_at s' j = (if j = i then (win_at ?m i)\<lparr>win_x := saved_x (win_at ?m i), win_y := saved_y (win_at ?m i),
      minimized := False, win_state := Opened, win_z := TOP_Z s + 1\<rparr> else win_at ?m j)" for j
    using fm lm m [of i] o by (simp add: s'_def win_restore_def Let_def win_at_upd)
  moreover have "TOP_Z s' = TOP_Z s + 1" using fm lm m [of i] by (simp add: s'_def win_restore_def Let_def)
  ultimately show ?thesis using m o by (simp add: is_open_def)
qed

theorem window_minimize_restore_witness:
  "win_x (win_at (win_restore 1 (win_minimize 1 two_windows)) 0) = win_x (win_at two_windows 0)"
  using window_minimize_restore [OF two_windows_ok two_windows_first] by simp

text \<open>
  C29: minimised windows get lost. The slot of a minimised window counts as free: if the slots before it are in use, the
  next window that is created takes its place and it cannot be found any more. Closing a minimised window, on the other
  hand, does not remove it: it is restored all the same.
\<close>

theorem minimized_window_lost:
  assumes "table_ok s" "find_open_by_id n s = Some i" "\<forall>j<i. is_open (win_at s j)"
  shows "find_by_id n (snd (win_create title x y w h (win_minimize n s))) = None \<and>
    is_open (win_at (win_restore n (win_close n (win_minimize n s))) i)"
proof -
  note o = find_open_by_idD [OF assms(2)]
  have l: "length (WINDOWS s) = 8" using assms(1) by (simp add: table_ok_def)
  have f: "find_by_id n s = Some i" using find_by_id_known [OF assms(1), of i] o open_known by auto
  let ?m = "win_minimize n s"
  have m: "win_at ?m j = (if j = i then (win_at s i)\<lparr>saved_x := win_x (win_at s i), saved_y := win_y (win_at s i), minimized := True,
      win_state := Closed\<rparr> else win_at s j)" for j
    using minimize_win_at [OF f _ l] o by blast
  have lm: "length (WINDOWS ?m) = 8" "NEXT_ID ?m = NEXT_ID s" using l f o by (simp_all add: win_minimize_def)
  have "find_slot ?m = Some i"
  proof (cases "find_slot ?m")
    case None
    then have "win_state (win_at ?m i) \<noteq> Closed" using o by (simp add: find_slot_def)
    then show ?thesis using m [of i] by simp
  next
    case (Some k)
    then have k: "win_state (win_at ?m k) = Closed" unfolding find_slot_def by (auto dest: find_first_Some)
    have "\<not> i < k" using find_first_least [OF Some [unfolded find_slot_def], of i] m [of i] o by auto
    moreover have "\<not> k < i" using k m [of k] assms(3) by (auto simp: is_open_def)
    ultimately show ?thesis using Some by simp
  qed
  then have c: "win_at (snd (win_create title x y w h ?m)) j = (if j = i then new_window (NEXT_ID s) (TOP_Z ?m + 1) title x y w h else win_at ?m j)" for j
    using lm o by (simp add: win_create_def Let_def win_at_upd)
  have "\<not> (win_id (win_at (snd (win_create title x y w h ?m)) j) = n \<and> known (win_at (snd (win_create title x y w h ?m)) j))" if "j < 8" for j
    using c [of j] m [of j] assms(1) o that open_known [of "win_at s i"] by (auto simp: table_ok_def new_window_def)
  then have gone: "find_by_id n (snd (win_create title x y w h ?m)) = None" by (simp add: find_by_id_def)
  have same: "find_by_id n t = Some i" if "\<And>j. j < 8 \<Longrightarrow> win_id (win_at t j) = win_id (win_at s j) \<and> known (win_at t j) = known (win_at s j)" for t
  proof -
    have "find_by_id n t = find_by_id n s" unfolding find_by_id_def by (rule find_first_cong) (use that in auto)
    then show ?thesis using f by simp
  qed
  have fm: "find_by_id n ?m = Some i" by (rule same) (use m o in \<open>auto simp: known_def\<close>)
  have cl: "win_at (win_close n ?m) j = (if j = i then (win_at ?m i)\<lparr>win_state := Closed\<rparr> else win_at ?m j)" for j
    using fm lm o by (simp add: win_close_def win_at_upd)
  have fc: "find_by_id n (win_close n ?m) = Some i" by (rule same) (use cl m o in \<open>auto simp: known_def\<close>)
  have "length (WINDOWS (win_close n ?m)) = 8" using fm lm by (simp add: win_close_def)
  then have "is_open (win_at (win_restore n (win_close n ?m)) i)"
    using fc cl [of i] m [of i] o by (simp add: win_restore_def Let_def win_at_upd is_open_def)
  then show ?thesis using gone by simp
qed

theorem minimized_window_lost_witness:
  "find_by_id 1 (snd (win_create (bytes_of ''c'') 0 0 50 50 (win_minimize 1 two_windows))) = None"
  using minimized_window_lost [OF two_windows_ok two_windows_first] by simp


end
