(* ===== verification/Hid.thy ===== *)
theory Hid
  imports Framebuffer Keyboard
begin

unbundle bit_operations_syntax

text \<open>
  The USB keyboard and mouse of \<open>src/kernel/src/usb/hid.rs\<close>: boot reports become characters in a ring of sixteen, with a
  repeat of the key that is held, and movements of a cursor that is drawn over the screen.

  The ring is a second interpretation of \<open>bounded_queue\<close>. The cursor's state extends the framebuffer; \<open>beneath\<close> is the
  picture without the cursor, and no operation of the cursor changes it.
\<close>

section \<open>Keyboard\<close>

record hid =
  LAST_KEYS :: bytes
  LAST_MODS :: u8
  KEY_BUF :: bytes
  KEY_BUF_RD :: nat
  KEY_BUF_WR :: nat
  REPEAT_KEY :: u8
  REPEAT_MODS :: u8
  REPEAT_COUNTER :: u32
  REPEAT_ACTIVE :: bool

abbreviation (input) REPEAT_DELAY :: u32 where "REPEAT_DELAY \<equiv> 30"
abbreviation (input) REPEAT_RATE :: u32 where "REPEAT_RATE \<equiv> 6"
abbreviation (input) KEY_BUF_SIZE :: nat where "KEY_BUF_SIZE \<equiv> 16"

definition hid_boot :: hid where
  "hid_boot = \<lparr>LAST_KEYS = replicate 6 0, LAST_MODS = 0, KEY_BUF = replicate 16 0, KEY_BUF_RD = 0, KEY_BUF_WR = 0,
     REPEAT_KEY = 0, REPEAT_MODS = 0, REPEAT_COUNTER = 0, REPEAT_ACTIVE = False\<rparr>"

definition push_key :: "u8 \<Rightarrow> hid \<Rightarrow> hid" where
  "push_key ch s =
     (let next = (KEY_BUF_WR s + 1) mod KEY_BUF_SIZE
      in if next \<noteq> KEY_BUF_RD s then s\<lparr>KEY_BUF := (KEY_BUF s)[KEY_BUF_WR s := ch], KEY_BUF_WR := next\<rparr> else s)"

definition hid_read_key :: "hid \<Rightarrow> u8 option \<times> hid" where
  "hid_read_key s =
     (if KEY_BUF_RD s = KEY_BUF_WR s then (None, s)
      else (Some (KEY_BUF s ! KEY_BUF_RD s), s\<lparr>KEY_BUF_RD := (KEY_BUF_RD s + 1) mod KEY_BUF_SIZE\<rparr>))"

definition last_has :: "u8 \<Rightarrow> hid \<Rightarrow> bool" where
  "last_has key s \<longleftrightarrow> list_ex (\<lambda>i. LAST_KEYS s ! i = key) [0..<6]"

text \<open>Key code, character, character with shift.\<close>

definition hid_table :: "(u8 \<times> u8 \<times> u8) list" where
  "hid_table =
    [(0x04, 0x61, 0x41), (0x05, 0x62, 0x42), (0x06, 0x63, 0x43), (0x07, 0x64, 0x44), (0x08, 0x65, 0x45),
     (0x09, 0x66, 0x46), (0x0A, 0x67, 0x47), (0x0B, 0x68, 0x48), (0x0C, 0x69, 0x49), (0x0D, 0x6A, 0x4A),
     (0x0E, 0x6B, 0x4B), (0x0F, 0x6C, 0x4C), (0x10, 0x6D, 0x4D), (0x11, 0x6E, 0x4E), (0x12, 0x6F, 0x4F),
     (0x13, 0x70, 0x50), (0x14, 0x71, 0x51), (0x15, 0x72, 0x52), (0x16, 0x73, 0x53), (0x17, 0x74, 0x54),
     (0x18, 0x75, 0x55), (0x19, 0x76, 0x56), (0x1A, 0x77, 0x57), (0x1B, 0x78, 0x58), (0x1C, 0x79, 0x59),
     (0x1D, 0x7A, 0x5A), (0x1E, 0x31, 0x21), (0x1F, 0x32, 0x40), (0x20, 0x33, 0x23), (0x21, 0x34, 0x24),
     (0x22, 0x35, 0x25), (0x23, 0x36, 0x5E), (0x24, 0x37, 0x26), (0x25, 0x38, 0x2A), (0x26, 0x39, 0x28),
     (0x27, 0x30, 0x29), (0x28, 0x0A, 0x0A), (0x29, 0x1B, 0x1B), (0x2A, 0x08, 0x08), (0x2B, 0x09, 0x09),
     (0x2C, 0x20, 0x20), (0x2D, 0x2D, 0x5F), (0x2E, 0x3D, 0x2B), (0x2F, 0x5B, 0x7B), (0x30, 0x5D, 0x7D),
     (0x31, 0x5C, 0x7C), (0x32, 0x3B, 0x3A), (0x33, 0x27, 0x22), (0x34, 0x60, 0x7E), (0x35, 0x2C, 0x3C),
     (0x36, 0x2E, 0x3E), (0x37, 0x2F, 0x3F), (0x59, 0x31, 0x31), (0x5A, 0x32, 0x32), (0x5B, 0x33, 0x33),
     (0x5C, 0x34, 0x34), (0x5D, 0x35, 0x35), (0x5E, 0x36, 0x36), (0x5F, 0x37, 0x37), (0x60, 0x38, 0x38),
     (0x61, 0x39, 0x39), (0x62, 0x30, 0x30)]"

definition keycode_to_ascii :: "u8 \<Rightarrow> u8 \<Rightarrow> u8 option" where
  "keycode_to_ascii key mods =
     (let shift = mods AND 0x22 \<noteq> 0; ctrl = mods AND 0x11 \<noteq> 0; alt = mods AND 0x44 \<noteq> 0
      in if ctrl \<and> alt then None
         else if key = 0xE3 \<or> key = 0xE7 then Some KEY_META
         else map_option (\<lambda>(plain, shifted). if shift then shifted else plain) (map_of hid_table key))"

definition type_key :: "u8 \<Rightarrow> u8 \<Rightarrow> hid \<Rightarrow> hid" where
  "type_key key mods s = (case keycode_to_ascii key mods of None \<Rightarrow> s | Some ch \<Rightarrow> push_key ch s)"

text \<open>The keys that were not down before are typed; the result tells whether there were any.\<close>

fun new_keys :: "u8 \<Rightarrow> bytes \<Rightarrow> bool \<Rightarrow> hid \<Rightarrow> bool \<times> hid" where
  "new_keys mods [] any s = (any, s)"
| "new_keys mods (k # ks) any s =
     (if k = 0 \<or> last_has k s then new_keys mods ks any s else new_keys mods ks True (type_key k mods s))"

definition start_repeat :: "u8 \<Rightarrow> u8 \<Rightarrow> hid \<Rightarrow> hid" where
  "start_repeat key mods s = s\<lparr>REPEAT_KEY := key, REPEAT_MODS := mods, REPEAT_COUNTER := 1, REPEAT_ACTIVE := False\<rparr>"

definition held_key :: "u8 \<Rightarrow> hid \<Rightarrow> hid" where
  "held_key mods s =
     (let s = s\<lparr>REPEAT_COUNTER := REPEAT_COUNTER s + 1\<rparr>
      in if \<not> REPEAT_ACTIVE s \<and> REPEAT_COUNTER s \<ge> REPEAT_DELAY
         then type_key (REPEAT_KEY s) mods (s\<lparr>REPEAT_ACTIVE := True, REPEAT_COUNTER := 0\<rparr>)
         else if REPEAT_ACTIVE s \<and> REPEAT_COUNTER s \<ge> REPEAT_RATE
         then type_key (REPEAT_KEY s) mods (s\<lparr>REPEAT_COUNTER := 0\<rparr>)
         else s)"

text \<open>A report of eight bytes.\<close>

definition process_report :: "bytes \<Rightarrow> hid \<Rightarrow> hid" where
  "process_report report s =
     (let mods = report ! 0; keys = take 6 (drop 2 report);
          (any_new, s) = new_keys mods keys False s;
          first_key = (case find_first (\<lambda>k. k \<noteq> 0) keys of None \<Rightarrow> 0 | Some k \<Rightarrow> k);
          s = (if first_key = 0 then s\<lparr>REPEAT_KEY := 0, REPEAT_COUNTER := 0, REPEAT_ACTIVE := False\<rparr>
               else if any_new then start_repeat first_key mods s
               else if first_key = REPEAT_KEY s then held_key mods s
               else start_repeat first_key mods s)
      in s\<lparr>LAST_KEYS := keys, LAST_MODS := mods\<rparr>)"

section \<open>Mouse and cursor\<close>

record cursor = fbuf +
  CUR_X :: int
  CUR_Y :: int
  CUR_BUTTONS :: u8
  CURSOR_BG :: "u32 list"
  CURSOR_VISIBLE :: bool
  CURSOR_DIRTY :: bool
  BG_SAVED_X :: int
  BG_SAVED_Y :: int

abbreviation (input) CURSOR_W :: nat where "CURSOR_W \<equiv> 12"
abbreviation (input) CURSOR_H :: nat where "CURSOR_H \<equiv> 16"
abbreviation (input) CURSOR_BG_W :: nat where "CURSOR_BG_W \<equiv> 14"
abbreviation (input) CURSOR_BG_H :: nat where "CURSOR_BG_H \<equiv> 18"

definition cursor_boot :: "fbuf \<Rightarrow> cursor" where
  "cursor_boot f = fbuf.extend f (cursor.fields 0 0 0 (replicate (14 * 18) 0) False True 0 0)"

definition CURSOR_BITMAP :: "u16 list" where
  "CURSOR_BITMAP = [0x800, 0xC00, 0xE00, 0xF00, 0xF80, 0xFC0, 0xFE0, 0xFF0, 0xFF8, 0xFFC, 0xFFE, 0xFFF, 0xFE0, 0xCE0, 0x060, 0x030]"

definition process_mouse_report :: "u32 \<Rightarrow> bytes \<Rightarrow> 'a cursor_scheme \<Rightarrow> 'a cursor_scheme" where
  "process_mouse_report sens report s =
     (let dx = quot_i32 (i32 (sint (report ! 1) * as_i32 sens)) 5;
          dy = quot_i32 (i32 (sint (report ! 2) * as_i32 sens)) 5;
          s = s\<lparr>CUR_BUTTONS := report ! 0 AND 0x07\<rparr>;
          new_x = min (max (i32 (CUR_X s + dx)) 0) (i32 (as_i32 (FB_W s) - 1));
          new_y = min (max (i32 (CUR_Y s + dy)) 0) (i32 (as_i32 (FB_H s) - 1))
      in if new_x \<noteq> CUR_X s \<or> new_y \<noteq> CUR_Y s
         then s\<lparr>CUR_X := new_x, CUR_Y := new_y, CURSOR_DIRTY := True\<rparr> else s)"

text \<open>The cells of the saved area: index in the buffer and position on the screen.\<close>

definition cursor_cells :: "int \<Rightarrow> int \<Rightarrow> (nat \<times> int \<times> int) list" where
  "cursor_cells x y =
     concat (map (\<lambda>row. map (\<lambda>col. (row * CURSOR_BG_W + col, i32 (i32 (x - 1) + int col), i32 (i32 (y - 1) + int row)))
       [0..<CURSOR_BG_W]) [0..<CURSOR_BG_H])"

definition saved_pixel :: "int \<Rightarrow> int \<Rightarrow> 'a cursor_scheme \<Rightarrow> u32" where
  "saved_pixel fx fy s =
     (if fx \<ge> 0 \<and> fy \<ge> 0 \<and> fx < as_i32 (FB_W s) \<and> fy < as_i32 (FB_H s)
      then case fb_get (word_of_int fx) (word_of_int fy) s of
             Some (r, g, b) \<Rightarrow> ucast r OR push_bit 8 (ucast g) OR push_bit 16 (ucast b)
           | None \<Rightarrow> 0
      else 0)"

definition save_cursor_bg :: "'a cursor_scheme \<Rightarrow> 'a cursor_scheme" where
  "save_cursor_bg s =
     fold (\<lambda>(i, fx, fy) s. s\<lparr>CURSOR_BG := (CURSOR_BG s)[i := saved_pixel fx fy s]\<rparr>)
       (cursor_cells (CUR_X s) (CUR_Y s)) (s\<lparr>BG_SAVED_X := CUR_X s, BG_SAVED_Y := CUR_Y s\<rparr>)"

definition unpack_saved :: "u32 \<Rightarrow> rgb" where
  "unpack_saved p = (ucast (p AND 0xFF), ucast (drop_bit 8 p AND 0xFF), ucast (drop_bit 16 p AND 0xFF))"

definition restore_cursor_bg :: "'a cursor_scheme \<Rightarrow> 'a cursor_scheme" where
  "restore_cursor_bg s =
     fold (\<lambda>(i, fx, fy) s.
         if fx < 0 \<or> fy < 0 then s
         else fb_put (word_of_int fx) (word_of_int fy) (unpack_saved (CURSOR_BG s ! i)) s)
       (cursor_cells (BG_SAVED_X s) (BG_SAVED_Y s)) s"

definition bitmap_bit :: "nat \<Rightarrow> nat \<Rightarrow> bool" where
  "bitmap_bit r col \<longleftrightarrow> CURSOR_BITMAP ! r AND push_bit (CURSOR_W - 1 - col) 1 \<noteq> 0"

text \<open>The pixels of the arrow, and those next to one of them that are not set.\<close>

definition arrow_cells :: "(nat \<times> nat) list" where
  "arrow_cells = concat (map (\<lambda>row. map (\<lambda>col. (col, row)) (filter (bitmap_bit row) [0..<CURSOR_W])) [0..<CURSOR_H])"

definition outline_cells :: "(nat \<times> nat) list" where
  "outline_cells =
     concat (map (\<lambda>(col, row). concat (map (\<lambda>(dx, dy).
         let nx = int col + dx; ny = int row + dy
         in if nx < 0 \<or> nx \<ge> int CURSOR_W \<or> ny < 0 \<or> ny \<ge> int CURSOR_H then []
            else if bitmap_bit (nat ny) (nat nx) then [] else [(nat nx, nat ny)]) [(- 1, 0), (1, 0), (0, - 1), (0, 1)])) arrow_cells)"

definition put_cells :: "(nat \<times> nat) list \<Rightarrow> rgb \<Rightarrow> 'a cursor_scheme \<Rightarrow> 'a cursor_scheme" where
  "put_cells cells c s =
     fold (\<lambda>(col, row) s.
         let px = i32 (CUR_X s + int col); py = i32 (CUR_Y s + int row)
         in if px \<ge> 0 \<and> py \<ge> 0 then fb_put (word_of_int px) (word_of_int py) c s else s) cells s"

definition draw_cursor :: "'a cursor_scheme \<Rightarrow> 'a cursor_scheme" where
  "draw_cursor s = (put_cells outline_cells (0, 0, 0) (put_cells arrow_cells (255, 255, 255) s))\<lparr>CURSOR_VISIBLE := True, CURSOR_DIRTY := False\<rparr>"

definition hide_cursor :: "'a cursor_scheme \<Rightarrow> 'a cursor_scheme" where
  "hide_cursor s = (if CURSOR_VISIBLE s then (restore_cursor_bg s)\<lparr>CURSOR_VISIBLE := False\<rparr> else s)"

definition show_cursor :: "'a cursor_scheme \<Rightarrow> 'a cursor_scheme" where
  "show_cursor s = (if \<not> CURSOR_VISIBLE s then (draw_cursor (save_cursor_bg s))\<lparr>CURSOR_VISIBLE := True\<rparr> else s)"

definition hid_mouse_pos :: "'a cursor_scheme \<Rightarrow> int \<times> int" where
  "hid_mouse_pos s = (CUR_X s, CUR_Y s)"

definition hid_mouse_buttons :: "'a cursor_scheme \<Rightarrow> u8" where
  "hid_mouse_buttons s = CUR_BUTTONS s"

definition mouse_set_pos :: "int \<Rightarrow> int \<Rightarrow> 'a cursor_scheme \<Rightarrow> 'a cursor_scheme" where
  "mouse_set_pos x y s = s\<lparr>CUR_X := x, CUR_Y := y, CURSOR_DIRTY := True\<rparr>"

definition mouse_set_buttons :: "u8 \<Rightarrow> 'a cursor_scheme \<Rightarrow> 'a cursor_scheme" where
  "mouse_set_buttons b s = s\<lparr>CUR_BUTTONS := b\<rparr>"

definition update_cursor :: "'a cursor_scheme \<Rightarrow> 'a cursor_scheme" where
  "update_cursor s =
     (if CURSOR_DIRTY s \<or> \<not> CURSOR_VISIBLE s
      then draw_cursor (save_cursor_bg (if CURSOR_VISIBLE s then restore_cursor_bg s else s)) else s)"

definition init_mouse :: "'a cursor_scheme \<Rightarrow> 'a cursor_scheme" where
  "init_mouse s =
     (let x = quot_i32 (as_i32 (FB_W s)) 2; y = quot_i32 (as_i32 (FB_H s)) 2
      in s\<lparr>CUR_X := x, CUR_Y := y, CUR_BUTTONS := 0, CURSOR_VISIBLE := False, CURSOR_DIRTY := True, BG_SAVED_X := x, BG_SAVED_Y := y\<rparr>)"
section \<open>The ring of keys\<close>

definition hid_inv :: "hid \<Rightarrow> bool" where
  "hid_inv s \<longleftrightarrow> KEY_BUF_RD s < KEY_BUF_SIZE \<and> KEY_BUF_WR s < KEY_BUF_SIZE \<and> length (KEY_BUF s) = KEY_BUF_SIZE"

definition hid_queue :: "hid \<Rightarrow> bytes" where
  "hid_queue s = ring_items KEY_BUF_SIZE (nth (KEY_BUF s)) (KEY_BUF_RD s) (KEY_BUF_WR s)"

lemma ring_items_cong: "0 < n \<Longrightarrow> (\<And>i. i < n \<Longrightarrow> f i = g i) \<Longrightarrow> ring_items n f rd wr = ring_items n g rd wr"
  by (simp add: ring_items_def)

lemma push_key_queue:
  assumes "hid_inv s"
  shows "hid_inv (push_key c s) \<and>
    hid_queue (push_key c s) = (if length (hid_queue s) < 15 then hid_queue s @ [c] else hid_queue s)"
proof -
  have r: "KEY_BUF_RD s < 16" "KEY_BUF_WR s < 16" "length (KEY_BUF s) = 16" using assms by (simp_all add: hid_inv_def)
  have l: "length (hid_queue s) = ring_len 16 (KEY_BUF_RD s) (KEY_BUF_WR s)" by (simp add: hid_queue_def ring_items_def)
  have c: "ring_items 16 (nth ((KEY_BUF s)[KEY_BUF_WR s := c])) rd wr = ring_items 16 ((nth (KEY_BUF s))(KEY_BUF_WR s := c)) rd wr" for rd wr
    by (rule ring_items_cong) (auto simp: r nth_list_update)
  show ?thesis
    using r ring_full [OF r(1,2)] ring_push [OF r(1,2)] ring_len_less [OF r(1,2)] unfolding l
    by (auto simp: push_key_def Let_def hid_inv_def hid_queue_def c)
qed

lemma hid_read_queue:
  assumes "hid_inv s"
  shows "hid_inv (snd (hid_read_key s)) \<and>
    (case hid_queue s of [] \<Rightarrow> hid_read_key s = (None, s)
     | x # xs \<Rightarrow> fst (hid_read_key s) = Some x \<and> hid_queue (snd (hid_read_key s)) = xs)"
proof -
  have r: "KEY_BUF_RD s < 16" "KEY_BUF_WR s < 16" using assms by (simp_all add: hid_inv_def)
  show ?thesis
  proof (cases "KEY_BUF_RD s = KEY_BUF_WR s")
    case True
    then show ?thesis using assms by (simp add: hid_read_key_def hid_queue_def ring_empty)
  next
    case False
    then show ?thesis
      unfolding hid_queue_def ring_pop [OF r False] using assms by (simp add: hid_read_key_def hid_inv_def)
  qed
qed

interpretation hq: bounded_queue hid_inv hid_queue 15 push_key hid_read_key
  using push_key_queue hid_read_queue by unfold_locales blast+

section \<open>What a report types\<close>

lemma push_key_fields [simp]:
  "LAST_KEYS (push_key c s) = LAST_KEYS s" "REPEAT_KEY (push_key c s) = REPEAT_KEY s" "REPEAT_COUNTER (push_key c s) = REPEAT_COUNTER s"
  "REPEAT_ACTIVE (push_key c s) = REPEAT_ACTIVE s"
  by (simp_all add: push_key_def Let_def)

lemma type_key_fields [simp]:
  "LAST_KEYS (type_key k m s) = LAST_KEYS s" "REPEAT_KEY (type_key k m s) = REPEAT_KEY s"
  "REPEAT_COUNTER (type_key k m s) = REPEAT_COUNTER s" "REPEAT_ACTIVE (type_key k m s) = REPEAT_ACTIVE s"
  by (simp_all add: type_key_def split: option.split)

lemma hid_queue_fields [simp]:
  "hid_queue (s\<lparr>LAST_KEYS := ks\<rparr>) = hid_queue s" "hid_queue (s\<lparr>LAST_MODS := m\<rparr>) = hid_queue s"
  "hid_queue (s\<lparr>REPEAT_KEY := k\<rparr>) = hid_queue s" "hid_queue (s\<lparr>REPEAT_MODS := m\<rparr>) = hid_queue s"
  "hid_queue (s\<lparr>REPEAT_COUNTER := n\<rparr>) = hid_queue s" "hid_queue (s\<lparr>REPEAT_ACTIVE := b\<rparr>) = hid_queue s"
  "hid_inv (s\<lparr>LAST_KEYS := ks\<rparr>) = hid_inv s" "hid_inv (s\<lparr>LAST_MODS := m\<rparr>) = hid_inv s"
  "hid_inv (s\<lparr>REPEAT_KEY := k\<rparr>) = hid_inv s" "hid_inv (s\<lparr>REPEAT_MODS := m\<rparr>) = hid_inv s"
  "hid_inv (s\<lparr>REPEAT_COUNTER := n\<rparr>) = hid_inv s" "hid_inv (s\<lparr>REPEAT_ACTIVE := b\<rparr>) = hid_inv s"
  by (simp_all add: hid_queue_def hid_inv_def)

text \<open>The characters of the keys of a report that were not down in the one before.\<close>

definition fresh :: "bytes \<Rightarrow> bytes \<Rightarrow> bytes" where
  "fresh old keys = filter (\<lambda>k. k \<noteq> 0 \<and> k \<notin> set old) keys"

definition chars_of :: "u8 \<Rightarrow> bytes \<Rightarrow> bytes" where
  "chars_of mods keys = concat (map (\<lambda>k. case keycode_to_ascii k mods of None \<Rightarrow> [] | Some ch \<Rightarrow> [ch]) keys)"

lemma last_has_iff: "length (LAST_KEYS s) = 6 \<Longrightarrow> last_has k s \<longleftrightarrow> k \<in> set (LAST_KEYS s)"
  unfolding last_has_def list_ex_iff in_set_conv_nth by auto

lemma type_key_queue:
  assumes "hid_inv s"
  shows "hid_inv (type_key k mods s) \<and> hid_queue (type_key k mods s) = hid_queue s @ take (15 - length (hid_queue s)) (chars_of mods [k])"
  using hq.push [OF assms] assms by (auto simp: type_key_def chars_of_def split: option.split)

lemma new_keys_queue:
  fixes mods :: u8 and ks :: bytes and any :: bool
  assumes "hid_inv s" "length (LAST_KEYS s) = 6"
  defines "r \<equiv> new_keys mods ks any s"
  shows "fst r = (any \<or> fresh (LAST_KEYS s) ks \<noteq> []) \<and> hid_inv (snd r) \<and> LAST_KEYS (snd r) = LAST_KEYS s \<and>
    REPEAT_KEY (snd r) = REPEAT_KEY s \<and> REPEAT_COUNTER (snd r) = REPEAT_COUNTER s \<and> REPEAT_ACTIVE (snd r) = REPEAT_ACTIVE s \<and>
    hid_queue (snd r) = hid_queue s @ take (15 - length (hid_queue s)) (chars_of mods (fresh (LAST_KEYS s) ks))"
  using assms(1,2) unfolding r_def
proof (induction mods ks any s rule: new_keys.induct)
  case (1 mods any s)
  then show ?case by (simp add: fresh_def chars_of_def)
next
  case (2 mods k ks any s)
  show ?case
  proof (cases "k = 0 \<or> last_has k s")
    case True
    then have "fresh (LAST_KEYS s) (k # ks) = fresh (LAST_KEYS s) ks" using 2 by (auto simp: fresh_def last_has_iff)
    then show ?thesis using 2 True by simp
  next
    case False
    then have f: "fresh (LAST_KEYS s) (k # ks) = k # fresh (LAST_KEYS s) ks" using 2 by (auto simp: fresh_def last_has_iff)
    have t: "hid_inv (type_key k mods s)"
      "hid_queue (type_key k mods s) = hid_queue s @ take (15 - length (hid_queue s)) (chars_of mods [k])"
      using type_key_queue [OF 2(3)] by simp_all
    have c: "chars_of mods (k # xs) = chars_of mods [k] @ chars_of mods xs" for xs by (simp add: chars_of_def)
    have m: "15 - (l + min a (15 - l)) = 15 - (l + a)" for l a :: nat by (simp add: min_def)
    show ?thesis using 2(2) [OF False t(1)] 2(4) False unfolding f c [of "fresh (LAST_KEYS s) ks"] by (simp add: t(2) m)
  qed
qed

text \<open>
  keyboard reports. A report with newly pressed keys types their characters, with the modifiers of the report and in
  the order of the report, as far as the ring has room; keys that were down already and unknown ones type nothing.
\<close>

theorem hid_report_types_new_keys:
  assumes "hid_inv s" "length (LAST_KEYS s) = 6" "length report = 8" "fresh (LAST_KEYS s) (drop 2 report) \<noteq> []"
  shows "hid_queue (process_report report s) =
      hid_queue s @ take (15 - length (hid_queue s)) (chars_of (report ! 0) (fresh (LAST_KEYS s) (drop 2 report))) \<and>
    hid_inv (process_report report s) \<and> LAST_KEYS (process_report report s) = drop 2 report \<and>
    \<not> REPEAT_ACTIVE (process_report report s)"
proof -
  have k: "take 6 (drop 2 report) = drop 2 report" using assms(3) by simp
  obtain any s1 where n: "new_keys (report ! 0) (drop 2 report) False s = (any, s1)" by fastforce
  note q = new_keys_queue [OF assms(1,2), of "report ! 0" "drop 2 report" False, unfolded n]
  have a: any using q assms(4) by simp
  show ?thesis using q a by (simp add: process_report_def k n Let_def start_repeat_def)
qed

theorem hid_report_types_new_keys_witness:
  "hid_queue (process_report [0x02, 0, 0x04, 0x05, 0, 0, 0, 0] hid_boot) = [0x41, 0x42]"
proof -
  have i: "hid_inv hid_boot" "length (LAST_KEYS hid_boot) = 6" "hid_queue hid_boot = []"
    by (simp_all add: hid_boot_def hid_inv_def hid_queue_def ring_empty)
  have f: "fresh (LAST_KEYS hid_boot) [0x04, 0x05, 0, 0, 0, 0] = [0x04, 0x05]"
    by (simp add: fresh_def hid_boot_def)
  have c: "chars_of 0x02 [0x04, 0x05] = [0x41, 0x42]" by code_simp
  show ?thesis using hid_report_types_new_keys [OF i(1,2), of "[0x02, 0, 0x04, 0x05, 0, 0, 0, 0]"] by (simp add: f c i(3))
qed

text \<open>
  A key that is held is repeated: the report that presses it counts as the first, the thirtieth types it again, and after
  that every sixth does. The number of repeats that \<open>n\<close> more reports type:
\<close>

definition repeats :: "nat \<Rightarrow> nat" where
  "repeats n = (if n < 29 then 0 else 1 + (n - 29) div 6)"

definition repeat_state :: "nat \<Rightarrow> u8 \<Rightarrow> hid \<Rightarrow> bool" where
  "repeat_state n k s \<longleftrightarrow> REPEAT_KEY s = k \<and> REPEAT_ACTIVE s = (29 \<le> n) \<and>
     unat (REPEAT_COUNTER s) = (if n < 29 then n + 1 else (n - 29) mod 6)"

lemma repeats_Suc: "repeats (Suc n) = repeats n + (if Suc n = 29 \<or> 29 < Suc n \<and> (Suc n - 29) mod 6 = 0 then 1 else 0)"
proof -
  consider "Suc n < 29" | "Suc n = 29" | m where "n = 29 + m" by (metis le_Suc_ex linorder_neqE_nat not_less_eq_eq Suc_leI)
  then show ?thesis by cases (auto simp: repeats_def div_Suc)
qed

lemma type_known: "keycode_to_ascii k mods = Some ch \<Longrightarrow> type_key k mods s = push_key ch s"
  by (simp add: type_key_def)

text \<open>One more report with the same keys.\<close>

lemma held_step:
  fixes mods :: u8
  assumes "repeat_state n k s" "hid_inv s" "keycode_to_ascii k mods = Some ch"
  defines "s' \<equiv> held_key mods s"
  shows "repeat_state (Suc n) k s' \<and> hid_inv s' \<and>
    hid_queue s' = (if repeats (Suc n) = repeats n \<or> \<not> length (hid_queue s) < 15 then hid_queue s else hid_queue s @ [ch]) \<and>
    LAST_KEYS s' = LAST_KEYS s"
proof -
  have k: "REPEAT_KEY s = k" "REPEAT_ACTIVE s = (29 \<le> n)" and c: "unat (REPEAT_COUNTER s) = (if n < 29 then n + 1 else (n - 29) mod 6)"
    using assms(1) by (simp_all add: repeat_state_def)
  have "unat (REPEAT_COUNTER s) < 30" using c by (auto intro: less_trans [OF pos_mod_bound])
  then have u: "unat (REPEAT_COUNTER s + 1) = unat (REPEAT_COUNTER s) + 1" by (simp add: unat_word_ariths(1))
  have t: "type_key k mods = push_key ch" using type_known [OF assms(3)] by blast
  have ge: "REPEAT_COUNTER s + 1 \<ge> 30 \<longleftrightarrow> 29 \<le> unat (REPEAT_COUNTER s)" "REPEAT_COUNTER s + 1 \<ge> 6 \<longleftrightarrow> 5 \<le> unat (REPEAT_COUNTER s)"
    by (simp_all add: word_le_nat_alt u)
  note p = push_key_queue [of "s\<lparr>REPEAT_COUNTER := REPEAT_COUNTER s + 1, REPEAT_ACTIVE := True, REPEAT_COUNTER := 0\<rparr>" ch]
    push_key_queue [of "s\<lparr>REPEAT_COUNTER := REPEAT_COUNTER s + 1, REPEAT_COUNTER := 0\<rparr>" ch]
  consider "n < 28" | "n = 28" | "29 \<le> n" by linarith
  then show ?thesis
  proof cases
    case 1
    then have "s' = s\<lparr>REPEAT_COUNTER := REPEAT_COUNTER s + 1\<rparr>" using k c ge by (simp add: s'_def held_key_def Let_def)
    then show ?thesis using 1 k c u assms(2) by (simp add: repeat_state_def repeats_def)
  next
    case 2
    then have "s' = push_key ch (s\<lparr>REPEAT_COUNTER := 0, REPEAT_ACTIVE := True\<rparr>)" using k c ge t
      by (simp add: s'_def held_key_def Let_def) (rule arg_cong [where f = "push_key ch"], simp)
    then show ?thesis using 2 k assms(2) push_key_queue [of "s\<lparr>REPEAT_COUNTER := 0, REPEAT_ACTIVE := True\<rparr>" ch]
      by (simp add: repeat_state_def repeats_def)
  next
    case 3
    then obtain m where m: "n = 29 + m" using le_Suc_ex by blast
    show ?thesis
    proof (cases "m mod 6 = 5")
      case True
      then have "s' = push_key ch (s\<lparr>REPEAT_COUNTER := 0\<rparr>)" using k c ge t m by (simp add: s'_def held_key_def Let_def)
      then show ?thesis using True m k assms(2) push_key_queue [of "s\<lparr>REPEAT_COUNTER := 0\<rparr>" ch]
        by (simp add: repeat_state_def repeats_def div_Suc mod_Suc)
    next
      case False
      then have f: "m mod 6 < 5" using mod_less_divisor [of 6 m] by linarith
      then have "s' = s\<lparr>REPEAT_COUNTER := REPEAT_COUNTER s + 1\<rparr>" using k c ge m by (simp add: s'_def held_key_def Let_def)
      then show ?thesis using f m k c u assms(2) by (simp add: repeat_state_def repeats_def div_Suc mod_Suc)
    qed
  qed
qed

lemma new_keys_none: "length (LAST_KEYS s) = 6 \<Longrightarrow> fresh (LAST_KEYS s) ks = [] \<Longrightarrow> new_keys mods ks any s = (any, s)"
proof (induction ks)
  case (Cons k ks)
  then have "k = 0 \<or> last_has k s" "fresh (LAST_KEYS s) ks = []" by (auto simp: fresh_def last_has_iff split: if_splits)
  then show ?case using Cons by simp
qed simp

text \<open>The \<open>n\<close>th further report, when the ring has taken \<open>m\<close> of the characters already.\<close>

lemma held_report:
  fixes mods :: u8 and t :: hid and q :: bytes
  assumes "repeat_state n k t" "hid_inv t" "LAST_KEYS t = [k, 0, 0, 0, 0, 0]" "k \<noteq> 0" "keycode_to_ascii k mods = Some ch"
    and q: "hid_queue t = q @ take (15 - length q) (replicate (1 + repeats n) ch)"
  defines "t' \<equiv> process_report [mods, 0, k, 0, 0, 0, 0, 0] t"
  shows "repeat_state (Suc n) k t' \<and> hid_inv t' \<and> LAST_KEYS t' = [k, 0, 0, 0, 0, 0] \<and>
    hid_queue t' = q @ take (15 - length q) (replicate (1 + repeats (Suc n)) ch)"
proof -
  have "new_keys mods [k, 0, 0, 0, 0, 0] False t = (False, t)" by (rule new_keys_none) (simp_all add: fresh_def assms(3))
  moreover have "REPEAT_KEY t = k" using assms(1) by (simp add: repeat_state_def)
  ultimately have p: "t' = (held_key mods t)\<lparr>LAST_KEYS := [k, 0, 0, 0, 0, 0], LAST_MODS := mods\<rparr>"
    using assms(4) by (simp add: t'_def process_report_def Let_def del: new_keys.simps)
  note h = held_step [OF assms(1,2,5)]
  have l: "length (hid_queue t) = length q + min (15 - length q) (1 + repeats n)" by (simp add: q min.commute)
  have "hid_queue (held_key mods t) = q @ take (15 - length q) (replicate (1 + repeats (Suc n)) ch)"
  proof (cases "repeats (Suc n) = repeats n \<or> \<not> length (hid_queue t) < 15")
    case True
    then have m: "min (15 - length q) (1 + repeats (Suc n)) = min (15 - length q) (1 + repeats n)"
      using l repeats_Suc [of n] by (auto split: if_splits)
    show ?thesis using h True by (simp only: q take_replicate m) simp
  next
    case False
    then have m: "min (15 - length q) (1 + repeats (Suc n)) = Suc (min (15 - length q) (1 + repeats n))"
      using l repeats_Suc [of n] by (auto split: if_splits)
    show ?thesis using h False by (simp only: q take_replicate m) (simp add: replicate_append_same)
  qed
  then show ?thesis using h by (simp add: p repeat_state_def)
qed

text \<open>
  C27: key repeat. While the same key stays down, its character is typed once, again after a delay of thirty reports, and
  then with every sixth report, as far as the ring has room.
\<close>

theorem hid_key_repeat:
  assumes "hid_inv s" "length (LAST_KEYS s) = 6" "k \<noteq> 0" "k \<notin> set (LAST_KEYS s)" "keycode_to_ascii k mods = Some ch"
  shows "hid_queue ((process_report [mods, 0, k, 0, 0, 0, 0, 0] ^^ Suc n) s) =
    hid_queue s @ take (15 - length (hid_queue s)) (replicate (1 + repeats n) ch)"
proof -
  let ?r = "[mods, 0, k, 0, 0, 0, 0, 0]"
  have "repeat_state n k ((process_report ?r ^^ Suc n) s) \<and> hid_inv ((process_report ?r ^^ Suc n) s) \<and>
    LAST_KEYS ((process_report ?r ^^ Suc n) s) = [k, 0, 0, 0, 0, 0] \<and>
    hid_queue ((process_report ?r ^^ Suc n) s) = hid_queue s @ take (15 - length (hid_queue s)) (replicate (1 + repeats n) ch)"
  proof (induction n)
    case 0
    have f: "fresh (LAST_KEYS s) [k, 0, 0, 0, 0, 0] = [k]" "chars_of mods [k] = [ch]" using assms by (simp_all add: fresh_def chars_of_def)
    obtain any s1 where n: "new_keys mods [k, 0, 0, 0, 0, 0] False s = (any, s1)" by fastforce
    note q = new_keys_queue [OF assms(1,2), of mods "[k, 0, 0, 0, 0, 0]" False, unfolded n f]
    then show ?case
      using assms(3) by (simp add: process_report_def n Let_def start_repeat_def repeat_state_def repeats_def del: new_keys.simps)
  next
    case (Suc n)
    have e: "(process_report ?r ^^ Suc (Suc n)) s = process_report ?r ((process_report ?r ^^ Suc n) s)" by simp
    show ?case unfolding e using Suc by (intro held_report [OF _ _ _ assms(3,5)]) blast+
  qed
  then show ?thesis by blast
qed

theorem hid_key_repeat_witness:
  "hid_queue ((process_report [0, 0, 0x04, 0, 0, 0, 0, 0] ^^ Suc 41) hid_boot) = replicate 4 0x61"
proof -
  have i: "hid_inv hid_boot" "length (LAST_KEYS hid_boot) = 6" "hid_queue hid_boot = []" "(0x04 :: u8) \<notin> set (LAST_KEYS hid_boot)"
    by (simp_all add: hid_boot_def hid_inv_def hid_queue_def ring_empty)
  have c: "keycode_to_ascii 0x04 0 = Some 0x61" by code_simp
  have "1 + repeats 41 = 4" by (simp add: repeats_def)
  then show ?thesis using hid_key_repeat [OF i(1,2) _ i(4) c, of 41] i(3) by (simp del: funpow.simps)
qed
section \<open>What lies beneath the cursor\<close>

lemma cursor_fields_put [simp]:
  "CUR_X (fb_put x y c s) = CUR_X s" "CUR_Y (fb_put x y c s) = CUR_Y s" "CURSOR_BG (fb_put x y c s) = CURSOR_BG s"
  "CURSOR_VISIBLE (fb_put x y c s) = CURSOR_VISIBLE s" "BG_SAVED_X (fb_put x y c s) = BG_SAVED_X s" "BG_SAVED_Y (fb_put x y c s) = BG_SAVED_Y s"
  by (simp_all add: fb_put_def)

lemma cursor_field_updates [simp]:
  "fb_get px py (s\<lparr>CURSOR_BG := b\<rparr>) = fb_get px py s" "fb_get px py (s\<lparr>CURSOR_VISIBLE := v\<rparr>) = fb_get px py s"
  "fb_get px py (s\<lparr>CURSOR_DIRTY := v\<rparr>) = fb_get px py s" "fb_get px py (s\<lparr>CUR_X := x\<rparr>) = fb_get px py s"
  "fb_get px py (s\<lparr>CUR_Y := x\<rparr>) = fb_get px py s" "fb_get px py (s\<lparr>CUR_BUTTONS := w\<rparr>) = fb_get px py s"
  "fb_get px py (s\<lparr>BG_SAVED_X := x\<rparr>) = fb_get px py s" "fb_get px py (s\<lparr>BG_SAVED_Y := x\<rparr>) = fb_get px py s"
  by (simp_all add: fb_get_def enabled_def pixel_addr_def unpack_def)

definition near :: "int \<Rightarrow> bool" where
  "near z \<longleftrightarrow> - 1073741824 \<le> z \<and> z < 1073741824"

definition cursor_inv :: "'a cursor_scheme \<Rightarrow> bool" where
  "cursor_inv s \<longleftrightarrow> fb_ok s \<and> FB_W s < 0x40000000 \<and> FB_H s < 0x40000000 \<and> length (CURSOR_BG s) = 252 \<and>
     near (CUR_X s) \<and> near (CUR_Y s) \<and> near (BG_SAVED_X s) \<and> near (BG_SAVED_Y s)"

text \<open>The area that is saved for a cursor at \<open>(X, Y)\<close>, and where in the buffer a pixel of it is kept.\<close>

definition covers :: "int \<Rightarrow> int \<Rightarrow> u32 \<Rightarrow> u32 \<Rightarrow> bool" where
  "covers X Y px py \<longleftrightarrow> X - 1 \<le> uint px \<and> uint px < X + 13 \<and> Y - 1 \<le> uint py \<and> uint py < Y + 17"

definition slot :: "int \<Rightarrow> int \<Rightarrow> u32 \<Rightarrow> u32 \<Rightarrow> nat" where
  "slot X Y px py = nat (uint py - (Y - 1)) * 14 + nat (uint px - (X - 1))"

lemma i32_near: "near z \<Longrightarrow> - 100 \<le> d \<Longrightarrow> d \<le> 100 \<Longrightarrow> i32 (z + d) = z + d"
  unfolding near_def by (rule i32_idI) linarith+

lemma nested_cells_iff: "p \<in> set (concat (map (\<lambda>r. map (f r) [0..<m]) [0..<n])) \<longleftrightarrow> (\<exists>r<n. \<exists>c<m. p = f r c)"
  unfolding set_concat set_map set_upt by (simp add: image_iff) (metis atLeastLessThan_iff imageE imageI zero_le)

lemma cursor_cells_iff:
  assumes "near X" "near Y"
  shows "(i, fx, fy) \<in> set (cursor_cells X Y) \<longleftrightarrow>
    (\<exists>row < 18. \<exists>col < 14. i = row * 14 + col \<and> fx = X - 1 + int col \<and> fy = Y - 1 + int row)"
proof -
  have i: "i32 (i32 (z - 1) + int n) = z - 1 + int n" if "near z" "n < 18" for z n
    using that i32_near [of z "- 1"] i32_near [of z "int n - 1"] by (simp add: diff_add_eq add_diff_eq)
  have "(i, fx, fy) \<in> set (cursor_cells X Y) \<longleftrightarrow> (\<exists>row < 18. \<exists>col < 14. i = row * 14 + col \<and>
      fx = i32 (i32 (X - 1) + int col) \<and> fy = i32 (i32 (Y - 1) + int row))"
    unfolding cursor_cells_def nested_cells_iff by simp
  also have "\<dots> \<longleftrightarrow> (\<exists>row < 18. \<exists>col < 14. i = row * 14 + col \<and> fx = X - 1 + int col \<and> fy = Y - 1 + int row)"
    by (intro ex_cong conj_cong refl) (simp_all add: i [OF assms(1)] i [OF assms(2)])
  finally show ?thesis .
qed

lemma cursor_cells_slots: "map fst (cursor_cells X Y) = [0..<252]"
proof -
  have "map fst (cursor_cells X Y) = concat (map (\<lambda>row. map (\<lambda>col. row * 14 + col) [0..<14]) [0..<18])"
    by (simp add: cursor_cells_def map_concat comp_def)
  also have "\<dots> = [0..<252]" by code_simp
  finally show ?thesis .
qed

lemma uint_word_of_i32: "0 \<le> z \<Longrightarrow> z < 4294967296 \<Longrightarrow> uint (word_of_int z :: u32) = z"
  by (simp add: uint_word_of_int take_bit_eq_mod)

text \<open>Restoring writes the saved pixel to each place of the area.\<close>

definition hits :: "u32 \<Rightarrow> u32 \<Rightarrow> (nat \<times> int \<times> int) list \<Rightarrow> bool" where
  "hits px py L \<longleftrightarrow> (\<exists>i fx fy. (i, fx, fy) \<in> set L \<and> fx \<ge> 0 \<and> fy \<ge> 0 \<and> px = word_of_int fx \<and> py = word_of_int fy)"

lemma hits_simps [simp]:
  "\<not> hits px py []"
  "hits px py ((i, fx, fy) # L) \<longleftrightarrow> fx \<ge> 0 \<and> fy \<ge> 0 \<and> px = word_of_int fx \<and> py = word_of_int fy \<or> hits px py L"
  by (auto simp: hits_def)

lemma get_restore_fold:
  assumes "fb_ok s" "\<And>i fx fy. (i, fx, fy) \<in> set L \<Longrightarrow> fx \<ge> 0 \<Longrightarrow> fy \<ge> 0 \<Longrightarrow> px = word_of_int fx \<Longrightarrow> py = word_of_int fy \<Longrightarrow> i = k"
  shows "fb_get px py (fold (\<lambda>(i, fx, fy) s. if fx < 0 \<or> fy < 0 then s
        else fb_put (word_of_int fx) (word_of_int fy) (unpack_saved (CURSOR_BG s ! i)) s) L s) =
    (if hits px py L \<and> on_screen s px py
     then Some (unpack_saved (CURSOR_BG s ! k)) else fb_get px py s)"
  using assms
proof (induction L arbitrary: s)
  case (Cons a L)
  obtain i fx fy where a: "a = (i, fx, fy)" by (metis prod_cases3)
  have L: "\<And>i fx fy. (i, fx, fy) \<in> set L \<Longrightarrow> fx \<ge> 0 \<Longrightarrow> fy \<ge> 0 \<Longrightarrow> px = word_of_int fx \<Longrightarrow> py = word_of_int fy \<Longrightarrow> i = k"
    by (rule Cons.prems(2)) simp_all
  show ?case
  proof (cases "fx < 0 \<or> fy < 0")
    case True
    then show ?thesis using Cons.IH [OF Cons.prems(1) L] by (auto simp: a)
  next
    case False
    let ?s = "fb_put (word_of_int fx) (word_of_int fy) (unpack_saved (CURSOR_BG s ! i)) s"
    have i: "px = word_of_int fx \<Longrightarrow> py = word_of_int fy \<Longrightarrow> i = k" using Cons.prems(2) [of i fx fy] False by (simp add: a)
    have "fb_ok ?s" using Cons.prems(1) by simp
    from Cons.IH [OF this L] show ?thesis using False i by (auto simp: a get_put [OF Cons.prems(1)])
  qed
qed simp

lemma get_restore:
  assumes "cursor_inv s"
  shows "fb_get px py (restore_cursor_bg s) =
    (if covers (BG_SAVED_X s) (BG_SAVED_Y s) px py \<and> on_screen s px py
     then Some (unpack_saved (CURSOR_BG s ! slot (BG_SAVED_X s) (BG_SAVED_Y s) px py)) else fb_get px py s)"
proof -
  let ?X = "BG_SAVED_X s" and ?Y = "BG_SAVED_Y s"
  have n: "near ?X" "near ?Y" "fb_ok s" using assms by (simp_all add: cursor_inv_def)
  note cells = cursor_cells_iff [OF n(1,2)]
  have at: "uint px = fx" "uint py = fy" if "(i, fx, fy) \<in> set (cursor_cells ?X ?Y)" "fx \<ge> 0" "fy \<ge> 0" "px = word_of_int fx" "py = word_of_int fy" for i fx fy
  proof -
    have "fx < 4294967296 \<and> fy < 4294967296" using that(1) n(1,2) unfolding cells near_def by auto
    then show "uint px = fx" "uint py = fy" using that uint_word_of_i32 by simp_all
  qed
  have k: "i = slot ?X ?Y px py" if "(i, fx, fy) \<in> set (cursor_cells ?X ?Y)" "fx \<ge> 0" "fy \<ge> 0" "px = word_of_int fx" "py = word_of_int fy" for i fx fy
    using that(1) at [OF that] by (auto simp: cells slot_def)
  have c: "hits px py (cursor_cells ?X ?Y) \<longleftrightarrow>
    covers ?X ?Y px py"
  proof
    assume "hits px py (cursor_cells ?X ?Y)"
    then obtain i fx fy where e: "(i, fx, fy) \<in> set (cursor_cells ?X ?Y)" "fx \<ge> 0" "fy \<ge> 0" "px = word_of_int fx" "py = word_of_int fy"
      unfolding hits_def by blast
    show "covers ?X ?Y px py" using e(1) at [OF e] by (auto simp: cells covers_def)
  next
    assume v: "covers ?X ?Y px py"
    let ?col = "nat (uint px - (?X - 1))" and ?row = "nat (uint py - (?Y - 1))"
    have "(?row * 14 + ?col, uint px, uint py) \<in> set (cursor_cells ?X ?Y)"
      unfolding cells using v by (intro exI [of _ ?row] exI [of _ ?col] conjI) (auto simp: covers_def)
    then show "hits px py (cursor_cells ?X ?Y)"
      unfolding hits_def by (intro exI conjI) (assumption | simp)+
  qed
  show ?thesis unfolding restore_cursor_bg_def by (subst get_restore_fold [OF n(3) k]) (assumption | simp add: c)+
qed

text \<open>Saving reads the area; drawing stays inside it.\<close>

lemma saved_pixel_fields [simp]:
  "saved_pixel fx fy (s\<lparr>CURSOR_BG := b\<rparr>) = saved_pixel fx fy s" "saved_pixel fx fy (s\<lparr>BG_SAVED_X := x\<rparr>) = saved_pixel fx fy s"
  "saved_pixel fx fy (s\<lparr>BG_SAVED_Y := x\<rparr>) = saved_pixel fx fy s"
  by (simp_all add: saved_pixel_def)

lemma unpack_saved_pixel:
  assumes "fb_get px py s = Some c" "on_screen s px py" "FB_W s < 0x40000000" "FB_H s < 0x40000000"
  shows "unpack_saved (saved_pixel (uint px) (uint py) s) = c"
proof -
  obtain r g b where c: "c = (r, g, b)" by (metis prod_cases3)
  have u: "uint px < as_i32 (FB_W s)" "uint py < as_i32 (FB_H s)"
    using assms(2-4) by (simp_all add: on_screen_def word_less_def as_i32_small)
  have m: "(0xFF :: u32) = mask 8" by (simp add: mask_eq_decr_exp)
  show ?thesis
    using u assms(1) by (auto simp: saved_pixel_def c unpack_saved_def m intro!: bit_word_eqI)
      (auto simp: bit_simps dest: bit_imp_le_length)
qed

lemma fold_update_nth:
  "distinct (map fst L) \<Longrightarrow> (i, p) \<in> set L \<Longrightarrow> i < length b \<Longrightarrow> fold (\<lambda>(i, p) b. b[i := f p]) L b ! i = f p"
proof (induction L arbitrary: b)
  case (Cons a L)
  have o: "fold (\<lambda>(i, p) b. b[i := f p]) L b ! i = b ! i" if "i \<notin> set (map fst L)" for b i
    using that by (induction L arbitrary: b) (auto split: prod.splits)
  show ?case using Cons o by (cases a) auto
qed simp

lemma save_cursor_shape:
  "\<exists>b. save_cursor_bg s = s\<lparr>BG_SAVED_X := CUR_X s, BG_SAVED_Y := CUR_Y s, CURSOR_BG := b\<rparr> \<and>
    b = fold (\<lambda>(i, fx, fy) b. b[i := saved_pixel fx fy s]) (cursor_cells (CUR_X s) (CUR_Y s)) (CURSOR_BG s)"
proof -
  have "fold (\<lambda>(i, fx, fy) s. s\<lparr>CURSOR_BG := (CURSOR_BG s)[i := saved_pixel fx fy s]\<rparr>) L t =
      t\<lparr>CURSOR_BG := fold (\<lambda>(i, fx, fy) b. b[i := saved_pixel fx fy t]) L (CURSOR_BG t)\<rparr>" for L and t :: "'a cursor_scheme"
    by (induction L arbitrary: t) auto
  then show ?thesis unfolding save_cursor_bg_def by (intro exI conjI) (assumption | simp)+
qed

lemma save_cursor_fields [simp]:
  "CUR_X (save_cursor_bg s) = CUR_X s" "CUR_Y (save_cursor_bg s) = CUR_Y s" "BG_SAVED_X (save_cursor_bg s) = CUR_X s"
  "BG_SAVED_Y (save_cursor_bg s) = CUR_Y s" "fb_get px py (save_cursor_bg s) = fb_get px py s" "fb_ok (save_cursor_bg s) = fb_ok s"
  "FB_W (save_cursor_bg s) = FB_W s" "FB_H (save_cursor_bg s) = FB_H s" "length (CURSOR_BG (save_cursor_bg s)) = length (CURSOR_BG s)"
proof -
  obtain b where b: "save_cursor_bg s = s\<lparr>BG_SAVED_X := CUR_X s, BG_SAVED_Y := CUR_Y s, CURSOR_BG := b\<rparr>"
    "b = fold (\<lambda>(i, fx, fy) b. b[i := saved_pixel fx fy s]) (cursor_cells (CUR_X s) (CUR_Y s)) (CURSOR_BG s)"
    using save_cursor_shape by blast
  have "length (fold (\<lambda>(i, fx, fy) b. b[i := saved_pixel fx fy s]) L b) = length b" for L b by (induction L arbitrary: b) auto
  then show "length (CURSOR_BG (save_cursor_bg s)) = length (CURSOR_BG s)" by (simp add: b)
qed (use save_cursor_shape [of s] in \<open>auto simp: fb_ok_def enabled_def\<close>)

lemma saved_slot:
  assumes "cursor_inv s" "covers (CUR_X s) (CUR_Y s) px py"
  shows "CURSOR_BG (save_cursor_bg s) ! slot (CUR_X s) (CUR_Y s) px py = saved_pixel (uint px) (uint py) s"
proof -
  let ?cells = "cursor_cells (CUR_X s) (CUR_Y s)"
  obtain b where b: "save_cursor_bg s = s\<lparr>BG_SAVED_X := CUR_X s, BG_SAVED_Y := CUR_Y s, CURSOR_BG := b\<rparr>"
    "b = fold (\<lambda>(i, fx, fy) b. b[i := saved_pixel fx fy s]) ?cells (CURSOR_BG s)"
    using save_cursor_shape by blast
  have n: "near (CUR_X s)" "near (CUR_Y s)" "length (CURSOR_BG s) = 252" using assms(1) by (simp_all add: cursor_inv_def)
  have m: "(slot (CUR_X s) (CUR_Y s) px py, uint px, uint py) \<in> set ?cells"
    unfolding cursor_cells_iff [OF n(1,2)] slot_def using assms(2)
    by (intro exI [of _ "nat (uint py - (CUR_Y s - 1))"] exI [of _ "nat (uint px - (CUR_X s - 1))"] conjI) (auto simp: covers_def)
  then have "slot (CUR_X s) (CUR_Y s) px py \<in> set (map fst ?cells)" by force
  then have i: "slot (CUR_X s) (CUR_Y s) px py < 252" unfolding cursor_cells_slots by simp
  have f: "(\<lambda>(i, fx, fy) b. b[i := saved_pixel fx fy s]) = (\<lambda>(i, p) b. b[i := (case p of (fx, fy) \<Rightarrow> saved_pixel fx fy s)])" by auto
  have "distinct (map fst ?cells)" unfolding cursor_cells_slots by simp
  from fold_update_nth [OF this m, of "CURSOR_BG s" "\<lambda>(fx, fy). saved_pixel fx fy s"] i n(3)
  show ?thesis by (simp add: b f)
qed

lemma arrow_in_box: "list_all (\<lambda>(col, row). col < 12 \<and> row < 16) (arrow_cells @ outline_cells)"
  by code_simp

lemma get_put_cells:
  assumes "fb_ok s" "near (CUR_X s)" "near (CUR_Y s)" "list_all (\<lambda>(col, row). col < 12 \<and> row < 16) cells"
    "\<not> covers (CUR_X s) (CUR_Y s) px py"
  shows "fb_get px py (put_cells cells c s) = fb_get px py s"
  using assms
proof (induction cells arbitrary: s)
  case (Cons a cells)
  obtain col row where a: "a = (col, row)" by fastforce
  let ?x = "CUR_X s + int col" and ?y = "CUR_Y s + int row"
  let ?t = "if ?x \<ge> 0 \<and> ?y \<ge> 0 then fb_put (word_of_int ?x) (word_of_int ?y) c s else s"
  have b: "col < 12" "row < 16" using Cons.prems(4) by (simp_all add: a)
  have i: "i32 ?x = ?x" "i32 ?y = ?y" using b Cons.prems(2,3) by (simp_all add: i32_near)
  have p: "put_cells (a # cells) c s = put_cells cells c ?t" by (simp add: put_cells_def a Let_def i)
  have t: "fb_ok ?t" "CUR_X ?t = CUR_X s" "CUR_Y ?t = CUR_Y s" using Cons.prems(1) by simp_all
  have "?x < 4294967296" "?y < 4294967296" using b Cons.prems(2,3) unfolding near_def by linarith+
  then have "uint px = ?x \<and> uint py = ?y" if "?x \<ge> 0" "?y \<ge> 0" "px = word_of_int ?x" "py = word_of_int ?y"
    using that uint_word_of_i32 by blast
  then have "\<not> (?x \<ge> 0 \<and> ?y \<ge> 0 \<and> px = word_of_int ?x \<and> py = word_of_int ?y)"
    using b Cons.prems(5) by (auto simp: covers_def simp del: of_int_add of_int_of_nat_eq)
  then have g: "fb_get px py ?t = fb_get px py s" by (auto simp: get_put [OF Cons.prems(1)])
  show ?case unfolding p g [symmetric] by (rule Cons.IH) (use Cons.prems t in \<open>simp_all add: a\<close>)
qed (simp add: put_cells_def)

lemma put_cells_fields [simp]:
  "CUR_X (put_cells cells c s) = CUR_X s" "CUR_Y (put_cells cells c s) = CUR_Y s" "BG_SAVED_X (put_cells cells c s) = BG_SAVED_X s"
  "BG_SAVED_Y (put_cells cells c s) = BG_SAVED_Y s" "CURSOR_BG (put_cells cells c s) = CURSOR_BG s" "fb_ok (put_cells cells c s) = fb_ok s"
  "FB_W (put_cells cells c s) = FB_W s" "FB_H (put_cells cells c s) = FB_H s"
  unfolding put_cells_def by (induction cells arbitrary: s) (simp_all add: Let_def split: prod.split)

lemma restore_fields [simp]:
  "CUR_X (restore_cursor_bg s) = CUR_X s" "CUR_Y (restore_cursor_bg s) = CUR_Y s" "BG_SAVED_X (restore_cursor_bg s) = BG_SAVED_X s"
  "BG_SAVED_Y (restore_cursor_bg s) = BG_SAVED_Y s" "CURSOR_BG (restore_cursor_bg s) = CURSOR_BG s" "fb_ok (restore_cursor_bg s) = fb_ok s"
  "FB_W (restore_cursor_bg s) = FB_W s" "FB_H (restore_cursor_bg s) = FB_H s"
proof -
  have f: "P (fold (\<lambda>(i, fx, fy) s. if fx < 0 \<or> fy < 0 then s
        else fb_put (word_of_int fx) (word_of_int fy) (unpack_saved (CURSOR_BG s ! i)) s) L s)"
    if "P s" "\<And>x y c t. P t \<Longrightarrow> P (fb_put x y c t)" for P L and s :: "'a cursor_scheme"
    using that(1) by (induction L arbitrary: s) (simp_all add: that(2) split: prod.split)
  show "CUR_X (restore_cursor_bg s) = CUR_X s" "CUR_Y (restore_cursor_bg s) = CUR_Y s" "BG_SAVED_X (restore_cursor_bg s) = BG_SAVED_X s"
    "BG_SAVED_Y (restore_cursor_bg s) = BG_SAVED_Y s" "CURSOR_BG (restore_cursor_bg s) = CURSOR_BG s" "fb_ok (restore_cursor_bg s) = fb_ok s"
    "FB_W (restore_cursor_bg s) = FB_W s" "FB_H (restore_cursor_bg s) = FB_H s"
    unfolding restore_cursor_bg_def by (rule f; simp)+
qed

lemma cursor_inv_fields [simp]:
  "cursor_inv (s\<lparr>CURSOR_VISIBLE := v\<rparr>) = cursor_inv s" "cursor_inv (s\<lparr>CURSOR_DIRTY := v\<rparr>) = cursor_inv s"
  "cursor_inv (s\<lparr>CUR_BUTTONS := b\<rparr>) = cursor_inv s"
  by (simp_all add: cursor_inv_def fb_ok_def enabled_def)

lemma cursor_inv_drawn [simp]:
  "cursor_inv (restore_cursor_bg s) = cursor_inv s" "cursor_inv (put_cells cells c s) = cursor_inv s"
  by (simp_all add: cursor_inv_def)

lemma cursor_inv_save: "cursor_inv s \<Longrightarrow> cursor_inv (save_cursor_bg s)"
  by (simp add: cursor_inv_def)

lemma get_off_screen: "\<not> on_screen s px py \<Longrightarrow> fb_get px py s = None"
  by (auto simp: fb_get_def on_screen_def not_less)

lemma get_on_screen: "fb_ok s \<Longrightarrow> on_screen s px py \<Longrightarrow> \<exists>c. fb_get px py s = Some c"
  by (simp add: fb_get_def on_screen_def fb_ok_def not_le) (metis prod_cases3)

text \<open>The picture without the cursor.\<close>

definition beneath :: "'a cursor_scheme \<Rightarrow> u32 \<Rightarrow> u32 \<Rightarrow> rgb option" where
  "beneath s px py = fb_get px py (if CURSOR_VISIBLE s then restore_cursor_bg s else s)"

lemma beneath_drawn:
  assumes "cursor_inv s"
  shows "beneath (draw_cursor (save_cursor_bg s)) px py = fb_get px py s"
proof -
  let ?s = "save_cursor_bg s" and ?t = "put_cells outline_cells (0, 0, 0) (put_cells arrow_cells (255, 255, 255) (save_cursor_bg s))"
  have inv: "cursor_inv ?t" using cursor_inv_save [OF assms] by simp
  have o: "on_screen ?t px py = on_screen s px py" by (simp add: on_screen_def)
  have d: "beneath (draw_cursor ?s) px py = fb_get px py (restore_cursor_bg ?t)"
  proof -
    have "cursor_inv (draw_cursor ?s)" using inv by (simp add: draw_cursor_def)
    from get_restore [OF this] get_restore [OF inv] show ?thesis
      by (simp add: beneath_def draw_cursor_def on_screen_def)
  qed
  consider "covers (CUR_X s) (CUR_Y s) px py" "on_screen s px py" | "covers (CUR_X s) (CUR_Y s) px py" "\<not> on_screen s px py"
    | "\<not> covers (CUR_X s) (CUR_Y s) px py" by blast
  then show ?thesis
  proof cases
    case 1
    have "fb_ok s" "FB_W s < 0x40000000" "FB_H s < 0x40000000" using assms by (simp_all add: cursor_inv_def)
    with 1 get_on_screen obtain c where "fb_get px py s = Some c" by blast
    then show ?thesis
      using 1 get_restore [OF inv, of px py] saved_slot [OF assms 1(1)] unpack_saved_pixel [of px py s c] assms
      by (simp add: d o cursor_inv_def)
  next
    case 2
    then show ?thesis using get_restore [OF inv, of px py] by (simp add: d o get_off_screen)
  next
    case 3
    have n: "fb_ok s" "near (CUR_X s)" "near (CUR_Y s)" using assms by (simp_all add: cursor_inv_def)
    show ?thesis using 3 get_restore [OF inv, of px py] n arrow_in_box by (simp add: d get_put_cells)
  qed
qed

text \<open>What the drivers and the desktop do with the cursor.\<close>

inductive cursor_step :: "cursor \<Rightarrow> cursor \<Rightarrow> bool" where
  hides: "cursor_step s (hide_cursor s)"
| shows_it: "cursor_step s (show_cursor s)"
| updates: "cursor_step s (update_cursor s)"
| moves: "cursor_step s (process_mouse_report sens bytes s)"
| set_pos: "near x \<Longrightarrow> near y \<Longrightarrow> cursor_step s (mouse_set_pos x y s)"
| set_buttons: "cursor_step s (mouse_set_buttons b s)"

lemma restore_commutes:
  assumes "\<And>x y c t. fb_put x y c (u t) = u (fb_put x y c t)" "\<And>t. CURSOR_BG (u t) = CURSOR_BG t" "BG_SAVED_X (u s) = BG_SAVED_X s"
    "BG_SAVED_Y (u s) = BG_SAVED_Y s"
  shows "restore_cursor_bg (u s) = u (restore_cursor_bg s)"
proof -
  have "fold (\<lambda>(i, fx, fy) s. if fx < 0 \<or> fy < 0 then s
        else fb_put (word_of_int fx) (word_of_int fy) (unpack_saved (CURSOR_BG s ! i)) s) L (u t) =
      u (fold (\<lambda>(i, fx, fy) s. if fx < 0 \<or> fy < 0 then s
        else fb_put (word_of_int fx) (word_of_int fy) (unpack_saved (CURSOR_BG s ! i)) s) L t)" for L t
    by (induction L arbitrary: t) (auto simp: assms)
  then show ?thesis by (simp add: restore_cursor_bg_def assms)
qed

lemma put_commutes:
  "fb_put x y c (s\<lparr>CUR_X := a\<rparr>) = (fb_put x y c s)\<lparr>CUR_X := a\<rparr>" "fb_put x y c (s\<lparr>CUR_Y := a\<rparr>) = (fb_put x y c s)\<lparr>CUR_Y := a\<rparr>"
  "fb_put x y c (s\<lparr>CURSOR_DIRTY := d\<rparr>) = (fb_put x y c s)\<lparr>CURSOR_DIRTY := d\<rparr>"
  "fb_put x y c (s\<lparr>CUR_BUTTONS := b\<rparr>) = (fb_put x y c s)\<lparr>CUR_BUTTONS := b\<rparr>"
  by (simp_all add: fb_put_def pixel_addr_def pack_def enabled_def)

lemma beneath_fields [simp]:
  "beneath (s\<lparr>CURSOR_DIRTY := d\<rparr>) px py = beneath s px py" "beneath (s\<lparr>CUR_X := a\<rparr>) px py = beneath s px py"
  "beneath (s\<lparr>CUR_Y := a\<rparr>) px py = beneath s px py" "beneath (s\<lparr>CUR_BUTTONS := b\<rparr>) px py = beneath s px py"
  using restore_commutes [of "\<lambda>s. s\<lparr>CURSOR_DIRTY := d\<rparr>" s] restore_commutes [of "\<lambda>s. s\<lparr>CUR_X := a\<rparr>" s]
    restore_commutes [of "\<lambda>s. s\<lparr>CUR_Y := a\<rparr>" s] restore_commutes [of "\<lambda>s. s\<lparr>CUR_BUTTONS := b\<rparr>" s]
  by (simp_all add: beneath_def put_commutes)

lemma cursor_report_inv: "cursor_inv s \<Longrightarrow> cursor_inv (process_mouse_report sens bytes s)"
proof -
  assume s: "cursor_inv s"
  have m: "near (min (max z 0) (i32 (as_i32 w - 1)))" if "w < 0x40000000" for z and w :: u32
  proof -
    have "uint w < 1073741824" using that by (simp add: word_less_def)
    moreover have "i32 (as_i32 w - 1) = uint w - 1" unfolding as_i32_small [OF that] using calculation uint_ge_0 [of w] by (intro i32_idI) linarith+
    ultimately show ?thesis using uint_ge_0 [of w] unfolding near_def by linarith
  qed
  then show ?thesis using s by (simp add: process_mouse_report_def Let_def cursor_inv_def fb_ok_def enabled_def)
qed

lemma cursor_step_beneath: "cursor_step s t \<Longrightarrow> cursor_inv s \<Longrightarrow> cursor_inv t \<and> (\<forall>px py. beneath t px py = beneath s px py)"
proof (induction rule: cursor_step.induct)
  case (hides s)
  then show ?case by (simp add: hide_cursor_def beneath_def)
next
  case (shows_it s)
  show ?case
  proof (cases "CURSOR_VISIBLE s")
    case False
    then have "show_cursor s = draw_cursor (save_cursor_bg s)" by (simp add: show_cursor_def draw_cursor_def)
    then show ?thesis using False shows_it beneath_drawn [of s] cursor_inv_save [of s] by (simp add: beneath_def [of s]) (simp add: draw_cursor_def)
  qed (simp add: show_cursor_def shows_it)
next
  case (updates s)
  then have "cursor_inv (restore_cursor_bg s)" by simp
  then show ?case using updates beneath_drawn [of s] beneath_drawn [of "restore_cursor_bg s"] cursor_inv_save [of s] cursor_inv_save [of "restore_cursor_bg s"]
    by (auto simp: update_cursor_def beneath_def [of s]) (simp_all add: draw_cursor_def)
next
  case (moves s sens bytes)
  then show ?case using cursor_report_inv [of s sens bytes] by (auto simp: process_mouse_report_def Let_def)
next
  case (set_pos x y s)
  then show ?case by (simp add: mouse_set_pos_def cursor_inv_def fb_ok_def enabled_def)
next
  case (set_buttons s b)
  then show ?case by (simp add: mouse_set_buttons_def)
qed

text \<open>
  C19: the cursor leaves no trace. Whatever sequence of showing, hiding, moving, updating and mouse reports runs between two
  states, hiding the cursor at the end leaves on the screen what hiding it at the beginning would have left.
\<close>

theorem cursor_leaves_no_trace:
  assumes "cursor_step\<^sup>*\<^sup>* s t" "cursor_inv s"
  shows "fb_get px py (hide_cursor t) = fb_get px py (hide_cursor s)"
proof -
  have "cursor_inv t \<and> (\<forall>px py. beneath t px py = beneath s px py)"
    using assms by (induction rule: rtranclp_induct) (use cursor_step_beneath in auto)
  moreover have "fb_get px py (hide_cursor u) = beneath u px py" for u :: cursor by (simp add: hide_cursor_def beneath_def)
  ultimately show ?thesis by simp
qed

definition demo_cursor :: cursor where
  "demo_cursor = cursor_boot demo_screen"

theorem cursor_leaves_no_trace_witness:
  "fb_get 5 5 (hide_cursor (update_cursor (mouse_set_pos 3 (- 2) (show_cursor demo_cursor)))) = Some (0, 0, 0)"
proof -
  let ?s = demo_cursor
  have o: "fb_ok ?s" "FB_W ?s = 40" "FB_H ?s = 30" "\<not> CURSOR_VISIBLE ?s" "fb_get 5 5 ?s = fb_get 5 5 demo_screen"
    by (simp_all add: demo_cursor_def cursor_boot_def fbuf.defs cursor.defs fb_ok_def demo_screen_def enabled_def fb_get_def unpack_def pixel_addr_def)
  have i: "cursor_inv ?s" using o by (simp add: cursor_inv_def near_def) (simp add: demo_cursor_def cursor_boot_def fbuf.defs cursor.defs near_def)
  have "cursor_step\<^sup>*\<^sup>* ?s (update_cursor (mouse_set_pos 3 (- 2) (show_cursor ?s)))"
    using cursor_step.shows_it [of ?s] cursor_step.set_pos [of 3 "- 2" "show_cursor ?s"]
      cursor_step.updates [of "mouse_set_pos 3 (- 2) (show_cursor ?s)"] by (auto simp: near_def)
  from cursor_leaves_no_trace [OF this i, of 5 5] show ?thesis
    using o demo_screen_black [of 5 5] by (simp add: hide_cursor_def)
qed

end
