(* ===== verification/Clock.thy ===== *)
theory Clock
  imports Prelude
begin

unbundle bit_operations_syntax

text \<open>
  The real-time clock of \<open>src/kernel/src/cmos.rs\<close>. What the chip answers is a parameter: \<open>rtc t idx\<close> is the value of register
  \<open>idx\<close> at the \<open>t\<close>-th access. The theorem is that a chip that shows a time in any of its four formats is read as that time,
  except in the afternoon of the decimal 12-hour format.
\<close>

type_synonym rtc = "nat \<Rightarrow> u8 \<Rightarrow> u8"

record rtc_time =
  rtc_hour :: u8
  rtc_minute :: u8
  rtc_second :: u8
  rtc_day :: u8
  rtc_month :: u8
  rtc_year :: u16

text \<open>An access yields the value and the number of accesses so far.\<close>

definition cmos_read :: "rtc \<Rightarrow> u8 \<Rightarrow> nat \<Rightarrow> u8 \<times> nat" where
  "cmos_read rtc idx t = (rtc t idx, t + 1)"

definition bcd2bin :: "u8 \<Rightarrow> u8" where
  "bcd2bin bcd = (bcd AND 0x0F) + drop_bit 4 bcd * 10"

text \<open>Waiting for the end of an update, at most \<open>timeout\<close> turns.\<close>

fun wait_update :: "rtc \<Rightarrow> nat \<Rightarrow> nat \<Rightarrow> nat" where
  "wait_update rtc timeout t =
     (case cmos_read rtc 0x0A t of
        (v, t) \<Rightarrow> if v AND 0x80 \<noteq> 0 then (case timeout of 0 \<Rightarrow> t | Suc n \<Rightarrow> wait_update rtc n t) else t)"

declare wait_update.simps [simp del]

text \<open>Seconds, minutes, hours, day, month and year, one after the other.\<close>

definition read_registers :: "rtc \<Rightarrow> nat \<Rightarrow> (u8 \<times> u8 \<times> u8 \<times> u8 \<times> u8 \<times> u8) \<times> nat" where
  "read_registers rtc t =
     (let (sec, t) = cmos_read rtc 0 t; (minute, t) = cmos_read rtc 2 t; (hour, t) = cmos_read rtc 4 t;
          (day, t) = cmos_read rtc 7 t; (month, t) = cmos_read rtc 8 t; (year, t) = cmos_read rtc 9 t
      in ((sec, minute, hour, day, month, year), t))"

definition to_24h :: "u8 \<Rightarrow> u8" where
  "to_24h hour =
     (let pm = hour AND 0x80 \<noteq> 0; hour = hour AND 0x7F
      in if pm then (if hour = 12 then 12 else hour mod 12 + 12) else (if hour = 12 then 0 else hour mod 12))"

definition read_rtc :: "rtc \<Rightarrow> nat \<Rightarrow> rtc_time \<times> nat" where
  "read_rtc rtc t =
     (let t = wait_update rtc 1000 t;
          (status_b, t) = cmos_read rtc 0x0B t;
          is_binary = status_b AND 0x04 \<noteq> 0;
          is_24h = status_b AND 0x02 \<noteq> 0;
          (regs, t) = read_registers rtc t;
          (again, t) = cmos_read rtc 0x0A t;
          (regs, t) = (if again AND 0x80 \<noteq> 0 then read_registers rtc (wait_update rtc 1000 t) else (regs, t));
          (sec, minute, hour, day, month, year) = regs;
          conv = (if is_binary then id else bcd2bin);
          hour = (if is_24h then conv hour else to_24h (conv hour))
      in (\<lparr>rtc_hour = hour, rtc_minute = conv minute, rtc_second = conv sec, rtc_day = conv day, rtc_month = conv month,
           rtc_year = 2000 + ucast (conv year)\<rparr>, t))"

definition read_time :: "rtc \<Rightarrow> nat \<Rightarrow> (u8 \<times> u8) \<times> nat" where
  "read_time rtc t =
     (let t = wait_update rtc 1000 t;
          (b1, t) = cmos_read rtc 0x0B t; is_binary = b1 AND 0x04 \<noteq> 0;
          (b2, t) = cmos_read rtc 0x0B t; is_24h = b2 AND 0x02 \<noteq> 0;
          (hour, t) = cmos_read rtc 4 t; (minute, t) = cmos_read rtc 2 t;
          conv = (if is_binary then id else bcd2bin);
          hour = (if is_24h then conv hour else to_24h (conv hour))
      in ((hour, conv minute), t))"

definition format_time :: "u8 \<Rightarrow> u8 \<Rightarrow> u8 list" where
  "format_time hour minute = [0x30 + hour div 10, 0x30 + hour mod 10, 0x3A, 0x30 + minute div 10, 0x30 + minute mod 10]"

section \<open>What the chip shows\<close>

datatype date = Date nat nat nat nat nat nat

text \<open>Hour, minute, second, day, month, year since 2000.\<close>

fun date_ok :: "date \<Rightarrow> bool" where
  "date_ok (Date h mi s d mo y) \<longleftrightarrow> h < 24 \<and> mi < 60 \<and> s < 60 \<and> 1 \<le> d \<and> d \<le> 31 \<and> 1 \<le> mo \<and> mo \<le> 12 \<and> y < 100"

definition shown :: "bool \<Rightarrow> nat \<Rightarrow> u8" where
  "shown binary n = word_of_nat (if binary then n else 16 * (n div 10) + n mod 10)"

definition shown_hour :: "bool \<Rightarrow> bool \<Rightarrow> nat \<Rightarrow> u8" where
  "shown_hour binary h24 h =
     (if h24 then shown binary h
      else shown binary (if h mod 12 = 0 then 12 else h mod 12) OR (if h \<ge> 12 then 0x80 else 0))"

text \<open>A chip whose time stands still; the update flag may come and go.\<close>

fun displays :: "rtc \<Rightarrow> bool \<Rightarrow> bool \<Rightarrow> date \<Rightarrow> bool" where
  "displays rtc binary h24 (Date h mi s d mo y) \<longleftrightarrow> (\<forall>t.
     rtc t 0 = shown binary s \<and> rtc t 2 = shown binary mi \<and> rtc t 4 = shown_hour binary h24 h \<and> rtc t 7 = shown binary d \<and>
     rtc t 8 = shown binary mo \<and> rtc t 9 = shown binary y \<and>
     (rtc t 0x0B AND 4 \<noteq> 0 \<longleftrightarrow> binary) \<and> (rtc t 0x0B AND 2 \<noteq> 0 \<longleftrightarrow> h24))"

definition conv_of :: "bool \<Rightarrow> u8 \<Rightarrow> u8" where
  "conv_of binary = (if binary then id else bcd2bin)"

lemma all_below: "list_all P [0..<n] \<Longrightarrow> k < n \<Longrightarrow> P k"
  by (simp add: list_all_iff)

lemma conv_shown: "n < 100 \<Longrightarrow> conv_of binary (shown binary n) = word_of_nat n"
proof -
  have "list_all (\<lambda>n. conv_of False (shown False n) = word_of_nat n) [0..<100]" by code_simp
  then show "n < 100 \<Longrightarrow> conv_of binary (shown binary n) = word_of_nat n"
    using all_below [of "\<lambda>n. conv_of False (shown False n) = word_of_nat n"] by (cases binary) (simp_all add: conv_of_def shown_def)
qed

text \<open>The hour that is read when the clock shows \<open>h\<close>.\<close>

definition hour_read :: "bool \<Rightarrow> bool \<Rightarrow> nat \<Rightarrow> nat" where
  "hour_read binary h24 h = (if \<not> binary \<and> \<not> h24 \<and> h \<ge> 12 then (h + 8) mod 12 else h)"

lemma hour_shown:
  assumes "h < 24"
  shows "(if h24 then conv_of binary (shown_hour binary h24 h) else to_24h (conv_of binary (shown_hour binary h24 h))) =
    word_of_nat (hour_read binary h24 h)"
proof -
  have "list_all (\<lambda>h. list_all (\<lambda>(binary, h24).
      (if h24 then conv_of binary (shown_hour binary h24 h) else to_24h (conv_of binary (shown_hour binary h24 h))) =
      word_of_nat (hour_read binary h24 h)) [(False, False), (False, True), (True, False), (True, True)]) [0..<24]"
    by code_simp
  from all_below [OF this assms] show ?thesis by (cases binary; cases h24) simp_all
qed

text \<open>
  C30: reading the clock. A chip that shows a date, in binary or decimal digits and with 24 or 12 hours, is read as that date
  in whatever way its update flag behaves, with one exception: in the decimal 12-hour format an afternoon hour \<open>h\<close> is read as
  \<open>(h + 8) mod 12\<close>, because the digits are converted before the afternoon mark is taken off.
\<close>

theorem rtc_read_as_shown:
  assumes "displays rtc binary h24 (Date h mi s d mo y)" "date_ok (Date h mi s d mo y)"
  shows "fst (read_rtc rtc t) = \<lparr>rtc_hour = word_of_nat (hour_read binary h24 h), rtc_minute = word_of_nat mi, rtc_second = word_of_nat s,
    rtc_day = word_of_nat d, rtc_month = word_of_nat mo, rtc_year = word_of_nat (2000 + y)\<rparr>"
proof -
  have r: "read_registers rtc u = ((shown binary s, shown binary mi, shown_hour binary h24 h, shown binary d, shown binary mo, shown binary y), u + 6)"
    for u using assms(1) by (simp add: read_registers_def cmos_read_def)
  have y: "(ucast (word_of_nat y :: u8) :: u16) = word_of_nat y" using assms(2)
    by (simp add: unsigned_of_nat take_bit_nat_eq_self)
  have c: "(if b then id else bcd2bin) = conv_of b" for b by (simp add: conv_of_def)
  have hr: "(if h24 then conv_of binary (shown_hour binary h24 h) else to_24h (conv_of binary (shown_hour binary h24 h))) =
    word_of_nat (hour_read binary h24 h)" using hour_shown assms(2) by simp
  have flags: "(fst (cmos_read rtc 0x0B u) AND 4 \<noteq> 0) = binary" "(fst (cmos_read rtc 0x0B u) AND 2 \<noteq> 0) = h24" for u
    using assms(1) by (simp_all add: cmos_read_def)
  show ?thesis
    using flags hr conv_shown [of _ binary] assms(2) y
    by (cases h24) (simp_all add: read_rtc_def Let_def cmos_read_def c r)
qed

text \<open>A chip that shows a quarter past three in the afternoon.\<close>

definition demo_rtc :: "bool \<Rightarrow> bool \<Rightarrow> rtc" where
  "demo_rtc binary h24 t idx =
     (if idx = 0 then shown binary 59 else if idx = 2 then shown binary 15 else if idx = 4 then shown_hour binary h24 15
      else if idx = 7 then shown binary 28 else if idx = 8 then shown binary 2 else if idx = 9 then shown binary 26
      else if idx = 0x0B then (if binary then 4 else 0) OR (if h24 then 2 else 0) else if t mod 3 = 0 then 0x80 else 0)"

theorem rtc_read_as_shown_witness:
  "rtc_hour (fst (read_rtc (demo_rtc False True) 0)) = 15 \<and> rtc_hour (fst (read_rtc (demo_rtc False False) 0)) = 11"
proof -
  have d: "displays (demo_rtc False b) False b (Date 15 15 59 28 2 26)" for b by (cases b) (simp_all add: demo_rtc_def)
  show ?thesis using rtc_read_as_shown [OF d] by (simp add: hour_read_def)
qed

text \<open>The short variant reads the same hour and minute.\<close>

lemma read_time_as_shown:
  assumes "displays rtc binary h24 (Date h mi s d mo y)" "date_ok (Date h mi s d mo y)"
  shows "fst (read_time rtc t) = (word_of_nat (hour_read binary h24 h), word_of_nat mi)"
proof -
  have c: "(if b then id else bcd2bin) = conv_of b" for b by (simp add: conv_of_def)
  show ?thesis using assms hour_shown [of h h24 binary] conv_shown [of mi binary]
    by (cases h24) (simp_all add: read_time_def Let_def cmos_read_def c)
qed

text \<open>
  the time on the screen. In the formats that are read correctly the five characters that are made of the clock's answer
  are the decimal digits of the hour and of the minute around a colon.
\<close>

theorem clock_text_shows_time:
  assumes "displays rtc binary h24 (Date h mi s d mo y)" "date_ok (Date h mi s d mo y)" "binary \<or> h24 \<or> h < 12"
  shows "(case fst (read_time rtc t) of (hour, minute) \<Rightarrow> map unat (format_time hour minute)) =
    [48 + h div 10, 48 + h mod 10, 58, 48 + mi div 10, 48 + mi mod 10]"
proof -
  have "list_all (\<lambda>n. unat (0x30 + (word_of_nat n :: u8) div 10) = 48 + n div 10 \<and> unat (0x30 + (word_of_nat n :: u8) mod 10) = 48 + n mod 10) [0..<60]"
    by code_simp
  from all_below [OF this] have d: "n < 60 \<Longrightarrow> unat (0x30 + (word_of_nat n :: u8) div 10) = 48 + n div 10 \<and>
    unat (0x30 + (word_of_nat n :: u8) mod 10) = 48 + n mod 10" for n by blast
  have "hour_read binary h24 h = h" using assms(3) by (auto simp: hour_read_def)
  then show ?thesis using read_time_as_shown [OF assms(1,2)] d [of h] d [of mi] assms(2) by (simp add: format_time_def)
qed

theorem clock_text_shows_time_witness:
  "(case fst (read_time (demo_rtc False True) 0) of (hour, minute) \<Rightarrow> map unat (format_time hour minute)) = map of_char ''15:15''"
proof -
  have d: "displays (demo_rtc False True) False True (Date 15 15 59 28 2 26)" by (simp add: demo_rtc_def)
  show ?thesis using clock_text_shows_time [OF d] by simp
qed

end
