(* ===== verification/Barrelc.thy ===== *)
theory Barrelc
  imports Barrel
begin

unbundle bit_operations_syntax

text \<open>
  The compiler of \<open>src/kernel/src/barrelc.rs\<close>: one pass over the source that emits x86-64 machine code into a fixed
  buffer, patches the jumps, and wraps the code into an ELF image for the loader of \<open>Elf\<close>.

  The compiler's state is the record \<open>comp\<close>. \<open>c_vars\<close> and \<open>breaks\<close> are the used parts of the arrays of the code. The
  recursive descent runs on fuel; a result of \<open>None\<close> for every fuel is a compilation that does not return.
\<close>

section \<open>State and lexer\<close>

datatype tk =
    KEof | KNum | KIdent | KPrint | KPrintln | KLet | KIf | KElse | KWhile | KLoop | KBreak
  | KEq | KEqEq | KNe | KLt | KLe | KGt | KGe | KPlus | KMinus | KStar | KSlash
  | KLParen | KRParen | KLBrace | KRBrace | KSemi

record comp =
  c_src :: bytes
  c_pos :: nat
  c_tok :: tk
  c_num :: u64
  name_off :: nat
  name_len :: nat
  ELF_BUF :: bytes
  clen :: nat
  c_vars :: "(nat \<times> nat) list"
  breaks :: "nat list"
  c_err :: i64

abbreviation (input) LOAD_VADDR :: u64 where "LOAD_VADDR \<equiv> 0x200000000000"
abbreviation (input) HDR_SIZE :: nat where "HDR_SIZE \<equiv> 64"
abbreviation (input) PHDR_SIZE :: nat where "PHDR_SIZE \<equiv> 56"
abbreviation (input) CODE_OFF :: nat where "CODE_OFF \<equiv> 120"
abbreviation (input) ELF_BUF_SIZE :: nat where "ELF_BUF_SIZE \<equiv> 4096"
abbreviation (input) MAX_LOCALS :: nat where "MAX_LOCALS \<equiv> 32"
abbreviation (input) MAX_BREAKS :: nat where "MAX_BREAKS \<equiv> 32"
abbreviation (input) FRAME_BYTES :: u32 where "FRAME_BYTES \<equiv> 256"
abbreviation (input) E_PARSE :: i64 where "E_PARSE \<equiv> - 100"
abbreviation (input) E_OVERFLOW :: i64 where "E_OVERFLOW \<equiv> - 101"
abbreviation (input) E_TOOMANY_VARS :: i64 where "E_TOOMANY_VARS \<equiv> - 102"

definition fail :: "i64 \<Rightarrow> comp \<Rightarrow> comp" where
  "fail code s = (if c_err s = 0 then s\<lparr>c_err := code\<rparr> else s)"

definition c_keyword :: "bytes \<Rightarrow> tk" where
  "c_keyword name =
     (if name = bytes_of ''print'' then KPrint else if name = bytes_of ''println'' then KPrintln
      else if name = bytes_of ''let'' then KLet else if name = bytes_of ''if'' then KIf
      else if name = bytes_of ''else'' then KElse else if name = bytes_of ''while'' then KWhile
      else if name = bytes_of ''loop'' then KLoop else if name = bytes_of ''break'' then KBreak else KIdent)"

text \<open>The tokens of one character, and those that an equals sign may extend.\<close>

definition symbol_table :: "(u8 \<times> tk) list" where
  "symbol_table = [(0x2B, KPlus), (0x2D, KMinus), (0x2A, KStar), (0x2F, KSlash), (0x28, KLParen), (0x29, KRParen),
     (0x7B, KLBrace), (0x7D, KRBrace), (0x3B, KSemi)]"

definition equals_table :: "(u8 \<times> tk \<times> tk option) list" where
  "equals_table = [(0x3D, KEqEq, Some KEq), (0x21, KNe, None), (0x3C, KLe, Some KLt), (0x3E, KGe, Some KGt)]"

definition next_token :: "comp \<Rightarrow> comp" where
  "next_token s =
     (let src = c_src s; pos = skip_whitespace src (c_pos s); s = s\<lparr>c_pos := pos\<rparr>; c = peek src pos
      in if c = 0 then s\<lparr>c_tok := KEof\<rparr>
      else if is_digit c then
        let e = skip_while is_digit src pos in s\<lparr>c_pos := e, c_num := number_value (slice src pos e), c_tok := KNum\<rparr>
      else if is_name_start c then
        let e = skip_while is_name_char src pos
        in s\<lparr>c_pos := e, name_off := pos, name_len := e - pos, c_tok := c_keyword (slice src pos e)\<rparr>
      else case map_of equals_table c of
        Some (long, short) \<Rightarrow>
          let s = s\<lparr>c_pos := pos + 1\<rparr>
          in if peek src (pos + 1) = 0x3D then s\<lparr>c_pos := pos + 2, c_tok := long\<rparr>
             else (case short of Some t \<Rightarrow> s\<lparr>c_tok := t\<rparr> | None \<Rightarrow> fail E_PARSE s)
      | None \<Rightarrow>
          (let s = s\<lparr>c_pos := pos + 1\<rparr>
           in case map_of symbol_table c of Some t \<Rightarrow> s\<lparr>c_tok := t\<rparr> | None \<Rightarrow> fail E_PARSE s))"

definition eat :: "tk \<Rightarrow> comp \<Rightarrow> comp" where
  "eat t s = (if c_tok s = t then next_token s else fail E_PARSE s)"

text \<open>Variables get slots of the frame in the order in which they are first mentioned.\<close>

definition name_at :: "comp \<Rightarrow> nat \<times> nat \<Rightarrow> bytes" where
  "name_at s v = (case v of (off, len) \<Rightarrow> take len (drop off (c_src s)))"

definition var_slot :: "nat \<Rightarrow> nat \<Rightarrow> comp \<Rightarrow> nat \<times> comp" where
  "var_slot off len s =
     (case find_first (\<lambda>i. snd (c_vars s ! i) = len \<and> name_at s (c_vars s ! i) = name_at s (off, len)) [0..<length (c_vars s)] of
        Some i \<Rightarrow> (i, s)
      | None \<Rightarrow> if length (c_vars s) \<ge> MAX_LOCALS then (0, fail E_TOOMANY_VARS s)
                else (length (c_vars s), s\<lparr>c_vars := c_vars s @ [(off, len)]\<rparr>))"

definition slot_disp :: "nat \<Rightarrow> u32" where
  "slot_disp slot = - word_of_nat ((slot + 1) * 8)"

section \<open>Emitting machine code\<close>

definition emit_byte :: "u8 \<Rightarrow> comp \<Rightarrow> comp" where
  "emit_byte b s =
     (let idx = CODE_OFF + clen s
      in if idx \<ge> ELF_BUF_SIZE then fail E_OVERFLOW s else s\<lparr>ELF_BUF := (ELF_BUF s)[idx := b], clen := clen s + 1\<rparr>)"

definition emit_bytes :: "bytes \<Rightarrow> comp \<Rightarrow> comp" where
  "emit_bytes bs s = fold emit_byte bs s"

definition emit_u32 :: "u32 \<Rightarrow> comp \<Rightarrow> comp" where
  "emit_u32 v = emit_bytes (to_le 4 v)"

definition emit_u64 :: "u64 \<Rightarrow> comp \<Rightarrow> comp" where
  "emit_u64 v = emit_bytes (to_le 8 v)"

text \<open>\<open>patch32\<close> of the distance from the end of the four bytes at \<open>site\<close> to \<open>target\<close>.\<close>

definition rel32 :: "nat \<Rightarrow> nat \<Rightarrow> u32" where
  "rel32 site target = word_of_int (int target - (int site + 4))"

definition patch32 :: "nat \<Rightarrow> u32 \<Rightarrow> comp \<Rightarrow> comp" where
  "patch32 site rel s =
     s\<lparr>ELF_BUF := fold (\<lambda>k buf. let idx = CODE_OFF + site + k
         in if idx < ELF_BUF_SIZE then buf[idx := to_le 4 rel ! k] else buf) [0..<4] (ELF_BUF s)\<rparr>"

definition mov_rax_imm :: "u64 \<Rightarrow> comp \<Rightarrow> comp" where
  "mov_rax_imm imm s = emit_u64 imm (emit_bytes [0x48, 0xB8] s)"

definition push_rax :: "comp \<Rightarrow> comp" where "push_rax = emit_byte 0x50"

definition pop_rax :: "comp \<Rightarrow> comp" where "pop_rax = emit_byte 0x58"

definition mov_rcx_rax :: "comp \<Rightarrow> comp" where "mov_rcx_rax = emit_bytes [0x48, 0x89, 0xC1]"

definition load_local :: "nat \<Rightarrow> comp \<Rightarrow> comp" where
  "load_local slot s = emit_u32 (slot_disp slot) (emit_bytes [0x48, 0x8B, 0x85] s)"

definition store_local :: "nat \<Rightarrow> comp \<Rightarrow> comp" where
  "store_local slot s = emit_u32 (slot_disp slot) (emit_bytes [0x48, 0x89, 0x85] s)"

definition op_add :: "comp \<Rightarrow> comp" where "op_add = emit_bytes [0x48, 0x01, 0xC8]"

definition op_sub :: "comp \<Rightarrow> comp" where "op_sub = emit_bytes [0x48, 0x29, 0xC8]"

definition op_mul :: "comp \<Rightarrow> comp" where "op_mul = emit_bytes [0x48, 0x0F, 0xAF, 0xC1]"

definition op_div :: "comp \<Rightarrow> comp" where
  "op_div s =
     (let s = emit_bytes [0x0F, 0x84] (emit_bytes [0x48, 0x85, 0xC9] s);
          site_skip = clen s;
          s = emit_u32 0 s;
          s = emit_bytes [0xE9] (emit_bytes [0x48, 0xF7, 0xF1] (emit_bytes [0x31, 0xD2] s));
          site_done = clen s;
          s = emit_u32 0 s;
          skip_target = clen s;
          s = emit_bytes [0x31, 0xC0] s;
          done_target = clen s
      in patch32 site_done (rel32 site_done done_target) (patch32 site_skip (rel32 site_skip skip_target) s))"

definition op_cmp_set :: "u8 \<Rightarrow> comp \<Rightarrow> comp" where
  "op_cmp_set set2 s =
     emit_bytes [0x48, 0x0F, 0xB6, 0xC0] (emit_bytes [0x0F, set2, 0xC0] (emit_bytes [0x48, 0x39, 0xC8] s))"

definition op_neg :: "comp \<Rightarrow> comp" where "op_neg = emit_bytes [0x48, 0xF7, 0xD8]"

section \<open>Expressions\<close>

text \<open>The operators of a level, with the code that combines \<open>rax\<close> and \<open>rcx\<close>.\<close>

type_synonym emitters = "tk \<Rightarrow> (comp \<Rightarrow> comp) option"

definition mul_emitters :: emitters where
  "mul_emitters = map_of [(KStar, op_mul), (KSlash, op_div)]"

definition add_emitters :: emitters where
  "add_emitters = map_of [(KPlus, op_add), (KMinus, op_sub)]"

definition cmp_emitters :: emitters where
  "cmp_emitters = map_of [(KEqEq, op_cmp_set 0x94), (KNe, op_cmp_set 0x95), (KLt, op_cmp_set 0x92), (KLe, op_cmp_set 0x96),
     (KGt, op_cmp_set 0x97), (KGe, op_cmp_set 0x93)]"

fun operand_loop :: "nat \<Rightarrow> (comp \<Rightarrow> comp option) \<Rightarrow> emitters \<Rightarrow> comp \<Rightarrow> comp option" where
  "operand_loop 0 g ops s = None"
| "operand_loop (Suc n) g ops s =
     (case ops (c_tok s) of
        None \<Rightarrow> Some s
      | Some op \<Rightarrow> do {
          s \<leftarrow> g (push_rax (next_token s));
          let s = op (pop_rax (mov_rcx_rax s));
          if c_err s \<noteq> 0 then Some s else operand_loop n g ops s
        })"

definition c_level :: "nat \<Rightarrow> (comp \<Rightarrow> comp option) \<Rightarrow> emitters \<Rightarrow> comp \<Rightarrow> comp option" where
  "c_level n g ops s = do { s \<leftarrow> g s; operand_loop n g ops s }"

fun c_atom :: "nat \<Rightarrow> (comp \<Rightarrow> comp option) \<Rightarrow> comp \<Rightarrow> comp option" where
  "c_atom 0 ex s = None"
| "c_atom (Suc n) ex s =
     (case c_tok s of
        KNum \<Rightarrow> Some (mov_rax_imm (c_num s) (next_token s))
      | KIdent \<Rightarrow> (case var_slot (name_off s) (name_len s) s of (slot, s) \<Rightarrow> Some (load_local slot (next_token s)))
      | KLParen \<Rightarrow> do { s \<leftarrow> ex (next_token s); Some (eat KRParen s) }
      | KMinus \<Rightarrow> do { s \<leftarrow> c_atom n ex (next_token s); Some (op_neg s) }
      | _ \<Rightarrow> Some (fail E_PARSE s))"

definition c_mul :: "nat \<Rightarrow> (comp \<Rightarrow> comp option) \<Rightarrow> comp \<Rightarrow> comp option" where
  "c_mul n ex = c_level n (c_atom n ex) mul_emitters"

definition c_add :: "nat \<Rightarrow> (comp \<Rightarrow> comp option) \<Rightarrow> comp \<Rightarrow> comp option" where
  "c_add n ex = c_level n (c_mul n ex) add_emitters"

definition c_cmp :: "nat \<Rightarrow> (comp \<Rightarrow> comp option) \<Rightarrow> comp \<Rightarrow> comp option" where
  "c_cmp n ex = c_level n (c_add n ex) cmp_emitters"

fun c_expr :: "nat \<Rightarrow> comp \<Rightarrow> comp option" where
  "c_expr 0 s = None"
| "c_expr (Suc n) s = c_cmp (Suc n) (c_expr n) s"

section \<open>Statements\<close>

definition emit_prologue :: "comp \<Rightarrow> comp" where
  "emit_prologue s = emit_u32 FRAME_BYTES (emit_bytes [0x48, 0x81, 0xEC] (emit_bytes [0x48, 0x89, 0xE5] (emit_byte 0x55 s)))"

definition emit_print :: "bool \<Rightarrow> comp \<Rightarrow> comp" where
  "emit_print newline s =
     emit_bytes [0x0F, 0x05] (emit_bytes [0xB8, 0x20, 0, 0, 0]
       (emit_bytes (if newline then [0xBE, 1, 0, 0, 0] else [0x31, 0xF6]) (emit_bytes [0x48, 0x89, 0xC7] s)))"

definition emit_exit :: "comp \<Rightarrow> comp" where
  "emit_exit s = emit_bytes [0x0F, 0x05] (emit_bytes [0xB8, 6, 0, 0, 0] (emit_bytes [0x31, 0xFF] s))"

text \<open>\<open>close_breaks\<close>: the jumps added from index \<open>bbase\<close> on get their target.\<close>

definition close_breaks :: "nat \<Rightarrow> nat \<Rightarrow> comp \<Rightarrow> comp" where
  "close_breaks bbase end_target s =
     (fold (\<lambda>site. patch32 site (rel32 site end_target)) (drop bbase (breaks s)) s)\<lparr>breaks := take bbase (breaks s)\<rparr>"

text \<open>The loop \<open>while cond { body }\<close>.\<close>

fun c_while :: "nat \<Rightarrow> (comp \<Rightarrow> bool) \<Rightarrow> (comp \<Rightarrow> comp option) \<Rightarrow> comp \<Rightarrow> comp option" where
  "c_while 0 cond body s = None"
| "c_while (Suc n) cond body s = (if cond s then do { s \<leftarrow> body s; c_while n cond body s } else Some s)"

definition c_block :: "nat \<Rightarrow> (comp \<Rightarrow> comp option) \<Rightarrow> comp \<Rightarrow> comp option" where
  "c_block n st s = do {
     s \<leftarrow> c_while n (\<lambda>s. c_tok s \<noteq> KRBrace \<and> c_tok s \<noteq> KEof \<and> c_err s = 0) st (eat KLBrace s);
     Some (eat KRBrace s)
   }"

definition c_let :: "nat \<Rightarrow> comp \<Rightarrow> comp option" where
  "c_let n s =
     (let s = next_token s
      in if c_tok s \<noteq> KIdent then Some (fail E_PARSE s)
         else case var_slot (name_off s) (name_len s) s of (slot, s) \<Rightarrow> do {
           s \<leftarrow> c_expr n (eat KEq (next_token s));
           Some (store_local slot (eat KSemi s))
         })"

definition c_print :: "nat \<Rightarrow> comp \<Rightarrow> comp option" where
  "c_print n s =
     (let nl = c_tok s = KPrintln in do { s \<leftarrow> c_expr n (next_token s); Some (emit_print nl (eat KSemi s)) })"

text \<open>A conditional jump to a place that is not known yet; its site.\<close>

definition emit_je :: "comp \<Rightarrow> nat \<times> comp" where
  "emit_je s = (let s = emit_bytes [0x0F, 0x84] (emit_bytes [0x48, 0x85, 0xC0] s) in (clen s, emit_u32 0 s))"

definition emit_jmp :: "comp \<Rightarrow> nat \<times> comp" where
  "emit_jmp s = (let s = emit_bytes [0xE9] s in (clen s, emit_u32 0 s))"

definition c_if :: "nat \<Rightarrow> (comp \<Rightarrow> comp option) \<Rightarrow> comp \<Rightarrow> comp option" where
  "c_if n block s = do {
     s \<leftarrow> c_expr n (next_token s);
     let (site_else, s) = emit_je s;
     s \<leftarrow> block s;
     if c_tok s = KElse then do {
       let (site_end, s) = emit_jmp (next_token s);
       let s = patch32 site_else (rel32 site_else (clen s)) s;
       s \<leftarrow> block s;
       Some (patch32 site_end (rel32 site_end (clen s)) s)
     } else Some (patch32 site_else (rel32 site_else (clen s)) s)
   }"

definition c_while_stmt :: "nat \<Rightarrow> (comp \<Rightarrow> comp option) \<Rightarrow> comp \<Rightarrow> comp option" where
  "c_while_stmt n block s =
     (let s = next_token s; top = clen s in do {
        s \<leftarrow> c_expr n s;
        let (site_end, s) = emit_je s;
        let bbase = length (breaks s);
        s \<leftarrow> block s;
        let (site_back, s) = emit_jmp s;
        let s = patch32 site_back (rel32 site_back top) s;
        let end_target = clen s;
        Some (close_breaks bbase end_target (patch32 site_end (rel32 site_end end_target) s))
      })"

definition c_loop_stmt :: "(comp \<Rightarrow> comp option) \<Rightarrow> comp \<Rightarrow> comp option" where
  "c_loop_stmt block s =
     (let s = next_token s; top = clen s; bbase = length (breaks s) in do {
        s \<leftarrow> block s;
        let (site_back, s) = emit_jmp s;
        let s = patch32 site_back (rel32 site_back top) s;
        Some (close_breaks bbase (clen s) s)
      })"

definition c_break :: "comp \<Rightarrow> comp" where
  "c_break s =
     (case emit_jmp (eat KSemi (next_token s)) of (site, s) \<Rightarrow>
        if length (breaks s) < MAX_BREAKS then s\<lparr>breaks := breaks s @ [site]\<rparr> else fail E_OVERFLOW s)"

fun c_stmt :: "nat \<Rightarrow> comp \<Rightarrow> comp option" where
  "c_stmt 0 s = None"
| "c_stmt (Suc n) s =
     (case c_tok s of
        KSemi \<Rightarrow> Some (next_token s)
      | KLet \<Rightarrow> c_let n s
      | KPrint \<Rightarrow> c_print n s
      | KPrintln \<Rightarrow> c_print n s
      | KIf \<Rightarrow> c_if n (c_block n (c_stmt n)) s
      | KWhile \<Rightarrow> c_while_stmt n (c_block n (c_stmt n)) s
      | KLoop \<Rightarrow> c_loop_stmt (c_block n (c_stmt n)) s
      | KBreak \<Rightarrow> Some (c_break s)
      | KEof \<Rightarrow> Some s
      | KRBrace \<Rightarrow> Some s
      | _ \<Rightarrow> Some (fail E_PARSE s))"

definition c_program :: "nat \<Rightarrow> comp \<Rightarrow> comp option" where
  "c_program n s = do {
     s \<leftarrow> c_while n (\<lambda>s. c_tok s \<noteq> KEof \<and> c_err s = 0) (c_stmt n) (next_token (emit_prologue s));
     Some (emit_exit s)
   }"

section \<open>The image and its execution\<close>

definition write_elf_headers :: "nat \<Rightarrow> bytes \<Rightarrow> bytes" where
  "write_elf_headers total_len =
     puts ([(0, [0x7F, 0x45, 0x4C, 0x46]), (4, [2]), (5, [1]), (6, [1]), (7, replicate 9 0),
        (16, to_le 2 (2 :: u16)), (18, to_le 2 (0x3E :: u16)), (20, to_le 4 (1 :: u32)),
        (24, to_le 8 (LOAD_VADDR + word_of_nat CODE_OFF)), (32, to_le 8 (word_of_nat HDR_SIZE :: u64)), (40, to_le 8 (0 :: u64)),
        (48, to_le 4 (0 :: u32)), (52, to_le 2 (word_of_nat HDR_SIZE :: u16)), (54, to_le 2 (word_of_nat PHDR_SIZE :: u16)),
        (56, to_le 2 (1 :: u16)), (58, to_le 2 (0 :: u16)), (60, to_le 2 (0 :: u16)), (62, to_le 2 (0 :: u16))] @
       [(64, to_le 4 (1 :: u32)), (68, to_le 4 (7 :: u32)), (72, to_le 8 (0 :: u64)),
        (80, to_le 8 LOAD_VADDR), (88, to_le 8 LOAD_VADDR), (96, to_le 8 (word_of_nat total_len :: u64)),
        (104, to_le 8 (word_of_nat total_len :: u64)), (112, to_le 8 (0x1000 :: u64))])"

definition comp_new :: "bytes \<Rightarrow> bytes \<Rightarrow> comp" where
  "comp_new src buf = \<lparr>c_src = src, c_pos = 0, c_tok = KEof, c_num = 0, name_off = 0, name_len = 0, ELF_BUF = buf, clen = 0,
     c_vars = [], breaks = [], c_err = 0\<rparr>"

text \<open>The error or the length of the image, and the buffer.\<close>

definition c_compile :: "nat \<Rightarrow> bytes \<Rightarrow> bytes \<Rightarrow> ((i64 + nat) \<times> bytes) option" where
  "c_compile n src buf = do {
     c \<leftarrow> c_program n (comp_new src buf);
     if c_err c \<noteq> 0 then Some (Inl (c_err c), ELF_BUF c)
     else let image_len = CODE_OFF + clen c in Some (Inr image_len, write_elf_headers image_len (ELF_BUF c))
   }"

text \<open>The buffer is a static of the kernel at \<open>buf_at\<close>; the image is handed to the ELF loader by its address.\<close>

definition compile_and_run :: "layout \<Rightarrow> u64 \<Rightarrow> nat \<Rightarrow> bytes \<Rightarrow> kernel \<Rightarrow> (i64 \<times> kernel) option" where
  "compile_and_run L buf_at n src s = do {
     (r, buf) \<leftarrow> c_compile n src (mread (kmem s) buf_at ELF_BUF_SIZE);
     let s = s\<lparr>kmem := mwrite (kmem s) buf_at buf\<rparr>;
     case r of
       Inl err \<Rightarrow> Some (err, s)
     | Inr image_len \<Rightarrow> do {
         (pid, s) \<leftarrow> elf_exec L buf_at (word_of_nat image_len) s;
         if pid <s 0 then Some (pid, s) else Some (pid, run_slot (unat pid) s)
       }
   }"

end
