(* ===== verification/Barrelcode.thy ===== *)
theory Barrelcode
  imports Barrelc "HOL-Library.Sublist"
begin

unbundle bit_operations_syntax

text \<open>
  What the compiler of \<open>Barrelc\<close> produces. Programs are syntax trees, rendered as text with parentheses only where
  precedence and left association need them; \<open>cg_stmts\<close> gives the code of a tree, with all jumps in place. The theorem is
  that compiling the text of a tree yields its code: lexing, precedence, slots, jump distances and the patching of
  \<open>break\<close> are right.
\<close>

section \<open>Programs and their text\<close>

datatype cexpr = CNum u64 | CVar bytes | CNeg cexpr | CBin tk cexpr cexpr

datatype cstmt =
    CSkip | CLet bytes cexpr | CPrint bool cexpr | CIf cexpr "cstmt list" | CIfElse cexpr "cstmt list" "cstmt list"
  | CWhile cexpr "cstmt list" | CLoop "cstmt list" | CBreak

datatype ctok = CT tk | CTNum u64 | CTName bytes

definition spellings :: "(tk \<times> string) list" where
  "spellings = [(KPrint, ''print''), (KPrintln, ''println''), (KLet, ''let''), (KIf, ''if''), (KElse, ''else''), (KWhile, ''while''),
     (KLoop, ''loop''), (KBreak, ''break''), (KEq, ''=''), (KEqEq, ''==''), (KNe, ''!=''), (KLt, ''<''), (KLe, ''<=''), (KGt, ''>''),
     (KGe, ''>=''), (KPlus, ''+''), (KMinus, ''-''), (KStar, ''*''), (KSlash, ''/''), (KLParen, ''(''), (KRParen, '')''),
     (KLBrace, ''{''), (KRBrace, ''}''), (KSemi, '';'')]"

fun spell :: "ctok \<Rightarrow> bytes" where
  "spell (CT t) = bytes_of (the (map_of spellings t))"
| "spell (CTNum v) = num_text v"
| "spell (CTName x) = x"

fun kind_of :: "ctok \<Rightarrow> tk" where
  "kind_of (CT t) = t"
| "kind_of (CTNum v) = KNum"
| "kind_of (CTName x) = KIdent"

definition name_ok :: "bytes \<Rightarrow> bool" where
  "name_ok x \<longleftrightarrow> x \<noteq> [] \<and> is_name_start (hd x) \<and> list_all is_name_char x \<and> c_keyword x = KIdent"

fun tok_ok :: "ctok \<Rightarrow> bool" where
  "tok_ok (CT t) \<longleftrightarrow> t \<notin> {KEof, KNum, KIdent}"
| "tok_ok (CTNum v) \<longleftrightarrow> True"
| "tok_ok (CTName x) \<longleftrightarrow> name_ok x"

definition tok_text :: "ctok list \<Rightarrow> bytes" where
  "tok_text ts = concat (map (\<lambda>t. 0x20 # spell t) ts)"

text \<open>The precedence of the operators, written out: it does not look at the compiler's tables.\<close>

definition lvl :: "tk \<Rightarrow> nat" where
  "lvl op =
     (if op \<in> {KStar, KSlash} then 2 else if op \<in> {KPlus, KMinus} then 1
      else if op \<in> {KEqEq, KNe, KLt, KLe, KGt, KGe} then 0 else 3)"

fun rend :: "nat \<Rightarrow> cexpr \<Rightarrow> ctok list" where
  "rend p (CNum v) = [CTNum v]"
| "rend p (CVar x) = [CTName x]"
| "rend p (CNeg a) = CT KMinus # rend 3 a"
| "rend p (CBin op a b) =
     (let ts = rend (lvl op) a @ CT op # rend (Suc (lvl op)) b in if lvl op < p then CT KLParen # ts @ [CT KRParen] else ts)"

fun rend_stmt :: "cstmt \<Rightarrow> ctok list" and rend_stmts :: "cstmt list \<Rightarrow> ctok list" where
  "rend_stmt CSkip = [CT KSemi]"
| "rend_stmt (CLet x e) = [CT KLet, CTName x, CT KEq] @ rend 0 e @ [CT KSemi]"
| "rend_stmt (CPrint nl e) = CT (if nl then KPrintln else KPrint) # rend 0 e @ [CT KSemi]"
| "rend_stmt (CIf e ss) = CT KIf # rend 0 e @ CT KLBrace # rend_stmts ss @ [CT KRBrace]"
| "rend_stmt (CIfElse e ss ts) =
     CT KIf # rend 0 e @ CT KLBrace # rend_stmts ss @ [CT KRBrace, CT KElse, CT KLBrace] @ rend_stmts ts @ [CT KRBrace]"
| "rend_stmt (CWhile e ss) = CT KWhile # rend 0 e @ CT KLBrace # rend_stmts ss @ [CT KRBrace]"
| "rend_stmt (CLoop ss) = [CT KLoop, CT KLBrace] @ rend_stmts ss @ [CT KRBrace]"
| "rend_stmt CBreak = [CT KBreak, CT KSemi]"
| "rend_stmts [] = []"
| "rend_stmts (s # ss) = rend_stmt s @ rend_stmts ss"

text \<open>The text of a program.\<close>

definition source_of :: "cstmt list \<Rightarrow> bytes" where
  "source_of ss = tok_text (rend_stmts ss)"

text \<open>Names in the order in which they are mentioned, and well-formed programs.\<close>

fun names_e :: "cexpr \<Rightarrow> bytes list" where
  "names_e (CNum v) = []"
| "names_e (CVar x) = [x]"
| "names_e (CNeg a) = names_e a"
| "names_e (CBin op a b) = names_e a @ names_e b"

fun names_s :: "cstmt \<Rightarrow> bytes list" and names_ss :: "cstmt list \<Rightarrow> bytes list" where
  "names_s CSkip = []"
| "names_s (CLet x e) = x # names_e e"
| "names_s (CPrint nl e) = names_e e"
| "names_s (CIf e ss) = names_e e @ names_ss ss"
| "names_s (CIfElse e ss ts) = names_e e @ names_ss ss @ names_ss ts"
| "names_s (CWhile e ss) = names_e e @ names_ss ss"
| "names_s (CLoop ss) = names_ss ss"
| "names_s CBreak = []"
| "names_ss [] = []"
| "names_ss (s # ss) = names_s s @ names_ss ss"

fun ops_ok :: "cexpr \<Rightarrow> bool" where
  "ops_ok (CNum v) = True"
| "ops_ok (CVar x) = name_ok x"
| "ops_ok (CNeg a) = ops_ok a"
| "ops_ok (CBin op a b) \<longleftrightarrow> lvl op < 3 \<and> ops_ok a \<and> ops_ok b"

fun stmt_ok :: "cstmt \<Rightarrow> bool" and stmts_ok :: "cstmt list \<Rightarrow> bool" where
  "stmt_ok CSkip = True"
| "stmt_ok (CLet x e) \<longleftrightarrow> name_ok x \<and> ops_ok e"
| "stmt_ok (CPrint nl e) = ops_ok e"
| "stmt_ok (CIf e ss) \<longleftrightarrow> ops_ok e \<and> stmts_ok ss"
| "stmt_ok (CIfElse e ss ts) \<longleftrightarrow> ops_ok e \<and> stmts_ok ss \<and> stmts_ok ts"
| "stmt_ok (CWhile e ss) \<longleftrightarrow> ops_ok e \<and> stmts_ok ss"
| "stmt_ok (CLoop ss) = stmts_ok ss"
| "stmt_ok CBreak = True"
| "stmts_ok [] = True"
| "stmts_ok (s # ss) \<longleftrightarrow> stmt_ok s \<and> stmts_ok ss"

text \<open>The number of \<open>break\<close> statements.\<close>

fun breaks_s :: "cstmt \<Rightarrow> nat" and breaks_ss :: "cstmt list \<Rightarrow> nat" where
  "breaks_s (CIf e ss) = breaks_ss ss"
| "breaks_s (CIfElse e ss ts) = breaks_ss ss + breaks_ss ts"
| "breaks_s (CWhile e ss) = breaks_ss ss"
| "breaks_s (CLoop ss) = breaks_ss ss"
| "breaks_s CBreak = 1"
| "breaks_s _ = 0"
| "breaks_ss [] = 0"
| "breaks_ss (s # ss) = breaks_s s + breaks_ss ss"

section \<open>The code of a program\<close>

definition add_name :: "bytes list \<Rightarrow> bytes \<Rightarrow> bytes list" where
  "add_name V x = (if x \<in> set V then V else V @ [x])"

definition add_names :: "bytes list \<Rightarrow> bytes list \<Rightarrow> bytes list" where
  "add_names = foldl add_name"

definition slot :: "bytes list \<Rightarrow> bytes \<Rightarrow> nat" where
  "slot V x = length (takeWhile (\<lambda>y. y \<noteq> x) V)"

abbreviation (input) le32 :: "int \<Rightarrow> bytes" where "le32 d \<equiv> to_le 4 (word_of_int d :: u32)"

definition div_code :: bytes where
  "div_code = [0x48, 0x85, 0xC9, 0x0F, 0x84] @ le32 10 @ [0x31, 0xD2, 0x48, 0xF7, 0xF1, 0xE9] @ le32 2 @ [0x31, 0xC0]"

definition cmp_code :: "u8 \<Rightarrow> bytes" where
  "cmp_code set2 = [0x48, 0x39, 0xC8, 0x0F, set2, 0xC0, 0x48, 0x0F, 0xB6, 0xC0]"

definition op_code :: "tk \<Rightarrow> bytes" where
  "op_code op = the (map_of [(KStar, [0x48, 0x0F, 0xAF, 0xC1]), (KSlash, div_code), (KPlus, [0x48, 0x01, 0xC8]),
     (KMinus, [0x48, 0x29, 0xC8]), (KEqEq, cmp_code 0x94), (KNe, cmp_code 0x95), (KLt, cmp_code 0x92), (KLe, cmp_code 0x96),
     (KGt, cmp_code 0x97), (KGe, cmp_code 0x93)] op)"

definition print_code :: "bool \<Rightarrow> bytes" where
  "print_code nl = [0x48, 0x89, 0xC7] @ (if nl then [0xBE, 1, 0, 0, 0] else [0x31, 0xF6]) @ [0xB8, 0x20, 0, 0, 0, 0x0F, 0x05]"

definition je_code :: "int \<Rightarrow> bytes" where "je_code d = [0x48, 0x85, 0xC0, 0x0F, 0x84] @ le32 d"

definition jmp_code :: "int \<Rightarrow> bytes" where "jmp_code d = 0xE9 # le32 d"

definition prologue_code :: bytes where
  "prologue_code = [0x55, 0x48, 0x89, 0xE5, 0x48, 0x81, 0xEC, 0, 1, 0, 0]"

definition exit_code :: bytes where
  "exit_code = [0x31, 0xFF, 0xB8, 6, 0, 0, 0, 0x0F, 0x05]"

fun cg_expr :: "(bytes \<Rightarrow> nat) \<Rightarrow> cexpr \<Rightarrow> bytes" where
  "cg_expr \<sigma> (CNum v) = [0x48, 0xB8] @ to_le 8 v"
| "cg_expr \<sigma> (CVar x) = [0x48, 0x8B, 0x85] @ to_le 4 (slot_disp (\<sigma> x))"
| "cg_expr \<sigma> (CNeg a) = cg_expr \<sigma> a @ [0x48, 0xF7, 0xD8]"
| "cg_expr \<sigma> (CBin op a b) = cg_expr \<sigma> a @ [0x50] @ cg_expr \<sigma> b @ [0x48, 0x89, 0xC1, 0x58] @ op_code op"

text \<open>\<open>k\<close> is the distance from the end of the code to the end of the enclosing loop, if there is one.\<close>

definition far :: "nat \<Rightarrow> nat option \<Rightarrow> nat option" where
  "far n k = map_option (\<lambda>k. k + n) k"

fun cg_stmt :: "(bytes \<Rightarrow> nat) \<Rightarrow> nat option \<Rightarrow> cstmt \<Rightarrow> bytes"
  and cg_stmts :: "(bytes \<Rightarrow> nat) \<Rightarrow> nat option \<Rightarrow> cstmt list \<Rightarrow> bytes" where
  "cg_stmt \<sigma> k CSkip = []"
| "cg_stmt \<sigma> k (CLet x e) = cg_expr \<sigma> e @ [0x48, 0x89, 0x85] @ to_le 4 (slot_disp (\<sigma> x))"
| "cg_stmt \<sigma> k (CPrint nl e) = cg_expr \<sigma> e @ print_code nl"
| "cg_stmt \<sigma> k (CIf e ss) = (let B = cg_stmts \<sigma> k ss in cg_expr \<sigma> e @ je_code (int (length B)) @ B)"
| "cg_stmt \<sigma> k (CIfElse e ss ts) =
     (let E = cg_stmts \<sigma> k ts; B = cg_stmts \<sigma> (far (5 + length E) k) ss
      in cg_expr \<sigma> e @ je_code (int (length B) + 5) @ B @ jmp_code (int (length E)) @ E)"
| "cg_stmt \<sigma> k (CWhile e ss) =
     (let B = cg_stmts \<sigma> (Some 5) ss; C = cg_expr \<sigma> e
      in C @ je_code (int (length B) + 5) @ B @ jmp_code (- int (length C + length B + 14)))"
| "cg_stmt \<sigma> k (CLoop ss) = (let B = cg_stmts \<sigma> (Some 5) ss in B @ jmp_code (- int (length B + 5)))"
| "cg_stmt \<sigma> k CBreak = jmp_code (case k of None \<Rightarrow> 0 | Some k \<Rightarrow> int k)"
| "cg_stmts \<sigma> k [] = []"
| "cg_stmts \<sigma> k (s # ss) = (let R = cg_stmts \<sigma> k ss in cg_stmt \<sigma> (far (length R) k) s @ R)"

definition program_code :: "cstmt list \<Rightarrow> bytes" where
  "program_code ss = prologue_code @ cg_stmts (slot (add_names [] (names_ss ss))) None ss @ exit_code"
section \<open>Lexing\<close>

lemma skip_while_over:
  assumes "drop pos src = ds @ rest" "list_all P ds" "rest = [] \<or> \<not> P (hd rest)"
  shows "skip_while P src pos = pos + length ds"
  using assms
proof (induction ds arbitrary: pos)
  case Nil
  then show ?case
    by (subst skip_while.simps) (cases rest; auto simp: drop_eq_Nil dest!: hd_drop_conv_nth [symmetric])
next
  case (Cons d ds)
  have p: "pos < length src" "src ! pos = d" "drop (Suc pos) src = ds @ rest"
    using Cons.prems(1) by (metis append_Cons drop_all list.distinct(1) not_le_imp_less, metis append_Cons nth_via_drop,
      metis append_Cons drop_Suc list.sel(3) tl_drop)
  show ?case using Cons.IH [OF p(3)] Cons.prems(2,3) p(1,2) by (subst skip_while.simps) simp
qed

lemma slice_over: "drop pos src = ds @ rest \<Longrightarrow> slice src pos (pos + length ds) = ds"
  by (simp add: slice_def)

lemma peek_drop: "drop pos src = c # rest \<Longrightarrow> peek src pos = c \<and> pos < length src \<and> drop (Suc pos) src = rest"
  by (metis drop_Suc drop_all list.distinct(1) list.sel(3) not_le_imp_less nth_via_drop peek_def tl_drop linorder_not_le)

lemma peek_end: "drop pos src = [] \<Longrightarrow> peek src pos = 0"
  by (simp add: peek_def)

lemma skip_space: "drop pos src = 0x20 # rest \<Longrightarrow> skip_whitespace src pos = skip_whitespace src (Suc pos)"
  using peek_drop [of pos src "0x20" rest] by (subst skip_whitespace.simps) (simp add: Let_def lex_advance_def)

text \<open>A place where a token starts.\<close>

definition starts :: "bytes \<Rightarrow> bool" where
  "starts cs \<longleftrightarrow> (case cs of [] \<Rightarrow> True | c # r \<Rightarrow> c \<notin> {0x20, 9, 10, 13} \<and> (c = 0x2F \<longrightarrow> r = [] \<or> hd r \<noteq> 0x2F))"

lemma skip_stops: "starts (drop pos src) \<Longrightarrow> skip_whitespace src pos = pos"
proof (cases "drop pos src")
  case Nil
  then show ?thesis by (subst skip_whitespace.simps) (simp add: peek_end Let_def)
next
  case (Cons c r)
  assume s: "starts (drop pos src)"
  have n: "pos + 1 < length src \<Longrightarrow> r \<noteq> [] \<and> hd r = src ! (pos + 1)"
    using peek_drop [OF Cons] by (metis Suc_eq_plus1 drop_eq_Nil hd_drop_conv_nth linorder_not_le)
  show ?thesis using s peek_drop [OF Cons] n unfolding Cons starts_def
    by (subst skip_whitespace.simps) (auto simp: Let_def)
qed

lemma digit_facts: "is_digit c \<Longrightarrow> c \<noteq> 0 \<and> c \<notin> {0x20, 9, 10, 13, 0x2F}"
  by (auto simp: is_digit_def)

lemma name_facts: "is_name_start c \<Longrightarrow> c \<noteq> 0 \<and> c \<notin> {0x20, 9, 10, 13, 0x2F} \<and> \<not> is_digit c"
  unfolding is_name_start_def is_digit_def using order_trans [of "0x61" c "0x39"] order_trans [of "0x41" c "0x39"] by auto

lemma num_text_shape: "list_all is_digit (num_text v)" "num_text v \<noteq> []"
  using write_num_roundtrip [of v] by (auto simp: is_digit_def list_all_iff)

lemma num_text_number: "number_value (num_text v) = v"
proof -
  have g: "fold (\<lambda>d n. n * 10 + ucast (d - 0x30)) ds (word_of_nat k) = (word_of_nat (foldl (\<lambda>n d. n * 10 + dec_val d) k ds) :: u64)"
    for ds k
  proof (induction ds arbitrary: k)
    case (Cons d ds)
    have "(word_of_nat k * 10 + ucast (d - 0x30) :: u64) = word_of_nat (k * 10 + dec_val d)"
      by (simp add: dec_val_def)
    then show ?case using Cons [of "k * 10 + dec_val d"] by simp
  qed simp
  show ?thesis using g [of "num_text v" 0] write_num_roundtrip [of v] by (simp add: number_value_def digits_value_def)
qed

text \<open>Nothing but a space or the end follows a token.\<close>

lemma tok_text_hd: "tok_text ts = [] \<or> hd (tok_text ts) = 0x20"
  by (cases ts) (simp_all add: tok_text_def)

lemma not_name_space: "\<not> is_name_char 0x20" "\<not> is_digit 0x20"
  by (simp_all add: is_name_char_def is_name_start_def is_digit_def)

definition tok_cur :: "comp \<Rightarrow> ctok \<Rightarrow> bool" where
  "tok_cur s t \<longleftrightarrow> c_tok s = kind_of t \<and> (case t of CT _ \<Rightarrow> True | CTNum v \<Rightarrow> c_num s = v
     | CTName x \<Rightarrow> take (name_len s) (drop (name_off s) (c_src s)) = x \<and> name_len s = length x)"

text \<open>The state of the compiler before the tokens \<open>ts\<close>: the first one is current, the others are still text.\<close>

definition at_tok :: "comp \<Rightarrow> ctok list \<Rightarrow> bool" where
  "at_tok s ts \<longleftrightarrow> list_all tok_ok ts \<and> (case ts of [] \<Rightarrow> c_tok s = KEof \<and> drop (c_pos s) (c_src s) = []
     | t # r \<Rightarrow> tok_cur s t \<and> drop (c_pos s) (c_src s) = tok_text r)"

lemma next_name:
  assumes "drop pos src = x @ rest" "x \<noteq> []" "is_name_start (hd x)" "list_all is_name_char x" "rest = [] \<or> hd rest = 0x20"
    "skip_whitespace src (c_pos s) = pos" "c_src s = src"
  shows "next_token s = s\<lparr>c_pos := pos + length x, name_off := pos, name_len := length x, c_tok := c_keyword x\<rparr>"
proof -
  obtain c r where c: "x = c # r" using assms(2) by (cases x) auto
  note p = peek_drop [of pos src c "r @ rest"] name_facts [of c]
  have w: "skip_while is_name_char src pos = pos + length x"
    by (rule skip_while_over [OF assms(1,4)]) (use assms(5) not_name_space in auto)
  show ?thesis using assms(1,3,6,7) p slice_over [OF assms(1)] unfolding next_token_def
    by (simp add: Let_def c w [unfolded c])
qed

lemma next_number:
  assumes "drop pos src = ds @ rest" "ds \<noteq> []" "list_all is_digit ds" "rest = [] \<or> hd rest = 0x20"
    "skip_whitespace src (c_pos s) = pos" "c_src s = src"
  shows "next_token s = s\<lparr>c_pos := pos + length ds, c_num := number_value ds, c_tok := KNum\<rparr>"
proof -
  obtain c r where c: "ds = c # r" using assms(2) by (cases ds) auto
  note p = peek_drop [of pos src c "r @ rest"] digit_facts [of c]
  have w: "skip_while is_digit src pos = pos + length ds"
    by (rule skip_while_over [OF assms(1,3)]) (use assms(4) not_name_space in auto)
  show ?thesis using assms(1,3,5,6) p slice_over [OF assms(1)] unfolding next_token_def
    by (simp add: Let_def c w [unfolded c])
qed

lemma next_symbol:
  assumes "drop pos src = bytes_of (the (map_of spellings t)) @ rest" "rest = [] \<or> hd rest = 0x20"
    "skip_whitespace src (c_pos s) = pos" "c_src s = src"
    "t \<in> {KEq, KEqEq, KNe, KLt, KLe, KGt, KGe, KPlus, KMinus, KStar, KSlash, KLParen, KRParen, KLBrace, KRBrace, KSemi}"
  shows "next_token s = s\<lparr>c_pos := pos + length (the (map_of spellings t)), c_tok := t\<rparr>"
proof -
  have n: "peek src (Suc pos) \<noteq> 0x3D" if "drop (Suc pos) src = rest"
    using assms(2) that by (cases rest) (auto simp: peek_end peek_drop)
  show ?thesis
    using assms(5,1,3,4) n peek_drop [of pos src] peek_drop [of "Suc pos" src] unfolding next_token_def
    by (elim insertE emptyE)
      (simp_all add: spellings_def bytes_of_def Let_def is_digit_def is_name_start_def equals_table_def symbol_table_def)
qed

lemma keyword_spelled:
  assumes "t \<in> {KPrint, KPrintln, KLet, KIf, KElse, KWhile, KLoop, KBreak}"
  defines "x \<equiv> bytes_of (the (map_of spellings t))"
  shows "x \<noteq> [] \<and> is_name_start (hd x) \<and> list_all is_name_char x \<and> c_keyword x = t"
proof -
  have "list_all (\<lambda>t. let x = bytes_of (the (map_of spellings t)) in
      x \<noteq> [] \<and> is_name_start (hd x) \<and> list_all is_name_char x \<and> c_keyword x = t)
    [KPrint, KPrintln, KLet, KIf, KElse, KWhile, KLoop, KBreak]" by code_simp
  then show ?thesis using assms(1) unfolding x_def by (auto simp: list_all_iff Let_def)
qed

lemma spell_starts: "tok_ok t \<Longrightarrow> starts (spell t @ tok_text ts)"
proof -
  assume t: "tok_ok t"
  have sp: "tok_text ts = [] \<or> hd (tok_text ts) = 0x20" by (rule tok_text_hd)
  show ?thesis
  proof (cases t)
    case (CTNum v)
    obtain c r where c: "num_text v = c # r" using num_text_shape(2) [of v] by (cases "num_text v") auto
    then have "is_digit c" using num_text_shape(1) [of v] by simp
    then show ?thesis using digit_facts [of c] by (simp add: CTNum c starts_def)
  next
    case (CTName x)
    then obtain c r where c: "x = c # r" "is_name_start c" using t by (cases x) (auto simp: name_ok_def)
    then show ?thesis using name_facts [of c] by (simp add: CTName starts_def)
  next
    case (CT k)
    have "k \<notin> {KEof, KNum, KIdent}" using t by (simp add: CT)
    then show ?thesis using sp by (cases k) (auto simp: CT spellings_def bytes_of_def starts_def)
  qed
qed

text \<open>Reading a token.\<close>

definition same_out :: "comp \<Rightarrow> comp \<Rightarrow> bool" where
  "same_out s s' \<longleftrightarrow> c_src s' = c_src s \<and> ELF_BUF s' = ELF_BUF s \<and> clen s' = clen s \<and> c_vars s' = c_vars s \<and> breaks s' = breaks s \<and>
     c_err s' = c_err s"

lemma next_at_tok:
  assumes "drop (c_pos s) (c_src s) = tok_text ts" "list_all tok_ok ts"
  defines "s' \<equiv> next_token s"
  shows "at_tok s' ts \<and> same_out s s'"
proof (cases ts)
  case Nil
  then have d: "drop (c_pos s) (c_src s) = []" using assms(1) by (simp add: tok_text_def)
  then have "skip_whitespace (c_src s) (c_pos s) = c_pos s" by (intro skip_stops) (simp add: starts_def)
  then have "s' = s\<lparr>c_pos := c_pos s, c_tok := KEof\<rparr>" using d by (simp add: s'_def next_token_def Let_def peek_end)
  then show ?thesis using d Nil by (auto simp: at_tok_def same_out_def)
next
  case (Cons t r)
  let ?src = "c_src s" and ?pos = "Suc (c_pos s)"
  have d0: "drop (c_pos s) ?src = 0x20 # spell t @ tok_text r" using assms(1) by (simp add: Cons tok_text_def)
  then have d: "drop ?pos ?src = spell t @ tok_text r" using peek_drop [OF d0] by simp
  have ok: "tok_ok t" "list_all tok_ok r" using assms(2) by (simp_all add: Cons)
  have w: "skip_whitespace ?src (c_pos s) = ?pos"
    using skip_space [OF d0] skip_stops [of ?pos ?src] spell_starts [OF ok(1), of r] d by simp
  have after: "drop (?pos + length (spell t)) ?src = tok_text r"
    using arg_cong [OF d, of "drop (length (spell t))"] by (simp add: add.commute)
  note sp = tok_text_hd [of r]
  show ?thesis
  proof (cases t)
    case (CTNum v)
    have "s' = s\<lparr>c_pos := ?pos + length (num_text v), c_num := v, c_tok := KNum\<rparr>"
      using next_number [OF d [unfolded CTNum spell.simps] num_text_shape(2,1) sp w refl] by (simp add: s'_def num_text_number)
    then show ?thesis using after ok by (auto simp: Cons CTNum at_tok_def tok_cur_def same_out_def)
  next
    case (CTName x)
    have x: "x \<noteq> []" "is_name_start (hd x)" "list_all is_name_char x" "c_keyword x = KIdent"
      using ok(1) by (simp_all add: CTName name_ok_def)
    have "s' = s\<lparr>c_pos := ?pos + length x, name_off := ?pos, name_len := length x, c_tok := KIdent\<rparr>"
      using next_name [OF d [unfolded CTName spell.simps] x(1-3) sp w refl] by (simp add: s'_def x(4))
    then show ?thesis using after ok d by (auto simp: Cons CTName at_tok_def tok_cur_def same_out_def)
  next
    case (CT k)
    have k: "k \<notin> {KEof, KNum, KIdent}" using ok(1) by (simp add: CT)
    show ?thesis
    proof (cases "k \<in> {KPrint, KPrintln, KLet, KIf, KElse, KWhile, KLoop, KBreak}")
      case True
      note kw = keyword_spelled [OF True]
      let ?x = "bytes_of (the (map_of spellings k))"
      have "s' = s\<lparr>c_pos := ?pos + length ?x, name_off := ?pos, name_len := length ?x, c_tok := k\<rparr>"
        using next_name [OF d [unfolded CT spell.simps] _ _ _ sp w refl] kw by (simp add: s'_def)
      then show ?thesis using after ok by (auto simp: Cons CT at_tok_def tok_cur_def same_out_def)
    next
      case False
      then have "k \<in> {KEq, KEqEq, KNe, KLt, KLe, KGt, KGe, KPlus, KMinus, KStar, KSlash, KLParen, KRParen, KLBrace, KRBrace, KSemi}"
        using k by (cases k) simp_all
      from next_symbol [OF d [unfolded CT spell.simps] sp w refl this] show ?thesis
        using after ok by (auto simp: Cons CT at_tok_def tok_cur_def same_out_def s'_def bytes_of_def)
    qed
  qed
qed

section \<open>Emitting\<close>

definition code_of :: "comp \<Rightarrow> bytes" where
  "code_of s = take (clen s) (drop 120 (ELF_BUF s))"

definition names_of :: "comp \<Rightarrow> bytes list" where
  "names_of s = map (name_at s) (c_vars s)"

definition good :: "comp \<Rightarrow> bool" where
  "good s \<longleftrightarrow> c_err s = 0 \<and> length (ELF_BUF s) = 4096 \<and> clen s \<le> 3976 \<and> list_all (\<lambda>v. length (name_at s v) = snd v) (c_vars s)"

lemma name_at_src: "c_src s' = c_src s \<Longrightarrow> name_at s' = name_at s"
  by (simp add: name_at_def fun_eq_iff)

lemma length_code_of: "good s \<Longrightarrow> length (code_of s) = clen s"
  by (simp add: code_of_def good_def)

text \<open>\<open>wrote c s s'\<close>: the code \<open>c\<close> was appended and nothing else changed.\<close>

definition wrote :: "bytes \<Rightarrow> comp \<Rightarrow> comp \<Rightarrow> bool" where
  "wrote c s s' \<longleftrightarrow> s' = s\<lparr>ELF_BUF := ELF_BUF s', clen := clen s'\<rparr> \<and> good s' \<and> code_of s' = code_of s @ c"

lemma wrote_fields:
  assumes "wrote c s s'"
  shows "c_src s' = c_src s" "c_tok s' = c_tok s" "c_pos s' = c_pos s" "c_num s' = c_num s" "name_off s' = name_off s"
    "name_len s' = name_len s" "c_vars s' = c_vars s" "breaks s' = breaks s" "c_err s' = c_err s" "good s'" "code_of s' = code_of s @ c"
proof -
  obtain b n where "s' = s\<lparr>ELF_BUF := b, clen := n\<rparr>" using assms unfolding wrote_def by blast
  then show "c_src s' = c_src s" "c_tok s' = c_tok s" "c_pos s' = c_pos s" "c_num s' = c_num s" "name_off s' = name_off s"
    "name_len s' = name_len s" "c_vars s' = c_vars s" "breaks s' = breaks s" "c_err s' = c_err s" by simp_all
  show "good s'" "code_of s' = code_of s @ c" using assms by (simp_all add: wrote_def)
qed

lemma wrote_len: "wrote c s s' \<Longrightarrow> good s \<Longrightarrow> clen s' = clen s + length c"
  using length_code_of [of s] length_code_of [of s'] by (simp add: wrote_fields)

lemma wrote_trans:
  assumes "wrote c s s'" "wrote d s' s''"
  shows "wrote (c @ d) s s''"
proof -
  obtain b n where a: "s' = s\<lparr>ELF_BUF := b, clen := n\<rparr>" using assms(1) unfolding wrote_def by blast
  have "s'' = s'\<lparr>ELF_BUF := ELF_BUF s'', clen := clen s''\<rparr>" using assms(2) unfolding wrote_def by blast
  then have "s'' = s\<lparr>ELF_BUF := ELF_BUF s'', clen := clen s''\<rparr>" by (simp add: a)
  then show ?thesis using wrote_fields(10,11) [OF assms(1)] wrote_fields(10,11) [OF assms(2)] unfolding wrote_def by simp
qed

lemma wrote_byte:
  assumes "good s" "clen s < 3976"
  shows "wrote [b] s (emit_byte b s)"
proof -
  have e: "emit_byte b s = s\<lparr>ELF_BUF := (ELF_BUF s)[120 + clen s := b], clen := clen s + 1\<rparr>"
    using assms by (simp add: emit_byte_def Let_def)
  have g: "good (emit_byte b s)" using assms by (simp add: e good_def name_at_def)
  have "take (Suc (clen s)) (drop 120 ((ELF_BUF s)[120 + clen s := b])) = take (clen s) (drop 120 (ELF_BUF s)) @ [b]"
  proof (rule nth_equalityI)
    fix i assume "i < length (take (Suc (clen s)) (drop 120 ((ELF_BUF s)[120 + clen s := b])))"
    then show "take (Suc (clen s)) (drop 120 ((ELF_BUF s)[120 + clen s := b])) ! i = (take (clen s) (drop 120 (ELF_BUF s)) @ [b]) ! i"
      using assms by (auto simp: good_def nth_append nth_list_update)
  qed (use assms in \<open>simp add: good_def\<close>)
  then have c: "code_of (emit_byte b s) = code_of s @ [b]" by (simp add: e code_of_def)
  show ?thesis unfolding wrote_def by (intro conjI g c) (simp add: e)
qed

lemma wrote_bytes: "good s \<Longrightarrow> clen s + length bs \<le> 3976 \<Longrightarrow> wrote bs s (emit_bytes bs s)"
proof (induction bs arbitrary: s)
  case Nil
  then show ?case by (simp add: emit_bytes_def wrote_def)
next
  case (Cons b bs)
  have w: "wrote [b] s (emit_byte b s)" by (rule wrote_byte) (use Cons.prems in auto)
  then have "wrote bs (emit_byte b s) (emit_bytes bs (emit_byte b s))"
    using Cons.prems wrote_len [OF w] wrote_fields(10) [OF w] by (intro Cons.IH) auto
  from wrote_trans [OF w this] show ?case by (simp add: emit_bytes_def)
qed

lemma wrote_u32: "good s \<Longrightarrow> clen s + 4 \<le> 3976 \<Longrightarrow> wrote (to_le 4 v) s (emit_u32 v s)"
  unfolding emit_u32_def by (rule wrote_bytes) simp_all

lemma wrote_u64: "good s \<Longrightarrow> clen s + 8 \<le> 3976 \<Longrightarrow> wrote (to_le 8 v) s (emit_u64 v s)"
  unfolding emit_u64_def by (rule wrote_bytes) simp_all

text \<open>Patching changes four bytes of the code.\<close>

lemma patch32_code:
  assumes "good s" "site + 4 \<le> clen s"
  shows "patch32 site rel s = s\<lparr>ELF_BUF := ELF_BUF (patch32 site rel s)\<rparr> \<and> good (patch32 site rel s) \<and>
    code_of (patch32 site rel s) = put_at (code_of s) site (to_le 4 rel)"
proof -
  let ?B = "ELF_BUF s"
  have u: "[0..<4] = [0, 1, 2, 3 :: nat]" by (simp add: upt_rec)
  have le: "120 + site + 3 < 4096" using assms by (simp add: good_def)
  define b where "b = ?B[120 + site := to_le 4 rel ! 0, 120 + site + 1 := to_le 4 rel ! 1, 120 + site + 2 := to_le 4 rel ! 2,
    120 + site + 3 := to_le 4 rel ! 3]"
  have e: "patch32 site rel s = s\<lparr>ELF_BUF := b\<rparr>" using le by (simp add: patch32_def u b_def Let_def)
  have g: "good (patch32 site rel s)" using assms(1) by (simp add: e good_def b_def name_at_def)
  have "take (clen s) (drop 120 b) = put_at (take (clen s) (drop 120 ?B)) site (to_le 4 rel)"
  proof (rule nth_equalityI)
    have l: "length ?B = 4096" "clen s \<le> 3976" using assms(1) by (simp_all add: good_def)
    then show "length (take (clen s) (drop 120 b)) = length (put_at (take (clen s) (drop 120 ?B)) site (to_le 4 rel))"
      using assms(2) by (simp add: b_def)
    fix i assume "i < length (take (clen s) (drop 120 b))"
    then have i: "i < clen s" "120 + i < 4096" using l by (simp_all add: b_def)
    consider "i < site" | "i = site" | "i = site + 1" | "i = site + 2" | "i = site + 3" | "site + 4 \<le> i" "\<not> i - site < 4" by linarith
    then show "take (clen s) (drop 120 b) ! i = put_at (take (clen s) (drop 120 ?B)) site (to_le 4 rel) ! i"
      using i l assms(2) by cases (simp_all add: b_def put_at_def nth_append nth_list_update min_def)
  qed
  then show ?thesis using e g by (simp add: code_of_def)
qed

text \<open>Chains of emissions and patches from a state \<open>s\<close> on.\<close>

lemma wrote_nil: "good s \<Longrightarrow> wrote [] s s"
  by (simp add: wrote_def)

lemma wrote_more:
  assumes "wrote c s s'" "good s" "clen s + length c + length bs \<le> 3976"
  shows "wrote (c @ bs) s (emit_bytes bs s')"
  using wrote_trans [OF assms(1) wrote_bytes [OF wrote_fields(10) [OF assms(1)]], of bs] wrote_len [OF assms(1,2)] assms(3) by simp

lemma put_at_prefix: "put_at (C @ xs) (length C + i) bs = C @ put_at xs i bs"
  by (simp add: put_at_def)

lemma put_at_mid: "i = length xs \<Longrightarrow> length ys = length bs \<Longrightarrow> put_at (xs @ ys @ zs) i bs = xs @ bs @ zs"
  by (simp add: put_at_def)

lemma wrote_patch:
  assumes "wrote c s s'" "good s" "site = clen s + i" "i + 4 \<le> length c"
  shows "wrote (put_at c i (to_le 4 rel)) s (patch32 site rel s')"
proof -
  note f = wrote_fields [OF assms(1)]
  have l: "clen s' = clen s + length c" by (rule wrote_len [OF assms(1,2)])
  have p: "patch32 site rel s' = s'\<lparr>ELF_BUF := ELF_BUF (patch32 site rel s')\<rparr>" "good (patch32 site rel s')"
    "code_of (patch32 site rel s') = put_at (code_of s') site (to_le 4 rel)"
    using patch32_code [OF f(10), of site rel] l assms(3,4) by simp_all
  have "patch32 site rel s' = s\<lparr>ELF_BUF := ELF_BUF (patch32 site rel s'), clen := clen (patch32 site rel s')\<rparr>"
  proof -
    obtain b n where s: "s' = s\<lparr>ELF_BUF := b, clen := n\<rparr>" using assms(1) unfolding wrote_def by blast
    have c: "clen (patch32 site rel s') = clen s'" by (subst p(1)) simp
    show ?thesis by (subst (1) p(1)) (simp add: c, simp add: s)
  qed
  moreover have "code_of (patch32 site rel s') = code_of s @ put_at c i (to_le 4 rel)"
    using put_at_prefix [of "code_of s" c i "to_le 4 rel"] p(3) f(11) assms(3) length_code_of [OF assms(2)] by metis
  ultimately show ?thesis using p(2) unfolding wrote_def by blast
qed

lemma wrote_div:
  assumes "good s" "clen s + 21 \<le> 3976"
  shows "wrote div_code s (op_div s)"
proof -
  define s1 where "s1 = emit_bytes [0x0F, 0x84] (emit_bytes [0x48, 0x85, 0xC9] s)"
  define s2 where "s2 = emit_bytes [0xE9] (emit_bytes [0x48, 0xF7, 0xF1] (emit_bytes [0x31, 0xD2] (emit_u32 0 s1)))"
  define s3 where "s3 = emit_bytes [0x31, 0xC0] (emit_u32 0 s2)"
  note more = wrote_more [OF _ assms(1)]
  have w1: "wrote [0x48, 0x85, 0xC9, 0x0F, 0x84] s s1"
    unfolding s1_def using more [OF more [OF wrote_nil [OF assms(1)], of "[0x48, 0x85, 0xC9]"], of "[0x0F, 0x84]"] assms(2) by simp
  have w2: "wrote ([0x48, 0x85, 0xC9, 0x0F, 0x84] @ to_le 4 (0 :: u32) @ [0x31, 0xD2, 0x48, 0xF7, 0xF1, 0xE9]) s s2"
    unfolding s2_def emit_u32_def
    using more [OF more [OF more [OF more [OF w1]]], of "to_le 4 (0 :: u32)" "[0x31, 0xD2]" "[0x48, 0xF7, 0xF1]" "[0xE9]"] assms(2) by simp
  have w3: "wrote ([0x48, 0x85, 0xC9, 0x0F, 0x84] @ to_le 4 (0 :: u32) @ [0x31, 0xD2, 0x48, 0xF7, 0xF1, 0xE9] @ to_le 4 (0 :: u32) @ [0x31, 0xC0]) s s3"
    unfolding s3_def emit_u32_def using more [OF more [OF w2], of "to_le 4 (0 :: u32)" "[0x31, 0xC0]"] assms(2) by simp
  have l: "clen s1 = clen s + 5" "clen s2 = clen s + 15" "clen s3 = clen s + 21" "clen (emit_u32 0 s2) = clen s + 19"
    using wrote_len [OF w1 assms(1)] wrote_len [OF w2 assms(1)] wrote_len [OF w3 assms(1)]
      wrote_len [OF more [OF w2, of "to_le 4 (0 :: u32)"] assms(1)] assms(2) by (simp_all add: emit_u32_def)
  have r: "rel32 (clen s1) (clen (emit_u32 0 s2)) = word_of_int 10" "rel32 (clen s2) (clen s3) = word_of_int 2"
    by (simp_all add: rel32_def l)
  have o: "op_div s = patch32 (clen s2) (word_of_int 2) (patch32 (clen s1) (word_of_int 10) s3)"
    unfolding op_div_def Let_def s1_def [symmetric] s2_def [symmetric] s3_def [symmetric] r ..
  have w4: "wrote ([0x48, 0x85, 0xC9, 0x0F, 0x84] @ le32 10 @ [0x31, 0xD2, 0x48, 0xF7, 0xF1, 0xE9] @ to_le 4 (0 :: u32) @ [0x31, 0xC0]) s
      (patch32 (clen s1) (word_of_int 10) s3)"
    using wrote_patch [OF w3 assms(1) l(1), of "word_of_int 10"]
      put_at_mid [of 5 "[0x48, 0x85, 0xC9, 0x0F, 0x84]" "to_le 4 (0 :: u32)" "le32 10"] by simp
  have "put_at (xs @ le32 10 @ ys @ to_le 4 (0 :: u32) @ zs) 15 (le32 2) = xs @ le32 10 @ ys @ le32 2 @ zs"
    if "length xs = 5" "length ys = 6" for xs ys zs
    using put_at_mid [of 15 "xs @ le32 10 @ ys" "to_le 4 (0 :: u32)" "le32 2" zs] that by simp
  from wrote_patch [OF w4 assms(1) l(2), of "word_of_int 2"] this [of "[0x48, 0x85, 0xC9, 0x0F, 0x84]" "[0x31, 0xD2, 0x48, 0xF7, 0xF1, 0xE9]" "[0x31, 0xC0]"]
  show ?thesis unfolding o div_code_def by simp
qed

section \<open>Expressions\<close>

lemma prefix_add_names: "prefix N (add_names N ms)"
proof (induction ms arbitrary: N)
  case (Cons m ms)
  have "prefix N (add_name N m)" by (simp add: add_name_def)
  then show ?case using Cons [of "add_name N m"] unfolding add_names_def by (simp add: prefix_order.order_trans)
qed (simp add: add_names_def)

lemma add_names_append: "add_names N (xs @ ys) = add_names (add_names N xs) ys"
  by (simp add: add_names_def)

lemma add_names_Nil [simp]: "add_names N [] = N"
  by (simp add: add_names_def)

lemma slot_prefix: "prefix N V \<Longrightarrow> x \<in> set N \<Longrightarrow> slot V x = slot N x"
  by (auto simp: slot_def prefix_def takeWhile_append1)

lemma slot_nth: "x \<in> set N \<Longrightarrow> slot N x < length N \<and> N ! slot N x = x"
  by (induction N) (auto simp: slot_def)

lemma slot_least: "i < slot N x \<Longrightarrow> N ! i \<noteq> x"
  by (induction N arbitrary: i) (auto simp: slot_def nth_Cons split: nat.splits if_splits)

lemma slot_new: "x \<notin> set N \<Longrightarrow> slot (N @ [x]) x = length N"
  by (induction N) (auto simp: slot_def)

lemma slot_first:
  "x \<in> set N \<Longrightarrow> find_first (\<lambda>i. N ! i = x) [0..<length N] = Some (slot N x)"
  "x \<notin> set N \<Longrightarrow> find_first (\<lambda>i. N ! i = x) [0..<length N] = None"
proof -
  assume x: "x \<in> set N"
  then have l: "slot N x < length N" "N ! slot N x = x"
    by (simp_all add: slot_nth)
  then obtain i where i: "find_first (\<lambda>i. N ! i = x) [0..<length N] = Some i"
    by (cases "find_first (\<lambda>i. N ! i = x) [0..<length N]") auto
  then have "N ! i = x" "i < length N" using find_first_Some [OF i] by auto
  moreover have "\<not> slot N x < i" using find_first_least [OF i _ _, of "slot N x"] l by auto
  moreover have "N ! i \<noteq> x" if "i < slot N x" using that by (rule slot_least)
  ultimately show "find_first (\<lambda>i. N ! i = x) [0..<length N] = Some (slot N x)" using i by (metis linorder_neqE_nat)
qed auto

text \<open>A name gets its slot.\<close>

lemma var_slot_name:
  assumes "good s" "take (name_len s) (drop (name_off s) (c_src s)) = x" "name_len s = length x"
    "prefix (add_name (names_of s) x) V" "length V \<le> 32"
  shows "\<exists>v. var_slot (name_off s) (name_len s) s = (slot V x, s\<lparr>c_vars := v\<rparr>) \<and> good (s\<lparr>c_vars := v\<rparr>) \<and>
    names_of (s\<lparr>c_vars := v\<rparr>) = add_name (names_of s) x"
proof -
  let ?v = "c_vars s" and ?N = "names_of s"
  have n: "name_at s (name_off s, length x) = x" using assms(2,3) by (simp add: name_at_def)
  have f: "find_first (\<lambda>i. snd (?v ! i) = name_len s \<and> name_at s (?v ! i) = name_at s (name_off s, name_len s)) [0..<length ?v] =
    find_first (\<lambda>i. ?N ! i = x) [0..<length ?N]"
    unfolding assms(3) n using assms(1)
    by (auto simp: names_of_def good_def list_all_length intro!: find_first_cong)
  show ?thesis
  proof (cases "x \<in> set ?N")
    case True
    then have "slot V x = slot ?N x" using assms(4) by (intro slot_prefix) (simp_all add: add_name_def)
    then show ?thesis using assms(1) True slot_first(1) [OF True]
      by (intro exI [of _ ?v]) (simp add: var_slot_def f add_name_def)
  next
    case False
    have V: "prefix (?N @ [x]) V" using assms(4) False by (simp add: add_name_def)
    then have l: "length ?v < 32" using assms(5) prefix_length_le [OF V] by (simp add: names_of_def)
    have "slot V x = slot (?N @ [x]) x" by (rule slot_prefix [OF V]) simp
    also have "\<dots> = length ?v" using slot_new [OF False] by (simp add: names_of_def)
    finally have "var_slot (name_off s) (name_len s) s = (slot V x, s\<lparr>c_vars := ?v @ [(name_off s, name_len s)]\<rparr>)"
      using l slot_first(2) [OF False] by (simp add: var_slot_def f del: find_first_None)
    moreover have "names_of (s\<lparr>c_vars := ?v @ [(name_off s, name_len s)]\<rparr>) = add_name ?N x"
      using False assms(3) n by (simp add: add_name_def) (simp add: names_of_def name_at_def)
    moreover have "good (s\<lparr>c_vars := ?v @ [(name_off s, name_len s)]\<rparr>)"
      using assms(1,3) n by (simp add: good_def name_at_def)
    ultimately show ?thesis by blast
  qed
qed

text \<open>\<open>gone s s' ts c ms\<close>: from \<open>s\<close> to \<open>s'\<close>, the tokens up to \<open>ts\<close> were read, \<open>c\<close> was emitted and \<open>ms\<close> were mentioned.\<close>

definition gone :: "comp \<Rightarrow> comp \<Rightarrow> ctok list \<Rightarrow> bytes \<Rightarrow> bytes list \<Rightarrow> bool" where
  "gone s s' ts c ms \<longleftrightarrow> at_tok s' ts \<and> good s' \<and> code_of s' = code_of s @ c \<and> names_of s' = add_names (names_of s) ms \<and>
     breaks s' = breaks s \<and> c_src s' = c_src s"

lemma gone_trans: "gone s s' ts c ms \<Longrightarrow> gone s' s'' us d ns \<Longrightarrow> gone s s'' us (c @ d) (ms @ ns)"
  by (simp add: gone_def add_names_append)

lemma gone_refl: "at_tok s ts \<Longrightarrow> good s \<Longrightarrow> gone s s ts [] []"
  by (simp add: gone_def)

lemma gone_len: "gone s s' ts c ms \<Longrightarrow> good s \<Longrightarrow> clen s' = clen s + length c"
  using length_code_of [of s] length_code_of [of s'] by (simp add: gone_def)

lemma names_of_src: "c_src s' = c_src s \<Longrightarrow> c_vars s' = c_vars s \<Longrightarrow> names_of s' = names_of s"
  using name_at_src [of s' s] by (simp add: names_of_def)

lemma gone_wrote:
  assumes "wrote c s s'" "at_tok s ts"
  shows "gone s s' ts c []"
proof -
  note f = wrote_fields [OF assms(1)]
  have "at_tok s' ts" using assms(2) by (simp add: at_tok_def tok_cur_def f split: list.splits ctok.splits)
  then show ?thesis using f names_of_src [of s' s] by (simp add: gone_def)
qed

lemma gone_next:
  assumes "good s" "at_tok s (t # ts)"
  shows "gone s (next_token s) ts [] []"
proof -
  have "drop (c_pos s) (c_src s) = tok_text ts" "list_all tok_ok ts" using assms(2) by (simp_all add: at_tok_def)
  from next_at_tok [OF this] have n: "at_tok (next_token s) ts" "same_out s (next_token s)" by simp_all
  then show ?thesis using assms(1) names_of_src [of "next_token s" s] name_at_src [of "next_token s" s]
    by (simp add: gone_def same_out_def good_def code_of_def)
qed

lemma gone_eat: "good s \<Longrightarrow> at_tok s (CT t # ts) \<Longrightarrow> gone s (eat t s) ts [] []"
  using gone_next [of s "CT t" ts] by (simp add: eat_def at_tok_def tok_cur_def)

lemma goneD: "gone s s' ts c ms \<Longrightarrow> at_tok s' ts" "gone s s' ts c ms \<Longrightarrow> good s'"
  by (simp_all add: gone_def)

text \<open>The functions of the levels, and what ends an expression of a level.\<close>

definition level_em :: "nat \<Rightarrow> emitters" where
  "level_em p = (if p = 0 then cmp_emitters else if p = 1 then add_emitters else if p = 2 then mul_emitters else (\<lambda>_. None))"

definition c_at :: "nat \<Rightarrow> (comp \<Rightarrow> comp option) \<Rightarrow> nat \<Rightarrow> comp \<Rightarrow> comp option" where
  "c_at p ex n = (if p = 0 then c_cmp n ex else if p = 1 then c_add n ex else if p = 2 then c_mul n ex else c_atom n ex)"

lemma c_at_level: "p < 3 \<Longrightarrow> c_at p ex n = c_level n (c_at (Suc p) ex n) (level_em p)"
  by (auto simp: c_at_def level_em_def c_cmp_def c_add_def c_mul_def less_Suc_eq numeral_3_eq_3 numeral_2_eq_2)

definition cur_kind :: "ctok list \<Rightarrow> tk" where
  "cur_kind ts = (case ts of [] \<Rightarrow> KEof | t # _ \<Rightarrow> kind_of t)"

definition ends_at :: "nat \<Rightarrow> ctok list \<Rightarrow> bool" where
  "ends_at p ts \<longleftrightarrow> (\<forall>q. p \<le> q \<longrightarrow> level_em q (cur_kind ts) = None)"

lemma at_tok_kind: "at_tok s ts \<Longrightarrow> c_tok s = cur_kind ts"
  by (cases ts) (simp_all add: at_tok_def cur_kind_def tok_cur_def)

lemma op_wrote:
  assumes "lvl op < 3"
  shows "\<exists>f. level_em (lvl op) op = Some f \<and> (\<forall>s. good s \<longrightarrow> clen s + length (op_code op) \<le> 3976 \<longrightarrow> wrote (op_code op) s (f s))"
proof -
  have c: "wrote (cmp_code x) s (op_cmp_set x s)" if "good s" "clen s + 10 \<le> 3976" for x s
    unfolding op_cmp_set_def cmp_code_def
    using wrote_more [OF wrote_more [OF wrote_more [OF wrote_nil, of s "[0x48, 0x39, 0xC8]"], of "[0x0F, x, 0xC0]"], of "[0x48, 0x0F, 0xB6, 0xC0]"] that
    by simp
  show ?thesis using assms wrote_div c wrote_bytes
    by (cases op) (simp_all add: lvl_def level_em_def mul_emitters_def add_emitters_def cmp_emitters_def op_code_def op_add_def op_sub_def
        op_mul_def cmp_code_def [THEN arg_cong [where f = length]] div_code_def [THEN arg_cong [where f = length]])
qed

lemma lvl_ends: "lvl op < 3 \<Longrightarrow> ends_at (Suc (lvl op)) (CT op # ts)"
  by (cases op) (simp_all add: ends_at_def cur_kind_def lvl_def level_em_def mul_emitters_def add_emitters_def cmp_emitters_def)

lemma closes_ends: "t \<in> {KRParen, KSemi, KLBrace} \<Longrightarrow> ends_at p (CT t # ts)"
  by (auto simp: ends_at_def cur_kind_def level_em_def mul_emitters_def add_emitters_def cmp_emitters_def)

text \<open>
  \<open>compiles V p e\<close>: where the rendering of \<open>e\<close> for level \<open>p\<close> stands and ends, the function of that level emits its code,
  with the slots of \<open>V\<close>. \<open>reduces V p e\<close>: the loop of the level gets past it.
\<close>

definition fits :: "bytes list \<Rightarrow> comp \<Rightarrow> ctok list \<Rightarrow> bytes \<Rightarrow> bytes list \<Rightarrow> bool" where
  "fits V s ts c ms \<longleftrightarrow> at_tok s ts \<and> good s \<and> clen s + length c \<le> 3976 \<and> prefix (add_names (names_of s) ms) V \<and> length V \<le> 32"

definition compiles :: "bytes list \<Rightarrow> nat \<Rightarrow> cexpr \<Rightarrow> bool" where
  "compiles V p e \<longleftrightarrow> (\<forall>s ts m n. fits V s (rend p e @ ts) (cg_expr (slot V) e) (names_e e) \<longrightarrow> ends_at p ts \<longrightarrow>
     length (rend p e @ ts) < n \<longrightarrow> length (rend p e @ ts) < m \<longrightarrow>
     (\<exists>s'. c_at p (c_expr m) n s = Some s' \<and> gone s s' ts (cg_expr (slot V) e) (names_e e)))"

definition reduces_to :: "bytes list \<Rightarrow> nat \<Rightarrow> cexpr \<Rightarrow> bool" where
  "reduces_to V p e \<longleftrightarrow> (\<forall>s ts m n. fits V s (rend p e @ ts) (cg_expr (slot V) e) (names_e e) \<longrightarrow> ends_at (Suc p) ts \<longrightarrow>
     length (rend p e @ ts) < n \<longrightarrow> length (rend p e @ ts) < m \<longrightarrow>
     (\<exists>k s'. length ts < k \<and> gone s s' ts (cg_expr (slot V) e) (names_e e) \<and>
       c_at p (c_expr m) n s = operand_loop k (c_at (Suc p) (c_expr m) n) (level_em p) s'))"

lemma compilesD:
  assumes "compiles V p e" "fits V s (rend p e @ ts) (cg_expr (slot V) e) (names_e e)" "ends_at p ts"
    "length (rend p e @ ts) < n" "length (rend p e @ ts) < m"
  obtains s' where "c_at p (c_expr m) n s = Some s'" "gone s s' ts (cg_expr (slot V) e) (names_e e)"
  using assms unfolding compiles_def by blast

lemma ends_at_Suc: "ends_at p ts \<Longrightarrow> ends_at (Suc p) ts"
  by (simp add: ends_at_def)

lemma reduces_compiles:
  assumes "reduces_to V p e"
  shows "compiles V p e"
  unfolding compiles_def
proof (intro allI impI)
  fix s ts m n
  assume h: "fits V s (rend p e @ ts) (cg_expr (slot V) e) (names_e e)" "ends_at p ts"
    "length (rend p e @ ts) < n" "length (rend p e @ ts) < m"
  from assms h(1) ends_at_Suc [OF h(2)] h(3,4) obtain k s' where k: "length ts < k" "gone s s' ts (cg_expr (slot V) e) (names_e e)"
    "c_at p (c_expr m) n s = operand_loop k (c_at (Suc p) (c_expr m) n) (level_em p) s'" unfolding reduces_to_def by blast
  have "level_em p (c_tok s') = None" using h(2) at_tok_kind [OF goneD(1) [OF k(2)]] by (simp add: ends_at_def)
  then show "\<exists>s'. c_at p (c_expr m) n s = Some s' \<and> gone s s' ts (cg_expr (slot V) e) (names_e e)"
    using k by (cases k) simp_all
qed

lemma compiles_reduces:
  assumes "p < 3" "compiles V (Suc p) e" "rend p e = rend (Suc p) e"
  shows "reduces_to V p e"
  unfolding reduces_to_def
proof (intro allI impI)
  fix s ts m n
  assume h: "fits V s (rend p e @ ts) (cg_expr (slot V) e) (names_e e)" "ends_at (Suc p) ts"
    "length (rend p e @ ts) < n" "length (rend p e @ ts) < m"
  obtain s' where "c_at (Suc p) (c_expr m) n s = Some s'" "gone s s' ts (cg_expr (slot V) e) (names_e e)"
    using compilesD [OF assms(2) h [unfolded assms(3)]] by blast
  then show "\<exists>k s'. length ts < k \<and> gone s s' ts (cg_expr (slot V) e) (names_e e) \<and>
      c_at p (c_expr m) n s = operand_loop k (c_at (Suc p) (c_expr m) n) (level_em p) s'"
    using h(3) by (intro exI [of _ n] exI [of _ s']) (simp add: c_at_level [OF assms(1)] c_level_def)
qed

lemma fits_gone:
  assumes "gone s s' us c ms" "fits V s ts (c @ d) (ms @ ns)"
  shows "fits V s' us d ns"
  using assms(2) gone_len [OF assms(1)] goneD [OF assms(1)] assms(1)
  by (simp add: fits_def add_names_append) (simp add: gone_def)

lemma fits_part: "fits V s ts (c @ d) (ms @ ns) \<Longrightarrow> fits V s ts c ms"
  unfolding fits_def add_names_append using prefix_add_names [of "add_names (names_of s) ms" ns] prefix_order.order_trans by force

text \<open>Steps of the compiler as steps of \<open>gone\<close>.\<close>

lemma gone_emit:
  assumes "gone s s' ts c ms" "good s" "clen s + length c + length bs \<le> 3976"
  shows "gone s (emit_bytes bs s') ts (c @ bs) ms"
proof -
  have "wrote bs s' (emit_bytes bs s')" using assms gone_len [OF assms(1,2)] goneD [OF assms(1)] by (intro wrote_bytes) auto
  from gone_trans [OF assms(1) gone_wrote [OF this goneD(1) [OF assms(1)]]] show ?thesis by simp
qed

lemma gone_advance:
  assumes "gone s s' (t # ts) c ms"
  shows "gone s (next_token s') ts c ms"
  using gone_trans [OF assms gone_next [OF goneD(2) [OF assms] goneD(1) [OF assms]]] by simp

lemma gone_eats:
  assumes "gone s s' (CT t # ts) c ms"
  shows "gone s (eat t s') ts c ms"
  using gone_trans [OF assms gone_eat [OF goneD(2) [OF assms] goneD(1) [OF assms]]] by simp

lemma compiles_bin:
  assumes "lvl op < 3" "reduces_to V (lvl op) a" "compiles V (Suc (lvl op)) b"
  shows "reduces_to V (lvl op) (CBin op a b)"
  unfolding reduces_to_def
proof (intro allI impI)
  let ?q = "lvl op" and ?e = "CBin op a b" and ?A = "cg_expr (slot V) a" and ?B = "cg_expr (slot V) b" and ?O = "op_code op"
  fix s ts m n
  let ?ra = "rend ?q a" and ?rb = "rend (Suc ?q) b"
  assume h: "fits V s (rend ?q ?e @ ts) (cg_expr (slot V) ?e) (names_e ?e)" "ends_at (Suc ?q) ts"
    "length (rend ?q ?e @ ts) < n" "length (rend ?q ?e @ ts) < m"
  have r: "rend ?q ?e @ ts = ?ra @ CT op # ?rb @ ts" by simp
  have g: "good s" using h(1) by (simp add: fits_def)
  have f: "fits V s (?ra @ CT op # ?rb @ ts) (?A @ [0x50] @ ?B @ [0x48, 0x89, 0xC1, 0x58] @ ?O) (names_e a @ names_e b)"
    using h(1) by (simp add: r)
  have room: "clen s + length (?A @ [0x50] @ ?B @ [0x48, 0x89, 0xC1, 0x58] @ ?O) \<le> 3976" using f by (simp add: fits_def)
  obtain em where em: "level_em ?q op = Some em"
    "\<And>s. good s \<Longrightarrow> clen s + length ?O \<le> 3976 \<Longrightarrow> wrote ?O s (em s)" using op_wrote [OF assms(1)] by blast
  from assms(2) fits_part [OF f] lvl_ends [OF assms(1)] h(3,4) obtain k s1 where k: "length (CT op # ?rb @ ts) < k"
    "gone s s1 (CT op # ?rb @ ts) ?A (names_e a)"
    "c_at ?q (c_expr m) n s = operand_loop k (c_at (Suc ?q) (c_expr m) n) (level_em ?q) s1"
    unfolding reduces_to_def r by blast
  then obtain k' where k': "k = Suc k'" by (cases k) auto
  let ?s2 = "push_rax (next_token s1)"
  have "gone s (emit_bytes [0x50] (next_token s1)) (?rb @ ts) (?A @ [0x50]) (names_e a)"
    by (rule gone_emit [OF gone_advance [OF k(2)] g]) (use room in simp)
  then have g2: "gone s ?s2 (?rb @ ts) (?A @ [0x50]) (names_e a)" by (simp add: push_rax_def emit_bytes_def)
  have "fits V s (?ra @ CT op # ?rb @ ts) ((?A @ [0x50]) @ ?B @ [0x48, 0x89, 0xC1, 0x58] @ ?O) (names_e a @ names_e b)" using f by simp
  from fits_part [of _ _ _ _ _ _ "[]", simplified] fits_gone [OF g2 this] have f2: "fits V ?s2 (?rb @ ts) ?B (names_e b)"
    using fits_part [of V ?s2 "?rb @ ts" ?B "[0x48, 0x89, 0xC1, 0x58] @ ?O" "names_e b" "[]"] by simp
  obtain s3 where s3: "c_at (Suc ?q) (c_expr m) n ?s2 = Some s3" "gone ?s2 s3 ts ?B (names_e b)"
    by (rule compilesD [OF assms(3) f2 h(2), where n = n and m = m]) (use h(3,4) r in simp_all)
  let ?s4 = "pop_rax (mov_rcx_rax s3)"
  have "gone s (emit_bytes [0x58] (emit_bytes [0x48, 0x89, 0xC1] s3)) ts
      ((((?A @ [0x50]) @ ?B) @ [0x48, 0x89, 0xC1]) @ [0x58]) (names_e a @ names_e b)"
    by (rule gone_emit [OF gone_emit [OF gone_trans [OF g2 s3(2)] g] g]) (use room in simp_all)
  then have g4: "gone s ?s4 ts (?A @ [0x50] @ ?B @ [0x48, 0x89, 0xC1, 0x58]) (names_e a @ names_e b)"
    by (simp add: pop_rax_def mov_rcx_rax_def emit_bytes_def)
  have "wrote ?O ?s4 (em ?s4)" using gone_len [OF g4 g] goneD(2) [OF g4] room by (intro em(2)) auto
  from gone_trans [OF g4 gone_wrote [OF this goneD(1) [OF g4]]]
  have g5: "gone s (em ?s4) ts (cg_expr (slot V) ?e) (names_e ?e)" by simp
  have t: "c_tok s1 = op" using at_tok_kind [OF goneD(1) [OF k(2)]] by (simp add: cur_kind_def)
  have "c_err (em ?s4) = 0" using goneD(2) [OF g5] by (simp add: good_def)
  then have "c_at ?q (c_expr m) n s = operand_loop k' (c_at (Suc ?q) (c_expr m) n) (level_em ?q) (em ?s4)"
    using k(3) k' s3(1) em(1) t by (simp add: Let_def)
  then show "\<exists>k s'. length ts < k \<and> gone s s' ts (cg_expr (slot V) ?e) (names_e ?e) \<and>
      c_at ?q (c_expr m) n s = operand_loop k (c_at (Suc ?q) (c_expr m) n) (level_em ?q) s'"
    using g5 k(1) k' by (intro exI [of _ k'] exI [of _ "em ?s4"]) simp
qed

lemma compiles_paren:
  assumes "lvl op < 3" "compiles V 0 (CBin op a b)"
  shows "compiles V 3 (CBin op a b)"
  unfolding compiles_def
proof (intro allI impI)
  let ?e = "CBin op a b"
  let ?r = "rend 0 ?e"
  fix s ts m n
  assume h: "fits V s (rend 3 ?e @ ts) (cg_expr (slot V) ?e) (names_e ?e)" "ends_at 3 ts"
    "length (rend 3 ?e @ ts) < n" "length (rend 3 ?e @ ts) < m"
  have r: "rend 3 ?e @ ts = CT KLParen # ?r @ CT KRParen # ts" using assms(1) by simp
  have at: "at_tok s (CT KLParen # ?r @ CT KRParen # ts)" and g: "good s" using h(1) unfolding r by (simp_all add: fits_def)
  have t: "c_tok s = KLParen" using at_tok_kind [OF at] by (simp add: cur_kind_def)
  obtain n' m' where nm: "n = Suc n'" "m = Suc m'" using h(3,4) by (cases n; cases m) auto
  have g1: "gone s (next_token s) (?r @ CT KRParen # ts) [] []" by (rule gone_next [OF g at])
  have f1: "fits V (next_token s) (?r @ CT KRParen # ts) (cg_expr (slot V) ?e) (names_e ?e)"
    by (rule fits_gone [OF g1, of V "CT KLParen # ?r @ CT KRParen # ts"]) (use h(1) r in simp)
  obtain s2 where s2: "c_at 0 (c_expr m') m (next_token s) = Some s2" "gone (next_token s) s2 (CT KRParen # ts) (cg_expr (slot V) ?e) (names_e ?e)"
    by (rule compilesD [OF assms(2) f1 closes_ends, where n = m and m = m'])
      (use h(4) nm(2) in \<open>simp_all add: r del: rend.simps\<close>)
  have "c_expr m (next_token s) = Some s2" using s2(1) by (simp add: nm(2) c_at_def)
  then have "c_at 3 (c_expr m) n s = Some (eat KRParen s2)" using t by (simp add: c_at_def nm(1))
  moreover have "gone s (eat KRParen s2) ts (cg_expr (slot V) ?e) (names_e ?e)"
    using gone_trans [OF g1 gone_eats [OF s2(2)]] by simp
  ultimately show "\<exists>s'. c_at 3 (c_expr m) n s = Some s' \<and> gone s s' ts (cg_expr (slot V) ?e) (names_e ?e)" by blast
qed

lemma compiles_num: "compiles V 3 (CNum v)"
  unfolding compiles_def
proof (intro allI impI)
  fix s ts m n
  assume h: "fits V s (rend 3 (CNum v) @ ts) (cg_expr (slot V) (CNum v)) (names_e (CNum v))" "length (rend 3 (CNum v) @ ts) < n"
  have at: "at_tok s (CTNum v # ts)" and g: "good s" and room: "clen s + 10 \<le> 3976" using h(1) by (simp_all add: fits_def)
  have t: "c_tok s = KNum" "c_num s = v" using at by (simp_all add: at_tok_def tok_cur_def)
  obtain n' where n: "n = Suc n'" using h(2) by (cases n) auto
  have "gone s (emit_bytes (to_le 8 v) (emit_bytes [0x48, 0xB8] (next_token s))) ts (([] @ [0x48, 0xB8]) @ to_le 8 v) []"
    by (rule gone_emit [OF gone_emit [OF gone_next [OF g at] g] g]) (use room in simp_all)
  then show "\<exists>s'. c_at 3 (c_expr m) n s = Some s' \<and> gone s s' ts (cg_expr (slot V) (CNum v)) (names_e (CNum v))"
    using t by (simp add: c_at_def n mov_rax_imm_def emit_u64_def)
qed

text \<open>A name gets a slot; the current token stays.\<close>

lemma gone_slot:
  assumes "at_tok s (CTName x # ts)" "good s" "prefix (add_name (names_of s) x) V" "length V \<le> 32"
  shows "\<exists>s'. var_slot (name_off s) (name_len s) s = (slot V x, s') \<and> gone s s' (CTName x # ts) [] [x]"
proof -
  have "take (name_len s) (drop (name_off s) (c_src s)) = x" "name_len s = length x"
    using assms(1) by (auto simp: at_tok_def tok_cur_def)
  from var_slot_name [OF assms(2) this assms(3,4)] obtain v where
    v: "var_slot (name_off s) (name_len s) s = (slot V x, s\<lparr>c_vars := v\<rparr>)" "good (s\<lparr>c_vars := v\<rparr>)"
      "names_of (s\<lparr>c_vars := v\<rparr>) = add_name (names_of s) x" by blast
  have "at_tok (s\<lparr>c_vars := v\<rparr>) (CTName x # ts)" using assms(1) by (auto simp: at_tok_def tok_cur_def)
  then show ?thesis using v by (auto simp: gone_def code_of_def add_names_def)
qed

lemma compiles_var: "compiles V 3 (CVar x)"
  unfolding compiles_def
proof (intro allI impI)
  fix s ts m n
  assume h: "fits V s (rend 3 (CVar x) @ ts) (cg_expr (slot V) (CVar x)) (names_e (CVar x))" "length (rend 3 (CVar x) @ ts) < n"
  have at: "at_tok s (CTName x # ts)" and g: "good s" and room: "clen s + 7 \<le> 3976" using h(1) by (simp_all add: fits_def)
  have t: "c_tok s = KIdent" using at_tok_kind [OF at] by (simp add: cur_kind_def)
  obtain n' where n: "n = Suc n'" using h(2) by (cases n) auto
  obtain s1 where s1: "var_slot (name_off s) (name_len s) s = (slot V x, s1)" "gone s s1 (CTName x # ts) [] [x]"
    using gone_slot [OF at g, of V] h(1) by (auto simp: fits_def add_names_def)
  have "gone s (emit_bytes (to_le 4 (slot_disp (slot V x))) (emit_bytes [0x48, 0x8B, 0x85] (next_token s1))) ts
      (([] @ [0x48, 0x8B, 0x85]) @ to_le 4 (slot_disp (slot V x))) [x]"
    by (rule gone_emit [OF gone_emit [OF gone_advance [OF s1(2)] g] g]) (use room in simp_all)
  then show "\<exists>s'. c_at 3 (c_expr m) n s = Some s' \<and> gone s s' ts (cg_expr (slot V) (CVar x)) (names_e (CVar x))"
    using t s1(1) by (simp add: c_at_def n load_local_def emit_u32_def)
qed

lemma compiles_neg:
  assumes "compiles V 3 a"
  shows "compiles V 3 (CNeg a)"
  unfolding compiles_def
proof (intro allI impI)
  fix s ts m n
  assume h: "fits V s (rend 3 (CNeg a) @ ts) (cg_expr (slot V) (CNeg a)) (names_e (CNeg a))" "ends_at 3 ts"
    "length (rend 3 (CNeg a) @ ts) < n" "length (rend 3 (CNeg a) @ ts) < m"
  have at: "at_tok s (CT KMinus # rend 3 a @ ts)" and g: "good s"
    and room: "clen s + length (cg_expr (slot V) a) + 3 \<le> 3976" using h(1) by (simp_all add: fits_def)
  have t: "c_tok s = KMinus" using at_tok_kind [OF at] by (simp add: cur_kind_def)
  obtain n' where n: "n = Suc n'" using h(3) by (cases n) auto
  have g1: "gone s (next_token s) (rend 3 a @ ts) [] []" by (rule gone_next [OF g at])
  have "fits V (next_token s) (rend 3 a @ ts) (cg_expr (slot V) a @ [0x48, 0xF7, 0xD8]) (names_e a @ [])"
    by (rule fits_gone [OF g1, of V "CT KMinus # rend 3 a @ ts"]) (use h(1) in simp)
  from fits_part [OF this] obtain s2 where s2: "c_at 3 (c_expr m) n' (next_token s) = Some s2"
    "gone (next_token s) s2 ts (cg_expr (slot V) a) (names_e a)"
    by (rule compilesD [OF assms _ h(2), where n = n' and m = m]) (use h(3,4) n in simp_all)
  have "gone s (op_neg s2) ts (([] @ cg_expr (slot V) a) @ [0x48, 0xF7, 0xD8]) ([] @ names_e a)"
    unfolding op_neg_def by (rule gone_emit [OF gone_trans [OF g1 s2(2)] g]) (use room in simp)
  then show "\<exists>s'. c_at 3 (c_expr m) n s = Some s' \<and> gone s s' ts (cg_expr (slot V) (CNeg a)) (names_e (CNeg a))"
    using t s2(1) by (simp add: c_at_def n)
qed

lemma compiles_range:
  assumes "compiles V hi e" "hi \<le> 3" "lo \<le> hi" "\<And>p. lo \<le> p \<Longrightarrow> p < hi \<Longrightarrow> rend p e = rend (Suc p) e"
  shows "compiles V lo e"
  using assms(3)
proof (induction rule: inc_induct)
  case base
  then show ?case by (rule assms(1))
next
  case (step p)
  then show ?case using reduces_compiles [OF compiles_reduces [of p V e]] assms(2) assms(4) [of p] by simp
qed

lemma compiles_levels:
  assumes "ops_ok e"
  shows "(\<forall>p \<le> 3. compiles V p e) \<and> (\<forall>p < 3. reduces_to V p e)"
  using assms
proof (induction e)
  case (CBin op a b)
  let ?e = "CBin op a b" and ?q = "lvl op"
  have q: "?q < 3" and a: "reduces_to V ?q a" and b: "compiles V (Suc ?q) b" using CBin by simp_all
  have r: "reduces_to V ?q ?e" by (rule compiles_bin [OF q a b])
  have low: "compiles V p ?e" if "p \<le> ?q" for p
    by (rule compiles_range [OF reduces_compiles [OF r] _ that]) (use q in \<open>auto simp: Let_def\<close>)
  have e3: "compiles V 3 ?e" using compiles_paren [OF q low [of 0]] by simp
  have "compiles V p ?e" if "?q < p" "p \<le> 3" for p
    by (rule compiles_range [OF e3 _ that(2)]) (use that in \<open>auto simp: Let_def\<close>)
  then have all: "compiles V p ?e" if "p \<le> 3" for p using low that by (cases "p \<le> ?q") auto
  have "reduces_to V p ?e" if "p < 3" for p
  proof (cases "p = ?q")
    case False
    then have "rend p ?e = rend (Suc p) ?e" by (auto simp: Let_def)
    then show ?thesis using compiles_reduces [OF that, of V ?e] all [of "Suc p"] that by simp
  qed (use r in simp)
  then show ?case using all by blast
next
  case (CNum v)
  have "compiles V p (CNum v)" if "p \<le> 3" for p by (rule compiles_range [OF compiles_num _ that]) simp_all
  then show ?case using compiles_reduces [of _ V "CNum v"] by simp
next
  case (CVar v)
  have "compiles V p (CVar v)" if "p \<le> 3" for p by (rule compiles_range [OF compiles_var _ that]) simp_all
  then show ?case using compiles_reduces [of _ V "CVar v"] by simp
next
  case (CNeg a)
  have "compiles V p (CNeg a)" if "p \<le> 3" for p by (rule compiles_range [OF compiles_neg _ that]) (use CNeg in simp_all)
  then show ?case using compiles_reduces [of _ V "CNeg a"] by simp
qed

lemma expr_compiled:
  assumes "ops_ok e" "fits V s (rend 0 e @ ts) (cg_expr (slot V) e) (names_e e)" "t \<in> {KRParen, KSemi, KLBrace}" "ts = CT t # us"
    "length (rend 0 e @ ts) < n"
  shows "\<exists>s'. c_expr (Suc n) s = Some s' \<and> gone s s' ts (cg_expr (slot V) e) (names_e e)"
proof -
  have "compiles V 0 e" using compiles_levels [OF assms(1)] by simp
  from compilesD [OF this assms(2) _, where n = "Suc n" and m = n] closes_ends [OF assms(3), of 0 us] assms(4,5)
  show ?thesis by (auto simp: c_at_def)
qed

end
