(* ===== verification/Barrelprog.thy ===== *)
theory Barrelprog
  imports Barrelcode
begin

text \<open>
  The statements of \<open>Barrelc\<close> compile to the code of \<open>Barrelcode\<close>: the distances of the jumps that are patched in later,
  those of \<open>break\<close> included, and the ELF image.
\<close>

section \<open>Pending jumps\<close>

text \<open>The length of the code depends neither on the slots nor on the loop around it.\<close>

fun len_e :: "cexpr \<Rightarrow> nat" where
  "len_e (CNum v) = 10"
| "len_e (CVar x) = 7"
| "len_e (CNeg a) = len_e a + 3"
| "len_e (CBin op a b) = len_e a + len_e b + length (op_code op) + 5"

fun len_s :: "cstmt \<Rightarrow> nat" and len_ss :: "cstmt list \<Rightarrow> nat" where
  "len_s CSkip = 0"
| "len_s (CLet x e) = len_e e + 7"
| "len_s (CPrint nl e) = len_e e + length (print_code nl)"
| "len_s (CIf e ss) = len_e e + 9 + len_ss ss"
| "len_s (CIfElse e ss ts) = len_e e + 9 + len_ss ss + 5 + len_ss ts"
| "len_s (CWhile e ss) = len_e e + 9 + len_ss ss + 5"
| "len_s (CLoop ss) = len_ss ss + 5"
| "len_s CBreak = 5"
| "len_ss [] = 0"
| "len_ss (s # ss) = len_s s + len_ss ss"

lemma length_cg_expr [simp]: "length (cg_expr \<sigma> e) = len_e e"
  by (induction e) simp_all

lemma length_jmp [simp]: "length (jmp_code d) = 5" "length (je_code d) = 9"
  by (simp_all add: jmp_code_def je_code_def)

lemma length_cg [simp]: "length (cg_stmt \<sigma> k s) = len_s s" "length (cg_stmts \<sigma> k ss) = len_ss ss"
  by (induction \<sigma> k s and \<sigma> k ss rule: cg_stmt_cg_stmts.induct) (simp_all add: Let_def)

text \<open>The code of compound statements, with the lengths.\<close>

lemma cg_simps:
  "cg_stmt \<sigma> k (CIf e ss) = cg_expr \<sigma> e @ je_code (int (len_ss ss)) @ cg_stmts \<sigma> k ss"
  "cg_stmt \<sigma> k (CIfElse e ss ts) = cg_expr \<sigma> e @ je_code (int (len_ss ss) + 5) @ cg_stmts \<sigma> (far (5 + len_ss ts) k) ss @
     jmp_code (int (len_ss ts)) @ cg_stmts \<sigma> k ts"
  "cg_stmt \<sigma> k (CWhile e ss) = cg_expr \<sigma> e @ je_code (int (len_ss ss) + 5) @ cg_stmts \<sigma> (Some 5) ss @
     jmp_code (- int (len_e e + len_ss ss + 14))"
  "cg_stmt \<sigma> k (CLoop ss) = cg_stmts \<sigma> (Some 5) ss @ jmp_code (- int (len_ss ss + 5))"
  "cg_stmts \<sigma> k (s # ss) = cg_stmt \<sigma> (far (len_ss ss) k) s @ cg_stmts \<sigma> k ss"
  by (simp_all add: Let_def)

lemma far_simps [simp]: "far n None = None" "far n (Some d) = Some (d + n)"
  by (simp_all add: far_def)

declare cg_stmt.simps(4-7) [simp del] cg_stmts.simps(2) [simp del]

text \<open>The places of the jumps of \<open>break\<close> statements that belong to an enclosing loop.\<close>

fun sites :: "nat \<Rightarrow> cstmt \<Rightarrow> nat list" and sites_list :: "nat \<Rightarrow> cstmt list \<Rightarrow> nat list" where
  "sites i (CIf e ss) = sites_list (i + len_e e + 9) ss"
| "sites i (CIfElse e ss ts) = sites_list (i + len_e e + 9) ss @ sites_list (i + len_e e + 9 + len_ss ss + 5) ts"
| "sites i CBreak = [i + 1]"
| "sites i _ = []"
| "sites_list i [] = []"
| "sites_list i (s # ss) = sites i s @ sites_list (i + len_s s) ss"

lemma sites_count: "length (sites i s) \<le> breaks_s s" "length (sites_list i ss) \<le> breaks_ss ss"
  by (induction i s and i ss rule: sites_sites_list.induct) auto

lemma sites_inside:
  "list_all (\<lambda>j. i < j \<and> j + 4 \<le> i + len_s s) (sites i s)" "list_all (\<lambda>j. i < j \<and> j + 4 \<le> i + len_ss ss) (sites_list i ss)"
  by (induction i s and i ss rule: sites_sites_list.induct) (auto simp: list_all_iff)

definition patch_all :: "nat \<Rightarrow> nat list \<Rightarrow> bytes \<Rightarrow> bytes" where
  "patch_all T = fold (\<lambda>site c. put_at c site (to_le 4 (rel32 site T)))"

lemma patch_all_append: "patch_all T (xs @ ys) c = patch_all T ys (patch_all T xs c)"
  by (simp add: patch_all_def)

lemma patch_sites:
  "n = length pre \<Longrightarrow> T = n + len_s s + d \<Longrightarrow>
    patch_all T (sites n s) (pre @ cg_stmt \<sigma> None s @ post) = pre @ cg_stmt \<sigma> (Some d) s @ post"
  "n = length pre \<Longrightarrow> T = n + len_ss ss + d \<Longrightarrow>
    patch_all T (sites_list n ss) (pre @ cg_stmts \<sigma> None ss @ post) = pre @ cg_stmts \<sigma> (Some d) ss @ post"
proof (induction n s and n ss arbitrary: pre post d and pre post d rule: sites_sites_list.induct)
  case (1 n e ss)
  let ?pre = "pre @ cg_expr \<sigma> e @ je_code (int (len_ss ss))"
  have "patch_all T (sites_list (n + len_e e + 9) ss) (?pre @ cg_stmts \<sigma> None ss @ post) = ?pre @ cg_stmts \<sigma> (Some d) ss @ post"
    by (rule 1(1)) (use 1(2,3) in simp_all)
  then show ?case by (simp add: cg_simps)
next
  case (2 n e ss ts)
  let ?C = "cg_expr \<sigma> e" and ?J = "jmp_code (int (len_ss ts))" and ?B' = "cg_stmts \<sigma> (Some (d + (5 + len_ss ts))) ss"
  let ?pre = "pre @ ?C @ je_code (int (len_ss ss) + 5)"
  have a: "patch_all T (sites_list (n + len_e e + 9) ss) (?pre @ cg_stmts \<sigma> None ss @ ?J @ cg_stmts \<sigma> None ts @ post) =
    ?pre @ ?B' @ ?J @ cg_stmts \<sigma> None ts @ post" by (rule 2(1)) (use 2(3,4) in simp_all)
  have b: "patch_all T (sites_list (n + len_e e + 9 + len_ss ss + 5) ts) ((?pre @ ?B' @ ?J) @ cg_stmts \<sigma> None ts @ post) =
    (?pre @ ?B' @ ?J) @ cg_stmts \<sigma> (Some d) ts @ post" by (rule 2(2)) (use 2(3,4) in simp_all)
  show ?case using a b by (simp add: cg_simps patch_all_append)
next
  case (3 n)
  have m: "put_at (pre @ (0xE9 # to_le 4 (0 :: u32)) @ post) (length pre + 1) (to_le 4 (w :: u32)) = pre @ (0xE9 # to_le 4 w) @ post" for w
    using put_at_mid [of "length pre + 1" "pre @ [0xE9]" "to_le 4 (0 :: u32)" "to_le 4 w" post] by simp
  have r: "rel32 (length pre + 1) T = word_of_int (int d)" using 3 by (simp add: rel32_def)
  show ?case using m [of "word_of_int (int d)"] r by (simp add: 3(1) patch_all_def jmp_code_def)
next
  case (6 n s ss)
  let ?R = "cg_stmts \<sigma> None ss" and ?S' = "cg_stmt \<sigma> (Some (d + len_ss ss)) s"
  have a: "patch_all T (sites n s) (pre @ cg_stmt \<sigma> None s @ ?R @ post) = pre @ ?S' @ ?R @ post"
    by (rule 6(1)) (use 6(3,4) in simp_all)
  have b: "patch_all T (sites_list (n + len_s s) ss) ((pre @ ?S') @ ?R @ post) = (pre @ ?S') @ cg_stmts \<sigma> (Some d) ss @ post"
    by (rule 6(2)) (use 6(3,4) in simp_all)
  show ?case using a b by (simp add: cg_simps patch_all_append)
qed (simp_all add: patch_all_def cg_simps)
section \<open>Steps of the statement compiler\<close>

text \<open>As \<open>gone\<close>, with the places \<open>bs\<close> of the pending jumps that were added.\<close>

definition went :: "comp \<Rightarrow> comp \<Rightarrow> ctok list \<Rightarrow> bytes \<Rightarrow> bytes list \<Rightarrow> nat list \<Rightarrow> bool" where
  "went s s' ts c ms bs \<longleftrightarrow> at_tok s' ts \<and> good s' \<and> code_of s' = code_of s @ c \<and> names_of s' = add_names (names_of s) ms \<and>
     breaks s' = breaks s @ bs \<and> c_src s' = c_src s"

lemma gone_went: "gone s s' ts c ms \<longleftrightarrow> went s s' ts c ms []"
  by (simp add: gone_def went_def)

lemma went_trans: "went s s' us c ms bs \<Longrightarrow> went s' s'' ts d ns cs \<Longrightarrow> went s s'' ts (c @ d) (ms @ ns) (bs @ cs)"
  unfolding went_def by (simp add: add_names_append)

lemma went_gone: "went s s' us c ms bs \<Longrightarrow> gone s' s'' ts d ns \<Longrightarrow> went s s'' ts (c @ d) (ms @ ns) bs"
  using went_trans [of s s' us c ms bs s'' ts d ns "[]"] by (simp add: gone_went)

lemma wentD: "went s s' ts c ms bs \<Longrightarrow> at_tok s' ts" "went s s' ts c ms bs \<Longrightarrow> good s'"
  by (simp_all add: went_def)

lemma went_len: "went s s' ts c ms bs \<Longrightarrow> good s \<Longrightarrow> clen s' = clen s + length c"
  using length_code_of [of s] length_code_of [of s'] by (simp add: went_def)

lemma went_advance:
  assumes "went s s' (t # ts) c ms bs"
  shows "went s (next_token s') ts c ms bs"
  using went_gone [OF assms gone_next [OF wentD(2) [OF assms] wentD(1) [OF assms]]] by simp

lemma went_eats:
  assumes "went s s' (CT t # ts) c ms bs"
  shows "went s (eat t s') ts c ms bs"
  using went_gone [OF assms gone_eat [OF wentD(2) [OF assms] wentD(1) [OF assms]]] by simp

lemma went_emit:
  assumes "went s s' ts c ms bs" "good s" "clen s + length c + length cs \<le> 3976"
  shows "went s (emit_bytes cs s') ts (c @ cs) ms bs"
proof -
  have "wrote cs s' (emit_bytes cs s')" using assms went_len [OF assms(1,2)] wentD [OF assms(1)] by (intro wrote_bytes) auto
  from went_gone [OF assms(1) gone_wrote [OF this wentD(1) [OF assms(1)]]] show ?thesis by simp
qed

text \<open>Jumps with a hole, and their patching.\<close>

lemma went_je:
  assumes "went s s' ts c ms bs" "good s" "clen s + length c + 9 \<le> 3976"
  obtains s'' where "emit_je s' = (clen s + length c + 5, s'')" "went s s'' ts (c @ je_code 0) ms bs"
proof -
  have a: "went s (emit_bytes [0x0F, 0x84] (emit_bytes [0x48, 0x85, 0xC0] s')) ts ((c @ [0x48, 0x85, 0xC0]) @ [0x0F, 0x84]) ms bs"
    by (rule went_emit [OF went_emit [OF assms(1,2)] assms(2)]) (use assms(3) in simp_all)
  have "went s (emit_u32 0 (emit_bytes [0x0F, 0x84] (emit_bytes [0x48, 0x85, 0xC0] s'))) ts (c @ je_code 0) ms bs"
    using went_emit [OF a assms(2), of "to_le 4 (0 :: u32)"] assms(3) by (simp add: emit_u32_def je_code_def)
  moreover have "emit_je s' = (clen s + length c + 5, emit_u32 0 (emit_bytes [0x0F, 0x84] (emit_bytes [0x48, 0x85, 0xC0] s')))"
    using went_len [OF a assms(2)] by (simp add: emit_je_def Let_def)
  ultimately show ?thesis using that by blast
qed

lemma went_jmp:
  assumes "went s s' ts c ms bs" "good s" "clen s + length c + 5 \<le> 3976"
  obtains s'' where "emit_jmp s' = (clen s + length c + 1, s'')" "went s s'' ts (c @ jmp_code 0) ms bs"
proof -
  have a: "went s (emit_bytes [0xE9] s') ts (c @ [0xE9]) ms bs" by (rule went_emit [OF assms(1,2)]) (use assms(3) in simp)
  have "went s (emit_u32 0 (emit_bytes [0xE9] s')) ts (c @ jmp_code 0) ms bs"
    using went_emit [OF a assms(2), of "to_le 4 (0 :: u32)"] assms(3) by (simp add: emit_u32_def jmp_code_def)
  moreover have "emit_jmp s' = (clen s + length c + 1, emit_u32 0 (emit_bytes [0xE9] s'))"
    using went_len [OF a assms(2)] by (simp add: emit_jmp_def Let_def)
  ultimately show ?thesis using that by blast
qed

lemma went_patch:
  assumes "went s s' ts c ms bs" "good s" "site = clen s + i" "i + 4 \<le> length c"
  shows "went s (patch32 site rel s') ts (put_at c i (to_le 4 rel)) ms bs"
proof -
  have l: "clen s' = clen s + length c" by (rule went_len [OF assms(1,2)])
  have p: "patch32 site rel s' = s'\<lparr>ELF_BUF := ELF_BUF (patch32 site rel s')\<rparr>" "good (patch32 site rel s')"
    "code_of (patch32 site rel s') = put_at (code_of s') site (to_le 4 rel)"
    using patch32_code [OF wentD(2) [OF assms(1)], of site rel] l assms(3,4) by simp_all
  have c: "put_at (code_of s') site (to_le 4 rel) = code_of s @ put_at c i (to_le 4 rel)"
    using assms(1,3) put_at_prefix [of "code_of s" c i "to_le 4 rel"] by (simp add: went_def length_code_of [OF assms(2)])
  obtain b where b: "patch32 site rel s' = s'\<lparr>ELF_BUF := b\<rparr>" using p(1) by blast
  have "at_tok (s'\<lparr>ELF_BUF := b\<rparr>) ts" using wentD(1) [OF assms(1)] by (simp add: at_tok_def tok_cur_def split: list.splits ctok.splits)
  then show ?thesis using assms(1) p(2,3) c names_of_src [of "s'\<lparr>ELF_BUF := b\<rparr>" s'] unfolding b by (simp add: went_def)
qed

lemma went_patch_je:
  assumes "went s s' ts (xs @ je_code 0 @ ys) ms bs" "good s" "site = clen s + length xs + 5" "int T = int (clen s + length xs + 9) + d"
  shows "went s (patch32 site (rel32 site T) s') ts (xs @ je_code d @ ys) ms bs"
proof -
  have "rel32 site T = word_of_int d" using assms(3,4) by (simp add: rel32_def)
  moreover have "put_at (xs @ je_code 0 @ ys) (length xs + 5) (le32 d) = xs @ je_code d @ ys"
    using put_at_mid [of "length xs + 5" "xs @ [0x48, 0x85, 0xC0, 0x0F, 0x84]" "to_le 4 (0 :: u32)" "le32 d" ys] by (simp add: je_code_def)
  ultimately show ?thesis using went_patch [OF assms(1,2), of site "length xs + 5" "word_of_int d"] assms(3) by simp
qed

lemma went_patch_jmp:
  assumes "went s s' ts (xs @ jmp_code 0 @ ys) ms bs" "good s" "site = clen s + length xs + 1" "int T = int (clen s + length xs + 5) + d"
  shows "went s (patch32 site (rel32 site T) s') ts (xs @ jmp_code d @ ys) ms bs"
proof -
  have "rel32 site T = word_of_int d" using assms(3,4) by (simp add: rel32_def)
  moreover have "put_at (xs @ jmp_code 0 @ ys) (length xs + 1) (le32 d) = xs @ jmp_code d @ ys"
    using put_at_mid [of "length xs + 1" "xs @ [0xE9]" "to_le 4 (0 :: u32)" "le32 d" ys] by (simp add: jmp_code_def)
  ultimately show ?thesis using went_patch [OF assms(1,2), of site "length xs + 1" "word_of_int d"] assms(3) by simp
qed

text \<open>Closing the jumps of a loop.\<close>

lemma patch_all_code:
  assumes "good s" "list_all (\<lambda>j. j + 4 \<le> clen s) js"
  shows "let s' = fold (\<lambda>site. patch32 site (rel32 site T)) js s
    in s' = s\<lparr>ELF_BUF := ELF_BUF s'\<rparr> \<and> good s' \<and> code_of s' = patch_all T js (code_of s)"
  using assms
proof (induction js arbitrary: s)
  case (Cons j js)
  let ?p = "patch32 j (rel32 j T) s"
  note p = patch32_code [OF Cons.prems(1), of j "rel32 j T"]
  have "?p = s\<lparr>ELF_BUF := ELF_BUF ?p\<rparr>" "good ?p" "code_of ?p = put_at (code_of s) j (to_le 4 (rel32 j T))" using p Cons.prems(2) by simp_all
  moreover obtain b where b: "?p = s\<lparr>ELF_BUF := b\<rparr>" using calculation(1) by blast
  moreover have "clen ?p = clen s" by (simp add: b)
  ultimately show ?case using Cons.IH [of ?p] Cons.prems(2) by (simp add: Let_def patch_all_def)
qed (simp add: patch_all_def)

lemma went_close:
  assumes "went s s' ts (xs @ cg_stmts \<sigma> None ss @ ys) ms (bs @ sites_list (clen s + length xs) ss)" "good s"
    "T = clen s + length xs + len_ss ss + d" "b = length (breaks s) + length bs"
  shows "went s (close_breaks b T s') ts (xs @ cg_stmts \<sigma> (Some d) ss @ ys) ms bs"
proof -
  let ?js = "sites_list (clen s + length xs) ss"
  have w: "at_tok s' ts" "good s'" "code_of s' = code_of s @ xs @ cg_stmts \<sigma> None ss @ ys" "breaks s' = breaks s @ bs @ ?js"
    "names_of s' = add_names (names_of s) ms" "c_src s' = c_src s" using assms(1) by (simp_all add: went_def)
  have d: "drop b (breaks s') = ?js" "take b (breaks s') = breaks s @ bs" using assms(4) by (simp_all add: w(4))
  have l: "clen s' = clen s + length xs + len_ss ss + length ys" using went_len [OF assms(1,2)] by simp
  have "list_all (\<lambda>j. j + 4 \<le> clen s') ?js"
    using sites_inside(2) [of "clen s + length xs" ss] l by (auto simp: list_all_iff)
  from patch_all_code [OF w(2) this, of T] obtain s2 where
    s2: "fold (\<lambda>site. patch32 site (rel32 site T)) ?js s' = s2" "s2 = s'\<lparr>ELF_BUF := ELF_BUF s2\<rparr>" "good s2"
      "code_of s2 = patch_all T ?js (code_of s')" by (auto simp: Let_def)
  have "patch_all T ?js ((code_of s @ xs) @ cg_stmts \<sigma> None ss @ ys) = (code_of s @ xs) @ cg_stmts \<sigma> (Some d) ss @ ys"
    by (rule patch_sites(2)) (use assms(3) length_code_of [OF assms(2)] in simp_all)
  then have c: "code_of s2 = code_of s @ xs @ cg_stmts \<sigma> (Some d) ss @ ys" by (simp add: s2(4) w(3))
  obtain e where e: "s2 = s'\<lparr>ELF_BUF := e\<rparr>" using s2(2) by blast
  have cl: "close_breaks b T s' = s2\<lparr>breaks := breaks s @ bs\<rparr>" by (simp add: close_breaks_def d s2(1))
  have "at_tok (s2\<lparr>breaks := breaks s @ bs\<rparr>) ts"
    using w(1) by (simp add: e at_tok_def tok_cur_def split: list.splits ctok.splits)
  moreover have "good (s2\<lparr>breaks := breaks s @ bs\<rparr>)" using s2(3) name_at_src [of "s2\<lparr>breaks := breaks s @ bs\<rparr>" s2] by (simp add: good_def)
  moreover have "names_of (s2\<lparr>breaks := breaks s @ bs\<rparr>) = names_of s'" by (rule names_of_src) (simp_all add: e)
  moreover have "code_of (s2\<lparr>breaks := breaks s @ bs\<rparr>) = code_of s2" by (simp add: code_of_def)
  ultimately show ?thesis unfolding cl went_def using c w(5,6) by (simp add: e)
qed

section \<open>Statements\<close>

definition sfits :: "bytes list \<Rightarrow> comp \<Rightarrow> ctok list \<Rightarrow> nat \<Rightarrow> bytes list \<Rightarrow> nat \<Rightarrow> bool" where
  "sfits V s ts l ms b \<longleftrightarrow> at_tok s ts \<and> good s \<and> clen s + l \<le> 3976 \<and> prefix (add_names (names_of s) ms) V \<and> length V \<le> 32 \<and>
     length (breaks s) + b \<le> 32"

lemma sfits_went:
  assumes "went s s' us c ms bs" "sfits V s ts (length c + l) (ms @ ns) (length bs + b)"
  shows "sfits V s' us l ns b"
  using assms(2) went_len [OF assms(1)] wentD [OF assms(1)] assms(1)
  by (simp add: sfits_def add_names_append) (simp add: went_def)

lemma sfits_part: "sfits V s ts (l + k) (ms @ ns) (b + d) \<Longrightarrow> sfits V s ts l ms b"
  unfolding sfits_def add_names_append using prefix_add_names [of "add_names (names_of s) ms" ns] prefix_order.order_trans by force

lemma went_refl: "at_tok s ts \<Longrightarrow> good s \<Longrightarrow> went s s ts [] [] []"
  by (simp add: went_def)

text \<open>An expression in a statement.\<close>

lemma went_expr:
  assumes "went s s' (rend 0 e @ ts) c ms bs" "sfits V s us (length c + len_e e) (ms @ names_e e) (length bs)" "ops_ok e"
    "t \<in> {KRParen, KSemi, KLBrace}" "ts = CT t # vs" "length (rend 0 e @ ts) < n"
  obtains s'' where "c_expr (Suc n) s' = Some s''" "went s s'' ts (c @ cg_expr (slot V) e) (ms @ names_e e) bs"
proof -
  have "sfits V s us (length c + len_e e) (ms @ names_e e) (length bs + 0)" using assms(2) by simp
  from sfits_went [OF assms(1) this] have "fits V s' (rend 0 e @ ts) (cg_expr (slot V) e) (names_e e)" by (simp add: sfits_def fits_def)
  from expr_compiled [OF assms(3) this assms(4-6)] obtain s'' where s: "c_expr (Suc n) s' = Some s''"
    "gone s' s'' ts (cg_expr (slot V) e) (names_e e)" by blast
  show ?thesis by (rule that [OF s(1) went_gone [OF assms(1) s(2)]])
qed

definition starters :: "tk set" where
  "starters = {KSemi, KLet, KPrint, KPrintln, KIf, KWhile, KLoop, KBreak}"

lemma stmt_starts: "cur_kind (rend_stmt st @ ts) \<in> starters"
  by (cases st) (simp_all add: cur_kind_def starters_def)

definition stmt_done :: "bytes list \<Rightarrow> cstmt \<Rightarrow> bool" where
  "stmt_done V st \<longleftrightarrow> (\<forall>s ts n. sfits V s (rend_stmt st @ ts) (len_s st) (names_s st) (breaks_s st) \<longrightarrow> cur_kind ts \<noteq> KElse \<longrightarrow>
     length (rend_stmt st @ ts) + 1 < n \<longrightarrow>
     (\<exists>s'. c_stmt n s = Some s' \<and> went s s' ts (cg_stmt (slot V) None st) (names_s st) (sites (clen s) st)))"

definition stops :: "(comp \<Rightarrow> bool) \<Rightarrow> ctok list \<Rightarrow> bool" where
  "stops cond ts \<longleftrightarrow> cur_kind ts \<noteq> KElse \<and> (\<forall>s. good s \<longrightarrow> at_tok s ts \<longrightarrow> \<not> cond s) \<and>
     (\<forall>s. good s \<longrightarrow> c_tok s \<in> starters \<longrightarrow> cond s)"

definition list_done :: "bytes list \<Rightarrow> cstmt list \<Rightarrow> bool" where
  "list_done V ss \<longleftrightarrow> (\<forall>s ts n k cond. sfits V s (rend_stmts ss @ ts) (len_ss ss) (names_ss ss) (breaks_ss ss) \<longrightarrow> stops cond ts \<longrightarrow>
     length (rend_stmts ss @ ts) + 1 < n \<longrightarrow> length ss < k \<longrightarrow>
     (\<exists>s'. c_while k cond (c_stmt n) s = Some s' \<and> went s s' ts (cg_stmts (slot V) None ss) (names_ss ss) (sites_list (clen s) ss)))"

lemma rend_length: "length ss \<le> length (rend_stmts ss)"
proof (induction ss)
  case (Cons s ss)
  have "rend_stmt s \<noteq> []" by (cases s) simp_all
  then show ?case using Cons by (cases "rend_stmt s") simp_all
qed simp

lemma list_done_Nil: "list_done V []"
  unfolding list_done_def
proof (intro allI impI)
  fix s ts n and k :: nat and cond
  assume h: "sfits V s (rend_stmts [] @ ts) (len_ss []) (names_ss []) (breaks_ss [])" "stops cond ts" "length ([] :: cstmt list) < k"
  then obtain k' where "k = Suc k'" by (cases k) auto
  then show "\<exists>s'. c_while k cond (c_stmt n) s = Some s' \<and> went s s' ts (cg_stmts (slot V) None []) (names_ss []) (sites_list (clen s) [])"
    using h went_refl [of s ts] by (simp add: stops_def sfits_def)
qed

lemma list_done_Cons:
  assumes "stmt_done V st" "list_done V ss"
  shows "list_done V (st # ss)"
  unfolding list_done_def
proof (intro allI impI)
  fix s ts n and k :: nat and cond
  assume h: "sfits V s (rend_stmts (st # ss) @ ts) (len_ss (st # ss)) (names_ss (st # ss)) (breaks_ss (st # ss))" "stops cond ts"
    "length (rend_stmts (st # ss) @ ts) + 1 < n" "length (st # ss) < k"
  obtain k' where k: "k = Suc k'" using h(4) by (cases k) auto
  have f: "sfits V s (rend_stmt st @ rend_stmts ss @ ts) (len_s st + len_ss ss) (names_s st @ names_ss ss) (breaks_s st + breaks_ss ss)"
    using h(1) by simp
  have e: "cur_kind (rend_stmts ss @ ts) \<noteq> KElse" 
  proof (cases ss)
    case Nil
    then show ?thesis using h(2) by (simp add: stops_def)
  next
    case (Cons a as)
    have "cur_kind (rend_stmts ss @ ts) \<in> starters" using stmt_starts [of a "rend_stmts as @ ts"] by (simp add: Cons)
    then show ?thesis by (auto simp: starters_def)
  qed
  have g: "good s" and at: "at_tok s (rend_stmt st @ rend_stmts ss @ ts)" using f by (simp_all add: sfits_def)
  have c: "cond s" using h(2) g at_tok_kind [OF at] stmt_starts [of st "rend_stmts ss @ ts"] by (simp add: stops_def)
  from assms(1) sfits_part [OF f] e h(3) obtain s1 where s1: "c_stmt n s = Some s1"
    "went s s1 (rend_stmts ss @ ts) (cg_stmt (slot V) None st) (names_s st) (sites (clen s) st)" unfolding stmt_done_def by fastforce
  have l: "clen s1 = clen s + len_s st" using went_len [OF s1(2) g] by simp
  have "sfits V s1 (rend_stmts ss @ ts) (len_ss ss) (names_ss ss) (breaks_ss ss)"
    by (rule sfits_went [OF s1(2), of V "rend_stmt st @ rend_stmts ss @ ts"]) (use f sites_count(1) [of "clen s" st] in \<open>simp add: sfits_def\<close>)
  moreover have "length (rend_stmts ss @ ts) + 1 < n" "length ss < k'" using h(3,4) k by simp_all
  ultimately obtain s2 where s2: "c_while k' cond (c_stmt n) s1 = Some s2"
    "went s1 s2 ts (cg_stmts (slot V) None ss) (names_ss ss) (sites_list (clen s1) ss)" using assms(2) h(2) unfolding list_done_def by blast
  show "\<exists>s'. c_while k cond (c_stmt n) s = Some s' \<and> went s s' ts (cg_stmts (slot V) None (st # ss)) (names_ss (st # ss)) (sites_list (clen s) (st # ss))"
    using went_trans [OF s1(2) s2(2)] s1(1) s2(1) c by (simp add: k cg_simps l)
qed

text \<open>A block.\<close>

lemma went_block:
  assumes "went s s' (CT KLBrace # rend_stmts ss @ CT KRBrace # ts) c ms bs" "list_done V ss"
    "sfits V s us (length c + len_ss ss) (ms @ names_ss ss) (length bs + breaks_ss ss)"
    "length (rend_stmts ss @ CT KRBrace # ts) + 1 < n" "good s"
  obtains s'' where "c_block n (c_stmt n) s' = Some s''"
    "went s s'' ts (c @ cg_stmts (slot V) None ss) (ms @ names_ss ss) (bs @ sites_list (clen s + length c) ss)"
proof -
  let ?cond = "\<lambda>s. c_tok s \<noteq> KRBrace \<and> c_tok s \<noteq> KEof \<and> c_err s = 0"
  have w: "went s (eat KLBrace s') (rend_stmts ss @ CT KRBrace # ts) c ms bs" by (rule went_eats [OF assms(1)])
  have st: "stops ?cond (CT KRBrace # ts)"
    unfolding stops_def using at_tok_kind by (auto simp: cur_kind_def starters_def good_def)
  have "length ss < n" using assms(4) rend_length [of ss] by simp
  with assms(2) sfits_went [OF w assms(3)] st assms(4) obtain s2 where s2:
    "c_while n ?cond (c_stmt n) (eat KLBrace s') = Some s2"
    "went (eat KLBrace s') s2 (CT KRBrace # ts) (cg_stmts (slot V) None ss) (names_ss ss) (sites_list (clen (eat KLBrace s')) ss)"
    unfolding list_done_def by blast
  have "went s (eat KRBrace s2) ts (c @ cg_stmts (slot V) None ss) (ms @ names_ss ss) (bs @ sites_list (clen s + length c) ss)"
    using went_eats [OF went_trans [OF w s2(2)]] went_len [OF w assms(5)] by simp
  moreover have "c_block n (c_stmt n) s' = Some (eat KRBrace s2)" using s2(1) by (simp add: c_block_def)
  ultimately show ?thesis using that by blast
qed

lemma stmt_doneI:
  assumes "\<And>s ts m. sfits V s (rend_stmt st @ ts) (len_s st) (names_s st) (breaks_s st) \<Longrightarrow> cur_kind ts \<noteq> KElse \<Longrightarrow>
      good s \<Longrightarrow> at_tok s (rend_stmt st @ ts) \<Longrightarrow> went s s (rend_stmt st @ ts) [] [] [] \<Longrightarrow> clen s + len_s st \<le> 3976 \<Longrightarrow>
      length (rend_stmt st @ ts) < Suc m \<Longrightarrow>
      \<exists>s'. c_stmt (Suc (Suc m)) s = Some s' \<and> went s s' ts (cg_stmt (slot V) None st) (names_s st) (sites (clen s) st)"
  shows "stmt_done V st"
  unfolding stmt_done_def
proof (intro allI impI)
  fix s ts n
  assume h: "sfits V s (rend_stmt st @ ts) (len_s st) (names_s st) (breaks_s st)" "cur_kind ts \<noteq> KElse"
    "length (rend_stmt st @ ts) + 1 < n"
  have "rend_stmt st \<noteq> []" by (cases st) simp_all
  then have "2 < n" using h(3) by (cases "rend_stmt st") simp_all
  then obtain m where n: "n = Suc (Suc m)" by (cases n; cases "n - 1") auto
  have g: "good s" "at_tok s (rend_stmt st @ ts)" "clen s + len_s st \<le> 3976" using h(1) by (simp_all add: sfits_def)
  show "\<exists>s'. c_stmt n s = Some s' \<and> went s s' ts (cg_stmt (slot V) None st) (names_s st) (sites (clen s) st)"
    unfolding n using assms [OF h(1,2) g(1,2) went_refl [OF g(2,1)] g(3)] h(3) n by simp
qed

lemma done_skip: "stmt_done V CSkip"
proof (rule stmt_doneI)
  fix s ts m
  assume w: "went s s (rend_stmt CSkip @ ts) [] [] []" and at: "at_tok s (rend_stmt CSkip @ ts)"
  have "went s (next_token s) ts [] [] []" using went_advance [of s s "CT KSemi" ts] w by simp
  then show "\<exists>s'. c_stmt (Suc (Suc m)) s = Some s' \<and> went s s' ts (cg_stmt (slot V) None CSkip) (names_s CSkip) (sites (clen s) CSkip)"
    using at_tok_kind [OF at] by (simp add: cur_kind_def)
qed

lemma done_print:
  assumes "ops_ok e"
  shows "stmt_done V (CPrint nl e)"
proof (rule stmt_doneI)
  fix s ts m
  let ?k = "if nl then KPrintln else KPrint"
  assume h: "sfits V s (rend_stmt (CPrint nl e) @ ts) (len_s (CPrint nl e)) (names_s (CPrint nl e)) (breaks_s (CPrint nl e))"
    "good s" "at_tok s (rend_stmt (CPrint nl e) @ ts)" "went s s (rend_stmt (CPrint nl e) @ ts) [] [] []"
    "clen s + len_s (CPrint nl e) \<le> 3976" "length (rend_stmt (CPrint nl e) @ ts) < Suc m"
  have k: "c_tok s = ?k" using at_tok_kind [OF h(3)] by (simp add: cur_kind_def)
  have w1: "went s (next_token s) (rend 0 e @ CT KSemi # ts) [] [] []"
    by (rule went_advance [of _ _ "CT ?k"]) (use h(4) in simp)
  obtain s2 where s2: "c_expr (Suc m) (next_token s) = Some s2" "went s s2 (CT KSemi # ts) ([] @ cg_expr (slot V) e) ([] @ names_e e) []"
    by (rule went_expr [OF w1 _ assms(1), of V "rend_stmt (CPrint nl e) @ ts" KSemi ts m])
      (use h(1,6) sfits_part [of V s _ "len_e e" _ "names_e e" "[]" 0 0] in simp_all)
  let ?w = "if nl then [0xBE, 1, 0, 0, 0] else [0x31, 0xF6] :: bytes"
  have len: "length (print_code nl) = 10 + length ?w" by (simp add: print_code_def)
  have "went s (emit_print nl (eat KSemi s2)) ts
      ((((cg_expr (slot V) e @ [0x48, 0x89, 0xC7]) @ ?w) @ [0xB8, 0x20, 0, 0, 0]) @ [0x0F, 0x05]) (names_e e) []"
    unfolding emit_print_def
    by (rule went_emit [OF went_emit [OF went_emit [OF went_emit [OF went_eats h(2)] h(2)] h(2)] h(2)])
      (use s2(2) h(5) len in auto)
  then show "\<exists>s'. c_stmt (Suc (Suc m)) s = Some s' \<and>
      went s s' ts (cg_stmt (slot V) None (CPrint nl e)) (names_s (CPrint nl e)) (sites (clen s) (CPrint nl e))"
    using k s2(1) by (cases nl) (simp_all add: c_print_def print_code_def Let_def del: c_expr.simps)
qed

lemma done_break: "stmt_done V CBreak"
proof (rule stmt_doneI)
  fix s ts m
  assume h: "sfits V s (rend_stmt CBreak @ ts) (len_s CBreak) (names_s CBreak) (breaks_s CBreak)"
    "good s" "at_tok s (rend_stmt CBreak @ ts)" "went s s (rend_stmt CBreak @ ts) [] [] []" "clen s + len_s CBreak \<le> 3976"
  have k: "c_tok s = KBreak" using at_tok_kind [OF h(3)] by (simp add: cur_kind_def)
  have w: "went s (eat KSemi (next_token s)) ts [] [] []"
    by (rule went_eats [OF went_advance [of _ _ "CT KBreak"]]) (use h(4) in simp)
  obtain s2 where s2: "emit_jmp (eat KSemi (next_token s)) = (clen s + 1, s2)" "went s s2 ts (jmp_code 0) [] []"
    by (rule went_jmp [OF w h(2)]) (use h(5) in simp_all)
  have b: "breaks s2 = breaks s" using s2(2) by (simp add: went_def)
  have l: "length (breaks s) < 32" using h(1) by (simp add: sfits_def)
  let ?s' = "s2\<lparr>breaks := breaks s2 @ [clen s + 1]\<rparr>"
  have "at_tok ?s' ts" using wentD(1) [OF s2(2)] by (simp add: at_tok_def tok_cur_def split: list.splits ctok.splits)
  moreover have "good ?s'" using wentD(2) [OF s2(2)] name_at_src [of ?s' s2] by (simp add: good_def)
  moreover have "names_of ?s' = names_of s2" by (rule names_of_src) simp_all
  ultimately have "went s ?s' ts (jmp_code 0) [] [clen s + 1]" using s2(2) b by (simp add: went_def code_of_def)
  then show "\<exists>s'. c_stmt (Suc (Suc m)) s = Some s' \<and> went s s' ts (cg_stmt (slot V) None CBreak) (names_s CBreak) (sites (clen s) CBreak)"
    using k s2(1) l b by (simp add: c_break_def)
qed

lemma done_let:
  assumes "ops_ok e"
  shows "stmt_done V (CLet x e)"
proof (rule stmt_doneI)
  fix s ts m
  let ?st = "CLet x e"
  assume h: "sfits V s (rend_stmt ?st @ ts) (len_s ?st) (names_s ?st) (breaks_s ?st)" "good s" "at_tok s (rend_stmt ?st @ ts)"
    "went s s (rend_stmt ?st @ ts) [] [] []" "clen s + len_s ?st \<le> 3976" "length (rend_stmt ?st @ ts) < Suc m"
  have k: "c_tok s = KLet" using at_tok_kind [OF h(3)] by (simp add: cur_kind_def)
  have w1: "went s (next_token s) (CTName x # CT KEq # rend 0 e @ CT KSemi # ts) [] [] []"
    by (rule went_advance [of _ _ "CT KLet"]) (use h(4) in simp)
  have n1: "names_of (next_token s) = names_of s" using w1 by (simp add: went_def)
  have "prefix (add_name (names_of s) x) V"
    using h(1) prefix_add_names [of "add_name (names_of s) x" "names_e e"] prefix_order.order_trans
    by (fastforce simp: sfits_def add_names_def)
  then obtain s2 where s2: "var_slot (name_off (next_token s)) (name_len (next_token s)) (next_token s) = (slot V x, s2)"
    "gone (next_token s) s2 (CTName x # CT KEq # rend 0 e @ CT KSemi # ts) [] [x]"
    using gone_slot [OF wentD(1,2) [OF w1], of V] h(1) n1 by (auto simp: sfits_def)
  have w3: "went s (eat KEq (next_token s2)) (rend 0 e @ CT KSemi # ts) [] [x] []"
    by (rule went_eats [OF went_advance [of _ _ "CTName x"]]) (use went_gone [OF w1 s2(2)] in simp)
  obtain s3 where s3: "c_expr (Suc m) (eat KEq (next_token s2)) = Some s3" "went s s3 (CT KSemi # ts) ([] @ cg_expr (slot V) e) ([x] @ names_e e) []"
    by (rule went_expr [OF w3 _ assms(1), of V "rend_stmt ?st @ ts" KSemi ts m])
      (use h(1,6) sfits_part [of V s _ "len_e e" _ "x # names_e e" "[]" 0 0] in simp_all)
  have "went s (emit_bytes (to_le 4 (slot_disp (slot V x))) (emit_bytes [0x48, 0x89, 0x85] (eat KSemi s3))) ts
      ((cg_expr (slot V) e @ [0x48, 0x89, 0x85]) @ to_le 4 (slot_disp (slot V x))) (x # names_e e) []"
    by (rule went_emit [OF went_emit [OF went_eats h(2)] h(2)]) (use s3(2) h(5) in auto)
  moreover have "c_tok (next_token s) = KIdent" using at_tok_kind [OF wentD(1) [OF w1]] by (simp add: cur_kind_def)
  ultimately show "\<exists>s'. c_stmt (Suc (Suc m)) s = Some s' \<and> went s s' ts (cg_stmt (slot V) None ?st) (names_s ?st) (sites (clen s) ?st)"
    using k s2(1) s3(1) by (simp add: c_let_def Let_def store_local_def emit_u32_def del: c_expr.simps)
qed

text \<open>The condition of a statement and the jump over its block.\<close>

lemma went_cond:
  assumes "went s s (CT t # rend 0 e @ CT KLBrace # ts) [] [] []" "good s" "ops_ok e"
    "sfits V s us (len_e e) (names_e e) 0" "clen s + len_e e + 9 \<le> 3976" "length (rend 0 e @ CT KLBrace # ts) < m"
  obtains s1 s2 where "c_expr (Suc m) (next_token s) = Some s1" "emit_je s1 = (clen s + len_e e + 5, s2)"
    "went s s2 (CT KLBrace # ts) (cg_expr (slot V) e @ je_code 0) (names_e e) []"
proof -
  have w1: "went s (next_token s) (rend 0 e @ CT KLBrace # ts) [] [] []" by (rule went_advance [OF assms(1)])
  obtain s1 where s1: "c_expr (Suc m) (next_token s) = Some s1" "went s s1 (CT KLBrace # ts) ([] @ cg_expr (slot V) e) ([] @ names_e e) []"
    by (rule went_expr [OF w1 _ assms(3), of V us KLBrace ts m]) (use assms(4,6) in simp_all)
  obtain s2 where "emit_je s1 = (clen s + len_e e + 5, s2)" "went s s2 (CT KLBrace # ts) (cg_expr (slot V) e @ je_code 0) (names_e e) []"
    by (rule went_je [OF s1(2) assms(2)]) (use assms(5) in simp_all)
  then show ?thesis using that s1(1) by blast
qed

lemma sfits_cut: "sfits V s ts k (ms @ ns) b \<Longrightarrow> l \<le> k \<Longrightarrow> sfits V s ts l ms 0"
  using sfits_part [of V s ts l "k - l" ms ns 0 b] by simp

lemma done_if:
  assumes "ops_ok e" "list_done V ss"
  shows "stmt_done V (CIf e ss)"
proof (rule stmt_doneI)
  fix s ts m
  let ?st = "CIf e ss" and ?C = "cg_expr (slot V) e" and ?B = "cg_stmts (slot V) None ss"
  assume h: "sfits V s (rend_stmt ?st @ ts) (len_s ?st) (names_s ?st) (breaks_s ?st)" "cur_kind ts \<noteq> KElse" "good s"
    "at_tok s (rend_stmt ?st @ ts)" "went s s (rend_stmt ?st @ ts) [] [] []" "clen s + len_s ?st \<le> 3976"
    "length (rend_stmt ?st @ ts) < Suc m"
  have k: "c_tok s = KIf" using at_tok_kind [OF h(4)] by (simp add: cur_kind_def)
  obtain s1 s2 where s2: "c_expr (Suc m) (next_token s) = Some s1" "emit_je s1 = (clen s + len_e e + 5, s2)"
    "went s s2 (CT KLBrace # rend_stmts ss @ CT KRBrace # ts) (?C @ je_code 0) (names_e e) []"
    by (rule went_cond [of s KIf e "rend_stmts ss @ CT KRBrace # ts" V "rend_stmt ?st @ ts" m])
      (use h assms(1) sfits_cut [of V s _ "len_e e + 9 + len_ss ss" "names_e e" "names_ss ss" "breaks_ss ss" "len_e e"] in simp_all)
  obtain s3 where s3: "c_block (Suc m) (c_stmt (Suc m)) s2 = Some s3"
    "went s s3 ts ((?C @ je_code 0) @ ?B) (names_e e @ names_ss ss) ([] @ sites_list (clen s + length (?C @ je_code 0)) ss)"
    by (rule went_block [OF s2(3) assms(2), of "rend_stmt ?st @ ts" "Suc m"]) (use h in simp_all)
  have n: "c_tok s3 \<noteq> KElse" using at_tok_kind [OF wentD(1) [OF s3(2)]] h(2) by simp
  have l: "clen s3 = clen s + len_e e + 9 + len_ss ss" using went_len [OF s3(2) h(3)] by simp
  let ?s' = "patch32 (clen s + len_e e + 5) (rel32 (clen s + len_e e + 5) (clen s3)) s3"
  have "went s ?s' ts (?C @ je_code (int (len_ss ss)) @ ?B) (names_e e @ names_ss ss) (sites_list (clen s + len_e e + 9) ss)"
    by (rule went_patch_je [OF _ h(3)]) (use s3(2) l in \<open>simp_all add: add.assoc\<close>)
  then show "\<exists>s'. c_stmt (Suc (Suc m)) s = Some s' \<and> went s s' ts (cg_stmt (slot V) None ?st) (names_s ?st) (sites (clen s) ?st)"
    using k s2(1,2) s3(1) n by (simp add: c_if_def cg_simps Let_def del: c_expr.simps c_stmt.simps(2)) (simp add: c_if_def del: c_expr.simps)
qed

lemma done_loop:
  assumes "list_done V ss"
  shows "stmt_done V (CLoop ss)"
proof (rule stmt_doneI)
  fix s ts m
  let ?st = "CLoop ss" and ?B = "cg_stmts (slot V) None ss"
  assume h: "sfits V s (rend_stmt ?st @ ts) (len_s ?st) (names_s ?st) (breaks_s ?st)" "good s"
    "at_tok s (rend_stmt ?st @ ts)" "went s s (rend_stmt ?st @ ts) [] [] []" "clen s + len_s ?st \<le> 3976"
    "length (rend_stmt ?st @ ts) < Suc m"
  have k: "c_tok s = KLoop" using at_tok_kind [OF h(3)] by (simp add: cur_kind_def)
  have w1: "went s (next_token s) (CT KLBrace # rend_stmts ss @ CT KRBrace # ts) [] [] []"
    by (rule went_advance [of _ _ "CT KLoop"]) (use h(4) in simp)
  have e1: "clen (next_token s) = clen s" "breaks (next_token s) = breaks s"
    using went_len [OF w1 h(2)] w1 by (simp_all add: went_def)
  obtain s2 where s2: "c_block (Suc m) (c_stmt (Suc m)) (next_token s) = Some s2"
    "went s s2 ts ([] @ ?B) ([] @ names_ss ss) ([] @ sites_list (clen s + length ([] :: bytes)) ss)"
    by (rule went_block [OF w1 assms, of "rend_stmt ?st @ ts" "Suc m"])
      (use h sfits_part [of V s _ "len_ss ss" 5 "names_ss ss" "[]" _ 0] in simp_all)
  obtain s3 where s3: "emit_jmp s2 = (clen s + len_ss ss + 1, s3)"
    "went s s3 ts (([] @ ?B) @ jmp_code 0) ([] @ names_ss ss) ([] @ sites_list (clen s + length ([] :: bytes)) ss)"
    by (rule went_jmp [OF s2(2) h(2)]) (use h(5) in simp_all)
  let ?s4 = "patch32 (clen s + len_ss ss + 1) (rel32 (clen s + len_ss ss + 1) (clen s)) s3"
  have s4: "went s ?s4 ts (?B @ jmp_code (- int (len_ss ss + 5)) @ []) (names_ss ss) (sites_list (clen s) ss)"
    by (rule went_patch_jmp [OF _ h(2)]) (use s3(2) in simp_all)
  have l: "clen ?s4 = clen s + len_ss ss + 5" using went_len [OF s4 h(2)] by simp
  have "went s (close_breaks (length (breaks s)) (clen ?s4) ?s4) ts ([] @ cg_stmts (slot V) (Some 5) ss @ jmp_code (- int (len_ss ss + 5)))
      (names_ss ss) []"
    by (rule went_close [OF _ h(2)]) (use s4 l in simp_all)
  then show "\<exists>s'. c_stmt (Suc (Suc m)) s = Some s' \<and> went s s' ts (cg_stmt (slot V) None ?st) (names_s ?st) (sites (clen s) ?st)"
    using k s2(1) s3(1) by (simp add: cg_simps) (simp add: c_loop_stmt_def Let_def e1)
qed

lemma done_if_else:
  assumes "ops_ok e" "list_done V ss" "list_done V us"
  shows "stmt_done V (CIfElse e ss us)"
proof (rule stmt_doneI)
  fix s :: comp and ts m
  let ?st = "CIfElse e ss us" and ?C = "cg_expr (slot V) e" and ?B = "cg_stmts (slot V) None ss" and ?E = "cg_stmts (slot V) None us"
  let ?ns = "names_e e @ names_ss ss" and ?tail = "CT KElse # CT KLBrace # rend_stmts us @ CT KRBrace # ts"
  let ?B1 = "sites_list (clen s + len_e e + 9) ss"
  assume h: "sfits V s (rend_stmt ?st @ ts) (len_s ?st) (names_s ?st) (breaks_s ?st)" "good s"
    "at_tok s (rend_stmt ?st @ ts)" "went s s (rend_stmt ?st @ ts) [] [] []" "clen s + len_s ?st \<le> 3976"
    "length (rend_stmt ?st @ ts) < Suc m"
  have k: "c_tok s = KIf" using at_tok_kind [OF h(3)] by (simp add: cur_kind_def)
  obtain s1 s2 where s2: "c_expr (Suc m) (next_token s) = Some s1" "emit_je s1 = (clen s + len_e e + 5, s2)"
    "went s s2 (CT KLBrace # rend_stmts ss @ CT KRBrace # ?tail) (?C @ je_code 0) (names_e e) []"
    by (rule went_cond [of s KIf e "rend_stmts ss @ CT KRBrace # ?tail" V "rend_stmt ?st @ ts" m])
      (use h assms(1) sfits_cut [of V s _ "len_s ?st" "names_e e" "names_ss ss @ names_ss us" "breaks_s ?st" "len_e e"] in simp_all)
  obtain s3 where s3: "c_block (Suc m) (c_stmt (Suc m)) s2 = Some s3"
    "went s s3 ?tail ((?C @ je_code 0) @ ?B) ?ns ([] @ sites_list (clen s + length (?C @ je_code 0)) ss)"
    by (rule went_block [OF s2(3) assms(2), of "rend_stmt ?st @ ts" "Suc m"])
      (use h sfits_part [of V s _ "len_e e + 9 + len_ss ss" "5 + len_ss us" ?ns "names_ss us" "breaks_ss ss" "breaks_ss us"]
        in \<open>simp_all add: add.assoc\<close>)
  have n: "c_tok s3 = KElse" using at_tok_kind [OF wentD(1) [OF s3(2)]] by (simp add: cur_kind_def)
  have w4: "went s (next_token s3) (CT KLBrace # rend_stmts us @ CT KRBrace # ts) (?C @ je_code 0 @ ?B) ?ns ?B1"
    using went_advance [OF s3(2)] by (simp add: add.assoc)
  obtain s5 where s5: "emit_jmp (next_token s3) = (clen s + len_e e + 9 + len_ss ss + 1, s5)"
    "went s s5 (CT KLBrace # rend_stmts us @ CT KRBrace # ts) ((?C @ je_code 0 @ ?B) @ jmp_code 0) ?ns ?B1"
    by (rule went_jmp [OF w4 h(2)]) (use h(5) in simp_all)
  have l5: "clen s5 = clen s + len_e e + 9 + len_ss ss + 5" using went_len [OF s5(2) h(2)] by simp
  let ?s6 = "patch32 (clen s + len_e e + 5) (rel32 (clen s + len_e e + 5) (clen s5)) s5"
  have s6: "went s ?s6 (CT KLBrace # rend_stmts us @ CT KRBrace # ts)
      (?C @ je_code (int (len_ss ss) + 5) @ ?B @ jmp_code 0) ?ns ?B1"
    by (rule went_patch_je [OF _ h(2)]) (use s5(2) l5 in simp_all)
  let ?X = "?C @ je_code (int (len_ss ss) + 5) @ ?B @ jmp_code 0"
  have lX: "length ?X = len_e e + 9 + len_ss ss + 5" by simp
  obtain s7 where s7: "c_block (Suc m) (c_stmt (Suc m)) ?s6 = Some s7"
    "went s s7 ts (?X @ ?E) (?ns @ names_ss us) (?B1 @ sites_list (clen s + length ?X) us)"
    by (rule went_block [OF s6 assms(3), of "rend_stmt ?st @ ts" "Suc m"])
      (use h sites_count(2) [of "clen s + len_e e + 9" ss] in \<open>simp_all add: sfits_def\<close>)
  have l7: "clen s7 = clen s + len_e e + 9 + len_ss ss + 5 + len_ss us" using went_len [OF s7(2) h(2)] by simp
  let ?s8 = "patch32 (clen s + len_e e + 9 + len_ss ss + 1) (rel32 (clen s + len_e e + 9 + len_ss ss + 1) (clen s7)) s7"
  have "went s ?s8 ts ((?C @ je_code (int (len_ss ss) + 5) @ ?B) @ jmp_code (int (len_ss us)) @ ?E) (?ns @ names_ss us)
      (?B1 @ sites_list (clen s + length ?X) us)"
    by (rule went_patch_jmp [OF _ h(2)]) (use s7(2) l7 in simp_all)
  then show "\<exists>s'. c_stmt (Suc (Suc m)) s = Some s' \<and> went s s' ts (cg_stmt (slot V) None ?st) (names_s ?st) (sites (clen s) ?st)"
    using k s2(1,2) s3(1) n s5(1) s7(1)
    by (simp add: cg_simps lX add.assoc del: c_expr.simps c_stmt.simps(2)) (simp add: c_if_def Let_def del: c_expr.simps)
qed

lemma done_while:
  assumes "ops_ok e" "list_done V ss"
  shows "stmt_done V (CWhile e ss)"
proof (rule stmt_doneI)
  fix s ts m
  let ?st = "CWhile e ss" and ?C = "cg_expr (slot V) e" and ?B = "cg_stmts (slot V) None ss"
  let ?ns = "names_e e @ names_ss ss" and ?dist = "- int (len_e e + len_ss ss + 14)"
  assume h: "sfits V s (rend_stmt ?st @ ts) (len_s ?st) (names_s ?st) (breaks_s ?st)" "good s"
    "at_tok s (rend_stmt ?st @ ts)" "went s s (rend_stmt ?st @ ts) [] [] []" "clen s + len_s ?st \<le> 3976"
    "length (rend_stmt ?st @ ts) < Suc m"
  have k: "c_tok s = KWhile" using at_tok_kind [OF h(3)] by (simp add: cur_kind_def)
  have e1: "clen (next_token s) = clen s"
    using went_len [OF went_advance [of s s "CT KWhile"] h(2)] h(4) by simp
  obtain s1 s2 where s2: "c_expr (Suc m) (next_token s) = Some s1" "emit_je s1 = (clen s + len_e e + 5, s2)"
    "went s s2 (CT KLBrace # rend_stmts ss @ CT KRBrace # ts) (?C @ je_code 0) (names_e e) []"
    by (rule went_cond [of s KWhile e "rend_stmts ss @ CT KRBrace # ts" V "rend_stmt ?st @ ts" m])
      (use h assms(1) sfits_cut [of V s _ "len_s ?st" "names_e e" "names_ss ss" "breaks_s ?st" "len_e e"] in simp_all)
  have b2: "breaks s2 = breaks s" using s2(3) by (simp add: went_def)
  obtain s3 where s3: "c_block (Suc m) (c_stmt (Suc m)) s2 = Some s3"
    "went s s3 ts ((?C @ je_code 0) @ ?B) ?ns ([] @ sites_list (clen s + length (?C @ je_code 0)) ss)"
    by (rule went_block [OF s2(3) assms(2), of "rend_stmt ?st @ ts" "Suc m"])
      (use h sfits_part [of V s _ "len_e e + 9 + len_ss ss" 5 ?ns "[]" "breaks_ss ss" 0] in simp_all)
  obtain s4 where s4: "emit_jmp s3 = (clen s + len_e e + 9 + len_ss ss + 1, s4)"
    "went s s4 ts (((?C @ je_code 0) @ ?B) @ jmp_code 0) ?ns ([] @ sites_list (clen s + length (?C @ je_code 0)) ss)"
    by (rule went_jmp [OF s3(2) h(2)]) (use h(5) in simp_all)
  let ?s5 = "patch32 (clen s + len_e e + 9 + len_ss ss + 1) (rel32 (clen s + len_e e + 9 + len_ss ss + 1) (clen s)) s4"
  have s5: "went s ?s5 ts ((?C @ je_code 0 @ ?B) @ jmp_code ?dist @ []) ?ns (sites_list (clen s + len_e e + 9) ss)"
    by (rule went_patch_jmp [OF _ h(2)]) (use s4(2) in \<open>simp_all add: add.assoc\<close>)
  have l5: "clen ?s5 = clen s + len_e e + 9 + len_ss ss + 5" using went_len [OF s5 h(2)] by simp
  let ?s6 = "patch32 (clen s + len_e e + 5) (rel32 (clen s + len_e e + 5) (clen ?s5)) ?s5"
  have s6: "went s ?s6 ts (?C @ je_code (int (len_ss ss) + 5) @ ?B @ jmp_code ?dist) ?ns (sites_list (clen s + len_e e + 9) ss)"
    by (rule went_patch_je [OF _ h(2)]) (use s5 l5 in simp_all)
  have "went s (close_breaks (length (breaks s)) (clen ?s5) ?s6) ts
      ((?C @ je_code (int (len_ss ss) + 5)) @ cg_stmts (slot V) (Some 5) ss @ jmp_code ?dist) ?ns []"
    by (rule went_close [OF _ h(2)]) (use s6 l5 in \<open>simp_all add: add.assoc\<close>)
  then show "\<exists>s'. c_stmt (Suc (Suc m)) s = Some s' \<and> went s s' ts (cg_stmt (slot V) None ?st) (names_s ?st) (sites (clen s) ?st)"
    using k s2(1,2) s3(1) s4(1) b2
    by (simp add: cg_simps del: c_expr.simps c_stmt.simps(2)) (simp add: c_while_stmt_def Let_def e1 del: c_expr.simps)
qed

lemma stmts_done:
  "stmt_ok st \<Longrightarrow> stmt_done V st" "stmts_ok ss \<Longrightarrow> list_done V ss"
  by (induction st and ss rule: len_s_len_ss.induct)
    (simp_all add: done_skip done_let done_print done_if done_if_else done_while done_loop done_break list_done_Nil list_done_Cons)

section \<open>Whole programs\<close>

lemma rend_ok: "stmts_ok ss \<Longrightarrow> list_all tok_ok (rend_stmts ss)"
proof -
  have e: "ops_ok e \<Longrightarrow> list_all tok_ok (rend p e)" for p e
  proof (induction p e rule: rend.induct)
    case (4 p op a b)
    then have "op \<notin> {KEof, KNum, KIdent}" by (cases op) (simp_all add: lvl_def mul_emitters_def add_emitters_def cmp_emitters_def)
    then show ?case using 4 by (simp add: Let_def)
  qed simp_all
  have "stmt_ok st \<Longrightarrow> list_all tok_ok (rend_stmt st)" "stmts_ok us \<Longrightarrow> list_all tok_ok (rend_stmts us)" for st us
    by (induction st and us rule: len_s_len_ss.induct) (simp_all add: e)
  then show "stmts_ok ss \<Longrightarrow> list_all tok_ok (rend_stmts ss)" by blast
qed

text \<open>The compiler's state before the first statement.\<close>

lemma program_start:
  assumes "list_all tok_ok ts" "length buf = 4096"
  defines "t \<equiv> next_token (emit_prologue (comp_new (tok_text ts) buf))"
  shows "at_tok t ts" "good t" "code_of t = prologue_code" "clen t = 11" "names_of t = []" "breaks t = []"
proof -
  let ?s = "comp_new (tok_text ts) buf"
  have g: "good ?s" and c0: "code_of ?s = []" and n0: "names_of ?s = []"
    using assms(2) by (simp_all add: good_def comp_new_def code_of_def names_of_def)
  have cl: "clen ?s = 0" by (simp add: comp_new_def)
  have "wrote (((([] @ [0x55]) @ [0x48, 0x89, 0xE5]) @ [0x48, 0x81, 0xEC]) @ to_le 4 FRAME_BYTES) ?s
     (emit_bytes (to_le 4 FRAME_BYTES) (emit_bytes [0x48, 0x81, 0xEC] (emit_bytes [0x48, 0x89, 0xE5] (emit_bytes [0x55] ?s))))"
    by (rule wrote_more [OF wrote_more [OF wrote_more [OF wrote_more [OF wrote_nil [OF g] g] g] g] g]) (use cl in simp_all)
  moreover have "to_le 4 FRAME_BYTES = [0, 1, 0, 0]" by code_simp
  ultimately have p: "wrote prologue_code ?s (emit_prologue ?s)"
    by (simp add: emit_prologue_def prologue_code_def emit_u32_def) (simp add: emit_bytes_def)
  note pf = wrote_fields [OF p]
  have "drop (c_pos (emit_prologue ?s)) (c_src (emit_prologue ?s)) = tok_text ts"
    by (simp add: pf) (simp add: comp_new_def)
  from next_at_tok [OF this assms(1)] have nx: "at_tok t ts" "same_out (emit_prologue ?s) t" by (simp_all add: t_def)
  show "at_tok t ts" by (rule nx)
  show "good t" "code_of t = prologue_code" "clen t = 11" "names_of t = []" "breaks t = []"
    using nx(2) pf c0 wrote_len [OF p g] cl name_at_src [of t "emit_prologue ?s"]
    by (simp_all add: same_out_def good_def code_of_def names_of_def comp_new_def prologue_code_def)
qed

lemma program_compiled:
  assumes "stmts_ok ss" "length (add_names [] (names_ss ss)) \<le> 32" "breaks_ss ss \<le> 32" "length (program_code ss) \<le> 3976"
    "length buf = 4096" "length (rend_stmts ss) + 1 < n"
  shows "\<exists>c. c_program n (comp_new (source_of ss) buf) = Some c \<and> c_err c = 0 \<and> length (ELF_BUF c) = 4096 \<and>
    clen c = length (program_code ss) \<and> take (clen c) (drop 120 (ELF_BUF c)) = program_code ss"
proof -
  let ?s = "comp_new (source_of ss) buf" and ?V = "add_names [] (names_ss ss)"
  have len: "length (program_code ss) = 11 + len_ss ss + 9" by (simp add: program_code_def prologue_code_def exit_code_def)
  let ?t = "next_token (emit_prologue ?s)"
  note gt = program_start [OF rend_ok [OF assms(1)] assms(5), folded source_of_def]
  let ?cond = "\<lambda>s. c_tok s \<noteq> KEof \<and> c_err s = 0"
  have st: "stops ?cond []" unfolding stops_def using at_tok_kind by (auto simp: cur_kind_def starters_def good_def)
  have f: "sfits ?V ?t (rend_stmts ss @ []) (len_ss ss) (names_ss ss) (breaks_ss ss)"
    using gt assms(2-4) len by (simp add: sfits_def)
  have "length ss < n" using assms(6) rend_length [of ss] by simp
  then obtain s1 where s1: "c_while n ?cond (c_stmt n) ?t = Some s1"
    "went ?t s1 [] (cg_stmts (slot ?V) None ss) (names_ss ss) (sites_list 11 ss)"
    using stmts_done(2) [OF assms(1), of ?V] f st assms(6) gt(4) unfolding list_done_def by fastforce
  have "went ?t (emit_exit s1) [] (((cg_stmts (slot ?V) None ss @ [0x31, 0xFF]) @ [0xB8, 6, 0, 0, 0]) @ [0x0F, 0x05]) (names_ss ss) (sites_list 11 ss)"
    unfolding emit_exit_def
    by (rule went_emit [OF went_emit [OF went_emit [OF s1(2) gt(2)] gt(2)] gt(2)]) (use assms(4) len gt(4) in simp_all)
  then have w: "went ?t (emit_exit s1) [] (cg_stmts (slot ?V) None ss @ exit_code) (names_ss ss) (sites_list 11 ss)"
    by (simp add: exit_code_def)
  have ce: "code_of (emit_exit s1) = program_code ss" "good (emit_exit s1)"
    using w gt(3) by (simp_all add: went_def program_code_def)
  moreover have "c_program n ?s = Some (emit_exit s1)" using s1(1) by (simp add: c_program_def)
  ultimately show ?thesis using length_code_of [OF ce(2)] by (auto simp: good_def code_of_def)
qed

lemma drop_put_at: "i + length bs \<le> k \<Longrightarrow> k \<le> length buf \<Longrightarrow> drop k (put_at buf i bs) = drop k buf"
  by (simp add: put_at_def)

lemma drop_puts:
  fixes ws :: "(nat \<times> bytes) list"
  shows "list_all (\<lambda>w. fst w + length (snd w) \<le> k) ws \<Longrightarrow> k \<le> length buf \<Longrightarrow> drop k (puts ws buf) = drop k buf"
proof (induction ws arbitrary: buf)
  case (Cons w ws)
  then show ?case by (cases w) (simp add: drop_put_at)
qed simp

text \<open>The headers, as the loader reads them.\<close>

lemma image_fields:
  assumes "length buf = 4096" "n < 2 ^ 64"
  defines "img \<equiv> write_elf_headers n buf"
  shows "header_ok (header_of_bytes (take 64 img))" "h_entry (header_of_bytes (take 64 img)) = LOAD_VADDR + 120"
    "phoff (header_of_bytes (take 64 img)) = 64" "phnum (header_of_bytes (take 64 img)) = 1"
    "p_type (phdr_of_bytes (take 56 (drop 64 img))) = 1" "p_flags (phdr_of_bytes (take 56 (drop 64 img))) = 7"
    "p_offset (phdr_of_bytes (take 56 (drop 64 img))) = 0" "p_vaddr (phdr_of_bytes (take 56 (drop 64 img))) = LOAD_VADDR"
    "unat (p_filesz (phdr_of_bytes (take 56 (drop 64 img)))) = n" "unat (p_memsz (phdr_of_bytes (take 56 (drop 64 img)))) = n"
    "drop 120 img = drop 120 buf"
proof -
  define ws :: "(nat \<times> bytes) list" where "ws = ([(0, [0x7F, 0x45, 0x4C, 0x46]), (4, [2]), (5, [1]), (6, [1]), (7, replicate 9 0),
        (16, to_le 2 (2 :: u16)), (18, to_le 2 (0x3E :: u16)), (20, to_le 4 (1 :: u32)),
        (24, to_le 8 (LOAD_VADDR + word_of_nat CODE_OFF)), (32, to_le 8 (word_of_nat HDR_SIZE :: u64)), (40, to_le 8 (0 :: u64)),
        (48, to_le 4 (0 :: u32)), (52, to_le 2 (word_of_nat HDR_SIZE :: u16)), (54, to_le 2 (word_of_nat PHDR_SIZE :: u16)),
        (56, to_le 2 (1 :: u16)), (58, to_le 2 (0 :: u16)), (60, to_le 2 (0 :: u16)), (62, to_le 2 (0 :: u16))] @
       [(64, to_le 4 (1 :: u32)), (68, to_le 4 (7 :: u32)), (72, to_le 8 (0 :: u64)),
        (80, to_le 8 LOAD_VADDR), (88, to_le 8 LOAD_VADDR), (96, to_le 8 (word_of_nat n :: u64)),
        (104, to_le 8 (word_of_nat n :: u64)), (112, to_le 8 (0x1000 :: u64))])"
  have img: "img = puts ws buf" by (simp add: img_def write_elf_headers_def ws_def)
  have inr: "list_all (\<lambda>v. fst v + length (snd v) \<le> length buf) ws" unfolding assms(1) by (simp add: ws_def)
  have sl: "take (length bs) (drop i img) = bs" if "survives (i, bs) ws" for i bs
    unfolding img using that by (rule slice_puts [OF inr])
  have fl: "field img i k = (w :: 'a::len word)" if "survives (i, to_le k w) ws" "LENGTH('a) \<le> 8 * k" for i k w
    unfolding img using that by (rule field_puts [OF inr])
  have f: "field img 18 2 = (0x3E :: u16)" "field img 24 8 = LOAD_VADDR + word_of_nat CODE_OFF" "field img 32 8 = (word_of_nat HDR_SIZE :: u64)"
    "field img 54 2 = (word_of_nat PHDR_SIZE :: u16)" "field img 56 2 = (1 :: u16)" "field img 64 4 = (1 :: u32)" "field img 68 4 = (7 :: u32)"
    "field img 72 8 = (0 :: u64)" "field img 80 8 = LOAD_VADDR" "field img 96 8 = (word_of_nat n :: u64)" "field img 104 8 = (word_of_nat n :: u64)"
    by (rule fl; simp add: ws_def apart_def)+
  have four: "length [0x7F, 0x45, 0x4C, 0x46 :: u8] = 4" by simp
  have s1: "take 4 img = [0x7F, 0x45, 0x4C, 0x46]"
    using sl [of 0 "[0x7F, 0x45, 0x4C, 0x46]"] unfolding four drop_0 by (simp add: ws_def apart_def)
  have s2: "take 1 (drop 4 img) = [2]" using sl [of 4 "[2]"] by (simp add: ws_def apart_def)
  have l: "length img = 4096" unfolding img using length_puts [OF inr] assms(1) by simp
  have i4: "img ! 4 = 2" using s2 l by (simp add: take_Suc_conv_app_nth [of 0] hd_drop_conv_nth [symmetric])
  show "header_ok (header_of_bytes (take 64 img))"
    using f s1 i4 l by (simp add: header_ok_def header_of_bytes_def field_take)
  show "h_entry (header_of_bytes (take 64 img)) = LOAD_VADDR + 120" "phoff (header_of_bytes (take 64 img)) = 64"
    "phnum (header_of_bytes (take 64 img)) = 1" using f by (simp_all add: header_of_bytes_def field_take)
  show "p_type (phdr_of_bytes (take 56 (drop 64 img))) = 1" "p_flags (phdr_of_bytes (take 56 (drop 64 img))) = 7"
    "p_offset (phdr_of_bytes (take 56 (drop 64 img))) = 0" "p_vaddr (phdr_of_bytes (take 56 (drop 64 img))) = LOAD_VADDR"
    using f by (simp_all add: phdr_of_bytes_def field_take field_drop)
  show "unat (p_filesz (phdr_of_bytes (take 56 (drop 64 img)))) = n" "unat (p_memsz (phdr_of_bytes (take 56 (drop 64 img)))) = n"
    using f assms(2) by (simp_all add: phdr_of_bytes_def field_take field_drop)
  show "drop 120 img = drop 120 buf" unfolding img by (rule drop_puts) (simp_all add: ws_def assms(1))
qed

text \<open>
  C18: the compiler. The text of every program with at most 32 variables and 32 jumps out of loops, whose code fits the buffer,
  compiles, and the image is accepted by the ELF loader as one segment of all its bytes; its entry point is the first byte of
  the program's code, in which all jumps have their distances.
\<close>

theorem barrelc_compiles:
  assumes "stmts_ok ss" "length (add_names [] (names_ss ss)) \<le> 32" "breaks_ss ss \<le> 32" "length (program_code ss) \<le> 3976"
    "length buf = 4096" "length (rend_stmts ss) + 1 < n"
  shows "\<exists>img. let total_len = 120 + length (program_code ss); hdr = header_of_bytes (take 64 img); ph = phdr_of_bytes (take 56 (drop 64 img))
    in c_compile n (source_of ss) buf = Some (Inr total_len, img) \<and>
      header_ok hdr \<and> h_entry hdr = p_vaddr ph + 120 \<and> phoff hdr = 64 \<and> phnum hdr = 1 \<and>
      p_type ph = 1 \<and> p_flags ph = 7 \<and> p_offset ph = 0 \<and> unat (p_filesz ph) = total_len \<and> unat (p_memsz ph) = total_len \<and>
      take (length (program_code ss)) (drop 120 img) = program_code ss"
proof -
  obtain c where c: "c_program n (comp_new (source_of ss) buf) = Some c" "c_err c = 0" "length (ELF_BUF c) = 4096"
    "clen c = length (program_code ss)" "take (clen c) (drop 120 (ELF_BUF c)) = program_code ss"
    using program_compiled [OF assms] by blast
  have n: "120 + clen c < 2 ^ 64" using assms(4) c(4) by simp
  note f = image_fields [OF c(3) n]
  have "take (length (program_code ss)) (drop 120 (write_elf_headers (120 + clen c) (ELF_BUF c))) = program_code ss"
    using f(11) c(4,5) by simp
  moreover have "c_compile n (source_of ss) buf = Some (Inr (120 + clen c), write_elf_headers (120 + clen c) (ELF_BUF c))"
    using c(1,2) by (simp add: c_compile_def Let_def)
  ultimately show ?thesis using f c(4) by (intro exI [of _ "write_elf_headers (120 + clen c) (ELF_BUF c)"]) (simp add: Let_def)
qed

definition countdown :: "cstmt list" where
  "countdown = [CLet (bytes_of ''x'') (CNum 3),
     CWhile (CBin KGt (CVar (bytes_of ''x'')) (CNum 0))
       [CPrint True (CBin KStar (CVar (bytes_of ''x'')) (CBin KPlus (CVar (bytes_of ''x'')) (CNum 1))),
        CIf (CBin KEqEq (CVar (bytes_of ''x'')) (CNum 2)) [CBreak],
        CLet (bytes_of ''x'') (CBin KMinus (CVar (bytes_of ''x'')) (CNum 1))]]"

lemma countdown_ok:
  "stmts_ok countdown" "length (add_names [] (names_ss countdown)) \<le> 32" "breaks_ss countdown \<le> 32" "length (rend_stmts countdown) + 1 < 60"
  by code_simp+

lemma countdown_length: "length (program_code countdown) = 217"
  by (simp add: program_code_def countdown_def prologue_code_def exit_code_def print_code_def op_code_def cmp_code_def)

theorem barrelc_compiles_witness:
  "\<exists>img. c_compile 60 (source_of countdown) (replicate 4096 0) = Some (Inr 337, img) \<and>
     take 217 (drop 120 img) = program_code countdown"
  using barrelc_compiles [OF countdown_ok(1-3), of "replicate 4096 0" 60] countdown_ok(4) countdown_length by (simp add: Let_def) metis

text \<open>A loop that continues where another one stops.\<close>

lemma c_while_continues:
  assumes "c_while k cond body s = Some s'" "\<And>s. cond s \<Longrightarrow> cond' s"
  shows "c_while j cond' body s = None \<or> (\<exists>i. c_while j cond' body s = c_while i cond' body s')"
  using assms(1)
proof (induction k arbitrary: s j)
  case (Suc k)
  show ?case
  proof (cases "cond s")
    case True
    then obtain t where t: "body s = Some t" "c_while k cond body t = Some s'" using Suc.prems by (cases "body s") auto
    show ?thesis
    proof (cases j)
      case (Suc j')
      then show ?thesis using Suc.IH [OF t(2), of j'] t(1) assms(2) [OF True] by simp
    qed simp
  next
    case False
    then show ?thesis using Suc.prems by auto
  qed
qed simp

lemma stays_at_brace: "c_tok s = KRBrace \<Longrightarrow> c_err s = 0 \<Longrightarrow> c_while i (\<lambda>s. c_tok s \<noteq> KEof \<and> c_err s = 0) (c_stmt n) s = None"
proof (induction i)
  case (Suc i)
  have "c_stmt n s = None \<or> c_stmt n s = Some s" using Suc.prems by (cases n) simp_all
  then show ?case using Suc by auto
qed simp

text \<open>
  C32: a closing brace at the top level is not rejected and not passed over. Whatever well-formed program stands before it and
  whatever follows, the compiler never returns, however many steps it is given.
\<close>

theorem barrelc_stray_brace_hangs:
  assumes "stmts_ok ss" "list_all tok_ok ts" "length (add_names [] (names_ss ss)) \<le> 32" "breaks_ss ss \<le> 32"
    "length (program_code ss) \<le> 3976" "length buf = 4096" "length (rend_stmts ss) + length ts + 2 < n"
  shows "c_compile n (tok_text (rend_stmts ss @ CT KRBrace # ts)) buf = None"
proof -
  let ?ts = "rend_stmts ss @ CT KRBrace # ts" and ?V = "add_names [] (names_ss ss)"
  have len: "length (program_code ss) = 11 + len_ss ss + 9" by (simp add: program_code_def prologue_code_def exit_code_def)
  have ok: "list_all tok_ok ?ts" using rend_ok [OF assms(1)] assms(2) by simp
  let ?t = "next_token (emit_prologue (comp_new (tok_text ?ts) buf))"
  note gt = program_start [OF ok assms(6)]
  let ?block = "\<lambda>s. c_tok s \<noteq> KRBrace \<and> c_tok s \<noteq> KEof \<and> c_err s = 0" and ?top = "\<lambda>s. c_tok s \<noteq> KEof \<and> c_err s = 0"
  have st: "stops ?block (CT KRBrace # ts)" unfolding stops_def using at_tok_kind by (auto simp: cur_kind_def starters_def good_def)
  have f: "sfits ?V ?t ?ts (len_ss ss) (names_ss ss) (breaks_ss ss)" using gt assms(3-5) len by (simp add: sfits_def)
  have "length ss < n" using assms(7) rend_length [of ss] by simp
  then obtain s1 where s1: "c_while n ?block (c_stmt n) ?t = Some s1"
    "went ?t s1 (CT KRBrace # ts) (cg_stmts (slot ?V) None ss) (names_ss ss) (sites_list 11 ss)"
    using stmts_done(2) [OF assms(1), of ?V] f st assms(7) gt(4) unfolding list_done_def by fastforce
  have "c_tok s1 = KRBrace" "c_err s1 = 0" using s1(2) at_tok_kind [of s1 "CT KRBrace # ts"] by (simp_all add: went_def good_def cur_kind_def)
  from stays_at_brace [OF this] c_while_continues [OF s1(1), of ?top n] have "c_while n ?top (c_stmt n) ?t = None" by auto
  then show ?thesis by (simp add: c_compile_def c_program_def)
qed

theorem barrelc_stray_brace_hangs_witness:
  "c_compile 200 (tok_text (rend_stmts countdown @ [CT KRBrace, CT KSemi])) (replicate 4096 0) = None"
  by (rule barrelc_stray_brace_hangs [OF countdown_ok(1)])
    (use countdown_ok countdown_length in simp_all)

end
