(* ===== verification/Barrelrun.thy ===== *)
theory Barrelrun
  imports Barrelprog
begin

unbundle bit_operations_syntax

text \<open>
  What the compiled programs do. The processor's side is a model of the few x86-64 instructions that the compiler emits:
  fetched from the bytes of the code, decoded, and executed on registers and memory. A flag is only known after an
  instruction that sets it on purpose, so nothing can rest on a stale one. The language's side is the meaning of the syntax
  trees of \<open>Barrelcode\<close>. The theorem is that the code of a program prints what its meaning says and exits.
\<close>

section \<open>The meaning of programs\<close>

type_synonym store = "bytes \<Rightarrow> u64"

definition op_value :: "tk \<Rightarrow> u64 \<Rightarrow> u64 \<Rightarrow> u64" where
  "op_value op a b =
     (if op = KStar then a * b else if op = KSlash then (if b = 0 then 0 else a div b)
      else if op = KPlus then a + b else if op = KMinus then a - b
      else of_bool (if op = KEqEq then a = b else if op = KNe then a \<noteq> b else if op = KLt then a < b
        else if op = KLe then a \<le> b else if op = KGt then a > b else a \<ge> b))"

fun value_of :: "store \<Rightarrow> cexpr \<Rightarrow> u64" where
  "value_of \<rho> (CNum v) = v"
| "value_of \<rho> (CVar x) = \<rho> x"
| "value_of \<rho> (CNeg a) = - value_of \<rho> a"
| "value_of \<rho> (CBin op a b) = op_value op (value_of \<rho> a) (value_of \<rho> b)"

text \<open>
  The store and the numbers printed so far, each with its newline. The first result tells whether a \<open>break\<close> is on its way;
  \<open>l\<close> whether there is a loop around. A \<open>break\<close> outside of all loops does nothing.
\<close>

type_synonym progress = "store \<times> (u64 \<times> bool) list"

fun means :: "nat \<Rightarrow> bool \<Rightarrow> cstmt \<Rightarrow> progress \<Rightarrow> (bool \<times> progress) option"
  and mean :: "nat \<Rightarrow> bool \<Rightarrow> cstmt list \<Rightarrow> progress \<Rightarrow> (bool \<times> progress) option" where
  "means 0 l st \<sigma> = None"
| "means (Suc n) l CSkip \<sigma> = Some (False, \<sigma>)"
| "means (Suc n) l (CLet x e) \<sigma> = Some (False, (fst \<sigma>)(x := value_of (fst \<sigma>) e), snd \<sigma>)"
| "means (Suc n) l (CPrint nl e) \<sigma> = Some (False, fst \<sigma>, snd \<sigma> @ [(value_of (fst \<sigma>) e, nl)])"
| "means (Suc n) l (CIf e ss) \<sigma> = (if value_of (fst \<sigma>) e \<noteq> 0 then mean n l ss \<sigma> else Some (False, \<sigma>))"
| "means (Suc n) l (CIfElse e ss ts) \<sigma> = (if value_of (fst \<sigma>) e \<noteq> 0 then mean n l ss \<sigma> else mean n l ts \<sigma>)"
| "means (Suc n) l (CWhile e ss) \<sigma> =
     (if value_of (fst \<sigma>) e \<noteq> 0
      then case mean n True ss \<sigma> of
          None \<Rightarrow> None
        | Some (b, \<sigma>') \<Rightarrow> if b then Some (False, \<sigma>') else means n l (CWhile e ss) \<sigma>'
      else Some (False, \<sigma>))"
| "means (Suc n) l (CLoop ss) \<sigma> =
     (case mean n True ss \<sigma> of
        None \<Rightarrow> None
      | Some (b, \<sigma>') \<Rightarrow> if b then Some (False, \<sigma>') else means n l (CLoop ss) \<sigma>')"
| "means (Suc n) l CBreak \<sigma> = Some (l, \<sigma>)"
| "mean 0 l ss \<sigma> = None"
| "mean (Suc n) l [] \<sigma> = Some (False, \<sigma>)"
| "mean (Suc n) l (s # ss) \<sigma> =
     (case means n l s \<sigma> of
        None \<Rightarrow> None
      | Some (b, \<sigma>') \<Rightarrow> if b then Some (True, \<sigma>') else mean n l ss \<sigma>')"

section \<open>The processor\<close>

datatype cc = CE | CNE | CB | CBE | CA | CAE

datatype ins =
    IMovImm u64 | ILoad u32 | IStore u32 | IPush | IPop | IMovRcx | IAdd | ISub | IMul | INeg | ICmp | ISet cc | IMovzx
  | ITestRax | ITestRcx | IXorEdx | IDiv | IXorEax | IJe u32 | IJmp u32 | IMovRdi | IMovEsi u32 | IXorEsi | IXorEdi | IMovEax u32
  | ISyscall | IPushRbp | IMovRbp | ISubRsp u32

text \<open>Opcode bytes, the number of bytes of the immediate operand, and the instruction.\<close>

definition opcodes :: "(bytes \<times> nat \<times> (bytes \<Rightarrow> ins)) list" where
  "opcodes =
    [([0x48, 0xB8], 8, IMovImm \<circ> from_le), ([0x48, 0x8B, 0x85], 4, ILoad \<circ> from_le), ([0x48, 0x89, 0x85], 4, IStore \<circ> from_le),
     ([0x50], 0, \<lambda>_. IPush), ([0x58], 0, \<lambda>_. IPop), ([0x48, 0x89, 0xC1], 0, \<lambda>_. IMovRcx), ([0x48, 0x01, 0xC8], 0, \<lambda>_. IAdd),
     ([0x48, 0x29, 0xC8], 0, \<lambda>_. ISub), ([0x48, 0x0F, 0xAF, 0xC1], 0, \<lambda>_. IMul), ([0x48, 0xF7, 0xD8], 0, \<lambda>_. INeg),
     ([0x48, 0x39, 0xC8], 0, \<lambda>_. ICmp), ([0x0F, 0x94, 0xC0], 0, \<lambda>_. ISet CE), ([0x0F, 0x95, 0xC0], 0, \<lambda>_. ISet CNE),
     ([0x0F, 0x92, 0xC0], 0, \<lambda>_. ISet CB), ([0x0F, 0x96, 0xC0], 0, \<lambda>_. ISet CBE), ([0x0F, 0x97, 0xC0], 0, \<lambda>_. ISet CA),
     ([0x0F, 0x93, 0xC0], 0, \<lambda>_. ISet CAE), ([0x48, 0x0F, 0xB6, 0xC0], 0, \<lambda>_. IMovzx), ([0x48, 0x85, 0xC0], 0, \<lambda>_. ITestRax),
     ([0x48, 0x85, 0xC9], 0, \<lambda>_. ITestRcx), ([0x31, 0xD2], 0, \<lambda>_. IXorEdx), ([0x48, 0xF7, 0xF1], 0, \<lambda>_. IDiv),
     ([0x31, 0xC0], 0, \<lambda>_. IXorEax), ([0x0F, 0x84], 4, IJe \<circ> from_le), ([0xE9], 4, IJmp \<circ> from_le),
     ([0x48, 0x89, 0xC7], 0, \<lambda>_. IMovRdi), ([0xBE], 4, IMovEsi \<circ> from_le), ([0x31, 0xF6], 0, \<lambda>_. IXorEsi),
     ([0x31, 0xFF], 0, \<lambda>_. IXorEdi), ([0xB8], 4, IMovEax \<circ> from_le), ([0x0F, 0x05], 0, \<lambda>_. ISyscall), ([0x55], 0, \<lambda>_. IPushRbp),
     ([0x48, 0x89, 0xE5], 0, \<lambda>_. IMovRbp), ([0x48, 0x81, 0xEC], 4, ISubRsp \<circ> from_le)]"

definition decode :: "bytes \<Rightarrow> (ins \<times> nat) option" where
  "decode bs =
     (case find (\<lambda>(p, _). take (length p) bs = p) opcodes of
        None \<Rightarrow> None
      | Some (p, k, f) \<Rightarrow>
          let arg = take k (drop (length p) bs) in if length arg < k then None else Some (f arg, length p + k))"

record mach =
  ip :: nat
  rax :: u64
  rcx :: u64
  rdx :: u64
  rdi :: u64
  rsi :: u64
  rsp :: u64
  rbp :: u64
  fl :: "(bool \<times> bool) option"
  ram :: memory
  printed :: "(u64 \<times> bool) list"

text \<open>The zero and the carry flag.\<close>

fun holds :: "cc \<Rightarrow> bool \<times> bool \<Rightarrow> bool" where
  "holds CE (z, c) = z"
| "holds CNE (z, c) = (\<not> z)"
| "holds CB (z, c) = c"
| "holds CBE (z, c) = (c \<or> z)"
| "holds CA (z, c) = (\<not> c \<and> \<not> z)"
| "holds CAE (z, c) = (\<not> c)"

definition jump :: "u32 \<Rightarrow> mach \<Rightarrow> mach option" where
  "jump d m = (let t = int (ip m) + sint d in if t < 0 then None else Some (m\<lparr>ip := nat t\<rparr>))"

definition push :: "u64 \<Rightarrow> mach \<Rightarrow> mach" where
  "push v m = m\<lparr>rsp := rsp m - 8, ram := write_u64 (ram m) (rsp m - 8) v\<rparr>"

text \<open>
  What the kernel leaves in the registers that a system call may change. Call 32 prints the number in \<open>rdi\<close>, with a newline
  when \<open>rsi\<close> is not zero; call 6 does not return.
\<close>

type_synonym kernel_regs = "mach \<Rightarrow> u64 \<times> u64 \<times> u64 \<times> u64 \<times> u64"

definition call :: "kernel_regs \<Rightarrow> mach \<Rightarrow> mach option" where
  "call K m =
     (if rax m = 32
      then case K m of (a, c, d, i, j) \<Rightarrow>
        Some (m\<lparr>rax := a, rcx := c, rdx := d, rdi := i, rsi := j, fl := None, printed := printed m @ [(rdi m, rsi m \<noteq> 0)]\<rparr>)
      else None)"

fun exec_ins :: "kernel_regs \<Rightarrow> ins \<Rightarrow> mach \<Rightarrow> mach option" where
  "exec_ins K (IMovImm v) m = Some (m\<lparr>rax := v\<rparr>)"
| "exec_ins K (ILoad d) m = Some (m\<lparr>rax := read_u64 (ram m) (rbp m + scast d)\<rparr>)"
| "exec_ins K (IStore d) m = Some (m\<lparr>ram := write_u64 (ram m) (rbp m + scast d) (rax m)\<rparr>)"
| "exec_ins K IPush m = Some (push (rax m) m)"
| "exec_ins K IPop m = Some (m\<lparr>rax := read_u64 (ram m) (rsp m), rsp := rsp m + 8\<rparr>)"
| "exec_ins K IMovRcx m = Some (m\<lparr>rcx := rax m\<rparr>)"
| "exec_ins K IAdd m = Some (m\<lparr>rax := rax m + rcx m, fl := None\<rparr>)"
| "exec_ins K ISub m = Some (m\<lparr>rax := rax m - rcx m, fl := None\<rparr>)"
| "exec_ins K IMul m = Some (m\<lparr>rax := rax m * rcx m, fl := None\<rparr>)"
| "exec_ins K INeg m = Some (m\<lparr>rax := - rax m, fl := None\<rparr>)"
| "exec_ins K ICmp m = Some (m\<lparr>fl := Some (rax m = rcx m, rax m < rcx m)\<rparr>)"
| "exec_ins K (ISet c) m =
     (case fl m of None \<Rightarrow> None | Some f \<Rightarrow> Some (m\<lparr>rax := (rax m AND NOT 0xFF) OR of_bool (holds c f)\<rparr>))"
| "exec_ins K IMovzx m = Some (m\<lparr>rax := rax m AND 0xFF\<rparr>)"
| "exec_ins K ITestRax m = Some (m\<lparr>fl := Some (rax m AND rax m = 0, False)\<rparr>)"
| "exec_ins K ITestRcx m = Some (m\<lparr>fl := Some (rcx m AND rcx m = 0, False)\<rparr>)"
| "exec_ins K IXorEdx m = Some (m\<lparr>rdx := 0, fl := None\<rparr>)"
| "exec_ins K IDiv m =
     (let n = uint (rdx m) * 2 ^ 64 + uint (rax m); d = uint (rcx m)
      in if d = 0 \<or> n div d \<ge> 2 ^ 64 then None else Some (m\<lparr>rax := word_of_int (n div d), rdx := word_of_int (n mod d), fl := None\<rparr>))"
| "exec_ins K IXorEax m = Some (m\<lparr>rax := 0, fl := None\<rparr>)"
| "exec_ins K (IJe d) m = (case fl m of None \<Rightarrow> None | Some (z, c) \<Rightarrow> if z then jump d m else Some m)"
| "exec_ins K (IJmp d) m = jump d m"
| "exec_ins K IMovRdi m = Some (m\<lparr>rdi := rax m\<rparr>)"
| "exec_ins K (IMovEsi v) m = Some (m\<lparr>rsi := ucast v\<rparr>)"
| "exec_ins K IXorEsi m = Some (m\<lparr>rsi := 0, fl := None\<rparr>)"
| "exec_ins K IXorEdi m = Some (m\<lparr>rdi := 0, fl := None\<rparr>)"
| "exec_ins K (IMovEax v) m = Some (m\<lparr>rax := ucast v\<rparr>)"
| "exec_ins K ISyscall m = call K m"
| "exec_ins K IPushRbp m = Some (push (rbp m) m)"
| "exec_ins K IMovRbp m = Some (m\<lparr>rbp := rsp m\<rparr>)"
| "exec_ins K (ISubRsp v) m = Some (m\<lparr>rsp := rsp m - scast v, fl := None\<rparr>)"

text \<open>One instruction, and several.\<close>

definition cpu_step :: "kernel_regs \<Rightarrow> bytes \<Rightarrow> mach \<Rightarrow> mach option" where
  "cpu_step K code m =
     (case decode (drop (ip m) code) of None \<Rightarrow> None | Some (i, k) \<Rightarrow> exec_ins K i (m\<lparr>ip := ip m + k\<rparr>))"

fun cpu_steps :: "kernel_regs \<Rightarrow> bytes \<Rightarrow> nat \<Rightarrow> mach \<Rightarrow> mach option" where
  "cpu_steps K code 0 m = Some m"
| "cpu_steps K code (Suc n) m = (case cpu_step K code m of None \<Rightarrow> None | Some m' \<Rightarrow> cpu_steps K code n m')"

text \<open>The program asks the kernel to end it, with this exit code.\<close>

definition exits :: "bytes \<Rightarrow> mach \<Rightarrow> u64 \<Rightarrow> bool" where
  "exits code m v \<longleftrightarrow> decode (drop (ip m) code) = Some (ISyscall, 2) \<and> rax m = 6 \<and> rdi m = v"

section \<open>Assembling\<close>

fun imm_of :: "ins \<Rightarrow> bytes" where
  "imm_of (IMovImm v) = to_le 8 v"
| "imm_of (ILoad d) = to_le 4 d"
| "imm_of (IStore d) = to_le 4 d"
| "imm_of (IJe d) = to_le 4 d"
| "imm_of (IJmp d) = to_le 4 d"
| "imm_of (IMovEsi d) = to_le 4 d"
| "imm_of (IMovEax d) = to_le 4 d"
| "imm_of (ISubRsp d) = to_le 4 d"
| "imm_of i = []"

text \<open>The bytes of an instruction: its first row of the table that has its shape.\<close>

definition enc :: "ins \<Rightarrow> bytes" where
  "enc i = (case find (\<lambda>(p, k, f). k = length (imm_of i) \<and> f (imm_of i) = i) opcodes of None \<Rightarrow> [] | Some (p, _) \<Rightarrow> p) @ imm_of i"

lemmas enc_simps = enc_def opcodes_def

lemma decode_enc: "decode (enc i @ rest) = Some (i, length (enc i))"
proof (cases i)
  case (ISet c)
  then show ?thesis by (cases c) (simp_all add: decode_def enc_simps)
qed (simp_all add: decode_def enc_simps)
lemma enc_bytes:
  "enc (IMovImm v) = [0x48, 0xB8] @ to_le 8 v" "enc (ILoad d) = [0x48, 0x8B, 0x85] @ to_le 4 d"
  "enc (IStore d) = [0x48, 0x89, 0x85] @ to_le 4 d" "enc IPush = [0x50]" "enc IPop = [0x58]" "enc IMovRcx = [0x48, 0x89, 0xC1]"
  "enc IAdd = [0x48, 0x01, 0xC8]" "enc ISub = [0x48, 0x29, 0xC8]" "enc IMul = [0x48, 0x0F, 0xAF, 0xC1]"
  "enc INeg = [0x48, 0xF7, 0xD8]" "enc ICmp = [0x48, 0x39, 0xC8]" "enc IMovzx = [0x48, 0x0F, 0xB6, 0xC0]"
  "enc ITestRax = [0x48, 0x85, 0xC0]" "enc ITestRcx = [0x48, 0x85, 0xC9]" "enc IXorEdx = [0x31, 0xD2]" "enc IDiv = [0x48, 0xF7, 0xF1]"
  "enc IXorEax = [0x31, 0xC0]" "enc (IJe d) = [0x0F, 0x84] @ to_le 4 d" "enc (IJmp d) = [0xE9] @ to_le 4 d"
  "enc IMovRdi = [0x48, 0x89, 0xC7]" "enc (IMovEsi d) = [0xBE] @ to_le 4 d" "enc IXorEsi = [0x31, 0xF6]" "enc IXorEdi = [0x31, 0xFF]"
  "enc (IMovEax d) = [0xB8] @ to_le 4 d" "enc ISyscall = [0x0F, 0x05]" "enc IPushRbp = [0x55]" "enc IMovRbp = [0x48, 0x89, 0xE5]"
  "enc (ISubRsp d) = [0x48, 0x81, 0xEC] @ to_le 4 d"
  "enc (ISet CE) = [0x0F, 0x94, 0xC0]" "enc (ISet CNE) = [0x0F, 0x95, 0xC0]" "enc (ISet CB) = [0x0F, 0x92, 0xC0]"
  "enc (ISet CBE) = [0x0F, 0x96, 0xC0]" "enc (ISet CA) = [0x0F, 0x97, 0xC0]" "enc (ISet CAE) = [0x0F, 0x93, 0xC0]"
  by (simp_all add: enc_simps)

lemma enc_lengths [simp]:
  "length (enc (IMovImm v)) = 10" "length (enc (ILoad d)) = 7" "length (enc (IStore d)) = 7" "length (enc IPush) = 1"
  "length (enc IPop) = 1" "length (enc IMovRcx) = 3" "length (enc IAdd) = 3" "length (enc ISub) = 3" "length (enc IMul) = 4"
  "length (enc INeg) = 3" "length (enc ICmp) = 3" "length (enc IMovzx) = 4" "length (enc ITestRax) = 3" "length (enc ITestRcx) = 3"
  "length (enc IXorEdx) = 2" "length (enc IDiv) = 3" "length (enc IXorEax) = 2" "length (enc (IJe d)) = 6" "length (enc (IJmp d)) = 5"
  "length (enc IMovRdi) = 3" "length (enc (IMovEsi d)) = 5" "length (enc IXorEsi) = 2" "length (enc IXorEdi) = 2"
  "length (enc (IMovEax d)) = 5" "length (enc ISyscall) = 2" "length (enc IPushRbp) = 1" "length (enc IMovRbp) = 3"
  "length (enc (ISubRsp d)) = 7" "length (enc (ISet c)) = 3"
  by (simp_all add: enc_bytes) (cases c; simp add: enc_bytes)

text \<open>Code as a list of instructions.\<close>

definition asm :: "ins list \<Rightarrow> bytes" where
  "asm is = concat (map enc is)"

lemma asm_simps [simp]: "asm [] = []" "asm (i # is) = enc i @ asm is" "asm (is @ js) = asm is @ asm js"
  by (simp_all add: asm_def)

definition cc_of :: "tk \<Rightarrow> cc" where
  "cc_of op = (if op = KEqEq then CE else if op = KNe then CNE else if op = KLt then CB else if op = KLe then CBE
     else if op = KGt then CA else CAE)"

definition op_ins :: "tk \<Rightarrow> ins list" where
  "op_ins op = (if op = KStar then [IMul]
     else if op = KSlash then [ITestRcx, IJe (word_of_int 10), IXorEdx, IDiv, IJmp (word_of_int 2), IXorEax]
     else if op = KPlus then [IAdd] else if op = KMinus then [ISub] else [ICmp, ISet (cc_of op), IMovzx])"

lemma op_code_ins: "lvl op < 3 \<Longrightarrow> op_code op = asm (op_ins op)"
  by (cases op) (simp_all add: op_code_def op_ins_def cc_of_def enc_bytes div_code_def cmp_code_def lvl_def
    mul_emitters_def add_emitters_def cmp_emitters_def)

definition code_at :: "bytes \<Rightarrow> nat \<Rightarrow> bytes \<Rightarrow> bool" where
  "code_at code p c \<longleftrightarrow> (\<exists>rest. drop p code = c @ rest)"

lemma code_at_append [simp]: "code_at code p (c @ c') \<longleftrightarrow> code_at code p c \<and> code_at code (p + length c) c'"
proof
  assume "code_at code p (c @ c')"
  then obtain r where r: "drop p code = c @ c' @ r" by (auto simp: code_at_def)
  then have "drop (p + length c) code = c' @ r" by (metis add.commute append_eq_conv_conj drop_drop)
  then show "code_at code p c \<and> code_at code (p + length c) c'" using r by (auto simp: code_at_def)
next
  assume "code_at code p c \<and> code_at code (p + length c) c'"
  then obtain r r' where r: "drop p code = c @ r" "drop (p + length c) code = c' @ r'" by (auto simp: code_at_def)
  then have "r = c' @ r'" by (metis add.commute append_eq_conv_conj drop_drop)
  then show "code_at code p (c @ c')" using r(1) by (auto simp: code_at_def)
qed

definition goes :: "kernel_regs \<Rightarrow> bytes \<Rightarrow> mach \<Rightarrow> mach \<Rightarrow> bool" where
  "goes K code m m' \<longleftrightarrow> (\<exists>n. cpu_steps K code n m = Some m')"

lemma goes_refl [simp]: "goes K code m m"
  unfolding goes_def by (rule exI [of _ 0]) simp

lemma cpu_steps_add: "cpu_steps K code (i + j) m = (case cpu_steps K code i m of None \<Rightarrow> None | Some m' \<Rightarrow> cpu_steps K code j m')"
  by (induction i arbitrary: m) (simp_all split: option.split)

lemma goes_trans [trans]: "goes K code m m' \<Longrightarrow> goes K code m' m'' \<Longrightarrow> goes K code m m''"
  unfolding goes_def by (metis cpu_steps_add option.simps(5))

lemma goes_ins:
  assumes "code_at code (ip m) (enc i)" "exec_ins K i (m\<lparr>ip := ip m + length (enc i)\<rparr>) = Some m'"
  shows "goes K code m m'"
proof -
  obtain r where "drop (ip m) code = enc i @ r" using assms(1) by (auto simp: code_at_def)
  then have "cpu_steps K code (Suc 0) m = Some m'" using assms(2) by (simp add: cpu_step_def decode_enc)
  then show ?thesis unfolding goes_def by blast
qed

lemma goes_asm:
  assumes "code_at code (ip m) (asm (i # is))" "exec_ins K i (m\<lparr>ip := ip m + length (enc i)\<rparr>) = Some m1"
    "goes K code m1 m'"
  shows "goes K code m m'"
  using goes_trans [OF goes_ins [OF _ assms(2)] assms(3)] assms(1) by simp

section \<open>The frame\<close>

text \<open>The stack below \<open>B\<close> in cells: the locals in cells 1 to 32, what is pushed below them.\<close>

definition cell :: "u64 \<Rightarrow> mach \<Rightarrow> nat \<Rightarrow> u64" where
  "cell B m k = read_u64 (ram m) (B - 8 * word_of_nat k)"

lemma cell_write:
  assumes "j < 2 ^ 32" "k < 2 ^ 32"
  shows "read_u64 (write_u64 M (B - 8 * word_of_nat k) v) (B - 8 * word_of_nat j) =
    (if j = k then v else read_u64 M (B - 8 * word_of_nat j))"
proof (cases "j = k")
  case True
  then show ?thesis by (simp add: read_write_u64)
next
  case False
  let ?d = "(B - 8 * word_of_nat k) - (B - 8 * word_of_nat j) :: u64"
  have d: "?d = word_of_int (8 * int j - 8 * int k)" by (simp add: algebra_simps)
  define N where "N = unat ?d"
  have u: "int N = (8 * int j - 8 * int k) mod 2 ^ 64"
    unfolding N_def d using uint_word_of_int [where 'a = 64, of "8 * int j - 8 * int k"] by (simp only: uint_nat [symmetric] len_bit0 len_num1 mult_1_right) simp
  have jk: "int j < 4294967296" "int k < 4294967296" using assms by simp_all
  have "8 \<le> N \<and> N + 8 \<le> 2 ^ 64"
  proof (cases "k < j")
    case True
    then have "(8 * int j - 8 * int k) mod 2 ^ 64 = 8 * int j - 8 * int k" using jk by (intro mod_pos_pos_trivial) simp_all
    then show ?thesis using u True jk by simp
  next
    case lt: False
    have "(8 * int j - 8 * int k) mod 2 ^ 64 = (8 * int j - 8 * int k + 2 ^ 64) mod 2 ^ 64" by simp
    also have "\<dots> = 8 * int j - 8 * int k + 2 ^ 64" using lt False jk by (intro mod_pos_pos_trivial) simp_all
    finally show ?thesis using u lt False jk by simp
  qed
  then show ?thesis using False read_write_u64_apart [of "B - 8 * word_of_nat k" "B - 8 * word_of_nat j"] by (simp add: N_def)
qed

lemma slot_disp_cell: "i < 32 \<Longrightarrow> (B :: u64) + scast (slot_disp i) = B - 8 * word_of_nat (Suc i)"
proof -
  have "list_all (\<lambda>i. (scast (slot_disp i) :: u64) = - (8 * word_of_nat (Suc i))) [0..<32]" by code_simp
  then show "i < 32 \<Longrightarrow> (B :: u64) + scast (slot_disp i) = B - 8 * word_of_nat (Suc i)"
    by (simp only: list_all_iff set_upt atLeast0LessThan lessThan_iff Ball_def) (simp only: add_uminus_conv_diff)
qed

text \<open>What an operator keeps, and what an expression keeps: everything above the top of the stack, cell \<open>d\<close>.\<close>

definition keeps :: "mach \<Rightarrow> mach \<Rightarrow> bool" where
  "keeps m m' \<longleftrightarrow> rbp m' = rbp m \<and> rsp m' = rsp m \<and> ram m' = ram m \<and> printed m' = printed m"

definition calm :: "u64 \<Rightarrow> nat \<Rightarrow> mach \<Rightarrow> mach \<Rightarrow> bool" where
  "calm B d m m' \<longleftrightarrow> rbp m' = rbp m \<and> rsp m' = rsp m \<and> printed m' = printed m \<and> (\<forall>k\<le>d. cell B m' k = cell B m k)"

lemma keeps_calm: "keeps m m' \<Longrightarrow> calm B d m m'"
  by (simp add: keeps_def calm_def cell_def)

lemma calm_trans: "calm B d m m' \<Longrightarrow> calm B d m' m'' \<Longrightarrow> calm B d m m''"
  by (simp add: calm_def)

section \<open>Expressions\<close>

lemma low_part: "(\<And>n. bit y n \<Longrightarrow> bit f n) \<Longrightarrow> ((x AND NOT f) OR y) AND f = (y :: u64)"
  by (rule bit_word_eqI) (auto simp: bit_and_iff bit_or_iff bit_not_iff)

lemma set_low: "((x AND NOT 0xFF) OR of_bool b) AND 0xFF = (of_bool b :: u64)"
  by (rule low_part) (cases b; auto simp: bit_1_iff)

lemma set_low_cases: "((x AND - 256) OR 1) AND 255 = (1 :: u64)" "(x AND - 256) AND 255 = (0 :: u64)"
  using set_low [of x True] set_low [of x False] by simp_all

lemma small_jumps: "sint (word_of_int 10 :: u32) = 10" "sint (word_of_int 2 :: u32) = 2" "sint (word_of_int 0 :: u32) = 0"
  by simp_all

lemma div_ok:
  fixes a c :: u64
  assumes "c \<noteq> 0"
  shows "\<not> (uint c = 0 \<or> uint a div uint c \<ge> 2 ^ 64) \<and> word_of_int (uint a div uint c) = a div c"
proof -
  have c: "uint c > 0" using assms by (metis uint_0_iff uint_ge_0 order_less_le)
  have "uint a div uint c \<le> uint a" using zdiv_mono2 [of "uint a" 1 "uint c"] c by simp
  then have "uint a div uint c < 2 ^ 64" using uint_lt2p [of a] by simp
  then show ?thesis using c by (simp add: word_div_def)
qed

lemma op_runs:
  assumes "lvl op < 3" "code_at code (ip m) (op_code op)"
  shows "\<exists>m'. goes K code m m' \<and> ip m' = ip m + length (op_code op) \<and> rax m' = op_value op (rax m) (rcx m) \<and> keeps m m'"
proof -
  have c: "code_at code (ip m) (asm (op_ins op))" "length (op_code op) = length (asm (op_ins op))"
    using assms by (simp_all add: op_code_ins)
  show ?thesis
  proof (cases "op = KSlash")
    case True
    let ?fin = "ip m + length (op_code op)"
    let ?z = "m\<lparr>ip := ?fin, rax := 0, fl := None\<rparr>"
    let ?q = "m\<lparr>ip := ?fin, rax := rax m div rcx m, rdx := word_of_int (uint (rax m) mod uint (rcx m)), fl := None\<rparr>"
    have l: "length (op_code op) = 21" using c(2) True by (simp add: op_ins_def)
    have "code_at code (ip m) (asm [ITestRcx, IJe (word_of_int 10), IXorEdx, IDiv, IJmp (word_of_int 2), IXorEax])"
      using c(1) True by (simp add: op_ins_def)
    then have a: "code_at code (ip m) (enc ITestRcx)" "code_at code (ip m + 3) (enc (IJe (word_of_int 10)))"
      "code_at code (ip m + 9) (enc IXorEdx)" "code_at code (ip m + 11) (enc IDiv)" "code_at code (ip m + 14) (enc (IJmp (word_of_int 2)))"
      "code_at code (ip m + 19) (enc IXorEax)"
      by (simp_all add: add.commute)
    show ?thesis
    proof (cases "rcx m = 0")
      case zero: True
      let ?m1 = "m\<lparr>ip := ip m + 3, fl := Some (True, False)\<rparr>" and ?m2 = "m\<lparr>ip := ip m + 19, fl := Some (True, False)\<rparr>"
      have "goes K code m ?m1" by (rule goes_ins [OF a(1)]) (simp add: zero)
      moreover have "goes K code ?m1 ?m2" by (rule goes_ins [of _ _ "IJe (word_of_int 10)"]) (use a in \<open>simp_all add: jump_def small_jumps\<close>)
      moreover have "goes K code ?m2 ?z" by (rule goes_ins [of _ _ IXorEax]) (use a in \<open>simp_all add: l\<close>)
      ultimately have "goes K code m ?z" by (blast intro: goes_trans)
      then show ?thesis using True zero by (intro exI [of _ ?z]) (simp add: op_value_def keeps_def)
    next
      case nz: False
      let ?m1 = "m\<lparr>ip := ip m + 3, fl := Some (False, False)\<rparr>" and ?m2 = "m\<lparr>ip := ip m + 9, fl := Some (False, False)\<rparr>"
      let ?m3 = "m\<lparr>ip := ip m + 11, rdx := 0, fl := None\<rparr>" and ?m4 = "?q\<lparr>ip := ip m + 14\<rparr>"
      have "goes K code m ?m1" by (rule goes_ins [OF a(1)]) (simp add: nz)
      moreover have "goes K code ?m1 ?m2" by (rule goes_ins [of _ _ "IJe (word_of_int 10)"]) (use a in simp_all)
      moreover have "goes K code ?m2 ?m3" by (rule goes_ins [of _ _ IXorEdx]) (use a in simp_all)
      moreover have "goes K code ?m3 ?m4" by (rule goes_ins [of _ _ IDiv]) (use a div_ok [OF nz, of "rax m"] in simp_all)
      moreover have "goes K code ?m4 ?q"
        by (rule goes_ins [of _ _ "IJmp (word_of_int 2)"]) (use a in \<open>simp_all add: jump_def small_jumps l\<close>)
      ultimately have "goes K code m ?q" by (blast intro: goes_trans)
      then show ?thesis using True nz by (intro exI [of _ ?q]) (simp add: op_value_def keeps_def)
    qed
  next
    case False
    show ?thesis
    proof (cases "op \<in> {KStar, KPlus, KMinus}")
      case True
      let ?i = "hd (op_ins op)"
      let ?m = "m\<lparr>ip := ip m + length (enc ?i), rax := op_value op (rax m) (rcx m), fl := None\<rparr>"
      have i: "op_ins op = [?i]" using True by (auto simp: op_ins_def)
      have "exec_ins K ?i (m\<lparr>ip := ip m + length (enc ?i)\<rparr>) = Some ?m"
        using True by (elim insertE emptyE) (simp_all add: op_ins_def op_value_def)
      moreover have "code_at code (ip m) (enc ?i)" "length (op_code op) = length (enc ?i)"
        using c arg_cong [OF i, of asm] by simp_all
      ultimately have "goes K code m ?m" "length (op_code op) = length (enc ?i)" using goes_ins [of code m ?i] by simp_all
      then show ?thesis by (intro exI [of _ ?m]) (simp add: keeps_def)
    next
      case other: False
      then have il: "op_ins op = [ICmp, ISet (cc_of op), IMovzx]" using False by (simp add: op_ins_def)
      let ?v = "holds (cc_of op) (rax m = rcx m, rax m < rcx m)"
      have v: "of_bool ?v = op_value op (rax m) (rcx m)"
        using other False assms(1) by (cases op) (auto simp: op_value_def cc_of_def lvl_def mul_emitters_def add_emitters_def cmp_emitters_def)
      let ?m = "m\<lparr>ip := ip m + length (op_code op), rax := of_bool ?v, fl := Some (rax m = rcx m, rax m < rcx m)\<rparr>"
      have a: "code_at code (ip m) (enc ICmp)" "code_at code (ip m + 3) (enc (ISet (cc_of op)))" "code_at code (ip m + 6) (enc IMovzx)"
        using c(1) il by (simp_all add: add.commute)
      let ?m1 = "m\<lparr>ip := ip m + 3, fl := Some (rax m = rcx m, rax m < rcx m)\<rparr>"
      let ?m2 = "?m1\<lparr>ip := ip m + 6, rax := (rax m AND NOT 0xFF) OR of_bool ?v\<rparr>"
      have "goes K code m ?m1" by (rule goes_ins [OF a(1)]) simp
      moreover have "goes K code ?m1 ?m2" by (rule goes_ins [of _ _ "ISet (cc_of op)"]) (use a in simp_all)
      moreover have "goes K code ?m2 ?m" by (rule goes_ins [of _ _ IMovzx]) (use a c(2) il in \<open>simp_all add: set_low_cases\<close>)
      ultimately have "goes K code m ?m" by (blast intro: goes_trans)
      then show ?thesis using v by (intro exI [of _ ?m]) (simp add: keeps_def)
    qed
  qed
qed

lemma expr_runs:
  assumes "ops_ok e" "\<forall>x\<in>set (names_e e). \<sigma> x < 32 \<and> cell B m (Suc (\<sigma> x)) = \<rho> x" "code_at code (ip m) (cg_expr \<sigma> e)"
    "rbp m = B" "rsp m = B - 8 * word_of_nat d" "32 \<le> d" "d + len_e e < 2 ^ 32"
  shows "\<exists>m'. goes K code m m' \<and> ip m' = ip m + len_e e \<and> rax m' = value_of \<rho> e \<and> calm B d m m'"
  using assms
proof (induction e arbitrary: m d)
  case (CNum v)
  let ?m = "m\<lparr>ip := ip m + 10, rax := v\<rparr>"
  have "goes K code m ?m" by (rule goes_ins [of _ _ "IMovImm v"]) (use CNum.prems(3) in \<open>simp_all add: enc_bytes\<close>)
  then show ?case by (intro exI [of _ ?m]) (simp add: calm_def cell_def)
next
  case (CVar x)
  let ?m = "m\<lparr>ip := ip m + 7, rax := \<rho> x\<rparr>"
  have a: "read_u64 (ram m) (rbp m + scast (slot_disp (\<sigma> x))) = \<rho> x"
    using CVar.prems(2) unfolding CVar.prems(4) by (simp only: slot_disp_cell cell_def names_e.simps list.set ball_simps)
  have "goes K code m ?m" by (rule goes_ins [of _ _ "ILoad (slot_disp (\<sigma> x))"]) (use a CVar.prems(3) in \<open>simp_all add: enc_bytes\<close>)
  then show ?case by (intro exI [of _ ?m]) (simp add: calm_def cell_def)
next
  case (CNeg a)
  obtain m1 where m1: "goes K code m m1" "ip m1 = ip m + len_e a" "rax m1 = value_of \<rho> a" "calm B d m m1"
    using CNeg.IH [of m d] CNeg.prems by auto
  let ?m = "m1\<lparr>ip := ip m1 + 3, rax := - rax m1, fl := None\<rparr>"
  have "goes K code m1 ?m" by (rule goes_ins [of _ _ INeg]) (use CNeg.prems(3) m1(2) in \<open>simp_all add: enc_bytes\<close>)
  with m1(1) have "goes K code m ?m" by (rule goes_trans)
  then show ?case using m1 by (intro exI [of _ ?m]) (simp add: calm_def cell_def)
next
  case (CBin op a b)
  have "cg_expr \<sigma> (CBin op a b) = cg_expr \<sigma> a @ enc IPush @ cg_expr \<sigma> b @ enc IMovRcx @ enc IPop @ op_code op"
    by (simp add: enc_bytes)
  then have at: "code_at code (ip m) (cg_expr \<sigma> a)" "code_at code (ip m + len_e a) (enc IPush)"
    "code_at code (ip m + len_e a + 1) (cg_expr \<sigma> b)" "code_at code (ip m + len_e a + 1 + len_e b) (enc IMovRcx)"
    "code_at code (ip m + len_e a + 1 + len_e b + 3) (enc IPop)" "code_at code (ip m + len_e a + 1 + len_e b + 4) (op_code op)"
    using CBin.prems(3) by (simp_all add: add.assoc del: cg_expr.simps)
  obtain m1 where m1: "goes K code m m1" "ip m1 = ip m + len_e a" "rax m1 = value_of \<rho> a" "calm B d m m1"
    using CBin.IH(1) [of m d] CBin.prems at(1) by auto
  let ?m2 = "push (rax m1) (m1\<lparr>ip := ip m1 + 1\<rparr>)"
  have s: "rsp m1 - 8 = B - 8 * word_of_nat (Suc d)" using m1(4) CBin.prems(5) by (simp add: calm_def)
  have c2: "cell B ?m2 k = (if k = Suc d then rax m1 else cell B m1 k)" if "k \<le> Suc d" for k
    using cell_write [of k "Suc d"] that CBin.prems(7) by (simp add: cell_def push_def s)
  have "goes K code m1 ?m2" by (rule goes_ins [of _ _ IPush]) (use at(2) m1(2) in simp_all)
  with m1(1) have g2: "goes K code m ?m2" by (rule goes_trans)
  have r2: "rbp ?m2 = B" "rsp ?m2 = B - 8 * word_of_nat (Suc d)" "ip ?m2 = ip m + len_e a + 1" "printed ?m2 = printed m"
    using m1 CBin.prems(4) s by (simp_all add: calm_def push_def)
  have v2: "\<forall>x\<in>set (names_e b). \<sigma> x < 32 \<and> cell B ?m2 (Suc (\<sigma> x)) = \<rho> x"
  proof
    fix x assume x: "x \<in> set (names_e b)"
    then have "\<sigma> x < 32" "cell B m (Suc (\<sigma> x)) = \<rho> x" using CBin.prems(2) by simp_all
    moreover from this have "Suc (\<sigma> x) \<le> d" using CBin.prems(6) by simp
    ultimately show "\<sigma> x < 32 \<and> cell B ?m2 (Suc (\<sigma> x)) = \<rho> x"
      using c2 [of "Suc (\<sigma> x)"] m1(4) by (simp add: calm_def del: push_def)
  qed
  have "ops_ok b" "32 \<le> Suc d" "Suc d + len_e b < 2 ^ 32" using CBin.prems(1,6,7) by simp_all
  from CBin.IH(2) [OF this(1) v2 _ r2(1,2) this(2,3)] at(3) r2(3)
  obtain m3 where m3: "goes K code ?m2 m3" "ip m3 = ip m + len_e a + 1 + len_e b" "rax m3 = value_of \<rho> b" "calm B (Suc d) ?m2 m3"
    by auto
  let ?m4 = "m3\<lparr>ip := ip m3 + 3, rcx := rax m3\<rparr>"
  let ?m5 = "?m4\<lparr>ip := ip m3 + 4, rax := value_of \<rho> a, rsp := rsp m\<rparr>"
  have top: "read_u64 (ram m3) (rsp m3) = value_of \<rho> a" "rsp m3 + 8 = rsp m"
    using m3(4) c2 [of "Suc d"] m1(3) r2(2) CBin.prems(5) by (auto simp: calm_def cell_def)
  have "goes K code m3 ?m4" by (rule goes_ins [of _ _ IMovRcx]) (use at(4) m3(2) in simp_all)
  moreover have "goes K code ?m4 ?m5" by (rule goes_ins [of _ _ IPop]) (use at(5) m3(2) top in simp_all)
  ultimately have g5: "goes K code m ?m5" using g2 m3(1) by (blast intro: goes_trans)
  obtain m' where m': "goes K code ?m5 m'" "ip m' = ip ?m5 + length (op_code op)" "rax m' = op_value op (value_of \<rho> a) (value_of \<rho> b)"
    "keeps ?m5 m'"
    using op_runs [of op code ?m5 K] CBin.prems(1) at(6) m3(2,3) by auto
  have "cell B m' k = cell B m k" if "k \<le> d" for k
    using m'(4) m3(4) c2 [of k] m1(4) that by (simp add: keeps_def calm_def cell_def)
  then have "calm B d m m'" using m'(4) m3(4) r2 m1(4) by (simp add: keeps_def calm_def push_def)
  then show ?case using goes_trans [OF g5 m'(1)] m'(2,3) m3(2) by (intro exI [of _ m']) simp
qed

section \<open>Statements\<close>

text \<open>The machine between two statements: the locals hold the store.\<close>

definition sits :: "u64 \<Rightarrow> bytes list \<Rightarrow> progress \<Rightarrow> mach \<Rightarrow> bool" where
  "sits B V \<sigma> m \<longleftrightarrow> rbp m = B \<and> rsp m = B - 8 * word_of_nat 32 \<and> printed m = snd \<sigma> \<and>
     (\<forall>x\<in>set V. cell B m (Suc (slot V x)) = fst \<sigma> x)"

lemma sits_ip [simp]: "sits B V \<sigma> (m\<lparr>ip := p\<rparr>) = sits B V \<sigma> m" "sits B V \<sigma> (m\<lparr>ip := p, fl := f\<rparr>) = sits B V \<sigma> m"
  by (simp_all add: sits_def cell_def)

lemma slot_below: "x \<in> set V \<Longrightarrow> length V \<le> 32 \<Longrightarrow> slot V x < 32"
  using slot_nth [of x V] by simp

lemma expr_sits:
  assumes "ops_ok e" "set (names_e e) \<subseteq> set V" "length V \<le> 32" "code_at code (ip m) (cg_expr (slot V) e)" "sits B V \<sigma> m"
    "length code < 2 ^ 31" "ip m + len_e e \<le> length code"
  obtains m' where "goes K code m m'" "ip m' = ip m + len_e e" "rax m' = value_of (fst \<sigma>) e" "sits B V \<sigma> m'"
proof -
  have v: "\<forall>x\<in>set (names_e e). slot V x < 32 \<and> cell B m (Suc (slot V x)) = fst \<sigma> x"
    using assms(2,3,5) slot_below by (auto simp: sits_def)
  have l: "32 + len_e e < 2 ^ 32" "rbp m = B" "rsp m = B - 8 * word_of_nat 32" using assms(5-7) by (simp_all add: sits_def)
  from expr_runs [OF assms(1) v assms(4) l(2,3) _ l(1)] obtain m' where m': "goes K code m m'" "ip m' = ip m + len_e e"
    "rax m' = value_of (fst \<sigma>) e" "calm B 32 m m'"
    by auto
  have "cell B m' (Suc (slot V x)) = fst \<sigma> x" if "x \<in> set V" for x
    using m'(4) assms(5) slot_below [OF that assms(3)] that by (simp add: calm_def sits_def)
  then have "sits B V \<sigma> m'" using m'(4) assms(5) by (simp add: calm_def sits_def)
  with m'(1-3) that show thesis by blast
qed

lemma sint_word: "\<bar>d\<bar> < 2 ^ 31 \<Longrightarrow> sint (word_of_int d :: u32) = d"
  by (simp add: signed_of_int signed_take_bit_int_eq_self)

lemma jmp_runs:
  assumes "code_at code (ip m) (jmp_code d)" "\<bar>d\<bar> < 2 ^ 31" "int (ip m) + 5 + d = int t"
  shows "goes K code m (m\<lparr>ip := t\<rparr>)"
  by (rule goes_ins [of _ _ "IJmp (word_of_int d)"])
    (use assms in \<open>simp_all add: enc_bytes jmp_code_def jump_def sint_word\<close>)

lemma je_runs:
  assumes "code_at code (ip m) (je_code (int d))" "d < 2 ^ 31"
  shows "goes K code m (m\<lparr>ip := ip m + 9 + (if rax m = 0 then d else 0), fl := Some (rax m = 0, False)\<rparr>)"
proof -
  have "je_code (int d) = enc ITestRax @ enc (IJe (word_of_int (int d)))" by (simp add: je_code_def enc_bytes)
  then have a: "code_at code (ip m) (enc ITestRax)" "code_at code (ip m + 3) (enc (IJe (word_of_int (int d))))" using assms(1) by simp_all
  let ?m1 = "m\<lparr>ip := ip m + 3, fl := Some (rax m = 0, False)\<rparr>"
  have "goes K code m ?m1" by (rule goes_ins [OF a(1)]) simp
  moreover have "goes K code ?m1 (m\<lparr>ip := ip m + 9 + (if rax m = 0 then d else 0), fl := Some (rax m = 0, False)\<rparr>)"
    by (rule goes_ins [of _ _ "IJe (word_of_int (int d))"])
      (use a sint_word [of "int d"] assms(2) in \<open>simp_all add: jump_def\<close>)
  ultimately show ?thesis by (rule goes_trans)
qed

text \<open>
  The code \<open>c\<close> takes the machine from \<open>\<sigma>\<close> to \<open>\<sigma>'\<close> and ends behind itself or, after a \<open>break\<close>, at the end of the enclosing loop,
  \<open>k\<close> further on.
\<close>

definition ahead :: "nat option \<Rightarrow> nat" where
  "ahead k = (case k of None \<Rightarrow> 0 | Some k \<Rightarrow> k)"

lemma ahead_simps [simp]: "ahead None = 0" "ahead (Some k) = k"
  by (simp_all add: ahead_def)

definition sim :: "kernel_regs \<Rightarrow> bytes \<Rightarrow> u64 \<Rightarrow> bytes list \<Rightarrow> bytes \<Rightarrow> nat option \<Rightarrow> bool \<Rightarrow> progress \<Rightarrow> progress \<Rightarrow> bool" where
  "sim K code B V c k b \<sigma> \<sigma>' \<longleftrightarrow>
     (\<forall>m. code_at code (ip m) c \<longrightarrow> ip m + length c + ahead k \<le> length code \<longrightarrow> sits B V \<sigma> m \<longrightarrow>
        (\<exists>m'. goes K code m m' \<and> sits B V \<sigma>' m' \<and> ip m' = ip m + length c + (if b then ahead k else 0)))"

lemma simI:
  assumes "\<And>m. code_at code (ip m) c \<Longrightarrow> ip m + length c + ahead k \<le> length code \<Longrightarrow> sits B V \<sigma> m \<Longrightarrow>
    \<exists>m'. goes K code m m' \<and> sits B V \<sigma>' m' \<and> ip m' = ip m + length c + (if b then ahead k else 0)"
  shows "sim K code B V c k b \<sigma> \<sigma>'"
  using assms by (simp add: sim_def)

lemma simE:
  assumes "sim K code B V c k b \<sigma> \<sigma>'" "code_at code (ip m) c" "ip m + length c + ahead k \<le> length code" "sits B V \<sigma> m"
  obtains m' where "goes K code m m'" "sits B V \<sigma>' m'" "ip m' = ip m + length c + (if b then ahead k else 0)"
  using assms unfolding sim_def by blast

lemma sim_nil: "sim K code B V [] k False \<sigma> \<sigma>"
  by (rule simI) (auto intro: goes_refl)

lemma sim_seq:
  assumes "sim K code B V c (far (length c') k) b \<sigma> \<sigma>1" "b \<Longrightarrow> b' \<and> \<sigma>' = \<sigma>1 \<and> k \<noteq> None" "\<not> b \<Longrightarrow> sim K code B V c' k b' \<sigma>1 \<sigma>'"
  shows "sim K code B V (c @ c') k b' \<sigma> \<sigma>'"
proof (rule simI)
  fix m
  assume h: "code_at code (ip m) (c @ c')" "ip m + length (c @ c') + ahead k \<le> length code" "sits B V \<sigma> m"
  have "ip m + length c + ahead (far (length c') k) \<le> length code" using h(2) by (cases k) simp_all
  from simE [OF assms(1) _ this h(3)] h(1) obtain m1 where m1: "goes K code m m1" "sits B V \<sigma>1 m1"
    "ip m1 = ip m + length c + (if b then ahead (far (length c') k) else 0)" by auto
  show "\<exists>m'. goes K code m m' \<and> sits B V \<sigma>' m' \<and> ip m' = ip m + length (c @ c') + (if b' then ahead k else 0)"
  proof (cases b)
    case True
    then obtain d where "k = Some d" using assms(2) by auto
    then show ?thesis using m1 True assms(2) by (intro exI [of _ m1]) simp
  next
    case False
    have "code_at code (ip m1) c'" "ip m1 + length c' + ahead k \<le> length code" using h m1(3) False by simp_all
    from simE [OF assms(3) [OF False] this m1(2)] obtain m' where "goes K code m1 m'" "sits B V \<sigma>' m'"
      "ip m' = ip m1 + length c' + (if b' then ahead k else 0)" .
    then show ?thesis using goes_trans [OF m1(1)] m1(3) False by (intro exI [of _ m']) auto
  qed
qed

lemma cond_runs:
  assumes "ops_ok e" "set (names_e e) \<subseteq> set V" "length V \<le> 32" "length code < 2 ^ 31"
    "code_at code (ip m) (cg_expr (slot V) e @ je_code (int d) @ c)" "sits B V \<sigma> m" "ip m + len_e e + 9 + d \<le> length code"
  obtains m' where "goes K code m m'" "sits B V \<sigma> m'" "ip m' = ip m + len_e e + 9 + (if value_of (fst \<sigma>) e = 0 then d else 0)"
proof -
  obtain m1 where m1: "goes K code m m1" "ip m1 = ip m + len_e e" "rax m1 = value_of (fst \<sigma>) e" "sits B V \<sigma> m1"
    by (rule expr_sits [OF assms(1-3) _ assms(6,4)]) (use assms(5,7) in simp_all)
  let ?m = "m1\<lparr>ip := ip m1 + 9 + (if rax m1 = 0 then d else 0), fl := Some (rax m1 = 0, False)\<rparr>"
  have "goes K code m1 ?m" by (rule je_runs) (use assms(4,5,7) m1(2) in simp_all)
  from that [OF goes_trans [OF m1(1) this]] m1(2-4) show thesis by simp
qed

lemma break_in_loop: "means n l st \<sigma> = Some (True, \<sigma>') \<Longrightarrow> l" "mean n l ss \<sigma> = Some (True, \<sigma>') \<Longrightarrow> l"
  by (induction n l st \<sigma> and n l ss \<sigma> arbitrary: \<sigma>' and \<sigma>' rule: means_mean.induct)
    (auto split: if_splits option.splits prod.splits)

text \<open>The statements, one kind at a time.\<close>

lemma sim_let:
  assumes "ops_ok e" "set (x # names_e e) \<subseteq> set V" "length V \<le> 32" "length code < 2 ^ 31"
  shows "sim K code B V (cg_stmt (slot V) k (CLet x e)) k False \<sigma> ((fst \<sigma>)(x := value_of (fst \<sigma>) e), snd \<sigma>)"
proof (rule simI)
  fix m
  let ?c = "cg_stmt (slot V) k (CLet x e)" and ?v = "value_of (fst \<sigma>) e"
  let ?i = "IStore (slot_disp (slot V x))"
  have c: "?c = cg_expr (slot V) e @ enc ?i" by (simp add: enc_bytes)
  assume h: "code_at code (ip m) ?c" "ip m + length ?c + ahead k \<le> length code" "sits B V \<sigma> m"
  obtain m1 where m1: "goes K code m m1" "ip m1 = ip m + len_e e" "rax m1 = ?v" "sits B V \<sigma> m1"
    by (rule expr_sits [OF assms(1) _ assms(3) _ h(3) assms(4)]) (use assms(2) h(1,2) c in simp_all)
  have x: "slot V x < 32" using assms(2,3) slot_below [of x V] by simp
  let ?m = "m1\<lparr>ip := ip m1 + 7, ram := write_u64 (ram m1) (B - 8 * word_of_nat (Suc (slot V x))) ?v\<rparr>"
  have w: "rbp m1 + scast (slot_disp (slot V x)) = B - 8 * word_of_nat (Suc (slot V x))"
    using m1(4) by (simp only: sits_def slot_disp_cell [OF x])
  have "exec_ins K ?i (m1\<lparr>ip := ip m1 + length (enc ?i)\<rparr>) = Some ?m"
    using m1(3) w by simp
  then have "goes K code m1 ?m" using h(1) m1(2) c by (intro goes_ins [of _ _ ?i]) (simp_all del: cg_stmt.simps)
  with m1(1) have g: "goes K code m ?m" by (rule goes_trans)
  have r: "ram ?m = write_u64 (ram m1) (B - 8 * word_of_nat (Suc (slot V x))) ?v" by simp
  have "cell B ?m (Suc (slot V y)) = (if y = x then ?v else fst \<sigma> y)" if y: "y \<in> set V" for y
  proof -
    have "x \<in> set V" using assms(2) by simp
    then have "slot V y = slot V x \<longleftrightarrow> y = x" by (metis slot_nth y)
    moreover have "cell B ?m (Suc (slot V y)) = (if Suc (slot V y) = Suc (slot V x) then ?v else cell B m1 (Suc (slot V y)))"
      unfolding cell_def r by (rule cell_write) (use slot_below [OF y assms(3)] x in simp_all)
    ultimately show ?thesis using m1(4) y by (simp add: sits_def)
  qed
  then have "sits B V ((fst \<sigma>)(x := ?v), snd \<sigma>) ?m" using m1(4) by (simp add: sits_def)
  then show "\<exists>m'. goes K code m m' \<and> sits B V ((fst \<sigma>)(x := ?v), snd \<sigma>) m' \<and> ip m' = ip m + length ?c + (if False then ahead k else 0)"
    using g m1(2) by (intro exI [of _ ?m]) simp
qed

lemma sim_print:
  assumes "ops_ok e" "set (names_e e) \<subseteq> set V" "length V \<le> 32" "length code < 2 ^ 31"
  shows "sim K code B V (cg_stmt (slot V) k (CPrint nl e)) k False \<sigma> (fst \<sigma>, snd \<sigma> @ [(value_of (fst \<sigma>) e, nl)])"
proof (rule simI)
  fix m
  let ?c = "cg_stmt (slot V) k (CPrint nl e)" and ?v = "value_of (fst \<sigma>) e"
  let ?j = "if nl then IMovEsi 1 else IXorEsi" and ?l = "if nl then 5 else 2 :: nat"
  have one: "to_le 4 (1 :: u32) = [1, 0, 0, 0]" "to_le 4 (32 :: u32) = [0x20, 0, 0, 0]" by code_simp+
  have c: "?c = cg_expr (slot V) e @ enc IMovRdi @ enc ?j @ enc (IMovEax 32) @ enc ISyscall"
    by (simp add: enc_bytes print_code_def one)
  assume h: "code_at code (ip m) ?c" "ip m + length ?c + ahead k \<le> length code" "sits B V \<sigma> m"
  obtain m1 where m1: "goes K code m m1" "ip m1 = ip m + len_e e" "rax m1 = ?v" "sits B V \<sigma> m1"
    by (rule expr_sits [OF assms(1-3) _ h(3) assms(4)]) (use h(1,2) c in simp_all)
  have lj: "length (enc ?j) = ?l" by simp
  have a: "code_at code (ip m1) (enc IMovRdi)" "code_at code (ip m1 + 3) (enc ?j)" "code_at code (ip m1 + 3 + ?l) (enc (IMovEax 32))"
    "code_at code (ip m1 + 8 + ?l) (enc ISyscall)"
    using h(1) m1(2) unfolding c code_at_append by (simp_all add: lj algebra_simps split del: if_split)
  let ?m2 = "m1\<lparr>ip := ip m1 + 3, rdi := ?v\<rparr>" and ?f = "if nl then fl m1 else None"
  let ?m3 = "?m2\<lparr>ip := ip m1 + 3 + ?l, rsi := of_bool nl, fl := ?f\<rparr>"
  let ?m4 = "?m3\<lparr>ip := ip m1 + 8 + ?l, rax := 32\<rparr>"
  obtain ra rc rd ri rj where K: "K (?m4\<lparr>ip := ip m1 + 10 + ?l\<rparr>) = (ra, rc, rd, ri, rj)" by (metis prod_cases5)
  let ?m = "?m4\<lparr>ip := ip m1 + 10 + ?l, rax := ra, rcx := rc, rdx := rd, rdi := ri, rsi := rj, fl := None, printed := printed m1 @ [(?v, nl)]\<rparr>"
  have "goes K code m1 ?m2" by (rule goes_ins [OF a(1)]) (simp add: m1(3))
  moreover have "goes K code ?m2 ?m3" by (rule goes_ins [of _ _ ?j]) (use a(2) in simp_all)
  moreover have "goes K code ?m3 ?m4" by (rule goes_ins [of _ _ "IMovEax 32"]) (use a(3) in simp_all)
  moreover have "goes K code ?m4 ?m" by (rule goes_ins [of _ _ ISyscall]) (cases nl; use a(4) K in \<open>simp add: call_def\<close>)+
  ultimately have "goes K code m ?m" using m1(1) by (blast intro: goes_trans)
  moreover have "sits B V (fst \<sigma>, snd \<sigma> @ [(?v, nl)]) ?m" using m1(4) by (simp add: sits_def cell_def)
  ultimately show "\<exists>m'. goes K code m m' \<and> sits B V (fst \<sigma>, snd \<sigma> @ [(?v, nl)]) m' \<and> ip m' = ip m + length ?c + (if False then ahead k else 0)"
    using m1(2) by (intro exI [of _ ?m]) (simp add: print_code_def)
qed

lemma sim_break:
  assumes "length code < 2 ^ 31"
  shows "sim K code B V (cg_stmt (slot V) k CBreak) k (k \<noteq> None) \<sigma> \<sigma>"
proof (rule simI)
  fix m
  have c: "cg_stmt (slot V) k CBreak = jmp_code (int (ahead k))" by (cases k) simp_all
  assume h: "code_at code (ip m) (cg_stmt (slot V) k CBreak)" "ip m + length (cg_stmt (slot V) k CBreak) + ahead k \<le> length code" "sits B V \<sigma> m"
  have "goes K code m (m\<lparr>ip := ip m + 5 + ahead k\<rparr>)"
    by (rule jmp_runs [of _ _ "int (ahead k)"]) (use h(1,2) assms c in simp_all)
  then show "\<exists>m'. goes K code m m' \<and> sits B V \<sigma> m' \<and> ip m' = ip m + length (cg_stmt (slot V) k CBreak) + (if k \<noteq> None then ahead k else 0)"
    using h(3) by (intro exI [of _ "m\<lparr>ip := ip m + 5 + ahead k\<rparr>"]) (cases k; simp)
qed

lemma sim_if:
  assumes "ops_ok e" "set (names_e e) \<subseteq> set V" "length V \<le> 32" "length code < 2 ^ 31"
    "value_of (fst \<sigma>) e \<noteq> 0 \<Longrightarrow> sim K code B V (cg_stmts (slot V) k ss) k b \<sigma> \<sigma>'" "value_of (fst \<sigma>) e = 0 \<Longrightarrow> \<not> b \<and> \<sigma>' = \<sigma>"
  shows "sim K code B V (cg_stmt (slot V) k (CIf e ss)) k b \<sigma> \<sigma>'"
proof (rule simI)
  fix m
  let ?B = "cg_stmts (slot V) k ss"
  assume h: "code_at code (ip m) (cg_stmt (slot V) k (CIf e ss))" "ip m + length (cg_stmt (slot V) k (CIf e ss)) + ahead k \<le> length code"
    "sits B V \<sigma> m"
  obtain m1 where m1: "goes K code m m1" "sits B V \<sigma> m1" "ip m1 = ip m + len_e e + 9 + (if value_of (fst \<sigma>) e = 0 then len_ss ss else 0)"
    by (rule cond_runs [OF assms(1-4) _ h(3), of "len_ss ss" ?B K]) (use h(1,2) in \<open>simp_all add: cg_simps\<close>)
  show "\<exists>m'. goes K code m m' \<and> sits B V \<sigma>' m' \<and> ip m' = ip m + length (cg_stmt (slot V) k (CIf e ss)) + (if b then ahead k else 0)"
  proof (cases "value_of (fst \<sigma>) e = 0")
    case True
    then show ?thesis using m1 assms(6) by (intro exI [of _ m1]) simp
  next
    case False
    obtain m' where m': "goes K code m1 m'" "sits B V \<sigma>' m'" "ip m' = ip m1 + length ?B + (if b then ahead k else 0)"
      by (rule simE [OF assms(5) [OF False] _ _ m1(2)]) (use h(1,2) m1(3) False in \<open>simp_all add: cg_simps add.assoc\<close>)
    then show ?thesis using goes_trans [OF m1(1) m'(1)] m1(3) False by (intro exI [of _ m']) simp
  qed
qed

lemma sim_if_else:
  assumes "ops_ok e" "set (names_e e) \<subseteq> set V" "length V \<le> 32" "length code < 2 ^ 31" "b \<Longrightarrow> k \<noteq> None"
    "value_of (fst \<sigma>) e \<noteq> 0 \<Longrightarrow> sim K code B V (cg_stmts (slot V) (far (5 + len_ss ts) k) ss) (far (5 + len_ss ts) k) b \<sigma> \<sigma>'"
    "value_of (fst \<sigma>) e = 0 \<Longrightarrow> sim K code B V (cg_stmts (slot V) k ts) k b \<sigma> \<sigma>'"
  shows "sim K code B V (cg_stmt (slot V) k (CIfElse e ss ts)) k b \<sigma> \<sigma>'"
proof (rule simI)
  fix m
  let ?k = "far (5 + len_ss ts) k" and ?E = "cg_stmts (slot V) k ts" and ?c = "cg_stmt (slot V) k (CIfElse e ss ts)"
  let ?B = "cg_stmts (slot V) ?k ss" and ?J = "jmp_code (int (len_ss ts))"
  assume h: "code_at code (ip m) ?c" "ip m + length ?c + ahead k \<le> length code" "sits B V \<sigma> m"
  have c: "?c = cg_expr (slot V) e @ je_code (int (len_ss ss + 5)) @ ?B @ ?J @ ?E" by (simp add: cg_simps)
  have a: "code_at code (ip m + len_e e + 9) ?B" "code_at code (ip m + len_e e + 9 + len_ss ss) ?J"
    "code_at code (ip m + len_e e + 9 + len_ss ss + 5) ?E" using h(1) unfolding c by (simp_all add: add.assoc)
  have far: "ahead ?k \<le> ahead k + 5 + len_ss ts" "b \<Longrightarrow> ahead ?k = ahead k + 5 + len_ss ts" using assms(5) by (cases k; simp)+
  have l: "length ?c = len_e e + 9 + len_ss ss + 5 + len_ss ts" by simp
  obtain m1 where m1: "goes K code m m1" "sits B V \<sigma> m1" "ip m1 = ip m + len_e e + 9 + (if value_of (fst \<sigma>) e = 0 then len_ss ss + 5 else 0)"
    by (rule cond_runs [OF assms(1-4) _ h(3), of "len_ss ss + 5" "?B @ ?J @ ?E" K]) (use h(1,2) c l in simp_all)
  show "\<exists>m'. goes K code m m' \<and> sits B V \<sigma>' m' \<and> ip m' = ip m + length ?c + (if b then ahead k else 0)"
  proof (cases "value_of (fst \<sigma>) e = 0")
    case True
    obtain m' where m': "goes K code m1 m'" "sits B V \<sigma>' m'" "ip m' = ip m1 + length ?E + (if b then ahead k else 0)"
      by (rule simE [OF assms(7) [OF True] _ _ m1(2)]) (use a(3) h(2) l m1(3) True in \<open>simp_all add: add.assoc\<close>)
    then show ?thesis using goes_trans [OF m1(1) m'(1)] m1(3) True l by (intro exI [of _ m']) simp
  next
    case False
    obtain m2 where m2: "goes K code m1 m2" "sits B V \<sigma>' m2" "ip m2 = ip m1 + length ?B + (if b then ahead ?k else 0)"
      by (rule simE [OF assms(6) [OF False] _ _ m1(2)]) (use a(1) h(2) l m1(3) False far(1) in simp_all)
    note g = goes_trans [OF m1(1) m2(1)]
    show ?thesis
    proof (cases b)
      case True
      then show ?thesis using g m2(2,3) m1(3) False far(2) l by (intro exI [of _ m2]) simp
    next
      case nb: False
      have "goes K code m2 (m2\<lparr>ip := ip m2 + 5 + len_ss ts\<rparr>)"
        by (rule jmp_runs [of _ _ "int (len_ss ts)"]) (use a(2) h(2) l m1(3) m2(3) False nb assms(4) in simp_all)
      then show ?thesis using goes_trans [OF g] m2(2,3) m1(3) False nb l
        by (intro exI [of _ "m2\<lparr>ip := ip m2 + 5 + len_ss ts\<rparr>"]) simp
    qed
  qed
qed

lemma sim_while:
  assumes "ops_ok e" "set (names_e e) \<subseteq> set V" "length V \<le> 32" "length code < 2 ^ 31"
    "value_of (fst \<sigma>) e = 0 \<Longrightarrow> \<sigma>' = \<sigma>"
    "value_of (fst \<sigma>) e \<noteq> 0 \<Longrightarrow> sim K code B V (cg_stmts (slot V) (Some 5) ss) (Some 5) b \<sigma> \<sigma>1"
    "value_of (fst \<sigma>) e \<noteq> 0 \<Longrightarrow> b \<Longrightarrow> \<sigma>' = \<sigma>1"
    "value_of (fst \<sigma>) e \<noteq> 0 \<Longrightarrow> \<not> b \<Longrightarrow> sim K code B V (cg_stmt (slot V) k (CWhile e ss)) k False \<sigma>1 \<sigma>'"
  shows "sim K code B V (cg_stmt (slot V) k (CWhile e ss)) k False \<sigma> \<sigma>'"
proof (rule simI)
  fix m
  let ?c = "cg_stmt (slot V) k (CWhile e ss)" and ?B = "cg_stmts (slot V) (Some 5) ss"
  let ?J = "jmp_code (- int (len_e e + len_ss ss + 14))"
  assume h: "code_at code (ip m) ?c" "ip m + length ?c + ahead k \<le> length code" "sits B V \<sigma> m"
  have c: "?c = cg_expr (slot V) e @ je_code (int (len_ss ss + 5)) @ ?B @ ?J" by (simp add: cg_simps)
  have a: "code_at code (ip m + len_e e + 9) ?B" "code_at code (ip m + len_e e + 9 + len_ss ss) ?J"
    using h(1) unfolding c by (simp_all add: add.assoc)
  have l: "length ?c = len_e e + 9 + len_ss ss + 5" by simp
  obtain m1 where m1: "goes K code m m1" "sits B V \<sigma> m1" "ip m1 = ip m + len_e e + 9 + (if value_of (fst \<sigma>) e = 0 then len_ss ss + 5 else 0)"
    by (rule cond_runs [OF assms(1-4) _ h(3), of "len_ss ss + 5" "?B @ ?J" K]) (use h(1,2) c l in simp_all)
  show "\<exists>m'. goes K code m m' \<and> sits B V \<sigma>' m' \<and> ip m' = ip m + length ?c + (if False then ahead k else 0)"
  proof (cases "value_of (fst \<sigma>) e = 0")
    case True
    then show ?thesis using m1 assms(5) l by (intro exI [of _ m1]) simp
  next
    case False
    obtain m2 where m2: "goes K code m1 m2" "sits B V \<sigma>1 m2" "ip m2 = ip m1 + length ?B + (if b then ahead (Some 5) else 0)"
      by (rule simE [OF assms(6) [OF False] _ _ m1(2)]) (use a(1) h(2) l m1(3) False in simp_all)
    note g = goes_trans [OF m1(1) m2(1)]
    show ?thesis
    proof (cases b)
      case True
      then show ?thesis using g m2(2,3) m1(3) False assms(7) l by (intro exI [of _ m2]) simp
    next
      case nb: False
      have j: "goes K code m2 (m2\<lparr>ip := ip m\<rparr>)"
        by (rule jmp_runs [of _ _ "- int (len_e e + len_ss ss + 14)"]) (use a(2) h(2) l m1(3) m2(3) False nb assms(4) in simp_all)
      obtain m' where m': "goes K code (m2\<lparr>ip := ip m\<rparr>) m'" "sits B V \<sigma>' m'"
        "ip m' = ip (m2\<lparr>ip := ip m\<rparr>) + length ?c + (if False then ahead k else 0)"
        by (rule simE [OF assms(8) [OF False nb], of "m2\<lparr>ip := ip m\<rparr>"]) (use h(1,2) m2(2) in simp_all)
      then show ?thesis using goes_trans [OF goes_trans [OF g j] m'(1)] by (intro exI [of _ m']) simp
    qed
  qed
qed

lemma sim_loop:
  assumes "length code < 2 ^ 31" "sim K code B V (cg_stmts (slot V) (Some 5) ss) (Some 5) b \<sigma> \<sigma>1" "b \<Longrightarrow> \<sigma>' = \<sigma>1"
    "\<not> b \<Longrightarrow> sim K code B V (cg_stmt (slot V) k (CLoop ss)) k False \<sigma>1 \<sigma>'"
  shows "sim K code B V (cg_stmt (slot V) k (CLoop ss)) k False \<sigma> \<sigma>'"
proof (rule simI)
  fix m
  let ?c = "cg_stmt (slot V) k (CLoop ss)" and ?B = "cg_stmts (slot V) (Some 5) ss" and ?J = "jmp_code (- int (len_ss ss + 5))"
  assume h: "code_at code (ip m) ?c" "ip m + length ?c + ahead k \<le> length code" "sits B V \<sigma> m"
  have a: "code_at code (ip m) ?B" "code_at code (ip m + len_ss ss) ?J" using h(1) by (simp_all add: cg_simps)
  obtain m2 where m2: "goes K code m m2" "sits B V \<sigma>1 m2" "ip m2 = ip m + length ?B + (if b then ahead (Some 5) else 0)"
    by (rule simE [OF assms(2) _ _ h(3)]) (use a(1) h(2) in simp_all)
  show "\<exists>m'. goes K code m m' \<and> sits B V \<sigma>' m' \<and> ip m' = ip m + length ?c + (if False then ahead k else 0)"
  proof (cases b)
    case True
    then show ?thesis using m2 assms(3) by (intro exI [of _ m2]) simp
  next
    case nb: False
    have j: "goes K code m2 (m2\<lparr>ip := ip m\<rparr>)"
      by (rule jmp_runs [of _ _ "- int (len_ss ss + 5)"]) (use a(2) h(2) m2(3) nb assms(1) in simp_all)
    obtain m' where m': "goes K code (m2\<lparr>ip := ip m\<rparr>) m'" "sits B V \<sigma>' m'"
      "ip m' = ip (m2\<lparr>ip := ip m\<rparr>) + length ?c + (if False then ahead k else 0)"
      by (rule simE [OF assms(4) [OF nb], of "m2\<lparr>ip := ip m\<rparr>"]) (use h(1,2) m2(2) in simp_all)
    then show ?thesis using goes_trans [OF goes_trans [OF m2(1) j] m'(1)] by (intro exI [of _ m']) simp
  qed
qed

lemma loops_end:
  "means n l (CWhile e ss) \<sigma> = Some (b, \<sigma>') \<Longrightarrow> \<not> b" "means n l (CLoop ss) \<sigma> = Some (b, \<sigma>') \<Longrightarrow> \<not> b"
  by (induction n arbitrary: \<sigma>) (auto split: if_splits option.splits prod.splits)

lemma mean_sim:
  assumes "length V \<le> 32" "length code < 2 ^ 31"
  shows "means n (k \<noteq> None) st \<sigma> = Some (b, \<sigma>') \<Longrightarrow> stmt_ok st \<Longrightarrow> set (names_s st) \<subseteq> set V \<Longrightarrow>
      sim K code B V (cg_stmt (slot V) k st) k b \<sigma> \<sigma>'"
    and "mean n (k \<noteq> None) ss \<sigma> = Some (b, \<sigma>') \<Longrightarrow> stmts_ok ss \<Longrightarrow> set (names_ss ss) \<subseteq> set V \<Longrightarrow>
      sim K code B V (cg_stmts (slot V) k ss) k b \<sigma> \<sigma>'"
proof (induction n arbitrary: k st ss \<sigma> b \<sigma>')
  case (Suc n)
  {
    case 1
    show ?case
    proof (cases st)
      case CSkip
      then show ?thesis using 1 sim_nil by simp
    next
      case (CLet x e)
      have "\<not> b" "\<sigma>' = ((fst \<sigma>)(x := value_of (fst \<sigma>) e), snd \<sigma>)" using 1(1) CLet by auto
      then show ?thesis using 1(2,3) sim_let [OF _ _ assms, of e x] by (simp add: CLet del: cg_stmt.simps)
    next
      case (CPrint nl e)
      have "\<not> b" "\<sigma>' = (fst \<sigma>, snd \<sigma> @ [(value_of (fst \<sigma>) e, nl)])" using 1(1) CPrint by auto
      then show ?thesis using 1(2,3) sim_print [OF _ _ assms, of e] by (simp add: CPrint del: cg_stmt.simps)
    next
      case (CIf e us)
      show ?thesis unfolding CIf
        by (rule sim_if [OF _ _ assms]) (use 1 CIf Suc.IH(2) [of k us \<sigma> b \<sigma>'] in simp_all)
    next
      case (CIfElse e us ts)
      have k: "(far (5 + len_ss ts) k \<noteq> None) = (k \<noteq> None)" by (cases k) simp_all
      show ?thesis unfolding CIfElse
        by (rule sim_if_else [OF _ _ assms])
          (use 1 CIfElse Suc.IH(2) [of "far (5 + len_ss ts) k" us \<sigma> b \<sigma>', unfolded k] Suc.IH(2) [of k ts \<sigma> b \<sigma>']
            break_in_loop(1) [of "Suc n" "k \<noteq> None" st \<sigma> \<sigma>'] in \<open>simp_all split: if_splits\<close>)
    next
      case (CWhile e us)
      have nb: "\<not> b" using 1(1) loops_end(1) unfolding CWhile by blast
      show ?thesis
      proof (cases "value_of (fst \<sigma>) e = 0")
        case True
        then have "\<sigma>' = \<sigma>" using 1 CWhile by simp
        then show ?thesis unfolding CWhile using sim_while [OF _ _ assms, of e \<sigma> \<sigma>'] True 1 CWhile by simp
      next
        case False
        then obtain b1 \<sigma>1 where b1: "mean n True us \<sigma> = Some (b1, \<sigma>1)"
          "if b1 then \<sigma>' = \<sigma>1 else means n (k \<noteq> None) (CWhile e us) \<sigma>1 = Some (False, \<sigma>')"
          using 1(1) CWhile nb by (auto split: option.splits if_splits)
        have "sim K code B V (cg_stmt (slot V) k (CWhile e us)) k False \<sigma> \<sigma>'"
          by (rule sim_while [OF _ _ assms, where b = b1 and ?\<sigma>1.0 = \<sigma>1])
            (use 1(2,3) CWhile False b1 Suc.IH(2) [of "Some 5" us \<sigma> b1 \<sigma>1] Suc.IH(1) [of k "CWhile e us" \<sigma>1 False \<sigma>'] in simp_all)
        then show ?thesis using nb by (simp add: CWhile)
      qed
    next
      case (CLoop us)
      have nb: "\<not> b" using 1(1) loops_end(2) unfolding CLoop by blast
      obtain b1 \<sigma>1 where b1: "mean n True us \<sigma> = Some (b1, \<sigma>1)"
        "if b1 then \<sigma>' = \<sigma>1 else means n (k \<noteq> None) (CLoop us) \<sigma>1 = Some (False, \<sigma>')"
        using 1(1) CLoop nb by (auto split: option.splits if_splits)
      have "sim K code B V (cg_stmt (slot V) k (CLoop us)) k False \<sigma> \<sigma>'"
        by (rule sim_loop [OF assms(2), where b = b1 and ?\<sigma>1.0 = \<sigma>1])
          (use 1(2,3) CLoop b1 Suc.IH(2) [of "Some 5" us \<sigma> b1 \<sigma>1] Suc.IH(1) [of k "CLoop us" \<sigma>1 False \<sigma>'] in simp_all)
      then show ?thesis using nb by (simp add: CLoop)
    next
      case CBreak
      then show ?thesis using 1(1) sim_break [OF assms(2), of K B V k \<sigma>] by simp
    qed
  next
    case 2
    show ?case
    proof (cases ss)
      case Nil
      then show ?thesis using 2 sim_nil by simp
    next
      case (Cons s us)
      have k: "(far (len_ss us) k \<noteq> None) = (k \<noteq> None)" by (cases k) simp_all
      obtain b1 \<sigma>1 where b1: "means n (k \<noteq> None) s \<sigma> = Some (b1, \<sigma>1)"
        "if b1 then b \<and> \<sigma>' = \<sigma>1 else mean n (k \<noteq> None) us \<sigma>1 = Some (b, \<sigma>')"
        using 2(1) Cons by (auto split: option.splits if_splits)
      have "sim K code B V (cg_stmt (slot V) (far (len_ss us) k) s @ cg_stmts (slot V) k us) k b \<sigma> \<sigma>'"
        by (rule sim_seq [where b = b1 and ?\<sigma>1.0 = \<sigma>1])
          (use 2(2,3) Cons b1 Suc.IH(1) [of "far (len_ss us) k" s \<sigma> b1 \<sigma>1, unfolded k] Suc.IH(2) [of k us \<sigma>1 b \<sigma>']
            break_in_loop(1) [of n "k \<noteq> None" s \<sigma> \<sigma>1] in \<open>simp_all split: if_splits\<close>)
      then show ?thesis by (simp add: Cons cg_simps)
    qed
  }
qed simp_all

section \<open>Whole programs\<close>

lemma set_add_names: "set (add_names V N) = set V \<union> set N"
  by (induction N arbitrary: V) (auto simp: add_names_def add_name_def)

text \<open>The store a program starts from: what the stack below its entry happens to hold.\<close>

definition found :: "bytes list \<Rightarrow> mach \<Rightarrow> store" where
  "found V m x = read_u64 (ram m) (rsp m - 8 * word_of_nat (slot V x + 2))"

lemma code_runs:
  assumes "stmts_ok ss" "length (add_names [] (names_ss ss)) \<le> 32" "length (program_code ss) < 2 ^ 31" "ip m = 0"
    "mean n False ss (found (add_names [] (names_ss ss)) m, printed m) = Some (b, \<rho>, out)"
  shows "\<exists>m'. goes K (program_code ss) m m' \<and> exits (program_code ss) m' 0 \<and> printed m' = out"
proof -
  let ?V = "add_names [] (names_ss ss)" and ?code = "program_code ss" and ?B = "rsp m - 8"
  let ?S = "cg_stmts (slot ?V) None ss"
  have fr: "to_le 4 (256 :: u32) = [0, 1, 0, 0]" "to_le 4 (6 :: u32) = [6, 0, 0, 0]" "(scast (256 :: u32) :: u64) = 256" by code_simp+
  have c: "?code = enc IPushRbp @ enc IMovRbp @ enc (ISubRsp 256) @ ?S @ enc IXorEdi @ enc (IMovEax 6) @ enc ISyscall"
    by (simp add: program_code_def prologue_code_def exit_code_def enc_bytes fr)
  have "code_at ?code 0 ?code" by (simp add: code_at_def)
  then have a: "code_at ?code 0 (enc IPushRbp)" "code_at ?code 1 (enc IMovRbp)" "code_at ?code 4 (enc (ISubRsp 256))" "code_at ?code 11 ?S"
    "code_at ?code (11 + len_ss ss) (enc IXorEdi)" "code_at ?code (13 + len_ss ss) (enc (IMovEax 6))"
    "code_at ?code (18 + len_ss ss) (enc ISyscall)"
    by (subst (asm) (2) c, simp add: numeral_eq_Suc)+
  let ?m1 = "m\<lparr>ip := 1, rsp := ?B, ram := write_u64 (ram m) ?B (rbp m)\<rparr>"
  let ?m2 = "?m1\<lparr>ip := 4, rbp := ?B\<rparr>"
  let ?m3 = "?m2\<lparr>ip := 11, rsp := ?B - 8 * word_of_nat 32, fl := None\<rparr>"
  have "goes K ?code m ?m1" by (rule goes_ins [of _ _ IPushRbp]) (use a(1) assms(4) in \<open>simp_all add: push_def\<close>)
  moreover have "goes K ?code ?m1 ?m2" by (rule goes_ins [of _ _ IMovRbp]) (use a(2) in simp_all)
  moreover have "goes K ?code ?m2 ?m3" by (rule goes_ins [of _ _ "ISubRsp 256"]) (use a(3) fr in simp_all)
  ultimately have g3: "goes K ?code m ?m3" by (blast intro: goes_trans)
  let ?\<rho> = "found ?V m"
  have "cell ?B ?m3 (Suc (slot ?V x)) = ?\<rho> x" if "x \<in> set ?V" for x
  proof -
    have r: "ram ?m3 = write_u64 (ram m) (?B - 8 * word_of_nat 0) (rbp m)" by simp
    have "slot ?V x < 32" by (rule slot_below [OF that assms(2)])
    then have e: "cell ?B ?m3 (Suc (slot ?V x)) = read_u64 (ram m) (?B - 8 * word_of_nat (Suc (slot ?V x)))"
      unfolding cell_def r using cell_write [of "Suc (slot ?V x)" 0 "ram m" ?B "rbp m"] by simp
    have "?B - 8 * word_of_nat (Suc (slot ?V x)) = rsp m - 8 * word_of_nat (slot ?V x + 2)" by (simp add: algebra_simps)
    then show ?thesis by (simp only: e found_def)
  qed
  then have st: "sits ?B ?V (?\<rho>, printed m) ?m3" by (simp add: sits_def)
  have len: "length ?code = 11 + len_ss ss + 9" by (simp add: program_code_def prologue_code_def exit_code_def)
  have nb: "\<not> b" using break_in_loop(2) [of n False ss] assms(5) by (cases b) auto
  have "sim K ?code ?B ?V ?S None b (?\<rho>, printed m) (\<rho>, out)"
    by (rule mean_sim(2) [OF assms(2,3)]) (use assms(1,5) set_add_names in simp_all)
  then obtain m4 where m4: "goes K ?code ?m3 m4" "sits ?B ?V (\<rho>, out) m4" "ip m4 = 11 + len_ss ss"
    by (rule simE [of K ?code ?B ?V ?S None b _ _ ?m3]) (use a(4) st len nb in simp_all)
  let ?m5 = "m4\<lparr>ip := 13 + len_ss ss, rdi := 0, fl := None\<rparr>"
  let ?m6 = "?m5\<lparr>ip := 18 + len_ss ss, rax := 6\<rparr>"
  have "goes K ?code m4 ?m5" by (rule goes_ins [of _ _ IXorEdi]) (use a(5) m4(3) in simp_all)
  moreover have "goes K ?code ?m5 ?m6" by (rule goes_ins [of _ _ "IMovEax 6"]) (use a(6) in simp_all)
  ultimately have "goes K ?code m ?m6" using g3 m4(1) by (blast intro: goes_trans)
  moreover have "exits ?code ?m6 0" using a(7) by (auto simp: exits_def code_at_def decode_enc)
  ultimately show ?thesis using m4(2) by (intro exI [of _ ?m6]) (simp add: sits_def)
qed

text \<open>
  C9: the compiled code does what the program means. The text of a program compiles, and the bytes that the compiler wrote,
  started with any registers, on any stack, and with whatever the kernel's calls leave in the registers, print exactly the
  numbers of the program's meaning, in order, and then ask the kernel to end it with exit code 0, if the program comes to an
  end. The store it starts from is what the stack happens to hold.
\<close>

theorem barrelc_correct:
  assumes "stmts_ok ss" "length (add_names [] (names_ss ss)) \<le> 32" "breaks_ss ss \<le> 32" "length (program_code ss) \<le> 3976"
    "length buf = 4096" "length (rend_stmts ss) + 1 < n" "ip m = 0"
    "mean k False ss (found (add_names [] (names_ss ss)) m, printed m) = Some (b, \<rho>, out)"
  shows "\<exists>len img m'. c_compile n (source_of ss) buf = Some (Inr (120 + len), img) \<and>
    (let code = take len (drop 120 img) in goes K code m m' \<and> exits code m' 0 \<and> printed m' = out)"
proof -
  obtain c where c: "c_program n (comp_new (source_of ss) buf) = Some c" "c_err c = 0" "length (ELF_BUF c) = 4096"
    "clen c = length (program_code ss)" "take (clen c) (drop 120 (ELF_BUF c)) = program_code ss"
    using program_compiled [OF assms(1-6)] by blast
  have "120 + clen c < 2 ^ 64" using assms(4) c(4) by simp
  note d = image_fields(11) [OF c(3) this]
  have "length (program_code ss) < 2 ^ 31" using assms(4) by simp
  from code_runs [OF assms(1,2) this assms(7,8)] obtain m' where
    "goes K (program_code ss) m m'" "exits (program_code ss) m' 0" "printed m' = out" by blast
  then show ?thesis using c d
    by (intro exI [of _ "clen c"] exI [of _ "write_elf_headers (120 + clen c) (ELF_BUF c)"] exI [of _ m'])
      (simp add: c_compile_def Let_def)
qed

lemma countdown_means: "\<exists>\<rho>'. mean 12 False countdown (\<rho>, []) = Some (False, \<rho>', [(12, True), (6, True)])"
proof -
  have twelve: "(12 :: nat) = Suc (Suc (Suc (Suc (Suc (Suc (Suc (Suc (Suc (Suc (Suc (Suc 0)))))))))))" by simp
  show ?thesis unfolding twelve by (simp add: countdown_def bytes_of_def op_value_def)
qed

theorem barrelc_correct_witness:
  "\<exists>len img m'. c_compile 60 (source_of countdown) (replicate 4096 0) = Some (Inr (120 + len), img) \<and>
     printed m' = [(12, True), (6, True)] \<and> exits (take len (drop 120 img)) m' 0"
proof -
  let ?m = "\<lparr>ip = 0, rax = 0, rcx = 0, rdx = 0, rdi = 0, rsi = 0, rsp = 0x7FFFF000, rbp = 0, fl = None, ram = \<lambda>_. 0, printed = []\<rparr>"
  obtain \<rho> where r: "mean 12 False countdown (found (add_names [] (names_ss countdown)) ?m, printed ?m) =
      Some (False, \<rho>, [(12, True), (6, True)])"
    using countdown_means by auto
  have "length (program_code countdown) \<le> 3976" "ip ?m = 0" using countdown_length by simp_all
  from barrelc_correct [OF countdown_ok(1-3) this(1) _ countdown_ok(4) this(2) r, of "replicate 4096 0" "\<lambda>_. (0, 0, 0, 0, 0)"]
  show ?thesis unfolding Let_def by (simp only: length_replicate) blast
qed

end
