(* ===== verification/Spec2Isabelle.thy ===== *)
theory Spec2Isabelle
  imports Paging Ramfs Keyboard Syscall Context Config Font Framebuffer Terminal Graphics Barrel
    Arpcache Netflow Dnsnames Mouse Blockfs Winprops Hid Clock Barrelrun
begin

text \<open>
  Verification of the PureOS kernel, a single-address-space-per-process kernel in Rust under \<open>src/kernel/src\<close>.

  \<^bold>\<open>The program.\<close> The kernel owns a pool of physical frames, builds page tables from it, keeps a table of 64
  processes that are scheduled round-robin from a timer interrupt, and serves 40 system calls: memory, rendezvous
  messages, a console, descriptors on an in-RAM file system, and drawing. Programs come in as ELF images. Output goes to
  a text console drawn with bitmap fonts into a linear framebuffer, and settings are kept in a file. Around this core
  stand a network stack with a driver, a disk driver with a file system of its own, a window manager with mouse and
  keyboard, and a small language with an interpreter and a compiler to machine code.

  \<^bold>\<open>Theories and the files they model.\<close>
  \<^item> \<open>Prelude\<close>: machine integers as words, little-endian codec, byte-addressed physical memory, page arithmetic.
  \<^item> \<open>Frame\<close> (\<open>frame.rs\<close>): the frame allocator, a bump pointer and a free list threaded through the free frames. Its
    contract is the locale \<open>frame_pool\<close>; the lemmas show exclusive, zeroed, exactly counted frames and reclamation.
  \<^item> \<open>Paging\<close> (\<open>cpu.rs\<close>): GDT and TSS descriptors, \<open>map_page\<close> and the walk over four levels, against a model of the
    processor's translation; a mapped address translates to its frame and no other translation changes.
  \<^item> \<open>Keyboard\<close> (\<open>keyboard.rs\<close>): scancodes and the ring buffer, which meets the locale \<open>bounded_queue\<close>.
  \<^item> \<open>Process\<close>, \<open>Layer\<close>, \<open>Scheduler\<close>, \<open>Ipc\<close> (\<open>syscall.rs\<close>): the process table, user memory, scheduling with
    preemption, and synchronous messages. Shown: fairness, reclamation of frames, isolation of user ranges, delivery of
    exactly the sender's bytes, whichever side comes first.
  \<^item> \<open>Context\<close> (\<open>context.rs\<close>): the context switch, one step per assembly instruction; a process resumes with the
    registers it was suspended with.
  \<^item> \<open>Elf\<close> (\<open>elf.rs\<close>, \<open>pos.rs\<close>): the program loaders, every rejection and the rights of the mapped pages.
  \<^item> \<open>Ramfs\<close> (\<open>fs.rs\<close>): the file system's node table and data pool. Every reachable state is a tree with disjoint
    files; the locale \<open>file_store\<close> is the contract that \<open>Config\<close> and the descriptors rely on.
  \<^item> \<open>Syscall\<close> (\<open>syscall.rs\<close>): all 40 calls and the dispatcher. Shown: the calls 10--14, 16--40 and unknown ones
    change only the caller's memory and descriptors, the console, the keyboard queue and the file written to; line input
    works among other runnable processes; files are read to their end.
  \<^item> \<open>Text\<close>, \<open>Config\<close>, \<open>Font\<close> (\<open>terminal.rs\<close>, \<open>config.rs\<close>, \<open>font.rs\<close>): numbers as text, settings and their file,
    glyph tables.
  \<^item> \<open>Framebuffer\<close> (\<open>framebuffer.rs\<close>): pixels, rectangles, glyphs, blur and blend over video memory. The locale
    \<open>pixel_surface\<close> is what all drawing relies on.
  \<^item> \<open>Terminal\<close> (\<open>terminal.rs\<close>): the console. It simulates (locale \<open>simulation\<close>) an abstract grid of characters.
  \<^item> \<open>Graphics\<close> (\<open>graphics.rs\<close>): lines, rectangles, circles; and the display that performs the console events which
    system calls emit, joining \<open>Syscall\<close> with \<open>Terminal\<close>.
  \<^item> \<open>Inet\<close>, \<open>Ethernet\<close>, \<open>Netclient\<close> (\<open>net/mod.rs\<close>, \<open>net/eth.rs\<close>, \<open>net/dns.rs\<close>, \<open>net/dhcp.rs\<close>, \<open>net/http.rs\<close>,
    \<open>cmd_net\<close> of \<open>commands.rs\<close>): addresses and checksums, ARP, IPv4, UDP and TCP, and the clients above them. \<open>Nic\<close>
    (\<open>net/nic.rs\<close>): the card's driver.
  \<^item> \<open>Arpcache\<close>, \<open>Receiver\<close>, \<open>Netprops\<close>, \<open>Netflow\<close>, \<open>Dnsnames\<close>: what holds of the network stack. The cache meets the
    locale \<open>bounded_table\<close>; receiving a frame, which may send and so receive again, needs no more nesting than there are
    frames to come and keeps the state well formed; datagrams, segments and host names arrive as they were sent
    (datagrams at the handlers of their source port, as the code reads the ports), and a connection is opened or times out.
  \<^item> \<open>Blockfs\<close> (\<open>ata.rs\<close>, \<open>blockfs.rs\<close>): the disk driver and the file system on the disk. The locale \<open>sector_store\<close> is what
    the latter relies on. Shown: inodes are read back as written where they lie within a sector, and where the layout is
    at fault.
  \<^item> \<open>Mouse\<close> (\<open>ps2mouse.rs\<close>), \<open>Hid\<close> (\<open>usb/hid.rs\<close>): packets and reports to cursor positions and characters. The cursor
    stays on the screen, and hiding it leaves no trace.
  \<^item> \<open>Window\<close>, \<open>Winprops\<close> (\<open>window.rs\<close>): the window manager. Numbers and heights of windows are unique as long as no
    window is minimised when the desktop starts again, redrawing goes from the lowest window to the highest, clicks and drags do what they should; minimised windows can get lost.
  \<^item> \<open>Clock\<close> (\<open>cmos.rs\<close>): the real-time clock. It is read as it shows, in all formats but one.
  \<^item> \<open>Barrel\<close> (\<open>barrel.rs\<close>): lexer and interpreter of the scripting language. Expressions evaluate to the value of
    their syntax tree; statements are shown to deviate from their documentation.
  \<^item> \<open>Barrelc\<close> (\<open>barrelc.rs\<close>): the compiler. \<open>Barrelcode\<close> gives syntax trees, their text and their code, and proves the
    lexer and the expressions right; \<open>Barrelprog\<close> the statements with their patched jumps, and the ELF image;
    \<open>Barrelrun\<close> models the processor on the emitted instructions and proves that compiled programs do what they mean.

  \<^bold>\<open>State and effects.\<close> The statics of each file are a record, and every function takes and returns it. Panics and
  page faults are \<open>None\<close>. Arithmetic wraps as in a release build. What a function prints is a list of bytes or of
  console events that \<open>Graphics.perform\<close> carries out. Interrupts and device input are arguments: scancodes and timer
  ticks arrive as explicit steps.

  \<^bold>\<open>Loops and bounds.\<close> Recursion is structural over index lists wherever the code counts; searches and tables have the
  code's own bounds. Loops without an evident bound (counting the free list, waiting for input, \<open>draw_line\<close>,
  \<open>draw_circle\<close>) are partial functions into an option, and theorems about them state that they return. \<open>draw_line\<close>
  does so for coordinates below \<open>2\<^sup>3\<^sup>0\<close>, and provably not for all. Barrel scripts run on fuel; 66 units evaluate
  any expression, as each operand takes one of 64 tokens. The compiler's descent runs on fuel too: more than the number of
  tokens is enough for every program, and a stray closing brace is shown to exhaust any amount. The network's waits run
  on a script of timer readings and frames: a call ends, panics, waits at the end of its script, or (\<open>Deep\<close>) has used up
  the levels of nesting it was given; as many levels as frames are always enough.

  \<^bold>\<open>Parameters.\<close> The placement of the kernel's stacks and of the processes' memory is a record \<open>layout\<close> with the
  properties the linker and the loader provide; \<open>demo_layout\<close> is an instance. The boot banner's memory sizes and
  processor count are arguments.

  \<^bold>\<open>Not modelled.\<close> The USB host controller, sound, multi-processor start-up, interrupt descriptor set-up and
  firmware calls are privileged instructions or registers whose behaviour is the device's. The desktop, its programs,
  the games and the shell compose drawing, windows and files that are modelled here; their own code is mostly text and
  layout. The image decoders are not modelled. The compiled programs' instructions are separate from the memory they
  write, as the stack lies far from the image.
\<close>

end
